(* ===== verification/Prelude.thy ===== *)
theory Prelude
  imports Main "HOL-Library.AList" "HOL-Library.Word"
begin

unbundle bit_operations_syntax

section \<open>Prelude: errors, loops, dictionaries, bit fields, machines\<close>

text \<open>
  Shared vocabulary of the development. A Python method that may raise is a function into
  \<open>py_error + 'a\<close>: \<open>Inl\<close> is the exception class that is raised, \<open>Inr\<close> the
  normal result, with the updated object state first. A \<open>for\<close> loop whose body may raise is
  \<open>rfold\<close>. A \<open>dict\<close> is an association list kept in insertion order, as Python does:
  \<open>AList.update\<close> overwrites in place or appends, \<open>AList.delete\<close> is \<open>del\<close>, \<open>dget\<close> is
  \<open>dict.get\<close>. Python integers are \<open>int\<close>, and \<open>fld w k n\<close> is
  \<open>(w >> k) & ((1 << n) - 1)\<close>. Checks of the form \<open>type(x) is not int\<close> are discharged by the
  types of HOL and do not appear. Synchronous objects (\<open>step\<close>, \<open>tick\<close>) are step functions; the
  locale \<open>machine\<close> lifts a one-step invariant to every run and every reachable state.
\<close>

subsection \<open>Errors as values\<close>

datatype py_error =
  TypeError | ValueError | RuntimeError | AssertionError | BufferError | KeyError
| IndexError | StopIteration | AttributeError | TimeoutError | OverflowError | ZeroDivisionError

definition rbind :: "'e + 'a \<Rightarrow> ('a \<Rightarrow> 'e + 'b) \<Rightarrow> 'e + 'b" where
  "rbind r f = (case r of Inl e \<Rightarrow> Inl e | Inr x \<Rightarrow> f x)"

lemma rbind_Inl [simp]: "rbind (Inl e) f = Inl e"
  by (simp add: rbind_def)

lemma rbind_Inr [simp]: "rbind (Inr x) f = f x"
  by (simp add: rbind_def)

lemma rbind_eq_Inr [simp]: "rbind r f = Inr y \<longleftrightarrow> (\<exists>x. r = Inr x \<and> f x = Inr y)"
  by (cases r) simp_all

lemma rbind_eq_Inl: "rbind r f = Inl e \<longleftrightarrow> r = Inl e \<or> (\<exists>x. r = Inr x \<and> f x = Inl e)"
  by (cases r) simp_all

definition ensure :: "bool \<Rightarrow> py_error + unit" where
  "ensure b = (if b then Inr () else Inl ValueError)"

lemma ensure_eq_Inr [simp]: "ensure b = Inr u \<longleftrightarrow> b"
  by (simp add: ensure_def)

lemma ensure_True [simp]: "ensure True = Inr ()"
  by (simp add: ensure_def)

lemma ensureD: "rbind (ensure b) f = Inr x \<Longrightarrow> b"
  by (cases b) (simp_all add: ensure_def)

lemma ensure_False [simp]: "ensure False = Inl ValueError"
  by (simp add: ensure_def)

lemma rbind_ensure: "rbind (ensure b) f = (if b then f () else Inl ValueError)"
  by (simp add: ensure_def)

subsection \<open>Loops that may raise\<close>

fun rfold :: "('s \<Rightarrow> 'x \<Rightarrow> 'e + 's) \<Rightarrow> 's \<Rightarrow> 'x list \<Rightarrow> 'e + 's" where
  "rfold f s [] = Inr s"
| "rfold f s (x # xs) = rbind (f s x) (\<lambda>s'. rfold f s' xs)"

fun rmap :: "('x \<Rightarrow> 'e + 'y) \<Rightarrow> 'x list \<Rightarrow> 'e + 'y list" where
  "rmap f [] = Inr []"
| "rmap f (x # xs) = rbind (f x) (\<lambda>y. rbind (rmap f xs) (\<lambda>ys. Inr (y # ys)))"

lemma rfold_inv:
  assumes "rfold f s xs = Inr t" and "P s"
    and "\<And>s x s'. x \<in> set xs \<Longrightarrow> P s \<Longrightarrow> f s x = Inr s' \<Longrightarrow> P s'"
  shows "P t"
  using assms
proof (induction xs arbitrary: s)
  case Nil
  then show ?case by simp
next
  case (Cons x xs)
  from Cons.prems(1) obtain s' where s': "f s x = Inr s'" "rfold f s' xs = Inr t"
    by auto
  have "P s'" using Cons.prems(2,3) s'(1) by (meson list.set_intros(1))
  with s'(2) show ?case
    by (rule Cons.IH) (meson Cons.prems(3) list.set_intros(2))
qed

lemma rfold_append:
  "rfold f s (xs @ ys) = rbind (rfold f s xs) (\<lambda>s'. rfold f s' ys)"
proof (induction xs arbitrary: s)
  case Nil
  then show ?case by simp
next
  case (Cons x xs)
  then show ?case by (cases "f s x") simp_all
qed

lemma rmap_Inr_all:
  "rmap f xs = Inr ys \<Longrightarrow> list_all2 (\<lambda>x y. f x = Inr y) xs ys"
  by (induction xs arbitrary: ys) auto

lemma rmap_ok: "(\<And>x. x \<in> set xs \<Longrightarrow> f x = Inr (g x)) \<Longrightarrow> rmap f xs = Inr (map g xs)"
  by (induction xs) auto

lemma rmap_map: "rmap f (map g xs) = rmap (f \<circ> g) xs"
  by (induction xs) simp_all

lemma rmap_total: "(\<And>x. x \<in> set xs \<Longrightarrow> \<exists>y. f x = Inr y) \<Longrightarrow> \<exists>ys. rmap f xs = Inr ys"
  by (induction xs) fastforce+

lemma rmap_nth:
  "rmap f xs = Inr ys \<Longrightarrow> length ys = length xs \<and> (\<forall>i < length xs. f (xs ! i) = Inr (ys ! i))"
  using rmap_Inr_all [of f xs ys] by (simp add: list_all2_conv_all_nth)

subsection \<open>Which exceptions can be raised\<close>

definition raises_only :: "'e set \<Rightarrow> 'e + 'a \<Rightarrow> bool" where
  "raises_only E r \<longleftrightarrow> (\<forall>e. r = Inl e \<longrightarrow> e \<in> E)"

named_theorems raises_intros \<open>closure of \<open>raises_only\<close> under the control structures\<close>

lemma raises_onlyD: "raises_only E r \<Longrightarrow> r = Inl e \<Longrightarrow> e \<in> E"
  by (simp add: raises_only_def)

lemma raises_Inr [raises_intros]: "raises_only E (Inr x)"
  by (simp add: raises_only_def)

lemma raises_Inl [raises_intros]: "e \<in> E \<Longrightarrow> raises_only E (Inl e)"
  by (simp add: raises_only_def)

lemma raises_ensure [raises_intros]: "ValueError \<in> E \<Longrightarrow> raises_only E (ensure b)"
  by (simp add: raises_only_def ensure_def)

lemma raises_rbind [raises_intros]:
  "raises_only E r \<Longrightarrow> (\<And>x. r = Inr x \<Longrightarrow> raises_only E (f x)) \<Longrightarrow> raises_only E (rbind r f)"
  by (cases r) (simp_all add: raises_only_def)

lemma raises_if [raises_intros]:
  "(b \<Longrightarrow> raises_only E r) \<Longrightarrow> (\<not> b \<Longrightarrow> raises_only E s) \<Longrightarrow> raises_only E (if b then r else s)"
  by simp

lemma raises_case_option [raises_intros]:
  "(x = None \<Longrightarrow> raises_only E r) \<Longrightarrow> (\<And>y. x = Some y \<Longrightarrow> raises_only E (f y)) \<Longrightarrow>
     raises_only E (case x of None \<Rightarrow> r | Some y \<Rightarrow> f y)"
  by (cases x) simp_all

lemma raises_case_list [raises_intros]:
  "(x = [] \<Longrightarrow> raises_only E r) \<Longrightarrow> (\<And>y ys. x = y # ys \<Longrightarrow> raises_only E (f y ys)) \<Longrightarrow>
     raises_only E (case x of [] \<Rightarrow> r | y # ys \<Rightarrow> f y ys)"
  by (cases x) simp_all

lemma raises_case_prod [raises_intros]:
  "(\<And>a b. p = (a, b) \<Longrightarrow> raises_only E (f a b)) \<Longrightarrow> raises_only E (case p of (a, b) \<Rightarrow> f a b)"
  by (cases p) simp

lemma raises_case_prod_app [raises_intros]:
  "(\<And>a b. p = (a, b) \<Longrightarrow> raises_only E (f a b x)) \<Longrightarrow>
     raises_only E ((case p of (a, b) \<Rightarrow> f a b) x)"
  by (cases p) simp

lemma raises_Let [raises_intros]: "raises_only E (f x) \<Longrightarrow> raises_only E (Let x f)"
  by simp

lemma raises_rfold [raises_intros]:
  "(\<And>s x. raises_only E (f s x)) \<Longrightarrow> raises_only E (rfold f s xs)"
  by (induction xs arbitrary: s) (auto intro!: raises_intros)

lemma raises_rmap [raises_intros]:
  "(\<And>x. raises_only E (f x)) \<Longrightarrow> raises_only E (rmap f xs)"
  by (induction xs) (auto intro!: raises_intros)

subsection \<open>Dictionaries\<close>

definition dget :: "('k \<times> 'v) list \<Rightarrow> 'k \<Rightarrow> 'v \<Rightarrow> 'v" where
  "dget al k d = (case map_of al k of None \<Rightarrow> d | Some v \<Rightarrow> v)"

lemma dget_Nil [simp]: "dget [] k d = d"
  by (simp add: dget_def)

lemma dget_Cons: "dget ((k', v) # al) k d = (if k' = k then v else dget al k d)"
  by (simp add: dget_def)

lemma dget_update: "dget (AList.update k v al) k' d = (if k' = k then v else dget al k' d)"
  by (simp add: dget_def update_conv')

lemma dget_map_const: "dget (map (\<lambda>(k, v). (k, c)) al) k c = c"
  by (induction al) (auto simp: dget_Cons)

lemma dget_all:
  "list_all (\<lambda>(k, v). P k v) al \<Longrightarrow> P k d \<Longrightarrow> P k (dget al k d)"
  by (induction al) (auto simp: dget_Cons)

lemma map_of_dget: "map_of al k = Some v \<Longrightarrow> dget al k d = v"
  by (simp add: dget_def)

lemma dget_memD: "dget al k d \<noteq> d \<Longrightarrow> k \<in> fst ` set al"
  by (induction al) (auto simp: dget_Cons split: if_splits)

definition dict_of :: "('k \<times> 'v) list \<Rightarrow> ('k \<times> 'v) list" where
  "dict_of kvs = fold (\<lambda>(k, v) al. AList.update k v al) kvs []"

lemma distinct_fold_update:
  "distinct (map fst al) \<Longrightarrow>
     distinct (map fst (fold (\<lambda>(k, v) al. AList.update k v al) kvs al))"
  by (induction kvs arbitrary: al) (auto simp: distinct_update)

lemma distinct_dict_of [simp]: "distinct (map fst (dict_of kvs))"
  by (simp add: dict_of_def distinct_fold_update)

lemma list_all_update:
  "list_all P al \<Longrightarrow> P (k, v) \<Longrightarrow> list_all P (AList.update k v al)"
  by (induction al) (auto split: if_splits)

lemma update_keys: "fst ` set (AList.update k v al) = insert k (fst ` set al)"
  using dom_update [of k v al] by (simp add: dom_map_of_conv_image_fst)

lemma delete_keys: "fst ` set (AList.delete k al) = fst ` set al - {k}"
  by (induction al) auto

lemma map_of_mem: "map_of al k = Some v \<Longrightarrow> (k, v) \<in> set al"
  by (rule map_of_SomeD)

lemma map_of_key: "map_of al k = Some v \<Longrightarrow> k \<in> fst ` set al"
  by (metis domI dom_map_of_conv_image_fst)

lemma distinct_one:
  assumes "distinct xs" and "set xs = {x}"
  shows "xs = [x]"
proof -
  have "length xs = 1" using distinct_card [OF assms(1)] assms(2) by simp
  then obtain y where "xs = [y]" by (cases xs) auto
  with assms(2) show ?thesis by simp
qed

subsection \<open>Bit fields of unbounded integers\<close>

definition fld :: "int \<Rightarrow> nat \<Rightarrow> nat \<Rightarrow> int" where
  "fld w k n = take_bit n (drop_bit k w)"

definition fits :: "nat \<Rightarrow> int \<Rightarrow> bool" where
  "fits n v \<longleftrightarrow> 0 \<le> v \<and> v < 2 ^ n"

lemma fld_range: "0 \<le> fld w k n" "fld w k n < 2 ^ n"
  by (simp_all add: fld_def)

lemma fits_fld [simp]: "fits n (fld w k n)"
  by (simp add: fits_def fld_range)

lemma fits_fld_le: "n \<le> m \<Longrightarrow> fits m (fld w k n)"
  using fld_range [of w k n] by (auto simp: fits_def intro: order_less_le_trans power_increasing)

lemma fld_or: "fld (x OR y) k n = fld x k n OR fld y k n"
  by (simp add: fld_def)

lemma fld_0 [simp]: "fld 0 k n = 0"
  by (simp add: fld_def)

lemma fits_bit: "fits n g \<Longrightarrow> n \<le> m \<Longrightarrow> \<not> bit g m"
  by (metis fits_def bit_take_bit_iff linorder_not_le take_bit_int_eq_self)

lemma fld_hit: "fits n g \<Longrightarrow> fld (push_bit k g) k n = g"
  by (rule bit_eqI) (use fits_bit in \<open>auto simp: fld_def bit_simps not_le [symmetric]\<close>)

lemma fld_hit_base: "fits n g \<Longrightarrow> fld g 0 n = g"
  by (simp add: fld_def fits_def take_bit_int_eq_self)

lemma fld_below:
  assumes "fits m g" and "j + m \<le> k"
  shows "fld (push_bit j g) k n = 0"
proof (rule bit_eqI)
  fix i
  have "\<not> bit g (k + i - j)" using assms by (intro fits_bit [OF assms(1)]) simp
  then show "bit (fld (push_bit j g) k n) i = bit (0::int) i"
    using assms(2) by (simp add: fld_def bit_simps)
qed

lemma fld_below_base: "fits m g \<Longrightarrow> m \<le> k \<Longrightarrow> fld g k n = 0"
  using fld_below [of m g 0 k n] by simp

lemma fld_above: "k + n \<le> j \<Longrightarrow> fld (push_bit j g) k n = 0"
  by (rule bit_eqI) (auto simp: fld_def bit_simps)

lemma fits_of_bool [simp]: "fits (Suc 0) (of_bool b)"
  by (simp add: fits_def)

lemma fits_1_of_bool [simp]: "fits 1 (of_bool b)"
  by (simp add: fits_def)

lemma fits_0 [simp]: "fits n 0"
  by (simp add: fits_def)

lemma fits_mono: "fits n v \<Longrightarrow> n \<le> m \<Longrightarrow> fits m v"
  by (auto simp: fits_def intro: order_less_le_trans power_increasing)

lemma fits_xor: "fits n x \<Longrightarrow> fits n y \<Longrightarrow> fits n (x XOR y)"
  by (auto simp: fits_def XOR_upper)

lemma fits_or: "fits n x \<Longrightarrow> fits n y \<Longrightarrow> fits n (x OR y)"
  by (auto simp: fits_def OR_upper)

lemma fits_push: "fits m g \<Longrightarrow> k + m \<le> n \<Longrightarrow> fits n (push_bit k g)"
proof -
  assume a: "fits m g" "k + m \<le> n"
  then have "g * 2 ^ k < 2 ^ m * 2 ^ k" by (simp add: fits_def)
  also have "\<dots> \<le> 2 ^ n" using a(2) by (simp flip: power_add add: add.commute)
  finally show ?thesis using a by (simp add: fits_def push_bit_eq_mult)
qed

lemma fld_self: "fits n w \<Longrightarrow> fld w 0 n = w"
  by (rule fld_hit_base)

lemma fits_drop: "fits m w \<Longrightarrow> m \<le> k + n \<Longrightarrow> fits n (drop_bit k w)"
  using fits_fld [of n w k] fits_mono [of m w "k + n"] fld_self [of "k + n" w] drop_bit_take_bit [of k "k + n" w]
  by (simp add: fld_def)

lemma fld_fld: "j + n \<le> m \<Longrightarrow> fld (fld w k m) j n = fld w (k + j) n"
  by (rule bit_eqI) (auto simp: fld_def bit_simps ac_simps)

lemma bit_fld: "bit (fld w k n) i \<longleftrightarrow> i < n \<and> bit w (k + i)"
  by (simp add: fld_def bit_simps)

lemma fld_one: "fld w k 1 = of_bool (bit w k)"
  by (rule bit_eqI) (auto simp: fld_def bit_simps simp flip: bit_iff_odd_drop_bit)

named_theorems field_simps_of
  \<open>extraction of one field from a word packed with \<open>OR\<close> and shifts\<close>

lemmas field_access [field_simps_of] =
  fld_or fld_hit fld_hit_base fld_below fld_below_base fld_above

text \<open>\<open>int.bit_length\<close> of the Python library.\<close>

function bit_length :: "int \<Rightarrow> nat" where
  "bit_length n = (if n \<le> 0 then 0 else Suc (bit_length (n div 2)))"
  by auto
termination by (relation "measure nat") auto

declare bit_length.simps [simp del]

lemma div_below:
  assumes "a < n * m" "0 < m"
  shows "a div m < (n::int)"
proof -
  have "a div m * m \<le> a" using assms(2) pos_mod_sign [of m a] div_mult_mod_eq [of a m] by linarith
  with assms(1) have "a div m * m < n * m" by linarith
  with assms(2) show ?thesis by simp
qed

lemma bit_length_bound: "0 \<le> n \<Longrightarrow> n < 2 ^ bit_length n"
proof (induction n rule: bit_length.induct)
  case (1 n)
  show ?case
  proof (cases "n \<le> 0")
    case False
    then have "n div 2 < 2 ^ bit_length (n div 2)" using 1 by simp
    then show ?thesis using False by (simp add: bit_length.simps [of n])
  qed (use 1 in \<open>simp add: bit_length.simps\<close>)
qed

lemma bit_length_lower: "0 < n \<Longrightarrow> 2 ^ (bit_length n - 1) \<le> n"
proof (induction n rule: bit_length.induct)
  case (1 n)
  show ?case
  proof (cases "n = 1")
    case False
    with 1 have d: "0 < n div 2" and ih: "2 ^ (bit_length (n div 2) - 1) \<le> n div 2" by auto
    from d have "0 < bit_length (n div 2)" by (simp add: bit_length.simps [of "n div 2"])
    then have "(2::int) ^ (bit_length n - 1) = 2 * 2 ^ (bit_length (n div 2) - 1)"
      using 1(2) by (simp add: bit_length.simps [of n] flip: power_Suc)
    with ih show ?thesis by linarith
  qed (simp add: bit_length.simps)
qed

lemma bit_length_pos: "0 < n \<Longrightarrow> 0 < bit_length n"
  by (simp add: bit_length.simps [of n])

subsection \<open>Runs and reachable states of a synchronous object\<close>

fun run :: "('s \<Rightarrow> 'i \<Rightarrow> 'e + 's \<times> 'o) \<Rightarrow> 's \<Rightarrow> 'i list \<Rightarrow> 'e + 's \<times> 'o list" where
  "run step s [] = Inr (s, [])"
| "run step s (i # is) =
     rbind (step s i) (\<lambda>(s', out). rbind (run step s' is) (\<lambda>(t, outs). Inr (t, out # outs)))"

lemma run_Cons_Inr:
  "run step s (i # is) = Inr (t, outs) \<longleftrightarrow>
     (\<exists>s' out outs'. step s i = Inr (s', out) \<and> run step s' is = Inr (t, outs') \<and> outs = out # outs')"
  by auto

lemma run_ConsE:
  assumes "run step s (i # is) = Inr (t, outs)"
  obtains s' out outs' where "step s i = Inr (s', out)" "run step s' is = Inr (t, outs')"
    "outs = out # outs'"
  using assms by (auto simp: run_Cons_Inr)

inductive reach :: "('s \<Rightarrow> 'i \<Rightarrow> 'e + 's \<times> 'o) \<Rightarrow> 's \<Rightarrow> 's \<Rightarrow> bool"
  for step :: "'s \<Rightarrow> 'i \<Rightarrow> 'e + 's \<times> 'o" and s0 :: 's where
  reach_start: "reach step s0 s0"
| reach_step: "reach step s0 s \<Longrightarrow> step s i = Inr (s', out) \<Longrightarrow> reach step s0 s'"

lemma reach_run: "reach step s0 s \<Longrightarrow> run step s is = Inr (t, outs) \<Longrightarrow> reach step s0 t"
proof (induction "is" arbitrary: s outs)
  case Nil
  then show ?case by simp
next
  case (Cons i "is")
  then show ?case by (auto intro: reach_step)
qed

lemma run_length: "run step s is = Inr (t, outs) \<Longrightarrow> length outs = length is"
  by (induction "is" arbitrary: s outs) auto

text \<open>The state a run ends in, for runs known to succeed.\<close>

definition final :: "('s \<Rightarrow> 'i \<Rightarrow> 'e + 's \<times> 'o) \<Rightarrow> 's \<Rightarrow> 'i list \<Rightarrow> 's" where
  "final step s is = fst (projr (run step s is))"

definition outputs :: "('s \<Rightarrow> 'i \<Rightarrow> 'e + 's \<times> 'o) \<Rightarrow> 's \<Rightarrow> 'i list \<Rightarrow> 'o list" where
  "outputs step s is = snd (projr (run step s is))"

lemma projr_ok: "\<not> isl r \<Longrightarrow> r = Inr (projr r)"
  by (cases r) simp_all

lemma run_final: "\<not> isl (run step s is) \<Longrightarrow> run step s is = Inr (final step s is, outputs step s is)"
  by (simp add: final_def outputs_def projr_ok)

lemma reach_final: "\<not> isl (run step s0 is) \<Longrightarrow> reach step s0 (final step s0 is)"
  by (rule reach_run [OF reach_start run_final])

locale machine =
  fixes step :: "'s \<Rightarrow> 'i \<Rightarrow> 'e + 's \<times> 'o"
    and inv :: "'s \<Rightarrow> bool"
  assumes step_inv: "inv s \<Longrightarrow> step s i = Inr (s', out) \<Longrightarrow> inv s'"
begin

lemma reach_inv: "reach step s0 s \<Longrightarrow> inv s0 \<Longrightarrow> inv s"
  by (induction rule: reach.induct) (auto intro: step_inv)

lemma run_inv: "run step s is = Inr (t, outs) \<Longrightarrow> inv s \<Longrightarrow> inv t"
  by (induction "is" arbitrary: s outs) (auto dest: step_inv)

end

text \<open>
  A machine through which items flow in order: each step takes items in at the back of its contents
  and gives items out at the front. Over a run nothing is lost, duplicated or reordered.
\<close>

locale flow = machine +
  fixes contents :: "'a \<Rightarrow> 'x list"
    and taken :: "'b \<Rightarrow> 'd \<Rightarrow> 'x list"
    and given :: "'d \<Rightarrow> 'x list"
  assumes flow_step: "inv s \<Longrightarrow> step s i = Inr (s', out) \<Longrightarrow>
      contents s @ taken i out = given out @ contents s'"
begin

lemma flow_run:
  "run step s is = Inr (t, outs) \<Longrightarrow> inv s \<Longrightarrow>
     contents s @ concat (map2 taken is outs) = concat (map given outs) @ contents t"
proof (induction "is" arbitrary: s outs)
  case Nil
  then show ?case by simp
next
  case (Cons i "is")
  from Cons.prems(1) obtain s' out outs' where t: "step s i = Inr (s', out)"
    and r: "run step s' is = Inr (t, outs')" and outs: "outs = out # outs'" by (rule run_ConsE)
  have inv': "inv s'" using step_inv [OF Cons.prems(2) t] .
  have "contents s @ concat (map2 taken (i # is) outs) =
      (contents s @ taken i out) @ concat (map2 taken is outs')"
    by (simp add: outs)
  also have "\<dots> = given out @ (contents s' @ concat (map2 taken is outs'))"
    using flow_step [OF Cons.prems(2) t] by simp
  also have "\<dots> = concat (map given outs) @ contents t"
    using Cons.IH [OF r inv'] by (simp add: outs)
  finally show ?case .
qed

end

text \<open>A machine all of whose steps succeed on good inputs never raises along a run.\<close>

locale total_machine = machine +
  fixes good :: "'s \<Rightarrow> 'i \<Rightarrow> bool"
  assumes step_total: "inv s \<Longrightarrow> good s i \<Longrightarrow> \<exists>s' out. step s i = Inr (s', out)"
begin

lemma run_total:
  "inv s \<Longrightarrow> (\<And>s i. i \<in> set is \<Longrightarrow> inv s \<Longrightarrow> good s i) \<Longrightarrow>
     \<exists>t outs. run step s is = Inr (t, outs) \<and> inv t"
proof (induction "is" arbitrary: s)
  case Nil
  then show ?case by simp
next
  case (Cons i "is")
  obtain s' out where s': "step s i = Inr (s', out)"
    using step_total Cons.prems by (meson list.set_intros(1))
  then have "inv s'" using step_inv Cons.prems(1) by blast
  then obtain t outs where "run step s' is = Inr (t, outs)" "inv t"
    using Cons.IH Cons.prems(2) by (meson list.set_intros(2))
  with s' show ?case by simp
qed

end

text \<open>
  A watched machine: a passive checker reads inputs and outputs and never objects.
\<close>

locale watched = machine +
  fixes watch :: "'m \<Rightarrow> 'b \<times> 'd \<Rightarrow> 'f + 'm"
    and rel :: "'a \<Rightarrow> 'm \<Rightarrow> bool"
  assumes watch_step: "inv s \<Longrightarrow> rel s m \<Longrightarrow> step s i = Inr (s', out) \<Longrightarrow>
      \<exists>m'. watch m (i, out) = Inr m' \<and> rel s' m'"
begin

lemma run_watched:
  "run step s is = Inr (t, outs) \<Longrightarrow> inv s \<Longrightarrow> rel s m \<Longrightarrow>
     \<exists>m'. rfold watch m (zip is outs) = Inr m' \<and> rel t m'"
proof (induction "is" arbitrary: s m outs)
  case Nil
  then show ?case by simp
next
  case (Cons i "is")
  from Cons.prems(1) obtain s' out outs' where t: "step s i = Inr (s', out)"
    and r: "run step s' is = Inr (t, outs')" and outs: "outs = out # outs'" by (rule run_ConsE)
  from watch_step [OF Cons.prems(2,3) t] obtain m1 where "watch m (i, out) = Inr m1" "rel s' m1"
    by blast
  with Cons.IH [OF r step_inv [OF Cons.prems(2) t]] show ?case by (auto simp: outs)
qed

end

text \<open>
  A machine refines a deterministic specification: seen through the abstraction, each step is the step of the
  specification and has its output, hence so is every run.
\<close>

fun spec_run :: "('a \<Rightarrow> 'i \<Rightarrow> 'a \<times> 'o) \<Rightarrow> 'a \<Rightarrow> 'i list \<Rightarrow> 'a \<times> 'o list" where
  "spec_run spec a [] = (a, [])"
| "spec_run spec a (i # is) =
     (let (a', out) = spec a i; (b, outs) = spec_run spec a' is in (b, out # outs))"

locale refines = machine +
  fixes abs :: "'a \<Rightarrow> 'x" and spec :: "'x \<Rightarrow> 'b \<Rightarrow> 'x \<times> 'd"
  assumes refines_step: "inv s \<Longrightarrow> step s i = Inr (s', out) \<Longrightarrow> spec (abs s) i = (abs s', out)"
begin

lemma run_refines: "run step s is = Inr (t, outs) \<Longrightarrow> inv s \<Longrightarrow> spec_run spec (abs s) is = (abs t, outs)"
proof (induction "is" arbitrary: s outs)
  case Nil
  then show ?case by simp
next
  case (Cons i "is")
  from Cons.prems(1) obtain s' out outs' where t: "step s i = Inr (s', out)"
    and r: "run step s' is = Inr (t, outs')" and outs: "outs = out # outs'" by (rule run_ConsE)
  show ?case
    using refines_step [OF Cons.prems(2) t] Cons.IH [OF r step_inv [OF Cons.prems(2) t]] by (simp add: outs)
qed

end

text \<open>
  A codec: what the encoder emits for a legal value, the decoder turns back into that value.
\<close>

locale codec =
  fixes enc :: "'a \<Rightarrow> 'e + 'w" and dec :: "'w \<Rightarrow> 'e + 'a" and legal :: "'a \<Rightarrow> bool"
  assumes enc_ok: "legal x \<Longrightarrow> \<exists>w. enc x = Inr w"
    and dec_enc: "legal x \<Longrightarrow> enc x = Inr w \<Longrightarrow> dec w = Inr x"
begin

lemma enc_inj: "legal x \<Longrightarrow> legal y \<Longrightarrow> enc x = enc y \<Longrightarrow> x = y"
  by (metis dec_enc enc_ok sum.inject(2))

lemma enc_dec_round: "legal x \<Longrightarrow> rbind (enc x) dec = Inr x"
  using enc_ok dec_enc by fastforce

end

end
