(* ===== verification/Upli_Credit.thy ===== *)
theory Upli_Credit
  imports Upli_Connection
begin

section \<open>UPLI sender credit ledger and receiver initialisation monitor\<close>

text \<open>
  Models \<open>simulator/UAlink2.0/model/ualink/upli_credit.py\<close>. A channel name is a Python string:
  the four names of \<open>CHANNELS\<close> are constructors and any other string is \<open>Other_Channel\<close>, which
  the checks reject. \<open>ledger_step\<close> is one atomic edge of \<open>UpliCreditLedger\<close>: the credit returns,
  the beats, the capacity check and the initialisation filter, in the order of the code; an
  exception leaves the object unchanged because the code commits at the end only. The lemmas show
  that balances stay within the configured capacities, that credit is conserved, and that no beat
  is paid with a credit of the same edge.
\<close>

datatype channel = Req | Orig_Data | Rd_Rsp | Wr_Rsp | Other_Channel string

definition channels :: "channel list" where
  "channels = [Req, Orig_Data, Rd_Rsp, Wr_Rsp]"

type_synonym slot = "int \<times> channel"

definition check_ports :: "int \<Rightarrow> py_error + int" where
  "check_ports num_ports = (if num_ports \<in> {1, 2, 4} then Inr num_ports else Inl ValueError)"

definition slot_of :: "int \<Rightarrow> channel \<Rightarrow> int \<Rightarrow> py_error + slot" where
  "slot_of port ch num_ports =
     (if \<not> (0 \<le> port \<and> port < num_ports) \<or> ch \<notin> set channels then Inl ValueError
      else Inr (port, ch))"

definition check_vc :: "int \<Rightarrow> py_error + int" where
  "check_vc vc = (if \<not> (0 \<le> vc \<and> vc < 4) then Inl ValueError else Inr vc)"

definition credit_connected :: "conn_signals \<Rightarrow> channel \<Rightarrow> bool" where
  "credit_connected conn ch =
     (if ch \<in> {Req, Orig_Data} then comp_connected conn else orig_connected conn)"

datatype account = Account (acc_port: int) (acc_channel: channel) (acc_vc: "int option")

record credit_return =
  cr_port :: int
  cr_channel :: channel
  cr_vc :: int
  cr_pool :: bool
  cr_count :: int
  cr_valid :: bool

record beat =
  bt_port :: int
  bt_channel :: channel
  bt_vc :: int
  bt_pool :: bool

record ledger =
  led_ports :: int
  led_stable :: int
  led_capacities :: "(account \<times> int) list"
  led_balances :: "(account \<times> int) list"
  led_streaks :: "(slot \<times> int) list"
  led_initialized :: "slot set"

definition check_account :: "int \<Rightarrow> account \<Rightarrow> py_error + unit" where
  "check_account n a =
     rbind (slot_of (acc_port a) (acc_channel a) n) (\<lambda>_.
       case acc_vc a of None \<Rightarrow> Inr () | Some vc \<Rightarrow> rbind (check_vc vc) (\<lambda>_. Inr ()))"

definition ledger_init :: "(account \<times> int) list \<Rightarrow> int \<Rightarrow> int \<Rightarrow> py_error + ledger" where
  "ledger_init capacities num_ports init_stable_cycles =
     rbind (check_ports num_ports) (\<lambda>n.
       if init_stable_cycles < 2 then Inl ValueError
       else let caps = dict_of capacities in
         rbind (rmap (\<lambda>(a, c). rbind (check_account n a) (\<lambda>_. ensure (0 \<le> c))) caps) (\<lambda>_.
           Inr \<lparr>led_ports = n, led_stable = init_stable_cycles, led_capacities = caps,
                led_balances = map (\<lambda>(a, _). (a, 0)) caps, led_streaks = [],
                led_initialized = {}\<rparr>))"

definition event_account :: "int \<Rightarrow> int \<Rightarrow> channel \<Rightarrow> int \<Rightarrow> bool \<Rightarrow> py_error + account" where
  "event_account n port ch vc pool =
     rbind (slot_of port ch n) (\<lambda>_. rbind (check_vc vc) (\<lambda>_.
       Inr (Account port ch (if pool then None else Some vc))))"

definition ledger_balance :: "ledger \<Rightarrow> account \<Rightarrow> py_error + int" where
  "ledger_balance L a = rbind (check_account (led_ports L) a) (\<lambda>_. Inr (dget (led_balances L) a 0))"

definition ledger_is_initialized :: "ledger \<Rightarrow> int \<Rightarrow> channel \<Rightarrow> py_error + bool" where
  "ledger_is_initialized L port ch =
     rbind (slot_of port ch (led_ports L)) (\<lambda>s. Inr (s \<in> led_initialized L))"

definition ledger_grant ::
  "int \<Rightarrow> conn_signals \<Rightarrow> (account \<times> int) list \<times> slot set \<Rightarrow> credit_return \<Rightarrow>
   py_error + (account \<times> int) list \<times> slot set" where
  "ledger_grant n conn = (\<lambda>(balances, seen) g.
     if \<not> cr_valid g then Inr (balances, seen)
     else rbind (event_account n (cr_port g) (cr_channel g) (cr_vc g) (cr_pool g)) (\<lambda>a.
       if (cr_port g, cr_channel g) \<in> seen then Inl ValueError
       else if \<not> credit_connected conn (cr_channel g) then Inl ValueError
       else if \<not> (0 \<le> cr_count g \<and> cr_count g \<le> 3) then Inl ValueError
       else Inr (AList.update a (dget balances a 0 + cr_count g + 1) balances,
                 insert (cr_port g, cr_channel g) seen)))"

definition ledger_beat ::
  "ledger \<Rightarrow> conn_signals \<Rightarrow> (account \<times> int) list \<times> channel set \<Rightarrow> beat \<Rightarrow>
   py_error + (account \<times> int) list \<times> channel set" where
  "ledger_beat L conn = (\<lambda>(balances, seen) b.
     rbind (event_account (led_ports L) (bt_port b) (bt_channel b) (bt_vc b) (bt_pool b)) (\<lambda>a.
       if bt_channel b \<in> seen then Inl ValueError
       else if \<not> beats_enabled conn \<or> (bt_port b, bt_channel b) \<notin> led_initialized L
         then Inl ValueError
       else if dget (led_balances L) a 0 < 1 then Inl ValueError
       else (case map_of balances a of
               None \<Rightarrow> Inl KeyError
             | Some v \<Rightarrow> Inr (AList.update a (v - 1) balances, insert (bt_channel b) seen))))"

definition ledger_filter ::
  "int \<Rightarrow> conn_signals \<Rightarrow> slot set \<Rightarrow> (slot \<times> int) list \<times> slot set \<Rightarrow> slot \<Rightarrow>
   py_error + (slot \<times> int) list \<times> slot set" where
  "ledger_filter cycles conn high = (\<lambda>(streaks, initialized) s.
     if s \<in> initialized then Inr (streaks, initialized)
     else if s \<in> high \<and> \<not> credit_connected conn (snd s) then Inl ValueError
     else let streak = (if s \<in> high then dget streaks s 0 + 1 else 0)
          in Inr (AList.update s streak streaks,
                  if streak \<ge> cycles then insert s initialized else initialized))"

definition ledger_step ::
  "ledger \<Rightarrow> conn_signals \<Rightarrow> credit_return list \<Rightarrow> beat list \<Rightarrow> slot list \<Rightarrow> bool \<Rightarrow>
   py_error + ledger" where
  "ledger_step L conn returns beats init_done reset =
     (if reset then
        Inr (L\<lparr>led_balances := map (\<lambda>(a, _). (a, 0)) (led_capacities L), led_streaks := [],
               led_initialized := {}\<rparr>)
      else
        rbind (rfold (ledger_grant (led_ports L) conn) (led_balances L, {}) returns) (\<lambda>(granted, _).
        rbind (rfold (ledger_beat L conn) (granted, {}) beats) (\<lambda>(balances, _).
        if \<not> list_all (\<lambda>(a, amount). 0 \<le> amount \<and> amount \<le> dget (led_capacities L) a 0) balances
          then Inl ValueError
        else
          rbind (rmap (\<lambda>(port, ch). slot_of port ch (led_ports L)) init_done) (\<lambda>high.
          rbind (rfold (ledger_filter (led_stable L) conn (set high))
                   (led_streaks L, led_initialized L)
                   (List.product [0..led_ports L - 1] channels)) (\<lambda>(streaks, initialized).
            Inr (L\<lparr>led_balances := balances, led_streaks := streaks,
                   led_initialized := initialized\<rparr>))))))"

definition monitor_step ::
  "int \<Rightarrow> slot set \<Rightarrow> slot list \<Rightarrow> slot list \<Rightarrow> bool \<Rightarrow> py_error + slot set" where
  "monitor_step n asserted credit_slots done_slots reset =
     (if reset then Inr {}
      else
        rbind (rmap (\<lambda>(port, ch). slot_of port ch n) credit_slots) (\<lambda>credits.
        rbind (rmap (\<lambda>(port, ch). slot_of port ch n) done_slots) (\<lambda>dones.
          if \<not> asserted \<subseteq> set dones then Inl ValueError
          else if (set dones - asserted) \<inter> set credits \<noteq> {} then Inl ValueError
          else Inr (set dones))))"

record ledger_input =
  li_conn :: conn_signals
  li_returns :: "credit_return list"
  li_beats :: "beat list"
  li_done :: "slot list"
  li_reset :: bool

definition ledger_tick :: "ledger \<Rightarrow> ledger_input \<Rightarrow> py_error + ledger \<times> unit" where
  "ledger_tick L i =
     rbind (ledger_step L (li_conn i) (li_returns i) (li_beats i) (li_done i) (li_reset i))
       (\<lambda>L'. Inr (L', ()))"

subsection \<open>Accounts and sums of events\<close>

definition return_account :: "credit_return \<Rightarrow> account" where
  "return_account g = Account (cr_port g) (cr_channel g) (if cr_pool g then None else Some (cr_vc g))"

definition beat_account :: "beat \<Rightarrow> account" where
  "beat_account b = Account (bt_port b) (bt_channel b) (if bt_pool b then None else Some (bt_vc b))"

definition legal_beat :: "int \<Rightarrow> beat \<Rightarrow> bool" where
  "legal_beat n b \<longleftrightarrow> 0 \<le> bt_port b \<and> bt_port b < n \<and> bt_channel b \<in> set channels \<and>
     0 \<le> bt_vc b \<and> bt_vc b < 4"

definition granted_to :: "account \<Rightarrow> credit_return list \<Rightarrow> int" where
  "granted_to a gs = (\<Sum>g\<leftarrow>gs. if cr_valid g \<and> return_account g = a then cr_count g + 1 else 0)"

definition spent_by :: "account \<Rightarrow> beat list \<Rightarrow> int" where
  "spent_by a bs = (\<Sum>b\<leftarrow>bs. if beat_account b = a then 1 else 0)"

lemma granted_to_simps [simp]:
  "granted_to a [] = 0"
  "granted_to a (g # gs) =
     (if cr_valid g \<and> return_account g = a then cr_count g + 1 else 0) + granted_to a gs"
  by (simp_all add: granted_to_def)

lemma spent_by_simps [simp]:
  "spent_by a [] = 0"
  "spent_by a (b # bs) = (if beat_account b = a then 1 else 0) + spent_by a bs"
  by (simp_all add: spent_by_def)

lemma spent_by_nonneg: "0 \<le> spent_by a bs"
  by (induction bs) auto

lemma spent_by_mem: "b \<in> set bs \<Longrightarrow> 1 \<le> spent_by (beat_account b) bs"
proof (induction bs)
  case Nil
  then show ?case by simp
next
  case (Cons c bs)
  then show ?case using spent_by_nonneg [of "beat_account b" bs] by auto
qed

lemma event_account_Inr [simp]:
  "event_account n p ch vc pool = Inr a \<longleftrightarrow>
     0 \<le> p \<and> p < n \<and> ch \<in> set channels \<and> 0 \<le> vc \<and> vc < 4 \<and>
     a = Account p ch (if pool then None else Some vc)"
  by (auto simp: event_account_def slot_of_def check_vc_def)

lemma ledger_grant_Inr:
  "ledger_grant n conn (bal, seen) g = Inr (bal', seen') \<Longrightarrow>
     dget bal' a 0 = dget bal a 0 + granted_to a [g]"
  by (auto simp: ledger_grant_def return_account_def dget_update split: if_splits)

lemma ledger_beat_Inr:
  "ledger_beat L conn (bal, seen) b = Inr (bal', seen') \<Longrightarrow>
     dget bal' a 0 = dget bal a 0 - spent_by a [b] \<and>
     bt_channel b \<notin> seen \<and> seen' = insert (bt_channel b) seen \<and>
     beats_enabled conn \<and> (bt_port b, bt_channel b) \<in> led_initialized L \<and>
     1 \<le> dget (led_balances L) (beat_account b) 0"
  by (auto simp: ledger_beat_def beat_account_def update_conv' dget_def split: if_splits option.splits)

lemma grants_sum:
  "rfold (ledger_grant n conn) (bal, seen) gs = Inr (bal', seen') \<Longrightarrow>
     dget bal' a 0 = dget bal a 0 + granted_to a gs"
proof (induction gs arbitrary: bal seen)
  case Nil
  then show ?case by simp
next
  case (Cons g gs)
  then obtain bal1 seen1 where "ledger_grant n conn (bal, seen) g = Inr (bal1, seen1)"
    and "rfold (ledger_grant n conn) (bal1, seen1) gs = Inr (bal', seen')"
    by auto
  with Cons.IH ledger_grant_Inr show ?case by (fastforce simp del: granted_to_simps(2) simp: granted_to_def)
qed

lemma beats_sum:
  "rfold (ledger_beat L conn) (bal, seen) bs = Inr (bal', seen') \<Longrightarrow>
     dget bal' a 0 = dget bal a 0 - spent_by a bs \<and>
     distinct (map bt_channel bs) \<and> set (map bt_channel bs) \<inter> seen = {} \<and>
     (\<forall>b\<in>set bs. beats_enabled conn \<and> (bt_port b, bt_channel b) \<in> led_initialized L \<and>
        1 \<le> dget (led_balances L) (beat_account b) 0)"
proof (induction bs arbitrary: bal seen)
  case Nil
  then show ?case by simp
next
  case (Cons b bs)
  then obtain bal1 seen1 where 1: "ledger_beat L conn (bal, seen) b = Inr (bal1, seen1)"
    and 2: "rfold (ledger_beat L conn) (bal1, seen1) bs = Inr (bal', seen')"
    by auto
  from Cons.IH [OF 2] ledger_beat_Inr [OF 1, of a] show ?case by auto
qed

subsection \<open>What one edge does\<close>

lemma ledger_step_edge:
  assumes "ledger_step L conn rs bs ds False = Inr L'"
  obtains bal1 seen1 seen2 high where
    "rfold (ledger_grant (led_ports L) conn) (led_balances L, {}) rs = Inr (bal1, seen1)"
    "rfold (ledger_beat L conn) (bal1, {}) bs = Inr (led_balances L', seen2)"
    "list_all (\<lambda>(a, v). 0 \<le> v \<and> v \<le> dget (led_capacities L) a 0) (led_balances L')"
    "rfold (ledger_filter (led_stable L) conn (set high)) (led_streaks L, led_initialized L)
       (List.product [0..led_ports L - 1] channels) = Inr (led_streaks L', led_initialized L')"
    "rmap (\<lambda>(port, ch). slot_of port ch (led_ports L)) ds = Inr high"
    "led_capacities L' = led_capacities L" "led_ports L' = led_ports L"
    "led_stable L' = led_stable L"
  using assms by (auto simp: ledger_step_def split: if_splits)

lemma ledger_step_balance:
  "ledger_step L conn rs bs ds False = Inr L' \<Longrightarrow>
     dget (led_balances L') a 0 = dget (led_balances L) a 0 + granted_to a rs - spent_by a bs"
  by (erule ledger_step_edge) (simp add: grants_sum beats_sum)

lemma ledger_step_beats:
  "ledger_step L conn rs bs ds False = Inr L' \<Longrightarrow>
     distinct (map bt_channel bs) \<and>
     (\<forall>b\<in>set bs. beats_enabled conn \<and> (bt_port b, bt_channel b) \<in> led_initialized L \<and>
        1 \<le> dget (led_balances L) (beat_account b) 0)"
  by (erule ledger_step_edge) (use beats_sum in blast)

subsection \<open>The invariant\<close>

definition ledger_inv :: "(account \<times> int) list \<Rightarrow> ledger \<Rightarrow> bool" where
  "ledger_inv caps L \<longleftrightarrow>
     led_capacities L = caps \<and> list_all (\<lambda>(a, c). 0 \<le> c) caps \<and>
     list_all (\<lambda>(a, v). 0 \<le> v \<and> v \<le> dget caps a 0) (led_balances L)"

lemma caps_nonneg: "list_all (\<lambda>(a, c). (0::int) \<le> c) caps \<Longrightarrow> 0 \<le> dget caps a 0"
  by (induction caps) (auto simp: dget_Cons)

lemma zero_balances:
  "list_all (\<lambda>(a, c). (0::int) \<le> c) caps \<Longrightarrow>
     list_all (\<lambda>(a, v). 0 \<le> v \<and> v \<le> dget caps a 0) (map (\<lambda>(a, _). (a, 0)) caps)"
  using caps_nonneg [of caps] by (auto simp: list_all_iff)

lemma ledger_step_inv:
  "ledger_inv caps L \<Longrightarrow> ledger_step L conn rs bs ds r = Inr L' \<Longrightarrow> ledger_inv caps L'"
  by (cases r)
    (auto simp: ledger_inv_def ledger_step_def zero_balances split: if_splits)

interpretation ledger: machine ledger_tick "ledger_inv caps" for caps
  by unfold_locales (auto simp: ledger_tick_def intro: ledger_step_inv)

lemma ledger_init_inv:
  assumes "ledger_init capacities n k = Inr L"
  shows "ledger_inv (dict_of capacities) L"
proof -
  have "list_all (\<lambda>(a, c). 0 \<le> c) (dict_of capacities)"
    using assms by (fastforce simp: ledger_init_def Let_def list_all2_conv_all_nth list_all_length
        split: if_splits dest!: rmap_Inr_all)
  then show ?thesis
    using assms by (auto simp: ledger_init_def ledger_inv_def Let_def zero_balances split: if_splits)
qed

lemma ledger_inv_balance:
  "ledger_inv caps L \<Longrightarrow>
     0 \<le> dget (led_balances L) a 0 \<and> dget (led_balances L) a 0 \<le> dget caps a 0"
  using caps_nonneg [of caps a] dget_all [of "\<lambda>a v. 0 \<le> v \<and> v \<le> dget caps a 0" "led_balances L" a 0]
  by (auto simp: ledger_inv_def)

text \<open>Credit is conserved along any run without a reset.\<close>

lemma ledger_run_balance:
  "run ledger_tick L is = Inr (L', outs) \<Longrightarrow> list_all (\<lambda>i. \<not> li_reset i) is \<Longrightarrow>
     dget (led_balances L') a 0 =
       dget (led_balances L) a 0 + (\<Sum>i\<leftarrow>is. granted_to a (li_returns i)) -
       (\<Sum>i\<leftarrow>is. spent_by a (li_beats i))"
proof (induction "is" arbitrary: L outs)
  case Nil
  then show ?case by simp
next
  case (Cons i "is")
  from Cons.prems(1) obtain L1 u outs1 where t: "ledger_tick L i = Inr (L1, u)"
    and r: "run ledger_tick L1 is = Inr (L', outs1)" by (rule run_ConsE)
  from t Cons.prems(2)
  have "ledger_step L (li_conn i) (li_returns i) (li_beats i) (li_done i) False = Inr L1"
    by (simp add: ledger_tick_def)
  from ledger_step_balance [OF this] Cons.IH [OF r] Cons.prems(2) show ?case by simp
qed

subsection \<open>Initialisation needs a stable indication\<close>

lemma ledger_filter_step:
  "ledger_filter k conn high (st, ini) s = Inr (st', ini') \<Longrightarrow> 0 < k \<Longrightarrow>
     ini \<subseteq> ini' \<and> ini' \<subseteq> insert s ini \<and>
     (s \<in> ini' - ini \<longrightarrow> s \<in> high \<and> k \<le> dget st s 0 + 1 \<and> credit_connected conn (snd s)) \<and>
     (\<forall>x. x \<noteq> s \<longrightarrow> dget st' x 0 = dget st x 0)"
  by (auto simp: ledger_filter_def Let_def dget_update split: if_splits)

lemma ledger_filter_loop:
  "rfold (ledger_filter k conn high) (st, ini) ss = Inr (st', ini') \<Longrightarrow> distinct ss \<Longrightarrow> 0 < k \<Longrightarrow>
     ini \<subseteq> ini' \<and>
     (\<forall>s \<in> ini' - ini. s \<in> set ss \<and> s \<in> high \<and> k \<le> dget st s 0 + 1 \<and> credit_connected conn (snd s))"
proof (induction ss arbitrary: st ini)
  case Nil
  then show ?case by simp
next
  case (Cons s ss)
  then obtain st1 ini1 where 1: "ledger_filter k conn high (st, ini) s = Inr (st1, ini1)"
    and 2: "rfold (ledger_filter k conn high) (st1, ini1) ss = Inr (st', ini')"
    by auto
  from Cons.IH [OF 2] Cons.prems have IH: "ini1 \<subseteq> ini'"
    "\<forall>x \<in> ini' - ini1. x \<in> set ss \<and> x \<in> high \<and> k \<le> dget st1 x 0 + 1 \<and> credit_connected conn (snd x)"
    by auto
  note st = ledger_filter_step [OF 1 Cons.prems(3)]
  have "ini \<subseteq> ini'" using st IH(1) by blast
  moreover have "x \<in> set (s # ss) \<and> x \<in> high \<and> k \<le> dget st x 0 + 1 \<and> credit_connected conn (snd x)"
    if x: "x \<in> ini' - ini" for x
  proof (cases "x \<in> ini1")
    case True
    then have "x = s" "x \<in> ini1 - ini" using st x by auto
    then show ?thesis using st by auto
  next
    case False
    then have "x \<in> set ss" "x \<in> high" "k \<le> dget st1 x 0 + 1" "credit_connected conn (snd x)"
      using IH(2) x by auto
    moreover from \<open>x \<in> set ss\<close> Cons.prems(2) have "x \<noteq> s" by auto
    ultimately show ?thesis using st by auto
  qed
  ultimately show ?case by blast
qed

lemma distinct_slots: "distinct (List.product [0..n - 1] channels)"
  by (simp add: distinct_product channels_def)

lemma rmap_slots_mem:
  "rmap (\<lambda>(port, ch). slot_of port ch n) ds = Inr high \<Longrightarrow> high = ds"
  by (induction ds arbitrary: high) (auto simp: slot_of_def split: if_splits)

lemma ledger_new_slot:
  assumes "ledger_step L conn rs bs ds False = Inr L'" and "0 < led_stable L"
  shows "led_initialized L \<subseteq> led_initialized L' \<and>
    (\<forall>s \<in> led_initialized L' - led_initialized L.
       s \<in> set ds \<and> led_stable L \<le> dget (led_streaks L) s 0 + 1 \<and> credit_connected conn (snd s))"
  using assms(1)
  by (rule ledger_step_edge) (use assms(2) ledger_filter_loop [OF _ distinct_slots] rmap_slots_mem in blast)

subsection \<open>When an edge succeeds\<close>

text \<open>
  If the credit events of an edge alone are acceptable, then so is the edge with beats, provided
  that every beat is legal, initialised and paid for before the edge.
\<close>

lemma grants_monotone:
  "rfold (ledger_grant n conn) (bal, seen) gs = Inr (bal', seen') \<Longrightarrow> dget bal a 0 \<le> dget bal' a 0"
proof (induction gs arbitrary: bal seen)
  case Nil
  then show ?case by simp
next
  case (Cons g gs)
  then obtain bal1 seen1 where 1: "ledger_grant n conn (bal, seen) g = Inr (bal1, seen1)"
    and 2: "rfold (ledger_grant n conn) (bal1, seen1) gs = Inr (bal', seen')" by auto
  from 1 have "dget bal a 0 \<le> dget bal1 a 0"
    by (auto simp: ledger_grant_def dget_update split: if_splits)
  with Cons.IH [OF 2] show ?case by simp
qed

lemma beat_account_channel: "beat_account b = beat_account b' \<Longrightarrow> bt_channel b = bt_channel b'"
  by (simp add: beat_account_def)

lemma ledger_beats_succeed:
  "list_all (\<lambda>(a, v). 0 \<le> v \<and> v \<le> dget (led_capacities L) a 0) bal \<Longrightarrow>
     distinct (map bt_channel bs) \<Longrightarrow> set (map bt_channel bs) \<inter> seen = {} \<Longrightarrow>
     \<forall>b \<in> set bs. legal_beat (led_ports L) b \<and> beats_enabled conn \<and>
       (bt_port b, bt_channel b) \<in> led_initialized L \<and>
       1 \<le> dget (led_balances L) (beat_account b) 0 \<and> 1 \<le> dget bal (beat_account b) 0 \<Longrightarrow>
     \<exists>bal' seen'. rfold (ledger_beat L conn) (bal, seen) bs = Inr (bal', seen') \<and>
       list_all (\<lambda>(a, v). 0 \<le> v \<and> v \<le> dget (led_capacities L) a 0) bal'"
proof (induction bs arbitrary: bal seen)
  case Nil
  then show ?case by simp
next
  case (Cons b bs)
  let ?P = "\<lambda>(a, v). 0 \<le> v \<and> v \<le> dget (led_capacities L) a 0"
  let ?a = "beat_account b"
  from Cons.prems(4) have b: "legal_beat (led_ports L) b" "beats_enabled conn"
    "(bt_port b, bt_channel b) \<in> led_initialized L" "1 \<le> dget (led_balances L) ?a 0"
    "1 \<le> dget bal ?a 0" by simp_all
  from b(5) obtain v where v: "map_of bal ?a = Some v" "1 \<le> v"
    by (auto simp: dget_def split: option.splits)
  have ev: "event_account (led_ports L) (bt_port b) (bt_channel b) (bt_vc b) (bt_pool b) = Inr ?a"
    using b(1) by (simp add: legal_beat_def beat_account_def)
  have step: "ledger_beat L conn (bal, seen) b =
      Inr (AList.update ?a (v - 1) bal, insert (bt_channel b) seen)"
    using b v Cons.prems(3) by (simp add: ledger_beat_def ev)
  have "?P (?a, v)" using Cons.prems(1) map_of_mem [OF v(1)] by (auto simp: list_all_iff)
  then have P: "list_all ?P (AList.update ?a (v - 1) bal)"
    using Cons.prems(1) v(2) by (intro list_all_update) auto
  have other: "beat_account b' \<noteq> ?a" if "b' \<in> set bs" for b'
    using that Cons.prems(2) beat_account_channel [of b' b] by (auto intro: rev_image_eqI)
  have "\<exists>bal' seen'. rfold (ledger_beat L conn) (AList.update ?a (v - 1) bal,
      insert (bt_channel b) seen) bs = Inr (bal', seen') \<and> list_all ?P bal'"
    by (rule Cons.IH [OF P]) (use Cons.prems other in \<open>auto simp: dget_update\<close>)
  then show ?case by (simp add: step)
qed

lemma ledger_step_succeeds:
  assumes quiet: "ledger_step L conn rs [] ds False = Inr L0"
    and bs: "distinct (map bt_channel bs)"
      "\<forall>b \<in> set bs. legal_beat (led_ports L) b \<and> beats_enabled conn \<and>
         (bt_port b, bt_channel b) \<in> led_initialized L \<and> 1 \<le> dget (led_balances L) (beat_account b) 0"
  shows "\<exists>L'. ledger_step L conn rs bs ds False = Inr L'"
proof -
  from quiet obtain bal1 seen1 high where
    1: "rfold (ledger_grant (led_ports L) conn) (led_balances L, {}) rs = Inr (bal1, seen1)"
    and P: "list_all (\<lambda>(a, v). 0 \<le> v \<and> v \<le> dget (led_capacities L) a 0) bal1"
    and 2: "rmap (\<lambda>(port, ch). slot_of port ch (led_ports L)) ds = Inr high"
    and 3: "rfold (ledger_filter (led_stable L) conn (set high)) (led_streaks L, led_initialized L)
       (List.product [0..led_ports L - 1] channels) = Inr (led_streaks L0, led_initialized L0)"
    by (rule ledger_step_edge) auto
  have "\<forall>b \<in> set bs. 1 \<le> dget bal1 (beat_account b) 0"
    using bs(2) grants_monotone [OF 1] by (meson order_trans)
  with ledger_beats_succeed [OF P bs(1), of "{}" conn] bs(2) obtain bal' seen' where
    "rfold (ledger_beat L conn) (bal1, {}) bs = Inr (bal', seen')"
    "list_all (\<lambda>(a, v). 0 \<le> v \<and> v \<le> dget (led_capacities L) a 0) bal'" by auto
  with 1 2 3 show ?thesis by (simp add: ledger_step_def)
qed

subsection \<open>Exceptions of the ledger\<close>

lemma slot_of_raises [raises_intros]: "ValueError \<in> E \<Longrightarrow> raises_only E (slot_of p ch n)"
  by (simp add: slot_of_def raises_only_def)

lemma check_vc_raises [raises_intros]: "ValueError \<in> E \<Longrightarrow> raises_only E (check_vc vc)"
  by (simp add: check_vc_def raises_only_def)

lemma event_account_raises [raises_intros]:
  "ValueError \<in> E \<Longrightarrow> raises_only E (event_account n p ch vc pool)"
  unfolding event_account_def by (intro raises_intros)

lemma check_account_raises [raises_intros]: "ValueError \<in> E \<Longrightarrow> raises_only E (check_account n a)"
  unfolding check_account_def by (intro raises_intros)

lemma ledger_balance_raises [raises_intros]: "ValueError \<in> E \<Longrightarrow> raises_only E (ledger_balance L a)"
  unfolding ledger_balance_def by (intro raises_intros)

lemma ledger_is_initialized_raises [raises_intros]:
  "ValueError \<in> E \<Longrightarrow> raises_only E (ledger_is_initialized L p ch)"
  unfolding ledger_is_initialized_def by (intro raises_intros)

lemma ledger_step_raises [raises_intros]:
  "ValueError \<in> E \<Longrightarrow> KeyError \<in> E \<Longrightarrow> raises_only E (ledger_step L conn rs bs ds reset)"
  unfolding ledger_step_def ledger_grant_def ledger_beat_def ledger_filter_def
  by (intro raises_intros)

end
