(* ===== verification/Upli_Burst.thy ===== *)
theory Upli_Burst
  imports Upli_Credit
begin

section \<open>Burst sender: admission, reservation and mandatory data slots\<close>

text \<open>
  Models \<open>simulator/UAlink2.0/model/ualink/upli_burst.py\<close>. \<open>_active\<close> is the dictionary from a port
  to its running request and the next beat offset. \<open>burst_select\<close> is the part of \<open>step\<close> that
  chooses the beats of the edge, \<open>burst_step\<close> the atomic edge with the ledger update. The sender
  reserves data credit when it admits a request; the lemmas show that the reservation is always
  covered by the balance, so that an edge whose credit events are legal never fails for lack of
  data credit, and that data is emitted in the port's slots only.
\<close>

record burst_request =
  br_port :: int
  br_vc :: int
  br_pool :: bool
  br_beats :: "int option"
  br_data_pools :: "bool list"

record burst_data =
  bd_port :: int
  bd_vc :: int
  bd_pool :: bool
  bd_offset :: int
  bd_last :: bool

record burst_events =
  be_request :: "burst_request option"
  be_data :: "burst_data option"

type_synonym actives = "(int \<times> burst_request \<times> int) list"

record burst_sender =
  bs_credits :: ledger
  bs_ports :: int
  bs_phase :: "int option"
  bs_active :: actives

definition event_beats :: "burst_events \<Rightarrow> beat list" where
  "event_beats e =
     (case be_request e of None \<Rightarrow> []
      | Some r \<Rightarrow> [\<lparr>bt_port = br_port r, bt_channel = Req, bt_vc = br_vc r, bt_pool = br_pool r\<rparr>]) @
     (case be_data e of None \<Rightarrow> []
      | Some d \<Rightarrow> [\<lparr>bt_port = bd_port d, bt_channel = Orig_Data, bt_vc = bd_vc d, bt_pool = bd_pool d\<rparr>])"

definition burst_init :: "(account \<times> int) list \<Rightarrow> int \<Rightarrow> int \<Rightarrow> py_error + burst_sender" where
  "burst_init capacities num_ports init_stable_cycles =
     rbind (ledger_init capacities num_ports init_stable_cycles) (\<lambda>L.
       Inr \<lparr>bs_credits = L, bs_ports = num_ports, bs_phase = None, bs_active = []\<rparr>)"

definition reserved_count :: "actives \<Rightarrow> account \<Rightarrow> int" where
  "reserved_count active a =
     (if acc_channel a \<noteq> Orig_Data then 0
      else case map_of active (acc_port a) of
        None \<Rightarrow> 0
      | Some (request, offset) \<Rightarrow>
          if acc_vc a \<noteq> None \<and> acc_vc a \<noteq> Some (br_vc request) then 0
          else int (count_list (drop (nat offset) (br_data_pools request)) (acc_vc a = None)))"

definition burst_reserved :: "burst_sender \<Rightarrow> account \<Rightarrow> py_error + int" where
  "burst_reserved s a =
     rbind (ledger_balance (bs_credits s) a) (\<lambda>_. Inr (reserved_count (bs_active s) a))"

definition burst_available :: "burst_sender \<Rightarrow> account \<Rightarrow> py_error + int" where
  "burst_available s a =
     rbind (ledger_balance (bs_credits s) a) (\<lambda>balance.
     rbind (burst_reserved s a) (\<lambda>reserved. Inr (balance - reserved)))"

definition burst_validate :: "burst_sender \<Rightarrow> burst_request \<Rightarrow> py_error + unit" where
  "burst_validate s r =
     rbind (ledger_balance (bs_credits s) (Account (br_port r) Req (Some (br_vc r)))) (\<lambda>_.
       case br_beats r of
         None \<Rightarrow> ensure (br_data_pools r = [])
       | Some n \<Rightarrow> ensure (0 \<le> n \<and> n < 4 \<and> int (length (br_data_pools r)) = n + 1))"

definition burst_eligible ::
  "burst_sender \<Rightarrow> conn_signals \<Rightarrow> burst_request \<Rightarrow> int option \<Rightarrow> py_error + bool" where
  "burst_eligible s conn r phase =
     (if \<not> beats_enabled conn \<or> phase \<noteq> Some (br_port r) then Inr False
      else
        rbind (ledger_is_initialized (bs_credits s) (br_port r) Req) (\<lambda>ready.
        if \<not> ready then Inr False
        else
          rbind (burst_available s (Account (br_port r) Req (if br_pool r then None else Some (br_vc r))))
            (\<lambda>credit.
          if credit < 1 then Inr False
          else if br_beats r = None then Inr True
          else if br_port r \<in> fst ` set (bs_active s) then Inr False
          else
            rbind (ledger_is_initialized (bs_credits s) (br_port r) Orig_Data) (\<lambda>data_ready.
            if \<not> data_ready then Inr False
            else
              rbind (burst_available s (Account (br_port r) Orig_Data (Some (br_vc r)))) (\<lambda>private.
              if private < int (count_list (br_data_pools r) False) then Inr False
              else
                rbind (burst_available s (Account (br_port r) Orig_Data None)) (\<lambda>shared.
                  Inr (\<not> shared < int (count_list (br_data_pools r) True))))))))"

text \<open>The phase the edge runs in, and the mandatory data of that slot.\<close>

definition burst_current :: "burst_sender \<Rightarrow> burst_request option \<Rightarrow> int option" where
  "burst_current s request =
     (case request of Some r \<Rightarrow> if bs_phase s = None then Some (br_port r) else bs_phase s
      | None \<Rightarrow> bs_phase s)"

definition burst_tail :: "actives \<Rightarrow> int option \<Rightarrow> actives \<times> burst_data option" where
  "burst_tail active current =
     (case current of
        None \<Rightarrow> (active, None)
      | Some c \<Rightarrow>
          (case map_of active c of
             None \<Rightarrow> (active, None)
           | Some (old, offset) \<Rightarrow>
               let last = (Some offset = br_beats old) in
               (if last then AList.delete c active else AList.update c (old, offset + 1) active,
                Some \<lparr>bd_port = c, bd_vc = br_vc old, bd_pool = br_data_pools old ! nat offset,
                      bd_offset = offset, bd_last = last\<rparr>)))"

definition burst_select ::
  "burst_sender \<Rightarrow> conn_signals \<Rightarrow> burst_request option \<Rightarrow>
   py_error + burst_events \<times> actives \<times> int option" where
  "burst_select s conn request =
     (let phase = bs_phase s; current = burst_current s request;
          (active, data) = burst_tail (bs_active s) current
      in case request of
           None \<Rightarrow> Inr (\<lparr>be_request = None, be_data = data\<rparr>, active, phase)
         | Some r \<Rightarrow>
             rbind (burst_eligible s conn r current) (\<lambda>ok.
               if \<not> ok then Inr (\<lparr>be_request = None, be_data = data\<rparr>, active, phase)
               else
                 let phase' = (if phase = None then Some (br_port r) else phase) in
                 case br_beats r of
                   None \<Rightarrow> Inr (\<lparr>be_request = Some r, be_data = data\<rparr>, active, phase')
                 | Some n \<Rightarrow>
                     Inr (\<lparr>be_request = Some r,
                           be_data = Some \<lparr>bd_port = br_port r, bd_vc = br_vc r,
                             bd_pool = br_data_pools r ! 0, bd_offset = 0, bd_last = (n = 0)\<rparr>\<rparr>,
                          (if n \<noteq> 0 then AList.update (br_port r) (r, 1) active else active),
                          phase')))"

definition burst_step ::
  "burst_sender \<Rightarrow> conn_signals \<Rightarrow> burst_request option \<Rightarrow> credit_return list \<Rightarrow> slot list \<Rightarrow> bool \<Rightarrow>
   py_error + burst_sender \<times> burst_events" where
  "burst_step s conn request returns init_done reset =
     (if reset then
        rbind (ledger_step (bs_credits s) no_signals [] [] [] True) (\<lambda>L.
          Inr (s\<lparr>bs_credits := L, bs_active := [], bs_phase := None\<rparr>,
               \<lparr>be_request = None, be_data = None\<rparr>))
      else
        rbind (case request of None \<Rightarrow> Inr () | Some r \<Rightarrow> burst_validate s r) (\<lambda>_.
        rbind (burst_select s conn request) (\<lambda>(events, active, phase).
        rbind (ledger_step (bs_credits s) conn returns (event_beats events) init_done False) (\<lambda>L.
          Inr (s\<lparr>bs_credits := L, bs_active := active,
                 bs_phase := map_option (\<lambda>p. (p + 1) mod bs_ports s) phase\<rparr>, events)))))"

record burst_input =
  bi_conn :: conn_signals
  bi_request :: "burst_request option"
  bi_returns :: "credit_return list"
  bi_done :: "slot list"
  bi_reset :: bool

definition burst_tick :: "burst_sender \<Rightarrow> burst_input \<Rightarrow> py_error + burst_sender \<times> burst_events" where
  "burst_tick s i = burst_step s (bi_conn i) (bi_request i) (bi_returns i) (bi_done i) (bi_reset i)"

subsection \<open>The invariant\<close>

definition legal_active :: "ledger \<Rightarrow> int \<Rightarrow> int \<times> burst_request \<times> int \<Rightarrow> bool" where
  "legal_active L n = (\<lambda>(p, r, off).
     0 \<le> p \<and> p < n \<and> br_port r = p \<and> 0 \<le> br_vc r \<and> br_vc r < 4 \<and>
     (\<exists>k. br_beats r = Some k \<and> 1 \<le> off \<and> off \<le> k \<and> k < 4 \<and>
        int (length (br_data_pools r)) = k + 1) \<and>
     (p, Orig_Data) \<in> led_initialized L)"

definition burst_ok :: "burst_sender \<Rightarrow> bool" where
  "burst_ok s \<longleftrightarrow>
     0 < bs_ports s \<and> led_ports (bs_credits s) = bs_ports s \<and> 0 < led_stable (bs_credits s) \<and>
     ledger_inv (led_capacities (bs_credits s)) (bs_credits s) \<and>
     distinct (map fst (bs_active s)) \<and>
     list_all (legal_active (bs_credits s) (bs_ports s)) (bs_active s) \<and>
     (case bs_phase s of None \<Rightarrow> bs_active s = [] | Some p \<Rightarrow> 0 \<le> p \<and> p < bs_ports s) \<and>
     (\<forall>a. reserved_count (bs_active s) a \<le> dget (led_balances (bs_credits s)) a 0)"

lemma reserved_nonneg: "0 \<le> reserved_count active a"
  by (simp add: reserved_count_def split: option.splits)

lemma count_list_split: "count_list (xs @ ys) x = count_list xs x + count_list ys x"
  by (induction xs) auto

lemma drop_step: "i < length xs \<Longrightarrow> count_list (drop i xs) x = (if xs ! i = x then 1 else 0) + count_list (drop (Suc i) xs) x"
  by (simp flip: Cons_nth_drop_Suc)

lemma reserved_update:
  "reserved_count (AList.update p (r, off) active) a =
     (if acc_channel a = Orig_Data \<and> acc_port a = p then reserved_count [(p, r, off)] a
      else reserved_count active a)"
  by (auto simp: reserved_count_def update_conv')

lemma reserved_delete:
  "reserved_count (AList.delete p active) a =
     (if acc_port a = p then 0 else reserved_count active a)"
  by (auto simp: reserved_count_def delete_conv')

lemma reserved_other: "acc_channel a \<noteq> Orig_Data \<Longrightarrow> reserved_count active a = 0"
  by (simp add: reserved_count_def)

text \<open>The account a data event draws on.\<close>

definition data_account :: "burst_data \<Rightarrow> account" where
  "data_account d = Account (bd_port d) Orig_Data (if bd_pool d then None else Some (bd_vc d))"

text \<open>One emitted tail beat releases exactly one unit of the reservation of its account.\<close>

lemma burst_tail_reserved:
  assumes "list_all (legal_active L n) active" and "distinct (map fst active)"
    and "burst_tail active current = (active', data)"
  shows "reserved_count active' a = reserved_count active a -
      (case data of None \<Rightarrow> 0 | Some d \<Rightarrow> if data_account d = a then 1 else 0)"
    and "list_all (legal_active L n) active'" and "distinct (map fst active')"
    and "fst ` set active' \<subseteq> fst ` set active"
    and "\<And>d. data = Some d \<Longrightarrow> current = Some (bd_port d) \<and> bd_port d \<in> fst ` set active \<and>
      0 \<le> bd_port d \<and> bd_port d < n \<and> 0 \<le> bd_vc d \<and> bd_vc d < 4 \<and>
      (bd_port d, Orig_Data) \<in> led_initialized L \<and> 1 \<le> bd_offset d \<and> bd_offset d < 4"
    and "\<And>c. current = Some c \<Longrightarrow> c \<in> fst ` set active \<Longrightarrow> data \<noteq> None"
proof -
  have "reserved_count active' a = reserved_count active a -
      (case data of None \<Rightarrow> 0 | Some d \<Rightarrow> if data_account d = a then 1 else 0) \<and>
    list_all (legal_active L n) active' \<and> distinct (map fst active') \<and>
    fst ` set active' \<subseteq> fst ` set active \<and>
    (\<forall>d. data = Some d \<longrightarrow> current = Some (bd_port d) \<and> bd_port d \<in> fst ` set active \<and>
      0 \<le> bd_port d \<and> bd_port d < n \<and> 0 \<le> bd_vc d \<and> bd_vc d < 4 \<and>
      (bd_port d, Orig_Data) \<in> led_initialized L \<and> 1 \<le> bd_offset d \<and> bd_offset d < 4) \<and>
    (\<forall>c. current = Some c \<longrightarrow> c \<in> fst ` set active \<longrightarrow> data \<noteq> None)"
  proof (cases "\<exists>c old off. current = Some c \<and> map_of active c = Some (old, off)")
    case False
    then have "active' = active" "data = None"
      using assms(3) by (auto simp: burst_tail_def split: option.splits)
    moreover have "c \<notin> fst ` set active" if "current = Some c" for c
      using False that by (metis map_of_eq_None_iff not_None_eq surj_pair)
    ultimately show ?thesis using assms(1,2) by auto
  next
    case True
    then obtain c old off where c: "current = Some c" "map_of active c = Some (old, off)" by auto
    then have "legal_active L n (c, old, off)"
      using assms(1) map_of_mem [OF c(2)] by (auto simp: list_all_iff)
    then obtain k where leg: "0 \<le> c" "c < n" "br_port old = c" "0 \<le> br_vc old" "br_vc old < 4"
      "br_beats old = Some k" "1 \<le> off" "off \<le> k" "k < 4"
      "int (length (br_data_pools old)) = k + 1" "(c, Orig_Data) \<in> led_initialized L"
      by (auto simp: legal_active_def)
    have out: "active' = (if off = k then AList.delete c active else AList.update c (old, off + 1) active)"
      "data = Some \<lparr>bd_port = c, bd_vc = br_vc old, bd_pool = br_data_pools old ! nat off,
          bd_offset = off, bd_last = (off = k)\<rparr>"
      using assms(3) c leg(6) by (auto simp: burst_tail_def Let_def)
    have lt: "nat off < length (br_data_pools old)" using leg by linarith
    have suc: "nat (off + 1) = Suc (nat off)" using leg by simp
    have count: "count_list (drop (nat off) (br_data_pools old)) x =
        (if br_data_pools old ! nat off = x then 1 else 0) +
        count_list (drop (nat (off + 1)) (br_data_pools old)) x" for x
      using drop_step [OF lt] by (simp add: suc)
    have fin: "off = k \<Longrightarrow> drop (nat (off + 1)) (br_data_pools old) = []"
      using leg(10) by simp
    have res: "reserved_count active' a = reserved_count active a -
        (case data of None \<Rightarrow> 0 | Some d \<Rightarrow> if data_account d = a then 1 else 0)"
    proof (cases "acc_channel a = Orig_Data \<and> acc_port a = c")
      case False
      then show ?thesis
        by (cases a) (auto simp: out reserved_update reserved_delete reserved_other data_account_def)
    next
      case True
      obtain v where a: "a = Account c Orig_Data v" using True by (cases a) auto
      have "reserved_count active' a =
          (if off = k then 0 else reserved_count [(c, old, off + 1)] a)"
        by (simp add: out a reserved_update reserved_delete)
      then show ?thesis
        using count [of "v = None"] fin
        by (cases v) (auto simp: a out(2) data_account_def reserved_count_def c(2))
    qed
    have mem: "c \<in> fst ` set active" using map_of_mem [OF c(2)] by force
    then have keys: "fst ` set active' \<subseteq> fst ` set active" "distinct (map fst active')"
      using assms(2)
      by (simp_all add: out distinct_delete distinct_update delete_keys update_keys Diff_subset
          insert_absorb)
    have "legal_active L n (c, old, off + 1)" if "off \<noteq> k"
      using leg that by (auto simp: legal_active_def)
    moreover have "list_all (legal_active L n) (AList.delete c active)"
      using assms(1) by (auto simp: AList.delete_eq list_all_iff)
    ultimately have "list_all (legal_active L n) active'"
      using assms(1) by (simp add: out list_all_update)
    then show ?thesis using res keys mem leg by (simp add: out c(1))
  qed
  note all = this
  from all show "reserved_count active' a = reserved_count active a -
      (case data of None \<Rightarrow> 0 | Some d \<Rightarrow> if data_account d = a then 1 else 0)"
    by (rule conjunct1)
  from all show "list_all (legal_active L n) active'" "distinct (map fst active')"
    "fst ` set active' \<subseteq> fst ` set active"
    by - (elim conjE, assumption)+
  from all show "current = Some (bd_port d) \<and> bd_port d \<in> fst ` set active \<and>
      0 \<le> bd_port d \<and> bd_port d < n \<and> 0 \<le> bd_vc d \<and> bd_vc d < 4 \<and>
      (bd_port d, Orig_Data) \<in> led_initialized L \<and> 1 \<le> bd_offset d \<and> bd_offset d < 4"
    if "data = Some d" for d
    using that by (elim conjE allE [of _ d]) (rule mp, assumption+)
  from all show "data \<noteq> None" if "current = Some c" "c \<in> fst ` set active" for c
    using that by (elim conjE) metis
qed

subsection \<open>Admission\<close>

definition legal_request :: "int \<Rightarrow> burst_request \<Rightarrow> bool" where
  "legal_request n r \<longleftrightarrow> 0 \<le> br_port r \<and> br_port r < n \<and> 0 \<le> br_vc r \<and> br_vc r < 4 \<and>
     (case br_beats r of None \<Rightarrow> br_data_pools r = []
      | Some k \<Rightarrow> 0 \<le> k \<and> k < 4 \<and> int (length (br_data_pools r)) = k + 1)"

lemma burst_validate_legal:
  "burst_validate s r = Inr () \<longleftrightarrow> legal_request (led_ports (bs_credits s)) r"
  by (auto simp: burst_validate_def ledger_balance_def check_account_def slot_of_def check_vc_def
      legal_request_def channels_def split: option.splits)

lemma ledger_balance_legal:
  assumes "0 \<le> p" "p < led_ports L" "ch \<in> set channels" "\<And>v. vc = Some v \<Longrightarrow> 0 \<le> v \<and> v < 4"
  shows "ledger_balance L (Account p ch vc) = Inr (dget (led_balances L) (Account p ch vc) 0)"
  using assms by (cases vc) (auto simp: ledger_balance_def check_account_def slot_of_def check_vc_def)

lemma burst_available_legal:
  assumes "0 \<le> p" "p < led_ports (bs_credits s)" "ch \<in> set channels" "\<And>v. vc = Some v \<Longrightarrow> 0 \<le> v \<and> v < 4"
  shows "burst_available s (Account p ch vc) =
    Inr (dget (led_balances (bs_credits s)) (Account p ch vc) 0 -
         reserved_count (bs_active s) (Account p ch vc))"
  by (simp add: burst_available_def burst_reserved_def ledger_balance_legal [OF assms])

text \<open>What admission of a legal request has checked.\<close>

definition admissible :: "burst_sender \<Rightarrow> conn_signals \<Rightarrow> burst_request \<Rightarrow> int option \<Rightarrow> bool" where
  "admissible s conn r phase \<longleftrightarrow>
     beats_enabled conn \<and> phase = Some (br_port r) \<and>
     (br_port r, Req) \<in> led_initialized (bs_credits s) \<and>
     1 \<le> dget (led_balances (bs_credits s))
            (Account (br_port r) Req (if br_pool r then None else Some (br_vc r))) 0 \<and>
     (br_beats r \<noteq> None \<longrightarrow>
        br_port r \<notin> fst ` set (bs_active s) \<and>
        (br_port r, Orig_Data) \<in> led_initialized (bs_credits s) \<and>
        int (count_list (br_data_pools r) False) \<le>
          dget (led_balances (bs_credits s)) (Account (br_port r) Orig_Data (Some (br_vc r))) 0 \<and>
        int (count_list (br_data_pools r) True) \<le>
          dget (led_balances (bs_credits s)) (Account (br_port r) Orig_Data None) 0)"

lemma reserved_inactive: "acc_port a \<notin> fst ` set active \<Longrightarrow> reserved_count active a = 0"
  by (auto simp: reserved_count_def map_of_eq_None_iff [symmetric] split: option.splits)

lemma burst_eligible_iff:
  assumes "legal_request (led_ports (bs_credits s)) r"
  shows "burst_eligible s conn r phase = Inr (admissible s conn r phase)"
proof -
  have l: "0 \<le> br_port r" "br_port r < led_ports (bs_credits s)" "0 \<le> br_vc r" "br_vc r < 4"
    using assms by (simp_all add: legal_request_def)
  have init: "ledger_is_initialized (bs_credits s) (br_port r) ch =
      Inr ((br_port r, ch) \<in> led_initialized (bs_credits s))" if "ch \<in> set channels" for ch
    using l that by (simp add: ledger_is_initialized_def slot_of_def)
  have av: "burst_available s (Account (br_port r) ch vc) =
      Inr (dget (led_balances (bs_credits s)) (Account (br_port r) ch vc) 0 -
           reserved_count (bs_active s) (Account (br_port r) ch vc))"
    if "ch \<in> set channels" "vc = None \<or> vc = Some (br_vc r)" for ch vc
    using l that by (intro burst_available_legal) auto
  have ch: "Req \<in> set channels" "Orig_Data \<in> set channels" by (simp_all add: channels_def)
  have req: "reserved_count (bs_active s) (Account (br_port r) Req v) = 0" for v
    by (simp add: reserved_count_def)
  have dat: "br_port r \<notin> fst ` set (bs_active s) \<Longrightarrow>
      reserved_count (bs_active s) (Account (br_port r) Orig_Data v) = 0" for v
    by (simp add: reserved_inactive)
  show ?thesis
    unfolding burst_eligible_def admissible_def
    by (auto simp: init ch av req dat not_less)
qed

lemma spent_by_events:
  "spent_by a (event_beats e) =
     (case be_request e of None \<Rightarrow> 0
      | Some r \<Rightarrow> if Account (br_port r) Req (if br_pool r then None else Some (br_vc r)) = a then 1 else 0) +
     (case be_data e of None \<Rightarrow> 0 | Some d \<Rightarrow> if data_account d = a then 1 else 0)"
  by (simp add: event_beats_def spent_by_def beat_account_def data_account_def split: option.splits)

definition legal_data :: "ledger \<Rightarrow> int \<Rightarrow> burst_data \<Rightarrow> bool" where
  "legal_data L n d \<longleftrightarrow> 0 \<le> bd_port d \<and> bd_port d < n \<and> 0 \<le> bd_vc d \<and> bd_vc d < 4 \<and>
     0 \<le> bd_offset d \<and> bd_offset d < 4 \<and> (bd_port d, Orig_Data) \<in> led_initialized L"

lemma burst_select_total:
  assumes "pred_option (legal_request (led_ports (bs_credits s))) request"
  shows "\<exists>e active phase. burst_select s conn request = Inr (e, active, phase)"
proof (cases request)
  case None
  then show ?thesis by (simp add: burst_select_def Let_def split: prod.splits)
next
  case (Some r)
  obtain act dat where t: "burst_tail (bs_active s) (burst_current s request) = (act, dat)" by force
  have "legal_request (led_ports (bs_credits s)) r" using assms Some by simp
  from burst_eligible_iff [OF this, of conn "burst_current s request"]
  show ?thesis using t
    by (cases "admissible s conn r (burst_current s request)"; cases "br_beats r")
      (auto simp: Some burst_select_def Let_def)
qed

lemma burst_select_cases:
  assumes "burst_select s conn request = Inr (e, active, phase)"
    and "pred_option (legal_request (led_ports (bs_credits s))) request"
  obtains (declined) data where
      "burst_tail (bs_active s) (burst_current s request) = (active, data)"
      "e = \<lparr>be_request = None, be_data = data\<rparr>" "phase = bs_phase s"
  | (read) r data where "request = Some r" "admissible s conn r (burst_current s request)"
      "burst_tail (bs_active s) (burst_current s request) = (active, data)" "br_beats r = None"
      "e = \<lparr>be_request = Some r, be_data = data\<rparr>" "phase = Some (br_port r)"
  | (data) r k where "request = Some r" "admissible s conn r (burst_current s request)"
      "br_beats r = Some k" "burst_tail (bs_active s) (burst_current s request) = (bs_active s, None)"
      "e = \<lparr>be_request = Some r, be_data = Some \<lparr>bd_port = br_port r, bd_vc = br_vc r,
         bd_pool = br_data_pools r ! 0, bd_offset = 0, bd_last = (k = 0)\<rparr>\<rparr>"
      "active = (if k \<noteq> 0 then AList.update (br_port r) (r, 1) (bs_active s) else bs_active s)"
      "phase = Some (br_port r)"
proof -
  obtain act dat where t: "burst_tail (bs_active s) (burst_current s request) = (act, dat)" by force
  show thesis
  proof (cases request)
    case None
    with assms(1) t have "e = \<lparr>be_request = None, be_data = dat\<rparr>" "active = act" "phase = bs_phase s"
      by (auto simp: burst_select_def Let_def)
    with t show ?thesis by (intro declined) auto
  next
    case (Some r)
    note el = burst_eligible_iff [OF assms(2) [unfolded Some option.pred_inject], of conn "burst_current s request"]
    have cur: "burst_current s request = (if bs_phase s = None then Some (br_port r) else bs_phase s)"
      by (simp add: burst_current_def Some)
    show ?thesis
    proof (cases "admissible s conn r (burst_current s request)")
      case False
      with assms(1) t el have "e = \<lparr>be_request = None, be_data = dat\<rparr>" "active = act" "phase = bs_phase s"
        by (auto simp: burst_select_def Some Let_def)
      with t show ?thesis by (intro declined) auto
    next
      case True
      then have ph: "(if bs_phase s = None then Some (br_port r) else bs_phase s) = Some (br_port r)"
        by (auto simp: admissible_def cur)
      show ?thesis
      proof (cases "br_beats r")
        case None
        with assms(1) t el True ph
        have "e = \<lparr>be_request = Some r, be_data = dat\<rparr>" "active = act" "phase = Some (br_port r)"
          by (auto simp: burst_select_def Some Let_def)
        with Some True t None show ?thesis by (intro read) auto
      next
        case k: (Some k)
        then have "br_port r \<notin> fst ` set (bs_active s)" using True by (simp add: admissible_def)
        then have "map_of (bs_active s) (br_port r) = None" by (simp add: map_of_eq_None_iff)
        then have "burst_tail (bs_active s) (burst_current s request) = (bs_active s, None)"
          using ph by (simp add: burst_tail_def cur)
        with assms(1) el True ph k Some show ?thesis
          by (intro data [of r k]) (auto simp: burst_select_def Let_def)
      qed
    qed
  qed
qed

subsection \<open>Reservations cover what an edge emits\<close>

definition select_post ::
  "burst_sender \<Rightarrow> burst_events \<Rightarrow> actives \<Rightarrow> int option \<Rightarrow> bool" where
  "select_post s e active phase \<longleftrightarrow>
     (\<forall>a. reserved_count active a + spent_by a (event_beats e) \<le>
        dget (led_balances (bs_credits s)) a 0) \<and>
     list_all (legal_active (bs_credits s) (bs_ports s)) active \<and> distinct (map fst active) \<and>
     (case phase of None \<Rightarrow> active = [] \<and> e = \<lparr>be_request = None, be_data = None\<rparr>
      | Some p \<Rightarrow> 0 \<le> p \<and> p < bs_ports s) \<and>
     (\<forall>b \<in> set (event_beats e). legal_beat (bs_ports s) b \<and>
        (bt_port b, bt_channel b) \<in> led_initialized (bs_credits s)) \<and>
     (\<forall>d. be_data e = Some d \<longrightarrow> phase = Some (bd_port d)) \<and>
     (\<forall>r. be_request e = Some r \<longrightarrow> phase = Some (br_port r))"

lemma burst_okD:
  assumes "burst_ok s"
  shows "0 < bs_ports s" "led_ports (bs_credits s) = bs_ports s" "0 < led_stable (bs_credits s)"
    "ledger_inv (led_capacities (bs_credits s)) (bs_credits s)" "distinct (map fst (bs_active s))"
    "list_all (legal_active (bs_credits s) (bs_ports s)) (bs_active s)"
    "bs_phase s = None \<Longrightarrow> bs_active s = []"
    "bs_phase s = Some p \<Longrightarrow> 0 \<le> p \<and> p < bs_ports s"
    "reserved_count (bs_active s) a \<le> dget (led_balances (bs_credits s)) a 0"
  using assms by (simp_all add: burst_ok_def)

lemma event_beats_data:
  "set (event_beats e) =
     (case be_request e of None \<Rightarrow> {} | Some r \<Rightarrow>
        {\<lparr>bt_port = br_port r, bt_channel = Req, bt_vc = br_vc r, bt_pool = br_pool r\<rparr>}) \<union>
     (case be_data e of None \<Rightarrow> {} | Some d \<Rightarrow>
        {\<lparr>bt_port = bd_port d, bt_channel = Orig_Data, bt_vc = bd_vc d, bt_pool = bd_pool d\<rparr>})"
  by (simp add: event_beats_def split: option.splits)

lemma event_beats_distinct: "distinct (map bt_channel (event_beats e))"
  by (simp add: event_beats_def split: option.splits)

lemma tail_current:
  assumes "burst_ok s" and "burst_tail (bs_active s) (burst_current s request) = (active, Some d)"
  shows "bs_phase s = Some (bd_port d)"
proof -
  note t = burst_tail_reserved(5) [OF burst_okD(6,5) [OF assms(1)] assms(2) refl]
  then have "bs_active s \<noteq> []" by auto
  then have "bs_phase s \<noteq> None" using burst_okD(7) [OF assms(1)] by blast
  with t show ?thesis by (auto simp: burst_current_def split: option.splits)
qed

lemma tail_quiet:
  assumes "burst_ok s" and "burst_tail (bs_active s) c = (active, data)" and "bs_phase s = None"
  shows "active = [] \<and> data = None"
  using assms burst_okD(7) [OF assms(1)] by (auto simp: burst_tail_def split: option.splits)

lemma burst_select_post:
  assumes ok: "burst_ok s" and sel: "burst_select s conn request = Inr (e, active, phase)"
    and legal: "pred_option (legal_request (led_ports (bs_credits s))) request"
  shows "select_post s e active phase"
  using sel legal
proof (cases rule: burst_select_cases)
  case (declined data)
  note t = burst_tail_reserved [OF burst_okD(6,5) [OF ok] declined(1)]
  have "reserved_count active a + spent_by a (event_beats e) \<le>
      dget (led_balances (bs_credits s)) a 0" for a
    using burst_okD(9) [OF ok, of a] t(1) [of a]
    by (simp add: declined(2) spent_by_events split: option.splits)
  moreover have "legal_beat (bs_ports s) b \<and> (bt_port b, bt_channel b) \<in> led_initialized (bs_credits s)"
    if "b \<in> set (event_beats e)" for b
    using that t(5) by (auto simp: declined(2) event_beats_data legal_beat_def channels_def split: option.splits)
  moreover have "phase = Some (bd_port d)" if "be_data e = Some d" for d
    using tail_current [OF ok] declined that by auto
  ultimately show ?thesis
    using t(2,3) burst_okD(8) [OF ok] tail_quiet [OF ok declined(1)]
    by (auto simp: select_post_def declined(2,3) split: option.splits)
next
  case (read r data)
  note t = burst_tail_reserved [OF burst_okD(6,5) [OF ok] read(3)]
  have leg: "legal_request (bs_ports s) r" using legal burst_okD(2) [OF ok] by (simp add: read(1))
  have adm: "(br_port r, Req) \<in> led_initialized (bs_credits s)"
    "1 \<le> dget (led_balances (bs_credits s))
      (Account (br_port r) Req (if br_pool r then None else Some (br_vc r))) 0"
    "burst_current s request = Some (br_port r)"
    using read(2) by (simp_all add: admissible_def)
  have "reserved_count active a + spent_by a (event_beats e) \<le>
      dget (led_balances (bs_credits s)) a 0" for a
    using burst_okD(9) [OF ok, of a] t(1) [of a] adm(2) reserved_other [of a]
    by (auto simp: read(5) spent_by_events data_account_def split: option.splits)
  moreover have "legal_beat (bs_ports s) b \<and> (bt_port b, bt_channel b) \<in> led_initialized (bs_credits s)"
    if "b \<in> set (event_beats e)" for b
    using that t(5) leg adm(1)
    by (auto simp: read(5) event_beats_data legal_beat_def legal_request_def channels_def split: option.splits)
  moreover have "phase = Some (bd_port d)" if "be_data e = Some d" for d
    using t(5) [of d] that adm(3) by (simp add: read(5,6))
  ultimately show ?thesis
    using t(2,3) leg by (auto simp: select_post_def read(5,6) legal_request_def)
next
  case (data r k)
  have leg: "legal_request (bs_ports s) r" using legal burst_okD(2) [OF ok] by (simp add: data(1))
  then have r: "0 \<le> br_port r" "br_port r < bs_ports s" "0 \<le> br_vc r" "br_vc r < 4" "0 \<le> k" "k < 4"
    "int (length (br_data_pools r)) = k + 1"
    by (simp_all add: legal_request_def data(3))
  have adm: "(br_port r, Req) \<in> led_initialized (bs_credits s)"
    "1 \<le> dget (led_balances (bs_credits s))
      (Account (br_port r) Req (if br_pool r then None else Some (br_vc r))) 0"
    "br_port r \<notin> fst ` set (bs_active s)" "(br_port r, Orig_Data) \<in> led_initialized (bs_credits s)"
    "int (count_list (br_data_pools r) False) \<le>
       dget (led_balances (bs_credits s)) (Account (br_port r) Orig_Data (Some (br_vc r))) 0"
    "int (count_list (br_data_pools r) True) \<le>
       dget (led_balances (bs_credits s)) (Account (br_port r) Orig_Data None) 0"
    using data(2,3) by (simp_all add: admissible_def)
  obtain x xs where xs: "br_data_pools r = x # xs" using r(5,7) by (cases "br_data_pools r") auto
  have short: "k = 0 \<Longrightarrow> xs = []" using r(7) by (simp add: xs)
  have "reserved_count active a + spent_by a (event_beats e) \<le>
      dget (led_balances (bs_credits s)) a 0" for a
  proof (cases "acc_channel a = Orig_Data \<and> acc_port a = br_port r")
    case True
    then obtain v where a: "a = Account (br_port r) Orig_Data v" by (cases a) auto
    have old: "reserved_count (bs_active s) a = 0"
      using adm(3) by (simp add: a reserved_inactive)
    have new: "reserved_count active a = (if k \<noteq> 0 then reserved_count [(br_port r, r, 1)] a else 0)"
      using old by (simp add: data(6) a reserved_update)
    have one: "reserved_count [(br_port r, r, 1)] a =
        (if v \<noteq> None \<and> v \<noteq> Some (br_vc r) then 0 else int (count_list xs (v = None)))"
      by (simp add: reserved_count_def a xs)
    have "0 \<le> dget (led_balances (bs_credits s)) a 0" using burst_okD(9) [OF ok, of a] old by simp
    then show ?thesis
      using adm(5,6) short unfolding new one
      by (cases v) (auto simp: a data(5) spent_by_events data_account_def xs)
  next
    case False
    then have "reserved_count active a = reserved_count (bs_active s) a"
      by (auto simp: data(6) reserved_update)
    then show ?thesis
      using False adm(2) burst_okD(9) [OF ok, of a] reserved_other [of a "bs_active s"]
      by (auto simp: data(5) spent_by_events data_account_def)
  qed
  moreover have "legal_active (bs_credits s) (bs_ports s) (br_port r, r, 1)" if "k \<noteq> 0"
    using that r adm(4) by (auto simp: legal_active_def data(3))
  then have "list_all (legal_active (bs_credits s) (bs_ports s)) active" "distinct (map fst active)"
    using burst_okD(5,6) [OF ok] by (simp_all add: data(6) list_all_update distinct_update)
  ultimately show ?thesis
    using r adm(1,4)
    by (auto simp: select_post_def data(5,7) event_beats_data legal_beat_def channels_def)
qed

subsection \<open>One edge of the sender\<close>

lemma ledger_init_mono:
  "ledger_step L conn rs bs ds False = Inr L' \<Longrightarrow> 0 < led_stable L \<Longrightarrow>
     led_initialized L \<subseteq> led_initialized L'"
  using ledger_new_slot by blast

lemma granted_nonneg:
  "ledger_step L conn rs bs ds False = Inr L' \<Longrightarrow> 0 \<le> granted_to a rs"
proof (erule ledger_step_edge)
  fix bal1 seen1
  assume g: "rfold (ledger_grant (led_ports L) conn) (led_balances L, {}) rs = Inr (bal1, seen1)"
  show ?thesis using grants_sum [OF g, of a] grants_monotone [OF g, of a] by linarith
qed

lemma burst_step_ok:
  assumes ok: "burst_ok s" and st: "burst_step s conn request rs ds reset = Inr (s', e)"
  shows "burst_ok s'"
proof (cases reset)
  case True
  with st obtain L where L: "ledger_step (bs_credits s) no_signals [] [] [] True = Inr L"
    and s': "s' = s\<lparr>bs_credits := L, bs_active := [], bs_phase := None\<rparr>"
    by (auto simp: burst_step_def)
  have "ledger_inv (led_capacities L) L" "led_ports L = bs_ports s" "0 < led_stable L"
    using ledger_step_inv [OF burst_okD(4) [OF ok] L] L burst_okD(2,3) [OF ok]
    by (auto simp: ledger_step_def)
  with burst_okD(1) [OF ok] show ?thesis
    using ledger_inv_balance by (auto simp: burst_ok_def s' reserved_count_def)
next
  case False
  with st obtain active phase L where v: "case request of None \<Rightarrow> True | Some r \<Rightarrow> burst_validate s r = Inr ()"
    and sel: "burst_select s conn request = Inr (e, active, phase)"
    and L: "ledger_step (bs_credits s) conn rs (event_beats e) ds False = Inr L"
    and s': "s' = s\<lparr>bs_credits := L, bs_active := active,
                 bs_phase := map_option (\<lambda>p. (p + 1) mod bs_ports s) phase\<rparr>"
    by (auto simp: burst_step_def split: option.splits)
  have "select_post s e active phase"
    using v by (intro burst_select_post [OF ok sel]) (simp add: burst_validate_legal split: option.splits)
  then have P: "\<forall>a. reserved_count active a + spent_by a (event_beats e) \<le>
      dget (led_balances (bs_credits s)) a 0"
    "list_all (legal_active (bs_credits s) (bs_ports s)) active" "distinct (map fst active)"
    "phase = None \<Longrightarrow> active = []"
    by (auto simp: select_post_def split: option.splits)
  have same: "led_ports L = bs_ports s" "led_stable L = led_stable (bs_credits s)"
      "led_capacities L = led_capacities (bs_credits s)"
    using L burst_okD(2) [OF ok] by (auto elim: ledger_step_edge)
  have "reserved_count active a \<le> dget (led_balances L) a 0" for a
    using P(1) ledger_step_balance [OF L, of a] granted_nonneg [OF L, of a] by (smt (verit))
  moreover have "list_all (legal_active L (bs_ports s)) active"
    using P(2) ledger_init_mono [OF L burst_okD(3) [OF ok]]
    by (fastforce simp: list_all_iff legal_active_def)
  moreover have "ledger_inv (led_capacities L) L"
    using ledger_step_inv [OF burst_okD(4) [OF ok] L] same by simp
  ultimately show ?thesis
    using same P(3,4) burst_okD(1,3) [OF ok]
    by (auto simp: burst_ok_def s' split: option.splits)
qed

interpretation burst: machine burst_tick burst_ok
proof unfold_locales
  show "burst_ok s'" if "burst_ok s" "burst_tick s i = Inr (s', out)" for s i s' out
    using that burst_step_ok by (auto simp: burst_tick_def)
qed

lemma burst_init_ok:
  assumes "burst_init caps n k = Inr s"
  shows "burst_ok s"
proof -
  from assms obtain L where L: "ledger_init caps n k = Inr L"
    and s: "s = \<lparr>bs_credits = L, bs_ports = n, bs_phase = None, bs_active = []\<rparr>"
    by (auto simp: burst_init_def)
  have "led_ports L = n" "0 < n" "0 < led_stable L" "led_capacities L = dict_of caps"
    using L by (auto simp: ledger_init_def check_ports_def Let_def split: if_splits)
  moreover have "ledger_inv (dict_of caps) L" by (rule ledger_init_inv [OF L])
  ultimately show ?thesis
    using ledger_inv_balance by (auto simp: burst_ok_def s reserved_count_def)
qed

text \<open>
  The sender never lacks credit: when the credit returns and init indications of the edge are
  acceptable on their own and the connection carries beats, the edge succeeds with the beats the
  sender chose, whatever legal candidate is offered.
\<close>

lemma burst_step_succeeds:
  assumes ok: "burst_ok s" and en: "beats_enabled conn"
    and quiet: "ledger_step (bs_credits s) conn rs [] ds False = Inr L0"
    and legal: "pred_option (\<lambda>r. burst_validate s r = Inr ()) request"
  shows "\<exists>s' e. burst_step s conn request rs ds False = Inr (s', e)"
proof -
  have leg: "pred_option (legal_request (led_ports (bs_credits s))) request"
    using legal by (simp add: burst_validate_legal)
  obtain e active phase where sel: "burst_select s conn request = Inr (e, active, phase)"
    using burst_select_total [OF leg, of conn] by auto
  have P: "select_post s e active phase" by (rule burst_select_post [OF ok sel leg])
  have "1 \<le> dget (led_balances (bs_credits s)) (beat_account b) 0" if "b \<in> set (event_beats e)" for b
  proof -
    have "spent_by (beat_account b) (event_beats e) \<ge> 1"
      using that by (rule spent_by_mem)
    moreover have "reserved_count active (beat_account b) + spent_by (beat_account b) (event_beats e) \<le>
        dget (led_balances (bs_credits s)) (beat_account b) 0"
      using P by (simp add: select_post_def)
    ultimately show ?thesis using reserved_nonneg [of active "beat_account b"] by linarith
  qed
  then have "\<exists>L'. ledger_step (bs_credits s) conn rs (event_beats e) ds False = Inr L'"
    using P en burst_okD(2) [OF ok]
    by (intro ledger_step_succeeds [OF quiet event_beats_distinct]) (auto simp: select_post_def)
  then show ?thesis using sel legal by (auto simp: burst_step_def split: option.splits)
qed

lemma burst_step_raises [raises_intros]:
  "ValueError \<in> E \<Longrightarrow> KeyError \<in> E \<Longrightarrow> raises_only E (burst_step s conn request rs ds reset)"
  unfolding burst_step_def burst_validate_def burst_select_def burst_eligible_def
    burst_available_def burst_reserved_def
  by (intro raises_intros)

end
