(* ===== verification/Upli_Tdm.thy ===== *)
theory Upli_Tdm
  imports Upli_Credit
begin

section \<open>UPLI time-division phase observer\<close>

text \<open>
  Models \<open>simulator/UAlink2.0/model/ualink/upli_tdm.py\<close>. The phase dictionary has three keys,
  one for each group: the request group (requests and their data share it) and the two response
  channels; it is a function from channels to an optional phase. The lemmas show that an
  established phase advances by one port per edge and that every observed beat sits in its slot.
\<close>

record tdm =
  tdm_ports :: int
  tdm_phase :: "channel \<Rightarrow> int option"

definition tdm_init :: "int \<Rightarrow> py_error + tdm" where
  "tdm_init num_ports =
     (if num_ports \<notin> {1, 2, 4} then Inl ValueError
      else Inr \<lparr>tdm_ports = num_ports, tdm_phase = (\<lambda>_. None)\<rparr>)"

definition tdm_group :: "channel \<Rightarrow> channel" where
  "tdm_group ch = (if ch = Orig_Data then Req else ch)"

definition tdm_observe ::
  "int \<Rightarrow> (channel \<times> int) list \<Rightarrow> channel \<times> int \<Rightarrow> py_error + (channel \<times> int) list" where
  "tdm_observe n observed = (\<lambda>(ch, port).
     if ch \<notin> {Req, Orig_Data, Rd_Rsp, Wr_Rsp} then Inl ValueError
     else if \<not> (0 \<le> port \<and> port < n) \<or> ch \<in> fst ` set observed then Inl ValueError
     else Inr (AList.update ch port observed))"

definition tdm_check ::
  "(channel \<Rightarrow> int option) \<Rightarrow> channel \<times> int \<Rightarrow> py_error + (channel \<Rightarrow> int option)" where
  "tdm_check current = (\<lambda>(ch, port).
     case current (tdm_group ch) of
       None \<Rightarrow> (if ch = Orig_Data then Inl ValueError
                else Inr (current(tdm_group ch := Some port)))
     | Some p \<Rightarrow> (if port \<noteq> p then Inl ValueError else Inr current))"

definition tdm_step :: "tdm \<Rightarrow> (channel \<times> int) list \<Rightarrow> bool \<Rightarrow> py_error + tdm" where
  "tdm_step t beats reset =
     (if reset then Inr (t\<lparr>tdm_phase := (\<lambda>_. None)\<rparr>)
      else
        rbind (rfold (tdm_observe (tdm_ports t)) [] beats) (\<lambda>observed.
          let current = (case map_of observed Req of
                           Some p \<Rightarrow> (if tdm_phase t Req = None then (tdm_phase t)(Req := Some p)
                                      else tdm_phase t)
                         | None \<Rightarrow> tdm_phase t)
          in rbind (rfold tdm_check current observed) (\<lambda>phase.
               Inr (t\<lparr>tdm_phase := (\<lambda>g. map_option (\<lambda>p. (p + 1) mod tdm_ports t) (phase g))\<rparr>))))"

definition tdm_tick :: "tdm \<Rightarrow> (channel \<times> int) list \<times> bool \<Rightarrow> py_error + tdm \<times> unit" where
  "tdm_tick t = (\<lambda>(beats, reset). rbind (tdm_step t beats reset) (\<lambda>t'. Inr (t', ())))"

subsection \<open>Observation keeps every beat\<close>

lemma tdm_observe_loop:
  "rfold (tdm_observe n) obs beats = Inr obs' \<Longrightarrow>
     map_of obs' = map_of obs ++ map_of beats \<and> distinct (map fst beats) \<and>
     fst ` set beats \<inter> fst ` set obs = {} \<and>
     (\<forall>(ch, p) \<in> set beats. ch \<in> set channels \<and> 0 \<le> p \<and> p < n)"
proof (induction beats arbitrary: obs)
  case Nil
  then show ?case by simp
next
  case (Cons b beats)
  obtain ch p where b: "b = (ch, p)" by force
  with Cons.prems obtain obs1 where 1: "tdm_observe n obs (ch, p) = Inr obs1"
    and 2: "rfold (tdm_observe n) obs1 beats = Inr obs'" by auto
  from 1 have o1: "obs1 = AList.update ch p obs" "ch \<notin> fst ` set obs" "ch \<in> set channels"
    "0 \<le> p" "p < n"
    by (auto simp: tdm_observe_def channels_def split: if_splits)
  with Cons.IH [OF 2] show ?case
    by (auto simp: b update_keys update_conv' map_add_def fun_eq_iff image_iff
        dest: map_of_SomeD split: option.splits)
qed

lemma tdm_check_loop:
  "rfold tdm_check cur obs = Inr ph \<Longrightarrow> cur g = Some p \<Longrightarrow>
     ph g = Some p \<and> (\<forall>(ch, q) \<in> set obs. tdm_group ch = g \<longrightarrow> q = p)"
proof (induction obs arbitrary: cur)
  case Nil
  then show ?case by simp
next
  case (Cons x obs)
  obtain ch q where x: "x = (ch, q)" by force
  with Cons.prems obtain cur1 where 1: "tdm_check cur (ch, q) = Inr cur1"
    and 2: "rfold tdm_check cur1 obs = Inr ph" by auto
  from 1 Cons.prems(2) have "cur1 g = Some p" "tdm_group ch = g \<Longrightarrow> q = p"
    by (auto simp: tdm_check_def split: option.splits if_splits)
  with Cons.IH [OF 2] x show ?case by auto
qed

lemma tdm_step_phase:
  assumes "tdm_step t beats False = Inr t'" and "tdm_phase t g = Some p"
  shows "tdm_phase t' g = Some ((p + 1) mod tdm_ports t)"
    and "\<forall>(ch, q) \<in> set beats. tdm_group ch = g \<longrightarrow> q = p"
    and "tdm_ports t' = tdm_ports t"
proof -
  from assms(1) obtain obs ph where
    obs: "rfold (tdm_observe (tdm_ports t)) [] beats = Inr obs"
    and ph: "rfold tdm_check (case map_of obs Req of
               Some p \<Rightarrow> (if tdm_phase t Req = None then (tdm_phase t)(Req := Some p) else tdm_phase t)
             | None \<Rightarrow> tdm_phase t) obs = Inr ph" (is "rfold _ ?cur _ = _")
    and t': "t' = t\<lparr>tdm_phase := (\<lambda>g. map_option (\<lambda>p. (p + 1) mod tdm_ports t) (ph g))\<rparr>"
    by (auto simp: tdm_step_def Let_def)
  have cur: "?cur g = Some p" using assms(2) by (auto split: option.splits)
  from tdm_observe_loop [OF obs] have "map_of obs = map_of beats" "distinct (map fst beats)"
    by auto
  then have mem: "set beats \<subseteq> set obs"
    by (auto dest!: map_of_is_SomeI intro: map_of_SomeD)
  from tdm_check_loop [OF ph cur] mem
  show "\<forall>(ch, q) \<in> set beats. tdm_group ch = g \<longrightarrow> q = p" by blast
  from tdm_check_loop [OF ph cur] show "tdm_phase t' g = Some ((p + 1) mod tdm_ports t)"
    by (simp add: t')
  show "tdm_ports t' = tdm_ports t" by (simp add: t')
qed

text \<open>Slot law over a run: \<open>k\<close> edges after phase \<open>p\<close> the slot belongs to port \<open>(p + k) mod n\<close>.\<close>

lemma tdm_run_phase:
  assumes "run tdm_tick t is = Inr (t', outs)" and "list_all (\<lambda>(beats, reset). \<not> reset) is"
    and "tdm_phase t g = Some p" and "0 \<le> p" and "p < tdm_ports t"
  shows "tdm_phase t' g = Some ((p + int (length is)) mod tdm_ports t) \<and>
    (\<forall>j < length is. \<forall>(ch, q) \<in> set (fst (is ! j)). tdm_group ch = g \<longrightarrow>
        q = (p + int j) mod tdm_ports t)"
  using assms
proof (induction "is" arbitrary: t p outs)
  case Nil
  then show ?case by simp
next
  case (Cons i "is")
  obtain beats where i: "i = (beats, False)" using Cons.prems(2) by (cases i) auto
  from Cons.prems(1) obtain t1 u outs1 where 0: "tdm_tick t i = Inr (t1, u)"
    and 2: "run tdm_tick t1 is = Inr (t', outs1)" by (rule run_ConsE)
  from 0 have 1: "tdm_step t beats False = Inr t1" by (simp add: tdm_tick_def i)
  note ph = tdm_step_phase [OF 1 Cons.prems(3)]
  have "0 < tdm_ports t" using Cons.prems(4,5) by linarith
  with Cons.IH [OF 2 _ ph(1)] Cons.prems(2)
  have IH: "tdm_phase t' g = Some (((p + 1) mod tdm_ports t + int (length is)) mod tdm_ports t) \<and>
    (\<forall>j < length is. \<forall>(ch, q) \<in> set (fst (is ! j)). tdm_group ch = g \<longrightarrow>
        q = ((p + 1) mod tdm_ports t + int j) mod tdm_ports t)"
    by (auto simp: ph(3))
  have hd: "\<forall>(ch, q) \<in> set beats. tdm_group ch = g \<longrightarrow> q = p mod tdm_ports t"
    using ph(2) Cons.prems(4,5) by auto
  have "q = (p + int j) mod tdm_ports t"
    if "j < length (i # is)" "(ch, q) \<in> set (fst ((i # is) ! j))" "tdm_group ch = g" for j ch q
  proof (cases j)
    case 0
    with that hd show ?thesis by (auto simp: i)
  next
    case (Suc k)
    with that have "k < length is" "(ch, q) \<in> set (fst (is ! k))" by auto
    with IH that(3) have "q = ((p + 1) mod tdm_ports t + int k) mod tdm_ports t" by blast
    with Suc show ?thesis by (simp add: mod_add_left_eq add.assoc)
  qed
  moreover have "tdm_phase t' g = Some ((p + int (length (i # is))) mod tdm_ports t)"
    using IH by (simp add: mod_add_left_eq add.assoc)
  ultimately show ?case by blast
qed

end
