(* ===== verification/Upli_Burst_Monitor.thy ===== *)
theory Upli_Burst_Monitor
  imports Upli_Burst Upli_Tdm
begin

section \<open>Passive burst monitor\<close>

text \<open>
  Models \<open>simulator/UAlink2.0/model/ualink/upli_burst_monitor.py\<close>: for each running burst the
  remaining offsets and the absolute cycle of the next mandatory data slot, and the phase observer
  \<open>UpliTdm\<close>. The main lemma is a simulation: on the events the burst sender emits the monitor never
  raises.
\<close>

type_synonym pendings = "(int \<times> int \<times> int list \<times> int) list"

record burst_monitor =
  bm_tdm :: tdm
  bm_ports :: int
  bm_cycle :: int
  bm_pending :: pendings

definition bmon_init :: "int \<Rightarrow> py_error + burst_monitor" where
  "bmon_init num_ports =
     rbind (tdm_init num_ports) (\<lambda>t.
       Inr \<lparr>bm_tdm = t, bm_ports = num_ports, bm_cycle = 0, bm_pending = []\<rparr>)"

definition bmon_identity :: "int \<Rightarrow> int \<Rightarrow> int \<Rightarrow> py_error + unit" where
  "bmon_identity n port vc = ensure (0 \<le> port \<and> port < n \<and> 0 \<le> vc \<and> vc < 4)"

definition bmon_check_request :: "int \<Rightarrow> burst_request \<Rightarrow> py_error + unit" where
  "bmon_check_request n r =
     rbind (bmon_identity n (br_port r) (br_vc r)) (\<lambda>_.
       case br_beats r of None \<Rightarrow> Inr () | Some k \<Rightarrow> ensure (0 \<le> k \<and> k \<le> 3))"

definition bmon_check_data :: "int \<Rightarrow> burst_data \<Rightarrow> py_error + unit" where
  "bmon_check_data n d =
     rbind (bmon_identity n (bd_port d) (bd_vc d)) (\<lambda>_. ensure (0 \<le> bd_offset d \<and> bd_offset d \<le> 3))"

definition bmon_due :: "burst_monitor \<Rightarrow> int list" where
  "bmon_due m = map fst (filter (\<lambda>(port, _, _, deadline). deadline \<le> bm_cycle m) (bm_pending m))"

definition bmon_advance :: "burst_monitor \<Rightarrow> int list \<Rightarrow> burst_request option \<Rightarrow> pendings" where
  "bmon_advance m due request =
     (let pending =
            (case due of
               [] \<Rightarrow> bm_pending m
             | port # _ \<Rightarrow>
                 (case map_of (bm_pending m) port of
                    None \<Rightarrow> bm_pending m
                  | Some (vc, offsets, deadline) \<Rightarrow>
                      if length offsets = 1 then AList.delete port (bm_pending m)
                      else AList.update port (vc, tl offsets, deadline + bm_ports m) (bm_pending m)))
      in case request of
           None \<Rightarrow> pending
         | Some r \<Rightarrow>
             (case br_beats r of
                None \<Rightarrow> pending
              | Some k \<Rightarrow>
                  if k \<noteq> 0 then AList.update (br_port r)
                    (br_vc r, [1..k], bm_cycle m + bm_ports m) pending
                  else pending))"

definition bmon_step ::
  "burst_monitor \<Rightarrow> burst_request option \<Rightarrow> burst_data option \<Rightarrow> bool \<Rightarrow> py_error + burst_monitor" where
  "bmon_step m request data reset =
     (if reset then
        rbind (tdm_step (bm_tdm m) [] True) (\<lambda>t. Inr (m\<lparr>bm_tdm := t, bm_pending := [], bm_cycle := 0\<rparr>))
      else
        rbind (case request of None \<Rightarrow> Inr () | Some r \<Rightarrow> bmon_check_request (bm_ports m) r) (\<lambda>_.
        rbind (case data of None \<Rightarrow> Inr () | Some d \<Rightarrow> bmon_check_data (bm_ports m) d) (\<lambda>_.
        let due = bmon_due m;
            starts = (request \<noteq> None \<and> br_beats (the request) \<noteq> None)
        in
        if length due > 1 then Inl ValueError
        else if starts \<and> br_port (the request) \<in> fst ` set (bm_pending m) then Inl ValueError
        else
          rbind (case due of
                   [] \<Rightarrow> Inr None
                 | port # _ \<Rightarrow>
                     (case map_of (bm_pending m) port of
                        None \<Rightarrow> Inl KeyError
                      | Some (vc, offsets, deadline) \<Rightarrow>
                          if deadline \<noteq> bm_cycle m then Inl ValueError
                          else (case offsets of
                                  [] \<Rightarrow> Inl IndexError
                                | off # _ \<Rightarrow> Inr (Some (port, vc, off, length offsets = 1)))))
            (\<lambda>tail.
          if starts \<and> due \<noteq> [] then Inl ValueError
          else
            let expected = (if starts
                  then Some (br_port (the request), br_vc (the request), 0, br_beats (the request) = Some 0)
                  else tail)
            in
            if map_option (\<lambda>d. (bd_port d, bd_vc d, bd_offset d, bd_last d)) data \<noteq> expected
            then Inl ValueError
            else
              rbind (tdm_step (bm_tdm m)
                       ((case request of None \<Rightarrow> [] | Some r \<Rightarrow> [(Req, br_port r)]) @
                        (case data of None \<Rightarrow> [] | Some d \<Rightarrow> [(Orig_Data, bd_port d)])) False) (\<lambda>t.
                Inr (m\<lparr>bm_tdm := t, bm_pending := bmon_advance m due request,
                       bm_cycle := bm_cycle m + 1\<rparr>))))))"

subsection \<open>The monitor follows the sender\<close>

definition follows :: "burst_sender \<Rightarrow> burst_monitor \<Rightarrow> bool" where
  "follows s m \<longleftrightarrow>
     bm_ports m = bs_ports s \<and> tdm_ports (bm_tdm m) = bs_ports s \<and>
     tdm_phase (bm_tdm m) = (\<lambda>g. if g = Req then bs_phase s else None) \<and>
     distinct (map fst (bm_pending m)) \<and>
     map_of (bm_pending m) = (\<lambda>p. case map_of (bs_active s) p of
        None \<Rightarrow> None
      | Some (r, off) \<Rightarrow> Some (br_vc r, [off..the (br_beats r)],
          bm_cycle m + (p - the (bs_phase s)) mod bs_ports s))"

lemma upto_head: "(off::int) \<le> k \<Longrightarrow> [off..k] = off # [off + 1..k]"
  by (rule upto_rec1)

text \<open>The phase observer on the events of an edge in phase \<open>p\<close>.\<close>

lemma tdm_follows:
  assumes "tdm_phase t = (\<lambda>g. if g = Req then q else None)" and "q = None \<or> q = phase"
    and "\<And>r. request = Some r \<Longrightarrow> phase = Some (br_port r) \<and> 0 \<le> br_port r \<and> br_port r < tdm_ports t"
    and "\<And>d. data = Some d \<Longrightarrow> phase = Some (bd_port d) \<and> 0 \<le> bd_port d \<and> bd_port d < tdm_ports t"
    and "request = None \<Longrightarrow> q = phase"
  shows "\<exists>t'. tdm_step t ((case request of None \<Rightarrow> [] | Some r \<Rightarrow> [(Req, br_port r)]) @
        (case data of None \<Rightarrow> [] | Some d \<Rightarrow> [(Orig_Data, bd_port d)])) False = Inr t' \<and>
      tdm_ports t' = tdm_ports t \<and>
      tdm_phase t' = (\<lambda>g. if g = Req then map_option (\<lambda>p. (p + 1) mod tdm_ports t) phase else None)"
proof (cases request)
  case None
  note n = None
  show ?thesis
  proof (cases data)
    case None
    then show ?thesis using assms(1,5) n by (auto simp: tdm_step_def fun_eq_iff)
  next
    case (Some d)
    then show ?thesis using assms(1,4,5) n
      by (auto simp: tdm_step_def tdm_observe_def tdm_check_def tdm_group_def fun_eq_iff)
  qed
next
  case (Some r)
  note r = Some
  show ?thesis
  proof (cases data)
    case None
    then show ?thesis using assms(1,2,3) r
      by (cases q) (auto simp: tdm_step_def tdm_observe_def tdm_check_def tdm_group_def fun_eq_iff)
  next
    case (Some d)
    then show ?thesis using assms(1,2,3,4) r
      by (cases q) (auto simp: tdm_step_def tdm_observe_def tdm_check_def tdm_group_def fun_eq_iff)
  qed
qed

lemma due_phase:
  assumes "burst_ok s" and "follows s m"
  shows "bmon_due m = (case bs_phase s of None \<Rightarrow> [] | Some p \<Rightarrow>
    if p \<in> fst ` set (bs_active s) then [p] else [])"
proof -
  have keys: "distinct (map fst (bm_pending m))" using assms(2) by (simp add: follows_def)
  have mem: "p \<in> set (bmon_due m) \<longleftrightarrow> p \<in> fst ` set (bs_active s) \<and> bs_phase s = Some p" for p
  proof -
    have "p \<in> set (bmon_due m) \<longleftrightarrow> (\<exists>vc offs dl. map_of (bm_pending m) p = Some (vc, offs, dl) \<and> dl \<le> bm_cycle m)"
      unfolding map_of_eq_Some_iff [OF keys] by (force simp: bmon_due_def)
    also have "\<dots> \<longleftrightarrow> (\<exists>r off. map_of (bs_active s) p = Some (r, off) \<and>
        (p - the (bs_phase s)) mod bs_ports s \<le> 0)"
      using assms(2) by (auto simp: follows_def split: option.splits)
    also have "\<dots> \<longleftrightarrow> p \<in> fst ` set (bs_active s) \<and> bs_phase s = Some p"
    proof (cases "map_of (bs_active s) p")
      case None
      then have "p \<notin> fst ` set (bs_active s)" by (simp add: map_of_eq_None_iff)
      with None show ?thesis by simp
    next
      case (Some x)
      obtain r off where x: "x = (r, off)" by force
      have mem: "(p, r, off) \<in> set (bs_active s)" using map_of_mem Some x by fastforce
      then have p: "0 \<le> p" "p < bs_ports s" using burst_okD(6) [OF assms(1)]
        by (auto simp: list_all_iff legal_active_def)
      from mem obtain q where q: "bs_phase s = Some q" using burst_okD(7) [OF assms(1)] by force
      then have qr: "0 \<le> q" "q < bs_ports s" using burst_okD(8) [OF assms(1)] by blast+
      have "(p - q) mod bs_ports s \<le> 0 \<longleftrightarrow> p = q"
      proof
        assume "(p - q) mod bs_ports s \<le> 0"
        then have "(p - q) mod bs_ports s = 0" using pos_mod_sign [of "bs_ports s" "p - q"] p by linarith
        then have "p mod bs_ports s = q mod bs_ports s" by (simp add: mod_eq_dvd_iff dvd_eq_mod_eq_0)
        then show "p = q" using p qr by simp
      qed simp
      then show ?thesis using Some x q mem by force
    qed
    finally show ?thesis .
  qed
  have dist: "distinct (bmon_due m)"
    using assms(2) by (simp add: bmon_due_def follows_def distinct_map_filter)
  show ?thesis
  proof (cases "bs_phase s")
    case None
    then show ?thesis using mem by (cases "bmon_due m") auto
  next
    case (Some p)
    have due: "set (bmon_due m) = (if p \<in> fst ` set (bs_active s) then {p} else {})"
      by (intro set_eqI) (auto simp add: mem Some)
    show ?thesis
    proof (cases "p \<in> fst ` set (bs_active s)")
      case True
      then show ?thesis using due distinct_one [OF dist] Some by simp
    next
      case False
      then show ?thesis using due Some by simp
    qed
  qed
qed

lemma deadline_step:
  assumes "0 \<le> (p::int)" "p < n" "0 \<le> q" "q < n" "p \<noteq> q"
  shows "c + (p - q) mod n = (c + 1) + (p - (q + 1) mod n) mod n"
proof -
  have "(p - q) mod n \<noteq> 0"
  proof
    assume "(p - q) mod n = 0"
    then have "p mod n = q mod n" by (simp add: mod_eq_dvd_iff dvd_eq_mod_eq_0)
    then show False using assms by simp
  qed
  then have "1 \<le> (p - q) mod n" using pos_mod_sign [of n "p - q"] assms by linarith
  moreover have "(p - q) mod n < n" using assms by (intro pos_mod_bound) linarith
  ultimately have "((p - q) mod n - 1) mod n = (p - q) mod n - 1"
    by (intro mod_pos_pos_trivial) auto
  moreover have "((p - q) mod n - 1) mod n = (p - (q + 1) mod n) mod n"
    by (simp add: mod_diff_left_eq mod_diff_right_eq algebra_simps)
  ultimately show ?thesis by simp
qed

lemma deadline_own:
  assumes "0 \<le> (q::int)" "q < n"
  shows "c + n = (c + 1) + (q - (q + 1) mod n) mod n"
proof -
  have "(q - (q + 1) mod n) mod n = (- 1) mod n" by (simp add: mod_diff_right_eq)
  also have "\<dots> = n - 1" using assms by (simp add: zmod_minus1)
  finally show ?thesis by simp
qed

text \<open>The pending dictionary after an edge matches the active dictionary after it.\<close>

definition expected_pending ::
  "actives \<Rightarrow> int \<Rightarrow> int option \<Rightarrow> int \<Rightarrow> int \<Rightarrow> (int \<times> int list \<times> int) option" where
  "expected_pending active n phase cycle p =
     (case map_of active p of None \<Rightarrow> None
      | Some (r, off) \<Rightarrow> Some (br_vc r, [off..the (br_beats r)], cycle + (p - the phase) mod n))"

lemma follows_pending:
  "follows s m \<Longrightarrow>
     map_of (bm_pending m) p = expected_pending (bs_active s) (bs_ports s) (bs_phase s) (bm_cycle m) p"
  by (simp add: follows_def expected_pending_def)

lemma advance_tail:
  assumes ok: "burst_ok s" and fo: "follows s m" and ph: "bs_phase s = Some q"
    and t: "burst_tail (bs_active s) (Some q) = (active, data)"
  shows "map_of (bmon_advance m (bmon_due m) None) p =
      expected_pending active (bs_ports s) (Some ((q + 1) mod bs_ports s)) (bm_cycle m + 1) p"
    and "distinct (map fst (bmon_advance m (bmon_due m) None))"
    and "\<And>d. data = Some d \<Longrightarrow> \<exists>offs. bmon_due m = [bd_port d] \<and>
      map_of (bm_pending m) (bd_port d) = Some (bd_vc d, bd_offset d # offs, bm_cycle m) \<and>
      bd_last d = (offs = [])"
    and "data = None \<Longrightarrow> bmon_due m = []"
proof -
  let ?n = "bs_ports s" and ?c = "bm_cycle m"
  have q: "0 \<le> q" "q < ?n" using burst_okD(8) [OF ok ph] by blast+
  have keys: "distinct (map fst (bm_pending m))" "bm_ports m = ?n"
    using fo by (simp_all add: follows_def)
  note pend = follows_pending [OF fo, unfolded ph]
  have range: "0 \<le> p \<and> p < ?n" if "map_of (bs_active s) p = Some (r, off)" for p r off
    using map_of_mem [OF that] burst_okD(6) [OF ok] by (auto simp: list_all_iff legal_active_def)
  have other: "expected_pending (bs_active s) ?n (Some q) ?c p =
      expected_pending (bs_active s) ?n (Some ((q + 1) mod ?n)) (?c + 1) p" if "p \<noteq> q" for p
    using deadline_step [OF _ _ q that] range by (auto simp: expected_pending_def split: option.splits)
  note due = due_phase [OF ok fo, unfolded ph option.case]
  show "map_of (bmon_advance m (bmon_due m) None) p =
      expected_pending active ?n (Some ((q + 1) mod ?n)) (?c + 1) p"
  proof (cases "map_of (bs_active s) q")
    case None
    then have "q \<notin> fst ` set (bs_active s)" by (simp add: map_of_eq_None_iff)
    moreover have "active = bs_active s" using t None by (simp add: burst_tail_def)
    moreover have "expected_pending (bs_active s) ?n (Some q) ?c q = None"
      "expected_pending (bs_active s) ?n (Some ((q + 1) mod ?n)) (?c + 1) q = None"
      using None by (simp_all add: expected_pending_def)
    ultimately show ?thesis using due pend other by (cases "p = q") (auto simp: bmon_advance_def)
  next
    case (Some x)
    obtain r off where x: "x = (r, off)" by force
    have mem: "q \<in> fst ` set (bs_active s)" using map_of_mem [OF Some] by force
    from map_of_mem [OF Some] burst_okD(6) [OF ok] obtain k where k: "br_beats r = Some k" "1 \<le> off" "off \<le> k"
      by (auto simp: list_all_iff legal_active_def x)
    have act: "active = (if off = k then AList.delete q (bs_active s)
        else AList.update q (r, off + 1) (bs_active s))"
      using t Some k by (auto simp: burst_tail_def x Let_def)
    have pq: "map_of (bm_pending m) q = Some (br_vc r, [off..k], ?c)"
      using pend [of q] Some k by (simp add: expected_pending_def x)
    have one: "length [off..k] = 1 \<longleftrightarrow> off = k" using k by auto
    have tl: "tl [off..k] = [off + 1..k]" using upto_head [OF k(3)] by simp
    have adv: "bmon_advance m (bmon_due m) None = (if off = k then AList.delete q (bm_pending m)
        else AList.update q (br_vc r, [off + 1..k], ?c + ?n) (bm_pending m))"
      using due mem pq one tl keys(2) by (simp add: bmon_advance_def)
    show ?thesis
    proof (cases "p = q")
      case False
      then show ?thesis using other [OF False] pend [of p] unfolding adv act
        by (simp add: expected_pending_def update_conv' delete_conv')
    next
      case True
      then show ?thesis using deadline_own [OF q, of ?c] k(1) unfolding adv act
        by (simp add: expected_pending_def update_conv' delete_conv')
    qed
  qed
  show "distinct (map fst (bmon_advance m (bmon_due m) None))"
    using keys by (auto simp: bmon_advance_def distinct_delete distinct_update split: option.splits list.splits)
  show "\<exists>offs. bmon_due m = [bd_port d] \<and>
      map_of (bm_pending m) (bd_port d) = Some (bd_vc d, bd_offset d # offs, bm_cycle m) \<and>
      bd_last d = (offs = [])" if d: "data = Some d" for d
  proof -
    from t d obtain r off where x: "map_of (bs_active s) q = Some (r, off)"
      and dd: "d = \<lparr>bd_port = q, bd_vc = br_vc r, bd_pool = br_data_pools r ! nat off,
          bd_offset = off, bd_last = (Some off = br_beats r)\<rparr>"
      by (auto simp: burst_tail_def Let_def split: option.splits)
    have mem: "q \<in> fst ` set (bs_active s)" using map_of_mem [OF x] by force
    from map_of_mem [OF x] burst_okD(6) [OF ok] obtain k where k: "br_beats r = Some k" "1 \<le> off" "off \<le> k"
      by (auto simp: list_all_iff legal_active_def)
    show ?thesis using due mem pend [of q] x k upto_head [OF k(3)]
      by (auto simp: dd expected_pending_def)
  qed
  show "bmon_due m = []" if "data = None"
    using t that due by (auto simp: burst_tail_def Let_def map_of_eq_None_iff split: option.splits)
qed

text \<open>No burst runs while the phase is unset.\<close>

lemma advance_idle:
  assumes "burst_ok s" and "follows s m" and "bs_phase s = None"
  shows "bmon_due m = []" and "bm_pending m = []" and "bs_active s = []"
proof -
  show "bs_active s = []" using burst_okD(7) [OF assms(1,3)] .
  then have "map_of (bm_pending m) p = None" for p
    using follows_pending [OF assms(2), of p] by (simp add: expected_pending_def)
  then show "bm_pending m = []" by (cases "bm_pending m") (auto split: if_splits, metis option.distinct(1))
  then show "bmon_due m = []" by (simp add: bmon_due_def)
qed

lemma bmon_checks:
  assumes "select_post s e active phase" and "follows s m"
    and "pred_option (legal_request (bs_ports s)) request"
    and "\<And>r. be_request e = Some r \<Longrightarrow> request = Some r"
    and "\<And>d. be_data e = Some d \<Longrightarrow> 0 \<le> bd_offset d \<and> bd_offset d < 4"
  shows "(case be_request e of None \<Rightarrow> Inr () | Some r \<Rightarrow> bmon_check_request (bm_ports m) r) = Inr ()"
    and "(case be_data e of None \<Rightarrow> Inr () | Some d \<Rightarrow> bmon_check_data (bm_ports m) d) = Inr ()"
proof -
  have n: "bm_ports m = bs_ports s" using assms(2) by (simp add: follows_def)
  show "(case be_request e of None \<Rightarrow> Inr () | Some r \<Rightarrow> bmon_check_request (bm_ports m) r) = Inr ()"
    using assms(3,4) by (auto simp: n bmon_check_request_def bmon_identity_def legal_request_def
        split: option.splits)
  show "(case be_data e of None \<Rightarrow> Inr () | Some d \<Rightarrow> bmon_check_data (bm_ports m) d) = Inr ()"
  proof (cases "be_data e")
    case (Some d)
    then have "legal_beat (bs_ports s)
        \<lparr>bt_port = bd_port d, bt_channel = Orig_Data, bt_vc = bd_vc d, bt_pool = bd_pool d\<rparr>"
      using assms(1) by (auto simp: select_post_def event_beats_data split: option.splits)
    then show ?thesis using assms(5) [OF Some]
      by (simp add: Some n bmon_check_data_def bmon_identity_def legal_beat_def)
  qed simp
qed

lemma bmon_step_follows:
  assumes ok: "burst_ok s" and fo: "follows s m"
    and sel: "burst_select s conn request = Inr (e, active, phase)"
    and legal: "pred_option (legal_request (led_ports (bs_credits s))) request"
  shows "\<exists>m'. bmon_step m (be_request e) (be_data e) False = Inr m' \<and>
    follows (s\<lparr>bs_credits := L, bs_active := active,
               bs_phase := map_option (\<lambda>p. (p + 1) mod bs_ports s) phase\<rparr>) m'"
proof -
  let ?n = "bs_ports s" and ?c = "bm_cycle m"
  have post: "select_post s e active phase" by (rule burst_select_post [OF ok sel legal])
  have leg: "pred_option (legal_request ?n) request" using legal burst_okD(2) [OF ok] by simp
  have sub: "be_request e = Some r \<Longrightarrow> request = Some r" for r
    using sel legal by (cases rule: burst_select_cases) auto
  have offs: "0 \<le> bd_offset d \<and> bd_offset d < 4" if "be_data e = Some d" for d
    using sel legal
  proof (cases rule: burst_select_cases)
    case (declined data)
    then show ?thesis using that burst_tail_reserved(5) [OF burst_okD(6,5) [OF ok] declined(1), of d] by simp
  next
    case (read r data)
    then show ?thesis using that burst_tail_reserved(5) [OF burst_okD(6,5) [OF ok] read(3), of d] by simp
  next
    case (data r k)
    then show ?thesis using that by auto
  qed
  have checks:
    "(case be_request e of None \<Rightarrow> Inr () | Some r \<Rightarrow> bmon_check_request (bm_ports m) r) = Inr ()"
    "(case be_data e of None \<Rightarrow> Inr () | Some d \<Rightarrow> bmon_check_data (bm_ports m) d) = Inr ()"
    using sub offs by (auto intro!: bmon_checks [OF post fo leg])
  have q: "bs_phase s = None \<or> bs_phase s = phase" "be_request e = None \<Longrightarrow> bs_phase s = phase"
    using sel legal
    by (cases rule: burst_select_cases; auto simp: admissible_def burst_current_def split: if_splits)+
  have pr: "tdm_ports (bm_tdm m) = ?n" "tdm_phase (bm_tdm m) = (\<lambda>g. if g = Req then bs_phase s else None)"
    using fo by (simp_all add: follows_def)
  have in_slot: "be_request e = Some r \<Longrightarrow> phase = Some (br_port r) \<and> 0 \<le> br_port r \<and> br_port r < ?n"
    "be_data e = Some d \<Longrightarrow> phase = Some (bd_port d) \<and> 0 \<le> bd_port d \<and> bd_port d < ?n" for r d
    using post by (auto simp: select_post_def split: option.splits)
  obtain t' where t': "tdm_step (bm_tdm m)
      ((case be_request e of None \<Rightarrow> [] | Some r \<Rightarrow> [(Req, br_port r)]) @
        (case be_data e of None \<Rightarrow> [] | Some d \<Rightarrow> [(Orig_Data, bd_port d)])) False = Inr t'"
      "tdm_ports t' = ?n"
      "tdm_phase t' = (\<lambda>g. if g = Req then map_option (\<lambda>p. (p + 1) mod ?n) phase else None)"
    using tdm_follows [OF pr(2) q(1) in_slot(1) [folded pr(1)] in_slot(2) [folded pr(1)] q(2)]
    unfolding pr(1) by blast
  define m' where "m' = m\<lparr>bm_tdm := t', bm_pending := bmon_advance m (bmon_due m) (be_request e),
      bm_cycle := ?c + 1\<rparr>"
  have fol: "follows (s\<lparr>bs_credits := L, bs_active := active,
               bs_phase := map_option (\<lambda>p. (p + 1) mod ?n) phase\<rparr>) m'"
    if "\<And>p. map_of (bm_pending m') p = expected_pending active ?n (map_option (\<lambda>p. (p + 1) mod ?n) phase) (?c + 1) p"
      "distinct (map fst (bm_pending m'))"
    unfolding follows_def
  proof (intro conjI ext)
    show "bm_ports m' = bs_ports (s\<lparr>bs_credits := L, bs_active := active,
        bs_phase := map_option (\<lambda>p. (p + 1) mod ?n) phase\<rparr>)"
      using fo by (simp add: m'_def follows_def)
    show "distinct (map fst (bm_pending m'))" by (rule that(2))
  qed (use that(1) t'(2,3) in \<open>simp_all add: m'_def expected_pending_def split: option.splits\<close>)
  have step: "bmon_step m (be_request e) (be_data e) False = Inr m'"
    if "map_option (\<lambda>d. (bd_port d, bd_vc d, bd_offset d, bd_last d)) (be_data e) =
          (if be_request e \<noteq> None \<and> br_beats (the (be_request e)) \<noteq> None
           then Some (br_port (the (be_request e)), br_vc (the (be_request e)), 0,
                      br_beats (the (be_request e)) = Some 0) else tail)"
      "(case bmon_due m of [] \<Rightarrow> Inr None
        | port # _ \<Rightarrow> (case map_of (bm_pending m) port of None \<Rightarrow> Inl KeyError
           | Some (vc, offsets, deadline) \<Rightarrow>
               if deadline \<noteq> bm_cycle m then Inl ValueError
               else (case offsets of [] \<Rightarrow> Inl IndexError
                     | off # _ \<Rightarrow> Inr (Some (port, vc, off, length offsets = 1))))) = Inr tail"
      "length (bmon_due m) \<le> 1"
      "be_request e \<noteq> None \<and> br_beats (the (be_request e)) \<noteq> None \<longrightarrow>
         bmon_due m = [] \<and> br_port (the (be_request e)) \<notin> fst ` set (bm_pending m)"
    for tail
  proof -
    have no: "\<not> 1 < length (bmon_due m)"
      "\<not> ((be_request e \<noteq> None \<and> br_beats (the (be_request e)) \<noteq> None) \<and>
          br_port (the (be_request e)) \<in> fst ` set (bm_pending m))"
      "\<not> ((be_request e \<noteq> None \<and> br_beats (the (be_request e)) \<noteq> None) \<and> bmon_due m \<noteq> [])"
      using that(3,4) by auto
    show ?thesis
      unfolding bmon_step_def Let_def checks rbind_Inr that(2) t'(1)
      using no that(1) by (simp only: if_False not_True_eq_False simp_thms m'_def)
  qed
  show ?thesis
    using sel legal
  proof (cases rule: burst_select_cases)
    case (declined data)
    show ?thesis
    proof (cases "bs_phase s")
      case None
      note idle = advance_idle [OF ok fo None]
      have "active = [] \<and> data = None" by (rule tail_quiet [OF ok declined(1) None])
      then have "follows (s\<lparr>bs_credits := L, bs_active := active,
               bs_phase := map_option (\<lambda>p. (p + 1) mod ?n) phase\<rparr>) m'"
        using idle by (intro fol) (auto simp: m'_def declined(2) bmon_advance_def expected_pending_def)
      moreover have "bmon_step m (be_request e) (be_data e) False = Inr m'"
        using idle \<open>active = [] \<and> data = None\<close> by (intro step [of None]) (auto simp: declined(2))
      ultimately show ?thesis by blast
    next
      case (Some q)
      have cur: "burst_current s request = Some q" by (simp add: burst_current_def Some split: option.splits)
      note adv = advance_tail [OF ok fo Some declined(1) [unfolded cur]]
      have "follows (s\<lparr>bs_credits := L, bs_active := active,
               bs_phase := map_option (\<lambda>p. (p + 1) mod ?n) phase\<rparr>) m'"
        using adv(1,2) by (intro fol) (auto simp: m'_def declined(2,3) Some)
      moreover have "bmon_step m (be_request e) (be_data e) False = Inr m'"
        using adv(3,4) by (cases data; intro step) (auto simp: declined(2))
      ultimately show ?thesis by blast
    qed
  next
    case (read r data)
    have same: "bmon_advance m (bmon_due m) (be_request e) = bmon_advance m (bmon_due m) None"
      by (simp add: bmon_advance_def read)
    have cur: "burst_current s request = Some (br_port r)" using read(2) by (simp add: admissible_def)
    show ?thesis
    proof (cases "bs_phase s")
      case None
      note idle = advance_idle [OF ok fo None]
      have quiet: "active = [] \<and> data = None" by (rule tail_quiet [OF ok read(3) None])
      then have "follows (s\<lparr>bs_credits := L, bs_active := active,
               bs_phase := map_option (\<lambda>p. (p + 1) mod ?n) phase\<rparr>) m'"
        using idle by (intro fol) (auto simp: m'_def read(4,5) bmon_advance_def expected_pending_def)
      moreover have "bmon_step m (be_request e) (be_data e) False = Inr m'"
        using idle quiet by (intro step [of None]) (auto simp: read)
      ultimately show ?thesis by blast
    next
      case (Some q)
      with cur have q: "q = br_port r" by (auto simp: burst_current_def read(1))
      note adv = advance_tail [OF ok fo Some read(3) [unfolded cur, folded q]]
      have "follows (s\<lparr>bs_credits := L, bs_active := active,
               bs_phase := map_option (\<lambda>p. (p + 1) mod ?n) phase\<rparr>) m'"
        using adv(1,2) by (intro fol) (auto simp: m'_def same read(6) q)
      moreover have "bmon_step m (be_request e) (be_data e) False = Inr m'"
        using adv(3,4) by (cases data; intro step) (auto simp: read)
      ultimately show ?thesis by blast
    qed
  next
    case (data r k)
    have adm: "br_port r \<notin> fst ` set (bs_active s)" "burst_current s request = Some (br_port r)"
      using data(2,3) by (simp_all add: admissible_def)
    have due: "bmon_due m = []"
    proof (cases "bs_phase s")
      case None
      then show ?thesis using advance_idle [OF ok fo] by blast
    next
      case (Some q)
      with adm(2) have "q = br_port r" by (auto simp: burst_current_def data(1))
      then show ?thesis using due_phase [OF ok fo] adm(1) Some by simp
    qed
    have none: "map_of (bs_active s) (br_port r) = None" using adm(1) by (simp add: map_of_eq_None_iff)
    then have fresh: "map_of (bm_pending m) (br_port r) = None"
      using follows_pending [OF fo, of "br_port r"] by (simp add: expected_pending_def)
    then have free: "br_port r \<notin> fst ` set (bm_pending m)" by (simp add: map_of_eq_None_iff)
    have r: "0 \<le> br_port r" "br_port r < ?n" "0 \<le> k"
      using leg by (auto simp: data(1,3) legal_request_def)
    have keys: "distinct (map fst (bm_pending m))" "bm_ports m = ?n"
      using fo by (simp_all add: follows_def)
    have adv: "bmon_advance m (bmon_due m) (be_request e) =
        (if k \<noteq> 0 then AList.update (br_port r) (br_vc r, [1..k], ?c + ?n) (bm_pending m) else bm_pending m)"
      by (simp add: bmon_advance_def due data(3,5) keys(2))
    have range: "0 \<le> p \<and> p < ?n" if "map_of (bs_active s) p = Some (r, off)" for p r off
      using map_of_mem [OF that] burst_okD(6) [OF ok] by (auto simp: list_all_iff legal_active_def)
    have other: "map_of (bm_pending m) p =
        expected_pending (bs_active s) ?n (Some ((br_port r + 1) mod ?n)) (?c + 1) p" if "p \<noteq> br_port r" for p
    proof (cases "map_of (bs_active s) p")
      case None
      then show ?thesis using follows_pending [OF fo, of p] by (simp add: expected_pending_def)
    next
      case (Some x)
      then have "p \<in> fst ` set (bs_active s)" by (rule map_of_key)
      then obtain q where q: "bs_phase s = Some q" using burst_okD(7) [OF ok] by force
      with adm(2) have "q = br_port r" by (auto simp: burst_current_def data(1))
      then show ?thesis
        using follows_pending [OF fo, of p] range [of p] deadline_step [OF _ _ r(1,2) that, of ?c] Some q
        by (cases x) (auto simp: expected_pending_def split: option.splits)
    qed
    have pend: "map_of (bm_pending m') p =
        expected_pending active ?n (map_option (\<lambda>p. (p + 1) mod ?n) phase) (?c + 1) p" for p
    proof (cases "p = br_port r")
      case False
      then show ?thesis using other [OF False]
        by (simp add: m'_def adv data(6,7) expected_pending_def update_conv')
    next
      case True
      then show ?thesis using deadline_own [OF r(1,2), of ?c] none fresh
        by (simp add: m'_def adv data(3,6,7) expected_pending_def update_conv')
    qed
    moreover have "distinct (map fst (bm_pending m'))"
      using keys(1) by (simp add: m'_def adv distinct_update)
    ultimately have "follows (s\<lparr>bs_credits := L, bs_active := active,
               bs_phase := map_option (\<lambda>p. (p + 1) mod ?n) phase\<rparr>) m'"
      by (intro fol)
    moreover have "bmon_step m (be_request e) (be_data e) False = Inr m'"
      using due free by (intro step [of None]) (auto simp: data(3,5))
    ultimately show ?thesis by blast
  qed
qed

definition bmon_watch ::
  "burst_monitor \<Rightarrow> burst_input \<times> burst_events \<Rightarrow> py_error + burst_monitor" where
  "bmon_watch m = (\<lambda>(i, e). bmon_step m (be_request e) (be_data e) (bi_reset i))"

interpretation burst_watch: watched burst_tick burst_ok bmon_watch follows
proof unfold_locales
  fix s m i s' e assume ok: "burst_ok s" and fo: "follows s m" and t: "burst_tick s i = Inr (s', e)"
  show "\<exists>m'. bmon_watch m (i, e) = Inr m' \<and> follows s' m'"
  proof (cases "bi_reset i")
    case True
    with t show ?thesis using fo
      by (auto simp: burst_tick_def burst_step_def bmon_watch_def bmon_step_def tdm_step_def follows_def)
  next
    case False
    with t obtain active phase L where
      v: "case bi_request i of None \<Rightarrow> True | Some r \<Rightarrow> burst_validate s r = Inr ()"
      and sel: "burst_select s (bi_conn i) (bi_request i) = Inr (e, active, phase)"
      and s': "s' = s\<lparr>bs_credits := L, bs_active := active,
                 bs_phase := map_option (\<lambda>p. (p + 1) mod bs_ports s) phase\<rparr>"
      by (auto simp: burst_tick_def burst_step_def split: option.splits)
    have "pred_option (legal_request (led_ports (bs_credits s))) (bi_request i)"
      using v by (simp add: burst_validate_legal split: option.splits)
    from bmon_step_follows [OF ok fo sel this, of L] show ?thesis
      using False by (simp add: bmon_watch_def s')
  qed
qed

lemma follows_init:
  "burst_init caps n k = Inr s \<Longrightarrow> bmon_init n = Inr m \<Longrightarrow> follows s m"
  by (auto simp: burst_init_def bmon_init_def tdm_init_def follows_def split: if_splits)


end
