(* ===== verification/Upli_Burst_Payload.thy ===== *)
theory Upli_Burst_Payload
  imports Upli_Burst
begin

section \<open>Staged payload ownership around the burst sender\<close>

text \<open>
  Models \<open>simulator/UAlink2.0/model/ualink/upli_burst_payload.py\<close>: the payload words of an accepted
  burst are held per port and leave with the data beats the sender schedules. The two
  \<open>RuntimeError\<close> checks of the code are branches of the model; the lemmas show that they are
  unreachable and that each port emits exactly the staged words, in order.
\<close>

record orig_payload =
  op_data :: int
  op_byte_enable :: int
  op_error :: bool

record staged_burst =
  st_request :: burst_request
  st_payload :: int
  st_data :: "orig_payload list"

record burst_payload =
  bp_width :: int
  bp_control :: burst_sender
  bp_pending :: "(int \<times> orig_payload list) list"

record payload_events =
  pe_control :: burst_events
  pe_request :: "int option"
  pe_data :: "orig_payload option"

definition payload_init ::
  "(account \<times> int) list \<Rightarrow> int \<Rightarrow> int \<Rightarrow> int \<Rightarrow> py_error + burst_payload" where
  "payload_init capacities num_ports request_width init_stable_cycles =
     (if request_width < 1 then Inl ValueError
      else rbind (burst_init capacities num_ports init_stable_cycles) (\<lambda>c.
        Inr \<lparr>bp_width = request_width, bp_control = c, bp_pending = []\<rparr>))"

definition payload_validate :: "burst_payload \<Rightarrow> staged_burst \<Rightarrow> py_error + unit" where
  "payload_validate b c =
     rbind (ensure (0 \<le> st_payload c \<and> st_payload c < 2 ^ nat (bp_width b))) (\<lambda>_.
     let count = (case br_beats (st_request c) of None \<Rightarrow> 0 | Some n \<Rightarrow> n + 1) in
     rbind (ensure (int (length (st_data c)) = count)) (\<lambda>_.
       ensure (list_all (\<lambda>w. fits 512 (op_data w) \<and> fits 64 (op_byte_enable w)) (st_data c))))"

text \<open>The words that leave and stay, given what the sender did.\<close>

definition payload_move ::
  "(int \<times> orig_payload list) list \<Rightarrow> staged_burst option \<Rightarrow> burst_events \<Rightarrow>
   py_error + (int \<times> orig_payload list) list \<times> orig_payload option" where
  "payload_move pending candidate control =
     (if be_request control \<noteq> None \<and> br_beats (st_request (the candidate)) \<noteq> None then
        let c = the candidate; port = br_port (st_request c) in
        if port \<in> fst ` set pending then Inl RuntimeError
        else (case be_data control of
                None \<Rightarrow> Inl RuntimeError
              | Some d \<Rightarrow>
                  if bd_offset d \<noteq> 0 then Inl RuntimeError
                  else (case st_data c of
                          [] \<Rightarrow> Inl IndexError
                        | w # ws \<Rightarrow>
                            Inr (if ws \<noteq> [] then AList.update port ws pending else pending, Some w)))
      else (case be_data control of
              None \<Rightarrow> Inr (pending, None)
            | Some d \<Rightarrow>
                (case dget pending (bd_port d) [] of
                   [] \<Rightarrow> Inl RuntimeError
                 | w # ws \<Rightarrow>
                     if bd_offset d = 0 \<or> bd_last d \<noteq> (ws = []) then Inl RuntimeError
                     else Inr (if ws = [] then AList.delete (bd_port d) pending
                               else AList.update (bd_port d) ws pending, Some w))))"

definition payload_step ::
  "burst_payload \<Rightarrow> conn_signals \<Rightarrow> staged_burst option \<Rightarrow> credit_return list \<Rightarrow> slot list \<Rightarrow> bool \<Rightarrow>
   py_error + burst_payload \<times> payload_events" where
  "payload_step b conn candidate returns init_done reset =
     (if reset then
        rbind (burst_step (bp_control b) no_signals None [] [] True) (\<lambda>(c, e).
          Inr (b\<lparr>bp_control := c, bp_pending := []\<rparr>,
               \<lparr>pe_control = e, pe_request = None, pe_data = None\<rparr>))
      else
        rbind (case candidate of None \<Rightarrow> Inr () | Some c \<Rightarrow> payload_validate b c) (\<lambda>_.
        rbind (burst_step (bp_control b) conn (map_option st_request candidate) returns init_done False)
          (\<lambda>(c, e).
        rbind (payload_move (bp_pending b) candidate e) (\<lambda>(pending, word).
          Inr (b\<lparr>bp_control := c, bp_pending := pending\<rparr>,
               \<lparr>pe_control = e,
                pe_request = (if be_request e \<noteq> None then Some (st_payload (the candidate)) else None),
                pe_data = word\<rparr>)))))"

record payload_input =
  pi_conn :: conn_signals
  pi_candidate :: "staged_burst option"
  pi_returns :: "credit_return list"
  pi_done :: "slot list"

definition payload_tick ::
  "burst_payload \<Rightarrow> payload_input \<Rightarrow> py_error + burst_payload \<times> payload_events" where
  "payload_tick b i = payload_step b (pi_conn i) (pi_candidate i) (pi_returns i) (pi_done i) False"

subsection \<open>The held words match the running bursts\<close>

definition tails_at :: "(burst_request \<times> int) option \<Rightarrow> orig_payload list option \<Rightarrow> bool" where
  "tails_at ao po \<longleftrightarrow>
     (case ao of
        None \<Rightarrow> po = None
      | Some (r, off) \<Rightarrow> \<exists>ws. po = Some ws \<and> br_beats r = Some (int (length ws) + off - 1))"

definition tails_match :: "actives \<Rightarrow> (int \<times> orig_payload list) list \<Rightarrow> bool" where
  "tails_match active pending \<longleftrightarrow> (\<forall>p. tails_at (map_of active p) (map_of pending p))"

definition payload_ok :: "burst_payload \<Rightarrow> bool" where
  "payload_ok b \<longleftrightarrow>
     burst_ok (bp_control b) \<and> tails_match (bs_active (bp_control b)) (bp_pending b)"

lemma tails_match_get:
  "tails_match active pending \<Longrightarrow> map_of active p = Some (r, off) \<Longrightarrow>
     \<exists>ws. map_of pending p = Some ws \<and> br_beats r = Some (int (length ws) + off - 1)"
  unfolding tails_match_def by (drule spec [of _ p]) (simp add: tails_at_def)

lemma tails_match_free:
  "tails_match active pending \<Longrightarrow> p \<notin> fst ` set active \<Longrightarrow> p \<notin> fst ` set pending"
  unfolding tails_match_def by (drule spec [of _ p]) (simp add: tails_at_def flip: map_of_eq_None_iff)

text \<open>A tail beat of the sender releases the head of the words held for its port.\<close>

lemma payload_tail:
  assumes ok: "burst_ok s" and tm: "tails_match (bs_active s) pending"
    and t: "burst_tail (bs_active s) c = (active, Some d)"
    and e: "be_data e = Some d" "be_request e = None \<or> br_beats (st_request (the candidate)) = None"
  shows "\<exists>w ws pending'. payload_move pending candidate e = Inr (pending', Some w) \<and>
    tails_match active pending' \<and> dget pending (bd_port d) [] = w # ws \<and>
    (\<forall>p. dget pending' p [] = (if p = bd_port d then ws else dget pending p []))"
proof -
  from t obtain q r off where x: "c = Some q" "map_of (bs_active s) q = Some (r, off)"
    and dd: "d = \<lparr>bd_port = q, bd_vc = br_vc r, bd_pool = br_data_pools r ! nat off,
        bd_offset = off, bd_last = (Some off = br_beats r)\<rparr>"
    and act: "active = (if Some off = br_beats r then AList.delete q (bs_active s)
      else AList.update q (r, off + 1) (bs_active s))"
    by (auto simp: burst_tail_def Let_def split: option.splits)
  from map_of_mem [OF x(2)] burst_okD(6) [OF ok] obtain k where k: "br_beats r = Some k" "1 \<le> off" "off \<le> k"
    by (auto simp: list_all_iff legal_active_def)
  from tails_match_get [OF tm x(2)] obtain us where us: "map_of pending q = Some us"
    "k = int (length us) + off - 1" using k(1) by auto
  with k obtain w ws where ws: "us = w # ws" by (cases us) auto
  have last: "off = k \<longleftrightarrow> ws = []" using us(2) by (auto simp: ws)
  define pending' where "pending' = (if ws = [] then AList.delete q pending else AList.update q ws pending)"
  have "payload_move pending candidate e = Inr (pending', Some w)"
    using e us(1) k last by (auto simp: payload_move_def dget_def ws dd pending'_def)
  moreover have "tails_match active pending'"
    unfolding tails_match_def
  proof
    fix p
    show "tails_at (map_of active p) (map_of pending' p)"
    proof (cases "p = q")
      case True
      then show ?thesis using last k us(2)
        by (auto simp: tails_at_def act pending'_def update_conv' delete_conv' ws)
    next
      case False
      then have "map_of active p = map_of (bs_active s) p" "map_of pending' p = map_of pending p"
        by (simp_all add: act pending'_def update_conv' delete_conv')
      then show ?thesis using tm unfolding tails_match_def by simp
    qed
  qed
  moreover have "\<forall>p. dget pending' p [] = (if p = q then ws else dget pending p [])"
    by (simp add: pending'_def dget_def update_conv' delete_conv')
  moreover have "dget pending q [] = w # ws" using us(1) by (simp add: dget_def ws)
  ultimately show ?thesis by (auto simp: dd)
qed

text \<open>An admitted data request brings its own words and finds none held.\<close>

lemma payload_start:
  assumes tm: "tails_match active pending" and free: "br_port r \<notin> fst ` set active"
    and c: "candidate = Some c" "st_request c = r" "br_beats r = Some k" "0 \<le> k"
      "int (length (st_data c)) = k + 1"
    and e: "be_request e = Some r" "be_data e = Some d" "bd_offset d = 0"
  shows "\<exists>w ws pending'. payload_move pending candidate e = Inr (pending', Some w) \<and>
    tails_match (if k \<noteq> 0 then AList.update (br_port r) (r, 1) active else active) pending' \<and>
    st_data c = w # ws \<and> (\<forall>p. dget pending' p [] = (if p = br_port r then ws else dget pending p []))"
proof -
  have np: "br_port r \<notin> fst ` set pending" by (rule tails_match_free [OF tm free])
  have none: "map_of pending (br_port r) = None" "map_of active (br_port r) = None"
    using np free by (simp_all add: map_of_eq_None_iff)
  obtain w ws where ws: "st_data c = w # ws" using c(4,5) by (cases "st_data c") auto
  have k0: "k = int (length ws)" using c(5) by (simp add: ws)
  define pending' where "pending' = (if ws \<noteq> [] then AList.update (br_port r) ws pending else pending)"
  have "payload_move pending candidate e = Inr (pending', Some w)"
    using c(1,2,3) e np by (simp add: payload_move_def ws pending'_def Let_def)
  moreover have "tails_match (if k \<noteq> 0 then AList.update (br_port r) (r, 1) active else active) pending'"
    (is "tails_match ?active _")
    unfolding tails_match_def
  proof
    fix p
    show "tails_at (map_of ?active p) (map_of pending' p)"
    proof (cases "p = br_port r")
      case True
      then show ?thesis using none k0 c(3) by (auto simp: tails_at_def pending'_def update_conv')
    next
      case False
      then have "map_of ?active p = map_of active p" "map_of pending' p = map_of pending p"
        by (simp_all add: pending'_def update_conv')
      then show ?thesis using tm unfolding tails_match_def by simp
    qed
  qed
  moreover have "\<forall>p. dget pending' p [] = (if p = br_port r then ws else dget pending p [])"
    using none by (simp add: pending'_def dget_def update_conv')
  ultimately show ?thesis using ws by blast
qed

subsection \<open>One edge\<close>

definition accepted_words :: "int \<Rightarrow> staged_burst option \<Rightarrow> burst_events \<Rightarrow> orig_payload list" where
  "accepted_words p candidate e =
     (case candidate of
        None \<Rightarrow> []
      | Some c \<Rightarrow> if be_request e \<noteq> None \<and> br_port (st_request c) = p then st_data c else [])"

definition emitted_words :: "int \<Rightarrow> payload_events \<Rightarrow> orig_payload list" where
  "emitted_words p out =
     (case be_data (pe_control out) of
        None \<Rightarrow> []
      | Some d \<Rightarrow> if bd_port d = p then [the (pe_data out)] else [])"

lemma payload_move_ok:
  assumes ok: "burst_ok s" and tm: "tails_match (bs_active s) pending"
    and sel: "burst_select s conn (map_option st_request candidate) = Inr (e, active, phase)"
    and legal: "pred_option (legal_request (led_ports (bs_credits s))) (map_option st_request candidate)"
    and staged: "\<And>c. candidate = Some c \<Longrightarrow> int (length (st_data c)) =
      (case br_beats (st_request c) of None \<Rightarrow> 0 | Some n \<Rightarrow> n + 1)"
  shows "\<exists>pending' word. payload_move pending candidate e = Inr (pending', word) \<and>
    tails_match active pending' \<and>
    (\<forall>p. dget pending p [] @ accepted_words p candidate e =
       (case be_data e of None \<Rightarrow> [] | Some d \<Rightarrow> if bd_port d = p then [the word] else []) @
       dget pending' p [])"
  using sel legal
proof (cases rule: burst_select_cases)
  case (declined data)
  show ?thesis
  proof (cases data)
    case None
    then have "active = bs_active s"
      using declined(1) by (auto simp: burst_tail_def Let_def split: option.splits)
    then show ?thesis using tm None
      by (auto simp: declined(2) payload_move_def accepted_words_def split: option.splits)
  next
    case (Some d)
    from payload_tail [OF ok tm declined(1) [unfolded Some], of e candidate] show ?thesis
      by (auto simp: declined(2) Some accepted_words_def split: option.splits)
  qed
next
  case (read r data)
  then obtain c where c: "candidate = Some c" "st_request c = r" by (cases candidate) auto
  have nil: "st_data c = []" using staged [OF c(1)] c read(4) by simp
  show ?thesis
  proof (cases data)
    case None
    then have "active = bs_active s"
      using read(3) by (auto simp: burst_tail_def Let_def split: option.splits)
    then show ?thesis using tm None c read(4)
      by (auto simp: accepted_words_def nil read(5) payload_move_def)
  next
    case (Some d)
    from payload_tail [OF ok tm read(3) [unfolded Some], of e candidate] c read(4) show ?thesis
      by (auto simp: accepted_words_def nil read(5) Some)
  qed
next
  case (data r k)
  then obtain c where c: "candidate = Some c" "st_request c = r" by (cases candidate) auto
  have k: "0 \<le> k" "int (length (st_data c)) = k + 1"
    using legal staged [OF c(1)] c data(3) by (simp_all add: legal_request_def)
  have free: "br_port r \<notin> fst ` set (bs_active s)"
    using data(2,3) by (simp add: admissible_def)
  then have held: "dget pending (br_port r) [] = []"
    using tails_match_free [OF tm] by (metis dget_memD)
  from payload_start [OF tm free c data(3) k, of e] obtain w ws pending' where
    "payload_move pending candidate e = Inr (pending', Some w)" "tails_match active pending'"
    "st_data c = w # ws" "\<forall>p. dget pending' p [] = (if p = br_port r then ws else dget pending p [])"
    by (auto simp: data(5,6))
  with held show ?thesis
    by (auto simp: data(5) accepted_words_def c)
qed

lemma payload_step_edge:
  assumes ok: "payload_ok b" and st: "payload_step b conn candidate rs ds False = Inr (b', out)"
  shows "payload_ok b'"
    and "dget (bp_pending b) p [] @ accepted_words p candidate (pe_control out) =
      emitted_words p out @ dget (bp_pending b') p []"
proof -
  from st obtain c e pending word where
    v: "case candidate of None \<Rightarrow> True | Some c \<Rightarrow> payload_validate b c = Inr ()"
    and bst: "burst_step (bp_control b) conn (map_option st_request candidate) rs ds False = Inr (c, e)"
    and mv: "payload_move (bp_pending b) candidate e = Inr (pending, word)"
    and b': "b' = b\<lparr>bp_control := c, bp_pending := pending\<rparr>" and out: "pe_control out = e" "pe_data out = word"
    by (auto simp: payload_step_def split: option.splits)
  from bst obtain active phase L where
    legal: "pred_option (legal_request (led_ports (bs_credits (bp_control b)))) (map_option st_request candidate)"
    and sel: "burst_select (bp_control b) conn (map_option st_request candidate) = Inr (e, active, phase)"
    and c: "bs_active c = active"
    by (auto simp: burst_step_def burst_validate_legal split: option.splits)
  have bok: "burst_ok (bp_control b)" and tm: "tails_match (bs_active (bp_control b)) (bp_pending b)"
    using ok by (simp_all add: payload_ok_def)
  have staged: "int (length (st_data c)) = (case br_beats (st_request c) of None \<Rightarrow> 0 | Some n \<Rightarrow> n + 1)"
    if "candidate = Some c" for c
    using v that by (auto simp: payload_validate_def Let_def)
  from payload_move_ok [OF bok tm sel legal staged] mv
  have "tails_match active pending"
    "\<forall>p. dget (bp_pending b) p [] @ accepted_words p candidate e =
       (case be_data e of None \<Rightarrow> [] | Some d \<Rightarrow> if bd_port d = p then [the word] else []) @ dget pending p []"
    by auto
  moreover have "emitted_words p out =
      (case be_data e of None \<Rightarrow> [] | Some d \<Rightarrow> if bd_port d = p then [the word] else [])"
    by (simp only: emitted_words_def out)
  ultimately show "payload_ok b'" "dget (bp_pending b) p [] @ accepted_words p candidate (pe_control out) =
      emitted_words p out @ dget (bp_pending b') p []"
    using burst_step_ok [OF bok bst] by (simp_all add: payload_ok_def b' c out)
qed

lemma payload_no_runtime_error:
  assumes ok: "payload_ok b"
  shows "payload_step b conn candidate rs ds False \<noteq> Inl RuntimeError"
proof -
  have bok: "burst_ok (bp_control b)" and tm: "tails_match (bs_active (bp_control b)) (bp_pending b)"
    using ok by (simp_all add: payload_ok_def)
  let ?v = "case candidate of None \<Rightarrow> Inr () | Some c \<Rightarrow> payload_validate b c"
  let ?s = "burst_step (bp_control b) conn (map_option st_request candidate) rs ds False"
  have "raises_only {ValueError, KeyError} ?v"
    unfolding payload_validate_def by (intro raises_intros) simp_all
  moreover have "raises_only {ValueError, KeyError} ?s" by (intro raises_intros) simp_all
  moreover have "payload_move (bp_pending b) candidate e \<noteq> Inl x"
    if v: "?v = Inr ()" and st: "?s = Inr (c, e)" for c e x
  proof -
    from st obtain active phase where
      legal: "pred_option (legal_request (led_ports (bs_credits (bp_control b)))) (map_option st_request candidate)"
      and sel: "burst_select (bp_control b) conn (map_option st_request candidate) = Inr (e, active, phase)"
      by (auto simp: burst_step_def burst_validate_legal split: option.splits)
    have "int (length (st_data c)) = (case br_beats (st_request c) of None \<Rightarrow> 0 | Some n \<Rightarrow> n + 1)"
      if "candidate = Some c" for c
      using v that by (auto simp: payload_validate_def Let_def)
    from payload_move_ok [OF bok tm sel legal this] show ?thesis by auto
  qed
  ultimately show ?thesis
    by (auto simp: payload_step_def rbind_eq_Inl raises_only_def split: prod.splits)
qed

interpretation burst_payload: flow payload_tick payload_ok "\<lambda>b. dget (bp_pending b) p []"
  "\<lambda>i out. accepted_words p (pi_candidate i) (pe_control out)" "emitted_words p" for p
  by unfold_locales (auto simp: payload_tick_def intro: payload_step_edge)

lemma payload_init_ok: "payload_init caps n w k = Inr b \<Longrightarrow> payload_ok b \<and> bp_pending b = []"
  by (auto simp: payload_init_def payload_ok_def tails_match_def tails_at_def burst_init_ok burst_init_def split: if_splits)

end
