(* ===== verification/Upli_Init.thy ===== *)
theory Upli_Init
  imports Upli_Credit
begin

section \<open>Initial credit publication\<close>

text \<open>
  Models \<open>simulator/UAlink2.0/model/ualink/upli_credit_initialization.py\<close>: the immutable
  publication schedule of every port (an entry is one cycle: \<open>Some\<close> batch of up to four credits or
  \<open>None\<close>, the idle scan of a zero-capacity account) and the registered publisher that walks all
  schedules in parallel. The lemmas show that a schedule grants exactly the configured capacities
  and that a port reports done only on cycles after its last batch.
\<close>

record publisher =
  pub_channel :: channel
  pub_schedules :: "credit_return option list list"
  pub_positions :: "nat list"
  pub_connected_once :: bool
  pub_returns :: "credit_return list"
  pub_done :: int

definition account_batches :: "int \<Rightarrow> channel \<Rightarrow> int \<Rightarrow> int \<Rightarrow> credit_return option list" where
  "account_batches port ch account capacity =
     (if capacity = 0 then [None] else []) @
     map (\<lambda>i. let start = 4 * i in
            Some \<lparr>cr_port = port, cr_channel = ch,
                  cr_vc = (if account = 4 then 0 else account), cr_pool = (account = 4),
                  cr_count = min 4 (capacity - start) - 1, cr_valid = True\<rparr>)
       [0..(capacity - 1) div 4]"

definition port_schedule :: "int \<Rightarrow> channel \<Rightarrow> int list \<Rightarrow> credit_return option list" where
  "port_schedule port ch capacities =
     concat (map (\<lambda>(account, capacity). account_batches port ch account capacity)
       (zip [0..4] (take 5 (drop (nat port * 5) capacities))))"

definition publisher_init ::
  "int list \<Rightarrow> int \<Rightarrow> int \<Rightarrow> channel \<Rightarrow> py_error + publisher" where
  "publisher_init capacities num_ports width ch =
     (if num_ports \<notin> {1, 2, 4} \<or> \<not> (3 \<le> width \<and> width \<le> 16) then Inl ValueError
      else if ch \<notin> set channels then Inl ValueError
      else if int (length capacities) \<noteq> num_ports * 5 then Inl ValueError
      else if \<not> list_all (\<lambda>c. 0 \<le> c \<and> c < 2 ^ nat width) capacities then Inl ValueError
      else Inr \<lparr>pub_channel = ch,
                pub_schedules = map (\<lambda>port. port_schedule port ch capacities) [0..num_ports - 1],
                pub_positions = replicate (nat num_ports) 0, pub_connected_once = False,
                pub_returns = [], pub_done = 0\<rparr>)"

text \<open>The loop over \<open>enumerate(zip(positions, schedules))\<close>.\<close>

fun publish_ports ::
  "nat \<Rightarrow> (nat \<times> credit_return option list) list \<Rightarrow> credit_return list \<times> nat list \<times> int" where
  "publish_ports port [] = ([], [], 0)"
| "publish_ports port ((position, sequence) # rest) =
     (let (returns, positions, dones) = publish_ports (Suc port) rest in
      if position = length sequence then (returns, position # positions, dones OR push_bit port 1)
      else ((case sequence ! position of None \<Rightarrow> [] | Some event \<Rightarrow> [event]) @ returns,
            Suc position # positions, dones))"

definition publisher_step ::
  "publisher \<Rightarrow> conn_signals \<Rightarrow> bool \<Rightarrow> py_error + publisher \<times> credit_return list \<times> int" where
  "publisher_step p conn reset =
     (if reset then
        Inr (p\<lparr>pub_positions := replicate (length (pub_schedules p)) 0,
               pub_connected_once := False, pub_returns := [], pub_done := 0\<rparr>, [], 0)
      else
        let allowed = credit_connected conn (pub_channel p) in
        if pub_connected_once p \<and> \<not> allowed then Inl ValueError
        else if \<not> allowed then Inr (p, pub_returns p, pub_done p)
        else
          let (returns, positions, dones) =
                publish_ports 0 (zip (pub_positions p) (pub_schedules p))
          in Inr (p\<lparr>pub_positions := positions, pub_connected_once := True,
                    pub_returns := returns, pub_done := dones\<rparr>, returns, dones))"

subsection \<open>A schedule grants the configured capacity\<close>

definition batch_credits :: "credit_return option list \<Rightarrow> int" where
  "batch_credits s = (\<Sum>e\<leftarrow>s. case e of None \<Rightarrow> 0 | Some g \<Rightarrow> cr_count g + 1)"

lemma batch_credits_append [simp]: "batch_credits (xs @ ys) = batch_credits xs + batch_credits ys"
  by (simp add: batch_credits_def)

lemma sum_batches:
  assumes "0 \<le> c"
  shows "(\<Sum>i\<leftarrow>[0..(c - 1) div 4]. min 4 (c - 4 * i)) = c"
proof -
  have full: "(\<Sum>i\<leftarrow>[0..int k - 1]. min 4 (c - 4 * i)) = 4 * int k" if "4 * int k \<le> c" for k
    using that
  proof (induction k)
    case 0
    then show ?case by simp
  next
    case (Suc k)
    have "[0..int (Suc k) - 1] = [0..int k - 1] @ [int k]"
      by (simp add: upto_rec2)
    with Suc show ?case by simp
  qed
  define k where "k = nat (c div 4)"
  have k: "int k = c div 4" using assms by (simp add: k_def)
  show ?thesis
  proof (cases "c mod 4 = 0")
    case True
    then have "(c - 1) div 4 = int k - 1" using k by presburger
    with full [of k] True k show ?thesis by auto
  next
    case False
    then have "(c - 1) div 4 = int k" using k by presburger
    moreover have "[0..int k] = [0..int k - 1] @ [int k]"
      by (simp add: upto_rec2)
    ultimately show ?thesis using full [of k] k False by (simp add: min_def) linarith
  qed
qed

lemma account_batches_credits:
  "0 \<le> c \<Longrightarrow> batch_credits (account_batches port ch a c) = c"
  using sum_batches [of c] by (auto simp: account_batches_def batch_credits_def comp_def Let_def)

lemma account_batches_legal:
  assumes "Some g \<in> set (account_batches port ch a c)" and "0 \<le> c"
  shows "0 \<le> cr_count g \<and> cr_count g \<le> 3 \<and> cr_valid g \<and> cr_port g = port \<and> cr_channel g = ch \<and>
    cr_pool g = (a = 4) \<and> cr_vc g = (if a = 4 then 0 else a)"
  using assms by (auto simp: account_batches_def Let_def split: if_splits)

definition schedule_for :: "int \<Rightarrow> credit_return option list \<Rightarrow> credit_return option list" where
  "schedule_for a s = filter (\<lambda>e. case e of None \<Rightarrow> False
     | Some g \<Rightarrow> (if cr_pool g then 4 else cr_vc g) = a) s"

lemma schedule_for_account:
  assumes "0 \<le> c" and "0 \<le> b" and "b \<le> 4"
  shows "batch_credits (schedule_for a (account_batches port ch b c)) = (if a = b then c else 0)"
proof (cases "a = b")
  case True
  have "batch_credits (schedule_for a xs) = batch_credits xs"
    if "\<forall>e\<in>set xs. \<forall>g. e = Some g \<longrightarrow> (if cr_pool g then 4 else cr_vc g) = b" for xs
    using that True by (induction xs) (auto simp: schedule_for_def batch_credits_def split: option.splits)
  moreover have "\<forall>e\<in>set (account_batches port ch b c). \<forall>g. e = Some g \<longrightarrow>
      (if cr_pool g then 4 else cr_vc g) = b"
    using account_batches_legal [of _ port ch b c] assms by auto
  ultimately show ?thesis using True assms by (simp add: account_batches_credits)
next
  case False
  have "\<forall>e\<in>set (account_batches port ch b c). \<forall>g. e = Some g \<longrightarrow>
      (if cr_pool g then 4 else cr_vc g) = b"
    using account_batches_legal [of _ port ch b c] assms by auto
  then have "schedule_for a (account_batches port ch b c) = []"
    using False unfolding schedule_for_def filter_empty_conv
    by (fastforce split: option.splits)
  then show ?thesis using False by (simp add: batch_credits_def)
qed

lemma five_accounts: "zip [0..4] [c0, c1, c2, c3, c4] = [(0, c0), (1, c1), (2, c2), (3, c3), (4::int, c4)]"
  by (simp add: upto_rec1)

lemma length_five:
  "length xs = 5 \<Longrightarrow> xs = [xs ! 0, xs ! 1, xs ! 2, xs ! 3, xs ! 4]"
  by (rule nth_equalityI) (auto simp: less_Suc_eq numeral_eq_Suc)

lemma port_schedule_credits:
  assumes "nat port * 5 + 5 \<le> length caps" and "list_all (\<lambda>c. 0 \<le> c) caps"
    and "0 \<le> a" and "a \<le> 4"
  shows "batch_credits (schedule_for a (port_schedule port ch caps)) = caps ! (nat port * 5 + nat a)"
proof -
  define xs where "xs = take 5 (drop (nat port * 5) caps)"
  have len: "length xs = 5" using assms(1) by (simp add: xs_def)
  have pos: "0 \<le> xs ! i" if "i < 5" for i
    using that assms(1,2) by (simp add: xs_def list_all_length)
  have a: "a \<in> {0, 1, 2, 3, 4}" using assms(3,4) by auto
  have app: "schedule_for a (ys @ zs) = schedule_for a ys @ schedule_for a zs" for ys zs
    by (simp add: schedule_for_def)
  have nil: "batch_credits (schedule_for a []) = 0"
    by (simp add: schedule_for_def batch_credits_def)
  have "port_schedule port ch caps =
    concat (map (\<lambda>(b, c). account_batches port ch b c)
      [(0, xs ! 0), (1, xs ! 1), (2, xs ! 2), (3, xs ! 3), (4, xs ! 4)])"
    unfolding port_schedule_def xs_def [symmetric]
    by (subst length_five [OF len]) (simp only: five_accounts)
  then have "batch_credits (schedule_for a (port_schedule port ch caps)) = xs ! nat a"
    using a pos by (auto simp: app nil schedule_for_account)
  then show ?thesis using assms(1,3,4) by (simp add: xs_def nat_less_iff add.commute)
qed

subsection \<open>One edge of the publisher\<close>

lemma publish_ports_length:
  "publish_ports k ps = (rs, qs, d) \<Longrightarrow> length qs = length ps"
  by (induction k ps arbitrary: rs qs d rule: publish_ports.induct)
    (auto simp: Let_def split: prod.splits if_splits)

lemma publish_ports_done:
  "publish_ports k ps = (rs, qs, d) \<Longrightarrow>
     bit d i \<longleftrightarrow> k \<le> i \<and> i < k + length ps \<and> fst (ps ! (i - k)) = length (snd (ps ! (i - k)))"
proof (induction k ps arbitrary: rs qs d i rule: publish_ports.induct)
  case (1 k)
  then show ?case by simp
next
  case (2 k pos sq rest)
  obtain rs1 qs1 d1 where e: "publish_ports (Suc k) rest = (rs1, qs1, d1)" by (metis prod_cases3)
  note IH = "2.IH" [OF e]
  have now: "bit d i \<longleftrightarrow> bit d1 i \<or> (pos = length sq \<and> i = k)"
    using "2.prems" e by (auto simp: Let_def bit_simps split: if_splits)
  consider "i < k" | "i = k" | "k < i" by linarith
  then show ?case
  proof cases
    case 3
    then have "i - k = Suc (i - Suc k)" by simp
    with 3 show ?thesis by (simp add: now IH Suc_le_eq)
  next
    case 2
    then have "\<not> bit d1 i" by (simp add: IH)
    with now 2 show ?thesis by auto
  qed (simp add: now IH)
qed

lemma publish_ports_positions:
  "publish_ports k ps = (rs, qs, d) \<Longrightarrow> j < length ps \<Longrightarrow>
     qs ! j = (if fst (ps ! j) = length (snd (ps ! j)) then fst (ps ! j) else Suc (fst (ps ! j)))"
  by (induction k ps arbitrary: rs qs d j rule: publish_ports.induct)
    (auto simp: Let_def nth_Cons' split: prod.splits if_splits)

text \<open>
  In the walk over the ports, the return of a port comes from its own schedule and a port that is
  at the end of its schedule publishes nothing.
\<close>

definition own_schedules :: "nat \<Rightarrow> (nat \<times> credit_return option list) list \<Rightarrow> bool" where
  "own_schedules k ps \<longleftrightarrow>
     (\<forall>j < length ps. \<forall>g. Some g \<in> set (snd (ps ! j)) \<longrightarrow> cr_port g = int (k + j)) \<and>
     list_all (\<lambda>(pos, sq). pos \<le> length sq) ps"

lemma own_schedules_tail:
  assumes "own_schedules k ((pos, sq) # rest)"
  shows "own_schedules (Suc k) rest"
  unfolding own_schedules_def
proof (intro conjI allI impI)
  fix j g assume "j < length rest" "Some g \<in> set (snd (rest ! j))"
  with assms show "cr_port g = int (Suc k + j)"
    unfolding own_schedules_def by (auto dest!: spec [of _ "Suc j"])
qed (use assms in \<open>simp add: own_schedules_def\<close>)

lemma publish_ports_returns:
  "publish_ports k ps = (rs, qs, d) \<Longrightarrow> own_schedules k ps \<Longrightarrow>
     (\<forall>g \<in> set rs. \<exists>j < length ps. cr_port g = int (k + j) \<and>
        fst (ps ! j) < length (snd (ps ! j)) \<and> Some g = snd (ps ! j) ! fst (ps ! j))"
proof (induction k ps arbitrary: rs qs d rule: publish_ports.induct)
  case (1 k)
  then show ?case by simp
next
  case (2 k pos sq rest)
  obtain rs1 qs1 d1 where e: "publish_ports (Suc k) rest = (rs1, qs1, d1)" by (metis prod_cases3)
  have own: "own_schedules (Suc k) rest" using "2.prems"(2) by (rule own_schedules_tail)
  note IH = "2.IH" [OF e own]
  have le: "pos \<le> length sq" using "2.prems"(2) by (simp add: own_schedules_def)
  show ?case
  proof
    fix g assume g: "g \<in> set rs"
    show "\<exists>j < length ((pos, sq) # rest). cr_port g = int (k + j) \<and>
        fst (((pos, sq) # rest) ! j) < length (snd (((pos, sq) # rest) ! j)) \<and>
        Some g = snd (((pos, sq) # rest) ! j) ! fst (((pos, sq) # rest) ! j)"
    proof (cases "g \<in> set rs1")
      case True
      with IH obtain j where "j < length rest" "cr_port g = int (Suc k + j)"
        "fst (rest ! j) < length (snd (rest ! j))" "Some g = snd (rest ! j) ! fst (rest ! j)"
        by blast
      then show ?thesis by (intro exI [of _ "Suc j"]) simp
    next
      case False
      with g "2.prems"(1) e have now: "pos \<noteq> length sq" "sq ! pos = Some g"
        by (auto simp: Let_def split: if_splits option.splits)
      with le have "pos < length sq" by simp
      then have "Some g \<in> set sq" using now(2) by (metis nth_mem)
      with "2.prems"(2) have "cr_port g = int k"
        unfolding own_schedules_def by fastforce
      with now \<open>pos < length sq\<close> show ?thesis by (intro exI [of _ 0]) simp
    qed
  qed
qed

lemma publish_ports_distinct:
  "publish_ports k ps = (rs, qs, d) \<Longrightarrow> own_schedules k ps \<Longrightarrow> distinct (map cr_port rs)"
proof (induction k ps arbitrary: rs qs d rule: publish_ports.induct)
  case (1 k)
  then show ?case by simp
next
  case (2 k pos sq rest)
  obtain rs1 qs1 d1 where e: "publish_ports (Suc k) rest = (rs1, qs1, d1)" by (metis prod_cases3)
  have own: "own_schedules (Suc k) rest" using "2.prems"(2) by (rule own_schedules_tail)
  have tail: "\<forall>g \<in> set rs1. int k < cr_port g"
    using publish_ports_returns [OF e own] by fastforce
  have d1: "distinct (map cr_port rs1)" by (rule "2.IH" [OF e own])
  show ?case
  proof (cases "pos = length sq")
    case True
    with "2.prems"(1) e d1 show ?thesis by (auto simp: Let_def)
  next
    case False
    with "2.prems"(2) have "pos < length sq" by (simp add: own_schedules_def)
    then have "cr_port g = int k" if "sq ! pos = Some g" for g
      using "2.prems"(2) that unfolding own_schedules_def by (metis (no_types, lifting) add_0_right
          length_Cons nth_Cons_0 nth_mem snd_conv zero_less_Suc)
    moreover have "int k \<notin> cr_port ` set rs1" using tail by force
    ultimately show ?thesis
      using False "2.prems"(1) e d1 by (auto simp: Let_def split: option.splits)
  qed
qed

lemma publish_ports_done_range:
  "publish_ports k ps = (rs, qs, d) \<Longrightarrow> 0 \<le> d \<and> d < 2 ^ (k + length ps)"
proof (induction k ps arbitrary: rs qs d rule: publish_ports.induct)
  case (1 k)
  then show ?case by simp
next
  case (2 k pos sq rest)
  obtain rs1 qs1 d1 where e: "publish_ports (Suc k) rest = (rs1, qs1, d1)" by (metis prod_cases3)
  from "2.IH" [OF e] have d1: "fits (k + length ((pos, sq) # rest)) d1" by (simp add: fits_def)
  have "fits (k + length ((pos, sq) # rest)) (push_bit k 1)"
    by (rule fits_push [of 1]) (simp_all add: fits_def)
  with d1 have "fits (k + length ((pos, sq) # rest)) (d1 OR push_bit k 1)" by (rule fits_or)
  with d1 "2.prems" e show ?case by (auto simp: fits_def Let_def split: if_splits)
qed

subsection \<open>The publisher invariant\<close>

definition publisher_ok :: "nat \<Rightarrow> publisher \<Rightarrow> bool" where
  "publisher_ok n p \<longleftrightarrow>
     length (pub_schedules p) = n \<and> length (pub_positions p) = n \<and>
     own_schedules 0 (zip (pub_positions p) (pub_schedules p)) \<and>
     0 \<le> pub_done p \<and> pub_done p < 2 ^ n \<and>
     (\<forall>i. bit (pub_done p) i \<longrightarrow> i < n \<and> pub_positions p ! i = length (pub_schedules p ! i)) \<and>
     (\<forall>g \<in> set (pub_returns p). 0 \<le> cr_port g \<and> \<not> bit (pub_done p) (nat (cr_port g)))"

lemma port_schedule_own:
  "Some g \<in> set (port_schedule port ch caps) \<Longrightarrow> list_all (\<lambda>c. 0 \<le> c) caps \<Longrightarrow> cr_port g = port"
  by (auto simp: port_schedule_def list_all_iff dest!: set_zip_rightD in_set_takeD in_set_dropD
      dest: account_batches_legal)

lemma publisher_init_ok:
  assumes "publisher_init caps n w ch = Inr p"
  shows "publisher_ok (nat n) p"
proof -
  have nonneg: "list_all (\<lambda>c. 0 \<le> c) caps" and n: "n \<in> {1, 2, 4}"
    using assms by (auto simp: publisher_init_def list_all_iff split: if_splits)
  have p: "p = \<lparr>pub_channel = ch, pub_schedules = map (\<lambda>port. port_schedule port ch caps) [0..n - 1],
      pub_positions = replicate (nat n) 0, pub_connected_once = False, pub_returns = [],
      pub_done = 0\<rparr>"
    using assms by (auto simp: publisher_init_def split: if_splits)
  have "cr_port g = int j" if "j < nat n" "Some g \<in> set (port_schedule ([0..n - 1] ! j) ch caps)" for j g
    using port_schedule_own [OF that(2) nonneg] that(1) by simp
  then have "own_schedules 0 (zip (pub_positions p) (pub_schedules p))"
    by (auto simp: own_schedules_def p list_all_length)
  then show ?thesis by (simp add: publisher_ok_def p)
qed

lemma publisher_reset_ok:
  assumes "publisher_ok n p" and "publisher_step p conn True = Inr (p', out)"
  shows "publisher_ok n p' \<and> pub_channel p' = pub_channel p \<and> pub_done p' = 0 \<and> pub_returns p' = [] \<and>
    \<not> pub_connected_once p'"
proof -
  have "own_schedules 0 (zip (replicate n 0) (pub_schedules p))"
    using assms(1) by (auto simp: publisher_ok_def own_schedules_def list_all_length)
  then show ?thesis using assms by (auto simp: publisher_ok_def publisher_step_def)
qed

lemma publisher_step_total:
  assumes "pub_connected_once p \<Longrightarrow> credit_connected conn (pub_channel p)"
  shows "\<exists>p' out d. publisher_step p conn False = Inr (p', out, d)"
proof -
  obtain rs qs d where "publish_ports 0 (zip (pub_positions p) (pub_schedules p)) = (rs, qs, d)"
    by (metis prod_cases3)
  then show ?thesis using assms by (simp add: publisher_step_def Let_def)
qed

lemma publisher_step_ok:
  assumes ok: "publisher_ok n p" and st: "publisher_step p conn False = Inr (p', out)"
  shows "publisher_ok n p'" and "pub_channel p' = pub_channel p"
    and "\<And>i. bit (pub_done p) i \<Longrightarrow> bit (pub_done p') i"
    and "pub_connected_once p' \<longleftrightarrow> pub_connected_once p \<or> credit_connected conn (pub_channel p)"
proof -
  have "publisher_ok n p' \<and> pub_channel p' = pub_channel p \<and>
      (\<forall>i. bit (pub_done p) i \<longrightarrow> bit (pub_done p') i) \<and>
      (pub_connected_once p' \<longleftrightarrow> pub_connected_once p \<or> credit_connected conn (pub_channel p))"
  proof (cases "credit_connected conn (pub_channel p)")
    case False
    then show ?thesis using ok st by (auto simp: publisher_step_def split: if_splits)
  next
    case True
    let ?ps = "zip (pub_positions p) (pub_schedules p)"
    obtain rs qs d where e: "publish_ports 0 ?ps = (rs, qs, d)" by (metis prod_cases3)
    have p': "p' = p\<lparr>pub_positions := qs, pub_connected_once := True, pub_returns := rs, pub_done := d\<rparr>"
      using st True e by (auto simp: publisher_step_def Let_def)
    have len: "length (pub_schedules p) = n" "length (pub_positions p) = n" "length ?ps = n"
      and own: "own_schedules 0 ?ps"
      using ok by (simp_all add: publisher_ok_def)
    have lq: "length qs = n" using publish_ports_length [OF e] len by simp
    have dr: "0 \<le> d" "d < 2 ^ n" using publish_ports_done_range [OF e] len by simp_all
    have db: "bit d i \<longleftrightarrow> i < n \<and> pub_positions p ! i = length (pub_schedules p ! i)" for i
      using publish_ports_done [OF e, of i] len by auto
    have q: "qs ! j = (if pub_positions p ! j = length (pub_schedules p ! j)
        then pub_positions p ! j else Suc (pub_positions p ! j))" if "j < n" for j
      using publish_ports_positions [OF e, of j] that len by simp
    have bound: "pub_positions p ! j \<le> length (pub_schedules p ! j)" if "j < n" for j
      using own that len by (auto simp: own_schedules_def list_all_length)
    have bq: "qs ! j \<le> length (pub_schedules p ! j)" if "j < n" for j
      using q [OF that] bound [OF that] by auto
    have "own_schedules 0 (zip qs (pub_schedules p))"
      using own bq lq len by (auto simp: own_schedules_def list_all_length)
    moreover have "\<forall>g \<in> set rs. 0 \<le> cr_port g \<and> \<not> bit d (nat (cr_port g))"
      using publish_ports_returns [OF e own] db len by fastforce
    moreover have "\<forall>i. bit d i \<longrightarrow> i < n \<and> qs ! i = length (pub_schedules p ! i)"
      using db q by auto
    moreover have "\<forall>i. bit (pub_done p) i \<longrightarrow> bit d i"
      using ok db by (auto simp: publisher_ok_def)
    ultimately show ?thesis using lq len dr True by (simp add: publisher_ok_def p')
  qed
  then show "publisher_ok n p'" and "pub_channel p' = pub_channel p"
    and "\<And>i. bit (pub_done p) i \<Longrightarrow> bit (pub_done p') i"
    and "pub_connected_once p' \<longleftrightarrow> pub_connected_once p \<or> credit_connected conn (pub_channel p)"
    by blast+
qed

end
