(* ===== verification/Upli_Return.thy ===== *)
theory Upli_Return
  imports Upli_Credit
begin

section \<open>Normal credit return queue\<close>

text \<open>
  Models \<open>simulator/UAlink2.0/model/ualink/upli_credit_return.py\<close>: per port, the metadata of
  retired beats waits in a FIFO until its port is enabled; adjacent equal records are combined into
  one return of up to four credits. \<open>equal_run\<close> is the inner \<open>while\<close> loop, \<open>grant_ports\<close> the
  loop over the ports. The lemmas show that, per port, the returns expand to exactly the accepted
  metadata in order, that a batch is legal for the sender ledger, and that a queue never exceeds its
  depth.
\<close>

record return_queue =
  rq_channel :: channel
  rq_depth :: int
  rq_queues :: "beat list list"
  rq_outputs :: "credit_return list"

definition return_init :: "int \<Rightarrow> int \<Rightarrow> channel \<Rightarrow> py_error + return_queue" where
  "return_init num_ports depth ch =
     (if num_ports \<notin> {1, 2, 4} \<or> \<not> (1 \<le> depth \<and> depth \<le> 16) then Inl ValueError
      else if ch \<notin> set channels then Inl ValueError
      else Inr \<lparr>rq_channel = ch, rq_depth = depth, rq_queues = replicate (nat num_ports) [],
                rq_outputs = []\<rparr>)"

definition return_ready :: "return_queue \<Rightarrow> int \<Rightarrow> py_error + bool" where
  "return_ready q port =
     (if \<not> (0 \<le> port \<and> port < 4) then Inl ValueError
      else Inr (port < int (length (rq_queues q)) \<and>
                int (length (rq_queues q ! nat port)) < rq_depth q))"

definition return_pending :: "return_queue \<Rightarrow> int list" where
  "return_pending q = map (int \<circ> length) (rq_queues q)"

fun equal_run :: "beat \<Rightarrow> int \<Rightarrow> beat list \<Rightarrow> int \<times> beat list" where
  "equal_run head amount [] = (amount, [])"
| "equal_run head amount (b # queue) =
     (if b = head \<and> amount < 4 then equal_run head (amount + 1) queue else (amount, b # queue))"

fun grant_ports ::
  "channel \<Rightarrow> int \<Rightarrow> nat \<Rightarrow> beat list list \<Rightarrow> beat list list \<times> credit_return list" where
  "grant_ports ch enm port [] = ([], [])"
| "grant_ports ch enm port (queue # rest) =
     (let (rest', grants) = grant_ports ch enm (Suc port) rest in
      if bit enm port \<and> queue \<noteq> [] then
        let head = hd queue; (amount, queue') = equal_run head 0 queue
        in (queue' # rest',
            \<lparr>cr_port = int port, cr_channel = ch, cr_vc = bt_vc head, cr_pool = bt_pool head,
             cr_count = amount - 1, cr_valid = True\<rparr> # grants)
      else (queue # rest', grants))"

definition return_step ::
  "return_queue \<Rightarrow> beat option \<Rightarrow> int \<Rightarrow> bool \<Rightarrow>
   py_error + return_queue \<times> bool \<times> credit_return list" where
  "return_step q retired enm reset =
     (if reset then
        Inr (q\<lparr>rq_queues := map (\<lambda>_. []) (rq_queues q), rq_outputs := []\<rparr>, False, [])
      else if \<not> (0 \<le> enm \<and> enm < 16) then Inl ValueError
      else
        rbind (case retired of
                 None \<Rightarrow> Inr False
               | Some b \<Rightarrow>
                   if bt_channel b \<noteq> rq_channel q then Inl ValueError
                   else if \<not> (0 \<le> bt_vc b \<and> bt_vc b < 4) then Inl ValueError
                   else return_ready q (bt_port b))
          (\<lambda>accepted.
            let (queues, grants) = grant_ports (rq_channel q) enm 0 (rq_queues q);
                queues' = (if accepted
                           then queues[nat (bt_port (the retired)) :=
                                  queues ! nat (bt_port (the retired)) @ [the retired]]
                           else queues)
            in Inr (q\<lparr>rq_queues := queues', rq_outputs := grants\<rparr>, accepted, grants)))"

definition return_tick ::
  "return_queue \<Rightarrow> beat option \<times> int \<Rightarrow> py_error + return_queue \<times> bool \<times> credit_return list" where
  "return_tick q = (\<lambda>(retired, enm). return_step q retired enm False)"

subsection \<open>What a return stands for\<close>

definition expand_return :: "credit_return \<Rightarrow> beat list" where
  "expand_return g = replicate (nat (cr_count g + 1))
     \<lparr>bt_port = cr_port g, bt_channel = cr_channel g, bt_vc = cr_vc g, bt_pool = cr_pool g\<rparr>"

definition returns_of :: "int \<Rightarrow> credit_return list \<Rightarrow> beat list" where
  "returns_of port gs = concat (map expand_return (filter (\<lambda>g. cr_port g = port) gs))"

definition home_beats :: "channel \<Rightarrow> nat \<Rightarrow> beat list list \<Rightarrow> bool" where
  "home_beats ch k qs \<longleftrightarrow>
     (\<forall>j < length qs. \<forall>b \<in> set (qs ! j). bt_port b = int (k + j) \<and> bt_channel b = ch \<and>
        0 \<le> bt_vc b \<and> bt_vc b < 4)"

definition return_ok :: "return_queue \<Rightarrow> bool" where
  "return_ok q \<longleftrightarrow>
     home_beats (rq_channel q) 0 (rq_queues q) \<and>
     list_all (\<lambda>queue. int (length queue) \<le> rq_depth q) (rq_queues q)"

lemma returns_of_Nil [simp]: "returns_of port [] = []"
  by (simp add: returns_of_def)

lemma returns_of_Cons:
  "returns_of port (g # gs) = (if cr_port g = port then expand_return g else []) @ returns_of port gs"
  by (simp add: returns_of_def)

lemma returns_of_none: "(\<And>g. g \<in> set gs \<Longrightarrow> cr_port g \<noteq> port) \<Longrightarrow> returns_of port gs = []"
  by (auto simp: returns_of_def filter_empty_conv)

lemma equal_run_split:
  "equal_run head a queue = (n, rest) \<Longrightarrow> 0 \<le> a \<Longrightarrow> a \<le> 4 \<Longrightarrow>
     queue = replicate (nat (n - a)) head @ rest \<and> a \<le> n \<and> n \<le> 4"
proof (induction head a queue rule: equal_run.induct)
  case (1 head amount)
  then show ?case by simp
next
  case (2 head amount b queue)
  show ?case
  proof (cases "b = head \<and> amount < 4")
    case True
    with 2 have IH: "queue = replicate (nat (n - (amount + 1))) head @ rest" "amount + 1 \<le> n" "n \<le> 4"
      by auto
    then have "nat (n - amount) = Suc (nat (n - (amount + 1)))" by linarith
    with IH True show ?thesis by simp
  next
    case False
    with 2 show ?thesis by auto
  qed
qed

lemma equal_run_first:
  assumes "equal_run (hd queue) 0 queue = (n, rest)" and "queue \<noteq> []"
  shows "1 \<le> n" "n \<le> 4" "queue = replicate (nat n) (hd queue) @ rest"
proof -
  obtain b q where q: "queue = b # q" using assms(2) by (cases queue) auto
  then have "equal_run b 1 q = (n, rest)" using assms(1) by simp
  then show "1 \<le> n" "n \<le> 4" using equal_run_split [of b 1 q n rest] by simp_all
  show "queue = replicate (nat n) (hd queue) @ rest"
    using equal_run_split [OF assms(1)] by simp
qed

lemma home_beats_Cons:
  "home_beats ch k (queue # qs) \<longleftrightarrow>
     (\<forall>b \<in> set queue. bt_port b = int k \<and> bt_channel b = ch \<and> 0 \<le> bt_vc b \<and> bt_vc b < 4) \<and>
     home_beats ch (Suc k) qs"
  by (simp add: home_beats_def All_less_Suc2 add_ac)

lemma grant_ports_spec:
  "grant_ports ch enm k qs = (qs', gs) \<Longrightarrow> home_beats ch k qs \<Longrightarrow>
     length qs' = length qs \<and>
     (\<forall>j < length qs. qs ! j = returns_of (int (k + j)) gs @ qs' ! j) \<and>
     (\<forall>g \<in> set gs. int k \<le> cr_port g \<and> cr_port g < int (k + length qs) \<and>
        bit enm (nat (cr_port g)) \<and> cr_valid g \<and> cr_channel g = ch \<and>
        0 \<le> cr_vc g \<and> cr_vc g < 4 \<and> 0 \<le> cr_count g \<and> cr_count g \<le> 3) \<and>
     distinct (map cr_port gs)"
proof (induction ch enm k qs arbitrary: qs' gs rule: grant_ports.induct)
  case (1 ch enm port)
  then show ?case by simp
next
  case (2 ch enm k queue rest)
  obtain rest' gs1 where e: "grant_ports ch enm (Suc k) rest = (rest', gs1)" by force
  from "2.prems"(2) have q: "\<forall>b \<in> set queue. bt_port b = int k \<and> bt_channel b = ch \<and>
      0 \<le> bt_vc b \<and> bt_vc b < 4" and r: "home_beats ch (Suc k) rest"
    by (simp_all add: home_beats_Cons)
  note IH = "2.IH" [OF e r]
  have later: "returns_of (int k) gs1 = []"
    by (rule returns_of_none) (use IH in fastforce)
  have fresh: "int k \<notin> cr_port ` set gs1" using IH by force
  show ?case
  proof (cases "bit enm k \<and> queue \<noteq> []")
    case False
    with "2.prems"(1) e have "qs' = queue # rest'" "gs = gs1" by auto
    with IH later show ?thesis by (auto simp: All_less_Suc2 add_ac)
  next
    case True
    obtain n q' where er: "equal_run (hd queue) 0 queue = (n, q')" by force
    define g where "g = \<lparr>cr_port = int k, cr_channel = ch, cr_vc = bt_vc (hd queue),
      cr_pool = bt_pool (hd queue), cr_count = n - 1, cr_valid = True\<rparr>"
    have out: "qs' = q' # rest'" "gs = g # gs1"
      using "2.prems"(1) e True er by (auto simp: g_def Let_def)
    note n = equal_run_first [OF er conjunct2 [OF True]]
    have hd: "bt_port (hd queue) = int k" "bt_channel (hd queue) = ch"
      "0 \<le> bt_vc (hd queue)" "bt_vc (hd queue) < 4"
      using q True by simp_all
    then have "expand_return g = replicate (nat n) (hd queue)"
      by (cases "hd queue") (simp add: expand_return_def g_def)
    with n(3) later have q': "queue = returns_of (int k) gs @ q'"
      by (simp add: out returns_of_Cons g_def)
    have "returns_of (int (Suc k + j)) gs = returns_of (int (Suc k + j)) gs1" for j
      by (simp add: out returns_of_Cons g_def)
    with IH q' out(1)
    have "\<forall>j < length (queue # rest). (queue # rest) ! j = returns_of (int (k + j)) gs @ qs' ! j"
      by (auto simp: All_less_Suc2 add_ac)
    moreover have "0 \<le> cr_count g" "cr_count g \<le> 3" using n(1,2) by (simp_all add: g_def)
    ultimately show ?thesis using IH True hd fresh by (auto simp: out g_def)
  qed
qed

subsection \<open>One edge\<close>

lemma home_beats_sub:
  assumes "home_beats ch 0 qs" and "length qs' = length qs"
    and "\<And>j. j < length qs \<Longrightarrow> set (qs' ! j) \<subseteq> set (qs ! j)"
  shows "home_beats ch 0 qs'"
  using assms unfolding home_beats_def by (metis subsetD)

lemma return_step_edge:
  assumes "return_step q retired enm False = Inr (q', acc, gs)" and "return_ok q"
  shows "return_ok q'"
    and "acc \<Longrightarrow> retired \<noteq> None"
    and "\<forall>p < length (rq_queues q).
      rq_queues q ! p @ (if acc \<and> bt_port (the retired) = int p then [the retired] else []) =
      returns_of (int p) gs @ rq_queues q' ! p"
    and "\<forall>g \<in> set gs. 0 \<le> cr_port g \<and> cr_port g < int (length (rq_queues q)) \<and>
        bit enm (nat (cr_port g)) \<and> cr_valid g \<and> cr_channel g = rq_channel q \<and>
        0 \<le> cr_vc g \<and> cr_vc g < 4 \<and> 0 \<le> cr_count g \<and> cr_count g \<le> 3"
    and "distinct (map cr_port gs)"
    and "rq_channel q' = rq_channel q" "rq_depth q' = rq_depth q"
      "length (rq_queues q') = length (rq_queues q)" "rq_outputs q' = gs"
proof -
  obtain qs gs1 where e: "grant_ports (rq_channel q) enm 0 (rq_queues q) = (qs, gs1)" by force
  have home: "home_beats (rq_channel q) 0 (rq_queues q)"
    and dep: "list_all (\<lambda>queue. int (length queue) \<le> rq_depth q) (rq_queues q)"
    using assms(2) by (simp_all add: return_ok_def)
  note spec = grant_ports_spec [OF e home]
  have gs: "gs = gs1" and q': "q' = q\<lparr>rq_queues := (if acc
      then qs[nat (bt_port (the retired)) := qs ! nat (bt_port (the retired)) @ [the retired]]
      else qs), rq_outputs := gs\<rparr>"
    using assms(1) e by (auto simp: return_step_def split: if_splits)
  have acc: "retired \<noteq> None \<and> 0 \<le> bt_port (the retired) \<and>
      nat (bt_port (the retired)) < length (rq_queues q) \<and>
      int (length (rq_queues q ! nat (bt_port (the retired)))) < rq_depth q \<and>
      bt_channel (the retired) = rq_channel q \<and> 0 \<le> bt_vc (the retired) \<and> bt_vc (the retired) < 4"
    if acc
    using assms(1) e that
    by (auto simp: return_step_def return_ready_def split: if_splits option.splits)
  show "acc \<Longrightarrow> retired \<noteq> None" using acc by blast
  show "rq_channel q' = rq_channel q" "rq_depth q' = rq_depth q" "rq_outputs q' = gs"
    by (simp_all add: q')
  show "length (rq_queues q') = length (rq_queues q)" using spec by (simp add: q')
  have suffix: "set (qs ! j) \<subseteq> set (rq_queues q ! j)" "length (qs ! j) \<le> length (rq_queues q ! j)"
    if "j < length (rq_queues q)" for j
  proof -
    have "rq_queues q ! j = returns_of (int j) gs1 @ qs ! j" using spec that by simp
    then show "set (qs ! j) \<subseteq> set (rq_queues q ! j)" "length (qs ! j) \<le> length (rq_queues q ! j)"
      by simp_all
  qed
  have len: "length qs = length (rq_queues q)" using spec by blast
  have hq: "home_beats (rq_channel q) 0 qs"
    using home_beats_sub [OF home] spec suffix(1) by blast
  have dq: "\<forall>j < length qs. int (length (qs ! j)) \<le> rq_depth q"
    using suffix(2) dep spec by (fastforce simp: list_all_length)
  show "return_ok q'"
  proof (cases acc)
    case False
    then show ?thesis using hq dq by (auto simp: return_ok_def q' list_all_length)
  next
    case True
    note a = acc [OF True]
    have "home_beats (rq_channel q) 0
        (qs[nat (bt_port (the retired)) := qs ! nat (bt_port (the retired)) @ [the retired]])"
      using hq a len unfolding home_beats_def by (auto simp: nth_list_update)
    moreover have "length (qs ! nat (bt_port (the retired))) \<le>
        length (rq_queues q ! nat (bt_port (the retired)))"
      using a suffix(2) by blast
    ultimately show ?thesis
      using dq a True len by (auto simp: return_ok_def q' list_all_length nth_list_update)
  qed
  show "\<forall>p < length (rq_queues q).
      rq_queues q ! p @ (if acc \<and> bt_port (the retired) = int p then [the retired] else []) =
      returns_of (int p) gs @ rq_queues q' ! p"
    using spec acc by (auto simp: q' gs nth_list_update)
  show "\<forall>g \<in> set gs. 0 \<le> cr_port g \<and> cr_port g < int (length (rq_queues q)) \<and>
        bit enm (nat (cr_port g)) \<and> cr_valid g \<and> cr_channel g = rq_channel q \<and>
        0 \<le> cr_vc g \<and> cr_vc g < 4 \<and> 0 \<le> cr_count g \<and> cr_count g \<le> 3"
    "distinct (map cr_port gs)"
    using spec by (auto simp: gs)
qed

lemma return_init_ok: "return_init n d ch = Inr q \<Longrightarrow> return_ok q"
  by (auto simp: return_init_def return_ok_def home_beats_def list_all_iff split: if_splits)

text \<open>An edge whose retirement was reserved on a ready port succeeds.\<close>

lemma return_step_reserved:
  assumes "0 \<le> m" "m < 16"
    and "\<And>b. retired = Some b \<Longrightarrow> bt_channel b = rq_channel q \<and> 0 \<le> bt_vc b \<and> bt_vc b < 4 \<and>
      return_ready q (bt_port b) = Inr True"
  obtains q' gs where "return_step q retired m False = Inr (q', retired \<noteq> None, gs)"
proof -
  obtain qs gs where "grant_ports (rq_channel q) m 0 (rq_queues q) = (qs, gs)" by force
  then have "\<exists>q'. return_step q retired m False = Inr (q', retired \<noteq> None, gs)"
    using assms by (cases retired) (auto simp: return_step_def Let_def)
  then show ?thesis using that by blast
qed

lemma return_reset:
  "return_step q retired m True = Inr (q', acc, gs) \<longleftrightarrow>
     q' = q\<lparr>rq_queues := map (\<lambda>_. []) (rq_queues q), rq_outputs := []\<rparr> \<and> \<not> acc \<and> gs = []"
  by (auto simp: return_step_def)

text \<open>The queue of one port, as a flow of metadata.\<close>

definition return_inv :: "nat \<Rightarrow> return_queue \<Rightarrow> bool" where
  "return_inv p q \<longleftrightarrow> return_ok q \<and> p < length (rq_queues q)"

definition accepted_at :: "nat \<Rightarrow> beat option \<times> int \<Rightarrow> bool \<times> credit_return list \<Rightarrow> beat list" where
  "accepted_at p i out =
     (if fst out \<and> bt_port (the (fst i)) = int p then [the (fst i)] else [])"

interpretation return_queue: flow return_tick "return_inv p" "\<lambda>q. rq_queues q ! p" "accepted_at p"
  "\<lambda>out. returns_of (int p) (snd out)" for p
proof unfold_locales
  fix s i s' out assume inv: "return_inv p s" and t: "return_tick s i = Inr (s', out)"
  have st: "return_step s (fst i) (snd i) False = Inr (s', fst out, snd out)"
    using t by (simp add: return_tick_def split: prod.splits)
  note edge = return_step_edge [OF st]
  show "return_inv p s'" using inv edge by (simp add: return_inv_def)
  show "rq_queues s ! p @ accepted_at p i out = returns_of (int p) (snd out) @ rq_queues s' ! p"
    using inv edge(3) by (auto simp: return_inv_def accepted_at_def)
qed

end
