(* ===== verification/Receive_Fifo.thy ===== *)
theory Receive_Fifo
  imports Prelude
begin

section \<open>Synchronous receive FIFO\<close>

text \<open>
  Models \<open>simulator/UAlink2.0/model/ualink/receive_fifo.py\<close>: an exact-capacity queue whose words
  pass through a read pipeline register and a two-word output cache. The abstract contents are the
  visible words, the word in the pipeline and the unread words, in this order. The locale
  \<open>bounded_queue\<close> states what a client relies on; the model is an interpretation of it.
\<close>

record fifo =
  ff_depth :: int
  ff_width :: int
  ff_unread :: "int list"
  ff_visible :: "int list"
  ff_pending :: "int option"

record fifo_view =
  fv_ready :: bool
  fv_valid :: bool
  fv_data :: int
  fv_count :: int

definition fifo_init :: "int \<Rightarrow> int \<Rightarrow> py_error + fifo" where
  "fifo_init depth width =
     (if \<not> (1 \<le> depth \<and> depth \<le> 65535) \<or> width \<le> 0 \<or> width mod 8 \<noteq> 0 then Inl ValueError
      else Inr \<lparr>ff_depth = depth, ff_width = width, ff_unread = [], ff_visible = [],
                ff_pending = None\<rparr>)"

definition fifo_outputs :: "fifo \<Rightarrow> fifo_view" where
  "fifo_outputs f =
     (let count = int (length (ff_unread f)) + int (length (ff_visible f)) +
                  of_bool (ff_pending f \<noteq> None)
      in \<lparr>fv_ready = count < ff_depth f, fv_valid = ff_visible f \<noteq> [],
          fv_data = (if ff_visible f \<noteq> [] then hd (ff_visible f) else 0), fv_count = count\<rparr>)"

definition fifo_step ::
  "fifo \<Rightarrow> int option \<Rightarrow> bool \<Rightarrow> bool \<Rightarrow> py_error + fifo \<times> bool \<times> int option" where
  "fifo_step f data consume reset =
     (if reset then Inr (f\<lparr>ff_unread := [], ff_visible := [], ff_pending := None\<rparr>, False, None)
      else if (case data of None \<Rightarrow> False | Some d \<Rightarrow> \<not> (0 \<le> d \<and> d < 2 ^ nat (ff_width f)))
        then Inl ValueError
      else
        (let before = fifo_outputs f;
             accepted = (data \<noteq> None \<and> fv_ready before);
             pop = (consume \<and> fv_valid before);
             room = (int (length (ff_visible f)) + of_bool (ff_pending f \<noteq> None) - of_bool pop < 2);
             read = (ff_unread f \<noteq> [] \<and> room);
             read_result = (if read then Some (hd (ff_unread f)) else None);
             unread = (if read then tl (ff_unread f) else ff_unread f);
             consumed = (if pop then Some (hd (ff_visible f)) else None);
             visible = (if pop then tl (ff_visible f) else ff_visible f) @
                       (case ff_pending f of None \<Rightarrow> [] | Some w \<Rightarrow> [w])
         in Inr (f\<lparr>ff_visible := visible, ff_pending := read_result,
                   ff_unread := unread @ (if accepted then [the data] else [])\<rparr>,
                 accepted, consumed)))"

definition fifo_contents :: "fifo \<Rightarrow> int list" where
  "fifo_contents f =
     ff_visible f @ (case ff_pending f of None \<Rightarrow> [] | Some w \<Rightarrow> [w]) @ ff_unread f"

definition fifo_ok :: "fifo \<Rightarrow> bool" where
  "fifo_ok f \<longleftrightarrow>
     int (length (fifo_contents f)) \<le> ff_depth f \<and>
     length (ff_visible f) + (if ff_pending f = None then 0 else 1) \<le> 2 \<and>
     (\<forall>w \<in> set (fifo_contents f). 0 \<le> w \<and> w < 2 ^ nat (ff_width f))"

definition fifo_tick :: "fifo \<Rightarrow> int option \<times> bool \<Rightarrow> py_error + fifo \<times> bool \<times> int option" where
  "fifo_tick f = (\<lambda>(data, consume). fifo_step f data consume False)"

subsection \<open>The contract of a bounded queue\<close>

text \<open>The words a run of the queue accepted, and the words it handed out, in order.\<close>

definition pushed :: "('a option \<times> bool) list \<Rightarrow> (bool \<times> 'a option) list \<Rightarrow> 'a list" where
  "pushed is outs =
     concat (map2 (\<lambda>i out. if fst out then [the (fst i)] else []) is outs)"

definition popped :: "(bool \<times> 'a option) list \<Rightarrow> 'a list" where
  "popped outs = concat (map (\<lambda>out. case snd out of None \<Rightarrow> [] | Some x \<Rightarrow> [x]) outs)"

locale bounded_queue =
  fixes tick :: "'q \<Rightarrow> 'a option \<times> bool \<Rightarrow> 'e + 'q \<times> bool \<times> 'a option"
    and contents :: "'q \<Rightarrow> 'a list"
    and cap :: "'q \<Rightarrow> int"
    and ok :: "'q \<Rightarrow> bool"
  assumes ok_tick: "ok q \<Longrightarrow> tick q i = Inr (q', acc, out) \<Longrightarrow> ok q'"
    and contents_tick: "ok q \<Longrightarrow> tick q (d, c) = Inr (q', acc, out) \<Longrightarrow>
      contents q @ (if acc then [the d] else []) =
        (case out of None \<Rightarrow> [] | Some x \<Rightarrow> [x]) @ contents q'"
    and cap_tick: "tick q i = Inr (q', acc, out) \<Longrightarrow> cap q' = cap q"
    and contents_cap: "ok q \<Longrightarrow> int (length (contents q)) \<le> cap q"
    and accepts: "ok q \<Longrightarrow> tick q (d, c) = Inr (q', acc, out) \<Longrightarrow>
      acc \<longleftrightarrow> d \<noteq> None \<and> int (length (contents q)) < cap q"
begin

lemma run_cap: "run tick q is = Inr (q', outs) \<Longrightarrow> cap q' = cap q"
proof (induction "is" arbitrary: q outs)
  case Nil
  then show ?case by simp
next
  case (Cons i "is")
  from Cons.prems(1) obtain q1 o1 outs1 where "tick q i = Inr (q1, o1)"
    and "run tick q1 is = Inr (q', outs1)" by (rule run_ConsE)
  with Cons.IH cap_tick show ?case by (metis prod.collapse)
qed

end

sublocale bounded_queue \<subseteq> flow tick ok contents
  "\<lambda>i out. if fst out then [the (fst i)] else []"
  "\<lambda>out. case snd out of None \<Rightarrow> [] | Some x \<Rightarrow> [x]"
proof unfold_locales
  show "ok s'" if "ok s" "tick s i = Inr (s', out)" for s i s' out
    using that ok_tick by (metis prod.collapse)
  show "contents s @ (if fst out then [the (fst i)] else []) =
      (case snd out of None \<Rightarrow> [] | Some x \<Rightarrow> [x]) @ contents s'"
    if "ok s" "tick s i = Inr (s', out)" for s i s' out
    using contents_tick [of s "fst i" "snd i" s' "fst out" "snd out"] that by simp
qed

context bounded_queue
begin

lemma run_order:
  "run tick q is = Inr (q', outs) \<Longrightarrow> ok q \<Longrightarrow>
     contents q @ pushed is outs = popped outs @ contents q' \<and> ok q' \<and> cap q' = cap q"
  using flow_run run_inv run_cap unfolding pushed_def popped_def by blast

end

lemma fifo_step_contents:
  assumes "fifo_ok f" and "fifo_step f d c False = Inr (f', acc, out)"
  shows "fifo_contents f @ (if acc then [the d] else []) =
      (case out of None \<Rightarrow> [] | Some x \<Rightarrow> [x]) @ fifo_contents f'"
    and "acc \<longleftrightarrow> d \<noteq> None \<and> int (length (fifo_contents f)) < ff_depth f"
    and "ff_depth f' = ff_depth f" and "ff_width f' = ff_width f"
  using assms
  by (cases "ff_visible f"; cases "ff_unread f"; cases "ff_pending f";
      auto simp: fifo_step_def fifo_contents_def fifo_outputs_def Let_def split: if_splits)+

lemma fifo_step_ok:
  assumes "fifo_ok f" and "fifo_step f d c r = Inr (f', acc, out)"
  shows "fifo_ok f'"
proof (cases r)
  case True
  with assms show ?thesis by (auto simp: fifo_step_def fifo_ok_def fifo_contents_def)
next
  case False
  with assms(2) have st: "fifo_step f d c False = Inr (f', acc, out)" by simp
  note c = fifo_step_contents [OF assms(1) st]
  have w: "acc \<Longrightarrow> 0 \<le> the d \<and> the d < 2 ^ nat (ff_width f)"
    using st by (auto simp: fifo_step_def Let_def split: if_splits option.splits)
  have cache: "length (ff_visible f') + (if ff_pending f' = None then 0 else 1) \<le> 2"
    using st assms(1)
    by (cases "ff_visible f"; cases "ff_unread f"; cases "ff_pending f";
        auto simp: fifo_ok_def fifo_step_def fifo_outputs_def Let_def split: if_splits)
  have len: "int (length (fifo_contents f')) \<le> ff_depth f"
    using arg_cong [OF c(1), of length] c(2) assms(1)
    by (auto simp: fifo_ok_def split: if_splits option.splits)
  have "set (fifo_contents f') \<subseteq> set (fifo_contents f) \<union> (if acc then {the d} else {})"
    using arg_cong [OF c(1), of set] by (auto split: if_splits option.splits)
  with assms(1) w cache len c(3,4) show ?thesis
    by (auto simp: fifo_ok_def split: if_splits)
qed

interpretation receive_fifo: bounded_queue fifo_tick fifo_contents ff_depth fifo_ok
proof unfold_locales
  show "int (length (fifo_contents q)) \<le> ff_depth q" if "fifo_ok q" for q
    using that by (simp add: fifo_ok_def)
  show "fifo_ok q'" if "fifo_ok q" "fifo_tick q i = Inr (q', acc, out)" for q i q' acc out
    using that fifo_step_ok by (auto simp: fifo_tick_def split: prod.splits)
  show "ff_depth q' = ff_depth q" if "fifo_tick q i = Inr (q', acc, out)" for q i q' acc out
    using that by (auto simp: fifo_tick_def fifo_step_def Let_def split: prod.splits if_splits)
  show "acc \<longleftrightarrow> d \<noteq> None \<and> int (length (fifo_contents q)) < ff_depth q"
    if "fifo_ok q" "fifo_tick q (d, c) = Inr (q', acc, out)" for q d c q' acc out
    using that(2) by (intro fifo_step_contents(2) [OF that(1)]) (simp add: fifo_tick_def)
qed (simp add: fifo_tick_def fifo_step_contents(1))

lemma fifo_init_ok: "fifo_init n w = Inr f \<Longrightarrow> fifo_ok f \<and> fifo_contents f = []"
  by (auto simp: fifo_init_def fifo_ok_def fifo_contents_def split: if_splits)

lemma fifo_count_length: "fv_count (fifo_outputs f) = int (length (fifo_contents f))"
  by (auto simp: fifo_outputs_def fifo_contents_def Let_def split: option.splits)

lemma fifo_valid_hd:
  "fv_valid (fifo_outputs f) \<Longrightarrow> fifo_contents f \<noteq> [] \<and> fv_data (fifo_outputs f) = hd (fifo_contents f)"
  by (auto simp: fifo_outputs_def fifo_contents_def Let_def)

lemma fifo_ready_iff: "fv_ready (fifo_outputs f) \<longleftrightarrow> int (length (fifo_contents f)) < ff_depth f"
  by (auto simp: fifo_outputs_def fifo_contents_def Let_def split: option.splits)

text \<open>An edge whose write was reserved on a ready queue and whose read on a valid one succeeds.\<close>

lemma fifo_step_reserved:
  assumes "fifo_ok f"
    and "\<And>d. data = Some d \<Longrightarrow> fv_ready (fifo_outputs f) \<and> fits (nat (ff_width f)) d"
    and "consume \<Longrightarrow> fv_valid (fifo_outputs f)"
  obtains f' where "fifo_step f data consume False =
      Inr (f', data \<noteq> None, if consume then Some (fv_data (fifo_outputs f)) else None)"
proof -
  have "\<exists>f'. fifo_step f data consume False =
      Inr (f', data \<noteq> None, if consume then Some (fv_data (fifo_outputs f)) else None)"
    using assms(2,3) unfolding fifo_step_def Let_def
    by (cases data) (auto simp: fits_def fifo_outputs_def Let_def)
  then show ?thesis using that by blast
qed

text \<open>A word that is not visible yet becomes visible after at most two edges.\<close>

lemma fifo_two_edges:
  assumes "fifo_ok f" and "fifo_contents f \<noteq> []"
    and "fifo_step f None False False = Inr (f1, a1, c1)"
    and "fifo_step f1 None False False = Inr (f2, a2, c2)"
  shows "fv_valid (fifo_outputs f2)"
  using assms
  by (cases "ff_visible f"; cases "ff_unread f"; cases "ff_pending f";
      auto simp: fifo_step_def fifo_contents_def fifo_outputs_def Let_def split: if_splits)

end
