(* ===== verification/Upli_Receive.thy ===== *)
theory Upli_Receive
  imports Upli_Init Upli_Return Receive_Fifo
begin

section \<open>Receive storage of one UPLI channel\<close>

text \<open>
  Models \<open>simulator/UAlink2.0/model/ualink/upli_receive.py\<close>: five accounts per port, each an
  optional \<open>ReceiveFifo\<close> of words \<open>{pool, vc, payload}\<close>, the initial credit publisher and the
  return queue. The code guards its composition with three \<open>AssertionError\<close> checks; they are
  branches of the model and the lemmas show that none of them is reachable, and that the beats of an
  account leave in the order they came with the payload and metadata they came with.
\<close>

record received_beat =
  rb_beat :: beat
  rb_payload :: int

record rx_channel =
  rx_initializer :: publisher
  rx_returns :: return_queue
  rx_ports :: int
  rx_name :: channel
  rx_payload_width :: int
  rx_storage_width :: int
  rx_fifos :: "fifo option list"
  rx_connection :: conn_signals

record rx_signals =
  sg_returns :: "credit_return list"
  sg_done :: int
  sg_counts :: "int list"
  sg_pending :: "int list"

definition rx_storage :: "int \<Rightarrow> int" where
  "rx_storage payload_width = (payload_width + 3 + 7) div 8 * 8"

definition rx_new_fifo :: "int \<Rightarrow> int \<Rightarrow> py_error + fifo option" where
  "rx_new_fifo width depth =
     (if depth \<noteq> 0 then rbind (fifo_init depth width) (\<lambda>f. Inr (Some f)) else Inr None)"

definition rx_init ::
  "int list \<Rightarrow> int \<Rightarrow> int \<Rightarrow> int \<Rightarrow> int \<Rightarrow> channel \<Rightarrow> py_error + rx_channel" where
  "rx_init capacities num_ports payload_width credit_width return_depth ch =
     (if payload_width < 1 then Inl ValueError
      else
        rbind (publisher_init capacities num_ports credit_width ch) (\<lambda>initializer.
        rbind (return_init num_ports return_depth ch) (\<lambda>returns.
        let storage_width = rx_storage payload_width in
        rbind (rmap (rx_new_fifo storage_width) capacities) (\<lambda>fifos.
          Inr \<lparr>rx_initializer = initializer, rx_returns = returns, rx_ports = num_ports,
               rx_name = ch, rx_payload_width = payload_width, rx_storage_width = storage_width,
               rx_fifos = fifos, rx_connection = no_signals\<rparr>))))"

definition rx_outputs :: "rx_channel \<Rightarrow> py_error + rx_signals" where
  "rx_outputs r =
     (let initial = pub_returns (rx_initializer r); normal = rq_outputs (rx_returns r) in
      if cr_port ` set initial \<inter> cr_port ` set normal \<noteq> {} then Inl AssertionError
      else Inr \<lparr>sg_returns = sort_key cr_port (initial @ normal),
                sg_done = pub_done (rx_initializer r),
                sg_counts = map (\<lambda>f. case f of None \<Rightarrow> 0 | Some q \<Rightarrow> fv_count (fifo_outputs q))
                              (rx_fifos r),
                sg_pending = return_pending (rx_returns r)\<rparr>)"

definition rx_select :: "int \<Rightarrow> int \<Rightarrow> py_error + unit" where
  "rx_select port account =
     ensure (0 \<le> port \<and> port < 4 \<and> 0 \<le> account \<and> account < 8)"

definition rx_decode :: "int \<Rightarrow> channel \<Rightarrow> int \<Rightarrow> int \<Rightarrow> received_beat" where
  "rx_decode width ch port word =
     (let k = nat width in
      \<lparr>rb_beat = \<lparr>bt_port = port, bt_channel = ch, bt_vc = fld word k 2,
                  bt_pool = (fld word (k + 2) 1 \<noteq> 0)\<rparr>,
       rb_payload = fld word 0 k\<rparr>)"

definition rx_encode :: "int \<Rightarrow> received_beat \<Rightarrow> int" where
  "rx_encode width b =
     (let k = nat width in
      rb_payload b OR push_bit k (bt_vc (rb_beat b)) OR
      push_bit (k + 2) (of_bool (bt_pool (rb_beat b))))"

definition rx_peek :: "rx_channel \<Rightarrow> int \<Rightarrow> int \<Rightarrow> py_error + received_beat option \<times> bool" where
  "rx_peek r port account =
     rbind (rx_select port account) (\<lambda>_.
       if port \<ge> rx_ports r \<or> account \<ge> 5 then Inr (None, False)
       else (case rx_fifos r ! nat (port * 5 + account) of
               None \<Rightarrow> Inr (None, False)
             | Some f \<Rightarrow>
                 if \<not> fv_valid (fifo_outputs f) then Inr (None, False)
                 else rbind (return_ready (rx_returns r) port) (\<lambda>ready.
                   Inr (Some (rx_decode (rx_payload_width r) (rx_name r) port
                                (fv_data (fifo_outputs f))), ready))))"

definition rx_validate ::
  "rx_channel \<Rightarrow> conn_signals \<Rightarrow> received_beat option \<Rightarrow> (int \<times> int) option \<Rightarrow> py_error + unit" where
  "rx_validate r conn incoming consumer =
     rbind (case consumer of None \<Rightarrow> Inr () | Some (port, account) \<Rightarrow> rx_select port account) (\<lambda>_.
     rbind (case incoming of
              None \<Rightarrow> Inr ()
            | Some b \<Rightarrow> ensure (0 \<le> bt_port (rb_beat b) \<and> bt_port (rb_beat b) < 4 \<and>
                  0 \<le> bt_vc (rb_beat b) \<and> bt_vc (rb_beat b) < 4 \<and>
                  bt_channel (rb_beat b) = rx_name r \<and>
                  0 \<le> rb_payload b \<and> rb_payload b < 2 ^ nat (rx_payload_width r))) (\<lambda>_.
       let old = rx_connection r in
       ensure ((orig_req old \<longrightarrow> orig_req conn) \<and> (comp_ack old \<longrightarrow> comp_ack conn) \<and>
               (comp_req old \<longrightarrow> comp_req conn) \<and> (orig_ack old \<longrightarrow> orig_ack conn))))"

text \<open>The diagnostic of an incoming beat and, when it is accepted, its slot.\<close>

definition rx_admit ::
  "rx_channel \<Rightarrow> conn_signals \<Rightarrow> int \<Rightarrow> received_beat option \<Rightarrow> int \<times> nat option" where
  "rx_admit r conn done incoming =
     (case incoming of
        None \<Rightarrow> (0, None)
      | Some b \<Rightarrow>
          let port = bt_port (rb_beat b);
              slot = nat (port * 5 + (if bt_pool (rb_beat b) then 4 else bt_vc (rb_beat b)))
          in if port \<ge> rx_ports r then (1, None)
             else if \<not> beats_enabled conn then (2, None)
             else if \<not> bit done (nat port) then (3, None)
             else (case rx_fifos r ! slot of
                     None \<Rightarrow> (4, None)
                   | Some f \<Rightarrow> if \<not> fv_ready (fifo_outputs f) then (4, None) else (0, Some slot)))"

definition rx_step_fifo ::
  "nat option \<Rightarrow> int \<Rightarrow> nat option \<Rightarrow> nat \<times> fifo option \<Rightarrow> py_error + fifo option" where
  "rx_step_fifo write_slot word read_slot = (\<lambda>(slot, fo).
     case fo of
       None \<Rightarrow> Inr None
     | Some f \<Rightarrow>
         rbind (fifo_step f (if write_slot = Some slot then Some word else None)
                  (read_slot = Some slot) False) (\<lambda>(f', accepted, consumed).
           if accepted \<noteq> (write_slot = Some slot) \<or> (consumed \<noteq> None) \<noteq> (read_slot = Some slot)
           then Inl AssertionError else Inr (Some f')))"

definition rx_reset_fifo :: "fifo option \<Rightarrow> py_error + fifo option" where
  "rx_reset_fifo fo =
     (case fo of
        None \<Rightarrow> Inr None
      | Some f \<Rightarrow> rbind (fifo_step f None False True) (\<lambda>(f', _, _). Inr (Some f')))"

definition rx_step ::
  "rx_channel \<Rightarrow> conn_signals \<Rightarrow> received_beat option \<Rightarrow> (int \<times> int) option \<Rightarrow> bool \<Rightarrow> bool \<Rightarrow>
   py_error + rx_channel \<times> bool \<times> received_beat option \<times> int" where
  "rx_step r conn incoming consumer consume reset =
     (if reset then
        rbind (publisher_step (rx_initializer r) no_signals True) (\<lambda>(initializer, _, _).
        rbind (return_step (rx_returns r) None 0 True) (\<lambda>(returns, _, _).
        rbind (rmap rx_reset_fifo (rx_fifos r)) (\<lambda>fifos.
          Inr (r\<lparr>rx_initializer := initializer, rx_returns := returns, rx_fifos := fifos,
                 rx_connection := no_signals\<rparr>, False, None, 0))))
      else
        rbind (rx_validate r conn incoming consumer) (\<lambda>_.
        rbind (rx_outputs r) (\<lambda>before.
        let (diagnostic, write_slot) = rx_admit r conn (sg_done before) incoming;
            word = (case incoming of None \<Rightarrow> 0 | Some b \<Rightarrow> rx_encode (rx_payload_width r) b)
        in
        rbind (case consumer of None \<Rightarrow> Inr (None, False) | Some (port, account) \<Rightarrow> rx_peek r port account)
          (\<lambda>(received, ready).
        let retired = (if consume \<and> ready then received else None);
            read_slot = (if retired \<noteq> None
                         then Some (nat (fst (the consumer) * 5 + snd (the consumer))) else None);
            allowed = credit_connected conn (rx_name r)
        in
        rbind (publisher_step (rx_initializer r) conn False) (\<lambda>(initializer, _, _).
        rbind (return_step (rx_returns r) (map_option rb_beat retired)
                 (if allowed then sg_done before else 0) False) (\<lambda>(returns, accepted, _).
        if accepted \<noteq> (retired \<noteq> None) then Inl AssertionError
        else
          rbind (rmap (rx_step_fifo write_slot word read_slot) (enumerate 0 (rx_fifos r))) (\<lambda>fifos.
            Inr (r\<lparr>rx_initializer := initializer, rx_returns := returns, rx_fifos := fifos,
                   rx_connection := conn\<rparr>, write_slot \<noteq> None, retired, diagnostic))))))))"

record rx_input =
  xi_conn :: conn_signals
  xi_incoming :: "received_beat option"
  xi_consumer :: "(int \<times> int) option"
  xi_consume :: bool

definition rx_tick ::
  "rx_channel \<Rightarrow> rx_input \<Rightarrow> py_error + rx_channel \<times> bool \<times> received_beat option \<times> int" where
  "rx_tick r i = rx_step r (xi_conn i) (xi_incoming i) (xi_consumer i) (xi_consume i) False"

subsection \<open>The storage word\<close>

definition legal_received :: "rx_channel \<Rightarrow> received_beat \<Rightarrow> bool" where
  "legal_received r b \<longleftrightarrow>
     0 \<le> bt_vc (rb_beat b) \<and> bt_vc (rb_beat b) < 4 \<and> bt_channel (rb_beat b) = rx_name r \<and>
     fits (nat (rx_payload_width r)) (rb_payload b)"

lemma rx_decode_encode:
  assumes "0 \<le> bt_vc (rb_beat b)" "bt_vc (rb_beat b) < 4" "fits (nat w) (rb_payload b)"
  shows "rx_decode w (bt_channel (rb_beat b)) (bt_port (rb_beat b)) (rx_encode w b) = b"
proof -
  have vc: "fits 2 (bt_vc (rb_beat b))" using assms by (simp add: fits_def)
  have zero: "fld (rb_payload b) (nat w) 2 = 0" "fld (rb_payload b) (nat w + 2) 1 = 0"
    "fld (push_bit (nat w) (bt_vc (rb_beat b))) (nat w + 2) 1 = 0"
    "fld (push_bit (nat w + 2) (of_bool (bt_pool (rb_beat b)))) (nat w) 2 = 0"
    by (rule fld_below_base [OF assms(3)] fld_below [OF vc] fld_above; simp)+
  have "fld (rx_encode w b) (nat w) 2 = bt_vc (rb_beat b)"
    unfolding rx_encode_def Let_def
    by (simp only: fld_or fld_hit [OF vc] zero or.right_neutral or.left_neutral)
  moreover have "fld (rx_encode w b) (nat w + 2) 1 = of_bool (bt_pool (rb_beat b))"
    unfolding rx_encode_def Let_def
    by (simp only: fld_or fld_hit [OF fits_1_of_bool] zero or.right_neutral or.left_neutral)
  moreover have "fld (rx_encode w b) 0 (nat w) = rb_payload b"
    unfolding rx_encode_def Let_def
    by (simp add: fld_or fld_hit_base [OF assms(3)] fld_above)
  ultimately show ?thesis by (cases b; cases "rb_beat b") (simp add: rx_decode_def Let_def)
qed

lemma rx_encode_fits:
  assumes "0 \<le> bt_vc (rb_beat b)" "bt_vc (rb_beat b) < 4" "fits (nat w) (rb_payload b)" "nat w + 3 \<le> n"
  shows "fits n (rx_encode w b)"
proof -
  have "fits 2 (bt_vc (rb_beat b))" using assms by (simp add: fits_def)
  then have "fits n (push_bit (nat w) (bt_vc (rb_beat b)))"
    using assms(4) by (intro fits_push [of 2]) auto
  moreover have "fits n (push_bit (nat w + 2) (of_bool (bt_pool (rb_beat b))))"
    using assms(4) by (intro fits_push [of 1]) auto
  moreover have "fits n (rb_payload b)" using assms(3,4) by (elim fits_mono) simp
  ultimately show ?thesis by (simp add: rx_encode_def Let_def fits_or)
qed

subsection \<open>The invariant of the composition\<close>

definition rx_ok :: "rx_channel \<Rightarrow> bool" where
  "rx_ok r \<longleftrightarrow>
     rx_ports r \<in> {1, 2, 4} \<and> nat (rx_payload_width r) + 3 \<le> nat (rx_storage_width r) \<and>
     publisher_ok (nat (rx_ports r)) (rx_initializer r) \<and>
     pub_channel (rx_initializer r) = rx_name r \<and>
     return_ok (rx_returns r) \<and> length (rq_queues (rx_returns r)) = nat (rx_ports r) \<and>
     rq_channel (rx_returns r) = rx_name r \<and>
     length (rx_fifos r) = nat (rx_ports r) * 5 \<and>
     (\<forall>f. Some f \<in> set (rx_fifos r) \<longrightarrow> fifo_ok f \<and> ff_width f = rx_storage_width r) \<and>
     (\<forall>g \<in> set (rq_outputs (rx_returns r)). 0 \<le> cr_port g \<and>
        bit (pub_done (rx_initializer r)) (nat (cr_port g))) \<and>
     (pub_connected_once (rx_initializer r) \<longrightarrow> credit_connected (rx_connection r) (rx_name r))"

lemma rx_okI:
  assumes "rx_ports r \<in> {1, 2, 4}" "nat (rx_payload_width r) + 3 \<le> nat (rx_storage_width r)"
    "publisher_ok (nat (rx_ports r)) (rx_initializer r)"
    "pub_channel (rx_initializer r) = rx_name r" "return_ok (rx_returns r)"
    "length (rq_queues (rx_returns r)) = nat (rx_ports r)" "rq_channel (rx_returns r) = rx_name r"
    "length (rx_fifos r) = nat (rx_ports r) * 5"
    "\<And>f. Some f \<in> set (rx_fifos r) \<Longrightarrow> fifo_ok f \<and> ff_width f = rx_storage_width r"
    "\<And>g. g \<in> set (rq_outputs (rx_returns r)) \<Longrightarrow> 0 \<le> cr_port g \<and>
       bit (pub_done (rx_initializer r)) (nat (cr_port g))"
    "pub_connected_once (rx_initializer r) \<Longrightarrow> credit_connected (rx_connection r) (rx_name r)"
  shows "rx_ok r"
  using assms unfolding rx_ok_def by blast

lemma rx_okD:
  assumes "rx_ok r"
  shows "rx_ports r \<in> {1, 2, 4}" "nat (rx_payload_width r) + 3 \<le> nat (rx_storage_width r)"
    "publisher_ok (nat (rx_ports r)) (rx_initializer r)"
    "pub_channel (rx_initializer r) = rx_name r" "return_ok (rx_returns r)"
    "length (rq_queues (rx_returns r)) = nat (rx_ports r)" "rq_channel (rx_returns r) = rx_name r"
    "length (rx_fifos r) = nat (rx_ports r) * 5"
    "Some f \<in> set (rx_fifos r) \<Longrightarrow> fifo_ok f \<and> ff_width f = rx_storage_width r"
    "g \<in> set (rq_outputs (rx_returns r)) \<Longrightarrow> 0 \<le> cr_port g \<and>
       bit (pub_done (rx_initializer r)) (nat (cr_port g))"
    "pub_connected_once (rx_initializer r) \<Longrightarrow> credit_connected (rx_connection r) (rx_name r)"
  using assms unfolding rx_ok_def by - (elim conjE, simp)+

lemma rx_outputs_ok:
  assumes "rx_ok r"
  obtains sg where "rx_outputs r = Inr sg" and "sg_done sg = pub_done (rx_initializer r)"
proof -
  have "\<not> bit (pub_done (rx_initializer r)) (nat p)" if "p \<in> cr_port ` set (pub_returns (rx_initializer r))" for p
    using that rx_okD(3) [OF assms] by (auto simp: publisher_ok_def)
  moreover have "bit (pub_done (rx_initializer r)) (nat p)" if "p \<in> cr_port ` set (rq_outputs (rx_returns r))" for p
    using that rx_okD(10) [OF assms] by auto
  ultimately have "cr_port ` set (pub_returns (rx_initializer r)) \<inter>
      cr_port ` set (rq_outputs (rx_returns r)) = {}"
    by blast
  then show ?thesis using that by (simp add: rx_outputs_def Let_def)
qed

definition rx_slot :: "int \<Rightarrow> int \<Rightarrow> nat" where
  "rx_slot port account = nat (port * 5 + account)"

definition beat_slot :: "beat \<Rightarrow> nat" where
  "beat_slot b = rx_slot (bt_port b) (if bt_pool b then 4 else bt_vc b)"

lemma slot_bound:
  "0 \<le> port \<Longrightarrow> port < n \<Longrightarrow> 0 \<le> a \<Longrightarrow> a < 5 \<Longrightarrow> rx_slot port a < nat n * 5"
  by (simp add: rx_slot_def nat_less_iff)

lemma slot_port: "0 \<le> port \<Longrightarrow> 0 \<le> a \<Longrightarrow> a < 5 \<Longrightarrow> int (rx_slot port a) div 5 = port"
  by (simp add: rx_slot_def)

lemma rx_admit_slot:
  assumes ok: "rx_ok r" and v: "rx_validate r conn incoming consumer = Inr ()"
    and a: "rx_admit r conn (pub_done (rx_initializer r)) incoming = (diag, Some slot)"
  obtains b f where "incoming = Some b" "slot = beat_slot (rb_beat b)" "legal_received r b"
    "0 \<le> bt_port (rb_beat b)" "bt_port (rb_beat b) < rx_ports r"
    "slot < length (rx_fifos r)" "rx_fifos r ! slot = Some f" "fv_ready (fifo_outputs f)"
    "fits (nat (ff_width f)) (rx_encode (rx_payload_width r) b)"
proof -
  from a obtain b f where b: "incoming = Some b" "slot = beat_slot (rb_beat b)"
      "bt_port (rb_beat b) < rx_ports r" "rx_fifos r ! slot = Some f" "fv_ready (fifo_outputs f)"
    by (auto simp: rx_admit_def beat_slot_def rx_slot_def Let_def split: option.splits if_splits)
  from v b(1) have l: "0 \<le> bt_port (rb_beat b)" "legal_received r b"
    by (auto simp: rx_validate_def legal_received_def fits_def split: prod.splits)
  have slot: "slot < length (rx_fifos r)"
    using b(2,3) l rx_okD(8) [OF ok]
    by (auto simp: beat_slot_def legal_received_def intro!: slot_bound)
  then have "ff_width f = rx_storage_width r" using rx_okD(9) [OF ok] b(4) by (metis nth_mem)
  then have "fits (nat (ff_width f)) (rx_encode (rx_payload_width r) b)"
    using l(2) rx_okD(2) [OF ok] by (auto simp: legal_received_def intro: rx_encode_fits)
  with b l slot that show ?thesis by blast
qed

lemma rx_peek_ok:
  assumes ok: "rx_ok r" and v: "rx_validate r conn incoming (Some (port, account)) = Inr ()"
  obtains received ready where "rx_peek r port account = Inr (received, ready)"
    "ready \<Longrightarrow> received \<noteq> None"
    "\<And>b. received = Some b \<Longrightarrow> 0 \<le> port \<and> port < rx_ports r \<and> 0 \<le> account \<and> account < 5 \<and>
       return_ready (rx_returns r) port = Inr ready \<and>
       (\<exists>f. rx_slot port account < length (rx_fifos r) \<and> rx_fifos r ! rx_slot port account = Some f \<and>
          fv_valid (fifo_outputs f) \<and>
          b = rx_decode (rx_payload_width r) (rx_name r) port (fv_data (fifo_outputs f)))"
proof -
  from v have sel: "0 \<le> port" "port < 4" "0 \<le> account" "account < 8"
    by (auto simp: rx_validate_def rx_select_def)
  have ready: "\<exists>x. return_ready (rx_returns r) port = Inr x"
    using sel by (simp add: return_ready_def)
  have bound: "port < rx_ports r \<Longrightarrow> account < 5 \<Longrightarrow> rx_slot port account < length (rx_fifos r)"
    using sel rx_okD(8) [OF ok] slot_bound by simp
  show ?thesis
  proof (cases "port \<ge> rx_ports r \<or> account \<ge> 5 \<or> rx_fifos r ! rx_slot port account = None \<or>
      \<not> fv_valid (fifo_outputs (the (rx_fifos r ! rx_slot port account)))")
    case True
    then have "rx_peek r port account = Inr (None, False)"
      using sel by (auto simp: rx_peek_def rx_select_def rx_slot_def split: option.splits)
    then show ?thesis by (rule that) simp_all
  next
    case False
    then obtain f x where f: "rx_fifos r ! rx_slot port account = Some f" "fv_valid (fifo_outputs f)"
      and x: "return_ready (rx_returns r) port = Inr x"
      using ready by auto
    with False sel have "rx_peek r port account =
        Inr (Some (rx_decode (rx_payload_width r) (rx_name r) port (fv_data (fifo_outputs f))), x)"
      by (simp add: rx_peek_def rx_select_def rx_slot_def)
    then show ?thesis
      by (rule that) (use False sel f x bound in auto)
  qed
qed

subsection \<open>One edge\<close>

lemma rx_validate_connected:
  assumes "rx_validate r conn incoming consumer = Inr ()"
    and "credit_connected (rx_connection r) ch"
  shows "credit_connected conn ch"
  using assms by (auto simp: rx_validate_def credit_connected_def orig_connected_def
      comp_connected_def Let_def split: if_splits)

text \<open>The FIFO loop on slots reserved before the edge.\<close>

lemma rx_fifo_loop:
  assumes ok: "\<forall>f. Some f \<in> set fifos \<longrightarrow> fifo_ok f \<and> ff_width f = w"
    and wr: "\<And>slot f. write_slot = Some slot \<Longrightarrow> fifos ! slot = Some f \<Longrightarrow>
      fv_ready (fifo_outputs f) \<and> fits (nat w) word"
    and rd: "\<And>slot f. read_slot = Some slot \<Longrightarrow> fifos ! slot = Some f \<Longrightarrow>
      fv_valid (fifo_outputs f)"
  obtains fifos' where "rmap (rx_step_fifo write_slot word read_slot) (enumerate 0 fifos) = Inr fifos'"
    and "length fifos' = length fifos"
    and "\<And>slot. slot < length fifos \<Longrightarrow> fifos ! slot = None \<Longrightarrow> fifos' ! slot = None"
    and "\<And>slot f. slot < length fifos \<Longrightarrow> fifos ! slot = Some f \<Longrightarrow>
      \<exists>f'. fifos' ! slot = Some f' \<and> fifo_ok f' \<and> ff_width f' = w \<and>
        fifo_contents f @ (if write_slot = Some slot then [word] else []) =
        (if read_slot = Some slot then [fv_data (fifo_outputs f)] else []) @ fifo_contents f'"
proof -
  have one: "\<exists>f'. rx_step_fifo write_slot word read_slot (slot, Some f) = Inr (Some f') \<and>
        fifo_ok f' \<and> ff_width f' = w \<and>
        fifo_contents f @ (if write_slot = Some slot then [word] else []) =
        (if read_slot = Some slot then [fv_data (fifo_outputs f)] else []) @ fifo_contents f'"
    if slot: "slot < length fifos" "fifos ! slot = Some f" for slot f
  proof -
    have f: "fifo_ok f" "ff_width f = w" using ok slot by (metis nth_mem)+
    let ?data = "if write_slot = Some slot then Some word else None"
    obtain f' where f': "fifo_step f ?data (read_slot = Some slot) False =
        Inr (f', ?data \<noteq> None, if read_slot = Some slot then Some (fv_data (fifo_outputs f)) else None)"
      by (rule fifo_step_reserved [OF f(1), of ?data "read_slot = Some slot"])
        (use wr rd slot(2) f(2) in \<open>auto split: if_splits\<close>)
    have "fifo_contents f @ (if write_slot = Some slot then [word] else []) =
        (if read_slot = Some slot then [fv_data (fifo_outputs f)] else []) @ fifo_contents f'"
      using fifo_step_contents(1) [OF f(1) f'] by (auto split: if_splits)
    moreover have "fifo_ok f'" using fifo_step_ok [OF f(1) f'] .
    moreover have "ff_width f' = w" using fifo_step_contents(4) [OF f(1) f'] f(2) by simp
    ultimately show ?thesis using f' by (auto simp: rx_step_fifo_def)
  qed
  have "\<exists>y. rx_step_fifo write_slot word read_slot x = Inr y" if "x \<in> set (enumerate 0 fifos)" for x
  proof -
    obtain slot fo where "x = (slot, fo)" by force
    then have x: "x = (slot, fo)" "slot < length fifos" "fifos ! slot = fo"
      using that by (simp_all add: in_set_enumerate_eq)
    show ?thesis
    proof (cases fo)
      case None
      then show ?thesis by (simp add: x rx_step_fifo_def)
    next
      case (Some f)
      then show ?thesis using one [OF x(2)] x by fastforce
    qed
  qed
  then obtain fifos' where r: "rmap (rx_step_fifo write_slot word read_slot) (enumerate 0 fifos) = Inr fifos'"
    using rmap_total [of "enumerate 0 fifos"] by blast
  note nth = rmap_nth [OF r]
  have step: "rx_step_fifo write_slot word read_slot (slot, fifos ! slot) = Inr (fifos' ! slot)"
    if "slot < length fifos" for slot
    using nth that by (simp add: nth_enumerate_eq)
  show ?thesis
  proof (rule that [OF r])
    show "length fifos' = length fifos" using nth by simp
    show "fifos' ! slot = None" if "slot < length fifos" "fifos ! slot = None" for slot
      using step [OF that(1)] that(2) by (simp add: rx_step_fifo_def)
    show "\<exists>f'. fifos' ! slot = Some f' \<and> fifo_ok f' \<and> ff_width f' = w \<and>
        fifo_contents f @ (if write_slot = Some slot then [word] else []) =
        (if read_slot = Some slot then [fv_data (fifo_outputs f)] else []) @ fifo_contents f'"
      if "slot < length fifos" "fifos ! slot = Some f" for slot f
      using one [OF that] step [OF that(1)] that(2) by auto
  qed
qed

text \<open>The contents of one account, as received beats.\<close>

definition rx_held :: "rx_channel \<Rightarrow> nat \<Rightarrow> received_beat list" where
  "rx_held r slot =
     (case rx_fifos r ! slot of
        None \<Rightarrow> []
      | Some f \<Rightarrow> map (rx_decode (rx_payload_width r) (rx_name r) (int slot div 5)) (fifo_contents f))"

definition rx_same :: "rx_channel \<Rightarrow> rx_channel \<Rightarrow> bool" where
  "rx_same r r' \<longleftrightarrow> rx_ports r' = rx_ports r \<and> rx_name r' = rx_name r \<and>
     rx_payload_width r' = rx_payload_width r \<and> rx_storage_width r' = rx_storage_width r \<and>
     length (rx_fifos r') = length (rx_fifos r)"

lemma rx_step_total:
  assumes ok: "rx_ok r" and v: "rx_validate r conn incoming consumer = Inr ()"
  obtains r' acc retired diag where
    "rx_step r conn incoming consumer consume False = Inr (r', acc, retired, diag)"
    "rx_ok r'" "rx_same r r'"
    "\<And>slot. slot < length (rx_fifos r) \<Longrightarrow>
       rx_held r slot @ (if acc \<and> beat_slot (rb_beat (the incoming)) = slot then [the incoming] else []) =
       (if retired \<noteq> None \<and> rx_slot (fst (the consumer)) (snd (the consumer)) = slot
        then [the retired] else []) @ rx_held r' slot"
    "retired \<noteq> None \<Longrightarrow> rx_slot (fst (the consumer)) (snd (the consumer)) < length (rx_fifos r)"
proof -
  let ?done = "pub_done (rx_initializer r)"
  let ?w = "rx_payload_width r"
  obtain sg where sg: "rx_outputs r = Inr sg" "sg_done sg = ?done" using rx_outputs_ok [OF ok] .
  obtain diag ws where adm: "rx_admit r conn ?done incoming = (diag, ws)" by force
  define word where "word = (case incoming of None \<Rightarrow> 0 | Some b \<Rightarrow> rx_encode ?w b)"
  obtain received ready where pk:
    "(case consumer of None \<Rightarrow> Inr (None, False) | Some (port, account) \<Rightarrow> rx_peek r port account)
       = Inr (received, ready)"
    and ready: "ready \<Longrightarrow> received \<noteq> None"
    and head: "\<And>b. received = Some b \<Longrightarrow> \<exists>port account f. consumer = Some (port, account) \<and>
       0 \<le> port \<and> port < rx_ports r \<and> 0 \<le> account \<and> account < 5 \<and>
       return_ready (rx_returns r) port = Inr ready \<and>
       rx_slot port account < length (rx_fifos r) \<and> rx_fifos r ! rx_slot port account = Some f \<and>
       fv_valid (fifo_outputs f) \<and> b = rx_decode ?w (rx_name r) port (fv_data (fifo_outputs f))"
  proof (cases consumer)
    case None
    then show ?thesis by (intro that [of None False]) simp_all
  next
    case (Some pa)
    obtain port account where pa: "consumer = Some (port, account)" using Some by (cases pa) simp
    show ?thesis
    proof (rule rx_peek_ok [OF ok v [unfolded pa]], goal_cases)
      case (1 received ready)
      show ?case by (rule that [of received ready]) (use 1 in \<open>auto simp: pa\<close>)
    qed
  qed
  define retired where "retired = (if consume \<and> ready then received else None)"
  define rs where "rs = (if retired \<noteq> None
    then Some (nat (fst (the consumer) * 5 + snd (the consumer))) else None)"
  have ret: "\<exists>port account f. consumer = Some (port, account) \<and> rs = Some (rx_slot port account) \<and>
       0 \<le> port \<and> 0 \<le> account \<and> account < 5 \<and>
       return_ready (rx_returns r) (bt_port (rb_beat b)) = Inr True \<and>
       rx_slot port account < length (rx_fifos r) \<and> rx_fifos r ! rx_slot port account = Some f \<and>
       fv_valid (fifo_outputs f) \<and> b = rx_decode ?w (rx_name r) port (fv_data (fifo_outputs f))"
    if "retired = Some b" for b
    using that head [of b] by (auto simp: retired_def rs_def rx_slot_def rx_decode_def Let_def split: if_splits)
  have conn: "pub_connected_once (rx_initializer r) \<Longrightarrow> credit_connected conn (rx_name r)"
    using rx_validate_connected [OF v] rx_okD(11) [OF ok] by blast
  obtain p' pout pd where p': "publisher_step (rx_initializer r) conn False = Inr (p', pout, pd)"
    using publisher_step_total [of "rx_initializer r" conn] conn rx_okD(4) [OF ok] by auto
  note pub = publisher_step_ok [OF rx_okD(3) [OF ok] p']
  let ?m = "if credit_connected conn (rx_name r) then ?done else 0"
  have m: "0 \<le> ?m" "?m < 16"
    using rx_okD(1,3) [OF ok] by (auto simp: publisher_ok_def)
  obtain q' gs where q': "return_step (rx_returns r) (map_option rb_beat retired) ?m False =
      Inr (q', retired \<noteq> None, gs)"
  proof (rule return_step_reserved [OF m, of "map_option rb_beat retired" "rx_returns r"])
    fix b assume "map_option rb_beat retired = Some b"
    then obtain rb where rb: "retired = Some rb" "b = rb_beat rb" by auto
    show "bt_channel b = rq_channel (rx_returns r) \<and> 0 \<le> bt_vc b \<and> bt_vc b < 4 \<and>
        return_ready (rx_returns r) (bt_port b) = Inr True"
      using ret [OF rb(1)] rx_okD(7) [OF ok] fld_range(1) [of _ _ 2] fld_range(2) [of _ _ 2]
      by (auto simp: rb(2) rx_decode_def Let_def)
  next
    fix q' gs assume "return_step (rx_returns r) (map_option rb_beat retired) ?m False =
      Inr (q', map_option rb_beat retired \<noteq> None, gs)"
    then show thesis using that by (cases retired) simp_all
  qed
  note qe = return_step_edge [OF q' rx_okD(5) [OF ok]]
  obtain fifos' where f': "rmap (rx_step_fifo ws word rs) (enumerate 0 (rx_fifos r)) = Inr fifos'"
    and len: "length fifos' = length (rx_fifos r)"
    and none: "\<And>slot. slot < length (rx_fifos r) \<Longrightarrow> rx_fifos r ! slot = None \<Longrightarrow> fifos' ! slot = None"
    and some: "\<And>slot f. slot < length (rx_fifos r) \<Longrightarrow> rx_fifos r ! slot = Some f \<Longrightarrow>
      \<exists>f'. fifos' ! slot = Some f' \<and> fifo_ok f' \<and> ff_width f' = rx_storage_width r \<and>
        fifo_contents f @ (if ws = Some slot then [word] else []) =
        (if rs = Some slot then [fv_data (fifo_outputs f)] else []) @ fifo_contents f'"
  proof (rule rx_fifo_loop [of "rx_fifos r" "rx_storage_width r" ws word rs])
    show "\<forall>f. Some f \<in> set (rx_fifos r) \<longrightarrow> fifo_ok f \<and> ff_width f = rx_storage_width r"
      using rx_okD(9) [OF ok] by blast
  next
    fix slot f assume s: "ws = Some slot" "rx_fifos r ! slot = Some f"
    show "fv_ready (fifo_outputs f) \<and> fits (nat (rx_storage_width r)) word"
    proof (rule rx_admit_slot [OF ok v adm [unfolded s(1)]])
      fix b f1 assume a: "incoming = Some b" "slot < length (rx_fifos r)" "rx_fifos r ! slot = Some f1"
        "fv_ready (fifo_outputs f1)" "fits (nat (ff_width f1)) (rx_encode ?w b)"
      then have "ff_width f1 = rx_storage_width r" using rx_okD(9) [OF ok] by (metis nth_mem)
      with a s(2) show ?thesis by (simp add: word_def)
    qed
  next
    fix slot f assume "rs = Some slot" "rx_fifos r ! slot = Some f"
    then show "fv_valid (fifo_outputs f)"
      using ret by (cases retired) (auto simp: rs_def)
  qed (rule that)
  define r' where "r' = r\<lparr>rx_initializer := p', rx_returns := q', rx_fifos := fifos', rx_connection := conn\<rparr>"
  have st: "rx_step r conn incoming consumer consume False = Inr (r', ws \<noteq> None, retired, diag)"
    by (simp only: rx_step_def if_False v sg rbind_Inr Let_def adm prod.case pk
        word_def [symmetric] retired_def [symmetric] rs_def [symmetric] p' q' f' r'_def simp_thms)
  have "\<exists>slot. slot < length (rx_fifos r) \<and> rx_fifos r ! slot \<noteq> None \<and> fifos' ! slot = Some f"
    if "Some f \<in> set fifos'" for f
    using that none len by (metis in_set_conv_nth option.distinct(1))
  then have ff: "\<forall>f. Some f \<in> set fifos' \<longrightarrow> fifo_ok f \<and> ff_width f = rx_storage_width r"
    using some by fastforce
  have out: "\<forall>g \<in> set (rq_outputs q'). 0 \<le> cr_port g \<and> bit (pub_done p') (nat (cr_port g))"
    using qe(4,9) pub(3) by (auto split: if_splits)
  have ok': "rx_ok r'"
    using rx_okD(1,2,4,6,7,8,11) [OF ok] pub qe(1,6,8) len ff out conn
    by (intro rx_okI) (auto simp: r'_def)
  have flow: "rx_held r slot @
        (if ws \<noteq> None \<and> beat_slot (rb_beat (the incoming)) = slot then [the incoming] else []) =
      (if retired \<noteq> None \<and> rx_slot (fst (the consumer)) (snd (the consumer)) = slot
       then [the retired] else []) @ rx_held r' slot"
    if slot: "slot < length (rx_fifos r)" for slot
  proof -
    let ?d = "rx_decode ?w (rx_name r) (int slot div 5)"
    have wr: "ws = Some slot \<longleftrightarrow> ws \<noteq> None \<and> beat_slot (rb_beat (the incoming)) = slot"
    proof (cases ws)
      case (Some s)
      then show ?thesis by (rule_tac rx_admit_slot [OF ok v adm [unfolded Some]]) auto
    qed simp
    have wd: "?d word = the incoming" if "ws = Some slot"
    proof (rule rx_admit_slot [OF ok v adm [unfolded that]])
      fix b assume b: "incoming = Some b" "slot = beat_slot (rb_beat b)" "legal_received r b"
        "0 \<le> bt_port (rb_beat b)"
      then have "int slot div 5 = bt_port (rb_beat b)"
        by (auto simp: beat_slot_def legal_received_def intro!: slot_port)
      moreover have "rx_decode ?w (bt_channel (rb_beat b)) (bt_port (rb_beat b)) (rx_encode ?w b) = b"
        using b(3) by (intro rx_decode_encode) (simp_all add: legal_received_def)
      ultimately show ?thesis using b(1,3) by (simp add: word_def legal_received_def)
    qed
    have rd: "rs = Some slot \<longleftrightarrow> retired \<noteq> None \<and> rx_slot (fst (the consumer)) (snd (the consumer)) = slot"
      by (auto simp: rs_def rx_slot_def)
    have rdd: "?d (fv_data (fifo_outputs f)) = the retired"
      if rsl: "rs = Some slot" "rx_fifos r ! slot = Some f" for f
    proof -
      obtain b where b: "retired = Some b" using rsl(1) by (cases retired) (auto simp: rs_def)
      from ret [OF b] rsl show ?thesis by (auto simp: b slot_port)
    qed
    show ?thesis
    proof (cases "rx_fifos r ! slot")
      case None
      have "ws \<noteq> Some slot" using rx_admit_slot [OF ok v] adm None by fastforce
      moreover have "rs \<noteq> Some slot" using ret None by (cases retired) (auto simp: rs_def)
      ultimately show ?thesis using wr rd none [OF slot None] None
        by (simp add: rx_held_def r'_def)
    next
      case (Some f)
      from some [OF slot this] obtain f1 where f1: "fifos' ! slot = Some f1"
        and c: "fifo_contents f @ (if ws = Some slot then [word] else []) =
          (if rs = Some slot then [fv_data (fifo_outputs f)] else []) @ fifo_contents f1" by blast
      show ?thesis unfolding wr [symmetric] rd [symmetric]
        using arg_cong [OF c, of "map ?d"] Some f1 wd rdd [OF _ Some]
        by (simp add: rx_held_def r'_def split: if_splits)
    qed
  qed
  have "rx_same r r'" by (simp add: rx_same_def r'_def len)
  moreover have "rx_slot (fst (the consumer)) (snd (the consumer)) < length (rx_fifos r)"
    if "retired \<noteq> None"
    using ret that by auto
  ultimately show ?thesis using that [OF st ok'] flow by blast
qed

lemma rx_step_validated:
  "rx_step r conn incoming consumer consume False = Inr res \<Longrightarrow>
     rx_validate r conn incoming consumer = Inr ()"
  by (auto simp: rx_step_def)

lemma rx_step_edge:
  assumes "rx_ok r" and "rx_step r conn incoming consumer consume False = Inr (r', acc, retired, diag)"
  shows "rx_ok r'" and "rx_same r r'"
    and "retired \<noteq> None \<Longrightarrow> rx_slot (fst (the consumer)) (snd (the consumer)) < length (rx_fifos r)"
    and "slot < length (rx_fifos r) \<Longrightarrow>
       rx_held r slot @ (if acc \<and> beat_slot (rb_beat (the incoming)) = slot then [the incoming] else []) =
       (if retired \<noteq> None \<and> rx_slot (fst (the consumer)) (snd (the consumer)) = slot
        then [the retired] else []) @ rx_held r' slot"
proof -
  obtain r1 acc1 ret1 diag1 where
    "rx_step r conn incoming consumer consume False = Inr (r1, acc1, ret1, diag1)"
    "rx_ok r1" "rx_same r r1"
    and "ret1 \<noteq> None \<Longrightarrow> rx_slot (fst (the consumer)) (snd (the consumer)) < length (rx_fifos r)"
    and flow: "\<And>slot. slot < length (rx_fifos r) \<Longrightarrow>
       rx_held r slot @ (if acc1 \<and> beat_slot (rb_beat (the incoming)) = slot then [the incoming] else []) =
       (if ret1 \<noteq> None \<and> rx_slot (fst (the consumer)) (snd (the consumer)) = slot
        then [the ret1] else []) @ rx_held r1 slot"
    by (rule rx_step_total [OF assms(1) rx_step_validated [OF assms(2)], of consume]) blast
  moreover from this(1) assms(2) have "r1 = r'" "acc1 = acc" "ret1 = retired" by simp_all
  ultimately show "rx_ok r'" and "rx_same r r'"
    and "retired \<noteq> None \<Longrightarrow> rx_slot (fst (the consumer)) (snd (the consumer)) < length (rx_fifos r)"
    and "slot < length (rx_fifos r) \<Longrightarrow>
       rx_held r slot @ (if acc \<and> beat_slot (rb_beat (the incoming)) = slot then [the incoming] else []) =
       (if retired \<noteq> None \<and> rx_slot (fst (the consumer)) (snd (the consumer)) = slot
        then [the retired] else []) @ rx_held r' slot"
    by simp_all
qed

lemma rx_validate_error: "rx_validate r conn incoming consumer = Inl e \<Longrightarrow> e = ValueError"
  by (auto simp: rx_validate_def rx_select_def ensure_def rbind_eq_Inl Let_def
      split: option.splits prod.splits if_splits)

lemma rx_step_no_assertion:
  assumes "rx_ok r"
  shows "rx_step r conn incoming consumer consume False \<noteq> Inl AssertionError"
proof (cases "rx_validate r conn incoming consumer")
  case (Inl e)
  then have "rx_step r conn incoming consumer consume False = Inl e" by (simp add: rx_step_def)
  then show ?thesis using rx_validate_error [OF Inl] by simp
next
  case (Inr u)
  then have "rx_validate r conn incoming consumer = Inr ()" by simp
  then obtain res where "rx_step r conn incoming consumer consume False = Inr res"
    using rx_step_total [OF assms, of conn incoming consumer consume] by metis
  then show ?thesis by simp
qed

lemma rx_reset_ok:
  assumes ok: "rx_ok r" and st: "rx_step r conn incoming consumer consume True = Inr (r', out)"
  shows "rx_ok r'"
proof -
  obtain p pr pd where p: "publisher_step (rx_initializer r) no_signals True = Inr (p, pr, pd)"
    by (simp add: publisher_step_def)
  obtain q qa qg where q: "return_step (rx_returns r) None 0 True = Inr (q, qa, qg)"
    by (auto simp: return_step_def)
  from st obtain fifos where f: "rmap rx_reset_fifo (rx_fifos r) = Inr fifos"
    and r': "r' = r\<lparr>rx_initializer := p, rx_returns := q, rx_fifos := fifos, rx_connection := no_signals\<rparr>"
    by (auto simp: rx_step_def p q)
  note nth = rmap_nth [OF f]
  have "fifo_ok g \<and> ff_width g = rx_storage_width r" if g: "Some g \<in> set fifos" for g
  proof -
    obtain i where i: "i < length (rx_fifos r)" "fifos ! i = Some g"
      using g nth by (auto simp: in_set_conv_nth)
    then have "rx_reset_fifo (rx_fifos r ! i) = Inr (Some g)" using nth by simp
    then obtain h where h: "rx_fifos r ! i = Some h"
      "g = h\<lparr>ff_unread := [], ff_visible := [], ff_pending := None\<rparr>"
      by (cases "rx_fifos r ! i") (auto simp: rx_reset_fifo_def fifo_step_def)
    then have "fifo_ok h \<and> ff_width h = rx_storage_width r" using rx_okD(9) [OF ok] i by (metis nth_mem)
    then show ?thesis by (auto simp: h(2) fifo_ok_def fifo_contents_def)
  qed
  moreover have "return_ok q" using q rx_okD(5) [OF ok]
    by (auto simp: return_reset return_ok_def home_beats_def list_all_iff)
  moreover have "rq_outputs q = []" "rq_channel q = rx_name r" "length (rq_queues q) = nat (rx_ports r)"
    using q rx_okD(6,7) [OF ok] by (simp_all add: return_reset)
  ultimately show ?thesis
    using publisher_reset_ok [OF rx_okD(3) [OF ok] p] nth rx_okD(1,2,4,8) [OF ok]
    by (intro rx_okI) (auto simp: r')
qed

lemma rx_init_ok:
  assumes "rx_init caps n pw cw rd ch = Inr r"
  shows "rx_ok r"
proof -
  from assms obtain p q fifos where pw: "1 \<le> pw"
    and p: "publisher_init caps n cw ch = Inr p" and q: "return_init n rd ch = Inr q"
    and f: "rmap (rx_new_fifo (rx_storage pw)) caps = Inr fifos"
    and r: "r = \<lparr>rx_initializer = p, rx_returns = q, rx_ports = n, rx_name = ch,
      rx_payload_width = pw, rx_storage_width = rx_storage pw, rx_fifos = fifos,
      rx_connection = no_signals\<rparr>"
    by (auto simp: rx_init_def Let_def split: if_splits)
  note nth = rmap_nth [OF f]
  have "fifo_ok g \<and> ff_width g = rx_storage pw" if g: "Some g \<in> set fifos" for g
  proof -
    obtain i where "i < length fifos" "fifos ! i = Some g"
      using g by (auto simp: in_set_conv_nth)
    then have "rx_new_fifo (rx_storage pw) (caps ! i) = Inr (Some g)" using nth by simp
    then have "fifo_init (caps ! i) (rx_storage pw) = Inr g"
      by (auto simp: rx_new_fifo_def split: if_splits)
    then show ?thesis by (auto simp: fifo_init_def fifo_ok_def fifo_contents_def split: if_splits)
  qed
  moreover have "nat pw + 3 \<le> nat (rx_storage pw)" using pw unfolding rx_storage_def by linarith
  moreover have "n \<in> {1, 2, 4}" "pub_channel p = ch" "\<not> pub_connected_once p"
    "length caps = nat n * 5"
    using p by (auto simp: publisher_init_def split: if_splits)
  moreover have "length (rq_queues q) = nat n" "rq_channel q = ch" "rq_outputs q = []"
    using q by (auto simp: return_init_def split: if_splits)
  ultimately show ?thesis
    using publisher_init_ok [OF p] return_init_ok [OF q] nth
    by (intro rx_okI) (auto simp: r)
qed

text \<open>Any edge, the reset edge included.\<close>

definition rx_edge ::
  "rx_channel \<Rightarrow> rx_input \<times> bool \<Rightarrow> py_error + rx_channel \<times> bool \<times> received_beat option \<times> int" where
  "rx_edge r = (\<lambda>(i, reset). rx_step r (xi_conn i) (xi_incoming i) (xi_consumer i) (xi_consume i) reset)"

interpretation rx_machine: machine rx_edge rx_ok
proof unfold_locales
  fix r x r' out assume ok: "rx_ok r" and t: "rx_edge r x = Inr (r', out)"
  obtain i reset where x: "x = (i, reset)" by force
  obtain acc ret diag where out: "out = (acc, ret, diag)" by (metis prod_cases3)
  show "rx_ok r'"
  proof (cases reset)
    case True
    then show ?thesis using t rx_reset_ok [OF ok] by (simp add: rx_edge_def x)
  next
    case False
    then show ?thesis using t rx_step_edge(1) [OF ok] by (simp add: rx_edge_def x out)
  qed
qed

subsection \<open>Beats of one account flow in order\<close>

definition rx_inv :: "nat \<Rightarrow> rx_channel \<Rightarrow> bool" where
  "rx_inv slot r \<longleftrightarrow> rx_ok r \<and> slot < length (rx_fifos r) \<and>
     (\<forall>s < length (rx_fifos r). \<forall>b \<in> set (rx_held r s). beat_slot (rb_beat b) = s)"

definition rx_taken :: "nat \<Rightarrow> rx_input \<Rightarrow> bool \<times> received_beat option \<times> int \<Rightarrow> received_beat list" where
  "rx_taken slot i out =
     (if fst out \<and> beat_slot (rb_beat (the (xi_incoming i))) = slot then [the (xi_incoming i)] else [])"

definition rx_given :: "nat \<Rightarrow> bool \<times> received_beat option \<times> int \<Rightarrow> received_beat list" where
  "rx_given slot out =
     (case fst (snd out) of None \<Rightarrow> []
      | Some b \<Rightarrow> if beat_slot (rb_beat b) = slot then [b] else [])"

lemma rx_step_home:
  assumes "rx_step r conn incoming consumer consume False = Inr (r', acc, retired, diag)"
    and "rx_ok r" and home: "\<forall>s < length (rx_fifos r). \<forall>b \<in> set (rx_held r s). beat_slot (rb_beat b) = s"
  shows "\<forall>s < length (rx_fifos r'). \<forall>b \<in> set (rx_held r' s). beat_slot (rb_beat b) = s"
    and "retired \<noteq> None \<Longrightarrow>
      beat_slot (rb_beat (the retired)) = rx_slot (fst (the consumer)) (snd (the consumer))"
proof -
  note edge = rx_step_edge [OF assms(2,1)]
  have len: "length (rx_fifos r') = length (rx_fifos r)" using edge(2) by (simp add: rx_same_def)
  have sets: "set (if retired \<noteq> None \<and> rx_slot (fst (the consumer)) (snd (the consumer)) = s
        then [the retired] else []) \<union> set (rx_held r' s) =
      set (rx_held r s) \<union> set (if acc \<and> beat_slot (rb_beat (the incoming)) = s then [the incoming] else [])"
    if "s < length (rx_fifos r)" for s
    using arg_cong [OF edge(4) [OF that], of set] by simp
  then have all: "beat_slot (rb_beat b) = s"
    if "s < length (rx_fifos r)" "b \<in> set (if retired \<noteq> None \<and>
        rx_slot (fst (the consumer)) (snd (the consumer)) = s then [the retired] else []) \<union> set (rx_held r' s)"
    for s b
    using that home by (auto split: if_splits)
  then show "\<forall>s < length (rx_fifos r'). \<forall>b \<in> set (rx_held r' s). beat_slot (rb_beat b) = s"
    using len by simp
  show "beat_slot (rb_beat (the retired)) = rx_slot (fst (the consumer)) (snd (the consumer))"
    if "retired \<noteq> None"
    using all [OF edge(3) [OF that]] that by simp
qed

interpretation rx_channel: flow rx_tick "rx_inv slot" "\<lambda>r. rx_held r slot" "rx_taken slot"
  "rx_given slot" for slot
proof unfold_locales
  fix r i r' out assume inv: "rx_inv slot r" and t: "rx_tick r i = Inr (r', out)"
  obtain acc retired diag where out: "out = (acc, retired, diag)" by (metis prod_cases3)
  have st: "rx_step r (xi_conn i) (xi_incoming i) (xi_consumer i) (xi_consume i) False =
      Inr (r', acc, retired, diag)"
    using t by (simp add: rx_tick_def out)
  have ok: "rx_ok r" "slot < length (rx_fifos r)"
    and home: "\<forall>s < length (rx_fifos r). \<forall>b \<in> set (rx_held r s). beat_slot (rb_beat b) = s"
    using inv by (simp_all add: rx_inv_def)
  note edge = rx_step_edge [OF ok(1) st] and homes = rx_step_home [OF st ok(1) home]
  show "rx_inv slot r'" using edge(1,2) homes(1) ok(2) by (simp add: rx_inv_def rx_same_def)
  show "rx_held r slot @ rx_taken slot i out = rx_given slot out @ rx_held r' slot"
    using edge(4) [OF ok(2)] homes(2)
    by (cases retired) (auto simp: rx_taken_def rx_given_def out)
qed

lemma rx_init_inv:
  assumes "rx_init caps n pw cw rd ch = Inr r" and "slot < length (rx_fifos r)"
  shows "rx_inv slot r \<and> rx_held r slot = []"
proof -
  have "rx_held r s = []" if s: "s < length (rx_fifos r)" for s
  proof -
    from assms(1) obtain fifos where f: "rmap (rx_new_fifo (rx_storage pw)) caps = Inr fifos"
      and r: "rx_fifos r = fifos"
      by (auto simp: rx_init_def Let_def split: if_splits)
    have "rx_new_fifo (rx_storage pw) (caps ! s) = Inr (rx_fifos r ! s)"
      using rmap_nth [OF f] s by (simp add: r)
    then show ?thesis
      by (auto simp: rx_held_def rx_new_fifo_def dest: fifo_init_ok split: if_splits option.splits)
  qed
  with assms(2) rx_init_ok [OF assms(1)] show ?thesis by (simp add: rx_inv_def)
qed

end
