(* ===== verification/Upli_Receipt.thy ===== *)
theory Upli_Receipt
  imports Upli_Credit
begin

section \<open>Receiver ownership of beats and credit playback\<close>

text \<open>
  Models \<open>simulator/UAlink2.0/model/ualink/upli_receipt.py\<close>. A \<open>Receipt\<close> is compared by object
  identity (\<open>eq=False\<close>): the model gives every receipt the number of its allocation, a counter that a
  reset does not rewind, so an old token is never equal to a new one. The dictionary \<open>_records\<close> is
  an association list from receipts to the retired flag, in the order of insertion. An edge is three
  loops over the pre-edge records: return batches, retirements, received beats. The lemmas show that
  occupancy stays within the capacities, that every token is returned at most once, and that the
  credits of a grant are exactly the buffers released.
\<close>

record receipt =
  rc_id :: nat
  rc_beat :: beat

record receipts =
  rs_ports :: int
  rs_capacities :: "(account \<times> int) list"
  rs_records :: "(receipt \<times> bool) list"
  rs_next :: nat

definition receipts_init :: "(account \<times> int) list \<Rightarrow> int \<Rightarrow> py_error + receipts" where
  "receipts_init capacities num_ports =
     (if num_ports \<notin> {1, 2, 4} then Inl ValueError
      else let caps = dict_of capacities in
        rbind (rmap (\<lambda>(a, c). rbind (check_account num_ports a) (\<lambda>_. ensure (0 \<le> c))) caps) (\<lambda>_.
          Inr \<lparr>rs_ports = num_ports, rs_capacities = caps, rs_records = [], rs_next = 0\<rparr>))"

definition receipt_account :: "int \<Rightarrow> beat \<Rightarrow> py_error + account" where
  "receipt_account n b =
     rbind (check_vc (bt_vc b)) (\<lambda>_.
       let a = Account (bt_port b) (bt_channel b) (if bt_pool b then None else Some (bt_vc b))
       in rbind (check_account n a) (\<lambda>_. Inr a))"

definition require_owned :: "(receipt \<times> bool) list \<Rightarrow> receipt \<Rightarrow> py_error + bool" where
  "require_owned records token =
     (case map_of records token of None \<Rightarrow> Inl ValueError | Some retired \<Rightarrow> Inr retired)"

definition receipt_occupancy :: "receipts \<Rightarrow> account \<Rightarrow> py_error + int" where
  "receipt_occupancy R a =
     rbind (check_account (rs_ports R) a) (\<lambda>_.
       Inr (int (length (filter (\<lambda>(token, _).
          receipt_account (rs_ports R) (rc_beat token) = Inr a) (rs_records R)))))"

definition receipt_returnable :: "receipts \<Rightarrow> receipt list" where
  "receipt_returnable R = map fst (filter snd (rs_records R))"

definition claim_token ::
  "(receipt \<times> bool) list \<Rightarrow> receipt set \<Rightarrow> receipt \<Rightarrow> py_error + receipt set" where
  "claim_token old returned token =
     rbind (require_owned old token) (\<lambda>retired.
       if token \<in> returned \<or> \<not> retired then Inl ValueError else Inr (insert token returned))"

type_synonym batch_state =
  "(receipt \<times> bool) list \<times> receipt set \<times> slot set \<times> credit_return list"

definition return_batch ::
  "(receipt \<times> bool) list \<Rightarrow> conn_signals \<Rightarrow> batch_state \<Rightarrow> receipt list \<Rightarrow>
   py_error + batch_state" where
  "return_batch old conn = (\<lambda>(records, returned, slots, grants) members.
     if \<not> (1 \<le> length members \<and> length members \<le> 4) then Inl ValueError
     else rbind (rfold (claim_token old) returned members) (\<lambda>returned'.
       let b = rc_beat (hd members) in
       if \<exists>token \<in> set members. rc_beat token \<noteq> b then Inl ValueError
       else if (bt_port b, bt_channel b) \<in> slots then Inl ValueError
       else if \<not> credit_connected conn (bt_channel b) then Inl ValueError
       else Inr (fold AList.delete members records, returned',
                 insert (bt_port b, bt_channel b) slots,
                 grants @ [\<lparr>cr_port = bt_port b, cr_channel = bt_channel b, cr_vc = bt_vc b,
                            cr_pool = bt_pool b, cr_count = int (length members) - 1,
                            cr_valid = True\<rparr>])))"

definition retire_token ::
  "(receipt \<times> bool) list \<Rightarrow> (receipt \<times> bool) list \<times> receipt set \<Rightarrow> receipt \<Rightarrow>
   py_error + (receipt \<times> bool) list \<times> receipt set" where
  "retire_token old = (\<lambda>(records, retired) token.
     rbind (require_owned old token) (\<lambda>was_retired.
       if token \<in> retired \<or> was_retired then Inl ValueError
       else Inr (AList.update token True records, insert token retired)))"

type_synonym receive_state =
  "(receipt \<times> bool) list \<times> channel set \<times> receipt list \<times> nat"

definition receive_beat ::
  "receipts \<Rightarrow> conn_signals \<Rightarrow> receive_state \<Rightarrow> beat \<Rightarrow> py_error + receive_state" where
  "receive_beat R conn = (\<lambda>(records, seen, new, next) b.
     rbind (receipt_account (rs_ports R) b) (\<lambda>a.
       if bt_channel b \<in> seen then Inl ValueError
       else if \<not> beats_enabled conn then Inl ValueError
       else rbind (receipt_occupancy R a) (\<lambda>held.
         if held \<ge> dget (rs_capacities R) a 0 then Inl ValueError
         else let token = \<lparr>rc_id = next, rc_beat = b\<rparr>
              in Inr (AList.update token False records, insert (bt_channel b) seen,
                      new @ [token], Suc next))))"

definition receipts_step ::
  "receipts \<Rightarrow> conn_signals \<Rightarrow> beat list \<Rightarrow> receipt list \<Rightarrow> receipt list list \<Rightarrow> bool \<Rightarrow>
   py_error + receipts \<times> receipt list \<times> credit_return list" where
  "receipts_step R conn beats retire batches reset =
     (if reset then Inr (R\<lparr>rs_records := []\<rparr>, [], [])
      else
        rbind (rfold (return_batch (rs_records R) conn) (rs_records R, {}, {}, []) batches)
          (\<lambda>(records1, _, _, grants).
        rbind (rfold (retire_token (rs_records R)) (records1, {}) retire) (\<lambda>(records2, _).
        rbind (rfold (receive_beat R conn) (records2, {}, [], rs_next R) beats)
          (\<lambda>(records3, _, new, next).
            Inr (R\<lparr>rs_records := records3, rs_next := next\<rparr>, new, grants)))))"

record receipts_input =
  ri_conn :: conn_signals
  ri_beats :: "beat list"
  ri_retire :: "receipt list"
  ri_batches :: "receipt list list"
  ri_reset :: bool

definition receipts_tick ::
  "receipts \<Rightarrow> receipts_input \<Rightarrow> py_error + receipts \<times> receipt list \<times> credit_return list" where
  "receipts_tick R i =
     receipts_step R (ri_conn i) (ri_beats i) (ri_retire i) (ri_batches i) (ri_reset i)"

subsection \<open>Occupied buffers\<close>

definition held :: "account \<Rightarrow> (receipt \<times> bool) list \<Rightarrow> int" where
  "held a records = int (length (filter (\<lambda>(token, _). beat_account (rc_beat token) = a) records))"

definition receipts_ok :: "receipts \<Rightarrow> bool" where
  "receipts_ok R \<longleftrightarrow>
     distinct (map fst (rs_records R)) \<and>
     (\<forall>(token, _) \<in> set (rs_records R). rc_id token < rs_next R \<and> legal_beat (rs_ports R) (rc_beat token)) \<and>
     (\<forall>a. held a (rs_records R) \<le> dget (rs_capacities R) a 0)"

lemma receipt_account_Inr [simp]:
  "receipt_account n b = Inr a \<longleftrightarrow> legal_beat n b \<and> a = beat_account b"
  by (auto simp: receipt_account_def legal_beat_def beat_account_def check_account_def slot_of_def
      check_vc_def Let_def)

lemma receipt_occupancy_held:
  "\<forall>(token, _) \<in> set (rs_records R). legal_beat (rs_ports R) (rc_beat token) \<Longrightarrow>
     receipt_occupancy R a = Inr n \<Longrightarrow> n = held a (rs_records R)"
  by (auto simp: receipt_occupancy_def held_def intro!: arg_cong [where f = length] filter_cong)

lemma held_Nil [simp]: "held a [] = 0"
  by (simp add: held_def)

lemma held_Cons: "held a (r # rs) = (if beat_account (rc_beat (fst r)) = a then 1 else 0) + held a rs"
  by (simp add: held_def split: prod.splits)

lemma held_update_new:
  "token \<notin> fst ` set records \<Longrightarrow>
     held a (AList.update token v records) =
       held a records + (if beat_account (rc_beat token) = a then 1 else 0)"
  by (induction records) (auto simp: held_Cons)

lemma held_update_old:
  "token \<in> fst ` set records \<Longrightarrow> held a (AList.update token v records) = held a records"
  by (induction records) (auto simp: held_Cons)

lemma held_delete:
  "distinct (map fst records) \<Longrightarrow> token \<in> fst ` set records \<Longrightarrow>
     held a (AList.delete token records) =
       held a records - (if beat_account (rc_beat token) = a then 1 else 0)"
proof (induction records)
  case Nil
  then show ?case by simp
next
  case (Cons r rs)
  show ?case
  proof (cases "fst r = token")
    case True
    with Cons.prems have "AList.delete token rs = rs"
      by (auto intro: delete_idem)
    with True show ?thesis by (cases r) (simp add: held_Cons)
  next
    case False
    with Cons show ?thesis by (cases r) (simp add: held_Cons)
  qed
qed

subsection \<open>The three loops\<close>

lemma claim_tokens:
  "rfold (claim_token old) returned ms = Inr returned' \<Longrightarrow>
     distinct ms \<and> set ms \<inter> returned = {} \<and> returned' = returned \<union> set ms \<and>
     (\<forall>token \<in> set ms. map_of old token = Some True)"
proof (induction ms arbitrary: returned)
  case Nil
  then show ?case by simp
next
  case (Cons m ms)
  from Cons.prems obtain r1 where r1: "claim_token old returned m = Inr r1"
    and r: "rfold (claim_token old) r1 ms = Inr returned'" by auto
  from r1 have "r1 = insert m returned" "m \<notin> returned" "map_of old m = Some True"
    by (auto simp: claim_token_def require_owned_def split: option.splits if_splits)
  with Cons.IH [OF r] show ?case by auto
qed

lemma held_deletes:
  "distinct (map fst records) \<Longrightarrow> distinct ms \<Longrightarrow> set ms \<subseteq> fst ` set records \<Longrightarrow>
     held a (fold AList.delete ms records) =
       held a records - (\<Sum>m\<leftarrow>ms. if beat_account (rc_beat m) = a then 1 else 0)"
proof (induction ms arbitrary: records)
  case Nil
  then show ?case by simp
next
  case (Cons m ms)
  have "held a (fold AList.delete ms (AList.delete m records)) =
      held a (AList.delete m records) - (\<Sum>m\<leftarrow>ms. if beat_account (rc_beat m) = a then 1 else 0)"
    using Cons.prems by (intro Cons.IH) (auto simp: distinct_delete delete_keys)
  with Cons.prems held_delete [of records m a] show ?case by simp
qed

lemma deletes_keys:
  "distinct (map fst records) \<Longrightarrow>
     distinct (map fst (fold AList.delete ms records)) \<and>
     fst ` set (fold AList.delete ms records) = fst ` set records - set ms \<and>
     set (fold AList.delete ms records) \<subseteq> set records"
proof (induction ms arbitrary: records)
  case Nil
  then show ?case by simp
next
  case (Cons m ms)
  from Cons.prems have "distinct (map fst (AList.delete m records))" by (rule distinct_delete)
  from Cons.IH [OF this] show ?case
    by (auto simp: AList.delete_eq delete_keys)
qed

definition batch_inv ::
  "(receipt \<times> bool) list \<Rightarrow> batch_state \<Rightarrow> receipt list \<Rightarrow> bool" where
  "batch_inv old st done = (case st of (records, returned, slots, grants) \<Rightarrow>
     distinct (map fst records) \<and> set records \<subseteq> set old \<and> distinct done \<and> returned = set done \<and>
     fst ` set records = fst ` set old - set done \<and> set done \<subseteq> fst ` set old \<and>
     (\<forall>token \<in> set done. map_of old token = Some True) \<and>
     (\<forall>g \<in> set grants. cr_valid g \<and> 0 \<le> cr_count g \<and> cr_count g \<le> 3) \<and>
     (\<forall>a. held a records = held a old - granted_to a grants))"

lemma granted_to_append [simp]: "granted_to a (xs @ ys) = granted_to a xs + granted_to a ys"
  by (simp add: granted_to_def)

lemma sum_same:
  "(\<forall>m \<in> set ms. rc_beat m = b) \<Longrightarrow>
     (\<Sum>m\<leftarrow>ms. if beat_account (rc_beat m) = a then (1::int) else 0) =
       (if beat_account b = a then int (length ms) else 0)"
  by (induction ms) auto

lemma batch_step:
  assumes "batch_inv old st done" and "return_batch old conn st ms = Inr st'"
  shows "batch_inv old st' (done @ ms)"
proof -
  obtain records returned slots grants where st: "st = (records, returned, slots, grants)"
    by (metis prod_cases4)
  define b where "b = rc_beat (hd ms)"
  define g where "g = \<lparr>cr_port = bt_port b, cr_channel = bt_channel b, cr_vc = bt_vc b,
    cr_pool = bt_pool b, cr_count = int (length ms) - 1, cr_valid = True\<rparr>"
  from assms(2) obtain returned' where cl: "rfold (claim_token old) returned ms = Inr returned'"
    and len: "1 \<le> length ms" "length ms \<le> 4" and same: "\<forall>m \<in> set ms. rc_beat m = b"
    and st': "st' = (fold AList.delete ms records, returned',
      insert (bt_port b, bt_channel b) slots, grants @ [g])"
    by (auto simp: return_batch_def st b_def g_def Let_def split: if_splits)
  note claim = claim_tokens [OF cl]
  from assms(1) have I: "distinct (map fst records)" "set records \<subseteq> set old" "distinct done"
    "returned = set done" "fst ` set records = fst ` set old - set done"
    "set done \<subseteq> fst ` set old" "\<forall>token \<in> set done. map_of old token = Some True"
    "\<forall>g \<in> set grants. cr_valid g \<and> 0 \<le> cr_count g \<and> cr_count g \<le> 3"
    "\<forall>a. held a records = held a old - granted_to a grants"
    unfolding batch_inv_def st prod.case by - (elim conjE, assumption)+
  have known: "set ms \<subseteq> fst ` set old"
  proof
    fix t assume "t \<in> set ms"
    then have "map_of old t = Some True" using claim by blast
    then show "t \<in> fst ` set old" by (auto intro: rev_image_eqI dest!: map_of_mem)
  qed
  then have sub: "set ms \<subseteq> fst ` set records" using I(4,5) claim by blast
  have "return_account g = beat_account b" by (simp add: g_def return_account_def beat_account_def)
  then have "held a (fold AList.delete ms records) = held a old - granted_to a (grants @ [g])" for a
    using held_deletes [OF I(1) _ sub, of a] claim I(9) sum_same [OF same, of a] by (simp add: g_def)
  moreover note deletes_keys [OF I(1), of ms]
  moreover have "fst ` set records - set ms = fst ` set old - set (done @ ms)" using I(5) by auto
  moreover have "distinct (done @ ms)" using I(3,4) claim by auto
  moreover have "\<forall>token \<in> set (done @ ms). map_of old token = Some True" using I(7) claim by auto
  moreover have "set (done @ ms) \<subseteq> fst ` set old" using I(6) known by simp
  moreover have "returned' = set (done @ ms)" using I(4) claim by simp
  moreover have "\<forall>g \<in> set (grants @ [g]). cr_valid g \<and> 0 \<le> cr_count g \<and> cr_count g \<le> 3"
    using I(8) len by (auto simp: g_def)
  ultimately show ?thesis
    unfolding batch_inv_def st' using I(2) by (simp only: prod.case) blast
qed

lemma batch_loop:
  "rfold (return_batch old conn) st bs = Inr st' \<Longrightarrow> batch_inv old st done \<Longrightarrow>
     batch_inv old st' (done @ concat bs)"
proof (induction bs arbitrary: st "done")
  case Nil
  then show ?case by simp
next
  case (Cons ms bs)
  then obtain st1 where "return_batch old conn st ms = Inr st1"
    and r: "rfold (return_batch old conn) st1 bs = Inr st'" by auto
  with Cons.prems(2) have "batch_inv old st1 (done @ ms)" by (blast intro: batch_step)
  from Cons.IH [OF r this] show ?case by simp
qed

lemma retire_loop:
  "rfold (retire_token old) (records, retired) ts = Inr (records', retired') \<Longrightarrow>
     distinct (map fst records) \<Longrightarrow>
     (\<forall>token \<in> set ts. map_of old token = Some False) \<and> (set ts \<subseteq> fst ` set records \<longrightarrow>
       distinct (map fst records') \<and> fst ` set records' = fst ` set records \<and>
       (\<forall>a. held a records' = held a records))"
proof (induction ts arbitrary: records retired)
  case Nil
  then show ?case by simp
next
  case (Cons t ts)
  then obtain rec1 ret1 where s: "retire_token old (records, retired) t = Inr (rec1, ret1)"
    and r: "rfold (retire_token old) (rec1, ret1) ts = Inr (records', retired')" by auto
  from s have rec1: "rec1 = AList.update t True records" and own: "map_of old t = Some False"
    by (auto simp: retire_token_def require_owned_def split: option.splits if_splits)
  have "distinct (map fst rec1)" using Cons.prems(2) by (simp add: rec1 distinct_update)
  note IH = Cons.IH [OF r this]
  show ?case
  proof (intro conjI impI)
    show "\<forall>token\<in>set (t # ts). map_of old token = Some False" using own IH by simp
    assume sub: "set (t # ts) \<subseteq> fst ` set records"
    then have keys: "fst ` set rec1 = fst ` set records"
      unfolding rec1 update_keys by (simp add: insert_absorb)
    with sub IH have "distinct (map fst records')" "fst ` set records' = fst ` set rec1"
      "\<forall>a. held a records' = held a rec1" by auto
    with keys sub show "distinct (map fst records')" "fst ` set records' = fst ` set records"
      "\<forall>a. held a records' = held a records"
      by (auto simp: rec1 held_update_old)
  qed
qed

definition receive_inv ::
  "receipts \<Rightarrow> conn_signals \<Rightarrow> (receipt \<times> bool) list \<Rightarrow> receive_state \<Rightarrow> beat list \<Rightarrow> bool" where
  "receive_inv R conn start st done = (case st of (records, seen, new, next) \<Rightarrow>
     next = rs_next R + length done \<and> map rc_beat new = done \<and>
     map rc_id new = [rs_next R..<next] \<and> seen = bt_channel ` set done \<and>
     distinct (map bt_channel done) \<and>
     distinct (map fst records) \<and> fst ` set records = fst ` set start \<union> set new \<and>
     (\<forall>b \<in> set done. legal_beat (rs_ports R) b \<and> beats_enabled conn \<and>
        held (beat_account b) (rs_records R) < dget (rs_capacities R) (beat_account b) 0) \<and>
     (\<forall>a. held a records = held a start + spent_by a done))"

lemma spent_by_append [simp]: "spent_by a (xs @ ys) = spent_by a xs + spent_by a ys"
  by (simp add: spent_by_def)

lemma receive_step:
  assumes "receive_inv R conn start st done" and "receive_beat R conn st b = Inr st'"
    and "\<forall>(token, _) \<in> set (rs_records R). legal_beat (rs_ports R) (rc_beat token)"
    and "\<forall>token \<in> fst ` set start. rc_id token < rs_next R"
  shows "receive_inv R conn start st' (done @ [b])"
proof -
  obtain records seen new nxt where st: "st = (records, seen, new, nxt)" by (metis prod_cases4)
  define token where "token = \<lparr>rc_id = nxt, rc_beat = b\<rparr>"
  from assms(1) have I: "nxt = rs_next R + length done" "map rc_beat new = done"
    "map rc_id new = [rs_next R..<nxt]" "seen = bt_channel ` set done"
    "distinct (map bt_channel done)" "distinct (map fst records)"
    "fst ` set records = fst ` set start \<union> set new"
    "\<forall>b \<in> set done. legal_beat (rs_ports R) b \<and> beats_enabled conn \<and>
        held (beat_account b) (rs_records R) < dget (rs_capacities R) (beat_account b) 0"
    "\<forall>a. held a records = held a start + spent_by a done"
    by (auto simp: receive_inv_def st)
  from assms(2) obtain n where b: "legal_beat (rs_ports R) b" "bt_channel b \<notin> seen"
      "beats_enabled conn" "receipt_occupancy R (beat_account b) = Inr n"
      "n < dget (rs_capacities R) (beat_account b) 0"
    and st': "st' = (AList.update token False records, insert (bt_channel b) seen,
      new @ [token], Suc nxt)"
    by (auto simp: receive_beat_def st token_def Let_def not_le split: if_splits)
  have n: "n = held (beat_account b) (rs_records R)"
    using receipt_occupancy_held [OF assms(3) b(4)] .
  have ids: "rc_id t < nxt" if "t \<in> set new" for t
  proof -
    have "rc_id t \<in> set (map rc_id new)" using that by simp
    then show ?thesis unfolding I(3) by simp
  qed
  then have "token \<notin> set new" by (force simp: token_def)
  moreover have "token \<notin> fst ` set start" using assms(4) I(1) by (force simp: token_def)
  ultimately have fresh: "token \<notin> fst ` set records" unfolding I(7) by simp
  have "held a (AList.update token False records) = held a start + spent_by a (done @ [b])" for a
    using held_update_new [OF fresh, of a False] I(9) by (simp add: token_def)
  moreover have "map rc_id (new @ [token]) = [rs_next R..<Suc nxt]"
    using I(1,3) by (simp add: token_def)
  moreover have "map rc_beat (new @ [token]) = done @ [b]" using I(2) by (simp add: token_def)
  ultimately show ?thesis
    using I(1,4-8) b n unfolding receive_inv_def st'
    by (auto simp: update_keys distinct_update)
qed

lemma receive_loop:
  "rfold (receive_beat R conn) st bs = Inr st' \<Longrightarrow> receive_inv R conn start st done \<Longrightarrow>
     \<forall>(token, _) \<in> set (rs_records R). legal_beat (rs_ports R) (rc_beat token) \<Longrightarrow>
     \<forall>token \<in> fst ` set start. rc_id token < rs_next R \<Longrightarrow>
     receive_inv R conn start st' (done @ bs)"
proof (induction bs arbitrary: st "done")
  case Nil
  then show ?case by simp
next
  case (Cons b bs)
  from Cons.prems(1) obtain st1 where "receive_beat R conn st b = Inr st1"
    and r: "rfold (receive_beat R conn) st1 bs = Inr st'" by auto
  with Cons.prems have "receive_inv R conn start st1 (done @ [b])" by (blast intro: receive_step)
  from Cons.IH [OF r this Cons.prems(3,4)] show ?case by simp
qed

subsection \<open>One edge\<close>

lemma spent_by_one:
  "distinct (map bt_channel bs) \<Longrightarrow>
     spent_by a bs = (if \<exists>b \<in> set bs. beat_account b = a then 1 else 0)"
proof (induction bs)
  case Nil
  then show ?case by simp
next
  case (Cons b bs)
  have "\<not> (\<exists>b' \<in> set bs. beat_account b' = a)" if "beat_account b = a"
  proof
    assume "\<exists>b' \<in> set bs. beat_account b' = a"
    then have "bt_channel b \<in> set (map bt_channel bs)"
      using that by (auto simp: beat_account_def intro: rev_image_eqI)
    then show False using Cons.prems by simp
  qed
  with Cons show ?case by auto
qed

lemma receipts_step_edge:
  assumes ok: "receipts_ok R"
    and st: "receipts_step R conn beats ts batches False = Inr (R', new, grants)"
  shows "receipts_ok R'"
    and "held a (rs_records R') = held a (rs_records R) - granted_to a grants + spent_by a beats"
    and "distinct (concat batches)"
    and "set (concat batches) \<subseteq> fst ` set (rs_records R)"
    and "fst ` set (rs_records R') = fst ` set (rs_records R) - set (concat batches) \<union> set new"
    and "map rc_beat new = beats" and "map rc_id new = [rs_next R..<rs_next R']"
    and "rs_capacities R' = rs_capacities R" "rs_ports R' = rs_ports R"
    and "rs_next R' = rs_next R + length beats"
    and "\<forall>g \<in> set grants. cr_valid g \<and> 0 \<le> cr_count g \<and> cr_count g \<le> 3"
proof -
  let ?old = "rs_records R"
  from st obtain rec1 ret1 slots rec2 ret2 rec3 seen nxt where
    1: "rfold (return_batch ?old conn) (?old, {}, {}, []) batches = Inr (rec1, ret1, slots, grants)"
    and 2: "rfold (retire_token ?old) (rec1, {}) ts = Inr (rec2, ret2)"
    and 3: "rfold (receive_beat R conn) (rec2, {}, [], rs_next R) beats = Inr (rec3, seen, new, nxt)"
    and R': "R' = R\<lparr>rs_records := rec3, rs_next := nxt\<rparr>"
    by (auto simp: receipts_step_def)
  from ok have d: "distinct (map fst ?old)"
    and legal: "\<forall>(token, _) \<in> set ?old. legal_beat (rs_ports R) (rc_beat token)"
    and below: "\<forall>token \<in> fst ` set ?old. rc_id token < rs_next R"
    and cap: "\<forall>a. held a ?old \<le> dget (rs_capacities R) a 0"
    by (auto simp: receipts_ok_def)
  have "batch_inv ?old (?old, {}, {}, []) []" using d by (simp add: batch_inv_def)
  note batches = batch_loop [OF 1 this, unfolded batch_inv_def prod.case append_Nil]
  have B: "distinct (map fst rec1)" "distinct (concat batches)"
    "fst ` set rec1 = fst ` set ?old - set (concat batches)"
    "set (concat batches) \<subseteq> fst ` set ?old"
    "\<forall>token \<in> set (concat batches). map_of ?old token = Some True"
    "\<forall>g \<in> set grants. cr_valid g \<and> 0 \<le> cr_count g \<and> cr_count g \<le> 3"
    "\<forall>a. held a rec1 = held a ?old - granted_to a grants"
    using batches by - (elim conjE, assumption)+
  note ret = retire_loop [OF 2 B(1)]
  have "set ts \<subseteq> fst ` set rec1"
  proof
    fix t assume "t \<in> set ts"
    then have *: "map_of ?old t = Some False" using ret by blast
    then have "t \<in> fst ` set ?old" by (auto intro: rev_image_eqI dest!: map_of_mem)
    moreover have "t \<notin> set (concat batches)" using B(5) * by fastforce
    ultimately show "t \<in> fst ` set rec1" unfolding B(3) by blast
  qed
  with ret have C: "distinct (map fst rec2)" "fst ` set rec2 = fst ` set rec1"
    "\<forall>a. held a rec2 = held a rec1" by auto
  have "receive_inv R conn rec2 (rec2, {}, [], rs_next R) []"
    using C by (simp add: receive_inv_def)
  moreover have below2: "\<forall>token \<in> fst ` set rec2. rc_id token < rs_next R"
    using below C(2) B(3) by blast
  ultimately have D: "receive_inv R conn rec2 (rec3, seen, new, nxt) beats"
    using receive_loop [OF 3 _ legal] by fastforce
  then have E: "nxt = rs_next R + length beats" "map rc_beat new = beats"
    "map rc_id new = [rs_next R..<nxt]" "distinct (map bt_channel beats)"
    "distinct (map fst rec3)" "fst ` set rec3 = fst ` set rec2 \<union> set new"
    "\<forall>b \<in> set beats. legal_beat (rs_ports R) b \<and>
       held (beat_account b) ?old < dget (rs_capacities R) (beat_account b) 0"
    "\<forall>a. held a rec3 = held a rec2 + spent_by a beats"
    by (auto simp: receive_inv_def)
  show H: "held a (rs_records R') = held a ?old - granted_to a grants + spent_by a beats" for a
    using E(8) C(3) B(7) by (simp add: R')
  show "distinct (concat batches)" "set (concat batches) \<subseteq> fst ` set ?old"
    "\<forall>g \<in> set grants. cr_valid g \<and> 0 \<le> cr_count g \<and> cr_count g \<le> 3" by (fact B)+
  show "fst ` set (rs_records R') = fst ` set ?old - set (concat batches) \<union> set new"
    using E(6) C(2) B(3) by (simp add: R')
  show "map rc_beat new = beats" "map rc_id new = [rs_next R..<rs_next R']"
    "rs_next R' = rs_next R + length beats" using E by (simp_all add: R')
  show "rs_capacities R' = rs_capacities R" "rs_ports R' = rs_ports R" by (simp_all add: R')
  have "0 \<le> granted_to a grants" for a
    using B(6) by (induction grants) auto
  moreover have "spent_by a beats \<le> dget (rs_capacities R) a 0 - held a ?old" for a
    using spent_by_one [OF E(4), of a] E(7) cap by (auto simp: le_diff_eq)
  ultimately have "held a rec3 \<le> dget (rs_capacities R) a 0" for a
    using H [of a] by (simp add: R') (smt (verit, best))
  moreover have "rc_id t < nxt \<and> legal_beat (rs_ports R) (rc_beat t)" if "(t, v) \<in> set rec3" for t v
  proof -
    have "t \<in> fst ` set rec2 \<or> t \<in> set new" using that E(6) by force
    then show ?thesis
    proof
      assume t: "t \<in> fst ` set rec2"
      then have "t \<in> fst ` set ?old" using C(2) B(3) by blast
      then have "legal_beat (rs_ports R) (rc_beat t)" using legal by force
      with t below2 E(1) show ?thesis by force
    next
      assume t: "t \<in> set new"
      then have "rc_id t \<in> set (map rc_id new)" "rc_beat t \<in> set (map rc_beat new)" by simp_all
      then show ?thesis using E(2,3,7) by simp
    qed
  qed
  ultimately show "receipts_ok R'" using E(5) by (auto simp: receipts_ok_def R')
qed

lemma receipts_tick_ok:
  assumes "receipts_ok R" and "receipts_tick R i = Inr (R', out)"
    and caps: "list_all (\<lambda>(a, c). 0 \<le> c) (rs_capacities R)"
  shows "receipts_ok R' \<and> rs_capacities R' = rs_capacities R \<and> rs_next R \<le> rs_next R'"
proof (cases "ri_reset i")
  case True
  with assms show ?thesis
    using caps_nonneg [OF caps] by (auto simp: receipts_tick_def receipts_step_def receipts_ok_def)
next
  case False
  with assms(2) obtain new gs where
    "receipts_step R (ri_conn i) (ri_beats i) (ri_retire i) (ri_batches i) False = Inr (R', new, gs)"
    by (cases out) (auto simp: receipts_tick_def)
  from receipts_step_edge [OF assms(1) this] show ?thesis by simp
qed

definition receipts_inv :: "(account \<times> int) list \<Rightarrow> receipts \<Rightarrow> bool" where
  "receipts_inv caps R \<longleftrightarrow>
     receipts_ok R \<and> rs_capacities R = caps \<and> list_all (\<lambda>(a, c). 0 \<le> c) caps"

interpretation receipts: machine receipts_tick "receipts_inv caps" for caps
proof unfold_locales
  show "receipts_inv caps s'" if "receipts_inv caps s" "receipts_tick s i = Inr (s', out)" for s i s' out
    using that receipts_tick_ok [of s i s' out] by (auto simp: receipts_inv_def)
qed

lemma receipts_init_inv:
  assumes "receipts_init capacities n = Inr R"
  shows "receipts_inv (dict_of capacities) R"
proof -
  have "list_all (\<lambda>(a, c). 0 \<le> c) (dict_of capacities)"
    using assms by (fastforce simp: receipts_init_def Let_def list_all2_conv_all_nth list_all_length
        split: if_splits dest!: rmap_Inr_all)
  then show ?thesis
    using assms caps_nonneg
    by (auto simp: receipts_init_def receipts_inv_def receipts_ok_def Let_def split: if_splits)
qed

text \<open>The tokens returned along a run are pairwise distinct: no buffer is credited twice.\<close>

lemma receipts_run_once:
  "run receipts_tick R is = Inr (R', outs) \<Longrightarrow> receipts_inv caps R \<Longrightarrow>
     list_all (\<lambda>i. \<not> ri_reset i) is \<Longrightarrow>
     distinct (concat (concat (map ri_batches is))) \<and>
     (\<forall>t \<in> set (concat (concat (map ri_batches is))).
        t \<in> fst ` set (rs_records R) \<or> rs_next R \<le> rc_id t)"
proof (induction "is" arbitrary: R outs)
  case Nil
  then show ?case by simp
next
  case (Cons i "is")
  from Cons.prems(1) obtain R1 out outs1 where t: "receipts_tick R i = Inr (R1, out)"
    and r: "run receipts_tick R1 is = Inr (R', outs1)" by (rule run_ConsE)
  obtain new gs where out: "out = (new, gs)" by force
  have st: "receipts_step R (ri_conn i) (ri_beats i) (ri_retire i) (ri_batches i) False =
      Inr (R1, new, gs)"
    using t Cons.prems(3) by (simp add: receipts_tick_def out)
  have ok: "receipts_ok R" using Cons.prems(2) by (simp add: receipts_inv_def)
  note edge = receipts_step_edge [OF ok st]
  have "receipts_inv caps R1" using receipts.step_inv [OF Cons.prems(2) t] .
  then have IH: "distinct (concat (concat (map ri_batches is)))"
    "\<forall>t \<in> set (concat (concat (map ri_batches is))).
        t \<in> fst ` set (rs_records R1) \<or> rs_next R1 \<le> rc_id t"
    using Cons.IH [OF r] Cons.prems(3) by auto
  have below: "rc_id t < rs_next R" if "t \<in> fst ` set (rs_records R)" for t
    using ok that by (auto simp: receipts_ok_def)
  have new: "rs_next R \<le> rc_id t" if "t \<in> set new" for t
  proof -
    have "rc_id t \<in> set (map rc_id new)" using that by simp
    then show ?thesis unfolding edge(7) by simp
  qed
  have later: "t \<notin> set (concat (ri_batches i)) \<and> (t \<in> fst ` set (rs_records R) \<or> rs_next R \<le> rc_id t)"
    if "t \<in> set (concat (concat (map ri_batches is)))" for t
    using IH(2) that edge(4,5,10) below new by (smt (verit, ccfv_SIG) DiffE UnE le_add1 le_trans not_le subsetD)
  then have "set (concat (ri_batches i)) \<inter> set (concat (concat (map ri_batches is))) = {}"
    by blast
  with IH(1) edge(3) have "distinct (concat (concat (map ri_batches (i # is))))"
    by (simp add: distinct_append)
  moreover have "\<forall>t \<in> set (concat (concat (map ri_batches (i # is)))).
      t \<in> fst ` set (rs_records R) \<or> rs_next R \<le> rc_id t"
    using later edge(4) by auto
  ultimately show ?case ..
qed

end
