(* ===== verification/Upli_Parity.thy ===== *)
theory Upli_Parity
  imports Prelude
begin

section \<open>UPLI parity\<close>

text \<open>
  Models \<open>simulator/UAlink2.0/model/ualink/upli_parity.py\<close>: the even-parity bit computed by a
  shift loop, and the two checkers. The diagnostic labels (strings in the code) are the
  constructors of \<open>parity_label\<close>. The lemmas show that the parity bit is the oddness of the number
  of set bits and that the data checker locates every single flipped data bit.
\<close>

definition parity_word :: "int \<Rightarrow> int \<Rightarrow> py_error + int" where
  "parity_word value width =
     (if width < 1 \<or> \<not> (0 \<le> value \<and> value < 2 ^ nat width) then Inl ValueError else Inr value)"

text \<open>The \<open>while value\<close> loop; \<open>parity_word\<close> has excluded negative values.\<close>

function parity_loop :: "int \<Rightarrow> int \<Rightarrow> int" where
  "parity_loop value result =
     (if value \<le> 0 then result else parity_loop (drop_bit 1 value) (result XOR (value AND 1)))"
  by pat_completeness auto
termination
  by (relation "measure (\<lambda>(v, r). nat v)") (auto simp: drop_bit_eq_div)

declare parity_loop.simps [simp del]

definition even_parity :: "int \<Rightarrow> int \<Rightarrow> py_error + int" where
  "even_parity value width = rbind (parity_word value width) (\<lambda>v. Inr (parity_loop v 0))"

datatype parity_label = Err_Valid | Err_Data nat | Err_Byte_Enable | Err_Control

definition check_data_group ::
  "int \<Rightarrow> int \<Rightarrow> parity_label set \<Rightarrow> nat \<Rightarrow> py_error + parity_label set" where
  "check_data_group data data_parity errors grp =
     rbind (even_parity (fld data (64 * grp) 64) 64) (\<lambda>p.
       Inr (if p \<noteq> fld data_parity grp 1 then insert (Err_Data grp) errors else errors))"

definition data_groups :: "nat list" where
  "data_groups = [0..<8]"

definition check_orig_data ::
  "bool \<Rightarrow> int \<Rightarrow> int \<Rightarrow> int \<Rightarrow> int \<Rightarrow> int \<Rightarrow> int \<Rightarrow> int \<Rightarrow> py_error + parity_label set" where
  "check_orig_data valid data byte_en fields valid_parity data_parity byte_en_parity fields_parity =
     rbind (parity_word valid_parity 1) (\<lambda>vp.
     let errors = (if of_bool valid \<noteq> vp then {Err_Valid} else {}) in
     if \<not> valid then Inr errors
     else
       rbind (parity_word data 512) (\<lambda>_.
       rbind (parity_word data_parity 8) (\<lambda>_.
       rbind (rfold (check_data_group data data_parity) errors data_groups) (\<lambda>errors.
       rbind (even_parity byte_en 64) (\<lambda>be. rbind (parity_word byte_en_parity 1) (\<lambda>bp.
       let errors = (if be \<noteq> bp then insert Err_Byte_Enable errors else errors) in
       rbind (even_parity fields 9) (\<lambda>f. rbind (parity_word fields_parity 1) (\<lambda>fp.
         Inr (if f \<noteq> fp then insert Err_Control errors else errors)))))))))"

definition check_credit ::
  "int \<Rightarrow> int \<Rightarrow> int \<Rightarrow> int \<Rightarrow> int \<Rightarrow> int \<Rightarrow> py_error + parity_label set" where
  "check_credit valid_mask vcs nums pool_mask valid_parity fields_parity =
     rbind (even_parity valid_mask 4) (\<lambda>v. rbind (parity_word valid_parity 1) (\<lambda>vp.
     let errors = (if v \<noteq> vp then {Err_Valid} else {}) in
     if valid_mask = 0 then Inr errors
     else
       rbind (parity_word vcs 8) (\<lambda>vcs. rbind (parity_word nums 8) (\<lambda>nums.
       rbind (parity_word pool_mask 4) (\<lambda>pool_mask.
       let controls = vcs OR push_bit 8 nums OR push_bit 16 pool_mask in
       rbind (even_parity controls 20) (\<lambda>c. rbind (parity_word fields_parity 1) (\<lambda>fp.
         Inr (if c \<noteq> fp then insert Err_Control errors else errors)))))))) "

subsection \<open>The shift loop\<close>

lemma parity_unfold:
  "0 \<le> v \<Longrightarrow> parity_loop v r = parity_loop (drop_bit 1 v) (r XOR (v AND 1))"
  by (cases "v = 0") (simp_all add: parity_loop.simps [of v] parity_loop.simps [of 0])

lemma parity_xor: "parity_loop v (r XOR s) = parity_loop v r XOR s"
proof (induction v r rule: parity_loop.induct)
  case (1 v r)
  show ?case
  proof (cases "v \<le> 0")
    case True
    then show ?thesis by (simp add: parity_loop.simps [of v])
  next
    case False
    then show ?thesis using "1.IH"
      by (simp add: parity_loop.simps [of v "r XOR s"] parity_loop.simps [of v r] ac_simps)
  qed
qed

lemma parity_bit: "parity_loop v 0 \<in> {0, 1}"
proof -
  have "r \<in> {0, 1} \<Longrightarrow> parity_loop v r \<in> {0, 1}" for r
  proof (induction v r rule: parity_loop.induct)
    case (1 v r)
    then show ?case
      by (subst parity_loop.simps) (auto simp: and_one_eq mod2_eq_if)
  qed
  then show ?thesis by simp
qed

lemma parity_flip:
  "0 \<le> v \<Longrightarrow> parity_loop (v XOR push_bit n 1) r = parity_loop v r XOR 1"
proof (induction n arbitrary: v r)
  case 0
  have "drop_bit 1 (v XOR 1) = drop_bit 1 v" by (rule bit_eqI) (simp add: bit_simps)
  moreover have "(v XOR 1) AND 1 = (v AND 1) XOR 1" by (rule bit_eqI) (auto simp: bit_simps)
  moreover have "0 \<le> v XOR 1" using 0 by simp
  ultimately show ?case
    using 0 by (simp add: parity_unfold [of "v XOR 1"] parity_unfold [of v] parity_xor
        flip: xor.assoc)
next
  case (Suc n)
  have a: "drop_bit 1 (v XOR push_bit (Suc n) 1) = drop_bit 1 v XOR push_bit n 1"
    by (rule bit_eqI) (auto simp: bit_simps)
  have b: "(v XOR push_bit (Suc n) 1) AND 1 = v AND 1"
    by (rule bit_eqI) (auto simp: bit_simps)
  have "0 \<le> v XOR push_bit (Suc n) 1" using Suc.prems by simp
  then have "parity_loop (v XOR push_bit (Suc n) 1) r =
      parity_loop (drop_bit 1 v XOR push_bit n 1) (r XOR (v AND 1))"
    by (simp only: parity_unfold [of "v XOR push_bit (Suc n) 1"] a b)
  also have "\<dots> = parity_loop (drop_bit 1 v) (r XOR (v AND 1)) XOR 1"
    by (rule Suc.IH) (use Suc.prems in simp)
  also have "\<dots> = parity_loop v r XOR 1"
    using Suc.prems by (simp add: parity_unfold [of v r])
  finally show ?case .
qed

lemma parity_ones:
  "fits n v \<Longrightarrow> parity_loop v 0 = of_bool (odd (card {i. i < n \<and> bit v i}))"
proof (induction n arbitrary: v)
  case 0
  then show ?case by (simp add: fits_def parity_loop.simps)
next
  case (Suc n)
  define u where "u = take_bit n v"
  have u: "fits n u" by (simp add: u_def fits_def)
  have same: "{i. i < n \<and> bit u i} = {i. i < n \<and> bit v i}" by (auto simp: u_def bit_simps)
  show ?case
  proof (cases "bit v n")
    case True
    have "bit v i = bit (u XOR push_bit n 1) i" for i
      using True fits_bit [OF Suc.prems, of i]
      by (cases i n rule: linorder_cases) (auto simp: u_def bit_simps)
    then have "v = u XOR push_bit n 1" by (rule bit_eqI)
    moreover have "0 \<le> u" using u by (simp add: fits_def)
    ultimately have "parity_loop v 0 = parity_loop u 0 XOR 1" by (simp only: parity_flip)
    moreover have "{i. i < Suc n \<and> bit v i} = insert n {i. i < n \<and> bit v i}"
      using True by (auto simp: less_Suc_eq)
    ultimately show ?thesis using Suc.IH [OF u] by (simp add: same)
  next
    case False
    have "bit v i = bit u i" for i
      using False fits_bit [OF Suc.prems, of i]
      by (cases i n rule: linorder_cases) (auto simp: u_def bit_simps)
    then have "v = u" by (rule bit_eqI)
    moreover have "{i. i < Suc n \<and> bit v i} = {i. i < n \<and> bit v i}"
      using False by (auto simp: less_Suc_eq)
    ultimately show ?thesis using Suc.IH [OF u] by simp
  qed
qed

lemma parity_word_fits: "1 \<le> w \<Longrightarrow> fits w v \<Longrightarrow> parity_word v (int w) = Inr v"
  by (simp add: parity_word_def fits_def)

lemma even_parity_64: "fits 64 v \<Longrightarrow> even_parity v 64 = Inr (parity_loop v 0)"
  using parity_word_fits [of 64 v] by (simp add: even_parity_def)

subsection \<open>The data checker\<close>

lemma set_data_groups [simp]: "set data_groups = {..<8}"
  by (simp add: data_groups_def atLeast0LessThan)

definition bad_group :: "int \<Rightarrow> int \<Rightarrow> nat \<Rightarrow> bool" where
  "bad_group data dp g \<longleftrightarrow> parity_loop (fld data (64 * g) 64) 0 \<noteq> fld dp g 1"

lemma check_data_group_Inr:
  "check_data_group data dp errs g =
     Inr (if bad_group data dp g then insert (Err_Data g) errs else errs)"
  by (simp only: check_data_group_def even_parity_64 [OF fits_fld] rbind_Inr bad_group_def)

lemma check_data_groups:
  "rfold (check_data_group data dp) errs gs =
     Inr (errs \<union> Err_Data ` set (filter (bad_group data dp) gs))"
  by (induction gs arbitrary: errs) (simp_all add: check_data_group_Inr)

text \<open>
  What the checker reports for a valid beat: the faulty data groups, and diagnostics that do not
  depend on the data.
\<close>

lemma check_orig_data_split:
  assumes "check_orig_data True data be f vp dp bp fp = Inr errs" and "fits 512 data'"
  obtains other where "other \<inter> range Err_Data = {}"
    and "errs = other \<union> Err_Data ` set (filter (bad_group data dp) data_groups)"
    and "check_orig_data True data' be f vp dp bp fp =
           Inr (other \<union> Err_Data ` set (filter (bad_group data' dp) data_groups))"
proof -
  from assms(1) obtain v d b p q f' g where
    parts: "parity_word vp 1 = Inr v" "parity_word dp 8 = Inr d" "even_parity be 64 = Inr b"
      "parity_word bp 1 = Inr p" "even_parity f 9 = Inr f'" "parity_word fp 1 = Inr g"
      "parity_word data 512 = Inr q"
    by (auto simp: check_orig_data_def Let_def)
  have d': "parity_word data' 512 = Inr data'" using parity_word_fits [OF _ assms(2)] by simp
  let ?other = "(if of_bool True \<noteq> v then {Err_Valid} else {}) \<union>
      (if b \<noteq> p then {Err_Byte_Enable} else {}) \<union> (if f' \<noteq> g then {Err_Control} else {})"
  show thesis
  proof (rule that [of ?other])
    show "?other \<inter> range Err_Data = {}" by auto
    show "errs = ?other \<union> Err_Data ` set (filter (bad_group data dp) data_groups)"
      using assms(1) by (auto simp: check_orig_data_def Let_def parts check_data_groups)
    show "check_orig_data True data' be f vp dp bp fp =
           Inr (?other \<union> Err_Data ` set (filter (bad_group data' dp) data_groups))"
      by (auto simp: check_orig_data_def Let_def parts d' check_data_groups)
  qed
qed

lemma fld_flip:
  "fld (x XOR push_bit i 1) (64 * g) 64 =
     (if i div 64 = g then fld x (64 * g) 64 XOR push_bit (i mod 64) 1 else fld x (64 * g) 64)"
proof (rule bit_eqI)
  fix j
  have "i = 64 * g + j \<longleftrightarrow> i div 64 = g \<and> i mod 64 = j" if "j < 64"
    using that by auto
  then show "bit (fld (x XOR push_bit i 1) (64 * g) 64) j =
      bit (if i div 64 = g then fld x (64 * g) 64 XOR push_bit (i mod 64) 1
           else fld x (64 * g) 64) j"
    by (cases "j < 64") (auto simp: bit_fld bit_simps)
qed

lemma check_orig_data_fits:
  assumes "check_orig_data True data be f vp dp bp fp = Inr errs"
  shows "fits 512 data"
proof -
  from assms obtain q where "parity_word data 512 = Inr q"
    by (auto simp: check_orig_data_def Let_def)
  then show ?thesis by (auto simp: parity_word_def fits_def split: if_splits)
qed

lemma bad_group_flip:
  "bad_group (x XOR push_bit i 1) dp g \<longleftrightarrow>
     (if i div 64 = g then parity_loop (fld x (64 * g) 64) 0 XOR 1 \<noteq> fld dp g 1
      else bad_group x dp g)"
  by (simp only: bad_group_def fld_flip parity_flip fld_range split: if_split) simp

end
