(* ===== verification/Props_Upli.thy ===== *)
theory Props_Upli
  imports Upli_Burst_Monitor Upli_Burst_Payload Upli_Receive Upli_Receipt Upli_Parity Upli_Tdm
begin

section \<open>Properties of the UPLI components\<close>

text \<open>
  Properties of the credit ledger, the burst sender with its monitor, and the receive channel, each with its witness.
\<close>

definition demo_conn :: conn_signals where
  "demo_conn = \<lparr>orig_req = True, comp_ack = True, comp_req = True, orig_ack = True\<rparr>"

definition demo_caps :: "(account \<times> int) list" where
  "demo_caps = [(Account 0 Req (Some 0), 2), (Account 0 Orig_Data (Some 0), 4)]"

definition demo_grants :: "credit_return list" where
  "demo_grants =
     [\<lparr>cr_port = 0, cr_channel = Req, cr_vc = 0, cr_pool = False, cr_count = 1, cr_valid = True\<rparr>,
      \<lparr>cr_port = 0, cr_channel = Orig_Data, cr_vc = 0, cr_pool = False, cr_count = 3, cr_valid = True\<rparr>]"

definition demo_request :: burst_request where
  "demo_request = \<lparr>br_port = 0, br_vc = 0, br_pool = False, br_beats = Some 2,
     br_data_pools = [False, False, False]\<rparr>"

definition demo_sender :: burst_sender where
  "demo_sender = projr (burst_init demo_caps 1 2)"

definition demo_edges :: "burst_input list" where
  "demo_edges =
     [\<lparr>bi_conn = demo_conn, bi_request = None, bi_returns = demo_grants,
       bi_done = [(0, Req), (0, Orig_Data)], bi_reset = False\<rparr>,
      \<lparr>bi_conn = demo_conn, bi_request = None, bi_returns = [],
       bi_done = [(0, Req), (0, Orig_Data)], bi_reset = False\<rparr>,
      \<lparr>bi_conn = demo_conn, bi_request = Some demo_request, bi_returns = [], bi_done = [], bi_reset = False\<rparr>]"

lemma demo_sender: "burst_init demo_caps 1 2 = Inr demo_sender"
  unfolding demo_sender_def by (rule projr_ok) code_simp

text \<open>C1: On every reachable state of the burst sender, an edge whose credit returns and
  initialisation indications are acceptable on their own, on a connection that carries beats, succeeds
  for every valid candidate: the credit reserved at admission always covers the mandatory data beats.\<close>

theorem burst_never_starves:
  assumes "burst_init caps n k = Inr s0" and "reach burst_tick s0 s"
    and "beats_enabled conn"
    and "ledger_step (bs_credits s) conn rs [] ds False = Inr L0"
    and "pred_option (\<lambda>r. burst_validate s r = Inr ()) request"
  shows "\<exists>s' e. burst_step s conn request rs ds False = Inr (s', e)"
  using burst_step_succeeds [OF burst.reach_inv [OF assms(2) burst_init_ok [OF assms(1)]] assms(3-5)] .

theorem burst_never_starves_witness:
  "\<exists>s' e. burst_step (final burst_tick demo_sender demo_edges) demo_conn None [] [] False = Inr (s', e)"
proof (rule burst_never_starves [OF demo_sender reach_final _ projr_ok])
  show "\<not> isl (run burst_tick demo_sender demo_edges)" by code_simp
  show "beats_enabled demo_conn" by code_simp
  show "pred_option (\<lambda>r. burst_validate (final burst_tick demo_sender demo_edges) r = Inr ()) None"
    by simp
qed code_simp

text \<open>C11: The passive burst monitor accepts every trace of the burst sender: along any run, resets
  included, it never reports a missing, early or wrong data beat or a beat outside its slot.\<close>

theorem burst_trace_accepted:
  assumes "burst_init caps n k = Inr s0" and "bmon_init n = Inr m0"
    and "run burst_tick s0 is = Inr (s, outs)"
  shows "\<exists>m. rfold bmon_watch m0 (zip is outs) = Inr m"
  using burst_watch.run_watched [OF assms(3) burst_init_ok [OF assms(1)] follows_init [OF assms(1,2)]]
  by blast

theorem burst_trace_accepted_witness:
  "\<exists>m. rfold bmon_watch (projr (bmon_init 1)) (zip demo_edges (outputs burst_tick demo_sender demo_edges)) = Inr m"
proof (rule burst_trace_accepted [OF demo_sender projr_ok run_final])
  show "\<not> isl (bmon_init 1)" by code_simp
  show "\<not> isl (run burst_tick demo_sender demo_edges)" by code_simp
qed

text \<open>C23: Credit is conserved: along every run without a reset the balance of an account is what was
  granted less what was spent, and it stays between zero and the configured capacity.\<close>

theorem ledger_conserved:
  assumes "ledger_init caps n k = Inr L0" and "run ledger_tick L0 is = Inr (L, outs)"
    and "list_all (\<lambda>i. \<not> li_reset i) is"
  shows "dget (led_balances L) a 0 =
      (\<Sum>i\<leftarrow>is. granted_to a (li_returns i)) - (\<Sum>i\<leftarrow>is. spent_by a (li_beats i)) \<and>
    0 \<le> dget (led_balances L) a 0 \<and> dget (led_balances L) a 0 \<le> dget (dict_of caps) a 0"
proof -
  have "dget (led_balances L0) a 0 = 0"
    using assms(1) by (auto simp: ledger_init_def Let_def dget_map_const split: if_splits)
  moreover have "ledger_inv (dict_of caps) L"
    by (rule ledger.run_inv [OF assms(2) ledger_init_inv [OF assms(1)]])
  ultimately show ?thesis
    using ledger_run_balance [OF assms(2,3), of a] ledger_inv_balance [of "dict_of caps" L a] by simp
qed

definition demo_ledger_inputs :: "ledger_input list" where
  "demo_ledger_inputs =
     [\<lparr>li_conn = demo_conn, li_returns = demo_grants, li_beats = [], li_done = [(0, Req)], li_reset = False\<rparr>,
      \<lparr>li_conn = demo_conn, li_returns = [], li_beats = [], li_done = [(0, Req)], li_reset = False\<rparr>,
      \<lparr>li_conn = demo_conn, li_returns = [],
       li_beats = [\<lparr>bt_port = 0, bt_channel = Req, bt_vc = 0, bt_pool = False\<rparr>],
       li_done = [], li_reset = False\<rparr>]"

theorem ledger_conserved_witness:
  "dget (led_balances (final ledger_tick (projr (ledger_init demo_caps 1 2)) demo_ledger_inputs))
     (Account 0 Req (Some 0)) 0 = 1"
proof -
  have "dget (led_balances (final ledger_tick (projr (ledger_init demo_caps 1 2)) demo_ledger_inputs))
      (Account 0 Req (Some 0)) 0 =
    (\<Sum>i\<leftarrow>demo_ledger_inputs. granted_to (Account 0 Req (Some 0)) (li_returns i)) -
    (\<Sum>i\<leftarrow>demo_ledger_inputs. spent_by (Account 0 Req (Some 0)) (li_beats i))"
    by (rule ledger_conserved [THEN conjunct1, OF projr_ok run_final]) code_simp+
  also have "\<dots> = 1" by code_simp
  finally show ?thesis .
qed

text \<open>No beat is paid with credit of its own edge: an accepted edge has at most one beat per
  channel, and each beat had a positive balance, an initialised slot and both connected directions
  before the edge.\<close>

theorem ledger_no_bypass:
  assumes "ledger_step L conn rs bs ds False = Inr L'"
  shows "distinct (map bt_channel bs) \<and>
    (\<forall>b \<in> set bs. beats_enabled conn \<and> (bt_port b, bt_channel b) \<in> led_initialized L \<and>
       1 \<le> dget (led_balances L) (beat_account b) 0)"
  by (rule ledger_step_beats [OF assms])

theorem ledger_no_bypass_witness:
  "1 \<le> dget (led_balances (final ledger_tick (projr (ledger_init demo_caps 1 2)) (take 2 demo_ledger_inputs)))
     (Account 0 Req (Some 0)) 0"
  (is "1 \<le> dget (led_balances ?L) _ _")
proof -
  let ?b = "\<lparr>bt_port = 0, bt_channel = Req, bt_vc = 0, bt_pool = False\<rparr>"
  have "\<not> isl (ledger_step ?L demo_conn [] [?b] [] False)" by code_simp
  from ledger_no_bypass [OF projr_ok [OF this]] show ?thesis by (simp add: beat_account_def)
qed

text \<open>C28: On every reachable state of the receive channel none of its internal \<open>AssertionError\<close> checks
  can fire: credit reservations never overlap, retired metadata is always accepted and every FIFO keeps
  its reservation.\<close>

theorem rx_assertions_unreachable:
  assumes "rx_init caps n pw cw rd ch = Inr r0" and "reach rx_edge r0 r"
  shows "rx_step r conn incoming consumer consume False \<noteq> Inl AssertionError"
  by (rule rx_step_no_assertion [OF rx_machine.reach_inv [OF assms(2) rx_init_ok [OF assms(1)]]])

definition demo_idle :: rx_input where
  "demo_idle = \<lparr>xi_conn = demo_conn, xi_incoming = None, xi_consumer = None, xi_consume = False\<rparr>"

definition demo_beat :: received_beat where
  "demo_beat = \<lparr>rb_beat = \<lparr>bt_port = 0, bt_channel = Req, bt_vc = 0, bt_pool = False\<rparr>, rb_payload = 165\<rparr>"

definition demo_rx :: rx_channel where
  "demo_rx = projr (rx_init [2, 0, 0, 0, 0] 1 8 3 1 Req)"

definition demo_rx_inputs :: "rx_input list" where
  "demo_rx_inputs = replicate 6 demo_idle @ [demo_idle\<lparr>xi_incoming := Some demo_beat\<rparr>] @
     replicate 2 demo_idle @ [demo_idle\<lparr>xi_consumer := Some (0, 0), xi_consume := True\<rparr>]"

lemma demo_rx: "rx_init [2, 0, 0, 0, 0] 1 8 3 1 Req = Inr demo_rx"
  unfolding demo_rx_def by (rule projr_ok) code_simp

lemma demo_rx_run: "\<not> isl (run rx_tick demo_rx demo_rx_inputs)"
  by code_simp

theorem rx_assertions_unreachable_witness:
  "rx_step demo_rx demo_conn None (Some (0, 0)) True False \<noteq> Inl AssertionError"
  by (rule rx_assertions_unreachable [OF demo_rx reach_start])

text \<open>C39: Over any run of a new receive channel without a further reset, the beats of one account leave in the order they came, with the
  payload and the credit metadata they came with; what was accepted and has not been retired is held.\<close>

theorem rx_in_order:
  assumes "rx_init caps n pw cw rd ch = Inr r0" and "run rx_tick r0 is = Inr (r, outs)"
    and "slot < length (rx_fifos r0)"
  shows "concat (map2 (rx_taken slot) is outs) = concat (map (rx_given slot) outs) @ rx_held r slot"
  using rx_channel.flow_run [OF assms(2), of slot] rx_init_inv [OF assms(1,3)] by auto

theorem rx_in_order_witness:
  "concat (map (rx_given 0) (outputs rx_tick demo_rx demo_rx_inputs)) = [demo_beat]"
proof -
  have "concat (map2 (rx_taken 0) demo_rx_inputs (outputs rx_tick demo_rx demo_rx_inputs)) =
      concat (map (rx_given 0) (outputs rx_tick demo_rx demo_rx_inputs)) @
      rx_held (final rx_tick demo_rx demo_rx_inputs) 0"
    by (rule rx_in_order [OF demo_rx run_final [OF demo_rx_run]]) code_simp
  moreover have "concat (map2 (rx_taken 0) demo_rx_inputs (outputs rx_tick demo_rx demo_rx_inputs)) = [demo_beat]"
    by code_simp
  moreover have "rx_held (final rx_tick demo_rx demo_rx_inputs) 0 = []" by code_simp
  ultimately show ?thesis by simp
qed

text \<open>No receive buffer is credited twice: along every run without a reset the tokens returned
  are pairwise distinct, and no account ever holds more beats than its capacity.\<close>

theorem receipts_returned_once:
  assumes "receipts_init caps n = Inr R0" and "run receipts_tick R0 is = Inr (R, outs)"
    and "list_all (\<lambda>i. \<not> ri_reset i) is"
  shows "distinct (concat (concat (map ri_batches is))) \<and>
    held a (rs_records R) \<le> dget (dict_of caps) a 0"
proof -
  have inv: "receipts_inv (dict_of caps) R0" by (rule receipts_init_inv [OF assms(1)])
  have "receipts_inv (dict_of caps) R" by (rule receipts.run_inv [OF assms(2) inv])
  then show ?thesis using receipts_run_once [OF assms(2) inv assms(3)]
    by (auto simp: receipts_inv_def receipts_ok_def)
qed

definition demo_receipts_inputs :: "receipts_input list" where
  "demo_receipts_inputs =
    (let b = \<lparr>bt_port = 0, bt_channel = Req, bt_vc = 0, bt_pool = False\<rparr>;
         t = (\<lambda>i. \<lparr>rc_id = i, rc_beat = b\<rparr>)
     in [\<lparr>ri_conn = demo_conn, ri_beats = [b], ri_retire = [], ri_batches = [], ri_reset = False\<rparr>,
         \<lparr>ri_conn = demo_conn, ri_beats = [b], ri_retire = [t 0], ri_batches = [], ri_reset = False\<rparr>,
         \<lparr>ri_conn = demo_conn, ri_beats = [], ri_retire = [t 1], ri_batches = [[t 0]], ri_reset = False\<rparr>,
         \<lparr>ri_conn = demo_conn, ri_beats = [], ri_retire = [], ri_batches = [[t 1]], ri_reset = False\<rparr>])"

definition demo_receipts :: receipts where
  "demo_receipts = projr (receipts_init demo_caps 1)"

lemma demo_receipts: "receipts_init demo_caps 1 = Inr demo_receipts"
  unfolding demo_receipts_def by (rule projr_ok) code_simp

theorem receipts_returned_once_witness:
  "distinct (concat (concat (map ri_batches demo_receipts_inputs)))"
  by (rule receipts_returned_once [OF demo_receipts run_final, THEN conjunct1]) code_simp+

text \<open>Returned credit stands for released buffers: on every reachable state an edge changes the
  occupancy of each account by the beats it receives less exactly the credits it grants.\<close>

theorem receipts_balance:
  assumes "receipts_init caps n = Inr R0" and "reach receipts_tick R0 R"
    and "receipts_step R conn beats retire batches False = Inr (R', new, grants)"
  shows "held a (rs_records R') =
    held a (rs_records R) + spent_by a beats - granted_to a grants"
proof -
  have "receipts_inv (dict_of caps) R"
    by (rule receipts.reach_inv [OF assms(2) receipts_init_inv [OF assms(1)]])
  then show ?thesis using receipts_step_edge(2) [OF _ assms(3)] by (simp add: receipts_inv_def)
qed

theorem receipts_balance_witness:
  "held (Account 0 Req (Some 0)) (rs_records (fst (projr
     (receipts_step (final receipts_tick demo_receipts (take 3 demo_receipts_inputs)) demo_conn [] []
        (ri_batches (demo_receipts_inputs ! 3)) False)))) = 0"
  (is "held ?a (rs_records (fst ?out)) = 0")
proof -
  let ?R = "final receipts_tick demo_receipts (take 3 demo_receipts_inputs)"
  have run: "\<not> isl (run receipts_tick demo_receipts (take 3 demo_receipts_inputs))" by code_simp
  have "\<not> isl (receipts_step ?R demo_conn [] [] (ri_batches (demo_receipts_inputs ! 3)) False)" by code_simp
  from projr_ok [OF this] have
    "receipts_step ?R demo_conn [] [] (ri_batches (demo_receipts_inputs ! 3)) False =
       Inr (fst ?out, fst (snd ?out), snd (snd ?out))" by simp
  from receipts_balance [OF demo_receipts reach_final [OF run] this, of ?a]
  have "held ?a (rs_records (fst ?out)) =
      held ?a (rs_records ?R) + spent_by ?a [] - granted_to ?a (snd (snd ?out))" .
  also have "\<dots> = 0" by code_simp
  finally show ?thesis .
qed

text \<open>The credit return queue neither loses nor invents nor reorders metadata: per port, the
  accepted beats are the expansion of the emitted returns followed by the beats still queued.\<close>

theorem return_queue_exact:
  assumes "return_init n depth ch = Inr q0" and "run return_tick q0 is = Inr (q, outs)"
    and "p < length (rq_queues q0)"
  shows "concat (map2 (accepted_at p) is outs) =
    concat (map (\<lambda>out. returns_of (int p) (snd out)) outs) @ rq_queues q ! p"
proof -
  have "rq_queues q0 ! p = []"
    using assms(1,3) by (auto simp: return_init_def split: if_splits)
  moreover have "return_inv p q0" using return_init_ok [OF assms(1)] assms(3) by (simp add: return_inv_def)
  ultimately show ?thesis using return_queue.flow_run [OF assms(2), of p] by simp
qed

definition demo_returns :: return_queue where
  "demo_returns = projr (return_init 1 4 Req)"

definition demo_return_inputs :: "(beat option \<times> int) list" where
  "demo_return_inputs =
     (let b = \<lparr>bt_port = 0, bt_channel = Req, bt_vc = 1, bt_pool = False\<rparr>
      in [(Some b, 0), (Some b, 0), (Some (b\<lparr>bt_vc := 2\<rparr>), 0), (None, 1), (None, 1)])"

theorem return_queue_exact_witness:
  "concat (map (\<lambda>out. returns_of 0 (snd out)) (outputs return_tick demo_returns demo_return_inputs)) =
     map (the \<circ> fst) (take 3 demo_return_inputs)"
proof -
  have init: "return_init 1 4 Req = Inr demo_returns"
    unfolding demo_returns_def by (rule projr_ok) code_simp
  have "concat (map2 (accepted_at 0) demo_return_inputs (outputs return_tick demo_returns demo_return_inputs)) =
      concat (map (\<lambda>out. returns_of (int 0) (snd out)) (outputs return_tick demo_returns demo_return_inputs)) @
      rq_queues (final return_tick demo_returns demo_return_inputs) ! 0"
    by (rule return_queue_exact [OF init run_final]) code_simp+
  moreover have "concat (map2 (accepted_at 0) demo_return_inputs
      (outputs return_tick demo_returns demo_return_inputs)) = map (the \<circ> fst) (take 3 demo_return_inputs)"
    by code_simp
  moreover have "rq_queues (final return_tick demo_returns demo_return_inputs) ! 0 = []" by code_simp
  ultimately show ?thesis by simp
qed

text \<open>The receive FIFO is an exact-capacity queue: along every run the accepted words are the
  words handed out followed by the words it holds, which never exceed its depth.\<close>

theorem fifo_exact:
  assumes "fifo_init depth width = Inr f0" and "run fifo_tick f0 is = Inr (f, outs)"
  shows "pushed is outs = popped outs @ fifo_contents f \<and>
    int (length (fifo_contents f)) \<le> depth \<and> fv_count (fifo_outputs f) = int (length (fifo_contents f))"
proof -
  have init: "fifo_ok f0" "fifo_contents f0 = []" using fifo_init_ok [OF assms(1)] by auto
  have depth: "ff_depth f0 = depth" using assms(1) by (auto simp: fifo_init_def split: if_splits)
  from receive_fifo.run_order [OF assms(2) init(1)] init(2) depth
  show ?thesis by (auto simp: fifo_ok_def fifo_count_length)
qed

definition demo_fifo_inputs :: "(int option \<times> bool) list" where
  "demo_fifo_inputs = [(Some 3, False), (Some 5, False), (Some 7, False), (None, True), (None, True), (None, True)]"

theorem fifo_exact_witness:
  "popped (outputs fifo_tick (projr (fifo_init 2 8)) demo_fifo_inputs) = [3, 5]"
proof -
  let ?f = "projr (fifo_init 2 8)"
  have "pushed demo_fifo_inputs (outputs fifo_tick ?f demo_fifo_inputs) =
      popped (outputs fifo_tick ?f demo_fifo_inputs) @ fifo_contents (final fifo_tick ?f demo_fifo_inputs)"
    by (rule fifo_exact [OF projr_ok run_final, THEN conjunct1]) code_simp+
  moreover have "pushed demo_fifo_inputs (outputs fifo_tick ?f demo_fifo_inputs) = [3, 5]" by code_simp
  moreover have "fifo_contents (final fifo_tick ?f demo_fifo_inputs) = []" by code_simp
  ultimately show ?thesis by simp
qed

text \<open>Initial publication grants exactly the configured buffers: the batches scheduled for an
  account of a port sum up to its capacity.\<close>

theorem publication_exact:
  assumes "publisher_init caps n width ch = Inr p" and "0 \<le> port" and "port < n" and "0 \<le> a" and "a \<le> 4"
  shows "batch_credits (schedule_for a (pub_schedules p ! nat port)) = caps ! (nat port * 5 + nat a)"
proof -
  have p: "pub_schedules p = map (\<lambda>port. port_schedule port ch caps) [0..n - 1]"
    and len: "int (length caps) = n * 5" and nn: "list_all (\<lambda>c. 0 \<le> c) caps"
    using assms(1) by (auto simp: publisher_init_def list_all_iff split: if_splits)
  have sch: "pub_schedules p ! nat port = port_schedule port ch caps" using assms(2,3) by (simp add: p)
  have "nat port * 5 + 5 \<le> length caps" using len assms(2,3) by linarith
  from port_schedule_credits [OF this nn assms(4,5)] show ?thesis by (simp add: sch)
qed

theorem publication_exact_witness:
  "batch_credits (schedule_for 0 (pub_schedules (projr (publisher_init [6, 0, 0, 0, 3] 1 4 Req)) ! 0)) = 6"
proof -
  have "\<not> isl (publisher_init [6, 0, 0, 0, 3] 1 4 Req)" by code_simp
  from publication_exact [OF projr_ok [OF this], of 0 0] show ?thesis by simp
qed

text \<open>The parity checker locates a single-bit data fault: when a valid beat is clean, flipping
  any data bit makes it report exactly the 64-bit group of that bit.\<close>

theorem parity_locates_flip:
  assumes "check_orig_data True data be ctl vp dp bp fp = Inr {}" and "i < 512"
  shows "check_orig_data True (data XOR push_bit i 1) be ctl vp dp bp fp = Inr {Err_Data (i div 64)}"
proof -
  have fit: "fits 512 data" by (rule check_orig_data_fits [OF assms(1)])
  have "fits 512 (push_bit i 1)" using assms(2) by (intro fits_push [of 1]) (auto simp: fits_def)
  with fit have fit': "fits 512 (data XOR push_bit i 1)" by (rule fits_xor)
  obtain other where other: "{} = other \<union> Err_Data ` set (filter (bad_group data dp) data_groups)"
    and out: "check_orig_data True (data XOR push_bit i 1) be ctl vp dp bp fp =
      Inr (other \<union> Err_Data ` set (filter (bad_group (data XOR push_bit i 1) dp) data_groups))"
    using check_orig_data_split [OF assms(1) fit'] by metis
  have clean: "\<not> bad_group data dp g" if "g < 8" for g using other that by auto
  have bit: "parity_loop (fld data (64 * g) 64) 0 XOR 1 \<noteq> fld dp g 1" if "g < 8" for g
    using clean [OF that] parity_bit [of "fld data (64 * g) 64"] by (auto simp: bad_group_def)
  have "i div 64 < 8" using assms(2) by simp
  moreover have "bad_group (data XOR push_bit i 1) dp g \<longleftrightarrow> g = i div 64" if "g < 8" for g
    unfolding bad_group_flip using clean [OF that] bit [OF that] by auto
  ultimately have "set (filter (bad_group (data XOR push_bit i 1) dp) data_groups) = {i div 64}"
    unfolding set_filter set_data_groups by blast
  then show ?thesis using out other by simp
qed

theorem parity_locates_flip_witness:
  "check_orig_data True (0 XOR push_bit 130 1) 0 0 1 0 0 0 = Inr {Err_Data 2}"
proof -
  have "check_orig_data True 0 0 0 1 0 0 0 = Inr {}" by code_simp
  from parity_locates_flip [OF this, of 130] show ?thesis by simp
qed

text \<open>The time-division law: once a group has a phase, the slot \<open>j\<close> edges later belongs to port
  \<open>(p + j) mod n\<close>, and every beat the observer lets pass sits in its slot.\<close>

theorem tdm_slots:
  assumes "run tdm_tick t is = Inr (t', outs)" and "list_all (\<lambda>(beats, reset). \<not> reset) is"
    and "tdm_phase t g = Some p" and "0 \<le> p" and "p < tdm_ports t"
  shows "tdm_phase t' g = Some ((p + int (length is)) mod tdm_ports t) \<and>
    (\<forall>j < length is. \<forall>(ch, q) \<in> set (fst (is ! j)). tdm_group ch = g \<longrightarrow>
        q = (p + int j) mod tdm_ports t)"
  by (rule tdm_run_phase [OF assms])

definition demo_tdm :: tdm where
  "demo_tdm = final tdm_tick (projr (tdm_init 4)) [([(Req, 2)], False)]"

theorem tdm_slots_witness:
  "tdm_phase (final tdm_tick demo_tdm [([], False), ([(Req, 0), (Orig_Data, 0)], False)]) Req = Some 1"
proof -
  let ?is = "[([], False), ([(Req, 0), (Orig_Data, 0)], False)] :: ((channel \<times> int) list \<times> bool) list"
  have "tdm_phase (final tdm_tick demo_tdm ?is) Req = Some ((3 + int (length ?is)) mod tdm_ports demo_tdm)"
    by (rule tdm_slots [OF run_final, THEN conjunct1]) code_simp+
  also have "\<dots> = Some 1" by code_simp
  finally show ?thesis .
qed

text \<open>Staged payloads are emitted exactly and in order: per port, the words of the accepted
  bursts are the words emitted so far followed by the words still held.\<close>

theorem payload_in_order:
  assumes "payload_init caps n width k = Inr b0" and "run payload_tick b0 is = Inr (b, outs)"
  shows "concat (map2 (\<lambda>i out. accepted_words p (pi_candidate i) (pe_control out)) is outs) =
    concat (map (emitted_words p) outs) @ dget (bp_pending b) p []"
  using burst_payload.flow_run [OF assms(2), of p] payload_init_ok [OF assms(1)] by simp

definition demo_payload :: burst_payload where
  "demo_payload = projr (payload_init demo_caps 1 16 2)"

definition demo_words :: "orig_payload list" where
  "demo_words = map (\<lambda>d. \<lparr>op_data = d, op_byte_enable = 1, op_error = False\<rparr>) [10, 20, 30]"

definition demo_payload_inputs :: "payload_input list" where
  "demo_payload_inputs =
     (let idle = \<lparr>pi_conn = demo_conn, pi_candidate = None, pi_returns = [],
                  pi_done = [(0, Req), (0, Orig_Data)]\<rparr>
      in [idle\<lparr>pi_returns := demo_grants\<rparr>, idle,
          idle\<lparr>pi_candidate := Some \<lparr>st_request = demo_request, st_payload = 9, st_data = demo_words\<rparr>\<rparr>,
          idle, idle])"

lemma demo_payload: "payload_init demo_caps 1 16 2 = Inr demo_payload"
  unfolding demo_payload_def by (rule projr_ok) code_simp

theorem payload_in_order_witness:
  "concat (map (emitted_words 0) (outputs payload_tick demo_payload demo_payload_inputs)) = demo_words"
proof -
  let ?outs = "outputs payload_tick demo_payload demo_payload_inputs"
  have "concat (map2 (\<lambda>i out. accepted_words 0 (pi_candidate i) (pe_control out)) demo_payload_inputs ?outs) =
      concat (map (emitted_words 0) ?outs) @
      dget (bp_pending (final payload_tick demo_payload demo_payload_inputs)) 0 []"
    by (rule payload_in_order [OF demo_payload run_final]) code_simp
  moreover have "concat (map2 (\<lambda>i out. accepted_words 0 (pi_candidate i) (pe_control out))
      demo_payload_inputs ?outs) = demo_words" by code_simp
  moreover have "dget (bp_pending (final payload_tick demo_payload demo_payload_inputs)) 0 [] = []"
    by code_simp
  ultimately show ?thesis by simp
qed

text \<open>The payload composition never detects an ownership conflict: on every reachable state its
  two \<open>RuntimeError\<close> checks are unreachable.\<close>

theorem payload_ownership_safe:
  assumes "payload_init caps n width k = Inr b0" and "reach payload_tick b0 b"
  shows "payload_step b conn candidate rs ds False \<noteq> Inl RuntimeError"
proof -
  have "payload_ok b"
    using burst_payload.reach_inv [OF assms(2)] payload_init_ok [OF assms(1)] by blast
  then show ?thesis by (rule payload_no_runtime_error)
qed

theorem payload_ownership_safe_witness:
  "payload_step (final payload_tick demo_payload (take 3 demo_payload_inputs)) demo_conn None [] [] False
     \<noteq> Inl RuntimeError"
proof -
  have "\<not> isl (run payload_tick demo_payload (take 3 demo_payload_inputs))" by code_simp
  from payload_ownership_safe [OF demo_payload reach_final [OF this]] show ?thesis .
qed

text \<open>The connection handshake keeps its order on every reachable state: an acknowledge implies
  its request, a waiting completer requests only after the originator direction is up, and all levels
  are low while reset has not been seen high.\<close>

theorem connection_order:
  assumes "connection_init cycles waits = Inr c0" and "reach connection_tick c0 c"
  shows "(comp_ack (conn_levels c) \<longrightarrow> orig_req (conn_levels c)) \<and>
     (orig_ack (conn_levels c) \<longrightarrow> comp_req (conn_levels c)) \<and>
     (completer_waits c \<and> comp_req (conn_levels c) \<longrightarrow> orig_connected (conn_levels c)) \<and>
     (\<not> reset_n_seen c \<longrightarrow> conn_levels c = no_signals)"
  using connection.reach_inv [OF assms(2) connection_init_order [OF assms(1)]]
  by (simp add: handshake_order_def)

theorem connection_order_witness:
  "orig_connected (conn_levels (final connection_tick (projr (connection_init 1 True))
     [(False, False, False), (True, False, False), (True, True, True), (True, True, True), (True, True, True)]))"
  (is "orig_connected (conn_levels ?c)")
proof -
  have "reach connection_tick (projr (connection_init 1 True)) ?c" by (rule reach_final) code_simp
  moreover have "\<not> isl (connection_init 1 True)" by code_simp
  ultimately have "completer_waits ?c \<and> comp_req (conn_levels ?c) \<longrightarrow> orig_connected (conn_levels ?c)"
    using connection_order [OF projr_ok] by blast
  moreover have "completer_waits ?c \<and> comp_req (conn_levels ?c)" by code_simp
  ultimately show ?thesis by blast
qed

end
