(* ===== verification/Dl_Crc.thy ===== *)
theory Dl_Crc
  imports Prelude
begin

section \<open>Data-link CRC\<close>

text \<open>
  Models \<open>simulator/UAlink2.0/model/ualink/dl_crc.py\<close>: the 32-bit LFSR over the 640 octets of a
  flit, least significant bit of each octet first, with the four CRC octets read as zero. The
  register is a \<open>32 word\<close>. The main lemma is burst detection: two flits whose covered bits differ
  in a window of at most 32 bits have different CRCs.
\<close>

definition crc_bit :: "32 word \<Rightarrow> bool \<Rightarrow> 32 word" where
  "crc_bit remainder b =
     (let feedback = (bit remainder 31 \<noteq> b); shifted = push_bit 1 remainder
      in if feedback then shifted XOR 0x04C11DB7 else shifted)"

definition octet_bits :: "int \<Rightarrow> bool list" where
  "octet_bits octet = map (bit octet) [0, 1, 2, 3, 4, 5, 6, 7]"

text \<open>The loop over \<open>enumerate(flit)\<close>.\<close>

fun crc_octets :: "nat \<Rightarrow> int list \<Rightarrow> 32 word \<Rightarrow> 32 word" where
  "crc_octets offset [] remainder = remainder"
| "crc_octets offset (octet # rest) remainder =
     crc_octets (Suc offset) rest
       (foldl crc_bit remainder (octet_bits (if offset \<ge> 636 then 0 else octet)))"

definition dl_crc_polynomial :: "int list \<Rightarrow> py_error + 32 word" where
  "dl_crc_polynomial flit =
     (if length flit \<noteq> 640 then Inl ValueError
      else Inr (crc_octets 0 flit 0xFFFFFFFF XOR 0xFFFFFFFF))"

subsection \<open>The register step\<close>

definition crc_shift :: "32 word \<Rightarrow> 32 word" where
  "crc_shift r = push_bit 1 r"

definition crc_poly :: "32 word" where
  "crc_poly = 0x04C11DB7"

lemma bit_crc_shift: "bit (crc_shift r) n \<longleftrightarrow> 0 < n \<and> n < 32 \<and> bit r (n - 1)"
  by (cases n) (simp_all only: crc_shift_def bit_push_bit_iff, auto)

lemma bit_crc_poly_0: "bit crc_poly 0"
  by (simp add: crc_poly_def)

lemma crc_shift_xor: "crc_shift (r XOR s) = crc_shift r XOR crc_shift s"
  by (rule bit_word_eqI) (auto simp: bit_crc_shift bit_xor_iff)

lemma crc_shift_0 [simp]: "crc_shift 0 = 0"
  by (simp add: crc_shift_def)

lemma crc_bit_alt: "crc_bit r b = (if bit r 31 \<noteq> b then crc_shift r XOR crc_poly else crc_shift r)"
  by (simp only: crc_bit_def Let_def crc_shift_def crc_poly_def)

lemma crc_shift_inj:
  assumes "crc_shift r = crc_shift s" and "bit r 31 = bit s 31"
  shows "r = s"
proof (rule bit_word_eqI)
  fix n assume "n < LENGTH(32)"
  then consider "n = 31" | "Suc n < 32" by (cases "n = 31") auto
  then show "bit r n = bit s n"
  proof cases
    case 2
    then show ?thesis
      using arg_cong [OF assms(1), of "\<lambda>w. bit w (Suc n)"] by (simp add: bit_crc_shift)
  qed (use assms(2) in simp)
qed

lemma xor_word_cancel:
  fixes r :: "32 word"
  assumes "r XOR c = s XOR c"
  shows "r = s"
proof -
  have "(r XOR c) XOR c = (s XOR c) XOR c" using assms by simp
  then show ?thesis by (simp add: xor.assoc)
qed

lemma crc_bit_inj:
  assumes "crc_bit r b = crc_bit s b"
  shows "r = s"
proof -
  have low: "bit (crc_bit r b) 0 \<longleftrightarrow> bit r 31 \<noteq> b" for r
    by (simp add: crc_bit_alt bit_crc_shift bit_crc_poly_0 bit_xor_iff)
  have top: "bit r 31 = bit s 31" using low [of r] low [of s] assms by auto
  with assms have "crc_shift r = crc_shift s"
    by (auto simp: crc_bit_alt dest: xor_word_cancel split: if_splits)
  then show ?thesis using top by (rule crc_shift_inj)
qed

lemma foldl_crc_inj: "foldl crc_bit r bs = foldl crc_bit s bs \<Longrightarrow> r = s"
  by (induction bs arbitrary: r s) (auto dest: crc_bit_inj)

text \<open>Two registers fed with different bits, seen as the register of their difference.\<close>

definition crc_diff :: "32 word \<Rightarrow> bool \<Rightarrow> 32 word" where
  "crc_diff d e = (if bit d 31 \<noteq> e then crc_shift d XOR crc_poly else crc_shift d)"

lemma crc_bit_diff: "crc_bit r b XOR crc_bit s c = crc_diff (r XOR s) (b \<noteq> c)"
proof -
  have "bit (r XOR s) 31 \<longleftrightarrow> bit r 31 \<noteq> bit s 31" by (simp add: bit_xor_iff)
  then show ?thesis
    by (cases "bit r 31"; cases "bit s 31"; cases b; cases c)
      (simp_all add: crc_bit_alt crc_diff_def crc_shift_xor ac_simps)
qed

lemma crc_bits_diff:
  "length bs = length cs \<Longrightarrow>
     foldl crc_bit r bs XOR foldl crc_bit s cs = foldl crc_diff (r XOR s) (map2 (\<noteq>) bs cs)"
  by (induction bs cs arbitrary: r s rule: list_induct2) (simp_all only: foldl_Nil foldl_Cons zip_Cons_Cons zip_Nil list.map prod.case crc_bit_diff)

text \<open>
  Running backwards from zero: if a difference register vanishes after \<open>k\<close> steps, its \<open>32 - k\<close> low
  bits were zero, since the polynomial has a constant term.
\<close>

lemma crc_diff_back:
  assumes "\<And>n. n < m \<Longrightarrow> \<not> bit (crc_diff d e) n" and "0 < m" and "m \<le> 32"
  shows "\<And>n. n < m - 1 \<Longrightarrow> \<not> bit d n"
proof -
  have "\<not> bit (crc_diff d e) 0" using assms by blast
  then have "crc_diff d e = crc_shift d"
    by (auto simp: crc_diff_def bit_crc_shift bit_crc_poly_0 bit_xor_iff split: if_splits)
  then show "\<not> bit d n" if "n < m - 1" for n
    using assms(1) [of "Suc n"] that assms(3) by (simp add: bit_crc_shift)
qed

lemma crc_diff_vanish:
  "foldl crc_diff d es = 0 \<Longrightarrow> length es \<le> 32 \<Longrightarrow> n < 32 - length es \<Longrightarrow> \<not> bit d n"
proof (induction es arbitrary: d n)
  case Nil
  then show ?case by simp
next
  case (Cons e es)
  have "\<not> bit (crc_diff d e) n" if "n < 32 - length es" for n
    using Cons.IH [of "crc_diff d e" n] Cons.prems that by simp
  from crc_diff_back [OF this] Cons.prems show ?case by auto
qed

lemma crc_diff_window:
  "True \<in> set es \<Longrightarrow> length es \<le> 32 \<Longrightarrow> foldl crc_diff 0 es \<noteq> 0"
proof (induction es)
  case Nil
  then show ?case by simp
next
  case (Cons e es)
  show ?case
  proof (cases e)
    case False
    with Cons show ?thesis by (simp add: crc_diff_def)
  next
    case True
    have one: "bit (crc_diff 0 True) 0" by (simp add: crc_diff_def bit_crc_poly_0)
    show ?thesis
    proof
      assume "foldl crc_diff 0 (e # es) = 0"
      then have "foldl crc_diff (crc_diff 0 True) es = 0" using True by simp
      from crc_diff_vanish [OF this, of 0] Cons.prems one show False by simp
    qed
  qed
qed

lemma crc_bits_burst:
  assumes "length w = length w'" and "length w \<le> 32" and "w \<noteq> w'"
  shows "foldl crc_bit r (pre @ w @ post) \<noteq> foldl crc_bit r (pre @ w' @ post)"
proof
  assume "foldl crc_bit r (pre @ w @ post) = foldl crc_bit r (pre @ w' @ post)"
  then have "foldl crc_bit (foldl crc_bit r pre) w = foldl crc_bit (foldl crc_bit r pre) w'"
    using foldl_crc_inj [of _ post] by simp
  then have "foldl crc_diff 0 (map2 (\<noteq>) w w') = 0"
    using crc_bits_diff [OF assms(1), of "foldl crc_bit r pre" "foldl crc_bit r pre"] by simp
  moreover have "True \<in> set (map2 (\<noteq>) w w')"
    using assms(1,3) by (induction w w' rule: list_induct2) auto
  ultimately show False using crc_diff_window [of "map2 (\<noteq>) w w'"] assms(1,2) by simp
qed

subsection \<open>The flit\<close>

text \<open>The bits the CRC covers, in transmission order.\<close>

definition covered_bits :: "int list \<Rightarrow> bool list" where
  "covered_bits flit = concat (map octet_bits (take 636 flit))"

lemma crc_octets_body:
  "offset + length xs \<le> 636 \<Longrightarrow>
     crc_octets offset (xs @ ys) r =
       crc_octets (offset + length xs) ys (foldl crc_bit r (concat (map octet_bits xs)))"
  by (induction xs arbitrary: offset r) auto

lemma crc_octets_tail:
  "636 \<le> offset \<Longrightarrow>
     crc_octets offset xs r = foldl crc_bit r (concat (map octet_bits (map (\<lambda>_. 0) xs)))"
  by (induction xs arbitrary: offset r) auto

lemma dl_crc_bits:
  assumes "length flit = 640"
  shows "dl_crc_polynomial flit =
    Inr (foldl crc_bit (foldl crc_bit 0xFFFFFFFF (covered_bits flit))
           (concat (map octet_bits [0, 0, 0, 0])) XOR 0xFFFFFFFF)"
proof -
  have s: "take 636 flit @ drop 636 flit = flit" "length (take 636 flit) = 636"
    "length (drop 636 flit) = 4"
    using assms by simp_all
  have z: "map (\<lambda>_. 0) (drop 636 flit) = ([0, 0, 0, 0] :: int list)"
    unfolding map_replicate_const s(3) by (simp add: numeral_eq_Suc)
  have "crc_octets 0 flit 0xFFFFFFFF = crc_octets 0 (take 636 flit @ drop 636 flit) 0xFFFFFFFF"
    by simp
  also have "\<dots> = crc_octets 636 (drop 636 flit) (foldl crc_bit 0xFFFFFFFF (covered_bits flit))"
    using crc_octets_body [of 0 "take 636 flit" "drop 636 flit"] s(2) by (simp add: covered_bits_def)
  also have "\<dots> = foldl crc_bit (foldl crc_bit 0xFFFFFFFF (covered_bits flit))
           (concat (map octet_bits [0, 0, 0, 0]))"
    by (simp only: crc_octets_tail [OF order_refl] z)
  finally show ?thesis using assms by (simp add: dl_crc_polynomial_def)
qed

lemma dl_crc_burst:
  assumes "length f = 640" and "length g = 640"
    and "covered_bits f = pre @ w @ post" and "covered_bits g = pre @ w' @ post"
    and "length w = length w'" and "length w \<le> 32" and "w \<noteq> w'"
  shows "dl_crc_polynomial f \<noteq> dl_crc_polynomial g"
proof
  assume e: "dl_crc_polynomial f = dl_crc_polynomial g"
  then have "foldl crc_bit (foldl crc_bit 0xFFFFFFFF (covered_bits f))
      (concat (map octet_bits [0, 0, 0, 0])) =
    foldl crc_bit (foldl crc_bit 0xFFFFFFFF (covered_bits g)) (concat (map octet_bits [0, 0, 0, 0]))"
    unfolding dl_crc_bits [OF assms(1)] dl_crc_bits [OF assms(2)] sum.inject
    by (rule xor_word_cancel)
  from foldl_crc_inj [OF this] show False
    unfolding assms(3,4) using crc_bits_burst [OF assms(5-7), of "0xFFFFFFFF" pre post] by blast
qed

text \<open>The CRC octets themselves do not influence the result.\<close>

lemma dl_crc_ignores_field:
  "length f = 640 \<Longrightarrow> length g = 640 \<Longrightarrow> take 636 f = take 636 g \<Longrightarrow>
     dl_crc_polynomial f = dl_crc_polynomial g"
  by (simp add: dl_crc_bits covered_bits_def)

end
