(* ===== verification/Dl_Header.thy ===== *)
theory Dl_Header
  imports Prelude
begin

section \<open>Data-link replay header\<close>

text \<open>
  Models \<open>simulator/UAlink2.0/model/ualink/dl_replay_header.py\<close>: the 24-bit logical header with
  its explicit-sequence and command formats. The error reasons (strings in the code) are constructors.
  Both formats round trip through the decoder, stated as an interpretation of the locale \<open>codec\<close>.
\<close>

datatype header_error = Reserved_Op | Zero_Sequence | Zero_Ack_Request

record replay_header =
  rh_op :: int
  rh_payload :: bool
  rh_sequence :: "int option"
  rh_low :: "int option"
  rh_ack_request :: "int option"
  rh_errors :: "header_error list"

definition header_valid :: "replay_header \<Rightarrow> bool" where
  "header_valid h \<longleftrightarrow> rh_errors h = []"

definition check_integer :: "int \<Rightarrow> int \<Rightarrow> int \<Rightarrow> py_error + int" where
  "check_integer value lower upper =
     (if \<not> (lower \<le> value \<and> value \<le> upper) then Inl ValueError else Inr value)"

definition encode_explicit :: "int \<Rightarrow> bool \<Rightarrow> bool \<Rightarrow> py_error + int" where
  "encode_explicit sequence payload replay =
     rbind (check_integer sequence 1 511) (\<lambda>_.
       if replay \<and> \<not> payload then Inl ValueError
       else Inr (push_bit 21 (of_bool replay) OR push_bit 20 (of_bool payload) OR push_bit 8 sequence))"

definition encode_command :: "int \<Rightarrow> int \<Rightarrow> bool \<Rightarrow> bool \<Rightarrow> py_error + int" where
  "encode_command sequence_low ack_request payload request =
     rbind (check_integer sequence_low 0 7) (\<lambda>_.
     rbind (check_integer ack_request 1 511) (\<lambda>_.
       let op = (if request then 3 else 2)
       in Inr (push_bit 21 op OR push_bit 20 (of_bool payload) OR push_bit 11 ack_request OR
               push_bit 8 sequence_low)))"

definition decode_header :: "int \<Rightarrow> py_error + replay_header" where
  "decode_header word =
     rbind (check_integer word 0 16777215) (\<lambda>_.
     let op = fld word 21 3; payload = (fld word 20 1 \<noteq> 0) in
     if op \<ge> 4 \<or> (op = 1 \<and> \<not> payload) then
       Inr \<lparr>rh_op = op, rh_payload = payload, rh_sequence = None, rh_low = None,
            rh_ack_request = None, rh_errors = [Reserved_Op]\<rparr>
     else if op \<in> {0, 1} then
       let sequence = fld word 8 9 in
       Inr \<lparr>rh_op = op, rh_payload = payload, rh_sequence = Some sequence, rh_low = None,
            rh_ack_request = None, rh_errors = (if sequence = 0 then [Zero_Sequence] else [])\<rparr>
     else
       let ack_request = fld word 11 9 in
       Inr \<lparr>rh_op = op, rh_payload = payload, rh_sequence = None, rh_low = Some (fld word 8 3),
            rh_ack_request = Some ack_request,
            rh_errors = (if ack_request = 0 then [Zero_Ack_Request] else [])\<rparr>)"

subsection \<open>Fields of an encoded word\<close>

lemma check_integer_Inr [simp]: "check_integer v a b = Inr w \<longleftrightarrow> w = v \<and> a \<le> v \<and> v \<le> b"
  by (auto simp: check_integer_def)

lemma check_integer_raises [raises_intros]: "ValueError \<in> E \<Longrightarrow> raises_only E (check_integer v a b)"
  by (simp add: check_integer_def raises_only_def)

lemma explicit_fields:
  assumes "fits 9 s" and "fits 3 op"
  shows "fld (push_bit 21 op OR push_bit 20 (of_bool p) OR push_bit 8 s) 21 3 = op"
    and "fld (push_bit 21 op OR push_bit 20 (of_bool p) OR push_bit 8 s) 20 1 = of_bool p"
    and "fld (push_bit 21 op OR push_bit 20 (of_bool p) OR push_bit 8 s) 8 9 = s"
    and "fits 24 (push_bit 21 op OR push_bit 20 (of_bool p) OR push_bit 8 s)"
proof -
  have z: "fld (push_bit 20 (of_bool p)) 21 3 = 0" "fld (push_bit 8 s) 21 3 = 0"
    "fld (push_bit 21 op) 20 1 = 0" "fld (push_bit 8 s) 20 1 = 0"
    "fld (push_bit 21 op) 8 9 = 0" "fld (push_bit 20 (of_bool p)) 8 9 = 0"
    by (rule fld_below [OF fits_1_of_bool] fld_below [OF assms(1)] fld_above; simp)+
  show "fld (push_bit 21 op OR push_bit 20 (of_bool p) OR push_bit 8 s) 21 3 = op"
    by (simp only: fld_or fld_hit [OF assms(2)] z or.right_neutral)
  show "fld (push_bit 21 op OR push_bit 20 (of_bool p) OR push_bit 8 s) 20 1 = of_bool p"
    by (simp only: fld_or fld_hit [OF fits_1_of_bool] z or.right_neutral or.left_neutral)
  show "fld (push_bit 21 op OR push_bit 20 (of_bool p) OR push_bit 8 s) 8 9 = s"
    by (simp only: fld_or fld_hit [OF assms(1)] z or.left_neutral)
  show "fits 24 (push_bit 21 op OR push_bit 20 (of_bool p) OR push_bit 8 s)"
    by (intro fits_or fits_push [OF assms(2)] fits_push [OF fits_1_of_bool] fits_push [OF assms(1)])
      simp_all
qed

lemma command_fields:
  assumes "fits 9 a" and "fits 3 low" and "fits 3 op"
  shows "fld (push_bit 21 op OR push_bit 20 (of_bool p) OR push_bit 11 a OR push_bit 8 low) 21 3 = op"
    and "fld (push_bit 21 op OR push_bit 20 (of_bool p) OR push_bit 11 a OR push_bit 8 low) 20 1 = of_bool p"
    and "fld (push_bit 21 op OR push_bit 20 (of_bool p) OR push_bit 11 a OR push_bit 8 low) 11 9 = a"
    and "fld (push_bit 21 op OR push_bit 20 (of_bool p) OR push_bit 11 a OR push_bit 8 low) 8 3 = low"
    and "fits 24 (push_bit 21 op OR push_bit 20 (of_bool p) OR push_bit 11 a OR push_bit 8 low)"
proof -
  have z: "fld (push_bit 20 (of_bool p)) 21 3 = 0" "fld (push_bit 11 a) 21 3 = 0" "fld (push_bit 8 low) 21 3 = 0"
    "fld (push_bit 21 op) 20 1 = 0" "fld (push_bit 11 a) 20 1 = 0" "fld (push_bit 8 low) 20 1 = 0"
    "fld (push_bit 21 op) 11 9 = 0" "fld (push_bit 20 (of_bool p)) 11 9 = 0" "fld (push_bit 8 low) 11 9 = 0"
    "fld (push_bit 21 op) 8 3 = 0" "fld (push_bit 20 (of_bool p)) 8 3 = 0" "fld (push_bit 11 a) 8 3 = 0"
    by (rule fld_below [OF fits_1_of_bool] fld_below [OF assms(1)] fld_below [OF assms(2)] fld_above; simp)+
  let ?w = "push_bit 21 op OR push_bit 20 (of_bool p) OR push_bit 11 a OR push_bit 8 low"
  show "fld ?w 21 3 = op" by (simp only: fld_or fld_hit [OF assms(3)] z or.right_neutral)
  show "fld ?w 20 1 = of_bool p"
    by (simp only: fld_or fld_hit [OF fits_1_of_bool] z or.right_neutral or.left_neutral)
  show "fld ?w 11 9 = a"
    by (simp only: fld_or fld_hit [OF assms(1)] z or.right_neutral or.left_neutral)
  show "fld ?w 8 3 = low"
    by (simp only: fld_or fld_hit [OF assms(2)] z or.left_neutral)
  show "fits 24 ?w"
    by (intro fits_or fits_push [OF assms(3)] fits_push [OF fits_1_of_bool] fits_push [OF assms(1)]
        fits_push [OF assms(2)]) simp_all
qed

lemma fits_24: "fits 24 w \<Longrightarrow> check_integer w 0 16777215 = Inr w"
  by (simp add: check_integer_def fits_def)

lemma decode_explicit:
  assumes "encode_explicit s p r = Inr w"
  shows "decode_header w = Inr \<lparr>rh_op = (if r then 1 else 0), rh_payload = p, rh_sequence = Some s,
    rh_low = None, rh_ack_request = None, rh_errors = []\<rparr>"
proof -
  have s: "1 \<le> s" "s \<le> 511" "r \<longrightarrow> p"
    and w: "w = push_bit 21 (of_bool r) OR push_bit 20 (of_bool p) OR push_bit 8 s"
    using assms by (auto simp: encode_explicit_def split: if_splits)
  have "fits 9 s" using s by (simp add: fits_def)
  moreover have "fits 3 (of_bool r)" by (simp add: fits_def)
  ultimately have f: "fld w 21 3 = of_bool r" "fld w 20 1 = of_bool p" "fld w 8 9 = s" "fits 24 w"
    unfolding w by (rule explicit_fields)+
  show ?thesis using s
    by (cases r; cases p) (simp_all only: decode_header_def fits_24 [OF f(4)] rbind_Inr Let_def f, simp_all)
qed

lemma decode_command:
  assumes "encode_command low ack p request = Inr w"
  shows "decode_header w = Inr \<lparr>rh_op = (if request then 3 else 2), rh_payload = p, rh_sequence = None,
    rh_low = Some low, rh_ack_request = Some ack, rh_errors = []\<rparr>"
proof -
  let ?op = "(if request then 3 else 2) :: int"
  have s: "0 \<le> low" "low \<le> 7" "1 \<le> ack" "ack \<le> 511"
    and w: "w = push_bit 21 ?op OR push_bit 20 (of_bool p) OR push_bit 11 ack OR push_bit 8 low"
    using assms by (auto simp: encode_command_def Let_def)
  have "fits 9 ack" "fits 3 low" using s by (simp_all add: fits_def)
  moreover have "fits 3 ?op" by (simp add: fits_def)
  ultimately have f: "fld w 21 3 = ?op" "fld w 20 1 = of_bool p" "fld w 11 9 = ack" "fld w 8 3 = low"
    "fits 24 w"
    unfolding w by (rule command_fields)+
  show ?thesis using s
    by (cases request; cases p) (simp_all only: decode_header_def fits_24 [OF f(5)] rbind_Inr Let_def f, simp_all)
qed

lemma encode_explicit_ok:
  "1 \<le> s \<Longrightarrow> s \<le> 511 \<Longrightarrow> (r \<Longrightarrow> p) \<Longrightarrow> \<exists>w. encode_explicit s p r = Inr w"
  by (auto simp: encode_explicit_def check_integer_def)

lemma encode_command_ok:
  "0 \<le> low \<Longrightarrow> low \<le> 7 \<Longrightarrow> 1 \<le> ack \<Longrightarrow> ack \<le> 511 \<Longrightarrow> \<exists>w. encode_command low ack p r = Inr w"
  by (auto simp: encode_command_def check_integer_def Let_def)

subsection \<open>The codec\<close>

text \<open>The header values the sender can mean, and the encoder that the format selects.\<close>

definition header_encode :: "replay_header \<Rightarrow> py_error + int" where
  "header_encode h =
     (case rh_sequence h of
        Some s \<Rightarrow> encode_explicit s (rh_payload h) (rh_op h = 1)
      | None \<Rightarrow> (case (rh_low h, rh_ack_request h) of
          (Some low, Some ack) \<Rightarrow> encode_command low ack (rh_payload h) (rh_op h = 3)
        | _ \<Rightarrow> Inl ValueError))"

definition header_legal :: "replay_header \<Rightarrow> bool" where
  "header_legal h \<longleftrightarrow> rh_errors h = [] \<and>
     ((\<exists>s. rh_sequence h = Some s \<and> 1 \<le> s \<and> s \<le> 511 \<and> rh_low h = None \<and> rh_ack_request h = None \<and>
           (rh_op h = 0 \<or> rh_op h = 1 \<and> rh_payload h)) \<or>
      (\<exists>low ack. rh_sequence h = None \<and> rh_low h = Some low \<and> rh_ack_request h = Some ack \<and>
           0 \<le> low \<and> low \<le> 7 \<and> 1 \<le> ack \<and> ack \<le> 511 \<and> rh_op h \<in> {2, 3}))"

interpretation header: codec header_encode decode_header header_legal
proof unfold_locales
  fix h assume "header_legal h"
  then show "\<exists>w. header_encode h = Inr w"
    using encode_explicit_ok encode_command_ok by (auto simp: header_legal_def header_encode_def)
next
  fix h w assume h: "header_legal h" and w: "header_encode h = Inr w"
  obtain op p sq low ack er where hh: "h = \<lparr>rh_op = op, rh_payload = p, rh_sequence = sq, rh_low = low,
    rh_ack_request = ack, rh_errors = er\<rparr>" by (cases h)
  show "decode_header w = Inr h"
  proof (cases sq)
    case (Some s)
    with h w have "encode_explicit s p (op = 1) = Inr w" by (simp add: hh header_encode_def)
    from decode_explicit [OF this] h Some show ?thesis by (auto simp: hh header_legal_def)
  next
    case None
    with h w obtain l a where "low = Some l" "ack = Some a" "encode_command l a p (op = 3) = Inr w"
      by (auto simp: hh header_encode_def header_legal_def)
    from decode_command [OF this(3)] this(1,2) h None show ?thesis by (auto simp: hh header_legal_def)
  qed
qed

text \<open>What the decoder can return.\<close>

lemma decode_header_total: "0 \<le> w \<Longrightarrow> w \<le> 16777215 \<Longrightarrow> \<exists>h. decode_header w = Inr h"
  by (simp add: decode_header_def check_integer_def Let_def)

lemma decode_command_target:
  assumes "decode_header w = Inr h" and "rh_errors h = []" and "rh_op h \<in> {2, 3}"
  obtains t where "rh_ack_request h = Some t" "1 \<le> t" "t \<le> 511"
proof -
  have "rh_ack_request h = Some (fld w 11 9) \<and> fld w 11 9 \<noteq> 0"
    using assms by (auto simp: decode_header_def Let_def split: if_splits)
  then show thesis using that fld_range [of w 11 9] by fastforce
qed

lemma decode_header_cases:
  assumes "decode_header w = Inr h"
  obtains (reserved) "rh_errors h = [Reserved_Op]" "rh_sequence h = None" "rh_low h = None"
      "rh_ack_request h = None"
  | (zero_seq) "rh_errors h = [Zero_Sequence]" "rh_op h \<in> {0, 1}"
  | (zero_ack) "rh_errors h = [Zero_Ack_Request]" "rh_op h \<notin> {0, 1}"
  | (explicit) s where "rh_errors h = []" "rh_op h \<in> {0, 1}" "rh_sequence h = Some s" "1 \<le> s" "s \<le> 511"
      "rh_low h = None" "rh_ack_request h = None"
  | (command) low ack where "rh_errors h = []" "rh_op h \<in> {2, 3}" "rh_sequence h = None"
      "rh_low h = Some low" "0 \<le> low" "low \<le> 7" "rh_ack_request h = Some ack" "1 \<le> ack" "ack \<le> 511"
proof -
  let ?op = "fld w 21 3" and ?p = "fld w 20 1 \<noteq> 0" and ?s = "fld w 8 9" and ?a = "fld w 11 9"
    and ?l = "fld w 8 3"
  have r: "0 \<le> ?op" "0 \<le> ?s" "?s < 512" "0 \<le> ?a" "?a < 512" "0 \<le> ?l" "?l < 8"
    using fld_range [of w 21 3] fld_range [of w 8 9] fld_range [of w 11 9] fld_range [of w 8 3] by simp_all
  have h: "Inr h = (if ?op \<ge> 4 \<or> (?op = 1 \<and> \<not> ?p) then
       Inr \<lparr>rh_op = ?op, rh_payload = ?p, rh_sequence = None, rh_low = None,
            rh_ack_request = None, rh_errors = [Reserved_Op]\<rparr>
     else if ?op \<in> {0, 1} then
       Inr \<lparr>rh_op = ?op, rh_payload = ?p, rh_sequence = Some ?s, rh_low = None,
            rh_ack_request = None, rh_errors = (if ?s = 0 then [Zero_Sequence] else [])\<rparr>
     else
       (Inr \<lparr>rh_op = ?op, rh_payload = ?p, rh_sequence = None, rh_low = Some ?l,
            rh_ack_request = Some ?a, rh_errors = (if ?a = 0 then [Zero_Ack_Request] else [])\<rparr>
        :: py_error + replay_header))"
    using assms unfolding decode_header_def Let_def by (simp del: One_nat_def)
  consider "?op \<ge> 4 \<or> (?op = 1 \<and> \<not> ?p)" | "\<not> (?op \<ge> 4 \<or> (?op = 1 \<and> \<not> ?p))" "?op \<in> {0, 1}"
    | "\<not> (?op \<ge> 4 \<or> (?op = 1 \<and> \<not> ?p))" "?op \<notin> {0, 1}" by blast
  then show thesis
  proof cases
    case 1
    then show ?thesis using h by (intro reserved) auto
  next
    case 2
    then have hh: "h = \<lparr>rh_op = ?op, rh_payload = ?p, rh_sequence = Some ?s, rh_low = None,
            rh_ack_request = None, rh_errors = (if ?s = 0 then [Zero_Sequence] else [])\<rparr>"
      using h by (simp only: if_False if_True sum.inject)
    show ?thesis
    proof (cases "?s = 0")
      case True
      then show ?thesis using 2(2) by (intro zero_seq) (auto simp: hh)
    next
      case False
      then show ?thesis using 2(2) r by (intro explicit [of ?s]) (auto simp: hh)
    qed
  next
    case 3
    then have hh: "h = \<lparr>rh_op = ?op, rh_payload = ?p, rh_sequence = None, rh_low = Some ?l,
            rh_ack_request = Some ?a, rh_errors = (if ?a = 0 then [Zero_Ack_Request] else [])\<rparr>"
      using h by (simp only: if_False sum.inject)
    have op: "?op \<in> {2, 3}" using 3 r(1) by auto
    show ?thesis
    proof (cases "?a = 0")
      case True
      then show ?thesis using 3(2) by (intro zero_ack) (auto simp: hh)
    next
      case False
      then show ?thesis using op r by (intro command [of ?l ?a]) (auto simp: hh)
    qed
  qed
qed

lemma decode_header_raises [raises_intros]: "ValueError \<in> E \<Longrightarrow> raises_only E (decode_header w)"
  unfolding decode_header_def by (intro raises_intros)

end
