(* ===== verification/Dl_Receiver.thy ===== *)
theory Dl_Receiver
  imports Dl_Header
begin

section \<open>Data-link replay receiver\<close>

text \<open>
  Models \<open>simulator/UAlink2.0/model/ualink/dl_replay_receiver.py\<close>: sequence checking, ambiguity
  after bad flits, and the replay request counters. The record \<open>rx_state\<close> is \<open>RxState\<close> together with
  the configured replay limit of the object. Outcome reasons are constructors. The lemmas show that
  counters stay in range, that exactly the successor sequence is delivered, and that an untrusted
  command is never accepted.
\<close>

datatype rx_reason =
  Backpressure | Invalid_Flit | Header_Error header_error | Payload | Nop | Unexpected_Sequence
| Replay_Command | Ambiguous_Command

record rx_state =
  rx_last :: int
  rx_bad :: int
  rx_unexpected :: int
  rx_ambiguous :: bool
  rx_replay :: bool
  rx_limit :: int

record rx_outcome =
  ro_sequence :: "int option"
  ro_accepted :: bool
  ro_deliver :: bool
  ro_requests :: int
  ro_command :: "replay_header option"
  ro_reason :: rx_reason

definition rx_fresh :: "int \<Rightarrow> int \<Rightarrow> rx_state" where
  "rx_fresh limit lst = \<lparr>rx_last = lst, rx_bad = 0, rx_unexpected = 0, rx_ambiguous = False,
     rx_replay = False, rx_limit = limit\<rparr>"

definition rx_configure :: "rx_state \<Rightarrow> int \<Rightarrow> py_error + rx_state" where
  "rx_configure s value =
     (if \<not> (0 \<le> value \<and> value \<le> 255) then Inl ValueError else Inr (s\<lparr>rx_limit := value\<rparr>))"

definition rx_reset :: "rx_state \<Rightarrow> rx_state" where
  "rx_reset s = rx_fresh (rx_limit s) 511"

definition rx_new :: "int \<Rightarrow> py_error + rx_state" where
  "rx_new limit = rbind (rx_configure (rx_fresh 0 511) limit) (\<lambda>s. Inr (rx_reset s))"

definition rx_count_unexpected :: "rx_state \<Rightarrow> rx_state \<times> int" where
  "rx_count_unexpected s =
     (let count = min 255 (rx_unexpected s + 1); request = (count \<ge> rx_limit s)
      in (s\<lparr>rx_unexpected := (if request then 0 else count)\<rparr>, if request then 3 else 0))"

definition rx_discard :: "rx_state \<Rightarrow> rx_reason \<Rightarrow> rx_state \<times> rx_outcome" where
  "rx_discard s reason =
     (let bad = min 7 (rx_bad s + 1);
          s1 = s\<lparr>rx_bad := bad, rx_ambiguous := rx_ambiguous s \<or> bad \<ge> 7\<rparr>;
          (s2, requests) = (if rx_replay s1 then rx_count_unexpected s1 else (s1, 0))
      in (s2, \<lparr>ro_sequence = None, ro_accepted = False, ro_deliver = False, ro_requests = requests,
               ro_command = None, ro_reason = reason\<rparr>))"

definition rx_backpressure :: "rx_state \<Rightarrow> rx_state \<times> rx_outcome" where
  "rx_backpressure s = rx_discard s Backpressure"

definition next_sequence :: "int \<Rightarrow> int" where
  "next_sequence lst = (if lst = 511 then 1 else lst + 1)"

text \<open>The sequence a flit claims: explicit, or reconstructed from its three low bits.\<close>

definition rx_candidate :: "int \<Rightarrow> replay_header \<Rightarrow> int" where
  "rx_candidate lst h =
     (case rh_sequence h of
        Some s \<Rightarrow> s
      | None \<Rightarrow>
          let delta = (the (rh_low h) - fld lst 0 3) mod 8;
              delta = (if rh_payload h \<and> delta = 0 then 8 else delta)
          in (lst + delta) mod 512)"

definition rx_receive :: "rx_state \<Rightarrow> int \<Rightarrow> bool \<Rightarrow> py_error + rx_state \<times> rx_outcome" where
  "rx_receive s word crc_ok =
     rbind (decode_header word) (\<lambda>h.
       if \<not> crc_ok \<or> rh_errors h = [Reserved_Op] then Inr (rx_discard s Invalid_Flit)
       else if rh_errors h \<noteq> [] then
         Inr (s, \<lparr>ro_sequence = None, ro_accepted = False, ro_deliver = False, ro_requests = 0,
                  ro_command = None, ro_reason = Header_Error (hd (rh_errors h))\<rparr>)
       else
         let command = (if rh_op h \<in> {2, 3} then Some h else None);
             lst = rx_last s;
             sequence = rx_candidate lst h;
             trusted = (rh_sequence h \<noteq> None \<or> (\<not> rx_ambiguous s \<and> \<not> rx_replay s));
             expected = (if rh_payload h then next_sequence lst else lst)
         in
         if trusted \<and> sequence = expected then
           Inr (rx_fresh (rx_limit s) sequence,
                \<lparr>ro_sequence = Some sequence, ro_accepted = True, ro_deliver = rh_payload h,
                 ro_requests = 0, ro_command = command,
                 ro_reason = (if rh_payload h then Payload else Nop)\<rparr>)
         else
           let (s', requests, reason) =
                 (if trusted then
                    (if \<not> rx_replay s then (s\<lparr>rx_replay := True, rx_unexpected := 0\<rparr>, 3, Unexpected_Sequence)
                     else let (s1, r) = rx_count_unexpected s in (s1, r, Unexpected_Sequence))
                  else if rx_replay s then
                    (let (s1, r) = rx_count_unexpected s in (s1, r, Replay_Command))
                  else (s, 0, Ambiguous_Command))
           in Inr (s', \<lparr>ro_sequence = Some sequence, ro_accepted = False, ro_deliver = False,
                        ro_requests = requests, ro_command = command, ro_reason = reason\<rparr>))"

text \<open>One ingress event: a received word with its CRC decision, or a storage discard.\<close>

definition rx_event :: "rx_state \<Rightarrow> (int \<times> bool) option \<Rightarrow> py_error + rx_state \<times> rx_outcome" where
  "rx_event s e = (case e of None \<Rightarrow> Inr (rx_backpressure s) | Some (word, crc_ok) \<Rightarrow> rx_receive s word crc_ok)"

subsection \<open>Ranges\<close>

definition rx_wf :: "rx_state \<Rightarrow> bool" where
  "rx_wf s \<longleftrightarrow> 1 \<le> rx_last s \<and> rx_last s \<le> 511 \<and> 0 \<le> rx_bad s \<and> rx_bad s \<le> 7 \<and>
     0 \<le> rx_unexpected s \<and> rx_unexpected s \<le> 255 \<and> 0 \<le> rx_limit s \<and> rx_limit s \<le> 255 \<and>
     (rx_bad s = 7 \<longrightarrow> rx_ambiguous s)"

lemma rx_fresh_wf: "1 \<le> l \<Longrightarrow> l \<le> 511 \<Longrightarrow> 0 \<le> lim \<Longrightarrow> lim \<le> 255 \<Longrightarrow> rx_wf (rx_fresh lim l)"
  by (simp add: rx_wf_def rx_fresh_def)

lemma rx_count_wf: "rx_wf s \<Longrightarrow> rx_count_unexpected s = (s', r) \<Longrightarrow> rx_wf s' \<and> r \<in> {0, 3} \<and> rx_last s' = rx_last s"
  by (auto simp: rx_wf_def rx_count_unexpected_def Let_def)

lemma rx_discard_wf:
  "rx_wf s \<Longrightarrow> rx_discard s reason = (s', out) \<Longrightarrow>
     rx_wf s' \<and> rx_last s' = rx_last s \<and> \<not> ro_accepted out \<and> \<not> ro_deliver out \<and> ro_requests out \<in> {0, 3}"
  by (auto simp: rx_wf_def rx_discard_def rx_count_unexpected_def Let_def split: prod.splits if_splits)

lemma next_sequence_range: "1 \<le> l \<Longrightarrow> l \<le> 511 \<Longrightarrow> 1 \<le> next_sequence l \<and> next_sequence l \<le> 511"
  by (auto simp: next_sequence_def)

text \<open>What an accepted flit does, and that nothing else moves the last sequence.\<close>

lemma rx_receive_accept:
  assumes "rx_receive s w crc = Inr (s', out)" and "rx_wf s"
  shows "rx_wf s'"
    and "ro_accepted out \<Longrightarrow> ro_deliver out \<Longrightarrow> rx_last s' = next_sequence (rx_last s)"
    and "\<not> ro_deliver out \<Longrightarrow> rx_last s' = rx_last s"
    and "ro_deliver out \<Longrightarrow> ro_accepted out \<and> crc \<and> ro_sequence out = Some (rx_last s')"
    and "ro_accepted out \<Longrightarrow> crc \<and> \<not> rx_ambiguous s' \<and> \<not> rx_replay s'"
    and "ro_requests out \<in> {0, 3}"
proof -
  from assms(1) obtain h where h: "decode_header w = Inr h" by (auto simp: rx_receive_def)
  let ?goal = "rx_wf s' \<and> (ro_accepted out \<longrightarrow> ro_deliver out \<longrightarrow> rx_last s' = next_sequence (rx_last s)) \<and>
    (\<not> ro_deliver out \<longrightarrow> rx_last s' = rx_last s) \<and>
    (ro_deliver out \<longrightarrow> ro_accepted out \<and> crc \<and> ro_sequence out = Some (rx_last s')) \<and>
    (ro_accepted out \<longrightarrow> crc \<and> \<not> rx_ambiguous s' \<and> \<not> rx_replay s') \<and> ro_requests out \<in> {0, 3}"
  have ?goal
  proof (cases "\<not> crc \<or> rh_errors h = [Reserved_Op]")
    case True
    then have "rx_discard s Invalid_Flit = (s', out)" using assms(1) h by (simp add: rx_receive_def)
    from rx_discard_wf [OF assms(2) this] show ?thesis by auto
  next
    case False
    show ?thesis
    proof (cases "rh_errors h = []")
      case errs: False
      then show ?thesis using False assms h by (auto simp: rx_receive_def)
    next
      case True
      let ?sq = "rx_candidate (rx_last s) h"
      let ?exp = "if rh_payload h then next_sequence (rx_last s) else rx_last s"
      let ?tr = "rh_sequence h \<noteq> None \<or> (\<not> rx_ambiguous s \<and> \<not> rx_replay s)"
      have lim: "0 \<le> rx_limit s" "rx_limit s \<le> 255" "1 \<le> rx_last s" "rx_last s \<le> 511"
        using assms(2) by (simp_all add: rx_wf_def)
      show ?thesis
      proof (cases "?tr \<and> ?sq = ?exp")
        case acc: True
        then have out: "s' = rx_fresh (rx_limit s) ?exp" "ro_sequence out = Some ?exp"
          "ro_accepted out" "ro_deliver out = rh_payload h" "ro_requests out = 0"
          using assms(1) h False True by (auto simp: rx_receive_def Let_def)
        have "rx_wf s'"
          using lim next_sequence_range [of "rx_last s"] by (auto simp: out(1) intro!: rx_fresh_wf)
        then show ?thesis using out False by (auto simp: rx_fresh_def)
      next
        case rej: False
        then have "\<not> ro_accepted out \<and> \<not> ro_deliver out \<and> rx_wf s' \<and> rx_last s' = rx_last s \<and>
            ro_requests out \<in> {0, 3}"
        proof (cases ?tr)
          case t: True
          show ?thesis
          proof (cases "rx_replay s")
            case True
            obtain s1 r where c: "rx_count_unexpected s = (s1, r)" by force
            from rx_count_wf [OF assms(2) c] rej t True c assms(1) h False \<open>rh_errors h = []\<close>
            show ?thesis by (auto simp: rx_receive_def Let_def)
          next
            case nr: False
            then have "s' = s\<lparr>rx_replay := True, rx_unexpected := 0\<rparr>" "\<not> ro_accepted out" "\<not> ro_deliver out"
              "ro_requests out = 3"
              using rej t assms(1) h False True by (auto simp: rx_receive_def Let_def)
            then show ?thesis using assms(2) by (simp add: rx_wf_def)
          qed
        next
          case nt: False
          show ?thesis
          proof (cases "rx_replay s")
            case r: True
            obtain s1 r where c: "rx_count_unexpected s = (s1, r)" by force
            from rx_count_wf [OF assms(2) c] rej nt r c assms(1) h False True
            show ?thesis by (auto simp: rx_receive_def Let_def)
          next
            case nr: False
            then show ?thesis using rej nt assms h False True by (auto simp: rx_receive_def Let_def)
          qed
        qed
        then show ?thesis by auto
      qed
    qed
  qed
  then show "rx_wf s'"
    and "ro_accepted out \<Longrightarrow> ro_deliver out \<Longrightarrow> rx_last s' = next_sequence (rx_last s)"
    and "\<not> ro_deliver out \<Longrightarrow> rx_last s' = rx_last s"
    and "ro_deliver out \<Longrightarrow> ro_accepted out \<and> crc \<and> ro_sequence out = Some (rx_last s')"
    and "ro_accepted out \<Longrightarrow> crc \<and> \<not> rx_ambiguous s' \<and> \<not> rx_replay s'"
    and "ro_requests out \<in> {0, 3}"
    by blast+
qed

subsection \<open>Reconstruction from three low bits\<close>

lemma next_sequence_iter:
  "1 \<le> l \<Longrightarrow> l \<le> 511 \<Longrightarrow> k \<le> 511 \<Longrightarrow>
     (next_sequence ^^ k) l = (if l + int k \<le> 511 then l + int k else l + int k - 511)"
proof (induction k)
  case 0
  then show ?case by simp
next
  case (Suc k)
  then have IH: "(next_sequence ^^ k) l = (if l + int k \<le> 511 then l + int k else l + int k - 511)" by simp
  have "(next_sequence ^^ Suc k) l = next_sequence (if l + int k \<le> 511 then l + int k else l + int k - 511)"
    by (simp only: funpow.simps o_apply IH)
  also have "\<dots> = (if l + int (Suc k) \<le> 511 then l + int (Suc k) else l + int (Suc k) - 511)"
    using Suc.prems by (auto simp: next_sequence_def)
  finally show ?case .
qed

lemma rx_reconstruct:
  assumes "1 \<le> l" "l \<le> 511" and "1 \<le> k" "k \<le> 7" and "s = (next_sequence ^^ k) l"
    and "rh_sequence h = None" "rh_payload h" "rh_low h = Some (fld s 0 3)"
  shows "rx_candidate l h = s"
proof -
  have s: "s = (if l + int k \<le> 511 then l + int k else l + int k - 511)"
    using next_sequence_iter [OF assms(1,2), of k] assms(3,4,5) by simp
  have low: "fld x 0 3 = x mod 8" for x :: int by (simp add: fld_def take_bit_eq_mod)
  have delta: "(fld s 0 3 - fld l 0 3) mod 8 = (s - l) mod 8" by (simp add: low mod_diff_eq)
  show ?thesis
  proof (cases "l + int k \<le> 511")
    case True
    then have "(s - l) mod 8 = int k" using assms(3,4) by (simp add: s)
    moreover have "(l + int k) mod 512 = l + int k" using True assms(1) by simp
    ultimately show ?thesis
      using assms(3,4) True unfolding rx_candidate_def assms(6,8) Let_def option.case option.sel delta
      by (simp add: s)
  next
    case False
    then have e: "s = l + int k - 511" by (simp add: s)
    have d: "(s - l) mod 8 = (int k + 1) mod 8" 
    proof -
      have "s - l = int k + 1 + (- 64) * 8" by (simp add: e)
      then show ?thesis by (simp only: mod_mult_self1)
    qed
    have m: "(int k + 1) mod 8 = (if k = 7 then 0 else int k + 1)" using assms(4) by auto
    have w: "(512 + s) mod 512 = s" 
    proof -
      have "0 \<le> s" "s < 512" using False assms(1,2,4) by (simp_all add: e)
      then show ?thesis by simp
    qed
    have dd: "(fld s 0 3 - fld l 0 3) mod 8 = (if k = 7 then 0 else int k + 1)"
      unfolding delta d m ..
    have sum: "l + (int k + 1) = 512 + s" by (simp add: e)
    show ?thesis
    proof (cases "k = 7")
      case True
      then have "l + 8 = 512 + s" using sum by simp
      then show ?thesis
        unfolding rx_candidate_def assms(6,8) Let_def option.case option.sel dd using w True assms(7) by simp
    next
      case False
      then have "rx_candidate l h = (l + (int k + 1)) mod 512"
        unfolding rx_candidate_def assms(6,8) Let_def option.case option.sel dd
        using assms(3,7) by simp
      then show ?thesis unfolding sum w .
    qed
  qed
qed

lemma rx_reconstruct_nop:
  assumes "1 \<le> l" "l \<le> 511" and "rh_sequence h = None" "\<not> rh_payload h" "rh_low h = Some (fld l 0 3)"
  shows "rx_candidate l h = l"
  using assms by (simp add: rx_candidate_def)

subsection \<open>Runs\<close>

lemma rx_event_facts:
  assumes "rx_event s e = Inr (s', out)" and "rx_wf s"
  shows "rx_wf s'"
    and "ro_deliver out \<Longrightarrow> rx_last s' = next_sequence (rx_last s) \<and> ro_sequence out = Some (rx_last s')"
    and "\<not> ro_deliver out \<Longrightarrow> rx_last s' = rx_last s"
proof -
  have "rx_wf s' \<and>
    (ro_deliver out \<longrightarrow> rx_last s' = next_sequence (rx_last s) \<and> ro_sequence out = Some (rx_last s')) \<and>
    (\<not> ro_deliver out \<longrightarrow> rx_last s' = rx_last s)"
  proof (cases e)
    case None
    with assms(1) have "rx_discard s Backpressure = (s', out)"
      by (simp add: rx_event_def rx_backpressure_def)
    from rx_discard_wf [OF assms(2) this] show ?thesis by simp
  next
    case (Some x)
    then obtain w c where "rx_receive s w c = Inr (s', out)"
      using assms(1) by (cases x) (simp add: rx_event_def)
    from rx_receive_accept [OF this assms(2)] show ?thesis by blast
  qed
  then show "rx_wf s'"
    and "ro_deliver out \<Longrightarrow> rx_last s' = next_sequence (rx_last s) \<and> ro_sequence out = Some (rx_last s')"
    and "\<not> ro_deliver out \<Longrightarrow> rx_last s' = rx_last s"
    by blast+
qed

interpretation dl_receiver: machine rx_event rx_wf
  by unfold_locales (rule rx_event_facts(1))

lemma rx_new_wf: "rx_new limit = Inr s \<Longrightarrow> rx_wf s \<and> rx_last s = 511"
  by (auto simp: rx_new_def rx_configure_def rx_reset_def rx_fresh_def rx_wf_def split: if_splits)

definition delivered :: "rx_outcome list \<Rightarrow> int list" where
  "delivered outs = map (the \<circ> ro_sequence) (filter ro_deliver outs)"

lemma rx_run_delivered:
  "run rx_event s es = Inr (s', outs) \<Longrightarrow> rx_wf s \<Longrightarrow>
     delivered outs = map (\<lambda>i. (next_sequence ^^ Suc i) (rx_last s)) [0..<length (delivered outs)] \<and>
     rx_last s' = (next_sequence ^^ length (delivered outs)) (rx_last s)"
proof (induction es arbitrary: s outs)
  case Nil
  then show ?case by (simp add: delivered_def)
next
  case (Cons e es)
  from Cons.prems(1) obtain s1 out outs1 where t: "rx_event s e = Inr (s1, out)"
    and r: "run rx_event s1 es = Inr (s', outs1)" and outs: "outs = out # outs1" by (rule run_ConsE)
  note facts = rx_event_facts [OF t Cons.prems(2)]
  note IH = Cons.IH [OF r facts(1)]
  show ?case
  proof (cases "ro_deliver out")
    case False
    then show ?thesis using IH facts(3) by (simp add: delivered_def outs)
  next
    case True
    define n where "n = length (delivered outs1)"
    have d: "delivered outs = next_sequence (rx_last s) # delivered outs1"
      using facts(2) True by (simp add: delivered_def outs)
    have tail: "delivered outs1 = map (\<lambda>i. (next_sequence ^^ Suc i) (next_sequence (rx_last s))) [0..<n]"
      unfolding n_def using conjunct1 [OF IH] unfolding conjunct1 [OF facts(2) [OF True]] .
    have "map (\<lambda>i. (next_sequence ^^ Suc i) (rx_last s)) [0..<Suc n] =
        next_sequence (rx_last s) # map (\<lambda>i. (next_sequence ^^ Suc (Suc i)) (rx_last s)) [0..<n]"
      by (simp only: map_upt_Suc funpow_0 funpow.simps o_def id_apply)
    moreover have "(next_sequence ^^ Suc (Suc i)) (rx_last s) =
        (next_sequence ^^ Suc i) (next_sequence (rx_last s))" for i
      by (simp only: funpow_Suc_right o_apply)
    ultimately have "map (\<lambda>i. (next_sequence ^^ Suc i) (rx_last s)) [0..<Suc n] = delivered outs"
      by (simp only: d tail)
    then have "delivered outs = map (\<lambda>i. (next_sequence ^^ Suc i) (rx_last s)) [0..<length (delivered outs)]"
      by (simp add: d n_def)
    moreover have "rx_last s' = (next_sequence ^^ length (delivered outs)) (rx_last s)"
      using conjunct2 [OF IH] facts(2) [OF True]
      by (simp only: d list.size add_Suc_right add_0_right funpow_Suc_right o_apply)
    ultimately show ?thesis ..
  qed
qed

end
