(* ===== verification/Dl_Transmitter.thy ===== *)
theory Dl_Transmitter
  imports Dl_Receiver "HOL-Library.Sublist"
begin

section \<open>Data-link replay transmitter\<close>

text \<open>
  Models \<open>simulator/UAlink2.0/model/ualink/dl_replay_transmitter.py\<close>: the replay buffer, the
  scheduled replay, and the received acknowledgement and replay-request commands. The record \<open>tx\<close> is
  \<open>TxState\<close> with the two tuples and the capacity of the object; payload bytes are opaque and hence a
  type parameter. The invariant says that the buffer is exactly the run of sequence numbers from
  the last acknowledgement to the last one sent; with it, the search for a requested entry always
  succeeds (\<open>StopIteration\<close> is unreachable) and an acknowledgement releases an exact prefix, so
  the object is a \<open>flow\<close>.
\<close>

record 'p replay_entry =
  re_sequence :: int
  re_payload :: 'p

record 'p tx =
  tx_last :: int
  tx_ack :: int
  tx_ignore :: int
  tx_replay :: bool
  tx_first :: bool
  tx_capacity :: int
  tx_buffer :: "'p replay_entry list"
  tx_scheduled :: "'p replay_entry list"

datatype command_reason =
  Discard | Tx_Invalid_Flit | No_Command | Request_Ignored | Unexpected_Request | Request
| Unexpected_Ack | Ack

record 'p command_result =
  cr_acknowledged :: "'p replay_entry list"
  cr_started :: bool
  cr_reason :: command_reason

record 'p replay_selection =
  sel_entry :: "'p replay_entry"
  sel_first :: bool

definition tx_reset :: "'p tx \<Rightarrow> 'p tx" where
  "tx_reset s = \<lparr>tx_last = 511, tx_ack = 511, tx_ignore = 0, tx_replay = False, tx_first = False,
     tx_capacity = tx_capacity s, tx_buffer = [], tx_scheduled = []\<rparr>"

definition tx_new :: "int \<Rightarrow> py_error + 'p tx" where
  "tx_new capacity =
     (if capacity < 1 then Inl ValueError
      else Inr \<lparr>tx_last = 511, tx_ack = 511, tx_ignore = 0, tx_replay = False, tx_first = False,
                tx_capacity = capacity, tx_buffer = [], tx_scheduled = []\<rparr>)"

definition resident_count :: "'p tx \<Rightarrow> int" where
  "resident_count s = int (length (remdups (tx_buffer s @ tx_scheduled s)))"

definition can_enqueue :: "'p tx \<Rightarrow> bool" where
  "can_enqueue s \<longleftrightarrow> \<not> tx_replay s \<and> length (tx_buffer s) < 255 \<and> resident_count s < tx_capacity s"

definition tx_enqueue :: "'p tx \<Rightarrow> 'p \<Rightarrow> 'p tx \<times> 'p replay_entry option" where
  "tx_enqueue s payload =
     (if \<not> can_enqueue s then (s, None)
      else let sequence = next_sequence (tx_last s);
               entry = \<lparr>re_sequence = sequence, re_payload = payload\<rparr>
           in (s\<lparr>tx_buffer := tx_buffer s @ [entry], tx_last := sequence\<rparr>, Some entry))"

definition age_ignore :: "'p tx \<Rightarrow> 'p tx" where
  "age_ignore s = s\<lparr>tx_ignore := max 0 (tx_ignore s - 1)\<rparr>"

definition tx_result :: "command_reason \<Rightarrow> 'p command_result" where
  "tx_result reason = \<lparr>cr_acknowledged = [], cr_started = False, cr_reason = reason\<rparr>"

definition tx_discard :: "'p tx \<Rightarrow> 'p tx \<times> 'p command_result" where
  "tx_discard s = (age_ignore s, tx_result Discard)"

fun first_index :: "('x \<Rightarrow> bool) \<Rightarrow> 'x list \<Rightarrow> nat option" where
  "first_index P [] = None"
| "first_index P (x # xs) = (if P x then Some 0 else map_option Suc (first_index P xs))"

text \<open>The two arms of a received command: a replay request and an acknowledgement.\<close>

definition tx_request :: "'p tx \<Rightarrow> int \<Rightarrow> py_error + 'p tx \<times> 'p command_result" where
  "tx_request s target =
     (if tx_ignore s \<noteq> 0 then Inr (s, tx_result Request_Ignored)
      else if \<not> ((target - tx_ack s - 1) mod 511 \<le> 254 \<and> (tx_last s - target) mod 511 \<le> 254) then
        Inr (s, tx_result Unexpected_Request)
      else
        (case first_index (\<lambda>entry. re_sequence entry = target) (tx_buffer s) of
           None \<Rightarrow> Inl StopIteration
         | Some start \<Rightarrow>
             Inr (s\<lparr>tx_scheduled := drop start (tx_buffer s), tx_replay := True, tx_first := True,
                    tx_ignore := 12\<rparr>,
                  \<lparr>cr_acknowledged = [], cr_started = True, cr_reason = Request\<rparr>)))"

definition tx_acknowledge :: "'p tx \<Rightarrow> int \<Rightarrow> 'p tx \<times> 'p command_result" where
  "tx_acknowledge s target =
     (if \<not> ((target - tx_ack s) mod 511 \<le> 255 \<and> (tx_last s - target) mod 511 \<le> 255) then
        (s, tx_result Unexpected_Ack)
      else let count = nat ((target - tx_ack s) mod 511)
           in (s\<lparr>tx_buffer := drop count (tx_buffer s), tx_ack := target\<rparr>,
               \<lparr>cr_acknowledged = take count (tx_buffer s), cr_started = False, cr_reason = Ack\<rparr>))"

definition tx_receive :: "'p tx \<Rightarrow> int \<Rightarrow> bool \<Rightarrow> py_error + 'p tx \<times> 'p command_result" where
  "tx_receive s0 word crc_ok =
     rbind (decode_header word) (\<lambda>header.
       let s = age_ignore s0 in
       if \<not> crc_ok \<or> rh_errors header \<noteq> [] then Inr (s, tx_result Tx_Invalid_Flit)
       else if rh_op header \<notin> {2, 3} then Inr (s, tx_result No_Command)
       else let target = the (rh_ack_request header) in
         if rh_op header = 3 then tx_request s target
         else Inr (tx_acknowledge s target))"

definition next_replay :: "'p tx \<Rightarrow> 'p tx \<times> 'p replay_selection option" where
  "next_replay s =
     (case tx_scheduled s of
        [] \<Rightarrow> (s, None)
      | entry # rest \<Rightarrow>
          (s\<lparr>tx_scheduled := rest, tx_replay := (rest \<noteq> []), tx_first := False\<rparr>,
           Some \<lparr>sel_entry = entry, sel_first = tx_first s\<rparr>))"

text \<open>The operations of the object as one step function, for runs.\<close>

datatype 'p tx_op = Op_Enqueue 'p | Op_Discard | Op_Receive int bool | Op_Next

datatype 'p tx_out =
  Out_Enqueued "'p replay_entry option" | Out_Command "'p command_result"
| Out_Selection "'p replay_selection option"

fun tx_step :: "'p tx \<Rightarrow> 'p tx_op \<Rightarrow> py_error + 'p tx \<times> 'p tx_out" where
  "tx_step s (Op_Enqueue p) = (let (s', e) = tx_enqueue s p in Inr (s', Out_Enqueued e))"
| "tx_step s Op_Discard = (let (s', r) = tx_discard s in Inr (s', Out_Command r))"
| "tx_step s (Op_Receive w c) = rbind (tx_receive s w c) (\<lambda>(s', r). Inr (s', Out_Command r))"
| "tx_step s Op_Next = (let (s', x) = next_replay s in Inr (s', Out_Selection x))"

subsection \<open>The buffer is a run of consecutive sequence numbers\<close>

definition chain :: "int \<Rightarrow> nat \<Rightarrow> int list" where
  "chain a n = map (\<lambda>i. (next_sequence ^^ Suc i) a) [0..<n]"

lemma length_chain [simp]: "length (chain a n) = n"
  by (simp add: chain_def)

lemma chain_Suc: "chain a (Suc n) = chain a n @ [next_sequence ((next_sequence ^^ n) a)]"
  by (simp add: chain_def)

lemma chain_nth: "i < n \<Longrightarrow> chain a n ! i = (next_sequence ^^ Suc i) a"
  by (simp add: chain_def del: funpow.simps)

lemma chain_drop: "k \<le> n \<Longrightarrow> drop k (chain a n) = chain ((next_sequence ^^ k) a) (n - k)"
proof (rule nth_equalityI)
  fix i assume k: "k \<le> n" and "i < length (drop k (chain a n))"
  then have i: "k + i < n" by simp
  have "(next_sequence ^^ Suc (k + i)) a = (next_sequence ^^ Suc i) ((next_sequence ^^ k) a)"
    by (metis add.commute add_Suc_right comp_apply funpow_add)
  with i k show "drop k (chain a n) ! i = chain ((next_sequence ^^ k) a) (n - k) ! i"
    by (simp add: chain_nth del: funpow.simps)
qed simp

lemma chain_take: "k \<le> n \<Longrightarrow> take k (chain a n) = chain a k"
  by (simp add: chain_def take_map del: funpow.simps)

lemma iter_range: "1 \<le> a \<Longrightarrow> a \<le> 511 \<Longrightarrow> k \<le> 511 \<Longrightarrow> 1 \<le> (next_sequence ^^ k) a \<and> (next_sequence ^^ k) a \<le> 511"
  by (simp only: next_sequence_iter) auto

lemma iter_distance:
  assumes "1 \<le> a" "a \<le> 511" and "k \<le> 510"
  shows "((next_sequence ^^ k) a - a) mod 511 = int k"
proof (cases "a + int k \<le> 511")
  case True
  with assms show ?thesis by (simp add: next_sequence_iter)
next
  case False
  then have "(next_sequence ^^ k) a - a = int k + (- 1) * 511" 
    using assms False next_sequence_iter [OF assms(1,2), of k] by simp
  then have "((next_sequence ^^ k) a - a) mod 511 = int k mod 511" by (simp only: mod_mult_self1)
  with assms show ?thesis by simp
qed

lemma iter_of_distance:
  assumes "1 \<le> a" "a \<le> 511" and "1 \<le> t" "t \<le> 511" and "(t - a) mod 511 = int k"
  shows "(next_sequence ^^ k) a = t"
proof -
  have "int k < 511" using assms(5) by (metis pos_mod_bound zero_less_numeral)
  then have k: "k \<le> 510" by simp
  define u where "u = (next_sequence ^^ k) a"
  have u: "1 \<le> u" "u \<le> 511" using iter_range [OF assms(1,2), of k] k by (auto simp: u_def)
  have "(u - a) mod 511 = (t - a) mod 511" using iter_distance [OF assms(1,2) k] assms(5) by (simp add: u_def)
  then have "511 dvd (u - a) - (t - a)" by (simp only: mod_eq_dvd_iff)
  then have "511 dvd u - t" by simp
  then obtain c where c: "u - t = 511 * c" by (rule dvdE)
  have "c = 0"
  proof (rule ccontr)
    assume "c \<noteq> 0"
    then have "c \<le> - 1 \<or> 1 \<le> c" by linarith
    then show False using c u assms(3,4) by linarith
  qed
  with c show ?thesis by (simp add: u_def)
qed

lemma distances_add:
  assumes "(t - a) mod 511 = i" "(b - t) mod 511 = j" "(b - a) mod 511 = n" "i + j < (511::int)"
  shows "i + j = n"
proof -
  have "(b - a) mod 511 = ((t - a) mod 511 + (b - t) mod 511) mod 511" by (simp add: mod_add_eq)
  also have "\<dots> = i + j" using assms(1,2,4) by (metis add_nonneg_nonneg mod_pos_pos_trivial pos_mod_sign zero_less_numeral)
  finally show ?thesis using assms(3) by simp
qed

lemma first_index_map: "first_index (\<lambda>x. f x = y) xs = first_index (\<lambda>x. x = y) (map f xs)"
  by (induction xs) auto

lemma first_index_nth: "distinct xs \<Longrightarrow> i < length xs \<Longrightarrow> first_index (\<lambda>x. x = xs ! i) xs = Some i"
  by (induction xs arbitrary: i) (auto simp: nth_Cons split: nat.splits)

lemma chain_distinct: "1 \<le> a \<Longrightarrow> a \<le> 511 \<Longrightarrow> n \<le> 510 \<Longrightarrow> distinct (chain a n)"
proof -
  assume a: "1 \<le> a" "a \<le> 511" "n \<le> 510"
  have "i = j" if ij: "i < n" "j < n" and e: "(next_sequence ^^ Suc i) a = (next_sequence ^^ Suc j) a" for i j
  proof -
    have "int (Suc i) = int (Suc j)"
      using iter_distance [OF a(1,2), of "Suc i"] iter_distance [OF a(1,2), of "Suc j"] ij a(3)
      unfolding e by linarith
    then show ?thesis by simp
  qed
  then show ?thesis by (auto simp: distinct_conv_nth chain_nth simp del: funpow.simps)
qed

subsection \<open>Invariant\<close>

definition sequences :: "'p replay_entry list \<Rightarrow> int list" where
  "sequences = map re_sequence"

text \<open>A pending replay is a run of sequence numbers that ends at the last one sent.\<close>

definition replay_run :: "int \<Rightarrow> int list \<Rightarrow> bool" where
  "replay_run lst qs \<longleftrightarrow> (\<exists>x. 1 \<le> x \<and> x \<le> 511 \<and> length qs \<le> 255 \<and> qs = chain x (length qs) \<and>
     (next_sequence ^^ length qs) x = lst)"

lemma replay_run_Nil: "1 \<le> l \<Longrightarrow> l \<le> 511 \<Longrightarrow> replay_run l []"
  by (auto simp: replay_run_def chain_def)

lemma replay_run_Cons:
  assumes "replay_run l (q # qs)"
  shows "replay_run l qs" and "1 \<le> q" and "q \<le> 511"
    and "qs \<noteq> [] \<Longrightarrow> hd qs = next_sequence q" and "qs = [] \<Longrightarrow> q = l"
proof -
  from assms obtain x where x: "1 \<le> x" "x \<le> 511" "length qs < 255" "q # qs = chain x (Suc (length qs))"
    "(next_sequence ^^ Suc (length qs)) x = l"
    by (auto simp: replay_run_def simp del: funpow.simps)
  have q: "q = next_sequence x"
    using arg_cong [OF x(4), of hd] by (simp add: chain_def hd_map del: funpow.simps upt.simps) (simp add: hd_upt)
  have t: "qs = chain q (length qs)"
    using arg_cong [OF x(4), of "drop 1"] chain_drop [of 1 "Suc (length qs)" x] by (simp add: q)
  have l: "(next_sequence ^^ length qs) q = l"
    using x(5) by (simp add: q funpow_swap1)
  have r: "1 \<le> q \<and> q \<le> 511" unfolding q by (rule next_sequence_range [OF x(1,2)])
  then show "1 \<le> q" "q \<le> 511" by auto
  show "replay_run l qs" using r t l x(3) unfolding replay_run_def by (intro exI [of _ q]) auto
  show "qs = [] \<Longrightarrow> q = l" using l by simp
  show "qs \<noteq> [] \<Longrightarrow> hd qs = next_sequence q"
    using chain_nth [of 0 "length qs" q] t by (metis funpow_0 funpow_simps_right(2) hd_conv_nth length_greater_0_conv o_apply)
qed

definition tx_ok :: "'p tx \<Rightarrow> bool" where
  "tx_ok s \<longleftrightarrow> 1 \<le> tx_ack s \<and> tx_ack s \<le> 511 \<and> length (tx_buffer s) \<le> 255 \<and>
     sequences (tx_buffer s) = chain (tx_ack s) (length (tx_buffer s)) \<and>
     tx_last s = (next_sequence ^^ length (tx_buffer s)) (tx_ack s) \<and>
     0 \<le> tx_ignore s \<and> tx_ignore s \<le> 12 \<and>
     tx_replay s = (tx_scheduled s \<noteq> []) \<and> (tx_first s \<longrightarrow> tx_replay s) \<and>
     (suffix (tx_scheduled s) (tx_buffer s) \<or> suffix (tx_buffer s) (tx_scheduled s)) \<and>
     replay_run (tx_last s) (sequences (tx_scheduled s)) \<and>
     resident_count s \<le> tx_capacity s"

lemma tx_okD:
  assumes "tx_ok s"
  shows "1 \<le> tx_ack s" "tx_ack s \<le> 511" "length (tx_buffer s) \<le> 255"
    and "sequences (tx_buffer s) = chain (tx_ack s) (length (tx_buffer s))"
    and "tx_last s = (next_sequence ^^ length (tx_buffer s)) (tx_ack s)"
    and "0 \<le> tx_ignore s" "tx_ignore s \<le> 12" "tx_replay s = (tx_scheduled s \<noteq> [])"
    and "tx_first s \<Longrightarrow> tx_scheduled s \<noteq> []"
    and "suffix (tx_scheduled s) (tx_buffer s) \<or> suffix (tx_buffer s) (tx_scheduled s)"
    and "resident_count s \<le> tx_capacity s"
    and "replay_run (tx_last s) (sequences (tx_scheduled s))"
  using assms unfolding tx_ok_def by (elim conjE, blast)+

lemma replay_run_drop:
  assumes "1 \<le> a" "a \<le> 511" "length xs \<le> 255" "sequences xs = chain a (length xs)"
    "l = (next_sequence ^^ length xs) a" "i < length xs"
  shows "replay_run l (sequences (drop i xs))"
proof -
  have "sequences (drop i xs) = chain ((next_sequence ^^ i) a) (length xs - i)"
    using chain_drop [of i "length xs" a] assms(4,6) by (simp add: sequences_def flip: drop_map)
  moreover have "(next_sequence ^^ (length xs - i)) ((next_sequence ^^ i) a) = l"
    using assms(5,6) by (metis comp_apply funpow_add le_add_diff_inverse2 less_imp_le)
  ultimately show ?thesis
    using iter_range [OF assms(1,2), of i] assms(3,6) unfolding replay_run_def
    by (intro exI [of _ "(next_sequence ^^ i) a"]) (simp add: sequences_def)
qed

lemma tx_last_range: "tx_ok s \<Longrightarrow> 1 \<le> tx_last s \<and> tx_last s \<le> 511"
  using iter_range [OF tx_okD(1,2), of s "length (tx_buffer s)"] tx_okD(3) [of s] by (simp add: tx_okD(5))

lemma tx_window: "tx_ok s \<Longrightarrow> (tx_last s - tx_ack s) mod 511 = int (length (tx_buffer s))"
  using iter_distance [OF tx_okD(1,2), of s "length (tx_buffer s)"] tx_okD(3) [of s] by (simp add: tx_okD(5))

lemma resident_mono:
  assumes "set (tx_buffer s') \<union> set (tx_scheduled s') \<subseteq> set (tx_buffer s) \<union> set (tx_scheduled s)"
  shows "resident_count s' \<le> resident_count s"
proof -
  have "card (set (tx_buffer s' @ tx_scheduled s')) \<le> card (set (tx_buffer s @ tx_scheduled s))"
    using assms by (intro card_mono) auto
  then show ?thesis by (simp only: resident_count_def length_remdups_card_conv of_nat_le_iff)
qed

lemma tx_new_ok: "tx_new capacity = Inr s \<Longrightarrow> tx_ok s"
  by (auto simp: tx_new_def tx_ok_def sequences_def chain_def resident_count_def replay_run_Nil split: if_splits)

lemma tx_reset_ok: "1 \<le> tx_capacity s \<Longrightarrow> tx_ok (tx_reset s)"
  by (simp add: tx_reset_def tx_ok_def sequences_def chain_def resident_count_def replay_run_Nil)

lemma age_ignore_ok [simp]: "tx_ok (age_ignore s) = tx_ok s" if "0 \<le> tx_ignore s" "tx_ignore s \<le> 12"
  using that by (auto simp: tx_ok_def age_ignore_def resident_count_def)

lemma age_ignore_simps [simp]:
  "tx_buffer (age_ignore s) = tx_buffer s" "tx_ack (age_ignore s) = tx_ack s"
  "tx_last (age_ignore s) = tx_last s" "tx_scheduled (age_ignore s) = tx_scheduled s"
  "tx_capacity (age_ignore s) = tx_capacity s" "tx_replay (age_ignore s) = tx_replay s"
  "tx_first (age_ignore s) = tx_first s"
  by (simp_all add: age_ignore_def)

lemma age_ok: "tx_ok s \<Longrightarrow> tx_ok (age_ignore s)"
  using tx_okD(6,7) by fastforce

subsection \<open>Operations\<close>

lemma tx_enqueue_ok:
  assumes "tx_ok s" and "tx_enqueue s p = (s', r)"
  shows "tx_ok s'" and "r = None \<Longrightarrow> s' = s \<and> \<not> can_enqueue s"
    and "r = Some e \<Longrightarrow> tx_buffer s' = tx_buffer s @ [e] \<and> re_payload e = p \<and>
           re_sequence e = next_sequence (tx_last s) \<and> tx_last s' = re_sequence e \<and>
           tx_scheduled s = [] \<and> tx_scheduled s' = [] \<and> tx_ack s' = tx_ack s"
proof -
  show "tx_ok s'"
  proof (cases "can_enqueue s")
    case False
    with assms show ?thesis by (simp add: tx_enqueue_def)
  next
    case True
    define e where "e = \<lparr>re_sequence = next_sequence (tx_last s), re_payload = p\<rparr>"
    have s': "s' = s\<lparr>tx_buffer := tx_buffer s @ [e], tx_last := next_sequence (tx_last s)\<rparr>"
      using assms(2) True by (simp add: tx_enqueue_def Let_def e_def)
    have c: "tx_scheduled s = []" "length (tx_buffer s) < 255" "resident_count s < tx_capacity s"
      using True tx_okD(8) [OF assms(1)] by (auto simp: can_enqueue_def)
    have "resident_count s' \<le> resident_count s + 1"
      by (simp add: s' c resident_count_def length_remdups_card_conv card_insert_if)
    moreover have "sequences (tx_buffer s') = chain (tx_ack s') (length (tx_buffer s'))"
      using tx_okD(4,5) [OF assms(1)] by (simp add: s' e_def chain_Suc sequences_def)
    moreover have f: "tx_buffer s' = tx_buffer s @ [e]" "tx_last s' = next_sequence (tx_last s)" "tx_ack s' = tx_ack s"
      "tx_scheduled s' = []" "tx_ignore s' = tx_ignore s" "tx_replay s' = tx_replay s" "tx_first s' = tx_first s"
      "tx_capacity s' = tx_capacity s"
      by (simp_all add: s' c)
    moreover have "replay_run (tx_last s') (sequences (tx_scheduled s'))"
      using next_sequence_range [of "tx_last s"] tx_last_range [OF assms(1)]
      by (simp add: f sequences_def replay_run_Nil)
    ultimately show ?thesis
      using c tx_okD [OF assms(1)] unfolding tx_ok_def by (simp add: f) blast
  qed
  show "r = None \<Longrightarrow> s' = s \<and> \<not> can_enqueue s"
    using assms(2) by (auto simp: tx_enqueue_def Let_def split: if_splits)
  show "r = Some e \<Longrightarrow> tx_buffer s' = tx_buffer s @ [e] \<and> re_payload e = p \<and>
           re_sequence e = next_sequence (tx_last s) \<and> tx_last s' = re_sequence e \<and>
           tx_scheduled s = [] \<and> tx_scheduled s' = [] \<and> tx_ack s' = tx_ack s"
    using assms(2) tx_okD(8) [OF assms(1)]
    by (auto simp: tx_enqueue_def Let_def can_enqueue_def split: if_splits)
qed

lemma next_replay_ok:
  assumes "tx_ok s" and "next_replay s = (s', r)"
  shows "tx_ok s'" and "tx_buffer s' = tx_buffer s \<and> tx_last s' = tx_last s \<and> tx_ack s' = tx_ack s"
    and "r = None \<longleftrightarrow> \<not> tx_replay s"
    and "r = Some x \<Longrightarrow> tx_scheduled s = sel_entry x # tx_scheduled s' \<and> sel_first x = tx_first s"
proof -
  have "tx_ok s' \<and> tx_buffer s' = tx_buffer s \<and> tx_last s' = tx_last s \<and> tx_ack s' = tx_ack s \<and>
     (r = None \<longleftrightarrow> \<not> tx_replay s) \<and>
     (\<forall>x. r = Some x \<longrightarrow> tx_scheduled s = sel_entry x # tx_scheduled s' \<and> sel_first x = tx_first s)"
  proof (cases "tx_scheduled s")
    case Nil
    then show ?thesis using assms tx_okD(8) [OF assms(1)] by (auto simp: next_replay_def)
  next
    case (Cons e es)
    then have s': "s' = s\<lparr>tx_scheduled := es, tx_replay := (es \<noteq> []), tx_first := False\<rparr>"
      and r: "r = Some \<lparr>sel_entry = e, sel_first = tx_first s\<rparr>"
      using assms(2) by (auto simp: next_replay_def)
    have "suffix es (tx_buffer s) \<or> suffix (tx_buffer s) es"
      using tx_okD(10) [OF assms(1)] by (metis Cons suffix_Cons suffix_def suffix_ConsD)
    moreover have "resident_count s' \<le> resident_count s"
      by (rule resident_mono) (auto simp: s' Cons)
    moreover have "replay_run (tx_last s) (sequences es)"
      using replay_run_Cons(1) tx_okD(12) [OF assms(1)] by (simp add: Cons sequences_def)
    ultimately have "tx_ok s'" using tx_okD [OF assms(1)] unfolding tx_ok_def by (simp add: s')
    then show ?thesis using r Cons tx_okD(8) [OF assms(1)] by (simp add: s')
  qed
  then show "tx_ok s'" and "tx_buffer s' = tx_buffer s \<and> tx_last s' = tx_last s \<and> tx_ack s' = tx_ack s"
    and "r = None \<longleftrightarrow> \<not> tx_replay s"
    and "r = Some x \<Longrightarrow> tx_scheduled s = sel_entry x # tx_scheduled s' \<and> sel_first x = tx_first s"
    by blast+
qed

text \<open>
  A replay request inside the window finds its entry: the schedule becomes the unacknowledged
  payloads from the requested one to the last one sent, in transmission order.
\<close>

lemma tx_request_found:
  assumes "tx_ok s" and "1 \<le> t" "t \<le> 511"
    and "(t - tx_ack s - 1) mod 511 \<le> 254" "(tx_last s - t) mod 511 \<le> 254"
  obtains i where "i < length (tx_buffer s)" "first_index (\<lambda>e. re_sequence e = t) (tx_buffer s) = Some i"
    "re_sequence (tx_buffer s ! i) = t" "int i = (t - tx_ack s - 1) mod 511"
proof -
  let ?a = "tx_ack s" and ?n = "length (tx_buffer s)"
  note ok = tx_okD [OF assms(1)]
  define i where "i = nat ((t - ?a - 1) mod 511)"
  have i: "int i = (t - ?a - 1) mod 511" by (simp add: i_def)
  have d: "(t - ?a) mod 511 = int (Suc i)"
  proof -
    have "(t - ?a) mod 511 = ((t - ?a - 1) mod 511 + 1) mod 511" by (simp add: mod_add_left_eq)
    then show ?thesis using assms(4) i by simp
  qed
  have "int (Suc i) + (tx_last s - t) mod 511 = int ?n"
    using distances_add [OF d refl tx_window [OF assms(1)]] assms(4,5) i by simp
  then have lt: "i < ?n" using pos_mod_sign [of 511 "tx_last s - t"] by linarith
  have at: "sequences (tx_buffer s) ! i = t"
    using iter_of_distance [OF ok(1,2) assms(2,3) d] by (simp only: ok(4) chain_nth [OF lt])
  have "distinct (sequences (tx_buffer s))"
    unfolding ok(4) by (rule chain_distinct) (use ok(1,2,3) in auto)
  then have "first_index (\<lambda>x. x = sequences (tx_buffer s) ! i) (sequences (tx_buffer s)) = Some i"
    by (rule first_index_nth) (simp add: sequences_def lt)
  then have "first_index (\<lambda>e. re_sequence e = t) (tx_buffer s) = Some i"
    unfolding at by (simp add: first_index_map [of re_sequence] sequences_def)
  moreover have "re_sequence (tx_buffer s ! i) = t" using at lt by (simp add: sequences_def)
  ultimately show thesis using that lt i by blast
qed

lemma tx_request_cases:
  assumes "tx_ok s" and "1 \<le> t" "t \<le> 511"
  shows "\<exists>s' r. tx_request s t = Inr (s', r) \<and> tx_ok s' \<and> cr_acknowledged r = [] \<and>
    tx_buffer s' = tx_buffer s \<and> tx_last s' = tx_last s \<and> tx_ack s' = tx_ack s \<and>
    (cr_started r \<longrightarrow> (\<exists>i < length (tx_buffer s). re_sequence (tx_buffer s ! i) = t \<and>
        tx_scheduled s' = drop i (tx_buffer s) \<and> tx_first s' \<and> tx_replay s')) \<and>
    (\<not> cr_started r \<longrightarrow> s' = s)"
proof (cases "tx_ignore s = 0 \<and> (t - tx_ack s - 1) mod 511 \<le> 254 \<and> (tx_last s - t) mod 511 \<le> 254")
  case False
  then show ?thesis using assms(1) by (auto simp: tx_request_def tx_result_def)
next
  case True
  then obtain i where i: "i < length (tx_buffer s)" "first_index (\<lambda>e. re_sequence e = t) (tx_buffer s) = Some i"
    "re_sequence (tx_buffer s ! i) = t"
    using tx_request_found [OF assms] by metis
  define s' where "s' = s\<lparr>tx_scheduled := drop i (tx_buffer s), tx_replay := True, tx_first := True, tx_ignore := 12\<rparr>"
  have f: "tx_buffer s' = tx_buffer s" "tx_last s' = tx_last s" "tx_ack s' = tx_ack s"
    "tx_scheduled s' = drop i (tx_buffer s)" "tx_ignore s' = 12" "tx_replay s'" "tx_first s'"
    "tx_capacity s' = tx_capacity s" by (simp_all add: s'_def)
  have "resident_count s' \<le> resident_count s"
    by (rule resident_mono) (use set_drop_subset [of i "tx_buffer s"] in \<open>auto simp: f\<close>)
  moreover have "suffix (tx_scheduled s') (tx_buffer s')" by (simp add: f suffix_drop)
  moreover have "replay_run (tx_last s') (sequences (tx_scheduled s'))"
    unfolding f by (rule replay_run_drop) (use tx_okD(1-5) [OF assms(1)] i(1) in auto)
  ultimately have "tx_ok s'" using tx_okD [OF assms(1)] i(1) unfolding tx_ok_def by (simp add: f)
  moreover have "tx_request s t = Inr (s', \<lparr>cr_acknowledged = [], cr_started = True, cr_reason = Request\<rparr>)"
    using True i(2) by (simp add: tx_request_def s'_def)
  ultimately show ?thesis using i f by auto
qed

text \<open>An acknowledgement releases exactly the payloads up to the acknowledged one.\<close>

lemma tx_acknowledge_ok:
  assumes "tx_ok s" and "1 \<le> t" "t \<le> 511" and "tx_acknowledge s t = (s', r)"
  shows "tx_ok s'" and "tx_buffer s = cr_acknowledged r @ tx_buffer s'"
    and "cr_reason r = Ack \<Longrightarrow> tx_ack s' = t \<and>
           sequences (cr_acknowledged r) = chain (tx_ack s) (nat ((t - tx_ack s) mod 511))"
    and "tx_last s' = tx_last s" and "tx_scheduled s' = tx_scheduled s"
proof -
  note ok = tx_okD [OF assms(1)]
  let ?P = "tx_ok s' \<and> tx_buffer s = cr_acknowledged r @ tx_buffer s' \<and>
    (cr_reason r = Ack \<longrightarrow> tx_ack s' = t \<and>
       sequences (cr_acknowledged r) = chain (tx_ack s) (nat ((t - tx_ack s) mod 511))) \<and>
    tx_last s' = tx_last s \<and> tx_scheduled s' = tx_scheduled s"
  have ?P
  proof (cases "(t - tx_ack s) mod 511 \<le> 255 \<and> (tx_last s - t) mod 511 \<le> 255")
    case False
    then have "s' = s" "r = tx_result Unexpected_Ack" using assms(4) by (auto simp: tx_acknowledge_def)
    then show ?thesis using assms(1) by (simp add: tx_result_def)
  next
    case True
    let ?n = "length (tx_buffer s)"
    define k where "k = nat ((t - tx_ack s) mod 511)"
    have k: "(t - tx_ack s) mod 511 = int k" by (simp add: k_def)
    have "int k + (tx_last s - t) mod 511 = int ?n"
      using distances_add [OF k refl tx_window [OF assms(1)]] True k by simp
    then have le: "k \<le> ?n" using pos_mod_sign [of 511 "tx_last s - t"] by linarith
    have at: "(next_sequence ^^ k) (tx_ack s) = t" by (rule iter_of_distance [OF ok(1,2) assms(2,3) k])
    have s': "s' = s\<lparr>tx_buffer := drop k (tx_buffer s), tx_ack := t\<rparr>"
      and r: "r = \<lparr>cr_acknowledged = take k (tx_buffer s), cr_started = False, cr_reason = Ack\<rparr>"
      using assms(4) True by (simp_all add: tx_acknowledge_def Let_def k_def)
    have f: "tx_buffer s' = drop k (tx_buffer s)" "tx_last s' = tx_last s" "tx_ack s' = t"
      "tx_scheduled s' = tx_scheduled s" "tx_ignore s' = tx_ignore s" "tx_replay s' = tx_replay s"
      "tx_first s' = tx_first s" "tx_capacity s' = tx_capacity s" by (simp_all add: s')
    have sq: "sequences (tx_buffer s') = chain t (?n - k)"
      using chain_drop [OF le, of "tx_ack s"] ok(4) at by (simp add: f sequences_def flip: drop_map)
    have "(next_sequence ^^ (?n - k)) ((next_sequence ^^ k) (tx_ack s)) = (next_sequence ^^ ?n) (tx_ack s)"
      using le by (metis comp_apply funpow_add le_add_diff_inverse2)
    then have last_: "tx_last s = (next_sequence ^^ (?n - k)) t" using ok(5) at by simp
    have "suffix (tx_scheduled s') (tx_buffer s') \<or> suffix (tx_buffer s') (tx_scheduled s')"
      unfolding f using ok(10) suffix_drop suffix_order.trans suffix_same_cases by blast
    moreover have "resident_count s' \<le> resident_count s"
      by (rule resident_mono) (use set_drop_subset [of k "tx_buffer s"] in \<open>auto simp: f\<close>)
    ultimately have "tx_ok s'" using ok sq last_ le assms(2,3) unfolding tx_ok_def by (simp add: f)
    moreover have "sequences (take k (tx_buffer s)) = chain (tx_ack s) k"
      using chain_take [OF le, of "tx_ack s"] ok(4) by (simp add: sequences_def flip: take_map)
    ultimately show ?thesis by (simp add: f r k_def)
  qed
  then show "tx_ok s'" and "tx_buffer s = cr_acknowledged r @ tx_buffer s'"
    and "cr_reason r = Ack \<Longrightarrow> tx_ack s' = t \<and>
           sequences (cr_acknowledged r) = chain (tx_ack s) (nat ((t - tx_ack s) mod 511))"
    and "tx_last s' = tx_last s" and "tx_scheduled s' = tx_scheduled s"
    by blast+
qed

lemma tx_discard_ok:
  "tx_ok s \<Longrightarrow> tx_discard s = (s', r) \<Longrightarrow>
     tx_ok s' \<and> tx_buffer s' = tx_buffer s \<and> tx_last s' = tx_last s \<and> tx_ack s' = tx_ack s \<and>
     tx_scheduled s' = tx_scheduled s \<and> cr_acknowledged r = []"
  using age_ok [of s] by (auto simp: tx_discard_def tx_result_def)

text \<open>
  On every decodable word the transmitter answers; in particular the search for a requested entry
  never fails.
\<close>

lemma tx_receive_ok:
  assumes "tx_ok s" and "0 \<le> w" "w \<le> 16777215"
  shows "\<exists>s' r. tx_receive s w c = Inr (s', r) \<and> tx_ok s' \<and>
    tx_buffer s = cr_acknowledged r @ tx_buffer s' \<and> tx_last s' = tx_last s \<and>
    (cr_reason r \<noteq> Ack \<longrightarrow> tx_buffer s' = tx_buffer s)"
proof -
  from assms(2,3) obtain h where h: "decode_header w = Inr h"
    using decode_header_total by blast
  let ?s = "age_ignore s"
  have ok: "tx_ok ?s" by (rule age_ok [OF assms(1)])
  show ?thesis
  proof (cases "c \<and> rh_errors h = [] \<and> rh_op h \<in> {2, 3}")
    case False
    then show ?thesis using h ok by (auto simp: tx_receive_def Let_def tx_result_def)
  next
    case True
    then obtain t where t: "rh_ack_request h = Some t" "1 \<le> t" "t \<le> 511"
      using decode_command_target [OF h] by blast
    show ?thesis
    proof (cases "rh_op h = 3")
      case req: True
      from tx_request_cases [OF ok t(2,3)] h True req t(1)
      show ?thesis by (auto simp: tx_receive_def Let_def)
    next
      case ack: False
      obtain s' r where a: "tx_acknowledge ?s t = (s', r)" by force
      note facts = tx_acknowledge_ok [OF ok t(2,3) a]
      have "cr_reason r \<noteq> Ack \<longrightarrow> tx_buffer s' = tx_buffer s"
        using a by (auto simp: tx_acknowledge_def Let_def split: if_splits)
      then show ?thesis using facts h True ack t(1) a by (auto simp: tx_receive_def Let_def)
    qed
  qed
qed

lemma tx_receive_range: "tx_receive s w c = Inr x \<Longrightarrow> 0 \<le> w \<and> w \<le> 16777215"
  by (auto simp: tx_receive_def decode_header_def)

fun tx_taken :: "'p tx_op \<Rightarrow> 'p tx_out \<Rightarrow> 'p replay_entry list" where
  "tx_taken (Op_Enqueue p) (Out_Enqueued (Some e)) = [e]"
| "tx_taken _ _ = []"

fun tx_released :: "'p tx_out \<Rightarrow> 'p replay_entry list" where
  "tx_released (Out_Command r) = cr_acknowledged r"
| "tx_released _ = []"

lemma tx_step_ok:
  assumes "tx_ok s" and "tx_step s i = Inr (s', out)"
  shows "tx_ok s'" and "tx_buffer s @ tx_taken i out = tx_released out @ tx_buffer s'"
proof -
  have "tx_ok s' \<and> tx_buffer s @ tx_taken i out = tx_released out @ tx_buffer s'"
  proof (cases i)
    case (Op_Enqueue p)
    obtain t r where e: "tx_enqueue s p = (t, r)" by force
    then have "s' = t" "out = Out_Enqueued r" using assms(2) Op_Enqueue by (auto simp: Let_def)
    with tx_enqueue_ok [OF assms(1) e] Op_Enqueue show ?thesis by (cases r) auto
  next
    case Op_Discard
    obtain t r where e: "tx_discard s = (t, r)" by force
    with tx_discard_ok [OF assms(1) e] assms(2) Op_Discard show ?thesis by auto
  next
    case (Op_Receive w c)
    then obtain r where r: "tx_receive s w c = Inr (s', r)" "out = Out_Command r" using assms(2) by auto
    from tx_receive_range [OF r(1)] tx_receive_ok [OF assms(1), of w c] r Op_Receive
    show ?thesis by auto
  next
    case Op_Next
    obtain t r where e: "next_replay s = (t, r)" by force
    with next_replay_ok [OF assms(1) e] assms(2) Op_Next show ?thesis by auto
  qed
  then show "tx_ok s'" and "tx_buffer s @ tx_taken i out = tx_released out @ tx_buffer s'" by auto
qed

interpretation dl_transmitter: flow tx_step tx_ok tx_buffer tx_taken tx_released
  by unfold_locales (rule tx_step_ok, assumption+)+

fun tx_word_ok :: "'p tx \<Rightarrow> 'p tx_op \<Rightarrow> bool" where
  "tx_word_ok s (Op_Receive w c) \<longleftrightarrow> 0 \<le> w \<and> w \<le> 16777215"
| "tx_word_ok s _ \<longleftrightarrow> True"

interpretation dl_transmitter_total: total_machine tx_step tx_ok tx_word_ok
proof unfold_locales
  fix s :: "'p tx" and i
  assume a: "tx_ok s" "tx_word_ok s i"
  show "\<exists>s' out. tx_step s i = Inr (s', out)"
  proof (cases i)
    case (Op_Receive w c)
    with a tx_receive_ok [OF a(1), of w c] show ?thesis by auto
  qed (auto simp: Let_def split: prod.splits)
qed

end
