(* ===== verification/Dl_Scheduler.thy ===== *)
theory Dl_Scheduler
  imports Dl_Transmitter
begin

section \<open>Data-link replay scheduler\<close>

text \<open>
  Models \<open>simulator/UAlink2.0/model/ualink/dl_replay_scheduler.py\<close>: one end of a link, with its
  replay transmitter, its replay receiver and the choice of the outgoing header. The record \<open>sched\<close>
  holds the two objects and \<open>ScheduleState\<close>. The lemmas show that sending never raises on a legal
  codeword group, that the header sent always decodes to what was meant, that an explicit header
  appears in every seven sends, and that over a clean link every payload that is sent, new or
  replayed, is delivered by the peer.
\<close>

record 'p sched =
  sc_tx :: "'p tx"
  sc_rx :: rx_state
  sc_explicit :: int
  sc_requests :: int
  sc_target :: int
  sc_request_group :: "int option"
  sc_flit_group :: "int option"

record 'p scheduled_flit =
  sf_header :: int
  sf_payload :: "'p option"
  sf_sequence :: int
  sf_accepted :: bool
  sf_replayed :: bool
  sf_first :: bool

record 'p received_flit =
  rf_receiver :: rx_outcome
  rf_command :: "'p command_result"
  rf_payload :: "'p option"

definition sched_new :: "int \<Rightarrow> int \<Rightarrow> py_error + 'p sched" where
  "sched_new capacity replay_limit =
     rbind (tx_new capacity) (\<lambda>tx. rbind (rx_new replay_limit) (\<lambda>rx.
       Inr \<lparr>sc_tx = tx, sc_rx = rx, sc_explicit = 7, sc_requests = 0, sc_target = 0,
            sc_request_group = None, sc_flit_group = None\<rparr>))"

definition sched_reset :: "'p sched \<Rightarrow> 'p sched" where
  "sched_reset s = \<lparr>sc_tx = tx_reset (sc_tx s), sc_rx = rx_reset (sc_rx s), sc_explicit = 7,
     sc_requests = 0, sc_target = 0, sc_request_group = None, sc_flit_group = None\<rparr>"

definition receive_result ::
  "'p sched \<Rightarrow> rx_outcome \<Rightarrow> 'p command_result \<Rightarrow> 'p option \<Rightarrow> 'p sched \<times> 'p received_flit" where
  "receive_result s receiver command payload =
     ((if ro_requests receiver \<noteq> 0 then s\<lparr>sc_requests := 3\<rparr> else s),
      \<lparr>rf_receiver = receiver, rf_command = command,
       rf_payload = (if ro_deliver receiver then payload else None)\<rparr>)"

definition sched_receive ::
  "'p sched \<Rightarrow> int \<Rightarrow> 'p option \<Rightarrow> bool \<Rightarrow> py_error + 'p sched \<times> 'p received_flit" where
  "sched_receive s word payload crc_ok =
     rbind (decode_header word) (\<lambda>header.
       if crc_ok \<and> header_valid header \<and> rh_payload header \<noteq> (payload \<noteq> None) then Inl ValueError
       else
         rbind (rx_receive (sc_rx s) word crc_ok) (\<lambda>(rx, receiver).
         rbind (tx_receive (sc_tx s) word crc_ok) (\<lambda>(tx, command).
           Inr (receive_result (s\<lparr>sc_rx := rx, sc_tx := tx\<rparr>) receiver command payload))))"

definition sched_discard :: "'p sched \<Rightarrow> 'p sched \<times> 'p received_flit" where
  "sched_discard s =
     (let (rx, receiver) = rx_backpressure (sc_rx s); (tx, command) = tx_discard (sc_tx s)
      in receive_result (s\<lparr>sc_rx := rx, sc_tx := tx\<rparr>) receiver command None)"

text \<open>The flit source: the scheduled replay first, otherwise the offered payload if it fits.\<close>

definition send_source ::
  "'p tx \<Rightarrow> 'p option \<Rightarrow> 'p tx \<times> 'p replay_entry option \<times> bool \<times> bool" where
  "send_source tx payload =
     (case next_replay tx of
        (tx', Some selected) \<Rightarrow> (tx', Some (sel_entry selected), True, sel_first selected)
      | (tx', None) \<Rightarrow>
          (case payload of
             None \<Rightarrow> (tx', None, False, False)
           | Some p \<Rightarrow> (let (tx'', entry) = tx_enqueue tx' p in (tx'', entry, False, False))))"

text \<open>The header: explicit, a replay request, or an acknowledgement, with the new counters.\<close>

definition send_header ::
  "'p sched \<Rightarrow> int \<Rightarrow> int \<Rightarrow> bool \<Rightarrow> bool \<Rightarrow> bool \<Rightarrow>
     py_error + int \<times> int \<times> int \<times> int \<times> int option" where
  "send_header s codeword_group sequence has_payload replayed first_replay =
     (let count = max 0 (sc_explicit s - 1);
          pending = sc_requests s;
          target = sc_target s;
          request_group = sc_request_group s;
          last_received = rx_last (sc_rx s)
      in
      if first_replay \<or> count = 0 then
        rbind (encode_explicit sequence has_payload replayed) (\<lambda>word.
          Inr (word, 7, pending, target, request_group))
      else if pending \<noteq> 0 \<and> Some codeword_group \<noteq> request_group then
        (let target = (if pending = 3 then next_sequence last_received else target)
         in rbind (encode_command (fld sequence 0 3) target has_payload True) (\<lambda>word.
              Inr (word, count, pending - 1, target, Some codeword_group)))
      else
        rbind (encode_command (fld sequence 0 3) last_received has_payload False) (\<lambda>word.
          Inr (word, count, pending, target, request_group)))"

definition sched_send ::
  "'p sched \<Rightarrow> int \<Rightarrow> 'p option \<Rightarrow> py_error + 'p sched \<times> 'p scheduled_flit" where
  "sched_send s codeword_group payload =
     (if codeword_group < 0 \<or> (case sc_flit_group s of None \<Rightarrow> False | Some g \<Rightarrow> codeword_group < g)
      then Inl ValueError
      else
        let (tx, entry, replayed, first_replay) = send_source (sc_tx s) payload;
            accepted = (payload \<noteq> None \<and> entry \<noteq> None \<and> \<not> replayed);
            sequence = (case entry of Some e \<Rightarrow> re_sequence e | None \<Rightarrow> tx_last tx);
            has_payload = (entry \<noteq> None)
        in
        rbind (send_header s codeword_group sequence has_payload replayed first_replay)
          (\<lambda>(word, count, pending, target, request_group).
             Inr (s\<lparr>sc_tx := tx, sc_explicit := count, sc_requests := pending, sc_target := target,
                    sc_request_group := request_group, sc_flit_group := Some codeword_group\<rparr>,
                  \<lparr>sf_header = word, sf_payload = map_option re_payload entry, sf_sequence = sequence,
                   sf_accepted = accepted, sf_replayed = replayed, sf_first = first_replay\<rparr>)))"

subsection \<open>Invariant\<close>

definition sched_ok :: "'p sched \<Rightarrow> bool" where
  "sched_ok s \<longleftrightarrow> tx_ok (sc_tx s) \<and> rx_wf (sc_rx s) \<and> 1 \<le> sc_explicit s \<and> sc_explicit s \<le> 7 \<and>
     0 \<le> sc_requests s \<and> sc_requests s \<le> 3 \<and>
     (sc_requests s \<in> {1, 2} \<longrightarrow> 1 \<le> sc_target s \<and> sc_target s \<le> 511)"

definition group_ok :: "'p sched \<Rightarrow> int \<Rightarrow> bool" where
  "group_ok s g \<longleftrightarrow> 0 \<le> g \<and> pred_option (\<lambda>h. h \<le> g) (sc_flit_group s)"

lemma sched_okD:
  assumes "sched_ok s"
  shows "tx_ok (sc_tx s)" "rx_wf (sc_rx s)" "1 \<le> sc_explicit s" "sc_explicit s \<le> 7"
    "0 \<le> sc_requests s" "sc_requests s \<le> 3"
    "sc_requests s \<noteq> 0 \<Longrightarrow> sc_requests s \<noteq> 3 \<Longrightarrow> 1 \<le> sc_target s \<and> sc_target s \<le> 511"
  using assms unfolding sched_ok_def by auto

lemma sched_new_ok: "sched_new capacity limit = Inr s \<Longrightarrow> sched_ok s"
  by (auto simp: sched_new_def sched_ok_def tx_new_ok rx_new_wf)

lemma rx_wfD: "rx_wf s \<Longrightarrow> 1 \<le> rx_last s \<and> rx_last s \<le> 511"
  by (simp add: rx_wf_def)

text \<open>What a flit carries, as the transmitter sees it.\<close>

lemma send_source_ok:
  assumes "tx_ok tx" and "send_source tx payload = (tx', entry, replayed, first)"
  shows "tx_ok tx'" and "replayed \<longleftrightarrow> tx_scheduled tx \<noteq> []"
    and "replayed \<Longrightarrow> \<exists>e. entry = Some e \<and> tx_scheduled tx = e # tx_scheduled tx' \<and>
           tx_buffer tx' = tx_buffer tx \<and> tx_last tx' = tx_last tx"
    and "\<not> replayed \<Longrightarrow> tx_scheduled tx' = [] \<and>
           (case entry of
              None \<Rightarrow> tx_buffer tx' = tx_buffer tx \<and> tx_last tx' = tx_last tx
            | Some e \<Rightarrow> tx_buffer tx' = tx_buffer tx @ [e] \<and> re_sequence e = next_sequence (tx_last tx) \<and>
                tx_last tx' = re_sequence e \<and> payload = Some (re_payload e))"
    and "first \<longleftrightarrow> replayed \<and> tx_first tx"
    and "\<not> replayed \<Longrightarrow> (entry = None \<longleftrightarrow> payload = None \<or> \<not> can_enqueue tx)"
proof -
  obtain tx1 sel where n: "next_replay tx = (tx1, sel)" by force
  note nr = next_replay_ok [OF assms(1) n]
  have rp: "tx_replay tx = (tx_scheduled tx \<noteq> [])" by (rule tx_okD(8) [OF assms(1)])
  let ?P = "tx_ok tx' \<and> (replayed \<longleftrightarrow> tx_scheduled tx \<noteq> []) \<and>
    (replayed \<longrightarrow> (\<exists>e. entry = Some e \<and> tx_scheduled tx = e # tx_scheduled tx' \<and>
           tx_buffer tx' = tx_buffer tx \<and> tx_last tx' = tx_last tx)) \<and>
    (\<not> replayed \<longrightarrow> tx_scheduled tx' = [] \<and>
           (case entry of
              None \<Rightarrow> tx_buffer tx' = tx_buffer tx \<and> tx_last tx' = tx_last tx
            | Some e \<Rightarrow> tx_buffer tx' = tx_buffer tx @ [e] \<and> re_sequence e = next_sequence (tx_last tx) \<and>
                tx_last tx' = re_sequence e \<and> payload = Some (re_payload e))) \<and>
    (first \<longleftrightarrow> replayed \<and> tx_first tx) \<and>
    (\<not> replayed \<longrightarrow> (entry = None \<longleftrightarrow> payload = None \<or> \<not> can_enqueue tx))"
  have ?P
  proof (cases sel)
    case (Some x)
    then show ?thesis using assms(2) n nr rp by (auto simp: send_source_def)
  next
    case None
    then have same: "tx1 = tx" "tx_scheduled tx = []"
      using n nr(3) rp by (auto simp: next_replay_def split: list.splits)
    show ?thesis
    proof (cases payload)
      case p: None
      then show ?thesis using assms n None same by (auto simp: send_source_def)
    next
      case (Some p)
      obtain t r where e: "tx_enqueue tx p = (t, r)" by force
      then have eq: "tx' = t" "entry = r" "\<not> replayed" "\<not> first"
        using assms(2) n None same Some by (auto simp: send_source_def Let_def)
      note en = tx_enqueue_ok [OF assms(1) e]
      show ?thesis
      proof (cases r)
        case None
        then show ?thesis using eq en(1) en(2) [OF None] same Some by simp
      next
        case (Some x)
        have "can_enqueue tx" using e Some by (auto simp: tx_enqueue_def split: if_splits)
        with en(1) en(3) [OF Some] eq same Some \<open>payload = Some p\<close> show ?thesis by simp
      qed
    qed
  qed
  then show "tx_ok tx'" and "replayed \<longleftrightarrow> tx_scheduled tx \<noteq> []"
    and "replayed \<Longrightarrow> \<exists>e. entry = Some e \<and> tx_scheduled tx = e # tx_scheduled tx' \<and>
           tx_buffer tx' = tx_buffer tx \<and> tx_last tx' = tx_last tx"
    and "\<not> replayed \<Longrightarrow> tx_scheduled tx' = [] \<and>
           (case entry of
              None \<Rightarrow> tx_buffer tx' = tx_buffer tx \<and> tx_last tx' = tx_last tx
            | Some e \<Rightarrow> tx_buffer tx' = tx_buffer tx @ [e] \<and> re_sequence e = next_sequence (tx_last tx) \<and>
                tx_last tx' = re_sequence e \<and> payload = Some (re_payload e))"
    and "first \<longleftrightarrow> replayed \<and> tx_first tx"
    and "\<not> replayed \<Longrightarrow> (entry = None \<longleftrightarrow> payload = None \<or> \<not> can_enqueue tx)"
    by blast+
qed

lemma send_source_range:
  assumes "tx_ok tx" and "send_source tx payload = (tx', entry, replayed, first)"
  shows "1 \<le> (case entry of Some e \<Rightarrow> re_sequence e | None \<Rightarrow> tx_last tx') \<and>
         (case entry of Some e \<Rightarrow> re_sequence e | None \<Rightarrow> tx_last tx') \<le> 511"
proof (cases replayed)
  case True
  with send_source_ok(3) [OF assms] obtain e where e: "entry = Some e" "tx_scheduled tx = e # tx_scheduled tx'"
    by blast
  then have "replay_run (tx_last tx) (re_sequence e # sequences (tx_scheduled tx'))"
    using tx_okD(12) [OF assms(1)] by (simp add: sequences_def)
  from replay_run_Cons(2,3) [OF this] e(1) show ?thesis by simp
next
  case False
  from send_source_ok(1,4) [OF assms] False tx_last_range [of tx'] show ?thesis
    by (auto split: option.splits)
qed

text \<open>The header word means what the sender intends.\<close>

definition header_for :: "int \<Rightarrow> int \<Rightarrow> bool \<Rightarrow> bool \<Rightarrow> bool" where
  "header_for word sequence has_payload explicit \<longleftrightarrow>
     (\<exists>h. decode_header word = Inr h \<and> rh_errors h = [] \<and> rh_payload h = has_payload \<and>
        (if explicit then rh_sequence h = Some sequence
         else rh_sequence h = None \<and> rh_low h = Some (fld sequence 0 3)))"

lemma encode_explicit_for:
  "1 \<le> q \<Longrightarrow> q \<le> 511 \<Longrightarrow> (r \<Longrightarrow> p) \<Longrightarrow> \<exists>w. encode_explicit q p r = Inr w \<and> header_for w q p True"
proof -
  assume a: "1 \<le> q" "q \<le> 511" and b: "r \<Longrightarrow> p"
  from encode_explicit_ok [OF a b] obtain w where w: "encode_explicit q p r = Inr w" by blast
  then show ?thesis using decode_explicit [OF w] by (simp add: header_for_def)
qed

lemma encode_command_for:
  "1 \<le> a \<Longrightarrow> a \<le> 511 \<Longrightarrow> \<exists>w. encode_command (fld q 0 3) a p r = Inr w \<and> header_for w q p False"
proof -
  assume a: "1 \<le> a" "a \<le> 511"
  have l: "0 \<le> fld q 0 3" "fld q 0 3 \<le> 7" using fld_range [of q 0 3] by auto
  from encode_command_ok [OF l a] obtain w where w: "encode_command (fld q 0 3) a p r = Inr w" by blast
  then show ?thesis using decode_command [OF w] by (simp add: header_for_def)
qed

lemma send_header_ok:
  assumes "sched_ok s" and "1 \<le> q" "q \<le> 511" and "r \<Longrightarrow> p"
  shows "\<exists>w n k t rg. send_header s g q p r first = Inr (w, n, k, t, rg) \<and>
    1 \<le> n \<and> n \<le> 7 \<and> 0 \<le> k \<and> k \<le> sc_requests s \<and> (k \<in> {1, 2} \<longrightarrow> 1 \<le> t \<and> t \<le> 511) \<and>
    (\<exists>x. header_for w q p x \<and> (first \<longrightarrow> x) \<and> (\<not> x \<longrightarrow> n = sc_explicit s - 1))"
proof -
  note ok = sched_okD [OF assms(1)]
  have l: "1 \<le> rx_last (sc_rx s)" "rx_last (sc_rx s) \<le> 511" using rx_wfD [OF ok(2)] by auto
  consider (explicit) "first \<or> sc_explicit s = 1"
    | (request) "\<not> first" "2 \<le> sc_explicit s" "sc_requests s \<noteq> 0" "Some g \<noteq> sc_request_group s"
    | (ack) "\<not> first" "2 \<le> sc_explicit s" "sc_requests s = 0 \<or> Some g = sc_request_group s"
    using ok(3) by linarith
  then show ?thesis
  proof cases
    case explicit
    obtain w where w: "encode_explicit q p r = Inr w" "header_for w q p True"
      using encode_explicit_for [OF assms(2,3), of r p] assms(4) by blast
    have "first \<or> max 0 (sc_explicit s - 1) = 0" using explicit by auto
    then have "send_header s g q p r first = Inr (w, 7, sc_requests s, sc_target s, sc_request_group s)"
      using w(1) by (simp add: send_header_def Let_def)
    moreover have "sc_requests s \<in> {1, 2} \<longrightarrow> 1 \<le> sc_target s \<and> sc_target s \<le> 511" using ok(7) by auto
    ultimately show ?thesis using w(2) ok(5) by auto
  next
    case request
    let ?t = "if sc_requests s = 3 then next_sequence (rx_last (sc_rx s)) else sc_target s"
    have t: "1 \<le> ?t" "?t \<le> 511" using next_sequence_range [OF l] ok(7) request(3) by auto
    from encode_command_for [OF this, of q p True] obtain w
      where w: "encode_command (fld q 0 3) ?t p True = Inr w" "header_for w q p False" by blast
    from request have "send_header s g q p r first =
        Inr (w, sc_explicit s - 1, sc_requests s - 1, ?t, Some g)"
      using w(1) by (simp add: send_header_def Let_def max_def)
    moreover have "1 \<le> sc_explicit s - 1 \<and> sc_explicit s - 1 \<le> 7" using request(2) ok(4) by simp
    moreover have "0 \<le> sc_requests s - 1 \<and> sc_requests s - 1 \<le> sc_requests s" using request(3) ok(5) by simp
    ultimately show ?thesis using w(2) t request(1) by blast
  next
    case ack
    from encode_command_for [OF l, of q p False] obtain w
      where w: "encode_command (fld q 0 3) (rx_last (sc_rx s)) p False = Inr w" "header_for w q p False" by blast
    from ack have "send_header s g q p r first =
        Inr (w, sc_explicit s - 1, sc_requests s, sc_target s, sc_request_group s)"
      using w(1) by (auto simp: send_header_def Let_def max_def)
    moreover have "1 \<le> sc_explicit s - 1 \<and> sc_explicit s - 1 \<le> 7" using ack(2) ok(4) by simp
    ultimately show ?thesis using w(2) ok(5-7) ack(1) by auto
  qed
qed

lemma group_okD: "group_ok s g \<Longrightarrow>
   \<not> (g < 0 \<or> (case sc_flit_group s of None \<Rightarrow> False | Some h \<Rightarrow> g < h))"
  by (cases "sc_flit_group s") (auto simp: group_ok_def)

text \<open>
  Sending never raises on a legal group. The flit's header decodes without error to the flit's
  sequence and payload flag, the first flit of a replay is explicit, and the explicit counter
  otherwise counts down.
\<close>

lemma sched_send_ok:
  assumes "sched_ok s" and "group_ok s g"
  obtains s' f entry x where "sched_send s g payload = Inr (s', f)" "sched_ok s'"
    and "send_source (sc_tx s) payload = (sc_tx s', entry, sf_replayed f, sf_first f)"
    and "sf_payload f = map_option re_payload entry"
    and "sf_sequence f = (case entry of Some e \<Rightarrow> re_sequence e | None \<Rightarrow> tx_last (sc_tx s'))"
    and "sf_accepted f \<longleftrightarrow> payload \<noteq> None \<and> entry \<noteq> None \<and> \<not> sf_replayed f"
    and "header_for (sf_header f) (sf_sequence f) (sf_payload f \<noteq> None) x" "sf_first f \<Longrightarrow> x"
    and "\<not> x \<Longrightarrow> sc_explicit s' = sc_explicit s - 1" "sc_rx s' = sc_rx s" "sc_flit_group s' = Some g"
proof -
  note ok = sched_okD [OF assms(1)]
  obtain tx entry replayed first where src: "send_source (sc_tx s) payload = (tx, entry, replayed, first)"
    by (cases "send_source (sc_tx s) payload") blast
  define q where "q = (case entry of Some e \<Rightarrow> re_sequence e | None \<Rightarrow> tx_last tx)"
  have q: "1 \<le> q" "q \<le> 511" using send_source_range [OF ok(1) src] by (simp_all add: q_def)
  have rp: "replayed \<Longrightarrow> entry \<noteq> None" using send_source_ok(3) [OF ok(1) src] by auto
  from send_header_ok [OF assms(1) q rp, where g = g and first = first] obtain w n k t rg x
    where h: "send_header s g q (entry \<noteq> None) replayed first = Inr (w, n, k, t, rg)"
      and n: "1 \<le> n" "n \<le> 7" and k: "0 \<le> k" "k \<le> sc_requests s" and t: "k \<in> {1, 2} \<longrightarrow> 1 \<le> t \<and> t \<le> 511"
      and x: "header_for w q (entry \<noteq> None) x" "first \<longrightarrow> x" "\<not> x \<longrightarrow> n = sc_explicit s - 1"
    by blast
  define s' where "s' = s\<lparr>sc_tx := tx, sc_explicit := n, sc_requests := k, sc_target := t,
     sc_request_group := rg, sc_flit_group := Some g\<rparr>"
  define f where "f = \<lparr>sf_header = w, sf_payload = map_option re_payload entry, sf_sequence = q,
     sf_accepted = (payload \<noteq> None \<and> entry \<noteq> None \<and> \<not> replayed), sf_replayed = replayed, sf_first = first\<rparr>"
  have send: "sched_send s g payload = Inr (s', f)"
    using group_okD [OF assms(2)] h unfolding q_def by (simp add: sched_send_def src q_def s'_def f_def)
  moreover have "sched_ok s'"
    using ok(2,6) send_source_ok(1) [OF ok(1) src] n k t by (simp add: sched_ok_def s'_def)
  moreover have "send_source (sc_tx s) payload = (sc_tx s', entry, sf_replayed f, sf_first f)"
    by (simp add: src s'_def f_def)
  moreover have f: "sf_header f = w" "sf_payload f = map_option re_payload entry" "sf_sequence f = q"
    "sf_accepted f = (payload \<noteq> None \<and> entry \<noteq> None \<and> \<not> replayed)" "sf_replayed f = replayed"
    "sf_first f = first" "sc_tx s' = tx" "sc_explicit s' = n" "sc_rx s' = sc_rx s" "sc_flit_group s' = Some g"
    by (simp_all add: f_def s'_def)
  ultimately show thesis
    using x by (intro that [of s' f entry x]) (simp_all only: f q_def, simp_all)
qed

subsection \<open>Receiving\<close>

lemma rx_receive_total: "decode_header w = Inr h \<Longrightarrow> \<exists>s' out. rx_receive s w c = Inr (s', out)"
  by (auto simp: rx_receive_def Let_def split: prod.splits)

definition metadata_ok :: "int \<Rightarrow> 'p option \<Rightarrow> bool \<Rightarrow> bool" where
  "metadata_ok w p c \<longleftrightarrow> 0 \<le> w \<and> w \<le> 16777215 \<and>
     (c \<longrightarrow> (\<forall>h. decode_header w = Inr h \<longrightarrow> header_valid h \<longrightarrow> rh_payload h = (p \<noteq> None)))"

lemma receive_result_simps [simp]:
  "sc_tx (fst (receive_result s r c p)) = sc_tx s" "sc_rx (fst (receive_result s r c p)) = sc_rx s"
  "sc_flit_group (fst (receive_result s r c p)) = sc_flit_group s"
  "sc_explicit (fst (receive_result s r c p)) = sc_explicit s"
  "sc_target (fst (receive_result s r c p)) = sc_target s"
  "sc_requests (fst (receive_result s r c p)) = (if ro_requests r = 0 then sc_requests s else 3)"
  by (simp_all add: receive_result_def)

lemma receive_result_ok:
  assumes "sched_ok s" and "tx_ok tx" "rx_wf rx"
  shows "sched_ok (fst (receive_result (s\<lparr>sc_rx := rx, sc_tx := tx\<rparr>) r c p))"
  using assms by (auto simp: sched_ok_def)

text \<open>An ingress event is processed by both consumers, independently of each other.\<close>

lemma sched_receive_ok:
  assumes "sched_ok s" and "metadata_ok w p c"
  obtains s' out where "sched_receive s w p c = Inr (s', out)" "sched_ok s'"
    and "rx_receive (sc_rx s) w c = Inr (sc_rx s', rf_receiver out)"
    and "tx_receive (sc_tx s) w c = Inr (sc_tx s', rf_command out)"
    and "rf_payload out = (if ro_deliver (rf_receiver out) then p else None)"
    and "sc_requests s' = (if ro_requests (rf_receiver out) = 0 then sc_requests s else 3)"
    and "sc_flit_group s' = sc_flit_group s"
proof -
  note ok = sched_okD [OF assms(1)]
  have w: "0 \<le> w" "w \<le> 16777215" using assms(2) by (simp_all add: metadata_ok_def)
  obtain h where h: "decode_header w = Inr h" using decode_header_total [OF w] by blast
  obtain rx r where rx: "rx_receive (sc_rx s) w c = Inr (rx, r)" using rx_receive_total [OF h] by blast
  obtain tx cm where tx: "tx_receive (sc_tx s) w c = Inr (tx, cm)" "tx_ok tx"
    using tx_receive_ok [OF ok(1) w] by blast
  have wf: "rx_wf rx" by (rule rx_receive_accept(1) [OF rx ok(2)])
  define s1 where "s1 = s\<lparr>sc_rx := rx, sc_tx := tx\<rparr>"
  have "\<not> (c \<and> header_valid h \<and> rh_payload h \<noteq> (p \<noteq> None))"
    using assms(2) h by (auto simp: metadata_ok_def)
  then have "sched_receive s w p c = Inr (fst (receive_result s1 r cm p), snd (receive_result s1 r cm p))"
    by (simp add: sched_receive_def h rx tx(1) s1_def)
  then show thesis
    by (rule that) (use receive_result_ok [OF assms(1) tx(2) wf] rx tx in
        \<open>simp_all add: s1_def receive_result_def\<close>)
qed

lemma sched_discard_ok:
  assumes "sched_ok s" and "sched_discard s = (s', out)"
  shows "sched_ok s'" and "sc_flit_group s' = sc_flit_group s"
proof -
  note ok = sched_okD [OF assms(1)]
  obtain rx r where rx: "rx_backpressure (sc_rx s) = (rx, r)" by force
  obtain tx c where tx: "tx_discard (sc_tx s) = (tx, c)" by force
  have "rx_wf rx" using rx_discard_wf [OF ok(2)] rx by (metis rx_backpressure_def)
  moreover have "tx_ok tx" using tx_discard_ok [OF ok(1) tx] by blast
  ultimately have "sched_ok (fst (receive_result (s\<lparr>sc_rx := rx, sc_tx := tx\<rparr>) r c None))"
    by (rule receive_result_ok [OF assms(1), rotated])
  moreover have s': "s' = fst (receive_result (s\<lparr>sc_rx := rx, sc_tx := tx\<rparr>) r c None)"
    using assms(2) by (simp add: sched_discard_def rx tx)
  ultimately show "sched_ok s'" by simp
  show "sc_flit_group s' = sc_flit_group s" by (simp add: s')
qed

datatype 'p sched_op = Send int "'p option" | Receive int "'p option" bool | Discard_Ingress

datatype 'p sched_out = Sent "'p scheduled_flit" | Received "'p received_flit"

fun sched_step :: "'p sched \<Rightarrow> 'p sched_op \<Rightarrow> py_error + 'p sched \<times> 'p sched_out" where
  "sched_step s (Send g p) = rbind (sched_send s g p) (\<lambda>(s', f). Inr (s', Sent f))"
| "sched_step s (Receive w p c) = rbind (sched_receive s w p c) (\<lambda>(s', r). Inr (s', Received r))"
| "sched_step s Discard_Ingress = (let (s', r) = sched_discard s in Inr (s', Received r))"

fun sched_op_ok :: "'p sched \<Rightarrow> 'p sched_op \<Rightarrow> bool" where
  "sched_op_ok s (Send g p) \<longleftrightarrow> group_ok s g"
| "sched_op_ok s (Receive w p c) \<longleftrightarrow> metadata_ok w p c"
| "sched_op_ok s Discard_Ingress \<longleftrightarrow> True"

lemma sched_send_group: "sched_send s g p = Inr x \<Longrightarrow> group_ok s g"
  by (cases "sc_flit_group s") (auto simp: sched_send_def group_ok_def split: if_splits)

lemma sched_receive_metadata: "sched_receive s w p c = Inr x \<Longrightarrow> metadata_ok w p c"
  by (auto simp: sched_receive_def metadata_ok_def decode_header_def split: if_splits)

lemma sched_step_ok:
  assumes "sched_ok s" and "sched_step s i = Inr (s', out)"
  shows "sched_ok s'"
proof (cases i)
  case (Send g p)
  then obtain f where f: "sched_send s g p = Inr (s', f)" using assms(2) by auto
  from sched_send_ok [OF assms(1) sched_send_group [OF f], of p] f show ?thesis
    by (metis prod.inject sum.inject(2))
next
  case (Receive w p c)
  then obtain r where r: "sched_receive s w p c = Inr (s', r)" using assms(2) by auto
  from sched_receive_ok [OF assms(1) sched_receive_metadata [OF r]] r show ?thesis
    by (metis prod.inject sum.inject(2))
next
  case Discard_Ingress
  obtain t r where "sched_discard s = (t, r)" by force
  with sched_discard_ok [OF assms(1) this] assms(2) Discard_Ingress show ?thesis by simp
qed

interpretation dl_scheduler: total_machine sched_step sched_ok sched_op_ok
proof unfold_locales
  fix s :: "'p sched" and i s' out
  assume "sched_ok s" "sched_step s i = Inr (s', out)"
  then show "sched_ok s'" by (rule sched_step_ok)
next
  fix s :: "'p sched" and i
  assume a: "sched_ok s" "sched_op_ok s i"
  show "\<exists>s' out. sched_step s i = Inr (s', out)"
  proof (cases i)
    case (Send g p)
    with a(2) have "group_ok s g" by simp
    from sched_send_ok [OF a(1) this, of p] obtain s' f where "sched_send s g p = Inr (s', f)" by metis
    then show ?thesis by (simp add: Send)
  next
    case (Receive w p c)
    with a(2) have "metadata_ok w p c" by simp
    from sched_receive_ok [OF a(1) this] obtain s' r where "sched_receive s w p c = Inr (s', r)" by metis
    then show ?thesis by (simp add: Receive)
  qed (simp split: prod.splits)
qed

subsection \<open>A clean link\<close>

text \<open>
  \<open>aligned\<close> relates the transmitter of one end to the receiver of the other: the receiver's last
  sequence is the one before the next flit's, and the receiver either trusts short headers or the next
  flit is the explicit first flit of a replay.
\<close>

definition aligned :: "'p tx \<Rightarrow> rx_state \<Rightarrow> bool" where
  "aligned tx rx \<longleftrightarrow>
     (case tx_scheduled tx of
        [] \<Rightarrow> rx_last rx = tx_last tx
      | e # _ \<Rightarrow> re_sequence e = next_sequence (rx_last rx)) \<and>
     (tx_first tx \<or> \<not> rx_ambiguous rx \<and> \<not> rx_replay rx)"

lemma header_for_accepted:
  assumes "header_for w q p x" and "rx_wf rx"
    and "x \<or> \<not> rx_ambiguous rx \<and> \<not> rx_replay rx"
    and "q = (if p then next_sequence (rx_last rx) else rx_last rx)"
  obtains out where "rx_receive rx w True = Inr (rx_fresh (rx_limit rx) q, out)"
    "ro_deliver out = p" "ro_requests out = 0"
proof -
  from assms(1) obtain h where h: "decode_header w = Inr h" "rh_errors h = []" "rh_payload h = p"
    and x: "if x then rh_sequence h = Some q else rh_sequence h = None \<and> rh_low h = Some (fld q 0 3)"
    by (auto simp: header_for_def)
  have l: "1 \<le> rx_last rx" "rx_last rx \<le> 511" using rx_wfD [OF assms(2)] by auto
  have c: "rx_candidate (rx_last rx) h = q"
  proof (cases x)
    case True
    then show ?thesis using x by (simp add: rx_candidate_def)
  next
    case False
    show ?thesis
    proof (cases p)
      case True
      show ?thesis
        by (rule rx_reconstruct [OF l, of 1]) (use False True x h(3) assms(4) in auto)
    next
      case np: False
      then have q: "q = rx_last rx" using assms(4) by simp
      show ?thesis
        unfolding q by (rule rx_reconstruct_nop [OF l]) (use False np x h(3) in \<open>auto simp: q\<close>)
    qed
  qed
  have t: "rh_sequence h \<noteq> None \<or> \<not> rx_ambiguous rx \<and> \<not> rx_replay rx"
    using assms(3) x by (auto split: if_splits)
  let ?out = "\<lparr>ro_sequence = Some q, ro_accepted = True, ro_deliver = rh_payload h, ro_requests = 0,
     ro_command = (if rh_op h \<in> {2, 3} then Some h else None), ro_reason = (if rh_payload h then Payload else Nop)\<rparr>"
  have "q = (if rh_payload h then next_sequence (rx_last rx) else rx_last rx)" using assms(4) h(3) by simp
  then have "rx_receive rx w True = Inr (rx_fresh (rx_limit rx) q, ?out)"
    using t by (simp add: rx_receive_def h(1,2) Let_def c)
  then show thesis by (rule that) (simp_all add: h(3))
qed

lemma aligned_source:
  assumes "tx_ok tx" "rx_wf rx" "aligned tx rx" and "send_source tx payload = (tx', entry, replayed, first)"
  defines "q \<equiv> (case entry of Some e \<Rightarrow> re_sequence e | None \<Rightarrow> tx_last tx')"
  shows "q = (if entry \<noteq> None then next_sequence (rx_last rx) else rx_last rx)"
    and "aligned tx' (rx_fresh limit q)"
    and "first \<or> \<not> rx_ambiguous rx \<and> \<not> rx_replay rx"
proof -
  note src = send_source_ok [OF assms(1,4)]
  show "first \<or> \<not> rx_ambiguous rx \<and> \<not> rx_replay rx"
    using assms(3) src(2,5) tx_okD(9) [OF assms(1)] by (auto simp: aligned_def)
  have "q = (if entry \<noteq> None then next_sequence (rx_last rx) else rx_last rx) \<and> aligned tx' (rx_fresh limit q)"
  proof (cases replayed)
    case True
    with src(3) obtain e where e: "entry = Some e" "tx_scheduled tx = e # tx_scheduled tx'"
      and same: "tx_last tx' = tx_last tx" by blast
    then have q: "q = re_sequence e" "re_sequence e = next_sequence (rx_last rx)"
      using assms(3) by (simp_all add: q_def aligned_def)
    have run: "replay_run (tx_last tx) (q # sequences (tx_scheduled tx'))"
      using tx_okD(12) [OF assms(1)] e(2) by (simp add: q sequences_def)
    have "aligned tx' (rx_fresh limit q)"
    proof (cases "tx_scheduled tx'")
      case Nil
      then show ?thesis using replay_run_Cons(5) [OF run] same by (simp add: aligned_def rx_fresh_def sequences_def)
    next
      case (Cons e' es)
      then show ?thesis using replay_run_Cons(4) [OF run] by (simp add: aligned_def rx_fresh_def sequences_def)
    qed
    with q e(1) show ?thesis by simp
  next
    case False
    then have "tx_scheduled tx = []" "tx_scheduled tx' = []" using src(2,4) by auto
    then show ?thesis using src(4) [OF False] assms(3)
      by (auto simp: aligned_def rx_fresh_def q_def split: option.splits)
  qed
  then show "q = (if entry \<noteq> None then next_sequence (rx_last rx) else rx_last rx)"
    and "aligned tx' (rx_fresh limit q)" by blast+
qed

text \<open>One flit across the link, received without error.\<close>

definition carry ::
  "'p sched \<Rightarrow> 'p sched \<Rightarrow> int \<Rightarrow> 'p option \<Rightarrow>
     py_error + 'p sched \<times> 'p sched \<times> 'p scheduled_flit \<times> 'p received_flit" where
  "carry a b g payload =
     rbind (sched_send a g payload) (\<lambda>(a', f).
     rbind (sched_receive b (sf_header f) (sf_payload f) True) (\<lambda>(b', r).
       Inr (a', b', f, r)))"

lemma header_for_metadata: "header_for w q (p \<noteq> None) x \<Longrightarrow> metadata_ok w p c"
  by (auto simp: header_for_def metadata_ok_def decode_header_def split: if_splits)

lemma carry_ok:
  assumes "sched_ok a" "sched_ok b" "group_ok a g" and "aligned (sc_tx a) (sc_rx b)"
  obtains a' b' f r entry where "carry a b g payload = Inr (a', b', f, r)" "sched_ok a'" "sched_ok b'"
    "aligned (sc_tx a') (sc_rx b')" "rf_payload r = sf_payload f"
    "send_source (sc_tx a) payload = (sc_tx a', entry, sf_replayed f, sf_first f)"
    "sf_payload f = map_option re_payload entry"
    "sf_accepted f \<longleftrightarrow> payload \<noteq> None \<and> entry \<noteq> None \<and> \<not> sf_replayed f"
    "sc_rx a' = sc_rx a" "tx_receive (sc_tx b) (sf_header f) True = Inr (sc_tx b', rf_command r)"
    "sc_requests b' = sc_requests b" "sc_flit_group a' = Some g" "sc_flit_group b' = sc_flit_group b"
proof -
  from sched_send_ok [OF assms(1,3), of payload] obtain a' f entry x
    where send: "sched_send a g payload = Inr (a', f)" "sched_ok a'"
    and src: "send_source (sc_tx a) payload = (sc_tx a', entry, sf_replayed f, sf_first f)"
    and p: "sf_payload f = map_option re_payload entry"
    and q: "sf_sequence f = (case entry of Some e \<Rightarrow> re_sequence e | None \<Rightarrow> tx_last (sc_tx a'))"
    and acc: "sf_accepted f \<longleftrightarrow> payload \<noteq> None \<and> entry \<noteq> None \<and> \<not> sf_replayed f"
    and hd_: "header_for (sf_header f) (sf_sequence f) (sf_payload f \<noteq> None) x" "sf_first f \<Longrightarrow> x"
    and same: "sc_rx a' = sc_rx a" "sc_flit_group a' = Some g" by metis
  note ok = sched_okD(1) [OF assms(1)] sched_okD(2) [OF assms(2)]
  note al = aligned_source [OF ok assms(4) src]
  have tr: "x \<or> \<not> rx_ambiguous (sc_rx b) \<and> \<not> rx_replay (sc_rx b)" using al(3) hd_(2) by blast
  have qq: "sf_sequence f = (if sf_payload f \<noteq> None then next_sequence (rx_last (sc_rx b)) else rx_last (sc_rx b))"
    using al(1) by (simp add: q p)
  from header_for_accepted [OF hd_(1) ok(2) tr qq] obtain out
    where rx: "rx_receive (sc_rx b) (sf_header f) True = Inr (rx_fresh (rx_limit (sc_rx b)) (sf_sequence f), out)"
      "ro_deliver out = (sf_payload f \<noteq> None)" "ro_requests out = 0" .
  from sched_receive_ok [OF assms(2) header_for_metadata [OF hd_(1)]] obtain b' r
    where rc: "sched_receive b (sf_header f) (sf_payload f) True = Inr (b', r)" "sched_ok b'"
      "rx_receive (sc_rx b) (sf_header f) True = Inr (sc_rx b', rf_receiver r)"
      "tx_receive (sc_tx b) (sf_header f) True = Inr (sc_tx b', rf_command r)"
      "rf_payload r = (if ro_deliver (rf_receiver r) then sf_payload f else None)"
      "sc_requests b' = (if ro_requests (rf_receiver r) = 0 then sc_requests b else 3)"
      "sc_flit_group b' = sc_flit_group b" by metis
  have rx': "sc_rx b' = rx_fresh (rx_limit (sc_rx b)) (sf_sequence f)" "rf_receiver r = out"
    using rx(1) rc(3) by simp_all
  have "carry a b g payload = Inr (a', b', f, r)" by (simp add: carry_def send(1) rc(1))
  moreover have "aligned (sc_tx a') (sc_rx b')" using al(2) by (simp add: rx'(1) q)
  moreover have "rf_payload r = sf_payload f" using rc(5) rx(2) rx'(2) by simp
  moreover have "sc_requests b' = sc_requests b" using rc(6) rx(3) rx'(2) by simp
  ultimately show thesis using that [of a' b' f r entry] send(2) rc(2,4,7) src p acc same by simp
qed

subsection \<open>Recovery by replay\<close>

fun groups_from :: "int option \<Rightarrow> int list \<Rightarrow> bool" where
  "groups_from h [] \<longleftrightarrow> True"
| "groups_from h (g # gs) \<longleftrightarrow> 0 \<le> g \<and> pred_option (\<lambda>x. x \<le> g) h \<and> groups_from (Some g) gs"

lemma groups_from_Cons: "groups_from (sc_flit_group s) (g # gs) \<longleftrightarrow> group_ok s g \<and> groups_from (Some g) gs"
  by (auto simp: group_ok_def)

text \<open>A sequence of flits from one end to the other over a clean link.\<close>

fun carry_run ::
  "'p sched \<Rightarrow> 'p sched \<Rightarrow> (int \<times> 'p option) list \<Rightarrow> py_error + 'p sched \<times> 'p sched \<times> 'p received_flit list" where
  "carry_run a b [] = Inr (a, b, [])"
| "carry_run a b ((g, p) # gps) =
     rbind (carry a b g p) (\<lambda>(a1, b1, f, r).
     rbind (carry_run a1 b1 gps) (\<lambda>(a2, b2, rs). Inr (a2, b2, r # rs)))"

lemma carry_run_replay:
  "sched_ok a \<Longrightarrow> sched_ok b \<Longrightarrow> aligned (sc_tx a) (sc_rx b) \<Longrightarrow>
   groups_from (sc_flit_group a) (map fst gps) \<Longrightarrow> length gps = length (tx_scheduled (sc_tx a)) \<Longrightarrow>
   \<exists>a' b' rs. carry_run a b gps = Inr (a', b', rs) \<and> sched_ok a' \<and> sched_ok b' \<and>
     map rf_payload rs = map (Some \<circ> re_payload) (tx_scheduled (sc_tx a)) \<and>
     tx_scheduled (sc_tx a') = [] \<and> tx_last (sc_tx a') = tx_last (sc_tx a) \<and>
     aligned (sc_tx a') (sc_rx b')"
proof (induction gps arbitrary: a b)
  case Nil
  then show ?case by simp
next
  case (Cons gp gps)
  obtain g p where gp: "gp = (g, p)" by force
  have g: "group_ok a g" "groups_from (Some g) (map fst gps)"
    using Cons.prems(4) unfolding gp list.map fst_conv groups_from_Cons by simp_all
  from carry_ok [OF Cons.prems(1,2) g(1) Cons.prems(3), of p] obtain a1 b1 f r entry
    where c: "carry a b g p = Inr (a1, b1, f, r)" "sched_ok a1" "sched_ok b1" "aligned (sc_tx a1) (sc_rx b1)"
      "rf_payload r = sf_payload f" "send_source (sc_tx a) p = (sc_tx a1, entry, sf_replayed f, sf_first f)"
      "sf_payload f = map_option re_payload entry" "sc_flit_group a1 = Some g" by metis
  note src = send_source_ok [OF sched_okD(1) [OF Cons.prems(1)] c(6)]
  have "tx_scheduled (sc_tx a) \<noteq> []" using Cons.prems(5) by auto
  with src(2,3) obtain e where e: "entry = Some e" "tx_scheduled (sc_tx a) = e # tx_scheduled (sc_tx a1)"
    "tx_last (sc_tx a1) = tx_last (sc_tx a)" by blast
  have len: "length gps = length (tx_scheduled (sc_tx a1))" using Cons.prems(5) by (simp add: e(2))
  have gr: "groups_from (sc_flit_group a1) (map fst gps)" using g(2) by (simp add: c(8))
  from Cons.IH [OF c(2,3,4) gr len] obtain a2 b2 rs where
    "carry_run a1 b1 gps = Inr (a2, b2, rs)" "sched_ok a2" "sched_ok b2"
    "map rf_payload rs = map (Some \<circ> re_payload) (tx_scheduled (sc_tx a1))"
    "tx_scheduled (sc_tx a2) = []" "tx_last (sc_tx a2) = tx_last (sc_tx a1)" "aligned (sc_tx a2) (sc_rx b2)"
    by blast
  then show ?case by (simp add: gp c(1,5,7) e)
qed

text \<open>
  A replay request for the receiver's next sequence, once accepted, aligns the two ends: what is
  replayed is every unacknowledged payload from the requested one to the last one sent.
\<close>

lemma request_aligns:
  assumes "tx_ok tx" and "rx_wf rx" and "decode_header w = Inr h"
    and "rh_ack_request h = Some (next_sequence (rx_last rx))"
    and "tx_receive tx w c = Inr (tx', r)" and "cr_started r"
  shows "aligned tx' rx" and "tx_ok tx'"
    and "\<exists>i < length (tx_buffer tx). re_sequence (tx_buffer tx ! i) = next_sequence (rx_last rx) \<and>
           tx_scheduled tx' = drop i (tx_buffer tx)"
    and "tx_last tx' = tx_last tx"
proof -
  let ?t = "next_sequence (rx_last rx)"
  have t: "1 \<le> ?t" "?t \<le> 511" using next_sequence_range rx_wfD [OF assms(2)] by blast+
  have ok: "tx_ok (age_ignore tx)" by (rule age_ok [OF assms(1)])
  have "tx_request (age_ignore tx) ?t = Inr (tx', r)"
    using assms(3-6)
    by (auto simp: tx_receive_def Let_def tx_result_def tx_acknowledge_def split: if_splits)
  with tx_request_cases [OF ok t] assms(6) obtain i where i: "tx_ok tx'" "i < length (tx_buffer tx)"
    "re_sequence (tx_buffer tx ! i) = ?t" "tx_scheduled tx' = drop i (tx_buffer tx)" "tx_first tx'"
    "tx_last tx' = tx_last tx"
    by auto
  then have "tx_scheduled tx' = tx_buffer tx ! i # drop (Suc i) (tx_buffer tx)"
    by (simp add: Cons_nth_drop_Suc)
  then show "aligned tx' rx" using i(3,5) by (simp add: aligned_def)
  show "tx_ok tx'" "tx_last tx' = tx_last tx" by (rule i)+
  show "\<exists>i < length (tx_buffer tx). re_sequence (tx_buffer tx ! i) = ?t \<and> tx_scheduled tx' = drop i (tx_buffer tx)"
    using i by blast
qed

subsection \<open>Both directions\<close>

text \<open>Each end sends one flit and receives the other's; the input is the group and the offered payload.\<close>

definition link_step ::
  "'p sched \<times> 'p sched \<Rightarrow> (int \<times> 'p option) \<times> (int \<times> 'p option) \<Rightarrow>
     py_error + ('p sched \<times> 'p sched) \<times> ('p scheduled_flit \<times> 'p received_flit) \<times> ('p scheduled_flit \<times> 'p received_flit)" where
  "link_step ab i =
     (let (a, b) = ab; ((ga, pa), (gb, pb)) = i in
      rbind (carry a b ga pa) (\<lambda>(a1, b1, f, r).
      rbind (carry b1 a1 gb pb) (\<lambda>(b2, a2, f', r'). Inr ((a2, b2), ((f, r), (f', r'))))))"

definition in_step :: "'p sched \<Rightarrow> 'p sched \<Rightarrow> bool" where
  "in_step a b \<longleftrightarrow> sched_ok a \<and> sched_ok b \<and> aligned (sc_tx a) (sc_rx b) \<and> aligned (sc_tx b) (sc_rx a) \<and>
     tx_scheduled (sc_tx a) = [] \<and> tx_scheduled (sc_tx b) = [] \<and> sc_requests a = 0 \<and> sc_requests b = 0"

definition taken_payload :: "'p option \<Rightarrow> 'p scheduled_flit \<Rightarrow> 'p option" where
  "taken_payload offered f = (if sf_accepted f then offered else None)"

lemma header_word_ack:
  assumes "sched_ok s" "group_ok s g" "sc_requests s = 0" and "sched_send s g p = Inr (s', f)"
    and "decode_header (sf_header f) = Inr h"
  shows "rh_op h \<noteq> 3" and "sc_requests s' = 0"
proof -
  obtain tx entry replayed first where src: "send_source (sc_tx s) p = (tx, entry, replayed, first)"
    by (cases "send_source (sc_tx s) p") blast
  let ?q = "case entry of Some e \<Rightarrow> re_sequence e | None \<Rightarrow> tx_last tx"
  from assms(4) group_okD [OF assms(2)] obtain n k t rg
    where h: "send_header s g ?q (entry \<noteq> None) replayed first = Inr (sf_header f, n, k, t, rg)" "sc_requests s' = k"
    by (auto simp: sched_send_def src Let_def split: if_splits)
  have "k = 0 \<and> (encode_explicit ?q (entry \<noteq> None) replayed = Inr (sf_header f) \<or>
      encode_command (fld ?q 0 3) (rx_last (sc_rx s)) (entry \<noteq> None) False = Inr (sf_header f))"
    using h(1) assms(3) by (auto simp: send_header_def Let_def split: if_splits)
  moreover have "rh_op h \<noteq> 3" if "encode_explicit ?q (entry \<noteq> None) replayed = Inr (sf_header f)"
    using decode_explicit [OF that] assms(5) by auto
  moreover have "rh_op h \<noteq> 3"
    if "encode_command (fld ?q 0 3) (rx_last (sc_rx s)) (entry \<noteq> None) False = Inr (sf_header f)"
    using decode_command [OF that] assms(5) by auto
  ultimately show "rh_op h \<noteq> 3" "sc_requests s' = 0" using h(2) by blast+
qed

lemma aligned_idle:
  "tx_ok tx \<Longrightarrow> tx_scheduled tx = [] \<Longrightarrow>
     aligned tx rx \<longleftrightarrow> rx_last rx = tx_last tx \<and> \<not> rx_ambiguous rx \<and> \<not> rx_replay rx"
  using tx_okD(9) by (auto simp: aligned_def)

lemma tx_receive_idle:
  assumes "tx_ok tx" and "tx_receive tx w c = Inr (tx', r)"
    and "\<And>h. decode_header w = Inr h \<Longrightarrow> rh_op h \<noteq> 3"
  shows "tx_scheduled tx' = tx_scheduled tx" "tx_last tx' = tx_last tx"
  using assms(2,3) by (auto simp: tx_receive_def Let_def tx_acknowledge_def split: if_splits)

lemma carry_in_step:
  assumes "sched_ok a" "sched_ok b" "aligned (sc_tx a) (sc_rx b)" "aligned (sc_tx b) (sc_rx a)"
    and "tx_scheduled (sc_tx a) = []" "tx_scheduled (sc_tx b) = []" "sc_requests a = 0" "sc_requests b = 0"
    and "group_ok a g"
  obtains a' b' f r where "carry a b g p = Inr (a', b', f, r)" "in_step a' b'"
    "rf_payload r = sf_payload f" "sf_payload f = taken_payload p f"
    "sc_flit_group a' = Some g" "sc_flit_group b' = sc_flit_group b"
proof -
  from carry_ok [OF assms(1,2,9,3), of p] obtain a' b' f r entry
    where c: "carry a b g p = Inr (a', b', f, r)" "sched_ok a'" "sched_ok b'"
    "aligned (sc_tx a') (sc_rx b')" "rf_payload r = sf_payload f"
    "send_source (sc_tx a) p = (sc_tx a', entry, sf_replayed f, sf_first f)"
    "sf_payload f = map_option re_payload entry"
    "sf_accepted f \<longleftrightarrow> p \<noteq> None \<and> entry \<noteq> None \<and> \<not> sf_replayed f"
    "sc_rx a' = sc_rx a" "tx_receive (sc_tx b) (sf_header f) True = Inr (sc_tx b', rf_command r)"
    "sc_requests b' = sc_requests b" "sc_flit_group a' = Some g" "sc_flit_group b' = sc_flit_group b" by metis
  have send: "sched_send a g p = Inr (a', f)" using c(1) by (auto simp: carry_def)
  note ack = header_word_ack [OF assms(1,9,7) send]
  have "metadata_ok (sf_header f) (sf_payload f) True"
    using c(1) sched_receive_metadata by (auto simp: carry_def)
  then obtain h where h: "decode_header (sf_header f) = Inr h"
    using decode_header_total [of "sf_header f"] unfolding metadata_ok_def by blast
  note idle = tx_receive_idle [OF sched_okD(1) [OF assms(2)] c(10) ack(1), simplified]
  note src = send_source_ok [OF sched_okD(1) [OF assms(1)] c(6)]
  have nr: "\<not> sf_replayed f" using src(2) assms(5) by simp
  have "aligned (sc_tx b') (sc_rx a')"
    using assms(4) idle assms(6) aligned_idle [OF sched_okD(1) [OF assms(2)]]
      aligned_idle [OF sched_okD(1) [OF c(3)]] by (simp add: c(9))
  moreover have "tx_scheduled (sc_tx a') = []" using src(4) [OF nr] by simp
  ultimately have "in_step a' b'"
    using c(2,3,4,11) idle assms(6,8) ack(2) [OF h] by (simp add: in_step_def)
  moreover have "sf_payload f = taken_payload p f"
    using c(7,8) src(4) [OF nr] nr by (auto simp: taken_payload_def split: option.splits)
  ultimately show thesis using that c(1,5,12,13) by blast
qed

text \<open>
  On a clean link the two ends stay in step: no step raises, and in each direction the payloads
  delivered are exactly the payloads taken, in order.
\<close>

lemma link_run_clean:
  "in_step a b \<Longrightarrow> groups_from (sc_flit_group a) (map (fst \<circ> fst) is) \<Longrightarrow>
   groups_from (sc_flit_group b) (map (fst \<circ> snd) is) \<Longrightarrow>
   \<exists>a' b' outs. run link_step (a, b) is = Inr ((a', b'), outs) \<and> in_step a' b' \<and>
     map (rf_payload \<circ> snd \<circ> fst) outs = map2 (\<lambda>i ou. taken_payload (snd (fst i)) (fst (fst ou))) is outs \<and>
     map (rf_payload \<circ> snd \<circ> snd) outs = map2 (\<lambda>i ou. taken_payload (snd (snd i)) (fst (snd ou))) is outs"
proof (induction "is" arbitrary: a b)
  case Nil
  then show ?case by simp
next
  case (Cons i "is")
  obtain ga pa gb pb where i: "i = ((ga, pa), (gb, pb))" by (metis surj_pair)
  have ga: "group_ok a ga" "groups_from (Some ga) (map (fst \<circ> fst) is)"
    using Cons.prems(2) unfolding i list.map o_apply fst_conv groups_from_Cons by simp_all
  have gb: "group_ok b gb" "groups_from (Some gb) (map (fst \<circ> snd) is)"
    using Cons.prems(3) unfolding i list.map o_apply fst_conv snd_conv groups_from_Cons by simp_all
  note st = Cons.prems(1) [unfolded in_step_def]
  have st': "sched_ok a" "sched_ok b" "aligned (sc_tx a) (sc_rx b)" "aligned (sc_tx b) (sc_rx a)"
    "tx_scheduled (sc_tx a) = []" "tx_scheduled (sc_tx b) = []" "sc_requests a = 0" "sc_requests b = 0"
    using st by - (elim conjE, assumption)+
  from carry_in_step [OF st' ga(1), of pa] obtain a1 b1 f r where
    c1: "carry a b ga pa = Inr (a1, b1, f, r)" "in_step a1 b1" "rf_payload r = sf_payload f"
      "sf_payload f = taken_payload pa f" "sc_flit_group a1 = Some ga" "sc_flit_group b1 = sc_flit_group b" .
  have s1: "sched_ok b1" "sched_ok a1" "aligned (sc_tx b1) (sc_rx a1)" "aligned (sc_tx a1) (sc_rx b1)"
    "tx_scheduled (sc_tx b1) = []" "tx_scheduled (sc_tx a1) = []" "sc_requests b1 = 0" "sc_requests a1 = 0"
    using c1(2) unfolding in_step_def by - (elim conjE, assumption)+
  have gb1: "group_ok b1 gb" using gb(1) by (simp add: group_ok_def c1(6))
  from carry_in_step [OF s1 gb1, of pb] obtain b2 a2 f' r' where
    c2: "carry b1 a1 gb pb = Inr (b2, a2, f', r')" "in_step b2 a2" "rf_payload r' = sf_payload f'"
      "sf_payload f' = taken_payload pb f'" "sc_flit_group b2 = Some gb" "sc_flit_group a2 = sc_flit_group a1" .
  have in2: "in_step a2 b2" using c2(2) unfolding in_step_def by - ((intro conjI; elim conjE), assumption+)
  have "groups_from (sc_flit_group a2) (map (fst \<circ> fst) is)" "groups_from (sc_flit_group b2) (map (fst \<circ> snd) is)"
    using ga(2) gb(2) by (simp_all only: c1(5) c2(5,6))
  from Cons.IH [OF in2 this] obtain a' b' outs where
    "run link_step (a2, b2) is = Inr ((a', b'), outs)" "in_step a' b'"
     "map (rf_payload \<circ> snd \<circ> fst) outs = map2 (\<lambda>i ou. taken_payload (snd (fst i)) (fst (fst ou))) is outs"
     "map (rf_payload \<circ> snd \<circ> snd) outs = map2 (\<lambda>i ou. taken_payload (snd (snd i)) (fst (snd ou))) is outs"
    by blast
  moreover have "link_step (a, b) i = Inr ((a2, b2), ((f, r), (f', r')))"
    by (simp add: link_step_def i c1(1) c2(1))
  ultimately show ?case using c1(3,4) c2(3,4) by (simp add: i o_def)
qed

lemma sched_new_in_step:
  assumes "sched_new ca la = Inr a" "sched_new cb lb = Inr b"
  shows "in_step a b" "sc_flit_group a = None" "sc_flit_group b = None"
  using assms sched_new_ok [OF assms(1)] sched_new_ok [OF assms(2)]
  by (auto simp: in_step_def sched_new_def tx_new_def rx_new_def rx_configure_def rx_reset_def rx_fresh_def
      aligned_def split: if_splits)

subsection \<open>How often a header is explicit\<close>

definition explicit_header :: "int \<Rightarrow> bool" where
  "explicit_header w = (case decode_header w of Inl _ \<Rightarrow> False | Inr h \<Rightarrow> rh_sequence h \<noteq> None)"

fun short_send :: "'p sched_out \<Rightarrow> bool" where
  "short_send (Sent f) \<longleftrightarrow> \<not> explicit_header (sf_header f)"
| "short_send (Received r) \<longleftrightarrow> True"

fun is_sent :: "'p sched_out \<Rightarrow> bool" where
  "is_sent (Sent f) \<longleftrightarrow> True"
| "is_sent (Received r) \<longleftrightarrow> False"

lemma sched_step_explicit:
  assumes "sched_ok s" and "sched_step s i = Inr (s', out)" and "short_send out"
  shows "sc_explicit s' = sc_explicit s - of_bool (is_sent out)"
proof (cases i)
  case (Send g p)
  then obtain f where f: "sched_send s g p = Inr (s', f)" "out = Sent f" using assms(2) by auto
  from sched_send_ok [OF assms(1) sched_send_group [OF f(1)], of p] obtain x
    where "header_for (sf_header f) (sf_sequence f) (sf_payload f \<noteq> None) x"
      "\<not> x \<Longrightarrow> sc_explicit s' = sc_explicit s - 1"
    using f(1) by (metis prod.inject sum.inject(2))
  moreover have "\<not> x"
    using calculation(1) assms(3) f(2) by (auto simp: header_for_def explicit_header_def)
  ultimately show ?thesis by (simp add: f(2))
next
  case (Receive w p c)
  then obtain rr where r: "sched_receive s w p c = Inr (s', rr)" "out = Received rr" using assms(2) by auto
  from r(1) obtain rx o1 tx o2 where "receive_result (s\<lparr>sc_rx := rx, sc_tx := tx\<rparr>) o1 o2 p = (s', rr)"
    by (auto simp: sched_receive_def split: if_splits)
  from arg_cong [OF this, of "sc_explicit \<circ> fst"] show ?thesis by (simp add: r(2))
next
  case Discard_Ingress
  obtain rx o1 where rx: "rx_backpressure (sc_rx s) = (rx, o1)" by force
  obtain tx o2 where tx: "tx_discard (sc_tx s) = (tx, o2)" by force
  have "s' = fst (receive_result (s\<lparr>sc_rx := rx, sc_tx := tx\<rparr>) o1 o2 None)" "\<not> is_sent out"
    using assms(2) Discard_Ingress by (auto simp: sched_discard_def rx tx split: prod.splits)
  then show ?thesis by simp
qed

lemma run_short_sends:
  "run sched_step s ops = Inr (t, outs) \<Longrightarrow> sched_ok s \<Longrightarrow> list_all short_send outs \<Longrightarrow>
     sched_ok t \<and> sc_explicit t = sc_explicit s - int (length (filter is_sent outs))"
proof (induction ops arbitrary: s outs)
  case Nil
  then show ?case by simp
next
  case (Cons i ops)
  from Cons.prems(1) obtain s1 out outs1 where st: "sched_step s i = Inr (s1, out)"
    and r: "run sched_step s1 ops = Inr (t, outs1)" and o: "outs = out # outs1" by (rule run_ConsE)
  have "sc_explicit s1 = sc_explicit s - of_bool (is_sent out)"
    using sched_step_explicit [OF Cons.prems(2) st] Cons.prems(3) o by simp
  moreover have "sched_ok t \<and> sc_explicit t = sc_explicit s1 - int (length (filter is_sent outs1))"
    using Cons.IH [OF r sched_step_ok [OF Cons.prems(2) st]] Cons.prems(3) o by simp
  ultimately show ?case by (simp add: o)
qed

lemma short_sends_bound:
  assumes "run sched_step s ops = Inr (t, outs)" "sched_ok s" "list_all short_send outs"
  shows "length (filter is_sent outs) \<le> 6"
  using run_short_sends [OF assms] sched_okD(3) [of t] sched_okD(4) [OF assms(2)] by linarith

end
