(* ===== verification/Dl_Arbiter.thy ===== *)
theory Dl_Arbiter
  imports Prelude
begin

section \<open>Data-link message arbiter\<close>

text \<open>
  Models \<open>simulator/UAlink2.0/model/ualink/dl_message_scheduler.py\<close>: eleven bounded source FIFOs and
  the two-level round robin that serves one DWORD per opportunity and never interleaves messages.
  The dictionary of queues has a fixed set of keys and is a function of the source; the indices and
  cursors are natural numbers. Reading an empty queue or past the words of a message is the
  branch \<open>IndexError\<close>, shown unreachable. Per source the words flow through in order, and a
  checker of contiguity never objects (locales \<open>flow\<close> and \<open>watched\<close>).
\<close>

type_synonym source = "int \<times> int"

record message =
  ms_source :: source
  ms_words :: "int list"
  ms_tag :: string

record message_beat =
  mb_source :: source
  mb_word :: int
  mb_index :: nat
  mb_last :: bool
  mb_tag :: string

record arbiter =
  ar_depth :: int
  ar_queues :: "source \<Rightarrow> message list"
  ar_group_next :: nat
  ar_local_next :: "nat list"
  ar_active :: "(nat \<times> nat) option"
  ar_word_index :: nat

definition arb_groups :: "(int \<times> int list) list" where
  "arb_groups = [(0, [0, 1, 4, 5, 6]), (8, [0, 4]), (1, [0, 1, 6, 7])]"

definition arb_sources :: "source list" where
  "arb_sources = concat (map (\<lambda>(g, kinds). map (Pair g) kinds) arb_groups)"

definition check_source :: "source \<Rightarrow> py_error + unit" where
  "check_source s = ensure (s \<in> set arb_sources)"

definition message_new :: "source \<Rightarrow> int list \<Rightarrow> string \<Rightarrow> py_error + message" where
  "message_new source words tag =
     rbind (check_source source) (\<lambda>_.
     rbind (ensure (\<forall>w \<in> set words. 0 \<le> w \<and> w < 2 ^ 32)) (\<lambda>_.
     rbind (if source = (1, 0) then ensure (2 \<le> length words \<and> length words \<le> 33)
            else ensure (length words = 1)) (\<lambda>_.
       Inr \<lparr>ms_source = source, ms_words = words, ms_tag = tag\<rparr>)))"

definition arb_init :: "int \<Rightarrow> py_error + arbiter" where
  "arb_init queue_depth =
     (if queue_depth < 1 then Inl ValueError
      else Inr \<lparr>ar_depth = queue_depth, ar_queues = (\<lambda>_. []), ar_group_next = 0,
                ar_local_next = replicate (length arb_groups) 0, ar_active = None, ar_word_index = 0\<rparr>)"

definition arb_offer :: "arbiter \<Rightarrow> message \<Rightarrow> arbiter \<times> bool" where
  "arb_offer s m =
     (let queue = ar_queues s (ms_source m) in
      if int (length queue) \<ge> ar_depth s then (s, False)
      else (s\<lparr>ar_queues := (ar_queues s)(ms_source m := queue @ [m])\<rparr>, True))"

definition arb_pending_all :: "arbiter \<Rightarrow> nat" where
  "arb_pending_all s = (\<Sum>q \<leftarrow> arb_sources. length (ar_queues s q))"

definition arb_pending :: "arbiter \<Rightarrow> source \<Rightarrow> py_error + nat" where
  "arb_pending s source = rbind (check_source source) (\<lambda>_. Inr (length (ar_queues s source)))"

fun first_some :: "('x \<Rightarrow> 'y option) \<Rightarrow> 'x list \<Rightarrow> 'y option" where
  "first_some f [] = None"
| "first_some f (x # xs) = (case f x of Some y \<Rightarrow> Some y | None \<Rightarrow> first_some f xs)"

definition group_source :: "nat \<Rightarrow> nat \<Rightarrow> source" where
  "group_source gi li = (fst (arb_groups ! gi), snd (arb_groups ! gi) ! li)"

definition arb_select :: "arbiter \<Rightarrow> (nat \<times> nat) option" where
  "arb_select s =
     first_some (\<lambda>distance.
       let group_index = (ar_group_next s + distance) mod length arb_groups;
           kinds = snd (arb_groups ! group_index)
       in first_some (\<lambda>local_distance.
            let local_index = (ar_local_next s ! group_index + local_distance) mod length kinds
            in if ar_queues s (group_source group_index local_index) \<noteq> []
               then Some (group_index, local_index) else None)
          [0..<length kinds])
       [0..<length arb_groups]"

definition arb_clear :: "arbiter \<Rightarrow> arbiter" where
  "arb_clear s = s\<lparr>ar_queues := (\<lambda>_. []), ar_group_next := 0,
     ar_local_next := replicate (length arb_groups) 0, ar_active := None, ar_word_index := 0\<rparr>"

text \<open>Service of one DWORD of the active message; the last one releases the arbiter.\<close>

definition arb_serve :: "arbiter \<Rightarrow> nat \<times> nat \<Rightarrow> py_error + arbiter \<times> message_beat" where
  "arb_serve s act =
     (let (group_index, local_index) = act;
          source = group_source group_index local_index;
          kinds = snd (arb_groups ! group_index);
          index = ar_word_index s
      in case ar_queues s source of
           [] \<Rightarrow> Inl IndexError
         | message # rest \<Rightarrow>
             if index \<ge> length (ms_words message) then Inl IndexError
             else
               let is_last = (index + 1 = length (ms_words message));
                   beat = \<lparr>mb_source = source, mb_word = ms_words message ! index, mb_index = index,
                           mb_last = is_last, mb_tag = ms_tag message\<rparr>
               in Inr ((if is_last then
                          s\<lparr>ar_queues := (ar_queues s)(source := rest),
                            ar_local_next := (ar_local_next s)[group_index := (local_index + 1) mod length kinds],
                            ar_group_next := (group_index + 1) mod length arb_groups,
                            ar_active := None, ar_word_index := 0\<rparr>
                        else s\<lparr>ar_word_index := index + 1, ar_active := Some act\<rparr>), beat))"

definition arb_tick :: "arbiter \<Rightarrow> bool \<Rightarrow> bool \<Rightarrow> py_error + arbiter \<times> message_beat option" where
  "arb_tick s segment_available reset =
     (if reset then Inr (arb_clear s, None)
      else if \<not> segment_available then Inr (s, None)
      else case (case ar_active s of None \<Rightarrow> arb_select s | Some act \<Rightarrow> Some act) of
             None \<Rightarrow> Inr (s, None)
           | Some act \<Rightarrow> rbind (arb_serve s act) (\<lambda>(s', beat). Inr (s', Some beat)))"

text \<open>The events between two resets: a message is built and offered, or an opportunity comes.\<close>

datatype arb_op = Offer source "int list" string | Tick bool

datatype arb_out = Offered bool | Served "message_beat option"

fun arb_step :: "arbiter \<Rightarrow> arb_op \<Rightarrow> py_error + arbiter \<times> arb_out" where
  "arb_step s (Offer source words tag) =
     rbind (message_new source words tag) (\<lambda>m. let (s', ok) = arb_offer s m in Inr (s', Offered ok))"
| "arb_step s (Tick segment_available) =
     rbind (arb_tick s segment_available False) (\<lambda>(s', b). Inr (s', Served b))"

subsection \<open>Selection\<close>

lemma first_some_Some:
  "first_some f xs = Some y \<Longrightarrow>
     \<exists>i < length xs. f (xs ! i) = Some y \<and> (\<forall>j < i. f (xs ! j) = None)"
proof (induction xs)
  case Nil
  then show ?case by simp
next
  case (Cons x xs)
  show ?case
  proof (cases "f x")
    case None
    with Cons obtain i where "i < length xs" "f (xs ! i) = Some y" "\<forall>j < i. f (xs ! j) = None" by auto
    with None show ?thesis by (intro exI [of _ "Suc i"]) (auto simp: less_Suc_eq_0_disj)
  next
    case (Some z)
    with Cons.prems show ?thesis by (intro exI [of _ 0]) simp
  qed
qed

lemma first_some_pick:
  assumes "first_some (\<lambda>e. if P (g e) then Some (c, g e) else None) [0..<n] = Some x"
  shows "\<exists>e < n. P (g e) \<and> x = (c, g e) \<and> (\<forall>j < e. \<not> P (g j))"
proof -
  let ?f = "\<lambda>e. if P (g e) then Some (c, g e) else None"
  from first_some_Some [OF assms] obtain e where e: "e < n" "?f ([0..<n] ! e) = Some x"
    "\<forall>j < e. ?f ([0..<n] ! j) = None" by (metis (no_types, lifting) diff_zero length_upt)
  have "?f j = None" if "j < e" for j using e(1,3) that by (metis (no_types, lifting) add_0 nth_upt less_trans)
  then have "\<not> P (g j)" if "j < e" for j using that by (metis option.distinct(1))
  moreover have "P (g e) \<and> x = (c, g e)" using e(1,2) by (auto split: if_splits)
  ultimately show ?thesis using e(1) by blast
qed

lemma first_some_None: "first_some f xs = None \<longleftrightarrow> (\<forall>x \<in> set xs. f x = None)"
  by (induction xs) (auto split: option.splits)

lemma kinds_nonempty: "gi < length arb_groups \<Longrightarrow> snd (arb_groups ! gi) \<noteq> []"
  by (auto simp: arb_groups_def less_Suc_eq numeral_eq_Suc)

text \<open>
  The selected source is pending, and it is the first pending one in circular order: no source at
  a smaller group distance, nor at a smaller local distance in its group, is pending.
\<close>

definition circular :: "nat \<Rightarrow> nat \<Rightarrow> nat \<Rightarrow> nat" where
  "circular start n i = (i + n - start) mod n"

lemma circular_inverse: "start < n \<Longrightarrow> d < n \<Longrightarrow> circular start n ((start + d) mod n) = d"
  by (cases "start + d < n") (auto simp: circular_def mod_if)

lemma circular_at: "start < n \<Longrightarrow> i < n \<Longrightarrow> (start + circular start n i) mod n = i"
  by (cases "start \<le> i") (auto simp: circular_def mod_if)

lemma circular_less: "start < n \<Longrightarrow> circular start n i < n"
  by (simp add: circular_def)

definition valid_slot :: "nat \<Rightarrow> nat \<Rightarrow> bool" where
  "valid_slot gi li \<longleftrightarrow> gi < length arb_groups \<and> li < length (snd (arb_groups ! gi))"

definition cursors_ok :: "arbiter \<Rightarrow> bool" where
  "cursors_ok s \<longleftrightarrow> ar_group_next s < length arb_groups \<and> length (ar_local_next s) = length arb_groups \<and>
     (\<forall>gi < length arb_groups. ar_local_next s ! gi < length (snd (arb_groups ! gi)))"

definition slot_rank :: "arbiter \<Rightarrow> nat \<Rightarrow> nat \<Rightarrow> nat \<times> nat" where
  "slot_rank s gi li =
     (circular (ar_group_next s) (length arb_groups) gi,
      circular (ar_local_next s ! gi) (length (snd (arb_groups ! gi))) li)"

definition rank_le :: "nat \<times> nat \<Rightarrow> nat \<times> nat \<Rightarrow> bool" where
  "rank_le a b \<longleftrightarrow> fst a < fst b \<or> fst a = fst b \<and> snd a \<le> snd b"

definition local_pick :: "arbiter \<Rightarrow> nat \<Rightarrow> (nat \<times> nat) option" where
  "local_pick s gi =
     first_some (\<lambda>e. let li = (ar_local_next s ! gi + e) mod length (snd (arb_groups ! gi))
                    in if ar_queues s (group_source gi li) \<noteq> [] then Some (gi, li) else None)
       [0..<length (snd (arb_groups ! gi))]"

lemma arb_select_alt:
  "arb_select s = first_some (\<lambda>d. local_pick s ((ar_group_next s + d) mod length arb_groups)) [0..<length arb_groups]"
  by (simp add: arb_select_def local_pick_def Let_def)

lemma local_pick_None:
  assumes "cursors_ok s" and "valid_slot gi li" and "local_pick s gi = None"
  shows "ar_queues s (group_source gi li) = []"
proof -
  let ?n = "length (snd (arb_groups ! gi))" and ?c = "ar_local_next s ! gi"
  have lt: "?c < ?n" "li < ?n" using assms(1,2) by (auto simp: cursors_ok_def valid_slot_def)
  have "circular ?c ?n li \<in> set [0..<?n]" using circular_less [OF lt(1)] by simp
  then show ?thesis
    using assms(3) circular_at [OF lt] unfolding local_pick_def first_some_None Let_def
    by (metis option.distinct(1))
qed

lemma local_pick_Some:
  assumes "cursors_ok s" and "gi < length arb_groups" and "local_pick s gi = Some x"
  obtains li where "x = (gi, li)" "valid_slot gi li" "ar_queues s (group_source gi li) \<noteq> []"
    and "\<And>lj. valid_slot gi lj \<Longrightarrow> ar_queues s (group_source gi lj) \<noteq> [] \<Longrightarrow>
           snd (slot_rank s gi li) \<le> snd (slot_rank s gi lj)"
proof -
  let ?n = "length (snd (arb_groups ! gi))" and ?c = "ar_local_next s ! gi"
  have c: "?c < ?n" using assms(1,2) by (simp add: cursors_ok_def)
  from first_some_pick [OF assms(3) [unfolded local_pick_def Let_def]] obtain e
    where e: "e < ?n" "ar_queues s (group_source gi ((?c + e) mod ?n)) \<noteq> []" "x = (gi, (?c + e) mod ?n)"
    and before: "\<And>j. j < e \<Longrightarrow> ar_queues s (group_source gi ((?c + j) mod ?n)) = []"
    by blast
  let ?li = "(?c + e) mod ?n"
  have r: "snd (slot_rank s gi ?li) = e" by (simp add: slot_rank_def circular_inverse [OF c e(1)])
  show thesis
  proof (rule that [OF e(3) _ e(2)])
    show "valid_slot gi ?li" 
    proof -
      have n0: "0 < ?n" using c by linarith
      show ?thesis unfolding valid_slot_def using assms(2) mod_less_divisor [OF n0] by blast
    qed
    fix lj assume lj: "valid_slot gi lj" "ar_queues s (group_source gi lj) \<noteq> []"
    have "(?c + circular ?c ?n lj) mod ?n = lj" using lj(1) by (intro circular_at c) (simp add: valid_slot_def)
    then have "\<not> circular ?c ?n lj < e" using before lj(2) by metis
    then show "snd (slot_rank s gi ?li) \<le> snd (slot_rank s gi lj)"
      unfolding r by (simp add: slot_rank_def)
  qed
qed

lemma arb_select_None:
  assumes "cursors_ok s" and "arb_select s = None" and "valid_slot gi li"
  shows "ar_queues s (group_source gi li) = []"
proof -
  let ?N = "length arb_groups"
  have lt: "ar_group_next s < ?N" "gi < ?N" using assms(1,3) by (auto simp: cursors_ok_def valid_slot_def)
  have "circular (ar_group_next s) ?N gi \<in> set [0..<?N]" using circular_less [OF lt(1)] by simp
  then have "local_pick s gi = None"
    using assms(2) circular_at [OF lt] unfolding arb_select_alt first_some_None by metis
  then show ?thesis by (rule local_pick_None [OF assms(1,3)])
qed

lemma arb_select_Some:
  assumes "cursors_ok s" and "arb_select s = Some (gi, li)"
  shows "valid_slot gi li" and "ar_queues s (group_source gi li) \<noteq> []"
    and "valid_slot gj lj \<Longrightarrow> ar_queues s (group_source gj lj) \<noteq> [] \<Longrightarrow>
           rank_le (slot_rank s gi li) (slot_rank s gj lj)"
proof -
  let ?N = "length arb_groups" and ?g = "ar_group_next s"
  have g: "?g < ?N" using assms(1) by (simp add: cursors_ok_def)
  from first_some_Some [OF assms(2) [unfolded arb_select_alt]] obtain d
    where d: "d < ?N" "local_pick s ((?g + d) mod ?N) = Some (gi, li)"
    and before: "\<And>j. j < d \<Longrightarrow> local_pick s ((?g + j) mod ?N) = None" by auto
  have lt: "(?g + d) mod ?N < ?N" using d(1) by (intro mod_less_divisor) linarith
  from local_pick_Some [OF assms(1) lt d(2)]
  have li: "valid_slot gi li" "ar_queues s (group_source gi li) \<noteq> []" "gi = (?g + d) mod ?N"
    and least: "\<And>lj. valid_slot gi lj \<Longrightarrow> ar_queues s (group_source gi lj) \<noteq> [] \<Longrightarrow>
           snd (slot_rank s gi li) \<le> snd (slot_rank s gi lj)" by blast+
  show "valid_slot gi li" "ar_queues s (group_source gi li) \<noteq> []" by (rule li)+
  have r: "fst (slot_rank s gi li) = d" by (simp add: slot_rank_def li(3) circular_inverse [OF g d(1)])
  show "rank_le (slot_rank s gi li) (slot_rank s gj lj)"
    if gj: "valid_slot gj lj" "ar_queues s (group_source gj lj) \<noteq> []"
  proof -
    let ?d' = "circular ?g ?N gj"
    have at: "(?g + ?d') mod ?N = gj" using gj(1) by (intro circular_at g) (simp add: valid_slot_def)
    have "\<not> ?d' < d"
    proof
      assume "?d' < d"
      from before [OF this] have "local_pick s gj = None" by (simp only: at)
      from local_pick_None [OF assms(1) gj(1) this] gj(2) show False by simp
    qed
    moreover have "gj = gi" if "?d' = d" using at that by (simp add: li(3))
    ultimately show ?thesis
      using least [of lj] gj r by (cases "?d' = d") (auto simp: rank_le_def slot_rank_def)
  qed
qed

subsection \<open>Invariant\<close>

definition message_ok :: "message \<Rightarrow> bool" where
  "message_ok m \<longleftrightarrow> ms_source m \<in> set arb_sources \<and> ms_words m \<noteq> [] \<and> length (ms_words m) \<le> 33 \<and>
     (ms_source m \<noteq> (1, 0) \<longrightarrow> length (ms_words m) = 1)"

definition queues_ok :: "int \<Rightarrow> (source \<Rightarrow> message list) \<Rightarrow> bool" where
  "queues_ok d Q \<longleftrightarrow> (\<forall>q. int (length (Q q)) \<le> d \<and> (\<forall>m \<in> set (Q q). message_ok m \<and> ms_source m = q))"

lemma queues_okD: "queues_ok d Q \<Longrightarrow> int (length (Q q)) \<le> d \<and> (\<forall>m \<in> set (Q q). message_ok m \<and> ms_source m = q)"
  unfolding queues_ok_def by (erule spec)

lemma queues_ok_update:
  "queues_ok d Q \<Longrightarrow> int (length xs) \<le> d \<Longrightarrow> (\<And>m. m \<in> set xs \<Longrightarrow> message_ok m \<and> ms_source m = q) \<Longrightarrow>
     queues_ok d (Q(q := xs))"
  unfolding queues_ok_def by (intro allI) (metis fun_upd_apply)

definition arb_ok :: "arbiter \<Rightarrow> bool" where
  "arb_ok s \<longleftrightarrow> 1 \<le> ar_depth s \<and> cursors_ok s \<and>
     queues_ok (ar_depth s) (ar_queues s) \<and>
     (case ar_active s of
        None \<Rightarrow> ar_word_index s = 0
      | Some (gi, li) \<Rightarrow> valid_slot gi li \<and> ar_queues s (group_source gi li) \<noteq> [] \<and>
          1 \<le> ar_word_index s \<and> ar_word_index s < length (ms_words (hd (ar_queues s (group_source gi li)))))"

lemma message_new_ok: "message_new q ws t = Inr m \<Longrightarrow> message_ok m \<and> ms_source m = q \<and> ms_words m = ws"
  by (auto simp: message_new_def check_source_def message_ok_def split: if_splits)

lemma arb_okD:
  assumes "arb_ok s"
  shows "1 \<le> ar_depth s" "cursors_ok s" "int (length (ar_queues s q)) \<le> ar_depth s"
    and "m \<in> set (ar_queues s q) \<Longrightarrow> message_ok m \<and> ms_source m = q"
    and "ar_active s = None \<Longrightarrow> ar_word_index s = 0"
    and "ar_active s = Some (gi, li) \<Longrightarrow> valid_slot gi li \<and> ar_queues s (group_source gi li) \<noteq> [] \<and>
          1 \<le> ar_word_index s \<and> ar_word_index s < length (ms_words (hd (ar_queues s (group_source gi li))))"
  using assms queues_okD [of "ar_depth s" "ar_queues s" q] by (auto simp: arb_ok_def)

lemma arb_init_ok: "arb_init d = Inr s \<Longrightarrow> arb_ok s"
  by (auto simp: queues_ok_def arb_init_def arb_ok_def cursors_ok_def arb_groups_def less_Suc_eq split: if_splits)

lemma arb_clear_ok: "arb_ok s \<Longrightarrow> arb_ok (arb_clear s)"
  by (auto simp: queues_ok_def arb_clear_def arb_ok_def cursors_ok_def arb_groups_def less_Suc_eq)

lemma arb_offer_ok:
  assumes "arb_ok s" and "message_ok m" and "arb_offer s m = (s', ok)"
  shows "arb_ok s'"
    and "s' = (if ok then s\<lparr>ar_queues := (ar_queues s)(ms_source m := ar_queues s (ms_source m) @ [m])\<rparr> else s)"
proof -
  show s': "s' = (if ok then s\<lparr>ar_queues := (ar_queues s)(ms_source m := ar_queues s (ms_source m) @ [m])\<rparr> else s)"
    using assms(3) by (auto simp: arb_offer_def Let_def split: if_splits)
  show "arb_ok s'"
  proof (cases ok)
    case False
    with s' assms(1) show ?thesis by simp
  next
    case True
    then have "int (length (ar_queues s (ms_source m))) < ar_depth s"
      using assms(3) by (auto simp: arb_offer_def Let_def split: if_splits)
    then have "queues_ok (ar_depth s) (ar_queues s')"
      using assms(1,2) True arb_okD(4) [OF assms(1), of _ "ms_source m"] unfolding s'
      by (auto simp: arb_ok_def intro!: queues_ok_update)
    then show ?thesis
      using assms(1) unfolding s' using True
      by (auto simp: arb_ok_def cursors_ok_def hd_append split: option.splits prod.splits)
  qed
qed

text \<open>
  The slot that a tick serves: the active one, or the selected one. Serving it never raises; it
  gives the word at the index and either moves to the next word or completes the message.
\<close>

definition arb_current :: "arbiter \<Rightarrow> (nat \<times> nat) option" where
  "arb_current s = (case ar_active s of None \<Rightarrow> arb_select s | Some act \<Rightarrow> Some act)"

lemma arb_current_ok:
  assumes "arb_ok s" and "arb_current s = Some (gi, li)"
  shows "valid_slot gi li" "ar_queues s (group_source gi li) \<noteq> []"
    and "ar_word_index s < length (ms_words (hd (ar_queues s (group_source gi li))))"
proof -
  have "valid_slot gi li \<and> ar_queues s (group_source gi li) \<noteq> [] \<and>
    ar_word_index s < length (ms_words (hd (ar_queues s (group_source gi li))))"
  proof (cases "ar_active s")
    case None
    then have sel: "arb_select s = Some (gi, li)" using assms(2) by (simp add: arb_current_def)
    note pick = arb_select_Some(1,2) [OF arb_okD(2) [OF assms(1)] sel]
    have "message_ok (hd (ar_queues s (group_source gi li)))"
      using arb_okD(4) [OF assms(1)] pick(2) hd_in_set by blast
    then show ?thesis using pick arb_okD(5) [OF assms(1) None] by (simp add: message_ok_def)
  next
    case (Some x)
    then show ?thesis using assms(2) arb_okD(6) [OF assms(1), of gi li] by (simp add: arb_current_def)
  qed
  then show "valid_slot gi li" "ar_queues s (group_source gi li) \<noteq> []"
    "ar_word_index s < length (ms_words (hd (ar_queues s (group_source gi li))))" by blast+
qed

lemma arb_serve_ok:
  assumes "arb_ok s" and "arb_current s = Some (gi, li)"
  obtains s' b m rest where "arb_serve s (gi, li) = Inr (s', b)" "arb_ok s'"
    "ar_queues s (group_source gi li) = m # rest" "mb_source b = group_source gi li"
    "mb_word b = ms_words m ! ar_word_index s" "mb_index b = ar_word_index s"
    "mb_last b \<longleftrightarrow> ar_word_index s + 1 = length (ms_words m)" "mb_tag b = ms_tag m"
    "s' = (if mb_last b then
             s\<lparr>ar_queues := (ar_queues s)(group_source gi li := rest),
               ar_local_next := (ar_local_next s)[gi := (li + 1) mod length (snd (arb_groups ! gi))],
               ar_group_next := (gi + 1) mod length arb_groups, ar_active := None, ar_word_index := 0\<rparr>
           else s\<lparr>ar_word_index := ar_word_index s + 1, ar_active := Some (gi, li)\<rparr>)"
proof -
  note cur = arb_current_ok [OF assms]
  obtain m rest where q: "ar_queues s (group_source gi li) = m # rest"
    using cur(2) by (cases "ar_queues s (group_source gi li)") auto
  have idx: "ar_word_index s < length (ms_words m)" using cur(3) by (simp add: q)
  define b where "b = \<lparr>mb_source = group_source gi li, mb_word = ms_words m ! ar_word_index s,
    mb_index = ar_word_index s, mb_last = (ar_word_index s + 1 = length (ms_words m)), mb_tag = ms_tag m\<rparr>"
  define s' where "s' = (if mb_last b then
             s\<lparr>ar_queues := (ar_queues s)(group_source gi li := rest),
               ar_local_next := (ar_local_next s)[gi := (li + 1) mod length (snd (arb_groups ! gi))],
               ar_group_next := (gi + 1) mod length arb_groups, ar_active := None, ar_word_index := 0\<rparr>
           else s\<lparr>ar_word_index := ar_word_index s + 1, ar_active := Some (gi, li)\<rparr>)"
  have serve: "arb_serve s (gi, li) = Inr (s', b)"
    using idx by (simp add: arb_serve_def q s'_def b_def Let_def)
  have "arb_ok s'"
  proof (cases "mb_last b")
    case False
    then have "ar_word_index s + 1 < length (ms_words m)" using idx by (simp add: b_def)
    with assms(1) cur(1) q False show ?thesis
      by (auto simp: arb_ok_def s'_def cursors_ok_def split: option.splits)
  next
    case True
    have c: "cursors_ok s" by (rule arb_okD(2) [OF assms(1)])
    have n: "0 < length (snd (arb_groups ! gi))" using cur(1) by (auto simp: valid_slot_def)
    have "cursors_ok s'"
      unfolding cursors_ok_def
    proof (intro conjI allI impI)
      show "ar_group_next s' < length arb_groups" using True by (simp add: s'_def arb_groups_def)
      show "length (ar_local_next s') = length arb_groups" using True c by (simp add: s'_def cursors_ok_def)
      fix g assume "g < length arb_groups"
      then show "ar_local_next s' ! g < length (snd (arb_groups ! g))"
        using True c mod_less_divisor [OF n] by (cases "g = gi") (simp_all add: s'_def cursors_ok_def)
    qed
    moreover have "queues_ok (ar_depth s) ((ar_queues s)(group_source gi li := rest))"
      using assms(1) arb_okD(3) [OF assms(1), of "group_source gi li"] arb_okD(4) [OF assms(1), of _ "group_source gi li"] q
      by (intro queues_ok_update) (auto simp: arb_ok_def)
    ultimately show ?thesis using True arb_okD(1) [OF assms(1)] by (simp add: arb_ok_def s'_def)
  qed
  then show thesis using that [OF serve _ q] by (simp add: b_def s'_def)
qed

subsection \<open>Per-source order and contiguity\<close>

lemma group_source_inj:
  "valid_slot gi li \<Longrightarrow> valid_slot gj lj \<Longrightarrow> group_source gi li = group_source gj lj \<Longrightarrow> gi = gj \<and> li = lj"
  by (auto simp: valid_slot_def group_source_def arb_groups_def less_Suc_eq numeral_eq_Suc)

text \<open>The words of a source still to be served.\<close>

definition arb_words :: "source \<Rightarrow> arbiter \<Rightarrow> int list" where
  "arb_words q s =
     drop (if map_option (\<lambda>(gi, li). group_source gi li) (ar_active s) = Some q then ar_word_index s else 0)
       (concat (map ms_words (ar_queues s q)))"

fun arb_taken :: "source \<Rightarrow> arb_op \<Rightarrow> arb_out \<Rightarrow> int list" where
  "arb_taken q (Offer source words tag) (Offered ok) = (if ok \<and> source = q then words else [])"
| "arb_taken q _ _ = []"

fun arb_given :: "source \<Rightarrow> arb_out \<Rightarrow> int list" where
  "arb_given q (Served (Some b)) = (if mb_source b = q then [mb_word b] else [])"
| "arb_given q _ = []"

lemma arb_words_current:
  assumes "arb_ok s" and "arb_current s = Some (gi, li)" and "ar_queues s (group_source gi li) = m # rest"
  shows "arb_words (group_source gi li) s = drop (ar_word_index s) (ms_words m) @ concat (map ms_words rest)"
proof -
  have "ar_word_index s \<le> length (ms_words m)" using arb_current_ok(3) [OF assms(1,2)] assms(3) by simp
  moreover have "ar_active s = None \<Longrightarrow> ar_word_index s = 0" by (rule arb_okD(5) [OF assms(1)])
  ultimately show ?thesis
    using assms(2,3) by (cases "ar_active s") (simp_all add: arb_words_def arb_current_def)
qed

lemma arb_words_other:
  assumes "arb_ok s" and "arb_current s = Some (gi, li)" and "q \<noteq> group_source gi li"
  shows "arb_words q s = concat (map ms_words (ar_queues s q))"
  using assms(2,3) by (cases "ar_active s") (auto simp: arb_words_def arb_current_def)

text \<open>The checker of contiguity: after a beat that is not the last, the next beat continues its message.\<close>

fun contiguous :: "(source \<times> nat) option \<Rightarrow> arb_op \<times> arb_out \<Rightarrow> py_error + (source \<times> nat) option" where
  "contiguous e (i, Served (Some b)) =
     (if (case e of None \<Rightarrow> mb_index b = 0 | Some (q, k) \<Rightarrow> mb_source b = q \<and> mb_index b = k)
      then Inr (if mb_last b then None else Some (mb_source b, mb_index b + 1)) else Inl AssertionError)"
| "contiguous e _ = Inr e"

definition arb_expects :: "arbiter \<Rightarrow> (source \<times> nat) option \<Rightarrow> bool" where
  "arb_expects s e \<longleftrightarrow> e = map_option (\<lambda>(gi, li). (group_source gi li, ar_word_index s)) (ar_active s)"

lemma arb_tick_alt:
  "arb_tick s seg rst =
     (if rst then Inr (arb_clear s, None) else if \<not> seg then Inr (s, None)
      else case arb_current s of None \<Rightarrow> Inr (s, None)
           | Some act \<Rightarrow> rbind (arb_serve s act) (\<lambda>(s', beat). Inr (s', Some beat)))"
  by (simp add: arb_tick_def arb_current_def)

lemma arb_tick_cases:
  assumes "arb_ok s" and "arb_tick s seg False = Inr (s', ob)"
  obtains (idle) "s' = s" "ob = None" "\<not> seg \<or> arb_current s = None"
  | (serve) gi li b where "seg" "arb_current s = Some (gi, li)" "arb_serve s (gi, li) = Inr (s', b)" "ob = Some b"
proof (cases "seg \<and> arb_current s \<noteq> None")
  case False
  then have n: "\<not> seg \<or> arb_current s = None" by blast
  then have "s' = s \<and> ob = None" using assms(2) by (auto simp: arb_tick_alt split: if_splits)
  with n show thesis using idle by blast
next
  case True
  then obtain gi li where c: "arb_current s = Some (gi, li)" by auto
  then show thesis
    using assms(2) True serve [of gi li] by (auto simp: arb_tick_alt)
qed

lemma arb_tick_total: "arb_ok s \<Longrightarrow> \<exists>s' ob. arb_tick s seg rst = Inr (s', ob)"
proof -
  assume ok: "arb_ok s"
  show ?thesis
  proof (cases "rst \<or> \<not> seg \<or> arb_current s = None")
    case True
    then show ?thesis by (auto simp: arb_tick_alt)
  next
    case False
    then obtain gi li where c: "arb_current s = Some (gi, li)" by auto
    from arb_serve_ok [OF ok c] obtain s' b where "arb_serve s (gi, li) = Inr (s', b)" .
    with False c show ?thesis by (auto simp: arb_tick_alt)
  qed
qed

lemma arb_serve_facts:
  assumes "arb_ok s" and "arb_current s = Some (gi, li)" and "arb_serve s (gi, li) = Inr (s', b)"
  shows "arb_ok s'" and "arb_words q s = arb_given q (Served (Some b)) @ arb_words q s'"
    and "arb_expects s e \<Longrightarrow> \<exists>e'. contiguous e (i, Served (Some b)) = Inr e' \<and> arb_expects s' e'"
proof -
  from arb_serve_ok [OF assms(1,2)] obtain s2 b2 m rest where r: "arb_serve s (gi, li) = Inr (s2, b2)"
    and ok2: "arb_ok s2" and q: "ar_queues s (group_source gi li) = m # rest"
    and b2: "mb_source b2 = group_source gi li"
    "mb_word b2 = ms_words m ! ar_word_index s" "mb_index b2 = ar_word_index s"
    "mb_last b2 \<longleftrightarrow> ar_word_index s + 1 = length (ms_words m)"
    and s2: "s2 = (if mb_last b2 then
             s\<lparr>ar_queues := (ar_queues s)(group_source gi li := rest),
               ar_local_next := (ar_local_next s)[gi := (li + 1) mod length (snd (arb_groups ! gi))],
               ar_group_next := (gi + 1) mod length arb_groups, ar_active := None, ar_word_index := 0\<rparr>
           else s\<lparr>ar_word_index := ar_word_index s + 1, ar_active := Some (gi, li)\<rparr>)" .
  have eq: "s2 = s'" "b2 = b" using r assms(3) by simp_all
  note ok = ok2 [unfolded eq] and b = b2 [unfolded eq] and s' = s2 [unfolded eq]
  note cur = arb_current_ok [OF assms(1,2)]
  have idx: "ar_word_index s < length (ms_words m)" using cur(3) by (simp add: q)
  show "arb_ok s'" by (rule ok)
  show "arb_words q s = arb_given q (Served (Some b)) @ arb_words q s'" for q
  proof (cases "q = group_source gi li")
    case True
    have "arb_words q s = ms_words m ! ar_word_index s # drop (Suc (ar_word_index s)) (ms_words m) @ concat (map ms_words rest)"
      unfolding True arb_words_current [OF assms(1,2) q] using idx by (simp add: Cons_nth_drop_Suc)
    moreover have "arb_words q s' = drop (Suc (ar_word_index s)) (ms_words m) @ concat (map ms_words rest)"
    proof (cases "mb_last b")
      case l: True
      then have "drop (Suc (ar_word_index s)) (ms_words m) = []" using b(4) by simp
      then show ?thesis using l by (simp add: True s' arb_words_def)
    next
      case False
      then show ?thesis using idx by (simp add: True s' arb_words_def q)
    qed
    ultimately show ?thesis using b True by simp
  next
    case False
    have "arb_words q s' = concat (map ms_words (ar_queues s q))"
      using False by (auto simp: s' arb_words_def)
    then show ?thesis using b False arb_words_other [OF assms(1,2) False] by simp
  qed
  show "\<exists>e'. contiguous e (i, Served (Some b)) = Inr e' \<and> arb_expects s' e'" if e: "arb_expects s e"
  proof (cases "ar_active s")
    case None
    then have "e = None" "ar_word_index s = 0" using e arb_okD(5) [OF assms(1)] by (simp_all add: arb_expects_def)
    then show ?thesis using b(1,3) by (simp add: s' arb_expects_def)
  next
    case (Some x)
    then have "x = (gi, li)" using assms(2) by (simp add: arb_current_def)
    then have "e = Some (group_source gi li, ar_word_index s)" using e Some by (simp add: arb_expects_def)
    then show ?thesis using b(1,3) by (simp add: s' arb_expects_def)
  qed
qed

lemma arb_step_ok:
  assumes "arb_ok s" and "arb_step s i = Inr (s', out)"
  shows "arb_ok s'" and "arb_words q s @ arb_taken q i out = arb_given q out @ arb_words q s'"
    and "arb_expects s e \<Longrightarrow> \<exists>e'. contiguous e (i, out) = Inr e' \<and> arb_expects s' e'"
proof -
  have "arb_ok s' \<and> arb_words q s @ arb_taken q i out = arb_given q out @ arb_words q s' \<and>
    (arb_expects s e \<longrightarrow> (\<exists>e'. contiguous e (i, out) = Inr e' \<and> arb_expects s' e'))"
  proof (cases i)
    case (Offer src ws tag)
    then obtain m where m0: "message_new src ws tag = Inr m" using assms(2) by auto
    obtain t ok where t: "arb_offer s m = (t, ok)" by force
    then have m: "message_new src ws tag = Inr m" "arb_offer s m = (s', ok)" "out = Offered ok"
      using assms(2) Offer m0 by auto
    note mok = message_new_ok [OF m(1)]
    note off = arb_offer_ok [OF assms(1) mok [THEN conjunct1] m(2)]
    have "arb_words q s' = arb_words q s @ (if ok \<and> src = q then ws else [])"
    proof (cases "ok \<and> src = q")
      case False
      then show ?thesis using off(2) mok by (auto simp: arb_words_def)
    next
      case True
      have "ar_word_index s \<le> length (concat (map ms_words (ar_queues s q)))"
        if "ar_active s = Some (gi, li)" "group_source gi li = q" for gi li
        using arb_okD(6) [OF assms(1) that(1)] that(2) by (cases "ar_queues s q") auto
      then show ?thesis using True off(2) mok by (auto simp: arb_words_def)
    qed
    then show ?thesis using off Offer m(3) by (auto simp: arb_expects_def)
  next
    case (Tick seg)
    then obtain ob where t: "arb_tick s seg False = Inr (s', ob)" "out = Served ob"
      using assms(2) by auto
    from assms(1) t(1) show ?thesis
    proof (cases rule: arb_tick_cases)
      case idle
      then show ?thesis using assms(1) t(2) Tick by simp
    next
      case (serve gi li b)
      from arb_serve_facts [OF assms(1) serve(2,3)] show ?thesis by (simp add: Tick t(2) serve(4))
    qed
  qed
  then show "arb_ok s'" and "arb_words q s @ arb_taken q i out = arb_given q out @ arb_words q s'"
    and "arb_expects s e \<Longrightarrow> \<exists>e'. contiguous e (i, out) = Inr e' \<and> arb_expects s' e'" by blast+
qed

interpretation dl_arbiter: flow arb_step arb_ok "arb_words q" "arb_taken q" "arb_given q" for q
  by unfold_locales (rule arb_step_ok, assumption+)+

interpretation dl_arbiter_lock: watched arb_step arb_ok contiguous arb_expects
  by unfold_locales (rule arb_step_ok(3), assumption+)

end
