(* ===== verification/Dl_Service.thy ===== *)
theory Dl_Service
  imports Dl_Arbiter
begin

section \<open>Data-link message service bounds\<close>

text \<open>
  Models \<open>simulator/UAlink2.0/model/ualink/dl_message_service.py\<close>: the recursive worst-case service
  bound over arbitration histories, the search for a prefix that reaches a history, and the
  completion budget. The recursion of \<open>_bound\<close> is a terminating \<open>function\<close>; its guard on the
  target is the check that every caller makes. The main lemma shows that the arbiter of \<open>Dl_Arbiter\<close>
  meets the bound: a pending message of the target completes within \<open>service_bound\<close> opportunities.
\<close>

type_synonym history = "int \<times> int \<times> int \<times> int"

record service_step =
  ss_pending :: int
  ss_source :: int
  ss_words :: int
  ss_after :: history

record service_bound =
  sb_opportunities :: int
  sb_steps :: "service_step list"

record time_budget =
  tb_completion :: "int option"
  tb_margin :: "int option"
  tb_meets :: "bool option"

definition service_groups :: "int list list" where
  "service_groups = [[0, 1, 2, 3, 4], [5, 6], [7, 8, 9, 10]]"

text \<open>\<open>_LOCATION\<close>: the group of a source and its index there.\<close>

definition location :: "int \<Rightarrow> int \<times> int" where
  "location source = (if source \<le> 4 then (0, source) else if source \<le> 6 then (1, source - 5) else (2, source - 7))"

definition reset_history :: history where
  "reset_history = (2, 4, 1, 3)"

definition group_size :: "int \<Rightarrow> int" where
  "group_size g = (if g = 0 then 5 else if g = 1 then 2 else 4)"

definition hist_group :: "history \<Rightarrow> int" where
  "hist_group h = fst h"

definition hist_local :: "history \<Rightarrow> int \<Rightarrow> int" where
  "hist_local h g = (case h of (_, a, b, c) \<Rightarrow> if g = 0 then a else if g = 1 then b else c)"

definition hist_set :: "history \<Rightarrow> int \<Rightarrow> int \<Rightarrow> history" where
  "hist_set h g l = (case h of (_, a, b, c) \<Rightarrow>
     if g = 0 then (g, l, b, c) else if g = 1 then (g, a, l, c) else (g, a, b, l))"

definition check_history :: "history \<Rightarrow> py_error + unit" where
  "check_history h = (case h of (g, a, b, c) \<Rightarrow>
     ensure (0 \<le> g \<and> g < 3 \<and> 0 \<le> a \<and> a < 5 \<and> 0 \<le> b \<and> b < 2 \<and> 0 \<le> c \<and> c < 4))"

definition check_target :: "int \<Rightarrow> py_error + unit" where
  "check_target target = ensure (0 \<le> target \<and> target \<le> 10)"

definition history_rank :: "history \<Rightarrow> int \<Rightarrow> int \<times> int" where
  "history_rank h source =
     (let (g, l) = location source
      in ((g - hist_group h - 1) mod 3, (l - hist_local h g - 1) mod group_size g))"

definition rank_above :: "int \<times> int \<Rightarrow> int \<times> int \<Rightarrow> bool" where
  "rank_above a b \<longleftrightarrow> fst a > fst b \<or> fst a = fst b \<and> snd a > snd b"

definition history_advance :: "history \<Rightarrow> int \<Rightarrow> history" where
  "history_advance h source = (let (g, l) = location source in hist_set h g l)"

definition source_cost :: "int \<Rightarrow> int" where
  "source_cost source = (if source = 7 then 33 else 1)"

definition service_zero :: service_bound where
  "service_zero = \<lparr>sb_opportunities = 0, sb_steps = []\<rparr>"

definition rank_measure :: "history \<Rightarrow> int \<Rightarrow> nat" where
  "rank_measure h t = nat (snd (history_rank h t) * 3 + fst (history_rank h t))"

lemma location_inj:
  "0 \<le> a \<Longrightarrow> a \<le> 10 \<Longrightarrow> 0 \<le> b \<Longrightarrow> b \<le> 10 \<Longrightarrow> location a = location b \<Longrightarrow> a = b"
  by (auto simp: location_def split: if_splits)

lemma location_range:
  "0 \<le> a \<Longrightarrow> a \<le> 10 \<Longrightarrow> 0 \<le> fst (location a) \<and> fst (location a) < 3 \<and> 0 \<le> snd (location a) \<and>
     snd (location a) < group_size (fst (location a))"
  by (auto simp: location_def group_size_def)

lemma hist_set_simps [simp]:
  "hist_group (hist_set h g l) = g"
  "0 \<le> g \<Longrightarrow> g < 3 \<Longrightarrow> 0 \<le> g' \<Longrightarrow> g' < 3 \<Longrightarrow>
     hist_local (hist_set h g l) g' = (if g' = g then l else hist_local h g')"
  by (auto simp: hist_group_def hist_local_def hist_set_def split: prod.splits)

lemma mod_step:
  assumes "0 < n" and "(a - h - 1) mod n < (b - h - 1) mod (n::int)"
  shows "(b - a - 1) mod n = (b - h - 1) mod n - (a - h - 1) mod n - 1"
proof -
  let ?x = "(a - h - 1) mod n" and ?y = "(b - h - 1) mod n"
  have "(b - a - 1) mod n = ((b - h - 1) - (a - h - 1) - 1) mod n" by simp
  also have "\<dots> = (?y - ?x - 1) mod n" by (metis mod_diff_eq mod_diff_left_eq)
  also have "\<dots> = ?y - ?x - 1"
    using assms pos_mod_sign [of n "a - h - 1"] pos_mod_bound [of n "b - h - 1"]
    by (intro mod_pos_pos_trivial) linarith+
  finally show ?thesis .
qed

lemma mod_same:
  assumes "0 \<le> a" "a < n" "0 \<le> b" "b < n" and "(a - h - 1) mod n = (b - h - 1) mod (n::int)"
  shows "a = b"
proof -
  have "n dvd (a - h - 1) - (b - h - 1)" using assms(5) by (simp only: mod_eq_dvd_iff)
  then have d: "n dvd a - b" by simp
  show ?thesis
  proof (rule ccontr)
    assume "a \<noteq> b"
    then have "0 < \<bar>a - b\<bar>" "\<bar>a - b\<bar> < n" using assms(1-4) by linarith+
    from zdvd_not_zless [OF this] d show False by simp
  qed
qed

text \<open>After a source of no larger rank is served, the target is strictly closer to service.\<close>

lemma rank_measure_decreases:
  assumes s: "0 \<le> s" "s \<le> 10" and t: "0 \<le> t" "t \<le> 10" and "s \<noteq> t"
    and le: "\<not> rank_above (history_rank h s) (history_rank h t)"
  shows "rank_measure (history_advance h s) t < rank_measure h t"
proof -
  obtain gs ls gt lt where ls: "location s = (gs, ls)" and lt: "location t = (gt, lt)" by force
  have r: "0 \<le> gs" "gs < 3" "0 \<le> gt" "gt < 3" "0 \<le> ls" "ls < group_size gs" "0 \<le> lt" "lt < group_size gt"
    using location_range [OF s] location_range [OF t] by (simp_all add: ls lt)
  have n: "0 < group_size g" for g by (simp add: group_size_def)
  let ?h0 = "hist_group h" and ?l = "hist_local h gt"
  have adv: "history_rank (history_advance h s) t =
      ((gt - gs - 1) mod 3, (lt - (if gt = gs then ls else ?l) - 1) mod group_size gt)"
    using r by (simp add: history_rank_def history_advance_def ls lt)
  have old: "history_rank h t = ((gt - ?h0 - 1) mod 3, (lt - ?l - 1) mod group_size gt)"
    by (simp add: history_rank_def lt)
  have sr: "history_rank h s = ((gs - ?h0 - 1) mod 3, (ls - hist_local h gs - 1) mod group_size gs)"
    by (simp add: history_rank_def ls)
  have nn: "0 \<le> (x::int) mod 3" "x mod 3 < 3" "0 \<le> x mod group_size gt" for x
    using n [of gt] by simp_all
  show ?thesis
  proof (cases "gs = gt")
    case True
    have ne: "ls \<noteq> lt" using location_inj [OF s t] assms(5) by (auto simp: ls lt True)
    have "(ls - ?l - 1) mod group_size gt \<le> (lt - ?l - 1) mod group_size gt"
      using le by (simp add: rank_above_def sr old True)
    moreover have "(ls - ?l - 1) mod group_size gt \<noteq> (lt - ?l - 1) mod group_size gt"
      using mod_same [of ls "group_size gt" lt ?l] r ne True by auto
    ultimately have lt': "(ls - ?l - 1) mod group_size gt < (lt - ?l - 1) mod group_size gt" by simp
    have "(lt - ls - 1) mod group_size gt < (lt - ?l - 1) mod group_size gt"
      using mod_step [OF n lt'] nn(3) [of "ls - ?l - 1"] by linarith
    then show ?thesis
      using nn(1) [of "gt - ?h0 - 1"] nn(2) [of "gt - gs - 1"] nn(1) [of "gt - gs - 1"] nn(3) [of "lt - ls - 1"]
      unfolding rank_measure_def adv old fst_conv snd_conv if_P [OF True [symmetric]] nat_less_eq_zless
      by (subst nat_less_eq_zless) linarith+
  next
    case False
    have "(gs - ?h0 - 1) mod 3 \<noteq> (gt - ?h0 - 1) mod 3"
      using mod_same [of gs 3 gt ?h0] r False by auto
    then have lt': "(gs - ?h0 - 1) mod 3 < (gt - ?h0 - 1) mod 3"
      using le by (auto simp: rank_above_def sr old)
    have "(gt - gs - 1) mod 3 < (gt - ?h0 - 1) mod 3"
      using mod_step [OF _ lt'] nn(1) [of "gs - ?h0 - 1"] by simp
    then show ?thesis
      using False nn(1) [of "gt - gs - 1"] nn(3) [of "lt - ?l - 1"] by (simp add: rank_measure_def adv old)
  qed
qed

lemma sources_range: "s \<in> set [0..10] \<Longrightarrow> 0 \<le> s \<and> s \<le> (10::int)"
  by simp

declare foldl_cong [fundef_cong]

function service :: "history \<Rightarrow> int \<Rightarrow> service_bound" where
  "service h target =
     (if \<not> (0 \<le> target \<and> target \<le> 10) then service_zero
      else foldl (\<lambda>best source.
        if rank_above (history_rank h source) (history_rank h target) then best
        else let after = history_advance h source;
                 cost = source_cost source;
                 tail = (if source = target then service_zero else service after target);
                 step = \<lparr>ss_pending = push_bit (nat source) 1 OR push_bit (nat target) 1, ss_source = source,
                         ss_words = cost, ss_after = after\<rparr>;
                 candidate = \<lparr>sb_opportunities = cost + sb_opportunities tail, sb_steps = step # sb_steps tail\<rparr>
             in if sb_opportunities candidate > sb_opportunities best then candidate else best)
        service_zero [0..10])"
  by pat_completeness auto
termination
  by (relation "measure (\<lambda>(h, t). rank_measure h t)") (auto intro!: rank_measure_decreases)

declare service.simps [simp del]

definition service_bound_of :: "history \<Rightarrow> int \<Rightarrow> py_error + service_bound" where
  "service_bound_of h target =
     rbind (check_history h) (\<lambda>_. rbind (check_target target) (\<lambda>_. Inr (service h target)))"

definition locked_service_bound :: "history \<Rightarrow> int \<Rightarrow> int \<Rightarrow> py_error + int" where
  "locked_service_bound h target remaining =
     rbind (check_history h) (\<lambda>_. rbind (check_target target) (\<lambda>_. rbind (ensure (remaining \<ge> 1)) (\<lambda>_.
       if remaining > 32 then Inl ValueError
       else if target = 7 then Inr remaining
       else Inr (remaining + sb_opportunities (service (history_advance h 7) target)))))"

definition completion_budget ::
  "int \<Rightarrow> int option \<Rightarrow> int option \<Rightarrow> int \<Rightarrow> int \<Rightarrow> int option \<Rightarrow> int \<Rightarrow> py_error + time_budget" where
  "completion_budget opportunities first_ps gap_ps ingress_ps egress_ps blackout_ps deadline_ps =
     rbind (ensure (opportunities \<ge> 1 \<and> ingress_ps \<ge> 0 \<and> egress_ps \<ge> 0 \<and> deadline_ps \<ge> 0)) (\<lambda>_.
     rbind (ensure (pred_option (\<lambda>v. v \<ge> 0) first_ps \<and> pred_option (\<lambda>v. v \<ge> 1) gap_ps \<and>
                    pred_option (\<lambda>v. v \<ge> 0) blackout_ps)) (\<lambda>_.
       case (first_ps, gap_ps, blackout_ps) of
         (Some first, Some gap, Some blackout) \<Rightarrow>
           let elapsed = ingress_ps + first + (opportunities - 1) * gap + blackout + egress_ps;
               margin = deadline_ps - elapsed
           in Inr \<lparr>tb_completion = Some elapsed, tb_margin = Some margin, tb_meets = Some (margin \<ge> 0)\<rparr>
       | _ \<Rightarrow> Inr \<lparr>tb_completion = None, tb_margin = None, tb_meets = None\<rparr>))"

subsection \<open>The bound is the exact maximum over legal service traces\<close>

lemma foldl_best:
  fixes v :: "'b \<Rightarrow> int" and P :: "'x \<Rightarrow> bool" and f :: "'x \<Rightarrow> 'b"
  defines "F \<equiv> \<lambda>best x. if P x then best else if v (f x) > v best then f x else best"
  shows "v b \<le> v (foldl F b xs)" and "x \<in> set xs \<Longrightarrow> \<not> P x \<Longrightarrow> v (f x) \<le> v (foldl F b xs)"
    and "foldl F b xs = b \<or> (\<exists>x \<in> set xs. \<not> P x \<and> foldl F b xs = f x)"
proof -
  have step: "v b \<le> v (F b x)" for b x by (simp add: F_def)
  have mono: "v b \<le> v (foldl F b ys)" for b ys
  proof (induction ys arbitrary: b)
    case Nil
    then show ?case by simp
  next
    case (Cons y ys)
    from order_trans [OF step Cons] show ?case by simp
  qed
  show "v b \<le> v (foldl F b xs)" by (rule mono)
  show "x \<in> set xs \<Longrightarrow> \<not> P x \<Longrightarrow> v (f x) \<le> v (foldl F b xs)"
  proof (induction xs arbitrary: b)
    case Nil
    then show ?case by simp
  next
    case (Cons y ys)
    show ?case
    proof (cases "x \<in> set ys")
      case True
      then show ?thesis using Cons by simp
    next
      case False
      then have "x = y" using Cons.prems by simp
      then have "v (f x) \<le> v (F b y)" using Cons.prems by (simp add: F_def)
      also have "\<dots> \<le> v (foldl F (F b y) ys)" by (rule mono)
      finally show ?thesis by simp
    qed
  qed
  show "foldl F b xs = b \<or> (\<exists>x \<in> set xs. \<not> P x \<and> foldl F b xs = f x)"
  proof (induction xs arbitrary: b)
    case Nil
    then show ?case by simp
  next
    case (Cons y ys)
    from Cons [of "F b y"] show ?case by (auto simp: F_def split: if_splits)
  qed
qed

definition service_candidate :: "history \<Rightarrow> int \<Rightarrow> int \<Rightarrow> service_bound" where
  "service_candidate h target source =
     (let after = history_advance h source;
          tail = (if source = target then service_zero else service after target)
      in \<lparr>sb_opportunities = source_cost source + sb_opportunities tail,
          sb_steps = \<lparr>ss_pending = push_bit (nat source) 1 OR push_bit (nat target) 1, ss_source = source,
                      ss_words = source_cost source, ss_after = after\<rparr> # sb_steps tail\<rparr>)"

definition service_pick :: "history \<Rightarrow> int \<Rightarrow> service_bound \<Rightarrow> int \<Rightarrow> service_bound" where
  "service_pick h target best source =
     (if rank_above (history_rank h source) (history_rank h target) then best
      else if sb_opportunities (service_candidate h target source) > sb_opportunities best
        then service_candidate h target source else best)"

lemma service_alt:
  "0 \<le> target \<Longrightarrow> target \<le> 10 \<Longrightarrow> service h target = foldl (service_pick h target) service_zero [0..10]"
  by (subst service.simps) (simp add: service_pick_def [abs_def] service_candidate_def Let_def cong: if_cong)

lemma service_ge:
  assumes "0 \<le> t" "t \<le> 10" "0 \<le> s" "s \<le> 10" "\<not> rank_above (history_rank h s) (history_rank h t)"
  shows "source_cost s + (if s = t then 0 else sb_opportunities (service (history_advance h s) t)) \<le>
           sb_opportunities (service h t)"
proof -
  have "sb_opportunities (service_candidate h t s) \<le> sb_opportunities (service h t)"
    unfolding service_alt [OF assms(1,2)] service_pick_def [abs_def]
    by (rule foldl_best(2)) (use assms in auto)
  then show ?thesis by (simp add: service_candidate_def Let_def service_zero_def split: if_splits)
qed

lemma service_attained:
  assumes "0 \<le> t" "t \<le> 10"
  obtains s where "0 \<le> s" "s \<le> 10" "\<not> rank_above (history_rank h s) (history_rank h t)"
    "service h t = service_candidate h t s"
proof -
  have "service h t \<noteq> service_zero"
  proof
    assume z: "service h t = service_zero"
    have "\<not> rank_above (history_rank h t) (history_rank h t)" by (simp add: rank_above_def)
    from service_ge [OF assms assms this] z show False by (simp add: service_zero_def source_cost_def split: if_splits)
  qed
  then show thesis
    using foldl_best(3) [of "\<lambda>s. rank_above (history_rank h s) (history_rank h t)" sb_opportunities
        "service_candidate h t" service_zero "[0..10]"] that
    unfolding service_alt [OF assms] service_pick_def [abs_def] by auto
qed

fun service_trace :: "history \<Rightarrow> int \<Rightarrow> service_step list \<Rightarrow> bool" where
  "service_trace h t [] \<longleftrightarrow> False"
| "service_trace h t (x # xs) \<longleftrightarrow> 0 \<le> ss_source x \<and> ss_source x \<le> 10 \<and>
     \<not> rank_above (history_rank h (ss_source x)) (history_rank h t) \<and>
     ss_words x = source_cost (ss_source x) \<and> ss_after x = history_advance h (ss_source x) \<and>
     (if ss_source x = t then xs = [] else service_trace (ss_after x) t xs)"

lemma service_trace_le:
  "0 \<le> t \<Longrightarrow> t \<le> 10 \<Longrightarrow> service_trace h t xs \<Longrightarrow> sum_list (map ss_words xs) \<le> sb_opportunities (service h t)"
proof (induction xs arbitrary: h)
  case Nil
  then show ?case by simp
next
  case (Cons x xs)
  from Cons.prems have x: "0 \<le> ss_source x" "ss_source x \<le> 10"
    "\<not> rank_above (history_rank h (ss_source x)) (history_rank h t)" "ss_words x = source_cost (ss_source x)"
    "ss_after x = history_advance h (ss_source x)" by auto
  note ge = service_ge [OF Cons.prems(1,2) x(1,2,3)]
  show ?case
  proof (cases "ss_source x = t")
    case True
    then show ?thesis using Cons.prems ge x by simp
  next
    case False
    then have "service_trace (ss_after x) t xs" using Cons.prems(3) False unfolding service_trace.simps
      by (elim conjE) (simp only: if_False)
    from Cons.IH [OF Cons.prems(1,2) this] show ?thesis using ge x False by simp
  qed
qed

lemma service_trace_attained:
  assumes "0 \<le> t" "t \<le> 10"
  shows "service_trace h t (sb_steps (service h t)) \<and>
    sum_list (map ss_words (sb_steps (service h t))) = sb_opportunities (service h t)"
proof (induction "rank_measure h t" arbitrary: h rule: less_induct)
  case less
  from service_attained [OF assms, of h] obtain s where s: "0 \<le> s" "s \<le> 10"
    "\<not> rank_above (history_rank h s) (history_rank h t)" "service h t = service_candidate h t s" .
  show ?case
  proof (cases "s = t")
    case True
    then show ?thesis using s by (simp add: service_candidate_def Let_def service_zero_def)
  next
    case False
    from less [OF rank_measure_decreases [OF s(1,2) assms False s(3)]] show ?thesis
      using s False by (simp add: service_candidate_def Let_def)
  qed
qed

subsection \<open>The arbiter meets the bound\<close>

definition slot_index :: "nat \<Rightarrow> nat \<Rightarrow> int" where
  "slot_index gi li = (if gi = 0 then 0 else if gi = 1 then 5 else 7) + int li"

definition dl_source :: "int \<Rightarrow> source" where
  "dl_source t = (let (g, l) = location t in group_source (nat g) (nat l))"

text \<open>The cursors of the arbiter are the successors of the last-completed indices.\<close>

definition history_of :: "arbiter \<Rightarrow> history \<Rightarrow> bool" where
  "history_of s h \<longleftrightarrow> int (ar_group_next s) = (hist_group h + 1) mod 3 \<and>
     (\<forall>gi < 3. int (ar_local_next s ! gi) = (hist_local h (int gi) + 1) mod group_size (int gi))"

lemma arb_sizes [simp]: "length arb_groups = 3"
  by (simp add: arb_groups_def)

lemma group_size_kinds: "gi < 3 \<Longrightarrow> int (length (snd (arb_groups ! gi))) = group_size (int gi)"
  by (auto simp: arb_groups_def group_size_def less_Suc_eq numeral_eq_Suc)

lemma slot_location: "valid_slot gi li \<Longrightarrow> location (slot_index gi li) = (int gi, int li)"
  by (auto simp: valid_slot_def slot_index_def location_def arb_groups_def less_Suc_eq numeral_eq_Suc)

lemma slot_index_range: "valid_slot gi li \<Longrightarrow> 0 \<le> slot_index gi li \<and> slot_index gi li \<le> 10"
  by (auto simp: valid_slot_def slot_index_def arb_groups_def less_Suc_eq numeral_eq_Suc)

lemma dl_source_slot: "valid_slot gi li \<Longrightarrow> dl_source (slot_index gi li) = group_source gi li"
  by (simp add: dl_source_def slot_location)

lemma target_slot:
  assumes "0 \<le> t" "t \<le> 10"
  obtains gi li where "valid_slot gi li" "slot_index gi li = t" "dl_source t = group_source gi li"
proof -
  obtain g l where gl: "location t = (g, l)" by force
  have r: "0 \<le> g" "g < 3" "0 \<le> l" "l < group_size g" using location_range [OF assms] by (simp_all add: gl)
  have v: "valid_slot (nat g) (nat l)"
    using r group_size_kinds [of "nat g"] by (simp add: valid_slot_def) linarith
  have i: "slot_index (nat g) (nat l) = t"
    using gl assms by (auto simp: slot_index_def location_def split: if_splits)
  show thesis by (rule that [OF v i]) (simp add: dl_source_def gl)
qed

lemma circular_int:
  assumes "start < n" and "int start = (h + 1) mod int n"
  shows "int (circular start n i) = (int i - h - 1) mod int n"
proof -
  have "int (circular start n i) = (int i + int n - int start) mod int n"
    using assms(1) by (simp add: circular_def zmod_int of_nat_diff)
  also have "\<dots> = (int i - int start + int n) mod int n" by (simp add: algebra_simps)
  also have "\<dots> = (int i - (h + 1) mod int n) mod int n" by (simp add: assms(2))
  also have "\<dots> = (int i - (h + 1)) mod int n" by (rule mod_diff_right_eq)
  finally show ?thesis by (simp add: algebra_simps)
qed

lemma rank_link:
  assumes "cursors_ok s" and "history_of s h" and "valid_slot gi li"
  shows "history_rank h (slot_index gi li) = (int (fst (slot_rank s gi li)), int (snd (slot_rank s gi li)))"
proof -
  have gi: "gi < 3" using assms(3) by (simp add: valid_slot_def)
  have a: "int (circular (ar_group_next s) 3 gi) = (int gi - hist_group h - 1) mod int 3"
    by (rule circular_int) (use assms(1,2) in \<open>auto simp: cursors_ok_def history_of_def\<close>)
  have b: "int (circular (ar_local_next s ! gi) (length (snd (arb_groups ! gi))) li) =
      (int li - hist_local h (int gi) - 1) mod int (length (snd (arb_groups ! gi)))"
    by (rule circular_int) (use assms(1,2) gi group_size_kinds [OF gi] in \<open>auto simp: cursors_ok_def history_of_def\<close>)
  show ?thesis
    using a b by (simp add: history_rank_def slot_location [OF assms(3)] slot_rank_def group_size_kinds [OF gi])
qed

lemma history_of_init: "arb_init d = Inr s \<Longrightarrow> history_of s reset_history"
  by (auto simp: arb_init_def history_of_def reset_history_def hist_group_def hist_local_def group_size_def
      less_Suc_eq numeral_eq_Suc split: if_splits)

lemma history_of_advance:
  assumes "history_of s h" and "cursors_ok s" and "valid_slot gi li"
    and "ar_local_next s' = (ar_local_next s)[gi := (li + 1) mod length (snd (arb_groups ! gi))]"
    and "ar_group_next s' = (gi + 1) mod length arb_groups"
  shows "history_of s' (history_advance h (slot_index gi li))"
proof -
  have gi: "gi < 3" using assms(3) by (simp add: valid_slot_def)
  have len: "length (ar_local_next s) = 3" using assms(2) by (simp add: cursors_ok_def)
  show ?thesis
    unfolding history_of_def history_advance_def slot_location [OF assms(3)]
    using assms(1,4,5) gi len group_size_kinds [OF gi]
    by (auto simp: history_of_def nth_list_update zmod_int add.commute)
qed

text \<open>Opportunities left before the target completes.\<close>

definition words_left :: "arbiter \<Rightarrow> nat \<times> nat \<Rightarrow> history \<Rightarrow> int \<Rightarrow> int" where
  "words_left s act h t =
     (let (gi, li) = act; q = slot_index gi li in
      int (length (ms_words (hd (ar_queues s (group_source gi li))))) - int (ar_word_index s) +
      (if q = t then 0 else sb_opportunities (service (history_advance h q) t)))"

definition opportunities_left :: "arbiter \<Rightarrow> history \<Rightarrow> int \<Rightarrow> int" where
  "opportunities_left s h t =
     (case ar_active s of None \<Rightarrow> sb_opportunities (service h t) | Some act \<Rightarrow> words_left s act h t)"

lemma service_pos: "0 \<le> t \<Longrightarrow> t \<le> 10 \<Longrightarrow> 1 \<le> sb_opportunities (service h t)"
  using service_ge [of t t h] by (simp add: rank_above_def source_cost_def split: if_splits)

lemma message_cost:
  assumes "valid_slot gi li" "message_ok m" "ms_source m = group_source gi li"
  shows "int (length (ms_words m)) \<le> source_cost (slot_index gi li)"
proof -
  have "group_source gi li = (1, 0) \<longleftrightarrow> slot_index gi li = 7"
    using assms(1)
    by (auto simp: valid_slot_def slot_index_def group_source_def arb_groups_def less_Suc_eq numeral_eq_Suc)
  then show ?thesis using assms(2,3) by (auto simp: message_ok_def source_cost_def)
qed

lemma words_left_le:
  assumes "arb_ok s" "history_of s h" "0 \<le> t" "t \<le> 10" "ar_queues s (dl_source t) \<noteq> []"
    and "arb_current s = Some (gi, li)"
  shows "words_left s (gi, li) h t \<le> opportunities_left s h t"
proof (cases "ar_active s")
  case (Some x)
  then show ?thesis using assms(6) by (simp add: arb_current_def opportunities_left_def)
next
  case None
  then have sel: "arb_select s = Some (gi, li)" using assms(6) by (simp add: arb_current_def)
  have c: "cursors_ok s" by (rule arb_okD(2) [OF assms(1)])
  note pick = arb_select_Some [OF c sel]
  from target_slot [OF assms(3,4)] obtain gj lj where tj: "valid_slot gj lj" "slot_index gj lj = t"
    "dl_source t = group_source gj lj" .
  have "rank_le (slot_rank s gi li) (slot_rank s gj lj)"
    by (rule pick(3) [OF tj(1)]) (use assms(5) tj(3) in simp)
  then have "\<not> rank_above (history_rank h (slot_index gi li)) (history_rank h t)"
    using rank_link [OF c assms(2) pick(1)] rank_link [OF c assms(2) tj(1)] tj(2)
    by (auto simp: rank_above_def rank_le_def)
  from service_ge [OF assms(3,4) _ _ this] slot_index_range [OF pick(1)]
  have ge: "source_cost (slot_index gi li) +
      (if slot_index gi li = t then 0 else sb_opportunities (service (history_advance h (slot_index gi li)) t)) \<le>
      sb_opportunities (service h t)" by blast
  have "hd (ar_queues s (group_source gi li)) \<in> set (ar_queues s (group_source gi li))"
    using pick(2) by simp
  from arb_okD(4) [OF assms(1) this] message_cost [OF pick(1)]
  have "int (length (ms_words (hd (ar_queues s (group_source gi li))))) \<le> source_cost (slot_index gi li)"
    by blast
  then have "words_left s (gi, li) h t \<le> sb_opportunities (service h t)"
    unfolding words_left_def Let_def case_prod_conv using ge arb_okD(5) [OF assms(1) None] by linarith
  then show ?thesis by (simp add: opportunities_left_def None)
qed

definition waiting :: "arbiter \<Rightarrow> int \<Rightarrow> message \<Rightarrow> bool" where
  "waiting s t m \<longleftrightarrow> ar_queues s (dl_source t) \<noteq> [] \<and> hd (ar_queues s (dl_source t)) = m"

definition completes :: "int \<Rightarrow> message \<Rightarrow> arb_out \<Rightarrow> bool" where
  "completes t m out \<longleftrightarrow> (case out of
     Served (Some b) \<Rightarrow> mb_source b = dl_source t \<and> mb_last b \<and> mb_tag b = ms_tag m
   | _ \<Rightarrow> False)"

text \<open>A word served either completes the waiting message or brings it strictly closer.\<close>

lemma arb_serve_progress:
  assumes "arb_ok s" "history_of s h" "0 \<le> t" "t \<le> 10" "waiting s t m"
    and "arb_current s = Some (gi, li)" and "arb_serve s (gi, li) = Inr (s', b)"
  shows "completes t m (Served (Some b)) \<or>
    (\<exists>h'. history_of s' h' \<and> waiting s' t m \<and> opportunities_left s' h' t \<le> opportunities_left s h t - 1)"
proof -
  from arb_serve_ok [OF assms(1,6)] obtain s2 b2 m2 rest where r: "arb_serve s (gi, li) = Inr (s2, b2)"
    and q: "ar_queues s (group_source gi li) = m2 # rest" and b2: "mb_source b2 = group_source gi li"
    "mb_last b2 \<longleftrightarrow> ar_word_index s + 1 = length (ms_words m2)" "mb_tag b2 = ms_tag m2"
    and s2: "s2 = (if mb_last b2 then
             s\<lparr>ar_queues := (ar_queues s)(group_source gi li := rest),
               ar_local_next := (ar_local_next s)[gi := (li + 1) mod length (snd (arb_groups ! gi))],
               ar_group_next := (gi + 1) mod length arb_groups, ar_active := None, ar_word_index := 0\<rparr>
           else s\<lparr>ar_word_index := ar_word_index s + 1, ar_active := Some (gi, li)\<rparr>)" .
  have eq: "s2 = s'" "b2 = b" using r assms(7) by simp_all
  note b = b2 [unfolded eq] and s' = s2 [unfolded eq]
  note cur = arb_current_ok [OF assms(1,6)]
  have c: "cursors_ok s" by (rule arb_okD(2) [OF assms(1)])
  have "words_left s (gi, li) h t \<le> opportunities_left s h t"
    using words_left_le [OF assms(1-4) _ assms(6)] assms(5) by (simp add: waiting_def)
  moreover have wl: "words_left s (gi, li) h t = int (length (ms_words m2)) - int (ar_word_index s) +
      (if slot_index gi li = t then 0 else sb_opportunities (service (history_advance h (slot_index gi li)) t))"
    by (simp add: words_left_def q Let_def)
  ultimately have left: "int (length (ms_words m2)) - int (ar_word_index s) +
      (if slot_index gi li = t then 0 else sb_opportunities (service (history_advance h (slot_index gi li)) t)) \<le>
      opportunities_left s h t" by simp
  have idx: "ar_word_index s < length (ms_words m2)" using cur(3) by (simp add: q)
  show ?thesis
  proof (cases "mb_last b")
    case False
    then have "opportunities_left s' h t = int (length (ms_words m2)) - int (ar_word_index s) - 1 +
        (if slot_index gi li = t then 0 else sb_opportunities (service (history_advance h (slot_index gi li)) t))"
      by (simp add: s' opportunities_left_def words_left_def q Let_def)
    with left have "opportunities_left s' h t \<le> opportunities_left s h t - 1" by linarith
    moreover have "history_of s' h" "waiting s' t m"
      using assms(2,5) False by (simp_all add: s' history_of_def waiting_def)
    ultimately show ?thesis by blast
  next
    case True
    show ?thesis
    proof (cases "slot_index gi li = t")
      case tt: True
      then have "dl_source t = group_source gi li" using dl_source_slot [OF cur(1)] by simp
      then have "completes t m (Served (Some b))"
        using assms(5) True b q by (simp add: completes_def waiting_def)
      then show ?thesis ..
    next
      case ne: False
      have src: "group_source gi li \<noteq> dl_source t"
      proof
        assume e: "group_source gi li = dl_source t"
        from target_slot [OF assms(3,4)] obtain gj lj where "valid_slot gj lj" "slot_index gj lj = t"
          "dl_source t = group_source gj lj" .
        with group_source_inj [OF cur(1)] e ne show False by fastforce
      qed
      have h': "history_of s' (history_advance h (slot_index gi li))"
        by (rule history_of_advance [OF assms(2) c cur(1)]) (simp_all add: s' True)
      have "opportunities_left s' (history_advance h (slot_index gi li)) t =
          sb_opportunities (service (history_advance h (slot_index gi li)) t)"
        by (simp add: s' True opportunities_left_def)
      with left ne b(2) True have "opportunities_left s' (history_advance h (slot_index gi li)) t \<le>
          opportunities_left s h t - 1" by simp
      moreover have "waiting s' t m" using assms(5) src by (simp add: s' True waiting_def)
      ultimately show ?thesis using h' by blast
    qed
  qed
qed

fun opportunity :: "arb_op \<Rightarrow> bool" where
  "opportunity (Tick seg) \<longleftrightarrow> seg"
| "opportunity (Offer q ws tag) \<longleftrightarrow> False"

fun legal_op :: "arb_op \<Rightarrow> bool" where
  "legal_op (Tick seg) \<longleftrightarrow> True"
| "legal_op (Offer q ws tag) \<longleftrightarrow> \<not> isl (message_new q ws tag)"

lemma arb_step_total: "arb_ok s \<Longrightarrow> legal_op i \<Longrightarrow> \<exists>s' out. arb_step s i = Inr (s', out)"
proof (cases i)
  case (Tick seg)
  assume "arb_ok s"
  from arb_tick_total [OF this] show ?thesis by (fastforce simp: Tick)
next
  case (Offer q ws tag)
  assume "legal_op i"
  then obtain m where "message_new q ws tag = Inr m" using Offer by (cases "message_new q ws tag") auto
  then show ?thesis by (simp add: Offer split: prod.splits)
qed

interpretation dl_arbiter_total: total_machine arb_step arb_ok "\<lambda>s. legal_op"
  by unfold_locales (rule arb_step_ok(1) arb_step_total, assumption+)+

text \<open>Every event keeps the waiting message waiting, closer by one opportunity, or completes it.\<close>

lemma arb_current_waiting:
  assumes "arb_ok s" "0 \<le> t" "t \<le> 10" "waiting s t m"
  obtains gi li where "arb_current s = Some (gi, li)"
proof (cases "arb_current s")
  case None
  then have n: "arb_select s = None" by (auto simp: arb_current_def split: option.splits)
  from target_slot [OF assms(2,3)] obtain gj lj where "valid_slot gj lj" "dl_source t = group_source gj lj" by metis
  with arb_select_None [OF arb_okD(2) [OF assms(1)] n] assms(4) show ?thesis by (simp add: waiting_def)
next
  case (Some x)
  then show ?thesis using that by (cases x) auto
qed

lemma arb_step_progress:
  assumes "arb_ok s" "history_of s h" "0 \<le> t" "t \<le> 10" "waiting s t m" and "arb_step s i = Inr (s', out)"
  shows "completes t m out \<or>
    (\<exists>h'. history_of s' h' \<and> waiting s' t m \<and>
       opportunities_left s' h' t \<le> opportunities_left s h t - of_bool (opportunity i))"
proof (cases i)
  case (Tick seg)
  then obtain ob where tk: "arb_tick s seg False = Inr (s', ob)" and out: "out = Served ob"
    using assms(6) by auto
  from arb_current_waiting [OF assms(1,3,4,5)] obtain gi li where cur: "arb_current s = Some (gi, li)" .
  show ?thesis
  proof (cases seg)
    case False
    then have "s' = s" using tk by (simp add: arb_tick_def)
    then show ?thesis using assms(2,5) Tick False by (intro disjI2 exI [of _ h]) simp
  next
    case True
    then obtain b where "arb_serve s (gi, li) = Inr (s', b)" "ob = Some b"
      using tk cur by (auto simp: arb_tick_alt)
    from arb_serve_progress [OF assms(1-5) cur this(1)] this(2) show ?thesis by (simp add: Tick True out)
  qed
next
  case (Offer src ws tag)
  then obtain m' where m': "message_new src ws tag = Inr m'" using assms(6) by auto
  obtain s2 ok where off: "arb_offer s m' = (s2, ok)" by force
  have eq: "s2 = s'" using assms(6) Offer m' off by simp
  note s2 = arb_offer_ok(2) [OF assms(1) message_new_ok [OF m', THEN conjunct1] off, unfolded eq]
  have "waiting s' t m" using assms(5) by (auto simp: s2 waiting_def)
  moreover have "history_of s' h" using assms(2) by (simp add: s2 history_of_def)
  moreover have "opportunities_left s' h t = opportunities_left s h t"
  proof (cases "ar_active s")
    case None
    then show ?thesis by (simp add: s2 opportunities_left_def)
  next
    case (Some act)
    obtain gi li where a: "act = (gi, li)" by force
    have "ar_queues s (group_source gi li) \<noteq> []"
      using arb_okD(6) [OF assms(1), of gi li] Some a by simp
    then have "hd (ar_queues s' (group_source gi li)) = hd (ar_queues s (group_source gi li))" by (auto simp: s2)
    moreover have "ar_word_index s' = ar_word_index s" "ar_active s' = ar_active s" by (simp_all add: s2)
    ultimately show ?thesis using Some by (simp add: opportunities_left_def words_left_def a)
  qed
  ultimately show ?thesis by (intro disjI2 exI [of _ h]) (simp add: Offer)
qed

lemma opportunities_left_pos:
  "arb_ok s \<Longrightarrow> 0 \<le> t \<Longrightarrow> t \<le> 10 \<Longrightarrow> 1 \<le> opportunities_left s h t"
proof (cases "ar_active s")
  case None
  then show "0 \<le> t \<Longrightarrow> t \<le> 10 \<Longrightarrow> 1 \<le> opportunities_left s h t" by (simp add: opportunities_left_def service_pos)
next
  case (Some act)
  assume ok: "arb_ok s" and t: "0 \<le> t" "t \<le> 10"
  obtain gi li where a: "act = (gi, li)" by force
  have "ar_word_index s < length (ms_words (hd (ar_queues s (group_source gi li))))"
    using arb_okD(6) [OF ok, of gi li] Some a by simp
  then show ?thesis
    using service_pos [OF t, of "history_advance h (slot_index gi li)"]
    by (simp add: opportunities_left_def words_left_def Some a Let_def)
qed

lemma arb_run_completes:
  "arb_ok s \<Longrightarrow> history_of s h \<Longrightarrow> 0 \<le> t \<Longrightarrow> t \<le> 10 \<Longrightarrow> waiting s t m \<Longrightarrow> list_all legal_op ops \<Longrightarrow>
   opportunities_left s h t \<le> int (length (filter opportunity ops)) \<Longrightarrow>
   \<exists>s' outs. run arb_step s ops = Inr (s', outs) \<and> list_ex (completes t m) outs"
proof (induction ops arbitrary: s h)
  case Nil
  then show ?case using opportunities_left_pos [of s t h] by simp
next
  case (Cons i ops)
  from arb_step_total [OF Cons.prems(1), of i] Cons.prems(6) obtain s1 out
    where st: "arb_step s i = Inr (s1, out)" by auto
  have ok1: "arb_ok s1" by (rule arb_step_ok(1) [OF Cons.prems(1) st])
  show ?case
  proof (cases "completes t m out")
    case True
    have "\<exists>s' outs. run arb_step s1 ops = Inr (s', outs) \<and> arb_ok s'"
      using dl_arbiter_total.run_total [OF ok1, of ops] Cons.prems(6) by (auto simp: list_all_iff)
    then show ?thesis using st True by auto
  next
    case False
    with arb_step_progress [OF Cons.prems(1-5) st] obtain h' where h': "history_of s1 h'" "waiting s1 t m"
      "opportunities_left s1 h' t \<le> opportunities_left s h t - of_bool (opportunity i)" by blast
    have "opportunities_left s1 h' t \<le> int (length (filter opportunity ops))"
      using h'(3) Cons.prems(7) by (cases "opportunity i") auto
    from Cons.IH [OF ok1 h'(1) Cons.prems(3,4) h'(2) _ this] Cons.prems(6) st show ?thesis by auto
  qed
qed

subsection \<open>Prefixes that reach a history\<close>

definition prefix_expand ::
  "history \<Rightarrow> (history \<times> int list) list \<times> history list \<Rightarrow> int \<Rightarrow> (history \<times> int list) list \<times> history list" where
  "prefix_expand h pq source =
     (let (prefixes, queue) = pq; after = history_advance h source in
      if map_of prefixes after \<noteq> None then (prefixes, queue)
      else (AList.update after (dget prefixes h [] @ [source]) prefixes, queue @ [after]))"

partial_function (option) prefix_search ::
  "(history \<times> int list) list \<Rightarrow> history list \<Rightarrow> (history \<times> int list) list option" where
  "prefix_search prefixes queue =
     (case queue of
        [] \<Rightarrow> Some prefixes
      | h # rest \<Rightarrow>
          (let (prefixes', queue') = foldl (prefix_expand h) (prefixes, rest) [0..10]
           in prefix_search prefixes' queue'))"

definition reset_prefix :: "history \<Rightarrow> (py_error + int list) option" where
  "reset_prefix h =
     (case check_history h of
        Inl e \<Rightarrow> Some (Inl e)
      | Inr _ \<Rightarrow>
          map_option (\<lambda>prefixes. case map_of prefixes h of None \<Rightarrow> Inl KeyError | Some p \<Rightarrow> Inr p)
            (prefix_search [(reset_history, [])] [reset_history]))"

definition legal_histories :: "history set" where
  "legal_histories = {0..2} \<times> {0..4} \<times> {0..1} \<times> {0..3}"

lemma check_history_legal: "check_history h = Inr u \<longleftrightarrow> h \<in> legal_histories"
  by (cases h) (auto simp: check_history_def legal_histories_def)

lemma legal_finite: "finite legal_histories" "reset_history \<in> legal_histories"
  by (auto simp: legal_histories_def reset_history_def)

lemma legal_advance: "h \<in> legal_histories \<Longrightarrow> 0 \<le> s \<Longrightarrow> s \<le> 10 \<Longrightarrow> history_advance h s \<in> legal_histories"
  by (cases h) (auto simp: legal_histories_def history_advance_def location_def hist_set_def)

text \<open>The sources that produce any legal history: one per group, the last group last.\<close>

lemma legal_reached:
  assumes "h \<in> legal_histories"
  obtains a b c where "0 \<le> a" "a \<le> 10" "0 \<le> b" "b \<le> 10" "0 \<le> c" "c \<le> 10"
    "h = history_advance (history_advance (history_advance reset_history a) b) c"
proof -
  obtain g x y z where h: "h = (g, x, y, z)" by (cases h)
  have r: "0 \<le> g" "g \<le> 2" "0 \<le> x" "x \<le> 4" "0 \<le> y" "y \<le> 1" "0 \<le> z" "z \<le> 3"
    using assms by (auto simp: h legal_histories_def)
  note defs = history_advance_def location_def hist_set_def reset_history_def h
  consider "g = 0" | "g = 1" | "g = 2" using r by linarith
  then show thesis
  proof cases
    case 1
    show thesis by (rule that [of "y + 5" "z + 7" x]) (use r 1 in \<open>auto simp: defs\<close>)
  next
    case 2
    show thesis by (rule that [of x "z + 7" "y + 5"]) (use r 2 in \<open>auto simp: defs\<close>)
  next
    case 3
    show thesis by (rule that [of x "y + 5" "z + 7"]) (use r 3 in \<open>auto simp: defs\<close>)
  qed
qed

definition search_ok :: "(history \<times> int list) list \<Rightarrow> history list \<Rightarrow> bool" where
  "search_ok P q \<longleftrightarrow> distinct (map fst P) \<and> reset_history \<in> fst ` set P \<and>
     (\<forall>(h, p) \<in> set P. h \<in> legal_histories \<and> foldl history_advance reset_history p = h) \<and> set q \<subseteq> fst ` set P"

definition expanded :: "(history \<times> int list) list \<Rightarrow> history \<Rightarrow> bool" where
  "expanded P h \<longleftrightarrow> (\<forall>s \<in> {0..10}. history_advance h s \<in> fst ` set P)"

definition search_measure :: "(history \<times> int list) list \<Rightarrow> history list \<Rightarrow> nat" where
  "search_measure P q = 2 * (card legal_histories - length P) + length q"

lemma search_ok_length: "search_ok P q \<Longrightarrow> length P \<le> card legal_histories"
proof -
  assume ok: "search_ok P q"
  have "length P = card (fst ` set P)" using ok by (metis search_ok_def distinct_card length_map list.set_map)
  also have "\<dots> \<le> card legal_histories"
    by (rule card_mono [OF legal_finite(1)]) (use ok in \<open>auto simp: search_ok_def\<close>)
  finally show ?thesis .
qed

lemma update_new_append: "k \<notin> fst ` set al \<Longrightarrow> AList.update k v al = al @ [(k, v)]"
  by (induction al) auto

lemma prefix_expand_step:
  assumes "search_ok P q" "h \<in> fst ` set P" "0 \<le> s" "s \<le> 10" and "prefix_expand h (P, q) s = (P', q')"
  shows "search_ok P' q'" and "search_measure P' q' \<le> search_measure P q"
    and "fst ` set P' = insert (history_advance h s) (fst ` set P)"
    and "set q' = set q \<union> (fst ` set P' - fst ` set P)"
proof -
  let ?a = "history_advance h s"
  have "search_ok P' q' \<and> search_measure P' q' \<le> search_measure P q \<and>
    fst ` set P' = insert ?a (fst ` set P) \<and> set q' = set q \<union> (fst ` set P' - fst ` set P)"
  proof (cases "map_of P ?a = None")
    case False
    then have "P' = P" "q' = q" using assms(5) by (simp_all add: prefix_expand_def Let_def)
    moreover have "?a \<in> fst ` set P" using False by (simp only: map_of_eq_None_iff not_not)
    ultimately show ?thesis using assms(1) by (simp add: insert_absorb)
  next
    case True
    then have new: "?a \<notin> fst ` set P" by (simp add: map_of_eq_None_iff)
    from assms(2) obtain p where p: "map_of P h = Some p" by (metis map_of_eq_None_iff option.exhaust)
    have P': "P' = P @ [(?a, p @ [s])]" and q': "q' = q @ [?a]"
      using assms(5) True new map_of_dget [OF p, of "[]"]
      by (auto simp: prefix_expand_def Let_def update_new_append)
    have hp: "h \<in> legal_histories" "foldl history_advance reset_history p = h"
      using assms(1) map_of_SomeD [OF p] by (auto simp: search_ok_def)
    have ok: "search_ok P' q'"
      using assms(1) new hp legal_advance [OF hp(1) assms(3,4)] by (auto simp: search_ok_def P' q')
    have "search_measure P' q' \<le> search_measure P q"
      using search_ok_length [OF ok] by (simp add: search_measure_def P' q')
    moreover have keys: "fst ` set P' = insert ?a (fst ` set P)" by (simp add: P')
    moreover have "insert ?a (fst ` set P) - fst ` set P = {?a}" using new by (simp add: insert_Diff_if)
    ultimately show ?thesis using ok by (simp only: keys) (simp add: q' insert_commute)
  qed
  then show "search_ok P' q'" and "search_measure P' q' \<le> search_measure P q"
    and "fst ` set P' = insert (history_advance h s) (fst ` set P)"
    and "set q' = set q \<union> (fst ` set P' - fst ` set P)" by blast+
qed

lemma prefix_expand_all:
  "search_ok P q \<Longrightarrow> h \<in> fst ` set P \<Longrightarrow> (\<And>s. s \<in> set ss \<Longrightarrow> 0 \<le> s \<and> s \<le> 10) \<Longrightarrow>
   foldl (prefix_expand h) (P, q) ss = (P', q') \<Longrightarrow>
   search_ok P' q' \<and> search_measure P' q' \<le> search_measure P q \<and>
     fst ` set P' = fst ` set P \<union> history_advance h ` set ss \<and> set q' = set q \<union> (fst ` set P' - fst ` set P)"
proof (induction ss arbitrary: P q)
  case Nil
  then show ?case by simp
next
  case (Cons s ss)
  obtain P1 q1 where e: "prefix_expand h (P, q) s = (P1, q1)" by force
  note st = prefix_expand_step [OF Cons.prems(1,2) _ _ e]
  have s: "0 \<le> s" "s \<le> 10" using Cons.prems(3) [of s] by auto
  from Cons.IH [OF st(1) [OF s]] st(2-4) [OF s] Cons.prems(2-4) e show ?case by auto
qed

text \<open>The search ends, and then every key it holds is expanded.\<close>

lemma prefix_search_ends:
  "search_ok P q \<Longrightarrow> (\<forall>h \<in> fst ` set P - set q. expanded P h) \<Longrightarrow>
   \<exists>P'. prefix_search P q = Some P' \<and> search_ok P' [] \<and> (\<forall>h \<in> fst ` set P'. expanded P' h)"
proof (induction "search_measure P q" arbitrary: P q rule: less_induct)
  case less
  show ?case
  proof (cases q)
    case Nil
    with less.prems show ?thesis by (subst prefix_search.simps) simp
  next
    case (Cons h rest)
    have h: "h \<in> fst ` set P" using less.prems(1) by (auto simp: search_ok_def Cons)
    have rest: "search_ok P rest" using less.prems(1) by (auto simp: search_ok_def Cons)
    obtain P1 q1 where f: "foldl (prefix_expand h) (P, rest) [0..10] = (P1, q1)" by force
    have src: "s \<in> set [0..10] \<Longrightarrow> 0 \<le> s \<and> s \<le> (10::int)" for s by simp
    from prefix_expand_all [OF rest h src f]
    have all: "search_ok P1 q1" "search_measure P1 q1 \<le> search_measure P rest"
      and keys: "fst ` set P1 = fst ` set P \<union> history_advance h ` {0..10}"
      and q1: "set q1 = set rest \<union> (fst ` set P1 - fst ` set P)" by auto
    have less_m: "search_measure P1 q1 < search_measure P q"
      using all(2) by (simp add: search_measure_def Cons)
    have ex: "\<forall>g \<in> fst ` set P1 - set q1. expanded P1 g"
    proof
      fix g assume g: "g \<in> fst ` set P1 - set q1"
      then have gP: "g \<in> fst ` set P" "g \<notin> set rest" using q1 by blast+
      show "expanded P1 g"
      proof (cases "g = h")
        case True
        then show ?thesis unfolding expanded_def keys by blast
      next
        case False
        then have "expanded P g" using less.prems(2) gP by (simp add: Cons)
        then show ?thesis unfolding expanded_def keys by blast
      qed
    qed
    from less.hyps [OF less_m all(1) ex] show ?thesis
      by (subst prefix_search.simps) (simp add: Cons f)
  qed
qed

lemma reset_prefix_correct:
  assumes "h \<in> legal_histories"
  shows "\<exists>p. reset_prefix h = Some (Inr p) \<and> foldl history_advance reset_history p = h"
proof -
  have ok: "search_ok [(reset_history, [])] [reset_history]" using legal_finite(2) by (simp add: search_ok_def)
  from prefix_search_ends [OF ok] obtain P where P: "prefix_search [(reset_history, [])] [reset_history] = Some P"
    "search_ok P []" "\<forall>h \<in> fst ` set P. expanded P h" by auto
  have closed: "history_advance g s \<in> fst ` set P" if "g \<in> fst ` set P" "0 \<le> s" "s \<le> 10" for g s
    using P(3) that unfolding expanded_def by (metis atLeastAtMost_iff)
  have start: "reset_history \<in> fst ` set P" using P(2) by (simp add: search_ok_def)
  from legal_reached [OF assms] obtain a b c where
    "0 \<le> a" "a \<le> 10" "0 \<le> b" "b \<le> 10" "0 \<le> c" "c \<le> 10"
    "h = history_advance (history_advance (history_advance reset_history a) b) c" .
  then have "h \<in> fst ` set P" using closed [OF closed [OF closed [OF start]]] by simp
  then obtain p where p: "map_of P h = Some p" by (metis map_of_eq_None_iff option.exhaust)
  moreover have "foldl history_advance reset_history p = h"
    using P(2) map_of_SomeD [OF p] by (auto simp: search_ok_def)
  moreover from assms obtain u where "check_history h = Inr u" by (metis check_history_legal)
  ultimately show ?thesis by (simp add: reset_prefix_def P(1))
qed

end
