(* ===== verification/Dl_Basic.thy ===== *)
theory Dl_Basic
  imports Prelude
begin

section \<open>Basic data-link requests and replies\<close>

text \<open>
  Models \<open>simulator/UAlink2.0/model/ualink/dl_basic_message.py\<close>. The frames are mutable objects shared
  between the ownership slots and the queues, so the record \<open>basic\<close> holds an explicit store: the list
  \<open>bc_frames\<close>, whose positions are the object identities; the slots and the queues hold positions.
  Times are integers in picoseconds. The invariant says which frames can be reached from where: a
  queued request is the unsent local one, a queued reply is the pending remote one, so each queue has
  at most two entries.
\<close>

record frame_record =
  fr_kind :: int
  fr_word :: int
  fr_reply :: bool
  fr_received :: "int option"
  fr_rate :: "int option"
  fr_sent :: bool
  fr_missed :: bool

record basic =
  bc_device_id :: "int option"
  bc_device_type :: int
  bc_port :: "int option"
  bc_folding :: bool
  bc_ready_advertised :: bool
  bc_now :: int
  bc_frames :: "frame_record list"
  bc_local :: "nat option"
  bc_remote :: "nat option"
  bc_queues :: "int \<Rightarrow> nat list"
  bc_tx_limit :: "int option"
  bc_peer_rate :: "int option"
  bc_peer_device :: "(int \<times> int) option"
  bc_peer_port :: "int option"
  bc_completed :: int
  bc_protocol_errors :: int
  bc_deadline_misses :: int
  bc_latencies :: "int list"

datatype basic_result =
  Unhandled | Noop | Unsupported | Unmatched_Ack | Ack_Result | Remote_Overlap | Request_Result

definition check_uint :: "int \<Rightarrow> nat \<Rightarrow> py_error + unit" where
  "check_uint value width = ensure (fits width value)"

definition basic_kinds :: "int list" where
  "basic_kinds = [1, 4, 5, 6]"

definition basic_reset :: "basic \<Rightarrow> basic" where
  "basic_reset r = r\<lparr>bc_local := None, bc_remote := None, bc_queues := (\<lambda>_. []), bc_tx_limit := None,
     bc_peer_rate := None, bc_peer_device := None, bc_peer_port := None, bc_completed := 0,
     bc_protocol_errors := 0, bc_deadline_misses := 0, bc_latencies := []\<rparr>"

definition basic_new :: "int option \<Rightarrow> int \<Rightarrow> int option \<Rightarrow> bool \<Rightarrow> bool \<Rightarrow> py_error + basic" where
  "basic_new device_id device_type port can_fold tx_ready_advertised =
     rbind (case device_id of None \<Rightarrow> Inr () | Some d \<Rightarrow> check_uint d 10) (\<lambda>_.
     rbind (case port of None \<Rightarrow> Inr () | Some p \<Rightarrow> check_uint p 12) (\<lambda>_.
     rbind (check_uint device_type 1) (\<lambda>_.
     rbind (ensure (\<not> (tx_ready_advertised \<and> \<not> can_fold))) (\<lambda>_.
       Inr (basic_reset \<lparr>bc_device_id = device_id, bc_device_type = device_type, bc_port = port,
         bc_folding = can_fold, bc_ready_advertised = tx_ready_advertised, bc_now = 0, bc_frames = [],
         bc_local = None, bc_remote = None, bc_queues = (\<lambda>_. []), bc_tx_limit = None,
         bc_peer_rate = None, bc_peer_device = None, bc_peer_port = None, bc_completed = 0,
         bc_protocol_errors = 0, bc_deadline_misses = 0, bc_latencies = []\<rparr>)))))"

definition basic_frame :: "basic \<Rightarrow> nat \<Rightarrow> frame_record" where
  "basic_frame r a = bc_frames r ! a"

definition advance_to :: "basic \<Rightarrow> int \<Rightarrow> py_error + basic" where
  "advance_to r now_ps =
     (if now_ps < bc_now r then Inl ValueError
      else
        let r = r\<lparr>bc_now := now_ps\<rparr> in
        (case bc_remote r of
           None \<Rightarrow> Inr r
         | Some a \<Rightarrow>
             let f = basic_frame r a in
             if \<not> fr_missed f \<and> now_ps - the (fr_received f) > 1000000 then
               Inr (r\<lparr>bc_frames := (bc_frames r)[a := f\<lparr>fr_missed := True\<rparr>],
                      bc_deadline_misses := bc_deadline_misses r + 1\<rparr>)
             else Inr r))"

definition set_tx_limit :: "basic \<Rightarrow> int \<Rightarrow> py_error + basic" where
  "set_tx_limit r rate = rbind (check_uint rate 16) (\<lambda>_. Inr (r\<lparr>bc_tx_limit := Some rate\<rparr>))"

definition local_request :: "basic \<Rightarrow> int \<Rightarrow> int \<Rightarrow> basic \<times> bool" where
  "local_request r kind word =
     (if bc_local r \<noteq> None then (r, False)
      else
        let a = length (bc_frames r);
            frame = \<lparr>fr_kind = kind, fr_word = word, fr_reply = False, fr_received = None, fr_rate = None,
                     fr_sent = False, fr_missed = False\<rparr>
        in (r\<lparr>bc_frames := bc_frames r @ [frame], bc_local := Some a,
              bc_queues := (bc_queues r)(kind := bc_queues r kind @ [a])\<rparr>, True))"

definition request_rate :: "basic \<Rightarrow> int \<Rightarrow> py_error + basic \<times> bool" where
  "request_rate r rate =
     rbind (check_uint rate 16) (\<lambda>_. Inr (local_request r 4 (push_bit 16 rate OR 0x100)))"

definition identity_word :: "basic \<Rightarrow> int \<Rightarrow> bool \<Rightarrow> int" where
  "identity_word r kind ack =
     (let header = push_bit 6 kind OR push_bit 12 (of_bool ack) in
      if kind = 5 then
        header OR push_bit 29 (bc_device_type r) OR
          (case bc_device_id r of None \<Rightarrow> 0 | Some d \<Rightarrow> push_bit 31 1 OR push_bit 16 d)
      else header OR (case bc_port r of None \<Rightarrow> 0 | Some p \<Rightarrow> push_bit 31 1 OR push_bit 16 p))"

definition request_device_id :: "basic \<Rightarrow> basic \<times> bool" where
  "request_device_id r = local_request r 5 (identity_word r 5 False)"

definition request_port :: "basic \<Rightarrow> basic \<times> bool" where
  "request_port r = local_request r 6 (identity_word r 6 False)"

definition request_tx_ready :: "basic \<Rightarrow> bool \<Rightarrow> basic \<times> bool" where
  "request_tx_ready r symbols_valid =
     (if \<not> bc_folding r \<or> \<not> bc_ready_advertised r \<or> \<not> symbols_valid then (r, False)
      else local_request r 1 0x40)"

definition learn_identity :: "basic \<Rightarrow> int \<Rightarrow> int \<Rightarrow> basic" where
  "learn_identity r kind word =
     (if kind = 5 then
        r\<lparr>bc_peer_device := (if fld word 31 1 \<noteq> 0 then Some (fld word 29 2, fld word 16 10) else None)\<rparr>
      else if kind = 6 then
        r\<lparr>bc_peer_port := (if fld word 31 1 \<noteq> 0 then Some (fld word 16 12) else None)\<rparr>
      else r)"

text \<open>The two arms of a received word: an acknowledgement, and a request that creates a reply.\<close>

definition receive_ack :: "basic \<Rightarrow> int \<Rightarrow> int \<Rightarrow> basic \<times> basic_result" where
  "receive_ack r kind word =
     (case bc_local r of
        None \<Rightarrow> (r\<lparr>bc_protocol_errors := bc_protocol_errors r + 1\<rparr>, Unmatched_Ack)
      | Some a \<Rightarrow>
          if \<not> fr_sent (basic_frame r a) \<or> fr_kind (basic_frame r a) \<noteq> kind then
            (r\<lparr>bc_protocol_errors := bc_protocol_errors r + 1\<rparr>, Unmatched_Ack)
          else
            let r = learn_identity r kind word in
            (r\<lparr>bc_local := None, bc_completed := bc_completed r + 1\<rparr>, Ack_Result))"

definition receive_request :: "basic \<Rightarrow> int \<Rightarrow> int \<Rightarrow> int \<Rightarrow> basic" where
  "receive_request r kind word now_ps =
     (let rate = (if kind = 4 then Some (fld word 16 16) else None);
          r = (if kind = 4 then r\<lparr>bc_peer_rate := rate\<rparr> else r);
          r = learn_identity r kind word;
          response = (if kind \<in> {5, 6} then identity_word r kind True else push_bit 6 kind OR 0x1000);
          a = length (bc_frames r)
      in r\<lparr>bc_frames := bc_frames r @ [\<lparr>fr_kind = kind, fr_word = response, fr_reply = True,
             fr_received = Some now_ps, fr_rate = rate, fr_sent = False, fr_missed = False\<rparr>],
           bc_remote := Some a, bc_queues := (bc_queues r)(kind := bc_queues r kind @ [a])\<rparr>)"

definition basic_receive :: "basic \<Rightarrow> int \<Rightarrow> int \<Rightarrow> py_error + basic \<times> basic_result" where
  "basic_receive r0 word now_ps =
     rbind (check_uint word 32) (\<lambda>_.
     rbind (advance_to r0 now_ps) (\<lambda>r.
       let kind = fld word 6 3 in
       if fld word 2 4 \<noteq> 0 \<or> kind \<notin> {0, 1, 4, 5, 6} then Inr (r, Unhandled)
       else if kind = 0 then Inr (r, Noop)
       else if kind = 1 \<and> \<not> bc_folding r then Inr (r, Unsupported)
       else if fld word 12 1 \<noteq> 0 then Inr (receive_ack r kind word)
       else if bc_remote r \<noteq> None then
         Inr (r\<lparr>bc_protocol_errors := bc_protocol_errors r + 1\<rparr>, Remote_Overlap)
       else Inr (receive_request r kind word now_ps, Request_Result)))"

definition basic_eligible :: "basic \<Rightarrow> nat \<Rightarrow> bool" where
  "basic_eligible r a =
     (let f = basic_frame r a in
      \<not> (fr_reply f \<and> fr_kind f = 4 \<and>
         (case bc_tx_limit r of None \<Rightarrow> True | Some l \<Rightarrow> l > the (fr_rate f))))"

definition basic_offers :: "basic \<Rightarrow> (int \<times> int) list" where
  "basic_offers r =
     map (\<lambda>kind. (kind, fr_word (basic_frame r (hd (bc_queues r kind)))))
       (filter (\<lambda>kind. bc_queues r kind \<noteq> [] \<and> basic_eligible r (hd (bc_queues r kind))) basic_kinds)"

definition basic_commit :: "basic \<Rightarrow> int \<Rightarrow> int \<Rightarrow> py_error + basic \<times> int option" where
  "basic_commit r0 kind now_ps =
     rbind (ensure (kind \<in> set basic_kinds)) (\<lambda>_.
     rbind (advance_to r0 now_ps) (\<lambda>r.
       (case bc_queues r kind of
          [] \<Rightarrow> Inr (r, None)
        | a # rest \<Rightarrow>
            if \<not> basic_eligible r a then Inr (r, None)
            else
              let r = r\<lparr>bc_queues := (bc_queues r)(kind := rest)\<rparr>;
                  f = basic_frame r a
              in Inr ((if fr_reply f then
                         r\<lparr>bc_latencies := bc_latencies r @ [now_ps - the (fr_received f)], bc_remote := None\<rparr>
                       else r\<lparr>bc_frames := (bc_frames r)[a := f\<lparr>fr_sent := True\<rparr>]\<rparr>),
                      Some (fr_word f)))))"

subsection \<open>Ownership invariant\<close>

definition frame_at :: "basic \<Rightarrow> nat \<Rightarrow> bool" where
  "frame_at r a \<longleftrightarrow> a < length (bc_frames r)"

definition queue_entry_ok :: "basic \<Rightarrow> int \<Rightarrow> nat \<Rightarrow> bool" where
  "queue_entry_ok r k a \<longleftrightarrow> frame_at r a \<and> fr_kind (basic_frame r a) = k \<and> k \<in> set basic_kinds \<and>
     (if fr_reply (basic_frame r a) then bc_remote r = Some a
      else bc_local r = Some a \<and> \<not> fr_sent (basic_frame r a)) \<and>
     (fld (fr_word (basic_frame r a)) 12 1 \<noteq> 0 \<longleftrightarrow> fr_reply (basic_frame r a)) \<and>
     fld (fr_word (basic_frame r a)) 6 3 = k"

definition local_ok :: "basic \<Rightarrow> nat \<Rightarrow> bool" where
  "local_ok r a \<longleftrightarrow> frame_at r a \<and> \<not> fr_reply (basic_frame r a) \<and>
     (fr_sent (basic_frame r a) \<or> a \<in> set (bc_queues r (fr_kind (basic_frame r a))))"

definition remote_ok :: "basic \<Rightarrow> nat \<Rightarrow> bool" where
  "remote_ok r a \<longleftrightarrow> frame_at r a \<and> fr_reply (basic_frame r a) \<and>
     pred_option (\<lambda>t. t \<le> bc_now r) (fr_received (basic_frame r a)) \<and> fr_received (basic_frame r a) \<noteq> None \<and>
     (fr_kind (basic_frame r a) = 4 \<longrightarrow> fr_rate (basic_frame r a) \<noteq> None) \<and>
     a \<in> set (bc_queues r (fr_kind (basic_frame r a)))"

definition basic_ok :: "basic \<Rightarrow> bool" where
  "basic_ok r \<longleftrightarrow>
     (\<forall>k. distinct (bc_queues r k) \<and> (\<forall>a \<in> set (bc_queues r k). queue_entry_ok r k a)) \<and>
     pred_option (local_ok r) (bc_local r) \<and> pred_option (remote_ok r) (bc_remote r)"

text \<open>A queue holds at most the local request and the remote reply.\<close>

lemma basic_queue_bound: "basic_ok r \<Longrightarrow> length (bc_queues r k) \<le> 2"
proof -
  assume ok: "basic_ok r"
  have sub: "set (bc_queues r k) \<subseteq> set_option (bc_local r) \<union> set_option (bc_remote r)"
  proof
    fix a assume "a \<in> set (bc_queues r k)"
    then have "queue_entry_ok r k a" using ok by (simp add: basic_ok_def)
    then show "a \<in> set_option (bc_local r) \<union> set_option (bc_remote r)"
      by (simp add: queue_entry_ok_def split: if_splits)
  qed
  have "length (bc_queues r k) = card (set (bc_queues r k))"
    using ok by (metis basic_ok_def distinct_card)
  also have "\<dots> \<le> card (set_option (bc_local r) \<union> set_option (bc_remote r))"
    by (rule card_mono [OF _ sub]) simp
  also have "\<dots> \<le> 2"
    by (cases "bc_local r"; cases "bc_remote r") (simp_all add: card_insert_if)
  finally show ?thesis .
qed

lemma basic_okD:
  assumes "basic_ok r"
  shows "distinct (bc_queues r k)" and "a \<in> set (bc_queues r k) \<Longrightarrow> queue_entry_ok r k a"
    and "bc_local r = Some b \<Longrightarrow> local_ok r b" and "bc_remote r = Some b \<Longrightarrow> remote_ok r b"
  using assms by (auto simp: basic_ok_def)

lemma basic_okI:
  assumes "\<And>k. distinct (bc_queues r k)" and "\<And>k a. a \<in> set (bc_queues r k) \<Longrightarrow> queue_entry_ok r k a"
    and "\<And>b. bc_local r = Some b \<Longrightarrow> local_ok r b" and "\<And>b. bc_remote r = Some b \<Longrightarrow> remote_ok r b"
  shows "basic_ok r"
  using assms unfolding basic_ok_def by (cases "bc_local r"; cases "bc_remote r") auto

text \<open>Fields that the ownership invariant does not read may change freely.\<close>

definition same_ownership :: "basic \<Rightarrow> basic \<Rightarrow> bool" where
  "same_ownership r s \<longleftrightarrow> bc_frames s = bc_frames r \<and> bc_local s = bc_local r \<and> bc_remote s = bc_remote r \<and>
     bc_queues s = bc_queues r \<and> bc_now r \<le> bc_now s"

lemma same_ownership_ok:
  assumes "basic_ok r" and "same_ownership r s"
  shows "basic_ok s"
proof (rule basic_okI)
  have e: "bc_frames s = bc_frames r" "bc_local s = bc_local r" "bc_remote s = bc_remote r"
    "bc_queues s = bc_queues r" "bc_now r \<le> bc_now s"
    using assms(2) by (simp_all add: same_ownership_def)
  have f: "basic_frame s = basic_frame r" "frame_at s = frame_at r"
    by (simp_all add: fun_eq_iff basic_frame_def frame_at_def e)
  show "distinct (bc_queues s k)" for k using basic_okD(1) [OF assms(1)] by (simp add: e)
  show "queue_entry_ok s k a" if "a \<in> set (bc_queues s k)" for k a
    using basic_okD(2) [OF assms(1), of a k] that by (simp add: e f queue_entry_ok_def)
  show "local_ok s b" if "bc_local s = Some b" for b
    using basic_okD(3) [OF assms(1), of b] that by (simp add: e f local_ok_def)
  show "remote_ok s b" if "bc_remote s = Some b" for b
    using basic_okD(4) [OF assms(1), of b] that e(5)
    by (auto simp: e f remote_ok_def intro: order_trans [OF _ e(5)])
qed

lemma learn_identity_same: "same_ownership r (learn_identity r k w)"
  by (simp add: same_ownership_def learn_identity_def)

lemma identity_word_bit: "k = 5 \<or> k = 6 \<Longrightarrow> fld (identity_word r k ack) 12 1 = of_bool ack"
  unfolding fld_one by (cases "bc_device_id r"; cases "bc_port r")
    (auto simp: identity_word_def Let_def bit_simps)

lemma identity_word_kind:
  assumes "k = 5 \<or> k = 6"
  shows "fld (identity_word r k ack) 6 3 = k"
proof -
  have z: "fld (push_bit 12 (of_bool ack)) 6 3 = 0" "fld (push_bit 29 d) 6 3 = 0" "fld (push_bit 31 1) 6 3 = 0"
    "fld (push_bit 16 d) 6 3 = 0" for d by (rule fld_above; simp)+
  have "fits 3 k" using assms by (auto simp: fits_def)
  then show ?thesis
    by (cases "bc_device_id r"; cases "bc_port r")
      (simp_all only: identity_word_def Let_def fld_or z fld_hit fld_0 or.right_neutral option.case if_cancel split: if_split, simp_all)
qed

lemma rate_word: "fld (push_bit 16 rate OR 0x100) 12 1 = 0" "fld (push_bit 16 rate OR 0x100) 6 3 = 4"
proof -
  show "fld (push_bit 16 rate OR 0x100) 12 1 = 0" unfolding fld_one by (simp add: bit_simps)
  have "fld (push_bit 16 rate) 6 3 = 0" by (rule fld_above) simp
  then show "fld (push_bit 16 rate OR 0x100) 6 3 = 4" by (simp add: fld_or) (simp add: fld_def drop_bit_eq_div take_bit_eq_mod)
qed

lemma ready_word: "fld 0x40 12 1 = 0" "fld 0x40 6 3 = 1"
  by (simp_all add: fld_def drop_bit_eq_div take_bit_eq_mod)

lemma reply_word:
  assumes "fits 3 k"
  shows "fld (push_bit 6 k OR 0x1000) 12 1 = 1" "fld (push_bit 6 k OR 0x1000) 6 3 = k"
proof -
  have "fld (push_bit 6 k) 12 1 = 0" by (rule fld_below [OF assms]) simp
  then show "fld (push_bit 6 k OR 0x1000) 12 1 = 1"
    by (simp only: fld_or) (simp add: fld_def drop_bit_eq_div take_bit_eq_mod)
  have "fld 0x1000 6 3 = 0" by (simp add: fld_def drop_bit_eq_div take_bit_eq_mod)
  then show "fld (push_bit 6 k OR 0x1000) 6 3 = k" by (simp add: fld_or fld_hit [OF assms])
qed

text \<open>A new frame at a fresh position.\<close>

lemma new_local_ok:
  assumes "basic_ok r" and "bc_local r = None" and "kind \<in> set basic_kinds" and "fld word 12 1 = 0" "fld word 6 3 = kind"
    and "local_request r kind word = (s, ok)"
  shows "ok" and "basic_ok s" and "bc_remote s = bc_remote r" and "bc_local s \<noteq> None"
    and "map_option (\<lambda>a. fr_kind (basic_frame s a)) (bc_local s) = Some kind"
    and "map_option (\<lambda>a. fr_kind (basic_frame s a)) (bc_remote s) = map_option (\<lambda>a. fr_kind (basic_frame r a)) (bc_remote r)"
proof -
  let ?a = "length (bc_frames r)"
  have s: "ok" "bc_local s = Some ?a" "bc_remote s = bc_remote r" "bc_now s = bc_now r"
    "bc_queues s = (bc_queues r)(kind := bc_queues r kind @ [?a])"
    "basic_frame s ?a = \<lparr>fr_kind = kind, fr_word = word, fr_reply = False, fr_received = None, fr_rate = None,
                     fr_sent = False, fr_missed = False\<rparr>"
    using assms(2,6) by (auto simp: local_request_def Let_def basic_frame_def)
  have old: "frame_at r b \<Longrightarrow> frame_at s b \<and> basic_frame s b = basic_frame r b \<and> b \<noteq> ?a" for b
    using assms(2,6) by (auto simp: local_request_def Let_def basic_frame_def frame_at_def nth_append)
  have at: "frame_at s ?a" using assms(2,6) by (auto simp: local_request_def Let_def frame_at_def)
  have q: "queue_entry_ok r k b" if "b \<in> set (bc_queues r k)" for k b by (rule basic_okD(2) [OF assms(1) that])
  have fresh: "?a \<notin> set (bc_queues r k)" for k using q [of ?a k] by (auto simp: queue_entry_ok_def frame_at_def)
  have keep: "queue_entry_ok s k b" if "b \<in> set (bc_queues r k)" for k b
  proof -
    from q [OF that] have f: "frame_at r b" and e: "queue_entry_ok r k b" by (simp_all add: queue_entry_ok_def)
    have "fr_reply (basic_frame r b)" using e assms(2) by (auto simp: queue_entry_ok_def split: if_splits)
    with e old [OF f] show ?thesis by (simp add: queue_entry_ok_def s(3))
  qed
  show ok by (rule s(1))
  show "bc_remote s = bc_remote r" "bc_local s \<noteq> None" using s by simp_all
  show "map_option (\<lambda>a. fr_kind (basic_frame s a)) (bc_local s) = Some kind" using s(2,6) by simp
  show "map_option (\<lambda>a. fr_kind (basic_frame s a)) (bc_remote s) = map_option (\<lambda>a. fr_kind (basic_frame r a)) (bc_remote r)"
  proof (cases "bc_remote r")
    case (Some b)
    then have "frame_at r b" using basic_okD(4) [OF assms(1) Some] by (simp add: remote_ok_def)
    with old Some s(3) show ?thesis by simp
  qed (simp add: s(3))
  show "basic_ok s"
  proof (rule basic_okI)
    show "distinct (bc_queues s k)" for k
      using basic_okD(1) [OF assms(1), of k] fresh [of k] by (auto simp: s(5))
    show "queue_entry_ok s k b" if "b \<in> set (bc_queues s k)" for k b
    proof (cases "b = ?a")
      case True
      then have "k = kind" using that fresh by (auto simp: s(5) split: if_splits)
      then show ?thesis using assms(3-5) s(2) s(6) at by (simp add: queue_entry_ok_def True)
    next
      case False
      then show ?thesis using that keep by (auto simp: s(5) split: if_splits)
    qed
    show "local_ok s b" if "bc_local s = Some b" for b
      using that s(2,5,6) at by (auto simp: local_ok_def)
    show "remote_ok s b" if "bc_remote s = Some b" for b
    proof -
      have r: "remote_ok r b" using basic_okD(4) [OF assms(1)] that s(3) by simp
      then have "frame_at r b" by (simp add: remote_ok_def)
      with r old [OF this] s(4) show ?thesis by (auto simp: remote_ok_def s(5))
    qed
  qed
qed

lemma new_remote_ok:
  assumes "basic_ok r" and "bc_remote r = None" and "kind \<in> set basic_kinds" and "fld word 12 1 \<noteq> 0 \<and> fld word 6 3 = kind"
    and "t \<le> bc_now r" and "kind = 4 \<Longrightarrow> rate \<noteq> None"
  defines "a \<equiv> length (bc_frames r)"
  defines "s \<equiv> r\<lparr>bc_frames := bc_frames r @ [\<lparr>fr_kind = kind, fr_word = word, fr_reply = True,
      fr_received = Some t, fr_rate = rate, fr_sent = False, fr_missed = False\<rparr>], bc_remote := Some a,
      bc_queues := (bc_queues r)(kind := bc_queues r kind @ [a])\<rparr>"
  shows "basic_ok s"
    and "map_option (\<lambda>b. fr_kind (basic_frame s b)) (bc_remote s) = Some kind"
    and "map_option (\<lambda>b. fr_kind (basic_frame s b)) (bc_local s) = map_option (\<lambda>b. fr_kind (basic_frame r b)) (bc_local r)"
proof -
  have s: "bc_remote s = Some a" "bc_local s = bc_local r" "bc_now s = bc_now r"
    "bc_queues s = (bc_queues r)(kind := bc_queues r kind @ [a])"
    "basic_frame s a = \<lparr>fr_kind = kind, fr_word = word, fr_reply = True, fr_received = Some t, fr_rate = rate,
                     fr_sent = False, fr_missed = False\<rparr>"
    by (simp_all add: s_def a_def basic_frame_def)
  have old: "frame_at r b \<Longrightarrow> frame_at s b \<and> basic_frame s b = basic_frame r b \<and> b \<noteq> a" for b
    by (auto simp: s_def a_def basic_frame_def frame_at_def nth_append)
  have at: "frame_at s a" by (simp add: s_def a_def frame_at_def)
  have q: "queue_entry_ok r k b" if "b \<in> set (bc_queues r k)" for k b by (rule basic_okD(2) [OF assms(1) that])
  have fresh: "a \<notin> set (bc_queues r k)" for k using q [of a k] by (auto simp: queue_entry_ok_def frame_at_def a_def)
  have keep: "queue_entry_ok s k b" if "b \<in> set (bc_queues r k)" for k b
  proof -
    from q [OF that] have f: "frame_at r b" and e: "queue_entry_ok r k b" by (simp_all add: queue_entry_ok_def)
    have "\<not> fr_reply (basic_frame r b)" using e assms(2) by (auto simp: queue_entry_ok_def split: if_splits)
    with e old [OF f] show ?thesis by (simp add: queue_entry_ok_def s(2))
  qed
  show "map_option (\<lambda>b. fr_kind (basic_frame s b)) (bc_remote s) = Some kind" using s(1,5) by simp
  show "map_option (\<lambda>b. fr_kind (basic_frame s b)) (bc_local s) = map_option (\<lambda>b. fr_kind (basic_frame r b)) (bc_local r)"
  proof (cases "bc_local r")
    case (Some b)
    then have "frame_at r b" using basic_okD(3) [OF assms(1) Some] by (simp add: local_ok_def)
    with old Some s(2) show ?thesis by simp
  qed (simp add: s(2))
  show "basic_ok s"
  proof (rule basic_okI)
    show "distinct (bc_queues s k)" for k
      using basic_okD(1) [OF assms(1), of k] fresh [of k] by (auto simp: s(4))
    show "queue_entry_ok s k b" if "b \<in> set (bc_queues s k)" for k b
    proof (cases "b = a")
      case True
      then have "k = kind" using that fresh by (auto simp: s(4) split: if_splits)
      then show ?thesis using assms(3,4) s(1) s(5) at by (simp add: queue_entry_ok_def True)
    next
      case False
      then show ?thesis using that keep by (auto simp: s(4) split: if_splits)
    qed
    show "remote_ok s b" if "bc_remote s = Some b" for b
      using that s at assms(5,6) by (auto simp: remote_ok_def)
    show "local_ok s b" if "bc_local s = Some b" for b
    proof -
      have r: "local_ok r b" using basic_okD(3) [OF assms(1)] that s(2) by simp
      then have "frame_at r b" by (simp add: local_ok_def)
      with r old [OF this] show ?thesis by (auto simp: local_ok_def s(4))
    qed
  qed
qed

text \<open>Marking a missed deadline changes no field that ownership reads.\<close>

lemma mark_missed_ok:
  assumes "basic_ok r"
  shows "basic_ok (r\<lparr>bc_frames := (bc_frames r)[a := (basic_frame r a)\<lparr>fr_missed := True\<rparr>],
    bc_deadline_misses := n\<rparr>)" (is "basic_ok ?s")
proof -
  have f: "frame_at ?s b = frame_at r b" for b by (simp add: frame_at_def)
  have e: "frame_at r b \<Longrightarrow> fr_kind (basic_frame ?s b) = fr_kind (basic_frame r b) \<and>
      fr_reply (basic_frame ?s b) = fr_reply (basic_frame r b) \<and> fr_sent (basic_frame ?s b) = fr_sent (basic_frame r b) \<and>
      fr_word (basic_frame ?s b) = fr_word (basic_frame r b) \<and> fr_rate (basic_frame ?s b) = fr_rate (basic_frame r b) \<and>
      fr_received (basic_frame ?s b) = fr_received (basic_frame r b)" for b
    by (cases "a = b") (auto simp: basic_frame_def frame_at_def)
  show ?thesis
  proof (rule basic_okI)
    show "distinct (bc_queues ?s k)" for k using basic_okD(1) [OF assms] by simp
    show "queue_entry_ok ?s k b" if "b \<in> set (bc_queues ?s k)" for k b
      using basic_okD(2) [OF assms, of b k] that e [of b] by (simp add: queue_entry_ok_def f)
    show "local_ok ?s b" if "bc_local ?s = Some b" for b
      using basic_okD(3) [OF assms, of b] that e [of b] by (simp add: local_ok_def f)
    show "remote_ok ?s b" if "bc_remote ?s = Some b" for b
      using basic_okD(4) [OF assms, of b] that e [of b] by (simp add: remote_ok_def f)
  qed
qed

definition local_kind :: "basic \<Rightarrow> int option" where
  "local_kind r = map_option (\<lambda>a. fr_kind (basic_frame r a)) (bc_local r)"

definition remote_kind :: "basic \<Rightarrow> int option" where
  "remote_kind r = map_option (\<lambda>a. fr_kind (basic_frame r a)) (bc_remote r)"

lemma kinds_same:
  "same_ownership r s \<Longrightarrow> local_kind s = local_kind r \<and> remote_kind s = remote_kind r"
  unfolding same_ownership_def local_kind_def remote_kind_def basic_frame_def by simp

text \<open>Time passes: ownership, the queues and what each queued frame is stay as they are.\<close>

definition same_queues :: "basic \<Rightarrow> basic \<Rightarrow> bool" where
  "same_queues r s \<longleftrightarrow> bc_queues s = bc_queues r \<and> bc_tx_limit s = bc_tx_limit r \<and>
     (\<forall>a. fr_word (basic_frame s a) = fr_word (basic_frame r a) \<and> fr_reply (basic_frame s a) = fr_reply (basic_frame r a) \<and>
          fr_kind (basic_frame s a) = fr_kind (basic_frame r a) \<and> fr_rate (basic_frame s a) = fr_rate (basic_frame r a))"

lemma advance_to_ok:
  assumes "basic_ok r" and "bc_now r \<le> t"
  obtains s where "advance_to r t = Inr s" "basic_ok s" "bc_now s = t" "bc_local s = bc_local r"
    "bc_remote s = bc_remote r" "same_queues r s"
    "local_kind s = local_kind r" "remote_kind s = remote_kind r"
    "bc_folding s = bc_folding r" "bc_ready_advertised s = bc_ready_advertised r"
proof -
  let ?r = "r\<lparr>bc_now := t\<rparr>"
  have same: "same_ownership r ?r" by (simp add: same_ownership_def assms(2))
  have ok: "basic_ok ?r" by (rule same_ownership_ok [OF assms(1) same])
  have kinds: "local_kind ?r = local_kind r" "remote_kind ?r = remote_kind r" using kinds_same [OF same] by simp_all
  have sq: "same_queues r ?r" by (simp add: same_queues_def basic_frame_def)
  show thesis
  proof (cases "bc_remote r \<noteq> None \<and> \<not> fr_missed (basic_frame ?r (the (bc_remote r))) \<and>
      t - the (fr_received (basic_frame ?r (the (bc_remote r)))) > 1000000")
    case False
    have "advance_to r t = Inr ?r"
      using assms(2) False by (cases "bc_remote r") (auto simp: advance_to_def Let_def)
    then show thesis by (rule that) (use ok kinds sq in simp_all)
  next
    case True
    then obtain a where a: "bc_remote r = Some a" by auto
    let ?f = "basic_frame ?r a"
    define s where "s = ?r\<lparr>bc_frames := (bc_frames ?r)[a := ?f\<lparr>fr_missed := True\<rparr>],
      bc_deadline_misses := bc_deadline_misses ?r + 1\<rparr>"
    have adv: "advance_to r t = Inr s" using assms(2) True a by (simp add: advance_to_def Let_def s_def)
    have fr: "fr_word (basic_frame s b) = fr_word (basic_frame r b) \<and> fr_reply (basic_frame s b) = fr_reply (basic_frame r b) \<and>
        fr_kind (basic_frame s b) = fr_kind (basic_frame r b) \<and> fr_rate (basic_frame s b) = fr_rate (basic_frame r b)" for b
      by (cases "a < length (bc_frames r)"; cases "b = a")
        (simp_all add: s_def basic_frame_def list_update_beyond)
    have "same_queues r s" unfolding same_queues_def using fr by (simp add: s_def)
    moreover have "local_kind s = local_kind r" "remote_kind s = remote_kind r"
      using fr by (simp_all add: local_kind_def remote_kind_def s_def)
    moreover have "basic_ok s" unfolding s_def by (rule mark_missed_ok [OF ok])
    ultimately show thesis by (intro that [OF adv]) (simp_all add: s_def)
  qed
qed

subsection \<open>Receiving and committing\<close>

lemma clear_local_ok:
  assumes "basic_ok r" and "bc_local r = Some a" and "fr_sent (basic_frame r a)"
  shows "basic_ok (r\<lparr>bc_local := None, bc_completed := n\<rparr>)" (is "basic_ok ?s")
proof (rule basic_okI)
  have f: "basic_frame ?s = basic_frame r" "frame_at ?s = frame_at r"
    by (simp_all add: fun_eq_iff basic_frame_def frame_at_def)
  show "distinct (bc_queues ?s k)" for k using basic_okD(1) [OF assms(1)] by simp
  show "queue_entry_ok ?s k b" if "b \<in> set (bc_queues ?s k)" for k b
  proof -
    have e: "queue_entry_ok r k b" using basic_okD(2) [OF assms(1)] that by simp
    then have "fr_reply (basic_frame r b)" using assms(2,3) by (auto simp: queue_entry_ok_def split: if_splits)
    with e show ?thesis by (simp add: queue_entry_ok_def f)
  qed
  show "local_ok ?s b" if "bc_local ?s = Some b" for b using that by simp
  show "remote_ok ?s b" if "bc_remote ?s = Some b" for b
    using basic_okD(4) [OF assms(1), of b] that by (simp add: remote_ok_def f)
qed

lemma receive_request_ok:
  assumes "basic_ok r" and "bc_remote r = None" and "k \<in> set basic_kinds" and "t \<le> bc_now r"
  shows "basic_ok (receive_request r k w t)" and "remote_kind (receive_request r k w t) = Some k"
    and "local_kind (receive_request r k w t) = local_kind r"
    and "bc_local (receive_request r k w t) = bc_local r" "bc_now (receive_request r k w t) = bc_now r"
    and "bc_folding (receive_request r k w t) = bc_folding r"
    and "bc_ready_advertised (receive_request r k w t) = bc_ready_advertised r"
proof -
  define rate where "rate = (if k = 4 then Some (fld w 16 16) else None)"
  define r2 where "r2 = learn_identity (if k = 4 then r\<lparr>bc_peer_rate := rate\<rparr> else r) k w"
  define word where "word = (if k \<in> {5, 6} then identity_word r2 k True else push_bit 6 k OR 0x1000)"
  have same: "same_ownership r r2" by (simp add: r2_def same_ownership_def learn_identity_def)
  have ok: "basic_ok r2" by (rule same_ownership_ok [OF assms(1) same])
  have eq: "receive_request r k w t = r2\<lparr>bc_frames := bc_frames r2 @ [\<lparr>fr_kind = k, fr_word = word, fr_reply = True,
             fr_received = Some t, fr_rate = rate, fr_sent = False, fr_missed = False\<rparr>],
           bc_remote := Some (length (bc_frames r2)), bc_queues := (bc_queues r2)(k := bc_queues r2 k @ [length (bc_frames r2)])\<rparr>"
    by (simp add: receive_request_def Let_def rate_def r2_def word_def)
  have rem: "bc_remote r2 = None" and now: "t \<le> bc_now r2"
    using same assms(2,4) by (auto simp: same_ownership_def)
  have "fits 3 k" using assms(3) by (auto simp: basic_kinds_def fits_def)
  then have w: "fld word 12 1 \<noteq> 0 \<and> fld word 6 3 = k"
    using identity_word_bit [of k r2 True] identity_word_kind [of k r2 True] reply_word [of k]
    by (auto simp: word_def)
  have rt: "k = 4 \<Longrightarrow> rate \<noteq> None" by (simp add: rate_def)
  note new = new_remote_ok [OF ok rem assms(3) w now rt]
  show "basic_ok (receive_request r k w t)" unfolding eq by (rule new(1))
  show "remote_kind (receive_request r k w t) = Some k" unfolding eq remote_kind_def by (rule new(2))
  show "local_kind (receive_request r k w t) = local_kind r"
    using new(3) kinds_same [OF same] unfolding eq local_kind_def by simp
  show "bc_local (receive_request r k w t) = bc_local r" "bc_now (receive_request r k w t) = bc_now r"
    "bc_folding (receive_request r k w t) = bc_folding r"
    "bc_ready_advertised (receive_request r k w t) = bc_ready_advertised r"
    by (simp_all add: eq r2_def learn_identity_def)
qed

lemma receive_ack_ok:
  assumes "basic_ok r" and "receive_ack r k w = (s, res)"
  shows "basic_ok s" and "same_queues r s" and "remote_kind s = remote_kind r" and "bc_now s = bc_now r"
    and "res = Ack_Result \<and> local_kind r = Some k \<and> bc_local s = None \<or>
         res = Unmatched_Ack \<and> local_kind s = local_kind r \<and> bc_local s = bc_local r"
    and "bc_folding s = bc_folding r" "bc_ready_advertised s = bc_ready_advertised r"
proof -
  let ?err = "r\<lparr>bc_protocol_errors := bc_protocol_errors r + 1\<rparr>"
  let ?P = "basic_ok s \<and> same_queues r s \<and> remote_kind s = remote_kind r \<and> bc_now s = bc_now r \<and>
    (res = Ack_Result \<and> local_kind r = Some k \<and> bc_local s = None \<or>
     res = Unmatched_Ack \<and> local_kind s = local_kind r \<and> bc_local s = bc_local r) \<and>
    bc_folding s = bc_folding r \<and> bc_ready_advertised s = bc_ready_advertised r"
  have err: "same_ownership r ?err" "same_queues r ?err"
    by (simp_all add: same_ownership_def same_queues_def basic_frame_def)
  have ?P
  proof (cases "\<exists>a. bc_local r = Some a \<and> fr_sent (basic_frame r a) \<and> fr_kind (basic_frame r a) = k")
    case False
    then have "s = ?err" "res = Unmatched_Ack"
      using assms(2) by (auto simp: receive_ack_def split: option.splits if_splits)
    then show ?thesis using same_ownership_ok [OF assms(1) err(1)] kinds_same [OF err(1)] err(2) by simp
  next
    case True
    then obtain a where a: "bc_local r = Some a" "fr_sent (basic_frame r a)" "fr_kind (basic_frame r a) = k" by blast
    let ?l = "learn_identity r k w"
    have same: "same_ownership r ?l" by (rule learn_identity_same)
    have l: "basic_ok ?l" "bc_local ?l = Some a" "basic_frame ?l = basic_frame r"
      using same_ownership_ok [OF assms(1) same] same a(1)
      by (simp_all add: same_ownership_def basic_frame_def fun_eq_iff)
    have s: "s = ?l\<lparr>bc_local := None, bc_completed := bc_completed ?l + 1\<rparr>" "res = Ack_Result"
      using assms(2) a by (simp_all add: receive_ack_def Let_def)
    have "basic_ok s" unfolding s by (rule clear_local_ok [OF l(1,2)]) (simp add: l(3) a(2))
    moreover have "same_queues r s" using same
      by (simp add: s same_queues_def same_ownership_def basic_frame_def learn_identity_def)
    moreover have "remote_kind s = remote_kind r"
      using same by (simp add: s remote_kind_def same_ownership_def basic_frame_def)
    ultimately show ?thesis using a by (simp add: s local_kind_def learn_identity_def)
  qed
  then show "basic_ok s" "same_queues r s" "remote_kind s = remote_kind r" "bc_now s = bc_now r"
    "res = Ack_Result \<and> local_kind r = Some k \<and> bc_local s = None \<or>
     res = Unmatched_Ack \<and> local_kind s = local_kind r \<and> bc_local s = bc_local r"
    "bc_folding s = bc_folding r" "bc_ready_advertised s = bc_ready_advertised r" by blast+
qed

text \<open>What a received word does, by its result.\<close>

lemma basic_receive_ok:
  assumes "basic_ok r" and "fits 32 w" and "bc_now r \<le> t"
  obtains s res where "basic_receive r w t = Inr (s, res)" "basic_ok s"
    "local_kind s = (if res = Ack_Result then None else local_kind r)"
    "res = Ack_Result \<Longrightarrow> local_kind r = Some (fld w 6 3)"
    "remote_kind s = (if res = Request_Result then Some (fld w 6 3) else remote_kind r)"
    "res = Request_Result \<Longrightarrow> remote_kind r = None"
    "fld w 12 1 \<noteq> 0 \<Longrightarrow> same_queues r s \<and> res \<noteq> Request_Result" "bc_now s = t"
    "bc_local s = (if res = Ack_Result then None else bc_local r)"
    "bc_folding s = bc_folding r" "bc_ready_advertised s = bc_ready_advertised r"
proof -
  from advance_to_ok [OF assms(1,3)] obtain r1 where adv: "advance_to r t = Inr r1" "basic_ok r1" "bc_now r1 = t"
    "bc_local r1 = bc_local r" "bc_remote r1 = bc_remote r" "same_queues r r1"
    "local_kind r1 = local_kind r" "remote_kind r1 = remote_kind r"
    "bc_folding r1 = bc_folding r" "bc_ready_advertised r1 = bc_ready_advertised r" .
  let ?k = "fld w 6 3" and ?err = "r1\<lparr>bc_protocol_errors := bc_protocol_errors r1 + 1\<rparr>"
  have errs: "same_ownership r1 ?err" by (simp add: same_ownership_def)
  consider (plain) res where "basic_receive r w t = Inr (r1, res)" "res \<in> {Unhandled, Noop, Unsupported}"
    | (ack) "basic_receive r w t = Inr (receive_ack r1 ?k w)"
    | (over) "basic_receive r w t = Inr (?err, Remote_Overlap)" "fld w 12 1 = 0"
    | (req) "basic_receive r w t = Inr (receive_request r1 ?k w t, Request_Result)" "fld w 12 1 = 0"
        "bc_remote r1 = None" "?k \<in> set basic_kinds"
  proof -
    let ?bad = "fld w 2 4 \<noteq> 0 \<or> ?k \<notin> {0, 1, 4, 5, 6}"
    have run: "basic_receive r w t =
       (if ?bad then Inr (r1, Unhandled) else if ?k = 0 then Inr (r1, Noop)
        else if ?k = 1 \<and> \<not> bc_folding r1 then Inr (r1, Unsupported)
        else if fld w 12 1 \<noteq> 0 then Inr (receive_ack r1 ?k w)
        else if bc_remote r1 \<noteq> None then Inr (?err, Remote_Overlap)
        else Inr (receive_request r1 ?k w t, Request_Result))"
      using assms(2) adv(1) by (simp add: basic_receive_def check_uint_def Let_def)
    show thesis
    proof (cases "?bad \<or> ?k = 0 \<or> ?k = 1 \<and> \<not> bc_folding r1")
      case True
      then have "\<exists>res \<in> {Unhandled, Noop, Unsupported}. basic_receive r w t = Inr (r1, res)"
        unfolding run by (cases ?bad; cases "?k = 0"; simp)
      then show thesis using plain by blast
    next
      case False
      then have "basic_receive r w t = (if fld w 12 1 \<noteq> 0 then Inr (receive_ack r1 ?k w)
        else if bc_remote r1 \<noteq> None then Inr (?err, Remote_Overlap)
        else Inr (receive_request r1 ?k w t, Request_Result))" unfolding run by (simp only: if_False de_Morgan_disj, simp)
      moreover have "?k \<in> set basic_kinds" using False by (auto simp: basic_kinds_def)
      ultimately show thesis using ack over req by (cases "fld w 12 1 = 0"; cases "bc_remote r1 = None") simp_all
    qed
  qed
  then show thesis
  proof cases
    case (plain res)
    then show thesis by (intro that [OF plain(1) adv(2)]) (use adv in auto)
  next
    case over
    have "same_queues r ?err" using adv(6) by (simp add: same_queues_def basic_frame_def)
    then show thesis
      by (intro that [OF over(1) same_ownership_ok [OF adv(2) errs]]) (use adv over(2) kinds_same [OF errs] in auto)
  next
    case ack
    obtain s res where a: "receive_ack r1 ?k w = (s, res)" by force
    note facts = receive_ack_ok [OF adv(2) a]
    have sq: "same_queues r s" using facts(2) adv(6) by (simp add: same_queues_def)
    have lk: "local_kind s = (if res = Ack_Result then None else local_kind r)"
      "bc_local s = (if res = Ack_Result then None else bc_local r)"
      using facts(5) adv(4,7) by (auto simp: local_kind_def)
    show thesis
    proof (rule that [of s res])
      show "basic_receive r w t = Inr (s, res)" using ack a by simp
    qed (use facts adv sq lk in auto)
  next
    case req
    note facts = receive_request_ok [OF adv(2) req(3,4), of t w]
    show thesis by (rule that [OF req(1)]) (use facts adv req(2,3) in \<open>auto simp: remote_kind_def\<close>)
  qed
qed

lemma same_queues_eligible: "same_queues r s \<Longrightarrow> basic_eligible s a = basic_eligible r a"
  by (cases "bc_tx_limit r") (simp_all add: same_queues_def basic_eligible_def Let_def)

lemma same_queues_offers: "same_queues r s \<Longrightarrow> basic_offers s = basic_offers r"
  by (simp add: basic_offers_def same_queues_eligible) (simp add: same_queues_def)

text \<open>Taking the head off a queue, as a reply that is done or as a request that is now sent.\<close>

lemma take_head_ok:
  assumes "basic_ok r" and "bc_queues r k = a # rest"
  defines "r1 \<equiv> r\<lparr>bc_queues := (bc_queues r)(k := rest)\<rparr>"
  shows "fr_reply (basic_frame r a) \<Longrightarrow> basic_ok (r1\<lparr>bc_latencies := l, bc_remote := None\<rparr>)"
    and "\<not> fr_reply (basic_frame r a) \<Longrightarrow>
           basic_ok (r1\<lparr>bc_frames := (bc_frames r1)[a := (basic_frame r a)\<lparr>fr_sent := True\<rparr>]\<rparr>)"
proof -
  have a: "queue_entry_ok r k a" by (rule basic_okD(2) [OF assms(1)]) (simp add: assms(2))
  have notin: "a \<notin> set rest" using basic_okD(1) [OF assms(1), of k] assms(2) by simp
  have sub: "b \<in> set (bc_queues r1 j) \<Longrightarrow> b \<in> set (bc_queues r j) \<and> b \<noteq> a" for b j
  proof -
    assume b: "b \<in> set (bc_queues r1 j)"
    then have in_: "b \<in> set (bc_queues r j)" using assms(2) by (auto simp: r1_def split: if_splits)
    have "b \<noteq> a"
    proof
      assume "b = a"
      then have "queue_entry_ok r j a" using in_ basic_okD(2) [OF assms(1)] by blast
      with a have "j = k" by (simp add: queue_entry_ok_def)
      with b notin \<open>b = a\<close> show False by (simp add: r1_def)
    qed
    with in_ show ?thesis by simp
  qed
  have dist: "distinct (bc_queues r1 j)" for j
    using basic_okD(1) [OF assms(1), of j] basic_okD(1) [OF assms(1), of k] assms(2) by (simp add: r1_def)
  have keep: "b \<in> set (bc_queues r j) \<Longrightarrow> b \<noteq> a \<Longrightarrow> b \<in> set (bc_queues r1 j)" for b j
    using assms(2) by (auto simp: r1_def)
  show "basic_ok (r1\<lparr>bc_latencies := l, bc_remote := None\<rparr>)" (is "basic_ok ?s") if rep: "fr_reply (basic_frame r a)"
  proof (rule basic_okI)
    have f: "basic_frame ?s = basic_frame r" "frame_at ?s = frame_at r" "bc_queues ?s = bc_queues r1"
      "bc_local ?s = bc_local r"
      by (simp_all add: fun_eq_iff basic_frame_def frame_at_def r1_def)
    have ra: "bc_remote r = Some a" using a rep by (simp add: queue_entry_ok_def)
    show "distinct (bc_queues ?s j)" for j using dist by simp
    show "queue_entry_ok ?s j b" if "b \<in> set (bc_queues ?s j)" for j b
    proof -
      from sub [of b j] that have "b \<in> set (bc_queues r j)" "b \<noteq> a" by (simp_all add: f)
      from basic_okD(2) [OF assms(1) this(1)] this(2) ra show ?thesis
        by (auto simp: queue_entry_ok_def f split: if_splits)
    qed
    show "local_ok ?s b" if "bc_local ?s = Some b" for b
    proof -
      have lo: "local_ok r b" using basic_okD(3) [OF assms(1)] that by (simp add: f)
      then have "b \<noteq> a" using rep by (auto simp: local_ok_def)
      with lo keep show ?thesis by (auto simp: local_ok_def f)
    qed
    show "remote_ok ?s b" if "bc_remote ?s = Some b" for b using that by simp
  qed
  show "basic_ok (r1\<lparr>bc_frames := (bc_frames r1)[a := (basic_frame r a)\<lparr>fr_sent := True\<rparr>]\<rparr>)" (is "basic_ok ?s")
    if loc: "\<not> fr_reply (basic_frame r a)"
  proof (rule basic_okI)
    have at: "a < length (bc_frames r)" using a by (simp add: queue_entry_ok_def frame_at_def)
    have f: "b \<noteq> a \<Longrightarrow> basic_frame ?s b = basic_frame r b" "frame_at ?s b = frame_at r b" for b
      by (simp_all add: basic_frame_def frame_at_def r1_def)
    have fa: "basic_frame ?s a = (basic_frame r a)\<lparr>fr_sent := True\<rparr>" using at by (simp add: basic_frame_def r1_def)
    have q: "bc_queues ?s = bc_queues r1" "bc_local ?s = bc_local r" "bc_remote ?s = bc_remote r" "bc_now ?s = bc_now r"
      by (simp_all add: r1_def)
    show "distinct (bc_queues ?s j)" for j using dist by simp
    show "queue_entry_ok ?s j b" if "b \<in> set (bc_queues ?s j)" for j b
    proof -
      from sub [of b j] that have "b \<in> set (bc_queues r j)" "b \<noteq> a" by (simp_all add: q)
      from basic_okD(2) [OF assms(1) this(1)] this(2) show ?thesis
        by (simp add: queue_entry_ok_def f q)
    qed
    show "local_ok ?s b" if "bc_local ?s = Some b" for b
    proof -
      have lo: "local_ok r b" using basic_okD(3) [OF assms(1)] that by (simp add: q)
      show ?thesis
      proof (cases "b = a")
        case True
        then show ?thesis using lo fa f(2) by (simp add: local_ok_def)
      next
        case False
        then show ?thesis using lo f keep by (auto simp: local_ok_def q)
      qed
    qed
    show "remote_ok ?s b" if "bc_remote ?s = Some b" for b
    proof -
      have ro: "remote_ok r b" using basic_okD(4) [OF assms(1)] that by (simp add: q)
      then have "b \<noteq> a" using loc by (auto simp: remote_ok_def)
      with ro f keep show ?thesis by (auto simp: remote_ok_def q)
    qed
  qed
qed

lemma basic_commit_ok:
  assumes "basic_ok r" and "k \<in> set basic_kinds" and "bc_now r \<le> t"
  obtains s w where "basic_commit r k t = Inr (s, w)" "basic_ok s" "bc_now s = t"
    "w = (if bc_queues r k \<noteq> [] \<and> basic_eligible r (hd (bc_queues r k))
          then Some (fr_word (basic_frame r (hd (bc_queues r k)))) else None)"
    "local_kind s = local_kind r" "bc_local s = bc_local r"
    "\<And>v. w = Some v \<Longrightarrow> fld v 6 3 = k \<and>
       (if fld v 12 1 \<noteq> 0 then remote_kind r = Some k \<and> remote_kind s = None else remote_kind s = remote_kind r)"
    "w = None \<Longrightarrow> remote_kind s = remote_kind r"
    "bc_folding s = bc_folding r" "bc_ready_advertised s = bc_ready_advertised r"
proof -
  from advance_to_ok [OF assms(1,3)] obtain r1 where adv: "advance_to r t = Inr r1" "basic_ok r1" "bc_now r1 = t"
    "bc_local r1 = bc_local r" "bc_remote r1 = bc_remote r" "same_queues r r1"
    "local_kind r1 = local_kind r" "remote_kind r1 = remote_kind r"
    "bc_folding r1 = bc_folding r" "bc_ready_advertised r1 = bc_ready_advertised r" .
  have q: "bc_queues r1 = bc_queues r" using adv(6) by (simp add: same_queues_def)
  have wd: "fr_word (basic_frame r1 a) = fr_word (basic_frame r a)" for a using adv(6) by (simp add: same_queues_def)
  show thesis
  proof (cases "bc_queues r k \<noteq> [] \<and> basic_eligible r (hd (bc_queues r k))")
    case False
    then have "basic_commit r k t = Inr (r1, None)"
      using assms(2) adv(1) same_queues_eligible [OF adv(6)]
      by (cases "bc_queues r k") (auto simp: basic_commit_def q)
    then show thesis by (rule that) (use adv False in auto)
  next
    case True
    then obtain a rest where a: "bc_queues r k = a # rest" "basic_eligible r a" by (cases "bc_queues r k") auto
    have a1: "bc_queues r1 k = a # rest" using a(1) q by simp
    let ?r2 = "r1\<lparr>bc_queues := (bc_queues r1)(k := rest)\<rparr>"
    let ?f = "basic_frame r1 a"
    let ?s = "if fr_reply ?f then ?r2\<lparr>bc_latencies := bc_latencies r1 @ [t - the (fr_received ?f)], bc_remote := None\<rparr>
              else ?r2\<lparr>bc_frames := (bc_frames ?r2)[a := ?f\<lparr>fr_sent := True\<rparr>]\<rparr>"
    have f2: "basic_frame ?r2 a = ?f" by (simp add: basic_frame_def)
    have run: "basic_commit r k t = Inr (?s, Some (fr_word ?f))"
      using assms(2) adv(1) a a1 same_queues_eligible [OF adv(6)]
      by (simp add: basic_commit_def Let_def f2)
    have e: "queue_entry_ok r1 k a" by (rule basic_okD(2) [OF adv(2)]) (simp add: a1)
    have ok: "basic_ok ?s" using take_head_ok [OF adv(2) a1] by simp
    have at: "a < length (bc_frames r1)" using e by (simp add: queue_entry_ok_def frame_at_def)
    have frs: "fr_kind (basic_frame ?s b) = fr_kind (basic_frame r1 b)" for b
      using at by (cases "b = a") (auto simp: basic_frame_def)
    have lk: "local_kind ?s = local_kind r" using adv(7) frs by (simp add: local_kind_def)
    have rk: "if fr_reply ?f then remote_kind r = Some k \<and> remote_kind ?s = None else remote_kind ?s = remote_kind r"
    proof (cases "fr_reply ?f")
      case True
      then have "bc_remote r1 = Some a" "fr_kind ?f = k" using e by (simp_all add: queue_entry_ok_def)
      then show ?thesis using True adv(8) by (simp add: remote_kind_def)
    next
      case False
      then show ?thesis using adv(8) frs by (simp add: remote_kind_def)
    qed
    show thesis
    proof (rule that [OF run ok])
      show "bc_now ?s = t" "bc_local ?s = bc_local r" "bc_folding ?s = bc_folding r"
        "bc_ready_advertised ?s = bc_ready_advertised r" using adv by simp_all
      show "local_kind ?s = local_kind r" by (rule lk)
      show "Some (fr_word ?f) = (if bc_queues r k \<noteq> [] \<and> basic_eligible r (hd (bc_queues r k))
          then Some (fr_word (basic_frame r (hd (bc_queues r k)))) else None)"
        using True a by (simp add: wd)
      show "fld v 6 3 = k \<and> (if fld v 12 1 \<noteq> 0 then remote_kind r = Some k \<and> remote_kind ?s = None
          else remote_kind ?s = remote_kind r)" if "Some (fr_word ?f) = Some v" for v
        using that rk e by (auto simp: queue_entry_ok_def)
    qed simp
  qed
qed

subsection \<open>Runs\<close>

datatype basic_op =
  Req_Rate int | Req_Device | Req_Port | Req_Ready bool | Set_Limit int | Advance int | Rx int int | Commit int int

datatype basic_out = Accepted bool | Nothing | Received basic_result int | Sent_Word "int option"

fun basic_step :: "basic \<Rightarrow> basic_op \<Rightarrow> py_error + basic \<times> basic_out" where
  "basic_step r (Req_Rate v) = rbind (request_rate r v) (\<lambda>(s, ok). Inr (s, Accepted ok))"
| "basic_step r Req_Device = (let (s, ok) = request_device_id r in Inr (s, Accepted ok))"
| "basic_step r Req_Port = (let (s, ok) = request_port r in Inr (s, Accepted ok))"
| "basic_step r (Req_Ready v) = (let (s, ok) = request_tx_ready r v in Inr (s, Accepted ok))"
| "basic_step r (Set_Limit v) = rbind (set_tx_limit r v) (\<lambda>s. Inr (s, Nothing))"
| "basic_step r (Advance t) = rbind (advance_to r t) (\<lambda>s. Inr (s, Nothing))"
| "basic_step r (Rx w t) = rbind (basic_receive r w t) (\<lambda>(s, res). Inr (s, Received res w))"
| "basic_step r (Commit k t) = rbind (basic_commit r k t) (\<lambda>(s, w). Inr (s, Sent_Word w))"

fun asked_kind :: "basic_op \<Rightarrow> basic_out \<Rightarrow> int list" where
  "asked_kind (Req_Rate v) (Accepted ok) = (if ok then [4] else [])"
| "asked_kind Req_Device (Accepted ok) = (if ok then [5] else [])"
| "asked_kind Req_Port (Accepted ok) = (if ok then [6] else [])"
| "asked_kind (Req_Ready v) (Accepted ok) = (if ok then [1] else [])"
| "asked_kind _ _ = []"

fun acked_kind :: "basic_out \<Rightarrow> int list" where
  "acked_kind (Received Ack_Result w) = [fld w 6 3]"
| "acked_kind _ = []"

fun owed_kind :: "basic_op \<Rightarrow> basic_out \<Rightarrow> int list" where
  "owed_kind (Rx w t) (Received Request_Result v) = [fld w 6 3]"
| "owed_kind _ _ = []"

fun replied_kind :: "basic_out \<Rightarrow> int list" where
  "replied_kind (Sent_Word (Some w)) = (if fld w 12 1 \<noteq> 0 then [fld w 6 3] else [])"
| "replied_kind _ = []"

definition opt_list :: "'a option \<Rightarrow> 'a list" where
  "opt_list x = (case x of None \<Rightarrow> [] | Some y \<Rightarrow> [y])"

lemma opt_list_simps [simp]: "opt_list None = []" "opt_list (Some y) = [y]"
  by (simp_all add: opt_list_def)

lemma local_request_step:
  assumes "basic_ok r" and "kind \<in> set basic_kinds" and "fld word 12 1 = 0" "fld word 6 3 = kind"
    and "local_request r kind word = (s, ok)"
  shows "basic_ok s \<and> remote_kind s = remote_kind r \<and>
    opt_list (local_kind r) @ (if ok then [kind] else []) = opt_list (local_kind s)"
proof (cases "bc_local r")
  case None
  note new = new_local_ok [OF assms(1) None assms(2-5)]
  have "local_kind r = None" using None by (simp add: local_kind_def)
  then show ?thesis using new by (auto simp: local_kind_def remote_kind_def)
next
  case (Some a)
  then show ?thesis using assms(1,5) by (simp add: local_request_def)
qed

lemma basic_step_ok:
  assumes "basic_ok r" and "basic_step r i = Inr (s, out)"
  shows "basic_ok s"
    and "opt_list (local_kind r) @ asked_kind i out = acked_kind out @ opt_list (local_kind s)"
    and "opt_list (remote_kind r) @ owed_kind i out = replied_kind out @ opt_list (remote_kind s)"
proof -
  have "basic_ok s \<and> opt_list (local_kind r) @ asked_kind i out = acked_kind out @ opt_list (local_kind s) \<and>
    opt_list (remote_kind r) @ owed_kind i out = replied_kind out @ opt_list (remote_kind s)"
  proof (cases i)
    case (Req_Rate v)
    then obtain ok where l: "local_request r 4 (push_bit 16 v OR 0x100) = (s, ok)" "out = Accepted ok"
      using assms(2) by (auto simp: request_rate_def split: prod.splits)
    from local_request_step [OF assms(1) _ _ _ l(1)] rate_word [of v] l(2) Req_Rate show ?thesis
      by (simp add: basic_kinds_def)
  next
    case Req_Device
    then obtain ok where l: "local_request r 5 (identity_word r 5 False) = (s, ok)" "out = Accepted ok"
      using assms(2) by (auto simp: request_device_id_def split: prod.splits)
    from local_request_step [OF assms(1) _ _ _ l(1)] identity_word_bit [of 5 r False] identity_word_kind [of 5 r False]
      l(2) Req_Device show ?thesis by (simp add: basic_kinds_def)
  next
    case Req_Port
    then obtain ok where l: "local_request r 6 (identity_word r 6 False) = (s, ok)" "out = Accepted ok"
      using assms(2) by (auto simp: request_port_def split: prod.splits)
    from local_request_step [OF assms(1) _ _ _ l(1)] identity_word_bit [of 6 r False] identity_word_kind [of 6 r False]
      l(2) Req_Port show ?thesis by (simp add: basic_kinds_def)
  next
    case (Req_Ready v)
    show ?thesis
    proof (cases "\<not> bc_folding r \<or> \<not> bc_ready_advertised r \<or> \<not> v")
      case True
      then show ?thesis using assms Req_Ready by (auto simp: request_tx_ready_def)
    next
      case False
      then obtain ok where l: "local_request r 1 0x40 = (s, ok)" "out = Accepted ok"
        using assms(2) Req_Ready by (auto simp: request_tx_ready_def split: prod.splits)
      from local_request_step [OF assms(1) _ _ _ l(1)] ready_word l(2) Req_Ready show ?thesis
        by (simp add: basic_kinds_def)
    qed
  next
    case (Set_Limit v)
    then have s: "s = r\<lparr>bc_tx_limit := Some v\<rparr>" "out = Nothing" using assms(2) by (auto simp: set_tx_limit_def)
    have same: "same_ownership r s" by (simp add: s same_ownership_def)
    from same_ownership_ok [OF assms(1) same] kinds_same [OF same] show ?thesis by (simp add: s(2) Set_Limit)
  next
    case (Advance t)
    then have a: "advance_to r t = Inr s" "out = Nothing" using assms(2) by auto
    then have le: "bc_now r \<le> t" by (simp add: advance_to_def split: if_splits)
    from advance_to_ok [OF assms(1) le] a obtain "basic_ok s" "local_kind s = local_kind r" "remote_kind s = remote_kind r"
      by (metis sum.inject(2))
    then show ?thesis by (simp add: a(2) Advance)
  next
    case (Rx w t)
    then obtain res where a: "basic_receive r w t = Inr (s, res)" "out = Received res w" using assms(2) by auto
    have pre: "fits 32 w" "bc_now r \<le> t"
      using a(1) by (auto simp: basic_receive_def check_uint_def advance_to_def split: if_splits)
    obtain s' res' where x: "basic_receive r w t = Inr (s', res')" "basic_ok s'"
      "local_kind s' = (if res' = Ack_Result then None else local_kind r)"
      "res' = Ack_Result \<Longrightarrow> local_kind r = Some (fld w 6 3)"
      "remote_kind s' = (if res' = Request_Result then Some (fld w 6 3) else remote_kind r)"
      "res' = Request_Result \<Longrightarrow> remote_kind r = None"
      by (rule basic_receive_ok [OF assms(1) pre]) (rule that; assumption)
    have eq: "s' = s" "res' = res" using x(1) a(1) by simp_all
    show ?thesis using x(2-6) unfolding eq by (cases res) (simp_all add: a(2) Rx)
  next
    case (Commit k t)
    then obtain w where a: "basic_commit r k t = Inr (s, w)" "out = Sent_Word w" using assms(2) by auto
    have pre: "k \<in> set basic_kinds" "bc_now r \<le> t"
      using a(1) by (auto simp: basic_commit_def advance_to_def split: if_splits)
    obtain s' w' where x: "basic_commit r k t = Inr (s', w')" "basic_ok s'"
      "local_kind s' = local_kind r"
      "\<And>v. w' = Some v \<Longrightarrow> fld v 6 3 = k \<and>
       (if fld v 12 1 \<noteq> 0 then remote_kind r = Some k \<and> remote_kind s' = None else remote_kind s' = remote_kind r)"
      "w' = None \<Longrightarrow> remote_kind s' = remote_kind r"
      by (rule basic_commit_ok [OF assms(1) pre]) (rule that; assumption)
    have eq: "s' = s" "w' = w" using x(1) a(1) by simp_all
    show ?thesis using x(2-5) unfolding eq by (cases w) (auto simp: a(2) Commit split: if_splits)
  qed
  then show "basic_ok s"
    and "opt_list (local_kind r) @ asked_kind i out = acked_kind out @ opt_list (local_kind s)"
    and "opt_list (remote_kind r) @ owed_kind i out = replied_kind out @ opt_list (remote_kind s)" by blast+
qed

interpretation basic_local: flow basic_step basic_ok "\<lambda>r. opt_list (local_kind r)" asked_kind acked_kind
  by unfold_locales (rule basic_step_ok, assumption+)+

interpretation basic_remote: flow basic_step basic_ok "\<lambda>r. opt_list (remote_kind r)" owed_kind replied_kind
  by unfold_locales (rule basic_step_ok(3), assumption+)

lemma basic_new_ok:
  "basic_new d ty p f a = Inr r \<Longrightarrow> basic_ok r \<and> local_kind r = None \<and> remote_kind r = None"
  by (auto simp: basic_new_def basic_reset_def basic_ok_def local_kind_def remote_kind_def)

lemma basic_reset_ok: "basic_ok (basic_reset r)"
  by (auto simp: basic_reset_def basic_ok_def)

end
