(* ===== verification/Dl_Control.thy ===== *)
theory Dl_Control
  imports Dl_Basic
begin

section \<open>Cycle adapter of the Basic controller\<close>

text \<open>
  Models \<open>simulator/UAlink2.0/model/ualink/dl_basic_control.py\<close>: one clock edge over the event model
  of \<open>Dl_Basic\<close>. The keyword inputs are a record, whose widths \<open>ctl_check\<close> checks; the output signals
  are a record too. The two \<open>assert\<close> statements are branches \<open>AssertionError\<close>, shown unreachable: the
  word committed is the word that was offered, and an admitted local request is accepted.
\<close>

record ctl_input =
  xi_reset :: bool
  xi_local_valid :: bool
  xi_local_kind :: int
  xi_local_rate :: int
  xi_device_valid :: bool
  xi_device_id :: int
  xi_device_type :: int
  xi_port_valid :: bool
  xi_port :: int
  xi_folding :: bool
  xi_ready_advertised :: bool
  xi_symbols_valid :: bool
  xi_limit_valid :: bool
  xi_limit :: int
  xi_rx_valid :: bool
  xi_rx_word :: int
  xi_take :: int

record ctl_signals =
  cs_local_ready :: bool
  cs_local_pending :: bool
  cs_local_waiting :: bool
  cs_remote_pending :: bool
  cs_source_pending :: int
  cs_source_words :: int
  cs_local_start :: bool
  cs_local_commit :: bool
  cs_local_done :: bool
  cs_reply_done :: bool
  cs_rx_request :: bool
  cs_rx_noop :: bool
  cs_rx_unhandled :: bool
  cs_rx_unsupported :: bool
  cs_rx_unmatched_ack :: bool
  cs_rx_overlap :: bool
  cs_peer_rate_valid :: bool
  cs_peer_rate_value :: int
  cs_peer_device_valid :: bool
  cs_peer_device_type :: int
  cs_peer_device_id :: int
  cs_peer_port_valid :: bool
  cs_peer_port :: int
  cs_peer_rate_update :: bool
  cs_deadline_miss :: bool
  cs_deadline_fault :: bool
  cs_protocol_fault :: bool
  cs_error :: bool

record control =
  ct_period :: int
  ct_edge :: int
  ct_reference :: basic
  ct_waiting :: bool
  ct_fault :: bool

definition ctl_no_signals :: ctl_signals where
  "ctl_no_signals = \<lparr>cs_local_ready = False, cs_local_pending = False, cs_local_waiting = False,
     cs_remote_pending = False, cs_source_pending = 0, cs_source_words = 0, cs_local_start = False,
     cs_local_commit = False, cs_local_done = False, cs_reply_done = False, cs_rx_request = False,
     cs_rx_noop = False, cs_rx_unhandled = False, cs_rx_unsupported = False, cs_rx_unmatched_ack = False,
     cs_rx_overlap = False, cs_peer_rate_valid = False, cs_peer_rate_value = 0, cs_peer_device_valid = False,
     cs_peer_device_type = 0, cs_peer_device_id = 0, cs_peer_port_valid = False, cs_peer_port = 0,
     cs_peer_rate_update = False, cs_deadline_miss = False, cs_deadline_fault = False,
     cs_protocol_fault = False, cs_error = False\<rparr>"

definition ctl_new :: "int \<Rightarrow> py_error + control" where
  "ctl_new clock_period_ps =
     (if \<not> (1 \<le> clock_period_ps \<and> clock_period_ps \<le> 1000000000) then Inl ValueError
      else rbind (basic_new None 0 None False False) (\<lambda>r.
        Inr \<lparr>ct_period = clock_period_ps, ct_edge = 0, ct_reference = r, ct_waiting = False, ct_fault = False\<rparr>))"

definition ctl_check :: "ctl_input \<Rightarrow> py_error + unit" where
  "ctl_check x = ensure (fits 3 (xi_local_kind x) \<and> fits 16 (xi_local_rate x) \<and> fits 10 (xi_device_id x) \<and>
     fits 1 (xi_device_type x) \<and> fits 12 (xi_port x) \<and> fits 16 (xi_limit x) \<and> fits 32 (xi_rx_word x) \<and>
     fits 4 (xi_take x))"

text \<open>The offered heads; without a declared limit a rate reply is withheld.\<close>

definition ctl_offered :: "basic \<Rightarrow> ctl_input \<Rightarrow> (int \<times> int) list" where
  "ctl_offered r x =
     (let offered = basic_offers r in
      if \<not> xi_limit_valid x \<and> fld (dget offered 4 0) 12 1 \<noteq> 0 then AList.delete 4 offered else offered)"

definition ctl_pending :: "(int \<times> int) list \<Rightarrow> int" where
  "ctl_pending offered =
     (\<Sum>i\<leftarrow>[0..<4]. if map_of offered (basic_kinds ! i) \<noteq> None then push_bit i 1 else 0)"

definition ctl_words :: "(int \<times> int) list \<Rightarrow> int" where
  "ctl_words offered =
     (\<Sum>i\<leftarrow>[0..<4]. case map_of offered (basic_kinds ! i) of None \<Rightarrow> 0 | Some w \<Rightarrow> push_bit (32 * i) w)"

text \<open>\<open>take.bit_count()\<close> and the selected kind of a four-bit \<open>take\<close>.\<close>

definition take_bits :: "int \<Rightarrow> nat list" where
  "take_bits tk = filter (\<lambda>i. bit tk i) [0..<4]"

definition ctl_bad_take :: "int \<Rightarrow> (int \<times> int) list \<Rightarrow> bool" where
  "ctl_bad_take tk offered \<longleftrightarrow>
     tk \<noteq> 0 \<and> (length (take_bits tk) \<noteq> 1 \<or> (tk AND ctl_pending offered) \<noteq> tk)"

definition ctl_local_ready :: "basic \<Rightarrow> ctl_input \<Rightarrow> bool" where
  "ctl_local_ready r x \<longleftrightarrow> bc_local r = None \<and> xi_local_kind x \<in> set basic_kinds \<and>
     (xi_local_kind x \<noteq> 1 \<or> xi_folding x \<and> xi_ready_advertised x \<and> xi_symbols_valid x)"

text \<open>The parts of an edge, in order: an early acknowledgement, the commit, the receipt, the start.\<close>

definition ctl_receive :: "bool \<Rightarrow> basic \<Rightarrow> int \<Rightarrow> int \<Rightarrow> basic_result option \<Rightarrow> py_error + basic \<times> basic_result option" where
  "ctl_receive enabled r word now result =
     (if enabled then rbind (basic_receive r word now) (\<lambda>(r, res). Inr (r, Some res)) else Inr (r, result))"

definition ctl_commit ::
  "bool \<Rightarrow> basic \<Rightarrow> int \<Rightarrow> int \<Rightarrow> (int \<times> int) list \<Rightarrow> bool \<Rightarrow> py_error + basic \<times> bool \<times> bool \<times> bool" where
  "ctl_commit enabled r tk now offered waiting =
     (if \<not> enabled then Inr (r, False, False, waiting)
      else
        let selected = basic_kinds ! last (take_bits tk) in
        rbind (basic_commit r selected now) (\<lambda>(r, sent).
          case map_of offered selected of
            None \<Rightarrow> Inl KeyError
          | Some word \<Rightarrow>
              if sent \<noteq> Some word then Inl AssertionError
              else if fld word 12 1 \<noteq> 0 then Inr (r, True, False, waiting)
              else Inr (r, False, True, True)))"

definition ctl_start :: "bool \<Rightarrow> basic \<Rightarrow> ctl_input \<Rightarrow> bool \<Rightarrow> py_error + basic \<times> bool" where
  "ctl_start enabled r x waiting =
     (if \<not> enabled then Inr (r, waiting)
      else
        rbind
          (if xi_local_kind x = 4 then request_rate r (xi_local_rate x)
           else if xi_local_kind x = 5 then Inr (request_device_id r)
           else if xi_local_kind x = 6 then Inr (request_port r)
           else Inr (request_tx_ready r (xi_symbols_valid x)))
          (\<lambda>(r, accepted). if \<not> accepted then Inl AssertionError else Inr (r, False)))"

definition ctl_configure :: "basic \<Rightarrow> ctl_input \<Rightarrow> py_error + basic" where
  "ctl_configure r x =
     set_tx_limit
       (r\<lparr>bc_device_id := (if xi_device_valid x then Some (xi_device_id x) else None),
          bc_device_type := xi_device_type x,
          bc_port := (if xi_port_valid x then Some (xi_port x) else None),
          bc_folding := xi_folding x, bc_ready_advertised := xi_ready_advertised x\<rparr>)
       (if xi_limit_valid x then xi_limit x else 65535)"

definition ctl_apply :: "control \<Rightarrow> ctl_input \<Rightarrow> py_error + control \<times> ctl_signals" where
  "ctl_apply c x =
     (if xi_reset x then
        Inr (c\<lparr>ct_reference := basic_reset (ct_reference c), ct_waiting := False, ct_fault := False\<rparr>, ctl_no_signals)
      else
        let now = ct_edge c * ct_period c in
        rbind (ctl_configure (ct_reference c) x) (\<lambda>r0.
        rbind (advance_to r0 now) (\<lambda>r.
        let offered = ctl_offered r x;
            ready = ctl_local_ready r x;
            bad_take = ctl_bad_take (xi_take x) offered;
            word = xi_rx_word x;
            early = (xi_rx_valid x \<and> fld word 12 1 \<noteq> 0 \<and> fld word 6 3 \<noteq> 0)
        in
        rbind (ctl_receive early r word now None) (\<lambda>(r1, result1).
        rbind (ctl_commit (xi_take x \<noteq> 0 \<and> \<not> bad_take) r1 (xi_take x) now offered
                 (ct_waiting c \<and> result1 \<noteq> Some Ack_Result)) (\<lambda>(r2, reply_done, local_commit, waiting2).
        rbind (ctl_receive (xi_rx_valid x \<and> \<not> early) r2 word now result1) (\<lambda>(r3, result).
        let start = (xi_local_valid x \<and> ready) in
        rbind (ctl_start start r3 x waiting2) (\<lambda>(r4, waiting4).
        let error = (bad_take \<or> (xi_local_valid x \<and> xi_local_kind x \<notin> set basic_kinds) \<or>
                     result \<in> {Some Unmatched_Ack, Some Remote_Overlap})
        in Inr (c\<lparr>ct_reference := r4, ct_waiting := waiting4, ct_fault := ct_fault c \<or> error\<rparr>,
             \<lparr>cs_local_ready = ready, cs_local_pending = (bc_local r \<noteq> None), cs_local_waiting = ct_waiting c,
              cs_remote_pending = (bc_remote r \<noteq> None), cs_source_pending = ctl_pending offered,
              cs_source_words = ctl_words offered, cs_local_start = start, cs_local_commit = local_commit,
              cs_local_done = (result1 = Some Ack_Result), cs_reply_done = reply_done,
              cs_rx_request = (result = Some Request_Result), cs_rx_noop = (result = Some Noop),
              cs_rx_unhandled = (result = Some Unhandled), cs_rx_unsupported = (result = Some Unsupported),
              cs_rx_unmatched_ack = (result = Some Unmatched_Ack), cs_rx_overlap = (result = Some Remote_Overlap),
              cs_peer_rate_valid = (bc_peer_rate r \<noteq> None),
              cs_peer_rate_value = (case bc_peer_rate r of None \<Rightarrow> 0 | Some v \<Rightarrow> v),
              cs_peer_device_valid = (bc_peer_device r \<noteq> None),
              cs_peer_device_type = (case bc_peer_device r of None \<Rightarrow> 0 | Some p \<Rightarrow> fst p),
              cs_peer_device_id = (case bc_peer_device r of None \<Rightarrow> 0 | Some p \<Rightarrow> snd p),
              cs_peer_port_valid = (bc_peer_port r \<noteq> None),
              cs_peer_port = (case bc_peer_port r of None \<Rightarrow> 0 | Some p \<Rightarrow> p),
              cs_peer_rate_update = (result = Some Request_Result \<and> fld word 6 3 = 4),
              cs_deadline_miss = (bc_deadline_misses r \<noteq> bc_deadline_misses r0),
              cs_deadline_fault = (bc_deadline_misses r0 > 0), cs_protocol_fault = ct_fault c,
              cs_error = error\<rparr>))))))))"

definition ctl_tick :: "control \<Rightarrow> ctl_input \<Rightarrow> py_error + control \<times> ctl_signals" where
  "ctl_tick c x =
     rbind (ctl_check x) (\<lambda>_. rbind (ctl_apply c x) (\<lambda>(c', out). Inr (c'\<lparr>ct_edge := ct_edge c' + 1\<rparr>, out)))"

definition ctl_observe :: "control \<Rightarrow> ctl_input \<Rightarrow> py_error + ctl_signals" where
  "ctl_observe c x = rbind (ctl_check x) (\<lambda>_. rbind (ctl_apply c x) (\<lambda>(c', out). Inr out))"

subsection \<open>No assertion fails\<close>

definition ctl_ok :: "control \<Rightarrow> bool" where
  "ctl_ok c \<longleftrightarrow> basic_ok (ct_reference c) \<and> 1 \<le> ct_period c \<and> bc_now (ct_reference c) \<le> ct_edge c * ct_period c"

lemma ctl_new_ok: "ctl_new p = Inr c \<Longrightarrow> ctl_ok c"
  by (auto simp: ctl_new_def ctl_ok_def basic_new_ok basic_new_def basic_reset_def basic_ok_def split: if_splits)

text \<open>An accepted take selects an offered kind.\<close>

lemma bit_and_self: "tk AND p = (tk :: int) \<Longrightarrow> bit tk i \<Longrightarrow> bit p i"
  by (metis bit_and_iff)

lemma four_bits:
  assumes "bit (of_bool p0 + 2 * of_bool p1 + 4 * of_bool p2 + 8 * of_bool p3 :: int) i" and "i < 4"
  shows "[p0, p1, p2, p3] ! i"
proof -
  consider "i = 0" | "i = 1" | "i = 2" | "i = 3" using assms(2) by linarith
  then show ?thesis
    by cases (use assms(1) in \<open>cases p0; cases p1; cases p2; cases p3; simp add: bit_iff_odd\<close>)+
qed

lemma ctl_pending_bit:
  assumes "i < 4" and "bit (ctl_pending offered) i"
  shows "map_of offered (basic_kinds ! i) \<noteq> None"
proof -
  let ?p = "\<lambda>j. map_of offered (basic_kinds ! j) \<noteq> None"
  have "[0..<4] = [0, 1, 2, 3 :: nat]" by (simp add: upt_rec)
  then have "ctl_pending offered = of_bool (?p 0) + 2 * of_bool (?p 1) + 4 * of_bool (?p 2) + 8 * of_bool (?p 3)"
    unfolding ctl_pending_def by (simp add: push_bit_eq_mult of_bool_def)
  with assms have "[?p 0, ?p 1, ?p 2, ?p 3] ! i" by (intro four_bits) simp_all
  moreover have "[?p 0, ?p 1, ?p 2, ?p 3] = map ?p [0, 1, 2, 3]" by simp
  moreover have "map ?p [0, 1, 2, 3] ! i = ?p i"
  proof -
    have "[0, 1, 2, 3] ! i = i" using assms(1) by (simp add: nth_Cons' )
    then show ?thesis using assms(1) by (subst nth_map) simp_all
  qed
  ultimately show ?thesis by simp
qed

lemma take_selects:
  assumes "tk \<noteq> 0" and "\<not> ctl_bad_take tk offered"
  obtains i where "i < 4" "last (take_bits tk) = i" "map_of offered (basic_kinds ! i) \<noteq> None"
proof -
  have "length (take_bits tk) = 1" "tk AND ctl_pending offered = tk"
    using assms by (auto simp: ctl_bad_take_def)
  then obtain i where i: "take_bits tk = [i]" by (cases "take_bits tk") auto
  then have "i \<in> set (take_bits tk)" by simp
  then have "i < 4" "bit tk i" by (simp_all add: take_bits_def)
  then have "map_of offered (basic_kinds ! i) \<noteq> None"
    using ctl_pending_bit bit_and_self [OF \<open>tk AND _ = tk\<close>] by blast
  with \<open>i < 4\<close> i show thesis by (intro that [of i]) simp_all
qed

lemma basic_offers_head:
  "map_of (basic_offers r) k = Some w \<Longrightarrow>
     bc_queues r k \<noteq> [] \<and> basic_eligible r (hd (bc_queues r k)) \<and> w = fr_word (basic_frame r (hd (bc_queues r k))) \<and>
     k \<in> set basic_kinds"
  by (drule map_of_SomeD) (auto simp: basic_offers_def)

lemma ctl_offered_head:
  assumes "map_of (ctl_offered r x) k = Some w"
  shows "map_of (basic_offers r) k = Some w"
  using assms by (auto simp: ctl_offered_def Let_def delete_conv' split: if_splits)

text \<open>Each part of an edge succeeds and keeps ownership; the edge therefore does.\<close>

lemma ctl_configure_ok:
  assumes "basic_ok r" and "ctl_check x = Inr ()"
  obtains r0 where "ctl_configure r x = Inr r0" "basic_ok r0" "bc_now r0 = bc_now r"
    "bc_folding r0 = xi_folding x" "bc_ready_advertised r0 = xi_ready_advertised x"
proof -
  let ?r = "r\<lparr>bc_device_id := (if xi_device_valid x then Some (xi_device_id x) else None),
          bc_device_type := xi_device_type x,
          bc_port := (if xi_port_valid x then Some (xi_port x) else None),
          bc_folding := xi_folding x, bc_ready_advertised := xi_ready_advertised x\<rparr>"
  let ?l = "if xi_limit_valid x then xi_limit x else 65535"
  have "fits 16 ?l" using assms(2) by (simp add: ctl_check_def) (simp add: fits_def)
  then have "ctl_configure r x = Inr (?r\<lparr>bc_tx_limit := Some ?l\<rparr>)"
    by (simp add: ctl_configure_def set_tx_limit_def check_uint_def)
  moreover have "basic_ok (?r\<lparr>bc_tx_limit := Some ?l\<rparr>)"
    by (rule same_ownership_ok [OF assms(1)]) (simp add: same_ownership_def)
  ultimately show thesis by (rule that) simp_all
qed

lemma ctl_receive_ok:
  assumes "basic_ok r" and "fits 32 w" and "bc_now r \<le> t"
  obtains s res where "ctl_receive e r w t result = Inr (s, res)" "basic_ok s" "bc_now s \<le> t"
    "bc_local r = None \<Longrightarrow> bc_local s = None" "fld w 12 1 \<noteq> 0 \<or> \<not> e \<Longrightarrow> same_queues r s"
    "bc_folding s = bc_folding r" "bc_ready_advertised s = bc_ready_advertised r"
proof (cases e)
  case False
  show thesis by (rule that [of r result]) (use assms False in \<open>simp_all add: ctl_receive_def same_queues_def\<close>)
next
  case True
  obtain s res where x: "basic_receive r w t = Inr (s, res)" "basic_ok s"
    "fld w 12 1 \<noteq> 0 \<Longrightarrow> same_queues r s \<and> res \<noteq> Request_Result" "bc_now s = t"
    "bc_local s = (if res = Ack_Result then None else bc_local r)"
    "bc_folding s = bc_folding r" "bc_ready_advertised s = bc_ready_advertised r"
    by (rule basic_receive_ok [OF assms]) (rule that; assumption)
  show thesis by (rule that [of s "Some res"]) (use x True in \<open>auto simp: ctl_receive_def\<close>)
qed

lemma ctl_commit_ok:
  assumes "basic_ok r1" and "bc_now r1 \<le> t" and "same_queues r r1"
  obtains r2 rd lc w where
    "ctl_commit (tk \<noteq> 0 \<and> \<not> ctl_bad_take tk (ctl_offered r x)) r1 tk t (ctl_offered r x) wt = Inr (r2, rd, lc, w)"
    "basic_ok r2" "bc_now r2 \<le> t" "bc_local r2 = bc_local r1" "bc_folding r2 = bc_folding r1"
    "bc_ready_advertised r2 = bc_ready_advertised r1"
proof (cases "tk \<noteq> 0 \<and> \<not> ctl_bad_take tk (ctl_offered r x)")
  case False
  show thesis by (rule that [of r1 False False wt]) (use assms False in \<open>auto simp: ctl_commit_def\<close>)
next
  case True
  then obtain i where i: "i < 4" "last (take_bits tk) = i" "map_of (ctl_offered r x) (basic_kinds ! i) \<noteq> None"
    using take_selects by metis
  let ?k = "basic_kinds ! i"
  from i(3) obtain w where w: "map_of (ctl_offered r x) ?k = Some w" by auto
  note head = basic_offers_head [OF ctl_offered_head [OF w]]
  have k: "?k \<in> set basic_kinds" using head by simp
  obtain s v where c: "basic_commit r1 ?k t = Inr (s, v)" "basic_ok s" "bc_now s = t"
    "v = (if bc_queues r1 ?k \<noteq> [] \<and> basic_eligible r1 (hd (bc_queues r1 ?k))
          then Some (fr_word (basic_frame r1 (hd (bc_queues r1 ?k)))) else None)"
    "bc_local s = bc_local r1" "bc_folding s = bc_folding r1" "bc_ready_advertised s = bc_ready_advertised r1"
    by (rule basic_commit_ok [OF assms(1) k assms(2)]) (rule that; assumption)
  have "v = Some w"
    using c(4) head same_queues_eligible [OF assms(3)] assms(3) by (simp add: same_queues_def)
  then have "ctl_commit True r1 tk t (ctl_offered r x) wt =
      (if fld w 12 1 \<noteq> 0 then Inr (s, True, False, wt) else Inr (s, False, True, True))"
    using c(1) w by (simp add: ctl_commit_def i(2))
  then show thesis
    using True c(2,3,5,6,7) that by (cases "fld w 12 1 = 0") auto
qed

lemma ctl_start_ok:
  assumes "basic_ok r" and "st \<Longrightarrow> bc_local r = None \<and> xi_local_kind x \<in> set basic_kinds \<and>
      (xi_local_kind x \<noteq> 1 \<or> bc_folding r \<and> bc_ready_advertised r \<and> xi_symbols_valid x)"
    and "fits 16 (xi_local_rate x)"
  obtains s w where "ctl_start st r x wt = Inr (s, w)" "basic_ok s" "bc_now s = bc_now r"
proof (cases st)
  case False
  show thesis by (rule that) (use assms False in \<open>auto simp: ctl_start_def\<close>)
next
  case True
  note a = assms(2) [OF True]
  have loc: "bc_local r = None" using a by simp
  have now: "local_request r k w = (s, ok) \<Longrightarrow> bc_now s = bc_now r" for k w s ok
    by (auto simp: local_request_def Let_def split: if_splits)
  have kinds: "xi_local_kind x = 1 \<or> xi_local_kind x = 4 \<or> xi_local_kind x = 5 \<or> xi_local_kind x = 6"
    using a by (auto simp: basic_kinds_def)
  define word where "word = (if xi_local_kind x = 4 then push_bit 16 (xi_local_rate x) OR 0x100
    else if xi_local_kind x = 1 then 0x40 else identity_word r (xi_local_kind x) False)"
  have word: "fld word 12 1 = 0" "fld word 6 3 = xi_local_kind x"
    using kinds rate_word ready_word identity_word_bit [of _ r False] identity_word_kind [of _ r False]
    by (auto simp: word_def)
  obtain s ok where l: "local_request r (xi_local_kind x) word = (s, ok)" by force
  note new = new_local_ok [OF assms(1) loc _ word l]
  have k: "xi_local_kind x \<in> set basic_kinds" using a by simp
  have "(if xi_local_kind x = 4 then request_rate r (xi_local_rate x)
           else if xi_local_kind x = 5 then Inr (request_device_id r)
           else if xi_local_kind x = 6 then Inr (request_port r)
           else Inr (request_tx_ready r (xi_symbols_valid x))) = Inr (s, ok)"
    using kinds a l assms(3)
    by (auto simp: word_def request_rate_def request_device_id_def request_port_def request_tx_ready_def check_uint_def)
  then have "ctl_start st r x wt = Inr (s, False)" using new(1) [OF k] True by (simp add: ctl_start_def)
  then show thesis by (rule that) (use new(2) [OF k] now [OF l] in auto)
qed

lemma ctl_tick_ok:
  assumes "ctl_ok c" and "ctl_check x = Inr ()"
  shows "\<exists>c' out. ctl_tick c x = Inr (c', out) \<and> ctl_ok c'"
proof (cases "xi_reset x")
  case True
  have "0 \<le> ct_period c" using assms(1) by (simp add: ctl_ok_def)
  then show ?thesis
    using assms True by (auto simp: ctl_tick_def ctl_apply_def ctl_ok_def basic_reset_ok algebra_simps)
      (simp_all add: basic_reset_def)
next
  case False
  let ?t = "ct_edge c * ct_period c"
  have ok: "basic_ok (ct_reference c)" "bc_now (ct_reference c) \<le> ?t" "1 \<le> ct_period c"
    using assms(1) by (simp_all add: ctl_ok_def)
  have w: "fits 32 (xi_rx_word x)" "fits 16 (xi_local_rate x)" using assms(2) by (simp_all add: ctl_check_def)
  from ctl_configure_ok [OF ok(1) assms(2)] obtain r0 where r0: "ctl_configure (ct_reference c) x = Inr r0"
    "basic_ok r0" "bc_now r0 = bc_now (ct_reference c)" "bc_folding r0 = xi_folding x"
    "bc_ready_advertised r0 = xi_ready_advertised x" .
  have now0: "bc_now r0 \<le> ?t" using r0(3) ok(2) by simp
  obtain r where r: "advance_to r0 ?t = Inr r" "basic_ok r" "bc_now r = ?t" "bc_local r = bc_local r0"
    "bc_folding r = bc_folding r0" "bc_ready_advertised r = bc_ready_advertised r0"
    by (rule advance_to_ok [OF r0(2) now0]) (rule that; assumption)
  let ?early = "xi_rx_valid x \<and> fld (xi_rx_word x) 12 1 \<noteq> 0 \<and> fld (xi_rx_word x) 6 3 \<noteq> 0"
  have now: "bc_now r \<le> ?t" using r(3) by simp
  obtain r1 q1 where r1: "ctl_receive ?early r (xi_rx_word x) ?t None = Inr (r1, q1)" "basic_ok r1" "bc_now r1 \<le> ?t"
    "bc_local r = None \<Longrightarrow> bc_local r1 = None"
    "fld (xi_rx_word x) 12 1 \<noteq> 0 \<or> \<not> ?early \<Longrightarrow> same_queues r r1"
    "bc_folding r1 = bc_folding r" "bc_ready_advertised r1 = bc_ready_advertised r"
    by (rule ctl_receive_ok [OF r(2) w(1) now]) (rule that; assumption)
  have sq: "same_queues r r1" using r1(5) by blast
  obtain r2 rd lc w2 where r2: "ctl_commit (xi_take x \<noteq> 0 \<and> \<not> ctl_bad_take (xi_take x) (ctl_offered r x)) r1
      (xi_take x) ?t (ctl_offered r x) (ct_waiting c \<and> q1 \<noteq> Some Ack_Result) = Inr (r2, rd, lc, w2)"
    "basic_ok r2" "bc_now r2 \<le> ?t" "bc_local r2 = bc_local r1" "bc_folding r2 = bc_folding r1"
    "bc_ready_advertised r2 = bc_ready_advertised r1"
    by (rule ctl_commit_ok [OF r1(2,3) sq]) (rule that; assumption)
  obtain r3 q3 where r3: "ctl_receive (xi_rx_valid x \<and> \<not> ?early) r2 (xi_rx_word x) ?t q1 = Inr (r3, q3)"
    "basic_ok r3" "bc_now r3 \<le> ?t" "bc_local r2 = None \<Longrightarrow> bc_local r3 = None"
    "bc_folding r3 = bc_folding r2" "bc_ready_advertised r3 = bc_ready_advertised r2"
    by (rule ctl_receive_ok [OF r2(2) w(1) r2(3)]) (rule that; assumption)
  have st: "bc_local r3 = None \<and> xi_local_kind x \<in> set basic_kinds \<and>
      (xi_local_kind x \<noteq> 1 \<or> bc_folding r3 \<and> bc_ready_advertised r3 \<and> xi_symbols_valid x)"
    if "xi_local_valid x \<and> ctl_local_ready r x"
    using that r0(4,5) r(4-6) r1(4,6,7) r2(4-6) r3(4-6) by (auto simp: ctl_local_ready_def)
  have start: "\<exists>r4 w4. ctl_start (xi_local_valid x \<and> ctl_local_ready r x) r3 x w2 = Inr (r4, w4) \<and>
      basic_ok r4 \<and> bc_now r4 = bc_now r3"
    using ctl_start_ok [OF r3(2) st w(2), of "xi_local_valid x \<and> ctl_local_ready r x" w2] by blast
  then obtain r4 w4 where r4: "ctl_start (xi_local_valid x \<and> ctl_local_ready r x) r3 x w2 = Inr (r4, w4)" "basic_ok r4"
    "bc_now r4 = bc_now r3" by blast
  have le: "bc_now r4 \<le> (ct_edge c + 1) * ct_period c"
    using r4(3) r3(3) ok(3) by (simp add: algebra_simps)
  obtain out e where "ctl_apply c x = Inr (c\<lparr>ct_reference := r4, ct_waiting := w4, ct_fault := e\<rparr>, out)"
    unfolding ctl_apply_def Let_def
    by (simp only: False if_False r0(1) r(1) rbind_Inr r1(1) case_prod_conv r2(1) r3(1) r4(1))
  then show ?thesis using assms(2) r4(2) le ok(3) by (simp add: ctl_tick_def ctl_ok_def)
qed

interpretation dl_control: total_machine ctl_tick ctl_ok "\<lambda>c x. ctl_check x = Inr ()"
proof unfold_locales
  fix c x c' out
  assume ok: "ctl_ok c" and t: "ctl_tick c x = Inr (c', out)"
  have "ctl_check x = Inr ()" using t by (auto simp: ctl_tick_def)
  from ctl_tick_ok [OF ok this] t show "ctl_ok c'" by auto
next
  fix c x
  assume "ctl_ok c" "ctl_check x = Inr ()"
  from ctl_tick_ok [OF this] show "\<exists>c' out. ctl_tick c x = Inr (c', out)" by blast
qed

end
