(* ===== verification/Props_Dl.thy ===== *)
theory Props_Dl
  imports Dl_Crc Dl_Scheduler Dl_Service Dl_Control
begin

section \<open>Properties of the data link\<close>

text \<open>
  Properties of the replay link, the CRC, the message arbiter and the basic requests, each with its witness.
\<close>

text \<open>C3: Two freshly created ends that exchange error-free flits stay in step for ever: no send or
  receive raises on nondecreasing codeword groups, and in each direction the payloads delivered are
  exactly the payloads taken, one for one and in order.\<close>

theorem link_delivers:
  assumes "sched_new ca la = Inr a" and "sched_new cb lb = Inr b"
    and "groups_from None (map (fst \<circ> fst) is)" and "groups_from None (map (fst \<circ> snd) is)"
  shows "\<exists>t outs. run link_step (a, b) is = Inr (t, outs) \<and>
     map (rf_payload \<circ> snd \<circ> fst) outs = map2 (\<lambda>i out. taken_payload (snd (fst i)) (fst (fst out))) is outs \<and>
     map (rf_payload \<circ> snd \<circ> snd) outs = map2 (\<lambda>i out. taken_payload (snd (snd i)) (fst (snd out))) is outs"
proof -
  note new = sched_new_in_step [OF assms(1,2)]
  have "groups_from (sc_flit_group a) (map (fst \<circ> fst) is)" "groups_from (sc_flit_group b) (map (fst \<circ> snd) is)"
    using assms(3,4) by (simp_all only: new(2,3))
  from link_run_clean [OF new(1) this] show ?thesis by blast
qed

definition demo_end :: "string sched" where
  "demo_end = projr (sched_new 4 50)"

lemma demo_end: "sched_new 4 50 = Inr demo_end"
  unfolding demo_end_def by (rule projr_ok) code_simp

theorem link_delivers_witness:
  "\<exists>t outs. run link_step (demo_end, demo_end) [((0, Some ''a''), (0, None)), ((1, None), (2, Some ''b''))] =
     Inr (t, outs)"
proof -
  have "groups_from None (map (fst \<circ> fst) [((0, Some ''a''), (0, None)), ((1, None), (2, Some ''b''))])"
    "groups_from None (map (fst \<circ> snd) [((0, Some ''a''), (0, None)), ((1, None), (2, Some ''b''))])"
    by simp_all
  from link_delivers [OF demo_end demo_end this] show ?thesis by blast
qed

text \<open>C12: Recovery: when the transmitter accepts a replay request for the sequence its peer
  expects next, then over as many error-free flits as there are scheduled entries the peer delivers
  exactly the unacknowledged payloads from the requested one to the last one sent, in order, and ends
  aligned with the transmitter, whatever doubts (ambiguity, replay) it was in.\<close>

theorem replay_recovers:
  assumes "sched_ok a" and "sched_ok b"
    and "decode_header w = Inr h" and "rh_ack_request h = Some (next_sequence (rx_last (sc_rx b)))"
    and "tx_receive (sc_tx a) w c = Inr (tx, r)" and "cr_started r"
    and "groups_from (sc_flit_group a) (map fst gps)" and "length gps = length (tx_scheduled tx)"
  shows "\<exists>a' b' rs i. carry_run (a\<lparr>sc_tx := tx\<rparr>) b gps = Inr (a', b', rs) \<and>
     i < length (tx_buffer (sc_tx a)) \<and>
     re_sequence (tx_buffer (sc_tx a) ! i) = next_sequence (rx_last (sc_rx b)) \<and>
     map rf_payload rs = map (Some \<circ> re_payload) (drop i (tx_buffer (sc_tx a))) \<and>
     rx_last (sc_rx b') = tx_last (sc_tx a) \<and> \<not> rx_ambiguous (sc_rx b') \<and> \<not> rx_replay (sc_rx b') \<and>
     \<not> tx_replay (sc_tx a')"
proof -
  note req = request_aligns [OF sched_okD(1) [OF assms(1)] sched_okD(2) [OF assms(2)] assms(3-6)]
  have ok: "sched_ok (a\<lparr>sc_tx := tx\<rparr>)" using assms(1) req(2) by (simp add: sched_ok_def)
  have g: "groups_from (sc_flit_group (a\<lparr>sc_tx := tx\<rparr>)) (map fst gps)"
    "length gps = length (tx_scheduled (sc_tx (a\<lparr>sc_tx := tx\<rparr>)))" using assms(7,8) by simp_all
  have al: "aligned (sc_tx (a\<lparr>sc_tx := tx\<rparr>)) (sc_rx b)" using req(1) by simp
  from carry_run_replay [OF ok assms(2) al g] obtain a' b' rs where
    run: "carry_run (a\<lparr>sc_tx := tx\<rparr>) b gps = Inr (a', b', rs)" and ok': "sched_ok a'"
    and pay: "map rf_payload rs = map (Some \<circ> re_payload) (tx_scheduled tx)"
    and idle: "tx_scheduled (sc_tx a') = []" "tx_last (sc_tx a') = tx_last tx"
    and al': "aligned (sc_tx a') (sc_rx b')" by auto
  note tx' = sched_okD(1) [OF ok']
  have "rx_last (sc_rx b') = tx_last (sc_tx a) \<and> \<not> rx_ambiguous (sc_rx b') \<and> \<not> rx_replay (sc_rx b')"
    using al' aligned_idle [OF tx' idle(1)] idle(2) req(4) by simp
  moreover have "\<not> tx_replay (sc_tx a')" using tx_okD(8) [OF tx'] idle(1) by simp
  ultimately show ?thesis using run pay req(3) by auto
qed

text \<open>The peer lost two payloads: its next expected sequence is 1 when the request arrives.\<close>

definition demo_lossy :: "string sched" where
  "demo_lossy = final sched_step demo_end [Send 0 (Some ''a''), Send 0 (Some ''b'')]"

definition demo_request :: int where
  "demo_request = projr (encode_command 7 1 False True)"

definition demo_replaying :: "string tx" where
  "demo_replaying = fst (projr (tx_receive (sc_tx demo_lossy) demo_request True))"

theorem replay_recovers_witness:
  "\<exists>a' b' rs. carry_run (demo_lossy\<lparr>sc_tx := demo_replaying\<rparr>) demo_end [(1, None), (1, None)] = Inr (a', b', rs) \<and>
     map rf_payload rs = [Some ''a'', Some ''b'']"
proof -
  have ok: "sched_ok demo_lossy"
    unfolding demo_lossy_def
    by (rule dl_scheduler.reach_inv [OF reach_final sched_new_ok [OF demo_end]]) code_simp
  have r: "tx_receive (sc_tx demo_lossy) demo_request True =
      Inr (demo_replaying, snd (projr (tx_receive (sc_tx demo_lossy) demo_request True)))"
    unfolding demo_replaying_def by (subst projr_ok, code_simp) simp
  have h: "decode_header demo_request = Inr (projr (decode_header demo_request))"
    by (rule projr_ok) code_simp
  have "\<exists>a' b' rs i. carry_run (demo_lossy\<lparr>sc_tx := demo_replaying\<rparr>) demo_end [(1, None), (1, None)] = Inr (a', b', rs) \<and>
     i < length (tx_buffer (sc_tx demo_lossy)) \<and>
     re_sequence (tx_buffer (sc_tx demo_lossy) ! i) = next_sequence (rx_last (sc_rx demo_end)) \<and>
     map rf_payload rs = map (Some \<circ> re_payload) (drop i (tx_buffer (sc_tx demo_lossy))) \<and>
     rx_last (sc_rx b') = tx_last (sc_tx demo_lossy) \<and> \<not> rx_ambiguous (sc_rx b') \<and> \<not> rx_replay (sc_rx b') \<and>
     \<not> tx_replay (sc_tx a')"
  proof (rule replay_recovers [OF ok sched_new_ok [OF demo_end] h _ r])
    have "sc_flit_group demo_lossy = Some 0" by code_simp
    then show "groups_from (sc_flit_group demo_lossy) (map fst [(1, None), (1, None :: string option)])" by simp
  qed code_simp+
  then obtain a' b' rs i where x: "carry_run (demo_lossy\<lparr>sc_tx := demo_replaying\<rparr>) demo_end [(1, None), (1, None)] = Inr (a', b', rs)"
    "i < length (tx_buffer (sc_tx demo_lossy))"
    "re_sequence (tx_buffer (sc_tx demo_lossy) ! i) = next_sequence (rx_last (sc_rx demo_end))"
    "map rf_payload rs = map (Some \<circ> re_payload) (drop i (tx_buffer (sc_tx demo_lossy)))" by blast
  have b: "tx_buffer (sc_tx demo_lossy) = [\<lparr>re_sequence = 1, re_payload = ''a''\<rparr>, \<lparr>re_sequence = 2, re_payload = ''b''\<rparr>]"
    "next_sequence (rx_last (sc_rx demo_end)) = 1" by code_simp+
  have "i = 0" using x(2,3) by (auto simp: b less_Suc_eq)
  then have "map rf_payload rs = [Some ''a'', Some ''b'']" using x(4) by (simp add: b)
  with x(1) show ?thesis by (intro exI conjI)
qed

text \<open>C13: The replay transmitter answers every event on decodable words, so the search for a
  requested entry never runs out; over any run of a new transmitter without a further reset
  the entries committed are, in order, the entries
  released by acknowledgements followed by the buffer, which is a run of at most 255 consecutive
  sequence numbers after the last acknowledgement and stays within the capacity.\<close>

theorem transmitter_keeps_unacknowledged:
  assumes "tx_new capacity = Inr s0" and "list_all (tx_word_ok s0) ops"
  shows "\<exists>s outs. run tx_step s0 ops = Inr (s, outs) \<and>
     concat (map2 tx_taken ops outs) = concat (map tx_released outs) @ tx_buffer s \<and>
     sequences (tx_buffer s) = chain (tx_ack s) (length (tx_buffer s)) \<and>
     tx_last s = (next_sequence ^^ length (tx_buffer s)) (tx_ack s) \<and> length (tx_buffer s) \<le> 255 \<and>
     resident_count s \<le> tx_capacity s"
proof -
  have ok: "tx_ok s0" by (rule tx_new_ok [OF assms(1)])
  have w: "tx_word_ok s i" if "i \<in> set ops" for s :: "'a tx" and i
    using assms(2) that by (cases i) (auto simp: list_all_iff)
  obtain s outs where r: "run tx_step s0 ops = Inr (s, outs)" "tx_ok s"
    using dl_transmitter_total.run_total [OF ok, of ops] w by blast
  have "tx_buffer s0 = []" using assms(1) by (auto simp: tx_new_def split: if_splits)
  with dl_transmitter.flow_run [OF r(1) ok] r tx_okD(3-5,11) [OF r(2)] show ?thesis by auto
qed

definition demo_tx_ops :: "string tx_op list" where
  "demo_tx_ops = [Op_Enqueue ''a'', Op_Enqueue ''b'', Op_Receive demo_request True, Op_Next, Op_Discard]"

theorem transmitter_keeps_unacknowledged_witness:
  "\<exists>s outs. run tx_step (projr (tx_new 2)) demo_tx_ops = Inr (s, outs)"
proof -
  have "tx_new 2 = Inr (projr (tx_new 2 :: py_error + string tx))" by (rule projr_ok) code_simp
  from transmitter_keeps_unacknowledged [OF this, of demo_tx_ops] show ?thesis
    using TrueI by (auto simp: demo_tx_ops_def demo_request_def encode_command_def check_integer_def Let_def)
qed

text \<open>Whatever words, CRC decisions and storage discards arrive, the sequence numbers of the
  payloads the replay receiver delivers are consecutive, starting after 511, and its last sequence is
  the last delivered one.\<close>

theorem receiver_delivers_consecutively:
  assumes "rx_new limit = Inr s0" and "run rx_event s0 es = Inr (s, outs)"
  shows "delivered outs = chain 511 (length (delivered outs)) \<and>
     rx_last s = (next_sequence ^^ length (delivered outs)) 511"
proof -
  from rx_new_wf [OF assms(1)] have s0: "rx_wf s0" "rx_last s0 = 511" by auto
  from rx_run_delivered [OF assms(2) s0(1)] show ?thesis unfolding chain_def s0(2) by simp
qed

definition demo_words :: "(int \<times> bool) option list" where
  "demo_words = [Some (projr (encode_explicit 1 True False), True), None,
     Some (projr (encode_command 2 511 True False), True)]"

theorem receiver_delivers_consecutively_witness:
  "delivered (outputs rx_event (projr (rx_new 50)) demo_words) =
     chain 511 (length (delivered (outputs rx_event (projr (rx_new 50)) demo_words)))"
  by (rule receiver_delivers_consecutively [THEN conjunct1, OF projr_ok run_final]) code_simp+

text \<open>Among any events of one end in which no header sent is explicit there are at most six
  sends: a peer that cannot trust short headers sees an explicit one at least every seventh flit.\<close>

theorem explicit_every_seventh:
  assumes "sched_new capacity limit = Inr s0" and "reach sched_step s0 s"
    and "run sched_step s ops = Inr (t, outs)" and "list_all short_send outs"
  shows "length (filter is_sent outs) \<le> 6"
  by (rule short_sends_bound [OF assms(3) dl_scheduler.reach_inv [OF assms(2) sched_new_ok [OF assms(1)]] assms(4)])

theorem explicit_every_seventh_witness:
  "length (filter is_sent (outputs sched_step demo_end (replicate 6 (Send 0 (Some ''x''))))) \<le> 6"
  by (rule explicit_every_seventh [OF demo_end reach_start run_final]) code_simp+

text \<open>C33: The polynomial CRC detects every error burst of at most 32 bits in the covered bits of a
  flit.\<close>

theorem crc_detects_bursts:
  assumes "length f = 640" and "length g = 640"
    and "covered_bits f = pre @ w @ post" and "covered_bits g = pre @ w' @ post"
    and "length w = length w'" and "length w \<le> 32" and "w \<noteq> w'"
  shows "dl_crc_polynomial f \<noteq> dl_crc_polynomial g"
  by (rule dl_crc_burst [OF assms])

theorem crc_detects_bursts_witness:
  "dl_crc_polynomial (0 # replicate 639 0) \<noteq> dl_crc_polynomial (5 # replicate 639 0)"
  by (rule crc_detects_bursts [where pre = "[]" and w = "octet_bits 0" and w' = "octet_bits 5"
        and post = "concat (map octet_bits (replicate 635 0))"])
    (simp_all add: covered_bits_def take_replicate, code_simp+)

text \<open>Both header formats round trip: a legal header, explicit or command, is encoded without an
  error and decodes to itself.\<close>

theorem header_round_trip:
  assumes "header_legal h"
  shows "\<exists>w. header_encode h = Inr w \<and> decode_header w = Inr h"
  using header.enc_ok [OF assms] header.dec_enc [OF assms] by blast

theorem header_round_trip_witness:
  "\<exists>w. encode_command 5 300 True True = Inr w \<and>
     decode_header w = Inr \<lparr>rh_op = 3, rh_payload = True, rh_sequence = None, rh_low = Some 5,
       rh_ack_request = Some 300, rh_errors = []\<rparr>"
  using header_round_trip [of "\<lparr>rh_op = 3, rh_payload = True, rh_sequence = None, rh_low = Some 5,
       rh_ack_request = Some 300, rh_errors = []\<rparr>"]
  by (simp add: header_legal_def header_encode_def)

text \<open>C7: The arbiter meets the service bound: from an idle state whose cursors stand for a history, a
  waiting message of any source completes within \<open>service_bound\<close> opportunities, whatever legal
  offers and gaps occur meanwhile, and no event raises.\<close>

theorem arbiter_meets_service_bound:
  assumes "arb_init depth = Inr s0" and "reach arb_step s0 s" and "ar_active s = None"
    and "history_of s h" and "service_bound_of h t = Inr bound" and "waiting s t m"
    and "list_all legal_op ops"
    and "sb_opportunities bound \<le> int (length (filter opportunity ops))"
  shows "\<exists>s' outs. run arb_step s ops = Inr (s', outs) \<and> list_ex (completes t m) outs"
proof -
  have ok: "arb_ok s" by (rule dl_arbiter.reach_inv [OF assms(2) arb_init_ok [OF assms(1)]])
  have t: "0 \<le> t" "t \<le> 10" and b: "bound = service h t"
    using assms(5) by (auto simp: service_bound_of_def check_target_def)
  have "opportunities_left s h t \<le> int (length (filter opportunity ops))"
    using assms(3,8) by (simp add: opportunities_left_def b)
  from arb_run_completes [OF ok assms(4) t assms(6,7) this] show ?thesis .
qed

definition demo_arbiter :: arbiter where
  "demo_arbiter = projr (arb_init 2)"

theorem arbiter_meets_service_bound_witness:
  "\<exists>s' outs. run arb_step (final arb_step demo_arbiter [Offer (0, 0) [7] ''m''])
       [Offer (0, 1) [8] ''n'', Tick False, Tick True] = Inr (s', outs) \<and>
     list_ex (completes 0 \<lparr>ms_source = (0, 0), ms_words = [7], ms_tag = ''m''\<rparr>) outs"
proof (rule arbiter_meets_service_bound [where h = reset_history])
  have init: "arb_init 2 = Inr demo_arbiter" unfolding demo_arbiter_def by (rule projr_ok) code_simp
  show "arb_init 2 = Inr demo_arbiter" by (rule init)
  show "reach arb_step demo_arbiter (final arb_step demo_arbiter [Offer (0, 0) [7] ''m''])"
    by (rule reach_final) code_simp
  show "ar_active (final arb_step demo_arbiter [Offer (0, 0) [7] ''m'']) = None" by code_simp
  show "service_bound_of reset_history 0 = Inr \<lparr>sb_opportunities = 1, sb_steps =
    [\<lparr>ss_pending = 1, ss_source = 0, ss_words = 1, ss_after = (0, 0, 1, 3)\<rparr>]\<rparr>" by code_simp
  show "waiting (final arb_step demo_arbiter [Offer (0, 0) [7] ''m'']) 0
      \<lparr>ms_source = (0, 0), ms_words = [7], ms_tag = ''m''\<rparr>" by code_simp
  show "history_of (final arb_step demo_arbiter [Offer (0, 0) [7] ''m'']) reset_history" by code_simp
qed code_simp+

text \<open>Over any run of the arbiter the words served for a source are, in order, the words of its
  accepted messages up to those still queued, and the beats are contiguous: after a beat that is not
  the last of its message comes the next word of the same message.\<close>

theorem arbiter_order_and_contiguity:
  assumes "arb_init depth = Inr s0" and "run arb_step s0 ops = Inr (s, outs)"
  shows "concat (map2 (arb_taken q) ops outs) = concat (map (arb_given q) outs) @ arb_words q s \<and>
     (\<exists>e. rfold contiguous None (zip ops outs) = Inr e)"
proof -
  have ok: "arb_ok s0" by (rule arb_init_ok [OF assms(1)])
  have "arb_words q s0 = []" "arb_expects s0 None"
    using assms(1) by (auto simp: arb_init_def arb_words_def arb_expects_def split: if_splits)
  with dl_arbiter.flow_run [OF assms(2) ok] dl_arbiter_lock.run_watched [OF assms(2) ok] show ?thesis
    by (metis append_Nil)
qed

definition demo_arb_ops :: "arb_op list" where
  "demo_arb_ops = [Offer (1, 0) [10, 11] ''t'', Offer (0, 4) [20] ''u'', Tick True, Offer (1, 0) [12, 13] ''v'',
     Tick True, Tick True, Tick True]"

theorem arbiter_order_and_contiguity_witness:
  "concat (map2 (arb_taken (1, 0)) demo_arb_ops (outputs arb_step demo_arbiter demo_arb_ops)) =
     concat (map (arb_given (1, 0)) (outputs arb_step demo_arbiter demo_arb_ops)) @
     arb_words (1, 0) (final arb_step demo_arbiter demo_arb_ops)"
  by (rule arbiter_order_and_contiguity [THEN conjunct1, of 2])
    (unfold demo_arbiter_def, (rule projr_ok run_final; code_simp)+)

text \<open>The service bound is exact: its steps are a legal service trace that ends with the target and
  takes exactly that many opportunities, and no legal trace takes more.\<close>

theorem service_bound_exact:
  assumes "service_bound_of h t = Inr bound"
  shows "service_trace h t (sb_steps bound) \<and> sum_list (map ss_words (sb_steps bound)) = sb_opportunities bound \<and>
     (\<forall>xs. service_trace h t xs \<longrightarrow> sum_list (map ss_words xs) \<le> sb_opportunities bound)"
proof -
  have t: "0 \<le> t" "t \<le> 10" and b: "bound = service h t"
    using assms by (auto simp: service_bound_of_def check_target_def)
  from service_trace_attained [OF t, of h] service_trace_le [OF t] show ?thesis unfolding b by blast
qed

theorem service_bound_exact_witness:
  "service_trace (0, 0, 1, 3) 5 (sb_steps (projr (service_bound_of (0, 0, 1, 3) 5)))"
  by (rule service_bound_exact [THEN conjunct1, OF projr_ok]) code_simp

text \<open>C34: The search over arbitration histories ends and finds, for every legal history, a sequence of
  complete messages that leads to it from reset.\<close>

theorem every_history_is_reachable:
  assumes "check_history h = Inr u"
  shows "\<exists>p. reset_prefix h = Some (Inr p) \<and> foldl history_advance reset_history p = h"
  by (rule reset_prefix_correct) (use assms in \<open>simp add: check_history_legal\<close>)

theorem every_history_is_reachable_witness:
  "\<exists>p. reset_prefix (1, 3, 0, 2) = Some (Inr p)"
  using every_history_is_reachable [of "(1, 3, 0, 2)" "()"] by (auto simp: check_history_def)

text \<open>C29: Basic requests are owned exactly once. Over any run of a new controller without a further reset the kinds acknowledged to it,
  in order, are those of the local requests it accepted, up to the one still pending; and the replies it
  commits, in order, are those owed to the remote requests it received, up to the one still owed.\<close>

theorem basic_requests_answered_once:
  assumes "basic_new d ty p can_fold adv = Inr r0" and "run basic_step r0 ops = Inr (r, outs)"
  shows "concat (map2 asked_kind ops outs) = concat (map acked_kind outs) @ opt_list (local_kind r) \<and>
     concat (map2 owed_kind ops outs) = concat (map replied_kind outs) @ opt_list (remote_kind r) \<and>
     length (bc_queues r k) \<le> 2"
proof -
  have r0: "basic_ok r0" "local_kind r0 = None" "remote_kind r0 = None" using basic_new_ok [OF assms(1)] by simp_all
  have "basic_ok r" by (rule basic_local.run_inv [OF assms(2) r0(1)])
  with basic_local.flow_run [OF assms(2) r0(1)] basic_remote.flow_run [OF assms(2) r0(1)] basic_queue_bound
  show ?thesis by (simp add: r0(2,3))
qed

definition demo_basic_ops :: "basic_op list" where
  "demo_basic_ops = [Set_Limit 5, Req_Rate 7, Rx 0x140 10, Commit 4 20, Commit 5 30, Rx 0x1100 40]"

theorem basic_requests_answered_once_witness:
  "concat (map2 asked_kind demo_basic_ops (outputs basic_step (projr (basic_new None 0 None False False)) demo_basic_ops)) =
     concat (map acked_kind (outputs basic_step (projr (basic_new None 0 None False False)) demo_basic_ops)) @
     opt_list (local_kind (final basic_step (projr (basic_new None 0 None False False)) demo_basic_ops))"
  by (rule basic_requests_answered_once [THEN conjunct1, OF projr_ok run_final]) code_simp+

text \<open>The cycle adapter of the Basic controller answers every edge whose inputs fit their widths: time
  never goes backwards and neither of its two assertions can fail.\<close>

theorem basic_control_never_fails:
  assumes "ctl_new period = Inr c0" and "list_all (\<lambda>x. ctl_check x = Inr ()) xs"
  shows "\<exists>c outs. run ctl_tick c0 xs = Inr (c, outs)"
  using dl_control.run_total [OF ctl_new_ok [OF assms(1)], of xs] assms(2) by (auto simp: list_all_iff)

definition demo_ctl_input :: ctl_input where
  "demo_ctl_input = \<lparr>xi_reset = False, xi_local_valid = True, xi_local_kind = 5, xi_local_rate = 0,
     xi_device_valid = True, xi_device_id = 3, xi_device_type = 0, xi_port_valid = False, xi_port = 0,
     xi_folding = False, xi_ready_advertised = False, xi_symbols_valid = False, xi_limit_valid = True,
     xi_limit = 9, xi_rx_valid = True, xi_rx_word = 0x140, xi_take = 0\<rparr>"

theorem basic_control_never_fails_witness:
  "\<exists>c outs. run ctl_tick (projr (ctl_new 640)) [demo_ctl_input, demo_ctl_input\<lparr>xi_take := 4\<rparr>] = Inr (c, outs)"
  by (rule basic_control_never_fails [OF projr_ok]) code_simp+

end
