(* ===== verification/Uart_Credit.thy ===== *)
theory Uart_Credit
  imports Prelude
begin

section \<open>UART stream flow control\<close>

text \<open>
  Models \<open>simulator/UAlink2.0/model/ualink/uart_credit.py\<close>: whole-message payload storage with
  counters modulo 4096. The second half composes two ends with first-in first-out wires for transports
  and credit updates and shows that the credits are sound: the receiving end never overflows, the
  modulo arithmetic never confuses the transmitter, and the words read are the words written.
\<close>

record uart =
  ua_tx_depth :: int
  ua_rx_depth :: int
  ua_tx :: "int list"
  ua_rx :: "int list"
  ua_tx_counter :: int
  ua_rx_counter :: int
  ua_latest :: int
  ua_in_reset :: bool
  ua_enabled :: bool

definition unsigned :: "int \<Rightarrow> nat \<Rightarrow> py_error + unit" where
  "unsigned value bits = ensure (fits bits value)"

definition transport_new :: "int list \<Rightarrow> py_error + int list" where
  "transport_new payload =
     rbind (ensure (1 \<le> length payload \<and> length payload \<le> 32)) (\<lambda>_.
     rbind (ensure (\<forall>w \<in> set payload. fits 32 w)) (\<lambda>_. Inr payload))"

definition length_field :: "int list \<Rightarrow> int" where
  "length_field payload = int (length payload) - 1"

definition total_word_count :: "int list \<Rightarrow> int" where
  "total_word_count payload = int (length payload) + 1"

definition uart_reset :: "uart \<Rightarrow> uart" where
  "uart_reset u = u\<lparr>ua_tx := [], ua_rx := [], ua_tx_counter := 0, ua_rx_counter := 0, ua_latest := 0,
     ua_in_reset := True, ua_enabled := False\<rparr>"

definition uart_new :: "int \<Rightarrow> int \<Rightarrow> py_error + uart" where
  "uart_new tx_depth rx_depth =
     rbind (ensure (1 \<le> tx_depth \<and> tx_depth \<le> 4095 \<and> 1 \<le> rx_depth \<and> rx_depth \<le> 4095)) (\<lambda>_.
       Inr \<lparr>ua_tx_depth = tx_depth, ua_rx_depth = rx_depth, ua_tx = [], ua_rx = [], ua_tx_counter = 0,
            ua_rx_counter = 0, ua_latest = 0, ua_in_reset = True, ua_enabled = False\<rparr>)"

definition uart_release :: "uart \<Rightarrow> uart" where
  "uart_release u = (if ua_in_reset u then u\<lparr>ua_rx_counter := ua_rx_depth u, ua_in_reset := False\<rparr> else u)"

definition set_channel4_enabled :: "uart \<Rightarrow> bool \<Rightarrow> uart" where
  "set_channel4_enabled u enabled = u\<lparr>ua_enabled := enabled\<rparr>"

definition available_credits :: "uart \<Rightarrow> int" where
  "available_credits u = (ua_latest u - ua_tx_counter u) mod 4096"

definition uart_write :: "uart \<Rightarrow> int \<Rightarrow> py_error + uart \<times> bool" where
  "uart_write u word =
     rbind (unsigned word 32) (\<lambda>_.
       if ua_in_reset u \<or> int (length (ua_tx u)) = ua_tx_depth u then Inr (u, False)
       else Inr (u\<lparr>ua_tx := ua_tx u @ [word]\<rparr>, True))"

definition apply_credit_update :: "uart \<Rightarrow> int \<Rightarrow> py_error + uart" where
  "apply_credit_update u data_fc_seq =
     rbind (unsigned data_fc_seq 12) (\<lambda>_.
       Inr (if ua_in_reset u then u else u\<lparr>ua_latest := data_fc_seq\<rparr>))"

definition credit_snapshot :: "uart \<Rightarrow> int option" where
  "credit_snapshot u = (if ua_in_reset u \<or> \<not> ua_enabled u then None else Some (ua_rx_counter u))"

definition next_transport_length :: "uart \<Rightarrow> int option" where
  "next_transport_length u =
     (if ua_in_reset u \<or> \<not> ua_enabled u then None
      else let count = min (min (available_credits u) (int (length (ua_tx u)))) 32
           in if count = 0 then None else Some count)"

definition uart_transmit :: "uart \<Rightarrow> py_error + uart \<times> int list option" where
  "uart_transmit u =
     (case next_transport_length u of
        None \<Rightarrow> Inr (u, None)
      | Some count \<Rightarrow>
          let payload = take (nat count) (ua_tx u);
              u' = u\<lparr>ua_tx := drop (nat count) (ua_tx u), ua_tx_counter := (ua_tx_counter u + count) mod 4096\<rparr>
          in rbind (transport_new payload) (\<lambda>m. Inr (u', Some m)))"

definition receive_transport :: "uart \<Rightarrow> int list \<Rightarrow> py_error + uart \<times> bool" where
  "receive_transport u message =
     (if ua_in_reset u \<or> \<not> ua_enabled u then Inr (u, False)
      else if int (length (ua_rx u)) + int (length message) > ua_rx_depth u then Inl BufferError
      else Inr (u\<lparr>ua_rx := ua_rx u @ message\<rparr>, True))"

definition uart_read :: "uart \<Rightarrow> uart \<times> int option" where
  "uart_read u =
     (case ua_rx u of
        [] \<Rightarrow> (u, None)
      | word # rest \<Rightarrow> (u\<lparr>ua_rx := rest, ua_rx_counter := (ua_rx_counter u + 1) mod 4096\<rparr>, Some word))"

subsection \<open>One end\<close>

definition uart_ok :: "uart \<Rightarrow> bool" where
  "uart_ok u \<longleftrightarrow> 1 \<le> ua_tx_depth u \<and> ua_tx_depth u \<le> 4095 \<and> 1 \<le> ua_rx_depth u \<and> ua_rx_depth u \<le> 4095 \<and>
     int (length (ua_tx u)) \<le> ua_tx_depth u \<and> int (length (ua_rx u)) \<le> ua_rx_depth u \<and>
     list_all (fits 32) (ua_tx u) \<and> list_all (fits 32) (ua_rx u) \<and>
     fits 12 (ua_tx_counter u) \<and> fits 12 (ua_rx_counter u) \<and> fits 12 (ua_latest u)"

lemma fits_12_mod: "fits 12 (x mod 4096)"
  by (simp add: fits_def)

lemma uart_new_ok: "uart_new t r = Inr u \<Longrightarrow> uart_ok u"
  by (auto simp: uart_new_def uart_ok_def)

lemma uart_reset_ok: "uart_ok u \<Longrightarrow> uart_ok (uart_reset u)"
  by (simp add: uart_reset_def uart_ok_def)

lemma uart_release_ok: "uart_ok u \<Longrightarrow> uart_ok (uart_release u)"
  by (auto simp: uart_release_def uart_ok_def fits_def)

lemma uart_write_ok: "uart_ok u \<Longrightarrow> uart_write u w = Inr (u', ok) \<Longrightarrow> uart_ok u'"
  by (auto simp: uart_write_def unsigned_def uart_ok_def split: if_splits)

lemma apply_credit_ok: "uart_ok u \<Longrightarrow> apply_credit_update u v = Inr u' \<Longrightarrow> uart_ok u'"
  by (auto simp: apply_credit_update_def unsigned_def uart_ok_def)

lemma uart_read_ok: "uart_ok u \<Longrightarrow> uart_read u = (u', w) \<Longrightarrow> uart_ok u'"
  by (auto simp: uart_read_def uart_ok_def fits_12_mod split: list.splits)

lemma receive_transport_ok:
  "uart_ok u \<Longrightarrow> list_all (fits 32) m \<Longrightarrow> receive_transport u m = Inr (u', ok) \<Longrightarrow> uart_ok u'"
  by (auto simp: receive_transport_def uart_ok_def split: if_splits)

lemma next_transport_length_Some:
  assumes "next_transport_length u = Some n"
  shows "1 \<le> n" "n \<le> 32" "n \<le> available_credits u" "n \<le> int (length (ua_tx u))" "\<not> ua_in_reset u" "ua_enabled u"
proof -
  have "0 \<le> available_credits u" by (simp add: available_credits_def)
  then show "1 \<le> n" "n \<le> 32" "n \<le> available_credits u" "n \<le> int (length (ua_tx u))" "\<not> ua_in_reset u" "ua_enabled u"
    using assms by (auto simp: next_transport_length_def Let_def split: if_splits)
qed

text \<open>A transmission always yields a valid transport: its construction never raises.\<close>

lemma uart_transmit_ok:
  assumes "uart_ok u"
  obtains (none) "uart_transmit u = Inr (u, None)" "next_transport_length u = None"
  | (some) n where "next_transport_length u = Some (int n)" "1 \<le> n" "n \<le> 32" "n \<le> length (ua_tx u)"
      "int n \<le> available_credits u"
      "uart_transmit u = Inr (u\<lparr>ua_tx := drop n (ua_tx u), ua_tx_counter := (ua_tx_counter u + int n) mod 4096\<rparr>,
         Some (take n (ua_tx u)))"
      "uart_ok (u\<lparr>ua_tx := drop n (ua_tx u), ua_tx_counter := (ua_tx_counter u + int n) mod 4096\<rparr>)"
proof (cases "next_transport_length u")
  case None
  then show thesis using none by (simp add: uart_transmit_def)
next
  case (Some c)
  note c = next_transport_length_Some [OF Some]
  define n where "n = nat c"
  have cn: "c = int n" using c(1) by (simp add: n_def)
  have n: "1 \<le> n" "n \<le> 32" "n \<le> length (ua_tx u)" "int n \<le> available_credits u" using c by (simp_all add: cn)
  have fit: "\<forall>w \<in> set (ua_tx u). fits 32 w" using assms by (auto simp: uart_ok_def list_all_iff)
  then have "\<forall>w \<in> set (take n (ua_tx u)). fits 32 w" by (meson in_set_takeD)
  then have "transport_new (take n (ua_tx u)) = Inr (take n (ua_tx u))"
    using n by (simp add: transport_new_def min_def)
  then have t: "uart_transmit u = Inr (u\<lparr>ua_tx := drop n (ua_tx u), ua_tx_counter := (ua_tx_counter u + int n) mod 4096\<rparr>,
         Some (take n (ua_tx u)))"
    by (simp add: uart_transmit_def Some cn Let_def)
  have "list_all (fits 32) (drop n (ua_tx u))" using fit by (meson in_set_dropD list_all_iff)
  then have ok: "uart_ok (u\<lparr>ua_tx := drop n (ua_tx u), ua_tx_counter := (ua_tx_counter u + int n) mod 4096\<rparr>)"
    using assms by (auto simp: uart_ok_def fits_12_mod)
  show thesis by (rule some [OF _ n t ok]) (simp add: Some cn)
qed

subsection \<open>Two ends and their wires\<close>

text \<open>
  The transports in flight from the sender to the receiver and the credit updates in flight back, both in
  order. Ghost fields count the words sent and read, and the absolute values of the credit updates.
\<close>

record uart_link =
  ul_sender :: uart
  ul_receiver :: uart
  ul_wire :: "int list list"
  ul_credits :: "int list"
  ul_sent :: nat
  ul_read :: nat
  ul_granted :: nat
  ul_credit_abs :: "nat list"

datatype uart_event = Write_Word int | Send_Transport | Deliver_Transport | Send_Credit | Deliver_Credit | Read_Word

text \<open>A step returns the words accepted for sending and the words read.\<close>

fun uart_link_step :: "uart_link \<Rightarrow> uart_event \<Rightarrow> py_error + uart_link \<times> int list \<times> int list" where
  "uart_link_step l (Write_Word w) =
     rbind (uart_write (ul_sender l) w) (\<lambda>(s, ok). Inr (l\<lparr>ul_sender := s\<rparr>, if ok then [w] else [], []))"
| "uart_link_step l Send_Transport =
     rbind (uart_transmit (ul_sender l)) (\<lambda>(s, m). Inr (case m of
        None \<Rightarrow> l\<lparr>ul_sender := s\<rparr>
      | Some p \<Rightarrow> l\<lparr>ul_sender := s, ul_wire := ul_wire l @ [p], ul_sent := ul_sent l + length p\<rparr>, [], []))"
| "uart_link_step l Deliver_Transport =
     (case ul_wire l of
        [] \<Rightarrow> Inr (l, [], [])
      | p # ps \<Rightarrow> rbind (receive_transport (ul_receiver l) p)
                   (\<lambda>(r, ok). Inr (l\<lparr>ul_receiver := r, ul_wire := ps\<rparr>, [], [])))"
| "uart_link_step l Send_Credit =
     (case credit_snapshot (ul_receiver l) of
        None \<Rightarrow> Inr (l, [], [])
      | Some v \<Rightarrow> Inr (l\<lparr>ul_credits := ul_credits l @ [v],
                        ul_credit_abs := ul_credit_abs l @ [nat (ua_rx_depth (ul_receiver l)) + ul_read l]\<rparr>, [], []))"
| "uart_link_step l Deliver_Credit =
     (case (ul_credits l, ul_credit_abs l) of
        (v # vs, a # as) \<Rightarrow> rbind (apply_credit_update (ul_sender l) v) (\<lambda>s.
          Inr (l\<lparr>ul_sender := s, ul_credits := vs, ul_credit_abs := as, ul_granted := a\<rparr>, [], []))
      | _ \<Rightarrow> Inr (l, [], []))"
| "uart_link_step l Read_Word =
     (case uart_read (ul_receiver l) of
        (r, None) \<Rightarrow> Inr (l\<lparr>ul_receiver := r\<rparr>, [], [])
      | (r, Some w) \<Rightarrow> Inr (l\<lparr>ul_receiver := r, ul_read := ul_read l + 1\<rparr>, [], [w]))"

text \<open>
  The sound state: in absolute numbers \<open>read \<le> sent \<le> granted \<le> credits in flight \<le> depth + read\<close>, the counters
  are these numbers modulo 4096, and the words sent but not read are on the wire or in the receiver.
\<close>

definition uart_link_ok :: "uart_link \<Rightarrow> bool" where
  "uart_link_ok l \<longleftrightarrow> uart_ok (ul_sender l) \<and> uart_ok (ul_receiver l) \<and>
     \<not> ua_in_reset (ul_sender l) \<and> \<not> ua_in_reset (ul_receiver l) \<and> ua_enabled (ul_sender l) \<and> ua_enabled (ul_receiver l) \<and>
     list_all (list_all (fits 32)) (ul_wire l) \<and>
     ul_sent l = ul_read l + length (ua_rx (ul_receiver l)) + length (concat (ul_wire l)) \<and>
     ul_sent l \<le> ul_granted l \<and>
     sorted (ul_granted l # ul_credit_abs l @ [nat (ua_rx_depth (ul_receiver l)) + ul_read l]) \<and>
     ul_credits l = map (\<lambda>a. int a mod 4096) (ul_credit_abs l) \<and>
     ua_latest (ul_sender l) = int (ul_granted l) mod 4096 \<and>
     ua_tx_counter (ul_sender l) = int (ul_sent l) mod 4096 \<and>
     ua_rx_counter (ul_receiver l) = (ua_rx_depth (ul_receiver l) + int (ul_read l)) mod 4096"

lemma uart_available:
  assumes "uart_link_ok l"
  shows "available_credits (ul_sender l) = int (ul_granted l) - int (ul_sent l)"
proof -
  have g: "ul_granted l \<le> nat (ua_rx_depth (ul_receiver l)) + ul_read l" "ul_read l \<le> ul_sent l" "ul_sent l \<le> ul_granted l"
    "ua_rx_depth (ul_receiver l) \<le> 4095" "1 \<le> ua_rx_depth (ul_receiver l)"
    using assms by (auto simp: uart_link_ok_def uart_ok_def)
  have "available_credits (ul_sender l) = (int (ul_granted l) mod 4096 - int (ul_sent l) mod 4096) mod 4096"
    using assms by (simp add: available_credits_def uart_link_ok_def)
  also have "\<dots> = (int (ul_granted l) - int (ul_sent l)) mod 4096" by (rule mod_diff_eq)
  also have "\<dots> = int (ul_granted l) - int (ul_sent l)"
    using g by (intro mod_pos_pos_trivial) linarith+
  finally show ?thesis .
qed

text \<open>Delivery never overflows the receiver.\<close>

lemma uart_fits:
  assumes "uart_link_ok l" and "ul_wire l = p # ps"
  shows "int (length (ua_rx (ul_receiver l))) + int (length p) \<le> ua_rx_depth (ul_receiver l)"
proof -
  have "ul_read l + length (ua_rx (ul_receiver l)) + length p \<le> nat (ua_rx_depth (ul_receiver l)) + ul_read l"
    "1 \<le> ua_rx_depth (ul_receiver l)"
    using assms by (auto simp: uart_link_ok_def uart_ok_def)
  then show ?thesis by linarith
qed

definition uart_words :: "uart_link \<Rightarrow> int list" where
  "uart_words l = ua_rx (ul_receiver l) @ concat (ul_wire l) @ ua_tx (ul_sender l)"

lemma uart_link_okD:
  assumes "uart_link_ok l"
  shows "uart_ok (ul_sender l)" "uart_ok (ul_receiver l)" "\<not> ua_in_reset (ul_sender l)" "\<not> ua_in_reset (ul_receiver l)"
    "ua_enabled (ul_sender l)" "ua_enabled (ul_receiver l)" "list_all (list_all (fits 32)) (ul_wire l)"
    "ul_sent l = ul_read l + length (ua_rx (ul_receiver l)) + length (concat (ul_wire l))"
    "ul_sent l \<le> ul_granted l"
    "sorted (ul_granted l # ul_credit_abs l @ [nat (ua_rx_depth (ul_receiver l)) + ul_read l])"
    "ul_credits l = map (\<lambda>a. int a mod 4096) (ul_credit_abs l)"
    "ua_latest (ul_sender l) = int (ul_granted l) mod 4096"
    "ua_tx_counter (ul_sender l) = int (ul_sent l) mod 4096"
    "ua_rx_counter (ul_receiver l) = (ua_rx_depth (ul_receiver l) + int (ul_read l)) mod 4096"
  using assms unfolding uart_link_ok_def by - (elim conjE, assumption)+

text \<open>Every event that is offered a legal word succeeds, keeps the state sound and keeps the words in order.\<close>

definition uart_step_good :: "uart_link \<Rightarrow> uart_event \<Rightarrow> bool" where
  "uart_step_good l e \<longleftrightarrow> (\<exists>l' out. uart_link_step l e = Inr (l', out) \<and> uart_link_ok l' \<and>
     uart_words l @ fst out = snd out @ uart_words l')"

lemma uart_step_goodI:
  "uart_link_step l e = Inr (l', i, out) \<Longrightarrow> uart_link_ok l' \<Longrightarrow> uart_words l @ i = out @ uart_words l' \<Longrightarrow>
     uart_step_good l e"
  by (auto simp: uart_step_good_def)

lemma uart_write_good:
  assumes "uart_link_ok l" and "fits 32 w"
  shows "uart_step_good l (Write_Word w)"
proof -
  note ok = uart_link_okD [OF assms(1)]
  obtain s b where w: "uart_write (ul_sender l) w = Inr (s, b)" "ua_rx_depth s = ua_rx_depth (ul_sender l)"
    "ua_in_reset s = ua_in_reset (ul_sender l)" "ua_enabled s = ua_enabled (ul_sender l)"
    "ua_latest s = ua_latest (ul_sender l)" "ua_tx_counter s = ua_tx_counter (ul_sender l)"
    "ua_tx s = ua_tx (ul_sender l) @ (if b then [w] else [])"
  proof (cases "ua_in_reset (ul_sender l) \<or> int (length (ua_tx (ul_sender l))) = ua_tx_depth (ul_sender l)")
    case True
    show thesis by (rule that [of "ul_sender l" False]) (use assms(2) True in \<open>auto simp: uart_write_def unsigned_def\<close>)
  next
    case False
    show thesis by (rule that [of "(ul_sender l)\<lparr>ua_tx := ua_tx (ul_sender l) @ [w]\<rparr>" True])
      (use assms(2) False in \<open>auto simp: uart_write_def unsigned_def\<close>)
  qed
  have "uart_ok s" by (rule uart_write_ok [OF ok(1) w(1)])
  then have "uart_link_ok (l\<lparr>ul_sender := s\<rparr>)" using ok w unfolding uart_link_ok_def by simp
  then show ?thesis by (rule uart_step_goodI [rotated]) (use w in \<open>auto simp: uart_words_def\<close>)
qed

lemma uart_send_good:
  assumes "uart_link_ok l"
  shows "uart_step_good l Send_Transport"
proof -
  note ok = uart_link_okD [OF assms]
  from ok(1) show ?thesis
  proof (cases rule: uart_transmit_ok)
    case none
    have "l\<lparr>ul_sender := ul_sender l\<rparr> = l" by simp
    with none show ?thesis by (intro uart_step_goodI [where l' = l and i = "[]" and out = "[]"]) (simp_all add: assms)
  next
    case (some n)
    let ?s = "(ul_sender l)\<lparr>ua_tx := drop n (ua_tx (ul_sender l)),
       ua_tx_counter := (ua_tx_counter (ul_sender l) + int n) mod 4096\<rparr>"
    let ?l = "l\<lparr>ul_sender := ?s, ul_wire := ul_wire l @ [take n (ua_tx (ul_sender l))], ul_sent := ul_sent l + n\<rparr>"
    have len: "length (take n (ua_tx (ul_sender l))) = n" using some(4) by simp
    have "int n \<le> int (ul_granted l) - int (ul_sent l)" using some(5) uart_available [OF assms] by simp
    then have gr: "ul_sent l + n \<le> ul_granted l" by linarith
    have fit: "list_all (fits 32) (take n (ua_tx (ul_sender l)))"
      using ok(1) by (auto simp: uart_ok_def list_all_iff dest: in_set_takeD)
    have "(int (ul_sent l) mod 4096 + int n) mod 4096 = int (ul_sent l + n) mod 4096" by (simp add: mod_add_left_eq)
    note md = this
    have "uart_link_ok ?l" unfolding uart_link_ok_def
      by (intro conjI; (simp only: uart.simps uart_link.simps; fail)?;
        (use some(7) ok(10) in \<open>simp; fail\<close> | simp add: ok(1-7,9-14) gr fit md; fail | simp add: ok(8) some(4)))
    then show ?thesis by (rule uart_step_goodI [rotated]) (use some(6) len in \<open>simp_all add: uart_words_def\<close>)
  qed
qed

lemma uart_deliver_good:
  assumes "uart_link_ok l"
  shows "uart_step_good l Deliver_Transport"
proof (cases "ul_wire l")
  case Nil
  then show ?thesis by (intro uart_step_goodI [where l' = l and i = "[]" and out = "[]"]) (simp_all add: assms)
next
  case (Cons p ps)
  note ok = uart_link_okD [OF assms]
  let ?r = "(ul_receiver l)\<lparr>ua_rx := ua_rx (ul_receiver l) @ p\<rparr>"
  have rc: "receive_transport (ul_receiver l) p = Inr (?r, True)"
    using uart_fits [OF assms Cons] ok by (simp add: receive_transport_def)
  have "uart_ok ?r" by (rule receive_transport_ok [OF ok(2) _ rc]) (use ok(7) Cons in simp)
  then have "uart_link_ok (l\<lparr>ul_receiver := ?r, ul_wire := ps\<rparr>)"
    using ok Cons unfolding uart_link_ok_def by simp
  then show ?thesis by (rule uart_step_goodI [rotated]) (use Cons rc in \<open>simp_all add: uart_words_def\<close>)
qed

lemma uart_credit_good:
  assumes "uart_link_ok l"
  shows "uart_step_good l Send_Credit"
proof -
  note ok = uart_link_okD [OF assms]
  let ?a = "nat (ua_rx_depth (ul_receiver l)) + ul_read l"
  let ?l = "l\<lparr>ul_credits := ul_credits l @ [ua_rx_counter (ul_receiver l)], ul_credit_abs := ul_credit_abs l @ [?a]\<rparr>"
  have d: "0 \<le> ua_rx_depth (ul_receiver l)" using ok(2) by (simp add: uart_ok_def)
  have "sorted (ul_granted l # (ul_credit_abs l @ [?a]) @ [?a])"
    using ok(10) by (auto simp: sorted_append)
  moreover have "ua_rx_counter (ul_receiver l) = int ?a mod 4096" using ok(14) d by simp
  ultimately have "uart_link_ok ?l" using ok unfolding uart_link_ok_def by simp
  then show ?thesis
    by (rule uart_step_goodI [rotated]) (use ok in \<open>simp_all add: credit_snapshot_def uart_words_def\<close>)
qed

lemma uart_grant_good:
  assumes "uart_link_ok l"
  shows "uart_step_good l Deliver_Credit"
proof (cases "ul_credit_abs l")
  case Nil
  then have "ul_credits l = []" using uart_link_okD(11) [OF assms] by simp
  with Nil show ?thesis by (intro uart_step_goodI [where l' = l and i = "[]" and out = "[]"]) (simp_all add: assms)
next
  case (Cons a as)
  note ok = uart_link_okD [OF assms]
  let ?v = "int a mod 4096"
  have cr: "ul_credits l = ?v # map (\<lambda>a. int a mod 4096) as" using ok(11) Cons by simp
  let ?s = "(ul_sender l)\<lparr>ua_latest := ?v\<rparr>"
  have ap: "apply_credit_update (ul_sender l) ?v = Inr ?s"
    using ok(3) by (simp add: apply_credit_update_def unsigned_def fits_12_mod)
  have "uart_ok ?s" by (rule apply_credit_ok [OF ok(1) ap])
  moreover have "sorted (a # as @ [nat (ua_rx_depth (ul_receiver l)) + ul_read l])" "ul_granted l \<le> a"
    using ok(10) by (simp_all add: Cons)
  ultimately have "uart_link_ok (l\<lparr>ul_sender := ?s, ul_credits := map (\<lambda>a. int a mod 4096) as, ul_credit_abs := as, ul_granted := a\<rparr>)"
    using ok unfolding uart_link_ok_def by simp
  then show ?thesis by (rule uart_step_goodI [rotated]) (use Cons cr ap in \<open>simp_all add: uart_words_def\<close>)
qed

lemma uart_read_good:
  assumes "uart_link_ok l"
  shows "uart_step_good l Read_Word"
proof (cases "ua_rx (ul_receiver l)")
  case Nil
  have "l\<lparr>ul_receiver := ul_receiver l\<rparr> = l" by simp
  with Nil show ?thesis by (intro uart_step_goodI [where l' = l and i = "[]" and out = "[]"]) (simp_all add: assms uart_read_def)
next
  case (Cons w ws)
  note ok = uart_link_okD [OF assms]
  let ?r = "(ul_receiver l)\<lparr>ua_rx := ws, ua_rx_counter := (ua_rx_counter (ul_receiver l) + 1) mod 4096\<rparr>"
  have rd: "uart_read (ul_receiver l) = (?r, Some w)" by (simp add: uart_read_def Cons)
  have rok: "uart_ok ?r" by (rule uart_read_ok [OF ok(2) rd])
  have md: "((ua_rx_depth (ul_receiver l) + int (ul_read l)) mod 4096 + 1) mod 4096 =
      (ua_rx_depth (ul_receiver l) + int (ul_read l + 1)) mod 4096"
    by (simp only: of_nat_add of_nat_1 add.assoc [symmetric] mod_add_left_eq)
  have st: "sorted (ul_granted l # ul_credit_abs l @ [nat (ua_rx_depth (ul_receiver l)) + (ul_read l + 1)])"
    using ok(10) by (auto simp: sorted_append)
  have "uart_link_ok (l\<lparr>ul_receiver := ?r, ul_read := ul_read l + 1\<rparr>)"
    unfolding uart_link_ok_def
    by (intro conjI; (use rok in \<open>simp; fail\<close> | use st in \<open>simp; fail\<close>
      | simp add: ok(1,3-7,9,11-14) md del: of_nat_add of_nat_Suc; fail | simp add: ok(8) Cons))
  then show ?thesis by (rule uart_step_goodI [rotated]) (use Cons rd in \<open>simp_all add: uart_words_def\<close>)
qed

fun uart_event_ok :: "uart_event \<Rightarrow> bool" where
  "uart_event_ok (Write_Word w) \<longleftrightarrow> fits 32 w"
| "uart_event_ok _ \<longleftrightarrow> True"

lemma uart_link_step_good: "uart_link_ok l \<Longrightarrow> uart_event_ok e \<Longrightarrow> uart_step_good l e"
  by (cases e) (auto intro: uart_write_good uart_send_good uart_deliver_good uart_credit_good uart_grant_good uart_read_good)

lemma uart_link_step_word: "uart_link_step l e = Inr x \<Longrightarrow> uart_event_ok e"
  by (cases e) (auto simp: uart_write_def unsigned_def)

interpretation uart_flow: flow uart_link_step uart_link_ok uart_words "\<lambda>e. fst" snd
  by unfold_locales (use uart_link_step_good uart_link_step_word in \<open>fastforce simp: uart_step_good_def\<close>)+

interpretation uart_total: total_machine uart_link_step uart_link_ok "\<lambda>l. uart_event_ok"
  by unfold_locales (use uart_link_step_good in \<open>fastforce simp: uart_step_good_def\<close>)+

text \<open>Two ends fresh out of reset with Channel 4 enabled are sound.\<close>

definition uart_up :: "uart \<Rightarrow> uart" where
  "uart_up u = set_channel4_enabled (uart_release u) True"

definition uart_link_start :: "uart \<Rightarrow> uart \<Rightarrow> uart_link" where
  "uart_link_start a b = \<lparr>ul_sender = uart_up a, ul_receiver = uart_up b, ul_wire = [], ul_credits = [],
     ul_sent = 0, ul_read = 0, ul_granted = 0, ul_credit_abs = []\<rparr>"

lemma uart_link_start_ok:
  assumes "uart_new ta ra = Inr a" "uart_new tb rb = Inr b"
  shows "uart_link_ok (uart_link_start a b)" and "uart_words (uart_link_start a b) = []"
  using assms
  by (auto simp: uart_new_def uart_link_start_def uart_up_def set_channel4_enabled_def uart_release_def
      uart_link_ok_def uart_ok_def uart_words_def fits_def)

lemma uart_step_depth: "uart_link_step l e = Inr (l', out) \<Longrightarrow> ua_rx_depth (ul_receiver l') = ua_rx_depth (ul_receiver l)"
  by (cases e) (auto simp: uart_write_def uart_transmit_def receive_transport_def apply_credit_update_def uart_read_def Let_def
      split: list.splits option.splits if_splits prod.splits)

lemma uart_run_room:
  assumes "run uart_link_step l es = Inr (l', outs)" "uart_link_ok l"
  shows "int (length (ua_rx (ul_receiver l'))) + int (length (concat (ul_wire l'))) \<le> ua_rx_depth (ul_receiver l)"
proof -
  have d: "ua_rx_depth (ul_receiver l') = ua_rx_depth (ul_receiver l)"
    using assms(1) by (induction es arbitrary: l outs) (auto dest!: uart_step_depth)
  have ok: "uart_link_ok l'" by (rule uart_flow.run_inv [OF assms])
  have "sorted (ul_granted l' # ul_credit_abs l' @ [nat (ua_rx_depth (ul_receiver l')) + ul_read l'])"
    by (rule uart_link_okD(10) [OF ok])
  then have "ul_granted l' \<le> nat (ua_rx_depth (ul_receiver l')) + ul_read l'" by simp
  moreover have "0 \<le> ua_rx_depth (ul_receiver l')" using uart_link_okD(2) [OF ok] by (simp add: uart_ok_def)
  ultimately show ?thesis using uart_link_okD(8,9) [OF ok] unfolding d [symmetric] by linarith
qed

lemma uart_link_start_depth: "uart_new t r = Inr b \<Longrightarrow> ua_rx_depth (ul_receiver (uart_link_start a b)) = r"
  by (auto simp: uart_new_def uart_link_start_def uart_up_def set_channel4_enabled_def uart_release_def)

end
