(* ===== verification/Uart_Tx.thy ===== *)
theory Uart_Tx
  imports Prelude
begin

section \<open>UART transport source\<close>

text \<open>
  Models \<open>simulator/UAlink2.0/model/ualink/uart_tx_source.py\<close>: one reserved message at a time, staged
  completely before it is offered, its header word first. The counters are modulo 4096.
\<close>

record tx_signals =
  us_payload_ready :: bool
  us_pending :: bool
  us_word :: int
  us_word_count :: int
  us_word_index :: int
  us_busy :: bool
  us_reserved_words :: int
  us_staged_words :: int
  us_tx_counter :: int
  us_latest_fc :: int
  us_done :: bool
  us_error :: bool

definition tx_no_signals :: tx_signals where
  "tx_no_signals = \<lparr>us_payload_ready = False, us_pending = False, us_word = 0, us_word_count = 0, us_word_index = 0,
     us_busy = False, us_reserved_words = 0, us_staged_words = 0, us_tx_counter = 0, us_latest_fc = 0,
     us_done = False, us_error = False\<rparr>"

record tx_source =
  ts_payload :: "int list"
  ts_reserved :: int
  ts_load :: int
  ts_header :: bool
  ts_counter :: int
  ts_latest :: int

definition source_new :: tx_source where
  "source_new = \<lparr>ts_payload = [], ts_reserved = 0, ts_load = 0, ts_header = False, ts_counter = 0, ts_latest = 0\<rparr>"

record source_input =
  si_enabled :: bool
  si_fill :: int
  si_valid :: bool
  si_word :: int
  si_credit_valid :: bool
  si_credit :: int
  si_take :: bool
  si_reset :: bool

definition source_observe :: "tx_source \<Rightarrow> bool \<Rightarrow> bool \<Rightarrow> bool \<Rightarrow> tx_signals" where
  "source_observe s enabled serve reset =
     (if reset then tx_no_signals
      else
        let busy = ts_reserved s \<noteq> 0;
            pending = enabled \<and> busy \<and> ts_load s = 0;
            index = (if ts_header s then ts_reserved s - int (length (ts_payload s)) + 1 else 0);
            word = (if pending \<and> \<not> ts_header s then push_bit 27 (ts_reserved s - 1) OR 4 else 0);
            word = (if pending \<and> ts_header s then hd (ts_payload s) else word)
        in \<lparr>us_payload_ready = enabled \<and> ts_load s \<noteq> 0, us_pending = pending, us_word = word,
            us_word_count = (if pending then ts_reserved s + 1 else 0),
            us_word_index = (if pending then index else 0), us_busy = busy,
            us_reserved_words = ts_reserved s, us_staged_words = int (length (ts_payload s)),
            us_tx_counter = ts_counter s, us_latest_fc = ts_latest s,
            us_done = serve \<and> pending \<and> ts_header s \<and> length (ts_payload s) = 1,
            us_error = (serve \<and> \<not> pending) \<or> (\<not> enabled \<and> ts_header s)\<rparr>)"

definition source_tick :: "tx_source \<Rightarrow> source_input \<Rightarrow> py_error + tx_source \<times> tx_signals" where
  "source_tick s i =
     rbind (ensure (fits 12 (si_fill i) \<and> fits 32 (si_word i) \<and> fits 12 (si_credit i))) (\<lambda>_.
       let out = source_observe s (si_enabled i) (si_take i) (si_reset i) in
       if si_reset i then Inr (source_new, out)
       else
         let available = (ts_latest s - ts_counter s) mod 4096;
             s = (if si_credit_valid i then s\<lparr>ts_latest := si_credit i\<rparr> else s)
         in
         if ts_reserved s = 0 then
           (if si_enabled i \<and> si_fill i \<noteq> 0 \<and> available \<noteq> 0
            then let n = min (min (si_fill i) available) 32 in Inr (s\<lparr>ts_reserved := n, ts_load := n\<rparr>, out)
            else Inr (s, out))
         else if ts_load s \<noteq> 0 then
           (if us_payload_ready out \<and> si_valid i
            then Inr (s\<lparr>ts_payload := ts_payload s @ [si_word i], ts_load := ts_load s - 1\<rparr>, out)
            else Inr (s, out))
         else if us_pending out \<and> si_take i then
           (if \<not> ts_header s then Inr (s\<lparr>ts_header := True\<rparr>, out)
            else case ts_payload s of
                [] \<Rightarrow> Inl IndexError
              | _ # rest \<Rightarrow>
                  (if rest = [] then Inr (s\<lparr>ts_payload := [], ts_counter := (ts_counter s + ts_reserved s) mod 4096,
                                           ts_reserved := 0, ts_header := False\<rparr>, out)
                   else Inr (s\<lparr>ts_payload := rest\<rparr>, out)))
         else Inr (s, out))"

definition source_ok :: "tx_source \<Rightarrow> bool" where
  "source_ok s \<longleftrightarrow> 0 \<le> ts_reserved s \<and> ts_reserved s \<le> 32 \<and> 0 \<le> ts_load s \<and>
     (if ts_header s then ts_load s = 0 \<and> 1 \<le> length (ts_payload s) \<and> int (length (ts_payload s)) \<le> ts_reserved s
      else int (length (ts_payload s)) + ts_load s = ts_reserved s) \<and>
     list_all (fits 32) (ts_payload s) \<and> fits 12 (ts_counter s) \<and> fits 12 (ts_latest s)"

lemma source_new_ok: "source_ok source_new"
  by (simp add: source_new_def source_ok_def)

text \<open>The edges of the source, as the cases every proof below follows.\<close>

definition source_stages :: "tx_source \<Rightarrow> source_input \<Rightarrow> bool" where
  "source_stages s i \<longleftrightarrow> \<not> si_reset i \<and> si_enabled i \<and> ts_load s \<noteq> 0 \<and> si_valid i"

definition source_serves :: "tx_source \<Rightarrow> source_input \<Rightarrow> bool" where
  "source_serves s i \<longleftrightarrow> \<not> si_reset i \<and> si_enabled i \<and> ts_reserved s \<noteq> 0 \<and> ts_load s = 0 \<and> si_take i"

definition source_reserves :: "tx_source \<Rightarrow> source_input \<Rightarrow> bool" where
  "source_reserves s i \<longleftrightarrow> \<not> si_reset i \<and> ts_reserved s = 0 \<and> si_enabled i \<and> si_fill i \<noteq> 0 \<and>
     (ts_latest s - ts_counter s) mod 4096 \<noteq> 0"

definition source_credit :: "tx_source \<Rightarrow> source_input \<Rightarrow> tx_source" where
  "source_credit s i = (if si_credit_valid i then s\<lparr>ts_latest := si_credit i\<rparr> else s)"

definition source_legal :: "source_input \<Rightarrow> bool" where
  "source_legal i \<longleftrightarrow> fits 12 (si_fill i) \<and> fits 32 (si_word i) \<and> fits 12 (si_credit i)"

definition source_next :: "tx_source \<Rightarrow> source_input \<Rightarrow> tx_source" where
  "source_next s i =
     (if si_reset i then source_new
      else let t = source_credit s i in
        if source_reserves s i then
          let n = min (min (si_fill i) ((ts_latest s - ts_counter s) mod 4096)) 32 in t\<lparr>ts_reserved := n, ts_load := n\<rparr>
        else if source_stages s i then t\<lparr>ts_payload := ts_payload s @ [si_word i], ts_load := ts_load s - 1\<rparr>
        else if source_serves s i then
          (if \<not> ts_header s then t\<lparr>ts_header := True\<rparr>
           else if length (ts_payload s) = 1
           then t\<lparr>ts_payload := [], ts_counter := (ts_counter s + ts_reserved s) mod 4096, ts_reserved := 0, ts_header := False\<rparr>
           else t\<lparr>ts_payload := tl (ts_payload s)\<rparr>)
        else t)"

lemma source_credit_sel [simp]:
  "ts_payload (source_credit s i) = ts_payload s" "ts_reserved (source_credit s i) = ts_reserved s"
  "ts_load (source_credit s i) = ts_load s" "ts_header (source_credit s i) = ts_header s"
  "ts_counter (source_credit s i) = ts_counter s"
  by (simp_all add: source_credit_def)

lemma source_tick_legal: "source_tick s i = Inr x \<Longrightarrow> source_legal i"
  by (auto simp: source_tick_def source_legal_def)

lemma source_okD:
  assumes "source_ok s"
  shows "0 \<le> ts_reserved s" "ts_reserved s \<le> 32" "0 \<le> ts_load s" "list_all (fits 32) (ts_payload s)"
    "fits 12 (ts_counter s)" "fits 12 (ts_latest s)"
    "ts_header s \<Longrightarrow> ts_load s = 0 \<and> 1 \<le> length (ts_payload s) \<and> int (length (ts_payload s)) \<le> ts_reserved s"
    "\<not> ts_header s \<Longrightarrow> int (length (ts_payload s)) + ts_load s = ts_reserved s"
  using assms unfolding source_ok_def by auto

lemma source_okI:
  assumes "0 \<le> ts_reserved s" "ts_reserved s \<le> 32" "0 \<le> ts_load s" "list_all (fits 32) (ts_payload s)"
    "fits 12 (ts_counter s)" "fits 12 (ts_latest s)"
    "ts_header s \<Longrightarrow> ts_load s = 0 \<and> 1 \<le> length (ts_payload s) \<and> int (length (ts_payload s)) \<le> ts_reserved s"
    "\<not> ts_header s \<Longrightarrow> int (length (ts_payload s)) + ts_load s = ts_reserved s"
  shows "source_ok s"
  using assms unfolding source_ok_def by auto

lemma source_next_cases [consumes 1, case_names reset reserve stage header finish word idle]:
  assumes "source_ok s"
  obtains "si_reset i" "source_next s i = source_new"
  | n where "source_reserves s i" "\<not> source_stages s i" "\<not> source_serves s i"
      "n = min (min (si_fill i) ((ts_latest s - ts_counter s) mod 4096)) 32"
      "\<not> ts_header s" "ts_payload s = []" "\<not> si_reset i"
      "source_next s i = (source_credit s i)\<lparr>ts_reserved := n, ts_load := n\<rparr>"
  | "\<not> source_reserves s i" "source_stages s i" "\<not> source_serves s i" "\<not> ts_header s" "ts_load s \<noteq> 0" "\<not> si_reset i"
      "source_next s i = (source_credit s i)\<lparr>ts_payload := ts_payload s @ [si_word i], ts_load := ts_load s - 1\<rparr>"
  | "\<not> source_reserves s i" "\<not> source_stages s i" "source_serves s i" "\<not> ts_header s" "ts_load s = 0" "ts_payload s \<noteq> []"
      "\<not> si_reset i" "source_next s i = (source_credit s i)\<lparr>ts_header := True\<rparr>"
  | w where "\<not> source_reserves s i" "\<not> source_stages s i" "source_serves s i" "ts_header s" "ts_load s = 0" "ts_payload s = [w]"
      "\<not> si_reset i"
      "source_next s i = (source_credit s i)\<lparr>ts_payload := [], ts_counter := (ts_counter s + ts_reserved s) mod 4096,
         ts_reserved := 0, ts_header := False\<rparr>"
  | w ws where "\<not> source_reserves s i" "\<not> source_stages s i" "source_serves s i" "ts_header s" "ts_load s = 0"
      "ts_payload s = w # ws" "ws \<noteq> []" "\<not> si_reset i" "source_next s i = (source_credit s i)\<lparr>ts_payload := ws\<rparr>"
  | "\<not> source_reserves s i" "\<not> source_stages s i" "\<not> source_serves s i" "\<not> si_reset i" "source_next s i = source_credit s i"
proof (cases "si_reset i")
  case True
  then show thesis by (intro that(1)) (simp_all add: source_next_def)
next
  case False
  note ok = source_okD [OF assms]
  have e: "\<not> ts_header s" "ts_payload s = []" "ts_load s = 0" if r: "ts_reserved s = 0"
  proof -
    show nh: "\<not> ts_header s"
    proof
      assume "ts_header s"
      from ok(7) [OF this] r show False by auto
    qed
    have "int (length (ts_payload s)) + ts_load s = 0" using ok(8) [OF nh] r by simp
    then have "int (length (ts_payload s)) = 0" "ts_load s = 0" using ok(3) by linarith+
    then show "ts_payload s = []" "ts_load s = 0" by simp_all
  qed
  consider "source_reserves s i" | "source_stages s i" | "source_serves s i" "\<not> ts_header s"
    | w where "source_serves s i" "ts_header s" "ts_payload s = [w]"
    | w ws where "source_serves s i" "ts_header s" "ts_payload s = w # ws" "ws \<noteq> []"
    | "\<not> source_reserves s i" "\<not> source_stages s i" "\<not> source_serves s i"
    using ok(7) by (cases "ts_payload s") fastforce+
  then show thesis
  proof cases
    case 1
    then have "ts_reserved s = 0" by (simp add: source_reserves_def)
    with 1 e False show thesis
      by (intro that(2) [OF _ _ _ refl]) (simp_all add: source_stages_def source_serves_def source_next_def Let_def)
  next
    case 2
    have n: "\<not> source_serves s i" "\<not> ts_header s" "ts_load s \<noteq> 0"
      using 2 ok(7) by (auto simp: source_stages_def source_serves_def)
    then have "\<not> source_reserves s i" using e(3) by (auto simp: source_reserves_def)
    with n 2 False show thesis by (intro that(3)) (simp_all add: source_next_def Let_def)
  next
    case 3
    have n: "\<not> source_stages s i" "\<not> source_reserves s i" "ts_load s = 0" "ts_payload s \<noteq> []"
      using 3 ok(8) by (auto simp: source_stages_def source_serves_def source_reserves_def)
    with 3 False show thesis by (intro that(4)) (simp_all add: source_next_def Let_def)
  next
    case (4 w)
    have n: "\<not> source_stages s i" "\<not> source_reserves s i" "ts_load s = 0"
      using 4 by (auto simp: source_stages_def source_serves_def source_reserves_def)
    with 4 False show thesis by (intro that(5)) (simp_all add: source_next_def Let_def)
  next
    case (5 w ws)
    have n: "\<not> source_stages s i" "\<not> source_reserves s i" "ts_load s = 0"
      using 5 by (auto simp: source_stages_def source_serves_def source_reserves_def)
    with 5 False show thesis by (intro that(6)) (simp_all add: source_next_def Let_def)
  next
    case 6
    with False show thesis by (intro that(7)) (simp_all add: source_next_def)
  qed
qed

lemma source_tick_cases:
  assumes "source_ok s" and "source_legal i"
  shows "source_tick s i = Inr (source_next s i, source_observe s (si_enabled i) (si_take i) (si_reset i))"
proof -
  have t: "(if si_credit_valid i then s\<lparr>ts_latest := si_credit i\<rparr> else s) = source_credit s i"
    by (simp add: source_credit_def)
  have obs: "us_payload_ready (source_observe s (si_enabled i) (si_take i) False) \<longleftrightarrow> si_enabled i \<and> ts_load s \<noteq> 0"
    "us_pending (source_observe s (si_enabled i) (si_take i) False) \<longleftrightarrow> si_enabled i \<and> ts_reserved s \<noteq> 0 \<and> ts_load s = 0"
    "us_payload_ready (source_observe s True (si_take i) False) \<longleftrightarrow> ts_load s \<noteq> 0"
    "us_pending (source_observe s True (si_take i) False) \<longleftrightarrow> ts_reserved s \<noteq> 0 \<and> ts_load s = 0"
    "us_pending (source_observe s True True False) \<longleftrightarrow> ts_reserved s \<noteq> 0 \<and> ts_load s = 0"
    by (simp_all add: source_observe_def Let_def)
  have en: "ensure (fits 12 (si_fill i) \<and> fits 32 (si_word i) \<and> fits 12 (si_credit i)) = Inr ()"
    using assms(2) by (simp add: source_legal_def)
  have res: "ts_reserved s = 0 \<Longrightarrow> ts_load s = 0"
    using source_okD(3,7,8) [OF assms(1)] by fastforce
  note d = source_tick_def Let_def t en rbind_Inr obs source_credit_sel
  from assms(1) show ?thesis
  proof (cases rule: source_next_cases [where i = i])
    case reset
    then show ?thesis by (simp add: d)
  next
    case (reserve n)
    then show ?thesis by (simp add: d source_reserves_def)
  next
    case stage
    moreover have "ts_reserved s \<noteq> 0" using res stage(5) by auto
    ultimately show ?thesis by (simp add: d source_stages_def)
  next
    case header
    then show ?thesis by (simp add: d source_serves_def)
  next
    case (finish w)
    then show ?thesis by (simp add: d source_serves_def)
  next
    case (word w ws)
    then show ?thesis by (simp add: d source_serves_def)
  next
    case idle
    have r: "\<not> (si_enabled i \<and> si_fill i \<noteq> 0 \<and> (ts_latest s - ts_counter s) mod 4096 \<noteq> 0)" if "ts_reserved s = 0"
      using idle(1,4) that by (simp add: source_reserves_def)
    have p: "\<not> ((si_enabled i \<and> ts_load s \<noteq> 0) \<and> si_valid i)"
      using idle(2,4) by (auto simp: source_stages_def)
    have v: "\<not> ((si_enabled i \<and> ts_reserved s \<noteq> 0 \<and> ts_load s = 0) \<and> si_take i)"
      using idle(3,4) by (auto simp: source_serves_def)
    show ?thesis
    proof (cases "ts_reserved s = 0")
      case True
      show ?thesis using True idle(4,5) unfolding d by (simp only: if_not_P [OF r [OF True]] if_True if_False simp_thms)
    next
      case False
      have v': "\<not> ((si_enabled i \<and> ts_load s = 0) \<and> si_take i)" using v False by simp
      show ?thesis using False idle(4,5) unfolding d
        by (simp only: if_not_P [OF p] if_not_P [OF v'] if_True if_False simp_thms if_cancel obs)
    qed
  qed
qed

lemma source_next_ok:
  assumes "source_ok s" and "source_legal i"
  shows "source_ok (source_next s i)"
proof -
  note ok = source_okD [OF assms(1)]
  have cr: "fits 12 (ts_latest (source_credit s i))"
    using ok(6) assms(2) by (simp add: source_legal_def source_credit_def)
  have md: "fits 12 ((ts_counter s + ts_reserved s) mod 4096)" by (simp add: fits_def)
  from assms(1) show ?thesis
  proof (cases rule: source_next_cases [where i = i])
    case reset
    then show ?thesis by (simp add: source_new_ok)
  next
    case (reserve n)
    have "0 \<le> n" "n \<le> 32" using assms(2) reserve(4) by (auto simp: source_legal_def fits_def)
    then show ?thesis unfolding reserve(8) by (intro source_okI) (simp_all add: reserve ok cr)
  next
    case stage
    moreover have "1 \<le> ts_load s" using ok(3) stage(5) by linarith
    ultimately show ?thesis using ok(8) assms(2) unfolding stage(7)
      by (intro source_okI) (simp_all add: ok cr source_legal_def)
  next
    case header
    then have "1 \<le> length (ts_payload s)" by (simp add: Suc_le_eq)
    then show ?thesis using ok(8) header unfolding header(8) by (intro source_okI) (simp_all add: ok cr)
  next
    case (finish w)
    then show ?thesis using ok md unfolding finish(8) by (intro source_okI) (simp_all add: cr)
  next
    case (word w ws)
    then have "1 \<le> length ws" by (simp add: Suc_le_eq)
    then show ?thesis using ok word unfolding word(9) by (intro source_okI) (simp_all add: cr)
  next
    case idle
    then show ?thesis using ok unfolding idle(5) by (intro source_okI) (simp_all add: cr)
  qed
qed

text \<open>The payload words staged are the payload words sent, in order.\<close>

lemma source_payload:
  assumes "source_ok s" and "\<not> si_reset i"
  shows "ts_payload s @ (if source_stages s i then [si_word i] else []) =
     (if source_serves s i \<and> ts_header s then [hd (ts_payload s)] else []) @ ts_payload (source_next s i)"
  using assms(1) by (cases rule: source_next_cases [where i = i]) (simp_all add: assms(2))

lemma source_word_header:
  "source_serves s i \<Longrightarrow> \<not> ts_header s \<Longrightarrow>
     us_word (source_observe s (si_enabled i) (si_take i) (si_reset i)) = push_bit 27 (ts_reserved s - 1) OR 4"
  by (simp add: source_serves_def source_observe_def Let_def)

lemma source_word_payload:
  "source_serves s i \<Longrightarrow> ts_header s \<Longrightarrow>
     us_word (source_observe s (si_enabled i) (si_take i) (si_reset i)) = hd (ts_payload s)"
  by (simp add: source_serves_def source_observe_def Let_def)

interpretation tx_source_machine: total_machine source_tick source_ok "\<lambda>_. source_legal"
proof unfold_locales
  show "source_ok s'" if "source_ok s" "source_tick s i = Inr (s', out)" for s i s' out
    using that source_tick_cases [OF that(1) source_tick_legal [OF that(2)]]
      source_next_ok [OF that(1) source_tick_legal [OF that(2)]] by simp
qed (simp add: source_tick_cases)

end
