(* ===== verification/Uart_Rx.thy ===== *)
theory Uart_Rx
  imports Receive_Fifo
begin

section \<open>UART receive path\<close>

text \<open>
  Models \<open>simulator/UAlink2.0/model/ualink/uart_rx_path.py\<close>: the framing of ordered message words, the
  payload store (\<open>Receive_Fifo\<close>), the credit counter and the reset messages. The framing runs on through
  a stream reset: the rest of a message in progress is counted and discarded.
\<close>

record rx_word_signals =
  uo_fw_valid :: bool
  uo_fw_word :: int
  uo_rx_fill :: int
  uo_initialized :: bool
  uo_rx_counter :: int
  uo_credit_available :: bool
  uo_remaining :: int
  uo_dropping :: bool
  uo_header :: bool
  uo_payload_write :: bool
  uo_payload_discard :: bool
  uo_done :: bool
  uo_credit_valid :: bool
  uo_credit_value :: int
  uo_reset_request :: bool
  uo_request_all :: bool
  uo_reset_response :: bool
  uo_response_all :: bool
  uo_response_status :: int
  uo_other_valid :: bool
  uo_other_word :: int
  uo_error :: bool

definition rx_no_signals :: rx_word_signals where
  "rx_no_signals = \<lparr>uo_fw_valid = False, uo_fw_word = 0, uo_rx_fill = 0, uo_initialized = False, uo_rx_counter = 0,
     uo_credit_available = False, uo_remaining = 0, uo_dropping = False, uo_header = False, uo_payload_write = False,
     uo_payload_discard = False, uo_done = False, uo_credit_valid = False, uo_credit_value = 0,
     uo_reset_request = False, uo_request_all = False, uo_reset_response = False, uo_response_all = False,
     uo_response_status = 0, uo_other_valid = False, uo_other_word = 0, uo_error = False\<rparr>"

record uart_rx =
  ur_depth :: int
  ur_fifo :: fifo
  ur_remaining :: int
  ur_discard :: bool
  ur_initialized :: bool
  ur_reads :: int

definition urx_new :: "int \<Rightarrow> py_error + uart_rx" where
  "urx_new depth =
     rbind (ensure (1 \<le> depth \<and> depth \<le> 4095)) (\<lambda>_.
     rbind (fifo_init depth 32) (\<lambda>f.
       Inr \<lparr>ur_depth = depth, ur_fifo = f, ur_remaining = 0, ur_discard = False, ur_initialized = False, ur_reads = 0\<rparr>))"

record rx_input =
  ri_word :: "int option"
  ri_enabled :: bool
  ri_stream_reset :: bool
  ri_fw_ready :: bool
  ri_reset :: bool

text \<open>The fields of a message header word.\<close>

definition word_class :: "int \<Rightarrow> int" where "word_class w = fld w 2 4"
definition word_type :: "int \<Rightarrow> int" where "word_type w = fld w 6 3"
definition word_stream :: "int \<Rightarrow> int" where "word_stream w = fld w 9 3"

definition urx_observe :: "uart_rx \<Rightarrow> rx_input \<Rightarrow> py_error + rx_word_signals" where
  "urx_observe u i =
     rbind (ensure (pred_option (fits 32) (ri_word i))) (\<lambda>_. Inr (
     if ri_reset i then rx_no_signals
     else
       let view = fifo_outputs (ur_fifo u);
           active = ur_initialized u \<and> \<not> ri_stream_reset i;
           dropping = ur_remaining u \<noteq> 0 \<and> (ur_discard u \<or> \<not> active \<or> \<not> ri_enabled i);
           here = ri_word i \<noteq> None;
           write = here \<and> ur_remaining u \<noteq> 0 \<and> \<not> dropping \<and> fv_ready view;
           w = (case ri_word i of None \<Rightarrow> 0 | Some w \<Rightarrow> w);
           first = here \<and> ur_remaining u = 0;
           uart = first \<and> word_class w = 1;
           head = uart \<and> word_type w = 0;
           credit_kind = uart \<and> word_type w = 1 \<and> word_stream w = 0;
           applies = word_stream w = 0 \<or> bit w 12;
           request = uart \<and> word_type w = 6 \<and> applies;
           response = uart \<and> word_type w = 7 \<and> applies;
           credit = credit_kind \<and> active;
           other = first \<and> \<not> (head \<or> credit_kind \<or> request \<or> response);
           count = drop_bit 27 w + 1;
           error = (if first then head \<and> word_stream w = 0 \<and> active \<and> ri_enabled i \<and> fv_count view + count > ur_depth u
                    else here \<and> ur_remaining u \<noteq> 0 \<and> \<not> dropping \<and> \<not> fv_ready view)
       in \<lparr>uo_fw_valid = active \<and> fv_valid view, uo_fw_word = (if active \<and> fv_valid view then fv_data view else 0),
           uo_rx_fill = (if active then fv_count view else 0), uo_initialized = active,
           uo_rx_counter = (if active then (ur_depth u + ur_reads u) mod 4096 else 0),
           uo_credit_available = active \<and> ri_enabled i, uo_remaining = ur_remaining u, uo_dropping = dropping,
           uo_header = head, uo_payload_write = write, uo_payload_discard = here \<and> ur_remaining u \<noteq> 0 \<and> \<not> write,
           uo_done = here \<and> ur_remaining u = 1, uo_credit_valid = credit,
           uo_credit_value = (if credit then drop_bit 20 w else 0), uo_reset_request = request,
           uo_request_all = request \<and> bit w 12, uo_reset_response = response, uo_response_all = response \<and> bit w 12,
           uo_response_status = (if response then fld w 13 3 else 0), uo_other_valid = other,
           uo_other_word = (if other then w else 0), uo_error = error\<rparr>))"

definition urx_clear :: "uart_rx \<Rightarrow> uart_rx" where
  "urx_clear u = u\<lparr>ur_remaining := 0, ur_discard := False, ur_initialized := False, ur_reads := 0\<rparr>"

definition urx_life :: "uart_rx \<Rightarrow> rx_input \<Rightarrow> rx_word_signals \<Rightarrow> uart_rx" where
  "urx_life u i out =
     (if ri_stream_reset i then u\<lparr>ur_initialized := False, ur_reads := 0\<rparr>
      else if \<not> ur_initialized u then u\<lparr>ur_initialized := True, ur_reads := 0\<rparr>
      else if uo_fw_valid out \<and> ri_fw_ready i then u\<lparr>ur_reads := ur_reads u + 1\<rparr>
      else u)"

definition urx_frame :: "uart_rx \<Rightarrow> rx_input \<Rightarrow> rx_word_signals \<Rightarrow> uart_rx" where
  "urx_frame u i out =
     (if ur_remaining u \<noteq> 0 then
        let d = ur_discard u \<or> uo_dropping out \<or> uo_error out in
        (case ri_word i of
           None \<Rightarrow> u\<lparr>ur_discard := d\<rparr>
         | Some _ \<Rightarrow> u\<lparr>ur_remaining := ur_remaining u - 1, ur_discard := (if ur_remaining u - 1 = 0 then False else d)\<rparr>)
      else if uo_header out then
        (case ri_word i of
           None \<Rightarrow> u
         | Some w \<Rightarrow> u\<lparr>ur_remaining := drop_bit 27 w + 1,
              ur_discard := \<not> uo_initialized out \<or> \<not> ri_enabled i \<or> word_stream w \<noteq> 0 \<or> uo_error out\<rparr>)
      else u)"

definition urx_tick :: "uart_rx \<Rightarrow> rx_input \<Rightarrow> py_error + uart_rx \<times> rx_word_signals" where
  "urx_tick u i =
     rbind (urx_observe u i) (\<lambda>out.
       if ri_reset i then
         rbind (fifo_step (ur_fifo u) None False True) (\<lambda>(f, _). Inr ((urx_clear u)\<lparr>ur_fifo := f\<rparr>, out))
       else
         rbind (fifo_step (ur_fifo u) (if uo_payload_write out then ri_word i else None)
                  (uo_fw_valid out \<and> ri_fw_ready i) (ri_stream_reset i \<or> \<not> ur_initialized u)) (\<lambda>(f, _).
         Inr (urx_frame (urx_life (u\<lparr>ur_fifo := f\<rparr>) i out) i out, out)))"

definition urx_ok :: "uart_rx \<Rightarrow> bool" where
  "urx_ok u \<longleftrightarrow> fifo_ok (ur_fifo u) \<and> ff_depth (ur_fifo u) = ur_depth u \<and> ff_width (ur_fifo u) = 32 \<and>
     1 \<le> ur_depth u \<and> ur_depth u \<le> 4095 \<and> 0 \<le> ur_remaining u \<and> ur_remaining u \<le> 32 \<and>
     (ur_discard u \<longrightarrow> ur_remaining u \<noteq> 0) \<and> 0 \<le> ur_reads u \<and>
     (\<not> ur_initialized u \<longrightarrow> fifo_contents (ur_fifo u) = [])"

definition urx_legal :: "rx_input \<Rightarrow> bool" where
  "urx_legal i \<longleftrightarrow> pred_option (fits 32) (ri_word i)"

lemma urx_new_ok: "urx_new d = Inr u \<Longrightarrow> urx_ok u \<and> ur_remaining u = 0"
  by (auto simp: urx_new_def urx_ok_def fifo_init_def fifo_ok_def fifo_contents_def split: if_splits)

subsection \<open>Framing\<close>

text \<open>The words of a message still to come after a word.\<close>

definition frame_next :: "int \<Rightarrow> int option \<Rightarrow> int" where
  "frame_next n word =
     (case word of
        None \<Rightarrow> n
      | Some w \<Rightarrow> if n \<noteq> 0 then n - 1 else if word_class w = 1 \<and> word_type w = 0 then drop_bit 27 w + 1 else 0)"

lemma frame_next_range:
  assumes "0 \<le> n" "n \<le> 32" "pred_option (fits 32) word"
  shows "0 \<le> frame_next n word" "frame_next n word \<le> 32"
proof -
  have "drop_bit 27 w < 32" "0 \<le> drop_bit 27 w" if "fits 32 w" for w :: int
  proof -
    have "fits 5 (drop_bit 27 w)" by (rule fits_drop [OF that]) simp
    then show "drop_bit 27 w < 32" "0 \<le> drop_bit 27 w" by (simp_all add: fits_def)
  qed
  note b = this
  have "0 \<le> frame_next n word \<and> frame_next n word \<le> 32"
  proof (cases word)
    case None
    then show ?thesis using assms by (simp add: frame_next_def)
  next
    case (Some w)
    then have "drop_bit 27 w < 32" "0 \<le> drop_bit 27 w" using b assms(3) by simp_all
    then show ?thesis using assms(1,2) unfolding Some frame_next_def option.case by simp
  qed
  then show "0 \<le> frame_next n word" "frame_next n word \<le> 32" by simp_all
qed

lemma urx_observe_legal: "urx_legal i \<Longrightarrow> \<exists>out. urx_observe u i = Inr out"
  unfolding urx_observe_def urx_legal_def by (simp only: ensure_True rbind_Inr) blast

lemma urx_observe_word: "urx_observe u i = Inr out \<Longrightarrow> urx_legal i"
  unfolding urx_observe_def urx_legal_def by (rule ensureD)

lemma urx_observeD:
  assumes "urx_observe u i = Inr out" and "\<not> ri_reset i"
  shows "uo_fw_valid out \<longleftrightarrow> ur_initialized u \<and> \<not> ri_stream_reset i \<and> fv_valid (fifo_outputs (ur_fifo u))"
    "uo_fw_valid out \<Longrightarrow> uo_fw_word out = fv_data (fifo_outputs (ur_fifo u))"
    "uo_initialized out \<longleftrightarrow> ur_initialized u \<and> \<not> ri_stream_reset i"
    "uo_dropping out \<longleftrightarrow> ur_remaining u \<noteq> 0 \<and> (ur_discard u \<or> \<not> ur_initialized u \<or> ri_stream_reset i \<or> \<not> ri_enabled i)"
    "uo_payload_write out \<longleftrightarrow> ri_word i \<noteq> None \<and> ur_remaining u \<noteq> 0 \<and> \<not> uo_dropping out \<and> fv_ready (fifo_outputs (ur_fifo u))"
    "uo_header out \<longleftrightarrow> ur_remaining u = 0 \<and> (\<exists>w. ri_word i = Some w \<and> word_class w = 1 \<and> word_type w = 0)"
    "ri_word i = None \<Longrightarrow> \<not> uo_error out"
    "ur_remaining u \<noteq> 0 \<Longrightarrow>
       uo_error out \<longleftrightarrow> ri_word i \<noteq> None \<and> \<not> uo_dropping out \<and> \<not> fv_ready (fifo_outputs (ur_fifo u))"
    "ur_remaining u = 0 \<Longrightarrow> ri_word i = Some w \<Longrightarrow>
       uo_error out \<longleftrightarrow> word_class w = 1 \<and> word_type w = 0 \<and> word_stream w = 0 \<and> uo_initialized out \<and> ri_enabled i \<and>
         fv_count (fifo_outputs (ur_fifo u)) + (drop_bit 27 w + 1) > ur_depth u"
    "uo_initialized out \<Longrightarrow> uo_rx_counter out = (ur_depth u + ur_reads u) mod 4096"
    "uo_credit_available out \<longleftrightarrow> uo_initialized out \<and> ri_enabled i"
  using assms by (auto simp: urx_observe_def Let_def split: option.splits)

lemma urx_frame_sel [simp]:
  "ur_fifo (urx_frame u i out) = ur_fifo u" "ur_depth (urx_frame u i out) = ur_depth u"
  "ur_initialized (urx_frame u i out) = ur_initialized u" "ur_reads (urx_frame u i out) = ur_reads u"
  by (simp_all add: urx_frame_def Let_def split: option.splits)

lemma urx_life_sel [simp]:
  "ur_fifo (urx_life u i out) = ur_fifo u" "ur_depth (urx_life u i out) = ur_depth u"
  "ur_remaining (urx_life u i out) = ur_remaining u" "ur_discard (urx_life u i out) = ur_discard u"
  "ur_initialized (urx_life u i out) \<longleftrightarrow> \<not> ri_stream_reset i"
  by (simp_all add: urx_life_def)

lemma urx_frame_remaining:
  assumes "urx_observe u i = Inr out" "\<not> ri_reset i" "ur_remaining v = ur_remaining u"
  shows "ur_remaining (urx_frame v i out) = frame_next (ur_remaining u) (ri_word i)"
  using urx_observeD(6) [OF assms(1,2)] assms(3)
  by (auto simp: urx_frame_def frame_next_def Let_def split: option.splits)

text \<open>What one edge does: it always succeeds, keeps the state legal, and the framing follows the words alone.\<close>

lemma urx_fifo_step:
  assumes "urx_ok u" "urx_observe u i = Inr out" "\<not> ri_reset i"
  obtains f r where "fifo_step (ur_fifo u) (if uo_payload_write out then ri_word i else None)
       (uo_fw_valid out \<and> ri_fw_ready i) (ri_stream_reset i \<or> \<not> ur_initialized u) = Inr (f, r)"
    "fifo_ok f" "ff_depth f = ff_depth (ur_fifo u)" "ff_width f = ff_width (ur_fifo u)"
    "ri_stream_reset i \<or> \<not> ur_initialized u \<Longrightarrow> fifo_contents f = []"
    "\<not> (ri_stream_reset i \<or> \<not> ur_initialized u) \<Longrightarrow>
       fifo_contents (ur_fifo u) @ (if uo_payload_write out then [the (ri_word i)] else []) =
         (if uo_fw_valid out \<and> ri_fw_ready i then [uo_fw_word out] else []) @ fifo_contents f"
proof (cases "ri_stream_reset i \<or> \<not> ur_initialized u")
  case True
  let ?f = "(ur_fifo u)\<lparr>ff_unread := [], ff_visible := [], ff_pending := None\<rparr>"
  have "fifo_ok ?f" using assms(1) by (simp add: urx_ok_def fifo_ok_def fifo_contents_def)
  then show thesis using True
    by (intro that [of ?f "(False, None)"]) (simp_all add: fifo_step_def fifo_contents_def)
next
  case False
  note o = urx_observeD [OF assms(2,3)]
  have leg: "urx_legal i" using urx_observe_word [OF assms(2)] .
  have ok: "fifo_ok (ur_fifo u)" "ff_width (ur_fifo u) = 32" using assms(1) by (simp_all add: urx_ok_def)
  obtain f where st: "fifo_step (ur_fifo u) (if uo_payload_write out then ri_word i else None)
       (uo_fw_valid out \<and> ri_fw_ready i) False =
       Inr (f, (if uo_payload_write out then ri_word i else None) \<noteq> None,
         if uo_fw_valid out \<and> ri_fw_ready i then Some (fv_data (fifo_outputs (ur_fifo u))) else None)"
    by (rule fifo_step_reserved [OF ok(1), of "if uo_payload_write out then ri_word i else None" "uo_fw_valid out \<and> ri_fw_ready i"])
      (use o(1,5) leg ok(2) in \<open>auto simp: urx_legal_def split: if_splits\<close>)
  have "fifo_contents (ur_fifo u) @ (if uo_payload_write out then [the (ri_word i)] else []) =
      (if uo_fw_valid out \<and> ri_fw_ready i then [uo_fw_word out] else []) @ fifo_contents f"
    using fifo_step_contents(1) [OF ok(1) st] o(2,5) by (auto split: if_splits)
  then show thesis using False st fifo_step_contents(3,4) [OF ok(1) st] fifo_step_ok [OF ok(1) st]
    by (intro that [of f]) simp_all
qed

lemma urx_frame_discard:
  assumes "ur_remaining v \<noteq> 0 \<or> \<not> ur_discard v" "pred_option (fits 32) (ri_word i)"
  shows "ur_discard (urx_frame v i out) \<Longrightarrow> ur_remaining (urx_frame v i out) \<noteq> 0"
proof -
  have "drop_bit 27 w + 1 \<noteq> 0" if "fits 32 w" for w :: int
  proof -
    have "0 \<le> drop_bit 27 w" using that by (simp add: fits_def)
    then show ?thesis by linarith
  qed
  then show "ur_discard (urx_frame v i out) \<Longrightarrow> ur_remaining (urx_frame v i out) \<noteq> 0"
    using assms by (auto simp: urx_frame_def Let_def split: option.splits if_splits)
qed

lemma urx_tick_step:
  assumes "urx_ok u" "urx_observe u i = Inr out" "\<not> ri_reset i"
  obtains f where "urx_tick u i = Inr (urx_frame (urx_life (u\<lparr>ur_fifo := f\<rparr>) i out) i out, out)"
    "urx_ok (urx_frame (urx_life (u\<lparr>ur_fifo := f\<rparr>) i out) i out)"
    "ri_stream_reset i \<or> \<not> ur_initialized u \<Longrightarrow> fifo_contents f = []"
    "\<not> (ri_stream_reset i \<or> \<not> ur_initialized u) \<Longrightarrow>
       fifo_contents (ur_fifo u) @ (if uo_payload_write out then [the (ri_word i)] else []) =
         (if uo_fw_valid out \<and> ri_fw_ready i then [uo_fw_word out] else []) @ fifo_contents f"
proof -
  obtain f r where f: "fifo_step (ur_fifo u) (if uo_payload_write out then ri_word i else None)
       (uo_fw_valid out \<and> ri_fw_ready i) (ri_stream_reset i \<or> \<not> ur_initialized u) = Inr (f, r)"
    "fifo_ok f" "ff_depth f = ff_depth (ur_fifo u)" "ff_width f = ff_width (ur_fifo u)"
    "ri_stream_reset i \<or> \<not> ur_initialized u \<Longrightarrow> fifo_contents f = []"
    "\<not> (ri_stream_reset i \<or> \<not> ur_initialized u) \<Longrightarrow>
       fifo_contents (ur_fifo u) @ (if uo_payload_write out then [the (ri_word i)] else []) =
         (if uo_fw_valid out \<and> ri_fw_ready i then [uo_fw_word out] else []) @ fifo_contents f"
    by (rule urx_fifo_step [OF assms]) (rule that; assumption)
  let ?v = "urx_life (u\<lparr>ur_fifo := f\<rparr>) i out"
  have leg: "pred_option (fits 32) (ri_word i)" using urx_observe_word [OF assms(2)] by (simp add: urx_legal_def)
  have rem: "ur_remaining (urx_frame ?v i out) = frame_next (ur_remaining u) (ri_word i)"
    by (rule urx_frame_remaining [OF assms(2,3)]) simp
  have reads: "0 \<le> ur_reads ?v" using assms(1) by (simp add: urx_life_def urx_ok_def)
  have disc: "ur_discard (urx_frame ?v i out) \<Longrightarrow> ur_remaining (urx_frame ?v i out) \<noteq> 0"
    by (rule urx_frame_discard [OF _ leg]) (use assms(1) in \<open>auto simp: urx_ok_def\<close>)
  have "urx_ok (urx_frame ?v i out)"
    using assms(1) f(2-5) frame_next_range [OF _ _ leg, of "ur_remaining u"] reads disc
    unfolding urx_ok_def by (simp add: rem)
  then show thesis using that [of f] f assms(2,3) by (simp add: urx_tick_def)
qed

lemma urx_tick_good:
  assumes "urx_ok u" "urx_legal i"
  shows "\<exists>u' out. urx_tick u i = Inr (u', out) \<and> urx_ok u' \<and>
    ur_remaining u' = (if ri_reset i then 0 else frame_next (ur_remaining u) (ri_word i))"
proof (cases "ri_reset i")
  case True
  then show ?thesis using assms
    by (auto simp: urx_tick_def urx_observe_def urx_legal_def fifo_step_def urx_clear_def urx_ok_def
        fifo_ok_def fifo_contents_def)
next
  case False
  obtain out where o: "urx_observe u i = Inr out" using urx_observe_legal [OF assms(2)] by blast
  obtain f where f: "urx_tick u i = Inr (urx_frame (urx_life (u\<lparr>ur_fifo := f\<rparr>) i out) i out, out)"
    "urx_ok (urx_frame (urx_life (u\<lparr>ur_fifo := f\<rparr>) i out) i out)"
    by (rule urx_tick_step [OF assms(1) o False])
  have "ur_remaining (urx_frame (urx_life (u\<lparr>ur_fifo := f\<rparr>) i out) i out) = frame_next (ur_remaining u) (ri_word i)"
    by (rule urx_frame_remaining [OF o False]) simp
  with f False show ?thesis by simp
qed

lemma urx_tick_legal: "urx_tick u i = Inr x \<Longrightarrow> urx_legal i"
  by (auto simp: urx_tick_def dest: urx_observe_word)

interpretation uart_rx_machine: total_machine urx_tick urx_ok "\<lambda>_. urx_legal"
  by unfold_locales (use urx_tick_good urx_tick_legal in fastforce)+

end
