(* ===== verification/Uart_Path.thy ===== *)
theory Uart_Path
  imports Uart_Tx Uart_Rx
begin

section \<open>UART source and receive path together\<close>

text \<open>
  The transport source of one end connected to the receive path of the other: the words the source is
  served are the words the path consumes, and the credit snapshots of the path, whenever the environment
  chooses to carry one, update the source. The framing of the path always agrees with the message the
  source is sending, through disables and stream resets; with Channel 4 up, no payload is lost.
\<close>

record uart_path =
  up_source :: tx_source
  up_rx :: uart_rx

record path_input =
  pi_source :: source_input
  pi_grant :: bool
  pi_stream_reset :: bool
  pi_ready :: bool

definition path_word :: "tx_source \<Rightarrow> source_input \<Rightarrow> int option" where
  "path_word s i =
     (let out = source_observe s (si_enabled i) (si_take i) (si_reset i)
      in if us_pending out \<and> si_take i then Some (us_word out) else None)"

definition path_rx_input :: "uart_path \<Rightarrow> path_input \<Rightarrow> rx_input" where
  "path_rx_input p i = \<lparr>ri_word = path_word (up_source p) (pi_source i), ri_enabled = si_enabled (pi_source i),
     ri_stream_reset = pi_stream_reset i, ri_fw_ready = pi_ready i, ri_reset = si_reset (pi_source i)\<rparr>"

definition path_grant :: "path_input \<Rightarrow> rx_word_signals \<Rightarrow> source_input" where
  "path_grant i out = (pi_source i)\<lparr>si_credit_valid := pi_grant i \<and> uo_credit_available out, si_credit := uo_rx_counter out\<rparr>"

definition path_step :: "uart_path \<Rightarrow> path_input \<Rightarrow> py_error + uart_path \<times> tx_signals \<times> rx_word_signals" where
  "path_step p i =
     rbind (urx_tick (up_rx p) (path_rx_input p i)) (\<lambda>(u, out).
     rbind (source_tick (up_source p) (path_grant i out)) (\<lambda>(s, sig).
       Inr (\<lparr>up_source = s, up_rx = u\<rparr>, sig, out)))"

subsection \<open>Framing\<close>

definition source_left :: "tx_source \<Rightarrow> int" where
  "source_left s = (if ts_header s then int (length (ts_payload s)) else 0)"

lemma header_word:
  assumes "1 \<le> n" "n \<le> 32"
  shows "word_class (push_bit 27 (n - 1) OR 4) = 1" "word_type (push_bit 27 (n - 1) OR 4) = 0"
    "word_stream (push_bit 27 (n - 1) OR 4) = 0" "drop_bit 27 (push_bit 27 (n - 1) OR 4) = n - 1"
    "fits 32 (push_bit 27 (n - 1) OR 4)"
proof -
  have f: "fits 5 (n - 1)" "fits 27 4" using assms by (simp_all add: fits_def)
  show "word_class (push_bit 27 (n - 1) OR 4) = 1" "word_type (push_bit 27 (n - 1) OR 4) = 0"
    "word_stream (push_bit 27 (n - 1) OR 4) = 0"
    by (simp_all add: word_class_def word_type_def word_stream_def fld_or fld_above) (simp_all add: fld_def)
  show "drop_bit 27 (push_bit 27 (n - 1) OR 4) = n - 1"
    by (simp add: drop_bit_push_bit)
  show "fits 32 (push_bit 27 (n - 1) OR 4)"
    by (rule fits_or) (rule fits_push [OF f(1)], simp, rule fits_mono [OF f(2)], simp)
qed

lemma path_word_eq:
  "path_word s i = (if source_serves s i
     then Some (if ts_header s then hd (ts_payload s) else push_bit 27 (ts_reserved s - 1) OR 4) else None)"
  by (auto simp: path_word_def source_serves_def source_observe_def Let_def tx_no_signals_def)

lemma path_word_fits:
  assumes "source_ok s"
  shows "pred_option (fits 32) (path_word s i)"
proof (cases "source_serves s i")
  case True
  then have r: "ts_reserved s \<noteq> 0" by (simp add: source_serves_def)
  note ok = source_okD [OF assms]
  show ?thesis
  proof (cases "ts_header s")
    case True
    then have "ts_payload s \<noteq> []" using ok(7) by auto
    then show ?thesis using ok(4) True by (cases "ts_payload s") (simp_all add: path_word_eq)
  next
    case False
    then show ?thesis using header_word(5) [of "ts_reserved s"] ok(1,2) r by (simp add: path_word_eq)
  qed
qed (simp add: path_word_eq)

lemma path_framing:
  assumes "source_ok s" and "\<not> si_reset i"
  shows "frame_next (source_left s) (path_word s i) = source_left (source_next s i)"
  using assms(1)
proof (cases rule: source_next_cases [where i = i])
  case header
  have n: "1 \<le> ts_reserved s" "ts_reserved s \<le> 32" "int (length (ts_payload s)) = ts_reserved s"
    using source_okD(1,2,8) [OF assms(1)] header(3-5) by (simp_all add: source_serves_def)
  show ?thesis using header n header_word [OF n(1,2)]
    by (simp add: path_word_eq frame_next_def source_left_def)
qed (use assms(2) in \<open>simp_all add: path_word_eq frame_next_def source_left_def\<close>)

text \<open>The framing agrees whatever the enables, stream resets and credits do.\<close>

definition path_aligned :: "uart_path \<Rightarrow> bool" where
  "path_aligned p \<longleftrightarrow> source_ok (up_source p) \<and> urx_ok (up_rx p) \<and> ur_remaining (up_rx p) = source_left (up_source p)"

lemma source_word_ignores_credit [simp]:
  "source_serves s (path_grant i out) = source_serves s (pi_source i)"
  "source_stages s (path_grant i out) = source_stages s (pi_source i)"
  "source_reserves s (path_grant i out) = source_reserves s (pi_source i)"
  "path_word s (path_grant i out) = path_word s (pi_source i)"
  "si_reset (path_grant i out) = si_reset (pi_source i)" "si_word (path_grant i out) = si_word (pi_source i)"
  "si_fill (path_grant i out) = si_fill (pi_source i)"
  by (simp_all add: source_serves_def source_stages_def source_reserves_def path_word_def path_grant_def)

definition path_legal :: "path_input \<Rightarrow> bool" where
  "path_legal i \<longleftrightarrow> fits 12 (si_fill (pi_source i)) \<and> fits 32 (si_word (pi_source i))"

lemma path_grant_legal:
  assumes "path_legal i" "urx_observe u j = Inr out"
  shows "source_legal (path_grant i out)"
proof -
  have "fits 12 (uo_rx_counter out)"
  proof (cases "ri_reset j")
    case True
    then show ?thesis using assms(2) by (auto simp: urx_observe_def rx_no_signals_def)
  next
    case False
    from assms(2) False have "uo_rx_counter out = (if uo_initialized out then (ur_depth u + ur_reads u) mod 4096 else 0)"
      unfolding urx_observe_def Let_def by auto
    then show ?thesis by (simp add: fits_def)
  qed
  then show ?thesis using assms(1) by (simp add: source_legal_def path_legal_def path_grant_def)
qed

lemma urx_tick_out: "urx_tick u i = Inr (u', out) \<Longrightarrow> urx_observe u i = Inr out"
  by (auto simp: urx_tick_def split: if_splits)

lemma path_rx_legal: "source_ok (up_source p) \<Longrightarrow> urx_legal (path_rx_input p i)"
  using path_word_fits by (simp add: urx_legal_def path_rx_input_def)

lemma path_step_aligned:
  assumes "path_aligned p" "path_legal i"
  shows "\<exists>p' out. path_step p i = Inr (p', out) \<and> path_aligned p'"
proof -
  have ok: "source_ok (up_source p)" "urx_ok (up_rx p)" "ur_remaining (up_rx p) = source_left (up_source p)"
    using assms(1) by (simp_all add: path_aligned_def)
  obtain u out where u: "urx_tick (up_rx p) (path_rx_input p i) = Inr (u, out)" "urx_ok u"
    "ur_remaining u = (if si_reset (pi_source i) then 0 else frame_next (ur_remaining (up_rx p)) (path_word (up_source p) (pi_source i)))"
    using urx_tick_good [OF ok(2) path_rx_legal [OF ok(1)], of i] by (auto simp: path_rx_input_def)
  have leg: "source_legal (path_grant i out)" by (rule path_grant_legal [OF assms(2) urx_tick_out [OF u(1)]])
  have left: "ur_remaining u = source_left (source_next (up_source p) (path_grant i out))"
  proof (cases "si_reset (pi_source i)")
    case True
    then show ?thesis by (simp add: u(3) source_next_def source_new_def source_left_def)
  next
    case False
    then show ?thesis using path_framing [OF ok(1), of "path_grant i out"] by (simp add: u(3) ok(3))
  qed
  show ?thesis using u(1,2) left source_tick_cases [OF ok(1) leg] source_next_ok [OF ok(1) leg]
    by (simp add: path_step_def path_aligned_def)
qed

lemma path_step_legal: "path_step p i = Inr x \<Longrightarrow> path_legal i"
  by (auto simp: path_step_def path_legal_def path_grant_def source_legal_def dest!: source_tick_legal)

interpretation uart_framing: total_machine path_step path_aligned "\<lambda>_. path_legal"
proof unfold_locales
  show "path_aligned s'" if "path_aligned s" "path_step s i = Inr (s', out)" for s i s' out
    using path_step_aligned [OF that(1) path_step_legal [OF that(2)]] that(2) by auto
qed (use path_step_aligned in blast)

definition path_start :: "uart_rx \<Rightarrow> uart_path" where
  "path_start u = \<lparr>up_source = source_new, up_rx = u\<rparr>"

lemma path_start_aligned: "urx_new d = Inr u \<Longrightarrow> path_aligned (path_start u)"
  by (auto dest!: urx_new_ok simp: path_start_def path_aligned_def source_new_ok) (simp_all add: source_left_def source_new_def)

subsection \<open>Payload\<close>

text \<open>The edges with Channel 4 enabled and no reset: what is left to choose for the environment.\<close>

definition live_step :: "uart_path \<Rightarrow> path_input \<Rightarrow> py_error + uart_path \<times> tx_signals \<times> rx_word_signals" where
  "live_step p i = path_step p (i\<lparr>pi_stream_reset := False, pi_source := (pi_source i)\<lparr>si_enabled := True, si_reset := False\<rparr>\<rparr>)"

text \<open>
  In absolute numbers: \<open>done\<close> words of complete messages, \<open>granted\<close> credits. The words of the current message
  already delivered and the complete ones are those read or in the store; what is reserved has been granted.
\<close>

definition path_live :: "uart_path \<Rightarrow> int \<Rightarrow> int \<Rightarrow> bool" where
  "path_live p done granted \<longleftrightarrow>
     \<not> ur_discard (up_rx p) \<and> (\<not> ur_initialized (up_rx p) \<longrightarrow> granted = 0 \<and> ur_reads (up_rx p) = 0) \<and> 0 \<le> done \<and>
     ts_counter (up_source p) = done mod 4096 \<and> ts_latest (up_source p) = granted mod 4096 \<and>
     done + ts_reserved (up_source p) \<le> granted \<and> granted \<le> ur_depth (up_rx p) + ur_reads (up_rx p) \<and>
     done + (if ts_header (up_source p) then ts_reserved (up_source p) - source_left (up_source p) else 0) =
       ur_reads (up_rx p) + int (length (fifo_contents (ur_fifo (up_rx p))))"

lemma urx_no_discard:
  assumes "urx_observe u i = Inr out" "\<not> ri_reset i" "\<not> ur_discard u" "\<not> ur_discard v" "ur_remaining v = ur_remaining u"
    and "ri_enabled i" "\<not> ri_stream_reset i"
    and "ur_remaining u \<noteq> 0 \<Longrightarrow> ur_initialized u"
    and "\<And>w. ri_word i = Some w \<Longrightarrow> ur_remaining u \<noteq> 0 \<Longrightarrow> int (length (fifo_contents (ur_fifo u))) < ff_depth (ur_fifo u)"
    and "\<And>w. ri_word i = Some w \<Longrightarrow> ur_remaining u = 0 \<Longrightarrow> ur_initialized u \<and> word_stream w = 0 \<and>
      int (length (fifo_contents (ur_fifo u))) + (drop_bit 27 w + 1) \<le> ur_depth u"
  shows "\<not> ur_discard (urx_frame v i out)" "\<not> uo_error out"
    "uo_payload_write out \<longleftrightarrow> ri_word i \<noteq> None \<and> ur_remaining u \<noteq> 0"
proof -
  note o = urx_observeD [OF assms(1,2)]
  show err: "\<not> uo_error out"
  proof (cases "ri_word i")
    case None
    then show ?thesis using o(7) by blast
  next
    case (Some w)
    show ?thesis
    proof (cases "ur_remaining u = 0")
      case True
      then show ?thesis using o(9) [OF True Some] assms(10) [OF Some True] by (simp add: fifo_count_length)
    next
      case False
      then show ?thesis using o(8) [OF False] assms(9) [OF Some False] by (simp add: fifo_ready_iff)
    qed
  qed
  have drop: "\<not> uo_dropping out" using o(4) assms(3,6,7,8) by auto
  show "uo_payload_write out \<longleftrightarrow> ri_word i \<noteq> None \<and> ur_remaining u \<noteq> 0"
    using o(5) drop assms(9) by (auto simp: fifo_ready_iff)
  show "\<not> ur_discard (urx_frame v i out)"
    using assms(3-7,10) drop err o(3) by (auto simp: urx_frame_def Let_def split: option.splits)
qed

lemma path_liveD:
  assumes "path_live p done granted"
  shows "\<not> ur_discard (up_rx p)" "\<not> ur_initialized (up_rx p) \<Longrightarrow> granted = 0 \<and> ur_reads (up_rx p) = 0" "0 \<le> done"
    "ts_counter (up_source p) = done mod 4096" "ts_latest (up_source p) = granted mod 4096"
    "done + ts_reserved (up_source p) \<le> granted" "granted \<le> ur_depth (up_rx p) + ur_reads (up_rx p)"
    "done + (if ts_header (up_source p) then ts_reserved (up_source p) - source_left (up_source p) else 0) =
       ur_reads (up_rx p) + int (length (fifo_contents (ur_fifo (up_rx p))))"
  using assms unfolding path_live_def by blast+

text \<open>What the numbers say about the store: room for the rest of the message, and for a message to start.\<close>

lemma live_room:
  assumes "path_aligned p" "path_live p done granted"
  shows "ts_header (up_source p) \<Longrightarrow>
      int (length (fifo_contents (ur_fifo (up_rx p)))) + source_left (up_source p) \<le> ur_depth (up_rx p)"
    and "\<not> ts_header (up_source p) \<Longrightarrow>
      int (length (fifo_contents (ur_fifo (up_rx p)))) + ts_reserved (up_source p) \<le> ur_depth (up_rx p)"
    and "ts_reserved (up_source p) \<noteq> 0 \<Longrightarrow> ur_initialized (up_rx p)"
    and "ur_remaining (up_rx p) = source_left (up_source p)"
    and "ur_remaining (up_rx p) \<noteq> 0 \<longleftrightarrow> ts_header (up_source p)"
    and "ts_header (up_source p) \<Longrightarrow> ts_reserved (up_source p) \<noteq> 0"
proof -
  have ok: "source_ok (up_source p)" "urx_ok (up_rx p)" and rem: "ur_remaining (up_rx p) = source_left (up_source p)"
    using assms(1) by (simp_all add: path_aligned_def)
  note l = path_liveD [OF assms(2)] and so = source_okD [OF ok(1)]
  show "ts_header (up_source p) \<Longrightarrow>
      int (length (fifo_contents (ur_fifo (up_rx p)))) + source_left (up_source p) \<le> ur_depth (up_rx p)"
    using l(6-8) by simp
  show "\<not> ts_header (up_source p) \<Longrightarrow>
      int (length (fifo_contents (ur_fifo (up_rx p)))) + ts_reserved (up_source p) \<le> ur_depth (up_rx p)"
    using l(6-8) by simp
  show "ts_reserved (up_source p) \<noteq> 0 \<Longrightarrow> ur_initialized (up_rx p)"
    using l(2,3,6) so(1) by (cases "ur_initialized (up_rx p)") auto
  show "ur_remaining (up_rx p) = source_left (up_source p)" by (rule rem)
  show "ur_remaining (up_rx p) \<noteq> 0 \<longleftrightarrow> ts_header (up_source p)" using so(7) by (auto simp: rem source_left_def)
  show "ts_header (up_source p) \<Longrightarrow> ts_reserved (up_source p) \<noteq> 0" using so(7) by auto
qed

text \<open>The receive side of a live edge.\<close>

lemma live_rx:
  assumes "path_aligned p" "path_live p done granted" "urx_observe (up_rx p) (path_rx_input p i) = Inr out"
    and "si_enabled (pi_source i)" "\<not> si_reset (pi_source i)" "\<not> pi_stream_reset i"
  obtains u where "urx_tick (up_rx p) (path_rx_input p i) = Inr (u, out)" "\<not> uo_error out" "\<not> ur_discard u"
    "ur_initialized u" "ur_depth u = ur_depth (up_rx p)"
    "ur_reads u = ur_reads (up_rx p) + of_bool (uo_fw_valid out \<and> pi_ready i)"
    "fifo_contents (ur_fifo (up_rx p)) @
       (if source_serves (up_source p) (pi_source i) \<and> ts_header (up_source p) then [hd (ts_payload (up_source p))] else []) =
     (if uo_fw_valid out \<and> pi_ready i then [uo_fw_word out] else []) @ fifo_contents (ur_fifo u)"
proof -
  let ?s = "up_source p" and ?u = "up_rx p" and ?j = "path_rx_input p i"
  have ok: "source_ok ?s" "urx_ok ?u" using assms(1) by (simp_all add: path_aligned_def)
  note room = live_room [OF assms(1,2)]
  have nr: "\<not> ri_reset ?j" using assms(5) by (simp add: path_rx_input_def)
  note o = urx_observeD [OF assms(3) nr]
  obtain f where f: "urx_tick ?u ?j = Inr (urx_frame (urx_life (?u\<lparr>ur_fifo := f\<rparr>) ?j out) ?j out, out)"
    "ri_stream_reset ?j \<or> \<not> ur_initialized ?u \<Longrightarrow> fifo_contents f = []"
    "\<not> (ri_stream_reset ?j \<or> \<not> ur_initialized ?u) \<Longrightarrow>
       fifo_contents (ur_fifo ?u) @ (if uo_payload_write out then [the (ri_word ?j)] else []) =
         (if uo_fw_valid out \<and> ri_fw_ready ?j then [uo_fw_word out] else []) @ fifo_contents f"
    by (rule urx_tick_step [OF ok(2) assms(3) nr]) (rule that; assumption)
  let ?v = "urx_life (?u\<lparr>ur_fifo := f\<rparr>) ?j out"
  have word: "ri_word ?j = path_word ?s (pi_source i)" by (simp add: path_rx_input_def)
  have fits: "int (length (fifo_contents (ur_fifo ?u))) < ff_depth (ur_fifo ?u)" if "ur_remaining ?u \<noteq> 0"
    using room(1,5) that room(4) ok(2) source_okD(7) [OF ok(1)] by (simp add: urx_ok_def source_left_def)
  have first: "ur_initialized ?u \<and> word_stream w = 0 \<and>
      int (length (fifo_contents (ur_fifo ?u))) + (drop_bit 27 w + 1) \<le> ur_depth ?u"
    if "ri_word ?j = Some w" "ur_remaining ?u = 0" for w
  proof -
    have nh: "\<not> ts_header ?s" using room(5) that(2) by simp
    have sv: "source_serves ?s (pi_source i)" and w: "w = push_bit 27 (ts_reserved ?s - 1) OR 4"
      using that(1) nh unfolding word by (simp_all add: path_word_eq split: if_splits)
    have n: "ts_reserved ?s \<noteq> 0" "1 \<le> ts_reserved ?s" "ts_reserved ?s \<le> 32"
      using sv source_okD(1,2) [OF ok(1)] by (simp_all add: source_serves_def)
    show ?thesis using room(2) [OF nh] room(3) [OF n(1)] header_word [OF n(2,3)] by (simp add: w)
  qed
  have live: "ri_enabled ?j" "\<not> ri_stream_reset ?j" using assms(4,6) by (simp_all add: path_rx_input_def)
  have init: "ur_remaining ?u \<noteq> 0 \<Longrightarrow> ur_initialized ?u" using room(3,5,6) by blast
  have vr: "\<not> ur_discard ?v" "ur_remaining ?v = ur_remaining ?u" using path_liveD(1) [OF assms(2)] by simp_all
  note nd = urx_no_discard [OF assms(3) nr path_liveD(1) [OF assms(2)] vr live init fits first]
  have wr: "uo_payload_write out \<longleftrightarrow> source_serves ?s (pi_source i) \<and> ts_header ?s"
    using nd(3) room(5) by (auto simp: word path_word_eq)
  have eq: "fifo_contents (ur_fifo ?u) @
       (if source_serves ?s (pi_source i) \<and> ts_header ?s then [hd (ts_payload ?s)] else []) =
     (if uo_fw_valid out \<and> pi_ready i then [uo_fw_word out] else []) @ fifo_contents f"
  proof (cases "ur_initialized ?u")
    case True
    then show ?thesis using f(3) live wr by (auto simp: word path_word_eq path_rx_input_def)
  next
    case False
    then have "\<not> uo_payload_write out" "\<not> uo_fw_valid out" "fifo_contents (ur_fifo ?u) = []"
      using nd(3) init o(1) ok(2) by (auto simp: urx_ok_def)
    then show ?thesis using f(2) False wr by simp
  qed
  have reads: "ur_reads ?v = ur_reads ?u + of_bool (uo_fw_valid out \<and> pi_ready i)"
    using live o(1) path_liveD(2) [OF assms(2)] by (simp add: urx_life_def path_rx_input_def)
  show thesis
    by (rule that [OF f(1) nd(2,1)]) (use live reads eq in simp_all)
qed

text \<open>The transmit side of a live edge: \<open>granted'\<close> is what the source knows after the edge.\<close>

definition source_numbers :: "tx_source \<Rightarrow> int \<Rightarrow> int \<Rightarrow> bool" where
  "source_numbers s done granted \<longleftrightarrow> 0 \<le> done \<and> ts_counter s = done mod 4096 \<and> ts_latest s = granted mod 4096 \<and>
     done + ts_reserved s \<le> granted"

definition source_given :: "tx_source \<Rightarrow> int \<Rightarrow> int" where
  "source_given s done = done + (if ts_header s then ts_reserved s - source_left s else 0)"

lemma live_source:
  assumes "source_ok s" "source_numbers s done granted" "\<not> si_reset k" "fits 12 (si_fill k)"
    and "ts_reserved s = 0 \<Longrightarrow> granted - done \<le> 4095" "granted \<le> granted'"
    and "ts_latest (source_credit s k) = granted' mod 4096"
  shows "\<exists>done'. source_numbers (source_next s k) done' granted' \<and>
    source_given (source_next s k) done' = source_given s done + of_bool (source_serves s k \<and> ts_header s)"
proof -
  have n: "0 \<le> done" "ts_counter s = done mod 4096" "ts_latest s = granted mod 4096" "done + ts_reserved s \<le> granted"
    using assms(2) by (simp_all add: source_numbers_def)
  from assms(1) show ?thesis
  proof (cases rule: source_next_cases [where i = k])
    case (reserve c)
    have r0: "ts_reserved s = 0" using reserve(1) by (simp add: source_reserves_def)
    have "(ts_latest s - ts_counter s) mod 4096 = (granted - done) mod 4096"
      unfolding n(2,3) by (rule mod_diff_eq)
    also have "\<dots> = granted - done" using assms(5) [OF r0] n(4) r0 by (intro mod_pos_pos_trivial) linarith+
    finally have "done + c \<le> granted" unfolding reserve(4) by linarith
    then have le: "done + c \<le> granted'" using assms(6) by linarith
    have f: "ts_counter (source_next s k) = done mod 4096" "ts_latest (source_next s k) = granted' mod 4096"
      "ts_reserved (source_next s k) = c" "\<not> ts_header (source_next s k)"
      unfolding reserve(8) using n(2) assms(7) reserve(5) by simp_all
    show ?thesis
      by (intro exI [of _ "done"]) (simp add: source_numbers_def source_given_def f le n(1) reserve(3,5))
  next
    case (finish w)
    have "(ts_counter s + ts_reserved s) mod 4096 = (done + ts_reserved s) mod 4096"
      unfolding n(2) by (rule mod_add_left_eq)
    then show ?thesis using finish n assms(6,7) source_okD(1) [OF assms(1)]
      by (intro exI [of _ "done + ts_reserved s"]) (simp add: source_numbers_def source_given_def source_left_def)
  next
    case header
    have "int (length (ts_payload s)) = ts_reserved s"
      using source_okD(8) [OF assms(1) header(4)] header(5) by simp
    then show ?thesis using header n assms(6,7)
      by (intro exI [of _ "done"]) (simp add: source_numbers_def source_given_def source_left_def)
  qed (use assms(3,6,7) n in \<open>(intro exI [of _ "done"], simp add: source_numbers_def source_given_def source_left_def)+\<close>)
qed

definition path_words :: "uart_path \<Rightarrow> int list" where
  "path_words p = fifo_contents (ur_fifo (up_rx p)) @ ts_payload (up_source p)"

definition path_taken :: "path_input \<Rightarrow> tx_signals \<times> rx_word_signals \<Rightarrow> int list" where
  "path_taken i out = (if us_payload_ready (fst out) \<and> si_valid (pi_source i) then [si_word (pi_source i)] else [])"

text \<open>The path's output does not record the ready input of the reader: the words given are those it took.\<close>

definition live_tick :: "uart_path \<Rightarrow> path_input \<Rightarrow> py_error + uart_path \<times> (tx_signals \<times> rx_word_signals) \<times> int list" where
  "live_tick p i = rbind (live_step p i) (\<lambda>(p', out).
     Inr (p', out, if uo_fw_valid (snd out) \<and> pi_ready i then [uo_fw_word (snd out)] else []))"

definition path_ok :: "uart_path \<Rightarrow> bool" where
  "path_ok p \<longleftrightarrow> path_aligned p \<and> (\<exists>done granted. path_live p done granted)"

lemma live_step_good:
  assumes "path_ok p" "path_legal i"
  shows "\<exists>p' out ws. live_tick p i = Inr (p', out, ws) \<and> path_ok p' \<and> \<not> uo_error (snd out) \<and>
    path_words p @ path_taken i out = ws @ path_words p'"
proof -
  let ?s = "up_source p" and ?u = "up_rx p"
  obtain "done" granted where live: "path_live p done granted" and al: "path_aligned p"
    using assms(1) by (auto simp: path_ok_def)
  have ok: "source_ok ?s" "urx_ok ?u" using al by (simp_all add: path_aligned_def)
  define i' where "i' = i\<lparr>pi_stream_reset := False, pi_source := (pi_source i)\<lparr>si_enabled := True, si_reset := False\<rparr>\<rparr>"
  have i': "si_enabled (pi_source i')" "\<not> si_reset (pi_source i')" "\<not> pi_stream_reset i'" "pi_ready i' = pi_ready i"
    "path_legal i'" "si_word (pi_source i') = si_word (pi_source i)"
    using assms(2) by (simp_all add: i'_def path_legal_def)
  obtain out where o: "urx_observe ?u (path_rx_input p i') = Inr out"
    using urx_observe_legal [OF path_rx_legal [OF ok(1), of i']] by blast
  obtain u where u: "urx_tick ?u (path_rx_input p i') = Inr (u, out)" "\<not> uo_error out" "\<not> ur_discard u"
    "ur_initialized u" "ur_depth u = ur_depth ?u" "ur_reads u = ur_reads ?u + of_bool (uo_fw_valid out \<and> pi_ready i')"
    "fifo_contents (ur_fifo ?u) @
       (if source_serves ?s (pi_source i') \<and> ts_header ?s then [hd (ts_payload ?s)] else []) =
     (if uo_fw_valid out \<and> pi_ready i' then [uo_fw_word out] else []) @ fifo_contents (ur_fifo u)"
    by (rule live_rx [OF al live o i'(1-3)]) (rule that; assumption)
  define k where "k = path_grant i' out"
  have leg: "source_legal k" unfolding k_def by (rule path_grant_legal [OF i'(5) o])
  define p' where "p' = \<lparr>up_source = source_next ?s k, up_rx = u\<rparr>"
  define sig where "sig = source_observe ?s (si_enabled k) (si_take k) (si_reset k)"
  have st: "path_step p i' = Inr (p', sig, out)"
    using u(1) source_tick_cases [OF ok(1) leg] by (simp add: path_step_def k_def p'_def sig_def)
  have al': "path_aligned p'" using path_step_aligned [OF al i'(5)] st by auto
  have nr: "\<not> ri_reset (path_rx_input p i')" using i'(2) by (simp add: path_rx_input_def)
  note od = urx_observeD [OF o nr] and l = path_liveD [OF live]
  define granted' where "granted' = (if si_credit_valid k then ur_depth ?u + ur_reads ?u else granted)"
  have num: "source_numbers ?s done granted" using l by (simp add: source_numbers_def)
  have given: "source_given ?s done = ur_reads ?u + int (length (fifo_contents (ur_fifo ?u)))"
    using l(8) by (simp add: source_given_def)
  have latest: "ts_latest (source_credit ?s k) = granted' mod 4096"
    using od(10,11) l(5) by (simp add: source_credit_def granted'_def k_def path_grant_def)
  have lim: "granted - done \<le> 4095" if "ts_reserved ?s = 0"
  proof -
    have "\<not> ts_header ?s" using live_room(6) [OF al live] that by blast
    then show ?thesis using l(7,8) ok(2) by (simp add: urx_ok_def)
  qed
  have gg: "granted \<le> granted'" using l(7) by (simp add: granted'_def)
  obtain done' where d: "source_numbers (source_next ?s k) done' granted'"
    "source_given (source_next ?s k) done' = source_given ?s done + of_bool (source_serves ?s k \<and> ts_header ?s)"
    using live_source [OF ok(1) num _ _ lim gg latest] leg i'(2) by (auto simp: k_def source_legal_def)
  have len: "int (length (fifo_contents (ur_fifo ?u))) + of_bool (source_serves ?s k \<and> ts_header ?s) =
      of_bool (uo_fw_valid out \<and> pi_ready i') + int (length (fifo_contents (ur_fifo u)))"
    using arg_cong [OF u(7), of length] by (auto simp: k_def split: if_splits)
  have "granted' \<le> ur_depth u + ur_reads u" using l(7) by (simp add: granted'_def u(5,6))
  moreover have "source_given (source_next ?s k) done' = ur_reads u + int (length (fifo_contents (ur_fifo u)))"
    using d(2) given len by (simp add: u(6))
  ultimately have "path_live p' done' granted'"
    using d(1) u(3,4) unfolding path_live_def p'_def source_numbers_def source_given_def uart_path.simps by blast
  then have ok': "path_ok p'" using al' by (auto simp: path_ok_def)
  have pay: "ts_payload ?s @ (if source_stages ?s k then [si_word k] else []) =
     (if source_serves ?s k \<and> ts_header ?s then [hd (ts_payload ?s)] else []) @ ts_payload (source_next ?s k)"
    by (rule source_payload [OF ok(1)]) (simp add: k_def i')
  have taken: "path_taken i (sig, out) = (if source_stages ?s k then [si_word k] else [])"
    using i' by (simp add: path_taken_def sig_def source_observe_def source_stages_def Let_def k_def path_grant_def i'_def)
  have "path_words p @ path_taken i (sig, out) =
      (if uo_fw_valid out \<and> pi_ready i then [uo_fw_word out] else []) @ path_words p'"
  proof -
    have "path_words p @ path_taken i (sig, out) = fifo_contents (ur_fifo ?u) @
        (if source_serves ?s k \<and> ts_header ?s then [hd (ts_payload ?s)] else []) @ ts_payload (source_next ?s k)"
      unfolding path_words_def taken append_assoc pay ..
    also have "\<dots> = (if uo_fw_valid out \<and> pi_ready i then [uo_fw_word out] else []) @
        fifo_contents (ur_fifo u) @ ts_payload (source_next ?s k)"
      using u(7) by (simp add: k_def i'(4) flip: append_assoc)
    finally show ?thesis by (simp add: path_words_def p'_def)
  qed
  moreover have "live_tick p i = Inr (p', (sig, out), if uo_fw_valid out \<and> pi_ready i then [uo_fw_word out] else [])"
    using st by (simp add: live_tick_def live_step_def i'_def)
  ultimately show ?thesis using ok' u(2) by simp
qed

lemma live_tick_legal: "live_tick p i = Inr x \<Longrightarrow> path_legal i"
  by (auto simp: live_tick_def live_step_def path_legal_def dest!: path_step_legal)

text \<open>The payload is a flow, no edge fails on legal words, and no edge reports an error on the receive side.\<close>

interpretation uart_live: flow live_tick path_ok path_words "\<lambda>i out. path_taken i (fst out)" snd
proof unfold_locales
  show "path_ok s'" if "path_ok s" "live_tick s i = Inr (s', out)" for s i s' out
    using live_step_good [OF that(1) live_tick_legal [OF that(2)]] that(2) by auto
  show "path_words s @ path_taken i (fst out) = snd out @ path_words s'"
    if "path_ok s" "live_tick s i = Inr (s', out)" for s i s' out
    using live_step_good [OF that(1) live_tick_legal [OF that(2)]] that(2) by auto
qed

interpretation uart_live_total: total_machine live_tick path_ok "\<lambda>_. path_legal"
  by unfold_locales (use live_step_good in blast)

lemma live_no_error: "path_ok p \<Longrightarrow> live_tick p i = Inr (p', (sig, out), ws) \<Longrightarrow> \<not> uo_error out"
  using live_step_good [OF _ live_tick_legal] by fastforce

lemma live_run_no_error:
  "run live_tick p is = Inr (p', outs) \<Longrightarrow> path_ok p \<Longrightarrow> list_all (\<lambda>o'. \<not> uo_error (snd (fst o'))) outs"
proof (induction "is" arbitrary: p outs)
  case Nil
  then show ?case by simp
next
  case (Cons i "is")
  from Cons.prems(1) obtain p1 o1 outs1 where t: "live_tick p i = Inr (p1, o1)"
    and r: "run live_tick p1 is = Inr (p', outs1)" and outs: "outs = o1 # outs1" by (rule run_ConsE)
  have "path_ok p1" using uart_live.step_inv [OF Cons.prems(2) t] .
  moreover have "\<not> uo_error (snd (fst o1))"
    using live_no_error [OF Cons.prems(2), of i p1 "fst (fst o1)" "snd (fst o1)" "snd o1"] t by simp
  ultimately show ?case using Cons.IH [OF r] by (simp add: outs)
qed

lemma path_start_ok:
  assumes "urx_new d = Inr u"
  shows "path_ok (path_start u)" "path_words (path_start u) = []"
proof -
  have u: "\<not> ur_discard u" "\<not> ur_initialized u" "ur_reads u = 0" "1 \<le> ur_depth u" "fifo_contents (ur_fifo u) = []"
    using assms by (auto simp: urx_new_def fifo_init_def fifo_contents_def split: if_splits)
  have "path_live (path_start u) 0 0"
    using u by (simp add: path_live_def path_start_def source_new_def)
  then show "path_ok (path_start u)" using path_start_aligned [OF assms] by (auto simp: path_ok_def)
  show "path_words (path_start u) = []" using u by (simp add: path_words_def path_start_def source_new_def)
qed

end
