(* ===== verification/Uart_Reset.thy ===== *)
theory Uart_Reset
  imports Prelude
begin

section \<open>UART stream reset: the event sequencer\<close>

text \<open>
  Models \<open>simulator/UAlink2.0/model/ualink/uart_reset.py\<close>: the run-out of 40 No-Ops, the Request, the
  response deadline with its retries, and the responses owed to the peer. The passive checker
  \<open>wire_watch\<close> reads the events, the global reset among them, and the words on the wire.
\<close>

datatype seq_phase = Normal | Noops | Request_Word | Wait

datatype reset_kind = Noop_Kind | Request_Kind | Response_Kind

record reset_message =
  rm_kind :: reset_kind
  rm_word :: int

record reset_seq =
  rs_held :: bool
  rs_phase :: seq_phase
  rs_noops :: int
  rs_all :: bool
  rs_responses :: "bool list"
  rs_now :: int
  rs_deadline :: "int option"
  rs_retries :: int

definition timeout_ps :: int where "timeout_ps = 10000000000"

definition seq_reset :: reset_seq where
  "seq_reset = \<lparr>rs_held = True, rs_phase = Normal, rs_noops = 0, rs_all = False, rs_responses = [], rs_now = 0,
     rs_deadline = None, rs_retries = 0\<rparr>"

definition seq_release :: "reset_seq \<Rightarrow> reset_seq" where
  "seq_release s = s\<lparr>rs_held := False\<rparr>"

definition stream_disabled :: "reset_seq \<Rightarrow> bool" where
  "stream_disabled s \<longleftrightarrow> rs_held s \<or> rs_phase s \<noteq> Normal \<or> rs_responses s \<noteq> []"

definition block_messages :: "reset_seq \<Rightarrow> bool" where
  "block_messages s \<longleftrightarrow> rs_held s \<or> rs_phase s \<in> {Noops, Request_Word}"

definition seq_waiting :: "reset_seq \<Rightarrow> bool" where
  "seq_waiting s \<longleftrightarrow> rs_phase s = Wait"

definition start_runout :: "reset_seq \<Rightarrow> reset_seq" where
  "start_runout s = s\<lparr>rs_phase := Noops, rs_noops := 40, rs_deadline := None\<rparr>"

definition seq_request :: "reset_seq \<Rightarrow> bool \<Rightarrow> reset_seq \<times> bool" where
  "seq_request s all_streams =
     (if rs_held s \<or> rs_phase s \<noteq> Normal then (s, False)
      else (start_runout (s\<lparr>rs_all := all_streams\<rparr>), True))"

definition three_bits :: "int \<Rightarrow> py_error + unit" where
  "three_bits value = ensure (fits 3 value)"

definition seq_receive_request :: "reset_seq \<Rightarrow> int \<Rightarrow> bool \<Rightarrow> py_error + reset_seq \<times> bool" where
  "seq_receive_request s stream_id all_streams =
     rbind (three_bits stream_id) (\<lambda>_. Inr (
       if rs_held s \<or> (stream_id \<noteq> 0 \<and> \<not> all_streams) then (s, False)
       else (s\<lparr>rs_responses := rs_responses s @ [all_streams]\<rparr>, True)))"

definition seq_receive_response :: "reset_seq \<Rightarrow> int \<Rightarrow> int \<Rightarrow> bool \<Rightarrow> py_error + reset_seq \<times> bool" where
  "seq_receive_response s status stream_id all_streams =
     rbind (three_bits status) (\<lambda>_. rbind (three_bits stream_id) (\<lambda>_. Inr (
       if rs_held s \<or> rs_phase s \<noteq> Wait \<or> status \<noteq> 0 \<or> (stream_id \<noteq> 0 \<and> \<not> all_streams) then (s, False)
       else (s\<lparr>rs_phase := Normal, rs_deadline := None\<rparr>, True))))"

definition seq_offer :: "reset_seq \<Rightarrow> reset_message option" where
  "seq_offer s =
     (if rs_held s then None
      else if rs_phase s = Noops then Some \<lparr>rm_kind = Noop_Kind, rm_word = 0\<rparr>
      else if rs_phase s = Request_Word then Some \<lparr>rm_kind = Request_Kind, rm_word = 0x184 OR push_bit 12 (of_bool (rs_all s))\<rparr>
      else case rs_responses s of
          [] \<Rightarrow> None
        | scope # _ \<Rightarrow> Some \<lparr>rm_kind = Response_Kind, rm_word = 0x1C4 OR push_bit 12 (of_bool scope)\<rparr>)"

definition seq_service :: "reset_seq \<Rightarrow> bool \<Rightarrow> reset_seq \<times> reset_message option" where
  "seq_service s segment_available =
     (case seq_offer s of
        None \<Rightarrow> (s, None)
      | Some m \<Rightarrow>
          if \<not> segment_available then (s, None)
          else ((case rm_kind m of
              Noop_Kind \<Rightarrow>
                (let s = s\<lparr>rs_noops := rs_noops s - 1\<rparr> in if rs_noops s = 0 then s\<lparr>rs_phase := Request_Word\<rparr> else s)
            | Request_Kind \<Rightarrow> s\<lparr>rs_phase := Wait, rs_deadline := Some (rs_now s + timeout_ps)\<rparr>
            | Response_Kind \<Rightarrow> s\<lparr>rs_responses := tl (rs_responses s)\<rparr>), Some m))"

definition seq_advance :: "reset_seq \<Rightarrow> int \<Rightarrow> py_error + reset_seq" where
  "seq_advance s elapsed =
     rbind (ensure (0 \<le> elapsed)) (\<lambda>_.
       let s = s\<lparr>rs_now := rs_now s + elapsed\<rparr> in
       if rs_phase s = Wait then
         (case rs_deadline s of
            None \<Rightarrow> Inl TypeError
          | Some d \<Rightarrow> Inr (if rs_now s \<ge> d then start_runout (s\<lparr>rs_retries := rs_retries s + 1\<rparr>) else s))
       else Inr s)"

subsection \<open>The state\<close>

text \<open>A deadline exactly while waiting; between 1 and 40 No-Ops left exactly during the run-out.\<close>

definition seq_ok :: "reset_seq \<Rightarrow> bool" where
  "seq_ok s \<longleftrightarrow> (rs_deadline s \<noteq> None \<longleftrightarrow> rs_phase s = Wait) \<and>
     (if rs_phase s = Noops then 1 \<le> rs_noops s \<and> rs_noops s \<le> 40 else rs_noops s = 0) \<and>
     (rs_held s \<longrightarrow> rs_phase s = Normal \<and> rs_responses s = [])"

lemma seq_reset_ok [simp]: "seq_ok seq_reset"
  by (simp add: seq_reset_def seq_ok_def)

lemma seq_release_ok: "seq_ok s \<Longrightarrow> seq_ok (seq_release s)"
  by (simp add: seq_release_def seq_ok_def)

lemma seq_request_ok: "seq_ok s \<Longrightarrow> seq_request s a = (s', b) \<Longrightarrow> seq_ok s'"
  by (auto simp: seq_request_def start_runout_def seq_ok_def split: if_splits)

lemma seq_receive_request_ok: "seq_ok s \<Longrightarrow> seq_receive_request s n a = Inr (s', b) \<Longrightarrow> seq_ok s'"
  by (auto simp: seq_receive_request_def seq_ok_def split: if_splits)

lemma seq_receive_response_ok: "seq_ok s \<Longrightarrow> seq_receive_response s st n a = Inr (s', b) \<Longrightarrow> seq_ok s'"
  by (auto simp: seq_receive_response_def seq_ok_def split: if_splits)

lemma seq_service_ok: "seq_ok s \<Longrightarrow> seq_service s a = (s', m) \<Longrightarrow> seq_ok s'"
  by (auto simp: seq_service_def seq_offer_def seq_ok_def Let_def split: if_splits list.splits)

lemma seq_advance_ok: "seq_ok s \<Longrightarrow> seq_advance s n = Inr s' \<Longrightarrow> seq_ok s'"
  by (auto simp: seq_advance_def seq_ok_def start_runout_def Let_def split: if_splits option.splits)

text \<open>Time never fails on a legal state: the missing deadline cannot be compared.\<close>

lemma seq_advance_total:
  "seq_ok s \<Longrightarrow> 0 \<le> n \<Longrightarrow> seq_advance s n = Inr (
     if rs_phase s = Wait \<and> rs_now s + n \<ge> the (rs_deadline s)
     then start_runout (s\<lparr>rs_now := rs_now s + n, rs_retries := rs_retries s + 1\<rparr>) else s\<lparr>rs_now := rs_now s + n\<rparr>)"
  by (auto simp: seq_advance_def seq_ok_def Let_def split: option.splits)

subsection \<open>Events and the wire\<close>

datatype seq_event =
  Global_Reset | Release | Firmware_Request bool | Peer_Request int bool | Peer_Response int int bool | Serve bool | Elapse int

datatype seq_out = Quiet | Answer bool | Sent "reset_message option"

fun seq_step :: "reset_seq \<Rightarrow> seq_event \<Rightarrow> py_error + reset_seq \<times> seq_out" where
  "seq_step s Global_Reset = Inr (seq_reset, Quiet)"
| "seq_step s Release = Inr (seq_release s, Quiet)"
| "seq_step s (Firmware_Request a) = (let (s', b) = seq_request s a in Inr (s', Answer b))"
| "seq_step s (Peer_Request n a) = rbind (seq_receive_request s n a) (\<lambda>(s', b). Inr (s', Answer b))"
| "seq_step s (Peer_Response st n a) = rbind (seq_receive_response s st n a) (\<lambda>(s', b). Inr (s', Answer b))"
| "seq_step s (Serve a) = (let (s', m) = seq_service s a in Inr (s', Sent m))"
| "seq_step s (Elapse n) = rbind (seq_advance s n) (\<lambda>s'. Inr (s', Quiet))"

fun seq_event_ok :: "seq_event \<Rightarrow> bool" where
  "seq_event_ok (Peer_Request n a) \<longleftrightarrow> fits 3 n"
| "seq_event_ok (Peer_Response st n a) \<longleftrightarrow> fits 3 st \<and> fits 3 n"
| "seq_event_ok (Elapse n) \<longleftrightarrow> 0 \<le> n"
| "seq_event_ok _ \<longleftrightarrow> True"

lemma seq_step_ok: "seq_ok s \<Longrightarrow> seq_step s e = Inr (s', out) \<Longrightarrow> seq_ok s'"
  by (cases e) (auto simp: seq_release_ok split: prod.splits
      dest: seq_request_ok seq_receive_request_ok seq_receive_response_ok seq_service_ok seq_advance_ok)

lemma seq_step_total: "seq_ok s \<Longrightarrow> seq_event_ok e \<Longrightarrow> \<exists>s' out. seq_step s e = Inr (s', out)"
  by (cases e)
    (auto simp: seq_advance_total seq_receive_request_def seq_receive_response_def three_bits_def split: prod.splits)

interpretation reset_total: total_machine seq_step seq_ok "\<lambda>_. seq_event_ok"
  by unfold_locales (use seq_step_ok seq_step_total in blast)+

text \<open>
  The checker of the wire knows whether the stream is held, how many consecutive No-Ops were sent, the scope of the last
  accepted firmware request and the scopes of the accepted peer requests that are still owed a response. Nothing is
  sent while held; a Request comes after exactly 40 No-Ops and carries that scope; a response never
  interrupts a run-out and answers the oldest peer request. A global reset starts the checker again: it
  drops a run-out under way and the responses owed.
\<close>

record wire_view =
  wv_held :: bool
  wv_noops :: nat
  wv_scope :: bool
  wv_owed :: "bool list"

definition wire_start :: wire_view where
  "wire_start = \<lparr>wv_held = True, wv_noops = 0, wv_scope = False, wv_owed = []\<rparr>"

definition request_word :: "bool \<Rightarrow> int" where
  "request_word scope = 0x184 OR push_bit 12 (of_bool scope)"

definition response_word :: "bool \<Rightarrow> int" where
  "response_word scope = 0x1C4 OR push_bit 12 (of_bool scope)"

definition word_watch :: "wire_view \<Rightarrow> reset_message \<Rightarrow> unit + wire_view" where
  "word_watch v m =
     (if wv_held v then Inl ()
      else case rm_kind m of
          Noop_Kind \<Rightarrow>
            if wv_noops v < 40 \<and> rm_word m = 0 then Inr (v\<lparr>wv_noops := Suc (wv_noops v)\<rparr>) else Inl ()
        | Request_Kind \<Rightarrow>
            if wv_noops v = 40 \<and> rm_word m = request_word (wv_scope v) then Inr (v\<lparr>wv_noops := 0\<rparr>) else Inl ()
        | Response_Kind \<Rightarrow>
            (case wv_owed v of
               [] \<Rightarrow> Inl ()
             | scope # owed \<Rightarrow>
                 if wv_noops v = 0 \<and> rm_word m = response_word scope then Inr (v\<lparr>wv_owed := owed\<rparr>) else Inl ()))"

definition wire_watch :: "wire_view \<Rightarrow> seq_event \<times> seq_out \<Rightarrow> unit + wire_view" where
  "wire_watch v io =
     (case io of
        (Global_Reset, _) \<Rightarrow> Inr wire_start
      | (Release, _) \<Rightarrow> Inr (v\<lparr>wv_held := False\<rparr>)
      | (Firmware_Request scope, Answer accepted) \<Rightarrow>
          if \<not> accepted then Inr v
          else if wv_held v \<or> wv_noops v \<noteq> 0 then Inl () else Inr (v\<lparr>wv_scope := scope\<rparr>)
      | (Peer_Request stream scope, Answer accepted) \<Rightarrow>
          if accepted \<noteq> (\<not> wv_held v \<and> (stream = 0 \<or> scope)) then Inl ()
          else Inr (if accepted then v\<lparr>wv_owed := wv_owed v @ [scope]\<rparr> else v)
      | (_, Sent (Some m)) \<Rightarrow> word_watch v m
      | _ \<Rightarrow> Inr v)"

definition wire_seen :: "reset_seq \<Rightarrow> wire_view \<Rightarrow> bool" where
  "wire_seen s v \<longleftrightarrow> wv_held v = rs_held s \<and> wv_scope v = rs_all s \<and> wv_owed v = rs_responses s \<and>
     int (wv_noops v) = (case rs_phase s of Noops \<Rightarrow> 40 - rs_noops s | Request_Word \<Rightarrow> 40 | _ \<Rightarrow> 0)"

lemma wire_seen_reset [simp]: "wire_seen seq_reset wire_start"
  by (simp add: wire_seen_def seq_reset_def wire_start_def)

lemma service_watched:
  assumes "seq_ok s" "wire_seen s v" "seq_service s a = (s', Some m)"
  shows "\<exists>v'. word_watch v m = Inr v' \<and> wire_seen s' v'"
  using assms
  by (cases "rs_phase s") (auto simp: seq_service_def seq_offer_def wire_seen_def seq_ok_def word_watch_def request_word_def
      response_word_def Let_def split: if_splits list.splits)

lemma wire_watch_step:
  assumes "seq_ok s" "wire_seen s v" "seq_step s e = Inr (s', out)"
  shows "\<exists>v'. wire_watch v (e, out) = Inr v' \<and> wire_seen s' v'"
proof (cases e)
  case (Serve a)
  obtain m where m: "seq_service s a = (s', m)" "out = Sent m" using assms(3) Serve by (auto split: prod.splits)
  show ?thesis
  proof (cases m)
    case None
    then have "s' = s" using m(1) by (auto simp: seq_service_def Let_def split: option.splits if_splits)
    then show ?thesis using assms(2) m(2) None Serve by (simp add: wire_watch_def)
  next
    case (Some x)
    then show ?thesis using service_watched [OF assms(1,2)] m Serve by (simp add: wire_watch_def)
  qed
next
  case (Firmware_Request a)
  then show ?thesis using assms
    by (cases "rs_phase s") (auto simp: seq_request_def start_runout_def wire_seen_def wire_watch_def split: if_splits)
next
  case (Peer_Request n a)
  then show ?thesis using assms
    by (cases "rs_phase s") (auto simp: seq_receive_request_def wire_seen_def wire_watch_def split: if_splits)
next
  case (Peer_Response st n a)
  then show ?thesis using assms
    by (cases "rs_phase s") (auto simp: seq_receive_response_def wire_seen_def wire_watch_def split: if_splits)
next
  case (Elapse n)
  then show ?thesis using assms
    by (cases "rs_phase s") (auto simp: seq_advance_def start_runout_def wire_seen_def wire_watch_def Let_def split: if_splits option.splits)
next
  case Release
  then show ?thesis using assms
    by (cases "rs_phase s") (auto simp: seq_release_def wire_seen_def wire_watch_def)
next
  case Global_Reset
  then show ?thesis using assms by (auto simp: wire_watch_def)
qed

interpretation reset_wire: watched seq_step seq_ok wire_watch wire_seen
  by unfold_locales (rule wire_watch_step)

lemma wire_seen_noops: "seq_ok s \<Longrightarrow> wire_seen s v \<Longrightarrow> wv_noops v \<le> 40"
  by (auto simp: wire_seen_def seq_ok_def split: seq_phase.splits if_splits)

end
