(* ===== verification/Uart_Reset_Control.thy ===== *)
theory Uart_Reset_Control
  imports Uart_Reset
begin

section \<open>UART stream reset: the clocked controller\<close>

text \<open>
  Models \<open>simulator/UAlink2.0/model/ualink/uart_reset_control.py\<close>: the synchronous wrapper over the
  sequencer of \<open>Uart_Reset\<close>, with its finite response queue and its fault state. \<open>deepcopy\<close> is the value of the
  state itself. Every \<open>assert\<close> of the code is a branch of the model.
\<close>

record reset_signals =
  ro_local_ready :: bool
  ro_stream_reset :: bool
  ro_block_messages :: bool
  ro_tx_pending :: bool
  ro_tx_word :: int
  ro_tx_kind :: int
  ro_waiting :: bool
  ro_noops_left :: int
  ro_response_count :: int
  ro_local_start :: bool
  ro_local_done :: bool
  ro_retry :: bool
  ro_reply_done :: bool
  ro_fault :: bool
  ro_error :: bool

definition reset_no_signals :: reset_signals where
  "reset_no_signals = \<lparr>ro_local_ready = False, ro_stream_reset = False, ro_block_messages = False, ro_tx_pending = False,
     ro_tx_word = 0, ro_tx_kind = 0, ro_waiting = False, ro_noops_left = 0, ro_response_count = 0,
     ro_local_start = False, ro_local_done = False, ro_retry = False, ro_reply_done = False, ro_fault = False,
     ro_error = False\<rparr>"

record reset_control =
  rc_seq :: reset_seq
  rc_period :: int
  rc_depth :: int
  rc_requests :: int
  rc_responses :: int
  rc_noops :: int
  rc_fault :: bool

record reset_input =
  ci_reset :: bool
  ci_local_request :: bool
  ci_local_all :: bool
  ci_rx_request :: bool
  ci_request_all :: bool
  ci_rx_response :: bool
  ci_response_status :: int
  ci_tx_take :: bool

definition rc_clear :: "reset_control \<Rightarrow> reset_control" where
  "rc_clear c = c\<lparr>rc_seq := seq_release seq_reset, rc_requests := 0, rc_responses := 0, rc_noops := 0, rc_fault := False\<rparr>"

definition rc_new :: "int \<Rightarrow> int \<Rightarrow> py_error + reset_control" where
  "rc_new clock_period_ps response_depth =
     rbind (ensure (1 \<le> clock_period_ps \<and> clock_period_ps \<le> 1000000000)) (\<lambda>_.
     rbind (ensure (1 \<le> response_depth \<and> response_depth \<le> 16)) (\<lambda>_.
       Inr \<lparr>rc_seq = seq_release seq_reset, rc_period = clock_period_ps, rc_depth = response_depth, rc_requests = 0,
            rc_responses = 0, rc_noops = 0, rc_fault = False\<rparr>))"

fun kind_code :: "reset_kind \<Rightarrow> int" where
  "kind_code Noop_Kind = 1"
| "kind_code Request_Kind = 2"
| "kind_code Response_Kind = 3"

definition rc_observe :: "reset_control \<Rightarrow> reset_input \<Rightarrow> py_error + reset_signals" where
  "rc_observe c i =
     rbind (three_bits (ci_response_status i)) (\<lambda>_.
     if ci_reset i then Inr (reset_no_signals\<lparr>ro_stream_reset := True, ro_block_messages := True\<rparr>)
     else if rc_fault c then Inr (reset_no_signals\<lparr>ro_stream_reset := True, ro_block_messages := True, ro_fault := True\<rparr>)
     else
       let q = rc_seq c;
           ready = \<not> block_messages q \<and> \<not> seq_waiting q;
           start = ci_local_request i \<and> ready;
           success = ci_rx_response i \<and> ci_response_status i = 0 \<and> seq_waiting q
       in
       rbind (if success then rbind (seq_receive_response q 0 0 False) (\<lambda>(f, _). Inr f) else Inr q) (\<lambda>f.
       rbind (seq_advance f (rc_period c)) (\<lambda>future.
         let timeout = rs_retries future \<noteq> rs_retries q;
             msg = (if start \<or> timeout then None else seq_offer q);
             kind = (case msg of None \<Rightarrow> 0 | Some m \<Rightarrow> kind_code (rm_kind m));
             pending = msg \<noteq> None;
             reply = kind = 3 \<and> ci_tx_take i;
             count = rc_requests c - rc_responses c;
             overflow = ci_rx_request i \<and> count = rc_depth c \<and> \<not> reply;
             error = overflow \<or> (ci_tx_take i \<and> \<not> pending);
             noops = (if pending \<and> kind = 1 then 40 - rc_noops c else 0);
             noops = (case seq_offer q of Some m \<Rightarrow> if rm_kind m = Noop_Kind then 40 - rc_noops c else noops | None \<Rightarrow> noops)
         in Inr \<lparr>ro_local_ready = ready, ro_stream_reset = stream_disabled q \<or> start \<or> ci_rx_request i,
                 ro_block_messages = block_messages q \<or> start \<or> timeout, ro_tx_pending = pending,
                 ro_tx_word = (case msg of None \<Rightarrow> 0 | Some m \<Rightarrow> rm_word m), ro_tx_kind = kind,
                 ro_waiting = seq_waiting q, ro_noops_left = noops, ro_response_count = count, ro_local_start = start,
                 ro_local_done = success \<and> \<not> error, ro_retry = timeout \<and> \<not> error, ro_reply_done = reply,
                 ro_fault = False, ro_error = error\<rparr>)))"

definition rc_serve :: "reset_control \<Rightarrow> reset_signals \<Rightarrow> py_error + reset_control" where
  "rc_serve c out =
     (let (q, m) = seq_service (rc_seq c) True in
      case m of
        None \<Rightarrow> Inl AttributeError
      | Some m \<Rightarrow>
          if rm_word m \<noteq> ro_tx_word out then Inl AssertionError
          else Inr (case rm_kind m of
              Noop_Kind \<Rightarrow> c\<lparr>rc_seq := q, rc_noops := rc_noops c + 1\<rparr>
            | Response_Kind \<Rightarrow> c\<lparr>rc_seq := q, rc_responses := rc_responses c + 1\<rparr>
            | Request_Kind \<Rightarrow> c\<lparr>rc_seq := q\<rparr>))"

definition rc_done :: "reset_control \<Rightarrow> reset_signals \<Rightarrow> py_error + reset_control" where
  "rc_done c out =
     (if ro_local_done out then rbind (seq_receive_response (rc_seq c) 0 0 False) (\<lambda>(q, _). Inr (c\<lparr>rc_seq := q\<rparr>)) else Inr c)"

definition rc_elapse :: "reset_control \<Rightarrow> reset_signals \<Rightarrow> py_error + reset_control" where
  "rc_elapse c out =
     rbind (seq_advance (rc_seq c) (rc_period c)) (\<lambda>q.
       Inr (let c = c\<lparr>rc_seq := q\<rparr> in if ro_retry out then c\<lparr>rc_noops := 0\<rparr> else c))"

definition rc_start :: "reset_control \<Rightarrow> reset_input \<Rightarrow> reset_signals \<Rightarrow> py_error + reset_control" where
  "rc_start c i out =
     (if ro_local_start out then
        (let (q, accepted) = seq_request (rc_seq c) (ci_local_all i)
         in if accepted then Inr (c\<lparr>rc_seq := q, rc_noops := 0\<rparr>) else Inl AssertionError)
      else Inr c)"

definition rc_peer :: "reset_control \<Rightarrow> reset_input \<Rightarrow> py_error + reset_control" where
  "rc_peer c i =
     (if ci_rx_request i then
        rbind (seq_receive_request (rc_seq c) 0 (ci_request_all i)) (\<lambda>(q, accepted).
          if accepted then Inr (c\<lparr>rc_seq := q, rc_requests := rc_requests c + 1\<rparr>) else Inl AssertionError)
      else Inr c)"

definition rc_tick :: "reset_control \<Rightarrow> reset_input \<Rightarrow> py_error + reset_control \<times> reset_signals" where
  "rc_tick c i =
     rbind (rc_observe c i) (\<lambda>out.
     if ci_reset i then Inr (rc_clear c, out)
     else if rc_fault c then Inr (c, out)
     else if ro_error out then Inr ((rc_clear c)\<lparr>rc_fault := True\<rparr>, out)
     else
       rbind (rc_done c out) (\<lambda>c.
       rbind (rc_elapse c out) (\<lambda>c.
       rbind (rc_start c i out) (\<lambda>c.
       rbind (if ro_tx_pending out \<and> ci_tx_take i then rc_serve c out else Inr c) (\<lambda>c.
       rbind (rc_peer c i) (\<lambda>c. Inr (c, out)))))))"

definition rc_idle_input :: reset_input where
  "rc_idle_input = \<lparr>ci_reset = False, ci_local_request = False, ci_local_all = False, ci_rx_request = False,
     ci_request_all = False, ci_rx_response = False, ci_response_status = 0, ci_tx_take = False\<rparr>"

definition rc_advance_idle :: "reset_control \<Rightarrow> int \<Rightarrow> py_error + reset_control" where
  "rc_advance_idle c cycles =
     (if rc_fault c then Inr c
      else rbind (seq_advance (rc_seq c) (cycles * rc_period c)) (\<lambda>q.
        Inr (if rs_retries q \<noteq> rs_retries (rc_seq c) then c\<lparr>rc_seq := q, rc_noops := 0\<rparr> else c\<lparr>rc_seq := q\<rparr>)))"

definition rc_idle :: "reset_control \<Rightarrow> int \<Rightarrow> py_error + reset_control \<times> reset_signals" where
  "rc_idle c cycles =
     rbind (ensure (1 \<le> cycles)) (\<lambda>_.
     rbind (rc_observe c rc_idle_input) (\<lambda>before.
     rbind (if cycles > 1 then
         rbind (rc_tick c rc_idle_input) (\<lambda>(c1, _).
         rbind (rc_advance_idle c (cycles - 1)) (\<lambda>cl.
         rbind (rc_observe c1 rc_idle_input) (\<lambda>o1.
         if o1 \<noteq> before then Inl ValueError
         else rbind (rc_observe cl rc_idle_input) (\<lambda>ol. if ol \<noteq> before then Inl ValueError else Inr ()))))
       else Inr ()) (\<lambda>_.
     rbind (rc_advance_idle c cycles) (\<lambda>c'. Inr (c', before)))))"

subsection \<open>One edge\<close>

text \<open>
  The counters of the wrapper agree with the sequencer: the responses outstanding are queued, within the
  declared depth, and the No-Ops committed are those the sequencer has counted down.
\<close>

definition rc_ok :: "reset_control \<Rightarrow> bool" where
  "rc_ok c \<longleftrightarrow> seq_ok (rc_seq c) \<and> \<not> rs_held (rc_seq c) \<and> 1 \<le> rc_period c \<and> 1 \<le> rc_depth c \<and>
     rc_requests c - rc_responses c = int (length (rs_responses (rc_seq c))) \<and>
     int (length (rs_responses (rc_seq c))) \<le> rc_depth c \<and>
     (rs_phase (rc_seq c) = Noops \<longrightarrow> rc_noops c = 40 - rs_noops (rc_seq c))"

lemma rc_new_ok: "rc_new p d = Inr c \<Longrightarrow> rc_ok c"
  by (auto simp: rc_new_def rc_ok_def seq_release_def seq_reset_def seq_ok_def)

lemma rc_clear_ok: "rc_ok c \<Longrightarrow> rc_ok (rc_clear c)"
  by (auto simp: rc_clear_def rc_ok_def seq_release_def seq_reset_def seq_ok_def)

definition seq_success :: "reset_seq \<Rightarrow> reset_seq" where
  "seq_success q = q\<lparr>rs_phase := Normal, rs_deadline := None\<rparr>"

lemma seq_success_eq:
  "seq_waiting q \<Longrightarrow> \<not> rs_held q \<Longrightarrow> seq_receive_response q 0 0 False = Inr (seq_success q, True)"
  by (simp add: seq_receive_response_def three_bits_def seq_waiting_def seq_success_def)

text \<open>The clock edge seen by the sequencer, before the services.\<close>

definition edge_success :: "reset_control \<Rightarrow> reset_input \<Rightarrow> bool" where
  "edge_success c i \<longleftrightarrow> ci_rx_response i \<and> ci_response_status i = 0 \<and> seq_waiting (rc_seq c)"

definition edge_timeout :: "reset_control \<Rightarrow> reset_input \<Rightarrow> bool" where
  "edge_timeout c i \<longleftrightarrow> rs_phase (rc_seq c) = Wait \<and> \<not> edge_success c i \<and>
     rs_now (rc_seq c) + rc_period c \<ge> the (rs_deadline (rc_seq c))"

definition edge_start :: "reset_control \<Rightarrow> reset_input \<Rightarrow> bool" where
  "edge_start c i \<longleftrightarrow> ci_local_request i \<and> \<not> block_messages (rc_seq c) \<and> \<not> seq_waiting (rc_seq c)"

definition edge_seq :: "reset_control \<Rightarrow> reset_input \<Rightarrow> reset_seq" where
  "edge_seq c i =
     (let q = (if edge_success c i then seq_success (rc_seq c) else rc_seq c);
          q = q\<lparr>rs_now := rs_now (rc_seq c) + rc_period c\<rparr>
      in if edge_timeout c i then start_runout (q\<lparr>rs_retries := rs_retries (rc_seq c) + 1\<rparr>) else q)"

definition edge_offer :: "reset_control \<Rightarrow> reset_input \<Rightarrow> reset_message option" where
  "edge_offer c i = (if edge_start c i \<or> edge_timeout c i then None else seq_offer (rc_seq c))"

definition edge_reply :: "reset_control \<Rightarrow> reset_input \<Rightarrow> bool" where
  "edge_reply c i \<longleftrightarrow> pred_option (\<lambda>m. rm_kind m = Response_Kind) (edge_offer c i) \<and> edge_offer c i \<noteq> None \<and> ci_tx_take i"

definition edge_error :: "reset_control \<Rightarrow> reset_input \<Rightarrow> bool" where
  "edge_error c i \<longleftrightarrow> (ci_rx_request i \<and> rc_requests c - rc_responses c = rc_depth c \<and> \<not> edge_reply c i) \<or>
     (ci_tx_take i \<and> edge_offer c i = None)"

lemma rc_okD:
  assumes "rc_ok c"
  shows "seq_ok (rc_seq c)" "\<not> rs_held (rc_seq c)" "1 \<le> rc_period c" "1 \<le> rc_depth c"
    "rc_requests c - rc_responses c = int (length (rs_responses (rc_seq c)))"
    "int (length (rs_responses (rc_seq c))) \<le> rc_depth c"
    "rs_phase (rc_seq c) = Noops \<Longrightarrow> rc_noops c = 40 - rs_noops (rc_seq c)"
  using assms unfolding rc_ok_def by auto

lemma seq_success_ok: "seq_ok q \<Longrightarrow> seq_waiting q \<Longrightarrow> seq_ok (seq_success q)"
  by (auto simp: seq_ok_def seq_success_def seq_waiting_def)

lemma edge_advance:
  assumes "rc_ok c"
  shows "seq_advance (if edge_success c i then seq_success (rc_seq c) else rc_seq c) (rc_period c) = Inr (edge_seq c i)"
    and "rs_retries (edge_seq c i) \<noteq> rs_retries (rc_seq c) \<longleftrightarrow> edge_timeout c i"
proof -
  note ok = rc_okD [OF assms]
  have su: "edge_success c i \<Longrightarrow> seq_waiting (rc_seq c)" by (simp add: edge_success_def)
  have q: "seq_ok (if edge_success c i then seq_success (rc_seq c) else rc_seq c)"
    using ok(1) seq_success_ok su by auto
  show "seq_advance (if edge_success c i then seq_success (rc_seq c) else rc_seq c) (rc_period c) = Inr (edge_seq c i)"
    using seq_advance_total [OF q, of "rc_period c"] ok(3)
    by (auto simp: edge_seq_def edge_timeout_def Let_def seq_success_def)
  show "rs_retries (edge_seq c i) \<noteq> rs_retries (rc_seq c) \<longleftrightarrow> edge_timeout c i"
    by (simp add: edge_seq_def Let_def start_runout_def seq_success_def)
qed

definition edge_signals :: "reset_control \<Rightarrow> reset_input \<Rightarrow> reset_signals" where
  "edge_signals c i = \<lparr>ro_local_ready = \<not> block_messages (rc_seq c) \<and> \<not> seq_waiting (rc_seq c),
     ro_stream_reset = stream_disabled (rc_seq c) \<or> edge_start c i \<or> ci_rx_request i,
     ro_block_messages = block_messages (rc_seq c) \<or> edge_start c i \<or> edge_timeout c i,
     ro_tx_pending = edge_offer c i \<noteq> None,
     ro_tx_word = (case edge_offer c i of None \<Rightarrow> 0 | Some m \<Rightarrow> rm_word m),
     ro_tx_kind = (case edge_offer c i of None \<Rightarrow> 0 | Some m \<Rightarrow> kind_code (rm_kind m)),
     ro_waiting = seq_waiting (rc_seq c),
     ro_noops_left = (if rs_phase (rc_seq c) = Noops then 40 - rc_noops c else 0),
     ro_response_count = rc_requests c - rc_responses c,
     ro_local_start = edge_start c i, ro_local_done = edge_success c i \<and> \<not> edge_error c i,
     ro_retry = edge_timeout c i \<and> \<not> edge_error c i, ro_reply_done = edge_reply c i,
     ro_fault = False, ro_error = edge_error c i\<rparr>"

lemma rc_observe_eq:
  assumes "rc_ok c" "fits 3 (ci_response_status i)" "\<not> ci_reset i" "\<not> rc_fault c"
  shows "rc_observe c i = Inr (edge_signals c i)"
proof -
  note ok = rc_okD [OF assms(1)]
  have f: "(if edge_success c i
      then rbind (seq_receive_response (rc_seq c) 0 0 False) (\<lambda>(f, _). Inr f) else Inr (rc_seq c)) =
    (Inr (if edge_success c i then seq_success (rc_seq c) else rc_seq c) :: py_error + reset_seq)"
    using seq_success_eq ok(2) by (simp add: edge_success_def)
  have kind: "kind_code k = 3 \<longleftrightarrow> k = Response_Kind" "kind_code k = 1 \<longleftrightarrow> k = Noop_Kind" for k
    by (cases k; simp)+
  have off: "(case seq_offer (rc_seq c) of Some m \<Rightarrow> if rm_kind m = Noop_Kind then a else b | None \<Rightarrow> b) =
      (if rs_phase (rc_seq c) = Noops then a else b)" for a b :: int
    using ok(2) by (auto simp: seq_offer_def split: list.splits)
  have nn: "edge_offer c i = Some m \<Longrightarrow> rm_kind m = Noop_Kind \<Longrightarrow> rs_phase (rc_seq c) = Noops" for m
    by (auto simp: edge_offer_def seq_offer_def split: if_splits list.splits)
  show ?thesis
    using assms(2-4) nn
    unfolding rc_observe_def Let_def edge_success_def [symmetric] edge_start_def [symmetric] edge_signals_def
    by (cases "edge_offer c i")
      (simp_all add: three_bits_def f edge_advance [OF assms(1)] off kind edge_error_def edge_reply_def
        edge_offer_def [symmetric] del: rbind_eq_Inr, blast?)
qed

lemma rc_observe_edge:
  assumes "rc_ok c" "fits 3 (ci_response_status i)" "\<not> ci_reset i" "\<not> rc_fault c"
  obtains out where "rc_observe c i = Inr out" "ro_error out \<longleftrightarrow> edge_error c i"
    "ro_local_done out \<longleftrightarrow> edge_success c i \<and> \<not> edge_error c i" "ro_retry out \<longleftrightarrow> edge_timeout c i \<and> \<not> edge_error c i"
    "ro_local_start out \<longleftrightarrow> edge_start c i" "ro_tx_pending out \<longleftrightarrow> edge_offer c i \<noteq> None"
    "\<And>m. edge_offer c i = Some m \<Longrightarrow> ro_tx_word out = rm_word m"
    "ro_waiting out \<longleftrightarrow> seq_waiting (rc_seq c)"
    "ro_noops_left out = (if rs_phase (rc_seq c) = Noops then 40 - rc_noops c else 0)"
    "ro_response_count out = rc_requests c - rc_responses c"
  by (rule that [OF rc_observe_eq [OF assms]]) (simp_all add: edge_signals_def)

text \<open>The steps of the edge, each keeping the counters in agreement.\<close>

definition edge_control :: "reset_control \<Rightarrow> reset_input \<Rightarrow> reset_control" where
  "edge_control c i = c\<lparr>rc_seq := edge_seq c i, rc_noops := (if edge_timeout c i then 0 else rc_noops c)\<rparr>"

lemma edge_seq_sel:
  "rs_responses (edge_seq c i) = rs_responses (rc_seq c)" "rs_held (edge_seq c i) = rs_held (rc_seq c)"
  "rs_noops (edge_seq c i) = (if edge_timeout c i then 40 else rs_noops (rc_seq c))"
  "rs_phase (edge_seq c i) = (if edge_timeout c i then Noops else if edge_success c i then Normal else rs_phase (rc_seq c))"
  "rs_all (edge_seq c i) = rs_all (rc_seq c)"
  by (simp_all add: edge_seq_def Let_def start_runout_def seq_success_def)

lemma edge_control_ok:
  assumes "rc_ok c"
  shows "rc_ok (edge_control c i)"
proof -
  note ok = rc_okD [OF assms]
  have "seq_ok (edge_seq c i)"
  proof (rule seq_advance_ok [OF _ edge_advance(1) [OF assms]])
    show "seq_ok (if edge_success c i then seq_success (rc_seq c) else rc_seq c)"
      using ok(1) seq_success_ok by (auto simp: edge_success_def)
  qed
  then show ?thesis using ok by (auto simp: rc_ok_def edge_control_def edge_seq_sel)
qed

lemma edge_offer_kept: "edge_offer c i = Some m \<Longrightarrow> seq_offer (rc_seq (edge_control c i)) = Some m"
  by (auto simp: edge_offer_def edge_control_def seq_offer_def edge_seq_sel edge_success_def seq_waiting_def
      split: if_splits list.splits)

lemma rc_serve_ok:
  assumes "rc_ok c" "seq_offer (rc_seq c) = Some m" "ro_tx_word out = rm_word m"
  obtains c' where "rc_serve c out = Inr c'" "rc_ok c'" "rc_depth c' = rc_depth c" "rc_period c' = rc_period c"
    "length (rs_responses (rc_seq c')) = length (rs_responses (rc_seq c)) - (if rm_kind m = Response_Kind then 1 else 0)"
    "rm_kind m = Response_Kind \<Longrightarrow> rs_responses (rc_seq c) \<noteq> []"
proof -
  note ok = rc_okD [OF assms(1)]
  obtain q where q: "seq_service (rc_seq c) True = (q, Some m)" using assms(2) by (auto simp: seq_service_def)
  have qok: "seq_ok q" by (rule seq_service_ok [OF ok(1) q])
  define c' where "c' = (case rm_kind m of
              Noop_Kind \<Rightarrow> c\<lparr>rc_seq := q, rc_noops := rc_noops c + 1\<rparr>
            | Response_Kind \<Rightarrow> c\<lparr>rc_seq := q, rc_responses := rc_responses c + 1\<rparr>
            | Request_Kind \<Rightarrow> c\<lparr>rc_seq := q\<rparr>)"
  have st: "rc_serve c out = Inr c'" by (simp add: rc_serve_def q assms(3) c'_def)
  have k: "rm_kind m = Noop_Kind \<Longrightarrow> rs_phase (rc_seq c) = Noops"
    "rm_kind m = Response_Kind \<Longrightarrow> rs_responses (rc_seq c) \<noteq> [] \<and> rs_phase (rc_seq c) \<noteq> Noops"
    "rm_kind m = Request_Kind \<Longrightarrow> rs_phase (rc_seq c) = Request_Word"
    using assms(2) by (auto simp: seq_offer_def split: if_splits list.splits)
  have r: "rs_responses q = (if rm_kind m = Response_Kind then tl (rs_responses (rc_seq c)) else rs_responses (rc_seq c))"
    "rs_held q = rs_held (rc_seq c)"
    "rm_kind m = Noop_Kind \<Longrightarrow> rs_noops q = rs_noops (rc_seq c) - 1"
    "rm_kind m \<noteq> Noop_Kind \<Longrightarrow> rs_phase q \<noteq> Noops"
    using q k assms(2) by (cases "rm_kind m"; auto simp: seq_service_def Let_def split: if_splits)+
  have "rc_ok c'"
    using ok qok r k by (cases "rm_kind m"; cases "rs_responses (rc_seq c)") (auto simp: rc_ok_def c'_def)
  moreover have "rc_depth c' = rc_depth c" "rc_period c' = rc_period c" "rc_seq c' = q"
    by (cases "rm_kind m"; simp add: c'_def)+
  ultimately show thesis using st r(1) k(2) by (intro that [of c']) auto
qed

lemma rc_start_ok:
  assumes "rc_ok c" "ro_local_start out \<Longrightarrow> rs_phase (rc_seq c) = Normal"
  obtains c' where "rc_start c i out = Inr c'" "rc_ok c'" "rs_responses (rc_seq c') = rs_responses (rc_seq c)"
    "rc_depth c' = rc_depth c" "rc_period c' = rc_period c" "\<not> ro_local_start out \<Longrightarrow> c' = c"
proof (cases "ro_local_start out")
  case True
  note ok = rc_okD [OF assms(1)]
  let ?q = "start_runout ((rc_seq c)\<lparr>rs_all := ci_local_all i\<rparr>)"
  have rq: "seq_request (rc_seq c) (ci_local_all i) = (?q, True)"
    using ok(2) assms(2) [OF True] by (simp add: seq_request_def)
  have "seq_ok ?q" by (rule seq_request_ok [OF ok(1) rq])
  then have "rc_ok (c\<lparr>rc_seq := ?q, rc_noops := 0\<rparr>)" using ok by (simp add: rc_ok_def start_runout_def)
  then show thesis using True rq by (intro that [of "c\<lparr>rc_seq := ?q, rc_noops := 0\<rparr>"]) (simp_all add: rc_start_def start_runout_def)
next
  case False
  then show thesis using assms(1) by (intro that [of c]) (simp_all add: rc_start_def)
qed

lemma rc_peer_ok:
  assumes "rc_ok c" "ci_rx_request i \<Longrightarrow> int (length (rs_responses (rc_seq c))) < rc_depth c"
  shows "\<exists>c'. rc_peer c i = Inr c' \<and> rc_ok c' \<and> rc_period c' = rc_period c \<and> rc_depth c' = rc_depth c"
proof (cases "ci_rx_request i")
  case True
  note ok = rc_okD [OF assms(1)]
  let ?q = "(rc_seq c)\<lparr>rs_responses := rs_responses (rc_seq c) @ [ci_request_all i]\<rparr>"
  have rq: "seq_receive_request (rc_seq c) 0 (ci_request_all i) = Inr (?q, True)"
    using ok(2) by (simp add: seq_receive_request_def three_bits_def)
  have "seq_ok ?q" by (rule seq_receive_request_ok [OF ok(1) rq])
  then have "rc_ok (c\<lparr>rc_seq := ?q, rc_requests := rc_requests c + 1\<rparr>)" using ok assms(2) [OF True] by (simp add: rc_ok_def)
  then show ?thesis using True rq by (simp add: rc_peer_def)
qed (use assms(1) in \<open>simp add: rc_peer_def\<close>)

lemma rc_tick_good:
  assumes "rc_ok c" "fits 3 (ci_response_status i)"
  shows "\<exists>c' out. rc_tick c i = Inr (c', out) \<and> rc_ok c' \<and> rc_period c' = rc_period c \<and> rc_depth c' = rc_depth c"
proof (cases "ci_reset i \<or> rc_fault c")
  case True
  obtain out where o: "rc_observe c i = Inr out"
  proof (cases "ci_reset i")
    case True
    then show thesis using assms(2) by (intro that) (simp add: rc_observe_def three_bits_def)
  next
    case False
    then have "rc_fault c" using True by simp
    then show thesis using assms(2) False by (intro that) (simp add: rc_observe_def three_bits_def)
  qed
  have "rc_tick c i = Inr (if ci_reset i then rc_clear c else c, out)"
    using True by (cases "ci_reset i") (simp_all add: rc_tick_def o)
  then show ?thesis using assms(1) rc_clear_ok [OF assms(1)] by (simp add: rc_clear_def)
next
  case False
  then have nr: "\<not> ci_reset i" "\<not> rc_fault c" by simp_all
  note ok = rc_okD [OF assms(1)]
  obtain out where o: "rc_observe c i = Inr out" "ro_error out \<longleftrightarrow> edge_error c i"
    "ro_local_done out \<longleftrightarrow> edge_success c i \<and> \<not> edge_error c i" "ro_retry out \<longleftrightarrow> edge_timeout c i \<and> \<not> edge_error c i"
    "ro_local_start out \<longleftrightarrow> edge_start c i" "ro_tx_pending out \<longleftrightarrow> edge_offer c i \<noteq> None"
    "\<And>m. edge_offer c i = Some m \<Longrightarrow> ro_tx_word out = rm_word m"
    by (rule rc_observe_edge [OF assms nr]) (rule that; assumption)
  show ?thesis
  proof (cases "edge_error c i")
    case True
    have "rc_ok ((rc_clear c)\<lparr>rc_fault := True\<rparr>)" using rc_clear_ok [OF assms(1)] by (simp add: rc_ok_def)
    then show ?thesis using nr o(1,2) True by (simp add: rc_tick_def rc_clear_def)
  next
    case False
    let ?c2 = "edge_control c i"
    have c2: "rc_ok ?c2" by (rule edge_control_ok [OF assms(1)])
    have st2: "rbind (rc_done c out) (\<lambda>c. rbind (rc_elapse c out) k) = k ?c2" for k :: "reset_control \<Rightarrow> py_error + 'a"
      using edge_advance [OF assms(1), of i] seq_success_eq [of "rc_seq c"] ok(2) o(3,4) False
      by (cases "edge_success c i") (auto simp: rc_done_def rc_elapse_def edge_control_def edge_success_def Let_def)
    have ph: "rs_phase (rc_seq ?c2) = Normal" if "ro_local_start out"
      using that o(5) by (auto simp: edge_control_def edge_seq_sel edge_start_def edge_timeout_def block_messages_def
          seq_waiting_def ok(2) intro: seq_phase.exhaust [of "rs_phase (rc_seq c)"])
    obtain c3 where c3: "rc_start ?c2 i out = Inr c3" "rc_ok c3" "rs_responses (rc_seq c3) = rs_responses (rc_seq ?c2)"
      "rc_depth c3 = rc_depth ?c2" "rc_period c3 = rc_period ?c2" "\<not> ro_local_start out \<Longrightarrow> c3 = ?c2"
      by (rule rc_start_ok [where out = out and i = i, OF c2 ph]) (assumption, (rule that; assumption))
    have same: "rs_responses (rc_seq ?c2) = rs_responses (rc_seq c)" "rc_depth ?c2 = rc_depth c" "rc_period ?c2 = rc_period c"
      by (simp_all add: edge_control_def edge_seq_sel)
    obtain c4 where c4: "(if ro_tx_pending out \<and> ci_tx_take i then rc_serve c3 out else Inr c3) = Inr c4" "rc_ok c4"
      "rc_depth c4 = rc_depth c" "rc_period c4 = rc_period c"
      "ci_rx_request i \<Longrightarrow> int (length (rs_responses (rc_seq c4))) < rc_depth c"
    proof (cases "ro_tx_pending out \<and> ci_tx_take i")
      case True
      then obtain m where m: "edge_offer c i = Some m" using o(6) by auto
      then have "c3 = ?c2" using c3(6) o(5) by (auto simp: edge_offer_def split: if_splits)
      then have off: "seq_offer (rc_seq c3) = Some m" using edge_offer_kept [OF m] by simp
      obtain c' where c': "rc_serve c3 out = Inr c'" "rc_ok c'" "rc_depth c' = rc_depth c3" "rc_period c' = rc_period c3"
        "length (rs_responses (rc_seq c')) = length (rs_responses (rc_seq c3)) - (if rm_kind m = Response_Kind then 1 else 0)"
        "rm_kind m = Response_Kind \<Longrightarrow> rs_responses (rc_seq c3) \<noteq> []"
        by (rule rc_serve_ok [OF c3(2) off o(7) [OF m]]) (rule that; assumption)
      have "int (length (rs_responses (rc_seq c'))) < rc_depth c" if "ci_rx_request i"
      proof (cases "rm_kind m = Response_Kind")
        case True
        then show ?thesis using c'(5,6) c3(3) same ok(6) by (cases "rs_responses (rc_seq c)") simp_all
      next
        case False
        then have "rc_requests c - rc_responses c \<noteq> rc_depth c"
          using that \<open>\<not> edge_error c i\<close> m by (simp add: edge_error_def edge_reply_def)
        then show ?thesis using c'(5) c3(3) same ok(5,6) False by simp
      qed
      with True c' c3 same show thesis by (intro that [of c']) simp_all
    next
      case nt: False
      then have "\<not> ci_tx_take i" using o(6) False by (auto simp: edge_error_def)
      then have "rc_requests c - rc_responses c \<noteq> rc_depth c" if "ci_rx_request i"
        using that False by (auto simp: edge_error_def edge_reply_def)
      then have "int (length (rs_responses (rc_seq c3))) < rc_depth c" if "ci_rx_request i"
        using that ok(5,6) c3(3) same(1) by simp
      with nt c3(1-5) same show thesis by (intro that [of c3]) (simp_all only: if_not_P [OF nt] if_False)
    qed
    obtain c5 where c5: "rc_peer c4 i = Inr c5" "rc_ok c5" "rc_period c5 = rc_period c4" "rc_depth c5 = rc_depth c4"
      using rc_peer_ok [OF c4(2)] c4(3,5) by metis
    have "rc_tick c i = Inr (c5, out)"
      using nr o(1,2) False by (simp add: rc_tick_def st2 c3(1) c4(1) c5(1) del: rbind_eq_Inr)
    then show ?thesis using c5 c4(3,4) by simp
  qed
qed

lemma rc_tick_legal: "rc_tick c i = Inr x \<Longrightarrow> fits 3 (ci_response_status i)"
  by (auto simp: rc_tick_def rc_observe_def three_bits_def)

interpretation reset_control: total_machine rc_tick rc_ok "\<lambda>_ i. fits 3 (ci_response_status i)"
  by unfold_locales (use rc_tick_good rc_tick_legal in fastforce)+

subsection \<open>Bulk idle time\<close>

text \<open>
  The compression of idle time is exact: when it is accepted, ticking the same number of edges without inputs
  reaches the same state, and every one of them shows the outputs reported.
\<close>

lemma idle_edge:
  "\<not> edge_success c rc_idle_input" "\<not> edge_start c rc_idle_input"
  by (simp_all add: edge_success_def edge_start_def rc_idle_input_def)

lemma idle_tick:
  assumes "rc_ok c"
  obtains out where "rc_observe c rc_idle_input = Inr out"
    "rc_tick c rc_idle_input = Inr (if rc_fault c then c else edge_control c rc_idle_input, out)"
    "\<not> rc_fault c \<Longrightarrow> ro_retry out \<longleftrightarrow> edge_timeout c rc_idle_input"
    "\<not> rc_fault c \<Longrightarrow> ro_waiting out \<longleftrightarrow> seq_waiting (rc_seq c)"
proof (cases "rc_fault c")
  case True
  then show thesis
    by (intro that [of "reset_no_signals\<lparr>ro_stream_reset := True, ro_block_messages := True, ro_fault := True\<rparr>"])
      (simp_all add: rc_tick_def rc_observe_def three_bits_def rc_idle_input_def)
next
  case False
  let ?i = rc_idle_input
  have i: "fits 3 (ci_response_status ?i)" "\<not> ci_reset ?i" "\<not> ci_rx_request ?i" "\<not> ci_tx_take ?i"
    by (simp_all add: rc_idle_input_def)
  obtain out where o: "rc_observe c ?i = Inr out" "ro_error out \<longleftrightarrow> edge_error c ?i"
    "ro_local_done out \<longleftrightarrow> edge_success c ?i \<and> \<not> edge_error c ?i" "ro_retry out \<longleftrightarrow> edge_timeout c ?i \<and> \<not> edge_error c ?i"
    "ro_local_start out \<longleftrightarrow> edge_start c ?i" "ro_waiting out \<longleftrightarrow> seq_waiting (rc_seq c)"
    by (rule rc_observe_edge [OF assms i(1,2) False]) (rule that; assumption)
  have ne: "\<not> edge_error c ?i" using i by (simp add: edge_error_def)
  have adv: "seq_advance (rc_seq c) (rc_period c) = Inr (edge_seq c ?i)"
    using edge_advance(1) [OF assms, of ?i] idle_edge by simp
  have "rc_tick c ?i = Inr (edge_control c ?i, out)"
    using o ne i idle_edge False
    by (simp add: rc_tick_def rc_done_def rc_elapse_def rc_start_def rc_peer_def adv edge_control_def Let_def del: rbind_eq_Inr)
  with o ne False show thesis by (intro that) simp_all
qed

text \<open>The state after some idle edges, in one step.\<close>

definition idle_timeout :: "reset_control \<Rightarrow> int \<Rightarrow> bool" where
  "idle_timeout c n \<longleftrightarrow> rs_phase (rc_seq c) = Wait \<and> rs_now (rc_seq c) + n * rc_period c \<ge> the (rs_deadline (rc_seq c))"

definition idle_state :: "reset_control \<Rightarrow> int \<Rightarrow> reset_control" where
  "idle_state c n =
     (let q = (rc_seq c)\<lparr>rs_now := rs_now (rc_seq c) + n * rc_period c\<rparr> in
      if rc_fault c then c
      else if idle_timeout c n then c\<lparr>rc_seq := start_runout (q\<lparr>rs_retries := rs_retries (rc_seq c) + 1\<rparr>), rc_noops := 0\<rparr>
      else c\<lparr>rc_seq := q\<rparr>)"

lemma rc_advance_idle_eq:
  assumes "rc_ok c" "0 \<le> n"
  shows "rc_advance_idle c n = Inr (idle_state c n)"
proof -
  note ok = rc_okD [OF assms(1)]
  have "0 \<le> n * rc_period c" using assms(2) ok(3) by simp
  from seq_advance_total [OF ok(1) this] show ?thesis
    by (auto simp: rc_advance_idle_def idle_state_def idle_timeout_def start_runout_def Let_def)
qed

lemma idle_state_0: "rc_ok c \<Longrightarrow> idle_timeout c 0 = False \<Longrightarrow> idle_state c 0 = c"
  by (simp add: idle_state_def Let_def)

lemma idle_control: "edge_control c rc_idle_input = (if rc_fault c then edge_control c rc_idle_input else idle_state c 1)"
  by (simp add: edge_control_def idle_state_def edge_seq_def edge_timeout_def idle_timeout_def idle_edge Let_def)

lemma idle_state_add:
  assumes "rc_ok c" "0 \<le> n"
  shows "idle_state (idle_state c n) 1 = idle_state c (n + 1)"
proof (cases "rc_fault c \<or> rs_phase (rc_seq c) \<noteq> Wait")
  case True
  then show ?thesis by (auto simp: idle_state_def idle_timeout_def Let_def algebra_simps)
next
  case False
  then have f: "\<not> rc_fault c" "rs_phase (rc_seq c) = Wait" by simp_all
  have "1 \<le> rc_period c" using rc_okD(3) [OF assms(1)] .
  then show ?thesis using f
    by (auto simp: idle_state_def idle_timeout_def start_runout_def Let_def algebra_simps)
qed

text \<open>The outputs of an idle edge depend on the clock only through the deadline.\<close>

lemma now_irrelevant [simp]:
  "block_messages (q\<lparr>rs_now := t\<rparr>) = block_messages q" "seq_waiting (q\<lparr>rs_now := t\<rparr>) = seq_waiting q"
  "stream_disabled (q\<lparr>rs_now := t\<rparr>) = stream_disabled q" "seq_offer (q\<lparr>rs_now := t\<rparr>) = seq_offer q"
  by (simp_all add: block_messages_def seq_waiting_def stream_disabled_def seq_offer_def)

lemma edge_signals_now:
  assumes "edge_timeout (c\<lparr>rc_seq := (rc_seq c)\<lparr>rs_now := t\<rparr>\<rparr>) rc_idle_input = edge_timeout c rc_idle_input"
  shows "edge_signals (c\<lparr>rc_seq := (rc_seq c)\<lparr>rs_now := t\<rparr>\<rparr>) rc_idle_input = edge_signals c rc_idle_input"
  using assms by (simp add: edge_signals_def edge_error_def edge_reply_def edge_offer_def edge_start_def edge_success_def)

lemma rc_ok_now: "rc_ok c \<Longrightarrow> rc_ok (c\<lparr>rc_seq := (rc_seq c)\<lparr>rs_now := t\<rparr>\<rparr>)"
  by (simp add: rc_ok_def seq_ok_def)

definition idle_point :: "reset_control \<Rightarrow> nat \<Rightarrow> reset_control" where
  "idle_point c k = (if k = 0 then c else idle_state c (int k))"

lemma idle_point_tick:
  assumes "rc_ok c" "rc_ok (idle_point c k)"
  obtains out where "rc_observe (idle_point c k) rc_idle_input = Inr out"
    "rc_tick (idle_point c k) rc_idle_input = Inr (idle_point c (Suc k), out)" "rc_ok (idle_point c (Suc k))"
proof -
  obtain out where o: "rc_observe (idle_point c k) rc_idle_input = Inr out"
    "rc_tick (idle_point c k) rc_idle_input =
       Inr (if rc_fault (idle_point c k) then idle_point c k else edge_control (idle_point c k) rc_idle_input, out)"
    by (rule idle_tick [OF assms(2)]) (rule that; assumption)
  have fault: "rc_fault (idle_point c k) = rc_fault c" by (simp add: idle_point_def idle_state_def Let_def)
  have "(if rc_fault (idle_point c k) then idle_point c k else edge_control (idle_point c k) rc_idle_input) = idle_point c (Suc k)"
  proof (cases "rc_fault c")
    case True
    then show ?thesis unfolding fault by (simp add: idle_point_def idle_state_def)
  next
    case False
    then have "edge_control (idle_point c k) rc_idle_input = idle_state (idle_point c k) 1"
      using idle_control [of "idle_point c k"] fault by simp
    also have "\<dots> = idle_point c (Suc k)"
      using idle_state_add [OF assms(1), of "int k"] by (simp add: idle_point_def add.commute)
    finally show ?thesis using False fault by simp
  qed
  then have "rc_tick (idle_point c k) rc_idle_input = Inr (idle_point c (Suc k), out)" using o(2) by simp
  with o(1) reset_control.step_inv [OF assms(2)] show thesis by (intro that) blast+
qed

lemma idle_point_ok: "rc_ok c \<Longrightarrow> rc_ok (idle_point c k)"
proof (induction k)
  case 0
  then show ?case by (simp add: idle_point_def)
next
  case (Suc k)
  show ?case by (rule idle_point_tick [OF Suc.prems Suc.IH [OF Suc.prems]])
qed

lemma idle_points_run:
  assumes "rc_ok c" "\<And>k. k < n \<Longrightarrow> rc_observe (idle_point c (m + k)) rc_idle_input = Inr before"
  shows "run rc_tick (idle_point c m) (replicate n rc_idle_input) = Inr (idle_point c (m + n), replicate n before)"
  using assms(2)
proof (induction n arbitrary: m)
  case 0
  then show ?case by simp
next
  case (Suc n)
  obtain out where o: "rc_observe (idle_point c m) rc_idle_input = Inr out"
    "rc_tick (idle_point c m) rc_idle_input = Inr (idle_point c (Suc m), out)"
    by (rule idle_point_tick [OF assms(1) idle_point_ok [OF assms(1)]]) (rule that; assumption)
  have "out = before" using Suc.prems [of 0] o(1) by simp
  moreover have "run rc_tick (idle_point c (Suc m)) (replicate n rc_idle_input) = Inr (idle_point c (Suc m + n), replicate n before)"
    using Suc.prems [of "Suc k" for k] by (intro Suc.IH) simp
  ultimately show ?case using o(2) by simp
qed

text \<open>No timeout up to the point before the end means the same outputs all the way.\<close>

lemma idle_point_same:
  assumes "rc_ok c" "\<not> rc_fault c" "\<not> idle_timeout c (int k)" "edge_timeout (idle_point c k) rc_idle_input = edge_timeout c rc_idle_input"
  shows "rc_observe (idle_point c k) rc_idle_input = rc_observe c rc_idle_input"
proof (cases "k = 0")
  case False
  then have p: "idle_point c k = c\<lparr>rc_seq := (rc_seq c)\<lparr>rs_now := rs_now (rc_seq c) + int k * rc_period c\<rparr>\<rparr>"
    using assms(2,3) by (simp add: idle_point_def idle_state_def Let_def)
  have i: "fits 3 (ci_response_status rc_idle_input)" "\<not> ci_reset rc_idle_input" by (simp_all add: rc_idle_input_def)
  show ?thesis using rc_observe_eq [OF rc_ok_now [OF assms(1)] i] rc_observe_eq [OF assms(1) i assms(2)]
      edge_signals_now assms(2,4) unfolding p by simp
qed (simp add: idle_point_def)

theorem idle_exact:
  assumes "rc_ok c" "rc_idle c n = Inr (c', before)"
  shows "run rc_tick c (replicate (nat n) rc_idle_input) = Inr (c', replicate (nat n) before)"
proof -
  have n1: "1 \<le> n" using assms(2) unfolding rc_idle_def by (rule ensureD)
  obtain b where b: "rc_observe c rc_idle_input = Inr b" using idle_tick [OF assms(1)] by metis
  have adv: "rc_advance_idle c k = Inr (idle_state c k)" if "0 \<le> k" for k by (rule rc_advance_idle_eq [OF assms(1) that])
  have bb: "b = before" "c' = idle_state c n"
    using assms(2) n1 adv [of n] unfolding rc_idle_def b by (simp_all split: if_splits)
  have lst: "rc_observe (idle_state c (n - 1)) rc_idle_input = Inr before" if "1 < n"
    using assms(2) that n1 adv [of "n - 1"] bb(1) unfolding rc_idle_def b by (auto split: if_splits)
  define N where "N = nat n"
  have N: "n = int N" "1 \<le> N" using n1 by (simp_all add: N_def)
  have all: "rc_observe (idle_point c k) rc_idle_input = Inr before" if "k < N" for k
  proof (cases "k = 0 \<or> k = N - 1")
    case True
    then show ?thesis using b bb lst that N by (cases "k = 0") (auto simp: idle_point_def of_nat_diff)
  next
    case False
    then have k: "0 < k" "k + 1 \<le> N - 1" "1 < n" using that N by auto
    show ?thesis
    proof (cases "rc_fault c")
      case True
      then show ?thesis using b bb by (simp add: idle_point_def idle_state_def)
    next
      case nf: False
      have "\<not> idle_timeout c (int (N - 1))"
      proof
        assume t: "idle_timeout c (int (N - 1))"
        then have w: "seq_waiting (rc_seq c)" by (simp add: idle_timeout_def seq_waiting_def)
        have "rs_phase (rc_seq (idle_state c (n - 1))) = Noops"
          using t nf N by (simp add: idle_state_def Let_def start_runout_def of_nat_diff)
        then have nw: "\<not> seq_waiting (rc_seq (idle_state c (n - 1)))" by (simp add: seq_waiting_def)
        have ok': "rc_ok (idle_state c (n - 1))"
          using idle_point_ok [OF assms(1), of "N - 1"] k N by (simp add: idle_point_def of_nat_diff split: if_splits)
        have nf': "\<not> rc_fault (idle_state c (n - 1))" using nf by (simp add: idle_state_def Let_def)
        have "ro_waiting before \<longleftrightarrow> seq_waiting (rc_seq c)"
          by (rule idle_tick [OF assms(1)]) (use b bb nf in auto)
        moreover have "ro_waiting before \<longleftrightarrow> seq_waiting (rc_seq (idle_state c (n - 1)))"
          by (rule idle_tick [OF ok']) (use lst k nf' in auto)
        ultimately show False using w nw by simp
      qed
      then have nt: "\<not> idle_timeout c m" if "m \<le> int (N - 1)" for m
      proof -
        have "m * rc_period c \<le> int (N - 1) * rc_period c"
          using rc_okD(3) [OF assms(1)] by (intro mult_right_mono [OF that]) simp
        with \<open>\<not> idle_timeout c (int (N - 1))\<close> show ?thesis unfolding idle_timeout_def by linarith
      qed
      have "\<not> edge_timeout c rc_idle_input" using nt [of 1] k by (simp add: edge_timeout_def idle_timeout_def)
      moreover have "\<not> edge_timeout (idle_point c k) rc_idle_input"
      proof -
        have k': "int k + 1 \<le> int (N - 1)" "int k \<le> int (N - 1)" using k(2) by linarith+
        have "idle_point c k = c\<lparr>rc_seq := (rc_seq c)\<lparr>rs_now := rs_now (rc_seq c) + int k * rc_period c\<rparr>\<rparr>"
          using nt [OF k'(2)] k nf by (simp add: idle_point_def idle_state_def Let_def)
        then show ?thesis using nt [OF k'(1)] by (simp add: edge_timeout_def idle_timeout_def algebra_simps)
      qed
      ultimately show ?thesis
        using idle_point_same [OF assms(1) nf nt [of "int k"]] k b bb by simp
    qed
  qed
  have "run rc_tick (idle_point c 0) (replicate N rc_idle_input) = Inr (idle_point c (0 + N), replicate N before)"
    by (rule idle_points_run [OF assms(1)]) (simp add: all)
  then show ?thesis using N by (simp add: idle_point_def bb(2))
qed

end
