(* ===== verification/Props_Uart.thy ===== *)
theory Props_Uart
  imports Uart_Credit Uart_Path Uart_Reset_Control
begin

section \<open>Properties of the UART stream\<close>

text \<open>
  Properties of the stream credits, of the path from source to reader and of the reset sequence, each with its witness.
\<close>

text \<open>C6: Credits are sound: two fresh ends, released from reset and with Channel 4
  enabled throughout, exchanging transports and credit updates over delaying wires, in
  any order of events, never overflow the receiver and never raise, and the words read, those in
  transit and those staged are the words written, in order.\<close>

theorem uart_credits_sound:
  assumes "uart_new ta ra = Inr a" "uart_new tb rb = Inr b" and "\<forall>e \<in> set es. uart_event_ok e"
  shows "\<exists>l outs. run uart_link_step (uart_link_start a b) es = Inr (l, outs) \<and>
     concat (map fst outs) = concat (map snd outs) @ uart_words l \<and>
     int (length (ua_rx (ul_receiver l))) + int (length (concat (ul_wire l))) \<le> rb"
proof -
  note st = uart_link_start_ok [OF assms(1,2)]
  obtain l outs where r: "run uart_link_step (uart_link_start a b) es = Inr (l, outs)" "uart_link_ok l"
    using uart_total.run_total [OF st(1), of es] assms(3) by blast
  have "map2 (\<lambda>e. fst) es outs = map fst outs"
    using run_length [OF r(1)] by (simp add: map2_map_map [symmetric] zip_map_fst_snd split_def flip: map_map [unfolded comp_def])
  then have "concat (map fst outs) = concat (map snd outs) @ uart_words l"
    using uart_flow.flow_run [OF r(1) st(1)] st(2) by simp
  moreover have "int (length (ua_rx (ul_receiver l))) + int (length (concat (ul_wire l))) \<le> rb"
    using uart_run_room [OF r(1) st(1)] assms(2) by (simp add: uart_link_start_depth)
  ultimately show ?thesis using r(1) by blast
qed

definition demo_uart :: uart where
  "demo_uart = projr (uart_new 8 2)"

lemma demo_uart: "uart_new 8 2 = Inr demo_uart"
  unfolding demo_uart_def by (rule projr_ok) code_simp

theorem uart_credits_sound_witness:
  "\<exists>l outs. run uart_link_step (uart_link_start demo_uart demo_uart)
     [Write_Word 5, Write_Word 6, Write_Word 7, Send_Credit, Deliver_Credit, Send_Transport, Deliver_Transport, Read_Word] =
       Inr (l, outs) \<and> concat (map fst outs) = concat (map snd outs) @ uart_words l"
proof -
  have "\<forall>e \<in> set [Write_Word 5, Write_Word 6, Write_Word 7, Send_Credit, Deliver_Credit, Send_Transport,
      Deliver_Transport, Read_Word]. uart_event_ok e"
    by (simp add: fits_def)
  from uart_credits_sound [OF demo_uart demo_uart this] show ?thesis by blast
qed

text \<open>C19: End to end at the clock: with Channel 4 up, a fresh source and a fresh receive path joined by served
  words and credit snapshots (taken at any edges) never raise and never signal a receive error, and
  the words the firmware reads are the payload words staged at the source, in order.\<close>

theorem uart_path_delivers:
  assumes "urx_new d = Inr u" and "\<forall>i \<in> set is. path_legal i"
  shows "\<exists>p outs. run live_tick (path_start u) is = Inr (p, outs) \<and>
     list_all (\<lambda>out. \<not> uo_error (snd (fst out))) outs \<and>
     concat (map2 (\<lambda>i out. path_taken i (fst out)) is outs) = concat (map snd outs) @ path_words p"
proof -
  note st = path_start_ok [OF assms(1)]
  obtain p outs where r: "run live_tick (path_start u) is = Inr (p, outs)"
    using uart_live_total.run_total [OF st(1), of "is"] assms(2) by blast
  with uart_live.flow_run [OF r st(1)] live_run_no_error [OF r st(1)] st(2) show ?thesis by simp
qed

definition demo_urx :: uart_rx where
  "demo_urx = projr (urx_new 4)"

lemma demo_urx: "urx_new 4 = Inr demo_urx"
  unfolding demo_urx_def by (rule projr_ok) code_simp

definition demo_path_input :: path_input where
  "demo_path_input = \<lparr>pi_source = \<lparr>si_enabled = True, si_fill = 2, si_valid = True, si_word = 77, si_credit_valid = False,
     si_credit = 0, si_take = True, si_reset = False\<rparr>, pi_grant = True, pi_stream_reset = False, pi_ready = True\<rparr>"

theorem uart_path_delivers_witness:
  "\<exists>p outs. run live_tick (path_start demo_urx) (replicate 12 demo_path_input) = Inr (p, outs) \<and>
     list_all (\<lambda>out. \<not> uo_error (snd (fst out))) outs"
proof -
  have "\<forall>i \<in> set (replicate 12 demo_path_input). path_legal i"
    by (simp add: demo_path_input_def path_legal_def fits_def)
  from uart_path_delivers [OF demo_urx this] show ?thesis by blast
qed

text \<open>Framing survives every disable, stream reset and credit pattern: the receive path always expects
  exactly as many further words of the current message as the source has left to send, and no edge
  raises on legal words.\<close>

theorem uart_framing_agrees:
  assumes "urx_new d = Inr u" and "\<forall>i \<in> set is. path_legal i"
  shows "\<exists>p outs. run path_step (path_start u) is = Inr (p, outs) \<and>
     ur_remaining (up_rx p) = source_left (up_source p)"
  using uart_framing.run_total [OF path_start_aligned [OF assms(1)], of "is"] assms(2)
  by (auto simp: path_aligned_def)

theorem uart_framing_agrees_witness:
  "\<exists>p outs. run path_step (path_start demo_urx)
     (replicate 9 demo_path_input @ [demo_path_input\<lparr>pi_stream_reset := True\<rparr>, demo_path_input]) = Inr (p, outs) \<and>
     ur_remaining (up_rx p) = source_left (up_source p)"
proof -
  have "\<forall>i \<in> set (replicate 9 demo_path_input @ [demo_path_input\<lparr>pi_stream_reset := True\<rparr>, demo_path_input]). path_legal i"
    by (auto simp: demo_path_input_def path_legal_def fits_def)
  from uart_framing_agrees [OF demo_urx this] show ?thesis .
qed

text \<open>C22: The wire of the reset sequencer is legal: on any events with arguments in range, global resets among them, the
  sequencer raises nothing, and a checker that is told the events accepts every word it sends. The checker demands that
  nothing is sent between a global reset and the release; that every Request comes after exactly 40
  consecutive No-Ops of the same life and carries the scope of the last accepted firmware request; that no response
  interrupts a run-out; and that each response answers, with its scope, the oldest accepted peer request since
  the last global reset that has none yet. What the checker holds as owed is what the sequencer holds.\<close>

theorem reset_wire_legal:
  assumes "\<forall>e \<in> set es. seq_event_ok e"
  shows "\<exists>s outs v. run seq_step seq_reset es = Inr (s, outs) \<and> rfold wire_watch wire_start (zip es outs) = Inr v \<and>
     wv_noops v \<le> 40 \<and> wv_owed v = rs_responses s \<and> wv_held v = rs_held s"
proof -
  obtain s outs where r: "run seq_step seq_reset es = Inr (s, outs)" "seq_ok s"
    using reset_total.run_total [OF seq_reset_ok, of es] assms by blast
  obtain v where v: "rfold wire_watch wire_start (zip es outs) = Inr v" "wire_seen s v"
    using reset_wire.run_watched [OF r(1) seq_reset_ok wire_seen_reset] by blast
  with r wire_seen_noops [OF r(2) v(2)] show ?thesis by (auto simp: wire_seen_def)
qed

definition demo_reset_events :: "seq_event list" where
  "demo_reset_events =
     [Release, Firmware_Request False] @ replicate 17 (Serve True) @ [Peer_Request 0 True, Global_Reset, Serve True] @
     [Release, Firmware_Request True] @ replicate 41 (Serve True) @ [Peer_Request 0 True, Elapse 10000000000, Serve True]"

theorem reset_wire_legal_witness:
  "\<exists>s outs v. run seq_step seq_reset demo_reset_events = Inr (s, outs) \<and>
     rfold wire_watch wire_start (zip demo_reset_events outs) = Inr v \<and> rs_responses s = [True] \<and> wv_owed v = [True]"
proof -
  have ok: "\<forall>e \<in> set demo_reset_events. seq_event_ok e" by code_simp
  have f: "map_sum id (\<lambda>(s, _). rs_responses s) (run seq_step seq_reset demo_reset_events) = Inr [True]" by code_simp
  from reset_wire_legal [OF ok] f show ?thesis by (auto simp del: seq_step.simps)
qed

text \<open>The clocked reset controller never fails: on any inputs no assertion of its tick is violated and no
  missing deadline is compared, and the responses it counts as outstanding are queued within the
  declared depth.\<close>

theorem reset_control_never_fails:
  assumes "rc_new p d = Inr c" and "\<forall>i \<in> set is. fits 3 (ci_response_status i)"
  shows "\<exists>c' outs. run rc_tick c is = Inr (c', outs) \<and>
     rc_requests c' - rc_responses c' = int (length (rs_responses (rc_seq c'))) \<and>
     int (length (rs_responses (rc_seq c'))) \<le> rc_depth c'"
  using reset_control.run_total [OF rc_new_ok [OF assms(1)], of "is"] assms(2) by (auto dest: rc_okD(5,6))

definition demo_reset :: reset_control where
  "demo_reset = projr (rc_new 640 1)"

lemma demo_reset: "rc_new 640 1 = Inr demo_reset"
  unfolding demo_reset_def by (rule projr_ok) code_simp

theorem reset_control_never_fails_witness:
  "\<exists>c' outs. run rc_tick demo_reset [rc_idle_input\<lparr>ci_rx_request := True\<rparr>, rc_idle_input\<lparr>ci_tx_take := True, ci_rx_request := True\<rparr>] =
     Inr (c', outs)"
proof -
  have "\<forall>i \<in> set [rc_idle_input\<lparr>ci_rx_request := True\<rparr>, rc_idle_input\<lparr>ci_tx_take := True, ci_rx_request := True\<rparr>].
      fits 3 (ci_response_status i)"
    by (simp add: rc_idle_input_def)
  from reset_control_never_fails [OF demo_reset this] show ?thesis by blast
qed

text \<open>Bulk idle time is exact: when the controller accepts the compression of a number of idle cycles from a
  reachable state, ticking that many edges without inputs reaches the same state, and every edge
  shows the reported outputs.\<close>

theorem reset_idle_exact:
  assumes "rc_new p d = Inr c0" and "reach rc_tick c0 c" and "rc_idle c n = Inr (c', before)"
  shows "run rc_tick c (replicate (nat n) rc_idle_input) = Inr (c', replicate (nat n) before)"
  by (rule idle_exact [OF reset_control.reach_inv [OF assms(2) rc_new_ok [OF assms(1)]] assms(3)])

theorem reset_idle_exact_witness:
  "\<exists>c' before. rc_idle demo_reset 5 = Inr (c', before) \<and>
     run rc_tick demo_reset (replicate 5 rc_idle_input) = Inr (c', replicate 5 before)"
proof -
  have "\<not> isl (rc_idle demo_reset 5)" unfolding demo_reset_def by code_simp
  then obtain c' before where i: "rc_idle demo_reset 5 = Inr (c', before)" by (metis projr_ok surj_pair)
  from reset_idle_exact [OF demo_reset reach_start i] i show ?thesis by simp
qed

end
