(* ===== verification/Rs_Codec.thy ===== *)
theory Rs_Codec
  imports Prelude
begin

section \<open>Reconciliation sublayer: block codec\<close>

text \<open>
  Models \<open>simulator/UAlink2.0/model/ualink/rs_block_codec.py\<close> (and its copy under \<open>model/phy\<close>): the 64-bit
  blocks with their sync header, and complete flits of 80 blocks. Octets are integers; that they fit eight
  bits is the type \<open>bytes\<close> of the source, \<open>octets_ok\<close> here. Kinds and markers are the strings of the source.
\<close>

subsection \<open>Digits\<close>

definition from_digits :: "nat \<Rightarrow> int list \<Rightarrow> int" where
  "from_digits k ds = foldr (\<lambda>d n. d + 2 ^ k * n) ds 0"

definition digits :: "nat \<Rightarrow> nat \<Rightarrow> int \<Rightarrow> int list" where
  "digits k n p = map (\<lambda>i. fld p (k * i) k) [0..<n]"

lemma from_digits_simps [simp]:
  "from_digits k [] = 0" "from_digits k (d # ds) = d + 2 ^ k * from_digits k ds"
  by (simp_all add: from_digits_def)

lemma digits_length [simp]: "length (digits k n p) = n"
  by (simp add: digits_def)

lemma fld_div: "fld p (k + k * i) k = fld (p div 2 ^ k) (k * i) k"
  by (simp add: fld_def ac_simps flip: drop_bit_eq_div)

lemma digits_Suc: "digits k (Suc n) p = fld p 0 k # digits k n (p div 2 ^ k)"
  by (simp add: digits_def upt_conv_Cons fld_div del: upt_Suc flip: map_Suc_upt)

lemma fld_0_mod: "fld p 0 k = p mod 2 ^ k"
  by (simp add: fld_def take_bit_eq_mod)

lemma digits_from_digits: "list_all (fits k) ds \<Longrightarrow> digits k (length ds) (from_digits k ds) = ds"
  by (induction ds) (simp_all add: digits_Suc fld_0_mod fits_def, simp add: digits_def)

lemma from_digits_digits: "0 \<le> p \<Longrightarrow> p < 2 ^ (k * n) \<Longrightarrow> from_digits k (digits k n p) = p"
proof (induction n arbitrary: p)
  case 0
  then show ?case by (simp add: digits_def)
next
  case (Suc n)
  have "fits (k * n) (drop_bit k p)"
    by (rule fits_drop [of "k * Suc n"]) (use Suc.prems in \<open>simp_all add: fits_def\<close>)
  then have "0 \<le> p div 2 ^ k" "p div 2 ^ k < 2 ^ (k * n)" by (simp_all only: fits_def drop_bit_eq_div)
  then show ?case using Suc by (simp add: digits_Suc fld_0_mod)
qed

lemma from_digits_range: "list_all (fits k) ds \<Longrightarrow> 0 \<le> from_digits k ds \<and> from_digits k ds < 2 ^ (k * length ds)"
proof (induction ds)
  case (Cons d ds)
  then have d: "0 \<le> d" "d < 2 ^ k" "0 \<le> from_digits k ds" "from_digits k ds + 1 \<le> 2 ^ (k * length ds)"
    by (simp_all add: fits_def)
  have "2 ^ k * (from_digits k ds + 1) \<le> 2 ^ k * 2 ^ (k * length ds)" using d(4) by (intro mult_left_mono) simp_all
  then show ?case using d by (simp add: power_add algebra_simps)
qed simp

lemma digits_fits: "list_all (fits k) (digits k n p)"
  by (simp add: digits_def list_all_iff)

lemma from_digits_append: "from_digits k (xs @ ys) = from_digits k xs + 2 ^ (k * length xs) * from_digits k ys"
  by (induction xs) (simp_all add: power_add algebra_simps)

subsection \<open>Blocks\<close>

record block =
  blk_sync :: int
  blk_payload :: int

definition octets_ok :: "int list \<Rightarrow> bool" where
  "octets_ok data \<longleftrightarrow> list_all (fits 8) data"

definition octets :: "int list \<Rightarrow> nat \<Rightarrow> py_error + unit" where
  "octets data n = ensure (length data = n)"

definition little :: "int list \<Rightarrow> int" where
  "little data = from_digits 8 data"

definition control_sum :: "int list \<Rightarrow> int" where
  "control_sum codes = sum_list (map (\<lambda>(i, code). push_bit (8 + 7 * i) code) (enumerate 0 codes))"

definition encode_block :: "string \<Rightarrow> int list \<Rightarrow> py_error + block" where
  "encode_block kind data =
     (if kind = ''data'' then rbind (octets data 8) (\<lambda>_. Inr \<lparr>blk_sync = 1, blk_payload = little data\<rparr>)
      else rbind
        (if kind = ''start'' then rbind (octets data 7) (\<lambda>_. Inr (little ([0x78] @ data)))
         else if kind = ''fault'' then rbind (octets data 3) (\<lambda>_.
           rbind (ensure (take 2 data = [0, 0] \<and> data ! 2 \<in> {1, 2, 3})) (\<lambda>_. Inr (little ([0x4B] @ data @ [0, 0, 0, 0]))))
         else if kind \<in> {''idle'', ''error'', ''control''} then
           rbind (if kind = ''control'' then rbind (octets data 8) (\<lambda>_. Inr data)
                  else rbind (octets data 0) (\<lambda>_. Inr (replicate 8 (if kind = ''idle'' then 0 else 0x1E)))) (\<lambda>codes.
           rbind (ensure (list_all (\<lambda>code. code \<in> {0, 0x1E}) codes)) (\<lambda>_. Inr (0x1E OR control_sum codes)))
         else if kind = ''power_down'' then rbind (octets data 0) (\<lambda>_. Inr 0xFF)
         else Inl ValueError)
        (\<lambda>payload. Inr \<lparr>blk_sync = 2, blk_payload = payload\<rparr>))"

definition decode_block :: "block \<Rightarrow> py_error + string \<times> int list" where
  "decode_block b =
     rbind (ensure (blk_sync b \<in> {1, 2})) (\<lambda>_.
     rbind (ensure (fits 64 (blk_payload b))) (\<lambda>_.
       let octs = map (\<lambda>i. (blk_payload b div 256 ^ i) mod 256) [0..<8] in
       if blk_sync b = 1 then Inr (''data'', octs)
       else if octs ! 0 = 0x78 then Inr (''start'', drop 1 octs)
       else if octs ! 0 = 0x4B then
         (if take 2 (drop 1 octs) \<noteq> [0, 0] \<or> octs ! 3 \<notin> {1, 2, 3} \<or> list_ex (\<lambda>o'. o' \<noteq> 0) (drop 4 octs)
          then Inl ValueError else Inr (''fault'', take 3 (drop 1 octs)))
       else if octs ! 0 = 0xFF then
         (if list_ex (\<lambda>o'. o' \<noteq> 0) (drop 1 octs) then Inl ValueError else Inr (''power_down'', []))
       else if octs ! 0 = 0x1E then
         (let codes = map (\<lambda>i. (blk_payload b div 2 ^ (8 + 7 * i)) mod 128) [0..<8] in
          if list_ex (\<lambda>code. code \<notin> {0, 0x1E}) codes then Inl ValueError
          else if list_all (\<lambda>code. code = 0) codes then Inr (''idle'', [])
          else if list_all (\<lambda>code. code = 0x1E) codes then Inr (''error'', [])
          else Inr (''control'', codes))
       else Inl ValueError))"

text \<open>The fields as digits.\<close>

lemma octets_digits: "map (\<lambda>i. (p div 256 ^ i) mod 256) [0..<8] = digits 8 8 (p :: int)"
proof -
  have "(p div 256 ^ i) mod 256 = fld p (8 * i) 8" for i :: nat
    by (simp add: fld_def take_bit_eq_mod drop_bit_eq_div power_mult)
  then show ?thesis by (simp add: digits_def)
qed

lemma codes_digits: "map (\<lambda>i. (p div 2 ^ (8 + 7 * i)) mod 128) [0..<8] = digits 7 8 (p div 256 :: int)"
proof -
  have "(p div 2 ^ (8 + 7 * i)) mod 128 = fld (p div 256) (7 * i) 7" for i :: nat
    by (simp add: fld_def take_bit_eq_mod drop_bit_eq_div power_add zdiv_zmult2_eq)
  then show ?thesis by (simp add: digits_def)
qed

lemma control_sum_digits: "control_sum codes = 256 * from_digits 7 codes"
proof -
  have "sum_list (map (\<lambda>(i, code). push_bit (8 + 7 * i) code) (enumerate n codes)) = 2 ^ (8 + 7 * n) * from_digits 7 codes" for n
    by (induction codes arbitrary: n) (simp_all add: push_bit_eq_mult power_add algebra_simps)
  from this [of 0] show ?thesis by (simp add: control_sum_def)
qed

lemma control_payload: "(0x1E :: int) OR control_sum codes = 0x1E + 256 * from_digits 7 codes"
proof -
  have "0x1E OR (256 * n) = 0x1E + 256 * n" for n :: int
  proof -
    have "fits 8 (0x1E :: int)" by (simp add: fits_def)
    from fits_bit [OF this] have "\<not> bit (0x1E :: int) i \<or> \<not> bit (push_bit 8 n) i" for i
      by (cases "i < 8") (simp_all add: bit_push_bit_iff)
    from disjunctive_add [OF this] show ?thesis by (simp add: push_bit_eq_mult mult.commute)
  qed
  then show ?thesis by (simp add: control_sum_digits)
qed

lemma decode_block_digits:
  "decode_block b =
     rbind (ensure (blk_sync b \<in> {1, 2})) (\<lambda>_.
     rbind (ensure (fits 64 (blk_payload b))) (\<lambda>_.
       let octs = digits 8 8 (blk_payload b) in
       if blk_sync b = 1 then Inr (''data'', octs)
       else if octs ! 0 = 0x78 then Inr (''start'', drop 1 octs)
       else if octs ! 0 = 0x4B then
         (if take 2 (drop 1 octs) \<noteq> [0, 0] \<or> octs ! 3 \<notin> {1, 2, 3} \<or> list_ex (\<lambda>o'. o' \<noteq> 0) (drop 4 octs)
          then Inl ValueError else Inr (''fault'', take 3 (drop 1 octs)))
       else if octs ! 0 = 0xFF then
         (if list_ex (\<lambda>o'. o' \<noteq> 0) (drop 1 octs) then Inl ValueError else Inr (''power_down'', []))
       else if octs ! 0 = 0x1E then
         (let codes = digits 7 8 (blk_payload b div 256) in
          if list_ex (\<lambda>code. code \<notin> {0, 0x1E}) codes then Inl ValueError
          else if list_all (\<lambda>code. code = 0) codes then Inr (''idle'', [])
          else if list_all (\<lambda>code. code = 0x1E) codes then Inr (''error'', [])
          else Inr (''control'', codes))
       else Inl ValueError))"
  unfolding decode_block_def octets_digits codes_digits ..

lemma digits_nth: "i < n \<Longrightarrow> digits k n p ! i = fld p (k * i) k"
  by (simp add: digits_def)

lemma little_octets: "list_all (fits 8) ds \<Longrightarrow> length ds = 8 \<Longrightarrow> digits 8 8 (little ds) = ds \<and> fits 64 (little ds)"
  using digits_from_digits [of 8 ds] from_digits_range [of 8 ds] by (simp add: little_def fits_def)

lemma length_8: "length xs = 8 \<longleftrightarrow> (\<exists>a b c d e f g h. xs = [a, b, c, d, e, f, g, h])"
  by (auto simp: numeral_eq_Suc length_Suc_conv)

text \<open>What the decoder accepts the encoder reproduces: decoding loses nothing.\<close>

lemma little_digits: "fits 64 p \<Longrightarrow> digits 8 8 p = ds \<Longrightarrow> little ds = p"
  using from_digits_digits [of p 8 8] by (auto simp: little_def fits_def)

lemma control_split:
  assumes "fits 64 p" "digits 8 8 p ! 0 = 0x1E"
  shows "0x1E OR control_sum (digits 7 8 (p div 256)) = p"
proof -
  have "fits 56 (drop_bit 8 p)" by (rule fits_drop [OF assms(1)]) simp
  then have "from_digits 7 (digits 7 8 (p div 256)) = p div 256"
    by (intro from_digits_digits) (simp_all add: fits_def drop_bit_eq_div)
  moreover have "p mod 256 = 0x1E" using assms(2) by (simp add: digits_nth fld_def take_bit_eq_mod)
  ultimately show ?thesis unfolding control_payload using mult_div_mod_eq [of 256 p] by simp
qed

lemma decode_encode_block:
  assumes "decode_block b = Inr (kind, data)"
  shows "encode_block kind data = Inr b"
proof -
  define p where "p = blk_payload b"
  have sync: "blk_sync b = 1 \<or> blk_sync b = 2" and f: "fits 64 p"
    using assms by (auto simp: decode_block_def p_def)
  obtain a0 a1 a2 a3 a4 a5 a6 a7 where ds: "digits 8 8 p = [a0, a1, a2, a3, a4, a5, a6, a7]"
    using length_8 [of "digits 8 8 p"] by auto
  have le: "little [a0, a1, a2, a3, a4, a5, a6, a7] = p" by (rule little_digits [OF f ds])
  have b: "b = \<lparr>blk_sync = s, blk_payload = p\<rparr>" if "blk_sync b = s" for s using that by (simp add: p_def)
  show ?thesis
  proof (cases "blk_sync b = 1")
    case True
    then have "kind = ''data''" "data = [a0, a1, a2, a3, a4, a5, a6, a7]"
      using assms f ds by (simp_all add: decode_block_digits p_def [symmetric] Let_def)
    then show ?thesis using le b [OF True] by (simp add: encode_block_def octets_def)
  next
    case False
    then have s2: "blk_sync b = 2" using sync by simp
    have dec: "(if a0 = 0x78 then Inr (''start'', [a1, a2, a3, a4, a5, a6, a7])
       else if a0 = 0x4B then
         (if [a1, a2] \<noteq> [0, 0] \<or> a3 \<notin> {1, 2, 3} \<or> list_ex (\<lambda>o'. o' \<noteq> 0) [a4, a5, a6, a7]
          then Inl ValueError else Inr (''fault'', [a1, a2, a3]))
       else if a0 = 0xFF then
         (if list_ex (\<lambda>o'. o' \<noteq> 0) [a1, a2, a3, a4, a5, a6, a7] then Inl ValueError else Inr (''power_down'', []))
       else if a0 = 0x1E then
         (let codes = digits 7 8 (p div 256) in
          if list_ex (\<lambda>code. code \<notin> {0, 0x1E}) codes then Inl ValueError
          else if list_all (\<lambda>code. code = 0) codes then Inr (''idle'', [])
          else if list_all (\<lambda>code. code = 0x1E) codes then Inr (''error'', [])
          else Inr (''control'', codes))
       else Inl ValueError) = (Inr (kind, data) :: py_error + string \<times> int list)"
      using assms f s2 unfolding decode_block_digits p_def [symmetric] Let_def ds by (simp cong: if_cong)
    show ?thesis
    proof (cases "a0 = 0x1E")
      case True
      define codes where "codes = digits 7 8 (p div 256)"
      have len: "length codes = 8" by (simp add: codes_def)
      have p: "0x1E OR control_sum codes = p"
        unfolding codes_def by (rule control_split [OF f]) (simp add: ds True)
      have rep: "codes = replicate 8 c" if "list_all (\<lambda>code. code = c) codes" for c
        using that len by (intro replicate_eqI) (auto simp: list_all_iff)
      have dec': "(if list_ex (\<lambda>code. code \<notin> {0, 0x1E}) codes then Inl ValueError
          else if list_all (\<lambda>code. code = 0) codes then Inr (''idle'', [])
          else if list_all (\<lambda>code. code = 0x1E) codes then Inr (''error'', [])
          else Inr (''control'', codes)) = (Inr (kind, data) :: py_error + string \<times> int list)"
        using dec True unfolding codes_def Let_def by simp
      then have ok: "list_all (\<lambda>code. code \<in> {0, 0x1E}) codes"
        by (auto simp: list_all_iff list_ex_iff split: if_splits)
      show ?thesis
      proof (cases "list_all (\<lambda>code. code = 0) codes")
        case True
        then have "kind = ''idle''" "data = []" using dec' ok by (auto simp: list_all_iff list_ex_iff split: if_splits)
        then show ?thesis using p b [OF s2] rep [OF True] by (simp add: encode_block_def octets_def list_all_iff)
      next
        case n0: False
        show ?thesis
        proof (cases "list_all (\<lambda>code. code = 0x1E) codes")
          case True
          then have "kind = ''error''" "data = []" using dec' ok n0 by (auto simp: list_all_iff list_ex_iff split: if_splits)
          then show ?thesis using p b [OF s2] rep [OF True] by (simp add: encode_block_def octets_def list_all_iff)
        next
          case False
          then have "kind = ''control''" "data = codes"
            using dec' ok n0 by (auto simp: list_all_iff list_ex_iff split: if_splits)
          then show ?thesis using p b [OF s2] ok len by (simp add: encode_block_def octets_def)
        qed
      qed
    next
      case nc: False
      consider "a0 = 0x78" | "a0 = 0x4B" | "a0 = 0xFF" using dec nc by (auto split: if_splits)
      then show ?thesis
      proof cases
        case 1
        then have "kind = ''start''" "data = [a1, a2, a3, a4, a5, a6, a7]" using dec by simp_all
        then show ?thesis using le b [OF s2] 1 by (simp add: encode_block_def octets_def)
      next
        case 2
        then have z: "a1 = 0" "a2 = 0" "a3 \<in> {1, 2, 3}" "a4 = 0" "a5 = 0" "a6 = 0" "a7 = 0" "kind = ''fault''" "data = [a1, a2, a3]"
          using dec by (simp_all split: if_splits)
        have "encode_block ''fault'' [0, 0, a3] = Inr \<lparr>blk_sync = 2, blk_payload = little [0x4B, 0, 0, a3, 0, 0, 0, 0]\<rparr>"
          using z(3) by (simp add: encode_block_def octets_def)
        then show ?thesis using z le b [OF s2] 2 by simp
      next
        case 3
        then have z: "a1 = 0" "a2 = 0" "a3 = 0" "a4 = 0" "a5 = 0" "a6 = 0" "a7 = 0" "kind = ''power_down''" "data = []"
          using dec by (simp_all split: if_splits)
        have "little [0xFF, 0, 0, 0, 0, 0, 0, 0] = 0xFF" by (simp add: little_def)
        then have "p = 0xFF" using le 3 z by simp
        then show ?thesis using z b [OF s2] by (simp add: encode_block_def octets_def)
      qed
    qed
  qed
qed

text \<open>
  What the encoder emits the decoder accepts, with the same kind and data; only the control characters that
  are all idle or all error come back under their own names.
\<close>

definition canonical :: "string \<Rightarrow> int list \<Rightarrow> string \<times> int list" where
  "canonical kind data =
     (if kind = ''control'' \<and> list_all (\<lambda>code. code = 0) data then (''idle'', [])
      else if kind = ''control'' \<and> list_all (\<lambda>code. code = 0x1E) data then (''error'', [])
      else (kind, data))"

lemma decode_control:
  assumes "length codes = 8" "list_all (\<lambda>code. code \<in> {0, 0x1E}) codes"
  shows "decode_block \<lparr>blk_sync = 2, blk_payload = 0x1E OR control_sum codes\<rparr> = Inr (canonical ''control'' codes)"
proof -
  let ?p = "0x1E OR control_sum codes"
  have c: "list_all (fits 7) codes" using assms(2) by (auto simp: list_all_iff fits_def)
  note r = from_digits_range [OF c]
  have p: "?p = 0x1E + 256 * from_digits 7 codes" by (rule control_payload)
  have f: "fits 64 ?p" using r unfolding p by (simp add: fits_def assms(1))
  have o0: "digits 8 8 ?p ! 0 = 0x1E" unfolding p by (simp add: digits_nth fld_def take_bit_eq_mod)
  have "?p div 256 = from_digits 7 codes" unfolding p by simp
  then have d: "digits 7 8 (?p div 256) = codes" using digits_from_digits [OF c] assms(1) by simp
  have ex: "\<not> list_ex (\<lambda>code. code \<notin> {0, 0x1E}) codes" using assms(2) by (auto simp: list_all_iff list_ex_iff)
  show ?thesis
    unfolding decode_block_digits Let_def block.select_convs o0 d using f ex by (simp add: canonical_def cong: if_cong)
qed

lemma decode_octets:
  assumes "octets_ok data" "length data = 7"
  shows "decode_block \<lparr>blk_sync = 2, blk_payload = little (a # data)\<rparr> =
    (if a = 0x78 then Inr (''start'', data) else decode_block \<lparr>blk_sync = 2, blk_payload = little (a # data)\<rparr>)"
proof (cases "a = 0x78")
  case True
  have "list_all (fits 8) (a # data)" "length (a # data) = 8"
    using assms True by (simp_all add: octets_ok_def fits_def)
  note l = little_octets [OF this]
  then show ?thesis using True unfolding decode_block_digits Let_def block.select_convs conjunct1 [OF l]
    by (simp cong: if_cong)
qed simp

lemma encode_decode_block:
  assumes "octets_ok data" "encode_block kind data = Inr b"
  shows "decode_block b = Inr (canonical kind data)"
proof -
  consider "kind = ''data''" | "kind = ''start''" | "kind = ''fault''" | "kind \<in> {''idle'', ''error'', ''control''}" | "kind = ''power_down''"
    using assms(2) by (auto simp: encode_block_def split: if_splits)
  then show ?thesis
  proof cases
    case 1
    then have l: "length data = 8" "b = \<lparr>blk_sync = 1, blk_payload = little data\<rparr>"
      using assms(2) by (auto simp: encode_block_def octets_def)
    have "digits 8 8 (little data) = data" "fits 64 (little data)"
      using little_octets [of data] assms(1) l(1) by (simp_all add: octets_ok_def)
    then show ?thesis using 1 l unfolding decode_block_digits Let_def by (simp add: canonical_def)
  next
    case 2
    then have "length data = 7" "b = \<lparr>blk_sync = 2, blk_payload = little (0x78 # data)\<rparr>"
      using assms(2) by (auto simp: encode_block_def octets_def)
    then show ?thesis using decode_octets [OF assms(1), of "0x78"] 2 by (simp add: canonical_def)
  next
    case 3
    then have l: "length data = 3" "take 2 data = [0, 0]" "data ! 2 \<in> {1, 2, 3}"
      "b = \<lparr>blk_sync = 2, blk_payload = little ([0x4B] @ data @ [0, 0, 0, 0])\<rparr>"
      using assms(2) by (auto simp: encode_block_def octets_def)
    then obtain c where d: "data = [0, 0, c]" "c \<in> {1, 2, 3}" by (auto simp: numeral_eq_Suc length_Suc_conv)
    have "list_all (fits 8) [0x4B, 0, 0, c, 0, 0, 0, 0]" using d(2) by (auto simp: fits_def)
    from little_octets [OF this] have "digits 8 8 (little [0x4B, 0, 0, c, 0, 0, 0, 0]) = [0x4B, 0, 0, c, 0, 0, 0, 0]"
      "fits 64 (little [0x4B, 0, 0, c, 0, 0, 0, 0])" by simp_all
    then show ?thesis using 3 d l(4) unfolding decode_block_digits Let_def
      by (simp add: canonical_def numeral_eq_Suc cong: if_cong)
  next
    case 4
    define codes where "codes = (if kind = ''control'' then data else replicate 8 (if kind = ''idle'' then 0 else 0x1E))"
    have l: "length codes = 8" "list_all (\<lambda>code. code \<in> {0, 0x1E}) codes"
      "b = \<lparr>blk_sync = 2, blk_payload = 0x1E OR control_sum codes\<rparr>" "kind \<noteq> ''control'' \<longrightarrow> data = []"
    proof -
      have "length codes = 8 \<and> list_all (\<lambda>code. code \<in> {0, 0x1E}) codes \<and>
        b = \<lparr>blk_sync = 2, blk_payload = 0x1E OR control_sum codes\<rparr> \<and> (kind \<noteq> ''control'' \<longrightarrow> data = [])"
      proof (cases "kind = ''control''")
        case True
        then show ?thesis using assms(2) by (simp add: encode_block_def octets_def codes_def)
      next
        case False
        then have k: "kind = ''idle'' \<or> kind = ''error''" using 4 by simp
        then have "rbind (octets data 0) (\<lambda>_. Inr codes) = Inr codes \<and> b = \<lparr>blk_sync = 2, blk_payload = 0x1E OR control_sum codes\<rparr>"
          using assms(2) False by (elim disjE) (auto simp: encode_block_def octets_def codes_def)
        then show ?thesis using False by (simp add: codes_def octets_def list_all_iff)
      qed
      then show "length codes = 8" "list_all (\<lambda>code. code \<in> {0, 0x1E}) codes"
        "b = \<lparr>blk_sync = 2, blk_payload = 0x1E OR control_sum codes\<rparr>" "kind \<noteq> ''control'' \<longrightarrow> data = []" by blast+
    qed
    have "canonical ''control'' codes = canonical kind data"
    proof (cases "kind = ''control''")
      case False
      then have "data = []" "kind = ''idle'' \<or> kind = ''error''" using 4 l(4) by simp_all
      then show ?thesis by (elim disjE) (simp_all add: canonical_def codes_def list_all_iff)
    qed (simp add: codes_def)
    then show ?thesis using decode_control [OF l(1,2)] l(3) by simp
  next
    case 5
    then have l: "data = []" "b = \<lparr>blk_sync = 2, blk_payload = 0xFF\<rparr>"
      using assms(2) by (auto simp: encode_block_def octets_def)
    have e: "little [0xFF, 0, 0, 0, 0, 0, 0, 0] = 0xFF" by (simp add: little_def)
    have "list_all (fits 8) [0xFF, 0, 0, 0, 0, 0, 0, 0]" by (simp add: fits_def)
    from little_octets [OF this] have "digits 8 8 (0xFF :: int) = [0xFF, 0, 0, 0, 0, 0, 0, 0]" "fits 64 (0xFF :: int)"
      unfolding e by simp_all
    then show ?thesis using 5 l unfolding decode_block_digits Let_def by (simp add: canonical_def cong: if_cong)
  qed
qed

subsection \<open>Flits\<close>

definition chunks :: "nat \<Rightarrow> 'a list \<Rightarrow> 'a list list" where
  "chunks n data = map (\<lambda>i. take 8 (drop (8 * i) data)) [0..<n]"

definition encode_data_flit :: "int list \<Rightarrow> py_error + block list" where
  "encode_data_flit payload =
     rbind (octets payload 640) (\<lambda>_. rmap (encode_block ''data'') (chunks 80 payload))"

definition decode_data_flit :: "block list \<Rightarrow> py_error + int list" where
  "decode_data_flit blocks =
     rbind (ensure (length blocks = 80)) (\<lambda>_.
     rbind (rmap (\<lambda>b. rbind (decode_block b) (\<lambda>(kind, data). rbind (ensure (kind = ''data'')) (\<lambda>_. Inr data))) blocks)
       (\<lambda>parts. Inr (concat parts)))"

definition encode_control_flit ::
  "string \<Rightarrow> string option \<Rightarrow> int option \<Rightarrow> bool \<Rightarrow> int \<Rightarrow> py_error + block list" where
  "encode_control_flit kind marker am_next_count link_resiliency pl_id =
     rbind (ensure (kind \<in> {''idle'', ''local_fault'', ''remote_fault'', ''power_down''})) (\<lambda>_.
     rbind (ensure (\<not> (marker \<notin> {None, Some ''am'', Some ''ram''} \<or> (kind = ''power_down'' \<and> marker = Some ''ram'')))) (\<lambda>_.
     rbind (ensure (pl_id \<in> {0, 1})) (\<lambda>_.
     rbind (ensure (am_next_count \<noteq> None \<longrightarrow> marker = Some ''ram'' \<and> pred_option (fits 8) am_next_count)) (\<lambda>_.
     rbind (if kind \<in> {''local_fault'', ''remote_fault''}
            then encode_block ''fault'' [0, 0, if kind = ''local_fault'' then 1 else 2] else encode_block kind []) (\<lambda>base.
     let blocks = replicate 80 base in
     if marker = None then Inr blocks
     else
       rbind (encode_block ''start'' (replicate 7 (if marker = Some ''am'' then 0 else
                case am_next_count of None \<Rightarrow> 255 | Some c \<Rightarrow> c))) (\<lambda>first.
       rbind (encode_block ''start'' (replicate 7 0)) (\<lambda>middle.
       let blocks = foldl (\<lambda>bs i. bs[i := middle]) (blocks[0 := first]) [1..<8] in
       if link_resiliency \<or> kind = ''power_down'' then
         rbind (encode_block ''start'' (replicate 6 0 @ [pl_id])) (\<lambda>b. Inr (blocks[79 := b]))
       else Inr blocks)))))))"

definition octet_block :: "int list \<Rightarrow> block" where
  "octet_block data = \<lparr>blk_sync = 1, blk_payload = little data\<rparr>"

lemma encode_data_block: "length data = 8 \<Longrightarrow> encode_block ''data'' data = Inr (octet_block data)"
  by (simp add: encode_block_def octets_def octet_block_def)

lemma chunks_length: "length data = 8 * n \<Longrightarrow> c \<in> set (chunks n data) \<Longrightarrow> length c = 8"
  by (auto simp: chunks_def)

lemma concat_chunks: "length data = 8 * n \<Longrightarrow> concat (chunks n data) = data"
proof (induction n arbitrary: data)
  case 0
  then show ?case by (simp add: chunks_def)
next
  case (Suc n)
  have "chunks (Suc n) data = take 8 data # chunks n (drop 8 data)"
    by (simp add: chunks_def upt_conv_Cons map_Suc_upt [symmetric] add.commute del: upt_Suc)
  then show ?case using Suc.IH [of "drop 8 data"] Suc.prems by simp
qed

lemma encode_data_flit_eq:
  "length payload = 640 \<Longrightarrow> encode_data_flit payload = Inr (map octet_block (chunks 80 payload))"
  using chunks_length [of payload 80]
  by (simp add: encode_data_flit_def octets_def) (rule rmap_ok, simp add: encode_data_block)

lemma decode_octet_block: "octets_ok data \<Longrightarrow> length data = 8 \<Longrightarrow> decode_block (octet_block data) = Inr (''data'', data)"
  using encode_decode_block [OF _ encode_data_block] by (simp add: canonical_def)

lemma chunks_octets: "octets_ok data \<Longrightarrow> c \<in> set (chunks n data) \<Longrightarrow> octets_ok c"
  by (auto simp: chunks_def octets_ok_def list_all_iff dest!: in_set_takeD in_set_dropD)

theorem data_flit_round_trip:
  assumes "octets_ok payload" "length payload = 640"
  shows "rbind (encode_data_flit payload) decode_data_flit = Inr payload"
proof -
  let ?f = "\<lambda>b. rbind (decode_block b) (\<lambda>(kind, data). rbind (ensure (kind = ''data'')) (\<lambda>_. Inr data)) :: py_error + int list"
  have "?f (octet_block c) = Inr c" if "c \<in> set (chunks 80 payload)" for c
    using decode_octet_block [OF chunks_octets [OF assms(1) that] chunks_length [OF _ that]] assms(2) by simp
  then have "rmap (?f \<circ> octet_block) (chunks 80 payload) = Inr (map id (chunks 80 payload))"
    by (intro rmap_ok) simp
  then have "rmap ?f (map octet_block (chunks 80 payload)) = Inr (chunks 80 payload)"
    by (simp add: rmap_map)
  then show ?thesis using concat_chunks [of payload 80] assms(2)
    by (simp add: encode_data_flit_eq decode_data_flit_def chunks_def)
qed

text \<open>A control flit: the base block everywhere, or a marker start, seven zero starts and perhaps the port last.\<close>

definition legal_control :: "string \<Rightarrow> string option \<Rightarrow> int option \<Rightarrow> int \<Rightarrow> bool" where
  "legal_control kind marker count pl_id \<longleftrightarrow>
     kind \<in> {''idle'', ''local_fault'', ''remote_fault'', ''power_down''} \<and> marker \<in> {None, Some ''am'', Some ''ram''} \<and>
     \<not> (kind = ''power_down'' \<and> marker = Some ''ram'') \<and> pl_id \<in> {0, 1} \<and>
     (count \<noteq> None \<longrightarrow> marker = Some ''ram'' \<and> pred_option (fits 8) count)"

definition base_block :: "string \<Rightarrow> block" where
  "base_block kind = projr (if kind \<in> {''local_fault'', ''remote_fault''}
     then encode_block ''fault'' [0, 0, if kind = ''local_fault'' then 1 else 2] else encode_block kind [])"

definition start_block :: "int list \<Rightarrow> block" where
  "start_block data = \<lparr>blk_sync = 2, blk_payload = little (0x78 # data)\<rparr>"

definition control_flit :: "string \<Rightarrow> string option \<Rightarrow> int option \<Rightarrow> bool \<Rightarrow> int \<Rightarrow> block list" where
  "control_flit kind marker count resiliency pl_id =
     (let n = (if marker = Some ''am'' then 0 else case count of None \<Rightarrow> 255 | Some c \<Rightarrow> c);
          first = (if marker = None then base_block kind else start_block (replicate 7 n));
          middle = (if marker = None then base_block kind else start_block (replicate 7 0));
          final = (if marker \<noteq> None \<and> (resiliency \<or> kind = ''power_down'') then start_block (replicate 6 0 @ [pl_id]) else base_block kind)
      in first # replicate 7 middle @ replicate 71 (base_block kind) @ [final])"

lemma start_block: "length data = 7 \<Longrightarrow> encode_block ''start'' data = Inr (start_block data)"
  by (simp add: encode_block_def octets_def start_block_def)

lemma base_block:
  "kind \<in> {''idle'', ''local_fault'', ''remote_fault'', ''power_down''} \<Longrightarrow>
     (if kind \<in> {''local_fault'', ''remote_fault''}
      then encode_block ''fault'' [0, 0, if kind = ''local_fault'' then 1 else 2] else encode_block kind []) = Inr (base_block kind)"
  unfolding base_block_def by (intro projr_ok) (auto simp: encode_block_def octets_def list_all_iff)

lemma flit_updates:
  "(foldl (\<lambda>bs i. bs[i := m]) ((replicate 80 b)[0 := f]) [1..<8])[79 := l] =
     f # replicate 7 m @ replicate 71 b @ [l]"
  "foldl (\<lambda>bs i. bs[i := m]) ((replicate 80 b)[0 := f]) [1..<8] = f # replicate 7 m @ replicate 71 b @ [b]"
  by (simp_all add: upt_rec numeral_eq_Suc)

lemma encode_control_flit_eq:
  assumes "legal_control kind marker count pl_id"
  shows "encode_control_flit kind marker count resiliency pl_id = Inr (control_flit kind marker count resiliency pl_id)"
proof -
  have k: "kind \<in> {''idle'', ''local_fault'', ''remote_fault'', ''power_down''}" using assms by (simp add: legal_control_def)
  have g: "ensure (kind \<in> {''idle'', ''local_fault'', ''remote_fault'', ''power_down''}) = Inr ()"
    "ensure (\<not> (marker \<notin> {None, Some ''am'', Some ''ram''} \<or> (kind = ''power_down'' \<and> marker = Some ''ram''))) = Inr ()"
    "ensure (pl_id \<in> {0, 1}) = Inr ()"
    "ensure (count \<noteq> None \<longrightarrow> marker = Some ''ram'' \<and> pred_option (fits 8) count) = Inr ()"
    using assms by (auto simp: legal_control_def)
  have r: "replicate 80 b = b # replicate 7 b @ replicate 71 b @ [b]" for b :: block by (simp add: numeral_eq_Suc)
  have s: "encode_block ''start'' (replicate 7 n) = Inr (start_block (replicate 7 n))"
    "encode_block ''start'' (replicate 6 0 @ [n]) = Inr (start_block (replicate 6 0 @ [n]))" for n
    by (rule start_block, simp)+
  show ?thesis
    unfolding encode_control_flit_def g rbind_Inr base_block [OF k] Let_def control_flit_def s flit_updates
    by (cases marker) (auto simp: r list_update_append)
qed

lemma control_flit_length: "length (control_flit kind marker count resiliency pl_id) = 80"
  by (simp add: control_flit_def Let_def)

end
