(* ===== verification/Rs_Frame.thy ===== *)
theory Rs_Frame
  imports Rs_Codec
begin

section \<open>Reconciliation sublayer: frame engine\<close>

text \<open>
  Models \<open>simulator/UAlink2.0/model/ualink/rs_frame_control.py\<close> (and its copy under \<open>model/phy\<close>): one command at a
  time, held while its 80 blocks leave in groups of 1, 2, 4 or 8. The code takes the outputs before the
  edge (\<open>frame_outputs\<close>) and then moves (\<open>frame_tick\<close>).
\<close>

lemma pred_option_case [code]: "pred_option P x = (case x of None \<Rightarrow> True | Some y \<Rightarrow> P y)"
  by (cases x) simp_all

record frame_command =
  fc_kind :: int
  fc_marker :: int
  fc_count :: int
  fc_resiliency :: bool
  fc_pl_id :: int

definition frame_command_default :: frame_command where
  "frame_command_default = \<lparr>fc_kind = 0, fc_marker = 0, fc_count = 0, fc_resiliency = False, fc_pl_id = 0\<rparr>"

record frame_signals =
  fo_active :: bool
  fo_command_ready :: bool
  fo_accepted :: bool
  fo_rejected :: bool
  fo_data_ready :: bool
  fo_data_consumed :: bool
  fo_valid :: bool
  fo_taken :: bool
  fo_last :: bool
  fo_completed :: bool
  fo_index :: nat
  fo_metadata :: "frame_command option"
  fo_blocks :: "block list"

definition check_command :: "frame_command \<Rightarrow> py_error + unit" where
  "check_command c = ensure (fits 3 (fc_kind c) \<and> fits 2 (fc_marker c) \<and> fits 8 (fc_count c) \<and> fits 1 (fc_pl_id c))"

definition legal_command :: "frame_command \<Rightarrow> bool" where
  "legal_command c \<longleftrightarrow> fc_kind c < 5 \<and> fc_marker c < 3 \<and> \<not> (fc_kind c = 0 \<and> fc_marker c \<noteq> 0) \<and>
     \<not> (fc_kind c = 4 \<and> fc_marker c = 2)"

record frame_engine =
  fe_group :: nat
  fe_active :: bool
  fe_index :: nat
  fe_metadata :: frame_command

definition frame_new :: "int \<Rightarrow> py_error + frame_engine" where
  "frame_new blocks_per_group =
     rbind (ensure (blocks_per_group \<in> {1, 2, 4, 8})) (\<lambda>_.
       Inr \<lparr>fe_group = nat blocks_per_group, fe_active = False, fe_index = 0, fe_metadata = frame_command_default\<rparr>)"

text \<open>The two dictionaries that name kinds and markers.\<close>

definition kind_name :: "int \<Rightarrow> py_error + string" where
  "kind_name k = (if k = 1 then Inr ''idle'' else if k = 2 then Inr ''local_fault'' else if k = 3 then Inr ''remote_fault''
     else if k = 4 then Inr ''power_down'' else Inl KeyError)"

definition marker_name :: "int \<Rightarrow> py_error + string option" where
  "marker_name m = (if m = 0 then Inr None else if m = 1 then Inr (Some ''am'') else if m = 2 then Inr (Some ''ram'')
     else Inl KeyError)"

definition command_flit :: "frame_command \<Rightarrow> py_error + block list" where
  "command_flit c =
     rbind (kind_name (fc_kind c)) (\<lambda>kind. rbind (marker_name (fc_marker c)) (\<lambda>marker.
       encode_control_flit kind marker (if fc_marker c = 2 then Some (fc_count c) else None) (fc_resiliency c) (fc_pl_id c)))"

definition frame_outputs ::
  "frame_engine \<Rightarrow> frame_command option \<Rightarrow> int list option \<Rightarrow> bool \<Rightarrow> bool \<Rightarrow> py_error + frame_signals" where
  "frame_outputs e command data ready reset =
     rbind (case command of None \<Rightarrow> Inr () | Some c \<Rightarrow> check_command c) (\<lambda>_.
     rbind (ensure (pred_option (\<lambda>d. length d = 8 * fe_group e) data)) (\<lambda>_.
     if reset then Inr \<lparr>fo_active = False, fo_command_ready = False, fo_accepted = False, fo_rejected = False,
        fo_data_ready = False, fo_data_consumed = False, fo_valid = False, fo_taken = False, fo_last = False,
        fo_completed = False, fo_index = 0, fo_metadata = None, fo_blocks = []\<rparr>
     else
       let is_data = (fc_kind (fe_metadata e) = 0);
           valid = (fe_active e \<and> (\<not> is_data \<or> data \<noteq> None));
           final = (valid \<and> fe_index e = 80 - fe_group e);
           served = (valid \<and> ready);
           completed = (served \<and> final);
           command_ready = (\<not> fe_active e \<or> completed);
           accepted = (command_ready \<and> command \<noteq> None \<and> legal_command (the command));
           rejected = (command_ready \<and> command \<noteq> None \<and> \<not> legal_command (the command))
       in
       rbind (if valid then
                if is_data then rmap (encode_block ''data'') (chunks (fe_group e) (the data))
                else rbind (command_flit (fe_metadata e)) (\<lambda>codes. Inr (take (fe_group e) (drop (fe_index e) codes)))
              else Inr []) (\<lambda>blocks.
         Inr \<lparr>fo_active = fe_active e, fo_command_ready = command_ready, fo_accepted = accepted, fo_rejected = rejected,
              fo_data_ready = fe_active e \<and> is_data \<and> ready, fo_data_consumed = served \<and> is_data, fo_valid = valid,
              fo_taken = served, fo_last = final, fo_completed = completed,
              fo_index = (if fe_active e then fe_index e else 0),
              fo_metadata = (if fe_active e then Some (fe_metadata e) else None), fo_blocks = blocks\<rparr>)))"

definition frame_tick ::
  "frame_engine \<Rightarrow> frame_command option \<Rightarrow> int list option \<Rightarrow> bool \<Rightarrow> bool \<Rightarrow> py_error + frame_engine \<times> frame_signals" where
  "frame_tick e command data ready reset =
     rbind (frame_outputs e command data ready reset) (\<lambda>out. Inr (
       if reset then e\<lparr>fe_active := False, fe_index := 0, fe_metadata := frame_command_default\<rparr>
       else if fo_accepted out then e\<lparr>fe_active := True, fe_index := 0, fe_metadata := the command\<rparr>
       else if fo_completed out then e\<lparr>fe_active := False, fe_index := 0\<rparr>
       else if fo_taken out then e\<lparr>fe_index := fe_index e + fe_group e\<rparr>
       else e, out))"

subsection \<open>Every edge succeeds\<close>

definition bus_command :: "frame_command \<Rightarrow> bool" where
  "bus_command c \<longleftrightarrow> fits 3 (fc_kind c) \<and> fits 2 (fc_marker c) \<and> fits 8 (fc_count c) \<and> fits 1 (fc_pl_id c)"

definition frame_ok :: "frame_engine \<Rightarrow> bool" where
  "frame_ok e \<longleftrightarrow> fe_group e \<in> {1, 2, 4, 8} \<and> fe_index e mod fe_group e = 0 \<and> fe_index e + fe_group e \<le> 80 \<and>
     (\<not> fe_active e \<longrightarrow> fe_index e = 0) \<and> bus_command (fe_metadata e) \<and> legal_command (fe_metadata e)"

definition frame_input_ok :: "frame_engine \<Rightarrow> frame_command option \<times> int list option \<times> bool \<Rightarrow> bool" where
  "frame_input_ok e i \<longleftrightarrow> pred_option bus_command (fst i) \<and> pred_option (\<lambda>d. length d = 8 * fe_group e) (fst (snd i))"

definition flit_of :: "frame_command \<Rightarrow> block list" where
  "flit_of c = projr (command_flit c)"

lemma command_flit_ok:
  assumes "bus_command c" "legal_command c" "fc_kind c \<noteq> 0"
  shows "command_flit c = Inr (flit_of c)" "length (flit_of c) = 80"
proof -
  have k: "fc_kind c \<in> {1, 2, 3, 4}" "fc_marker c \<in> {0, 1, 2}" "fc_pl_id c \<in> {0, 1}" "fits 8 (fc_count c)"
    using assms by (auto simp: bus_command_def legal_command_def fits_def)
  obtain kind where kn: "kind_name (fc_kind c) = Inr kind" "kind \<in> {''idle'', ''local_fault'', ''remote_fault'', ''power_down''}"
    "kind = ''power_down'' \<longleftrightarrow> fc_kind c = 4"
    using k(1) by (auto simp: kind_name_def)
  obtain m where mn: "marker_name (fc_marker c) = Inr m" "m \<in> {None, Some ''am'', Some ''ram''}" "m = Some ''ram'' \<longleftrightarrow> fc_marker c = 2"
    using k(2) by (auto simp: marker_name_def)
  have "legal_control kind m (if fc_marker c = 2 then Some (fc_count c) else None) (fc_pl_id c)"
    using kn mn k(3,4) assms(2) by (auto simp: legal_control_def legal_command_def)
  note e = encode_control_flit_eq [OF this, of "fc_resiliency c"]
  then have "command_flit c = Inr (control_flit kind m (if fc_marker c = 2 then Some (fc_count c) else None) (fc_resiliency c) (fc_pl_id c))"
    by (simp add: command_flit_def kn mn)
  then show "command_flit c = Inr (flit_of c)" "length (flit_of c) = 80"
    by (simp_all add: flit_of_def control_flit_length)
qed

text \<open>The outputs, with the blocks that leave.\<close>

definition frame_blocks :: "frame_engine \<Rightarrow> int list option \<Rightarrow> block list" where
  "frame_blocks e data =
     (if fe_active e \<and> (fc_kind (fe_metadata e) \<noteq> 0 \<or> data \<noteq> None) then
        if fc_kind (fe_metadata e) = 0 then map octet_block (chunks (fe_group e) (the data))
        else take (fe_group e) (drop (fe_index e) (flit_of (fe_metadata e)))
      else [])"

lemma frame_outputs_ok:
  assumes "frame_ok e" "frame_input_ok e (command, data, ready)"
  obtains out where "frame_outputs e command data ready False = Inr out"
    "fo_taken out \<longleftrightarrow> fe_active e \<and> (fc_kind (fe_metadata e) \<noteq> 0 \<or> data \<noteq> None) \<and> ready"
    "fo_completed out \<longleftrightarrow> fo_taken out \<and> fe_index e = 80 - fe_group e"
    "fo_command_ready out \<longleftrightarrow> \<not> fe_active e \<or> fo_completed out"
    "fo_accepted out \<longleftrightarrow> fo_command_ready out \<and> command \<noteq> None \<and> legal_command (the command)"
    "fo_data_consumed out \<longleftrightarrow> fo_taken out \<and> fc_kind (fe_metadata e) = 0"
    "fo_blocks out = frame_blocks e data" "fo_active out = fe_active e"
    "fo_metadata out = (if fe_active e then Some (fe_metadata e) else None)"
proof -
  have chk: "(case command of None \<Rightarrow> Inr () | Some c \<Rightarrow> check_command c) = Inr ()"
    "ensure (pred_option (\<lambda>d. length d = 8 * fe_group e) data) = Inr ()"
    using assms(2) by (auto simp: frame_input_ok_def check_command_def bus_command_def split: option.splits)
  have "(if fe_active e \<and> (fc_kind (fe_metadata e) \<noteq> 0 \<or> data \<noteq> None) then
          if fc_kind (fe_metadata e) = 0 then rmap (encode_block ''data'') (chunks (fe_group e) (the data))
          else rbind (command_flit (fe_metadata e)) (\<lambda>codes. Inr (take (fe_group e) (drop (fe_index e) codes)))
        else Inr []) = Inr (frame_blocks e data)"
  proof (cases "fc_kind (fe_metadata e) = 0")
    case True
    have "rmap (encode_block ''data'') (chunks (fe_group e) d) = Inr (map octet_block (chunks (fe_group e) d))"
      if "data = Some d" for d
      using assms(2) that by (intro rmap_ok encode_data_block) (auto simp: frame_input_ok_def intro: chunks_length)
    with True show ?thesis by (auto simp: frame_blocks_def)
  next
    case False
    with assms(1) command_flit_ok [of "fe_metadata e"] show ?thesis by (simp add: frame_blocks_def frame_ok_def)
  qed
  note blocks = this
  show thesis
    by (rule that, unfold frame_outputs_def chk rbind_Inr Let_def if_False de_Morgan_conj not_not blocks, rule refl)
      (simp_all add: blocks, blast?)
qed

definition frame_next :: "frame_engine \<Rightarrow> frame_command option \<Rightarrow> frame_signals \<Rightarrow> frame_engine" where
  "frame_next e command out =
     (if fo_accepted out then e\<lparr>fe_active := True, fe_index := 0, fe_metadata := the command\<rparr>
      else if fo_completed out then e\<lparr>fe_active := False, fe_index := 0\<rparr>
      else if fo_taken out then e\<lparr>fe_index := fe_index e + fe_group e\<rparr>
      else e)"

lemma frame_tick_next:
  "frame_tick e command data ready False = rbind (frame_outputs e command data ready False) (\<lambda>out. Inr (frame_next e command out, out))"
  by (simp add: frame_tick_def frame_next_def)

lemma group_step:
  "n \<in> {1, 2, 4, 8 :: nat} \<Longrightarrow> i mod n = 0 \<Longrightarrow> i + n \<le> 80 \<Longrightarrow> i \<noteq> 80 - n \<Longrightarrow> i + n + n \<le> 80"
  by (elim insertE emptyE; simp; presburger)

lemma frame_next_ok:
  assumes "frame_ok e" "frame_input_ok e (command, data, ready)" "frame_outputs e command data ready False = Inr out"
  shows "frame_ok (frame_next e command out)" "fe_group (frame_next e command out) = fe_group e"
proof -
  obtain out' where o: "frame_outputs e command data ready False = Inr out'"
    "fo_completed out' \<longleftrightarrow> fo_taken out' \<and> fe_index e = 80 - fe_group e"
    "fo_accepted out' \<longleftrightarrow> fo_command_ready out' \<and> command \<noteq> None \<and> legal_command (the command)"
    "fo_taken out' \<longleftrightarrow> fe_active e \<and> (fc_kind (fe_metadata e) \<noteq> 0 \<or> data \<noteq> None) \<and> ready"
    by (rule frame_outputs_ok [OF assms(1,2)]) (rule that; assumption)
  have out: "out' = out" using o(1) assms(3) by simp
  have grp: "fe_group e \<in> {1, 2, 4, 8}" "fe_index e mod fe_group e = 0" "fe_index e + fe_group e \<le> 80"
    "\<not> fe_active e \<longrightarrow> fe_index e = 0" "bus_command (fe_metadata e)" "legal_command (fe_metadata e)"
    using assms(1) by (simp_all add: frame_ok_def)
  have le: "fe_group e \<le> 80" "0 < fe_group e" using grp(1) by auto
  show "fe_group (frame_next e command out) = fe_group e" by (simp add: frame_next_def)
  show "frame_ok (frame_next e command out)"
  proof (cases "fo_accepted out")
    case True
    then have "bus_command (the command)" "legal_command (the command)"
      using o(3) assms(2) by (auto simp: out frame_input_ok_def)
    then show ?thesis using True grp(1) le by (simp add: frame_next_def frame_ok_def)
  next
    case na: False
    show ?thesis
    proof (cases "fo_completed out")
      case True
      then show ?thesis using na grp le by (simp add: frame_next_def frame_ok_def)
    next
      case nc: False
      show ?thesis
      proof (cases "fo_taken out")
        case True
        then have "fe_index e \<noteq> 80 - fe_group e" "fe_active e" using nc o(2,4) by (simp_all add: out)
        then show ?thesis using na nc True grp group_step [OF grp(1-3)] by (simp add: frame_next_def frame_ok_def)
      qed (use na nc assms(1) in \<open>simp add: frame_next_def\<close>)
    qed
  qed
qed

definition frame_step ::
  "frame_engine \<Rightarrow> frame_command option \<times> int list option \<times> bool \<Rightarrow> py_error + frame_engine \<times> frame_signals" where
  "frame_step e = (\<lambda>(command, data, ready). frame_tick e command data ready False)"

lemma frame_step_legal: "frame_step e i = Inr x \<Longrightarrow> frame_input_ok e i"
  by (auto simp: frame_step_def frame_tick_def frame_outputs_def frame_input_ok_def check_command_def bus_command_def
      split: prod.splits option.splits)

lemma frame_step_good:
  assumes "frame_ok e" "frame_input_ok e (command, data, ready)"
  obtains out where "frame_step e (command, data, ready) = Inr (frame_next e command out, out)"
    "frame_outputs e command data ready False = Inr out" "frame_ok (frame_next e command out)"
    "fe_group (frame_next e command out) = fe_group e"
proof -
  obtain out where o: "frame_outputs e command data ready False = Inr out"
    by (rule frame_outputs_ok [OF assms]) (rule that; assumption)
  show thesis
    by (rule that [of out]) (use frame_next_ok [OF assms o] o in \<open>simp_all add: frame_step_def frame_tick_next\<close>)
qed

subsection \<open>Frames are whole\<close>

text \<open>
  The blocks still to leave, the blocks that come in (the octets of consumed data, the control flit of an
  accepted command) and the blocks that leave.
\<close>

definition frame_rest :: "frame_engine \<Rightarrow> block list" where
  "frame_rest e = (if fe_active e \<and> fc_kind (fe_metadata e) \<noteq> 0 then drop (fe_index e) (flit_of (fe_metadata e)) else [])"

definition frame_in :: "frame_command option \<times> int list option \<times> bool \<Rightarrow> frame_signals \<Rightarrow> block list" where
  "frame_in i out =
     (if fo_data_consumed out then map octet_block (chunks (length (the (fst (snd i))) div 8) (the (fst (snd i)))) else []) @
     (if fo_accepted out \<and> fc_kind (the (fst i)) \<noteq> 0 then flit_of (the (fst i)) else [])"

definition frame_out :: "frame_signals \<Rightarrow> block list" where
  "frame_out out = (if fo_taken out then fo_blocks out else [])"

lemma frame_step_flow:
  assumes "frame_ok e" "frame_step e (command, data, ready) = Inr (e', out)"
  shows "frame_rest e @ frame_in (command, data, ready) out = frame_out out @ frame_rest e'"
proof -
  have leg: "frame_input_ok e (command, data, ready)" by (rule frame_step_legal [OF assms(2)])
  obtain out' where o: "frame_outputs e command data ready False = Inr out'"
    "fo_taken out' \<longleftrightarrow> fe_active e \<and> (fc_kind (fe_metadata e) \<noteq> 0 \<or> data \<noteq> None) \<and> ready"
    "fo_completed out' \<longleftrightarrow> fo_taken out' \<and> fe_index e = 80 - fe_group e"
    "fo_command_ready out' \<longleftrightarrow> \<not> fe_active e \<or> fo_completed out'"
    "fo_accepted out' \<longleftrightarrow> fo_command_ready out' \<and> command \<noteq> None \<and> legal_command (the command)"
    "fo_data_consumed out' \<longleftrightarrow> fo_taken out' \<and> fc_kind (fe_metadata e) = 0"
    "fo_blocks out' = frame_blocks e data"
    by (rule frame_outputs_ok [OF assms(1) leg]) (rule that; assumption)
  have st: "out' = out" "e' = frame_next e command out"
    using assms(2) o(1) by (auto simp: frame_step_def frame_tick_next)
  note o = o(2-7) [unfolded st(1)]
  have grp: "fe_group e \<in> {1, 2, 4, 8}" "fe_index e + fe_group e \<le> 80" "bus_command (fe_metadata e)" "legal_command (fe_metadata e)"
    using assms(1) by (simp_all add: frame_ok_def)
  have len: "fc_kind (fe_metadata e) \<noteq> 0 \<Longrightarrow> length (flit_of (fe_metadata e)) = 80"
    using command_flit_ok(2) [OF grp(3,4)] by blast
  have n: "length (the data) div 8 = fe_group e" if "data \<noteq> None" using leg that by (auto simp: frame_input_ok_def)
  define new where "new = (if fo_accepted out \<and> fc_kind (the command) \<noteq> 0 then flit_of (the command) else [])"
  have rest': "frame_rest e' = (if fo_accepted out then new else if fo_completed out then []
      else if fo_taken out \<and> fc_kind (fe_metadata e) \<noteq> 0 then drop (fe_index e + fe_group e) (flit_of (fe_metadata e))
      else frame_rest e)"
    using o(1) by (auto simp: st(2) frame_next_def frame_rest_def new_def)
  have split: "drop (fe_index e) (flit_of (fe_metadata e)) =
      take (fe_group e) (drop (fe_index e) (flit_of (fe_metadata e))) @ drop (fe_index e + fe_group e) (flit_of (fe_metadata e))"
    by (metis add.commute append_take_drop_id drop_drop)
  have finish: "drop (fe_index e + fe_group e) (flit_of (fe_metadata e)) = []"
    if "fo_completed out" "fc_kind (fe_metadata e) \<noteq> 0"
    using that o(2) len grp(1) by auto
  show ?thesis
  proof (cases "fo_taken out")
    case True
    show ?thesis
    proof (cases "fc_kind (fe_metadata e) = 0")
      case k0: True
      then have "frame_rest e = []" "frame_out out = map octet_block (chunks (fe_group e) (the data))" "data \<noteq> None"
        using True o(1,6) by (auto simp: frame_rest_def frame_out_def frame_blocks_def)
      moreover have "frame_rest e' = new" unfolding rest' using k0 new_def calculation(1) by auto
      ultimately show ?thesis using True k0 o(5) n by (simp add: frame_in_def new_def)
    next
      case k1: False
      have out_blocks: "frame_out out = take (fe_group e) (drop (fe_index e) (flit_of (fe_metadata e)))"
        using True k1 o(1,6) by (simp add: frame_out_def frame_blocks_def)
      have inn: "frame_in (command, data, ready) out = new" using k1 o(5) by (simp add: frame_in_def new_def)
      have r: "frame_rest e = drop (fe_index e) (flit_of (fe_metadata e))" using True k1 o(1) by (simp add: frame_rest_def)
      have acc: "fo_accepted out \<Longrightarrow> fo_completed out" using True o(1,3,4) by simp
      show ?thesis
      proof (cases "fo_completed out")
        case True
        have "frame_rest e' = new" unfolding rest' using True by (simp add: new_def)
        then show ?thesis using split finish [OF True k1] r out_blocks inn by simp
      next
        case nc: False
        then have "frame_rest e' = drop (fe_index e + fe_group e) (flit_of (fe_metadata e))" "new = []"
          unfolding rest' using True k1 acc by (auto simp: new_def)
        then show ?thesis using split r out_blocks inn by simp
      qed
    qed
  next
    case nt: False
    then have "\<not> fo_completed out" "frame_out out = []" "\<not> fo_data_consumed out" using o(2,5) by (simp_all add: frame_out_def)
    moreover have "fo_accepted out \<Longrightarrow> frame_rest e = []" using calculation(1) o(3,4) by (simp add: frame_rest_def)
    ultimately show ?thesis unfolding rest' using nt by (auto simp: frame_in_def new_def)
  qed
qed

text \<open>The checker counts the groups of a frame: 80 blocks, no more and no less.\<close>

definition frame_watch :: "nat \<Rightarrow> nat \<Rightarrow> (frame_command option \<times> int list option \<times> bool) \<times> frame_signals \<Rightarrow> unit + nat" where
  "frame_watch n m io =
     (let out = snd io in
      if fo_taken out then
        (if fo_completed out then if (m + 1) * n = 80 then Inr 0 else Inl () else if (m + 1) * n < 80 then Inr (m + 1) else Inl ())
      else if fo_completed out then Inl () else Inr m)"

definition frame_counted :: "frame_engine \<Rightarrow> nat \<Rightarrow> bool" where
  "frame_counted e m \<longleftrightarrow> m * fe_group e = fe_index e"

lemma frame_watch_step:
  assumes "frame_ok e" "fe_group e = n" "frame_counted e m" "frame_step e (command, data, ready) = Inr (e', out)"
  shows "\<exists>m'. frame_watch n m ((command, data, ready), out) = Inr m' \<and> frame_counted e' m'"
proof -
  have leg: "frame_input_ok e (command, data, ready)" by (rule frame_step_legal [OF assms(4)])
  obtain out' where o: "frame_outputs e command data ready False = Inr out'"
    "fo_taken out' \<longleftrightarrow> fe_active e \<and> (fc_kind (fe_metadata e) \<noteq> 0 \<or> data \<noteq> None) \<and> ready"
    "fo_completed out' \<longleftrightarrow> fo_taken out' \<and> fe_index e = 80 - fe_group e"
    "fo_command_ready out' \<longleftrightarrow> \<not> fe_active e \<or> fo_completed out'"
    "fo_accepted out' \<longleftrightarrow> fo_command_ready out' \<and> command \<noteq> None \<and> legal_command (the command)"
    by (rule frame_outputs_ok [OF assms(1) leg]) (rule that; assumption)
  have st: "out' = out" "e' = frame_next e command out"
    using assms(4) o(1) by (auto simp: frame_step_def frame_tick_next)
  note o = o(2-5) [unfolded st(1)]
  have grp: "n \<in> {1, 2, 4, 8}" "fe_index e mod n = 0" "fe_index e + n \<le> 80" "\<not> fe_active e \<Longrightarrow> fe_index e = 0"
    using assms(1,2) by (auto simp: frame_ok_def)
  have m: "m * n = fe_index e" "0 < n" using assms(2,3) grp(1) by (auto simp: frame_counted_def)
  have m0: "fe_index e = 0 \<Longrightarrow> m = 0" using m by auto
  show ?thesis
  proof (cases "fo_taken out")
    case True
    show ?thesis
    proof (cases "fo_completed out")
      case c: True
      then have "(m + 1) * n = 80" using o(2) grp m assms(2) by (auto simp: algebra_simps)
      then show ?thesis using True c
        by (intro exI [of _ 0]) (auto simp: frame_watch_def frame_counted_def st(2) frame_next_def)
    next
      case nc: False
      then have "(m + 1) * n < 80" using o(2) True group_step [OF grp(1-3)] m assms(2) by auto
      moreover have "\<not> fo_accepted out" using nc o(1,3,4) True by simp
      ultimately show ?thesis using True nc m assms(2)
        by (intro exI [of _ "m + 1"]) (auto simp: frame_watch_def frame_counted_def st(2) frame_next_def algebra_simps)
    qed
  next
    case nt: False
    then have nc: "\<not> fo_completed out" using o(2) by simp
    have "fo_accepted out \<Longrightarrow> m = 0" using m0 grp(4) o(3,4) nc by auto
    then show ?thesis using nt nc m assms(2,3)
      by (intro exI [of _ m]) (auto simp: frame_watch_def frame_counted_def st(2) frame_next_def)
  qed
qed

interpretation rs_frame: flow frame_step "\<lambda>e. frame_ok e \<and> fe_group e = n" frame_rest frame_in frame_out for n
proof unfold_locales
  show "frame_ok s' \<and> fe_group s' = n" if "frame_ok s \<and> fe_group s = n" "frame_step s i = Inr (s', out)" for s i s' out
  proof (cases i)
    case (fields c d r)
    show ?thesis
      by (rule frame_step_good [OF conjunct1 [OF that(1)] frame_step_legal [OF that(2) [unfolded fields]]])
        (use that fields in auto)
  qed
  show "frame_rest s @ frame_in i out = frame_out out @ frame_rest s'"
    if "frame_ok s \<and> fe_group s = n" "frame_step s i = Inr (s', out)" for s i s' out
    using frame_step_flow [of s "fst i" "fst (snd i)" "snd (snd i)"] that by simp
qed

interpretation rs_frame_total: total_machine frame_step "\<lambda>e. frame_ok e \<and> fe_group e = n" frame_input_ok for n
  by unfold_locales (metis frame_step_good prod_cases3)

interpretation rs_frame_count: watched frame_step "\<lambda>e. frame_ok e \<and> fe_group e = n" "frame_watch n" frame_counted for n
  by unfold_locales (metis frame_watch_step prod_cases3)

lemma frame_new_ok: "frame_new g = Inr e \<Longrightarrow> frame_ok e \<and> fe_group e = nat g \<and> frame_rest e = [] \<and> frame_counted e 0"
  by (auto simp: frame_new_def frame_ok_def frame_rest_def frame_counted_def bus_command_def legal_command_def
      frame_command_default_def fits_def)

end
