(* ===== verification/Rs_Calendar.thy ===== *)
theory Rs_Calendar
  imports Rs_Frame
begin

section \<open>Reconciliation sublayer: transmitted codeword calendar\<close>

text \<open>
  Models \<open>simulator/UAlink2.0/model/ualink/rs_rate_calendar.py\<close> and \<open>rs_calendar_frame.py\<close>: which of alignment
  marker, rate idle and data flit each codeword is, and the frame engine driven by this calendar through a
  14-bit phase.
\<close>

subsection \<open>The calendar\<close>

definition am_period :: "int \<Rightarrow> int \<Rightarrow> int option" where
  "am_period serial_gbps lanes =
     map_of [((100, 1), 4096), ((100, 2), 4096), ((100, 4), 8192), ((200, 1), 4096), ((200, 2), 8192), ((200, 4), 16384)]
       (serial_gbps, lanes)"

definition tx_codeword_kind :: "int \<Rightarrow> int \<Rightarrow> int \<Rightarrow> bool \<Rightarrow> py_error + string" where
  "tx_codeword_kind serial_gbps lanes codeword_index rapid_alignment =
     (case am_period serial_gbps lanes of
        None \<Rightarrow> Inl ValueError
      | Some period \<Rightarrow>
          if codeword_index < 0 then Inl ValueError
          else if rapid_alignment then
            Inr (if codeword_index mod (period div 128) = 0 then ''rapid_alignment_marker'' else ''dl_flit'')
          else if codeword_index mod period = 0 then Inr ''alignment_marker''
          else if codeword_index mod 1024 = 0 then Inr ''rate_idle''
          else Inr ''dl_flit'')"

lemma am_period_cases:
  "am_period s l = Some p \<Longrightarrow> p = 4096 \<or> p = 8192 \<or> p = 16384"
  by (auto simp: am_period_def split: if_splits)

definition kind_at :: "int \<Rightarrow> bool \<Rightarrow> int \<Rightarrow> string" where
  "kind_at period rapid k =
     (if rapid then if k mod (period div 128) = 0 then ''rapid_alignment_marker'' else ''dl_flit''
      else if k mod period = 0 then ''alignment_marker'' else if k mod 1024 = 0 then ''rate_idle'' else ''dl_flit'')"

lemma tx_codeword_kind_eq:
  "am_period s l = Some p \<Longrightarrow> 0 \<le> k \<Longrightarrow> tx_codeword_kind s l k rapid = Inr (kind_at p rapid k)"
  by (simp add: tx_codeword_kind_def kind_at_def)

text \<open>The 14-bit phase loses nothing: every period divides it.\<close>

lemma mod_mod_period: "(d :: int) dvd n \<Longrightarrow> k mod n mod d = k mod d"
  by (rule mod_mod_cancel)

lemma kind_at_phase:
  assumes "am_period s l = Some p"
  shows "kind_at p rapid (k mod 16384) = kind_at p rapid k"
  using am_period_cases [OF assms] by (elim disjE) (simp_all add: kind_at_def mod_mod_cancel)

lemma kind_at_period:
  assumes "am_period s l = Some p"
  shows "kind_at p rapid (k + p) = kind_at p rapid k"
proof -
  have d: "(k + p) mod d = k mod d" if "d dvd p" for d
    using that by (metis mod_add_right_eq mod_0_imp_dvd add.right_neutral dvd_imp_mod_0)
  have dv: "p div 128 dvd p" "p dvd p" "1024 dvd p" using am_period_cases [OF assms] by (elim disjE; simp)+
  show ?thesis unfolding kind_at_def d [OF dv(1)] d [OF dv(2)] d [OF dv(3)] ..
qed

subsection \<open>The composed model\<close>

record calendar_config =
  cc_phase :: int
  cc_rapid :: bool
  cc_resiliency :: bool
  cc_pl_id :: int

definition config_new :: "int \<Rightarrow> bool \<Rightarrow> bool \<Rightarrow> int \<Rightarrow> py_error + calendar_config" where
  "config_new phase rapid resiliency pl_id =
     rbind (ensure (0 \<le> phase \<and> phase < 16384)) (\<lambda>_. rbind (ensure (pl_id \<in> {0, 1})) (\<lambda>_.
       Inr \<lparr>cc_phase = phase, cc_rapid = rapid, cc_resiliency = resiliency, cc_pl_id = pl_id\<rparr>))"

definition config_default :: calendar_config where
  "config_default = \<lparr>cc_phase = 0, cc_rapid = False, cc_resiliency = False, cc_pl_id = 0\<rparr>"

record calendar_outputs =
  co_phase :: int
  co_next_phase :: int
  co_next_kind :: "string option"
  co_flit_ready :: bool
  co_flit_reserved :: bool
  co_frame :: frame_signals
  co_codeword_completed :: bool
  co_dl_completed :: bool
  co_starved :: bool

record calendar_frame =
  cf_serial :: int
  cf_lanes :: int
  cf_frame :: frame_engine
  cf_phase :: int
  cf_config :: calendar_config

definition calendar_new :: "int \<Rightarrow> int \<Rightarrow> int \<Rightarrow> py_error + calendar_frame" where
  "calendar_new serial_gbps lanes blocks_per_group =
     rbind (tx_codeword_kind serial_gbps lanes 0 False) (\<lambda>_.
     rbind (frame_new blocks_per_group) (\<lambda>e.
       Inr \<lparr>cf_serial = serial_gbps, cf_lanes = lanes, cf_frame = e, cf_phase = 0, cf_config = config_default\<rparr>))"

definition marker_code :: "string \<Rightarrow> py_error + int" where
  "marker_code kind = (if kind = ''alignment_marker'' then Inr 1 else if kind = ''rapid_alignment_marker'' then Inr 2
     else if kind = ''rate_idle'' then Inr 0 else Inl KeyError)"

definition calendar_evaluate ::
  "calendar_frame \<Rightarrow> bool \<Rightarrow> int list option \<Rightarrow> bool \<Rightarrow> bool \<Rightarrow> calendar_config option \<Rightarrow>
     py_error + calendar_outputs \<times> frame_command option" where
  "calendar_evaluate c flit_valid data ready reset phase_load =
     (let suppressed = (reset \<or> phase_load \<noteq> None) in
      rbind (frame_outputs (cf_frame c) None data ready suppressed) (\<lambda>current.
      let future_phase = (cf_phase c + of_bool (fo_completed current)) mod 16384 in
      rbind (if suppressed then Inr None
             else rbind (tx_codeword_kind (cf_serial c) (cf_lanes c) future_phase (cc_rapid (cf_config c))) (\<lambda>k. Inr (Some k))) (\<lambda>kind.
      rbind (case kind of
               None \<Rightarrow> Inr None
             | Some k \<Rightarrow>
                 if k = ''dl_flit'' then Inr (if flit_valid then Some frame_command_default else None)
                 else rbind (marker_code k) (\<lambda>marker. Inr (Some
                   \<lparr>fc_kind = 1, fc_marker = marker, fc_count = (if marker = 2 then 255 else 0),
                    fc_resiliency = cc_resiliency (cf_config c), fc_pl_id = cc_pl_id (cf_config c)\<rparr>))) (\<lambda>command.
      rbind (frame_outputs (cf_frame c) command data ready suppressed) (\<lambda>frame.
      let flit_ready = (fo_command_ready frame \<and> kind = Some ''dl_flit'');
          data_frame = (fo_active frame \<and> pred_option (\<lambda>m. fc_kind m = 0) (fo_metadata frame));
          starved = ((flit_ready \<and> \<not> flit_valid) \<or> (data_frame \<and> ready \<and> data = None))
      in Inr (\<lparr>co_phase = cf_phase c, co_next_phase = future_phase, co_next_kind = kind, co_flit_ready = flit_ready,
               co_flit_reserved = flit_ready \<and> fo_accepted frame, co_frame = frame,
               co_codeword_completed = fo_completed frame, co_dl_completed = fo_completed frame \<and> data_frame,
               co_starved = starved\<rparr>, command))))))"

definition calendar_tick ::
  "calendar_frame \<Rightarrow> bool \<Rightarrow> int list option \<Rightarrow> bool \<Rightarrow> bool \<Rightarrow> calendar_config option \<Rightarrow>
     py_error + calendar_frame \<times> calendar_outputs" where
  "calendar_tick c flit_valid data ready reset phase_load =
     rbind (calendar_evaluate c flit_valid data ready reset phase_load) (\<lambda>(out, command).
     rbind (frame_tick (cf_frame c) command data ready (reset \<or> phase_load \<noteq> None)) (\<lambda>(e, _).
       let c = c\<lparr>cf_frame := e\<rparr> in Inr (
       if reset then c\<lparr>cf_phase := 0, cf_config := config_default\<rparr>
       else case phase_load of
           Some config \<Rightarrow> c\<lparr>cf_phase := cc_phase config, cf_config := config\<rparr>
         | None \<Rightarrow> if co_codeword_completed out then c\<lparr>cf_phase := co_next_phase out\<rparr> else c, out)))"

text \<open>The command the calendar gives to codeword \<open>k\<close> of the epoch.\<close>

definition calendar_command :: "int \<Rightarrow> calendar_config \<Rightarrow> int \<Rightarrow> frame_command" where
  "calendar_command period config k =
     (let kind = kind_at period (cc_rapid config) k in
      if kind = ''dl_flit'' then frame_command_default
      else let marker = (if kind = ''alignment_marker'' then 1 else if kind = ''rapid_alignment_marker'' then 2 else 0)
        in \<lparr>fc_kind = 1, fc_marker = marker, fc_count = (if marker = 2 then 255 else 0),
            fc_resiliency = cc_resiliency config, fc_pl_id = cc_pl_id config\<rparr>)"

definition config_ok :: "calendar_config \<Rightarrow> bool" where
  "config_ok config \<longleftrightarrow> 0 \<le> cc_phase config \<and> cc_phase config < 16384 \<and> cc_pl_id config \<in> {0, 1}"

definition calendar_ok :: "calendar_frame \<Rightarrow> bool" where
  "calendar_ok c \<longleftrightarrow> am_period (cf_serial c) (cf_lanes c) \<noteq> None \<and> frame_ok (cf_frame c) \<and> config_ok (cf_config c) \<and>
     0 \<le> cf_phase c \<and> cf_phase c < 16384"

lemma calendar_command_bus: "config_ok config \<Longrightarrow> bus_command (calendar_command p config k) \<and> legal_command (calendar_command p config k)"
  by (auto simp: calendar_command_def frame_command_default_def bus_command_def legal_command_def config_ok_def fits_def Let_def)

lemma kind_at_cases:
  "kind_at p r k = ''dl_flit'' \<or> kind_at p r k = ''alignment_marker'' \<or> kind_at p r k = ''rapid_alignment_marker'' \<or>
   kind_at p r k = ''rate_idle''"
  by (simp add: kind_at_def)

subsection \<open>Edges without reset or phase load\<close>

type_synonym calendar_input = "bool \<times> int list option \<times> bool"

definition calendar_step :: "calendar_frame \<Rightarrow> calendar_input \<Rightarrow> py_error + calendar_frame \<times> calendar_outputs" where
  "calendar_step c = (\<lambda>(flit_valid, data, ready). calendar_tick c flit_valid data ready False None)"

definition calendar_input_ok :: "calendar_frame \<Rightarrow> calendar_input \<Rightarrow> bool" where
  "calendar_input_ok c i \<longleftrightarrow> pred_option (\<lambda>d. length d = 8 * fe_group (cf_frame c)) (fst (snd i))"

lemma frame_outputs_length:
  "frame_outputs e command data ready reset = Inr out \<Longrightarrow> pred_option (\<lambda>d. length d = 8 * fe_group e) data"
  unfolding frame_outputs_def by (cases "case command of None \<Rightarrow> Inr () | Some c \<Rightarrow> check_command c"; simp only: rbind_Inl rbind_Inr sum.distinct; rule ensureD)

lemma calendar_step_legal: "calendar_step c i = Inr x \<Longrightarrow> calendar_input_ok c i"
  by (auto simp: calendar_step_def calendar_tick_def calendar_evaluate_def calendar_input_ok_def Let_def
      dest: frame_outputs_length split: prod.splits)

definition calendar_offer :: "int \<Rightarrow> calendar_frame \<Rightarrow> bool \<Rightarrow> int \<Rightarrow> frame_command option" where
  "calendar_offer p c flit_valid k =
     (if kind_at p (cc_rapid (cf_config c)) k = ''dl_flit'' \<and> \<not> flit_valid then None else Some (calendar_command p (cf_config c) k))"

lemma calendar_step_good:
  assumes "calendar_ok c" "am_period (cf_serial c) (cf_lanes c) = Some p" "calendar_input_ok c (flit_valid, data, ready)"
  obtains out fout where "calendar_step c (flit_valid, data, ready) =
      Inr (c\<lparr>cf_frame := frame_next (cf_frame c) (calendar_offer p c flit_valid (co_next_phase out)) fout,
             cf_phase := co_next_phase out\<rparr>, out)"
    "frame_outputs (cf_frame c) (calendar_offer p c flit_valid (co_next_phase out)) data ready False = Inr fout"
    "co_frame out = fout" "co_next_phase out = (cf_phase c + of_bool (fo_completed fout)) mod 16384"
    "co_codeword_completed out = fo_completed fout"
    "co_next_kind out = Some (kind_at p (cc_rapid (cf_config c)) (co_next_phase out))"
    "frame_input_ok (cf_frame c) (calendar_offer p c flit_valid (co_next_phase out), data, ready)"
proof -
  have ok: "frame_ok (cf_frame c)" "config_ok (cf_config c)" "0 \<le> cf_phase c" "cf_phase c < 16384"
    using assms(1) by (simp_all add: calendar_ok_def)
  have len: "pred_option (\<lambda>d. length d = 8 * fe_group (cf_frame c)) data" using assms(3) by (simp add: calendar_input_ok_def)
  have i0: "frame_input_ok (cf_frame c) (None, data, ready)" using len by (simp add: frame_input_ok_def)
  obtain cur where cur: "frame_outputs (cf_frame c) None data ready False = Inr cur"
    "fo_taken cur \<longleftrightarrow> fe_active (cf_frame c) \<and> (fc_kind (fe_metadata (cf_frame c)) \<noteq> 0 \<or> data \<noteq> None) \<and> ready"
    "fo_completed cur \<longleftrightarrow> fo_taken cur \<and> fe_index (cf_frame c) = 80 - fe_group (cf_frame c)"
    by (rule frame_outputs_ok [OF ok(1) i0]) (rule that; assumption)
  define k where "k = (cf_phase c + of_bool (fo_completed cur)) mod 16384"
  let ?kind = "kind_at p (cc_rapid (cf_config c)) k"
  let ?cmd = "calendar_offer p c flit_valid k"
  have kn: "0 \<le> k" by (simp add: k_def)
  note tk = tx_codeword_kind_eq [OF assms(2) kn, of "cc_rapid (cf_config c)"]
  have i1: "frame_input_ok (cf_frame c) (?cmd, data, ready)"
    using len calendar_command_bus [OF ok(2)] by (simp add: frame_input_ok_def calendar_offer_def)
  obtain fout where f: "frame_outputs (cf_frame c) ?cmd data ready False = Inr fout"
    "fo_taken fout \<longleftrightarrow> fe_active (cf_frame c) \<and> (fc_kind (fe_metadata (cf_frame c)) \<noteq> 0 \<or> data \<noteq> None) \<and> ready"
    "fo_completed fout \<longleftrightarrow> fo_taken fout \<and> fe_index (cf_frame c) = 80 - fe_group (cf_frame c)"
    by (rule frame_outputs_ok [OF ok(1) i1]) (rule that; assumption)
  have same: "fo_completed cur = fo_completed fout" using cur(2,3) f(2,3) by simp
  have cmd: "(if ?kind = ''dl_flit'' then Inr (if flit_valid then Some frame_command_default else None)
      else rbind (marker_code ?kind) (\<lambda>marker. Inr (Some
        \<lparr>fc_kind = 1, fc_marker = marker, fc_count = (if marker = 2 then 255 else 0),
         fc_resiliency = cc_resiliency (cf_config c), fc_pl_id = cc_pl_id (cf_config c)\<rparr>))) = (Inr ?cmd :: py_error + frame_command option)"
    using kind_at_cases [of p "cc_rapid (cf_config c)" k]
    by (elim disjE) (simp_all add: calendar_offer_def calendar_command_def marker_code_def)
  define out where "out = (let flit_ready = (fo_command_ready fout \<and> Some ?kind = Some ''dl_flit'');
          data_frame = (fo_active fout \<and> pred_option (\<lambda>m. fc_kind m = 0) (fo_metadata fout));
          starved = ((flit_ready \<and> \<not> flit_valid) \<or> (data_frame \<and> ready \<and> data = None))
      in \<lparr>co_phase = cf_phase c, co_next_phase = k, co_next_kind = Some ?kind, co_flit_ready = flit_ready,
               co_flit_reserved = flit_ready \<and> fo_accepted fout, co_frame = fout,
               co_codeword_completed = fo_completed fout, co_dl_completed = fo_completed fout \<and> data_frame,
               co_starved = starved\<rparr>)"
  have ev: "calendar_evaluate c flit_valid data ready False None = Inr (out, ?cmd)"
    unfolding calendar_evaluate_def Let_def simp_thms not_None_eq cur(1) rbind_Inr k_def [symmetric] if_False tk option.case cmd f(1)
    by (simp add: cur(1) tk cmd f(1) out_def Let_def k_def [symmetric])
  have sel: "co_next_phase out = k" "co_frame out = fout" "co_codeword_completed out = fo_completed fout" "co_next_kind out = Some ?kind"
    by (simp_all add: out_def Let_def)
  have ph: "k = (if fo_completed fout then co_next_phase out else cf_phase c)"
    using ok(3,4) same by (simp add: k_def sel(1))
  have "calendar_step c (flit_valid, data, ready) = Inr (c\<lparr>cf_frame := frame_next (cf_frame c) ?cmd fout, cf_phase := k\<rparr>, out)"
  proof (cases "fo_completed fout")
    case True
    then show ?thesis by (simp add: calendar_step_def calendar_tick_def ev frame_tick_next f(1) sel Let_def)
  next
    case False
    then have "k = cf_phase c" using ph by simp
    then show ?thesis using False f(1) by (simp add: calendar_step_def calendar_tick_def ev frame_tick_next sel Let_def)
  qed
  then show thesis using f(1) sel i1 same by (intro that [of out fout]) (simp_all add: k_def)
qed

lemma calendar_command_phase:
  "am_period s l = Some p \<Longrightarrow> calendar_command p config (k mod 16384) = calendar_command p config k"
  by (simp add: calendar_command_def kind_at_phase)

subsection \<open>Any edge: reset, phase load, or neither\<close>

text \<open>An edge builds the configuration it loads, and then ticks.\<close>

type_synonym calendar_load = "int \<times> bool \<times> bool \<times> int"

type_synonym calendar_edge = "bool \<times> int list option \<times> bool \<times> bool \<times> calendar_load option"

definition load_config :: "calendar_load option \<Rightarrow> py_error + calendar_config option" where
  "load_config load =
     (case load of
        None \<Rightarrow> Inr None
      | Some (phase, rapid, resiliency, pl_id) \<Rightarrow> rbind (config_new phase rapid resiliency pl_id) (\<lambda>config. Inr (Some config)))"

definition calendar_edge_step :: "calendar_frame \<Rightarrow> calendar_edge \<Rightarrow> py_error + calendar_frame \<times> calendar_outputs" where
  "calendar_edge_step c = (\<lambda>(flit_valid, data, ready, reset, load).
     rbind (load_config load) (calendar_tick c flit_valid data ready reset))"

definition calendar_edge_ok :: "nat \<Rightarrow> calendar_edge \<Rightarrow> bool" where
  "calendar_edge_ok n = (\<lambda>(flit_valid, data, ready, reset, load).
     pred_option (\<lambda>d. length d = 8 * n) data \<and>
     pred_option (\<lambda>(phase, rapid, resiliency, pl_id). 0 \<le> phase \<and> phase < 16384 \<and> pl_id \<in> {0, 1}) load)"

lemma load_config_ok: "load_config load = Inr (Some config) \<Longrightarrow> config_ok config"
  by (auto simp: load_config_def config_new_def config_ok_def split: option.splits)

lemma load_config_None [simp]: "load_config load = Inr None \<longleftrightarrow> load = None"
  by (auto simp: load_config_def config_new_def rbind_ensure split: option.splits if_splits)

lemma load_config_total:
  "calendar_edge_ok n (flit_valid, data, ready, reset, load) \<Longrightarrow> \<exists>config. load_config load = Inr config"
  by (auto simp: calendar_edge_ok_def load_config_def config_new_def split: option.splits)

text \<open>A suppressed edge shows nothing on the wire and starts the calendar again, whatever frame was in flight.\<close>

definition silent_signals :: frame_signals where
  "silent_signals = \<lparr>fo_active = False, fo_command_ready = False, fo_accepted = False, fo_rejected = False,
     fo_data_ready = False, fo_data_consumed = False, fo_valid = False, fo_taken = False, fo_last = False,
     fo_completed = False, fo_index = 0, fo_metadata = None, fo_blocks = []\<rparr>"

definition silent_outputs :: "calendar_outputs \<Rightarrow> bool" where
  "silent_outputs out \<longleftrightarrow> co_frame out = silent_signals \<and> co_next_kind out = None \<and> \<not> co_flit_ready out \<and>
     \<not> co_flit_reserved out \<and> \<not> co_codeword_completed out \<and> \<not> co_dl_completed out \<and> \<not> co_starved out"

definition calendar_restart :: "calendar_frame \<Rightarrow> calendar_config \<Rightarrow> calendar_frame" where
  "calendar_restart c config = c\<lparr>cf_frame := (cf_frame c)\<lparr>fe_active := False, fe_index := 0, fe_metadata := frame_command_default\<rparr>,
     cf_phase := cc_phase config, cf_config := config\<rparr>"

lemma suppressed_outputs:
  "frame_outputs e None data ready True = rbind (ensure (pred_option (\<lambda>d. length d = 8 * fe_group e) data)) (\<lambda>_. Inr silent_signals)"
  by (simp add: frame_outputs_def silent_signals_def)

lemma suppressed_tick:
  assumes "reset \<or> load \<noteq> None"
  shows "calendar_tick c flit_valid data ready reset load =
    rbind (ensure (pred_option (\<lambda>d. length d = 8 * fe_group (cf_frame c)) data)) (\<lambda>_.
      Inr (calendar_restart c (if reset then config_default else the load),
        \<lparr>co_phase = cf_phase c, co_next_phase = cf_phase c mod 16384, co_next_kind = None, co_flit_ready = False,
         co_flit_reserved = False, co_frame = silent_signals, co_codeword_completed = False, co_dl_completed = False,
         co_starved = False\<rparr>))"
proof (cases "pred_option (\<lambda>d. length d = 8 * fe_group (cf_frame c)) data")
  case True
  have ev: "calendar_evaluate c flit_valid data ready reset load =
      Inr (\<lparr>co_phase = cf_phase c, co_next_phase = cf_phase c mod 16384, co_next_kind = None, co_flit_ready = False,
         co_flit_reserved = False, co_frame = silent_signals, co_codeword_completed = False, co_dl_completed = False,
         co_starved = False\<rparr>, None)"
    using assms True by (simp add: calendar_evaluate_def suppressed_outputs Let_def silent_signals_def)
  show ?thesis
    using assms True by (auto simp: calendar_tick_def ev frame_tick_def suppressed_outputs calendar_restart_def config_default_def Let_def)
next
  case False
  then show ?thesis
    using assms by (simp add: calendar_tick_def calendar_evaluate_def suppressed_outputs ensure_False)
qed

subsection \<open>The specification of the wire\<close>

text \<open>
  The checker knows the configuration, the ordinal of the codeword on the wire (unbounded), whether its frame is under way
  and how many groups of it have left. From these and the inputs it says what every edge must show: which group of
  blocks leaves, when the codeword completes, what kind comes next and whether its frame begins. A reset or a load
  shows nothing and starts from the loaded phase.
\<close>

record calendar_view =
  cv_config :: calendar_config
  cv_ordinal :: int
  cv_active :: bool
  cv_groups :: nat

definition view_from :: "calendar_config \<Rightarrow> calendar_view" where
  "view_from config = \<lparr>cv_config = config, cv_ordinal = cc_phase config, cv_active = False, cv_groups = 0\<rparr>"

definition loaded_config :: "calendar_load \<Rightarrow> calendar_config" where
  "loaded_config = (\<lambda>(phase, rapid, resiliency, pl_id).
     \<lparr>cc_phase = phase, cc_rapid = rapid, cc_resiliency = resiliency, cc_pl_id = pl_id\<rparr>)"

definition codeword_group :: "frame_command \<Rightarrow> nat \<Rightarrow> nat \<Rightarrow> int list option \<Rightarrow> block list" where
  "codeword_group command n m data =
     (if fc_kind command = 0 then map octet_block (chunks n (the data)) else take n (drop (m * n) (flit_of command)))"

definition calendar_watch :: "int \<Rightarrow> nat \<Rightarrow> calendar_view \<Rightarrow> calendar_edge \<times> calendar_outputs \<Rightarrow> unit + calendar_view" where
  "calendar_watch p n v = (\<lambda>((flit_valid, data, ready, reset, load), out).
     if reset \<or> load \<noteq> None then
       (if silent_outputs out then Inr (view_from (if reset then config_default else loaded_config (the load))) else Inl ())
     else
       let f = co_frame out;
           command = calendar_command p (cv_config v) (cv_ordinal v);
           leaves = (cv_active v \<and> (fc_kind command \<noteq> 0 \<or> data \<noteq> None) \<and> ready);
           complete = (leaves \<and> (cv_groups v + 1) * n = 80);
           ordinal = (if complete then cv_ordinal v + 1 else cv_ordinal v);
           kind = kind_at p (cc_rapid (cv_config v)) ordinal;
           begins = ((\<not> cv_active v \<or> complete) \<and> (kind \<noteq> ''dl_flit'' \<or> flit_valid))
       in if fo_taken f = leaves \<and> (leaves \<longrightarrow> fo_blocks f = codeword_group command n (cv_groups v) data) \<and>
             fo_completed f = complete \<and> co_codeword_completed out = complete \<and> co_next_kind out = Some kind \<and>
             fo_accepted f = begins \<and> fo_metadata f = (if cv_active v then Some command else None)
          then Inr (v\<lparr>cv_ordinal := ordinal, cv_active := begins \<or> cv_active v \<and> \<not> complete,
                   cv_groups := (if complete then 0 else if leaves then cv_groups v + 1 else cv_groups v)\<rparr>)
          else Inl ())"

definition calendar_set :: "int \<Rightarrow> nat \<Rightarrow> calendar_frame \<Rightarrow> bool" where
  "calendar_set p n c \<longleftrightarrow> calendar_ok c \<and> am_period (cf_serial c) (cf_lanes c) = Some p \<and> fe_group (cf_frame c) = n"

definition calendar_seen :: "int \<Rightarrow> calendar_frame \<Rightarrow> calendar_view \<Rightarrow> bool" where
  "calendar_seen p c v \<longleftrightarrow> cf_config c = cv_config v \<and> 0 \<le> cv_ordinal v \<and> cf_phase c = cv_ordinal v mod 16384 \<and>
     fe_active (cf_frame c) = cv_active v \<and> fe_index (cf_frame c) = cv_groups v * fe_group (cf_frame c) \<and>
     (cv_active v \<longrightarrow> fe_metadata (cf_frame c) = calendar_command p (cv_config v) (cv_ordinal v))"

lemma restart_set:
  assumes "calendar_set p n c" "config_ok config"
  shows "calendar_set p n (calendar_restart c config)" "calendar_seen p (calendar_restart c config) (view_from config)"
proof -
  let ?e = "(cf_frame c)\<lparr>fe_active := False, fe_index := 0, fe_metadata := frame_command_default\<rparr>"
  have "frame_ok (cf_frame c)" using assms(1) by (simp add: calendar_set_def calendar_ok_def)
  then have "frame_ok ?e"
    by (auto simp: frame_ok_def frame_command_default_def bus_command_def legal_command_def fits_def)
  then show "calendar_set p n (calendar_restart c config)"
    using assms by (simp add: calendar_set_def calendar_ok_def calendar_restart_def config_ok_def)
  show "calendar_seen p (calendar_restart c config) (view_from config)"
    using assms(2) by (simp add: calendar_seen_def calendar_restart_def view_from_def config_ok_def)
qed

lemma config_default_ok: "config_ok config_default"
  by (simp add: config_ok_def config_default_def)

lemma load_config_loaded: "load_config load = Inr (Some config) \<Longrightarrow> load \<noteq> None \<and> loaded_config (the load) = config"
  by (auto simp: load_config_def config_new_def loaded_config_def rbind_ensure split: option.splits if_splits)

text \<open>An edge without reset and load, seen through the checker.\<close>

lemma calendar_step_seen:
  assumes set: "calendar_set p n c" and ok: "calendar_input_ok c (fv, data, ready)"
  obtains c' out where "calendar_step c (fv, data, ready) = Inr (c', out)" "calendar_set p n c'"
    "\<And>v. calendar_seen p c v \<Longrightarrow>
       \<exists>v'. calendar_watch p n v ((fv, data, ready, False, None), out) = Inr v' \<and> calendar_seen p c' v'"
proof -
  have a: "calendar_ok c" "am_period (cf_serial c) (cf_lanes c) = Some p" "fe_group (cf_frame c) = n"
    using set by (simp_all add: calendar_set_def)
  have fok: "frame_ok (cf_frame c)" and cok: "config_ok (cf_config c)" using a(1) by (simp_all add: calendar_ok_def)
  obtain out fout where st: "calendar_step c (fv, data, ready) =
      Inr (c\<lparr>cf_frame := frame_next (cf_frame c) (calendar_offer p c fv (co_next_phase out)) fout, cf_phase := co_next_phase out\<rparr>, out)"
    "frame_outputs (cf_frame c) (calendar_offer p c fv (co_next_phase out)) data ready False = Inr fout"
    "co_frame out = fout" "co_next_phase out = (cf_phase c + of_bool (fo_completed fout)) mod 16384"
    "co_codeword_completed out = fo_completed fout"
    "co_next_kind out = Some (kind_at p (cc_rapid (cf_config c)) (co_next_phase out))"
    "frame_input_ok (cf_frame c) (calendar_offer p c fv (co_next_phase out), data, ready)"
    by (rule calendar_step_good [OF a(1,2) ok]) (rule that; assumption)
  let ?offer = "calendar_offer p c fv (co_next_phase out)" and ?e = "cf_frame c"
  let ?c' = "c\<lparr>cf_frame := frame_next ?e ?offer fout, cf_phase := co_next_phase out\<rparr>"
  obtain fout' where fo': "frame_outputs ?e ?offer data ready False = Inr fout'"
    "fo_taken fout' \<longleftrightarrow> fe_active ?e \<and> (fc_kind (fe_metadata ?e) \<noteq> 0 \<or> data \<noteq> None) \<and> ready"
    "fo_completed fout' \<longleftrightarrow> fo_taken fout' \<and> fe_index ?e = 80 - fe_group ?e"
    "fo_command_ready fout' \<longleftrightarrow> \<not> fe_active ?e \<or> fo_completed fout'"
    "fo_accepted fout' \<longleftrightarrow> fo_command_ready fout' \<and> ?offer \<noteq> None \<and> legal_command (the ?offer)"
    "fo_blocks fout' = frame_blocks ?e data"
    "fo_metadata fout' = (if fe_active ?e then Some (fe_metadata ?e) else None)"
    by (rule frame_outputs_ok [OF fok st(7)]) (rule that; assumption)
  have "fout' = fout" using fo'(1) st(2) by simp
  note fo = fo'(2-7) [unfolded this]
  note next_ok = frame_next_ok [OF fok st(7) st(2)]
  have offer: "?offer \<noteq> None \<longleftrightarrow> kind_at p (cc_rapid (cf_config c)) (co_next_phase out) \<noteq> ''dl_flit'' \<or> fv"
    "?offer \<noteq> None \<Longrightarrow> the ?offer = calendar_command p (cf_config c) (co_next_phase out)"
    "?offer \<noteq> None \<Longrightarrow> legal_command (the ?offer)"
    using calendar_command_bus [OF cok] by (auto simp: calendar_offer_def)
  show thesis
  proof (rule that [OF st(1)])
    show "calendar_set p n ?c'" using a cok next_ok st(4) by (simp add: calendar_set_def calendar_ok_def)
    fix v assume seen: "calendar_seen p c v"
    define k where "k = (if fo_completed fout then cv_ordinal v + 1 else cv_ordinal v)"
    have v: "cf_config c = cv_config v" "0 \<le> cv_ordinal v" "cf_phase c = cv_ordinal v mod 16384"
      "fe_active ?e = cv_active v" "fe_index ?e = cv_groups v * n"
      "cv_active v \<Longrightarrow> fe_metadata ?e = calendar_command p (cv_config v) (cv_ordinal v)"
      using seen a(3) by (simp_all add: calendar_seen_def)
    have grp: "n \<in> {1, 2, 4, 8}" "\<not> cv_active v \<Longrightarrow> fe_index ?e = 0"
      using fok v(4) a(3) by (simp_all add: frame_ok_def)
    have last: "fe_index ?e = 80 - n \<longleftrightarrow> (cv_groups v + 1) * n = 80" using grp(1) v(5) by auto
    have idle: "cv_groups v = 0" if "\<not> cv_active v" using grp(1) grp(2) [OF that] v(5) by auto
    have ph: "co_next_phase out = k mod 16384" unfolding st(4) v(3) k_def by (simp add: mod_add_left_eq)
    have kind: "kind_at p r (co_next_phase out) = kind_at p r k" for r unfolding ph by (rule kind_at_phase [OF a(2)])
    have command: "calendar_command p g (co_next_phase out) = calendar_command p g k" for g
      unfolding ph by (rule calendar_command_phase [OF a(2)])
    have blocks: "fo_taken fout \<Longrightarrow>
        fo_blocks fout = codeword_group (calendar_command p (cv_config v) (cv_ordinal v)) n (cv_groups v) data"
      using fo(1,5) v(4-6) a(3) by (simp add: frame_blocks_def codeword_group_def)
    have taken: "fo_taken fout \<longleftrightarrow>
        cv_active v \<and> (fc_kind (calendar_command p (cv_config v) (cv_ordinal v)) \<noteq> 0 \<or> data \<noteq> None) \<and> ready"
      using fo(1) v(4,6) by auto
    have complete: "fo_completed fout \<longleftrightarrow> fo_taken fout \<and> (cv_groups v + 1) * n = 80" using fo(2) last a(3) by simp
    have begins: "fo_accepted fout \<longleftrightarrow> (\<not> cv_active v \<or> fo_completed fout) \<and>
        (kind_at p (cc_rapid (cv_config v)) k \<noteq> ''dl_flit'' \<or> fv)"
      using fo(3,4) offer(1,3) v(1,4) by (auto simp: kind)
    define v' where "v' = v\<lparr>cv_ordinal := k, cv_active := fo_accepted fout \<or> cv_active v \<and> \<not> fo_completed fout,
      cv_groups := (if fo_completed fout then 0 else if fo_taken fout then cv_groups v + 1 else cv_groups v)\<rparr>"
    have "calendar_watch p n v ((fv, data, ready, False, None), out) = Inr v'"
      unfolding calendar_watch_def prod.case Let_def st(3) taken [symmetric] complete [symmetric] k_def [symmetric]
        begins [symmetric]
      using blocks st(5,6) fo(6) v(1,4,6) kind by (simp add: v'_def)
    moreover have "calendar_seen p ?c' v'"
    proof -
      have t: "fo_completed fout \<Longrightarrow> fo_taken fout" "fo_completed fout \<Longrightarrow> cv_active v" "fo_taken fout \<Longrightarrow> cv_active v"
        using complete taken by blast+
      have b: "fo_accepted fout \<Longrightarrow> \<not> cv_active v \<or> fo_completed fout" using begins by blast
      have fe: "fe_active (frame_next ?e ?offer fout) = cv_active v'"
        "fe_index (frame_next ?e ?offer fout) = cv_groups v' * n"
        using t b idle v(4,5) a(3) by (auto simp: frame_next_def v'_def)
      have new: "fo_accepted fout \<Longrightarrow> the ?offer = calendar_command p (cv_config v) k"
        using offer(2) fo(4) v(1) by (simp add: command)
      have md: "cv_active v' \<Longrightarrow> fe_metadata (frame_next ?e ?offer fout) = calendar_command p (cv_config v) k"
        using new v(6) b by (auto simp: frame_next_def v'_def k_def)
      have "0 \<le> k" using v(2) by (simp add: k_def)
      then show ?thesis using v(1) ph fe md next_ok(2) a(3) unfolding calendar_seen_def by (simp add: v'_def)
    qed
    ultimately show "\<exists>v'. calendar_watch p n v ((fv, data, ready, False, None), out) = Inr v' \<and> calendar_seen p ?c' v'"
      by blast
  qed
qed

lemma calendar_edge_cases:
  assumes "calendar_edge_step c (fv, data, ready, reset, load) = Inr (c', out)"
  obtains (suppressed) "reset \<or> load \<noteq> None" "silent_outputs out"
      "c' = calendar_restart c (if reset then config_default else loaded_config (the load))"
      "config_ok (if reset then config_default else loaded_config (the load))"
  | (normal) "\<not> reset" "load = None" "calendar_step c (fv, data, ready) = Inr (c', out)"
proof (cases "reset \<or> load \<noteq> None")
  case True
  obtain config where l: "load_config load = Inr config" "calendar_tick c fv data ready reset config = Inr (c', out)"
    using assms by (auto simp: calendar_edge_step_def rbind_eq_Inr)
  have s: "reset \<or> config \<noteq> None" using True l(1) by auto
  have e: "(if reset then config_default else the config) = (if reset then config_default else loaded_config (the load))"
    "config_ok (if reset then config_default else the config)"
    using s l(1) load_config_loaded load_config_ok config_default_ok by auto
  show thesis
    using l(2) e unfolding suppressed_tick [OF s]
    by (intro suppressed [OF True]) (auto simp: silent_outputs_def rbind_ensure split: if_splits)
next
  case False
  then have "\<not> reset" "load = None" by blast+
  with assms show thesis by (intro normal) (simp_all add: calendar_edge_step_def calendar_step_def load_config_def)
qed

interpretation rs_calendar: total_machine calendar_edge_step "calendar_set p n" "\<lambda>_. calendar_edge_ok n" for p n
proof unfold_locales
  show "calendar_set p n c'" if s: "calendar_set p n c" and t: "calendar_edge_step c i = Inr (c', out)" for c i c' out
  proof (cases i)
    case (fields fv data ready reset load)
    from t [unfolded fields] show ?thesis
    proof (cases rule: calendar_edge_cases)
      case suppressed
      with restart_set(1) [OF s] show ?thesis by simp
    next
      case normal
      show ?thesis by (rule calendar_step_seen [OF s calendar_step_legal [OF normal(3)]]) (use normal(3) in simp)
    qed
  qed
  show "\<exists>c' out. calendar_edge_step c i = Inr (c', out)" if s: "calendar_set p n c" and g: "calendar_edge_ok n i" for c i
  proof (cases i)
    case (fields fv data ready reset load)
    obtain config where l: "load_config load = Inr config" using load_config_total g [unfolded fields] by blast
    have d: "pred_option (\<lambda>d. length d = 8 * fe_group (cf_frame c)) data"
      using s g by (simp add: fields calendar_edge_ok_def calendar_set_def)
    show ?thesis
    proof (cases "reset \<or> config \<noteq> None")
      case True
      with l d show ?thesis by (simp add: fields calendar_edge_step_def suppressed_tick)
    next
      case False
      have "calendar_input_ok c (fv, data, ready)" using d by (simp add: calendar_input_ok_def)
      from calendar_step_seen [OF s this] obtain c' out where "calendar_step c (fv, data, ready) = Inr (c', out)" by blast
      moreover have "load = None" "\<not> reset" using l False by simp_all
      ultimately show ?thesis by (simp add: fields calendar_edge_step_def calendar_step_def load_config_def)
    qed
  qed
qed

lemma calendar_watch_step:
  assumes "calendar_set p n c" "calendar_seen p c v" "calendar_edge_step c i = Inr (c', out)"
  shows "\<exists>v'. calendar_watch p n v (i, out) = Inr v' \<and> calendar_seen p c' v'"
proof (cases i)
  case (fields fv data ready reset load)
  from assms(3) [unfolded fields] show ?thesis
  proof (cases rule: calendar_edge_cases)
    case suppressed
    then show ?thesis using restart_set(2) [OF assms(1)] by (simp add: fields calendar_watch_def)
  next
    case normal
    obtain c1 out1 where "calendar_step c (fv, data, ready) = Inr (c1, out1)"
      "\<exists>v'. calendar_watch p n v ((fv, data, ready, False, None), out1) = Inr v' \<and> calendar_seen p c1 v'"
      by (rule calendar_step_seen [OF assms(1) calendar_step_legal [OF normal(3)]]) (use assms(2) that in blast)
    with normal show ?thesis by (simp add: fields)
  qed
qed

interpretation rs_calendar_wire: watched calendar_edge_step "calendar_set p n" "calendar_watch p n" "calendar_seen p" for p n
  by unfold_locales (rule calendar_watch_step)

lemma calendar_new_set:
  assumes "calendar_new s l g = Inr c" "am_period s l = Some p"
  shows "calendar_set p (nat g) c" "calendar_seen p c (view_from config_default)"
  using assms frame_new_ok [of g]
  by (auto simp: calendar_new_def tx_codeword_kind_def calendar_set_def calendar_ok_def calendar_seen_def view_from_def
      config_ok_def config_default_def frame_new_def)

subsection \<open>Rates\<close>

definition hits :: "(int \<Rightarrow> bool) \<Rightarrow> int \<Rightarrow> int \<Rightarrow> nat" where
  "hits P a n = card {k \<in> {a..<a + n}. P k}"

lemma hits_shift:
  assumes "0 < n" "P (a + n) = P a"
  shows "hits P (a + 1) n = hits P a n"
proof -
  have l: "{k \<in> {a..<a + n}. P k} = {k \<in> {a + 1..<a + n}. P k} \<union> (if P a then {a} else {})"
    using assms(1) by (auto simp: order.strict_iff_order) (metis add1_zle_eq order.strict_iff_order)
  have r: "{k \<in> {a + 1..<a + 1 + n}. P k} = {k \<in> {a + 1..<a + n}. P k} \<union> (if P a then {a + n} else {})"
    using assms by (auto simp: order.strict_iff_order)
  let ?m = "{k \<in> {a + 1..<a + n}. P k}"
  have fin: "finite ?m" by (rule finite_subset [of _ "{a + 1..<a + n}"]) auto
  have na: "a \<notin> ?m" "a + n \<notin> ?m" by simp_all
  show ?thesis unfolding hits_def l r
    by (cases "P a") (simp_all only: if_True if_False Un_empty_right Un_insert_right card_insert_disjoint [OF fin na(1)]
        card_insert_disjoint [OF fin na(2)])
qed

lemma hits_window:
  assumes "0 < n" "\<And>k. P (k + n) = P k" "0 \<le> a"
  shows "hits P a n = hits P 0 n"
  using assms(3)
proof (induction rule: int_ge_induct)
  case (step i)
  then show ?case using hits_shift [of n P i] assms(1,2) by simp
qed simp

lemma hits_multiples: "0 < d \<Longrightarrow> 0 \<le> m \<Longrightarrow> hits (\<lambda>k. k mod d = 0) 0 (d * m) = nat m"
proof -
  assume d: "0 < d" "0 \<le> m"
  have "{k \<in> {0..<0 + d * m}. k mod d = 0} = (\<lambda>j. d * j) ` {0..<m}"
    using d by (auto simp: mod_eq_0_iff_dvd zero_le_mult_iff mult_less_cancel_left intro!: image_eqI elim!: dvdE)
  then show "hits (\<lambda>k. k mod d = 0) 0 (d * m) = nat m"
    using d by (simp add: hits_def card_image inj_on_def)
qed

lemma calendar_rates:
  assumes "am_period s l = Some p" "0 \<le> a"
  shows "hits (\<lambda>k. kind_at p False k = ''alignment_marker'') a p = 1"
    and "hits (\<lambda>k. kind_at p False k = ''rate_idle'') a p = nat (p div 1024) - 1"
    and "hits (\<lambda>k. kind_at p True k = ''rapid_alignment_marker'') a p = 128"
proof -
  have p: "p = 4096 \<or> p = 8192 \<or> p = 16384" by (rule am_period_cases [OF assms(1)])
  then have p0: "0 < p" by auto
  have w: "hits (\<lambda>k. kind_at p r k = x) a p = hits (\<lambda>k. kind_at p r k = x) 0 p" for r x
    by (rule hits_window [OF p0 _ assms(2)]) (simp add: kind_at_period [OF assms(1)])
  have m1: "hits (\<lambda>k. k mod p = 0) 0 p = 1" using hits_multiples [OF p0, of 1] by simp
  have m2: "hits (\<lambda>k. k mod 1024 = 0) 0 p = nat (p div 1024)" using hits_multiples [of 1024 "p div 1024"] p by auto
  have m3: "hits (\<lambda>k. k mod (p div 128) = 0) 0 p = 128" using hits_multiples [of "p div 128" 128] p by auto
  show "hits (\<lambda>k. kind_at p False k = ''alignment_marker'') a p = 1"
    unfolding w using m1 by (simp add: kind_at_def)
  show "hits (\<lambda>k. kind_at p True k = ''rapid_alignment_marker'') a p = 128"
    unfolding w using m3 by (simp add: kind_at_def)
  have dv: "k mod p = 0 \<Longrightarrow> k mod 1024 = 0" for k
  proof -
    have "1024 dvd p" using p by auto
    then show "k mod p = 0 \<Longrightarrow> k mod 1024 = 0" by (meson dvd_trans mod_eq_0_iff_dvd)
  qed
  have z: "{k \<in> {0..<0 + p}. k mod p = 0} = {0}"
    using p0 by (auto dest: zdvd_imp_le simp: mod_eq_0_iff_dvd)
  have "{k \<in> {0..<0 + p}. kind_at p False k = ''rate_idle''} = {k \<in> {0..<0 + p}. k mod 1024 = 0} - {k \<in> {0..<0 + p}. k mod p = 0}"
    using dv by (auto simp: kind_at_def split: if_splits)
  then have e: "hits (\<lambda>k. kind_at p False k = ''rate_idle'') 0 p =
      card ({k \<in> {0..<0 + p}. k mod 1024 = 0} - {k \<in> {0..<0 + p}. k mod p = 0})"
    unfolding hits_def by (rule arg_cong)
  have "card ({k \<in> {0..<0 + p}. k mod 1024 = 0} - {k \<in> {0..<0 + p}. k mod p = 0}) =
      card {k \<in> {0..<0 + p}. k mod 1024 = 0} - card {k \<in> {0..<0 + p}. k mod p = 0}"
    by (rule card_Diff_subset) (use dv in \<open>auto simp: z intro: finite_subset [of _ "{0..<p}"]\<close>)
  then show "hits (\<lambda>k. kind_at p False k = ''rate_idle'') a p = nat (p div 1024) - 1"
    unfolding w e using m1 m2 unfolding hits_def by simp
qed

end
