(* ===== verification/Pod_Configuration.thy ===== *)
theory Pod_Configuration
  imports Prelude
begin

section \<open>Configuration arithmetic\<close>

text \<open>
  Models \<open>simulator/UAlink2.0/model/ualink/configuration.py\<close>: station layouts, the split of port and lane
  indices, and the prerequisites of a switched pod.
\<close>

record station_layout =
  sl_stations :: int
  sl_bifurcation :: string

definition checked_index :: "int \<Rightarrow> int \<Rightarrow> py_error + int" where
  "checked_index index limit = rbind (ensure (0 \<le> index \<and> index < limit)) (\<lambda>_. Inr index)"

definition ports_per_station :: "station_layout \<Rightarrow> int" where
  "ports_per_station l = the (map_of [(''x4'', 1), (''2x2'', 2), (''4x1'', 4)] (sl_bifurcation l))"

definition lanes_per_port :: "station_layout \<Rightarrow> int" where
  "lanes_per_port l = 4 div ports_per_station l"

definition num_lanes :: "station_layout \<Rightarrow> int" where
  "num_lanes l = 4 * sl_stations l"

definition num_ports :: "station_layout \<Rightarrow> int" where
  "num_ports l = ports_per_station l * sl_stations l"

definition layout_new :: "int \<Rightarrow> string \<Rightarrow> py_error + station_layout" where
  "layout_new num_stations bifurcation =
     rbind (ensure (num_stations \<ge> 1)) (\<lambda>_.
     rbind (ensure (bifurcation \<in> {''x4'', ''2x2'', ''4x1''})) (\<lambda>_.
       let l = \<lparr>sl_stations = num_stations, sl_bifurcation = bifurcation\<rparr>
       in rbind (ensure (num_ports l \<le> 1024)) (\<lambda>_. Inr l)))"

definition station_index_width :: "station_layout \<Rightarrow> nat" where
  "station_index_width l = max 1 (bit_length (sl_stations l - 1))"

definition split_port_index :: "station_layout \<Rightarrow> int \<Rightarrow> py_error + int \<times> int" where
  "split_port_index l index =
     rbind (checked_index index (num_ports l)) (\<lambda>i. Inr (i div ports_per_station l, i mod ports_per_station l))"

definition lane_assignment :: "station_layout \<Rightarrow> int \<Rightarrow> py_error + int \<times> int \<times> int" where
  "lane_assignment l index =
     rbind (checked_index index (num_lanes l)) (\<lambda>i.
       let station = i div 4; station_lane = i mod 4
       in Inr (station, station_lane div lanes_per_port l, station_lane mod lanes_per_port l))"

definition validate_pod :: "station_layout list \<Rightarrow> station_layout list \<Rightarrow> py_error + unit" where
  "validate_pod accelerators switches =
     (if \<not> (1 \<le> length accelerators \<and> length accelerators \<le> 1024) \<or> \<not> (1 \<le> length switches \<and> length switches \<le> 1024)
      then Inl ValueError
      else if list_ex (\<lambda>d. sl_bifurcation d \<noteq> sl_bifurcation (hd accelerators)) (accelerators @ switches) then Inl ValueError
      else if list_ex (\<lambda>d. num_ports d \<noteq> num_ports (hd accelerators)) accelerators then Inl ValueError
      else if list_ex (\<lambda>d. num_ports d < int (length accelerators)) switches then Inl ValueError
      else Inr ())"

subsection \<open>Indices\<close>

definition layout_ok :: "station_layout \<Rightarrow> bool" where
  "layout_ok l \<longleftrightarrow> layout_new (sl_stations l) (sl_bifurcation l) = Inr l"

lemma layout_new_ok: "layout_new n b = Inr l \<Longrightarrow> layout_ok l"
  by (auto simp: layout_ok_def layout_new_def Let_def)

lemma layout_facts:
  assumes "layout_ok l"
  shows "1 \<le> sl_stations l" "ports_per_station l \<in> {1, 2, 4}" "lanes_per_port l * ports_per_station l = 4"
    "1 \<le> lanes_per_port l" "num_ports l \<le> 1024" "num_lanes l = lanes_per_port l * num_ports l"
proof -
  have b: "1 \<le> sl_stations l" "sl_bifurcation l \<in> {''x4'', ''2x2'', ''4x1''}" "num_ports l \<le> 1024"
    using assms by (cases l; simp add: layout_ok_def layout_new_def Let_def)+
  then show "1 \<le> sl_stations l" "num_ports l \<le> 1024" by simp_all
  show "ports_per_station l \<in> {1, 2, 4}" "lanes_per_port l * ports_per_station l = 4" "1 \<le> lanes_per_port l"
    "num_lanes l = lanes_per_port l * num_ports l"
    using b(2) by (auto simp: ports_per_station_def lanes_per_port_def num_lanes_def num_ports_def)
qed

text \<open>The inverse maps.\<close>

definition join_port :: "station_layout \<Rightarrow> int \<times> int \<Rightarrow> int" where
  "join_port l = (\<lambda>(station, port). station * ports_per_station l + port)"

definition join_lane :: "station_layout \<Rightarrow> int \<times> int \<times> int \<Rightarrow> int" where
  "join_lane l = (\<lambda>(station, port, lane). station * 4 + port * lanes_per_port l + lane)"

definition port_place :: "station_layout \<Rightarrow> int \<times> int \<Rightarrow> bool" where
  "port_place l = (\<lambda>(station, port). 0 \<le> station \<and> station < sl_stations l \<and> 0 \<le> port \<and> port < ports_per_station l)"

definition lane_place :: "station_layout \<Rightarrow> int \<times> int \<times> int \<Rightarrow> bool" where
  "lane_place l = (\<lambda>(station, port, lane). port_place l (station, port) \<and> 0 \<le> lane \<and> lane < lanes_per_port l)"

lemma divmod_join: "0 \<le> r \<Longrightarrow> r < b \<Longrightarrow> (q * b + r) div b = q \<and> (q * b + r) mod b = (r :: int)"
  by (simp add: div_pos_pos_trivial mod_pos_pos_trivial)

lemma divmod_range:
  assumes "0 < b" "0 \<le> i" "i < b * n"
  shows "0 \<le> i div b" "i div b < n" "0 \<le> i mod b" "i mod b < (b :: int)"
proof -
  show "0 \<le> i div b" "0 \<le> i mod b" "i mod b < b" using assms by (simp_all add: pos_imp_zdiv_nonneg_iff)
  show "i div b < n"
  proof (rule ccontr)
    assume "\<not> i div b < n"
    then have "b * n \<le> b * (i div b)" using assms(1) by simp
    also have "\<dots> \<le> i" using assms(1) using minus_mod_eq_mult_div [of i b] pos_mod_sign [OF assms(1), of i] by linarith
    finally show False using assms(3) by simp
  qed
qed

lemma split_port_index_bij:
  assumes "layout_ok l"
  shows "0 \<le> i \<Longrightarrow> i < num_ports l \<Longrightarrow> \<exists>p. split_port_index l i = Inr p \<and> port_place l p \<and> join_port l p = i"
    and "port_place l p \<Longrightarrow> split_port_index l (join_port l p) = Inr p"
    and "\<not> (0 \<le> i \<and> i < num_ports l) \<Longrightarrow> split_port_index l i = Inl ValueError"
proof -
  have b: "0 < ports_per_station l" using layout_facts(2) [OF assms] by auto
  show "\<exists>p. split_port_index l i = Inr p \<and> port_place l p \<and> join_port l p = i" if "0 \<le> i" "i < num_ports l"
    using that divmod_range [OF b that(1), of "sl_stations l"]
    by (simp add: split_port_index_def checked_index_def port_place_def join_port_def num_ports_def)
  show "split_port_index l (join_port l p) = Inr p" if p: "port_place l p"
  proof -
    obtain s q where sq: "p = (s, q)" by (cases p)
    have r: "0 \<le> s" "s < sl_stations l" "0 \<le> q" "q < ports_per_station l" using p by (simp_all add: sq port_place_def)
    have "(s + 1) * ports_per_station l \<le> sl_stations l * ports_per_station l"
      using r b by (intro mult_right_mono) simp_all
    then have "s * ports_per_station l + q < num_ports l" using r by (simp add: num_ports_def algebra_simps)
    moreover have "0 \<le> s * ports_per_station l + q" using r b by simp
    ultimately show ?thesis using divmod_join [OF r(3,4), of s]
      by (simp add: split_port_index_def checked_index_def join_port_def sq)
  qed
  show "split_port_index l i = Inl ValueError" if "\<not> (0 \<le> i \<and> i < num_ports l)"
    using that by (cases "0 \<le> i") (simp_all add: split_port_index_def checked_index_def)
qed

lemma lane_assignment_bij:
  assumes "layout_ok l"
  shows "0 \<le> i \<Longrightarrow> i < num_lanes l \<Longrightarrow> \<exists>p. lane_assignment l i = Inr p \<and> lane_place l p \<and> join_lane l p = i"
    and "lane_place l p \<Longrightarrow> lane_assignment l (join_lane l p) = Inr p"
proof -
  note f = layout_facts [OF assms]
  have b: "0 < lanes_per_port l" "0 < ports_per_station l" using f by auto
  show "\<exists>p. lane_assignment l i = Inr p \<and> lane_place l p \<and> join_lane l p = i" if i: "0 \<le> i" "i < num_lanes l"
  proof -
    have four: "0 < (4 :: int)" by simp
    note r = divmod_range [OF four i(1) i(2) [unfolded num_lanes_def]]
    have "i mod 4 < lanes_per_port l * ports_per_station l" using f(3) by simp
    note q = divmod_range [OF b(1) r(3) this]
    have "i div 4 * 4 + i mod 4 div lanes_per_port l * lanes_per_port l + i mod 4 mod lanes_per_port l = i"
      by simp
    then show ?thesis using i r q
      by (simp add: lane_assignment_def checked_index_def Let_def lane_place_def port_place_def join_lane_def)
  qed
  show "lane_assignment l (join_lane l p) = Inr p" if p: "lane_place l p"
  proof -
    obtain s q k where sq: "p = (s, q, k)" by (cases p)
    have r: "0 \<le> s" "s < sl_stations l" "0 \<le> q" "q < ports_per_station l" "0 \<le> k" "k < lanes_per_port l"
      using p by (simp_all add: sq lane_place_def port_place_def)
    have "(q + 1) * lanes_per_port l \<le> ports_per_station l * lanes_per_port l" using r b by (intro mult_right_mono) simp_all
    then have in4: "q * lanes_per_port l + k < 4" using r f(3) by (simp add: algebra_simps)
    have pos: "0 \<le> q * lanes_per_port l + k" using r b by simp
    have lt: "s * 4 + (q * lanes_per_port l + k) < num_lanes l" using r in4 by (simp add: num_lanes_def)
    show ?thesis using divmod_join [OF pos in4, of s] divmod_join [OF r(5,6), of q] pos lt r(1)
      by (simp add: lane_assignment_def checked_index_def join_lane_def sq Let_def add.assoc)
  qed
qed

text \<open>The index width is enough and minimal: every station index fits in it.\<close>

lemma station_index_fits:
  assumes "layout_ok l" "0 \<le> s" "s < sl_stations l"
  shows "fits (station_index_width l) s"
proof -
  have "s < 2 ^ bit_length (sl_stations l - 1)" using bit_length_bound [of "sl_stations l - 1"] assms by linarith
  also have "\<dots> \<le> 2 ^ station_index_width l" by (simp add: station_index_width_def)
  finally show ?thesis using assms(2) by (simp add: fits_def)
qed

text \<open>What an accepted pod guarantees: every switch has a port for every accelerator.\<close>

lemma validate_pod_ok:
  assumes "validate_pod accelerators switches = Inr ()"
  shows "\<forall>a \<in> set accelerators. \<forall>s \<in> set switches. int (length accelerators) \<le> num_ports s \<and>
     sl_bifurcation a = sl_bifurcation s \<and> num_ports a = num_ports (hd accelerators)"
  using assms by (auto simp: validate_pod_def list_ex_iff split: if_splits)

end
