(* ===== verification/Props_Rs.thy ===== *)
theory Props_Rs
  imports Rs_Calendar Pod_Configuration
begin

section \<open>Properties of the reconciliation sublayer and of the configuration\<close>

text \<open>
  Properties of the block codec, the frame engine and the calendar, each with its witness.
\<close>

text \<open>Round trips of the block codec: what decodes re-encodes to the same block, what encodes decodes to the
  same kind and data (all-idle and all-error control characters under their own names), and a data flit
  of 640 octets survives its 80 blocks.\<close>

theorem rs_block_round_trip:
  "(decode_block b = Inr (kind, data) \<longrightarrow> encode_block kind data = Inr b) \<and>
   (octets_ok data \<and> encode_block kind data = Inr b \<longrightarrow> decode_block b = Inr (canonical kind data)) \<and>
   (octets_ok payload \<and> length payload = 640 \<longrightarrow> rbind (encode_data_flit payload) decode_data_flit = Inr payload)"
  using decode_encode_block encode_decode_block data_flit_round_trip by blast

theorem rs_block_round_trip_witness:
  "encode_block ''fault'' [0, 0, 2] = Inr \<lparr>blk_sync = 2, blk_payload = 0x0200004B\<rparr> \<and>
   decode_block \<lparr>blk_sync = 2, blk_payload = 0x0200004B\<rparr> = Inr (''fault'', [0, 0, 2]) \<and>
   rbind (encode_data_flit (replicate 640 7)) decode_data_flit = Inr (replicate 640 7)"
proof (intro conjI)
  have d: "decode_block \<lparr>blk_sync = 2, blk_payload = 0x0200004B\<rparr> = Inr (''fault'', [0, 0, 2])" by code_simp
  show e: "encode_block ''fault'' [0, 0, 2] = Inr \<lparr>blk_sync = 2, blk_payload = 0x0200004B\<rparr>"
    using rs_block_round_trip [of _ "''fault''" "[0, 0, 2]" "[]"] d by blast
  have o: "octets_ok [0, 0, 2]" by (simp add: octets_ok_def fits_def)
  have "decode_block \<lparr>blk_sync = 2, blk_payload = 0x0200004B\<rparr> = Inr (canonical ''fault'' [0, 0, 2])"
    using rs_block_round_trip [of _ "''fault''" "[0, 0, 2]" "[]"] o e by blast
  then show "decode_block \<lparr>blk_sync = 2, blk_payload = 0x0200004B\<rparr> = Inr (''fault'', [0, 0, 2])"
    by (simp add: canonical_def)
  show "rbind (encode_data_flit (replicate 640 7)) decode_data_flit = Inr (replicate 640 7)"
    using rs_block_round_trip [of b kind data "replicate 640 7"] by (simp add: octets_ok_def list_all_iff fits_def)
qed

text \<open>Frames are whole: for every group width and any handshakes the engine never raises, the blocks that leave
  are exactly the accepted control flits and the consumed data octets, in order, and a frame completes
  after exactly 80 blocks.\<close>

theorem rs_frames_whole:
  assumes "frame_new g = Inr e0" and "\<forall>i \<in> set is. pred_option bus_command (fst i) \<and> pred_option (\<lambda>d. length d = 8 * nat g) (fst (snd i))"
  shows "\<exists>e outs m. run frame_step e0 is = Inr (e, outs) \<and>
     concat (map2 frame_in is outs) = concat (map frame_out outs) @ frame_rest e \<and>
     rfold (frame_watch (nat g)) 0 (zip is outs) = Inr m"
proof -
  have st: "frame_ok e0 \<and> fe_group e0 = nat g" "frame_rest e0 = []" "frame_counted e0 0"
    using frame_new_ok [OF assms(1)] by simp_all
  obtain e outs where r: "run frame_step e0 is = Inr (e, outs)"
    using rs_frame_total.run_total [OF st(1), of "is"] assms(2) by (auto simp: frame_input_ok_def)
  with rs_frame.flow_run [OF r st(1)] rs_frame_count.run_watched [OF r st(1,3)] st(2) show ?thesis by auto
qed

definition demo_frame :: frame_engine where
  "demo_frame = projr (frame_new 8)"

lemma demo_frame: "frame_new 8 = Inr demo_frame"
  unfolding demo_frame_def by (rule projr_ok) code_simp

theorem rs_frames_whole_witness:
  "\<exists>e outs. run frame_step demo_frame ((Some (frame_command_default\<lparr>fc_kind := 1\<rparr>), None, True) # replicate 10 (None, None, True)) =
     Inr (e, outs) \<and>
     concat (map2 frame_in ((Some (frame_command_default\<lparr>fc_kind := 1\<rparr>), None, True) # replicate 10 (None, None, True)) outs) =
       concat (map frame_out outs) @ frame_rest e"
proof -
  have "\<forall>i \<in> set ((Some (frame_command_default\<lparr>fc_kind := 1\<rparr>), None, True) # replicate 10 (None, None, True)).
      pred_option bus_command (fst i) \<and> pred_option (\<lambda>d. length d = 8 * nat 8) (fst (snd i))"
    by (auto simp: bus_command_def frame_command_default_def fits_def)
  from rs_frames_whole [OF demo_frame this] show ?thesis by blast
qed

text \<open>C20: The wire follows the calendar. From a new calendar on, whatever the producer and the output handshake do,
  and however resets and phase loads fall, also in the middle of a frame, no edge raises, and every edge shows exactly what
  the specification says: an edge with a reset or a load shows nothing, completes nothing and drops the
  frame in flight; on any other edge the group that leaves is the next group of the frame the calendar gives to the current
  codeword ordinal, a codeword completes exactly with its 80th block, and the next frame begins then or when idle, at once
  for control codewords and with a descriptor for data. Ordinals count from the loaded phase without bound, although the register
  keeps 14 bits. Inputs are legal: data of one group's length, and loads of configurations the constructor accepts.\<close>

theorem rs_wire_follows_calendar:
  assumes "calendar_new s l g = Inr c" "am_period s l = Some p" and "\<forall>i \<in> set edges. calendar_edge_ok (nat g) i"
  shows "\<exists>c' outs v. run calendar_edge_step c edges = Inr (c', outs) \<and>
     rfold (calendar_watch p (nat g)) (view_from config_default) (zip edges outs) = Inr v \<and>
     cf_phase c' = cv_ordinal v mod 16384 \<and> fe_active (cf_frame c') = cv_active v"
proof -
  note st = calendar_new_set [OF assms(1,2)]
  obtain c' outs where r: "run calendar_edge_step c edges = Inr (c', outs)"
    using rs_calendar.run_total [OF st(1), of edges] assms(3) by blast
  obtain v where "rfold (calendar_watch p (nat g)) (view_from config_default) (zip edges outs) = Inr v" "calendar_seen p c' v"
    using rs_calendar_wire.run_watched [OF r st] by blast
  with r show ?thesis by (auto simp: calendar_seen_def)
qed

definition demo_calendar :: calendar_frame where
  "demo_calendar = projr (calendar_new 100 1 8)"

lemma demo_calendar: "calendar_new 100 1 8 = Inr demo_calendar"
  unfolding demo_calendar_def by (rule projr_ok) code_simp

text \<open>Two groups of the first frame leave; then a load cancels it, two ordinals before the register wraps.\<close>

definition demo_edges :: "calendar_edge list" where
  "demo_edges = (let edge = (True, Some (replicate 64 0), True, False, None)
     in replicate 3 edge @ [(True, Some (replicate 64 0), True, False, Some (16383, True, False, 0))] @ replicate 30 edge)"

theorem rs_wire_follows_calendar_witness:
  "\<exists>c' outs v. run calendar_edge_step demo_calendar demo_edges = Inr (c', outs) \<and>
     rfold (calendar_watch 4096 8) (view_from config_default) (zip demo_edges outs) = Inr v \<and>
     cv_ordinal v mod 16384 = 1"
proof -
  have p: "am_period 100 1 = Some 4096" by code_simp
  have ok: "\<forall>i \<in> set demo_edges. calendar_edge_ok (nat 8) i" by (auto simp: demo_edges_def calendar_edge_ok_def Let_def)
  have f: "map_sum id (\<lambda>(c, _). cf_phase c) (run calendar_edge_step demo_calendar demo_edges) = Inr 1" by code_simp
  from rs_wire_follows_calendar [OF demo_calendar p ok] f show ?thesis by auto
qed

text \<open>The rates: in any window of one alignment period the calendar holds exactly one alignment marker and fills
  every other 1024th codeword with a rate idle, and in rapid mode exactly 128 rapid markers.\<close>

theorem rs_calendar_rates:
  assumes "am_period s l = Some p" and "0 \<le> a"
  shows "card {k \<in> {a..<a + p}. tx_codeword_kind s l k False = Inr ''alignment_marker''} = 1 \<and>
     card {k \<in> {a..<a + p}. tx_codeword_kind s l k False = Inr ''rate_idle''} = nat (p div 1024) - 1 \<and>
     card {k \<in> {a..<a + p}. tx_codeword_kind s l k True = Inr ''rapid_alignment_marker''} = 128"
proof -
  have e: "{k \<in> {a..<a + p}. tx_codeword_kind s l k r = Inr x} = {k \<in> {a..<a + p}. kind_at p r k = x}" for r x
    using tx_codeword_kind_eq [OF assms(1)] assms(2) by auto
  show ?thesis unfolding e using calendar_rates [OF assms] by (simp only: hits_def simp_thms)
qed

theorem rs_calendar_rates_witness:
  "card {k \<in> {5..<5 + 8192}. tx_codeword_kind 200 2 k False = Inr ''rate_idle''} = 7 \<and>
   card {k \<in> {5..<5 + 8192}. tx_codeword_kind 200 2 k False = Inr ''alignment_marker''} = 1"
proof -
  have p: "am_period 200 2 = Some 8192" by code_simp
  from rs_calendar_rates [OF p, of 5] show ?thesis by simp
qed

text \<open>In an accepted layout the split of port indices and the lane assignment are bijections onto the places of
  the stations, an index out of range is a ValueError, and every station index fits the declared width.\<close>

theorem layout_indices_bijective:
  assumes "layout_new n b = Inr l"
  shows "bij_betw (\<lambda>i. projr (split_port_index l i)) {0..<num_ports l} {p. port_place l p} \<and>
     bij_betw (\<lambda>i. projr (lane_assignment l i)) {0..<num_lanes l} {p. lane_place l p} \<and>
     (i \<notin> {0..<num_ports l} \<longrightarrow> split_port_index l i = Inl ValueError) \<and>
     (s \<in> {0..<n} \<longrightarrow> fits (station_index_width l) s)"
proof (intro conjI)
  have ok: "layout_ok l" and n: "sl_stations l = n" using layout_new_ok [OF assms] assms by (auto simp: layout_new_def Let_def)
  note sp = split_port_index_bij [OF ok] and la = lane_assignment_bij [OF ok]
  show "bij_betw (\<lambda>i. projr (split_port_index l i)) {0..<num_ports l} {p. port_place l p}"
  proof (rule bij_betw_byWitness [where f' = "join_port l"])
    show "join_port l ` {p. port_place l p} \<subseteq> {0..<num_ports l}"
    proof
      fix i assume "i \<in> join_port l ` {p. port_place l p}"
      then obtain p where "port_place l p" "i = join_port l p" by blast
      with sp(2) [of p] show "i \<in> {0..<num_ports l}"
        by (auto simp: split_port_index_def checked_index_def ensure_def split: if_splits)
    qed
  qed (use sp(1) sp(2) in fastforce)+
  show "bij_betw (\<lambda>i. projr (lane_assignment l i)) {0..<num_lanes l} {p. lane_place l p}"
  proof (rule bij_betw_byWitness [where f' = "join_lane l"])
    show "join_lane l ` {p. lane_place l p} \<subseteq> {0..<num_lanes l}"
    proof
      fix i assume "i \<in> join_lane l ` {p. lane_place l p}"
      then obtain p where "lane_place l p" "i = join_lane l p" by blast
      with la(2) [of p] show "i \<in> {0..<num_lanes l}"
        by (auto simp: lane_assignment_def checked_index_def ensure_def split: if_splits)
    qed
  qed (use la in fastforce)+
  show "i \<notin> {0..<num_ports l} \<longrightarrow> split_port_index l i = Inl ValueError" using sp(3) by simp
  show "s \<in> {0..<n} \<longrightarrow> fits (station_index_width l) s" using station_index_fits [OF ok] n by simp
qed

theorem layout_indices_bijective_witness:
  "bij_betw (\<lambda>i. projr (split_port_index \<lparr>sl_stations = 3, sl_bifurcation = ''2x2''\<rparr> i)) {0..<6}
     {p. port_place \<lparr>sl_stations = 3, sl_bifurcation = ''2x2''\<rparr> p} \<and>
   fits (station_index_width \<lparr>sl_stations = 3, sl_bifurcation = ''2x2''\<rparr>) 2 \<and>
   split_port_index \<lparr>sl_stations = 3, sl_bifurcation = ''2x2''\<rparr> 6 = Inl ValueError"
proof -
  have l: "layout_new 3 ''2x2'' = Inr \<lparr>sl_stations = 3, sl_bifurcation = ''2x2''\<rparr>" by code_simp
  have n: "num_ports \<lparr>sl_stations = 3, sl_bifurcation = ''2x2''\<rparr> = 6" by code_simp
  from layout_indices_bijective [OF l, of 6 2] show ?thesis by (simp add: n)
qed

end
