(* ===== verification/Bit_Packing.thy ===== *)
theory Bit_Packing
  imports Prelude
begin

section \<open>Words packed from fields\<close>

text \<open>
  The request and response words of the endpoints are packed from many fields. A layout lists position, width
  and value from the top down; a field of a packed word is its value, and packing the fields of a word that
  the layout covers gives the word back.
\<close>

definition pack :: "(nat \<times> nat \<times> int) list \<Rightarrow> int" where
  "pack fs = foldr (\<lambda>(k, n, v) w. push_bit k v OR w) fs 0"

fun pack_ok :: "nat \<Rightarrow> (nat \<times> nat \<times> int) list \<Rightarrow> bool" where
  "pack_ok hi [] \<longleftrightarrow> True"
| "pack_ok hi ((k, n, v) # fs) \<longleftrightarrow> k + n \<le> hi \<and> fits n v \<and> pack_ok k fs"

fun covers :: "nat \<Rightarrow> (nat \<times> nat) list \<Rightarrow> bool" where
  "covers hi [] \<longleftrightarrow> hi = 0"
| "covers hi ((k, n) # ls) \<longleftrightarrow> k + n = hi \<and> covers k ls"

lemma pack_simps [simp]: "pack [] = 0" "pack ((k, n, v) # fs) = push_bit k v OR pack fs"
  by (simp_all add: pack_def)

lemma pack_fits: "pack_ok hi fs \<Longrightarrow> fits hi (pack fs)"
proof (induction hi fs rule: pack_ok.induct)
  case (2 hi k n v fs)
  then have "fits hi (push_bit k v)" "fits hi (pack fs)"
    by (auto intro: fits_push [where m = n] fits_mono [where n = k])
  then show ?case by (simp add: fits_or)
qed simp

lemma pack_ok_below: "pack_ok hi fs \<Longrightarrow> (k, n, v) \<in> set fs \<Longrightarrow> k + n \<le> hi"
  by (induction hi fs rule: pack_ok.induct) auto

lemma pack_fld: "pack_ok hi fs \<Longrightarrow> (k, n, v) \<in> set fs \<Longrightarrow> fld (pack fs) k n = v"
proof (induction hi fs rule: pack_ok.induct)
  case (2 hi k' n' v' fs)
  show ?case
  proof (cases "(k, n, v) = (k', n', v')")
    case True
    then show ?thesis using 2(2) pack_fits [of k' fs] by (simp add: fld_or fld_hit fld_below_base [of k'])
  next
    case False
    then have m: "(k, n, v) \<in> set fs" using 2(3) by auto
    then have "k + n \<le> k'" using 2(2) pack_ok_below by auto
    then show ?thesis using 2 m by (simp add: fld_or fld_above)
  qed
qed simp

lemma fld_take_bit: "k + n \<le> m \<Longrightarrow> fld (take_bit m w) k n = fld w k n"
  by (rule bit_eqI) (auto simp: bit_fld bit_take_bit_iff)

lemma covers_below: "covers hi ls \<Longrightarrow> (k, n) \<in> set ls \<Longrightarrow> k + n \<le> hi"
  by (induction hi ls rule: covers.induct) auto

lemma fits_take_bit: "fits n (take_bit n w)"
  by (simp add: fits_def)

lemma pack_unpack: "covers hi ls \<Longrightarrow> fits hi w \<Longrightarrow> pack (map (\<lambda>(k, n). (k, n, fld w k n)) ls) = w"
proof (induction hi ls arbitrary: w rule: covers.induct)
  case (1 hi)
  then show ?case by (simp add: fits_def)
next
  case (2 hi k n ls)
  have eq: "map (\<lambda>(k', n'). (k', n', fld w k' n')) ls = map (\<lambda>(k', n'). (k', n', fld (take_bit k w) k' n')) ls"
    using 2(2) covers_below [of k ls] by (auto simp: fld_take_bit)
  have "pack (map (\<lambda>(k', n'). (k', n', fld w k' n')) ls) = take_bit k w"
    unfolding eq using 2(2) fits_take_bit [of k w] by (intro 2(1)) simp_all
  moreover have "push_bit k (fld w k n) OR take_bit k w = w"
  proof (rule bit_eqI)
    fix i
    have "\<not> bit w i" if "k + n \<le> i" using fits_bit [OF 2(3), of i] 2(2) that by simp
    then show "bit (push_bit k (fld w k n) OR take_bit k w) i \<longleftrightarrow> bit w i"
      by (auto simp: bit_simps bit_fld not_less) (metis add_diff_inverse_nat add_less_cancel_left not_less)+
  qed
  ultimately show ?case by simp
qed

lemma drop_bit_fld: "fits (k + n) w \<Longrightarrow> drop_bit k w = fld w k n"
  using fits_drop [of "k + n" w k n] by (simp add: fld_def fits_def take_bit_int_eq_self)

lemma or_add_disjoint:
  assumes "fits k (x :: int)"
  shows "x OR push_bit k y = x + push_bit k y"
proof -
  have "\<not> bit x i \<or> \<not> bit (push_bit k y) i" for i
    using fits_bit [OF assms, of i] by (cases "k \<le> i") (simp_all add: bit_push_bit_iff)
  from disjunctive_add [OF this] show ?thesis by simp
qed

text \<open>Sums of digits of equal width: each digit can be read back.\<close>

lemma or_add_fits: "fits k (x :: int) \<Longrightarrow> x + push_bit k y = x OR push_bit k y"
  by (simp add: or_add_disjoint)

lemma digit_sum:
  assumes "\<And>i. i < n \<Longrightarrow> fits w (d i)"
  shows "fits (w * n) (\<Sum>i<n. push_bit (w * i) (d i)) \<and>
    (\<forall>k. fld (\<Sum>i<n. push_bit (w * i) (d i)) (w * k) w = (if k < n then d k else 0))"
  using assms
proof (induction n)
  case (Suc n)
  let ?s = "\<Sum>i<n. push_bit (w * i) (d i)"
  have ih: "fits (w * n) ?s" "\<And>k. fld ?s (w * k) w = (if k < n then d k else 0)" using Suc by auto
  have s: "(\<Sum>i<Suc n. push_bit (w * i) (d i)) = ?s OR push_bit (w * n) (d n)"
    using ih(1) by (simp add: or_add_fits)
  have d: "fits w (d n)" using Suc.prems by simp
  have "fits (w * Suc n) (?s OR push_bit (w * n) (d n))"
    using ih(1) d by (intro fits_or) (auto intro: fits_mono fits_push)
  moreover have "fld (?s OR push_bit (w * n) (d n)) (w * k) w = (if k < Suc n then d k else 0)" for k
  proof -
    consider "k < n" | "k = n" | "n < k" by linarith
    then show ?thesis
    proof cases
      case 1
      then have "w * k + w \<le> w * n" using mult_le_mono2 [of "Suc k" n w] by simp
      then show ?thesis using 1 by (simp add: fld_or ih fld_above)
    next
      case 2
      then show ?thesis using d by (simp add: fld_or ih fld_hit)
    next
      case 3
      then have "w * n + w \<le> w * k" using mult_le_mono2 [of "Suc n" k w] by simp
      then show ?thesis using 3 d by (simp add: fld_or ih fld_below [of w])
    qed
  qed
  ultimately show ?case unfolding s by blast
qed simp

lemma sum_list_upt: "sum_list (map f [0..<n]) = (\<Sum>i<n. f i :: int)"
  by (simp add: interv_sum_list_conv_sum_set_nat lessThan_atLeast0)

lemma sum_list_filter: "sum_list (map f (filter P xs)) = sum_list (map (\<lambda>x. if P x then f x else (0 :: int)) xs)"
  by (induction xs) simp_all

end
