(* ===== verification/Endpoint_Single.thy ===== *)
theory Endpoint_Single
  imports Bit_Packing
begin

section \<open>Single 64-byte reads: codec, memory and originator\<close>

text \<open>
  Models \<open>simulator/UAlink2.0/model/ualink/endpoint_transaction.py\<close>: the request and response fields of the
  local profile, the byte-array completer, and the tracker of tags at the originator. Records of the source
  are records here; the tracker's dict is an association list from (port, tag).
\<close>

record read_request =
  rr_port :: int
  rr_tag :: int
  rr_address :: int
  rr_src :: int
  rr_dst :: int
  rr_length :: int
  rr_attr :: int
  rr_vc :: int
  rr_pool :: bool
  rr_asi :: int
  rr_metadata :: int

record read_response =
  rp_port :: int
  rp_tag :: int
  rp_src :: int
  rp_dst :: int
  rp_halves :: "int list"
  rp_status :: int
  rp_offset :: int
  rp_last :: bool
  rp_num_beats :: int
  rp_rsp_type :: int
  rp_vc :: int
  rp_pool :: bool
  rp_data_error :: bool

record completion =
  cp_port :: int
  cp_tag :: int
  cp_status :: int
  cp_data :: "int option"

definition check_width :: "int \<Rightarrow> nat \<Rightarrow> py_error + unit" where
  "check_width value width = ensure (fits width value)"

definition check_widths :: "(int \<times> nat) list \<Rightarrow> py_error + unit" where
  "check_widths vs = ensure (list_all (\<lambda>(v, n). fits n v) vs)"

definition validate_read :: "read_request \<Rightarrow> py_error + unit" where
  "validate_read r =
     rbind (check_widths [(rr_port r, 2), (rr_tag r, 11), (rr_address r, 57), (rr_src r, 10), (rr_dst r, 10),
       (rr_length r, 6), (rr_attr r, 8), (rr_vc r, 2), (rr_asi r, 2), (rr_metadata r, 8)]) (\<lambda>_.
     rbind (ensure (fld (rr_address r) 0 6 = 0 \<and> rr_length r = 15 \<and> rr_attr r = 255)) (\<lambda>_.
     ensure (rr_vc r = 0 \<and> \<not> rr_pool r \<and> rr_asi r = 0 \<and> rr_metadata r = 0)))"

definition validate_response :: "read_response \<Rightarrow> py_error + unit" where
  "validate_response r =
     rbind (check_widths [(rp_port r, 2), (rp_tag r, 11), (rp_src r, 10), (rp_dst r, 10), (rp_status r, 4),
       (rp_offset r, 2), (rp_num_beats r, 2), (rp_rsp_type r, 2), (rp_vc r, 2)]) (\<lambda>_.
     rbind (ensure (rp_status r \<in> {0, 3})) (\<lambda>_.
     rbind (ensure (rp_offset r = 0 \<and> rp_num_beats r = 0 \<and> rp_last r \<and> rp_rsp_type r = 0)) (\<lambda>_.
     rbind (ensure (rp_vc r = 0 \<and> \<not> rp_pool r \<and> \<not> rp_data_error r)) (\<lambda>_.
     rbind (ensure (length (rp_halves r) = 2)) (\<lambda>_.
     ensure (list_all (fits 256) (rp_halves r)))))))"

definition encode_read :: "read_request \<Rightarrow> py_error + int" where
  "encode_read r =
     rbind (validate_read r) (\<lambda>_. Inr
       (push_bit 124 1 OR push_bit 118 3 OR push_bit 116 (rr_vc r) OR push_bit 114 (rr_asi r) OR
        push_bit 103 (rr_tag r) OR push_bit 102 (of_bool (rr_pool r)) OR push_bit 94 (rr_attr r) OR
        push_bit 88 (rr_length r) OR push_bit 80 (rr_metadata r) OR push_bit 25 (drop_bit 2 (rr_address r)) OR
        push_bit 15 (rr_src r) OR push_bit 5 (rr_dst r)))"

definition decode_read :: "int \<Rightarrow> int \<Rightarrow> py_error + read_request" where
  "decode_read word port =
     rbind (check_width word 128) (\<lambda>_.
     rbind (ensure (drop_bit 124 word = 1 \<and> fld word 118 6 = 3 \<and> fld word 0 5 = 0)) (\<lambda>_.
       let r = \<lparr>rr_port = port, rr_tag = fld word 103 11, rr_address = push_bit 2 (fld word 25 55),
                rr_src = fld word 15 10, rr_dst = fld word 5 10, rr_length = fld word 88 6, rr_attr = fld word 94 8,
                rr_vc = fld word 116 2, rr_pool = fld word 102 1 \<noteq> 0, rr_asi = fld word 114 2,
                rr_metadata = fld word 80 8\<rparr>
       in rbind (validate_read r) (\<lambda>_. Inr r)))"

definition encode_response :: "read_response \<Rightarrow> py_error + int" where
  "encode_response r =
     rbind (validate_response r) (\<lambda>_. Inr
       (push_bit 60 2 OR push_bit 58 (rp_vc r) OR push_bit 47 (rp_tag r) OR push_bit 46 (of_bool (rp_pool r)) OR
        push_bit 44 (rp_num_beats r) OR push_bit 42 (rp_offset r) OR push_bit 38 (rp_status r) OR push_bit 37 1 OR
        push_bit 36 (of_bool (rp_last r)) OR push_bit 26 (rp_src r) OR push_bit 16 (rp_dst r) OR
        push_bit 14 (rp_rsp_type r)))"

definition decode_response :: "int \<Rightarrow> int list \<Rightarrow> int \<Rightarrow> py_error + read_response" where
  "decode_response word data_halves port =
     rbind (check_width word 64) (\<lambda>_.
     rbind (ensure (drop_bit 60 word = 2 \<and> fld word 37 1 \<noteq> 0)) (\<lambda>_.
       let r = \<lparr>rp_port = port, rp_tag = fld word 47 11, rp_src = fld word 26 10, rp_dst = fld word 16 10,
                rp_halves = data_halves, rp_status = fld word 38 4, rp_offset = fld word 42 2,
                rp_last = fld word 36 1 \<noteq> 0, rp_num_beats = fld word 44 2, rp_rsp_type = fld word 14 2,
                rp_vc = fld word 58 2, rp_pool = fld word 46 1 \<noteq> 0, rp_data_error = False\<rparr>
       in rbind (validate_response r) (\<lambda>_. Inr r)))"

text \<open>Little-endian integers from octets.\<close>

definition little_endian :: "int list \<Rightarrow> int" where
  "little_endian data = foldr (\<lambda>b n. b + 256 * n) data 0"

definition memory_read :: "read_request \<Rightarrow> int list \<Rightarrow> py_error + read_response" where
  "memory_read r memory =
     rbind (validate_read r) (\<lambda>_.
       let (status, halves) =
         (if rr_address r + 64 > int (length memory) then (3, [0, 0])
          else let a = nat (rr_address r)
            in (0, [little_endian (take 32 (drop a memory)), little_endian (take 32 (drop (a + 32) memory))]))
       in Inr \<lparr>rp_port = rr_port r, rp_tag = rr_tag r, rp_src = rr_dst r, rp_dst = rr_src r, rp_halves = halves,
               rp_status = status, rp_offset = 0, rp_last = True, rp_num_beats = 0, rp_rsp_type = 0, rp_vc = 0,
               rp_pool = False, rp_data_error = False\<rparr>)"

subsection \<open>The tracker\<close>

type_synonym tracker_entry = "read_request \<times> bool \<times> completion option"

record read_tracker =
  rt_local :: int
  rt_capacity :: int
  rt_ports :: int
  rt_records :: "((int \<times> int) \<times> tracker_entry) list"

definition tracker_new :: "int \<Rightarrow> int \<Rightarrow> int \<Rightarrow> py_error + read_tracker" where
  "tracker_new local_id capacity num_ports =
     rbind (check_width local_id 10) (\<lambda>_.
     rbind (ensure (\<not> (capacity < 1 \<or> num_ports \<notin> {1, 2, 4}))) (\<lambda>_.
       Inr \<lparr>rt_local = local_id, rt_capacity = capacity, rt_ports = num_ports, rt_records = []\<rparr>))"

definition tracker_occupancy :: "read_tracker \<Rightarrow> int" where
  "tracker_occupancy t = int (length (rt_records t))"

definition tracker_key :: "read_tracker \<Rightarrow> int \<Rightarrow> int \<Rightarrow> py_error + int \<times> int" where
  "tracker_key t port tag =
     rbind (check_width port 2) (\<lambda>_. rbind (check_width tag 11) (\<lambda>_.
     rbind (ensure (\<not> port \<ge> rt_ports t)) (\<lambda>_. Inr (port, tag))))"

definition tracker_record :: "read_tracker \<Rightarrow> int \<Rightarrow> int \<Rightarrow> py_error + (int \<times> int) \<times> tracker_entry" where
  "tracker_record t port tag =
     rbind (tracker_key t port tag) (\<lambda>key.
       case map_of (rt_records t) key of None \<Rightarrow> Inl ValueError | Some e \<Rightarrow> Inr (key, e))"

definition tracker_reserve :: "read_tracker \<Rightarrow> read_request \<Rightarrow> py_error + read_tracker" where
  "tracker_reserve t r =
     rbind (validate_read r) (\<lambda>_.
     rbind (tracker_key t (rr_port r) (rr_tag r)) (\<lambda>key.
     rbind (ensure (rr_src r = rt_local t)) (\<lambda>_.
     rbind (ensure (map_of (rt_records t) key = None)) (\<lambda>_.
     rbind (ensure (\<not> tracker_occupancy t \<ge> rt_capacity t)) (\<lambda>_.
       Inr (t\<lparr>rt_records := AList.update key (r, False, None) (rt_records t)\<rparr>))))))"

definition tracker_mark_sent :: "read_tracker \<Rightarrow> int \<Rightarrow> int \<Rightarrow> py_error + read_tracker" where
  "tracker_mark_sent t port tag =
     rbind (tracker_record t port tag) (\<lambda>(key, r, sent, c).
     rbind (ensure (\<not> sent)) (\<lambda>_. Inr (t\<lparr>rt_records := AList.update key (r, True, c) (rt_records t)\<rparr>)))"

definition tracker_receive :: "read_tracker \<Rightarrow> read_response \<Rightarrow> py_error + read_tracker" where
  "tracker_receive t p =
     rbind (validate_response p) (\<lambda>_.
     rbind (tracker_record t (rp_port p) (rp_tag p)) (\<lambda>(key, r, sent, c).
     rbind (ensure (\<not> (\<not> sent \<or> c \<noteq> None))) (\<lambda>_.
     rbind (ensure (rp_dst p = rt_local t)) (\<lambda>_.
       let data = (rp_halves p ! 0) OR push_bit 256 (rp_halves p ! 1);
           result = \<lparr>cp_port = rp_port p, cp_tag = rp_tag p, cp_status = rp_status p,
                     cp_data = (if rp_status p = 0 then Some data else None)\<rparr>
       in Inr (t\<lparr>rt_records := AList.update key (r, sent, Some result) (rt_records t)\<rparr>)))))"

definition tracker_peek :: "read_tracker \<Rightarrow> int \<Rightarrow> int \<Rightarrow> py_error + completion option" where
  "tracker_peek t port tag = rbind (tracker_record t port tag) (\<lambda>(_, _, _, c). Inr c)"

definition tracker_retire :: "read_tracker \<Rightarrow> int \<Rightarrow> int \<Rightarrow> py_error + read_tracker \<times> completion" where
  "tracker_retire t port tag =
     rbind (tracker_record t port tag) (\<lambda>(key, _, _, c).
       case c of None \<Rightarrow> Inl ValueError
       | Some c \<Rightarrow> Inr (t\<lparr>rt_records := AList.delete key (rt_records t)\<rparr>, c))"

subsection \<open>The codec\<close>

definition request_layout :: "int \<Rightarrow> int \<Rightarrow> int \<Rightarrow> int \<Rightarrow> int \<Rightarrow> int \<Rightarrow> int \<Rightarrow> int \<Rightarrow> int \<Rightarrow> int \<Rightarrow> int \<Rightarrow> (nat \<times> nat \<times> int) list" where
  "request_layout cmd vc asi tag pool attr len meta addr src dst =
     [(124, 4, 1), (118, 6, cmd), (116, 2, vc), (114, 2, asi), (103, 11, tag), (102, 1, pool), (94, 8, attr),
      (88, 6, len), (80, 8, meta), (25, 55, addr), (15, 10, src), (5, 10, dst), (0, 5, 0)]"

definition response_layout :: "int \<Rightarrow> int \<Rightarrow> int \<Rightarrow> int \<Rightarrow> int \<Rightarrow> int \<Rightarrow> int \<Rightarrow> int \<Rightarrow> int \<Rightarrow> int \<Rightarrow> (nat \<times> nat \<times> int) list" where
  "response_layout vc tag pool nb offset status lst src dst typ =
     [(60, 4, 2), (58, 2, vc), (47, 11, tag), (46, 1, pool), (44, 2, nb), (42, 2, offset), (38, 4, status), (37, 1, 1),
      (36, 1, lst), (26, 10, src), (16, 10, dst), (14, 2, typ), (0, 14, 0)]"

definition request_ok :: "read_request \<Rightarrow> bool" where
  "request_ok r \<longleftrightarrow> validate_read r = Inr ()"

definition response_ok :: "read_response \<Rightarrow> bool" where
  "response_ok r \<longleftrightarrow> validate_response r = Inr ()"

lemma validate_read_Inr: "validate_read r = Inr u \<longleftrightarrow> request_ok r"
  by (simp add: request_ok_def)

lemma validate_response_Inr: "validate_response r = Inr u \<longleftrightarrow> response_ok r"
  by (simp add: response_ok_def)

lemma request_okD:
  assumes "request_ok r"
  shows "fits 2 (rr_port r)" "fits 11 (rr_tag r)" "fits 57 (rr_address r)" "fits 10 (rr_src r)" "fits 10 (rr_dst r)"
    "fld (rr_address r) 0 6 = 0" "rr_length r = 15" "rr_attr r = 255" "rr_vc r = 0" "\<not> rr_pool r" "rr_asi r = 0" "rr_metadata r = 0"
  using assms by (simp_all add: request_ok_def validate_read_def check_widths_def)

lemma response_okD:
  assumes "response_ok r"
  shows "fits 2 (rp_port r)" "fits 11 (rp_tag r)" "fits 10 (rp_src r)" "fits 10 (rp_dst r)" "rp_status r \<in> {0, 3}"
    "rp_offset r = 0" "rp_num_beats r = 0" "rp_last r" "rp_rsp_type r = 0" "rp_vc r = 0" "\<not> rp_pool r" "\<not> rp_data_error r"
    "length (rp_halves r) = 2" "list_all (fits 256) (rp_halves r)"
  using assms by (simp_all add: response_ok_def validate_response_def check_widths_def)

definition request_pack :: "read_request \<Rightarrow> (nat \<times> nat \<times> int) list" where
  "request_pack r = request_layout 3 (rr_vc r) (rr_asi r) (rr_tag r) (of_bool (rr_pool r)) (rr_attr r) (rr_length r)
     (rr_metadata r) (drop_bit 2 (rr_address r)) (rr_src r) (rr_dst r)"

definition response_pack :: "read_response \<Rightarrow> (nat \<times> nat \<times> int) list" where
  "response_pack r = response_layout (rp_vc r) (rp_tag r) (of_bool (rp_pool r)) (rp_num_beats r) (rp_offset r)
     (rp_status r) (of_bool (rp_last r)) (rp_src r) (rp_dst r) (rp_rsp_type r)"

lemma encode_read_pack: "request_ok r \<Longrightarrow> encode_read r = Inr (pack (request_pack r))"
  by (simp add: encode_read_def request_ok_def request_pack_def request_layout_def)

lemma encode_response_pack: "response_ok r \<Longrightarrow> encode_response r = Inr (pack (response_pack r))"
  by (simp add: encode_response_def response_ok_def response_pack_def response_layout_def)

lemma request_pack_ok: "request_ok r \<Longrightarrow> pack_ok 128 (request_pack r)"
  using request_okD [of r] fits_drop [of 57 "rr_address r" 2 55]
  by (simp add: request_pack_def request_layout_def) (simp add: fits_def)

lemma response_pack_ok: "response_ok r \<Longrightarrow> pack_ok 64 (response_pack r)"
  using response_okD [of r] by (auto simp: response_pack_def response_layout_def fits_def)

lemma push_drop_bit: "fld a 0 m = 0 \<Longrightarrow> n \<le> m \<Longrightarrow> push_bit n (drop_bit n a) = (a :: int)"
proof (rule bit_eqI)
  fix i assume "fld a 0 m = 0" "n \<le> m"
  then have "\<not> bit a i" if "i < n" using bit_fld [of a 0 m i] that by simp
  then show "bit (push_bit n (drop_bit n a)) i = bit a i"
    by (cases "i < n") (auto simp: bit_simps not_less)
qed

lemma decode_encode_read:
  assumes "request_ok r"
  shows "\<exists>w. encode_read r = Inr w \<and> decode_read w (rr_port r) = Inr r"
proof -
  let ?w = "pack (request_pack r)"
  note ok = request_pack_ok [OF assms] and d = request_okD [OF assms]
  have f: "fld ?w 124 4 = 1" "fld ?w 118 6 = 3" "fld ?w 116 2 = rr_vc r" "fld ?w 114 2 = rr_asi r" "fld ?w 103 11 = rr_tag r"
    "fld ?w 102 1 = of_bool (rr_pool r)" "fld ?w 94 8 = rr_attr r" "fld ?w 88 6 = rr_length r" "fld ?w 80 8 = rr_metadata r"
    "fld ?w 25 55 = drop_bit 2 (rr_address r)" "fld ?w 15 10 = rr_src r" "fld ?w 5 10 = rr_dst r" "fld ?w 0 5 = 0"
    by (rule pack_fld [OF ok], simp add: request_pack_def request_layout_def)+
  have w: "fits 128 ?w" by (rule pack_fits [OF ok])
  then have t: "drop_bit 124 ?w = 1" using drop_bit_fld [of 124 4 ?w] f(1) by simp
  have a: "push_bit 2 (drop_bit 2 (rr_address r)) = rr_address r" by (rule push_drop_bit [OF d(6)]) simp
  have v: "validate_read r = Inr ()" using assms by (simp add: request_ok_def)
  have eq: "\<lparr>rr_port = rr_port r, rr_tag = rr_tag r, rr_address = rr_address r, rr_src = rr_src r, rr_dst = rr_dst r,
      rr_length = rr_length r, rr_attr = rr_attr r, rr_vc = rr_vc r, rr_pool = rr_pool r, rr_asi = rr_asi r,
      rr_metadata = rr_metadata r\<rparr> = r" by (cases r) simp
  have "decode_read ?w (rr_port r) = Inr r"
    unfolding decode_read_def t f check_width_def using w v a by (simp add: Let_def eq)
  then show ?thesis using encode_read_pack [OF assms] by blast
qed

lemma encode_decode_read:
  assumes "decode_read w port = Inr r"
  shows "encode_read r = Inr w" "rr_port r = port"
proof -
  have w: "fits 128 w" "drop_bit 124 w = 1" "fld w 118 6 = 3" "fld w 0 5 = 0"
    and r: "r = \<lparr>rr_port = port, rr_tag = fld w 103 11, rr_address = push_bit 2 (fld w 25 55),
                rr_src = fld w 15 10, rr_dst = fld w 5 10, rr_length = fld w 88 6, rr_attr = fld w 94 8,
                rr_vc = fld w 116 2, rr_pool = fld w 102 1 \<noteq> 0, rr_asi = fld w 114 2,
                rr_metadata = fld w 80 8\<rparr>" and ok: "request_ok r"
    using assms by (auto simp: decode_read_def check_width_def Let_def request_ok_def)
  show "rr_port r = port" by (simp add: r)
  have b: "of_bool (fld w 102 1 \<noteq> 0) = fld w 102 1" unfolding fld_one by simp
  have t: "fld w 124 4 = 1" using drop_bit_fld [of 124 4 w] w(1,2) by simp
  have b': "fld w 102 (Suc 0) = of_bool (bit w 102)" using fld_one [of w 102] by simp
  have "request_pack r = map (\<lambda>(k, n). (k, n, fld w k n))
     [(124, 4), (118, 6), (116, 2), (114, 2), (103, 11), (102, 1), (94, 8), (88, 6), (80, 8), (25, 55), (15, 10), (5, 10), (0, 5)]"
    by (simp add: request_pack_def request_layout_def r b b' t w drop_bit_push_bit)
  note eq = this
  have "pack (request_pack r) = w" unfolding eq by (rule pack_unpack [OF _ w(1)]) simp
  then show "encode_read r = Inr w" using encode_read_pack [OF ok] by simp
qed

lemma decode_encode_response:
  assumes "response_ok r"
  shows "\<exists>w. encode_response r = Inr w \<and> decode_response w (rp_halves r) (rp_port r) = Inr r"
proof -
  let ?w = "pack (response_pack r)"
  note ok = response_pack_ok [OF assms] and d = response_okD [OF assms]
  have f: "fld ?w 60 4 = 2" "fld ?w 58 2 = rp_vc r" "fld ?w 47 11 = rp_tag r" "fld ?w 46 1 = of_bool (rp_pool r)"
    "fld ?w 44 2 = rp_num_beats r" "fld ?w 42 2 = rp_offset r" "fld ?w 38 4 = rp_status r" "fld ?w 37 1 = 1"
    "fld ?w 36 1 = of_bool (rp_last r)" "fld ?w 26 10 = rp_src r" "fld ?w 16 10 = rp_dst r" "fld ?w 14 2 = rp_rsp_type r"
    by (rule pack_fld [OF ok], simp add: response_pack_def response_layout_def)+
  have w: "fits 64 ?w" by (rule pack_fits [OF ok])
  then have t: "drop_bit 60 ?w = 2" using drop_bit_fld [of 60 4 ?w] f(1) by simp
  have v: "validate_response r = Inr ()" using assms by (simp add: response_ok_def)
  have eq: "\<lparr>rp_port = rp_port r, rp_tag = rp_tag r, rp_src = rp_src r, rp_dst = rp_dst r, rp_halves = rp_halves r,
      rp_status = rp_status r, rp_offset = rp_offset r, rp_last = rp_last r, rp_num_beats = rp_num_beats r,
      rp_rsp_type = rp_rsp_type r, rp_vc = rp_vc r, rp_pool = rp_pool r, rp_data_error = False\<rparr> = r"
    using d(12) by (cases r) simp
  have "decode_response ?w (rp_halves r) (rp_port r) = Inr r"
    unfolding decode_response_def t f check_width_def using w v by (simp add: Let_def eq)
  then show ?thesis using encode_response_pack [OF assms] by blast
qed

subsection \<open>Memory\<close>

definition bytes_ok :: "int list \<Rightarrow> bool" where
  "bytes_ok memory \<longleftrightarrow> list_all (fits 8) memory"

lemma little_endian_append: "little_endian (xs @ ys) = little_endian xs + 256 ^ length xs * little_endian ys"
  by (induction xs) (simp_all add: little_endian_def algebra_simps)

lemma little_endian_range: "bytes_ok xs \<Longrightarrow> fits (8 * length xs) (little_endian xs)"
proof (induction xs)
  case (Cons x xs)
  then have "fits 8 x" "fits (8 * length xs) (little_endian xs)" by (simp_all add: bytes_ok_def)
  then have "fits (8 + 8 * length xs) (x OR push_bit 8 (little_endian xs))"
    by (intro fits_or) (auto intro: fits_mono fits_push)
  moreover have "x OR push_bit 8 (little_endian xs) = x + push_bit 8 (little_endian xs)"
    by (rule or_add_disjoint [OF \<open>fits 8 x\<close>])
  ultimately show ?case by (simp add: little_endian_def push_bit_eq_mult mult.commute)
qed (simp add: little_endian_def)

text \<open>The completed data of a read: the 64 octets at the address, or status 3 exactly outside the memory.\<close>

definition read_data :: "read_request \<Rightarrow> int list \<Rightarrow> int option" where
  "read_data r memory =
     (if rr_address r + 64 > int (length memory) then None
      else Some (little_endian (take 64 (drop (nat (rr_address r)) memory))))"

lemma memory_read_ok:
  assumes "request_ok r" "bytes_ok memory"
  obtains p where "memory_read r memory = Inr p" "response_ok p" "rp_port p = rr_port r" "rp_tag p = rr_tag r"
    "rp_dst p = rr_src r" "rp_src p = rr_dst r"
    "read_data r memory = (if rp_status p = 0 then Some (rp_halves p ! 0 OR push_bit 256 (rp_halves p ! 1)) else None)"
proof -
  note d = request_okD [OF assms(1)]
  define a where "a = nat (rr_address r)"
  define p where "p = \<lparr>rp_port = rr_port r, rp_tag = rr_tag r, rp_src = rr_dst r, rp_dst = rr_src r,
    rp_halves = (if rr_address r + 64 > int (length memory) then [0, 0]
      else [little_endian (take 32 (drop a memory)), little_endian (take 32 (drop (a + 32) memory))]),
    rp_status = (if rr_address r + 64 > int (length memory) then 3 else 0), rp_offset = 0, rp_last = True, rp_num_beats = 0,
    rp_rsp_type = 0, rp_vc = 0, rp_pool = False, rp_data_error = False\<rparr>"
  have m: "memory_read r memory = Inr p"
    using assms(1) by (simp add: memory_read_def request_ok_def p_def a_def Let_def)
  have b: "bytes_ok (take 32 (drop n memory))" for n
    using assms(2) by (auto simp: bytes_ok_def list_all_iff dest!: in_set_takeD in_set_dropD)
  have r: "fits 256 (little_endian (take 32 (drop n memory)))" for n
    using little_endian_range [OF b [of n]] by (rule fits_mono) simp
  have st: "response_ok p"
    using d r by (simp add: response_ok_def validate_response_def check_widths_def p_def) (simp add: fits_def)
  have "read_data r memory = (if rp_status p = 0 then Some (rp_halves p ! 0 OR push_bit 256 (rp_halves p ! 1)) else None)"
  proof (cases "rr_address r + 64 > int (length memory)")
    case True
    then show ?thesis by (simp add: read_data_def p_def)
  next
    case False
    have "int a = rr_address r" using d(3) by (simp add: a_def fits_def)
    with False have len: "a + 64 \<le> length memory" by linarith
    have sp: "take 64 (drop a memory) = take 32 (drop a memory) @ take 32 (drop (a + 32) memory)"
      using take_add [of 32 32 "drop a memory"] by (simp add: drop_drop add.commute)
    have l: "min (length memory - a) 32 = 32" using len by simp
    have "little_endian (take 32 (drop a memory)) + push_bit 256 (little_endian (take 32 (drop (a + 32) memory))) =
        little_endian (take 32 (drop a memory)) OR push_bit 256 (little_endian (take 32 (drop (a + 32) memory)))"
      by (rule or_add_disjoint [OF r, symmetric])
    then have "little_endian (take 64 (drop a memory)) =
        little_endian (take 32 (drop a memory)) OR push_bit 256 (little_endian (take 32 (drop (a + 32) memory)))"
      by (simp add: sp little_endian_append l push_bit_eq_mult mult.commute)
    then show ?thesis using False by (simp add: read_data_def p_def flip: a_def)
  qed
  then show thesis using m st by (intro that [of p]) (simp_all add: p_def)
qed

subsection \<open>The life of a tag\<close>

text \<open>
  What the tracker promises, without its dictionary: a tag is free, reserved for a request, sent, or completed
  with a result, and at most \<open>capacity\<close> tags are not free.
\<close>

datatype tag_life = Free | Reserved read_request | Sent_Out read_request | Complete read_request completion

definition entry_life :: "tracker_entry option \<Rightarrow> tag_life" where
  "entry_life e = (case e of None \<Rightarrow> Free
     | Some (r, sent, c) \<Rightarrow> (case c of Some c \<Rightarrow> Complete r c | None \<Rightarrow> if sent then Sent_Out r else Reserved r))"

definition tag_life :: "read_tracker \<Rightarrow> int \<times> int \<Rightarrow> tag_life" where
  "tag_life t key = entry_life (map_of (rt_records t) key)"

definition tracker_ok :: "read_tracker \<Rightarrow> bool" where
  "tracker_ok t \<longleftrightarrow> distinct (map fst (rt_records t)) \<and> int (length (rt_records t)) \<le> rt_capacity t \<and>
     list_all (\<lambda>(key, r, sent, c). key = (rr_port r, rr_tag r) \<and> request_ok r \<and> rr_src r = rt_local t \<and> (c \<noteq> None \<longrightarrow> sent) \<and>
       pred_option (\<lambda>c. (cp_port c, cp_tag c) = key) c) (rt_records t)"

datatype tag_event = Reserve read_request | Mark_Sent int int | Response read_response | Retire int int

text \<open>A rejected event leaves the tracker as it was.\<close>

datatype tag_outcome = Done | Rejected | Retired completion

definition outcome_of :: "read_tracker \<Rightarrow> py_error + read_tracker \<Rightarrow> read_tracker \<times> tag_outcome" where
  "outcome_of t r = (case r of Inl _ \<Rightarrow> (t, Rejected) | Inr t' \<Rightarrow> (t', Done))"

fun tracker_step :: "read_tracker \<Rightarrow> tag_event \<Rightarrow> py_error + read_tracker \<times> tag_outcome" where
  "tracker_step t (Reserve r) = Inr (outcome_of t (tracker_reserve t r))"
| "tracker_step t (Mark_Sent port tag) = Inr (outcome_of t (tracker_mark_sent t port tag))"
| "tracker_step t (Response p) = Inr (outcome_of t (tracker_receive t p))"
| "tracker_step t (Retire port tag) =
     Inr (case tracker_retire t port tag of Inl _ \<Rightarrow> (t, Rejected) | Inr (t', c) \<Rightarrow> (t', Retired c))"

text \<open>The abstract tags: each accepted event moves the life of its own tag one stage on.\<close>

definition response_completion :: "read_response \<Rightarrow> completion" where
  "response_completion p = \<lparr>cp_port = rp_port p, cp_tag = rp_tag p, cp_status = rp_status p,
     cp_data = (if rp_status p = 0 then Some ((rp_halves p ! 0) OR push_bit 256 (rp_halves p ! 1)) else None)\<rparr>"

fun life_event :: "(int \<times> int \<Rightarrow> tag_life) \<Rightarrow> tag_event \<Rightarrow> tag_outcome \<Rightarrow> unit + (int \<times> int \<Rightarrow> tag_life)" where
  "life_event l e Rejected = Inr l"
| "life_event l (Reserve r) Done =
     (let key = (rr_port r, rr_tag r) in if l key = Free then Inr (l(key := Reserved r)) else Inl ())"
| "life_event l (Mark_Sent port tag) Done =
     (case l (port, tag) of Reserved r \<Rightarrow> Inr (l((port, tag) := Sent_Out r)) | _ \<Rightarrow> Inl ())"
| "life_event l (Response p) Done =
     (let key = (rp_port p, rp_tag p) in
      case l key of Sent_Out r \<Rightarrow> Inr (l(key := Complete r (response_completion p))) | _ \<Rightarrow> Inl ())"
| "life_event l (Retire port tag) (Retired c) =
     (case l (port, tag) of Complete r c' \<Rightarrow> if c = c' then Inr (l((port, tag) := Free)) else Inl () | _ \<Rightarrow> Inl ())"
| "life_event l e out = Inl ()"

lemma tracker_okD:
  assumes "tracker_ok t" "map_of (rt_records t) key = Some (r, sent, c)"
  shows "key = (rr_port r, rr_tag r)" "request_ok r" "rr_src r = rt_local t" "c \<noteq> None \<Longrightarrow> sent"
    "c = Some d \<Longrightarrow> (cp_port d, cp_tag d) = key"
  using assms(1) map_of_SomeD [OF assms(2)] by (auto simp: tracker_ok_def list_all_iff)

lemma update_length_old: "map_of al k = Some v \<Longrightarrow> length (AList.update k w al) = length al"
  by (induction al) auto

lemma update_length_new: "map_of al k = None \<Longrightarrow> length (AList.update k w al) = Suc (length al)"
  by (induction al) auto

lemma tracker_update_ok:
  assumes "tracker_ok t" "map_of (rt_records t) key = Some e0"
    and "key = (rr_port r, rr_tag r)" "request_ok r" "rr_src r = rt_local t" "c \<noteq> None \<Longrightarrow> sent"
    "\<And>d. c = Some d \<Longrightarrow> (cp_port d, cp_tag d) = key"
  shows "tracker_ok (t\<lparr>rt_records := AList.update key (r, sent, c) (rt_records t)\<rparr>)"
    and "tag_life (t\<lparr>rt_records := AList.update key (r, sent, c) (rt_records t)\<rparr>) = (tag_life t)(key := entry_life (Some (r, sent, c)))"
proof -
  have "pred_option (\<lambda>d. (cp_port d, cp_tag d) = key) c" using assms(7) by (cases c) simp_all
  then show "tracker_ok (t\<lparr>rt_records := AList.update key (r, sent, c) (rt_records t)\<rparr>)"
    using assms(1-6) update_length_old [OF assms(2)]
    by (auto simp: tracker_ok_def distinct_update intro!: list_all_update)
  show "tag_life (t\<lparr>rt_records := AList.update key (r, sent, c) (rt_records t)\<rparr>) = (tag_life t)(key := entry_life (Some (r, sent, c)))"
    by (auto simp: fun_eq_iff tag_life_def update_conv)
qed

lemma tracker_key_Inr: "tracker_key t port tag = Inr key \<longleftrightarrow> key = (port, tag) \<and> fits 2 port \<and> fits 11 tag \<and> port < rt_ports t"
  by (auto simp: tracker_key_def check_width_def)

lemma tracker_record_Inr:
  "tracker_record t port tag = Inr (key, e) \<longleftrightarrow>
     tracker_key t port tag = Inr key \<and> map_of (rt_records t) key = Some e"
  by (cases "tracker_key t port tag"; cases "map_of (rt_records t) (projr (tracker_key t port tag))")
    (auto simp: tracker_record_def)

lemma tag_life_entry: "map_of (rt_records t) key = Some e \<Longrightarrow> tag_life t key = entry_life (Some e)"
  by (simp add: tag_life_def)

text \<open>Every event of the tracker is an event of the abstract tags, and never exceeds the capacity.\<close>

lemma reserve_life:
  assumes "tracker_ok t" "tracker_reserve t r = Inr t'"
  shows "tracker_ok t' \<and> life_event (tag_life t) (Reserve r) Done = Inr (tag_life t')"
proof -
  let ?key = "(rr_port r, rr_tag r)"
  have v: "request_ok r" "rr_src r = rt_local t" "map_of (rt_records t) ?key = None" "int (length (rt_records t)) < rt_capacity t"
    and t': "t' = t\<lparr>rt_records := AList.update ?key (r, False, None) (rt_records t)\<rparr>"
    using assms(2) by (auto simp: tracker_reserve_def validate_read_Inr tracker_key_Inr tracker_occupancy_def)
  have "tracker_ok t'"
    using assms(1) v update_length_new [OF v(3)] by (auto simp: tracker_ok_def t' distinct_update intro!: list_all_update)
  moreover have "tag_life t ?key = Free" using v(3) by (simp add: tag_life_def entry_life_def)
  moreover have "tag_life t' = (tag_life t)(?key := Reserved r)"
    by (auto simp: fun_eq_iff tag_life_def t' update_conv entry_life_def)
  ultimately show ?thesis by simp
qed

lemma mark_sent_life:
  assumes "tracker_ok t" "tracker_mark_sent t port tag = Inr t'"
  shows "tracker_ok t' \<and> life_event (tag_life t) (Mark_Sent port tag) Done = Inr (tag_life t')"
proof -
  obtain r c where m: "map_of (rt_records t) (port, tag) = Some (r, False, c)"
    and t': "t' = t\<lparr>rt_records := AList.update (port, tag) (r, True, c) (rt_records t)\<rparr>"
    using assms(2) by (auto simp: tracker_mark_sent_def tracker_record_Inr tracker_key_Inr)
  note d = tracker_okD [OF assms(1) m]
  have c: "c = None" using d(4) by (cases c) auto
  have u: "tracker_ok t'" "tag_life t' = (tag_life t)((port, tag) := entry_life (Some (r, True, c)))"
    unfolding t' by (rule tracker_update_ok [OF assms(1) m d(1-3)]; simp add: c)+
  then show ?thesis using tag_life_entry [OF m] by (simp add: entry_life_def c)
qed

lemma receive_life:
  assumes "tracker_ok t" "tracker_receive t p = Inr t'"
  shows "tracker_ok t' \<and> life_event (tag_life t) (Response p) Done = Inr (tag_life t')"
proof -
  let ?key = "(rp_port p, rp_tag p)"
  obtain r where m: "map_of (rt_records t) ?key = Some (r, True, None)"
    and t': "t' = t\<lparr>rt_records := AList.update ?key (r, True, Some (response_completion p)) (rt_records t)\<rparr>"
    using assms(2)
    by (auto simp: tracker_receive_def tracker_record_Inr tracker_key_Inr Let_def response_completion_def)
  note d = tracker_okD [OF assms(1) m]
  have u: "tracker_ok t'" "tag_life t' = (tag_life t)(?key := entry_life (Some (r, True, Some (response_completion p))))"
    unfolding t' by (rule tracker_update_ok [OF assms(1) m d(1-3)]; auto simp: response_completion_def)+
  then show ?thesis using tag_life_entry [OF m] by (simp add: entry_life_def Let_def)
qed

lemma retire_life:
  assumes "tracker_ok t" "tracker_retire t port tag = Inr (t', c)"
  shows "tracker_ok t' \<and> life_event (tag_life t) (Retire port tag) (Retired c) = Inr (tag_life t')"
proof -
  obtain r sent where m: "map_of (rt_records t) (port, tag) = Some (r, sent, Some c)"
    and t': "t' = t\<lparr>rt_records := AList.delete (port, tag) (rt_records t)\<rparr>"
    using assms(2) by (auto simp: tracker_retire_def tracker_record_Inr tracker_key_Inr split: option.splits)
  have "length (AList.delete (port, tag) (rt_records t)) \<le> length (rt_records t)"
    by (rule length_delete_le)
  moreover have "set (AList.delete (port, tag) (rt_records t)) \<subseteq> set (rt_records t)" by (auto simp: AList.delete_eq)
  ultimately have "tracker_ok t'"
    using assms(1) by (simp add: tracker_ok_def t' distinct_delete list_all_iff) blast
  moreover have "tag_life t' = (tag_life t)((port, tag) := Free)"
    by (auto simp: fun_eq_iff tag_life_def t' delete_conv entry_life_def)
  ultimately show ?thesis using tag_life_entry [OF m] by (simp add: entry_life_def)
qed

lemma tracker_step_life:
  assumes "tracker_ok t" "tracker_step t e = Inr (t', out)"
  shows "tracker_ok t' \<and> life_event (tag_life t) e out = Inr (tag_life t')"
  using assms reserve_life [OF assms(1)] mark_sent_life [OF assms(1)] receive_life [OF assms(1)] retire_life [OF assms(1)]
  by (cases e) (auto simp: outcome_of_def simp del: life_event.simps split: sum.splits prod.splits intro: life_event.simps(1))

interpretation read_tags: watched tracker_step tracker_ok "\<lambda>l (e, out). life_event l e out" "\<lambda>t l. l = tag_life t"
  by unfold_locales (use tracker_step_life in fastforce)+

interpretation read_tags_total: total_machine tracker_step tracker_ok "\<lambda>_ _. True"
  by unfold_locales (metis surj_pair tracker_step.elims)

lemma tracker_new_ok: "tracker_new i c n = Inr t \<Longrightarrow> tracker_ok t \<and> tag_life t = (\<lambda>_. Free)"
  by (auto simp: tracker_new_def tracker_ok_def tag_life_def entry_life_def fun_eq_iff)

lemma busy_tags: "tracker_ok t \<Longrightarrow> int (card {key. tag_life t key \<noteq> Free}) \<le> rt_capacity t"
proof -
  assume ok: "tracker_ok t"
  have "{key. tag_life t key \<noteq> Free} \<subseteq> set (map fst (rt_records t))"
    by (auto simp: tag_life_def entry_life_def dest!: map_of_key split: option.splits if_splits)
  then have "card {key. tag_life t key \<noteq> Free} \<le> length (map fst (rt_records t))"
    by (meson card_length card_mono finite_set order_trans)
  then show ?thesis using ok by (simp add: tracker_ok_def)
qed

text \<open>A whole read: reserved, sent, executed by the memory, received, retired.\<close>

definition whole_read :: "read_tracker \<Rightarrow> read_request \<Rightarrow> int list \<Rightarrow> py_error + read_tracker \<times> completion" where
  "whole_read t r memory =
     rbind (tracker_reserve t r) (\<lambda>t.
     rbind (encode_read r) (\<lambda>w.
     rbind (tracker_mark_sent t (rr_port r) (rr_tag r)) (\<lambda>t.
     rbind (decode_read w (rr_port r)) (\<lambda>r'.
     rbind (memory_read r' memory) (\<lambda>p.
     rbind (encode_response p) (\<lambda>v.
     rbind (decode_response v (rp_halves p) (rp_port p)) (\<lambda>p'.
     rbind (tracker_receive t p') (\<lambda>t. tracker_retire t (rr_port r) (rr_tag r)))))))))"

lemma whole_read_ok:
  assumes "tracker_ok t" "request_ok r" "rr_src r = rt_local t" "rr_port r < rt_ports t" "tag_life t (rr_port r, rr_tag r) = Free"
    and "int (length (rt_records t)) < rt_capacity t" "bytes_ok memory"
  shows "\<exists>t' c. whole_read t r memory = Inr (t', c) \<and> tag_life t' = tag_life t \<and> cp_data c = read_data r memory \<and>
     cp_port c = rr_port r \<and> cp_tag c = rr_tag r \<and> (cp_status c = 0 \<longleftrightarrow> read_data r memory \<noteq> None)"
proof -
  let ?key = "(rr_port r, rr_tag r)"
  have none: "map_of (rt_records t) ?key = None"
    using assms(5) by (auto simp: tag_life_def entry_life_def split: option.splits if_splits)
  note d = request_okD [OF assms(2)]
  have key: "tracker_key u (rr_port r) (rr_tag r) = Inr ?key" if "rt_ports u = rt_ports t" for u
    using d assms(4) that by (simp add: tracker_key_Inr)
  obtain w where w: "encode_read r = Inr w" "decode_read w (rr_port r) = Inr r" using decode_encode_read [OF assms(2)] by blast
  obtain p where p: "memory_read r memory = Inr p" "response_ok p" "rp_port p = rr_port r" "rp_tag p = rr_tag r" "rp_dst p = rr_src r"
    "read_data r memory = (if rp_status p = 0 then Some (rp_halves p ! 0 OR push_bit 256 (rp_halves p ! 1)) else None)"
    by (rule memory_read_ok [OF assms(2,7)]) (rule that; assumption)
  obtain v where v: "encode_response p = Inr v" "decode_response v (rp_halves p) (rp_port p) = Inr p"
    using decode_encode_response [OF p(2)] by blast
  define t1 where "t1 = t\<lparr>rt_records := AList.update ?key (r, False, None) (rt_records t)\<rparr>"
  define t2 where "t2 = t1\<lparr>rt_records := AList.update ?key (r, True, None) (rt_records t1)\<rparr>"
  define t3 where "t3 = t2\<lparr>rt_records := AList.update ?key (r, True, Some (response_completion p)) (rt_records t2)\<rparr>"
  define t4 where "t4 = t3\<lparr>rt_records := AList.delete ?key (rt_records t3)\<rparr>"
  have same: "rt_ports t1 = rt_ports t" "rt_ports t2 = rt_ports t" "rt_ports t3 = rt_ports t"
    "rt_local t2 = rt_local t" by (simp_all add: t1_def t2_def t3_def)
  have m: "map_of (rt_records t1) ?key = Some (r, False, None)" "map_of (rt_records t2) ?key = Some (r, True, None)"
    "map_of (rt_records t3) ?key = Some (r, True, Some (response_completion p))"
    by (simp_all add: t1_def t2_def t3_def update_conv)
  have s1: "tracker_reserve t r = Inr t1"
    using assms(2,3,6) none key [OF refl] by (simp add: tracker_reserve_def request_ok_def tracker_occupancy_def t1_def)
  have s2: "tracker_mark_sent t1 (rr_port r) (rr_tag r) = Inr t2"
    by (simp add: tracker_mark_sent_def tracker_record_def key [OF same(1)] m t2_def)
  have s3: "tracker_receive t2 p = Inr t3"
    using p(2,5) assms(3) same
    by (simp add: tracker_receive_def response_ok_def tracker_record_def p(3,4) key [OF same(2)] m t3_def response_completion_def Let_def)
  have s4: "tracker_retire t3 (rr_port r) (rr_tag r) = Inr (t4, response_completion p)"
    by (simp add: tracker_retire_def tracker_record_def key [OF same(3)] m t4_def)
  have "whole_read t r memory = Inr (t4, response_completion p)"
    by (simp add: whole_read_def s1 w s2 p(1) v s3 s4)
  moreover have "tag_life t4 = tag_life t"
    using none by (auto simp: fun_eq_iff tag_life_def t4_def t3_def t2_def t1_def update_conv delete_conv)
  ultimately show ?thesis using p by (auto simp: response_completion_def)
qed

end
