(* ===== verification/Endpoint_Write.thy ===== *)
theory Endpoint_Write
  imports Endpoint_Single
begin

section \<open>Writes: codec, memory, backend and the shared tags\<close>

text \<open>
  Models \<open>simulator/UAlink2.0/model/ualink/endpoint_write.py\<close>: the request and response fields of ordinary writes, the
  byte memory with its 256-byte regions and masks, the backend that owns tokens, and the identities that reads
  and writes share. The dicts are association lists; immutable bytes are lists of octets.
\<close>

subsection \<open>Requests and responses\<close>

record write_request =
  wq_port :: int
  wq_tag :: int
  wq_address :: int
  wq_src :: int
  wq_dst :: int
  wq_data_beats :: "int list"
  wq_byte_enable :: int
  wq_full :: bool
  wq_length :: int
  wq_attr :: int
  wq_vc :: int
  wq_pool :: bool
  wq_asi :: int
  wq_metadata :: int

record write_response =
  wp_port :: int
  wp_tag :: int
  wp_src :: int
  wp_dst :: int
  wp_status :: int
  wp_offset :: int
  wp_last :: bool
  wp_num_beats :: int
  wp_rsp_type :: int
  wp_vc :: int
  wp_pool :: bool
  wp_data_error :: bool

definition write_statuses :: "int list" where
  "write_statuses = [0, 2, 3, 6, 8]"

definition write_size :: "write_request \<Rightarrow> int" where
  "write_size r = 4 * (wq_length r + 1)"

definition write_beat_count :: "write_request \<Rightarrow> int" where
  "write_beat_count r = (fld (wq_address r) 0 6 + 4 * (wq_length r + 1) + 63) div 64"

definition write_range_mask :: "write_request \<Rightarrow> int" where
  "write_range_mask r = push_bit (nat (fld (wq_address r) 0 8)) (push_bit (nat (4 * (wq_length r + 1))) 1 - 1)"

definition validate_write :: "write_request \<Rightarrow> py_error + unit" where
  "validate_write r =
     rbind (check_widths [(wq_port r, 2), (wq_tag r, 11), (wq_address r, 57), (wq_src r, 10), (wq_dst r, 10),
       (wq_length r, 6), (wq_attr r, 8), (wq_vc r, 2), (wq_asi r, 2), (wq_metadata r, 8), (wq_byte_enable r, 256)]) (\<lambda>_.
       let size = write_size r in
     rbind (ensure (\<not> (fld (wq_address r) 0 2 \<noteq> 0 \<or> fld (wq_address r) 0 8 + size > 256))) (\<lambda>_.
     rbind (ensure (\<not> (wq_full r \<and> (fld (wq_address r) 0 6 \<noteq> 0 \<or> size mod 64 \<noteq> 0)))) (\<lambda>_.
     rbind (ensure (\<not> (\<not> wq_full r \<and> wq_byte_enable r AND NOT (write_range_mask r) \<noteq> 0))) (\<lambda>_.
     rbind (ensure (\<not> (wq_vc r \<noteq> 0 \<or> wq_pool r))) (\<lambda>_.
     rbind (ensure (int (length (wq_data_beats r)) = write_beat_count r)) (\<lambda>_.
     ensure (list_all (fits 512) (wq_data_beats r))))))))"

definition effective_byte_enable :: "write_request \<Rightarrow> py_error + int" where
  "effective_byte_enable r =
     rbind (validate_write r) (\<lambda>_. Inr (if wq_full r then write_range_mask r else wq_byte_enable r))"

definition data_halves :: "write_request \<Rightarrow> py_error + int list" where
  "data_halves r =
     rbind (validate_write r) (\<lambda>_.
       let halves = concat (map (\<lambda>beat. [fld beat 0 256, drop_bit 256 beat]) (wq_data_beats r))
       in Inr (if wq_full r then halves else halves @ [wq_byte_enable r]))"

definition encode_write :: "write_request \<Rightarrow> py_error + int" where
  "encode_write r =
     rbind (validate_write r) (\<lambda>_. Inr
       (push_bit 124 1 OR push_bit 118 (if wq_full r then 0x29 else 0x28) OR push_bit 116 (wq_vc r) OR
        push_bit 114 (wq_asi r) OR push_bit 103 (wq_tag r) OR push_bit 102 (of_bool (wq_pool r)) OR
        push_bit 94 (wq_attr r) OR push_bit 88 (wq_length r) OR push_bit 80 (wq_metadata r) OR
        push_bit 25 (drop_bit 2 (wq_address r)) OR push_bit 15 (wq_src r) OR push_bit 5 (wq_dst r) OR
        (write_beat_count r - 1)))"

definition decode_write :: "int \<Rightarrow> int \<Rightarrow> int list \<Rightarrow> int \<Rightarrow> py_error + write_request" where
  "decode_write word port data_beats byte_enable =
     rbind (check_width word 128) (\<lambda>_.
       let command = fld word 118 6 in
     rbind (ensure (\<not> (drop_bit 124 word \<noteq> 1 \<or> command \<notin> {0x28, 0x29} \<or> fld word 4 1 \<noteq> 0))) (\<lambda>_.
       let r = \<lparr>wq_port = port, wq_tag = fld word 103 11, wq_address = push_bit 2 (fld word 25 55),
                wq_src = fld word 15 10, wq_dst = fld word 5 10, wq_data_beats = data_beats,
                wq_byte_enable = byte_enable, wq_full = (command = 0x29), wq_length = fld word 88 6,
                wq_attr = fld word 94 8, wq_vc = fld word 116 2, wq_pool = fld word 102 1 \<noteq> 0,
                wq_asi = fld word 114 2, wq_metadata = fld word 80 8\<rparr>
       in rbind (validate_write r) (\<lambda>_.
     rbind (ensure (fld word 0 2 = write_beat_count r - 1)) (\<lambda>_. Inr r))))"

definition validate_write_response :: "write_response \<Rightarrow> py_error + unit" where
  "validate_write_response p =
     rbind (check_widths [(wp_port p, 2), (wp_tag p, 11), (wp_src p, 10), (wp_dst p, 10), (wp_status p, 4),
       (wp_offset p, 2), (wp_num_beats p, 2), (wp_rsp_type p, 2), (wp_vc p, 2)]) (\<lambda>_.
     rbind (ensure (wp_status p \<in> set write_statuses)) (\<lambda>_.
     ensure (\<not> (wp_num_beats p \<noteq> 0 \<or> wp_rsp_type p \<noteq> 0 \<or> wp_vc p \<noteq> 0 \<or> wp_pool p \<or> wp_data_error p))))"

definition encode_write_response :: "write_response \<Rightarrow> py_error + int" where
  "encode_write_response p =
     rbind (validate_write_response p) (\<lambda>_. Inr
       (push_bit 60 2 OR push_bit 58 (wp_vc p) OR push_bit 47 (wp_tag p) OR push_bit 46 (of_bool (wp_pool p)) OR
        push_bit 38 (wp_status p) OR push_bit 26 (wp_src p) OR push_bit 16 (wp_dst p)))"

definition decode_write_response :: "int \<Rightarrow> int \<Rightarrow> py_error + write_response" where
  "decode_write_response word port =
     rbind (check_width word 64) (\<lambda>_.
     rbind (ensure (\<not> (drop_bit 60 word \<noteq> 2 \<or> fld word 37 1 \<noteq> 0))) (\<lambda>_.
       let p = \<lparr>wp_port = port, wp_tag = fld word 47 11, wp_src = fld word 26 10, wp_dst = fld word 16 10,
                wp_status = fld word 38 4, wp_offset = fld word 42 2, wp_last = fld word 36 1 \<noteq> 0,
                wp_num_beats = fld word 44 2, wp_rsp_type = fld word 14 2, wp_vc = fld word 58 2,
                wp_pool = fld word 46 1 \<noteq> 0, wp_data_error = False\<rparr>
       in rbind (validate_write_response p) (\<lambda>_. Inr p)))"

subsection \<open>The byte memory\<close>

record write_memory =
  wm_data :: "int list"
  wm_base :: int
  wm_executions :: int

definition write_memory_new :: "int list \<Rightarrow> int \<Rightarrow> int \<Rightarrow> py_error + write_memory" where
  "write_memory_new data base_address executions =
     rbind (check_width base_address 57) (\<lambda>_.
     rbind (ensure (\<not> executions < 0)) (\<lambda>_.
     rbind (ensure (\<not> base_address + int (length data) > push_bit 57 1)) (\<lambda>_.
       Inr \<lparr>wm_data = data, wm_base = base_address, wm_executions = executions\<rparr>)))"

record write_result =
  wr_memory :: write_memory
  wr_response :: write_response

text \<open>Item assignment on a \<open>bytearray\<close>: a negative index counts from the end, any other one outside raises.\<close>

definition set_item :: "int list \<Rightarrow> int \<Rightarrow> int \<Rightarrow> py_error + int list" where
  "set_item xs i v =
     (if 0 \<le> i \<and> i < int (length xs) then Inr (xs[nat i := v])
      else if - int (length xs) \<le> i \<and> i < 0 then Inr (xs[nat (int (length xs) + i) := v])
      else Inl IndexError)"

text \<open>The two nested loops of \<open>memory_write\<close>: data beats, and the 64 byte lanes of each.\<close>

definition write_lane :: "int \<Rightarrow> int \<Rightarrow> int \<Rightarrow> int \<Rightarrow> nat \<times> int \<Rightarrow> int list \<Rightarrow> nat \<Rightarrow> py_error + int list" where
  "write_lane enable beat_base region_base memory_base = (\<lambda>(j, beat) result lane.
     let address = beat_base + 64 * int j + int lane
     in if enable AND push_bit (nat (address - region_base)) 1 \<noteq> 0
        then set_item result (address - memory_base) (fld beat (8 * lane) 8)
        else Inr result)"

definition memory_write :: "write_request \<Rightarrow> write_memory \<Rightarrow> int \<Rightarrow> py_error + write_result" where
  "memory_write r m status =
     rbind (validate_write r) (\<lambda>_.
     rbind (check_width status 4) (\<lambda>_.
     rbind (ensure (status \<in> set write_statuses)) (\<lambda>_.
       let start = wq_address r - wm_base m;
           status = (if status = 0 \<and> (start < 0 \<or> start + 4 * (wq_length r + 1) > int (length (wm_data m))) then 3 else status)
       in rbind (if status = 0 then
            rbind (effective_byte_enable r) (\<lambda>enable.
              let beat_base = wq_address r AND NOT 63; region_base = wq_address r AND NOT 255
              in rfold (\<lambda>result jb. rfold (write_lane enable beat_base region_base (wm_base m) jb) result [0..<64])
                   (wm_data m) (enumerate 0 (wq_data_beats r)))
          else Inr (wm_data m)) (\<lambda>result.
       let response = \<lparr>wp_port = wq_port r, wp_tag = wq_tag r, wp_src = wq_dst r, wp_dst = wq_src r, wp_status = status,
             wp_offset = 0, wp_last = False, wp_num_beats = 0, wp_rsp_type = 0, wp_vc = wq_vc r, wp_pool = False,
             wp_data_error = False\<rparr>
       in rbind (write_memory_new result (wm_base m) (wm_executions m + 1)) (\<lambda>m'.
         Inr \<lparr>wr_memory = m', wr_response = response\<rparr>)))))"

subsection \<open>The codec\<close>

definition write_ok :: "write_request \<Rightarrow> bool" where
  "write_ok r \<longleftrightarrow> validate_write r = Inr ()"

definition write_response_ok :: "write_response \<Rightarrow> bool" where
  "write_response_ok p \<longleftrightarrow> validate_write_response p = Inr ()"

lemma validate_write_Inr: "validate_write r = Inr u \<longleftrightarrow> write_ok r"
  by (simp add: write_ok_def)

lemma validate_write_response_Inr: "validate_write_response p = Inr u \<longleftrightarrow> write_response_ok p"
  by (simp add: write_response_ok_def)

lemma write_okD:
  assumes "write_ok r"
  shows "fits 2 (wq_port r)" "fits 11 (wq_tag r)" "fits 57 (wq_address r)" "fits 10 (wq_src r)" "fits 10 (wq_dst r)"
    "fits 6 (wq_length r)" "fits 8 (wq_attr r)" "wq_vc r = 0" "\<not> wq_pool r" "fits 2 (wq_asi r)" "fits 8 (wq_metadata r)"
    "fits 256 (wq_byte_enable r)" "fld (wq_address r) 0 2 = 0" "fld (wq_address r) 0 8 + 4 * (wq_length r + 1) \<le> 256"
    "wq_full r \<Longrightarrow> fld (wq_address r) 0 6 = 0" "\<not> wq_full r \<Longrightarrow> wq_byte_enable r AND NOT (write_range_mask r) = 0"
    "int (length (wq_data_beats r)) = write_beat_count r" "list_all (fits 512) (wq_data_beats r)"
  using assms by (simp_all add: write_ok_def validate_write_def check_widths_def write_size_def Let_def)

lemma write_response_okD:
  assumes "write_response_ok p"
  shows "fits 2 (wp_port p)" "fits 11 (wp_tag p)" "fits 10 (wp_src p)" "fits 10 (wp_dst p)" "wp_status p \<in> set write_statuses"
    "fits 4 (wp_status p)" "wp_num_beats p = 0" "wp_rsp_type p = 0" "wp_vc p = 0" "\<not> wp_pool p" "\<not> wp_data_error p"
  using assms by (simp_all add: write_response_ok_def validate_write_response_def check_widths_def)

lemma fld_mod: "fld a 0 n = a mod 2 ^ n"
  by (simp add: fld_def take_bit_eq_mod)

lemma fld_base_mono: "m \<le> n \<Longrightarrow> fld a 0 m \<le> fld a 0 n"
  using fld_fld [of 0 m n a 0] fld_range(1) [of a 0 n] take_bit_int_less_eq_self_iff [of m "fld a 0 n"] by (simp add: fld_def)

lemma beat_count_range:
  assumes "write_ok r"
  shows "1 \<le> write_beat_count r" "write_beat_count r \<le> 4"
proof -
  note d = write_okD [OF assms]
  have "fld (wq_address r) 0 6 \<le> fld (wq_address r) 0 8"
    by (rule fld_base_mono) simp
  note le = this
  have pos: "0 \<le> fld (wq_address r) 0 6" "0 \<le> wq_length r" using d(6) by (simp_all add: fld_range fits_def)
  let ?n = "fld (wq_address r) 0 6 + 4 * (wq_length r + 1) + 63"
  have n: "64 \<le> ?n" using pos by simp
  have n': "?n \<le> 319" using le d(14) by simp
  have "64 div 64 \<le> ?n div 64" "?n div 64 \<le> 319 div 64"
    using zdiv_mono1 [OF n, of 64] zdiv_mono1 [OF n', of 64] by simp_all
  then show "1 \<le> write_beat_count r" "write_beat_count r \<le> 4" by (simp_all add: write_beat_count_def)
qed

definition write_pack :: "write_request \<Rightarrow> (nat \<times> nat \<times> int) list" where
  "write_pack r =
     [(124, 4, 1), (118, 6, if wq_full r then 0x29 else 0x28), (116, 2, wq_vc r), (114, 2, wq_asi r), (103, 11, wq_tag r),
      (102, 1, of_bool (wq_pool r)), (94, 8, wq_attr r), (88, 6, wq_length r), (80, 8, wq_metadata r),
      (25, 55, drop_bit 2 (wq_address r)), (15, 10, wq_src r), (5, 10, wq_dst r), (4, 1, 0), (2, 2, 0),
      (0, 2, write_beat_count r - 1)]"

definition write_response_pack :: "write_response \<Rightarrow> (nat \<times> nat \<times> int) list" where
  "write_response_pack p =
     [(60, 4, 2), (58, 2, wp_vc p), (47, 11, wp_tag p), (46, 1, of_bool (wp_pool p)), (44, 2, 0), (42, 2, 0),
      (38, 4, wp_status p), (37, 1, 0), (36, 1, 0), (26, 10, wp_src p), (16, 10, wp_dst p), (14, 2, 0), (0, 14, 0)]"

lemma encode_write_pack: "write_ok r \<Longrightarrow> encode_write r = Inr (pack (write_pack r))"
  by (simp add: encode_write_def write_ok_def write_pack_def)

lemma encode_write_response_pack: "write_response_ok p \<Longrightarrow> encode_write_response p = Inr (pack (write_response_pack p))"
  by (simp add: encode_write_response_def write_response_ok_def write_response_pack_def)

lemma write_pack_ok: "write_ok r \<Longrightarrow> pack_ok 128 (write_pack r)"
  using write_okD [of r] fits_drop [of 57 "wq_address r" 2 55] beat_count_range [of r]
  by (simp add: write_pack_def) (simp add: fits_def)

lemma write_response_pack_ok: "write_response_ok p \<Longrightarrow> pack_ok 64 (write_response_pack p)"
  using write_response_okD [of p] by (simp add: write_response_pack_def) (simp add: fits_def)

lemma decode_encode_write:
  assumes "write_ok r"
  shows "\<exists>w. encode_write r = Inr w \<and> decode_write w (wq_port r) (wq_data_beats r) (wq_byte_enable r) = Inr r"
proof -
  let ?w = "pack (write_pack r)"
  note ok = write_pack_ok [OF assms] and d = write_okD [OF assms]
  have f: "fld ?w 124 4 = 1" "fld ?w 118 6 = (if wq_full r then 0x29 else 0x28)" "fld ?w 116 2 = wq_vc r" "fld ?w 114 2 = wq_asi r"
    "fld ?w 103 11 = wq_tag r" "fld ?w 102 1 = of_bool (wq_pool r)" "fld ?w 94 8 = wq_attr r" "fld ?w 88 6 = wq_length r"
    "fld ?w 80 8 = wq_metadata r" "fld ?w 25 55 = drop_bit 2 (wq_address r)" "fld ?w 15 10 = wq_src r" "fld ?w 5 10 = wq_dst r"
    "fld ?w 4 1 = 0" "fld ?w 0 2 = write_beat_count r - 1"
    by (rule pack_fld [OF ok], simp add: write_pack_def)+
  have w: "fits 128 ?w" by (rule pack_fits [OF ok])
  then have t: "drop_bit 124 ?w = 1" using drop_bit_fld [of 124 4 ?w] f(1) by simp
  have a: "push_bit 2 (drop_bit 2 (wq_address r)) = wq_address r" by (rule push_drop_bit [OF d(13)]) simp
  have eq: "\<lparr>wq_port = wq_port r, wq_tag = wq_tag r, wq_address = wq_address r, wq_src = wq_src r, wq_dst = wq_dst r,
      wq_data_beats = wq_data_beats r, wq_byte_enable = wq_byte_enable r, wq_full = wq_full r, wq_length = wq_length r,
      wq_attr = wq_attr r, wq_vc = wq_vc r, wq_pool = wq_pool r, wq_asi = wq_asi r, wq_metadata = wq_metadata r\<rparr> = r"
    by (cases r) simp
  have c: "((if wq_full r then 0x29 else 0x28) = (0x29 :: int)) = wq_full r" by simp
  have "decode_write ?w (wq_port r) (wq_data_beats r) (wq_byte_enable r) = Inr r"
    unfolding decode_write_def t f check_width_def c Let_def
    using w a assms by (simp add: eq write_ok_def)
  then show ?thesis using encode_write_pack [OF assms] by blast
qed

text \<open>The two CWAY bits of a request word, cleared.\<close>

lemma cway_cleared:
  shows "fits 128 w \<Longrightarrow> fits 128 (w AND NOT 12)"
    and "4 \<le> k \<or> k + n \<le> 2 \<Longrightarrow> fld (w AND NOT 12) k n = fld w k n"
    and "fld (w AND NOT 12) 2 2 = 0"
proof -
  have minus: "NOT 12 = NOT (push_bit 2 (mask 2) :: int)" by (simp add: push_bit_eq_mult mask_eq_exp_minus_1)
  have b: "bit (NOT 12 :: int) j \<longleftrightarrow> j \<noteq> 2 \<and> j \<noteq> 3" for j
    unfolding minus bit_not_iff bit_push_bit_iff bit_mask_iff by auto
  show "fits 128 w \<Longrightarrow> fits 128 (w AND NOT 12)" by (auto simp: fits_def intro: order_le_less_trans [OF AND_upper1])
  show "4 \<le> k \<or> k + n \<le> 2 \<Longrightarrow> fld (w AND NOT 12) k n = fld w k n"
    by (rule bit_eqI, unfold bit_fld bit_and_iff b) auto
  show "fld (w AND NOT 12) 2 2 = 0"
    by (rule bit_eqI, unfold bit_fld bit_and_iff b) auto
qed

text \<open>The decoder ignores the two CWAY bits; all others are re-encoded.\<close>

lemma encode_decode_write:
  assumes "decode_write w port beats be = Inr r"
  shows "encode_write r = Inr (w AND NOT 12) \<and> wq_port r = port \<and> wq_data_beats r = beats \<and> wq_byte_enable r = be"
proof -
  have w: "fits 128 w" "drop_bit 124 w = 1" "fld w 118 6 \<in> {0x28, 0x29}" "fld w 4 1 = 0"
    and r: "r = \<lparr>wq_port = port, wq_tag = fld w 103 11, wq_address = push_bit 2 (fld w 25 55),
                wq_src = fld w 15 10, wq_dst = fld w 5 10, wq_data_beats = beats,
                wq_byte_enable = be, wq_full = (fld w 118 6 = 0x29), wq_length = fld w 88 6,
                wq_attr = fld w 94 8, wq_vc = fld w 116 2, wq_pool = fld w 102 1 \<noteq> 0,
                wq_asi = fld w 114 2, wq_metadata = fld w 80 8\<rparr>" and ok: "write_ok r" and nb: "fld w 0 2 = write_beat_count r - 1"
    using assms by (auto simp: decode_write_def check_width_def Let_def write_ok_def)
  define v where "v = w AND NOT 12"
  note keep = cway_cleared(2) [of _ _ w, folded v_def] and z = cway_cleared(3) [of w, folded v_def]
    and fits = cway_cleared(1) [OF w(1), folded v_def]
  have t: "fld v 124 4 = 1" using drop_bit_fld [of 124 4 w] w(1,2) keep [of 124 4] by simp
  have w4: "fld v 4 (Suc 0) = 0" using keep [of 4 1] w(4) by simp
  have b': "fld w 102 (Suc 0) = of_bool (bit w 102)" "fld w 102 1 = of_bool (bit w 102)" using fld_one [of w 102] by simp_all
  have c: "(if fld w 118 6 = 0x29 then 0x29 else 0x28) = fld w 118 6" using w(3) by auto
  have "write_pack r = map (\<lambda>(k, n). (k, n, fld v k n))
     [(124, 4), (118, 6), (116, 2), (114, 2), (103, 11), (102, 1), (94, 8), (88, 6), (80, 8), (25, 55), (15, 10), (5, 10),
      (4, 1), (2, 2), (0, 2)]"
    unfolding write_pack_def nb [symmetric] using t w4 by (simp add: r keep z b' c drop_bit_push_bit)
  note eq = this
  have "pack (write_pack r) = v" unfolding eq by (rule pack_unpack [OF _ fits]) simp
  then show ?thesis using encode_write_pack [OF ok] unfolding v_def by (simp add: r)
qed

text \<open>Responses come back with the two fields that the encoder does not send at their defaults.\<close>

lemma decode_encode_write_response:
  assumes "write_response_ok p"
  shows "\<exists>w. encode_write_response p = Inr w \<and> decode_write_response w (wp_port p) = Inr (p\<lparr>wp_offset := 0, wp_last := False\<rparr>)"
proof -
  let ?w = "pack (write_response_pack p)"
  note ok = write_response_pack_ok [OF assms] and d = write_response_okD [OF assms]
  have f: "fld ?w 60 4 = 2" "fld ?w 58 2 = wp_vc p" "fld ?w 47 11 = wp_tag p" "fld ?w 46 1 = of_bool (wp_pool p)"
    "fld ?w 44 2 = 0" "fld ?w 42 2 = 0" "fld ?w 38 4 = wp_status p" "fld ?w 37 1 = 0" "fld ?w 36 1 = 0" "fld ?w 26 10 = wp_src p"
    "fld ?w 16 10 = wp_dst p" "fld ?w 14 2 = 0"
    by (rule pack_fld [OF ok], simp add: write_response_pack_def)+
  have w: "fits 64 ?w" by (rule pack_fits [OF ok])
  then have t: "drop_bit 60 ?w = 2" using drop_bit_fld [of 60 4 ?w] f(1) by simp
  have eq: "\<lparr>wp_port = wp_port p, wp_tag = wp_tag p, wp_src = wp_src p, wp_dst = wp_dst p, wp_status = wp_status p, wp_offset = 0,
      wp_last = False, wp_num_beats = 0, wp_rsp_type = 0, wp_vc = 0, wp_pool = False, wp_data_error = False\<rparr> =
      p\<lparr>wp_offset := 0, wp_last := False\<rparr>" using d(7-11) by (cases p) simp
  have "validate_write_response (p\<lparr>wp_offset := 0, wp_last := False\<rparr>) = Inr ()"
    using d by (simp add: validate_write_response_def check_widths_def)
  then have "decode_write_response ?w (wp_port p) = Inr (p\<lparr>wp_offset := 0, wp_last := False\<rparr>)"
    unfolding decode_write_response_def t f check_width_def using w by (simp add: Let_def d eq)
  then show ?thesis using encode_write_response_pack [OF assms] by blast
qed

subsection \<open>What a write does to the memory\<close>

text \<open>
  The specification speaks of addresses: which octets a request enables, and which octet of its data belongs to
  an address. Everything else keeps its value.
\<close>

definition write_enabled :: "write_request \<Rightarrow> int \<Rightarrow> bool" where
  "write_enabled r a \<longleftrightarrow>
     (if wq_full r then wq_address r \<le> a \<and> a < wq_address r + write_size r
      else a div 256 = wq_address r div 256 \<and> bit (wq_byte_enable r) (nat (a mod 256)))"

definition write_byte :: "write_request \<Rightarrow> int \<Rightarrow> int" where
  "write_byte r a = fld (wq_data_beats r ! nat (a div 64 - wq_address r div 64)) (8 * nat (a mod 64)) 8"

definition write_inside :: "write_request \<Rightarrow> write_memory \<Rightarrow> bool" where
  "write_inside r m \<longleftrightarrow> wm_base m \<le> wq_address r \<and> wq_address r + write_size r \<le> wm_base m + int (length (wm_data m))"

definition written :: "write_request \<Rightarrow> write_memory \<Rightarrow> int list" where
  "written r m = map (\<lambda>i. let a = wm_base m + int i in if write_enabled r a then write_byte r a else wm_data m ! i)
     [0..<length (wm_data m)]"

definition write_memory_ok :: "write_memory \<Rightarrow> bool" where
  "write_memory_ok m \<longleftrightarrow> fits 57 (wm_base m) \<and> 0 \<le> wm_executions m \<and> wm_base m + int (length (wm_data m)) \<le> 2 ^ 57 \<and>
     bytes_ok (wm_data m)"

lemma and_not_mask: "a AND NOT (mask n) = 2 ^ n * (a div 2 ^ n :: int)"
proof -
  have "a AND NOT (mask n) = push_bit n (drop_bit n a)"
    by (rule bit_eqI) (auto simp: bit_simps)
  then show ?thesis by (simp add: push_bit_eq_mult drop_bit_eq_div mult.commute)
qed

lemma beat_base: "a AND NOT 63 = 64 * (a div 64 :: int)"
  using and_not_mask [of a 6] by (simp add: mask_eq_exp_minus_1)

lemma region_base: "a AND NOT 255 = 256 * (a div 256 :: int)"
  using and_not_mask [of a 8] by (simp add: mask_eq_exp_minus_1)

lemma bit_range_mask:
  "bit (write_range_mask r) k \<longleftrightarrow> nat (fld (wq_address r) 0 8) \<le> k \<and> k < nat (fld (wq_address r) 0 8) + nat (write_size r)"
proof -
  have "push_bit n 1 - 1 = (mask n :: int)" for n by (simp add: push_bit_eq_mult mask_eq_exp_minus_1)
  then show ?thesis by (auto simp: write_range_mask_def write_size_def bit_push_bit_iff bit_mask_iff)
qed

lemma poke_all:
  assumes "\<And>x. x \<in> set xs \<Longrightarrow> P x \<Longrightarrow> 0 \<le> idx x \<and> idx x < int (length res) \<and> v x = g (idx x)"
  shows "rfold (\<lambda>res x. if P x then set_item res (idx x) (v x) else Inr res) res xs =
    Inr (map (\<lambda>i. if \<exists>x \<in> set xs. P x \<and> idx x = int i then g (int i) else res ! i) [0..<length res])"
  using assms
proof (induction xs arbitrary: res)
  case Nil
  then show ?case by (simp add: map_nth)
next
  case (Cons x xs)
  define res' where "res' = (if P x then res[nat (idx x) := v x] else res)"
  have step: "(if P x then set_item res (idx x) (v x) else Inr res) = Inr res'"
    using Cons.prems [of x] by (simp add: res'_def set_item_def)
  have len: "length res' = length res" by (simp add: res'_def)
  have ih: "rfold (\<lambda>res x. if P x then set_item res (idx x) (v x) else Inr res) res' xs =
      Inr (map (\<lambda>i. if \<exists>x \<in> set xs. P x \<and> idx x = int i then g (int i) else res' ! i) [0..<length res'])"
    by (rule Cons.IH) (use Cons.prems len in auto)
  show ?case
    unfolding rfold.simps step rbind_Inr ih len using Cons.prems [of x]
    by (auto simp: res'_def nth_list_update)
qed

lemma rfold_cong: "(\<And>s x. x \<in> set xs \<Longrightarrow> f s x = g s x) \<Longrightarrow> rfold f s xs = rfold g s xs"
  by (induction xs arbitrary: s) (simp_all add: rbind_def split: sum.splits)

lemma rfold_nested: "rfold (\<lambda>s x. rfold (f x) s (ys x)) s xs = rfold (\<lambda>s (x, y). f x s y) s (concat (map (\<lambda>x. map (Pair x) (ys x)) xs))"
proof -
  have "rfold (\<lambda>s (x, y). f x s y) s (map (Pair x) zs) = rfold (f x) s zs" for x zs s
    by (induction zs arbitrary: s) simp_all
  then show ?thesis by (induction xs arbitrary: s) (simp_all add: rfold_append)
qed

text \<open>Addresses of the request: its region, its beats, the octets it may touch.\<close>

lemma beats_spanned: "a div 64 + (a mod 64 + x + 63) div 64 = (a + x - 1) div 64 + (1 :: int)"
proof -
  have "a mod 64 + x + 63 = (a mod 64 + x - 1) + 64 * 1" "a + x - 1 = (a mod 64 + x - 1) + 64 * (a div 64)"
    using div_mult_mod_eq [of a 64] by linarith+
  note eqs = this
  have "(c + 64 * k) div 64 = k + c div (64 :: int)" for c k by simp
  then show ?thesis unfolding eqs by simp
qed

lemma nat_window: "0 \<le> (x :: int) \<Longrightarrow> 0 \<le> y \<Longrightarrow> 0 \<le> n \<Longrightarrow> nat x \<le> nat y \<and> nat y < nat x + nat n \<longleftrightarrow> x \<le> y \<and> y < x + n"
  by linarith

lemma shift_window: "(x :: int) = k + u \<Longrightarrow> y = k + v \<Longrightarrow> u \<le> v \<and> v < u + n \<longleftrightarrow> x \<le> y \<and> y < x + n"
  by auto

lemma write_address:
  assumes "write_ok r"
  shows "wq_address r mod 256 + write_size r \<le> 256" "4 \<le> write_size r" "0 \<le> wq_address r"
    "wq_address r div 64 + write_beat_count r = (wq_address r + write_size r - 1) div 64 + 1"
proof -
  note d = write_okD [OF assms]
  show "wq_address r mod 256 + write_size r \<le> 256" "4 \<le> write_size r" "0 \<le> wq_address r"
    using d(3,6,14) by (simp_all add: fld_mod write_size_def fits_def)
  show "wq_address r div 64 + write_beat_count r = (wq_address r + write_size r - 1) div 64 + 1"
    using beats_spanned [of "wq_address r" "write_size r"] unfolding write_beat_count_def write_size_def fld_mod by simp
qed

lemma enabled_range:
  assumes "write_ok r" "write_enabled r a"
  shows "wq_address r \<le> a \<and> a < wq_address r + write_size r"
proof (cases "wq_full r")
  case True
  then show ?thesis using assms(2) by (simp add: write_enabled_def)
next
  case False
  note d = write_okD [OF assms(1)] and w = write_address [OF assms(1)]
  have e: "a div 256 = wq_address r div 256" "bit (wq_byte_enable r) (nat (a mod 256))"
    using assms(2) False by (simp_all add: write_enabled_def)
  have "bit (write_range_mask r) (nat (a mod 256))"
    using arg_cong [OF d(16) [OF False], of "\<lambda>w. bit w (nat (a mod 256))"] e(2) by (simp add: bit_and_iff bit_not_iff)
  then have "wq_address r mod 256 \<le> a mod 256" "a mod 256 < wq_address r mod 256 + write_size r"
    using w(2) nat_window [of "wq_address r mod 256" "a mod 256" "write_size r"] by (simp_all add: bit_range_mask fld_mod)
  then show ?thesis using e(1) div_mult_mod_eq [of a 256] div_mult_mod_eq [of "wq_address r" 256] by linarith
qed

lemma lane_enabled:
  assumes "write_ok r" "256 * (wq_address r div 256) \<le> a" "a < 256 * (wq_address r div 256) + 256"
  shows "(if wq_full r then write_range_mask r else wq_byte_enable r) AND push_bit (nat (a - 256 * (wq_address r div 256))) 1 \<noteq> 0
    \<longleftrightarrow> write_enabled r a"
proof -
  have q: "a div 256 = wq_address r div 256" 
    by (rule int_div_pos_eq [where r = "a - 256 * (wq_address r div 256)"]) (use assms(2,3) in linarith)+
  then have m: "a - 256 * (wq_address r div 256) = a mod 256" using div_mult_mod_eq [of a 256] by linarith
  note w = write_address [OF assms(1)]
  have a: "wq_address r = 256 * (a div 256) + wq_address r mod 256" using q by simp
  have "nat (wq_address r mod 256) \<le> nat (a mod 256) \<and> nat (a mod 256) < nat (wq_address r mod 256) + nat (write_size r) \<longleftrightarrow>
      wq_address r \<le> a \<and> a < wq_address r + write_size r"
    (is "?L \<longleftrightarrow> ?R")
  proof -
    have "?L \<longleftrightarrow> wq_address r mod 256 \<le> a mod 256 \<and> a mod 256 < wq_address r mod 256 + write_size r"
      using w(2) by (intro nat_window) simp_all
    also have "\<dots> \<longleftrightarrow> ?R" by (rule shift_window [OF a]) simp
    finally show ?thesis .
  qed
  then show ?thesis
    unfolding m bit_iff_and_push_bit_not_eq_0 [symmetric] by (simp add: write_enabled_def bit_range_mask fld_mod q)
qed

lemma write_loop:
  assumes "write_ok r" "write_inside r m"
  shows "rfold (\<lambda>result jb. rfold (write_lane (if wq_full r then write_range_mask r else wq_byte_enable r)
      (wq_address r AND NOT 63) (wq_address r AND NOT 255) (wm_base m) jb) result [0..<64]) (wm_data m)
      (enumerate 0 (wq_data_beats r)) = Inr (written r m)"
proof -
  note w = write_address [OF assms(1)] and d = write_okD [OF assms(1)]
  define A where "A = wq_address r"
  define xs where "xs = concat (map (\<lambda>jb. map (Pair jb) [0..<64]) (enumerate 0 (wq_data_beats r)))"
  define addr where "addr = (\<lambda>((j :: nat, b :: int), l :: nat). 64 * (A div 64) + 64 * int j + int l)"
  have xs: "((j, b), l) \<in> set xs \<longleftrightarrow> j < length (wq_data_beats r) \<and> b = wq_data_beats r ! j \<and> l < 64" for j b l
    by (force simp: xs_def in_set_enumerate_eq)
  have count: "A div 64 + int (length (wq_data_beats r)) = (A + write_size r - 1) div 64 + 1"
    using w(4) d(17) by (simp add: A_def)
  have region: "(A + write_size r - 1) div 64 \<le> 4 * (A div 256) + 3"
  proof -
    have "A + write_size r - 1 \<le> 256 * (A div 256) + 255" using w(1) div_mult_mod_eq [of A 256] unfolding A_def by linarith
    then have "A + write_size r - 1 \<le> 64 * (4 * (A div 256) + 3) + 63" by (simp add: algebra_simps)
    then have "(A + write_size r - 1) div 64 \<le> (64 * (4 * (A div 256) + 3) + 63) div 64" by (rule zdiv_mono1) simp
    also have "(64 * (4 * (A div 256) + 3) + 63) div 64 = 4 * (A div 256) + 3" by simp
    finally show ?thesis .
  qed
  have q: "4 * (A div 256) \<le> A div 64" using zdiv_zmult2_eq [of 4 A 64] div_mult_mod_eq [of "A div 64" 4] by simp
  have place: "addr ((j, b), l) div 64 = A div 64 + int j" "addr ((j, b), l) mod 64 = int l"
    "256 * (A div 256) \<le> addr ((j, b), l)" "addr ((j, b), l) < 256 * (A div 256) + 256"
    if m: "((j, b), l) \<in> set xs" for j b l
  proof -
    have lt: "l < 64" "A div 64 + int j \<le> 4 * (A div 256) + 3" using m count region by (auto simp: xs)
    have eq: "addr ((j, b), l) = 64 * (A div 64 + int j) + int l" by (simp add: addr_def)
    show "addr ((j, b), l) div 64 = A div 64 + int j" "addr ((j, b), l) mod 64 = int l"
      using int_div_pos_eq [OF eq] int_mod_pos_eq [OF eq] lt by simp_all
    show "256 * (A div 256) \<le> addr ((j, b), l)" using q by (simp add: eq)
    show "addr ((j, b), l) < 256 * (A div 256) + 256" using lt by (simp add: eq)
  qed
  have lane: "write_lane (if wq_full r then write_range_mask r else wq_byte_enable r)
      (wq_address r AND NOT 63) (wq_address r AND NOT 255) (wm_base m) (fst x) res (snd x) =
    (if write_enabled r (addr x) then set_item res (addr x - wm_base m) (write_byte r (addr x)) else Inr res)"
    if "x \<in> set xs" for x res
  proof -
    obtain j b l where x: "x = ((j, b), l)" by (metis surj_pair)
    note p = place [OF that [unfolded x]]
    have v: "write_byte r (addr x) = fld b (8 * l) 8" using p(1,2) that by (simp add: write_byte_def x xs flip: A_def)
    show ?thesis
      unfolding lane_enabled [OF assms(1), folded A_def, OF p(3,4), folded x, symmetric] v
      unfolding write_lane_def beat_base region_base x A_def [symmetric] by (simp add: addr_def Let_def del: One_nat_def)
  qed
  let ?P = "\<lambda>x. write_enabled r (addr x)" and ?idx = "\<lambda>x. addr x - wm_base m" and ?v = "\<lambda>x. write_byte r (addr x)"
  have hit: "\<exists>x \<in> set xs. addr x = a" if "write_enabled r a" for a
  proof -
    have e: "A \<le> a" "a \<le> A + write_size r - 1" using enabled_range [OF assms(1) that] by (simp_all add: A_def)
    have j: "A div 64 \<le> a div 64" "a div 64 \<le> (A + write_size r - 1) div 64"
      using zdiv_mono1 [OF e(1), of 64] zdiv_mono1 [OF e(2), of 64] by simp_all
    define k where "k = nat (a div 64 - A div 64)"
    have k: "int k = a div 64 - A div 64" "k < length (wq_data_beats r)" using j count by (auto simp: k_def)
    have "addr ((k, wq_data_beats r ! k), nat (a mod 64)) = a"
      using div_mult_mod_eq [of a 64] by (simp add: addr_def k(1))
    moreover have "((k, wq_data_beats r ! k), nat (a mod 64)) \<in> set xs" using k(2) by (simp add: xs nat_less_iff)
    ultimately show ?thesis by blast
  qed
  have "rfold (\<lambda>res x. if ?P x then set_item res (?idx x) (?v x) else Inr res) (wm_data m) xs =
    Inr (map (\<lambda>i. if \<exists>x \<in> set xs. ?P x \<and> ?idx x = int i then write_byte r (wm_base m + int i) else wm_data m ! i) [0..<length (wm_data m)])"
    by (rule poke_all [where g = "\<lambda>i. write_byte r (wm_base m + i)"])
      (use enabled_range [OF assms(1)] assms(2) in \<open>force simp: write_inside_def\<close>)
  also have "\<dots> = Inr (written r m)"
  proof -
    have "(\<exists>x \<in> set xs. ?P x \<and> ?idx x = int i) \<longleftrightarrow> write_enabled r (wm_base m + int i)" for i
    proof -
      have "?idx x = int i \<longleftrightarrow> addr x = wm_base m + int i" for x by auto
      then have "(\<exists>x \<in> set xs. ?P x \<and> ?idx x = int i) \<longleftrightarrow> (\<exists>x \<in> set xs. ?P x \<and> addr x = wm_base m + int i)" by simp
      also have "\<dots> \<longleftrightarrow> write_enabled r (wm_base m + int i)" using hit [of "wm_base m + int i"] by metis
      finally show ?thesis .
    qed
    then show ?thesis by (simp add: written_def Let_def)
  qed
  finally have poke: "rfold (\<lambda>res x. if ?P x then set_item res (?idx x) (?v x) else Inr res) (wm_data m) xs = Inr (written r m)" .
  show ?thesis
    unfolding rfold_nested xs_def [symmetric] poke [symmetric] by (rule rfold_cong) (simp only: lane case_prod_unfold)
qed

text \<open>The effect of a backend event: status 3 outside the memory, and no update unless the status is 0.\<close>

definition write_outcome :: "write_request \<Rightarrow> write_memory \<Rightarrow> int \<Rightarrow> int" where
  "write_outcome r m status = (if status = 0 \<and> \<not> write_inside r m then 3 else status)"

definition write_effect :: "write_request \<Rightarrow> write_memory \<Rightarrow> int \<Rightarrow> write_memory" where
  "write_effect r m status =
     m\<lparr>wm_data := if write_outcome r m status = 0 then written r m else wm_data m, wm_executions := wm_executions m + 1\<rparr>"

definition write_answer :: "write_request \<Rightarrow> write_memory \<Rightarrow> int \<Rightarrow> write_response" where
  "write_answer r m status =
     \<lparr>wp_port = wq_port r, wp_tag = wq_tag r, wp_src = wq_dst r, wp_dst = wq_src r, wp_status = write_outcome r m status,
      wp_offset = 0, wp_last = False, wp_num_beats = 0, wp_rsp_type = 0, wp_vc = 0, wp_pool = False, wp_data_error = False\<rparr>"

lemma length_written [simp]: "length (written r m) = length (wm_data m)"
  by (simp add: written_def)

lemma write_effect_ok: "write_memory_ok m \<Longrightarrow> write_memory_ok (write_effect r m status)"
proof -
  assume ok: "write_memory_ok m"
  have "bytes_ok (written r m)" if "bytes_ok (wm_data m)"
    using that by (auto simp: bytes_ok_def written_def list_all_iff Let_def write_byte_def)
  then show ?thesis using ok by (auto simp: write_memory_ok_def write_effect_def)
qed

lemma write_answer_ok:
  assumes "write_ok r" "status \<in> set write_statuses"
  shows "write_response_ok (write_answer r m status)"
proof -
  have "write_outcome r m status \<in> set write_statuses" using assms(2) by (auto simp: write_outcome_def write_statuses_def)
  moreover have "fits 4 s" if "s \<in> set write_statuses" for s using that by (auto simp: write_statuses_def fits_def)
  ultimately show ?thesis
    using write_okD [OF assms(1)]
    by (simp add: write_response_ok_def validate_write_response_def check_widths_def write_answer_def)
qed

lemma write_memory_new_ok: "write_memory_ok m \<Longrightarrow> write_memory_new (wm_data m) (wm_base m) (wm_executions m) = Inr m"
  by (simp add: write_memory_new_def write_memory_ok_def check_width_def push_bit_eq_mult)

lemma memory_write_effect:
  assumes "write_ok r" "write_memory_ok m" "status \<in> set write_statuses"
  shows "memory_write r m status = Inr \<lparr>wr_memory = write_effect r m status, wr_response = write_answer r m status\<rparr>"
proof -
  have v: "validate_write r = Inr ()" using assms(1) by (simp add: write_ok_def)
  have st: "check_width status 4 = Inr ()" using assms(3) by (auto simp: check_width_def write_statuses_def fits_def)
  have e: "effective_byte_enable r = Inr (if wq_full r then write_range_mask r else wq_byte_enable r)"
    by (simp add: effective_byte_enable_def v)
  have o: "(if status = 0 \<and> (wq_address r - wm_base m < 0 \<or> wq_address r - wm_base m + 4 * (wq_length r + 1) > int (length (wm_data m)))
      then 3 else status) = write_outcome r m status"
    by (auto simp: write_outcome_def write_inside_def write_size_def)
  have i: "write_inside r m" if "write_outcome r m status = 0" using that by (auto simp: write_outcome_def split: if_splits)
  note n = write_memory_new_ok [OF write_effect_ok [OF assms(2), of r status]]
  show ?thesis
    unfolding memory_write_def v st rbind_Inr Let_def o e
    using assms(3) n write_loop [OF assms(1) i] write_okD(8) [OF assms(1)]
    by (cases "write_outcome r m status = 0") (simp_all add: write_effect_def write_answer_def)
qed

lemma memory_write_legal:
  assumes "memory_write r m status = Inr x"
  shows "write_ok r \<and> status \<in> set write_statuses"
  using assms by (auto simp: memory_write_def write_ok_def)

end
