(* ===== verification/Endpoint_Read.thy ===== *)
theory Endpoint_Read
  imports Endpoint_Write
begin

section \<open>Region reads: masks, codec, memory and the collector of beats\<close>

text \<open>
  Models \<open>simulator/UAlink2.0/model/ualink/endpoint_read.py\<close>: reads of one to 64 dwords inside a 256-byte region
  with byte enables on the first and last dword, the natural beats of their responses, the byte memory, and the
  collector that owns a tag until all beats have arrived. Dicts are association lists in insertion order.
\<close>

definition read_statuses :: "int list" where
  "read_statuses = [0, 2, 3, 6, 8]"

record region_read =
  gq_port :: int
  gq_tag :: int
  gq_address :: int
  gq_src :: int
  gq_dst :: int
  gq_length :: int
  gq_attr :: int
  gq_vc :: int
  gq_pool :: bool
  gq_asi :: int
  gq_metadata :: int

definition validate_region_read :: "region_read \<Rightarrow> py_error + unit" where
  "validate_region_read r =
     rbind (check_widths [(gq_port r, 2), (gq_tag r, 11), (gq_address r, 57), (gq_src r, 10), (gq_dst r, 10),
       (gq_length r, 6), (gq_attr r, 8), (gq_vc r, 2), (gq_asi r, 2), (gq_metadata r, 8)]) (\<lambda>_.
     rbind (ensure (\<not> (gq_address r mod 4 \<noteq> 0 \<or> gq_address r mod 256 + 4 * (gq_length r + 1) > 256))) (\<lambda>_.
     ensure (\<not> (gq_vc r \<noteq> 0 \<or> gq_pool r))))"

record byte_masks =
  mk_region :: int
  mk_relative :: int
  mk_beats :: int

definition region_mask :: "region_read \<Rightarrow> int" where
  "region_mask r =
     (let a = gq_address r mod 256;
          region = push_bit (nat a) (fld (gq_attr r) 0 4)
      in if gq_length r = 0 then region
         else let region = region OR push_bit (nat (a + 4 * gq_length r)) (drop_bit 4 (gq_attr r))
           in if gq_length r > 1
              then region OR push_bit (nat (a + 4)) (push_bit (nat (4 * (gq_length r - 1))) 1 - 1)
              else region)"

definition byte_masks_of :: "region_read \<Rightarrow> py_error + byte_masks" where
  "byte_masks_of r =
     rbind (validate_region_read r) (\<lambda>_.
       let region = region_mask r;
           begin = gq_address r div 64;
           finish = (gq_address r + 4 * (gq_length r + 1) - 1) div 64
       in Inr \<lparr>mk_region = region, mk_relative = drop_bit (nat (gq_address r mod 256 div 64 * 64)) region,
               mk_beats = finish - begin + 1\<rparr>)"

definition encode_region_read :: "region_read \<Rightarrow> py_error + int" where
  "encode_region_read r =
     rbind (validate_region_read r) (\<lambda>_. Inr
       (push_bit 124 1 OR push_bit 118 3 OR push_bit 116 (gq_vc r) OR push_bit 114 (gq_asi r) OR
        push_bit 103 (gq_tag r) OR push_bit 102 (of_bool (gq_pool r)) OR push_bit 94 (gq_attr r) OR
        push_bit 88 (gq_length r) OR push_bit 80 (gq_metadata r) OR push_bit 25 (drop_bit 2 (gq_address r)) OR
        push_bit 15 (gq_src r) OR push_bit 5 (gq_dst r)))"

definition decode_region_read :: "int \<Rightarrow> int \<Rightarrow> py_error + region_read" where
  "decode_region_read word port =
     rbind (check_width word 128) (\<lambda>_.
     rbind (ensure (\<not> (drop_bit 124 word \<noteq> 1 \<or> fld word 118 6 \<noteq> 3 \<or> word AND 19 \<noteq> 0))) (\<lambda>_.
       let r = \<lparr>gq_port = port, gq_tag = fld word 103 11, gq_address = push_bit 2 (fld word 25 55),
                gq_src = fld word 15 10, gq_dst = fld word 5 10, gq_length = fld word 88 6, gq_attr = fld word 94 8,
                gq_vc = fld word 116 2, gq_pool = fld word 102 1 \<noteq> 0, gq_asi = fld word 114 2,
                gq_metadata = fld word 80 8\<rparr>
       in rbind (validate_region_read r) (\<lambda>_. Inr r)))"

record read_beat =
  gp_port :: int
  gp_tag :: int
  gp_src :: int
  gp_dst :: int
  gp_data :: int
  gp_status :: int
  gp_offset :: int
  gp_last :: bool
  gp_num_beats :: int
  gp_rsp_type :: int
  gp_vc :: int
  gp_pool :: bool
  gp_data_error :: bool

definition validate_read_beat :: "read_beat \<Rightarrow> py_error + unit" where
  "validate_read_beat p =
     rbind (check_widths [(gp_port p, 2), (gp_tag p, 11), (gp_src p, 10), (gp_dst p, 10), (gp_data p, 512),
       (gp_status p, 4), (gp_offset p, 2), (gp_num_beats p, 2), (gp_rsp_type p, 2), (gp_vc p, 2)]) (\<lambda>_.
     rbind (ensure (gp_status p \<in> set read_statuses)) (\<lambda>_.
     ensure (\<not> (gp_rsp_type p \<noteq> 0 \<or> gp_vc p \<noteq> 0 \<or> gp_pool p))))"

definition encode_read_beat :: "read_beat \<Rightarrow> py_error + int" where
  "encode_read_beat p =
     rbind (validate_read_beat p) (\<lambda>_. rbind (ensure (gp_num_beats p = 0)) (\<lambda>_. Inr
       (push_bit 60 2 OR push_bit 47 (gp_tag p) OR push_bit 42 (gp_offset p) OR push_bit 38 (gp_status p) OR
        push_bit 37 1 OR push_bit 36 (of_bool (gp_last p)) OR push_bit 26 (gp_src p) OR push_bit 16 (gp_dst p))))"

definition decode_beats :: "int \<Rightarrow> int \<Rightarrow> int list \<Rightarrow> bool list option \<Rightarrow> py_error + read_beat list" where
  "decode_beats word port data_beats poison =
     rbind (check_width word 64) (\<lambda>_. rbind (check_width port 2) (\<lambda>_.
     rbind (ensure (\<not> (drop_bit 60 word \<noteq> 2 \<or> fld word 37 1 = 0))) (\<lambda>_.
       let count = fld word 44 2 + 1 in
     rbind (ensure (int (length data_beats) = count)) (\<lambda>_.
       let poison = (case poison of None \<Rightarrow> replicate (nat count) False | Some ps \<Rightarrow> ps) in
     rbind (ensure (int (length poison) = count)) (\<lambda>_.
       rmap (\<lambda>(index, data).
         let event = \<lparr>gp_port = port, gp_tag = fld word 47 11, gp_src = fld word 26 10, gp_dst = fld word 16 10,
               gp_data = data, gp_status = fld word 38 4,
               gp_offset = (if count > 1 then int index else fld word 42 2),
               gp_last = (if count > 1 then int index = count - 1 else fld word 36 1 \<noteq> 0),
               gp_num_beats = count - 1, gp_rsp_type = fld word 14 2, gp_vc = fld word 58 2,
               gp_pool = fld word 46 1 \<noteq> 0, gp_data_error = poison ! index\<rparr>
         in rbind (validate_read_beat event) (\<lambda>_. Inr event)) (enumerate 0 data_beats))))))"

subsection \<open>The byte memory\<close>

record read_memory =
  rm_data :: "int list"
  rm_base :: int
  rm_executions :: int

definition read_memory_new :: "int list \<Rightarrow> int \<Rightarrow> int \<Rightarrow> py_error + read_memory" where
  "read_memory_new data base_address executions =
     rbind (check_width base_address 57) (\<lambda>_.
     rbind (ensure (\<not> executions < 0)) (\<lambda>_.
     rbind (ensure (\<not> base_address + int (length data) > push_bit 57 1)) (\<lambda>_.
       Inr \<lparr>rm_data = data, rm_base = base_address, rm_executions = executions\<rparr>)))"

record read_result =
  ru_memory :: read_memory
  ru_responses :: "read_beat list"
  ru_masks :: byte_masks

text \<open>One octet of a natural beat: the error pattern, the mapped octet, or zero outside the memory.\<close>

definition read_lane :: "read_memory \<Rightarrow> int \<Rightarrow> int \<Rightarrow> int \<Rightarrow> int" where
  "read_lane m status error_pattern address =
     (if status \<noteq> 0 then error_pattern
      else if rm_base m \<le> address \<and> address < rm_base m + int (length (rm_data m))
        then rm_data m ! nat (address - rm_base m)
      else 0)"

definition memory_beats :: "region_read \<Rightarrow> read_memory \<Rightarrow> int \<Rightarrow> int \<Rightarrow> py_error + read_result" where
  "memory_beats r m status error_pattern =
     rbind (validate_region_read r) (\<lambda>_.
     rbind (check_width status 4) (\<lambda>_. rbind (check_width error_pattern 8) (\<lambda>_.
     rbind (ensure (status \<in> set read_statuses)) (\<lambda>_.
       let start = gq_address r - rm_base m;
           status = (if status = 0 \<and> (start < 0 \<or> start + 4 * (gq_length r + 1) > int (length (rm_data m))) then 3 else status)
       in rbind (byte_masks_of r) (\<lambda>masks.
       let base = gq_address r div 64 * 64;
           responses = map (\<lambda>offset. \<lparr>gp_port = gq_port r, gp_tag = gq_tag r, gp_src = gq_dst r, gp_dst = gq_src r,
               gp_data = little_endian (map (\<lambda>lane. read_lane m status error_pattern (base + int offset * 64 + int lane)) [0..<64]),
               gp_status = status, gp_offset = int offset, gp_last = (int offset = mk_beats masks - 1), gp_num_beats = 0,
               gp_rsp_type = 0, gp_vc = 0, gp_pool = False, gp_data_error = False\<rparr>) [0..<nat (mk_beats masks)]
       in rbind (read_memory_new (rm_data m) (rm_base m) (rm_executions m + 1)) (\<lambda>m'.
         Inr \<lparr>ru_memory = m', ru_responses = responses, ru_masks = masks\<rparr>))))))"

subsection \<open>The collector\<close>

record beats_completion =
  co_port :: int
  co_tag :: int
  co_status :: int
  co_data :: int
  co_requested_mask :: int
  co_valid_mask :: int
  co_num_beats :: int
  co_poison_mask :: int

datatype response_mode = Single | Multi

record read_slot =
  sl_request :: region_read
  sl_sent :: bool
  sl_seen :: "(int \<times> read_beat) list"
  sl_status :: "int option"
  sl_mode :: "response_mode option"
  sl_completion :: "beats_completion option"

record read_collector =
  rl_local :: int
  rl_capacity :: int
  rl_ports :: int
  rl_slots :: "((int \<times> int) \<times> read_slot) list"
  rl_multi_owner :: "(int \<times> (int \<times> int)) list"

definition collector_new :: "int \<Rightarrow> int \<Rightarrow> int \<Rightarrow> py_error + read_collector" where
  "collector_new local_id capacity num_ports =
     rbind (check_width local_id 10) (\<lambda>_.
     rbind (ensure (\<not> capacity < 1)) (\<lambda>_.
     rbind (ensure (\<not> \<not> (1 \<le> num_ports \<and> num_ports \<le> 4))) (\<lambda>_.
       Inr \<lparr>rl_local = local_id, rl_capacity = capacity, rl_ports = num_ports, rl_slots = [], rl_multi_owner = []\<rparr>)))"

definition collector_occupancy :: "read_collector \<Rightarrow> int" where
  "collector_occupancy c = int (length (rl_slots c))"

definition collector_key :: "read_collector \<Rightarrow> int \<Rightarrow> int \<Rightarrow> py_error + int \<times> int" where
  "collector_key c port tag =
     rbind (check_width port 2) (\<lambda>_. rbind (check_width tag 11) (\<lambda>_.
     rbind (ensure (\<not> port \<ge> rl_ports c)) (\<lambda>_. Inr (port, tag))))"

definition collector_reserve :: "read_collector \<Rightarrow> region_read \<Rightarrow> py_error + read_collector" where
  "collector_reserve c r =
     rbind (validate_region_read r) (\<lambda>_.
     rbind (collector_key c (gq_port r) (gq_tag r)) (\<lambda>key.
     rbind (ensure (\<not> (gq_src r \<noteq> rl_local c \<or> map_of (rl_slots c) key \<noteq> None \<or> collector_occupancy c \<ge> rl_capacity c))) (\<lambda>_.
       Inr (c\<lparr>rl_slots := AList.update key \<lparr>sl_request = r, sl_sent = False, sl_seen = [], sl_status = None, sl_mode = None,
             sl_completion = None\<rparr> (rl_slots c)\<rparr>))))"

definition collector_mark_sent :: "read_collector \<Rightarrow> int \<Rightarrow> int \<Rightarrow> py_error + read_collector" where
  "collector_mark_sent c port tag =
     rbind (collector_key c port tag) (\<lambda>key.
       case map_of (rl_slots c) key of
         None \<Rightarrow> Inl ValueError
       | Some s \<Rightarrow> rbind (ensure (\<not> sl_sent s)) (\<lambda>_. Inr (c\<lparr>rl_slots := AList.update key (s\<lparr>sl_sent := True\<rparr>) (rl_slots c)\<rparr>)))"

text \<open>The completion built from all beats of a request.\<close>

definition beats_poison :: "(int \<times> read_beat) list \<Rightarrow> int" where
  "beats_poison seen = sum_list (map (\<lambda>(offset, e). push_bit (nat offset) 1) (filter (\<lambda>(offset, e). gp_data_error e) seen))"

definition beats_raw :: "(int \<times> read_beat) list \<Rightarrow> int" where
  "beats_raw seen = sum_list (map (\<lambda>(offset, e). push_bit (nat (512 * offset)) (gp_data e)) seen)"

definition masked_bytes :: "int \<Rightarrow> int \<Rightarrow> nat \<Rightarrow> int" where
  "masked_bytes valid raw n =
     sum_list (map (\<lambda>byte. push_bit (8 * byte) (fld raw (8 * byte) 8)) (filter (\<lambda>byte. valid AND push_bit byte 1 \<noteq> 0) [0..<n]))"

definition assemble :: "byte_masks \<Rightarrow> (int \<times> read_beat) list \<Rightarrow> read_beat \<Rightarrow> beats_completion" where
  "assemble masks seen response =
     (let poison = beats_poison seen;
          valid = (if gp_status response = 0 \<and> poison = 0 then mk_relative masks else 0)
      in \<lparr>co_port = gp_port response, co_tag = gp_tag response, co_status = gp_status response,
          co_data = masked_bytes valid (beats_raw seen) (nat (64 * mk_beats masks)), co_requested_mask = mk_relative masks,
          co_valid_mask = valid, co_num_beats = mk_beats masks, co_poison_mask = poison\<rparr>)"

definition collector_receive :: "read_collector \<Rightarrow> read_beat \<Rightarrow> py_error + read_collector \<times> beats_completion option" where
  "collector_receive c p =
     rbind (validate_read_beat p) (\<lambda>_.
     rbind (collector_key c (gp_port p) (gp_tag p)) (\<lambda>key.
       case map_of (rl_slots c) key of
         None \<Rightarrow> Inl ValueError
       | Some s \<Rightarrow>
     rbind (byte_masks_of (sl_request s)) (\<lambda>mask.
     rbind (ensure (\<not> (\<not> sl_sent s \<or> sl_completion s \<noteq> None \<or> gp_dst p \<noteq> rl_local c))) (\<lambda>_.
     rbind (ensure (\<not> dget (rl_multi_owner c) (gp_port p) key \<noteq> key)) (\<lambda>_.
     rbind (ensure (\<not> gp_offset p \<ge> mk_beats mask)) (\<lambda>_.
     rbind (ensure (\<not> map_of (sl_seen s) (gp_offset p) \<noteq> None)) (\<lambda>_.
       let mode = (if gp_num_beats p = 0 then Single else Multi) in
     rbind (ensure (\<not> (sl_mode s \<noteq> None \<and> sl_mode s \<noteq> Some mode))) (\<lambda>_.
     rbind (ensure (\<not> (sl_status s \<noteq> None \<and> sl_status s \<noteq> Some (gp_status p)))) (\<lambda>_.
     rbind (ensure (\<not> (mode = Multi \<and> (gp_num_beats p \<noteq> mk_beats mask - 1 \<or> gp_offset p \<noteq> int (length (sl_seen s)))))) (\<lambda>_.
       let seen = AList.update (gp_offset p) p (sl_seen s);
           done = (int (length seen) = mk_beats mask) in
     rbind (ensure (\<not> gp_last p \<noteq> done)) (\<lambda>_.
       let completion = (if done then Some (assemble mask seen p) else None);
           slots = AList.update key (s\<lparr>sl_seen := seen, sl_mode := Some mode, sl_status := Some (gp_status p),
             sl_completion := completion\<rparr>) (rl_slots c);
           owners = (if mode = Multi
             then if done then AList.delete (gp_port p) (rl_multi_owner c) else AList.update (gp_port p) key (rl_multi_owner c)
             else rl_multi_owner c)
       in Inr (c\<lparr>rl_slots := slots, rl_multi_owner := owners\<rparr>, completion))))))))))))"

definition collector_peek :: "read_collector \<Rightarrow> int \<Rightarrow> int \<Rightarrow> py_error + beats_completion option" where
  "collector_peek c port tag =
     rbind (collector_key c port tag) (\<lambda>key.
       case map_of (rl_slots c) key of None \<Rightarrow> Inl ValueError | Some s \<Rightarrow> Inr (sl_completion s))"

definition collector_retire :: "read_collector \<Rightarrow> int \<Rightarrow> int \<Rightarrow> py_error + read_collector \<times> beats_completion" where
  "collector_retire c port tag =
     rbind (collector_peek c port tag) (\<lambda>completion.
       case completion of None \<Rightarrow> Inl ValueError
       | Some x \<Rightarrow> Inr (c\<lparr>rl_slots := AList.delete (port, tag) (rl_slots c)\<rparr>, x))"

definition collector_reset :: "read_collector \<Rightarrow> read_collector" where
  "collector_reset c = c\<lparr>rl_slots := [], rl_multi_owner := []\<rparr>"

subsection \<open>Masks by address\<close>

definition region_ok :: "region_read \<Rightarrow> bool" where
  "region_ok r \<longleftrightarrow> validate_region_read r = Inr ()"

lemma validate_region_read_Inr: "validate_region_read r = Inr u \<longleftrightarrow> region_ok r"
  by (simp add: region_ok_def)

lemma region_okD:
  assumes "region_ok r"
  shows "fits 2 (gq_port r)" "fits 11 (gq_tag r)" "fits 57 (gq_address r)" "fits 10 (gq_src r)" "fits 10 (gq_dst r)"
    "fits 6 (gq_length r)" "fits 8 (gq_attr r)" "fits 2 (gq_asi r)" "fits 8 (gq_metadata r)" "gq_address r mod 4 = 0"
    "gq_address r mod 256 + 4 * (gq_length r + 1) \<le> 256" "gq_vc r = 0" "\<not> gq_pool r"
  using assms by (simp_all add: region_ok_def validate_region_read_def check_widths_def)

text \<open>
  An address is enabled when it lies in the requested dwords and, in the first and in the last of several, when
  its bit of the byte enables is set.
\<close>

definition read_enabled :: "region_read \<Rightarrow> int \<Rightarrow> bool" where
  "read_enabled r a \<longleftrightarrow>
     (let i = a - gq_address r; d = i div 4; lane = nat (i mod 4)
      in 0 \<le> i \<and> d \<le> gq_length r \<and>
         (if d = 0 then bit (gq_attr r) lane else if d = gq_length r then bit (gq_attr r) (4 + lane) else True))"

lemma bit_region_mask:
  assumes "region_ok r"
  shows "bit (region_mask r) k \<longleftrightarrow> read_enabled r (256 * (gq_address r div 256) + int k)"
proof -
  note d = region_okD [OF assms]
  define m where "m = nat (gq_address r mod 256)"
  define L where "L = nat (gq_length r)"
  have L: "gq_length r = int L" "0 \<le> gq_length r" using d(6) by (simp_all add: L_def fits_def)
  have m: "gq_address r = 256 * (gq_address r div 256) + int m" by (simp add: m_def)
  have n: "nat (gq_address r mod 256 + 4 * gq_length r) = m + 4 * L" "nat (gq_address r mod 256 + 4) = m + 4"
    "nat (4 * (gq_length r - 1)) = 4 * (L - 1)"
    using L by (simp_all add: m_def nat_add_distrib nat_mult_distrib nat_diff_distrib)
  have ones: "push_bit n 1 - 1 = (mask n :: int)" for n by (simp add: push_bit_eq_mult mask_eq_exp_minus_1)
  have hi: "bit (gq_attr r) (4 + i) \<Longrightarrow> i < 4" for i using fits_bit [OF d(7), of "4 + i"] by (cases "i < 4") simp_all
  have enabled: "read_enabled r (256 * (gq_address r div 256) + int k) \<longleftrightarrow> m \<le> k \<and>
      (let i = k - m in i div 4 \<le> L \<and> (if i div 4 = 0 then bit (gq_attr r) (i mod 4)
        else if i div 4 = L then bit (gq_attr r) (4 + i mod 4) else True))"
  proof -
    have e: "256 * (gq_address r div 256) + int k - gq_address r = int k - int m" using m by linarith
    show ?thesis
    proof (cases "m \<le> k")
      case True
      then obtain j where k: "k = m + j" using le_Suc_ex by blast
      have "int j div 4 = int (j div 4)" "nat (int j mod 4) = j mod 4" by (simp_all add: zdiv_int nat_mod_distrib)
      then show ?thesis unfolding read_enabled_def e by (simp add: k L(1) Let_def del: of_nat_div)
    qed (simp add: read_enabled_def e)
  qed
  show ?thesis
  proof (cases "m \<le> k")
    case False
    then show ?thesis unfolding enabled region_mask_def n ones Let_def by (auto simp: bit_or_iff bit_push_bit_iff simp flip: m_def)
  next
    case True
    then obtain j where k: "k = m + j" using le_Suc_ex by blast
    have bit: "bit (region_mask r) k \<longleftrightarrow> (j < 4 \<and> bit (gq_attr r) j) \<or>
        (L \<noteq> 0 \<and> 4 * L \<le> j \<and> bit (gq_attr r) (4 + (j - 4 * L))) \<or> (1 < L \<and> 4 \<le> j \<and> j - 4 < 4 * (L - 1))"
      unfolding region_mask_def n ones Let_def using L(1)
      by (auto simp: bit_or_iff bit_push_bit_iff bit_fld bit_drop_bit_eq bit_mask_iff k simp flip: m_def)
    consider "j div 4 = 0" "j < 4" | "0 < j div 4" "j div 4 < L" "4 \<le> j" "j < 4 * L"
      | "0 < j div 4" "j div 4 = L" "4 * L \<le> j" "j < 4 * L + 4" | "L < j div 4" "4 * L + 4 \<le> j"
      by linarith
    then show ?thesis
    proof cases
      case 1
      then show ?thesis unfolding bit enabled by (auto simp: k)
    next
      case 2
      then show ?thesis unfolding bit enabled by (auto simp: k)
    next
      case 3
      then have "j mod 4 = j - 4 * L" by (metis minus_mult_div_eq_mod)
      then show ?thesis unfolding bit enabled using 3 by (auto simp: k)
    next
      case 4
      then have "\<not> j - 4 * L < 4" by linarith
      then show ?thesis unfolding bit enabled using 4 hi [of "j - 4 * L"] by (auto simp: k)
    qed
  qed
qed

lemma beats_of_masks:
  assumes "region_ok r"
  obtains masks where "byte_masks_of r = Inr masks" "1 \<le> mk_beats masks" "mk_beats masks \<le> 4"
    "\<And>k. bit (mk_relative masks) k \<longleftrightarrow> read_enabled r (64 * (gq_address r div 64) + int k)"
    "gq_address r div 64 + mk_beats masks = (gq_address r + 4 * (gq_length r + 1) - 1) div 64 + 1"
proof -
  note d = region_okD [OF assms]
  define A where "A = gq_address r"
  define n where "n = (A + 4 * (gq_length r + 1) - 1) div 64 - A div 64 + 1"
  define s where "s = nat (A mod 256 div 64 * 64)"
  define masks where "masks = \<lparr>mk_region = region_mask r, mk_relative = drop_bit s (region_mask r), mk_beats = n\<rparr>"
  have m: "byte_masks_of r = Inr masks"
    using assms by (simp add: byte_masks_of_def region_ok_def masks_def n_def A_def s_def Let_def)
  have L: "0 \<le> gq_length r" using d(6) by (simp add: fits_def)
  have n1: "1 \<le> n" unfolding n_def using zdiv_mono1 [of A "A + 4 * (gq_length r + 1) - 1" 64] L by simp
  have A256: "A = 256 * (A div 256) + A mod 256" by simp
  have "A = A mod 256 + 64 * (4 * (A div 256))" using A256 by linarith
  then have "A div 64 = (A mod 256 + 64 * (4 * (A div 256))) div 64" by simp
  also have "\<dots> = 4 * (A div 256) + A mod 256 div 64" by (rule div_mult_self2) simp
  finally have q: "A div 64 = 4 * (A div 256) + A mod 256 div 64" .
  have n4: "n \<le> 4"
  proof -
    have "A + 4 * (gq_length r + 1) - 1 \<le> 256 * (A div 256) + 255" using d(11) A256 unfolding A_def by linarith
    then have "A + 4 * (gq_length r + 1) - 1 \<le> 63 + 64 * (4 * (A div 256) + 3)" by simp
    then have "(A + 4 * (gq_length r + 1) - 1) div 64 \<le> (63 + 64 * (4 * (A div 256) + 3)) div 64" by (rule zdiv_mono1) simp
    also have "\<dots> = 4 * (A div 256) + 3" unfolding div_mult_self2 [OF zero_neq_numeral [symmetric]] by simp
    finally have "(A + 4 * (gq_length r + 1) - 1) div 64 \<le> 4 * (A div 256) + 3" .
    moreover have "0 \<le> A mod 256 div 64" by (simp add: pos_imp_zdiv_nonneg_iff)
    ultimately show ?thesis unfolding n_def using q by linarith
  qed
  have rel: "bit (mk_relative masks) k \<longleftrightarrow> read_enabled r (64 * (A div 64) + int k)" for k
  proof -
    have "256 * (A div 256) + int (s + k) = 64 * (A div 64) + int k"
      using q pos_imp_zdiv_nonneg_iff [of 64 "A mod 256"] by (simp add: s_def)
    then have "bit (region_mask r) (s + k) \<longleftrightarrow> read_enabled r (64 * (A div 64) + int k)"
      using bit_region_mask [OF assms, of "s + k", folded A_def] by metis
    then show ?thesis by (simp add: masks_def bit_drop_bit_eq)
  qed
  show thesis by (rule that [OF m]) (use n1 n4 rel in \<open>simp_all add: masks_def n_def A_def\<close>)
qed

subsection \<open>The codec\<close>

definition region_pack :: "region_read \<Rightarrow> (nat \<times> nat \<times> int) list" where
  "region_pack r = request_layout 3 (gq_vc r) (gq_asi r) (gq_tag r) (of_bool (gq_pool r)) (gq_attr r) (gq_length r)
     (gq_metadata r) (drop_bit 2 (gq_address r)) (gq_src r) (gq_dst r)"

lemma encode_region_pack: "region_ok r \<Longrightarrow> encode_region_read r = Inr (pack (region_pack r))"
  by (simp add: encode_region_read_def region_ok_def region_pack_def request_layout_def)

lemma region_pack_ok: "region_ok r \<Longrightarrow> pack_ok 128 (region_pack r)"
  using region_okD [of r] fits_drop [of 57 "gq_address r" 2 55]
  by (simp add: region_pack_def request_layout_def) (simp add: fits_def)

lemma and_19: "w AND 19 = 0 \<longleftrightarrow> fld w 0 2 = 0 \<and> fld w 4 1 = (0 :: int)"
proof -
  have "(19 :: int) = mask 2 OR push_bit 4 (mask 1)" by (simp add: mask_eq_exp_minus_1 push_bit_eq_mult)
  then have b: "bit (19 :: int) j \<longleftrightarrow> j < 2 \<or> j = 4" for j
    by (simp only: bit_or_iff bit_push_bit_iff bit_mask_iff) auto
  show ?thesis
  proof
    assume z: "w AND 19 = 0"
    have "\<not> bit w j" if "bit (19 :: int) j" for j using arg_cong [OF z, of "\<lambda>x. bit x j"] that by (simp only: bit_and_iff bit_0_eq) simp
    then have "\<not> bit w j" if "j < 2 \<or> j = 4" for j using that unfolding b by blast
    note zero = this
    have "fld w 0 2 = 0" by (rule bit_eqI) (use zero in \<open>auto simp: bit_fld\<close>)
    then show "fld w 0 2 = 0 \<and> fld w 4 1 = 0" unfolding fld_one using zero [of 4] by simp
  next
    assume z: "fld w 0 2 = 0 \<and> fld w 4 1 = 0"
    have "\<not> bit w j" if "j < 2" for j using arg_cong [OF conjunct1 [OF z], of "\<lambda>x. bit x j"] that by (simp add: bit_fld)
    moreover have "\<not> bit w 4" using z fld_one [of w 4] by simp
    ultimately have no: "\<not> (bit w j \<and> bit (19 :: int) j)" for j unfolding b by blast
    show "w AND 19 = 0"
    proof (rule bit_eqI)
      fix j
      show "bit (w AND 19) j = bit (0 :: int) j" unfolding bit_and_iff using no [of j] by simp
    qed
  qed
qed

lemma decode_encode_region:
  assumes "region_ok r"
  shows "\<exists>w. encode_region_read r = Inr w \<and> decode_region_read w (gq_port r) = Inr r"
proof -
  let ?w = "pack (region_pack r)"
  note ok = region_pack_ok [OF assms] and d = region_okD [OF assms]
  have f: "fld ?w 124 4 = 1" "fld ?w 118 6 = 3" "fld ?w 116 2 = gq_vc r" "fld ?w 114 2 = gq_asi r" "fld ?w 103 11 = gq_tag r"
    "fld ?w 102 1 = of_bool (gq_pool r)" "fld ?w 94 8 = gq_attr r" "fld ?w 88 6 = gq_length r" "fld ?w 80 8 = gq_metadata r"
    "fld ?w 25 55 = drop_bit 2 (gq_address r)" "fld ?w 15 10 = gq_src r" "fld ?w 5 10 = gq_dst r" "fld ?w 0 5 = 0"
    by (rule pack_fld [OF ok], simp add: region_pack_def request_layout_def)+
  have w: "fits 128 ?w" by (rule pack_fits [OF ok])
  then have t: "drop_bit 124 ?w = 1" using drop_bit_fld [of 124 4 ?w] f(1) by simp
  have "fld (gq_address r) 0 2 = 0" using d(10) by (simp add: fld_mod)
  then have a: "push_bit 2 (drop_bit 2 (gq_address r)) = gq_address r" by (rule push_drop_bit) simp
  have z: "?w AND 19 = 0"
    using f(13) fld_fld [of 0 2 5 ?w 0] fld_fld [of 4 1 5 ?w 0] unfolding and_19 by simp
  have eq: "\<lparr>gq_port = gq_port r, gq_tag = gq_tag r, gq_address = gq_address r, gq_src = gq_src r, gq_dst = gq_dst r,
      gq_length = gq_length r, gq_attr = gq_attr r, gq_vc = gq_vc r, gq_pool = gq_pool r, gq_asi = gq_asi r,
      gq_metadata = gq_metadata r\<rparr> = r" by (cases r) simp
  have "decode_region_read ?w (gq_port r) = Inr r"
    unfolding decode_region_read_def t f z check_width_def using w a assms by (simp add: Let_def eq region_ok_def)
  then show ?thesis using encode_region_pack [OF assms] by blast
qed

lemma encode_decode_region:
  assumes "decode_region_read w port = Inr r"
  shows "encode_region_read r = Inr (w AND NOT 12) \<and> gq_port r = port"
proof -
  have w: "fits 128 w" "drop_bit 124 w = 1" "fld w 118 6 = 3" "w AND 19 = 0"
    and r: "r = \<lparr>gq_port = port, gq_tag = fld w 103 11, gq_address = push_bit 2 (fld w 25 55),
                gq_src = fld w 15 10, gq_dst = fld w 5 10, gq_length = fld w 88 6, gq_attr = fld w 94 8,
                gq_vc = fld w 116 2, gq_pool = fld w 102 1 \<noteq> 0, gq_asi = fld w 114 2,
                gq_metadata = fld w 80 8\<rparr>" and ok: "region_ok r"
    using assms by (auto simp: decode_region_read_def check_width_def Let_def region_ok_def)
  define v where "v = w AND NOT 12"
  note keep = cway_cleared(2) [of _ _ w, folded v_def] and z = cway_cleared(3) [of w, folded v_def]
    and fits = cway_cleared(1) [OF w(1), folded v_def]
  have low: "fld v 0 2 = 0" "fld v 4 1 = 0" using w(4) keep [of 0 2] keep [of 4 1] unfolding and_19 by simp_all
  have five: "fld v 0 5 = 0"
  proof (rule bit_eqI)
    fix i
    have "\<not> bit v i" if "i < 5"
    proof -
      have "i < 2 \<or> i = 2 + 0 \<or> i = 2 + 1 \<or> i = 4" using that by auto
      then consider "i < 2" | "i = 2 + 0" | "i = 2 + 1" | "i = 4" by blast
      then show ?thesis
      proof cases
        case 1
        then show ?thesis using bit_fld [of v 0 2 i] low(1) by simp
      next
        case 4
        then show ?thesis using fld_one [of v 4] low(2) by simp
      qed (use bit_fld [of v 2 2 0] bit_fld [of v 2 2 1] z in simp_all)
    qed
    then show "bit (fld v 0 5) i = bit 0 i" by (auto simp: bit_fld)
  qed
  have t: "fld w 124 4 = 1" using drop_bit_fld [of 124 4 w] w(1,2) by simp
  have b': "fld w 102 (Suc 0) = of_bool (bit w 102)" "fld w 102 1 = of_bool (bit w 102)" using fld_one [of w 102] by simp_all
  have "region_pack r = map (\<lambda>(k, n). (k, n, fld v k n))
     [(124, 4), (118, 6), (116, 2), (114, 2), (103, 11), (102, 1), (94, 8), (88, 6), (80, 8), (25, 55), (15, 10), (5, 10), (0, 5)]"
    using t w(3) five by (simp add: region_pack_def request_layout_def r keep b' drop_bit_push_bit)
  note eq = this
  have "pack (region_pack r) = v" unfolding eq by (rule pack_unpack [OF _ fits]) simp
  then show ?thesis using encode_region_pack [OF ok] unfolding v_def by (simp add: r)
qed

definition read_beat_ok :: "read_beat \<Rightarrow> bool" where
  "read_beat_ok p \<longleftrightarrow> validate_read_beat p = Inr ()"

lemma read_beat_okD:
  assumes "read_beat_ok p"
  shows "fits 2 (gp_port p)" "fits 11 (gp_tag p)" "fits 10 (gp_src p)" "fits 10 (gp_dst p)" "fits 512 (gp_data p)"
    "fits 4 (gp_status p)" "fits 2 (gp_offset p)" "fits 2 (gp_num_beats p)" "gp_status p \<in> set read_statuses"
    "gp_rsp_type p = 0" "gp_vc p = 0" "\<not> gp_pool p"
  using assms by (simp_all add: read_beat_ok_def validate_read_beat_def check_widths_def)

definition beat_pack :: "read_beat \<Rightarrow> (nat \<times> nat \<times> int) list" where
  "beat_pack p = response_layout 0 (gp_tag p) 0 0 (gp_offset p) (gp_status p) (of_bool (gp_last p)) (gp_src p) (gp_dst p) 0"

lemma decode_encode_beat:
  assumes "read_beat_ok p" "gp_num_beats p = 0"
  shows "\<exists>w. encode_read_beat p = Inr w \<and> decode_beats w (gp_port p) [gp_data p] (Some [gp_data_error p]) = Inr [p] \<and>
    (\<not> gp_data_error p \<longrightarrow> decode_beats w (gp_port p) [gp_data p] None = Inr [p])"
proof -
  let ?w = "pack (beat_pack p)"
  note d = read_beat_okD [OF assms(1)]
  have ok: "pack_ok 64 (beat_pack p)" using d by (simp add: beat_pack_def response_layout_def) (simp add: fits_def)
  have f: "fld ?w 60 4 = 2" "fld ?w 58 2 = 0" "fld ?w 47 11 = gp_tag p" "fld ?w 46 1 = 0" "fld ?w 44 2 = 0"
    "fld ?w 42 2 = gp_offset p" "fld ?w 38 4 = gp_status p" "fld ?w 37 1 = 1" "fld ?w 36 1 = of_bool (gp_last p)"
    "fld ?w 26 10 = gp_src p" "fld ?w 16 10 = gp_dst p" "fld ?w 14 2 = 0"
    by (rule pack_fld [OF ok], simp add: beat_pack_def response_layout_def)+
  have w: "fits 64 ?w" by (rule pack_fits [OF ok])
  then have t: "drop_bit 60 ?w = 2" using drop_bit_fld [of 60 4 ?w] f(1) by simp
  have enc: "encode_read_beat p = Inr ?w"
    using assms by (simp add: encode_read_beat_def read_beat_ok_def beat_pack_def response_layout_def)
  have eq: "\<lparr>gp_port = gp_port p, gp_tag = gp_tag p, gp_src = gp_src p, gp_dst = gp_dst p, gp_data = gp_data p,
      gp_status = gp_status p, gp_offset = gp_offset p, gp_last = gp_last p, gp_num_beats = 0, gp_rsp_type = 0, gp_vc = 0,
      gp_pool = False, gp_data_error = gp_data_error p\<rparr> = p" using d(10-12) assms(2) by (cases p) simp
  have v: "validate_read_beat p = Inr ()" using assms(1) by (simp add: read_beat_ok_def)
  have "decode_beats ?w (gp_port p) [gp_data p] (Some [gp_data_error p]) = Inr [p]"
    unfolding decode_beats_def t f check_width_def using w d(1) v by (simp add: eq)
  moreover have "decode_beats ?w (gp_port p) [gp_data p] None = Inr [p]" if "\<not> gp_data_error p"
    unfolding decode_beats_def t f check_width_def using w d(1) v that eq by simp
  ultimately show ?thesis using enc by blast
qed

subsection \<open>What a read returns\<close>

definition read_memory_ok :: "read_memory \<Rightarrow> bool" where
  "read_memory_ok m \<longleftrightarrow> fits 57 (rm_base m) \<and> 0 \<le> rm_executions m \<and> rm_base m + int (length (rm_data m)) \<le> 2 ^ 57 \<and>
     bytes_ok (rm_data m)"

definition read_inside :: "region_read \<Rightarrow> read_memory \<Rightarrow> bool" where
  "read_inside r m \<longleftrightarrow> rm_base m \<le> gq_address r \<and>
     gq_address r + 4 * (gq_length r + 1) \<le> rm_base m + int (length (rm_data m))"

definition read_outcome :: "region_read \<Rightarrow> read_memory \<Rightarrow> int \<Rightarrow> int" where
  "read_outcome r m status = (if status = 0 \<and> \<not> read_inside r m then 3 else status)"

definition beat_of :: "region_read \<Rightarrow> read_memory \<Rightarrow> int \<Rightarrow> int \<Rightarrow> int \<Rightarrow> nat \<Rightarrow> read_beat" where
  "beat_of r m status error_pattern n offset =
     \<lparr>gp_port = gq_port r, gp_tag = gq_tag r, gp_src = gq_dst r, gp_dst = gq_src r,
      gp_data = little_endian (map (\<lambda>lane. read_lane m status error_pattern (64 * (gq_address r div 64 + int offset) + int lane)) [0..<64]),
      gp_status = status, gp_offset = int offset, gp_last = (int offset = n - 1), gp_num_beats = 0, gp_rsp_type = 0, gp_vc = 0,
      gp_pool = False, gp_data_error = False\<rparr>"

lemma little_endian_sum: "little_endian xs = (\<Sum>i<length xs. push_bit (8 * i) (xs ! i))"
proof (induction xs)
  case Nil
  then show ?case by (simp add: little_endian_def)
next
  case (Cons x xs)
  have "(\<Sum>i<length (x # xs). push_bit (8 * i) ((x # xs) ! i)) = x + (\<Sum>i<length xs. push_bit (8 * Suc i) (xs ! i))"
    by (simp only: list.size add_Suc_right sum.lessThan_Suc_shift) simp
  also have "(\<Sum>i<length xs. push_bit (8 * Suc i) (xs ! i)) = 256 * little_endian xs"
    unfolding Cons.IH by (simp add: sum_distrib_left push_bit_eq_mult power_add algebra_simps)
  finally show ?case by (simp add: little_endian_def)
qed

lemma little_endian_byte:
  assumes "bytes_ok xs" "k < length xs"
  shows "fld (little_endian xs) (8 * k) 8 = xs ! k"
  using digit_sum [of "length xs" 8 "\<lambda>i. xs ! i"] assms by (simp add: little_endian_sum bytes_ok_def list_all_length)

lemma read_lane_byte: "read_memory_ok m \<Longrightarrow> fits 8 e \<Longrightarrow> fits 8 (read_lane m status e a)"
  by (auto simp: read_lane_def read_memory_ok_def bytes_ok_def list_all_length nat_less_iff)

lemma memory_beats_effect:
  assumes "region_ok r" "read_memory_ok m" "status \<in> set read_statuses" "fits 8 e" "byte_masks_of r = Inr masks"
  shows "memory_beats r m status e = Inr \<lparr>ru_memory = m\<lparr>rm_executions := rm_executions m + 1\<rparr>,
    ru_responses = map (beat_of r m (read_outcome r m status) e (mk_beats masks)) [0..<nat (mk_beats masks)], ru_masks = masks\<rparr>"
proof -
  have st: "check_width status 4 = Inr ()" using assms(3) by (auto simp: check_width_def read_statuses_def fits_def)
  have ep: "check_width e 8 = Inr ()" using assms(4) by (simp add: check_width_def)
  have n: "read_memory_new (rm_data m) (rm_base m) (rm_executions m + 1) = Inr (m\<lparr>rm_executions := rm_executions m + 1\<rparr>)"
    using assms(2) by (simp add: read_memory_new_def read_memory_ok_def check_width_def push_bit_eq_mult)
  have o: "(if status = 0 \<and> (gq_address r - rm_base m < 0 \<or> gq_address r - rm_base m + 4 * (gq_length r + 1) > int (length (rm_data m)))
      then 3 else status) = read_outcome r m status"
    by (auto simp: read_outcome_def read_inside_def)
  have a: "gq_address r div 64 * 64 + int k * 64 + int lane = 64 * (gq_address r div 64 + int k) + int lane" for k lane
    by simp
  show ?thesis
    unfolding memory_beats_def st ep rbind_Inr Let_def o using assms(1,3,5)
    by (simp add: region_ok_def n beat_of_def a)
qed

end
