(* ===== verification/Endpoint_Backend.thy ===== *)
theory Endpoint_Backend
  imports Endpoint_Write
begin

section \<open>The write backend and the identities shared by reads and writes\<close>

text \<open>
  Models \<open>WriteBackend\<close> and \<open>ReadWriteTags\<close> of \<open>simulator/UAlink2.0/model/ualink/endpoint_write.py\<close>: a backend owns a
  token from acceptance to retirement and executes it once, at a time of its own; the tags own a (port, tag)
  identity with its kind. Both keep a dict of slots, an association list here.
\<close>

subsection \<open>The backend\<close>

type_synonym write_slot = "write_request \<times> write_response option"

record write_backend =
  wb_memory :: write_memory
  wb_local :: int
  wb_capacity :: int
  wb_slots :: "(int \<times> write_slot) list"

definition backend_new :: "write_memory \<Rightarrow> int \<Rightarrow> int \<Rightarrow> py_error + write_backend" where
  "backend_new memory local_id capacity =
     rbind (check_width local_id 10) (\<lambda>_. rbind (ensure (\<not> capacity < 1)) (\<lambda>_.
       Inr \<lparr>wb_memory = memory, wb_local = local_id, wb_capacity = capacity, wb_slots = []\<rparr>))"

definition backend_accept :: "write_backend \<Rightarrow> int \<Rightarrow> write_request \<Rightarrow> py_error + write_backend" where
  "backend_accept b token r =
     rbind (check_width token 64) (\<lambda>_. rbind (validate_write r) (\<lambda>_.
     rbind (ensure (\<not> (map_of (wb_slots b) token \<noteq> None \<or> int (length (wb_slots b)) \<ge> wb_capacity b \<or> wq_dst r \<noteq> wb_local b))) (\<lambda>_.
       Inr (b\<lparr>wb_slots := AList.update token (r, None) (wb_slots b)\<rparr>))))"

definition backend_finish :: "write_backend \<Rightarrow> int \<Rightarrow> int \<Rightarrow> py_error + write_backend" where
  "backend_finish b token status =
     rbind (check_width token 64) (\<lambda>_.
       case map_of (wb_slots b) token of
         None \<Rightarrow> Inl ValueError
       | Some (r, response) \<Rightarrow>
           rbind (ensure (\<not> response \<noteq> None)) (\<lambda>_.
           rbind (memory_write r (wb_memory b) status) (\<lambda>result.
             Inr (b\<lparr>wb_memory := wr_memory result,
                    wb_slots := AList.update token (r, Some (wr_response result)) (wb_slots b)\<rparr>))))"

definition backend_peek :: "write_backend \<Rightarrow> int \<Rightarrow> py_error + write_response option" where
  "backend_peek b token =
     rbind (check_width token 64) (\<lambda>_.
       case map_of (wb_slots b) token of None \<Rightarrow> Inl ValueError | Some (r, response) \<Rightarrow> Inr response)"

definition backend_retire :: "write_backend \<Rightarrow> int \<Rightarrow> py_error + write_backend \<times> write_response" where
  "backend_retire b token =
     rbind (backend_peek b token) (\<lambda>response.
       case response of None \<Rightarrow> Inl ValueError
       | Some p \<Rightarrow> Inr (b\<lparr>wb_slots := AList.delete token (wb_slots b)\<rparr>, p))"

subsection \<open>The shared identities\<close>

record tag_completion =
  tc_port :: int
  tc_tag :: int
  tc_kind :: string
  tc_status :: int

type_synonym shared_slot = "string \<times> bool \<times> tag_completion option"

record shared_tags =
  st_local :: int
  st_capacity :: int
  st_ports :: int
  st_slots :: "((int \<times> int) \<times> shared_slot) list"

definition shared_new :: "int \<Rightarrow> int \<Rightarrow> int \<Rightarrow> py_error + shared_tags" where
  "shared_new local_id capacity num_ports =
     rbind (check_width local_id 10) (\<lambda>_.
     rbind (ensure (\<not> (capacity < 1 \<or> num_ports \<notin> {1, 2, 4}))) (\<lambda>_.
       Inr \<lparr>st_local = local_id, st_capacity = capacity, st_ports = num_ports, st_slots = []\<rparr>))"

definition shared_occupancy :: "shared_tags \<Rightarrow> int" where
  "shared_occupancy t = int (length (st_slots t))"

definition shared_key :: "shared_tags \<Rightarrow> int \<Rightarrow> int \<Rightarrow> py_error + int \<times> int" where
  "shared_key t port tag =
     rbind (check_width port 2) (\<lambda>_. rbind (check_width tag 11) (\<lambda>_.
     rbind (ensure (\<not> port \<ge> st_ports t)) (\<lambda>_. Inr (port, tag))))"

definition shared_reserve :: "shared_tags \<Rightarrow> int \<Rightarrow> int \<Rightarrow> string \<Rightarrow> py_error + shared_tags" where
  "shared_reserve t port tag kind =
     rbind (shared_key t port tag) (\<lambda>key.
     rbind (ensure (\<not> (kind \<notin> {''read'', ''write''} \<or> map_of (st_slots t) key \<noteq> None \<or> shared_occupancy t \<ge> st_capacity t))) (\<lambda>_.
       Inr (t\<lparr>st_slots := AList.update key (kind, False, None) (st_slots t)\<rparr>)))"

definition shared_mark_sent :: "shared_tags \<Rightarrow> int \<Rightarrow> int \<Rightarrow> py_error + shared_tags" where
  "shared_mark_sent t port tag =
     rbind (shared_key t port tag) (\<lambda>key.
       case map_of (st_slots t) key of
         None \<Rightarrow> Inl ValueError
       | Some (kind, sent, c) \<Rightarrow>
           rbind (ensure (\<not> sent)) (\<lambda>_. Inr (t\<lparr>st_slots := AList.update key (kind, True, c) (st_slots t)\<rparr>)))"

definition shared_receive :: "shared_tags \<Rightarrow> int \<Rightarrow> int \<Rightarrow> string \<Rightarrow> int \<Rightarrow> int \<Rightarrow> py_error + shared_tags" where
  "shared_receive t port tag kind status dst =
     rbind (shared_key t port tag) (\<lambda>key.
     rbind (check_width status 4) (\<lambda>_. rbind (check_width dst 10) (\<lambda>_.
       case map_of (st_slots t) key of
         None \<Rightarrow> Inl ValueError
       | Some (expected, sent, c) \<Rightarrow>
           rbind (ensure (\<not> (kind \<noteq> expected \<or> \<not> sent \<or> c \<noteq> None \<or> dst \<noteq> st_local t))) (\<lambda>_.
           rbind (ensure (\<not> status \<notin> set (if kind = ''write'' then write_statuses else [0, 3]))) (\<lambda>_.
             Inr (t\<lparr>st_slots := AList.update key
               (kind, sent, Some \<lparr>tc_port = port, tc_tag = tag, tc_kind = kind, tc_status = status\<rparr>) (st_slots t)\<rparr>))))))"

definition shared_peek :: "shared_tags \<Rightarrow> int \<Rightarrow> int \<Rightarrow> py_error + tag_completion option" where
  "shared_peek t port tag =
     rbind (shared_key t port tag) (\<lambda>key.
       case map_of (st_slots t) key of None \<Rightarrow> Inl ValueError | Some (kind, sent, c) \<Rightarrow> Inr c)"

definition shared_retire :: "shared_tags \<Rightarrow> int \<Rightarrow> int \<Rightarrow> py_error + shared_tags \<times> tag_completion" where
  "shared_retire t port tag =
     rbind (shared_peek t port tag) (\<lambda>completion.
       case completion of None \<Rightarrow> Inl ValueError
       | Some c \<Rightarrow> Inr (t\<lparr>st_slots := AList.delete (port, tag) (st_slots t)\<rparr>, c))"

subsection \<open>What the backend promises\<close>

text \<open>
  Without its dict: a memory, and for each token whether it is idle, accepted with a request or answered. Acceptance
  needs an idle token, room and the right destination; finishing executes the request on the memory of that
  moment; retirement hands the answer out once. Everything else is refused without effect.
\<close>

datatype token_life = Idle | Accepted write_request | Answered write_response

datatype backend_event = Accept int write_request | Finish int int | Retire_Token int

datatype backend_outcome = Fine | Refused | Answer write_response

fun backend_spec :: "int \<Rightarrow> int \<Rightarrow> write_memory \<times> (int \<Rightarrow> token_life) \<Rightarrow> backend_event \<Rightarrow>
    (write_memory \<times> (int \<Rightarrow> token_life)) \<times> backend_outcome" where
  "backend_spec here capacity (m, l) (Accept k r) =
     (if fits 64 k \<and> write_ok r \<and> l k = Idle \<and> int (card {k. l k \<noteq> Idle}) < capacity \<and> wq_dst r = here
      then ((m, l(k := Accepted r)), Fine) else ((m, l), Refused))"
| "backend_spec here capacity (m, l) (Finish k status) =
     (case l k of Accepted r \<Rightarrow>
        if fits 64 k \<and> status \<in> set write_statuses
        then ((write_effect r m status, l(k := Answered (write_answer r m status))), Fine) else ((m, l), Refused)
      | _ \<Rightarrow> ((m, l), Refused))"
| "backend_spec here capacity (m, l) (Retire_Token k) =
     (case l k of Answered p \<Rightarrow> if fits 64 k then ((m, l(k := Idle)), Answer p) else ((m, l), Refused)
      | _ \<Rightarrow> ((m, l), Refused))"

fun slot_life :: "write_slot option \<Rightarrow> token_life" where
  "slot_life None = Idle"
| "slot_life (Some (r, None)) = Accepted r"
| "slot_life (Some (r, Some p)) = Answered p"

definition backend_abs :: "write_backend \<Rightarrow> write_memory \<times> (int \<Rightarrow> token_life)" where
  "backend_abs b = (wb_memory b, \<lambda>k. slot_life (map_of (wb_slots b) k))"

definition backend_ok :: "int \<Rightarrow> int \<Rightarrow> write_backend \<Rightarrow> bool" where
  "backend_ok here capacity b \<longleftrightarrow> wb_local b = here \<and> wb_capacity b = capacity \<and> write_memory_ok (wb_memory b) \<and>
     distinct (map fst (wb_slots b)) \<and> int (length (wb_slots b)) \<le> capacity \<and>
     list_all (\<lambda>(k, r, p). fits 64 k \<and> write_ok r \<and> wq_dst r = here) (wb_slots b)"

fun backend_step :: "write_backend \<Rightarrow> backend_event \<Rightarrow> py_error + write_backend \<times> backend_outcome" where
  "backend_step b (Accept k r) = Inr (case backend_accept b k r of Inl _ \<Rightarrow> (b, Refused) | Inr b' \<Rightarrow> (b', Fine))"
| "backend_step b (Finish k status) = Inr (case backend_finish b k status of Inl _ \<Rightarrow> (b, Refused) | Inr b' \<Rightarrow> (b', Fine))"
| "backend_step b (Retire_Token k) = Inr (case backend_retire b k of Inl _ \<Rightarrow> (b, Refused) | Inr (b', p) \<Rightarrow> (b', Answer p))"

text \<open>Dictionaries with distinct keys count what they hold.\<close>

lemma slot_life_Idle [simp]: "slot_life e = Idle \<longleftrightarrow> e = None"
  by (cases e rule: slot_life.cases) simp_all

lemma card_keys: "distinct (map fst al) \<Longrightarrow> card {k. map_of al k \<noteq> None} = length al"
proof -
  assume d: "distinct (map fst al)"
  have "{k. map_of al k \<noteq> None} = set (map fst al)" by (auto simp: map_of_eq_None_iff)
  then show ?thesis using distinct_card [OF d] by simp
qed

lemma length_delete_key: "length (AList.delete k al) \<le> length al"
  by (rule length_delete_le)

lemma list_all_delete: "list_all P al \<Longrightarrow> list_all P (AList.delete k al)"
  by (induction al) auto

lemma backend_okD:
  assumes "backend_ok here capacity b"
  shows "wb_local b = here" "wb_capacity b = capacity" "write_memory_ok (wb_memory b)" "distinct (map fst (wb_slots b))"
    "int (length (wb_slots b)) \<le> capacity" "list_all (\<lambda>(k, r, p). fits 64 k \<and> write_ok r \<and> wq_dst r = here) (wb_slots b)"
  using assms by (simp_all add: backend_ok_def)

lemma busy_slots: "backend_ok here capacity b \<Longrightarrow> card {k. snd (backend_abs b) k \<noteq> Idle} = length (wb_slots b)"
  using card_keys [of "wb_slots b"] by (simp add: backend_abs_def backend_ok_def)

lemma backend_accept_spec:
  assumes "backend_ok here capacity b"
  shows "backend_step b (Accept k r) = Inr (b', out) \<Longrightarrow>
    backend_ok here capacity b' \<and> backend_spec here capacity (backend_abs b) (Accept k r) = (backend_abs b', out)"
proof -
  note d = backend_okD [OF assms]
  have f: "int (card {k. slot_life (map_of (wb_slots b) k) \<noteq> Idle}) = int (length (wb_slots b))"
    using busy_slots [OF assms] by (simp add: backend_abs_def)
  assume step: "backend_step b (Accept k r) = Inr (b', out)"
  show ?thesis
  proof (cases "fits 64 k \<and> write_ok r \<and> map_of (wb_slots b) k = None \<and> int (length (wb_slots b)) < capacity \<and> wq_dst r = here")
    case True
    then have "b' = b\<lparr>wb_slots := AList.update k (r, None) (wb_slots b)\<rparr>" "out = Fine"
      using step d by (simp_all add: backend_accept_def check_width_def write_ok_def)
    moreover have "int (length (AList.update k (r, None) (wb_slots b))) \<le> capacity" using True by (simp add: update_length_new)
    ultimately show ?thesis
      using True d f by (auto simp: backend_ok_def backend_abs_def distinct_update update_conv' fun_eq_iff intro!: list_all_update)
  next
    case False
    then obtain e where "backend_accept b k r = Inl e"
      using d(1,2) by (cases "backend_accept b k r") (auto simp: backend_accept_def check_width_def write_ok_def)
    then have "b' = b" "out = Refused" using step by simp_all
    then show ?thesis using False assms f by (auto simp: backend_abs_def)
  qed
qed

lemma backend_finish_spec:
  assumes "backend_ok here capacity b"
  shows "backend_step b (Finish k status) = Inr (b', out) \<Longrightarrow>
    backend_ok here capacity b' \<and> backend_spec here capacity (backend_abs b) (Finish k status) = (backend_abs b', out)"
proof -
  note d = backend_okD [OF assms]
  assume step: "backend_step b (Finish k status) = Inr (b', out)"
  show ?thesis
  proof (cases "\<exists>r. map_of (wb_slots b) k = Some (r, None) \<and> status \<in> set write_statuses")
    case True
    then obtain r where m: "map_of (wb_slots b) k = Some (r, None)" and st: "status \<in> set write_statuses" by blast
    have w: "fits 64 k" "write_ok r" "wq_dst r = here" using d(6) map_of_SomeD [OF m] by (auto simp: list_all_iff)
    note e = memory_write_effect [OF w(2) d(3) st]
    have "b' = b\<lparr>wb_memory := write_effect r (wb_memory b) status,
        wb_slots := AList.update k (r, Some (write_answer r (wb_memory b) status)) (wb_slots b)\<rparr>" "out = Fine"
      using step w by (simp_all add: backend_finish_def check_width_def m e)
    then show ?thesis
      using d m w st by (auto simp: backend_ok_def backend_abs_def distinct_update update_conv' fun_eq_iff update_length_old write_effect_ok
        intro!: list_all_update)
  next
    case False
    then obtain e where "backend_finish b k status = Inl e"
      by (cases "backend_finish b k status") (auto simp: backend_finish_def dest: memory_write_legal split: option.splits)
    then have "b' = b" "out = Refused" using step by simp_all
    then show ?thesis using False assms
      by (cases "map_of (wb_slots b) k" rule: slot_life.cases) (auto simp: backend_abs_def)
  qed
qed

lemma backend_retire_spec:
  assumes "backend_ok here capacity b"
  shows "backend_step b (Retire_Token k) = Inr (b', out) \<Longrightarrow>
    backend_ok here capacity b' \<and> backend_spec here capacity (backend_abs b) (Retire_Token k) = (backend_abs b', out)"
proof -
  note d = backend_okD [OF assms]
  assume step: "backend_step b (Retire_Token k) = Inr (b', out)"
  show ?thesis
  proof (cases "\<exists>r p. map_of (wb_slots b) k = Some (r, Some p)")
    case True
    then obtain r p where m: "map_of (wb_slots b) k = Some (r, Some p)" by blast
    have "fits 64 k" using d(6) map_of_SomeD [OF m] by (auto simp: list_all_iff)
    then have "b' = b\<lparr>wb_slots := AList.delete k (wb_slots b)\<rparr>" "out = Answer p" "fits 64 k"
      using step by (simp_all add: backend_retire_def backend_peek_def check_width_def m)
    moreover have "int (length (AList.delete k (wb_slots b))) \<le> capacity"
      using d(5) length_delete_key [of k "wb_slots b"] by linarith
    ultimately show ?thesis
      using d m by (auto simp: backend_ok_def backend_abs_def distinct_delete delete_conv' fun_eq_iff list_all_delete)
  next
    case False
    then obtain e where "backend_retire b k = Inl e"
      by (cases "backend_retire b k") (auto simp: backend_retire_def backend_peek_def split: option.splits)
    then have "b' = b" "out = Refused" using step by simp_all
    then show ?thesis using False assms
      by (cases "map_of (wb_slots b) k" rule: slot_life.cases) (auto simp: backend_abs_def)
  qed
qed

lemma backend_step_spec:
  "backend_ok here capacity b \<Longrightarrow> backend_step b e = Inr (b', out) \<Longrightarrow>
     backend_ok here capacity b' \<and> backend_spec here capacity (backend_abs b) e = (backend_abs b', out)"
  by (cases e) (blast dest: backend_accept_spec backend_finish_spec backend_retire_spec)+

interpretation write_backend: refines backend_step "backend_ok here capacity" backend_abs "backend_spec here capacity"
  for here capacity
  by unfold_locales (blast dest: backend_step_spec)+

interpretation write_backend_total: total_machine backend_step "backend_ok here capacity" "\<lambda>_ _. True" for here capacity
  by unfold_locales (metis surj_pair backend_step.elims)

lemma backend_new_ok:
  "backend_new m here capacity = Inr b \<Longrightarrow> write_memory_ok m \<Longrightarrow>
     backend_ok here capacity b \<and> backend_abs b = (m, \<lambda>_. Idle)"
  by (auto simp: backend_new_def backend_ok_def backend_abs_def fun_eq_iff)

text \<open>Each successful finish is one execution, and there are no others.\<close>

fun finishes :: "(backend_event \<times> backend_outcome) list \<Rightarrow> int" where
  "finishes [] = 0"
| "finishes ((e, out) # xs) = (case e of Finish k s \<Rightarrow> (if out = Fine then 1 else 0) | _ \<Rightarrow> 0) + finishes xs"

lemma spec_executions:
  "spec_run (backend_spec here capacity) (m, l) es = ((m', l'), outs) \<Longrightarrow>
     wm_executions m' = wm_executions m + finishes (zip es outs)"
proof (induction es arbitrary: m l outs)
  case (Cons e es)
  obtain m1 l1 out where st: "backend_spec here capacity (m, l) e = ((m1, l1), out)" by (metis surj_pair)
  obtain outs' where r: "spec_run (backend_spec here capacity) (m1, l1) es = ((m', l'), outs')" and outs: "outs = out # outs'"
    using Cons.prems by (auto simp: st split: prod.splits)
  have "wm_executions m1 = wm_executions m + finishes [(e, out)]"
    using st by (cases e) (auto simp: write_effect_def split: token_life.splits if_splits)
  then show ?case using Cons.IH [OF r] by (simp add: outs)
qed simp

text \<open>Every answer is legal, and the memory keeps its place and size.\<close>

definition answers_ok :: "(int \<Rightarrow> token_life) \<Rightarrow> bool" where
  "answers_ok l \<longleftrightarrow> (\<forall>k. (\<forall>r. l k = Accepted r \<longrightarrow> write_ok r) \<and> (\<forall>p. l k = Answered p \<longrightarrow> write_response_ok p))"

lemma spec_step_answers:
  "backend_spec here capacity (m, l) e = ((m', l'), out) \<Longrightarrow> answers_ok l \<Longrightarrow>
     answers_ok l' \<and> (\<forall>p. out = Answer p \<longrightarrow> write_response_ok p)"
  by (cases e) (auto simp: answers_ok_def write_answer_ok split: token_life.splits if_splits)

lemma spec_run_answers:
  "spec_run (backend_spec here capacity) (m, l) es = ((m', l'), outs) \<Longrightarrow> answers_ok l \<Longrightarrow> Answer p \<in> set outs \<Longrightarrow>
     write_response_ok p"
proof (induction es arbitrary: m l outs)
  case (Cons e es)
  obtain m1 l1 out where st: "backend_spec here capacity (m, l) e = ((m1, l1), out)" by (metis surj_pair)
  obtain outs' where r: "spec_run (backend_spec here capacity) (m1, l1) es = ((m', l'), outs')" and outs: "outs = out # outs'"
    using Cons.prems(1) by (auto simp: st split: prod.splits)
  show ?case using spec_step_answers [OF st Cons.prems(2)] Cons.IH [OF r] Cons.prems(3) outs by auto
qed simp

lemma spec_answers_ok:
  "spec_run (backend_spec here capacity) (m, l) es = (s, outs) \<Longrightarrow> (\<And>k. l k = Idle) \<Longrightarrow> Answer p \<in> set outs \<Longrightarrow> write_response_ok p"
  by (cases s) (auto intro: spec_run_answers simp: answers_ok_def)

lemma spec_memory_shape:
  "wm_base (fst (fst (spec_run (backend_spec here capacity) (m, l) es))) = wm_base m \<and>
   length (wm_data (fst (fst (spec_run (backend_spec here capacity) (m, l) es)))) = length (wm_data m)"
proof (induction es arbitrary: m l)
  case (Cons e es)
  obtain m1 l1 out where st: "backend_spec here capacity (m, l) e = ((m1, l1), out)" by (metis surj_pair)
  have "wm_base m1 = wm_base m \<and> length (wm_data m1) = length (wm_data m)"
    using st by (cases e) (auto simp: write_effect_def split: token_life.splits if_splits)
  then show ?case using Cons.IH [of m1 l1] by (auto simp: st split: prod.splits)
qed simp

subsection \<open>What the shared identities promise\<close>

datatype shared_life = Unused | Held string | Issued string | Finished tag_completion

datatype shared_event =
  Hold int int string | Issue int int | Respond int int string int int | Release int int

datatype shared_outcome = Agreed | Denied | Released tag_completion

definition statuses_of :: "string \<Rightarrow> int list" where
  "statuses_of kind = (if kind = ''write'' then write_statuses else [0, 3])"

type_synonym shared_lives = "int \<times> int \<Rightarrow> shared_life"

fun shared_spec :: "int \<Rightarrow> int \<Rightarrow> int \<Rightarrow> shared_lives \<Rightarrow> shared_event \<Rightarrow> shared_lives \<times> shared_outcome" where
  "shared_spec here capacity ports l (Hold p t kind) =
     (if fits 2 p \<and> fits 11 t \<and> p < ports \<and> kind \<in> {''read'', ''write''} \<and> l (p, t) = Unused \<and>
         int (card {k. l k \<noteq> Unused}) < capacity
      then (l((p, t) := Held kind), Agreed) else (l, Denied))"
| "shared_spec here capacity ports l (Issue p t) =
     (case l (p, t) of Held kind \<Rightarrow> (l((p, t) := Issued kind), Agreed) | _ \<Rightarrow> (l, Denied))"
| "shared_spec here capacity ports l (Respond p t kind status dst) =
     (if l (p, t) = Issued kind \<and> dst = here \<and> status \<in> set (statuses_of kind)
      then (l((p, t) := Finished \<lparr>tc_port = p, tc_tag = t, tc_kind = kind, tc_status = status\<rparr>), Agreed) else (l, Denied))"
| "shared_spec here capacity ports l (Release p t) =
     (case l (p, t) of Finished c \<Rightarrow> (l((p, t) := Unused), Released c) | _ \<Rightarrow> (l, Denied))"

fun shared_life_of :: "shared_slot option \<Rightarrow> shared_life" where
  "shared_life_of None = Unused"
| "shared_life_of (Some (kind, sent, Some c)) = Finished c"
| "shared_life_of (Some (kind, True, None)) = Issued kind"
| "shared_life_of (Some (kind, False, None)) = Held kind"

definition shared_abs :: "shared_tags \<Rightarrow> shared_lives" where
  "shared_abs t key = shared_life_of (map_of (st_slots t) key)"

definition shared_ok :: "int \<Rightarrow> int \<Rightarrow> int \<Rightarrow> shared_tags \<Rightarrow> bool" where
  "shared_ok here capacity ports t \<longleftrightarrow> st_local t = here \<and> st_capacity t = capacity \<and> st_ports t = ports \<and> fits 10 here \<and>
     distinct (map fst (st_slots t)) \<and> int (length (st_slots t)) \<le> capacity \<and>
     list_all (\<lambda>((p, tag), kind, sent, c). fits 2 p \<and> fits 11 tag \<and> p < ports \<and> (c \<noteq> None \<longrightarrow> sent)) (st_slots t)"

fun shared_step :: "shared_tags \<Rightarrow> shared_event \<Rightarrow> py_error + shared_tags \<times> shared_outcome" where
  "shared_step t (Hold p tag kind) = Inr (case shared_reserve t p tag kind of Inl _ \<Rightarrow> (t, Denied) | Inr t' \<Rightarrow> (t', Agreed))"
| "shared_step t (Issue p tag) = Inr (case shared_mark_sent t p tag of Inl _ \<Rightarrow> (t, Denied) | Inr t' \<Rightarrow> (t', Agreed))"
| "shared_step t (Respond p tag kind status dst) =
     Inr (case shared_receive t p tag kind status dst of Inl _ \<Rightarrow> (t, Denied) | Inr t' \<Rightarrow> (t', Agreed))"
| "shared_step t (Release p tag) = Inr (case shared_retire t p tag of Inl _ \<Rightarrow> (t, Denied) | Inr (t', c) \<Rightarrow> (t', Released c))"

lemma shared_life_Unused [simp]: "shared_life_of e = Unused \<longleftrightarrow> e = None"
  by (cases e rule: shared_life_of.cases) simp_all

lemma shared_okD:
  assumes "shared_ok here capacity ports t" "map_of (st_slots t) (p, tag) = Some (kind, sent, c)"
  shows "fits 2 p" "fits 11 tag" "p < ports" "c \<noteq> None \<Longrightarrow> sent"
  using assms(1) map_of_SomeD [OF assms(2)] by (auto simp: shared_ok_def list_all_iff)

lemma shared_key_Inr: "shared_key t p tag = Inr key \<longleftrightarrow> key = (p, tag) \<and> fits 2 p \<and> fits 11 tag \<and> p < st_ports t"
  by (auto simp: shared_key_def check_width_def)

lemma shared_busy: "shared_ok here capacity ports t \<Longrightarrow> card {k. shared_abs t k \<noteq> Unused} = length (st_slots t)"
  using card_keys [of "st_slots t"] by (simp add: shared_abs_def shared_ok_def)

text \<open>Replacing a slot of an identity that is in use.\<close>

lemma shared_update:
  assumes "shared_ok here capacity ports t" "map_of (st_slots t) (p, tag) = Some e0" "c \<noteq> None \<Longrightarrow> sent"
  shows "shared_ok here capacity ports (t\<lparr>st_slots := AList.update (p, tag) (kind, sent, c) (st_slots t)\<rparr>)"
    and "shared_abs (t\<lparr>st_slots := AList.update (p, tag) (kind, sent, c) (st_slots t)\<rparr>) =
      (shared_abs t)((p, tag) := shared_life_of (Some (kind, sent, c)))"
  using assms shared_okD [OF assms(1), of p tag "fst e0" "fst (snd e0)" "snd (snd e0)"]
  by (auto simp: shared_ok_def shared_abs_def fun_eq_iff distinct_update update_conv' update_length_old intro!: list_all_update)

lemma shared_hold_spec:
  assumes "shared_ok here capacity ports t" "shared_step t (Hold p tag kind) = Inr (t', out)"
  shows "shared_ok here capacity ports t' \<and> shared_spec here capacity ports (shared_abs t) (Hold p tag kind) = (shared_abs t', out)"
proof (cases "fits 2 p \<and> fits 11 tag \<and> p < ports \<and> kind \<in> {''read'', ''write''} \<and> map_of (st_slots t) (p, tag) = None \<and>
    int (length (st_slots t)) < capacity")
  case True
  have "shared_key t p tag = Inr (p, tag)" using True assms(1) by (simp add: shared_key_Inr shared_ok_def)
  then have "shared_reserve t p tag kind = Inr (t\<lparr>st_slots := AList.update (p, tag) (kind, False, None) (st_slots t)\<rparr>)"
    unfolding shared_reserve_def using True assms(1) by (simp add: shared_ok_def shared_occupancy_def ensure_def del: not_None_eq)
  then have "t' = t\<lparr>st_slots := AList.update (p, tag) (kind, False, None) (st_slots t)\<rparr>" "out = Agreed"
    using assms(2) by simp_all
  then show ?thesis
    using True assms(1) shared_busy [OF assms(1)]
    by (auto simp: shared_ok_def shared_abs_def distinct_update update_conv' fun_eq_iff update_length_new intro!: list_all_update)
next
  case False
  then obtain e where "shared_reserve t p tag kind = Inl e"
    using assms(1) by (cases "shared_reserve t p tag kind") (auto simp: shared_reserve_def shared_key_Inr shared_ok_def shared_occupancy_def)
  then have "t' = t" "out = Denied" using assms(2) by simp_all
  then show ?thesis using False assms(1) shared_busy [OF assms(1)] by (auto simp: shared_abs_def)
qed

lemma shared_issue_spec:
  assumes "shared_ok here capacity ports t" "shared_step t (Issue p tag) = Inr (t', out)"
  shows "shared_ok here capacity ports t' \<and> shared_spec here capacity ports (shared_abs t) (Issue p tag) = (shared_abs t', out)"
proof (cases "\<exists>kind. map_of (st_slots t) (p, tag) = Some (kind, False, None)")
  case True
  then obtain kind where m: "map_of (st_slots t) (p, tag) = Some (kind, False, None)" by blast
  have "t' = t\<lparr>st_slots := AList.update (p, tag) (kind, True, None) (st_slots t)\<rparr>" "out = Agreed"
    using assms shared_okD [OF assms(1) m] by (auto simp: shared_mark_sent_def shared_key_def check_width_def shared_ok_def m)
  then show ?thesis using shared_update [OF assms(1) m] by (simp add: shared_abs_def [of t "(p, tag)"] m)
next
  case False
  then obtain e where "shared_mark_sent t p tag = Inl e"
    using shared_okD(4) [OF assms(1)]
    by (cases "shared_mark_sent t p tag") (fastforce simp: shared_mark_sent_def shared_key_Inr split: option.splits)+
  then have "t' = t" "out = Denied" using assms(2) by simp_all
  then show ?thesis using False assms(1)
    by (cases "map_of (st_slots t) (p, tag)" rule: shared_life_of.cases) (auto simp: shared_abs_def)
qed

lemma shared_respond_spec:
  assumes "shared_ok here capacity ports t" "shared_step t (Respond p tag kind status dst) = Inr (t', out)"
  shows "shared_ok here capacity ports t' \<and>
    shared_spec here capacity ports (shared_abs t) (Respond p tag kind status dst) = (shared_abs t', out)"
proof (cases "map_of (st_slots t) (p, tag) = Some (kind, True, None) \<and> dst = here \<and> status \<in> set (statuses_of kind)")
  case True
  then have m: "map_of (st_slots t) (p, tag) = Some (kind, True, None)" and s: "dst = here" "status \<in> set (statuses_of kind)" by blast+
  have f: "fits 4 status" using s(2) by (auto simp: statuses_of_def write_statuses_def fits_def split: if_splits)
  have "t' = t\<lparr>st_slots := AList.update (p, tag)
      (kind, True, Some \<lparr>tc_port = p, tc_tag = tag, tc_kind = kind, tc_status = status\<rparr>) (st_slots t)\<rparr>" "out = Agreed"
    using assms shared_okD [OF assms(1) m] s f
    by (auto simp: shared_receive_def shared_key_def check_width_def shared_ok_def m statuses_of_def)
  then show ?thesis using shared_update [OF assms(1) m] s by (simp add: shared_abs_def [of t "(p, tag)"] m)
next
  case False
  then obtain e where "shared_receive t p tag kind status dst = Inl e"
    using assms(1) by (cases "shared_receive t p tag kind status dst")
      (auto simp: shared_receive_def shared_key_Inr shared_ok_def statuses_of_def split: option.splits)
  then have "t' = t" "out = Denied" using assms(2) by simp_all
  then show ?thesis using False assms(1)
    by (cases "map_of (st_slots t) (p, tag)" rule: shared_life_of.cases) (auto simp: shared_abs_def)
qed

lemma shared_release_spec:
  assumes "shared_ok here capacity ports t" "shared_step t (Release p tag) = Inr (t', out)"
  shows "shared_ok here capacity ports t' \<and> shared_spec here capacity ports (shared_abs t) (Release p tag) = (shared_abs t', out)"
proof (cases "\<exists>kind sent c. map_of (st_slots t) (p, tag) = Some (kind, sent, Some c)")
  case True
  then obtain kind sent c where m: "map_of (st_slots t) (p, tag) = Some (kind, sent, Some c)" by blast
  have "t' = t\<lparr>st_slots := AList.delete (p, tag) (st_slots t)\<rparr>" "out = Released c"
    using assms shared_okD [OF assms(1) m] by (auto simp: shared_retire_def shared_peek_def shared_key_def check_width_def shared_ok_def m)
  moreover have "int (length (AList.delete (p, tag) (st_slots t))) \<le> capacity"
    using assms(1) length_delete_key [of "(p, tag)" "st_slots t"] by (simp add: shared_ok_def)
  ultimately show ?thesis
    using assms(1) m by (auto simp: shared_ok_def shared_abs_def distinct_delete delete_conv' fun_eq_iff list_all_delete)
next
  case False
  then obtain e where "shared_retire t p tag = Inl e"
    by (cases "shared_retire t p tag") (auto simp: shared_retire_def shared_peek_def shared_key_Inr split: option.splits)
  then have "t' = t" "out = Denied" using assms(2) by simp_all
  then show ?thesis using False assms(1)
    by (cases "map_of (st_slots t) (p, tag)" rule: shared_life_of.cases) (auto simp: shared_abs_def)
qed

lemma shared_step_spec:
  "shared_ok here capacity ports t \<Longrightarrow> shared_step t e = Inr (t', out) \<Longrightarrow>
     shared_ok here capacity ports t' \<and> shared_spec here capacity ports (shared_abs t) e = (shared_abs t', out)"
  by (cases e) (blast dest: shared_hold_spec shared_issue_spec shared_respond_spec shared_release_spec)+

interpretation shared_ids: refines shared_step "shared_ok here capacity ports" shared_abs "shared_spec here capacity ports"
  for here capacity ports
  by unfold_locales (blast dest: shared_step_spec)+

interpretation shared_ids_total: total_machine shared_step "shared_ok here capacity ports" "\<lambda>_ _. True" for here capacity ports
  by unfold_locales (metis surj_pair shared_step.elims)

lemma shared_new_ok: "shared_new here capacity ports = Inr t \<Longrightarrow> shared_ok here capacity ports t \<and> shared_abs t = (\<lambda>_. Unused)"
  by (auto simp: shared_new_def shared_ok_def shared_abs_def fun_eq_iff check_width_def)

end
