(* ===== verification/Endpoint_Collector.thy ===== *)
theory Endpoint_Collector
  imports Endpoint_Read Endpoint_Backend
begin

section \<open>What the collector of beats promises\<close>

text \<open>
  Without its dicts: a tag is vacant, waiting to be sent, gathering beats, or assembled. The burst that blocks a
  port is not stored in the specification; it is the one that has begun and not ended. The collector of
  \<open>Endpoint_Read\<close> refines these lives, rejected events included.
\<close>

datatype read_life =
  Vacant | Waiting region_read | Gathering region_read "read_beat list" | Assembled region_read "read_beat list"

datatype read_event =
  Claim region_read | Sent int int | Beat_In read_beat | Collect int int | Clear

datatype read_outcome = Taken | Rejected_Event | Gathered beats_completion | Collected beats_completion

type_synonym read_lives = "int \<times> int \<Rightarrow> read_life"

definition beat_key :: "read_beat \<Rightarrow> int \<times> int" where
  "beat_key p = (gp_port p, gp_tag p)"

definition beat_total :: "region_read \<Rightarrow> int" where
  "beat_total r = mk_beats (projr (byte_masks_of r))"

definition beat_mode :: "read_beat \<Rightarrow> response_mode" where
  "beat_mode p = (if gp_num_beats p = 0 then Single else Multi)"

fun open_burst :: "read_life \<Rightarrow> bool" where
  "open_burst (Gathering r (p # ps)) \<longleftrightarrow> beat_mode p = Multi"
| "open_burst _ \<longleftrightarrow> False"

definition blocked :: "read_lives \<Rightarrow> int \<times> int \<Rightarrow> bool" where
  "blocked l key \<longleftrightarrow> (\<exists>tag. tag \<noteq> snd key \<and> open_burst (l (fst key, tag)))"

definition beat_fits :: "region_read \<Rightarrow> read_beat list \<Rightarrow> read_beat \<Rightarrow> bool" where
  "beat_fits r bs p \<longleftrightarrow> gp_offset p < beat_total r \<and> gp_offset p \<notin> set (map gp_offset bs) \<and>
     (bs \<noteq> [] \<longrightarrow> beat_mode p = beat_mode (hd bs) \<and> gp_status p = gp_status (hd bs)) \<and>
     (beat_mode p = Multi \<longrightarrow> gp_num_beats p = beat_total r - 1 \<and> gp_offset p = int (length bs)) \<and>
     (gp_last p \<longleftrightarrow> int (length bs) + 1 = beat_total r)"

definition gathered :: "region_read \<Rightarrow> read_beat list \<Rightarrow> beats_completion" where
  "gathered r bs = assemble (projr (byte_masks_of r)) (map (\<lambda>p. (gp_offset p, p)) bs) (last bs)"

fun read_spec :: "int \<Rightarrow> int \<Rightarrow> int \<Rightarrow> read_lives \<Rightarrow> read_event \<Rightarrow> read_lives \<times> read_outcome" where
  "read_spec here capacity ports l (Claim r) =
     (let key = (gq_port r, gq_tag r) in
      if region_ok r \<and> gq_port r < ports \<and> gq_src r = here \<and> l key = Vacant \<and> int (card {k. l k \<noteq> Vacant}) < capacity
      then (l(key := Waiting r), Taken) else (l, Rejected_Event))"
| "read_spec here capacity ports l (Sent p t) =
     (case l (p, t) of Waiting r \<Rightarrow> (l((p, t) := Gathering r []), Taken) | _ \<Rightarrow> (l, Rejected_Event))"
| "read_spec here capacity ports l (Beat_In p) =
     (case l (beat_key p) of
        Gathering r bs \<Rightarrow>
          if read_beat_ok p \<and> gp_dst p = here \<and> \<not> blocked l (beat_key p) \<and> beat_fits r bs p
          then if gp_last p then (l(beat_key p := Assembled r (bs @ [p])), Gathered (gathered r (bs @ [p])))
               else (l(beat_key p := Gathering r (bs @ [p])), Taken)
          else (l, Rejected_Event)
      | _ \<Rightarrow> (l, Rejected_Event))"
| "read_spec here capacity ports l (Collect p t) =
     (case l (p, t) of Assembled r bs \<Rightarrow> (l((p, t) := Vacant), Collected (gathered r bs)) | _ \<Rightarrow> (l, Rejected_Event))"
| "read_spec here capacity ports l Clear = (\<lambda>_. Vacant, Taken)"

fun collector_step :: "read_collector \<Rightarrow> read_event \<Rightarrow> py_error + read_collector \<times> read_outcome" where
  "collector_step c (Claim r) = Inr (case collector_reserve c r of Inl _ \<Rightarrow> (c, Rejected_Event) | Inr c' \<Rightarrow> (c', Taken))"
| "collector_step c (Sent p t) = Inr (case collector_mark_sent c p t of Inl _ \<Rightarrow> (c, Rejected_Event) | Inr c' \<Rightarrow> (c', Taken))"
| "collector_step c (Beat_In p) =
     Inr (case collector_receive c p of Inl _ \<Rightarrow> (c, Rejected_Event)
          | Inr (c', None) \<Rightarrow> (c', Taken) | Inr (c', Some x) \<Rightarrow> (c', Gathered x))"
| "collector_step c (Collect p t) =
     Inr (case collector_retire c p t of Inl _ \<Rightarrow> (c, Rejected_Event) | Inr (c', x) \<Rightarrow> (c', Collected x))"
| "collector_step c Clear = Inr (collector_reset c, Taken)"

subsection \<open>Abstraction and invariant\<close>

definition slot_beats :: "read_slot \<Rightarrow> read_beat list" where
  "slot_beats s = map snd (sl_seen s)"

fun read_life_of :: "read_slot option \<Rightarrow> read_life" where
  "read_life_of None = Vacant"
| "read_life_of (Some s) =
     (if \<not> sl_sent s then Waiting (sl_request s)
      else if sl_completion s = None then Gathering (sl_request s) (slot_beats s)
      else Assembled (sl_request s) (slot_beats s))"

definition collector_abs :: "read_collector \<Rightarrow> read_lives" where
  "collector_abs c key = read_life_of (map_of (rl_slots c) key)"

definition read_slot_ok :: "int \<Rightarrow> int \<Rightarrow> int \<times> int \<Rightarrow> read_slot \<Rightarrow> bool" where
  "read_slot_ok here ports key s \<longleftrightarrow>
     region_ok (sl_request s) \<and> key = (gq_port (sl_request s), gq_tag (sl_request s)) \<and> gq_port (sl_request s) < ports \<and>
     gq_src (sl_request s) = here \<and> (\<not> sl_sent s \<longrightarrow> sl_seen s = []) \<and>
     sl_seen s = map (\<lambda>p. (gp_offset p, p)) (slot_beats s) \<and>
     sl_status s = (if sl_seen s = [] then None else Some (gp_status (hd (slot_beats s)))) \<and>
     sl_mode s = (if sl_seen s = [] then None else Some (beat_mode (hd (slot_beats s)))) \<and>
     sl_completion s = (if int (length (sl_seen s)) = beat_total (sl_request s)
       then Some (gathered (sl_request s) (slot_beats s)) else None)"

definition owners_ok :: "read_lives \<Rightarrow> (int \<times> (int \<times> int)) list \<Rightarrow> bool" where
  "owners_ok l owners \<longleftrightarrow> (\<forall>port key. map_of owners port = Some key \<longleftrightarrow> port = fst key \<and> open_burst (l key))"

definition collector_ok :: "int \<Rightarrow> int \<Rightarrow> int \<Rightarrow> read_collector \<Rightarrow> bool" where
  "collector_ok here capacity ports c \<longleftrightarrow> rl_local c = here \<and> rl_capacity c = capacity \<and> rl_ports c = ports \<and>
     0 \<le> capacity \<and> distinct (map fst (rl_slots c)) \<and> int (length (rl_slots c)) \<le> capacity \<and>
     list_all (\<lambda>(key, s). read_slot_ok here ports key s) (rl_slots c) \<and> owners_ok (collector_abs c) (rl_multi_owner c)"

lemma read_life_Vacant [simp]: "read_life_of e = Vacant \<longleftrightarrow> e = None"
  by (cases e) simp_all

lemma update_append: "map_of al k = None \<Longrightarrow> AList.update k v al = al @ [(k, v)]"
  by (induction al) auto

lemma collector_okD:
  assumes "collector_ok here capacity ports c"
  shows "rl_local c = here" "rl_capacity c = capacity" "rl_ports c = ports" "distinct (map fst (rl_slots c))"
    "int (length (rl_slots c)) \<le> capacity" "owners_ok (collector_abs c) (rl_multi_owner c)"
    "map_of (rl_slots c) key = Some s \<Longrightarrow> read_slot_ok here ports key s"
  using assms map_of_SomeD [of "rl_slots c" key s] by (auto simp: collector_ok_def list_all_iff)

lemma read_busy: "collector_ok here capacity ports c \<Longrightarrow> card {k. collector_abs c k \<noteq> Vacant} = length (rl_slots c)"
  using card_keys [of "rl_slots c"] by (simp add: collector_abs_def collector_ok_def)

lemma validate_read_beat_cases: "validate_read_beat p = (if read_beat_ok p then Inr () else Inl ValueError)"
  by (auto simp: read_beat_ok_def validate_read_beat_def check_widths_def rbind_ensure)

lemma collector_key_ok:
  assumes "collector_ok here capacity ports c" "map_of (rl_slots c) (p, t) = Some s"
  shows "collector_key c p t = Inr (p, t)"
  using collector_okD(3) [OF assms(1)] collector_okD(7) [OF assms] region_okD(1,2) [of "sl_request s"]
  by (auto simp: collector_key_def check_width_def read_slot_ok_def)

lemma owners_blocked:
  assumes "owners_ok l owners"
  shows "dget owners (fst key) key \<noteq> key \<longleftrightarrow> blocked l key"
proof -
  have "dget owners (fst key) key \<noteq> key \<longleftrightarrow> (\<exists>key'. map_of owners (fst key) = Some key' \<and> key' \<noteq> key)"
    by (auto simp: dget_def split: option.splits)
  also have "\<dots> \<longleftrightarrow> (\<exists>key'. fst key = fst key' \<and> open_burst (l key') \<and> key' \<noteq> key)"
    using assms by (simp add: owners_ok_def)
  also have "\<dots> \<longleftrightarrow> blocked l key"
    unfolding blocked_def by (metis fst_conv prod.collapse snd_conv)
  finally show ?thesis .
qed

lemma region_masks: "region_ok r \<Longrightarrow> byte_masks_of r = Inr (projr (byte_masks_of r)) \<and> 1 \<le> beat_total r \<and> beat_total r \<le> 4"
  using beats_of_masks [of r] unfolding beat_total_def by (metis sum.sel(2))

text \<open>Reception on a slot, as one decision.\<close>

definition slot_after :: "read_slot \<Rightarrow> read_beat \<Rightarrow> read_slot" where
  "slot_after s p = s\<lparr>sl_seen := sl_seen s @ [(gp_offset p, p)], sl_mode := Some (beat_mode p), sl_status := Some (gp_status p),
     sl_completion := if gp_last p then Some (gathered (sl_request s) (slot_beats s @ [p])) else None\<rparr>"

definition owners_after :: "read_collector \<Rightarrow> read_beat \<Rightarrow> (int \<times> (int \<times> int)) list" where
  "owners_after c p = (if beat_mode p = Multi
     then if gp_last p then AList.delete (gp_port p) (rl_multi_owner c)
       else AList.update (gp_port p) (beat_key p) (rl_multi_owner c)
     else rl_multi_owner c)"

lemma receive_slot:
  assumes "collector_ok here capacity ports c" "map_of (rl_slots c) (beat_key p) = Some s"
  shows "collector_receive c p =
    (if read_beat_ok p \<and> sl_sent s \<and> sl_completion s = None \<and> gp_dst p = here \<and> \<not> blocked (collector_abs c) (beat_key p) \<and>
        beat_fits (sl_request s) (slot_beats s) p
     then Inr (c\<lparr>rl_slots := AList.update (beat_key p) (slot_after s p) (rl_slots c), rl_multi_owner := owners_after c p\<rparr>,
       if gp_last p then Some (gathered (sl_request s) (slot_beats s @ [p])) else None)
     else Inl ValueError)"
proof -
  note d = collector_okD [OF assms(1)]
  have sl: "read_slot_ok here ports (beat_key p) s" by (rule d(7) [OF assms(2)])
  let ?r = "sl_request s" and ?bs = "slot_beats s"
  have seen: "sl_seen s = map (\<lambda>p. (gp_offset p, p)) ?bs"
    and mode: "sl_mode s = (if sl_seen s = [] then None else Some (beat_mode (hd ?bs)))"
    and status: "sl_status s = (if sl_seen s = [] then None else Some (gp_status (hd ?bs)))" and r: "region_ok ?r"
    using sl by (auto simp: read_slot_ok_def)
  have key: "collector_key c (gp_port p) (gp_tag p) = Inr (beat_key p)"
    using collector_key_ok [OF assms(1), of "gp_port p" "gp_tag p"] assms(2) by (simp add: beat_key_def)
  have new: "map_of (sl_seen s) k = None \<longleftrightarrow> k \<notin> set (map gp_offset ?bs)" for k
    by (subst seen) (simp add: map_of_eq_None_iff image_image)
  have empty: "sl_seen s = [] \<longleftrightarrow> ?bs = []" by (simp add: slot_beats_def)
  have len: "length (sl_seen s) = length ?bs" by (simp add: slot_beats_def)
  have own: "dget (rl_multi_owner c) (gp_port p) (beat_key p) \<noteq> beat_key p \<longleftrightarrow> blocked (collector_abs c) (beat_key p)"
    using owners_blocked [OF d(6), of "beat_key p"] by (simp add: beat_key_def)
  obtain masks where masks: "byte_masks_of ?r = Inr masks" using region_masks [OF r] by blast
  have total: "beat_total ?r = mk_beats masks" by (simp add: beat_total_def masks)
  have asm: "assemble masks (sl_seen s @ [(gp_offset p, p)]) p = gathered ?r (?bs @ [p])"
    by (simp add: gathered_def seen [symmetric] masks)
  have m: "(if gp_num_beats p = 0 then Single else Multi) = beat_mode p" by (simp add: beat_mode_def)
  show ?thesis
  proof (cases "gp_offset p \<in> set (map gp_offset ?bs)")
    case True
    then show ?thesis
      unfolding collector_receive_def validate_read_beat_cases key rbind_Inr assms(2) option.case masks own new
      by (simp add: rbind_ensure beat_fits_def total)
  next
    case False
    then have up: "AList.update (gp_offset p) p (sl_seen s) = sl_seen s @ [(gp_offset p, p)]" using new by (simp add: update_append)
    show ?thesis
      unfolding collector_receive_def validate_read_beat_cases key rbind_Inr assms(2) option.case masks own new
        up Let_def m mode status empty d(1)
      using False by (auto simp: rbind_ensure beat_fits_def total len slot_after_def owners_after_def asm)
  qed
qed

lemma collector_put:
  assumes "collector_ok here capacity ports c" "read_slot_ok here ports key s'"
    and "map_of (rl_slots c) key \<noteq> None \<or> int (length (rl_slots c)) < capacity"
    and "owners_ok ((collector_abs c)(key := read_life_of (Some s'))) owners'"
  shows "collector_ok here capacity ports (c\<lparr>rl_slots := AList.update key s' (rl_slots c), rl_multi_owner := owners'\<rparr>) \<and>
    collector_abs (c\<lparr>rl_slots := AList.update key s' (rl_slots c), rl_multi_owner := owners'\<rparr>) =
      (collector_abs c)(key := read_life_of (Some s'))"
proof -
  have a: "collector_abs (c\<lparr>rl_slots := AList.update key s' (rl_slots c), rl_multi_owner := owners'\<rparr>) =
      (collector_abs c)(key := read_life_of (Some s'))"
    by (auto simp: collector_abs_def fun_eq_iff update_conv')
  have "length (AList.update key s' (rl_slots c)) = (if map_of (rl_slots c) key = None then Suc (length (rl_slots c)) else length (rl_slots c))"
    by (auto simp: update_length_new update_length_old)
  then have "int (length (AList.update key s' (rl_slots c))) \<le> capacity" using assms(1,3) by (auto simp: collector_ok_def)
  then show ?thesis
    using assms a by (auto simp: collector_ok_def distinct_update intro!: list_all_update)
qed

lemma owners_receive:
  assumes "owners_ok l (rl_multi_owner c)" "l (beat_key p) = Gathering r bs" "\<not> blocked l (beat_key p)" "beat_fits r bs p"
    and "life = (if gp_last p then Assembled r (bs @ [p]) else Gathering r (bs @ [p]))"
  shows "owners_ok (l(beat_key p := life)) (owners_after c p)"
proof -
  have free: "\<not> open_burst (l k)" if "fst k = gp_port p" "k \<noteq> beat_key p" for k
    using assms(3) that unfolding blocked_def beat_key_def by (metis fst_conv prod.collapse snd_conv)
  have new: "open_burst life \<longleftrightarrow> \<not> gp_last p \<and> beat_mode p = Multi"
    using assms(4,5) by (cases bs) (auto simp: beat_fits_def)
  have old: "\<not> open_burst (l (beat_key p))" if "beat_mode p \<noteq> Multi"
    using assms(2,4) that by (cases bs) (auto simp: beat_fits_def)
  have o: "map_of (rl_multi_owner c) q = Some k \<longleftrightarrow> q = fst k \<and> open_burst (l k)" for q k
    using assms(1) unfolding owners_ok_def by blast
  have port: "fst (beat_key p) = gp_port p" by (simp add: beat_key_def)
  show ?thesis
  proof (cases "beat_mode p = Multi")
    case False
    then show ?thesis using o old new by (auto simp: owners_ok_def owners_after_def)
  next
    case multi: True
    show ?thesis
    proof (cases "gp_last p")
      case True
      then show ?thesis using multi o new free port by (auto simp: owners_ok_def owners_after_def delete_conv' beat_key_def)
    next
      case False
      then show ?thesis using multi o new free port by (auto simp: owners_ok_def owners_after_def update_conv' beat_key_def)
    qed
  qed
qed

lemma slot_after_ok:
  assumes "read_slot_ok here ports (beat_key p) s" "sl_sent s" "beat_fits (sl_request s) (slot_beats s) p"
  shows "read_slot_ok here ports (beat_key p) (slot_after s p)"
    and "read_life_of (Some (slot_after s p)) =
      (if gp_last p then Assembled (sl_request s) (slot_beats s @ [p]) else Gathering (sl_request s) (slot_beats s @ [p]))"
proof -
  have b: "slot_beats (slot_after s p) = slot_beats s @ [p]" by (simp add: slot_beats_def slot_after_def)
  have seen: "sl_seen s = map (\<lambda>p. (gp_offset p, p)) (slot_beats s)" using assms(1) by (simp add: read_slot_ok_def)
  have hd: "beat_mode (hd (slot_beats s @ [p])) = beat_mode p" "gp_status (hd (slot_beats s @ [p])) = gp_status p"
    using assms(3) by (cases "slot_beats s"; simp add: beat_fits_def)+
  have len: "length (sl_seen s) = length (slot_beats s)" by (simp add: slot_beats_def)
  show "read_slot_ok here ports (beat_key p) (slot_after s p)"
    using assms b seen hd unfolding read_slot_ok_def b by (auto simp: slot_after_def beat_fits_def len)
  show "read_life_of (Some (slot_after s p)) =
      (if gp_last p then Assembled (sl_request s) (slot_beats s @ [p]) else Gathering (sl_request s) (slot_beats s @ [p]))"
  proof -
    have "sl_sent (slot_after s p)" "sl_request (slot_after s p) = sl_request s"
      "sl_completion (slot_after s p) = None \<longleftrightarrow> \<not> gp_last p" using assms(2) by (simp_all add: slot_after_def)
    then show ?thesis by (simp add: b)
  qed
qed

lemma read_claim_spec:
  assumes "collector_ok here capacity ports c" "collector_step c (Claim r) = Inr (c', out)"
  shows "collector_ok here capacity ports c' \<and> read_spec here capacity ports (collector_abs c) (Claim r) = (collector_abs c', out)"
proof -
  let ?key = "(gq_port r, gq_tag r)"
  note d = collector_okD [OF assms(1)]
  define s where "s = \<lparr>sl_request = r, sl_sent = False, sl_seen = [], sl_status = None, sl_mode = None, sl_completion = None\<rparr>"
  show ?thesis
  proof (cases "region_ok r \<and> gq_port r < ports \<and> gq_src r = here \<and> map_of (rl_slots c) ?key = None \<and> int (length (rl_slots c)) < capacity")
    case True
    have "collector_key c (gq_port r) (gq_tag r) = Inr ?key"
      using True d(3) region_okD(1,2) [of r] by (simp add: collector_key_def check_width_def)
    then have "collector_reserve c r = Inr (c\<lparr>rl_slots := AList.update ?key s (rl_slots c)\<rparr>)"
      unfolding collector_reserve_def using True d(1,2) by (simp add: region_ok_def collector_occupancy_def s_def)
    then have c': "c' = c\<lparr>rl_slots := AList.update ?key s (rl_slots c), rl_multi_owner := rl_multi_owner c\<rparr>" "out = Taken"
      using assms(2) by auto
    have "owners_ok ((collector_abs c)(?key := read_life_of (Some s))) (rl_multi_owner c)"
      using d(6) True by (auto simp: owners_ok_def s_def collector_abs_def)
    moreover have "read_slot_ok here ports ?key s"
      using True region_masks [of r] by (simp add: read_slot_ok_def s_def slot_beats_def)
    ultimately show ?thesis
      using collector_put [OF assms(1), of ?key s "rl_multi_owner c"] True read_busy [OF assms(1)]
      unfolding c' by (simp add: Let_def s_def collector_abs_def [of c "(gq_port r, gq_tag r)"])
  next
    case False
    then obtain e where "collector_reserve c r = Inl e"
      using d(1-3) by (cases "collector_reserve c r")
        (auto simp: collector_reserve_def collector_occupancy_def region_ok_def collector_key_def check_width_def)
    then have "c' = c" "out = Rejected_Event" using assms(2) by simp_all
    then show ?thesis using False assms(1) read_busy [OF assms(1)] by (auto simp: collector_abs_def Let_def)
  qed
qed

lemma read_sent_spec:
  assumes "collector_ok here capacity ports c" "collector_step c (Sent p t) = Inr (c', out)"
  shows "collector_ok here capacity ports c' \<and> read_spec here capacity ports (collector_abs c) (Sent p t) = (collector_abs c', out)"
proof (cases "\<exists>s. map_of (rl_slots c) (p, t) = Some s \<and> \<not> sl_sent s")
  case True
  then obtain s where m: "map_of (rl_slots c) (p, t) = Some s" "\<not> sl_sent s" by blast
  note d = collector_okD [OF assms(1)]
  have sl: "read_slot_ok here ports (p, t) s" by (rule d(7) [OF m(1)])
  let ?s = "s\<lparr>sl_sent := True\<rparr>"
  have c': "c' = c\<lparr>rl_slots := AList.update (p, t) ?s (rl_slots c), rl_multi_owner := rl_multi_owner c\<rparr>" "out = Taken"
    using assms(2) m collector_key_ok [OF assms(1) m(1)] by (auto simp: collector_mark_sent_def)
  have seen: "sl_seen s = []" "slot_beats s = []" using sl m(2) by (simp_all add: read_slot_ok_def slot_beats_def)
  have none: "sl_completion s = None" using sl seen region_masks [of "sl_request s"] by (simp add: read_slot_ok_def)
  have life: "read_life_of (Some ?s) = Gathering (sl_request s) []" using seen none by (simp add: slot_beats_def)
  have "owners_ok ((collector_abs c)((p, t) := read_life_of (Some ?s))) (rl_multi_owner c)"
    using d(6) m unfolding life by (auto simp: owners_ok_def collector_abs_def)
  moreover have "read_slot_ok here ports (p, t) ?s" using sl seen by (simp add: read_slot_ok_def slot_beats_def)
  ultimately show ?thesis
    using collector_put [OF assms(1), of "(p, t)" ?s "rl_multi_owner c"] m
    unfolding c' life by (simp add: collector_abs_def [of c "(p, t)"])
next
  case False
  then obtain e where "collector_mark_sent c p t = Inl e"
    by (cases "collector_mark_sent c p t") (auto simp: collector_mark_sent_def collector_key_def split: option.splits)
  then have "c' = c" "out = Rejected_Event" using assms(2) by simp_all
  then show ?thesis using False assms(1) by (cases "map_of (rl_slots c) (p, t)") (auto simp: collector_abs_def)
qed

lemma read_beat_spec:
  assumes "collector_ok here capacity ports c" "collector_step c (Beat_In p) = Inr (c', out)"
  shows "collector_ok here capacity ports c' \<and> read_spec here capacity ports (collector_abs c) (Beat_In p) = (collector_abs c', out)"
proof (cases "map_of (rl_slots c) (beat_key p)")
  case None
  then obtain e where "collector_receive c p = Inl e"
    by (cases "collector_receive c p") (auto simp: collector_receive_def collector_key_def beat_key_def)
  then have "c' = c" "out = Rejected_Event" using assms(2) by simp_all
  then show ?thesis using None assms(1) by (simp add: collector_abs_def)
next
  case (Some s)
  note rec = receive_slot [OF assms(1) Some] and d = collector_okD [OF assms(1)]
  have sl: "read_slot_ok here ports (beat_key p) s" by (rule d(7) [OF Some])
  have life: "collector_abs c (beat_key p) = read_life_of (Some s)" by (simp add: collector_abs_def Some)
  show ?thesis
  proof (cases "read_beat_ok p \<and> sl_sent s \<and> sl_completion s = None \<and> gp_dst p = here \<and> \<not> blocked (collector_abs c) (beat_key p) \<and>
        beat_fits (sl_request s) (slot_beats s) p")
    case False
    then have "collector_receive c p = Inl ValueError" unfolding rec by (rule if_not_P)
    then have "c' = c" "out = Rejected_Event" using assms(2) by simp_all
    then show ?thesis using False assms(1) life by (auto simp del: not_None_eq)
  next
    case True
    have c': "c' = c\<lparr>rl_slots := AList.update (beat_key p) (slot_after s p) (rl_slots c), rl_multi_owner := owners_after c p\<rparr>"
      "out = (if gp_last p then Gathered (gathered (sl_request s) (slot_beats s @ [p])) else Taken)"
      using assms(2) unfolding collector_step.simps rec if_P [OF True] by (auto split: if_splits)
    have fits: "beat_fits (sl_request s) (slot_beats s) p" using True by blast
    note after = slot_after_ok [OF sl _ fits]
    have g: "collector_abs c (beat_key p) = Gathering (sl_request s) (slot_beats s)" using life True by simp
    have "owners_ok ((collector_abs c)(beat_key p := read_life_of (Some (slot_after s p)))) (owners_after c p)"
      by (rule owners_receive [OF d(6) g _ fits]) (use True after(2) in auto)
    then show ?thesis
      using collector_put [OF assms(1) after(1)] Some True after(2) g unfolding c' by (simp del: read_life_of.simps)
  qed
qed

lemma read_collect_spec:
  assumes "collector_ok here capacity ports c" "collector_step c (Collect p t) = Inr (c', out)"
  shows "collector_ok here capacity ports c' \<and> read_spec here capacity ports (collector_abs c) (Collect p t) = (collector_abs c', out)"
proof (cases "\<exists>s x. map_of (rl_slots c) (p, t) = Some s \<and> sl_completion s = Some x")
  case True
  then obtain s x where m: "map_of (rl_slots c) (p, t) = Some s" "sl_completion s = Some x" by blast
  note d = collector_okD [OF assms(1)]
  have sl: "read_slot_ok here ports (p, t) s" by (rule d(7) [OF m(1)])
  have x: "x = gathered (sl_request s) (slot_beats s)" using sl m(2) by (auto simp: read_slot_ok_def split: if_splits)
  have sent: "sl_sent s" using sl m(2) region_masks [of "sl_request s"] by (auto simp: read_slot_ok_def split: if_splits)
  have c': "c' = c\<lparr>rl_slots := AList.delete (p, t) (rl_slots c)\<rparr>" "out = Collected x"
    using assms(2) m collector_key_ok [OF assms(1) m(1)] by (auto simp: collector_retire_def collector_peek_def)
  have a: "collector_abs c' = (collector_abs c)((p, t) := Vacant)" by (auto simp: c' collector_abs_def fun_eq_iff delete_conv')
  have life: "collector_abs c (p, t) = Assembled (sl_request s) (slot_beats s)" using m sent by (simp add: collector_abs_def)
  have "owners_ok (collector_abs c') (rl_multi_owner c)" using d(6) life unfolding a by (auto simp: owners_ok_def)
  moreover have "int (length (AList.delete (p, t) (rl_slots c))) \<le> capacity"
    using d(5) length_delete_key [of "(p, t)" "rl_slots c"] by linarith
  ultimately have "collector_ok here capacity ports c'"
    using assms(1) by (auto simp: collector_ok_def c' distinct_delete list_all_delete)
  then show ?thesis using a life c' x by simp
next
  case False
  then obtain e where "collector_retire c p t = Inl e"
    by (cases "collector_retire c p t") (auto simp: collector_retire_def collector_peek_def collector_key_def split: option.splits)
  then have "c' = c" "out = Rejected_Event" using assms(2) by simp_all
  then show ?thesis using False assms(1) by (cases "map_of (rl_slots c) (p, t)") (auto simp: collector_abs_def)
qed

lemma read_clear_spec:
  assumes "collector_ok here capacity ports c" "collector_step c Clear = Inr (c', out)"
  shows "collector_ok here capacity ports c' \<and> read_spec here capacity ports (collector_abs c) Clear = (collector_abs c', out)"
  using assms by (auto simp: collector_reset_def collector_ok_def collector_abs_def owners_ok_def fun_eq_iff)

lemma collector_step_spec:
  "collector_ok here capacity ports c \<Longrightarrow> collector_step c e = Inr (c', out) \<Longrightarrow>
     collector_ok here capacity ports c' \<and> read_spec here capacity ports (collector_abs c) e = (collector_abs c', out)"
  by (cases e) (blast dest: read_claim_spec read_sent_spec read_beat_spec read_collect_spec read_clear_spec)+

interpretation collector: refines collector_step "collector_ok here capacity ports" collector_abs "read_spec here capacity ports"
  for here capacity ports
  by unfold_locales (blast dest: collector_step_spec)+

lemma some_pair: "\<exists>a b. Inr x = Inr (a, b)"
  by (cases x) simp

interpretation collector_total: total_machine collector_step "collector_ok here capacity ports" "\<lambda>_ _. True"
  for here capacity ports
proof unfold_locales
  fix c i
  show "\<exists>s' out. collector_step c i = Inr (s', out)"
    by (cases i) (simp_all only: collector_step.simps some_pair)
qed

lemma collector_new_ok:
  "collector_new here capacity ports = Inr c \<Longrightarrow> collector_ok here capacity ports c \<and> collector_abs c = (\<lambda>_. Vacant)"
proof -
  assume "collector_new here capacity ports = Inr c"
  then have c: "c = \<lparr>rl_local = here, rl_capacity = capacity, rl_ports = ports, rl_slots = [], rl_multi_owner = []\<rparr>" "1 \<le> capacity"
    by (auto simp: collector_new_def)
  have "collector_abs c = (\<lambda>_. Vacant)" by (simp add: collector_abs_def fun_eq_iff c)
  then show ?thesis using c(2) by (simp add: collector_ok_def owners_ok_def c(1))
qed

end
