(* ===== verification/Endpoint_Transfer.thy ===== *)
theory Endpoint_Transfer
  imports Endpoint_Collector
begin

section \<open>Reading back what was written\<close>

text \<open>
  The octets of a completion: an assembled read returns, address by address, the octets of its beats where the byte
  enables are set. Then the endpoints together: a region read through the collector, the codecs and the memory,
  and a write followed by a read of the same memory.
\<close>

subsection \<open>The data of an assembled read\<close>

definition beats_legal :: "region_read \<Rightarrow> read_beat list \<Rightarrow> bool" where
  "beats_legal r bs \<longleftrightarrow> list_all read_beat_ok bs \<and> distinct (map gp_offset bs) \<and> list_all (\<lambda>p. gp_offset p < beat_total r) bs"

lemma masked_bytes_sum: "masked_bytes valid raw n = (\<Sum>i<n. push_bit (8 * i) (if bit valid i then fld raw (8 * i) 8 else 0))"
proof -
  have "(\<lambda>i. if bit valid i then push_bit (8 * i) (fld raw (8 * i) 8) else 0) =
      (\<lambda>i. push_bit (8 * i) (if bit valid i then fld raw (8 * i) 8 else 0))" by auto
  then show ?thesis
    unfolding masked_bytes_def bit_iff_and_push_bit_not_eq_0 [symmetric] sum_list_filter sum_list_upt by (rule arg_cong)
qed

lemma masked_bytes_fld: "fld (masked_bytes valid raw n) (8 * k) 8 = (if k < n \<and> bit valid k then fld raw (8 * k) 8 else 0)"
  using digit_sum [of n 8 "\<lambda>i. if bit valid i then fld raw (8 * i) 8 else 0"] by (simp add: masked_bytes_sum)

text \<open>Complete beats carry each offset once, in any order of arrival.\<close>

lemma complete_offsets:
  assumes "beats_legal r bs" "int (length bs) = beat_total r"
  shows "bij_betw (\<lambda>p. nat (gp_offset p)) (set bs) {..<length bs}"
proof -
  have inj: "inj_on (\<lambda>p. nat (gp_offset p)) (set bs)"
  proof (rule inj_onI)
    fix p q assume pq: "p \<in> set bs" "q \<in> set bs" "nat (gp_offset p) = nat (gp_offset q)"
    then have "0 \<le> gp_offset p" "0 \<le> gp_offset q"
      using assms(1) read_beat_okD(7) [of p] read_beat_okD(7) [of q] by (auto simp: beats_legal_def list_all_iff fits_def)
    then have "gp_offset p = gp_offset q" using pq(3) by simp
    then show "p = q" using assms(1) pq by (simp add: beats_legal_def distinct_map inj_on_def)
  qed
  have sub: "(\<lambda>p. nat (gp_offset p)) ` set bs \<subseteq> {..<length bs}"
    using assms by (auto simp: beats_legal_def list_all_iff) (use read_beat_okD(7) in \<open>fastforce simp: fits_def\<close>)
  have "card ((\<lambda>p. nat (gp_offset p)) ` set bs) = length bs"
    using assms(1) card_image [OF inj] by (simp add: beats_legal_def distinct_map distinct_card)
  then have "(\<lambda>p. nat (gp_offset p)) ` set bs = {..<length bs}" using sub by (intro card_subset_eq) simp_all
  with inj show ?thesis by (simp add: bij_betw_def)
qed

lemma beats_raw_fld:
  assumes "beats_legal r bs" "int (length bs) = beat_total r" "p \<in> set bs"
  shows "fld (beats_raw (map (\<lambda>p. (gp_offset p, p)) bs)) (512 * nat (gp_offset p)) 512 = gp_data p"
proof -
  note bij = complete_offsets [OF assms(1,2)]
  define at where "at = (\<lambda>k. gp_data (inv_into (set bs) (\<lambda>p. nat (gp_offset p)) k))"
  have at: "at (nat (gp_offset q)) = gp_data q" if "q \<in> set bs" for q
    using inv_into_f_f [OF bij_betw_imp_inj_on [OF bij] that] by (simp add: at_def)
  have pos: "0 \<le> gp_offset q" "fits 512 (gp_data q)" if "q \<in> set bs" for q
    using assms(1) that read_beat_okD(5,7) [of q] by (auto simp: beats_legal_def list_all_iff fits_def)
  have "beats_raw (map (\<lambda>p. (gp_offset p, p)) bs) = sum_list (map (\<lambda>q. push_bit (512 * nat (gp_offset q)) (at (nat (gp_offset q)))) bs)"
    unfolding beats_raw_def map_map
    by (rule arg_cong [of _ _ sum_list]) (use at pos in \<open>auto simp: nat_mult_distrib\<close>)
  also have "\<dots> = (\<Sum>q\<in>set bs. push_bit (512 * nat (gp_offset q)) (at (nat (gp_offset q))))"
    using assms(1) by (intro sum_list_distinct_conv_sum_set) (simp add: beats_legal_def distinct_map)
  also have "\<dots> = (\<Sum>k<length bs. push_bit (512 * k) (at k))"
    by (rule sum.reindex_bij_betw [OF bij])
  finally have eq: "beats_raw (map (\<lambda>p. (gp_offset p, p)) bs) = (\<Sum>k<length bs. push_bit (512 * k) (at k))" .
  have "fits 512 (at k)" if "k < length bs" for k
  proof -
    have "k \<in> (\<lambda>p. nat (gp_offset p)) ` set bs" using bij_betw_imp_surj_on [OF bij] that by simp
    then obtain q where "q \<in> set bs" "k = nat (gp_offset q)" by blast
    then show ?thesis using at pos by simp
  qed
  moreover have "nat (gp_offset p) < length bs" using bij assms(3) unfolding bij_betw_def by blast
  ultimately show ?thesis
    using digit_sum [of "length bs" 512 at] at [OF assms(3)] by (simp add: eq)
qed

lemma no_poison: "list_all (\<lambda>p. \<not> gp_data_error p) bs \<Longrightarrow> beats_poison (map (\<lambda>p. (gp_offset p, p)) bs) = 0"
  by (induction bs) (simp_all add: beats_poison_def)

lemma some_poison:
  assumes "p \<in> set bs" "gp_data_error p"
  shows "beats_poison (map (\<lambda>p. (gp_offset p, p)) bs) \<noteq> 0"
proof -
  have nonneg: "0 \<le> beats_poison (map (\<lambda>p. (gp_offset p, p)) xs)" for xs
    by (induction xs) (auto simp: beats_poison_def push_bit_eq_mult)
  have "0 < beats_poison (map (\<lambda>p. (gp_offset p, p)) bs)"
    using assms
  proof (induction bs)
    case (Cons q bs)
    have "beats_poison (map (\<lambda>p. (gp_offset p, p)) (q # bs)) =
        (if gp_data_error q then 2 ^ nat (gp_offset q) else 0) + beats_poison (map (\<lambda>p. (gp_offset p, p)) bs)"
      by (simp add: beats_poison_def push_bit_eq_mult)
    then show ?case using Cons nonneg [of bs] by (auto intro: add_pos_nonneg)
  qed simp
  then show ?thesis by simp
qed

text \<open>Octet by octet, wherever the beat of that octet arrived.\<close>

lemma gathered_octets:
  assumes "region_ok r" "beats_legal r bs" "int (length bs) = beat_total r" "bs \<noteq> []"
    and "p \<in> set bs" "lane < 64"
  shows "fld (co_data (gathered r bs)) (8 * (64 * nat (gp_offset p) + lane)) 8 =
    (if gp_status (last bs) = 0 \<and> list_all (\<lambda>p. \<not> gp_data_error p) bs \<and>
        read_enabled r (64 * (gq_address r div 64 + gp_offset p) + int lane)
     then fld (gp_data p) (8 * lane) 8 else 0)"
proof -
  obtain masks where m: "byte_masks_of r = Inr masks"
    "\<And>k. bit (mk_relative masks) k \<longleftrightarrow> read_enabled r (64 * (gq_address r div 64) + int k)"
    using beats_of_masks [OF assms(1)] by metis
  have n: "mk_beats masks = int (length bs)" using assms(3) m(1) by (simp add: beat_total_def)
  let ?k = "64 * nat (gp_offset p) + lane" and ?raw = "beats_raw (map (\<lambda>p. (gp_offset p, p)) bs)"
  have off: "0 \<le> gp_offset p" "gp_offset p < int (length bs)"
    using assms(2,3,5) read_beat_okD(7) [of p] by (auto simp: beats_legal_def list_all_iff fits_def)
  then have k: "?k < nat (64 * mk_beats masks)" using assms(6) by (simp add: n nat_mult_distrib)
  have pos: "512 * nat (gp_offset p) + 8 * lane = 8 * ?k" by simp
  have raw: "fld ?raw (8 * ?k) 8 = fld (gp_data p) (8 * lane) 8"
    using fld_fld [of "8 * lane" 8 512 ?raw "512 * nat (gp_offset p)", unfolded beats_raw_fld [OF assms(2,3,5)] pos] assms(6)
    by simp
  have poison: "beats_poison (map (\<lambda>p. (gp_offset p, p)) bs) = 0 \<longleftrightarrow> list_all (\<lambda>p. \<not> gp_data_error p) bs"
    using no_poison [of bs] some_poison [of _ bs] by (auto simp: list_all_iff)
  have a: "64 * (gq_address r div 64) + int ?k = 64 * (gq_address r div 64 + gp_offset p) + int lane" using off by simp
  show ?thesis
    using k raw m(2) [of ?k] unfolding gathered_def assemble_def m(1) sum.sel Let_def a beats_completion.simps masked_bytes_fld poison
    by simp
qed

subsection \<open>A region read from reservation to retirement\<close>

definition beat_arrives :: "read_collector \<Rightarrow> read_beat \<Rightarrow> py_error + read_collector" where
  "beat_arrives c p =
     rbind (encode_read_beat p) (\<lambda>w.
     rbind (decode_beats w (gp_port p) [gp_data p] None) (\<lambda>ps.
       rfold (\<lambda>c p. rbind (collector_receive c p) (\<lambda>(c, _). Inr c)) c ps))"

definition whole_region_read ::
  "read_collector \<Rightarrow> region_read \<Rightarrow> read_memory \<Rightarrow> int \<Rightarrow> int \<Rightarrow> py_error + read_collector \<times> beats_completion" where
  "whole_region_read c r m status error_pattern =
     rbind (collector_reserve c r) (\<lambda>c.
     rbind (encode_region_read r) (\<lambda>w.
     rbind (collector_mark_sent c (gq_port r) (gq_tag r)) (\<lambda>c.
     rbind (decode_region_read w (gq_port r)) (\<lambda>r'.
     rbind (memory_beats r' m status error_pattern) (\<lambda>u.
     rbind (rfold beat_arrives c (ru_responses u)) (\<lambda>c.
       collector_retire c (gq_port r) (gq_tag r)))))))"

text \<open>What the specification accepts, the operation accepts.\<close>

lemma reserve_taken:
  assumes "collector_ok here capacity ports c" "read_spec here capacity ports (collector_abs c) (Claim r) = (l', Taken)"
  obtains c' where "collector_reserve c r = Inr c'" "collector_ok here capacity ports c'" "collector_abs c' = l'"
proof (cases "collector_reserve c r")
  case (Inl e)
  then show thesis using collector_step_spec [OF assms(1), of "Claim r" c Rejected_Event] assms(2) by simp
next
  case (Inr c')
  then show thesis using collector_step_spec [OF assms(1), of "Claim r" c' Taken] assms(2) that by simp
qed

lemma sent_taken:
  assumes "collector_ok here capacity ports c" "read_spec here capacity ports (collector_abs c) (Sent p t) = (l', Taken)"
  obtains c' where "collector_mark_sent c p t = Inr c'" "collector_ok here capacity ports c'" "collector_abs c' = l'"
proof (cases "collector_mark_sent c p t")
  case (Inl e)
  then show thesis using collector_step_spec [OF assms(1), of "Sent p t" c Rejected_Event] assms(2) by simp
next
  case (Inr c')
  then show thesis using collector_step_spec [OF assms(1), of "Sent p t" c' Taken] assms(2) that by simp
qed

lemma beat_taken:
  assumes "collector_ok here capacity ports c" "read_spec here capacity ports (collector_abs c) (Beat_In p) = (l', out)"
    and "out \<noteq> Rejected_Event"
  obtains c' x where "collector_receive c p = Inr (c', x)" "collector_ok here capacity ports c'" "collector_abs c' = l'"
proof (cases "collector_receive c p")
  case (Inl e)
  then show thesis using collector_step_spec [OF assms(1), of "Beat_In p" c Rejected_Event] assms(2,3) by simp
next
  case (Inr cx)
  obtain c' x where cx: "cx = (c', x)" by (cases cx)
  have "collector_step c (Beat_In p) = Inr (c', case x of None \<Rightarrow> Taken | Some y \<Rightarrow> Gathered y)"
    using Inr by (cases x) (simp_all add: cx)
  then show thesis using collector_step_spec [OF assms(1)] assms(2) that Inr unfolding cx by (metis prod.inject)
qed

lemma collect_taken:
  assumes "collector_ok here capacity ports c" "read_spec here capacity ports (collector_abs c) (Collect p t) = (l', Collected x)"
  obtains c' where "collector_retire c p t = Inr (c', x)" "collector_ok here capacity ports c'" "collector_abs c' = l'"
proof (cases "collector_retire c p t")
  case (Inl e)
  then show thesis using collector_step_spec [OF assms(1), of "Collect p t" c Rejected_Event] assms(2) by simp
next
  case (Inr cx)
  obtain c' y where cx: "cx = (c', y)" by (cases cx)
  have "collector_step c (Collect p t) = Inr (c', Collected y)" using Inr by (simp add: cx)
  then show thesis using collector_step_spec [OF assms(1)] assms(2) that Inr unfolding cx by fastforce
qed

lemma blocked_update [simp]: "blocked (l(key := x)) key \<longleftrightarrow> blocked l key"
proof -
  have "(l(key := x)) (fst key, tag) = l (fst key, tag)" if "tag \<noteq> snd key" for tag
    using that by (metis fun_upd_apply snd_conv)
  then show ?thesis unfolding blocked_def by metis
qed

lemma read_outcome_status: "status \<in> set read_statuses \<Longrightarrow> read_outcome r m status \<in> set read_statuses"
  by (auto simp: read_outcome_def read_statuses_def)

lemma beat_of_ok:
  assumes "region_ok r" "read_memory_ok m" "status \<in> set read_statuses" "fits 8 e" "k < 4"
  shows "read_beat_ok (beat_of r m status e n k)"
proof -
  note d = region_okD [OF assms(1)]
  let ?xs = "map (\<lambda>lane. read_lane m status e (64 * (gq_address r div 64 + int k) + int lane)) [0..<64]"
  have "bytes_ok ?xs" using read_lane_byte [OF assms(2,4)] by (auto simp: bytes_ok_def list_all_iff)
  then have "fits 512 (little_endian ?xs)" using little_endian_range [of ?xs] by simp
  moreover have "fits 2 (int k)" "fits 4 status" using assms(3,5) by (auto simp: fits_def read_statuses_def)
  ultimately show ?thesis
    using d assms(3) by (simp add: read_beat_ok_def validate_read_beat_def check_widths_def beat_of_def)
qed

lemma beat_of_octet:
  assumes "read_memory_ok m" "fits 8 e" "lane < 64"
  shows "fld (gp_data (beat_of r m status e n k)) (8 * lane) 8 =
    read_lane m status e (64 * (gq_address r div 64 + int k) + int lane)"
proof -
  let ?xs = "map (\<lambda>lane. read_lane m status e (64 * (gq_address r div 64 + int k) + int lane)) [0..<64]"
  have "bytes_ok ?xs" using read_lane_byte [OF assms(1,2)] by (auto simp: bytes_ok_def list_all_iff)
  then have "fld (little_endian ?xs) (8 * lane) 8 = ?xs ! lane" by (rule little_endian_byte) (use assms(3) in simp)
  then show ?thesis using assms(3) by (simp add: beat_of_def)
qed

lemma beat_arrives_ok:
  assumes "collector_ok here capacity ports c" "read_spec here capacity ports (collector_abs c) (Beat_In p) = (l', out)"
    and "out \<noteq> Rejected_Event" "read_beat_ok p" "gp_num_beats p = 0" "\<not> gp_data_error p"
  obtains c' where "beat_arrives c p = Inr c'" "collector_ok here capacity ports c'" "collector_abs c' = l'"
proof -
  obtain w where "encode_read_beat p = Inr w" "decode_beats w (gp_port p) [gp_data p] None = Inr [p]"
    using decode_encode_beat [OF assms(4,5)] assms(6) by blast
  moreover obtain c' x where "collector_receive c p = Inr (c', x)" "collector_ok here capacity ports c'" "collector_abs c' = l'"
    by (rule beat_taken [OF assms(1-3)])
  ultimately show thesis using that by (simp add: beat_arrives_def)
qed

text \<open>The beats of a memory arrive one after the other.\<close>

lemma beats_arrive:
  assumes "collector_ok here capacity ports c" "collector_abs c (gq_port r, gq_tag r) = Gathering r []"
    and "\<not> blocked (collector_abs c) (gq_port r, gq_tag r)" "region_ok r" "gq_src r = here"
    and "read_memory_ok m" "status \<in> set read_statuses" "fits 8 e" "k \<le> nat (beat_total r)"
  shows "\<exists>c'. rfold beat_arrives c (map (beat_of r m status e (beat_total r)) [0..<k]) = Inr c' \<and>
    collector_ok here capacity ports c' \<and>
    collector_abs c' = (collector_abs c)((gq_port r, gq_tag r) :=
      (if k = nat (beat_total r) then Assembled r (map (beat_of r m status e (beat_total r)) [0..<k])
       else Gathering r (map (beat_of r m status e (beat_total r)) [0..<k])))"
  using assms(9)
proof (induction k)
  case 0
  then show ?case using assms(1,2) region_masks [OF assms(4)] by auto
next
  case (Suc k)
  let ?key = "(gq_port r, gq_tag r)" and ?beat = "beat_of r m status e (beat_total r)"
  note n = region_masks [OF assms(4)]
  have ne: "k \<noteq> nat (beat_total r)" using Suc.prems by simp
  obtain c1 where c1: "rfold beat_arrives c (map ?beat [0..<k]) = Inr c1" "collector_ok here capacity ports c1"
    "collector_abs c1 = (collector_abs c)(?key := Gathering r (map ?beat [0..<k]))"
    using Suc.IH [OF Suc_leD [OF Suc.prems]] unfolding if_not_P [OF ne] by blast
  have key: "beat_key (?beat k) = ?key" by (simp add: beat_key_def beat_of_def)
  have ok: "read_beat_ok (?beat k)" by (rule beat_of_ok [OF assms(4,6,7,8)]) (use Suc.prems n in linarith)
  have fits: "beat_fits r (map ?beat [0..<k]) (?beat k)"
    using Suc.prems n by (auto simp: beat_fits_def beat_of_def beat_mode_def hd_map simp del: upt_Suc)
  have last: "gp_last (?beat k) \<longleftrightarrow> Suc k = nat (beat_total r)" using n by (auto simp: beat_of_def)
  have dst: "gp_dst (?beat k) = here" by (simp add: beat_of_def assms(5))
  define l' where "l' = (collector_abs c)(?key := (if Suc k = nat (beat_total r) then Assembled r (map ?beat [0..<Suc k])
      else Gathering r (map ?beat [0..<Suc k])))"
  have app: "map ?beat [0..<Suc k] = map ?beat [0..<k] @ [?beat k]" by simp
  have spec: "\<exists>out. read_spec here capacity ports (collector_abs c1) (Beat_In (?beat k)) = (l', out) \<and> out \<noteq> Rejected_Event"
  proof (cases "gp_last (?beat k)")
    case True
    then have l: "l' = (collector_abs c)(?key := Assembled r (map ?beat [0..<k] @ [?beat k]))"
      unfolding l'_def app if_P [OF last [THEN iffD1, OF True]] by simp
    show ?thesis using ok dst fits assms(3) True by (simp add: c1(3) key l)
  next
    case False
    then have l: "l' = (collector_abs c)(?key := Gathering r (map ?beat [0..<k] @ [?beat k]))"
      unfolding l'_def app using last False by (simp only: if_False)
    show ?thesis using ok dst fits assms(3) False by (simp add: c1(3) key l)
  qed
  obtain out where o: "read_spec here capacity ports (collector_abs c1) (Beat_In (?beat k)) = (l', out)"
    "out \<noteq> Rejected_Event" using spec by blast
  obtain c2 where c2: "beat_arrives c1 (?beat k) = Inr c2" "collector_ok here capacity ports c2" "collector_abs c2 = l'"
    by (rule beat_arrives_ok [OF c1(2) o ok]) (simp_all add: beat_of_def)
  have "rfold beat_arrives c (map ?beat [0..<Suc k]) = Inr c2" unfolding app rfold_append c1(1) by (simp add: c2(1))
  then show ?case using c2(2,3) unfolding l'_def by blast
qed

lemma whole_region_read_ok:
  assumes "collector_ok here capacity ports c" "collector_abs c (gq_port r, gq_tag r) = Vacant"
    and "\<not> blocked (collector_abs c) (gq_port r, gq_tag r)" "int (length (rl_slots c)) < capacity"
    and "region_ok r" "gq_src r = here" "gq_port r < ports" "read_memory_ok m" "status \<in> set read_statuses" "fits 8 e"
  obtains c' where "whole_region_read c r m status e =
      Inr (c', gathered r (map (beat_of r m (read_outcome r m status) e (beat_total r)) [0..<nat (beat_total r)]))"
    "collector_ok here capacity ports c'" "collector_abs c' = collector_abs c"
proof -
  let ?key = "(gq_port r, gq_tag r)" and ?st = "read_outcome r m status"
  let ?bs = "map (beat_of r m ?st e (beat_total r)) [0..<nat (beat_total r)]"
  obtain masks where masks: "byte_masks_of r = Inr masks" using region_masks [OF assms(5)] by blast
  have total: "mk_beats masks = beat_total r" by (simp add: beat_total_def masks)
  obtain w where w: "encode_region_read r = Inr w" "decode_region_read w (gq_port r) = Inr r"
    using decode_encode_region [OF assms(5)] by blast
  have "read_spec here capacity ports (collector_abs c) (Claim r) = ((collector_abs c)(?key := Waiting r), Taken)"
    using assms read_busy [OF assms(1)] by (simp add: Let_def)
  then obtain c1 where c1: "collector_reserve c r = Inr c1" "collector_ok here capacity ports c1"
    "collector_abs c1 = (collector_abs c)(?key := Waiting r)" by (rule reserve_taken [OF assms(1)])
  have "read_spec here capacity ports (collector_abs c1) (Sent (gq_port r) (gq_tag r)) = ((collector_abs c)(?key := Gathering r []), Taken)"
    by (simp add: c1(3))
  then obtain c2 where c2: "collector_mark_sent c1 (gq_port r) (gq_tag r) = Inr c2" "collector_ok here capacity ports c2"
    "collector_abs c2 = (collector_abs c)(?key := Gathering r [])" by (rule sent_taken [OF c1(2)])
  obtain c3 where c3: "rfold beat_arrives c2 ?bs = Inr c3" "collector_ok here capacity ports c3"
    "collector_abs c3 = (collector_abs c)(?key := Assembled r ?bs)"
    using beats_arrive [OF c2(2) _ _ assms(5,6,8) read_outcome_status [OF assms(9)] assms(10) order_refl] assms(3) c2(3) by auto
  have "read_spec here capacity ports (collector_abs c3) (Collect (gq_port r) (gq_tag r)) = (collector_abs c, Collected (gathered r ?bs))"
    using assms(2) by (auto simp: c3(3))
  then obtain c4 where c4: "collector_retire c3 (gq_port r) (gq_tag r) = Inr (c4, gathered r ?bs)" "collector_ok here capacity ports c4"
    "collector_abs c4 = collector_abs c" by (rule collect_taken [OF c3(2)])
  have "whole_region_read c r m status e = Inr (c4, gathered r ?bs)"
    by (simp add: whole_region_read_def c1 w c2 memory_beats_effect [OF assms(5,8,9,10) masks] total c3 c4)
  then show thesis using c4 that by blast
qed

subsection \<open>A write, then a read of the same memory\<close>

definition read_view :: "write_memory \<Rightarrow> read_memory" where
  "read_view m = \<lparr>rm_data = wm_data m, rm_base = wm_base m, rm_executions = 0\<rparr>"

definition octet_at :: "write_memory \<Rightarrow> int \<Rightarrow> int" where
  "octet_at m a = wm_data m ! nat (a - wm_base m)"

lemma read_view_ok: "write_memory_ok m \<Longrightarrow> read_memory_ok (read_view m)"
  by (simp add: write_memory_ok_def read_memory_ok_def read_view_def)

lemma read_enabled_range: "read_enabled r a \<Longrightarrow> gq_address r \<le> a \<and> a < gq_address r + 4 * (gq_length r + 1)"
proof -
  assume "read_enabled r a"
  then have "0 \<le> a - gq_address r" "(a - gq_address r) div 4 \<le> gq_length r" by (simp_all add: read_enabled_def Let_def)
  moreover have "(a - gq_address r) mod 4 < 4" by simp
  ultimately have "gq_address r \<le> a" "a - gq_address r \<le> gq_length r * 4 + 3"
    using div_mult_mod_eq [of "a - gq_address r" 4] by linarith+
  then show ?thesis by simp
qed

lemma memory_beats_legal:
  assumes "region_ok r" "read_memory_ok m" "status \<in> set read_statuses" "fits 8 e"
  shows "beats_legal r (map (beat_of r m status e (beat_total r)) [0..<nat (beat_total r)])"
proof -
  note n = region_masks [OF assms(1)]
  have "read_beat_ok (beat_of r m status e (beat_total r) k)" if "k < nat (beat_total r)" for k
    by (rule beat_of_ok [OF assms]) (use that n in linarith)
  then show ?thesis by (auto simp: beats_legal_def list_all_iff distinct_map inj_on_def beat_of_def)
qed

lemma region_octets:
  assumes "region_ok r" "read_memory_ok m" "status \<in> set read_statuses" "fits 8 e" "b < 64 * nat (beat_total r)"
  shows "fld (co_data (gathered r (map (beat_of r m status e (beat_total r)) [0..<nat (beat_total r)]))) (8 * b) 8 =
    (let a = 64 * (gq_address r div 64) + int b in if status = 0 \<and> read_enabled r a then read_lane m status e a else 0)"
proof -
  let ?bs = "map (beat_of r m status e (beat_total r)) [0..<nat (beat_total r)]"
  define k where "k = b div 64"
  define lane where "lane = b mod 64"
  have b: "b = 64 * k + lane" "lane < 64" "k < nat (beat_total r)" using assms(5) by (auto simp: k_def lane_def)
  note n = region_masks [OF assms(1)]
  have ne: "?bs \<noteq> []" "beat_of r m status e (beat_total r) k \<in> set ?bs" "int (length ?bs) = beat_total r" using n b(3) by auto
  have st: "gp_status (last ?bs) = status" using ne(1) by (simp add: last_map beat_of_def)
  have clean: "list_all (\<lambda>p. \<not> gp_data_error p) ?bs" by (simp add: list_all_iff beat_of_def)
  have off: "gp_offset (beat_of r m status e (beat_total r) k) = int k" by (simp add: beat_of_def)
  note g = gathered_octets [OF assms(1) memory_beats_legal [OF assms(1-4)] ne(3,1,2) b(2), unfolded off st nat_int]
  have a: "64 * (gq_address r div 64 + int k) + int lane = 64 * (gq_address r div 64) + int b" by (simp add: b(1))
  note octet = beat_of_octet [OF assms(2,4) b(2), of r status "beat_total r" k, unfolded a]
  show ?thesis
    using g unfolding a b(1) [symmetric] octet Let_def by (simp only: clean simp_thms)
qed

lemma write_then_read_octets:
  assumes "write_ok w" "write_memory_ok m" "write_inside w m"
    and "collector_ok here capacity ports c" "collector_abs c (gq_port r, gq_tag r) = Vacant"
    and "\<not> blocked (collector_abs c) (gq_port r, gq_tag r)" "int (length (rl_slots c)) < capacity"
    and "region_ok r" "gq_src r = here" "gq_port r < ports" "read_inside r (read_view m)" "fits 8 e"
  shows "\<exists>u c' x. memory_write w m 0 = Inr u \<and> whole_region_read c r (read_view (wr_memory u)) 0 e = Inr (c', x) \<and>
    collector_abs c' = collector_abs c \<and>
    (\<forall>b < 64 * nat (beat_total r). fld (co_data x) (8 * b) 8 =
      (let a = 64 * (gq_address r div 64) + int b in
       if \<not> read_enabled r a then 0 else if write_enabled w a then write_byte w a else octet_at m a))"
proof -
  let ?m = "write_effect w m 0" and ?v = "read_view (write_effect w m 0)"
  have u: "memory_write w m 0 = Inr \<lparr>wr_memory = ?m, wr_response = write_answer w m 0\<rparr>"
    by (rule memory_write_effect [OF assms(1,2)]) (simp add: write_statuses_def)
  have data: "wm_data ?m = written w m" "wm_base ?m = wm_base m" using assms(3) by (simp_all add: write_effect_def write_outcome_def)
  have v: "read_memory_ok ?v" by (rule read_view_ok [OF write_effect_ok [OF assms(2)]])
  have inside: "read_inside r ?v" using assms(11) by (simp add: read_inside_def read_view_def data)
  have zero: "(0 :: int) \<in> set read_statuses" by (simp add: read_statuses_def)
  have o: "read_outcome r ?v 0 = 0" using inside by (simp add: read_outcome_def)
  obtain c' where c': "whole_region_read c r ?v 0 e =
      Inr (c', gathered r (map (beat_of r ?v 0 e (beat_total r)) [0..<nat (beat_total r)]))" "collector_abs c' = collector_abs c"
    using whole_region_read_ok [OF assms(4-10) v zero assms(12)] unfolding o by blast
  have lane: "read_lane ?v 0 e a = (if write_enabled w a then write_byte w a else octet_at m a)" if "read_enabled r a" for a
  proof -
    have "wm_base m \<le> a" "a < wm_base m + int (length (wm_data m))"
      using read_enabled_range [OF that] assms(11) by (simp_all add: read_inside_def read_view_def)
    then show ?thesis by (auto simp: read_lane_def read_view_def data written_def octet_at_def Let_def nat_less_iff)
  qed
  have "fld (co_data (gathered r (map (beat_of r ?v 0 e (beat_total r)) [0..<nat (beat_total r)]))) (8 * b) 8 =
      (let a = 64 * (gq_address r div 64) + int b in
       if \<not> read_enabled r a then 0 else if write_enabled w a then write_byte w a else octet_at m a)"
    if "b < 64 * nat (beat_total r)" for b
    using region_octets [OF assms(8) v zero assms(12) that] lane by (simp add: Let_def)
  then show ?thesis using u c' by (intro exI conjI) (assumption | simp)+
qed

end
