(* ===== verification/Props_Endpoint.thy ===== *)
theory Props_Endpoint
  imports Endpoint_Transfer
begin

section \<open>Properties of the endpoints\<close>

text \<open>
  Properties of reads, writes, the backend and the tags of the endpoints, each with its witness.
\<close>

text \<open>The request field is an exact codec: a legal request decodes back from its 128-bit word, and a word that
  decodes is the encoding of what it decodes to; a legal response decodes back from its 64-bit word.\<close>

theorem endpoint_codec_exact:
  "(request_ok r \<longrightarrow> rbind (encode_read r) (\<lambda>w. decode_read w (rr_port r)) = Inr r) \<and>
   (decode_read w port = Inr r \<longrightarrow> encode_read r = Inr w \<and> rr_port r = port) \<and>
   (response_ok p \<longrightarrow> rbind (encode_response p) (\<lambda>w. decode_response w (rp_halves p) (rp_port p)) = Inr p)"
  using decode_encode_read [of r] encode_decode_read [of w port r] decode_encode_response [of p] by fastforce

definition demo_request :: read_request where
  "demo_request = \<lparr>rr_port = 0, rr_tag = 9, rr_address = 64, rr_src = 3, rr_dst = 5, rr_length = 15, rr_attr = 255,
     rr_vc = 0, rr_pool = False, rr_asi = 0, rr_metadata = 0\<rparr>"

lemma demo_request: "request_ok demo_request"
  unfolding request_ok_def demo_request_def by code_simp

definition demo_response :: read_response where
  "demo_response = \<lparr>rp_port = 0, rp_tag = 9, rp_src = 5, rp_dst = 3, rp_halves = [1, 2], rp_status = 0, rp_offset = 0,
     rp_last = True, rp_num_beats = 0, rp_rsp_type = 0, rp_vc = 0, rp_pool = False, rp_data_error = False\<rparr>"

theorem endpoint_codec_exact_witness:
  "rbind (encode_read demo_request) (\<lambda>w. decode_read w 0) = Inr demo_request \<and>
   rbind (encode_response demo_response) (\<lambda>w. decode_response w [1, 2] 0) = Inr demo_response"
proof -
  have p: "response_ok demo_response" unfolding response_ok_def demo_response_def by code_simp
  have f: "rr_port demo_request = 0" "rp_halves demo_response = [1, 2]" "rp_port demo_response = 0"
    by (simp_all add: demo_request_def demo_response_def)
  show ?thesis using endpoint_codec_exact [of demo_request 0 0 demo_response] demo_request p by (simp add: f del: rbind_eq_Inr)
qed

text \<open>Tags live in order: under any events, legal or not, the tracker never raises out of an event that it
  rejects with its state unchanged, each accepted event moves exactly its own tag from free to reserved
  to sent to completed with that response's data and back to free, and at most the capacity is busy.\<close>

theorem endpoint_tags_refine_lives:
  assumes "tracker_new i capacity ports = Inr t0"
  shows "\<exists>t outs. run tracker_step t0 es = Inr (t, outs) \<and>
     rfold (\<lambda>l (e, out). life_event l e out) (\<lambda>_. Free) (zip es outs) = Inr (tag_life t) \<and>
     int (card {key. tag_life t key \<noteq> Free}) \<le> rt_capacity t"
proof -
  note st = tracker_new_ok [OF assms]
  obtain t outs where r: "run tracker_step t0 es = Inr (t, outs)" "tracker_ok t"
    using read_tags_total.run_total [OF conjunct1 [OF st], of es] by blast
  have "rfold (\<lambda>l (e, out). life_event l e out) (\<lambda>_. Free) (zip es outs) = Inr (tag_life t)"
    using read_tags.run_watched [OF r(1) conjunct1 [OF st], of "\<lambda>_. Free"] st by auto
  with r busy_tags show ?thesis by blast
qed

definition demo_tracker :: read_tracker where
  "demo_tracker = projr (tracker_new 3 2 1)"

lemma demo_tracker: "tracker_new 3 2 1 = Inr demo_tracker"
  unfolding demo_tracker_def by (rule projr_ok) code_simp

theorem endpoint_tags_refine_lives_witness:
  "\<exists>t outs. run tracker_step demo_tracker [Reserve demo_request, Reserve demo_request, Mark_Sent 0 9, Response demo_response, Retire 0 9] =
     Inr (t, outs) \<and> int (card {key. tag_life t key \<noteq> Free}) \<le> rt_capacity t"
  using endpoint_tags_refine_lives [OF demo_tracker] by blast

text \<open>A read returns the memory: with a free tag and room, a request that is reserved, encoded, sent, decoded,
  executed on the memory, answered, encoded, decoded, received and retired completes with the 64 octets at
  its address (or no data and an error status exactly when they lie outside), and frees its tag.\<close>

theorem endpoint_read_end_to_end:
  assumes "tracker_ok t" "request_ok r" "rr_src r = rt_local t" "rr_port r < rt_ports t" "tag_life t (rr_port r, rr_tag r) = Free"
    and "int (length (rt_records t)) < rt_capacity t" "bytes_ok memory"
  shows "\<exists>t' c. whole_read t r memory = Inr (t', c) \<and> tag_life t' = tag_life t \<and> cp_data c = read_data r memory \<and>
     cp_port c = rr_port r \<and> cp_tag c = rr_tag r \<and> (cp_status c = 0 \<longleftrightarrow> read_data r memory \<noteq> None)"
  by (rule whole_read_ok [OF assms])

theorem endpoint_read_end_to_end_witness:
  "\<exists>t' c. whole_read demo_tracker demo_request (replicate 128 7) = Inr (t', c) \<and> cp_data c = read_data demo_request (replicate 128 7) \<and>
     read_data demo_request (replicate 128 7) \<noteq> None"
proof -
  have t: "demo_tracker = \<lparr>rt_local = 3, rt_capacity = 2, rt_ports = 1, rt_records = []\<rparr>"
    unfolding demo_tracker_def by code_simp
  have h: "tracker_ok demo_tracker" "rr_src demo_request = rt_local demo_tracker" "rr_port demo_request < rt_ports demo_tracker"
    "tag_life demo_tracker (rr_port demo_request, rr_tag demo_request) = Free"
    "int (length (rt_records demo_tracker)) < rt_capacity demo_tracker" "bytes_ok (replicate 128 7)"
    by (simp_all add: t tracker_ok_def demo_request_def tag_life_def entry_life_def bytes_ok_def list_all_iff fits_def)
  have "read_data demo_request (replicate 128 7) \<noteq> None" by (simp add: read_data_def demo_request_def)
  with endpoint_read_end_to_end [OF h(1) demo_request h(2-6)] show ?thesis by blast
qed

text \<open>A write changes exactly the octets it enables. On a well-formed memory every legal write with a supported
  backend status answers without an exception, to the source, with status 3 when it was to succeed but reaches outside
  the memory; the octets enabled by the mask take those of the data when the answer has status 0, and all
  others, and the base, are as before; the execution is counted.\<close>

theorem endpoint_write_exact:
  assumes "write_ok r" "write_memory_ok m" "status \<in> set write_statuses"
  shows "\<exists>u. memory_write r m status = Inr u \<and>
    wp_status (wr_response u) = (if status = 0 \<and> \<not> write_inside r m then 3 else status) \<and>
    wp_tag (wr_response u) = wq_tag r \<and> wp_port (wr_response u) = wq_port r \<and> wp_dst (wr_response u) = wq_src r \<and>
    wm_base (wr_memory u) = wm_base m \<and> length (wm_data (wr_memory u)) = length (wm_data m) \<and>
    wm_executions (wr_memory u) = wm_executions m + 1 \<and>
    (\<forall>i < length (wm_data m). wm_data (wr_memory u) ! i =
      (let a = wm_base m + int i in
       if wp_status (wr_response u) = 0 \<and> write_enabled r a then write_byte r a else wm_data m ! i))"
  unfolding memory_write_effect [OF assms]
  by (simp add: write_effect_def write_answer_def write_outcome_def written_def Let_def)

definition demo_write :: write_request where
  "demo_write = \<lparr>wq_port = 0, wq_tag = 9, wq_address = 68, wq_src = 3, wq_dst = 5, wq_data_beats = [2 ^ 40 + 7 * 2 ^ 32],
     wq_byte_enable = push_bit 68 255, wq_full = False, wq_length = 1, wq_attr = 0, wq_vc = 0, wq_pool = False, wq_asi = 0,
     wq_metadata = 0\<rparr>"

lemma demo_write: "write_ok demo_write"
  unfolding write_ok_def demo_write_def by code_simp

definition demo_memory :: write_memory where
  "demo_memory = \<lparr>wm_data = replicate 128 9, wm_base = 0, wm_executions = 0\<rparr>"

lemma demo_memory: "write_memory_ok demo_memory"
  by (simp add: write_memory_ok_def demo_memory_def bytes_ok_def list_all_iff fits_def)

lemma demo_inside: "write_inside demo_write demo_memory"
  by (simp add: write_inside_def demo_write_def demo_memory_def write_size_def)

theorem endpoint_write_exact_witness:
  "\<exists>u. memory_write demo_write demo_memory 0 = Inr u \<and> wp_status (wr_response u) = 0 \<and> wm_data (wr_memory u) ! 68 = 7 \<and>
     wm_data (wr_memory u) ! 69 = 1 \<and> wm_data (wr_memory u) ! 67 = 9"
proof -
  have "(0 :: int) \<in> set write_statuses" by (simp add: write_statuses_def)
  from endpoint_write_exact [OF demo_write demo_memory this] obtain u where u: "memory_write demo_write demo_memory 0 = Inr u"
    "wp_status (wr_response u) = 0" "\<And>i. i < 128 \<Longrightarrow> wm_data (wr_memory u) ! i =
      (if write_enabled demo_write (int i) then write_byte demo_write (int i) else 9)"
    using demo_inside by (auto simp: demo_memory_def Let_def)
  have "write_enabled demo_write 68 \<and> write_enabled demo_write 69 \<and> \<not> write_enabled demo_write 67"
    "write_byte demo_write 68 = 7 \<and> write_byte demo_write 69 = 1" unfolding demo_write_def by code_simp+
  then show ?thesis using u(1,2) u(3) [of 68] u(3) [of 69] u(3) [of 67] by auto
qed

text \<open>The fields of writes and of region reads are exact codecs: legal values decode back from their words
  (a write response with its two unsent fields at their defaults), and a request word that decodes is the
  encoding of what it decodes to, apart from the two ignored CWAY bits.\<close>

theorem endpoint_burst_codecs:
  "(write_ok w \<longrightarrow> rbind (encode_write w) (\<lambda>x. decode_write x (wq_port w) (wq_data_beats w) (wq_byte_enable w)) = Inr w) \<and>
   (decode_write x port beats enable = Inr w \<longrightarrow> encode_write w = Inr (x AND NOT 12)) \<and>
   (write_response_ok p \<longrightarrow> rbind (encode_write_response p) (\<lambda>x. decode_write_response x (wp_port p)) =
      Inr (p\<lparr>wp_offset := 0, wp_last := False\<rparr>)) \<and>
   (region_ok r \<longrightarrow> rbind (encode_region_read r) (\<lambda>x. decode_region_read x (gq_port r)) = Inr r) \<and>
   (decode_region_read y port = Inr r \<longrightarrow> encode_region_read r = Inr (y AND NOT 12)) \<and>
   (read_beat_ok b \<longrightarrow> gp_num_beats b = 0 \<longrightarrow>
      rbind (encode_read_beat b) (\<lambda>x. decode_beats x (gp_port b) [gp_data b] (Some [gp_data_error b])) = Inr [b])"
  using decode_encode_write [of w] encode_decode_write [of x port beats enable w] decode_encode_write_response [of p]
    decode_encode_region [of r] encode_decode_region [of y port r] decode_encode_beat [of b] by fastforce

definition demo_region :: region_read where
  "demo_region = \<lparr>gq_port = 0, gq_tag = 9, gq_address = 60, gq_src = 3, gq_dst = 5, gq_length = 3, gq_attr = 0xFC,
     gq_vc = 0, gq_pool = False, gq_asi = 0, gq_metadata = 0\<rparr>"

lemma demo_region: "region_ok demo_region"
  unfolding region_ok_def demo_region_def by code_simp

theorem endpoint_burst_codecs_witness:
  "rbind (encode_write demo_write) (\<lambda>x. decode_write x 0 [2 ^ 40 + 7 * 2 ^ 32] (push_bit 68 255)) = Inr demo_write \<and>
   rbind (encode_region_read demo_region) (\<lambda>x. decode_region_read x 0) = Inr demo_region"
proof -
  have f: "wq_port demo_write = 0" "wq_data_beats demo_write = [2 ^ 40 + 7 * 2 ^ 32]" "wq_byte_enable demo_write = push_bit 68 255"
    "gq_port demo_region = 0" by (simp_all add: demo_write_def demo_region_def)
  show ?thesis using endpoint_burst_codecs [of demo_write _ _ _ _ _ demo_region] demo_write demo_region unfolding f by blast
qed

text \<open>C15: The backend is its specification: from a new backend any events, legal or not, run without an exception
  out of the object and give, outcome for outcome, the run of the abstract memory with its token lives; so
  each accepted token is executed at most once, on the memory of its finish, its answer is handed out
  once, and the execution count grows by exactly the successful finishes.\<close>

theorem backend_executes_once:
  assumes "backend_new m here capacity = Inr b0" "write_memory_ok m"
  shows "\<exists>b outs. run backend_step b0 es = Inr (b, outs) \<and>
    spec_run (backend_spec here capacity) (m, \<lambda>_. Idle) es = (backend_abs b, outs) \<and>
    wm_executions (wb_memory b) = wm_executions m + finishes (zip es outs) \<and>
    int (card {k. snd (backend_abs b) k \<noteq> Idle}) \<le> capacity"
proof -
  note st = backend_new_ok [OF assms]
  obtain b outs where r: "run backend_step b0 es = Inr (b, outs)" "backend_ok here capacity b"
    using write_backend_total.run_total [OF conjunct1 [OF st], of es] by blast
  have s: "spec_run (backend_spec here capacity) (m, \<lambda>_. Idle) es = (backend_abs b, outs)"
    using write_backend.run_refines [OF r(1) conjunct1 [OF st]] st by simp
  have "wm_executions (wb_memory b) = wm_executions m + finishes (zip es outs)"
    by (rule spec_executions) (use s in \<open>simp add: backend_abs_def\<close>)
  moreover have "int (card {k. snd (backend_abs b) k \<noteq> Idle}) \<le> capacity"
    using busy_slots [OF r(2)] r(2) by (simp add: backend_ok_def)
  ultimately show ?thesis using r(1) s by blast
qed

definition demo_backend :: write_backend where
  "demo_backend = \<lparr>wb_memory = demo_memory, wb_local = 5, wb_capacity = 2, wb_slots = []\<rparr>"

lemma demo_backend: "backend_new demo_memory 5 2 = Inr demo_backend"
  by (simp add: backend_new_def check_width_def fits_def demo_backend_def)

theorem backend_executes_once_witness:
  "\<exists>b outs. run backend_step demo_backend [Accept 1 demo_write, Finish 1 0, Finish 1 0, Retire_Token 1, Retire_Token 1] = Inr (b, outs) \<and>
     wm_executions (wb_memory b) =
       finishes (zip [Accept 1 demo_write, Finish 1 0, Finish 1 0, Retire_Token 1, Retire_Token 1] outs)"
  using backend_executes_once [OF demo_backend demo_memory,
    of "[Accept 1 demo_write, Finish 1 0, Finish 1 0, Retire_Token 1, Retire_Token 1]"]
  by (auto simp: demo_memory_def simp del: finishes.simps run.simps)

text \<open>C40: Types are kept: whatever events the backend sees, its memory keeps its base and length, holds octets in a
  57-bit address space, and every response it hands out is legal, so encoding it does not raise.\<close>

theorem backend_well_typed:
  assumes "backend_new m here capacity = Inr b0" "write_memory_ok m" "run backend_step b0 es = Inr (b, outs)"
  shows "write_memory_ok (wb_memory b) \<and> wm_base (wb_memory b) = wm_base m \<and>
    length (wm_data (wb_memory b)) = length (wm_data m) \<and>
    (\<forall>p. Answer p \<in> set outs \<longrightarrow> (\<exists>w. encode_write_response p = Inr w))"
proof -
  note st = backend_new_ok [OF assms(1,2)]
  have ok: "backend_ok here capacity b" by (rule write_backend.run_inv [OF assms(3) conjunct1 [OF st]])
  have s: "spec_run (backend_spec here capacity) (m, \<lambda>_. Idle) es = (backend_abs b, outs)"
    using write_backend.run_refines [OF assms(3) conjunct1 [OF st]] st by simp
  have a: "write_response_ok p" if "Answer p \<in> set outs" for p
    using spec_answers_ok [OF s _ that] by simp
  have "wm_base (wb_memory b) = wm_base m \<and> length (wm_data (wb_memory b)) = length (wm_data m)"
    using spec_memory_shape [of here capacity m "\<lambda>_. Idle" es] s by (simp add: backend_abs_def)
  then show ?thesis
    using ok a encode_write_response_pack by (auto simp: backend_ok_def)
qed

theorem backend_well_typed_witness:
  "\<exists>b outs. run backend_step demo_backend [Accept 1 demo_write, Finish 1 6, Retire_Token 1] = Inr (b, outs) \<and>
     write_memory_ok (wb_memory b) \<and> length (wm_data (wb_memory b)) = 128"
proof -
  obtain b outs where r: "run backend_step demo_backend [Accept 1 demo_write, Finish 1 6, Retire_Token 1] = Inr (b, outs)"
    using write_backend_total.run_total [OF conjunct1 [OF backend_new_ok [OF demo_backend demo_memory]],
      of "[Accept 1 demo_write, Finish 1 6, Retire_Token 1]"] by blast
  show ?thesis using backend_well_typed [OF demo_backend demo_memory r] r by (auto simp: demo_memory_def simp del: run.simps)
qed

text \<open>The collector is its specification: from a new collector any events, legal or not, run without an
  exception out of the object and give, outcome for outcome, the run of the abstract tags, in which a multi-beat
  burst of another tag blocks its port exactly while it has begun and not ended, and a tag completes with
  the data of exactly the beats accepted for it; at most the capacity is owned.\<close>

theorem collector_refines_lives:
  assumes "collector_new here capacity ports = Inr c0"
  shows "\<exists>c outs. run collector_step c0 es = Inr (c, outs) \<and>
    spec_run (read_spec here capacity ports) (\<lambda>_. Vacant) es = (collector_abs c, outs) \<and>
    int (card {k. collector_abs c k \<noteq> Vacant}) \<le> capacity"
proof -
  note st = collector_new_ok [OF assms]
  obtain c outs where r: "run collector_step c0 es = Inr (c, outs)" "collector_ok here capacity ports c"
    using collector_total.run_total [OF conjunct1 [OF st], of es] by blast
  have "spec_run (read_spec here capacity ports) (\<lambda>_. Vacant) es = (collector_abs c, outs)"
    using collector.run_refines [OF r(1) conjunct1 [OF st]] st by simp
  moreover have "int (card {k. collector_abs c k \<noteq> Vacant}) \<le> capacity"
    using read_busy [OF r(2)] r(2) by (simp add: collector_ok_def)
  ultimately show ?thesis using r(1) by blast
qed

definition demo_collector :: read_collector where
  "demo_collector = \<lparr>rl_local = 3, rl_capacity = 2, rl_ports = 1, rl_slots = [], rl_multi_owner = []\<rparr>"

lemma demo_collector: "collector_new 3 2 1 = Inr demo_collector"
  by (simp add: collector_new_def check_width_def fits_def demo_collector_def)

theorem collector_refines_lives_witness:
  "\<exists>c outs. run collector_step demo_collector [Claim demo_region, Sent 0 9, Sent 0 9, Collect 0 9] = Inr (c, outs) \<and>
     int (card {k. collector_abs c k \<noteq> Vacant}) \<le> 2"
  using collector_refines_lives [OF demo_collector, of "[Claim demo_region, Sent 0 9, Sent 0 9, Collect 0 9]"] by blast

text \<open>In whatever order the beats of a read arrived, its completion holds, octet by octet, the octet of the beat
  that carries it where the byte enables of the request select it, and zero elsewhere; and zero everywhere when the
  status is an error or any beat is poisoned.\<close>

theorem collector_completion_octets:
  assumes "region_ok r" "beats_legal r bs" "int (length bs) = beat_total r" "bs \<noteq> []" "p \<in> set bs" "lane < 64"
  shows "fld (co_data (gathered r bs)) (8 * (64 * nat (gp_offset p) + lane)) 8 =
    (if gp_status (last bs) = 0 \<and> list_all (\<lambda>p. \<not> gp_data_error p) bs \<and>
        read_enabled r (64 * (gq_address r div 64 + gp_offset p) + int lane)
     then fld (gp_data p) (8 * lane) 8 else 0)"
  by (rule gathered_octets [OF assms])

definition demo_beat :: "int \<Rightarrow> int \<Rightarrow> bool \<Rightarrow> read_beat" where
  "demo_beat offset data lst = \<lparr>gp_port = 0, gp_tag = 9, gp_src = 5, gp_dst = 3, gp_data = data, gp_status = 0,
     gp_offset = offset, gp_last = lst, gp_num_beats = 0, gp_rsp_type = 0, gp_vc = 0, gp_pool = False, gp_data_error = False\<rparr>"

theorem collector_completion_octets_witness:
  "fld (co_data (gathered demo_region [demo_beat 1 (2 ^ 9) False, demo_beat 0 0 True])) (8 * (64 * 1 + 1)) 8 = 2"
proof -
  let ?bs = "[demo_beat 1 (2 ^ 9) False, demo_beat 0 0 True]"
  have t: "beat_total demo_region = 2" unfolding beat_total_def demo_region_def by code_simp
  have "read_beat_ok (demo_beat 1 (2 ^ 9) False)" "read_beat_ok (demo_beat 0 0 True)"
    unfolding read_beat_ok_def demo_beat_def by code_simp+
  then have "beats_legal demo_region ?bs" by (simp add: beats_legal_def t) (simp add: demo_beat_def)
  moreover have "read_enabled demo_region (64 * (gq_address demo_region div 64 + 1) + int 1)" unfolding demo_region_def by code_simp
  moreover have "fld (2 ^ 9) (8 * 1) 8 = 2" by (simp add: fld_def take_bit_eq_mod drop_bit_eq_div)
  ultimately show ?thesis
    using collector_completion_octets [OF demo_region, of ?bs "demo_beat 1 (2 ^ 9) False" 1] by (simp add: t demo_beat_def)
qed

text \<open>C8: A write is read back. On a well-formed memory take a legal write inside it and then a legal region read
  inside it, with a tag that is free at a collector with room, on a known port where no other read blocks it. The write
  and the read of the new memory, reserved at the collector, sent through the codecs, executed, its beats sent through the codecs, collected
  and retired, both succeed; the read completes, at every enabled address, with the octet just written
  where the write enables it and with the octet that was there before where it does not; and the collector's
  tags are as before.\<close>

theorem endpoint_write_then_read:
  assumes "write_ok w" "write_memory_ok m" "write_inside w m"
    and "collector_ok here capacity ports c" "collector_abs c (gq_port r, gq_tag r) = Vacant"
    and "\<not> blocked (collector_abs c) (gq_port r, gq_tag r)" "int (length (rl_slots c)) < capacity"
    and "region_ok r" "gq_src r = here" "gq_port r < ports" "read_inside r (read_view m)" "fits 8 e"
  shows "\<exists>u c' x. memory_write w m 0 = Inr u \<and> whole_region_read c r (read_view (wr_memory u)) 0 e = Inr (c', x) \<and>
    collector_abs c' = collector_abs c \<and>
    (\<forall>b < 64 * nat (beat_total r). fld (co_data x) (8 * b) 8 =
      (let a = 64 * (gq_address r div 64) + int b in
       if \<not> read_enabled r a then 0 else if write_enabled w a then write_byte w a else octet_at m a))"
  by (rule write_then_read_octets [OF assms])

theorem endpoint_write_then_read_witness:
  "\<exists>u c' x. memory_write demo_write demo_memory 0 = Inr u \<and>
     whole_region_read demo_collector demo_region (read_view (wr_memory u)) 0 0 = Inr (c', x) \<and> fld (co_data x) (8 * 4) 8 = 0 \<and>
     fld (co_data x) (8 * 68) 8 = 7 \<and> fld (co_data x) (8 * 64) 8 = 9"
proof -
  note c = collector_new_ok [OF demo_collector]
  have h: "collector_ok 3 2 1 demo_collector" "collector_abs demo_collector (gq_port demo_region, gq_tag demo_region) = Vacant"
    "\<not> blocked (collector_abs demo_collector) (gq_port demo_region, gq_tag demo_region)"
    "int (length (rl_slots demo_collector)) < 2"
    using c by (simp_all add: blocked_def) (simp add: demo_collector_def)
  have r: "gq_src demo_region = 3" "gq_port demo_region < 1" "read_inside demo_region (read_view demo_memory)" "fits 8 (0 :: int)"
    by (simp_all add: demo_region_def read_inside_def read_view_def demo_memory_def)
  have t: "nat (beat_total demo_region) = 2" unfolding beat_total_def demo_region_def by code_simp
  have a: "64 * (gq_address demo_region div 64) = 0" by (simp add: demo_region_def)
  have e: "\<not> read_enabled demo_region 4" "read_enabled demo_region 68" "read_enabled demo_region 64"
    "write_enabled demo_write 68" "write_byte demo_write 68 = 7" "\<not> write_enabled demo_write 64"
    unfolding demo_region_def demo_write_def by code_simp+
  have o: "octet_at demo_memory 64 = 9" by (simp add: octet_at_def demo_memory_def)
  obtain u c' x where x: "memory_write demo_write demo_memory 0 = Inr u"
    "whole_region_read demo_collector demo_region (read_view (wr_memory u)) 0 0 = Inr (c', x)"
    "\<And>b. b < 128 \<Longrightarrow> fld (co_data x) (8 * b) 8 = (if \<not> read_enabled demo_region (int b) then 0
        else if write_enabled demo_write (int b) then write_byte demo_write (int b) else octet_at demo_memory (int b))"
    using endpoint_write_then_read [OF demo_write demo_memory demo_inside h demo_region r] unfolding t a Let_def by auto
  show ?thesis using x(1,2) x(3) [of 4] x(3) [of 68] x(3) [of 64] e o by auto
qed

end
