(* ===== verification/Tl_Tenure.thy ===== *)
theory Tl_Tenure
  imports Prelude "HOL-Library.Multiset"
begin

section \<open>Control words: fields and their data tenure\<close>

text \<open>
  Models \<open>simulator/UAlink2.0/model/tl/tl_tenure.py\<close>: the eight sectors of a 256-bit control word are cut into
  fields from the top down, and each field orders a number of data and byte-enable half flits, its tenure. The
  two exception classes of the file derive from \<open>ValueError\<close>. A property at the end compares this parser
  with the prefix grammar of \<open>credit_events.py\<close>, which reads the sectors from the bottom up.
\<close>

datatype tenure_token = TokD | TokB

record field_record =
  fr_sector :: nat
  fr_kind :: int
  fr_tenure :: "tenure_token list"

record control_desc =
  cd_fields :: int
  cd_tenure :: "tenure_token list"
  cd_records :: "field_record list"

definition field_width :: "int \<Rightarrow> nat" where
  "field_width kind = [1, 4, 2, 2, 1, 1] ! nat kind"

text \<open>The tenure of one field, by its kind and value.\<close>

definition request_tenure :: "int \<Rightarrow> py_error + tenure_token list" where
  "request_tenure value =
     (let cmd = fld value 118 6; len = fld value 0 2 in
      if cmd \<in> {0x20, 0x21, 0x22, 0x2a} then Inl ValueError
      else if cmd \<in> {3, 4, 5} \<or> (8 \<le> cmd \<and> cmd \<le> 15) then Inr []
      else if cmd \<in> {0x30, 0x32, 0x33} then
        (if len \<noteq> 0 then Inl ValueError else Inr [TokD, TokD, TokB])
      else if cmd \<in> {0x23, 0x26, 0x27, 0x28, 0x29} \<or> (0x2c \<le> cmd \<and> cmd \<le> 0x2f) \<or> (0x3c \<le> cmd \<and> cmd \<le> 0x3f) then
        Inr (replicate (nat (2 * (len + 1))) TokD @ (if cmd \<notin> {0x23, 0x27, 0x29} then [TokB] else []))
      else Inl ValueError)"

definition field_tenure :: "int \<Rightarrow> int \<Rightarrow> py_error + tenure_token list" where
  "field_tenure kind value =
     (if kind = 1 then request_tenure value
      else if kind = 2 then
        Inr (if fld value 37 1 \<noteq> 0 then replicate (nat (2 * (fld value 44 2 + 1))) TokD else [])
      else if kind = 3 then
        (let cmd = fld value 57 3 in
         Inr (if cmd \<ge> 3 then replicate (nat (2 * (fld value 39 2 + 1))) TokD @ (if cmd \<in> {3, 4} then [TokB] else []) else []))
      else if kind = 4 then Inr [TokD, TokD]
      else if kind = 5 then
        Inr (if fld value 1 1 \<noteq> 0 then replicate (nat (2 * (fld value 2 2 + 1))) TokD else [])
      else Inr [])"

definition sector_kind :: "int \<Rightarrow> nat \<Rightarrow> int" where
  "sector_kind word finish = fld word (32 * finish - 4) 4"

lemma field_width_cases: "0 \<le> k \<Longrightarrow> k \<le> 5 \<Longrightarrow> field_width k = (if k = 1 then 4 else if k \<in> {2, 3} then 2 else 1)"
proof -
  assume "0 \<le> k" "k \<le> 5"
  then consider "k = 0" | "k = 1" | "k = 2" | "k = 3" | "k = 4" | "k = 5" by linarith
  then show ?thesis by cases (simp_all add: field_width_def)
qed

lemma field_width_pos: "\<not> k > 5 \<Longrightarrow> 0 \<le> k \<Longrightarrow> 0 < field_width k"
  by (simp add: field_width_cases)

function control_loop :: "int \<Rightarrow> nat \<Rightarrow> field_record list \<Rightarrow> py_error + field_record list" where
  "control_loop word finish records =
     (if finish = 0 then Inr records
      else
        let kind = sector_kind word finish in
        if kind \<in> {6, 7} then Inl ValueError
        else if kind > 5 then Inl ValueError
        else
          let width = field_width kind in
          if finish < width \<or> (finish - width) mod width \<noteq> 0 then Inl ValueError
          else
            let start = finish - width; value = fld word (32 * start) (32 * width) in
            rbind (field_tenure kind value) (\<lambda>tokens.
              control_loop word start
                (if kind \<noteq> 0 then records @ [\<lparr>fr_sector = start, fr_kind = kind, fr_tenure = tokens\<rparr>] else records)))"
  by pat_completeness auto
termination
  using field_width_pos by (relation "measure (\<lambda>(word, finish, records). finish)") (auto simp: sector_kind_def fld_range intro!: diff_less)

definition derive_control :: "int \<Rightarrow> py_error + control_desc" where
  "derive_control word =
     rbind (ensure (fits 256 word)) (\<lambda>_.
     rbind (control_loop word 8 []) (\<lambda>records.
       let records = sort_key fr_sector records
       in Inr \<lparr>cd_fields = int (length records), cd_tenure = concat (map fr_tenure records), cd_records = records\<rparr>))"

declare control_loop.simps [simp del]

subsection \<open>The sectors of a word\<close>

text \<open>
  What both parsers compute: the fields of the lowest \<open>finish\<close> sectors, each found at its top nibble, with its
  first sector and its kind; unused sectors are fields of kind 0.
\<close>

definition grammar_width :: "int \<Rightarrow> nat" where
  "grammar_width kind = (if kind = 0 then 1 else if kind = 1 then 4 else if kind \<in> {2, 3} then 2 else if kind \<in> {4, 5} then 1 else 9)"

function sectors :: "int \<Rightarrow> nat \<Rightarrow> (nat \<times> int) list option" where
  "sectors word finish =
     (if finish = 0 then Some []
      else
        let kind = sector_kind word finish; width = grammar_width kind in
        if width \<le> finish \<and> (finish - width) mod width = 0
        then map_option (\<lambda>fs. fs @ [(finish - width, kind)]) (sectors word (finish - width))
        else None)"
  by pat_completeness auto
termination by (relation "measure (\<lambda>(word, finish). finish)") (auto simp: grammar_width_def)

declare sectors.simps [simp del]

lemma sectors_0 [simp]: "sectors word 0 = Some []"
  by (simp add: sectors.simps)

lemma grammar_width_pos [simp]: "0 < grammar_width k"
  by (simp add: grammar_width_def)

lemma sectors_pos:
  "0 < finish \<Longrightarrow> sectors word finish = Some fs \<longleftrightarrow>
     (\<exists>fs'. grammar_width (sector_kind word finish) \<le> finish \<and>
        (finish - grammar_width (sector_kind word finish)) mod grammar_width (sector_kind word finish) = 0 \<and>
        sectors word (finish - grammar_width (sector_kind word finish)) = Some fs' \<and>
        fs = fs' @ [(finish - grammar_width (sector_kind word finish), sector_kind word finish)])"
  by (subst sectors.simps) (auto simp: Let_def)

lemma sectors_place:
  "sectors word finish = Some fs \<Longrightarrow> finish \<le> 8 \<Longrightarrow>
     sorted_wrt (<) (map fst fs) \<and>
     list_all (\<lambda>(s, k). s + grammar_width k \<le> finish \<and> s mod grammar_width k = 0 \<and> 0 \<le> k \<and> k \<le> 5 \<and>
       sector_kind word (s + grammar_width k) = k) fs"
proof (induction finish arbitrary: fs rule: less_induct)
  case (less finish)
  show ?case
  proof (cases "finish = 0")
    case True
    then show ?thesis using less by simp
  next
    case False
    let ?k = "sector_kind word finish"
    obtain fs' where w: "grammar_width ?k \<le> finish" "(finish - grammar_width ?k) mod grammar_width ?k = 0"
      and p: "sectors word (finish - grammar_width ?k) = Some fs'" and fs: "fs = fs' @ [(finish - grammar_width ?k, ?k)]"
      using less.prems(1) sectors_pos [of finish word fs] False by auto
    have ih: "sorted_wrt (<) (map fst fs')"
      "list_all (\<lambda>(s, k). s + grammar_width k \<le> finish - grammar_width ?k \<and> s mod grammar_width k = 0 \<and> 0 \<le> k \<and> k \<le> 5 \<and>
        sector_kind word (s + grammar_width k) = k) fs'"
      using less.IH [OF _ p] less.prems(2) False by auto
    have "0 \<le> ?k" by (simp add: sector_kind_def fld_range)
    moreover have "?k \<le> 5" using w(1) less.prems(2) by (auto simp: grammar_width_def split: if_splits)
    moreover have "s < finish - grammar_width ?k" if "(s, k) \<in> set fs'" for s k
    proof -
      have "s + grammar_width k \<le> finish - grammar_width ?k" using ih(2) that by (auto simp: list_all_iff)
      then show ?thesis using grammar_width_pos [of k] by linarith
    qed
    ultimately show ?thesis
      using ih w by (auto simp: fs sorted_wrt_append list_all_iff)
  qed
qed

definition field_of :: "int \<Rightarrow> nat \<times> int \<Rightarrow> field_record" where
  "field_of word = (\<lambda>(s, k). \<lparr>fr_sector = s, fr_kind = k,
     fr_tenure = projr (field_tenure k (fld word (32 * s) (32 * grammar_width k)))\<rparr>)"

definition tenure_known :: "int \<Rightarrow> nat \<times> int \<Rightarrow> bool" where
  "tenure_known word = (\<lambda>(s, k). \<exists>t. field_tenure k (fld word (32 * s) (32 * grammar_width k)) = Inr t)"

definition proper_fields :: "(nat \<times> int) list \<Rightarrow> (nat \<times> int) list" where
  "proper_fields fs = filter (\<lambda>(s, k). k \<noteq> 0) fs"

lemma field_width_grammar: "0 \<le> k \<Longrightarrow> k \<le> 5 \<Longrightarrow> field_width k = grammar_width k"
  by (auto simp: field_width_cases grammar_width_def)

text \<open>The top-down loop finds these fields, topmost first, and fails exactly when there are none or a tenure is unknown.\<close>

lemma control_loop_sectors:
  "finish \<le> 8 \<Longrightarrow> control_loop word finish rs = Inr rs' \<longleftrightarrow>
     (\<exists>fs. sectors word finish = Some fs \<and> list_all (tenure_known word) fs \<and>
        rs' = rs @ rev (map (field_of word) (proper_fields fs)))"
proof (induction finish arbitrary: rs rule: less_induct)
  case (less finish)
  show ?case
  proof (cases "finish = 0")
    case True
    then show ?thesis by (subst control_loop.simps) (auto simp: proper_fields_def)
  next
    case False
    let ?k = "sector_kind word finish"
    let ?w = "grammar_width ?k"
    let ?s = "finish - ?w"
    let ?payload = "fld word (32 * ?s) (32 * ?w)"
    have k0: "0 \<le> ?k" by (simp add: sector_kind_def fld_range)
    show ?thesis
    proof (cases "?k \<le> 5 \<and> ?w \<le> finish \<and> ?s mod ?w = 0")
      case True
      then have w: "field_width ?k = ?w" using k0 by (intro field_width_grammar) auto
      show ?thesis
      proof (cases "field_tenure ?k ?payload")
        case (Inl e)
        have "control_loop word finish rs = Inl e"
          using True False by (subst control_loop.simps) (simp add: Let_def w Inl)
        moreover have "\<not> tenure_known word (?s, ?k)" using Inl by (simp add: tenure_known_def)
        ultimately show ?thesis using sectors_pos [of finish word] False by auto
      next
        case (Inr t)
        have step: "control_loop word finish rs = control_loop word ?s
            (if ?k \<noteq> 0 then rs @ [\<lparr>fr_sector = ?s, fr_kind = ?k, fr_tenure = t\<rparr>] else rs)"
          using True False by (subst control_loop.simps) (simp add: Let_def w Inr)
        have known: "tenure_known word (?s, ?k)" using Inr by (simp add: tenure_known_def)
        have rec: "field_of word (?s, ?k) = \<lparr>fr_sector = ?s, fr_kind = ?k, fr_tenure = t\<rparr>" by (simp add: field_of_def Inr)
        have lt: "?s < finish" using False by (simp add: diff_less)
        show ?thesis
          unfolding step less.IH [OF lt, OF le_trans [OF less_imp_le [OF lt] less.prems]]
          using True False known rec sectors_pos [of finish word]
          by (auto simp: proper_fields_def)
      qed
    next
      case bad: False
      have "control_loop word finish rs = Inl ValueError"
        using bad False k0 field_width_grammar [of ?k]
        by (subst control_loop.simps) (auto simp: Let_def)
      moreover have "\<not> (?w \<le> finish \<and> ?s mod ?w = 0)"
      proof (cases "?k \<le> 5")
        case True
        then show ?thesis using bad by simp
      next
        case False
        then have "?w = 9" by (simp add: grammar_width_def)
        then show ?thesis using less.prems by simp
      qed
      then have "sectors word finish = None" using False by (subst sectors.simps) (auto simp: Let_def)
      ultimately show ?thesis by simp
    qed
  qed
qed

text \<open>The parser raises nothing but \<open>ValueError\<close>.\<close>

lemma field_tenure_raises: "raises_only {ValueError} (field_tenure kind value)"
  unfolding field_tenure_def request_tenure_def Let_def by (intro raises_intros) simp_all

lemma control_loop_raises: "raises_only {ValueError} (control_loop word finish rs)"
proof (induction finish arbitrary: rs rule: less_induct)
  case (less finish)
  let ?k = "sector_kind word finish"
  have k0: "0 \<le> ?k" by (simp add: sector_kind_def fld_range)
  have ih: "raises_only {ValueError} (control_loop word (finish - field_width ?k) rs)" if "finish \<noteq> 0" "\<not> ?k > 5" for rs
    by (rule less.IH) (use that field_width_pos [of ?k] k0 in simp)
  show ?case
    by (subst control_loop.simps, unfold Let_def) (intro raises_intros field_tenure_raises ih; simp)
qed

definition desc_of :: "int \<Rightarrow> (nat \<times> int) list \<Rightarrow> control_desc" where
  "desc_of word fs = (let rs = map (field_of word) (proper_fields fs) in
     \<lparr>cd_fields = int (length rs), cd_tenure = concat (map fr_tenure rs), cd_records = rs\<rparr>)"

lemma fr_sector_field_of [simp]: "fr_sector (field_of word f) = fst f"
  by (simp add: field_of_def split: prod.splits)

lemma fr_kind_field_of [simp]: "fr_kind (field_of word f) = snd f"
  by (simp add: field_of_def split: prod.splits)

lemma proper_sorted: "sorted_wrt (<) (map fst fs) \<Longrightarrow> sorted_wrt (<) (map fst (proper_fields fs))"
  by (induction fs) (auto simp: proper_fields_def)

lemma sort_descending:
  fixes f :: "'a \<Rightarrow> nat"
  assumes "sorted_wrt (<) (map f xs)"
  shows "sort_key f (rev xs) = xs"
proof (rule sort_key_inj_key_eq)
  show "inj_on f (set (rev xs))" using strict_sorted_iff [of "map f xs"] assms by (simp add: distinct_map)
  show "sorted (map f xs)" using assms strict_sorted_imp_sorted by blast
qed simp

lemma derive_control_Inr:
  "derive_control word = Inr d \<longleftrightarrow>
     fits 256 word \<and> (\<exists>fs. sectors word 8 = Some fs \<and> list_all (tenure_known word) fs \<and> d = desc_of word fs)"
proof -
  have "sort_key fr_sector (rev (map (field_of word) (proper_fields fs))) = map (field_of word) (proper_fields fs)"
    if "sectors word 8 = Some fs" for fs
    using proper_sorted [of fs] sectors_place [OF that] by (intro sort_descending) (simp add: comp_def)
  then show ?thesis
    by (auto simp: derive_control_def control_loop_sectors desc_of_def Let_def)
qed

lemma derive_control_raises: "raises_only {ValueError} (derive_control word)"
  unfolding derive_control_def Let_def by (intro raises_intros control_loop_raises) simp_all

text \<open>The shape of every tenure: an even number of data halves, then at most one byte-enable half.\<close>

lemma field_tenure_shape:
  assumes "field_tenure kind value = Inr t"
  obtains n b where "t = replicate (2 * n) TokD @ (if b then [TokB] else [])"
proof -
  have two: "replicate (nat (2 * (fld w k n + 1))) TokD = replicate (2 * nat (fld w k n + 1)) TokD" for w k n
    using fld_range [of w k n] by (simp add: nat_mult_distrib)
  have "\<exists>n b. t = replicate (2 * n) TokD @ (if b then [TokB] else [])"
  proof (cases "kind = 1")
    case True
    let ?cmd = "fld value 118 6" and ?n = "nat (fld value 0 2 + 1)"
    consider "t = []" | "t = [TokD, TokD, TokB]"
      | "t = replicate (2 * ?n) TokD @ (if ?cmd \<notin> {0x23, 0x27, 0x29} then [TokB] else [])"
      using assms True unfolding field_tenure_def request_tenure_def Let_def two by (auto split: if_splits)
    then show ?thesis
    proof cases
      case 1
      then have "t = replicate (2 * 0) TokD @ (if False then [TokB] else [])" by simp
      then show ?thesis by blast
    next
      case 2
      then have "t = replicate (2 * 1) TokD @ (if True then [TokB] else [])" by (simp add: numeral_2_eq_2)
      then show ?thesis by blast
    qed blast
  next
    case False
    define n where "n = (if kind = 2 then nat (fld value 44 2 + 1) else if kind = 3 then nat (fld value 39 2 + 1)
      else if kind = 4 then 1 else nat (fld value 2 2 + 1))"
    have "t = [] \<or> t = replicate (2 * n) TokD \<or> t = replicate (2 * n) TokD @ [TokB]"
      using assms False unfolding field_tenure_def Let_def two n_def by (auto simp: numeral_2_eq_2 split: if_splits)
    moreover have "[] = replicate (2 * 0) TokD @ (if False then [TokB] else [])" by simp
    ultimately show ?thesis by (metis append_Nil2)
  qed
  then show thesis using that by blast
qed

end
