(* ===== verification/Tl_Sequence.thy ===== *)
theory Tl_Sequence
  imports Tl_Tenure
begin

section \<open>Half-flit classes, content and packing budget\<close>

text \<open>
  Models \<open>tl_sequence.py\<close>, \<open>tl_content.py\<close>, \<open>tl_packing_budget.py\<close>, \<open>tx_validation.py\<close>, \<open>tx_data_fifo.py\<close> and
  \<open>receive_credit.py\<close> of \<open>simulator/UAlink2.0/model/tl\<close>: which class each half of a flit has, given the tenure still
  owed, the pairing and poisoning of data halves, the leaky-bucket budgets of requests and responses, the
  proposal that commits all three or none, the abstract queue of half flits and the sizing of the receive buffer.
\<close>

subsection \<open>The sequencer\<close>

datatype half_class =
  Control | Data_Half | Byte_Enable | Nop_Half | Message_Half | Poison_Half | Auth_Half | Quiet

record sequencer =
  sq_auth :: bool
  sq_pending :: "tenure_token list"

definition sequencer_new :: "bool \<Rightarrow> sequencer" where
  "sequencer_new auth = \<lparr>sq_auth = auth, sq_pending = []\<rparr>"

definition pop_first :: "'a list \<Rightarrow> py_error + 'a \<times> 'a list" where
  "pop_first xs = (case xs of [] \<Rightarrow> Inl IndexError | x # ys \<Rightarrow> Inr (x, ys))"

definition token_class :: "tenure_token \<Rightarrow> half_class" where
  "token_class t = (if t = TokD then Data_Half else Byte_Enable)"

definition sequence_consume ::
  "tenure_token list \<Rightarrow> int option \<Rightarrow> half_class \<Rightarrow> py_error + half_class \<times> tenure_token list" where
  "sequence_consume queue message expected =
     (if expected = Auth_Half then
        rbind (ensure (message = None)) (\<lambda>_. Inr (Auth_Half, queue))
      else if message = Some 32 then
        rbind (ensure (expected = Data_Half)) (\<lambda>_. rbind (pop_first queue) (\<lambda>(_, queue). Inr (Poison_Half, queue)))
      else if message \<noteq> None then Inr (Message_Half, queue)
      else if expected \<in> {Data_Half, Byte_Enable} then rbind (pop_first queue) (\<lambda>(_, queue). Inr (expected, queue))
      else Inr (expected, queue))"

definition head_class :: "tenure_token list \<Rightarrow> half_class" where
  "head_class queue = token_class (queue ! 0)"

definition message_type_ok :: "int option \<Rightarrow> bool" where
  "message_type_ok m \<longleftrightarrow> (case m of None \<Rightarrow> True | Some x \<Rightarrow> x \<in> {0, 1, 32})"

definition sequence_step :: "sequencer \<Rightarrow> int option \<times> int option \<Rightarrow> int \<Rightarrow> tenure_token list \<Rightarrow> bool \<Rightarrow> bool \<Rightarrow>
    py_error + sequencer \<times> half_class \<times> half_class" where
  "sequence_step s msg nfields tokens transfer reset =
     (if reset then Inr (s\<lparr>sq_pending := []\<rparr>, Quiet, Quiet)
      else
        rbind (ensure (0 \<le> nfields \<and> nfields \<le> 8)) (\<lambda>_.
        rbind (ensure (message_type_ok (fst msg) \<and> message_type_ok (snd msg))) (\<lambda>_.
        rbind (if length (sq_pending s) \<le> 1 then
                 let queue = sq_pending s; trailing = (queue \<noteq> []) in
                 rbind (ensure (fst msg \<noteq> Some 32)) (\<lambda>_.
                 rbind (if fst msg = None then
                          rbind (ensure (\<not> (sq_auth s \<and> (nfields > 4 \<or> (trailing \<and> nfields \<noteq> 0))))) (\<lambda>_.
                          rbind (ensure (\<not> (tokens \<noteq> [] \<and> nfields = 0))) (\<lambda>_.
                            let queue = queue @ tokens in
                            Inr (Control, queue,
                              if trailing then head_class queue
                              else if sq_auth s \<and> nfields \<noteq> 0 then Auth_Half
                              else if queue \<noteq> [] then head_class queue
                              else Nop_Half)))
                        else Inr (Message_Half, queue, if trailing then head_class queue else Nop_Half))
                   (\<lambda>(lower, queue, expected).
                 rbind (sequence_consume queue (snd msg) expected) (\<lambda>(upper, queue). Inr (lower, upper, queue))))
               else
                 rbind (sequence_consume (sq_pending s) (fst msg) (head_class (sq_pending s))) (\<lambda>(lower, queue).
                 rbind (sequence_consume queue (snd msg) (head_class queue)) (\<lambda>(upper, queue). Inr (lower, upper, queue))))
          (\<lambda>(lower, upper, queue).
            Inr (if transfer then s\<lparr>sq_pending := queue\<rparr> else s, lower, upper)))))"

text \<open>The integer codes of the classes.\<close>

definition class_code :: "half_class \<Rightarrow> int" where
  "class_code c = (case c of Control \<Rightarrow> 0 | Data_Half \<Rightarrow> 1 | Byte_Enable \<Rightarrow> 2 | Nop_Half \<Rightarrow> 3 | Message_Half \<Rightarrow> 4
     | Poison_Half \<Rightarrow> 5 | Auth_Half \<Rightarrow> 6 | Quiet \<Rightarrow> 7)"

subsection \<open>Content\<close>

record content =
  ct_open :: bool
  ct_poison :: bool
  ct_fatal :: bool

definition content_new :: content where
  "content_new = \<lparr>ct_open = False, ct_poison = False, ct_fatal = False\<rparr>"

record content_signals =
  cg_allowed :: bool
  cg_taken :: bool
  cg_rejected :: bool

definition content_half :: "int \<Rightarrow> bool \<times> bool \<times> bool \<Rightarrow> int \<times> int \<Rightarrow> bool \<times> bool \<times> bool" where
  "content_half tags = (\<lambda>(opened, poison, bad) (kind, word).
     let bad = (bad \<or> (kind = 3 \<and> word \<noteq> 0));
         bad = (bad \<or> (kind = 6 \<and> (\<not> (1 \<le> tags \<and> tags \<le> 4) \<or> drop_bit (nat (64 * tags)) word \<noteq> 0)))
     in if kind \<in> {1, 5} then
          let mark = (kind = 5) in
          if opened then (False, False, bad \<or> poison \<noteq> mark) else (True, mark, bad)
        else (opened, poison, bad \<or> (kind = 2 \<and> opened)))"

definition content_step :: "content \<Rightarrow> int \<times> int \<Rightarrow> int \<times> int \<Rightarrow> int \<Rightarrow> bool \<Rightarrow> bool \<Rightarrow> content \<times> content_signals" where
  "content_step c classes words tags transfer reset =
     (if reset then (content_new, \<lparr>cg_allowed = False, cg_taken = False, cg_rejected = False\<rparr>)
      else
        let (opened, poison, bad) = content_half tags
              (content_half tags (ct_open c, ct_poison c, False) (fst classes, fst words)) (snd classes, snd words);
            allowed = (\<not> ct_fatal c \<and> \<not> bad);
            taken = (transfer \<and> allowed);
            c' = (if transfer then if bad then c\<lparr>ct_fatal := True\<rparr>
                    else if taken then c\<lparr>ct_open := opened, ct_poison := poison\<rparr> else c
                  else c)
        in (c', \<lparr>cg_allowed = allowed, cg_taken = taken, cg_rejected = (transfer \<and> \<not> allowed)\<rparr>))"

subsection \<open>Packing budget\<close>

record budget =
  bg_requests :: int
  bg_responses :: int

definition budget_new :: budget where
  "budget_new = \<lparr>bg_requests = 0, bg_responses = 0\<rparr>"

definition budget_available :: "budget \<Rightarrow> int \<times> int" where
  "budget_available b = (4 - bg_requests b, 8 - bg_responses b)"

definition budget_step :: "budget \<Rightarrow> int \<Rightarrow> int \<Rightarrow> bool \<Rightarrow> bool \<Rightarrow> py_error + budget \<times> bool" where
  "budget_step b requests responses transfer reset =
     rbind (ensure (0 \<le> requests \<and> requests < 8)) (\<lambda>_.
     rbind (ensure (0 \<le> responses \<and> responses < 16)) (\<lambda>_.
       if reset then Inr (b\<lparr>bg_requests := 0, bg_responses := 0\<rparr>, False)
       else
         let (req_limit, rsp_limit) = budget_available b in
         if \<not> transfer \<or> requests > req_limit \<or> responses > rsp_limit then Inr (b, False)
         else Inr (b\<lparr>bg_requests := max 0 (bg_requests b + requests - 1),
                     bg_responses := max 0 (bg_responses b + responses - 1)\<rparr>, True)))"

subsection \<open>Proposals that commit together\<close>

definition flit_messages :: "int \<Rightarrow> int \<Rightarrow> int \<Rightarrow> int option \<times> int option" where
  "flit_messages lower upper msg =
     (if fld msg 0 1 \<noteq> 0 then Some (fld lower 0 8) else None, if fld msg 1 1 \<noteq> 0 then Some (fld upper 0 8) else None)"

definition empty_desc :: control_desc where
  "empty_desc = \<lparr>cd_fields = 0, cd_tenure = [], cd_records = []\<rparr>"

definition count_requests :: "field_record list \<Rightarrow> int" where
  "count_requests rs = int (length (filter (\<lambda>r. fr_kind r \<in> {1, 3}) rs))"

definition count_responses :: "field_record list \<Rightarrow> int" where
  "count_responses rs = int (length (filter (\<lambda>r. fr_kind r \<in> {2, 4, 5}) rs))"

record tx_validation =
  tv_auth :: bool
  tv_sequence :: sequencer
  tv_content :: content
  tv_budget :: budget

definition validation_new :: "bool \<Rightarrow> tx_validation" where
  "validation_new auth = \<lparr>tv_auth = auth, tv_sequence = sequencer_new auth, tv_content = content_new, tv_budget = budget_new\<rparr>"

text \<open>
  The body of the \<open>try\<close>: the classes, whether the flit is allowed, and the three updated copies. Only
  \<open>ValueError\<close> is caught; the sequencer raises nothing else, as its lemmas show.
\<close>

definition validation_try :: "tx_validation \<Rightarrow> int \<Rightarrow> int \<Rightarrow> int \<Rightarrow>
    py_error + bool \<times> (half_class \<times> half_class) \<times> sequencer \<times> content \<times> budget" where
  "validation_try v lower upper msg =
     (let messages = flit_messages lower upper msg in
      rbind (if length (sq_pending (tv_sequence v)) \<le> 1 \<and> fst messages = None then derive_control lower else Inr empty_desc) (\<lambda>desc.
      rbind (sequence_step (tv_sequence v) messages (cd_fields desc) (cd_tenure desc) True False) (\<lambda>(sequence, lo, up).
        let rq = count_requests (cd_records desc); rs = count_responses (cd_records desc);
            (req_limit, rsp_limit) = budget_available (tv_budget v);
            fit = (rq \<le> req_limit \<and> rs \<le> rsp_limit);
            (content, signals) = content_step (tv_content v) (class_code lo, class_code up) (lower, upper) (cd_fields desc) True False;
            allowed = (fit \<and> cg_allowed signals)
        in rbind (if allowed then budget_step (tv_budget v) rq rs True False else Inr (tv_budget v, False)) (\<lambda>(budget, _).
             Inr (allowed, (lo, up), sequence, if fit then content else tv_content v, budget)))))"

definition validation_step :: "tx_validation \<Rightarrow> int \<Rightarrow> int \<Rightarrow> int \<Rightarrow> bool \<Rightarrow> bool \<Rightarrow>
    py_error + tx_validation \<times> bool \<times> int \<times> int" where
  "validation_step v lower upper msg transfer reset =
     (if reset then Inr (validation_new (tv_auth v), False, 7, 7)
      else case validation_try v lower upper msg of
        Inl ValueError \<Rightarrow> Inr (v, False, 7, 7)
      | Inl e \<Rightarrow> Inl e
      | Inr (allowed, (lo, up), sequence, content, budget) \<Rightarrow>
          Inr (if allowed \<and> transfer then v\<lparr>tv_sequence := sequence, tv_content := content, tv_budget := budget\<rparr> else v,
               allowed, if allowed then (class_code lo, class_code up) else (7, 7)))"

subsection \<open>The abstract queue of half flits\<close>

record half_queue =
  hq_capacity :: int
  hq_words :: "int list"

definition half_queue_new :: "int \<Rightarrow> py_error + half_queue" where
  "half_queue_new bank_depth =
     rbind (ensure (1 \<le> bank_depth \<and> bank_depth \<le> 65535)) (\<lambda>_. Inr \<lparr>hq_capacity = 2 * bank_depth, hq_words = []\<rparr>)"

definition half_queue_reset :: "half_queue \<Rightarrow> half_queue" where
  "half_queue_reset q = q\<lparr>hq_words := []\<rparr>"

definition half_queue_push :: "half_queue \<Rightarrow> int list \<Rightarrow> half_queue \<times> bool" where
  "half_queue_push q words =
     (if length words \<notin> {1, 2} \<or> int (length (hq_words q)) + int (length words) > hq_capacity q then (q, False)
      else (q\<lparr>hq_words := hq_words q @ words\<rparr>, True))"

definition half_queue_offer :: "half_queue \<Rightarrow> int list \<Rightarrow> half_queue \<times> int" where
  "half_queue_offer q words =
     (if length words \<notin> {1, 2} then (q, 0)
      else let n = min (int (length words)) (hq_capacity q - int (length (hq_words q)))
        in (q\<lparr>hq_words := hq_words q @ take (nat n) words\<rparr>, n))"

definition half_queue_pop :: "half_queue \<Rightarrow> int \<Rightarrow> half_queue \<times> int list" where
  "half_queue_pop q n =
     (if n \<notin> {0, 1, 2} \<or> n > int (length (hq_words q)) then (q, [])
      else (q\<lparr>hq_words := drop (nat n) (hq_words q)\<rparr>, take (nat n) (hq_words q)))"

subsection \<open>Sizing of the receive buffer\<close>

definition required_words :: "int list \<Rightarrow> int" where
  "required_words capacities = 2 * sum_list capacities"

definition any_nonzero :: "int list \<Rightarrow> bool" where
  "any_nonzero xs \<longleftrightarrow> list_ex (\<lambda>x. x \<noteq> 0) xs"

definition configuration_valid :: "int list \<Rightarrow> int \<Rightarrow> int \<Rightarrow> bool \<Rightarrow> bool" where
  "configuration_valid capacities width depth shared \<longleftrightarrow>
     (1 \<le> width \<and> width \<le> 16) \<and> (1 \<le> depth \<and> depth \<le> 65535) \<and>
     length capacities = 20 \<and> list_all (\<lambda>v. fits (nat width) v) capacities \<and>
     \<not> (\<not> shared \<and> (\<not> any_nonzero (take 5 (drop 10 capacities)) \<or> \<not> any_nonzero (take 5 (drop 15 capacities)))) \<and>
     required_words capacities \<le> depth"

record retirement_signals =
  re_read_valid :: bool
  re_retired :: bool
  re_release_taken :: bool

definition retirement :: "bool \<Rightarrow> bool \<Rightarrow> bool \<Rightarrow> bool \<Rightarrow> retirement_signals" where
  "retirement valid ready credit_ready fatal =
     (let read_valid = (valid \<and> credit_ready \<and> \<not> fatal); taken = (read_valid \<and> ready)
      in \<lparr>re_read_valid = read_valid, re_retired = taken, re_release_taken = taken\<rparr>)"

subsection \<open>What a classified flit consumes\<close>

text \<open>A half of a data class consumes the next token of its kind; the others consume nothing.\<close>

definition token_matches :: "half_class \<Rightarrow> tenure_token \<Rightarrow> bool" where
  "token_matches category kind \<longleftrightarrow> kind = (if category = Byte_Enable then TokB else TokD)"

definition consumes :: "half_class \<Rightarrow> bool" where
  "consumes category \<longleftrightarrow> category \<in> {Data_Half, Poison_Half, Byte_Enable}"

definition take_token :: "half_class \<Rightarrow> tenure_token list \<Rightarrow> tenure_token list option" where
  "take_token category queue =
     (if consumes category then
        (case queue of [] \<Rightarrow> None | t # ts \<Rightarrow> if token_matches category t then Some ts else None)
      else Some queue)"

definition owes :: "sequencer \<Rightarrow> int option \<times> int option \<Rightarrow> tenure_token list \<Rightarrow> tenure_token list" where
  "owes s msg tokens = (if length (sq_pending s) \<le> 1 \<and> fst msg = None then sq_pending s @ tokens else sq_pending s)"

lemma head_class_Cons [simp]: "head_class (t # ts) = (if t = TokD then Data_Half else Byte_Enable)"
  by (simp add: head_class_def token_class_def)

lemma consume_takes:
  assumes "sequence_consume queue m expected = Inr (category, queue')"
    and "(queue \<noteq> [] \<and> expected = head_class queue) \<or> expected \<in> {Auth_Half, Nop_Half}"
  shows "take_token category queue = Some queue' \<and> category \<noteq> Quiet \<and> category \<noteq> Control"
  using assms
  by (cases queue) (auto simp: sequence_consume_def take_token_def consumes_def token_matches_def pop_first_def split: if_splits,
    (metis tenure_token.exhaust)+)

lemma consume_raises:
  assumes "(queue \<noteq> [] \<and> expected = head_class queue) \<or> expected \<in> {Auth_Half, Nop_Half}"
  shows "raises_only {ValueError} (sequence_consume queue m expected)"
  using assms by (cases queue) (auto simp: sequence_consume_def pop_first_def raises_only_def ensure_def)

lemma sequence_step_takes:
  assumes "sequence_step s msg nfields tokens True False = Inr (s', lo, up)"
  shows "\<exists>q. take_token lo (owes s msg tokens) = Some q \<and> take_token up q = Some (sq_pending s') \<and> sq_auth s' = sq_auth s \<and>
    lo \<noteq> Quiet \<and> up \<noteq> Quiet"
proof (cases "length (sq_pending s) \<le> 1")
  case True
  show ?thesis
  proof (cases "fst msg")
    case None
    define e where "e = (if sq_pending s \<noteq> [] then head_class (sq_pending s @ tokens)
      else if sq_auth s \<and> nfields \<noteq> 0 then Auth_Half else if sq_pending s @ tokens \<noteq> [] then head_class (sq_pending s @ tokens) else Nop_Half)"
    have c: "sequence_consume (sq_pending s @ tokens) (snd msg) e = Inr (up, sq_pending s')" "lo = Control" "sq_auth s' = sq_auth s"
      using assms True None by (auto simp: sequence_step_def Let_def e_def split: if_splits)
    have "(sq_pending s @ tokens \<noteq> [] \<and> e = head_class (sq_pending s @ tokens)) \<or> e \<in> {Auth_Half, Nop_Half}"
      by (auto simp: e_def)
    from consume_takes [OF c(1) this] show ?thesis
      using True None c by (simp add: owes_def take_token_def consumes_def)
  next
    case (Some m)
    define e where "e = (if sq_pending s \<noteq> [] then head_class (sq_pending s) else Nop_Half)"
    have c: "sequence_consume (sq_pending s) (snd msg) e = Inr (up, sq_pending s')" "lo = Message_Half" "sq_auth s' = sq_auth s"
      using assms True Some by (auto simp: sequence_step_def Let_def e_def split: if_splits)
    have "(sq_pending s \<noteq> [] \<and> e = head_class (sq_pending s)) \<or> e \<in> {Auth_Half, Nop_Half}"
      by (auto simp: e_def)
    from consume_takes [OF c(1) this] show ?thesis
      using True Some c by (simp add: owes_def take_token_def consumes_def)
  qed
next
  case False
  then obtain q where c: "sequence_consume (sq_pending s) (fst msg) (head_class (sq_pending s)) = Inr (lo, q)"
    "sequence_consume q (snd msg) (head_class q) = Inr (up, sq_pending s')" "sq_auth s' = sq_auth s"
    using assms by (auto simp: sequence_step_def Let_def)
  have ne: "sq_pending s \<noteq> []" using False by auto
  have t: "take_token lo (sq_pending s) = Some q" "lo \<noteq> Quiet" using consume_takes [OF c(1)] ne by auto
  then have "q \<noteq> []" using False by (cases "sq_pending s") (auto simp: take_token_def split: if_splits)
  from consume_takes [OF c(2)] this have "take_token up q = Some (sq_pending s')" "up \<noteq> Quiet" by auto
  then show ?thesis using t c(3) False by (auto simp: owes_def)
qed

lemma sequence_step_raises: "raises_only {ValueError} (sequence_step s msg nfields tokens transfer reset)"
proof (cases "length (sq_pending s) \<le> 1")
  case True
  have r: "raises_only {ValueError} (sequence_consume q m (if q \<noteq> [] then head_class q else Nop_Half))"
    "raises_only {ValueError} (sequence_consume q m Auth_Half)" for q m
    using consume_raises [of q "if q \<noteq> [] then head_class q else Nop_Half" m] consume_raises [of q Auth_Half m] by auto
  have e: "raises_only {ValueError} (sequence_consume (sq_pending s @ tokens) m
      (if sq_pending s \<noteq> [] then head_class (sq_pending s @ tokens) else if sq_auth s \<and> nfields \<noteq> 0 then Auth_Half
       else if sq_pending s @ tokens \<noteq> [] then head_class (sq_pending s @ tokens) else Nop_Half))" for m
    using r(1) [of "sq_pending s @ tokens" m] r(2) [of "sq_pending s @ tokens" m] by (auto split: if_splits)
  show ?thesis
    using True e r(1) [of "sq_pending s"] unfolding sequence_step_def Let_def
    by (cases "fst msg") (auto simp: raises_only_def rbind_eq_Inl ensure_def split: if_splits)
next
  case False
  have two: "raises_only {ValueError} (sequence_consume (sq_pending s) m (head_class (sq_pending s)))" for m
    using False by (intro consume_raises) auto
  have next_two: "raises_only {ValueError} (sequence_consume q m' (head_class q))"
    if "sequence_consume (sq_pending s) m (head_class (sq_pending s)) = Inr (lo, q)" for q m m' lo
  proof -
    have "sq_pending s \<noteq> []" using False by auto
    then have "take_token lo (sq_pending s) = Some q" using consume_takes [OF that] by auto
    then have "q \<noteq> []" using False by (cases "sq_pending s") (auto simp: take_token_def split: if_splits)
    then show ?thesis by (intro consume_raises) simp
  qed
  show ?thesis
    using False two next_two unfolding sequence_step_def Let_def
    by (fastforce simp: raises_only_def rbind_eq_Inl ensure_def split: if_splits)
qed

end
