(* ===== verification/Tl_Credit.thy ===== *)
theory Tl_Credit
  imports Tl_Sequence
begin

section \<open>Transaction-layer credits\<close>

text \<open>
  Models \<open>credit_context.py\<close>, \<open>credit_admission.py\<close>, \<open>credit_events.py\<close> and \<open>credit_ledger.py\<close> of
  \<open>simulator/UAlink2.0/model/tl\<close>: the ordered credit metadata of a control word and the context that follows it half
  flit by half flit, the whole-tenure admission test, the decoding of grants from the wire, and the ledger of twenty
  credit classes. A vector of twenty classes is a list; classes 0 to 4 are the request commands (pool and four
  virtual channels), 5 to 9 the response commands, 10 to 14 and 15 to 19 their data.
\<close>

subsection \<open>Credit metadata of a control word\<close>

record credit_token =
  tk_kind :: tenure_token
  tk_slot :: nat
  tk_reserve :: bool

definition vc_position :: "int \<Rightarrow> nat" where
  "vc_position kind = [116, 58, 55, 26, 26] ! nat (kind - 1)"

definition pool_position :: "int \<Rightarrow> nat" where
  "pool_position kind = [102, 46, 41, 14, 14] ! nat (kind - 1)"

definition add_at :: "nat \<Rightarrow> int \<Rightarrow> int list \<Rightarrow> int list" where
  "add_at i n xs = xs[i := xs ! i + n]"

definition record_role :: "field_record \<Rightarrow> nat" where
  "record_role r = (if fr_kind r \<in> {1, 3} then 0 else 1)"

definition record_lane :: "int \<Rightarrow> field_record \<Rightarrow> nat" where
  "record_lane word r =
     (let value = drop_bit (32 * fr_sector r) word;
          vc = fld value (vc_position (fr_kind r)) 2; pool = fld value (pool_position (fr_kind r)) 1
      in if pool \<noteq> 0 then 0 else nat vc + 1)"

text \<open>Alternate data halves of a field reserve a credit.\<close>

fun field_tokens :: "nat \<Rightarrow> nat \<Rightarrow> tenure_token list \<Rightarrow> credit_token list" where
  "field_tokens slot half [] = []"
| "field_tokens slot half (t # ts) =
     \<lparr>tk_kind = t, tk_slot = slot, tk_reserve = (t = TokD \<and> half mod 2 = 0)\<rparr> #
       field_tokens slot (if t = TokD then half + 1 else half) ts"

definition count_data :: "tenure_token list \<Rightarrow> nat" where
  "count_data ts = length (filter (\<lambda>t. t = TokD) ts)"

definition context_field :: "int \<Rightarrow> int list \<times> credit_token list \<Rightarrow> field_record \<Rightarrow> py_error + int list \<times> credit_token list" where
  "context_field word = (\<lambda>(demands, tokens) r.
     let role = record_role r; lane = record_lane word r in
     rbind (ensure (\<not> count_data (fr_tenure r) mod 2 \<noteq> 0)) (\<lambda>_.
       Inr (add_at (role * 5 + lane) 1 demands, tokens @ field_tokens (10 + role * 5 + lane) 0 (fr_tenure r))))"

definition decode_context :: "int \<Rightarrow> py_error + control_desc \<times> credit_token list \<times> int list" where
  "decode_context word =
     rbind (derive_control word) (\<lambda>decoded.
     rbind (rfold (context_field word) (replicate 20 0, []) (cd_records decoded)) (\<lambda>(demands, tokens).
       Inr (decoded, tokens, demands)))"

subsection \<open>Admission of a whole tenure\<close>

definition merge_pools :: "int list \<Rightarrow> int list" where
  "merge_pools xs = (add_at 10 (xs ! 15) xs)[15 := 0]"

definition requirements :: "int \<Rightarrow> bool \<Rightarrow> py_error + int list" where
  "requirements word shared =
     rbind (decode_context word) (\<lambda>(_, tokens, commands).
       let result = foldl (\<lambda>result token. if tk_reserve token then add_at (tk_slot token) 1 result else result) commands tokens
       in Inr (if shared then merge_pools result else result))"

definition exceeds_any :: "int list \<Rightarrow> int list \<Rightarrow> bool" where
  "exceeds_any xs ys \<longleftrightarrow> list_ex (\<lambda>(x, y). x > y) (zip xs ys)"

definition admit :: "int \<Rightarrow> int list \<Rightarrow> int list \<Rightarrow> bool \<Rightarrow> bool \<Rightarrow> bool \<Rightarrow> py_error + bool \<times> bool \<times> bool" where
  "admit word available capacity shared done control =
     (if \<not> control then Inr (True, False, False)
      else rbind (requirements word shared) (\<lambda>need.
        let shortfall = (done \<and> exceeds_any need capacity);
            allowed = (\<not> any_nonzero need \<or> (done \<and> \<not> exceeds_any need available))
        in Inr (allowed, \<not> allowed \<and> \<not> shortfall, shortfall)))"

subsection \<open>The context of a sender\<close>

record credit_context =
  cc_sequence :: sequencer
  cc_pending :: "credit_token list"

definition context_new :: "bool \<Rightarrow> credit_context" where
  "context_new auth = \<lparr>cc_sequence = sequencer_new auth, cc_pending = []\<rparr>"

definition context_consume :: "int list \<times> credit_token list \<Rightarrow> half_class \<Rightarrow> py_error + int list \<times> credit_token list" where
  "context_consume = (\<lambda>(demands, queue) category.
     if consumes category then
       rbind (pop_first queue) (\<lambda>(token, queue).
       rbind (ensure (token_matches category (tk_kind token))) (\<lambda>_.
         Inr (if tk_reserve token then add_at (tk_slot token) 1 demands else demands, queue)))
     else Inr (demands, queue))"

definition context_step :: "credit_context \<Rightarrow> int \<Rightarrow> int option \<times> int option \<Rightarrow> bool \<Rightarrow> bool \<Rightarrow>
    py_error + credit_context \<times> (half_class \<times> half_class) \<times> int list" where
  "context_step c lower msg transfer reset =
     (if reset then
        rbind (sequence_step (cc_sequence c) (None, None) 0 [] True True) (\<lambda>(sequence, _).
          Inr (c\<lparr>cc_sequence := sequence, cc_pending := []\<rparr>, (Quiet, Quiet), replicate 20 0))
      else
        rbind (ensure (fits 256 lower)) (\<lambda>_.
        rbind (if length (cc_pending c) \<le> 1 \<and> fst msg = None
               then rbind (decode_context lower) (\<lambda>(decoded, appended, demands). Inr (decoded, cc_pending c @ appended, demands))
               else Inr (empty_desc, cc_pending c, replicate 20 0)) (\<lambda>(decoded, queue, demands).
        rbind (sequence_step (cc_sequence c) msg (cd_fields decoded) (cd_tenure decoded) True False) (\<lambda>(proposal, lo, up).
        rbind (rfold context_consume (demands, queue) [lo, up]) (\<lambda>(demands, queue).
        rbind (ensure (map tk_kind queue = sq_pending proposal)) (\<lambda>_.
          Inr (if transfer then c\<lparr>cc_sequence := proposal, cc_pending := queue\<rparr> else c, (lo, up), demands)))))))"

subsection \<open>Grants and messages on the wire\<close>

record wire_events =
  we_valid :: bool
  we_grants :: "int list"
  we_nop :: int
  we_init :: int
  we_shared :: int
  we_poison :: int

definition no_events :: wire_events where
  "no_events = \<lparr>we_valid = False, we_grants = replicate 20 0, we_nop = 0, we_init = 0, we_shared = 0, we_poison = 0\<rparr>"

text \<open>The prefix table of the bottom-up grammar: entry \<open>e\<close> holds the fields of the lowest \<open>e\<close> sectors, if they parse.\<close>

definition prefix_entry :: "int \<Rightarrow> (nat \<times> int) list option list \<Rightarrow> nat \<Rightarrow> (nat \<times> int) list option list" where
  "prefix_entry lower prefix finish =
     (let kind = sector_kind lower finish; width = grammar_width kind; start = finish - width
      in if width \<le> finish \<and> start mod width = 0 \<and> prefix ! start \<noteq> None
         then prefix[finish := Some (the (prefix ! start) @ [(start, kind)])] else prefix)"

definition wire_fields :: "int \<Rightarrow> (nat \<times> int) list option" where
  "wire_fields lower = foldl (prefix_entry lower) (Some [] # replicate 8 None) [1..<9] ! 8"

definition grant_layout :: "(nat \<times> nat) list" where
  "grant_layout = [(6, 22), (6, 16), (8, 8), (8, 0)]"

definition grant_class :: "int \<Rightarrow> int list \<Rightarrow> nat \<times> nat \<times> nat \<Rightarrow> int list" where
  "grant_class word grants = (\<lambda>(cls, width, offset).
     let value = fld word offset width; is_vc = drop_bit (width - 1) value;
         vc = fld value (width - 3) 2; amount = fld value 0 (width - 3)
     in add_at (cls * 5 + (if is_vc \<noteq> 0 then nat vc + 1 else 0)) amount grants)"

definition grant_field :: "int \<Rightarrow> int list \<Rightarrow> nat \<times> int \<Rightarrow> int list" where
  "grant_field lower grants = (\<lambda>(start, kind).
     if kind \<noteq> 0 then grants
     else foldl (grant_class (fld lower (32 * start) 32)) grants (enumerate 0 grant_layout))"

definition event_half :: "int \<Rightarrow> int \<times> int \<times> int \<times> int \<Rightarrow> nat \<times> int \<Rightarrow> int \<times> int \<times> int \<times> int" where
  "event_half msg = (\<lambda>(nop, init, shared, poison) (i, word).
     if fld msg i 1 = 0 then (nop, init, shared, poison)
     else if fld word 0 8 = 0 then (nop OR push_bit i 1, init, shared, poison)
     else if fld word 0 8 = 32 then (nop, init, shared, poison OR push_bit i 1)
     else (nop, init OR push_bit i 1, shared OR push_bit i (fld word 8 1), poison))"

definition decode_events :: "int \<Rightarrow> int \<Rightarrow> int \<Rightarrow> bool \<Rightarrow> wire_events" where
  "decode_events lower upper msg control =
     (let types = [fld lower 0 8, fld upper 0 8] in
      if list_ex (\<lambda>i. fld msg i 1 \<noteq> 0 \<and> types ! i \<notin> {0, 1, 32}) [0, 1] then no_events
      else if control \<and> fld msg 0 1 \<noteq> 0 then no_events
      else case (if control then wire_fields lower else Some []) of
        None \<Rightarrow> no_events
      | Some parsed \<Rightarrow>
          let grants = foldl (grant_field lower) (replicate 20 0) parsed;
              (nop, init, shared, poison) = foldl (event_half msg) (0, 0, 0, 0) [(0, lower), (1, upper)]
          in \<lparr>we_valid = True, we_grants = grants, we_nop = nop, we_init = init, we_shared = shared, we_poison = poison\<rparr>)"

subsection \<open>The ledger\<close>

record tl_ledger =
  tg_bits :: int
  tg_limit :: int
  tg_capacity :: "int list"
  tg_available :: "int list"
  tg_done :: bool
  tg_shared :: bool

record ledger_signals =
  lg_allowed :: bool
  lg_taken :: bool
  lg_error :: bool

definition tl_ledger_new :: "int \<Rightarrow> py_error + tl_ledger" where
  "tl_ledger_new bits =
     rbind (ensure (\<not> bits < 1)) (\<lambda>_. Inr \<lparr>tg_bits = bits, tg_limit = push_bit (nat bits) 1 - 1,
       tg_capacity = replicate 20 0, tg_available = replicate 20 0, tg_done = False, tg_shared = False\<rparr>)"

definition pools_filled :: "int list \<Rightarrow> bool" where
  "pools_filled sums \<longleftrightarrow> \<not> (sum_list (take 5 (drop 10 sums)) = 0 \<or> sum_list (take 5 (drop 15 sums)) = 0)"

definition tl_ledger_step :: "tl_ledger \<Rightarrow> int list \<Rightarrow> int list \<Rightarrow> bool \<Rightarrow> bool \<Rightarrow> bool \<Rightarrow> bool \<Rightarrow> bool \<Rightarrow>
    py_error + tl_ledger \<times> ledger_signals" where
  "tl_ledger_step L grants demands receive send finish shared reset =
     (if reset then
        Inr (L\<lparr>tg_capacity := replicate 20 0, tg_available := replicate 20 0, tg_done := False, tg_shared := False\<rparr>,
             \<lparr>lg_allowed = False, lg_taken = False, lg_error = False\<rparr>)
      else
        rbind (ensure (length grants = 20 \<and> length demands = 20 \<and>
          list_all (\<lambda>x. 0 \<le> x \<and> x \<le> tg_limit L) (grants @ demands))) (\<lambda>_.
        let adds = (if receive then grants else replicate 20 0);
            (adds, wants) = (if tg_shared L then (merge_pools adds, merge_pools demands) else (adds, demands));
            sums = map2 (+) (tg_available L) adds;
            limits = (if tg_done L then tg_capacity L else replicate 20 (tg_limit L));
            completing = (receive \<and> finish \<and> \<not> tg_done L);
            error = (exceeds_any sums limits \<or> (completing \<and> \<not> shared \<and> \<not> pools_filled sums));
            allowed = (tg_done L \<and> \<not> error \<and> \<not> exceeds_any wants (tg_available L));
            taken = (send \<and> allowed);
            L' = (if error then L
                  else
                    let available = map2 (\<lambda>a q. a - (if taken then q else 0)) sums wants;
                        capacity = (if tg_done L then tg_capacity L else map2 (+) (tg_capacity L) adds)
                    in if completing then
                         if shared then L\<lparr>tg_available := merge_pools available, tg_capacity := merge_pools capacity,
                             tg_done := True, tg_shared := True\<rparr>
                         else L\<lparr>tg_available := available, tg_capacity := capacity, tg_done := True, tg_shared := False\<rparr>
                       else L\<lparr>tg_available := available, tg_capacity := capacity\<rparr>)
        in Inr (L', \<lparr>lg_allowed = allowed, lg_taken = taken, lg_error = error\<rparr>)))"

end
