(* ===== verification/Tl_Receive.thy ===== *)
theory Tl_Receive
  imports Tl_Credit
begin

section \<open>Receiving flits and releasing credits\<close>

text \<open>
  Models \<open>receive_context.py\<close>, \<open>credit_integration.py\<close> and \<open>credit_publish.py\<close> of \<open>simulator/UAlink2.0/model/tl\<close>: the
  context of a receiver, which says when each half releases credit, the joint transaction of the full-flit
  receiver with the local transmit ledger, and the publication buffer whose words carry grants back.
\<close>

subsection \<open>The receive context\<close>

record release_token =
  rk_kind :: tenure_token
  rk_slot :: nat
  rk_reserve :: bool
  rk_release_data :: bool
  rk_release_cmd :: bool

record receive_context =
  rx_sequence :: sequencer
  rx_queue :: "release_token list"

definition receive_context_new :: "bool \<Rightarrow> receive_context" where
  "receive_context_new auth = \<lparr>rx_sequence = sequencer_new auth, rx_queue = []\<rparr>"

text \<open>
  The loop over the records: those with a tenure turn their tokens, which \<open>decode_context\<close> listed in order, into
  release tokens, the last of which releases the command; a field without tenure releases its command at once,
  in the class found by decoding the field alone.
\<close>

definition release_tokens :: "credit_token list \<Rightarrow> release_token list" where
  "release_tokens ts = map (\<lambda>(j, t). \<lparr>rk_kind = tk_kind t, rk_slot = tk_slot t, rk_reserve = tk_reserve t,
     rk_release_data = (tk_kind t = TokD \<and> \<not> tk_reserve t), rk_release_cmd = (j = length ts - 1)\<rparr>) (enumerate 0 ts)"

definition isolated_field :: "int \<Rightarrow> field_record \<Rightarrow> int" where
  "isolated_field lower r = fld lower (32 * fr_sector r) (32 * field_width (fr_kind r))"

definition release_record :: "int \<Rightarrow> credit_token list \<Rightarrow> nat \<times> release_token list \<times> int list \<Rightarrow> field_record \<Rightarrow>
    py_error + nat \<times> release_token list \<times> int list" where
  "release_record lower tokens = (\<lambda>(index, queue, release) r.
     let halves = length (fr_tenure r) in
     if halves \<noteq> 0
     then Inr (index + halves, queue @ release_tokens (take halves (drop index tokens)), release)
     else rbind (decode_context (isolated_field lower r)) (\<lambda>(_, _, single).
       Inr (index, queue, map2 (+) release single)))"

definition release_consume :: "int list \<times> int list \<times> bool \<times> release_token list \<Rightarrow> half_class \<Rightarrow>
    py_error + int list \<times> int list \<times> bool \<times> release_token list" where
  "release_consume = (\<lambda>(demands, release, store, queue) category.
     if \<not> consumes category then Inr (demands, release, store, queue)
     else
       rbind (pop_first queue) (\<lambda>(t, queue).
       rbind (ensure (token_matches category (rk_kind t))) (\<lambda>_.
         let demands = (if rk_reserve t then add_at (rk_slot t) 1 demands else demands);
             release = (if rk_release_data t then add_at (rk_slot t) 1 release else release);
             release = (if rk_release_cmd t then add_at (rk_slot t - 10) 1 release else release)
         in Inr (demands, release, True, queue))))"

definition receive_context_step :: "receive_context \<Rightarrow> int \<Rightarrow> int option \<times> int option \<Rightarrow> bool \<Rightarrow> bool \<Rightarrow>
    py_error + receive_context \<times> (half_class \<times> half_class) \<times> int list \<times> int list \<times> bool" where
  "receive_context_step c lower msg transfer reset =
     (if reset then
        rbind (sequence_step (rx_sequence c) (None, None) 0 [] True True) (\<lambda>(sequence, _).
          Inr (c\<lparr>rx_sequence := sequence, rx_queue := []\<rparr>, (Quiet, Quiet), replicate 20 0, replicate 20 0, False))
      else
        rbind (if length (rx_queue c) \<le> 1 \<and> fst msg = None
               then rbind (decode_context lower) (\<lambda>(decoded, tokens, demands).
                 rbind (rfold (release_record lower tokens) (0, rx_queue c, replicate 20 0) (cd_records decoded))
                   (\<lambda>(index, queue, release). Inr (decoded, queue, demands, release)))
               else Inr (empty_desc, rx_queue c, replicate 20 0, replicate 20 0)) (\<lambda>(decoded, queue, demands, release).
        rbind (sequence_step (rx_sequence c) msg (cd_fields decoded) (cd_tenure decoded) True False) (\<lambda>(proposal, lo, up).
        rbind (rfold release_consume (demands, release, any_nonzero demands, queue) [lo, up]) (\<lambda>(demands, release, store, queue).
        rbind (ensure (map rk_kind queue = sq_pending proposal)) (\<lambda>_.
          Inr (if transfer then c\<lparr>rx_sequence := proposal, rx_queue := queue\<rparr> else c, (lo, up), demands, release, store))))))"

subsection \<open>The joint transaction\<close>

record integrated =
  ig_bits :: int
  ig_auth :: bool
  ig_sequence :: sequencer
  ig_content :: content
  ig_budget :: budget
  ig_ledger :: tl_ledger
  ig_fatal :: bool

definition integrated_new :: "int \<Rightarrow> bool \<Rightarrow> py_error + integrated" where
  "integrated_new bits auth =
     rbind (ensure (\<not> bits < 8)) (\<lambda>_. rbind (tl_ledger_new bits) (\<lambda>ledger.
       Inr \<lparr>ig_bits = bits, ig_auth = auth, ig_sequence = sequencer_new auth, ig_content = content_new, ig_budget = budget_new,
            ig_ledger = ledger, ig_fatal = False\<rparr>))"

record integrated_signals =
  is_rx_allowed :: bool
  is_rx_taken :: bool
  is_rx_rejected :: bool
  is_tx_allowed :: bool
  is_tx_taken :: bool
  is_classes :: "int \<times> int"
  is_init_repeat :: bool
  is_init_conflict :: bool

definition integrated_idle :: integrated_signals where
  "integrated_idle = \<lparr>is_rx_allowed = False, is_rx_taken = False, is_rx_rejected = False, is_tx_allowed = False,
     is_tx_taken = False, is_classes = (7, 7), is_init_repeat = False, is_init_conflict = False\<rparr>"

text \<open>
  The body of the \<open>try\<close>: full legality, the classes, and the updated copies of sequence, content and budget. The
  copies are used only when the flit is legal.
\<close>

definition integrated_try :: "integrated \<Rightarrow> int \<Rightarrow> int \<Rightarrow> int option \<times> int option \<Rightarrow> bool \<Rightarrow>
    py_error + bool \<times> (int \<times> int) \<times> sequencer \<times> content \<times> budget" where
  "integrated_try g lower upper messages is_control =
     rbind (if is_control then derive_control lower else Inr empty_desc) (\<lambda>desc.
     rbind (sequence_step (ig_sequence g) messages (cd_fields desc) (cd_tenure desc) True False) (\<lambda>(sequence, lo, up).
       let rq = count_requests (cd_records desc); rs = count_responses (cd_records desc);
           (req_limit, rsp_limit) = budget_available (ig_budget g);
           fit = (rq \<le> req_limit \<and> rs \<le> rsp_limit);
           (content, signals) = content_step (ig_content g) (class_code lo, class_code up) (lower, upper) (cd_fields desc) True False;
           full_ok = (fit \<and> cg_allowed signals)
       in rbind (if full_ok then budget_step (ig_budget g) rq rs True False else Inr (ig_budget g, False)) (\<lambda>(budget, _).
            Inr (full_ok, if full_ok then (class_code lo, class_code up) else (7, 7), sequence, content, budget))))"

definition integrated_step :: "integrated \<Rightarrow> int \<Rightarrow> int \<Rightarrow> int \<Rightarrow> bool \<Rightarrow> bool \<Rightarrow> int list option \<Rightarrow> bool \<Rightarrow>
    py_error + integrated \<times> integrated_signals" where
  "integrated_step g lower upper msg receive send demands reset =
     (if reset then rbind (integrated_new (ig_bits g) (ig_auth g)) (\<lambda>g'. Inr (g', integrated_idle))
      else if ig_fatal g then Inr (g, integrated_idle\<lparr>is_rx_rejected := receive\<rparr>)
      else
        let messages = flit_messages lower upper msg;
            is_control = (length (sq_pending (ig_sequence g)) \<le> 1 \<and> fst messages = None);
            events = decode_events lower upper msg is_control
        in rbind (case integrated_try g lower upper messages is_control of
                    Inl ValueError \<Rightarrow> Inr (False, (7, 7), ig_sequence g, ig_content g, ig_budget g)
                  | Inl e \<Rightarrow> Inl e
                  | Inr x \<Rightarrow> Inr x) (\<lambda>(full_ok, classes, sequence, content, budget).
        let flags = map (\<lambda>i. fld (we_shared events) i 1 \<noteq> 0) (filter (\<lambda>i. fld (we_init events) i 1 \<noteq> 0) [0, 1]);
            repeat = (flags \<noteq> [] \<and> (tg_done (ig_ledger g) \<or> length flags > 1));
            mode = (if tg_done (ig_ledger g) then tg_shared (ig_ledger g) else if flags \<noteq> [] then flags ! 0 else False);
            conflict = list_ex (\<lambda>flag. flag \<noteq> mode) flags
        in rbind (tl_ledger_step (ig_ledger g) (we_grants events) (case demands of Some d \<Rightarrow> d | None \<Rightarrow> replicate 20 0)
                    receive send (flags \<noteq> []) mode False) (\<lambda>(ledger, preview).
        let rx_allowed = (full_ok \<and> we_valid events \<and> \<not> lg_error preview);
            joint_ok = (\<not> receive \<or> rx_allowed);
            tx_allowed = (lg_allowed preview \<and> joint_ok);
            g1 = (if joint_ok then g\<lparr>ig_ledger := ledger\<rparr> else g);
            g2 = (if receive then
                    if rx_allowed then g1\<lparr>ig_sequence := sequence, ig_content := content, ig_budget := budget\<rparr>
                    else g1\<lparr>ig_fatal := True\<rparr>
                  else g1)
        in Inr (g2, \<lparr>is_rx_allowed = rx_allowed, is_rx_taken = (receive \<and> rx_allowed), is_rx_rejected = (receive \<and> \<not> rx_allowed),
             is_tx_allowed = tx_allowed, is_tx_taken = (send \<and> tx_allowed), is_classes = (if rx_allowed then classes else (7, 7)),
             is_init_repeat = (receive \<and> repeat), is_init_conflict = (receive \<and> conflict)\<rparr>))))"

end
