(* ===== verification/Tl_Context.thy ===== *)
theory Tl_Context
  imports Tl_Receive
begin

section \<open>The two parsers and the contexts that follow them\<close>

text \<open>
  Theorems about \<open>credit_events.py\<close>, \<open>credit_context.py\<close> and \<open>credit_admission.py\<close>: the bottom-up grammar of the wire decoder finds the
  fields of the top-down parser, and the credit metadata of a sender never disagrees with its sequencer.
\<close>

subsection \<open>Bottom-up and top-down parsing agree\<close>

lemma prefix_fold:
  "n \<le> 8 \<Longrightarrow> foldl (prefix_entry lower) (Some [] # replicate 8 None) [1..<Suc n] =
     map (\<lambda>e. if e \<le> n then sectors lower e else None) [0..<9]"
proof (induction n)
  case 0
  show ?case by (simp add: upt_rec numeral_eq_Suc)
next
  case (Suc n)
  let ?t = "\<lambda>n. map (\<lambda>e. if e \<le> n then sectors lower e else None) [0..<9]"
  let ?k = "sector_kind lower (Suc n)"
  let ?w = "grammar_width ?k"
  let ?s = "Suc n - ?w"
  have fold: "foldl (prefix_entry lower) (Some [] # replicate 8 None) [1..<Suc (Suc n)] = prefix_entry lower (?t n) (Suc n)"
    using Suc by (simp add: upt_Suc_append)
  have s: "?s \<le> n" "?s < 9" using Suc.prems grammar_width_pos [of ?k] by linarith+
  then have nth: "?t n ! ?s = sectors lower ?s" by simp
  have upd: "?t (Suc n) = (?t n)[Suc n := sectors lower (Suc n)]"
    using Suc.prems by (intro nth_equalityI) (auto simp: nth_list_update)
  have none: "(?t n)[Suc n := None] = ?t n"
    using Suc.prems by (intro nth_equalityI) (auto simp: nth_list_update)
  show ?case
  proof (cases "?w \<le> Suc n \<and> ?s mod ?w = 0")
    case True
    then have "sectors lower (Suc n) = map_option (\<lambda>fs. fs @ [(?s, ?k)]) (sectors lower ?s)"
      by (subst sectors.simps) (simp add: Let_def)
    then show ?thesis
      unfolding fold upd using True none by (cases "sectors lower ?s") (simp_all only: prefix_entry_def Let_def nth, auto)
  next
    case False
    then have "sectors lower (Suc n) = None" by (subst sectors.simps) (auto simp: Let_def)
    then show ?thesis unfolding fold upd using False none by (auto simp: prefix_entry_def Let_def)
  qed
qed

lemma wire_fields_sectors: "wire_fields lower = sectors lower 8"
  using prefix_fold [of 8 lower] by (simp add: wire_fields_def del: upt_Suc)

lemma parsers_agree:
  "(case derive_control word of Inl e \<Rightarrow> e = ValueError
    | Inr d \<Rightarrow> \<exists>fs. wire_fields word = Some fs \<and>
        map (\<lambda>r. (fr_sector r, fr_kind r)) (cd_records d) = filter (\<lambda>(sector, kind). kind \<noteq> 0) fs)"
proof (cases "derive_control word")
  case (Inl e)
  then show ?thesis using derive_control_raises [of word] by (simp add: raises_only_def)
next
  case (Inr d)
  then obtain fs where "wire_fields word = Some fs" "d = desc_of word fs" by (auto simp: derive_control_Inr wire_fields_sectors)
  then show ?thesis using Inr by (simp add: desc_of_def proper_fields_def Let_def comp_def)
qed

lemma sector_kind_above: "fits (32 * w) word \<Longrightarrow> w < e \<Longrightarrow> sector_kind word e = 0"
  unfolding sector_kind_def by (rule fld_below_base) auto

lemma sectors_above:
  "fits (32 * w) word \<Longrightarrow> w \<le> e \<Longrightarrow> sectors word e = map_option (\<lambda>fs. fs @ map (\<lambda>i. (i, 0)) [w..<e]) (sectors word w)"
proof (induction e)
  case (Suc e)
  show ?case
  proof (cases "w = Suc e")
    case True
    then show ?thesis by (simp add: option.map_ident)
  next
    case False
    then have "sector_kind word (Suc e) = 0" "w \<le> e" using Suc.prems sector_kind_above by auto
    then show ?thesis
      using Suc by (subst sectors.simps) (simp add: Let_def grammar_width_def option.map_comp comp_def)
  qed
qed (simp add: option.map_ident)

lemma any_nonzero_iff: "length xs = 20 \<Longrightarrow> any_nonzero xs \<longleftrightarrow> (\<exists>k<20. xs ! k \<noteq> 0)"
  by (auto simp: any_nonzero_def list_ex_iff Bex_def in_set_conv_nth)

subsection \<open>The metadata of a control word\<close>

definition record_slot :: "int \<Rightarrow> field_record \<Rightarrow> nat" where
  "record_slot word r = record_role r * 5 + record_lane word r"

definition record_tokens :: "int \<Rightarrow> field_record \<Rightarrow> credit_token list" where
  "record_tokens word r = field_tokens (10 + record_slot word r) 0 (fr_tenure r)"

lemma record_slot_less: "record_slot word r < 10"
proof -
  have "nat (fld w k 2) \<le> 3" for w k using fld_range [of w k 2] by simp
  then have "record_lane word r \<le> 4" by (simp add: record_lane_def Let_def)
  then show ?thesis by (simp add: record_slot_def record_role_def)
qed

lemma length_add_at [simp]: "length (add_at k n xs) = length xs"
  by (simp add: add_at_def)

lemma nth_add_at [simp]: "i < length xs \<Longrightarrow> add_at k n xs ! i = xs ! i + (if i = k then n else 0)"
  by (auto simp: add_at_def nth_list_update)

lemma tokens_kind [simp]: "map tk_kind (field_tokens slot half ts) = ts"
  by (induction slot half ts rule: field_tokens.induct) simp_all

lemma length_field_tokens [simp]: "length (field_tokens slot half ts) = length ts"
  by (induction slot half ts rule: field_tokens.induct) simp_all

lemma field_tokens_append:
  "field_tokens slot half (xs @ ys) = field_tokens slot half xs @ field_tokens slot (half + count_data xs) ys"
  by (induction slot half xs rule: field_tokens.induct) (simp_all add: count_data_def)

lemma count_data_shape: "count_data (replicate (2 * n) TokD @ (if b then [TokB] else [])) = 2 * n"
  by (simp add: count_data_def)

lemma derive_control_even:
  assumes "derive_control word = Inr d" "r \<in> set (cd_records d)"
  obtains n b where "fr_tenure r = replicate (2 * n) TokD @ (if b then [TokB] else [])"
proof -
  obtain fs where fs: "list_all (tenure_known word) fs" "d = desc_of word fs" using assms(1) by (auto simp: derive_control_Inr)
  then obtain f where "f \<in> set fs" "r = field_of word f" using assms(2) by (auto simp: desc_of_def Let_def proper_fields_def)
  then obtain t where "field_tenure (snd f) (fld word (32 * fst f) (32 * grammar_width (snd f))) = Inr t" "fr_tenure r = t"
    using fs(1) by (auto simp: list_all_iff tenure_known_def field_of_def split: prod.splits) 
  with field_tenure_shape that show thesis by metis
qed

lemma rfold_context_field:
  assumes "\<And>r. r \<in> set rs \<Longrightarrow> count_data (fr_tenure r) mod 2 = 0"
  shows "rfold (context_field word) (demands, tokens) rs =
    Inr (foldl (\<lambda>v r. add_at (record_slot word r) 1 v) demands rs, tokens @ concat (map (record_tokens word) rs))"
  using assms
  by (induction rs arbitrary: demands tokens)
    (simp_all add: context_field_def record_slot_def record_tokens_def Let_def add.assoc)

definition word_tokens :: "int \<Rightarrow> control_desc \<Rightarrow> credit_token list" where
  "word_tokens word d = concat (map (record_tokens word) (cd_records d))"

definition word_commands :: "int \<Rightarrow> control_desc \<Rightarrow> int list" where
  "word_commands word d = foldl (\<lambda>v r. add_at (record_slot word r) 1 v) (replicate 20 0) (cd_records d)"

text \<open>Decoding the credits adds no failure of its own: every tenure the parser derives has an even number of data halves.\<close>

lemma decode_context_eq:
  "decode_context word = (case derive_control word of Inl e \<Rightarrow> Inl e | Inr d \<Rightarrow> Inr (d, word_tokens word d, word_commands word d))"
proof (cases "derive_control word")
  case (Inr d)
  have "count_data (fr_tenure r) mod 2 = 0" if "r \<in> set (cd_records d)" for r
    using derive_control_even [OF Inr that] count_data_shape by (metis mod_mult_self1_is_0)
  then show ?thesis
    by (simp add: decode_context_def Inr rfold_context_field word_tokens_def word_commands_def)
qed (simp add: decode_context_def)

lemma word_tokens_kind: "derive_control word = Inr d \<Longrightarrow> map tk_kind (word_tokens word d) = cd_tenure d"
  by (auto simp: derive_control_Inr desc_of_def word_tokens_def map_concat record_tokens_def comp_def Let_def)

subsection \<open>Reservations still promised\<close>

text \<open>
  A queue of metadata is paired when every reserving data half is followed by its second half, in the same
  class. What remains of a paired queue is paired, so a queue of at most one token reserves nothing.
\<close>

fun paired :: "credit_token list \<Rightarrow> bool" where
  "paired [] = True"
| "paired (t # ts) =
     (if tk_reserve t then tk_kind t = TokD \<and> (case ts of [] \<Rightarrow> False
        | u # us \<Rightarrow> tk_kind u = TokD \<and> \<not> tk_reserve u \<and> tk_slot u = tk_slot t) \<and> paired ts
      else paired ts)"

lemma paired_append: "paired xs \<Longrightarrow> paired ys \<Longrightarrow> paired (xs @ ys)"
  by (induction xs rule: paired.induct) (auto split: list.splits if_splits)

lemma paired_tl: "paired (t # ts) \<Longrightarrow> paired ts"
  by (simp split: if_splits)

lemma paired_field: "even half \<Longrightarrow> paired (field_tokens slot half (replicate (2 * n) TokD @ (if b then [TokB] else [])))"
proof (induction n arbitrary: half)
  case (Suc n)
  then have "paired (field_tokens slot (Suc (Suc half)) (replicate (2 * n) TokD @ (if b then [TokB] else [])))" by simp
  moreover have "even half" "Suc half mod 2 = 1" using Suc.prems by presburger+
  ultimately show ?case by (auto simp: even_iff_mod_2_eq_zero)
qed auto

lemma paired_word_tokens: "derive_control word = Inr d \<Longrightarrow> paired (word_tokens word d)"
proof -
  assume d: "derive_control word = Inr d"
  have "paired (record_tokens word r)" if "r \<in> set (cd_records d)" for r
    using derive_control_even [OF d that] paired_field by (metis even_zero record_tokens_def)
  then have "paired (concat (map (record_tokens word) rs))" if "set rs \<subseteq> set (cd_records d)" for rs
    using that by (induction rs) (auto intro: paired_append)
  then show ?thesis by (simp add: word_tokens_def)
qed

definition promised :: "credit_token list \<Rightarrow> nat \<Rightarrow> int" where
  "promised ts k = int (length (filter (\<lambda>t. tk_reserve t \<and> tk_slot t = k) ts))"

lemma promised_simps [simp]:
  "promised [] k = 0" "promised (xs @ ys) k = promised xs k + promised ys k"
  "promised (t # ts) k = (if tk_reserve t \<and> tk_slot t = k then 1 else 0) + promised ts k"
  by (simp_all add: promised_def)

lemma promised_nonneg [simp]: "0 \<le> promised ts k"
  by (simp add: promised_def)

lemma promised_short: "paired ts \<Longrightarrow> length ts \<le> 1 \<Longrightarrow> promised ts k = 0"
  by (cases ts) (auto split: if_splits)

lemma length_word_commands [simp]: "length (word_commands word d) = 20"
proof -
  have "length (foldl (\<lambda>v r. add_at (record_slot word r) 1 v) v rs) = length v" for v rs
    by (induction rs arbitrary: v) simp_all
  then show ?thesis by (simp add: word_commands_def)
qed

lemma fold_commands_nth:
  "length v = 20 \<Longrightarrow> k < 20 \<Longrightarrow> foldl (\<lambda>v r. add_at (record_slot word r) 1 v) v rs ! k =
     v ! k + int (length (filter (\<lambda>r. record_slot word r = k) rs))"
  by (induction rs arbitrary: v) auto

lemma word_commands_nth:
  "k < 20 \<Longrightarrow> word_commands word d ! k = int (length (filter (\<lambda>r. record_slot word r = k) (cd_records d)))"
  by (simp add: word_commands_def fold_commands_nth)

lemma fold_reserve:
  "length v = 20 \<Longrightarrow> k < 20 \<Longrightarrow>
     length (foldl (\<lambda>v t. if tk_reserve t then add_at (tk_slot t) 1 v else v) v ts) = 20 \<and>
     foldl (\<lambda>v t. if tk_reserve t then add_at (tk_slot t) 1 v else v) v ts ! k = v ! k + promised ts k"
  by (induction ts arbitrary: v) auto

text \<open>What a whole control word needs: one credit for each command and one for each pair of data halves.\<close>

definition word_need :: "int \<Rightarrow> control_desc \<Rightarrow> int list" where
  "word_need word d = map (\<lambda>k. word_commands word d ! k + promised (word_tokens word d) k) [0..<20]"

lemma requirements_eq:
  "requirements word shared = (case derive_control word of Inl e \<Rightarrow> Inl e
     | Inr d \<Rightarrow> Inr (if shared then merge_pools (word_need word d) else word_need word d))"
proof (cases "derive_control word")
  case (Inr d)
  let ?f = "foldl (\<lambda>v t. if tk_reserve t then add_at (tk_slot t) 1 v else v) (word_commands word d) (word_tokens word d)"
  have "length ?f = 20" using fold_reserve [of "word_commands word d" 0 "word_tokens word d"] by simp
  then have "?f = word_need word d"
    using fold_reserve [of "word_commands word d" _ "word_tokens word d"]
    by (intro nth_equalityI) (auto simp: word_need_def)
  then show ?thesis by (simp add: requirements_def decode_context_eq Inr)
qed (simp add: requirements_def decode_context_eq)

subsection \<open>The context follows the sequencer\<close>

definition control_due :: "'a list \<Rightarrow> int option \<times> int option \<Rightarrow> bool" where
  "control_due pending msg \<longleftrightarrow> length pending \<le> 1 \<and> fst msg = None"

definition due_desc :: "'a list \<Rightarrow> int \<Rightarrow> int option \<times> int option \<Rightarrow> py_error + control_desc" where
  "due_desc pending lower msg = (if control_due pending msg then derive_control lower else Inr empty_desc)"

text \<open>The classifier's verdict on a flit, with the parsed control word as its input.\<close>

definition classify :: "sequencer \<Rightarrow> int \<Rightarrow> int option \<times> int option \<Rightarrow> py_error + control_desc \<times> sequencer \<times> half_class \<times> half_class" where
  "classify s lower msg = rbind (due_desc (sq_pending s) lower msg) (\<lambda>d.
     rbind (sequence_step s msg (cd_fields d) (cd_tenure d) True False) (\<lambda>x. Inr (d, x)))"

definition in_lockstep :: "credit_context \<Rightarrow> bool" where
  "in_lockstep c \<longleftrightarrow> map tk_kind (cc_pending c) = sq_pending (cc_sequence c) \<and> paired (cc_pending c)"

definition due_tokens :: "credit_context \<Rightarrow> int \<Rightarrow> int option \<times> int option \<Rightarrow> control_desc \<Rightarrow> credit_token list" where
  "due_tokens c lower msg d = cc_pending c @ (if control_due (cc_pending c) msg then word_tokens lower d else [])"

definition due_commands :: "'a list \<Rightarrow> int \<Rightarrow> int option \<times> int option \<Rightarrow> control_desc \<Rightarrow> int list" where
  "due_commands pending lower msg d = (if control_due pending msg then word_commands lower d else replicate 20 0)"

lemma in_lockstep_new [simp]: "in_lockstep (context_new auth)"
  by (simp add: in_lockstep_def context_new_def sequencer_new_def)

lemma context_consume_takes:
  assumes "take_token category (map tk_kind queue) = Some q" and "paired queue" "length demands = 20"
  shows "\<exists>demands' queue'. context_consume (demands, queue) category = Inr (demands', queue') \<and>
    map tk_kind queue' = q \<and> paired queue' \<and> length demands' = 20 \<and>
    (\<forall>k<20. demands' ! k + promised queue' k = demands ! k + promised queue k)"
proof (cases "consumes category")
  case True
  then obtain t ts where q: "queue = t # ts" "token_matches category (tk_kind t)" "q = map tk_kind ts"
    using assms(1) by (cases queue) (auto simp: take_token_def split: if_splits)
  then show ?thesis
    using True assms(2,3) paired_tl [of t ts] by (auto simp: context_consume_def pop_first_def)
qed (use assms in \<open>auto simp: context_consume_def take_token_def\<close>)

lemma take_two:
  assumes "take_token lo (map tk_kind queue) = Some q" "take_token up q = Some q'" "paired queue" "length demands = 20"
  shows "\<exists>demands' queue'. rfold context_consume (demands, queue) [lo, up] = Inr (demands', queue') \<and>
    map tk_kind queue' = q' \<and> paired queue' \<and> length demands' = 20 \<and>
    (\<forall>k<20. demands' ! k + promised queue' k = demands ! k + promised queue k)"
proof -
  obtain d1 q1 where 1: "context_consume (demands, queue) lo = Inr (d1, q1)" "map tk_kind q1 = q" "paired q1" "length d1 = 20"
    "\<forall>k<20. d1 ! k + promised q1 k = demands ! k + promised queue k"
    using context_consume_takes [OF assms(1,3,4)] by blast
  obtain d2 q2 where 2: "context_consume (d1, q1) up = Inr (d2, q2)" "map tk_kind q2 = q'" "paired q2" "length d2 = 20"
    "\<forall>k<20. d2 ! k + promised q2 k = d1 ! k + promised q1 k"
    using context_consume_takes [of up q1 q' d1] assms(2) 1 by auto
  show ?thesis using 1 2 by auto
qed

lemma context_decodes:
  "(if length (cc_pending c) \<le> 1 \<and> fst msg = None
    then rbind (decode_context lower) (\<lambda>(decoded, appended, demands). Inr (decoded, cc_pending c @ appended, demands))
    else Inr (empty_desc, cc_pending c, replicate 20 0)) =
   rbind (due_desc (cc_pending c) lower msg) (\<lambda>d. Inr (d, due_tokens c lower msg d, due_commands (cc_pending c) lower msg d))"
  by (auto simp: due_desc_def control_due_def due_tokens_def due_commands_def decode_context_eq split: sum.splits)

lemma context_consumed:
  assumes c: "in_lockstep c" and f: "fits 256 lower"
    and d: "due_desc (cc_pending c) lower msg = Inr d"
    and step: "sequence_step (cc_sequence c) msg (cd_fields d) (cd_tenure d) True False = Inr (p, lo, up)"
  shows "\<exists>demands queue.
    rfold context_consume (due_commands (cc_pending c) lower msg d, due_tokens c lower msg d) [lo, up] = Inr (demands, queue) \<and>
    context_step c lower msg transfer False =
      Inr (if transfer then c\<lparr>cc_sequence := p, cc_pending := queue\<rparr> else c, (lo, up), demands) \<and>
    map tk_kind queue = sq_pending p \<and> paired queue \<and> length demands = 20 \<and>
    (\<forall>k<20. demands ! k + promised queue k =
      due_commands (cc_pending c) lower msg d ! k + promised (due_tokens c lower msg d) k)"
proof -
  have len: "length (sq_pending (cc_sequence c)) = length (cc_pending c)"
    using c by (metis in_lockstep_def length_map)
  have kinds: "map tk_kind (due_tokens c lower msg d) = owes (cc_sequence c) msg (cd_tenure d)"
    using d word_tokens_kind c len by (auto simp: due_tokens_def owes_def in_lockstep_def due_desc_def control_due_def split: if_splits)
  have pr: "paired (due_tokens c lower msg d)"
    using c d paired_word_tokens by (auto simp: due_tokens_def in_lockstep_def due_desc_def intro: paired_append split: if_splits)
  obtain q where q: "take_token lo (owes (cc_sequence c) msg (cd_tenure d)) = Some q" "take_token up q = Some (sq_pending p)"
    using sequence_step_takes [OF step] by blast
  have l: "length (due_commands (cc_pending c) lower msg d) = 20" by (simp add: due_commands_def)
  obtain demands queue where r: "rfold context_consume (due_commands (cc_pending c) lower msg d, due_tokens c lower msg d) [lo, up] = Inr (demands, queue)"
    "map tk_kind queue = sq_pending p" "paired queue" "length demands = 20"
    "\<forall>k<20. demands ! k + promised queue k = due_commands (cc_pending c) lower msg d ! k + promised (due_tokens c lower msg d) k"
    using take_two [OF q(1) [folded kinds] q(2) pr l] by blast
  have "context_step c lower msg transfer False =
      Inr (if transfer then c\<lparr>cc_sequence := p, cc_pending := queue\<rparr> else c, (lo, up), demands)"
    unfolding context_step_def context_decodes using f d step r by (simp del: rfold.simps)
  then show ?thesis using r by blast
qed

text \<open>
  The context never raises on its own: it fails exactly when the control word or the classifier does, and then with the
  same error. What it demands of the ledger, with what it still promises, is what it promised before and what the
  control word brought.
\<close>

lemma context_follows:
  assumes c: "in_lockstep c" and f: "fits 256 lower"
  shows "(case classify (cc_sequence c) lower msg of
      Inl e \<Rightarrow> context_step c lower msg transfer False = Inl e
    | Inr (d, p, lo, up) \<Rightarrow> \<exists>demands queue.
        context_step c lower msg transfer False =
          Inr (if transfer then c\<lparr>cc_sequence := p, cc_pending := queue\<rparr> else c, (lo, up), demands) \<and>
        map tk_kind queue = sq_pending p \<and> paired queue \<and> length demands = 20 \<and>
        (\<forall>k<20. demands ! k + promised queue k =
          due_commands (cc_pending c) lower msg d ! k + promised (due_tokens c lower msg d) k))"
proof -
  have len: "length (sq_pending (cc_sequence c)) = length (cc_pending c)"
    using c by (metis in_lockstep_def length_map)
  then have ctl: "control_due (sq_pending (cc_sequence c)) msg = control_due (cc_pending c) msg" by (simp add: control_due_def)
  have dd: "due_desc (sq_pending (cc_sequence c)) lower msg = due_desc (cc_pending c) lower msg"
    by (simp add: due_desc_def ctl)
  show ?thesis
  proof (cases "due_desc (cc_pending c) lower msg")
    case (Inl e)
    then show ?thesis using f unfolding context_step_def context_decodes by (simp add: classify_def dd)
  next
    case (Inr d)
    show ?thesis
    proof (cases "sequence_step (cc_sequence c) msg (cd_fields d) (cd_tenure d) True False")
      case (Inl e)
      then show ?thesis using f Inr unfolding context_step_def context_decodes by (simp add: classify_def dd)
    next
      case step: (Inr x)
      obtain p lo up where x: "x = (p, lo, up)" by (cases x)
      have "classify (cc_sequence c) lower msg = Inr (d, p, lo, up)" using Inr step by (simp add: classify_def dd x)
      then show ?thesis using context_consumed [OF c f Inr step [unfolded x], of transfer] by (simp only: sum.case prod.case) blast
    qed
  qed
qed

end
