(* ===== verification/Tl_Return.thy ===== *)
theory Tl_Return
  imports Tl_Context
begin

section \<open>The receiver mirrors the sender and returns what it reserves\<close>

text \<open>
  Theorems about \<open>receive_context.py\<close>: on the same flits the context of the receiver classifies and reserves exactly as
  the context of the sender does, and every credit it reserves is released once, none before it was reserved.
\<close>

subsection \<open>A field decoded alone\<close>

lemma sector_kind_fld: "0 < e \<Longrightarrow> s + e \<le> s + w \<Longrightarrow> sector_kind (fld word (32 * s) (32 * w)) e = sector_kind word (s + e)"
proof -
  assume "0 < e" "s + e \<le> s + w"
  then have "32 * e - 4 + 4 \<le> 32 * w" "32 * s + (32 * e - 4) = 32 * (s + e) - 4" by auto
  then show ?thesis by (simp add: sector_kind_def fld_fld)
qed

lemma isolated_decodes:
  assumes d: "derive_control lower = Inr d" and r: "r \<in> set (cd_records d)"
  obtains s k where "isolated_field lower r = fld lower (32 * s) (32 * grammar_width k)" "r = field_of lower (s, k)" "k \<in> {1, 2, 3, 4, 5}"
    "derive_control (isolated_field lower r) = Inr (desc_of (isolated_field lower r) [(0, k)])"
proof -
  obtain fs where fs: "sectors lower 8 = Some fs" "list_all (tenure_known lower) fs" "d = desc_of lower fs"
    using d by (auto simp: derive_control_Inr)
  then obtain s k where f: "(s, k) \<in> set fs" "r = field_of lower (s, k)" "k \<noteq> 0"
    using r by (auto simp: desc_of_def Let_def proper_fields_def)
  have place: "s + grammar_width k \<le> 8" "0 \<le> k" "k \<le> 5" "sector_kind lower (s + grammar_width k) = k"
    using sectors_place [OF fs(1)] f(1) by (auto simp: list_all_iff)
  let ?w = "grammar_width k"
  let ?v = "fld lower (32 * s) (32 * ?w)"
  have iso: "isolated_field lower r = ?v"
    using place by (simp add: isolated_field_def f(2) field_width_grammar)
  have w8: "?w \<le> 8" using place(1) by simp
  have kind: "sector_kind ?v ?w = k" using sector_kind_fld [of ?w s ?w lower] place(4) by simp
  have fit: "fits (32 * ?w) ?v" by simp
  have "sectors ?v ?w = Some [(0, k)]" using kind by (subst sectors.simps) (simp add: Let_def grammar_width_pos [THEN less_imp_neq, symmetric])
  then have sec: "sectors ?v 8 = Some ([(0, k)] @ map (\<lambda>i. (i, 0)) [?w..<8])" using sectors_above [OF fit w8] by simp
  have "tenure_known lower (s, k)" using fs(2) f(1) by (auto simp: list_all_iff)
  then have "tenure_known ?v (0, k)" by (simp add: tenure_known_def fld_fld)
  moreover have "tenure_known ?v (i, 0)" for i by (simp add: tenure_known_def field_tenure_def)
  ultimately have known: "list_all (tenure_known ?v) ([(0, k)] @ map (\<lambda>i. (i, 0)) [?w..<8])" by (auto simp: list_all_iff)
  have proper: "proper_fields ([(0, k)] @ map (\<lambda>i. (i, 0)) [?w..<8]) = [(0, k)]" using f(3) by (simp add: proper_fields_def)
  have "fits 256 ?v" using fits_mono [OF fit, of 256] w8 by simp
  then have "derive_control ?v = Inr (desc_of ?v [(0, k)])"
    unfolding derive_control_Inr using sec known proper f(3) by (auto simp: desc_of_def proper_fields_def)
  moreover have "k \<in> {1, 2, 3, 4, 5}" using place f(3) by auto
  ultimately show thesis using that iso f(2) by metis
qed

lemma isolated_commands:
  assumes d: "derive_control lower = Inr d" and r: "r \<in> set (cd_records d)"
  obtains d' ts v where "decode_context (isolated_field lower r) = Inr (d', ts, v)" "length v = 20"
    "\<And>k. k < 20 \<Longrightarrow> v ! k = (if record_slot lower r = k then 1 else 0)"
proof -
  obtain s k where iso: "isolated_field lower r = fld lower (32 * s) (32 * grammar_width k)" "r = field_of lower (s, k)" "k \<in> {1, 2, 3, 4, 5}"
    "derive_control (isolated_field lower r) = Inr (desc_of (isolated_field lower r) [(0, k)])"
    using isolated_decodes [OF d r] .
  let ?v = "isolated_field lower r"
  have "vc_position k + 2 \<le> 32 * grammar_width k" "pool_position k + 1 \<le> 32 * grammar_width k"
    using iso(3) by (auto simp: vc_position_def pool_position_def grammar_width_def)
  then have "fld ?v (vc_position k) 2 = fld (drop_bit (32 * s) lower) (vc_position k) 2"
    "fld ?v (pool_position k) 1 = fld (drop_bit (32 * s) lower) (pool_position k) 1"
    unfolding iso(1) by (simp_all add: fld_fld) (simp_all add: fld_def add.commute)
  then have "record_slot ?v (field_of ?v (0, k)) = record_slot lower r"
    by (simp add: record_slot_def record_role_def record_lane_def Let_def iso(2))
  moreover have "decode_context ?v = Inr (desc_of ?v [(0, k)], word_tokens ?v (desc_of ?v [(0, k)]), word_commands ?v (desc_of ?v [(0, k)]))"
    by (simp add: decode_context_eq iso(4))
  moreover have "cd_records (desc_of ?v [(0, k)]) = [field_of ?v (0, k)]" using iso(3) by (auto simp: desc_of_def Let_def proper_fields_def)
  ultimately show thesis using that by (simp add: word_commands_nth)
qed

subsection \<open>Release tokens\<close>

definition forget :: "release_token \<Rightarrow> credit_token" where
  "forget t = \<lparr>tk_kind = rk_kind t, tk_slot = rk_slot t, tk_reserve = rk_reserve t\<rparr>"

lemma forget_simps [simp]: "tk_kind (forget t) = rk_kind t" "tk_slot (forget t) = rk_slot t" "tk_reserve (forget t) = rk_reserve t"
  by (simp_all add: forget_def)

definition flags_ok :: "release_token list \<Rightarrow> bool" where
  "flags_ok q \<longleftrightarrow> (\<forall>t \<in> set q. rk_release_data t = (rk_kind t = TokD \<and> \<not> rk_reserve t) \<and> 10 \<le> rk_slot t \<and> rk_slot t < 20)"

text \<open>The credits of a class that the queued tokens will release, less those they will still reserve.\<close>

definition debt :: "nat \<Rightarrow> release_token \<Rightarrow> int" where
  "debt k t = of_bool (rk_release_data t \<and> rk_slot t = k) - of_bool (rk_reserve t \<and> rk_slot t = k)
     + of_bool (rk_release_cmd t \<and> rk_slot t - 10 = k)"

definition owed :: "release_token list \<Rightarrow> nat \<Rightarrow> int" where
  "owed q k = (\<Sum>t\<leftarrow>q. debt k t)"

lemma owed_simps [simp]: "owed [] k = 0" "owed (t # q) k = debt k t + owed q k" "owed (p @ q) k = owed p k + owed q k"
  by (simp_all add: owed_def)

definition as_release :: "bool \<Rightarrow> credit_token \<Rightarrow> release_token" where
  "as_release e t = \<lparr>rk_kind = tk_kind t, rk_slot = tk_slot t, rk_reserve = tk_reserve t,
     rk_release_data = (tk_kind t = TokD \<and> \<not> tk_reserve t), rk_release_cmd = e\<rparr>"

lemma release_tokens_snoc: "release_tokens (ts @ [t]) = map (as_release False) ts @ [as_release True t]"
  by (intro nth_equalityI) (auto simp: release_tokens_def as_release_def nth_append nth_enumerate_eq not_less less_Suc_eq)

lemma release_tokens_Nil [simp]: "release_tokens [] = []"
  by (simp add: release_tokens_def)

lemma forget_release_tokens [simp]: "map forget (release_tokens ts) = ts"
  by (intro nth_equalityI) (auto simp: release_tokens_def forget_def nth_enumerate_eq)

lemma as_release_simps [simp]: "rk_kind (as_release b t) = tk_kind t" "rk_slot (as_release b t) = tk_slot t"
  "rk_reserve (as_release b t) = tk_reserve t" "rk_release_cmd (as_release b t) = b"
  "rk_release_data (as_release b t) = (tk_kind t = TokD \<and> \<not> tk_reserve t)"
  by (simp_all add: as_release_def)

text \<open>The data halves of a field balance: half of them reserve, half of them release, in one class.\<close>

lemma field_balance:
  "even half \<Longrightarrow> (\<Sum>t\<leftarrow>field_tokens slot half (replicate (2 * n) TokD @ (if b then [TokB] else [])). debt k (as_release False t)) = 0"
proof (induction n arbitrary: half)
  case (Suc n)
  then have "(\<Sum>t\<leftarrow>field_tokens slot (Suc (Suc half)) (replicate (2 * n) TokD @ (if b then [TokB] else [])). debt k (as_release False t)) = 0" by simp
  moreover have "half mod 2 = 0" "Suc half mod 2 = 1" using Suc.prems by presburger+
  ultimately show ?case by (auto simp: debt_def)
qed (auto simp: debt_def)

lemma field_tokens_slot: "t \<in> set (field_tokens slot half ts) \<Longrightarrow> tk_slot t = slot"
  by (induction slot half ts rule: field_tokens.induct) auto

lemma owed_release_tokens:
  "owed (release_tokens ts) k = (\<Sum>t\<leftarrow>ts. debt k (as_release False t)) + of_bool (ts \<noteq> [] \<and> tk_slot (last ts) - 10 = k)"
proof (cases ts rule: rev_cases)
  case (snoc us u)
  have "debt k (as_release True u) = debt k (as_release False u) + of_bool (tk_slot u - 10 = k)" by (simp add: debt_def)
  then show ?thesis by (simp add: snoc release_tokens_snoc owed_def comp_def)
qed simp

lemma owed_record:
  assumes "derive_control lower = Inr d" "r \<in> set (cd_records d)"
  shows "owed (release_tokens (record_tokens lower r)) k = of_bool (fr_tenure r \<noteq> [] \<and> record_slot lower r = k)"
proof -
  obtain n b where t: "fr_tenure r = replicate (2 * n) TokD @ (if b then [TokB] else [])" using derive_control_even [OF assms] .
  have "(\<Sum>t\<leftarrow>record_tokens lower r. debt k (as_release False t)) = 0"
    unfolding record_tokens_def t by (rule field_balance) simp
  moreover have "record_tokens lower r \<noteq> [] \<longleftrightarrow> fr_tenure r \<noteq> []"
    by (metis length_0_conv length_field_tokens record_tokens_def)
  moreover have "tk_slot (last (record_tokens lower r)) = 10 + record_slot lower r" if "record_tokens lower r \<noteq> []"
    using field_tokens_slot last_in_set [OF that] unfolding record_tokens_def by blast
  ultimately show ?thesis unfolding owed_release_tokens by auto
qed

lemma flags_release_record:
  "flags_ok (release_tokens (record_tokens lower r))"
proof -
  have "10 \<le> tk_slot t \<and> tk_slot t < 20" if "t \<in> set (record_tokens lower r)" for t
    using that field_tokens_slot [of t] record_slot_less [of lower r] by (auto simp: record_tokens_def)
  moreover have "\<exists>u b. u \<in> set ts \<and> t = as_release b u" if "t \<in> set (release_tokens ts)" for ts t
    using that by (cases ts rule: rev_cases) (auto simp: release_tokens_snoc)
  ultimately show ?thesis unfolding flags_ok_def by fastforce
qed

lemma flags_append [simp]: "flags_ok (p @ q) \<longleftrightarrow> flags_ok p \<and> flags_ok q"
  by (auto simp: flags_ok_def)

subsection \<open>Queueing the release tokens of a word\<close>

lemma nth_map2_add: "length xs = 20 \<Longrightarrow> length ys = 20 \<Longrightarrow> k < 20 \<Longrightarrow> map2 (+) xs ys ! k = xs ! k + (ys ! k :: int)"
  by simp

lemma release_records:
  assumes d: "derive_control lower = Inr d" and "set rs \<subseteq> set (cd_records d)" and "length release = 20"
  shows "\<exists>release'. rfold (release_record lower (front @ concat (map (record_tokens lower) rs))) (length front, queue, release) rs =
      Inr (length front + length (concat (map (record_tokens lower) rs)),
           queue @ concat (map (\<lambda>r. release_tokens (record_tokens lower r)) rs), release') \<and> length release' = 20 \<and>
    (\<forall>k<20. release' ! k = release ! k + int (length (filter (\<lambda>r. fr_tenure r = [] \<and> record_slot lower r = k) rs)))"
  using assms(2,3)
proof (induction rs arbitrary: front queue release)
  case (Cons r rs)
  let ?rest = "concat (map (record_tokens lower) rs)"
  let ?tokens = "front @ record_tokens lower r @ ?rest"
  have len: "length (record_tokens lower r) = length (fr_tenure r)" by (simp add: record_tokens_def)
  show ?case
  proof (cases "fr_tenure r = []")
    case False
    have "release_record lower ?tokens (length front, queue, release) r =
        Inr (length front + length (record_tokens lower r), queue @ release_tokens (record_tokens lower r), release)"
      using False by (simp add: release_record_def Let_def flip: len)
    moreover have "\<exists>release'. rfold (release_record lower ((front @ record_tokens lower r) @ ?rest))
        (length (front @ record_tokens lower r), queue @ release_tokens (record_tokens lower r), release) rs =
      Inr (length (front @ record_tokens lower r) + length ?rest,
           (queue @ release_tokens (record_tokens lower r)) @ concat (map (\<lambda>r. release_tokens (record_tokens lower r)) rs), release') \<and>
      length release' = 20 \<and>
      (\<forall>k<20. release' ! k = release ! k + int (length (filter (\<lambda>r. fr_tenure r = [] \<and> record_slot lower r = k) rs)))"
      by (rule Cons.IH) (use Cons.prems in auto)
    ultimately show ?thesis using False by (simp add: add.assoc)
  next
    case True
    then have nil: "record_tokens lower r = []" using len by simp
    have mem: "r \<in> set (cd_records d)" using Cons.prems by simp
    obtain d' ts v where v: "decode_context (isolated_field lower r) = Inr (d', ts, v)" "length v = 20"
      "\<And>k. k < 20 \<Longrightarrow> v ! k = (if record_slot lower r = k then 1 else 0)"
      using isolated_commands [OF d mem] by blast
    have "release_record lower ?tokens (length front, queue, release) r = Inr (length front, queue, map2 (+) release v)"
      using True v(1) by (simp add: release_record_def)
    moreover have "\<exists>release'. rfold (release_record lower (front @ ?rest)) (length front, queue, map2 (+) release v) rs =
      Inr (length front + length ?rest, queue @ concat (map (\<lambda>r. release_tokens (record_tokens lower r)) rs), release') \<and>
      length release' = 20 \<and>
      (\<forall>k<20. release' ! k = map2 (+) release v ! k + int (length (filter (\<lambda>r. fr_tenure r = [] \<and> record_slot lower r = k) rs)))"
      by (rule Cons.IH) (use Cons.prems v(2) in auto)
    ultimately show ?thesis using True nil v Cons.prems(2) by auto
  qed
qed simp

text \<open>
  A word whose tokens have joined the queue: commands without tenure release at once, all others are owed with the
  data of their fields.
\<close>

lemma word_release:
  assumes d: "derive_control lower = Inr d"
  obtains queue' release where
    "rfold (release_record lower (word_tokens lower d)) (0, queue, replicate 20 0) (cd_records d) =
       Inr (length (word_tokens lower d), queue @ queue', release)"
    "map forget queue' = word_tokens lower d" "flags_ok queue'" "length release = 20"
    "\<And>k. k < 20 \<Longrightarrow> word_commands lower d ! k = release ! k + owed queue' k"
proof -
  let ?rs = "cd_records d"
  let ?q = "concat (map (\<lambda>r. release_tokens (record_tokens lower r)) ?rs)"
  obtain release where r: "rfold (release_record lower (word_tokens lower d)) (0, queue, replicate 20 0) ?rs =
       Inr (length (word_tokens lower d), queue @ ?q, release)" "length release = 20"
    "\<forall>k<20. release ! k = replicate 20 0 ! k + int (length (filter (\<lambda>r. fr_tenure r = [] \<and> record_slot lower r = k) ?rs))"
    using release_records [OF d, of ?rs "replicate 20 0" "[]" queue] by (auto simp: word_tokens_def)
  have "owed (concat (map (\<lambda>r. release_tokens (record_tokens lower r)) rs)) k =
      int (length (filter (\<lambda>r. fr_tenure r \<noteq> [] \<and> record_slot lower r = k) rs))" if "set rs \<subseteq> set ?rs" for rs k
    using that by (induction rs) (auto simp: owed_record [OF d])
  moreover have "length (filter (\<lambda>r. record_slot lower r = k) rs) =
    length (filter (\<lambda>r. fr_tenure r = [] \<and> record_slot lower r = k) rs) + length (filter (\<lambda>r. fr_tenure r \<noteq> [] \<and> record_slot lower r = k) rs)" for rs k
    by (induction rs) auto
  ultimately have "word_commands lower d ! k = release ! k + owed ?q k" if "k < 20" for k
    using r(3) that by (simp add: word_commands_nth)
  moreover have "map forget ?q = word_tokens lower d" by (simp add: map_concat word_tokens_def comp_def)
  moreover have "flags_ok (concat (map (\<lambda>r. release_tokens (record_tokens lower r)) rs))" for rs
    by (induction rs) (use flags_release_record in \<open>auto simp: flags_ok_def\<close>)
  ultimately show thesis using that r(1,2) by blast
qed

subsection \<open>The receiver follows the sender\<close>

definition mirrors :: "credit_context \<Rightarrow> receive_context \<Rightarrow> bool" where
  "mirrors c r \<longleftrightarrow> cc_sequence c = rx_sequence r \<and> cc_pending c = map forget (rx_queue r) \<and> flags_ok (rx_queue r)"

lemma mirrors_new [simp]: "mirrors (context_new auth) (receive_context_new auth)"
  by (simp add: mirrors_def context_new_def receive_context_new_def flags_ok_def)

lemma release_consume_follows:
  assumes "context_consume (demands, map forget queue) category = Inr (demands', pending')"
    and "flags_ok queue" "length demands = 20" "length release = 20"
  shows "\<exists>release' store' queue'. release_consume (demands, release, store, queue) category = Inr (demands', release', store', queue') \<and>
    map forget queue' = pending' \<and> flags_ok queue' \<and> length demands' = 20 \<and> length release' = 20 \<and>
    (\<forall>k<20. demands' ! k - release' ! k - owed queue' k = demands ! k - release ! k - owed queue k)"
proof (cases "consumes category")
  case True
  then obtain t q where q: "queue = t # q" "token_matches category (rk_kind t)" "pending' = map forget q"
    "demands' = (if rk_reserve t then add_at (rk_slot t) 1 demands else demands)"
    using assms(1) by (cases queue) (auto simp: context_consume_def pop_first_def)
  have s: "10 \<le> rk_slot t" "rk_slot t < 20" using assms(2) q(1) by (auto simp: flags_ok_def)
  show ?thesis
    using True q s assms(2-4)
    by (auto simp: release_consume_def pop_first_def Let_def debt_def flags_ok_def)
qed (use assms in \<open>auto simp: release_consume_def context_consume_def\<close>)

lemma release_fold_follows:
  assumes "rfold context_consume (demands, map forget queue) cats = Inr (demands', pending')"
    and "flags_ok queue" "length demands = 20" "length release = 20"
  shows "\<exists>release' store' queue'. rfold release_consume (demands, release, store, queue) cats = Inr (demands', release', store', queue') \<and>
    map forget queue' = pending' \<and> flags_ok queue' \<and> length demands' = 20 \<and> length release' = 20 \<and>
    (\<forall>k<20. demands' ! k - release' ! k - owed queue' k = demands ! k - release ! k - owed queue k)"
  using assms
proof (induction cats arbitrary: demands queue release store)
  case (Cons cat cats)
  obtain d1 p1 where 1: "context_consume (demands, map forget queue) cat = Inr (d1, p1)" "rfold context_consume (d1, p1) cats = Inr (demands', pending')"
    using Cons.prems(1) by auto
  obtain r1 s1 q1 where 2: "release_consume (demands, release, store, queue) cat = Inr (d1, r1, s1, q1)" "map forget q1 = p1"
    "flags_ok q1" "length d1 = 20" "length r1 = 20"
    "\<forall>k<20. d1 ! k - r1 ! k - owed q1 k = demands ! k - release ! k - owed queue k"
    using release_consume_follows [OF 1(1) Cons.prems(2-4)] by blast
  show ?case using Cons.IH [of d1 q1 r1 s1] 1 2 by auto
qed auto

text \<open>
  One flit seen by both ends: the receiver raises what the sender raises, and otherwise gives the same classes, reserves the
  same credits and stays the mirror of the sender. What it releases is what it reserves, up to the change of what it owes.
\<close>

lemma receive_follows:
  assumes c: "in_lockstep c" and m: "mirrors c r" and f: "fits 256 lower"
  shows "(case context_step c lower msg transfer False of
      Inl e \<Rightarrow> receive_context_step r lower msg transfer False = Inl e
    | Inr (c', cls, demands) \<Rightarrow> \<exists>r' release store.
        receive_context_step r lower msg transfer False = Inr (r', cls, demands, release, store) \<and>
        mirrors c' r' \<and> in_lockstep c' \<and> length demands = 20 \<and> length release = 20 \<and>
        (transfer \<longrightarrow> (\<forall>k<20. demands ! k + owed (rx_queue r) k = release ! k + owed (rx_queue r') k)))"
proof -
  have sq: "rx_sequence r = cc_sequence c" and pend: "cc_pending c = map forget (rx_queue r)" and fl: "flags_ok (rx_queue r)"
    using m by (auto simp: mirrors_def)
  have len: "length (sq_pending (cc_sequence c)) = length (rx_queue r)" "length (cc_pending c) = length (rx_queue r)"
    using c pend by (metis in_lockstep_def length_map)+
  let ?start = "if length (rx_queue r) \<le> 1 \<and> fst msg = None
    then rbind (decode_context lower) (\<lambda>(decoded, tokens, demands).
      rbind (rfold (release_record lower tokens) (0, rx_queue r, replicate 20 0) (cd_records decoded))
        (\<lambda>(index, queue, release). Inr (decoded, queue, demands, release)))
    else Inr (empty_desc, rx_queue r, replicate 20 0, replicate 20 0)"
  show ?thesis
  proof (cases "due_desc (cc_pending c) lower msg")
    case (Inl e)
    then have "?start = Inl e" by (auto simp: due_desc_def control_due_def decode_context_eq len split: if_splits)
    then have "receive_context_step r lower msg transfer False = Inl e" unfolding receive_context_step_def by simp
    moreover have "context_step c lower msg transfer False = Inl e"
      using context_follows [OF c f, of msg transfer] Inl len by (simp add: classify_def due_desc_def control_due_def)
    ultimately show ?thesis by simp
  next
    case d: (Inr d)
    obtain queue0 release0 where start: "?start = Inr (d, queue0, due_commands (cc_pending c) lower msg d, release0)"
      "map forget queue0 = due_tokens c lower msg d" "flags_ok queue0" "length release0 = 20"
      "\<forall>k<20. due_commands (cc_pending c) lower msg d ! k - release0 ! k - owed queue0 k = - owed (rx_queue r) k"
    proof (cases "control_due (cc_pending c) msg")
      case True
      then have dc: "derive_control lower = Inr d" using d by (simp add: due_desc_def)
      obtain queue' release where w: "rfold (release_record lower (word_tokens lower d)) (0, rx_queue r, replicate 20 0) (cd_records d) =
            Inr (length (word_tokens lower d), rx_queue r @ queue', release)"
        "map forget queue' = word_tokens lower d" "flags_ok queue'" "length release = 20"
        "\<And>k. k < 20 \<Longrightarrow> word_commands lower d ! k = release ! k + owed queue' k"
        using word_release [OF dc, of "rx_queue r"] by blast
      have "?start = Inr (d, rx_queue r @ queue', due_commands (cc_pending c) lower msg d, release)"
        using True len w(1) by (simp add: control_due_def due_commands_def decode_context_eq dc)
      then show thesis using that [of "rx_queue r @ queue'" release] w True fl by (simp add: due_tokens_def due_commands_def pend)
    next
      case False
      have nc: "\<not> (length (rx_queue r) \<le> 1 \<and> fst msg = None)" using False unfolding control_due_def len(2) .
      have "d = empty_desc" using d False by (simp add: due_desc_def)
      then have start: "?start = Inr (d, rx_queue r, due_commands (cc_pending c) lower msg d, replicate 20 0)"
        unfolding if_not_P [OF nc] using False by (simp add: due_commands_def)
      have tokens: "map forget (rx_queue r) = due_tokens c lower msg d" using False by (simp add: due_tokens_def flip: pend)
      show thesis using False by (intro that [OF start tokens fl]) (simp_all add: due_commands_def)
    qed
    have desc: "due_desc (sq_pending (cc_sequence c)) lower msg = Inr d" using d len by (simp add: due_desc_def control_due_def)
    show ?thesis
    proof (cases "sequence_step (cc_sequence c) msg (cd_fields d) (cd_tenure d) True False")
      case (Inl e)
      then have "receive_context_step r lower msg transfer False = Inl e"
        unfolding receive_context_step_def start(1) by (simp add: sq)
      moreover have "context_step c lower msg transfer False = Inl e"
        using context_follows [OF c f, of msg transfer] Inl desc by (simp add: classify_def)
      ultimately show ?thesis by simp
    next
      case step: (Inr x)
      obtain p lo up where x: "x = (p, lo, up)" by (cases x)
      obtain demands queue where cs: "rfold context_consume (due_commands (cc_pending c) lower msg d, due_tokens c lower msg d) [lo, up] = Inr (demands, queue)"
        "context_step c lower msg transfer False = Inr (if transfer then c\<lparr>cc_sequence := p, cc_pending := queue\<rparr> else c, (lo, up), demands)"
        "map tk_kind queue = sq_pending p" "paired queue"
        using context_consumed [OF c f d step [unfolded x]] by blast
      have dl: "length (due_commands (cc_pending c) lower msg d) = 20" by (simp add: due_commands_def)
      obtain release store q where rs: "rfold release_consume (due_commands (cc_pending c) lower msg d, release0, any_nonzero (due_commands (cc_pending c) lower msg d), queue0) [lo, up] =
          Inr (demands, release, store, q)" "map forget q = queue" "flags_ok q" "length demands = 20" "length release = 20"
        "\<forall>k<20. demands ! k - release ! k - owed q k = due_commands (cc_pending c) lower msg d ! k - release0 ! k - owed queue0 k"
        using release_fold_follows [OF cs(1) [folded start(2)] start(3) dl start(4)] by blast
      have kinds: "map rk_kind q = sq_pending p" using cs(3) rs(2) by (auto simp: comp_def)
      have "receive_context_step r lower msg transfer False =
          Inr (if transfer then r\<lparr>rx_sequence := p, rx_queue := q\<rparr> else r, (lo, up), demands, release, store)"
        unfolding receive_context_step_def start(1) using step rs(1) kinds by (simp add: sq x del: rfold.simps)
      moreover have "demands ! k + owed (rx_queue r) k = release ! k + owed q k" if "k < 20" for k
        using rs(6) [rule_format, OF that] start(5) [rule_format, OF that] by linarith
      ultimately show ?thesis
        using cs rs c m by (auto simp: mirrors_def in_lockstep_def)
    qed
  qed
qed

subsection \<open>Over a run of flits\<close>

definition sender :: "credit_context \<Rightarrow> int \<times> int option \<times> int option \<Rightarrow> py_error + credit_context \<times> (half_class \<times> half_class) \<times> int list" where
  "sender c = (\<lambda>(lower, msg). context_step c lower msg True False)"

definition receiver :: "receive_context \<Rightarrow> int \<times> int option \<times> int option \<Rightarrow>
    py_error + receive_context \<times> (half_class \<times> half_class) \<times> int list \<times> int list \<times> bool" where
  "receiver r = (\<lambda>(lower, msg). receive_context_step r lower msg True False)"

lemma ends_apply [simp]: "sender c (lower, msg) = context_step c lower msg True False"
  "receiver r (lower, msg) = receive_context_step r lower msg True False"
  by (simp_all add: sender_def receiver_def)

definition halves_fit :: "(int \<times> int option \<times> int option) list \<Rightarrow> bool" where
  "halves_fit flits \<longleftrightarrow> list_all (\<lambda>(lower, _). fits 256 lower) flits"

definition reserved_at :: "nat \<Rightarrow> ((half_class \<times> half_class) \<times> int list \<times> int list \<times> bool) list \<Rightarrow> int" where
  "reserved_at k outs = (\<Sum>(_, demands, _)\<leftarrow>outs. demands ! k)"

definition released_at :: "nat \<Rightarrow> ((half_class \<times> half_class) \<times> int list \<times> int list \<times> bool) list \<Rightarrow> int" where
  "released_at k outs = (\<Sum>(_, _, release, _)\<leftarrow>outs. release ! k)"

lemma receiver_run:
  assumes "in_lockstep c" "mirrors c r" "halves_fit flits"
  shows "(case run sender c flits of
      Inl e \<Rightarrow> run receiver r flits = Inl e
    | Inr (c', outs) \<Rightarrow> \<exists>r' routs. run receiver r flits = Inr (r', routs) \<and> in_lockstep c' \<and> mirrors c' r' \<and>
        map (\<lambda>(cls, demands, _). (cls, demands)) routs = outs \<and>
        (\<forall>k<20. reserved_at k routs + owed (rx_queue r) k = released_at k routs + owed (rx_queue r') k))"
  using assms
proof (induction flits arbitrary: c r)
  case Nil
  then show ?case by (simp add: reserved_at_def released_at_def)
next
  case (Cons flit flits)
  obtain lower msg where flit: "flit = (lower, msg)" by (cases flit)
  have f: "fits 256 lower" "halves_fit flits" using Cons.prems(3) by (auto simp: halves_fit_def flit)
  note step = receive_follows [OF Cons.prems(1,2) f(1), of msg True]
  show ?case
  proof (cases "context_step c lower msg True False")
    case (Inl e)
    then show ?thesis using step by (simp add: flit)
  next
    case (Inr x)
    obtain c1 cls demands where x: "x = (c1, cls, demands)" by (cases x)
    obtain r1 release store where 1: "receive_context_step r lower msg True False = Inr (r1, cls, demands, release, store)"
      "mirrors c1 r1" "in_lockstep c1" "\<forall>k<20. demands ! k + owed (rx_queue r) k = release ! k + owed (rx_queue r1) k"
      using step Inr x by auto
    note ih = Cons.IH [OF 1(3,2) f(2)]
    show ?thesis
    proof (cases "run sender c1 flits")
      case (Inl e)
      then show ?thesis using ih Inr x 1(1) by (simp add: flit)
    next
      case rest: (Inr y)
      obtain c' outs where y: "y = (c', outs)" by (cases y)
      obtain r' routs where 2: "run receiver r1 flits = Inr (r', routs)" "in_lockstep c'" "mirrors c' r'"
        "map (\<lambda>(cls, demands, _). (cls, demands)) routs = outs"
        "\<forall>k<20. reserved_at k routs + owed (rx_queue r1) k = released_at k routs + owed (rx_queue r') k"
        using ih rest y by auto
      let ?routs = "(cls, demands, release, store) # routs"
      have "run sender c (flit # flits) = Inr (c', (cls, demands) # outs)"
        using Inr x rest y by (simp add: flit)
      moreover have "run receiver r (flit # flits) = Inr (r', ?routs)"
        using 1(1) 2(1) by (simp add: flit)
      moreover have "reserved_at k ?routs + owed (rx_queue r) k = released_at k ?routs + owed (rx_queue r') k" if "k < 20" for k
        using 1(4) [rule_format, OF that] 2(5) [rule_format, OF that] by (simp add: reserved_at_def released_at_def)
      ultimately show ?thesis using 2 by auto
    qed
  qed
qed

lemma receiver_follows_sender:
  assumes "halves_fit flits"
  shows "(case run sender (context_new auth) flits of
      Inl e \<Rightarrow> run receiver (receive_context_new auth) flits = Inl e
    | Inr (c, outs) \<Rightarrow> \<exists>r routs. run receiver (receive_context_new auth) flits = Inr (r, routs) \<and>
        map (\<lambda>(cls, demands, _). (cls, demands)) routs = outs)"
  using receiver_run [OF in_lockstep_new mirrors_new assms, of auth] by (auto split: sum.splits)

lemma owed_nonneg: "flags_ok q \<Longrightarrow> paired (map forget q) \<Longrightarrow> 0 \<le> owed q k"
proof (induction q rule: induct_list012)
  case (2 t)
  then show ?case by (auto simp: flags_ok_def debt_def split: if_splits)
next
  case (3 t u q)
  show ?case
  proof (cases "rk_reserve t")
    case True
    then have "0 \<le> owed q k" "rk_slot u = rk_slot t" "rk_release_data u" "\<not> rk_reserve u" "\<not> rk_release_data t"
      using 3 by (auto simp: flags_ok_def)
    then show ?thesis by (auto simp: debt_def)
  next
    case False
    then have "0 \<le> owed (u # q) k" using 3 by (auto simp: flags_ok_def)
    then show ?thesis using False by (auto simp: debt_def)
  qed
qed auto

lemma sender_exists:
  assumes "run receiver (receive_context_new auth) flits = Inr (r, routs)" "halves_fit flits"
  obtains c outs where "run sender (context_new auth) flits = Inr (c, outs)" "in_lockstep c" "mirrors c r"
    "\<And>k. k < 20 \<Longrightarrow> reserved_at k routs = released_at k routs + owed (rx_queue r) k"
proof -
  have z: "owed (rx_queue (receive_context_new auth)) k = 0" for k by (simp add: receive_context_new_def)
  show thesis
    using receiver_run [OF in_lockstep_new mirrors_new assms(2), of auth] assms(1) that
    by (auto simp: z split: sum.splits)
qed

lemma credits_returned:
  assumes "run receiver (receive_context_new auth) flits = Inr (r, outs)" "halves_fit flits" "k < 20"
  shows "released_at k outs \<le> reserved_at k outs \<and> (rx_queue r = [] \<longrightarrow> released_at k outs = reserved_at k outs)"
proof -
  obtain c couts where c: "run sender (context_new auth) flits = Inr (c, couts)" "in_lockstep c" "mirrors c r"
    "\<And>k. k < 20 \<Longrightarrow> reserved_at k outs = released_at k outs + owed (rx_queue r) k"
    using sender_exists [OF assms(1,2)] by blast
  then have "0 \<le> owed (rx_queue r) k" by (intro owed_nonneg) (auto simp: mirrors_def in_lockstep_def)
  then show ?thesis using c(4) [OF assms(3)] by auto
qed

end
