(* ===== verification/Tl_Ledger.thy ===== *)
theory Tl_Ledger
  imports Tl_Context
begin

section \<open>The credit ledger and the admission of a tenure\<close>

text \<open>
  Theorems about \<open>credit_ledger.py\<close> and \<open>credit_admission.py\<close>: no class is ever overdrawn nor exceeds its capacity, credits are
  conserved, and once the header of a tenure was admitted its data halves never wait for credit.
\<close>

subsection \<open>Vectors of twenty classes\<close>

lemma exceeds_any_iff:
  "length xs = 20 \<Longrightarrow> length ys = 20 \<Longrightarrow> exceeds_any xs ys \<longleftrightarrow> (\<exists>k<20. xs ! k > ys ! k)"
  by (auto simp: exceeds_any_def list_ex_iff set_zip)

lemma within: "\<not> exceeds_any xs ys \<Longrightarrow> length xs = 20 \<Longrightarrow> length ys = 20 \<Longrightarrow> k < 20 \<Longrightarrow> xs ! k \<le> ys ! k"
  using exceeds_any_iff linorder_not_less by blast

lemma length_merge_pools [simp]: "length (merge_pools xs) = length xs"
  by (simp add: merge_pools_def)

lemma nth_merge_pools: "length xs = 20 \<Longrightarrow> k < 20 \<Longrightarrow>
    merge_pools xs ! k = (if k = 10 then xs ! 10 + xs ! 15 else if k = 15 then 0 else xs ! k)"
  by (auto simp: merge_pools_def nth_list_update)

definition pooled :: "bool \<Rightarrow> int list \<Rightarrow> int list" where
  "pooled shared xs = (if shared then merge_pools xs else xs)"

lemma length_pooled [simp]: "length (pooled b xs) = length xs"
  by (simp add: pooled_def)

lemma nth_pooled: "length xs = 20 \<Longrightarrow> k < 20 \<Longrightarrow>
    pooled b xs ! k = (if b \<and> k = 10 then xs ! 10 + xs ! 15 else if b \<and> k = 15 then 0 else xs ! k)"
  by (simp add: pooled_def nth_merge_pools)

subsection \<open>The ledger\<close>

definition quantities :: "tl_ledger \<Rightarrow> int list \<Rightarrow> bool" where
  "quantities L xs \<longleftrightarrow> length xs = 20 \<and> list_all (\<lambda>x. 0 \<le> x \<and> x \<le> tg_limit L) xs"

lemma quantities_nth: "quantities L xs \<Longrightarrow> k < 20 \<Longrightarrow> 0 \<le> xs ! k \<and> xs ! k \<le> tg_limit L"
  by (simp add: quantities_def list_all_length)

text \<open>The joint data pool may hold twice what a counter of one class holds.\<close>

definition class_limit :: "int \<Rightarrow> bool \<Rightarrow> nat \<Rightarrow> int" where
  "class_limit limit shared k = (if shared \<and> k = 10 then 2 * limit else limit)"

definition ledger_ok :: "tl_ledger \<Rightarrow> bool" where
  "ledger_ok L \<longleftrightarrow> length (tg_available L) = 20 \<and> length (tg_capacity L) = 20 \<and> 0 \<le> tg_limit L \<and>
     (\<forall>k<20. 0 \<le> tg_available L ! k \<and> tg_available L ! k \<le> tg_capacity L ! k \<and>
        tg_capacity L ! k \<le> class_limit (tg_limit L) (tg_shared L) k) \<and>
     (\<not> tg_done L \<longrightarrow> \<not> tg_shared L \<and> tg_available L = tg_capacity L)"

text \<open>The grants a step books, and the demands it charges, by the mode of the ledger.\<close>

definition booked :: "tl_ledger \<Rightarrow> int list \<Rightarrow> bool \<Rightarrow> int list" where
  "booked L grants receive = pooled (tg_shared L) (if receive then grants else replicate 20 0)"

definition ledger_limits :: "tl_ledger \<Rightarrow> int list" where
  "ledger_limits L = (if tg_done L then tg_capacity L else replicate 20 (tg_limit L))"

definition ledger_error :: "tl_ledger \<Rightarrow> int list \<Rightarrow> bool \<Rightarrow> bool \<Rightarrow> bool \<Rightarrow> bool" where
  "ledger_error L grants receive finish shared \<longleftrightarrow>
     (let sums = map2 (+) (tg_available L) (booked L grants receive) in
      exceeds_any sums (ledger_limits L) \<or> (receive \<and> finish \<and> \<not> tg_done L \<and> \<not> shared \<and> \<not> pools_filled sums))"

definition ledger_next :: "tl_ledger \<Rightarrow> int list \<Rightarrow> int list \<Rightarrow> bool \<Rightarrow> bool \<Rightarrow> bool \<Rightarrow> bool \<Rightarrow> tl_ledger" where
  "ledger_next L grants demands receive taken finish shared =
     (let sums = map2 (+) (tg_available L) (booked L grants receive);
          available = map2 (\<lambda>a q. a - (if taken then q else 0)) sums (pooled (tg_shared L) demands);
          capacity = (if tg_done L then tg_capacity L else map2 (+) (tg_capacity L) (booked L grants receive))
      in if receive \<and> finish \<and> \<not> tg_done L
         then L\<lparr>tg_available := pooled shared available, tg_capacity := pooled shared capacity, tg_done := True, tg_shared := shared\<rparr>
         else L\<lparr>tg_available := available, tg_capacity := capacity\<rparr>)"

lemma ledger_step_cases:
  assumes "tl_ledger_step L grants demands receive send finish shared False = Inr (L', sig)"
  shows "quantities L grants \<and> quantities L demands \<and> lg_error sig = ledger_error L grants receive finish shared \<and>
    lg_allowed sig = (tg_done L \<and> \<not> lg_error sig \<and> \<not> exceeds_any (pooled (tg_shared L) demands) (tg_available L)) \<and>
    lg_taken sig = (send \<and> lg_allowed sig) \<and>
    L' = (if lg_error sig then L else ledger_next L grants demands receive (lg_taken sig) finish shared)"
proof -
  have q: "quantities L grants" "quantities L demands"
    using assms by (auto simp: tl_ledger_step_def quantities_def ensure_def split: if_splits)
  then have g: "length grants = 20 \<and> length demands = 20 \<and> list_all (\<lambda>x. 0 \<le> x \<and> x \<le> tg_limit L) (grants @ demands)"
    by (simp add: quantities_def)
  have pair: "(if tg_shared L then (merge_pools x, merge_pools y) else (x, y)) = (pooled (tg_shared L) x, pooled (tg_shared L) y)" for x y
    by (simp add: pooled_def)
  have store: "(if b then if shared then L\<lparr>tg_available := merge_pools a, tg_capacity := merge_pools c, tg_done := True, tg_shared := True\<rparr>
        else L\<lparr>tg_available := a, tg_capacity := c, tg_done := True, tg_shared := False\<rparr> else x) =
      (if b then L\<lparr>tg_available := pooled shared a, tg_capacity := pooled shared c, tg_done := True, tg_shared := shared\<rparr> else x)" for a b c x
    by (simp add: pooled_def)
  have e: "ensure (length grants = 20 \<and> length demands = 20 \<and> list_all (\<lambda>x. 0 \<le> x \<and> x \<le> tg_limit L) (grants @ demands)) = Inr ()"
    unfolding ensure_def using g by simp
  let ?err = "ledger_error L grants receive finish shared"
  let ?ok = "tg_done L \<and> \<not> ?err \<and> \<not> exceeds_any (pooled (tg_shared L) demands) (tg_available L)"
  have "tl_ledger_step L grants demands receive send finish shared False =
      Inr (if ?err then L else ledger_next L grants demands receive (send \<and> ?ok) finish shared,
           \<lparr>lg_allowed = ?ok, lg_taken = (send \<and> ?ok), lg_error = ?err\<rparr>)"
    unfolding tl_ledger_step_def if_False Let_def pair store prod.case ledger_error_def ledger_next_def booked_def ledger_limits_def
    by (simp only: e rbind_Inr conj_assoc)
  then show ?thesis using assms q by auto
qed

lemma booked_nth:
  "quantities L grants \<Longrightarrow> length (booked L grants receive) = 20 \<and> (\<forall>k<20. 0 \<le> booked L grants receive ! k)"
  using quantities_nth [of L grants] by (auto simp: booked_def quantities_def nth_pooled)

lemma demands_nth:
  "quantities L demands \<Longrightarrow> length (pooled b demands) = 20 \<and> (\<forall>k<20. 0 \<le> pooled b demands ! k)"
  using quantities_nth [of L demands] by (auto simp: quantities_def nth_pooled)

lemma ledger_new_ok: "tl_ledger_new bits = Inr L \<Longrightarrow> ledger_ok L"
  by (auto simp: tl_ledger_new_def ledger_ok_def class_limit_def ensure_def push_bit_eq_mult split: if_splits)

text \<open>Every step keeps the invariant and books exactly what it says.\<close>

lemma ledger_next_ok:
  assumes L: "ledger_ok L" and q: "quantities L grants" "quantities L demands"
    and e: "\<not> ledger_error L grants receive finish shared"
    and t: "taken \<Longrightarrow> tg_done L \<and> \<not> exceeds_any (pooled (tg_shared L) demands) (tg_available L)"
  shows "ledger_ok (ledger_next L grants demands receive taken finish shared)"
proof -
  let ?b = "booked L grants receive" and ?d = "pooled (tg_shared L) demands"
  let ?sums = "map2 (+) (tg_available L) ?b"
  let ?av = "map2 (\<lambda>a q. a - (if taken then q else 0)) ?sums ?d"
  let ?cap = "if tg_done L then tg_capacity L else map2 (+) (tg_capacity L) ?b"
  have len: "length (tg_available L) = 20" "length (tg_capacity L) = 20" "length ?b = 20" "length ?d = 20" "length ?av = 20" "length ?cap = 20"
    using L booked_nth [OF q(1)] demands_nth [OF q(2)] by (auto simp: ledger_ok_def)
  have pos: "0 \<le> ?b ! k" "0 \<le> ?d ! k" "0 \<le> tg_available L ! k" "tg_available L ! k \<le> tg_capacity L ! k" if "k < 20" for k
    using L that booked_nth [OF q(1)] demands_nth [OF q(2)] by (auto simp: ledger_ok_def)
  have "\<not> exceeds_any ?sums (ledger_limits L)" using e by (auto simp: ledger_error_def Let_def)
  then have sums: "tg_available L ! k + ?b ! k \<le> ledger_limits L ! k" if "k < 20" for k
    using that len within [of ?sums "ledger_limits L" k] by (simp add: ledger_limits_def)
  have want: "?d ! k \<le> tg_available L ! k" if "k < 20" "taken" for k
    using t that len within [of ?d "tg_available L" k] by simp
  have av: "?av ! k = tg_available L ! k + ?b ! k - (if taken then ?d ! k else 0)" if "k < 20" for k
    using that len by simp
  have cap: "?cap ! k = tg_capacity L ! k + (if tg_done L then 0 else ?b ! k)" if "k < 20" for k
    using that len by simp
  have bound: "0 \<le> ?av ! k \<and> ?av ! k \<le> ?cap ! k \<and> ?cap ! k \<le> class_limit (tg_limit L) (tg_shared L) k" if "k < 20" for k
  proof (cases "tg_done L")
    case True
    then show ?thesis
      using L that pos [OF that] sums [OF that] want [OF that] unfolding av [OF that] cap [OF that]
      by (auto simp: ledger_ok_def ledger_limits_def)
  next
    case False
    then have "\<not> taken" "\<not> tg_shared L" "tg_available L = tg_capacity L" using t L by (auto simp: ledger_ok_def)
    then show ?thesis
      using that pos [OF that] sums [OF that] False unfolding av [OF that] cap [OF that] by (auto simp: ledger_limits_def class_limit_def)
  qed
  have same: "?av = ?cap" if "\<not> tg_done L"
  proof (rule nth_equalityI)
    show "?av ! k = ?cap ! k" if "k < length ?av" for k
      using \<open>\<not> tg_done L\<close> that len t L av [of k] cap [of k] by (auto simp: ledger_ok_def)
  qed (use len in simp)
  have next_eq: "ledger_next L grants demands receive taken finish shared =
      (if receive \<and> finish \<and> \<not> tg_done L
       then L\<lparr>tg_available := pooled shared ?av, tg_capacity := pooled shared ?cap, tg_done := True, tg_shared := shared\<rparr>
       else L\<lparr>tg_available := ?av, tg_capacity := ?cap\<rparr>)"
    by (simp only: ledger_next_def Let_def)
  obtain av cap where ac: "av = ?av" "cap = ?cap" by blast
  note facts = next_eq [folded ac] bound [folded ac] same [folded ac] len(5,6) [folded ac]
  have lim: "0 \<le> tg_limit L" using L by (simp add: ledger_ok_def)
  show ?thesis
  proof (cases "receive \<and> finish \<and> \<not> tg_done L")
    case True
    then have "\<not> tg_shared L" using L by (auto simp: ledger_ok_def)
    then have b: "0 \<le> av ! k \<and> av ! k \<le> cap ! k \<and> cap ! k \<le> tg_limit L" if "k < 20" for k using facts(2) [OF that] by (simp add: class_limit_def)
    have "\<forall>k<20. 0 \<le> pooled shared av ! k \<and> pooled shared av ! k \<le> pooled shared cap ! k \<and>
        pooled shared cap ! k \<le> class_limit (tg_limit L) shared k"
    proof (intro allI impI)
      fix k :: nat
      assume k: "k < 20"
      show "0 \<le> pooled shared av ! k \<and> pooled shared av ! k \<le> pooled shared cap ! k \<and>
        pooled shared cap ! k \<le> class_limit (tg_limit L) shared k"
        using b [OF k] b [of 10] b [of 15] lim unfolding nth_pooled [OF facts(4) k] nth_pooled [OF facts(5) k] class_limit_def by auto
    qed
    then show ?thesis
      unfolding facts(1) if_P [OF True] using facts(4,5) lim by (simp add: ledger_ok_def)
  next
    case False
    then show ?thesis
      unfolding facts(1) if_not_P [OF False] using facts(2-5) lim L by (simp add: ledger_ok_def)
  qed
qed

lemma ledger_step_ok:
  assumes L: "ledger_ok L" and s: "tl_ledger_step L grants demands receive send finish shared reset = Inr (L', sig)"
  shows "ledger_ok L'"
proof (cases reset)
  case True
  then show ?thesis using L s by (auto simp: tl_ledger_step_def ledger_ok_def class_limit_def)
next
  case False
  then show ?thesis
    using ledger_step_cases [of L grants demands receive send finish shared L' sig] s L ledger_next_ok [OF L] by auto
qed

type_synonym ledger_input = "int list \<times> int list \<times> bool \<times> bool \<times> bool \<times> bool \<times> bool"

definition ledger_machine :: "tl_ledger \<Rightarrow> ledger_input \<Rightarrow> py_error + tl_ledger \<times> ledger_signals" where
  "ledger_machine L = (\<lambda>(grants, demands, receive, send, finish, shared, reset).
     tl_ledger_step L grants demands receive send finish shared reset)"

interpretation tl_books: machine ledger_machine ledger_ok
  by unfold_locales (auto simp: ledger_machine_def intro: ledger_step_ok)

lemma ledger_bounds:
  assumes "tl_ledger_new bits = Inr L0" "reach ledger_machine L0 L" "k < 20"
  shows "0 \<le> tg_available L ! k \<and> tg_available L ! k \<le> tg_capacity L ! k \<and>
    tg_capacity L ! k \<le> class_limit (tg_limit L) (tg_shared L) k"
  using tl_books.reach_inv [OF assms(2) ledger_new_ok [OF assms(1)]] assms(3) by (auto simp: ledger_ok_def)

text \<open>A spend is the demand, exactly, of the credits it had.\<close>

lemma taken_spends:
  assumes L: "ledger_ok L" and s: "tl_ledger_step L grants demands receive send finish shared False = Inr (L', sig)"
    and t: "lg_taken sig" and k: "k < 20"
  shows "tg_available L' ! k = tg_available L ! k + booked L grants receive ! k - pooled (tg_shared L) demands ! k \<and>
    pooled (tg_shared L) demands ! k \<le> tg_available L ! k \<and> tg_done L' = tg_done L \<and> tg_shared L' = tg_shared L"
proof -
  note c = ledger_step_cases [OF s]
  have q: "quantities L grants" "quantities L demands" and d: "tg_done L" and e: "\<not> lg_error sig"
    and w: "\<not> exceeds_any (pooled (tg_shared L) demands) (tg_available L)"
    using c t by auto
  have len: "length (tg_available L) = 20" "length (booked L grants receive) = 20" "length (pooled (tg_shared L) demands) = 20"
    using L booked_nth [OF q(1)] demands_nth [OF q(2)] by (auto simp: ledger_ok_def)
  have "L' = ledger_next L grants demands receive True finish shared" using c t e by auto
  then show ?thesis using d len k within [OF w len(3,1) k] by (simp add: ledger_next_def Let_def)
qed

subsection \<open>An admitted tenure never waits for credit\<close>

text \<open>
  The sender of \<open>credit_context.py\<close> over the ledger, as \<open>credit_admission.py\<close> describes it: a control word is proposed only if
  the whole tenure is admitted; other flits are always proposed; a proposal commits when the ledger takes its demands.
\<close>

record pace_input =
  pi_lower :: int
  pi_msg :: "int option \<times> int option"
  pi_grants :: "int list"
  pi_receive :: bool

definition admitted :: "credit_context \<Rightarrow> tl_ledger \<Rightarrow> pace_input \<Rightarrow> py_error + bool" where
  "admitted c L i = rbind (admit (pi_lower i) (tg_available L) (tg_capacity L) (tg_shared L) (tg_done L)
     (control_due (cc_pending c) (pi_msg i))) (\<lambda>(allowed, _). Inr allowed)"

record pace_output =
  po_proposed :: bool
  po_taken :: bool
  po_error :: bool

definition paced :: "credit_context \<times> tl_ledger \<Rightarrow> pace_input \<Rightarrow> py_error + (credit_context \<times> tl_ledger) \<times> pace_output" where
  "paced = (\<lambda>(c, L) i.
     rbind (admitted c L i) (\<lambda>allowed.
     rbind (context_step c (pi_lower i) (pi_msg i) True False) (\<lambda>(c', _, demands).
     rbind (tl_ledger_step L (pi_grants i) demands (pi_receive i) allowed False False False) (\<lambda>(L', sig).
       Inr ((if lg_taken sig then c' else c, L'), \<lparr>po_proposed = allowed, po_taken = lg_taken sig, po_error = lg_error sig\<rparr>)))))"

text \<open>The credits still promised to the tenure under way are available.\<close>

definition promises :: "credit_context \<Rightarrow> int list" where
  "promises c = map (promised (cc_pending c)) [0..<20]"

definition pace_ok :: "credit_context \<times> tl_ledger \<Rightarrow> bool" where
  "pace_ok = (\<lambda>(c, L). in_lockstep c \<and> ledger_ok L \<and> tg_done L \<and>
     (\<forall>k<20. pooled (tg_shared L) (promises c) ! k \<le> tg_available L ! k))"

lemma word_need_nonneg: "k < 20 \<Longrightarrow> 0 \<le> word_need word d ! k"
  by (simp add: word_need_def word_commands_nth)

lemma length_word_need [simp]: "length (word_need word d) = 20"
  by (simp add: word_need_def)

lemma length_promises [simp]: "length (promises c) = 20"
  by (simp add: promises_def)

text \<open>What a proposed flit demands, with what it leaves promised, is available.\<close>

lemma proposal_covered:
  assumes ok: "pace_ok (c, L)" and adm: "admitted c L i = Inr True"
    and step: "context_step c (pi_lower i) (pi_msg i) True False = Inr (c', cls, demands)"
  shows "in_lockstep c' \<and> length demands = 20 \<and>
    (\<forall>k<20. pooled (tg_shared L) demands ! k + pooled (tg_shared L) (promises c') ! k \<le> tg_available L ! k)"
proof -
  have c: "in_lockstep c" and L: "ledger_ok L" and dn: "tg_done L"
    and cov: "\<And>k. k < 20 \<Longrightarrow> pooled (tg_shared L) (promises c) ! k \<le> tg_available L ! k"
    using ok by (auto simp: pace_ok_def)
  have f: "fits 256 (pi_lower i)" using step by (auto simp: context_step_def dest: ensureD)
  obtain d p lo up where cl: "classify (cc_sequence c) (pi_lower i) (pi_msg i) = Inr (d, p, lo, up)"
    using context_follows [OF c f, of "pi_msg i" True] step by (cases "classify (cc_sequence c) (pi_lower i) (pi_msg i)") auto
  obtain queue where q: "c' = c\<lparr>cc_sequence := p, cc_pending := queue\<rparr>" "map tk_kind queue = sq_pending p" "paired queue" "length demands = 20"
    "\<And>k. k < 20 \<Longrightarrow> demands ! k + promised queue k =
      due_commands (cc_pending c) (pi_lower i) (pi_msg i) d ! k + promised (due_tokens c (pi_lower i) (pi_msg i) d) k"
    using context_follows [OF c f, of "pi_msg i" True] step unfolding cl by auto
  have sumk: "demands ! k + promises c' ! k = due_commands (cc_pending c) (pi_lower i) (pi_msg i) d ! k + promised (due_tokens c (pi_lower i) (pi_msg i) d) k"
    if "k < 20" for k using q(5) [OF that] that by (simp add: promises_def q(1))
  let ?due = "if control_due (cc_pending c) (pi_msg i) then word_need (pi_lower i) d else promises c"
  have due: "demands ! k + promises c' ! k = ?due ! k" if k: "k < 20" for k
  proof (cases "control_due (cc_pending c) (pi_msg i)")
    case True
    then have "promised (cc_pending c) k = 0" using c by (intro promised_short) (auto simp: in_lockstep_def control_due_def)
    then show ?thesis using sumk [OF k] True k by (simp add: due_commands_def due_tokens_def word_need_def)
  next
    case False
    then show ?thesis using sumk [OF k] k by (simp add: due_commands_def due_tokens_def promises_def)
  qed
  have "pooled (tg_shared L) ?due ! k \<le> tg_available L ! k" if k: "k < 20" for k
  proof (cases "control_due (cc_pending c) (pi_msg i)")
    case True
    have len: "length (tg_available L) = 20" using L by (simp add: ledger_ok_def)
    have d: "derive_control (pi_lower i) = Inr d"
      using cl True c by (auto simp: classify_def due_desc_def control_due_def in_lockstep_def dest: arg_cong [of _ _ length])
    have "\<not> any_nonzero (pooled (tg_shared L) (word_need (pi_lower i) d)) \<or>
        \<not> exceeds_any (pooled (tg_shared L) (word_need (pi_lower i) d)) (tg_available L)"
      using adm True d by (auto simp: admitted_def admit_def requirements_eq pooled_def Let_def split: if_splits)
    moreover have "0 \<le> tg_available L ! k" using L k by (auto simp: ledger_ok_def)
    ultimately show ?thesis
      using True k len within [of "pooled (tg_shared L) (word_need (pi_lower i) d)" "tg_available L" k]
      by (auto simp: any_nonzero_iff)
  next
    case False
    then show ?thesis using cov [OF k] by simp
  qed
  moreover have "pooled (tg_shared L) demands ! k + pooled (tg_shared L) (promises c') ! k = pooled (tg_shared L) ?due ! k" if k: "k < 20" for k
    using due [OF k] due [of 10] due [of 15] by (simp add: nth_pooled q(4) k)
  ultimately show ?thesis using q by (simp add: in_lockstep_def)
qed

lemma booked_done:
  assumes L: "ledger_ok L" and dn: "tg_done L"
    and s: "tl_ledger_step L grants demands receive send finish shared False = Inr (L', sig)" and nt: "\<not> lg_taken sig" and k: "k < 20"
  shows "tg_available L ! k \<le> tg_available L' ! k \<and> tg_done L' \<and> tg_shared L' = tg_shared L"
proof (cases "lg_error sig")
  case True
  then show ?thesis using ledger_step_cases [OF s] dn by simp
next
  case False
  note c = ledger_step_cases [OF s]
  have q: "quantities L grants" "quantities L demands" using c by auto
  have len: "length (tg_available L) = 20" "length (booked L grants receive) = 20" "length (pooled (tg_shared L) demands) = 20"
    "0 \<le> booked L grants receive ! k"
    using L k booked_nth [OF q(1)] demands_nth [OF q(2)] by (auto simp: ledger_ok_def)
  have "L' = ledger_next L grants demands receive False finish shared" using c False nt by auto
  then show ?thesis using dn len k by (simp add: ledger_next_def Let_def)
qed

lemma paced_cases:
  assumes "paced (c, L) i = Inr ((c1, L1), out)"
  obtains allowed c' cls demands sig where "admitted c L i = Inr allowed"
    "context_step c (pi_lower i) (pi_msg i) True False = Inr (c', cls, demands)"
    "tl_ledger_step L (pi_grants i) demands (pi_receive i) allowed False False False = Inr (L1, sig)"
    "c1 = (if lg_taken sig then c' else c)" "po_proposed out = allowed" "po_taken out = lg_taken sig" "po_error out = lg_error sig"
  using assms by (fastforce simp: paced_def split: prod.splits)

lemma paced_taken:
  assumes ok: "pace_ok (c, L)" and s: "paced (c, L) i = Inr (s', out)" and p: "po_proposed out" and e: "\<not> po_error out"
  shows "po_taken out"
proof -
  obtain c1 L1 where s': "s' = (c1, L1)" by (cases s')
  obtain allowed c' cls demands sig where st: "admitted c L i = Inr allowed"
    "context_step c (pi_lower i) (pi_msg i) True False = Inr (c', cls, demands)"
    "tl_ledger_step L (pi_grants i) demands (pi_receive i) allowed False False False = Inr (L1, sig)"
    "po_proposed out = allowed" "po_taken out = lg_taken sig" "po_error out = lg_error sig"
    using s unfolding s' by (rule paced_cases)
  have adm: "admitted c L i = Inr True" using st p by simp
  note cov = proposal_covered [OF ok adm st(2)]
  have L: "ledger_ok L" "tg_done L" using ok by (auto simp: pace_ok_def)
  have "0 \<le> pooled (tg_shared L) (promises c') ! k" if "k < 20" for k using that by (simp add: nth_pooled) (simp add: promises_def)
  then have "pooled (tg_shared L) demands ! k \<le> tg_available L ! k" if "k < 20" for k using cov that by fastforce
  moreover have "length (tg_available L) = 20" "length (pooled (tg_shared L) demands) = 20"
    using cov L by (auto simp: ledger_ok_def)
  ultimately have "\<not> exceeds_any (pooled (tg_shared L) demands) (tg_available L)"
    using exceeds_any_iff linorder_not_less by blast
  then show ?thesis using ledger_step_cases [OF st(3)] st p e L by simp
qed

lemma paced_ok:
  assumes ok: "pace_ok s" and s: "paced s i = Inr (s', out)"
  shows "pace_ok s'"
proof -
  obtain c L c1 L1 where cl: "s = (c, L)" "s' = (c1, L1)" by (cases s, cases s')
  obtain allowed c' cls demands sig where st: "admitted c L i = Inr allowed"
    "context_step c (pi_lower i) (pi_msg i) True False = Inr (c', cls, demands)"
    "tl_ledger_step L (pi_grants i) demands (pi_receive i) allowed False False False = Inr (L1, sig)"
    "c1 = (if lg_taken sig then c' else c)"
    using s unfolding cl by (rule paced_cases)
  have L: "ledger_ok L" "tg_done L" and c: "in_lockstep c"
    and cov: "\<And>k. k < 20 \<Longrightarrow> pooled (tg_shared L) (promises c) ! k \<le> tg_available L ! k"
    using ok by (auto simp: pace_ok_def cl)
  have L1: "ledger_ok L1" using ledger_step_ok [OF L(1) st(3)] .
  show ?thesis
  proof (cases "lg_taken sig")
    case True
    then have "admitted c L i = Inr True" using ledger_step_cases [OF st(3)] st(1) by simp
    from proposal_covered [OF ok [unfolded cl] this st(2)]
    have p: "in_lockstep c'" "length demands = 20"
      "\<And>k. k < 20 \<Longrightarrow> pooled (tg_shared L) demands ! k + pooled (tg_shared L) (promises c') ! k \<le> tg_available L ! k" by auto
    have q: "quantities L (pi_grants i)" using ledger_step_cases [OF st(3)] by simp
    have "pooled (tg_shared L1) (promises c') ! k \<le> tg_available L1 ! k" if "k < 20" for k
      using taken_spends [OF L(1) st(3) True that] p(3) [OF that] booked_nth [OF q, of "pi_receive i"] that by fastforce
    moreover have "tg_done L1" using taken_spends [OF L(1) st(3) True, of 0] L by simp
    ultimately show ?thesis using True p(1) L1 by (simp add: pace_ok_def cl st(4))
  next
    case False
    have "pooled (tg_shared L1) (promises c) ! k \<le> tg_available L1 ! k" if "k < 20" for k
      using booked_done [OF L st(3) False that] cov [OF that] by simp
    moreover have "tg_done L1" using booked_done [OF L st(3) False, of 0] by simp
    ultimately show ?thesis using False c L1 by (simp add: pace_ok_def cl st(4))
  qed
qed

interpretation pace: machine paced pace_ok
  by unfold_locales (rule paced_ok)

text \<open>
  From a fresh sender and an initialised ledger, every flit proposed is taken at once unless the grants arriving with it
  are in error: an admitted tenure never waits for credit.
\<close>

lemma tenure_never_waits:
  assumes "tl_ledger_new bits = Inr L0" "reach ledger_machine L0 L" "tg_done L"
    and "reach paced (context_new auth, L) s" "paced s i = Inr (s', out)" "po_proposed out" "\<not> po_error out"
  shows "po_taken out"
proof -
  have L: "ledger_ok L" using tl_books.reach_inv [OF assms(2) ledger_new_ok [OF assms(1)]] .
  have "promises (context_new auth) = replicate 20 0"
    by (rule nth_equalityI) (simp_all add: promises_def context_new_def)
  then have "pooled (tg_shared L) (promises (context_new auth)) ! k \<le> tg_available L ! k" if "k < 20" for k
    using L that by (simp add: nth_pooled ledger_ok_def)
  then have "pace_ok (context_new auth, L)" using L assms(3) by (simp add: pace_ok_def)
  then have "pace_ok s" using pace.reach_inv [OF assms(4)] by blast
  then show ?thesis using paced_taken [of "fst s" "snd s" i s' out] assms(5-7) by simp
qed

end
