(* ===== verification/Tl_Publish.thy ===== *)
theory Tl_Publish
  imports Tl_Credit
begin

section \<open>Publication of credits\<close>

text \<open>
  Models \<open>simulator/UAlink2.0/model/tl/credit_publish.py\<close>: twenty pending counts, drained into words of four grant
  fields, one lane per class and word, with a rotating pointer per class. A held word counts as pending
  until it is taken. The initial publication ends with a completion message.
\<close>

definition publish_groups :: "(nat \<times> nat) list" where
  "publish_groups = [(22, 3), (16, 3), (8, 5), (0, 5)]"

definition published_group :: "int \<Rightarrow> int list \<Rightarrow> nat \<times> nat \<times> nat \<Rightarrow> int list" where
  "published_group word grants = (\<lambda>(group, pos, bits).
     let field = fld word pos (bits + 3);
         lane = (if drop_bit (bits + 2) field \<noteq> 0 then 1 + nat (fld field bits 2) else 0)
     in grants[5 * group + lane := fld field 0 bits])"

definition published :: "int \<Rightarrow> int list" where
  "published word = foldl (published_group word) (replicate 20 0) (enumerate 0 publish_groups)"

record fc_publisher =
  fp_width :: int
  fp_pending :: "int list"
  fp_pointer :: "nat list"
  fp_active :: bool
  fp_done :: bool
  fp_shared :: bool
  fp_valid :: bool
  fp_complete :: bool
  fp_word :: int

definition fc_fresh :: "int \<Rightarrow> fc_publisher" where
  "fc_fresh width = \<lparr>fp_width = width, fp_pending = replicate 20 0, fp_pointer = replicate 4 0, fp_active = False, fp_done = False,
     fp_shared = False, fp_valid = False, fp_complete = False, fp_word = 0\<rparr>"

definition fc_new :: "int \<Rightarrow> py_error + fc_publisher" where
  "fc_new width = rbind (ensure (1 \<le> width \<and> width \<le> 16)) (\<lambda>_. Inr (fc_fresh width))"

record fc_inputs =
  fi_start :: bool
  fi_capacities :: "int list option"
  fi_shared :: bool
  fi_release_valid :: bool
  fi_release :: "int list option"
  fi_send :: bool
  fi_reset :: bool

record fc_outputs =
  fo_valid :: bool
  fo_complete :: bool
  fo_word :: int
  fo_shared :: bool
  fo_taken :: bool
  fo_grants :: "int list"
  fo_start_ready :: bool
  fo_start_taken :: bool
  fo_config_error :: bool
  fo_release_ready :: bool
  fo_release_taken :: bool

definition or_zeros :: "int list option \<Rightarrow> int list" where
  "or_zeros x = (case x of Some ys \<Rightarrow> ys | None \<Rightarrow> replicate 20 0)"

definition fc_output :: "fc_publisher \<Rightarrow> fc_inputs \<Rightarrow> py_error + fc_outputs" where
  "fc_output p i =
     (let cap = or_zeros (fi_capacities i); rel = or_zeros (fi_release i) in
      rbind (ensure (length cap = 20 \<and> length rel = 20 \<and> list_all (fits (nat (fp_width p))) cap \<and> list_all (fits 4) rel)) (\<lambda>_.
        let config_ok = (fi_shared i \<or> (any_nonzero (take 5 (drop 10 cap)) \<and> any_nonzero (take 5 (drop 15 cap))));
            sr = (\<not> fi_reset i \<and> \<not> fp_active p \<and> config_ok);
            rr = (\<not> fi_reset i \<and> fp_done p \<and>
              list_all (\<lambda>(x, y). x + y < push_bit (nat (fp_width p) + 1) 1) (zip (fp_pending p) rel));
            valid = (fp_valid p \<and> \<not> fi_reset i)
        in Inr \<lparr>fo_valid = valid, fo_complete = (if valid then fp_complete p else False), fo_word = (if valid then fp_word p else 0),
             fo_shared = (if valid then fp_shared p else False), fo_taken = (valid \<and> fi_send i),
             fo_grants = (if valid \<and> \<not> fp_complete p then published (fp_word p) else replicate 20 0),
             fo_start_ready = sr, fo_start_taken = (fi_start i \<and> sr),
             fo_config_error = (\<not> fi_reset i \<and> fi_start i \<and> \<not> fp_active p \<and> \<not> config_ok),
             fo_release_ready = rr, fo_release_taken = (fi_release_valid i \<and> rr)\<rparr>))"

text \<open>The search of a group for the first pending lane from its pointer on, and the field of that lane.\<close>

definition group_lane :: "int list \<Rightarrow> nat \<Rightarrow> nat \<Rightarrow> nat option" where
  "group_lane old g pointer = find (\<lambda>lane. old ! (g * 5 + lane) \<noteq> 0) (map (\<lambda>offset. (pointer + offset) mod 5) [0..<5])"

definition group_field :: "int list \<Rightarrow> nat list \<Rightarrow> nat \<times> nat \<times> nat \<Rightarrow> int" where
  "group_field old pointer = (\<lambda>(g, pos, bits).
     case group_lane old g (pointer ! g) of None \<Rightarrow> 0
     | Some lane \<Rightarrow>
         let quantity = min (old ! (g * 5 + lane)) (push_bit bits 1 - 1);
             field = (if lane = 0 then quantity else quantity OR push_bit bits (int (lane - 1)) OR push_bit (bits + 2) 1)
         in push_bit pos field)"

definition fc_build :: "int list \<Rightarrow> nat list \<Rightarrow> int" where
  "fc_build old pointer = foldl (\<lambda>word g. word OR group_field old pointer g) 0 (enumerate 0 publish_groups)"

text \<open>After a word is taken, each pointer moves behind the lane of its group.\<close>

definition advance_pointer :: "int list \<Rightarrow> nat list \<Rightarrow> nat \<Rightarrow> nat list" where
  "advance_pointer grants pointer g =
     foldl (\<lambda>pointer lane. if grants ! (g * 5 + lane) \<noteq> 0 then pointer[g := (lane + 1) mod 5] else pointer) pointer [0..<5]"

text \<open>
  A failing step leaves the publisher in a state that the result keeps beside the exception: as it was, except that a start
  in shared mode without capacities has set the first two fields before \<open>list(None)\<close> raises.
\<close>

definition fails_in :: "fc_publisher \<Rightarrow> py_error + 'a \<Rightarrow> (py_error \<times> fc_publisher) + 'a" where
  "fails_in p r = map_sum (\<lambda>e. (e, p)) id r"

lemma fails_in_simps [simp]:
  "fails_in p (Inr x) = Inr x"
  "fails_in p (Inl e) = Inl (e, p)"
  "fails_in p r = Inr x \<longleftrightarrow> r = Inr x"
  by (cases r; simp add: fails_in_def)+

definition fc_step :: "fc_publisher \<Rightarrow> fc_inputs \<Rightarrow> (py_error \<times> fc_publisher) + fc_publisher \<times> fc_outputs" where
  "fc_step p i =
     rbind (fails_in p (fc_output p i)) (\<lambda>out.
       if fi_reset i then rbind (fails_in p (fc_new (fp_width p))) (\<lambda>p'. Inr (p', out))
       else
         let old = fp_pending p; rel = or_zeros (fi_release i) in
         rbind (if fo_start_taken out
                then (case fi_capacities i of None \<Rightarrow> Inl (TypeError, p\<lparr>fp_active := True, fp_shared := fi_shared i\<rparr>)
                      | Some cap \<Rightarrow> Inr (p\<lparr>fp_active := True, fp_shared := fi_shared i, fp_pending := cap, fp_pointer := replicate 4 0\<rparr>))
                else Inr (p\<lparr>fp_pending := map (\<lambda>(n, r, g). n + (if fo_release_taken out then r else 0) - (if fo_taken out then g else 0))
                       (zip old (zip rel (fo_grants out)))\<rparr>)) (\<lambda>p.
         let p = (if fo_taken out then
                    (if fp_complete p then p\<lparr>fp_done := True\<rparr>
                     else p\<lparr>fp_pointer := foldl (advance_pointer (fo_grants out)) (fp_pointer p) [0..<4]\<rparr>)
                      \<lparr>fp_valid := False, fp_word := 0, fp_complete := False\<rparr>
                  else if \<not> fp_valid p \<and> fp_active p \<and> \<not> fo_start_taken out then
                    (if any_nonzero old then p\<lparr>fp_word := fc_build old (fp_pointer p), fp_valid := True, fp_complete := False\<rparr>
                     else if \<not> fp_done p then p\<lparr>fp_valid := True, fp_complete := True, fp_word := 0\<rparr>
                     else p)
                  else p)
         in Inr (p, out)))"

end
