(* ===== verification/Tl_Publication.thy ===== *)
theory Tl_Publication
  imports Tl_Publish Tl_Context Bit_Packing
begin

section \<open>What the publisher publishes\<close>

text \<open>
  Theorems about \<open>credit_publish.py\<close>: a built word carries what its pointers chose, the wire decoder of \<open>credit_events.py\<close> reads
  from it the grants the publisher booked, no credit is lost or invented between capacities, releases and grants, and
  a publisher whose words are taken drains and completes.
\<close>

subsection \<open>The words it builds\<close>

lemma group_lane_Some:
  "group_lane old g p = Some lane \<Longrightarrow> lane < 5 \<and> old ! (g * 5 + lane) \<noteq> 0"
  by (auto simp: group_lane_def find_Some_iff)

lemma group_lane_None:
  "group_lane old g p = None \<Longrightarrow> p < 5 \<Longrightarrow> lane < 5 \<Longrightarrow> old ! (g * 5 + lane) = 0"
proof -
  assume a: "group_lane old g p = None" "p < 5" "lane < 5"
  have "(p + (lane + 5 - p) mod 5) mod 5 = (lane + 5) mod 5" using a(2) by (simp add: mod_add_right_eq)
  then have "lane = (p + (lane + 5 - p) mod 5) mod 5" "(lane + 5 - p) mod 5 < 5" using a(3) by simp_all
  then have "lane \<in> set (map (\<lambda>offset. (p + offset) mod 5) [0..<5])" by auto
  then show ?thesis using a(1) by (auto simp: group_lane_def find_None_iff)
qed

text \<open>The field of a group, before its place in the word.\<close>

definition group_value :: "int list \<Rightarrow> nat \<Rightarrow> nat \<Rightarrow> nat \<Rightarrow> int" where
  "group_value old g pointer bits =
     (case group_lane old g pointer of None \<Rightarrow> 0
      | Some lane \<Rightarrow>
          let quantity = min (old ! (g * 5 + lane)) (push_bit bits 1 - 1)
          in if lane = 0 then quantity else quantity OR push_bit bits (int (lane - 1)) OR push_bit (bits + 2) 1)"

lemma group_field_value: "group_field old pointer (g, pos, bits) = push_bit pos (group_value old g (pointer ! g) bits)"
  by (simp add: group_field_def group_value_def Let_def split: option.splits)

lemma group_value_some:
  assumes l: "group_lane old g p = Some lane" and pos: "0 \<le> old ! (g * 5 + lane)"
  shows "fits (bits + 3) (group_value old g p bits) \<and>
    fld (group_value old g p bits) 0 bits = min (old ! (g * 5 + lane)) (2 ^ bits - 1) \<and>
    drop_bit (bits + 2) (group_value old g p bits) = of_bool (lane \<noteq> 0) \<and>
    (lane \<noteq> 0 \<longrightarrow> fld (group_value old g p bits) bits 2 = int (lane - 1))"
proof -
  let ?q = "min (old ! (g * 5 + lane)) (2 ^ bits - 1)"
  have q: "fits bits ?q" using pos by (auto simp: fits_def min_def)
  have lane: "fits 2 (int (lane - 1))" using group_lane_Some [OF l] by (auto simp: fits_def)
  show ?thesis
  proof (cases "lane = 0")
    case True
    then have v: "group_value old g p bits = ?q" by (simp add: group_value_def l Let_def push_bit_eq_mult)
    have "drop_bit (bits + 2) ?q = fld ?q (bits + 2) 1" by (rule drop_bit_fld) (rule fits_mono [OF q], simp)
    also have "\<dots> = 0" by (rule fld_below_base [OF q]) simp
    finally show ?thesis unfolding v using q True fits_mono [OF q, of "bits + 3"] fld_hit_base [OF q] by simp
  next
    case False
    let ?v = "?q OR push_bit bits (int (lane - 1)) OR push_bit (bits + 2) 1"
    have v: "group_value old g p bits = ?v" using False by (simp add: group_value_def l Let_def push_bit_eq_mult)
    have one: "fits 1 (1::int)" by (simp add: fits_def)
    have f: "fits (bits + 3) ?v"
      by (intro fits_or fits_mono [OF q] fits_push [OF lane] fits_push [OF one]) auto
    have "bits + 3 = bits + 2 + 1" by simp
    then have "drop_bit (bits + 2) ?v = fld ?v (bits + 2) 1" using f by (intro drop_bit_fld) metis
    also have "\<dots> = 1" unfolding fld_or fld_below_base [OF q le_add1] fld_hit [OF one] using fld_below [OF lane, of bits "bits + 2" 1] by simp
    finally have d: "drop_bit (bits + 2) ?v = 1" .
    have "fld (push_bit bits (int (lane - 1))) 0 bits = 0" "fld (push_bit (bits + 2) 1) 0 bits = 0" by (rule fld_above; simp)+
    then have lo: "fld ?v 0 bits = ?q" by (simp only: fld_or fld_hit_base [OF q] or.right_neutral)
    have "fld (push_bit (bits + 2) 1) bits 2 = 0" by (rule fld_above) simp
    then have mid: "fld ?v bits 2 = int (lane - 1)"
      by (simp only: fld_or fld_below_base [OF q le_refl] fld_hit [OF lane] or.right_neutral or.left_neutral)
    have "of_bool (lane \<noteq> 0) = (1::int)" using False by simp
    then show ?thesis unfolding v using f d lo mid by metis
  qed
qed

lemma group_value_none: "group_lane old g p = None \<Longrightarrow> group_value old g p bits = 0"
  by (simp add: group_value_def)

lemma group_value_fits: "\<forall>k<20. 0 \<le> old ! k \<Longrightarrow> g < 4 \<Longrightarrow> fits (bits + 3) (group_value old g p bits)"
  by (cases "group_lane old g p") (use group_value_some group_lane_Some [of old g p] in \<open>fastforce simp: group_value_none\<close>)+

lemma enumerate_groups: "enumerate 0 publish_groups = [(0, 22, 3), (1, 16, 3), (2, 8, 5), (3, 0, 5)]"
  by (simp add: publish_groups_def)

lemma fc_build_fields:
  assumes pos: "\<forall>k<20. 0 \<le> old ! k" and g: "(g, pos, bits) \<in> set (enumerate 0 publish_groups)"
  shows "fld (fc_build old pointer) pos (bits + 3) = group_value old g (pointer ! g) bits \<and> fits 28 (fc_build old pointer)"
proof -
  define a b c d where "a = group_value old 0 (pointer ! 0) 3" and "b = group_value old 1 (pointer ! 1) 3"
    and "c = group_value old 2 (pointer ! 2) 5" and "d = group_value old 3 (pointer ! 3) 5"
  have f: "fits 6 a" "fits 6 b" "fits 8 c" "fits 8 d"
    using group_value_fits [OF pos, of 0 3 "pointer ! 0"] group_value_fits [OF pos, of 1 3 "pointer ! 1"]
      group_value_fits [OF pos, of 2 5 "pointer ! 2"] group_value_fits [OF pos, of 3 5 "pointer ! 3"]
    by (simp_all add: a_def b_def c_def d_def)
  have w: "fc_build old pointer = push_bit 22 a OR push_bit 16 b OR push_bit 8 c OR d"
    by (simp add: fc_build_def enumerate_groups group_field_value a_def b_def c_def d_def ac_simps)
  have fit: "fits 28 (fc_build old pointer)"
    unfolding w by (intro fits_or fits_push [OF f(1)] fits_push [OF f(2)] fits_push [OF f(3)] fits_mono [OF f(4)]) auto
  have "fld (fc_build old pointer) 22 6 = a" "fld (fc_build old pointer) 16 6 = b"
    "fld (fc_build old pointer) 8 8 = c" "fld (fc_build old pointer) 0 8 = d"
    unfolding w using f by (simp_all add: fld_or fld_hit fld_hit_base fld_below [OF f(1)] fld_below [OF f(2)] fld_below [OF f(3)] fld_below_base [OF f(4)] fld_above)
  then show ?thesis using g fit by (auto simp: enumerate_groups a_def b_def c_def d_def)
qed

subsection \<open>Reading a word\<close>

definition word_groups :: "(nat \<times> nat \<times> nat) list" where
  "word_groups = [(0, 22, 3), (1, 16, 3), (2, 8, 5), (3, 0, 5)]"

definition lane_of :: "int \<Rightarrow> nat \<times> nat \<Rightarrow> nat" where
  "lane_of word = (\<lambda>(pos, bits). if bit word (pos + bits + 2) then 1 + nat (fld word (pos + bits) 2) else 0)"

lemma lane_of_less: "lane_of word pb < 5"
  using fld_range [of word "fst pb + snd pb" 2] by (auto simp: lane_of_def split: prod.splits)

lemma drop_top: "drop_bit (bits + 2) (fld word pos (bits + 3)) = of_bool (bit word (pos + bits + 2))"
  by (rule bit_eqI) (auto simp: fld_def bit_simps of_bool_def)

text \<open>The class of a group and a lane.\<close>

definition slot_at :: "nat \<Rightarrow> nat \<Rightarrow> nat" where
  "slot_at g l = g * 5 + l"

lemma slot_at_eq [simp]: "l < 5 \<Longrightarrow> l' < 5 \<Longrightarrow> slot_at g l = slot_at g' l' \<longleftrightarrow> g = g' \<and> l = l'"
  unfolding slot_at_def by presburger

lemma slot_at_less [simp]: "l < 5 \<Longrightarrow> g < 4 \<Longrightarrow> slot_at g l < 20"
  by (simp add: slot_at_def)

lemma slot_cases:
  fixes k :: nat
  assumes "k < 20"
  obtains g l where "k = slot_at g l" "g = 0 \<or> g = 1 \<or> g = 2 \<or> g = 3" "l < 5"
proof
  show "k = slot_at (k div 5) (k mod 5)" by (simp add: slot_at_def)
  show "k div 5 = 0 \<or> k div 5 = 1 \<or> k div 5 = 2 \<or> k div 5 = 3" using assms by linarith
qed simp

declare lane_of_less [simp]

lemma published_group_eq:
  "published_group word grants (g, pos, bits) = grants[slot_at g (lane_of word (pos, bits)) := fld word pos bits]"
proof -
  have "fld (fld word pos (bits + 3)) bits 2 = fld word (pos + bits) 2" "fld (fld word pos (bits + 3)) 0 bits = fld word pos bits"
    by (simp_all add: fld_fld)
  then show ?thesis unfolding published_group_def Let_def prod.case drop_top by (simp add: lane_of_def slot_at_def mult.commute)
qed

text \<open>The grants of a word, class by class.\<close>

definition granted :: "int \<Rightarrow> nat \<Rightarrow> int" where
  "granted word k = (let (_, pos, bits) = word_groups ! (k div 5) in if lane_of word (pos, bits) = k mod 5 then fld word pos bits else 0)"

lemma granted_slot: "l < 5 \<Longrightarrow> granted word (slot_at g l) =
    (let (_, pos, bits) = word_groups ! g in if lane_of word (pos, bits) = l then fld word pos bits else 0)"
  by (simp add: granted_def slot_at_def)

lemma published_length [simp]: "length (published word) = 20"
  by (simp add: published_def enumerate_groups published_group_eq)


lemma published_nth: "k < 20 \<Longrightarrow> published word ! k = granted word k"
  by (erule slot_cases)
    (auto simp: published_def enumerate_groups published_group_eq granted_slot word_groups_def nth_list_update)

lemma granted_pos [simp]: "0 \<le> granted word k"
  by (simp add: granted_def fld_range split: prod.splits)

subsection \<open>The wire decoder reads the published grants\<close>

lemma grant_class_eq:
  "grant_class word grants (g, bits + 3, pos) = add_at (slot_at g (lane_of word (pos, bits))) (fld word pos bits) grants"
proof -
  have "fld (fld word pos (bits + 3)) bits 2 = fld word (pos + bits) 2" "fld (fld word pos (bits + 3)) 0 bits = fld word pos bits"
    by (simp_all add: fld_fld)
  moreover have w: "bits + 3 - 1 = bits + 2" "bits + 3 - 3 = bits" by simp_all
  ultimately show ?thesis unfolding grant_class_def Let_def prod.case w drop_top by (simp add: lane_of_def slot_at_def add.commute)
qed

lemma enumerate_layout: "enumerate 0 grant_layout = [(0, 3 + 3, 22), (1, 3 + 3, 16), (2, 5 + 3, 8), (3, 5 + 3, 0)]"
  by (simp add: grant_layout_def)

lemma grant_word:
  assumes "length grants = 20"
  shows "length (foldl (grant_class word) grants (enumerate 0 grant_layout)) = 20 \<and>
    (\<forall>k<20. foldl (grant_class word) grants (enumerate 0 grant_layout) ! k = grants ! k + granted word k)"
proof -
  have "foldl (grant_class word) grants (enumerate 0 grant_layout) ! k = grants ! k + granted word k" if "k < 20" for k
    using that unfolding enumerate_layout foldl.simps grant_class_eq
    by (elim slot_cases) (use assms in \<open>auto simp: granted_slot word_groups_def\<close>)
  then show ?thesis unfolding enumerate_layout foldl.simps grant_class_eq using assms by auto
qed

lemma granted_0 [simp]: "granted 0 k = 0"
  by (simp add: granted_def split: prod.splits)

lemma grant_empty_sectors:
  "length grants = 20 \<Longrightarrow> fits 32 word \<Longrightarrow> 1 \<le> n \<Longrightarrow> foldl (grant_field word) grants (map (\<lambda>i. (i, 0)) [n..<m]) = grants"
proof (induction "m - n" arbitrary: n grants)
  case (Suc d)
  have "fld word (32 * n) 32 = 0" using Suc.prems by (intro fld_below_base [OF Suc.prems(2)]) simp
  then have "grant_field word grants (n, 0) = grants"
    using grant_word [OF Suc.prems(1), of 0] Suc.prems(1) by (auto simp: grant_field_def intro!: nth_equalityI)
  moreover have "foldl (grant_field word) grants (map (\<lambda>i. (i, 0)) [Suc n..<m]) = grants"
    using Suc by (intro Suc.hyps(1)) auto
  moreover have "[n..<m] = n # [Suc n..<m]" using Suc.hyps(2) by (simp add: upt_conv_Cons)
  ultimately show ?case by simp
qed simp

lemma fits28_fields: "fits 28 word \<Longrightarrow> wire_fields word = Some ((0, 0) # map (\<lambda>i. (i, 0)) [1..<8])"
proof -
  assume w: "fits 28 word"
  have "sector_kind word 1 = 0" unfolding sector_kind_def by (rule fld_below_base [OF w]) simp
  then have "sectors word 1 = Some [(0, 0)]" by (subst sectors.simps) (simp add: Let_def grammar_width_def)
  moreover have "fits (32 * 1) word" using fits_mono [OF w, of 32] by simp
  ultimately show ?thesis unfolding wire_fields_sectors using sectors_above [of 1 word 8] by simp
qed

lemma wire_reads_published:
  assumes w: "fits 28 word" and v: "we_valid (decode_events word upper msg True)"
  shows "we_grants (decode_events word upper msg True) = published word"
proof -
  have z: "length (replicate 20 (0::int)) = 20" by simp
  have f: "fits 32 word" using fits_mono [OF w, of 32] by simp
  let ?g = "foldl (grant_class word) (replicate 20 0) (enumerate 0 grant_layout)"
  have g: "grant_field word (replicate 20 0) (0, 0) = ?g" by (simp add: grant_field_def fld_self [OF f])
  have len: "length ?g = 20" using grant_word [OF z] by blast
  have "?g = published word"
    by (rule nth_equalityI) (use grant_word [OF z, of word] in \<open>auto simp: published_nth\<close>)
  moreover have "foldl (grant_field word) (replicate 20 0) ((0, 0) # map (\<lambda>i. (i, 0)) [1..<8]) = ?g"
    unfolding foldl.simps g by (rule grant_empty_sectors [OF len f]) simp
  ultimately have fold: "foldl (grant_field word) (replicate 20 0) ((0, 0) # map (\<lambda>i. (i, 0)) [1..<8]) = published word" by simp
  show ?thesis
    using v unfolding decode_events_def fits28_fields [OF w] Let_def if_True option.case fold
    by (auto simp: no_events_def split: if_splits prod.splits)
qed

subsection \<open>The words chosen from the pending counts\<close>

definition group_width :: "nat \<Rightarrow> nat" where
  "group_width g = (if g < 2 then 3 else 5)"

lemma word_groups_nth: "g = 0 \<or> g = 1 \<or> g = 2 \<or> g = 3 \<Longrightarrow> \<exists>pos. word_groups ! g = (g, pos, group_width g) \<and> (g, pos, group_width g) \<in> set (enumerate 0 publish_groups)"
  by (auto simp: word_groups_def group_width_def enumerate_groups)

lemma granted_build:
  assumes pos: "\<forall>k<20. 0 \<le> old ! k" and g: "g = 0 \<or> g = 1 \<or> g = 2 \<or> g = 3" and l: "l < 5"
  shows "granted (fc_build old pointer) (slot_at g l) =
    (if group_lane old g (pointer ! g) = Some l then min (old ! slot_at g l) (2 ^ group_width g - 1) else 0)"
proof -
  obtain pos bits where w: "word_groups ! g = (g, pos, bits)" "(g, pos, bits) \<in> set (enumerate 0 publish_groups)" "bits = group_width g"
    using word_groups_nth [OF g] by blast
  let ?w = "fc_build old pointer"
  let ?v = "group_value old g (pointer ! g) bits"
  have v: "fld ?w pos (bits + 3) = ?v" using fc_build_fields [OF assms(1) w(2)] by blast
  have amount: "fld ?w pos bits = fld ?v 0 bits" unfolding v [symmetric] by (simp add: fld_fld)
  have flag: "of_bool (bit ?w (pos + bits + 2)) = drop_bit (bits + 2) ?v" unfolding v [symmetric] by (simp only: drop_top)
  have vc: "fld ?w (pos + bits) 2 = fld ?v bits 2" unfolding v [symmetric] by (simp add: fld_fld)
  show ?thesis
  proof (cases "group_lane old g (pointer ! g)")
    case None
    then show ?thesis using l amount by (simp add: granted_slot w(1) group_value_none)
  next
    case (Some lane)
    have lane: "lane < 5" "0 \<le> old ! (g * 5 + lane)"
      using group_lane_Some [OF Some] assms(1) g by auto
    note val = group_value_some [OF Some lane(2), of bits]
    have "bit ?w (pos + bits + 2) = (lane \<noteq> 0)" using val flag by (metis of_bool_eq_iff)
    then have "lane_of ?w (pos, bits) = lane" using val vc by (auto simp: lane_of_def)
    then have "granted ?w (slot_at g l) = (if lane = l then fld ?w pos bits else 0)" by (simp add: granted_slot [OF l] w(1))
    then show ?thesis using amount val Some w(3) by (auto simp: slot_at_def)
  qed
qed

lemma build_covered:
  assumes pos: "\<forall>k<20. 0 \<le> old ! k" and k: "k < 20"
  shows "granted (fc_build old pointer) k \<le> old ! k"
  using k by (elim slot_cases) (use pos in \<open>auto simp: granted_build [OF pos]\<close>)

lemma build_progress:
  assumes pos: "\<forall>k<20. 0 \<le> old ! k" and nz: "k < 20" "old ! k \<noteq> 0" and ptr: "\<forall>g<4. pointer ! g < 5"
  shows "\<exists>j<20. 0 < granted (fc_build old pointer) j"
proof -
  obtain g l where gl: "k = slot_at g l" "g = 0 \<or> g = 1 \<or> g = 2 \<or> g = 3" "l < 5" using nz(1) by (rule slot_cases)
  then have "pointer ! g < 5" using ptr by auto
  then obtain lane where lane: "group_lane old g (pointer ! g) = Some lane"
    using group_lane_None [of old g "pointer ! g" l] nz(2) gl by (cases "group_lane old g (pointer ! g)") (auto simp: slot_at_def)
  have b: "lane < 5" "slot_at g lane < 20" "old ! slot_at g lane \<noteq> 0"
    using group_lane_Some [OF lane] gl(2) by (auto simp: slot_at_def)
  then have "0 < old ! slot_at g lane" using pos by (metis order_le_imp_less_or_eq)
  moreover have "(0::int) < 2 ^ group_width g - 1" by (simp add: group_width_def)
  ultimately have "0 < granted (fc_build old pointer) (slot_at g lane)" using granted_build [OF pos gl(2) b(1), of pointer] lane by simp
  then show ?thesis using b(2) by blast
qed

subsection \<open>The publisher\<close>

definition pointers_ok :: "nat list \<Rightarrow> bool" where
  "pointers_ok ptr \<longleftrightarrow> length ptr = 4 \<and> (\<forall>g<4. ptr ! g < 5)"

lemma foldl_inv: "P s \<Longrightarrow> (\<And>s x. P s \<Longrightarrow> P (f s x)) \<Longrightarrow> P (foldl f s xs)"
  by (induction xs arbitrary: s) simp_all

lemma advance_ok: "pointers_ok pointer \<Longrightarrow> pointers_ok (foldl (advance_pointer grants) pointer gs)"
proof (erule foldl_inv)
  show "pointers_ok (advance_pointer grants ptr g)" if "pointers_ok ptr" for ptr g
    unfolding advance_pointer_def using that
    by (rule foldl_inv) (auto simp: pointers_ok_def, metis mod_less_divisor nth_list_update_eq nth_list_update_neq zero_less_numeral)
qed

definition pub_ok :: "fc_publisher \<Rightarrow> bool" where
  "pub_ok p \<longleftrightarrow> 1 \<le> fp_width p \<and> fp_width p \<le> 16 \<and> length (fp_pending p) = 20 \<and> (\<forall>k<20. 0 \<le> fp_pending p ! k) \<and>
     pointers_ok (fp_pointer p) \<and>
     (fp_valid p \<longrightarrow> fp_active p) \<and> (fp_done p \<longrightarrow> fp_active p) \<and>
     (fp_complete p \<longrightarrow> fp_valid p \<and> \<not> fp_done p \<and> (\<forall>k<20. fp_pending p ! k = 0)) \<and>
     (fp_valid p \<and> \<not> fp_complete p \<longrightarrow> fits 28 (fp_word p) \<and> (\<forall>k<20. granted (fp_word p) k \<le> fp_pending p ! k) \<and>
        (\<exists>k<20. 0 < granted (fp_word p) k))"

lemma pub_ok_new: "fc_new width = Inr p \<Longrightarrow> pub_ok p"
  by (auto simp: fc_new_def fc_fresh_def pub_ok_def pointers_ok_def ensure_def split: if_splits)

lemma fc_output_Inr:
  assumes "fc_output p i = Inr out"
  shows "length (or_zeros (fi_capacities i)) = 20 \<and> length (or_zeros (fi_release i)) = 20 \<and>
    (\<forall>k<20. 0 \<le> or_zeros (fi_capacities i) ! k \<and> 0 \<le> or_zeros (fi_release i) ! k) \<and>
    fo_taken out = (fp_valid p \<and> \<not> fi_reset i \<and> fi_send i) \<and>
    (fo_start_taken out \<longrightarrow> \<not> fp_active p) \<and> (fo_release_taken out \<longrightarrow> fp_done p) \<and>
    fo_grants out = (if fp_valid p \<and> \<not> fi_reset i \<and> \<not> fp_complete p then published (fp_word p) else replicate 20 0)"
  using assms by (auto simp: fc_output_def Let_def list_all_length fits_def split: if_splits)

text \<open>What a step does to the counts.\<close>

definition pending_after :: "fc_publisher \<Rightarrow> fc_inputs \<Rightarrow> fc_outputs \<Rightarrow> int list" where
  "pending_after p i out = (if fo_start_taken out then or_zeros (fi_capacities i)
     else map (\<lambda>(n, r, g). n + (if fo_release_taken out then r else 0) - (if fo_taken out then g else 0))
       (zip (fp_pending p) (zip (or_zeros (fi_release i)) (fo_grants out))))"

lemma fc_step_Inr:
  assumes "fc_step p i = Inr (p', out)" "\<not> fi_reset i"
  shows "fc_output p i = Inr out \<and> fp_pending p' = pending_after p i out \<and> fp_width p' = fp_width p \<and>
    fp_active p' = (fp_active p \<or> fo_start_taken out) \<and>
    fp_done p' = (fp_done p \<or> fo_taken out \<and> fp_complete p) \<and>
    fp_pointer p' = (let ptr = (if fo_start_taken out then replicate 4 0 else fp_pointer p) in
      if fo_taken out \<and> \<not> fp_complete p then foldl (advance_pointer (fo_grants out)) ptr [0..<4] else ptr) \<and>
    (if fo_taken out then \<not> fp_valid p' \<and> \<not> fp_complete p' \<and> fp_word p' = 0
     else if \<not> fp_valid p \<and> fp_active p \<and> \<not> fo_start_taken out then
       (if any_nonzero (fp_pending p) then fp_valid p' \<and> \<not> fp_complete p' \<and> fp_word p' = fc_build (fp_pending p) (fp_pointer p)
        else if \<not> fp_done p then fp_valid p' \<and> fp_complete p' \<and> fp_word p' = 0
        else \<not> fp_valid p' \<and> fp_complete p' = fp_complete p \<and> fp_word p' = fp_word p)
     else fp_valid p' = fp_valid p \<and> fp_complete p' = fp_complete p \<and> fp_word p' = fp_word p)"
proof -
  obtain o1 where o1: "fc_output p i = Inr o1" using assms(1) by (auto simp: fc_step_def)
  show ?thesis
  proof (cases "fo_start_taken o1")
    case True
    then have "\<not> fp_active p" using fc_output_Inr [OF o1] by blast
    with True show ?thesis using assms o1
      by (auto simp: fc_step_def Let_def pending_after_def or_zeros_def split: option.splits if_splits)
  next
    case False
    have pend: "map (\<lambda>(n, r, g). n + (if fo_release_taken o1 then r else 0) - (if fo_taken o1 then g else 0))
       (zip (fp_pending p) (zip (or_zeros (fi_release i)) (fo_grants o1))) = pending_after p i o1"
      using False by (simp add: pending_after_def)
    note st = assms(1) [unfolded fc_step_def o1 fails_in_simps(1) rbind_Inr if_not_P [OF assms(2)] if_not_P [OF False] Let_def pend]
    show ?thesis
    proof (cases "fo_taken o1")
      case True
      then show ?thesis using st False o1 by (cases "fp_complete p") auto
    next
      case nt: False
      show ?thesis
      proof (cases "\<not> fp_valid p \<and> fp_active p")
        case True
        then show ?thesis using st False o1 nt by (cases "any_nonzero (fp_pending p)"; cases "fp_done p") auto
      next
        case idle: False
        then have "\<not> (\<not> fp_valid p \<and> fp_active p \<and> \<not> fo_start_taken o1)" by blast
        then show ?thesis using st False o1 nt by auto
      qed
    qed
  qed
qed

lemma pending_after_nth:
  assumes ok: "pub_ok p" and o: "fc_output p i = Inr out" and k: "k < 20"
  shows "length (pending_after p i out) = 20 \<and> pending_after p i out ! k =
    (if fo_start_taken out then or_zeros (fi_capacities i) ! k
     else fp_pending p ! k + (if fo_release_taken out then or_zeros (fi_release i) ! k else 0) - (if fo_taken out then fo_grants out ! k else 0))"
proof -
  have "length (fp_pending p) = 20" using ok by (simp add: pub_ok_def)
  moreover have "length (fo_grants out) = 20" using fc_output_Inr [OF o] by simp
  ultimately show ?thesis using fc_output_Inr [OF o] k by (simp add: pending_after_def)
qed

lemma grants_covered:
  assumes ok: "pub_ok p" and o: "fc_output p i = Inr out" and k: "k < 20"
  shows "0 \<le> fo_grants out ! k \<and> fo_grants out ! k \<le> fp_pending p ! k"
  using fc_output_Inr [OF o] ok k by (auto simp: pub_ok_def published_nth)

lemma pending_nonneg:
  assumes ok: "pub_ok p" and o: "fc_output p i = Inr out" and k: "k < 20"
  shows "0 \<le> pending_after p i out ! k \<and>
    (\<not> fo_taken out \<and> \<not> fo_start_taken out \<longrightarrow> fp_pending p ! k \<le> pending_after p i out ! k \<and>
      (\<not> fp_done p \<longrightarrow> pending_after p i out ! k = fp_pending p ! k))"
  using pending_after_nth [OF ok o k] grants_covered [OF ok o k] fc_output_Inr [OF o] k ok by (auto simp: pub_ok_def)

lemma pub_ok_step:
  assumes ok: "pub_ok p" and s: "fc_step p i = Inr (p', out)"
  shows "pub_ok p'"
proof (cases "fi_reset i")
  case True
  then show ?thesis using s by (auto simp: fc_step_def intro: pub_ok_new)
next
  case False
  note st = fc_step_Inr [OF s False]
  have o: "fc_output p i = Inr out" using st by blast
  note out = fc_output_Inr [OF o]
  let ?q = "pending_after p i out"
  have q: "length ?q = 20" "\<And>k. k < 20 \<Longrightarrow> 0 \<le> ?q ! k" using pending_after_nth [OF ok o, of 0] pending_nonneg [OF ok o] by auto
  have w: "1 \<le> fp_width p" "fp_width p \<le> 16" and old: "\<forall>k<20. 0 \<le> fp_pending p ! k" "length (fp_pending p) = 20"
    and ptr: "pointers_ok (fp_pointer p)" and act: "fp_valid p \<Longrightarrow> fp_active p" "fp_done p \<Longrightarrow> fp_active p"
    using ok by (auto simp: pub_ok_def)
  have cmp: "fp_complete p \<Longrightarrow> fp_valid p \<and> \<not> fp_done p \<and> (\<forall>k<20. fp_pending p ! k = 0)"
    and held: "fp_valid p \<Longrightarrow> \<not> fp_complete p \<Longrightarrow> fits 28 (fp_word p) \<and> (\<forall>k<20. granted (fp_word p) k \<le> fp_pending p ! k) \<and>
      (\<exists>k<20. 0 < granted (fp_word p) k)"
    using ok by (auto simp: pub_ok_def)
  have ptr': "pointers_ok (fp_pointer p')" using st ptr advance_ok by (auto simp: Let_def pointers_ok_def)
  have base: "1 \<le> fp_width p'" "fp_width p' \<le> 16" "length (fp_pending p') = 20" "\<forall>k<20. 0 \<le> fp_pending p' ! k"
    using st w q by auto
  have kept: "fp_pending p ! k \<le> ?q ! k" "\<not> fp_done p \<Longrightarrow> ?q ! k = fp_pending p ! k"
    if "k < 20" "\<not> fo_taken out" "\<not> fo_start_taken out" for k
    using pending_nonneg [OF ok o that(1)] that by auto
  consider (taken) "fo_taken out" | (build) "\<not> fo_taken out" "\<not> fp_valid p" "fp_active p" "\<not> fo_start_taken out" "any_nonzero (fp_pending p)"
    | (finish) "\<not> fo_taken out" "\<not> fp_valid p" "fp_active p" "\<not> fo_start_taken out" "\<not> any_nonzero (fp_pending p)" "\<not> fp_done p"
    | (quiet) "\<not> fo_taken out" "\<not> fp_valid p" "fp_active p" "\<not> fo_start_taken out" "\<not> any_nonzero (fp_pending p)" "fp_done p"
    | (idle) "\<not> fo_taken out" "fp_valid p \<or> \<not> fp_active p \<or> fo_start_taken out"
    by blast
  then show ?thesis
  proof cases
    case taken
    then have "fp_valid p" using out by simp
    then show ?thesis using st taken base ptr' act by (auto simp: pub_ok_def)
  next
    case build
    have p': "fp_valid p'" "\<not> fp_complete p'" "fp_word p' = fc_build (fp_pending p) (fp_pointer p)" "fp_active p'" "fp_pending p' = ?q"
      using st build by auto
    obtain k where k: "k < 20" "fp_pending p ! k \<noteq> 0" using build(5) old(2) by (auto simp: any_nonzero_iff)
    have "\<exists>j<20. 0 < granted (fp_word p') j"
      unfolding p' by (rule build_progress [OF old(1) k]) (use ptr in \<open>simp add: pointers_ok_def\<close>)
    moreover have "granted (fp_word p') j \<le> fp_pending p' ! j" if "j < 20" for j
      using build_covered [OF old(1) that, of "fp_pointer p"] kept(1) [OF that build(1,4)] unfolding p' by linarith
    moreover have "fits 28 (fp_word p')"
      unfolding p' using fc_build_fields [OF old(1), of 0 22 3 "fp_pointer p"] by (simp add: enumerate_groups)
    ultimately show ?thesis using p' base ptr' by (auto simp: pub_ok_def)
  next
    case finish
    then have "fp_pending p' ! k = 0" if "k < 20" for k
      using st kept(2) [OF that finish(1,4,6)] that old(2) by (auto simp: any_nonzero_iff)
    then show ?thesis using st finish base ptr' act by (auto simp: pub_ok_def)
  next
    case quiet
    then show ?thesis using st base ptr' act cmp by (auto simp: pub_ok_def)
  next
    case idle
    then have same: "fp_valid p' = fp_valid p" "fp_complete p' = fp_complete p" "fp_word p' = fp_word p" "fp_pending p' = ?q"
      "fp_active p' = (fp_active p \<or> fo_start_taken out)" "fp_done p' = fp_done p"
      using st by auto
    show ?thesis
    proof (cases "fp_valid p")
      case True
      then have ns: "\<not> fo_start_taken out" using act out by blast
      have "fp_complete p \<Longrightarrow> \<forall>k<20. fp_pending p' ! k = 0" using cmp kept(2) [OF _ idle(1) ns] same(4) by auto
      moreover have "\<not> fp_complete p \<Longrightarrow> \<forall>k<20. granted (fp_word p') k \<le> fp_pending p' ! k"
        using held [OF True] kept(1) [OF _ idle(1) ns] same(3,4) by (metis order_trans)
      ultimately show ?thesis using same held [OF True] base ptr' act cmp by (auto simp: pub_ok_def)
    next
      case False
      then show ?thesis using same base ptr' act cmp by (auto simp: pub_ok_def)
    qed
  qed
qed

interpretation publication: machine fc_step pub_ok
  by unfold_locales (rule pub_ok_step)

subsection \<open>Nothing lost, nothing invented\<close>

definition granted_at :: "nat \<Rightarrow> fc_outputs list \<Rightarrow> int" where
  "granted_at k outs = (\<Sum>out\<leftarrow>outs. if fo_taken out then fo_grants out ! k else 0)"

definition returned_at :: "nat \<Rightarrow> fc_inputs list \<Rightarrow> fc_outputs list \<Rightarrow> int" where
  "returned_at k ins outs = (\<Sum>(i, out)\<leftarrow>zip ins outs. if fo_release_taken out then or_zeros (fi_release i) ! k else 0)"

lemma active_conserves:
  assumes "pub_ok p" "fp_active p" "run fc_step p ins = Inr (p', outs)" "list_all (\<lambda>i. \<not> fi_reset i) ins" "k < 20"
  shows "fp_pending p ! k + returned_at k ins outs = granted_at k outs + fp_pending p' ! k"
  using assms(1-4)
proof (induction ins arbitrary: p outs)
  case Nil
  then show ?case by (simp add: returned_at_def granted_at_def)
next
  case (Cons i ins)
  obtain p1 out outs' where s: "fc_step p i = Inr (p1, out)" "run fc_step p1 ins = Inr (p', outs')" "outs = out # outs'"
    using Cons.prems(3) by (rule run_ConsE)
  have nr: "\<not> fi_reset i" using Cons.prems(4) by simp
  note st = fc_step_Inr [OF s(1) nr]
  have o: "fc_output p i = Inr out" using st by blast
  have "\<not> fo_start_taken out" using fc_output_Inr [OF o] Cons.prems(2) by blast
  then have "fp_pending p1 ! k + (if fo_taken out then fo_grants out ! k else 0) =
      fp_pending p ! k + (if fo_release_taken out then or_zeros (fi_release i) ! k else 0)"
    using st pending_after_nth [OF Cons.prems(1) o assms(5)] by simp
  moreover have "fp_pending p1 ! k + returned_at k ins outs' = granted_at k outs' + fp_pending p' ! k"
    using Cons.IH [OF pub_ok_step [OF Cons.prems(1) s(1)] _ s(2)] Cons.prems(2,4) st by simp
  ultimately show ?case by (simp add: s(3) returned_at_def granted_at_def)
qed

lemma publication_conserves:
  assumes n: "fc_new width = Inr p0" and r: "run fc_step p0 (i # ins) = Inr (p, out # outs)" and t: "fo_start_taken out"
    and nr: "list_all (\<lambda>i. \<not> fi_reset i) (i # ins)" and k: "k < 20"
  shows "or_zeros (fi_capacities i) ! k + returned_at k ins outs = granted_at k outs + fp_pending p ! k \<and> 0 \<le> fp_pending p ! k"
proof -
  obtain p1 where s: "fc_step p0 i = Inr (p1, out)" "run fc_step p1 ins = Inr (p, outs)" using r by (auto simp: run_Cons_Inr)
  note st = fc_step_Inr [OF s(1)]
  have ok0: "pub_ok p0" using n by (rule pub_ok_new)
  have ok: "pub_ok p1" using pub_ok_step [OF ok0 s(1)] .
  have "fc_output p0 i = Inr out" "fp_active p1" "fp_pending p1 ! k = or_zeros (fi_capacities i) ! k"
    using st nr t by (auto simp: pending_after_def)
  moreover have "pub_ok p" using publication.run_inv [OF s(2) ok] .
  ultimately show ?thesis using active_conserves [OF ok _ s(2) _ k] nr k by (auto simp: pub_ok_def)
qed

subsection \<open>A publisher whose words are taken drains\<close>

definition drain_input :: fc_inputs where
  "drain_input = \<lparr>fi_start = False, fi_capacities = None, fi_shared = False, fi_release_valid = False, fi_release = None,
     fi_send = True, fi_reset = False\<rparr>"

definition pend_sum :: "fc_publisher \<Rightarrow> int" where
  "pend_sum p = (\<Sum>k<20. fp_pending p ! k)"

definition drain_work :: "fc_publisher \<Rightarrow> nat" where
  "drain_work p = 2 * nat (pend_sum p) + (if fp_valid p then 0 else 1) + (if fp_done p then 0 else 2)"

lemma pend_sum_pos: "pub_ok p \<Longrightarrow> 0 \<le> pend_sum p"
  by (auto simp: pend_sum_def pub_ok_def intro: sum_nonneg)

lemma drain_outputs:
  assumes "fc_output p drain_input = Inr out"
  shows "fo_taken out = fp_valid p \<and> \<not> fo_start_taken out \<and> \<not> fo_release_taken out \<and>
    fo_grants out = (if fp_valid p \<and> \<not> fp_complete p then published (fp_word p) else replicate 20 0)"
  using assms by (auto simp: fc_output_def drain_input_def Let_def)

lemma drain_step:
  assumes ok: "pub_ok p" and act: "fp_active p"
  obtains p' out where "fc_step p drain_input = Inr (p', out)" "pub_ok p'" "fp_active p'" "drain_work p' \<le> max 1 (drain_work p - 1)"
proof -
  have nr: "\<not> fi_reset drain_input" by (simp add: drain_input_def)
  have oz: "length (or_zeros None) = 20" "list_all (fits n) (or_zeros None)" for n
    by (simp_all add: or_zeros_def list_all_length)
  obtain out where o: "fc_output p drain_input = Inr out"
    by (simp add: fc_output_def Let_def drain_input_def oz ensure_def)
  note out = drain_outputs [OF o]
  have "\<exists>p'. fc_step p drain_input = Inr (p', out)"
    unfolding fc_step_def o fails_in_simps(1) rbind_Inr if_not_P [OF nr] Let_def if_not_P [OF out [THEN conjunct2, THEN conjunct1]] by simp
  then obtain p' where s: "fc_step p drain_input = Inr (p', out)" by blast
  note st = fc_step_Inr [OF s nr]
  have ok': "pub_ok p'" using pub_ok_step [OF ok s] .
  have pend: "fp_pending p' ! k = fp_pending p ! k - (if fp_valid p then fo_grants out ! k else 0)" if "k < 20" for k
    using st pending_after_nth [OF ok o that] out by simp
  have sums: "pend_sum p' = pend_sum p - (if fp_valid p then \<Sum>k<20. fo_grants out ! k else 0)"
    by (simp add: pend_sum_def pend sum_subtractf)
  have pos: "0 \<le> pend_sum p" "0 \<le> pend_sum p'" using pend_sum_pos ok ok' by auto
  have "drain_work p' \<le> max 1 (drain_work p - 1)"
  proof (cases "fp_valid p")
    case True
    have st': "\<not> fp_valid p'" "fp_done p' = (fp_done p \<or> fp_complete p)" using st out True by auto
    show ?thesis
    proof (cases "fp_complete p")
      case True
      then have "pend_sum p = 0" "\<not> fp_done p" "fo_grants out = replicate 20 0" using ok out by (auto simp: pub_ok_def pend_sum_def)
      then show ?thesis using st' True \<open>fp_valid p\<close> sums by (simp add: drain_work_def)
    next
      case False
      have g: "0 \<le> fo_grants out ! k" if "k < 20" for k using grants_covered [OF ok o that] by blast
      obtain j where j: "j < 20" "fo_grants out ! j \<noteq> 0" using ok True False out by (auto simp: pub_ok_def published_nth)
      then have "(\<Sum>k<20. fo_grants out ! k) \<noteq> 0" using g j by (subst sum_nonneg_eq_0_iff) (auto intro: bexI [of _ j])
      moreover have "0 \<le> (\<Sum>k<20. fo_grants out ! k)" using g by (auto intro: sum_nonneg)
      ultimately have "pend_sum p' < pend_sum p" using sums True by simp
      then have "nat (pend_sum p') + 1 \<le> nat (pend_sum p)" using pos by linarith
      then show ?thesis using st' True False by (simp add: drain_work_def)
    qed
  next
    case False
    then have same: "pend_sum p' = pend_sum p" using sums by simp
    show ?thesis
    proof (cases "any_nonzero (fp_pending p) \<or> \<not> fp_done p")
      case True
      then have "fp_valid p'" "fp_done p' = fp_done p" using st out False act by (auto split: if_splits)
      then show ?thesis using same False by (simp add: drain_work_def)
    next
      case quiet: False
      then have "pend_sum p = 0" using ok by (auto simp: any_nonzero_iff pend_sum_def pub_ok_def)
      moreover have "\<not> fp_valid p'" "fp_done p'" using st out False act quiet by auto
      ultimately show ?thesis using same by (simp add: drain_work_def)
    qed
  qed
  then show thesis using that s ok' st act by blast
qed

lemma drain_terminal: "pub_ok p \<Longrightarrow> drain_work p \<le> 1 \<Longrightarrow> fp_done p \<and> \<not> fp_valid p \<and> (\<forall>k<20. fp_pending p ! k = 0)"
proof -
  assume ok: "pub_ok p" and w: "drain_work p \<le> 1"
  then have d: "fp_done p" and z: "pend_sum p = 0" using pend_sum_pos [OF ok] by (auto simp: drain_work_def split: if_splits)
  have nn: "\<forall>k<20. 0 \<le> fp_pending p ! k" using ok by (simp add: pub_ok_def)
  then have zero: "fp_pending p ! k = 0" if "k < 20" for k
    using z that unfolding pend_sum_def by (subst (asm) sum_nonneg_eq_0_iff) auto
  have "\<not> fp_valid p"
  proof
    assume v: "fp_valid p"
    have "\<not> fp_complete p" using ok d by (auto simp: pub_ok_def)
    then obtain k where "k < 20" "0 < granted (fp_word p) k" "granted (fp_word p) k \<le> fp_pending p ! k"
      using ok v by (auto simp: pub_ok_def)
    then show False using zero by simp
  qed
  then show ?thesis using d zero by blast
qed

lemma publication_drains:
  assumes "pub_ok p" "fp_active p" "drain_work p \<le> n + 1"
  shows "\<exists>p' outs. run fc_step p (replicate n drain_input) = Inr (p', outs) \<and> fp_done p' \<and> \<not> fp_valid p' \<and> (\<forall>k<20. fp_pending p' ! k = 0)"
  using assms
proof (induction n arbitrary: p)
  case 0
  then show ?case using drain_terminal [of p] by simp
next
  case (Suc n)
  obtain p1 out where s: "fc_step p drain_input = Inr (p1, out)" "pub_ok p1" "fp_active p1" "drain_work p1 \<le> max 1 (drain_work p - 1)"
    using drain_step [OF Suc.prems(1,2)] .
  then have "drain_work p1 \<le> n + 1" using Suc.prems(3) by auto
  from Suc.IH [OF s(2,3) this] show ?case using s(1) by auto
qed

lemma drains_from_reachable:
  assumes n: "fc_new width = Inr p0" and r: "reach fc_step p0 p" and a: "fp_active p"
    and b: "2 * nat (\<Sum>k<20. fp_pending p ! k) + 2 \<le> n"
  shows "\<exists>p' outs. run fc_step p (replicate n drain_input) = Inr (p', outs) \<and> fp_done p' \<and> \<not> fp_valid p' \<and> (\<forall>k<20. fp_pending p' ! k = 0)"
proof (rule publication_drains [OF _ a])
  show "pub_ok p" using publication.reach_inv [OF r pub_ok_new [OF n]] .
  show "drain_work p \<le> n + 1" using b by (simp add: drain_work_def pend_sum_def)
qed

lemma held_word_read:
  assumes n: "fc_new width = Inr p0" and r: "reach fc_step p0 p" and v: "fp_valid p" "\<not> fp_complete p"
  shows "we_valid (decode_events (fp_word p) upper 0 True) \<and> we_grants (decode_events (fp_word p) upper 0 True) = published (fp_word p) \<and>
    (\<forall>k<20. 0 \<le> published (fp_word p) ! k \<and> published (fp_word p) ! k \<le> fp_pending p ! k)"
proof -
  have ok: "pub_ok p" using publication.reach_inv [OF r pub_ok_new [OF n]] .
  then have w: "fits 28 (fp_word p)" and g: "\<forall>k<20. granted (fp_word p) k \<le> fp_pending p ! k" using v by (auto simp: pub_ok_def)
  have valid: "we_valid (decode_events (fp_word p) upper 0 True)"
    unfolding decode_events_def fits28_fields [OF w] by (simp add: Let_def split: prod.splits)
  show ?thesis using wire_reads_published [OF w valid] valid g by (simp add: published_nth)
qed

end
