(* ===== verification/Tl_Link.thy ===== *)
theory Tl_Link
  imports Tl_Ledger Tl_Receive
begin

section \<open>What the transmitter validates, the receiver accepts\<close>

text \<open>
  Theorems about \<open>tx_validation.py\<close> and \<open>credit_integration.py\<close>: the two classify, check and budget a flit alike, so that a
  receiver in the same state rejects a validated flit only when its credit ledger reports the grants in error.
\<close>

definition matched :: "tx_validation \<Rightarrow> integrated \<Rightarrow> bool" where
  "matched v g \<longleftrightarrow> tv_auth v = ig_auth g \<and> tv_sequence v = ig_sequence g \<and> tv_content v = ig_content g \<and>
     tv_budget v = ig_budget g \<and> \<not> ig_fatal g"

definition flit_is_control :: "sequencer \<Rightarrow> int \<Rightarrow> int \<Rightarrow> int \<Rightarrow> bool" where
  "flit_is_control s lower upper msg \<longleftrightarrow> length (sq_pending s) \<le> 1 \<and> fst (flit_messages lower upper msg) = None"

text \<open>The two trials compute the same verdict, classes and successor states.\<close>

lemma trials_agree:
  assumes "matched v g"
  shows "(case validation_try v lower upper msg of
      Inl e \<Rightarrow> integrated_try g lower upper (flit_messages lower upper msg) (flit_is_control (ig_sequence g) lower upper msg) = Inl e
    | Inr (allowed, (lo, up), s, c, b) \<Rightarrow>
        \<exists>c'. integrated_try g lower upper (flit_messages lower upper msg) (flit_is_control (ig_sequence g) lower upper msg) =
          Inr (allowed, if allowed then (class_code lo, class_code up) else (7, 7), s, c', b) \<and> (allowed \<longrightarrow> c' = c))"
proof -
  let ?m = "flit_messages lower upper msg"
  have eq: "tv_sequence v = ig_sequence g" "tv_content v = ig_content g" "tv_budget v = ig_budget g"
    using assms by (auto simp: matched_def)
  let ?d = "if flit_is_control (ig_sequence g) lower upper msg then derive_control lower else Inr empty_desc"
  have d: "(if length (sq_pending (ig_sequence g)) \<le> 1 \<and> fst ?m = None then derive_control lower else Inr empty_desc) = ?d"
    by (simp add: flit_is_control_def)
  show ?thesis
  proof (cases ?d)
    case (Inl e)
    then show ?thesis unfolding validation_try_def integrated_try_def eq Let_def d by simp
  next
    case desc: (Inr x)
    show ?thesis
    proof (cases "sequence_step (ig_sequence g) ?m (cd_fields x) (cd_tenure x) True False")
      case (Inl e)
      then show ?thesis using desc unfolding validation_try_def integrated_try_def eq Let_def d by simp
    next
      case step: (Inr y)
      obtain s lo up where y: "y = (s, lo, up)" by (cases y)
      obtain c sig where cs: "content_step (ig_content g) (class_code lo, class_code up) (lower, upper) (cd_fields x) True False = (c, sig)"
        by (cases "content_step (ig_content g) (class_code lo, class_code up) (lower, upper) (cd_fields x) True False")
      obtain ql rl where av: "budget_available (ig_budget g) = (ql, rl)" by (cases "budget_available (ig_budget g)")
      let ?fit = "count_requests (cd_records x) \<le> ql \<and> count_responses (cd_records x) \<le> rl"
      let ?b = "if ?fit \<and> cg_allowed sig then budget_step (ig_budget g) (count_requests (cd_records x)) (count_responses (cd_records x)) True False
        else Inr (ig_budget g, False)"
      have V: "validation_try v lower upper msg = rbind ?b (\<lambda>(budget, _). Inr (?fit \<and> cg_allowed sig, (lo, up), s, if ?fit then c else ig_content g, budget))"
        unfolding validation_try_def eq Let_def d using desc step by (simp add: y cs av cong: if_cong)
      have I: "integrated_try g lower upper ?m (flit_is_control (ig_sequence g) lower upper msg) =
          rbind ?b (\<lambda>(budget, _). Inr (?fit \<and> cg_allowed sig, if ?fit \<and> cg_allowed sig then (class_code lo, class_code up) else (7, 7), s, c, budget))"
        unfolding integrated_try_def eq Let_def using desc step by (simp add: y cs av cong: if_cong)
      show ?thesis unfolding V I by (cases ?b) auto
    qed
  qed
qed

text \<open>A flit that passes the trial is one the wire decoder can read.\<close>

lemma messages_ok_types:
  assumes "message_type_ok (fst (flit_messages lower upper msg))" "message_type_ok (snd (flit_messages lower upper msg))"
  shows "\<not> list_ex (\<lambda>i. fld msg i 1 \<noteq> 0 \<and> [fld lower 0 8, fld upper 0 8] ! i \<notin> {0, 1, 32}) [0, 1]"
  using assms by (auto simp: message_type_ok_def flit_messages_def split: if_splits)

lemma sequence_step_messages:
  "sequence_step s msg n ts True False = Inr x \<Longrightarrow> message_type_ok (fst msg) \<and> message_type_ok (snd msg)"
  by (auto simp: sequence_step_def ensure_def split: if_splits)

lemma trial_decodes:
  assumes "integrated_try g lower upper (flit_messages lower upper msg) (flit_is_control (ig_sequence g) lower upper msg) = Inr x"
  shows "we_valid (decode_events lower upper msg (flit_is_control (ig_sequence g) lower upper msg))"
proof -
  let ?ctl = "flit_is_control (ig_sequence g) lower upper msg"
  obtain d y where d: "(if ?ctl then derive_control lower else Inr empty_desc) = Inr d"
    and s: "sequence_step (ig_sequence g) (flit_messages lower upper msg) (cd_fields d) (cd_tenure d) True False = Inr y"
    using assms by (auto simp: integrated_try_def simp del: if_split)
  have types: "\<not> list_ex (\<lambda>i. fld msg i 1 \<noteq> 0 \<and> [fld lower 0 8, fld upper 0 8] ! i \<notin> {0, 1, 32}) [0, 1]"
    using sequence_step_messages [OF s] messages_ok_types by blast
  have first: "\<not> (?ctl \<and> fld msg 0 1 \<noteq> 0)" by (auto simp: flit_is_control_def flit_messages_def)
  obtain fs where fs: "(if ?ctl then wire_fields lower else Some []) = Some fs"
    using d by (cases ?ctl) (auto simp: derive_control_Inr wire_fields_sectors)
  show ?thesis
    unfolding decode_events_def Let_def if_not_P [OF types] if_not_P [OF first] fs option.case
    by (simp split: prod.splits)
qed

subsection \<open>One flit over the link\<close>

definition flit_events :: "integrated \<Rightarrow> int \<Rightarrow> int \<Rightarrow> int \<Rightarrow> wire_events" where
  "flit_events g lower upper msg = decode_events lower upper msg (flit_is_control (ig_sequence g) lower upper msg)"

definition init_flags :: "wire_events \<Rightarrow> bool list" where
  "init_flags events = map (\<lambda>i. fld (we_shared events) i 1 \<noteq> 0) (filter (\<lambda>i. fld (we_init events) i 1 \<noteq> 0) [0, 1])"

definition init_mode :: "integrated \<Rightarrow> wire_events \<Rightarrow> bool" where
  "init_mode g events = (if tg_done (ig_ledger g) then tg_shared (ig_ledger g)
     else if init_flags events \<noteq> [] then init_flags events ! 0 else False)"

text \<open>The ledger reports the grants of a flit in error.\<close>

definition grants_in_error :: "integrated \<Rightarrow> int \<Rightarrow> int \<Rightarrow> int \<Rightarrow> bool" where
  "grants_in_error g lower upper msg \<longleftrightarrow>
     (let events = flit_events g lower upper msg in
      ledger_error (ig_ledger g) (we_grants events) True (init_flags events \<noteq> []) (init_mode g events))"

definition caught :: "integrated \<Rightarrow> py_error + bool \<times> (int \<times> int) \<times> sequencer \<times> content \<times> budget \<Rightarrow>
    py_error + bool \<times> (int \<times> int) \<times> sequencer \<times> content \<times> budget" where
  "caught g r = (case r of Inl ValueError \<Rightarrow> Inr (False, (7, 7), ig_sequence g, ig_content g, ig_budget g) | Inl e \<Rightarrow> Inl e | Inr x \<Rightarrow> Inr x)"

lemma integrated_receives:
  assumes s: "integrated_step g lower upper msg True send demands False = Inr (g', sig)" and nf: "\<not> ig_fatal g"
  obtains full_ok classes sequence content budget where
    "caught g (integrated_try g lower upper (flit_messages lower upper msg) (flit_is_control (ig_sequence g) lower upper msg)) =
       Inr (full_ok, classes, sequence, content, budget)"
    "is_rx_taken sig = (full_ok \<and> we_valid (flit_events g lower upper msg) \<and> \<not> grants_in_error g lower upper msg)"
    "is_rx_rejected sig = (\<not> is_rx_taken sig)"
    "is_rx_taken sig \<Longrightarrow> is_classes sig = classes \<and> ig_sequence g' = sequence \<and> ig_content g' = content \<and> ig_budget g' = budget \<and>
       \<not> ig_fatal g' \<and> ig_auth g' = ig_auth g"
    "\<not> is_rx_taken sig \<Longrightarrow> g' = g\<lparr>ig_fatal := True\<rparr>"
proof -
  let ?trial = "integrated_try g lower upper (flit_messages lower upper msg) (flit_is_control (ig_sequence g) lower upper msg)"
  let ?ev = "flit_events g lower upper msg"
  let ?led = "tl_ledger_step (ig_ledger g) (we_grants ?ev) (case demands of Some d \<Rightarrow> d | None \<Rightarrow> replicate 20 0) True send
    (init_flags ?ev \<noteq> []) (init_mode g ?ev) False"
  note s' = s [unfolded integrated_step_def if_False if_not_P [OF nf] Let_def caught_def [symmetric] flit_is_control_def [symmetric]
      flit_events_def [symmetric] init_flags_def [symmetric] init_mode_def [symmetric]]
  obtain full_ok classes sequence content budget where t: "caught g ?trial = Inr (full_ok, classes, sequence, content, budget)"
    using s' by (cases "caught g ?trial") auto
  obtain ledger preview where l: "?led = Inr (ledger, preview)"
    using s' unfolding t by (cases ?led) auto
  have e: "lg_error preview = grants_in_error g lower upper msg"
    using ledger_step_cases [OF l] by (simp add: grants_in_error_def Let_def)
  show thesis
    by (rule that [OF t]) (use s' t l e nf in \<open>auto split: if_splits\<close>)
qed

lemma integrated_keeps:
  assumes s: "integrated_step g lower upper msg False send demands False = Inr (g', sig)" and nf: "\<not> ig_fatal g"
  shows "ig_sequence g' = ig_sequence g \<and> ig_content g' = ig_content g \<and> ig_budget g' = ig_budget g \<and> \<not> ig_fatal g' \<and> ig_auth g' = ig_auth g"
proof -
  let ?trial = "integrated_try g lower upper (flit_messages lower upper msg) (flit_is_control (ig_sequence g) lower upper msg)"
  note s' = s [unfolded integrated_step_def if_False if_not_P [OF nf] Let_def caught_def [symmetric] flit_is_control_def [symmetric]]
  obtain full_ok classes sequence content budget where t: "caught g ?trial = Inr (full_ok, classes, sequence, content, budget)"
    using s' by (cases "caught g ?trial") auto
  show ?thesis using s' nf unfolding t by auto
qed

lemma validated_step:
  assumes m: "matched v g" and v: "validation_step v lower upper msg True False = Inr (v', allowed, cls)"
    and s: "integrated_step g lower upper msg True send demands False = Inr (g', sig)"
  shows "is_rx_taken sig = (allowed \<and> \<not> grants_in_error g lower upper msg) \<and> is_rx_rejected sig = (\<not> is_rx_taken sig) \<and>
    (is_rx_taken sig \<longrightarrow> matched v' g' \<and> is_classes sig = cls) \<and> (\<not> is_rx_taken sig \<longrightarrow> ig_fatal g')"
proof -
  let ?trial = "integrated_try g lower upper (flit_messages lower upper msg) (flit_is_control (ig_sequence g) lower upper msg)"
  have nf: "\<not> ig_fatal g" using m by (simp add: matched_def)
  obtain full_ok classes sequence content budget where r:
    "caught g ?trial = Inr (full_ok, classes, sequence, content, budget)"
    "is_rx_taken sig = (full_ok \<and> we_valid (flit_events g lower upper msg) \<and> \<not> grants_in_error g lower upper msg)"
    "is_rx_rejected sig = (\<not> is_rx_taken sig)"
    "is_rx_taken sig \<Longrightarrow> is_classes sig = classes \<and> ig_sequence g' = sequence \<and> ig_content g' = content \<and> ig_budget g' = budget \<and>
       \<not> ig_fatal g' \<and> ig_auth g' = ig_auth g"
    "\<not> is_rx_taken sig \<Longrightarrow> g' = g\<lparr>ig_fatal := True\<rparr>"
    using integrated_receives [OF s nf] by blast
  note agree = trials_agree [OF m, of lower upper msg]
  show ?thesis
  proof (cases "validation_try v lower upper msg")
    case (Inl e)
    then have "?trial = Inl e" using agree by simp
    then have "e = ValueError \<and> \<not> full_ok" using r(1) by (cases e) (auto simp: caught_def)
    then show ?thesis using r v Inl by (auto simp: validation_step_def)
  next
    case (Inr x)
    obtain ok lo up q c b where x: "x = (ok, (lo, up), q, c, b)" by (cases x) auto
    obtain c' where t: "?trial = Inr (ok, if ok then (class_code lo, class_code up) else (7, 7), q, c', b)" "ok \<longrightarrow> c' = c"
      using agree Inr x by auto
    have valid: "we_valid (flit_events g lower upper msg)" unfolding flit_events_def by (rule trial_decodes [OF t(1)])
    have vs: "v' = (if ok then v\<lparr>tv_sequence := q, tv_content := c, tv_budget := b\<rparr> else v)" "allowed = ok"
      "cls = (if ok then (class_code lo, class_code up) else (7, 7))"
      using v Inr by (auto simp: validation_step_def x)
    have "full_ok = ok" "classes = (if ok then (class_code lo, class_code up) else (7, 7))" "sequence = q" "content = c'" "budget = b"
      using r(1) t(1) by (auto simp: caught_def)
    then show ?thesis using r(2-5) valid vs t(2) m by (cases ok) (auto simp: matched_def)
  qed
qed

text \<open>
  A transmitter and a receiver: a flit is sent when it validates, and the receiver, which spends its own credits at the same
  time, gets nothing otherwise.
\<close>

record link_input =
  li_lower :: int
  li_upper :: int
  li_msg :: int
  li_send :: bool
  li_demands :: "int list option"

definition link :: "tx_validation \<times> integrated \<Rightarrow> link_input \<Rightarrow> py_error + (tx_validation \<times> integrated) \<times> bool \<times> integrated_signals" where
  "link = (\<lambda>(v, g) i.
     rbind (validation_step v (li_lower i) (li_upper i) (li_msg i) True False) (\<lambda>(v', allowed, _).
     rbind (integrated_step g (li_lower i) (li_upper i) (li_msg i) allowed (li_send i) (li_demands i) False) (\<lambda>(g', sig).
       Inr ((v', g'), allowed, sig))))"

definition link_ok :: "tx_validation \<times> integrated \<Rightarrow> bool" where
  "link_ok = (\<lambda>(v, g). ig_fatal g \<or> matched v g)"

lemma refused_unchanged: "validation_step v lower upper msg True False = Inr (v', False, cls) \<Longrightarrow> v' = v"
  by (auto simp: validation_step_def split: sum.splits py_error.splits)

lemma link_step_ok:
  assumes ok: "link_ok (v, g)" and s: "link (v, g) i = Inr ((v', g'), sent, sig)"
  shows "link_ok (v', g') \<and> (\<not> ig_fatal g \<and> sent \<longrightarrow>
    is_rx_taken sig = (\<not> grants_in_error g (li_lower i) (li_upper i) (li_msg i)) \<and> (is_rx_taken sig \<longrightarrow> matched v' g'))"
proof -
  obtain cls where v: "validation_step v (li_lower i) (li_upper i) (li_msg i) True False = Inr (v', sent, cls)"
    and g: "integrated_step g (li_lower i) (li_upper i) (li_msg i) sent (li_send i) (li_demands i) False = Inr (g', sig)"
    using s by (auto simp: link_def)
  show ?thesis
  proof (cases "ig_fatal g")
    case True
    then have "g' = g" using g by (simp add: integrated_step_def)
    then show ?thesis using True by (simp add: link_ok_def)
  next
    case nf: False
    then have m: "matched v g" using ok by (simp add: link_ok_def)
    show ?thesis
    proof (cases sent)
      case True
      then have "integrated_step g (li_lower i) (li_upper i) (li_msg i) True (li_send i) (li_demands i) False = Inr (g', sig)" using g by simp
      from validated_step [OF m v this] True show ?thesis by (auto simp: link_ok_def)
    next
      case False
      then have "v' = v" using v refused_unchanged [of v "li_lower i" "li_upper i" "li_msg i" v' cls] by simp
      then show ?thesis using integrated_keeps [of g "li_lower i" "li_upper i" "li_msg i" "li_send i" "li_demands i" g' sig] g False m nf
        by (auto simp: link_ok_def matched_def)
    qed
  qed
qed

interpretation tl_link: machine link link_ok
proof
  show "link_ok s'" if "link_ok s" "link s i = Inr (s', out)" for s i s' out
    using link_step_ok [of "fst s" "snd s" i "fst s'" "snd s'" "fst out" "snd out"] that by simp
qed

lemma link_received:
  assumes n: "integrated_new bits auth = Inr g0" and r: "reach link (validation_new auth, g0) (v, g)"
    and s: "link (v, g) i = Inr ((v', g'), True, sig)" and nf: "\<not> ig_fatal g"
  shows "is_rx_taken sig = (\<not> grants_in_error g (li_lower i) (li_upper i) (li_msg i)) \<and> (is_rx_taken sig \<longrightarrow> matched v' g')"
proof -
  have "link_ok (validation_new auth, g0)"
    using n by (auto simp: integrated_new_def link_ok_def matched_def validation_new_def)
  then have "link_ok (v, g)" using tl_link.reach_inv [OF r] by blast
  from link_step_ok [OF this s] nf show ?thesis by simp
qed

end
