(* ===== verification/Tl_Pack.thy ===== *)
theory Tl_Pack
  imports Tl_Credit
begin

section \<open>Partitioning and packing\<close>

text \<open>
  Models \<open>control_partition.py\<close>, \<open>prepared_partition.py\<close>, \<open>tx_packer.py\<close> and \<open>tx_channels.py\<close> of
  \<open>simulator/UAlink2.0/model/tl\<close>: the cut of a prepared control word into pieces that fit the initialised capacity, the
  packer that interleaves headers, data and flow-control words under held proposals, and the selection
  between the request and the response source.
\<close>

subsection \<open>The partition\<close>

record choice =
  ch_valid :: bool
  ch_error :: bool
  ch_shortfall :: bool
  ch_word :: int
  ch_tags :: int
  ch_fields :: int
  ch_end :: nat

definition no_choice :: choice where
  "no_choice = \<lparr>ch_valid = False, ch_error = False, ch_shortfall = False, ch_word = 0, ch_tags = 0, ch_fields = 0, ch_end = 0\<rparr>"

definition source_width :: "int \<Rightarrow> nat" where
  "source_width kind = (if kind = 1 then 4 else if kind \<in> {2, 3} then 2 else 1)"

definition occupied_mask :: "field_record list \<Rightarrow> int" where
  "occupied_mask rs = foldl (\<lambda>m r. m OR push_bit (32 * fr_sector r) (push_bit (32 * source_width (fr_kind r)) 1 - 1)) 0 rs"

definition straddles :: "field_record list \<Rightarrow> nat \<Rightarrow> bool" where
  "straddles rs finish \<longleftrightarrow> list_ex (\<lambda>r. fr_sector r < finish \<and> finish < fr_sector r + source_width (fr_kind r)) rs"

definition choose_prefix :: "int \<Rightarrow> int \<Rightarrow> int list \<Rightarrow> nat \<Rightarrow> bool \<Rightarrow> bool \<Rightarrow> field_record list \<Rightarrow> nat \<Rightarrow>
    choice \<Rightarrow> nat \<Rightarrow> py_error + choice" where
  "choose_prefix word tags capacity cursor auth shared rs before out finish =
     (if straddles rs finish then Inr out
      else
        let selected = filter (\<lambda>r. cursor \<le> fr_sector r \<and> fr_sector r < finish) rs in
        if selected = [] \<or> (auth \<and> length selected > 4) then Inr out
        else
          let prefix = word AND ((push_bit (32 * finish) 1 - 1) XOR (push_bit (32 * cursor) 1 - 1)) in
          rbind (requirements prefix shared) (\<lambda>need.
            if \<not> exceeds_any need capacity
            then Inr (out\<lparr>ch_valid := True, ch_word := prefix,
                   ch_tags := if auth then fld tags (64 * before) (64 * length selected) else 0,
                   ch_fields := int (length selected), ch_end := finish\<rparr>)
            else Inr out))"

text \<open>
  A \<open>ValueError\<close> is caught and only sets the error flag; what the loop had found before the exception
  stays in the dictionary, so the loop state at the exception is what counts.
\<close>

definition choose_best :: "int \<Rightarrow> int \<Rightarrow> int list \<Rightarrow> nat \<Rightarrow> bool \<Rightarrow> bool \<Rightarrow> field_record list \<Rightarrow> nat \<Rightarrow>
    choice \<times> py_error option \<Rightarrow> nat \<Rightarrow> choice \<times> py_error option" where
  "choose_best word tags capacity cursor auth shared rs before = (\<lambda>(out, err) finish.
     if err \<noteq> None then (out, err)
     else case choose_prefix word tags capacity cursor auth shared rs before out finish of
       Inl e \<Rightarrow> (out, Some e) | Inr out \<Rightarrow> (out, None))"

definition choose_records :: "int \<Rightarrow> nat \<Rightarrow> bool \<Rightarrow> py_error + field_record list" where
  "choose_records word cursor response =
     rbind (derive_control word) (\<lambda>dec.
       let rs = cd_records dec in
       rbind (ensure (\<not> (rs = [] \<or> \<not> cursor < 8))) (\<lambda>_.
       rbind (ensure (list_all (\<lambda>r. (fr_kind r \<notin> {1, 3}) = response) rs)) (\<lambda>_.
       rbind (ensure (word AND NOT (occupied_mask rs) = 0)) (\<lambda>_. Inr rs))))"

definition choose_cut :: "int \<Rightarrow> int \<Rightarrow> int list \<Rightarrow> nat \<Rightarrow> bool \<Rightarrow> bool \<Rightarrow> bool \<Rightarrow> py_error + choice" where
  "choose_cut word tags capacity cursor response auth shared =
     (case choose_records word cursor response of
        Inl e \<Rightarrow> (if e = ValueError then Inr (no_choice\<lparr>ch_error := True\<rparr>) else Inl e)
      | Inr rs \<Rightarrow>
          let before = length (filter (\<lambda>r. fr_sector r < cursor) rs);
              (out, err) = foldl (choose_best word tags capacity cursor auth shared rs before) (no_choice, None) [cursor + 1..<9]
          in (case err of
               None \<Rightarrow> Inr (out\<lparr>ch_shortfall := (\<not> ch_valid out)\<rparr>)
             | Some e \<Rightarrow> (if e = ValueError then Inr (out\<lparr>ch_error := True\<rparr>) else Inl e)))"

record partition_signals =
  pn_choice :: choice
  pn_cursor :: nat
  pn_taken :: bool
  pn_source_taken :: bool

definition partitioner_step :: "nat \<Rightarrow> int \<Rightarrow> int \<Rightarrow> int list \<Rightarrow> bool \<times> bool \<times> bool \<Rightarrow> bool \<Rightarrow> bool \<Rightarrow> bool \<Rightarrow> bool \<Rightarrow>
    py_error + nat \<times> partition_signals" where
  "partitioner_step cursor word tags capacity = (\<lambda>(response, auth, shared) valid ready done reset.
     rbind (choose_cut word tags capacity cursor response auth shared) (\<lambda>out.
       let out = (if reset \<or> \<not> valid then no_choice
                  else if \<not> done then no_choice\<lparr>ch_error := ch_error out\<rparr>
                  else out);
           taken = (ch_valid out \<and> ready); source_taken = (taken \<and> ch_end out = 8)
       in Inr (if reset then 0 else if taken then (if source_taken then 0 else ch_end out) else cursor,
            \<lparr>pn_choice = out, pn_cursor = (if reset then 0 else cursor), pn_taken = taken, pn_source_taken = source_taken\<rparr>)))"

record prepared =
  pp_owned :: "(int \<times> int \<times> int list \<times> (bool \<times> bool \<times> bool)) option"
  pp_cursor :: nat

definition prepared_new :: prepared where
  "prepared_new = \<lparr>pp_owned = None, pp_cursor = 0\<rparr>"

record prepared_signals =
  pg_choice :: choice
  pg_cursor :: nat
  pg_taken :: bool
  pg_group_done :: bool
  pg_source_ready :: bool
  pg_captured :: bool

definition prepared_step :: "prepared \<Rightarrow> int \<Rightarrow> int \<Rightarrow> int list \<Rightarrow> bool \<times> bool \<times> bool \<Rightarrow> bool \<Rightarrow> bool \<Rightarrow> bool \<Rightarrow> bool \<Rightarrow>
    py_error + prepared \<times> prepared_signals" where
  "prepared_step p word tags capacity attributes valid ready done reset =
     rbind (case pp_owned p of
              Some (w, t, c, response, auth, shared) \<Rightarrow>
                (if \<not> reset then choose_cut w t c (pp_cursor p) response auth shared else Inr no_choice)
            | None \<Rightarrow> Inr no_choice) (\<lambda>out.
       let taken = (ch_valid out \<and> ready);
           group_done = (taken \<and> ch_end out = 8);
           source_ready = (\<not> reset \<and> done \<and> (pp_owned p = None \<or> group_done));
           captured = (valid \<and> source_ready);
           p' = (if reset then prepared_new
                 else
                   let p = (if taken then p\<lparr>pp_cursor := if group_done then 0 else ch_end out\<rparr> else p);
                       p = (if group_done then p\<lparr>pp_owned := None\<rparr> else p)
                   in if captured then p\<lparr>pp_owned := Some (word, tags, capacity, attributes)\<rparr> else p)
       in Inr (p', \<lparr>pg_choice = out, pg_cursor = (if reset then 0 else pp_cursor p), pg_taken = taken,
            pg_group_done = group_done, pg_source_ready = source_ready, pg_captured = captured\<rparr>))"

subsection \<open>The packer\<close>

datatype pack_choice = Pack_Data | Pack_Tail | Pack_Fc | Pack_Header | Pack_Nop

record packer =
  pk_prefer_fc :: bool
  pk_held :: "pack_choice option"

definition packer_new :: packer where
  "packer_new = \<lparr>pk_prefer_fc = True, pk_held = None\<rparr>"

record pack_inputs =
  pi_pending :: int
  pi_auth :: bool
  pi_done :: bool
  pi_shared :: bool
  pi_available :: "int list"
  pi_capacity :: "int list"
  pi_request_budget :: int
  pi_response_budget :: int
  pi_header_valid :: bool
  pi_header :: int
  pi_tags_valid :: bool
  pi_tags :: int
  pi_data_valid :: int
  pi_data0 :: int
  pi_data1 :: int
  pi_fc_valid :: bool
  pi_fc :: int
  pi_fc_msg :: int
  pi_transfer :: bool
  pi_reset :: bool

record pack_outputs =
  po_valid :: bool
  po_flit :: int
  po_msg :: int
  po_header_taken :: bool
  po_tags_taken :: bool
  po_data_taken :: int
  po_fc_taken :: bool

definition no_pack :: pack_outputs where
  "no_pack = \<lparr>po_valid = False, po_flit = 0, po_msg = 0, po_header_taken = False, po_tags_taken = False, po_data_taken = 0,
     po_fc_taken = False\<rparr>"

text \<open>A \<open>ValueError\<close> of the parser means that there is no decoded header.\<close>

definition try_control :: "int \<Rightarrow> py_error + control_desc option" where
  "try_control word = (case derive_control word of Inr d \<Rightarrow> Inr (Some d)
     | Inl e \<Rightarrow> if e = ValueError then Inr None else Inl e)"

definition pack_select :: "packer \<Rightarrow> pack_inputs \<Rightarrow> bool \<Rightarrow> bool \<Rightarrow> bool \<Rightarrow> bool \<Rightarrow> pack_choice option" where
  "pack_select p i hr fr credit within =
     (if pk_held p \<noteq> None then pk_held p
      else if pi_pending i > 1 then (if pi_data_valid i \<ge> 2 then Some Pack_Data else None)
      else if fr \<and> (\<not> hr \<or> pk_prefer_fc p) then Some Pack_Fc
      else if hr then Some Pack_Header
      else if pi_pending i = 1 \<and> pi_data_valid i \<ge> 1 then Some Pack_Tail
      else if pi_pending i = 0 \<and> pi_header_valid i \<and> credit \<and> \<not> within then Some Pack_Nop
      else None)"

definition pack_flit :: "pack_inputs \<Rightarrow> bool \<Rightarrow> pack_choice option \<Rightarrow> int \<times> int \<times> int \<times> bool" where
  "pack_flit i needs_data c =
     (let tail = push_bit 256 (pi_data0 i) in
      case c of
        Some Pack_Data \<Rightarrow> (pi_data0 i OR push_bit 256 (pi_data1 i), 0, 2, False)
      | Some Pack_Tail \<Rightarrow> (tail, 0, 1, False)
      | Some Pack_Fc \<Rightarrow>
          (if pi_pending i = 1 then (fld (pi_fc i) 0 256 OR tail, pi_fc_msg i, 1, False) else (pi_fc i, pi_fc_msg i, 0, False))
      | Some Pack_Header \<Rightarrow>
          (if pi_pending i = 1 then (pi_header i OR tail, 0, 1, False)
          else if pi_auth i then (pi_header i OR push_bit 256 (pi_tags i), 0, 0, True)
          else if needs_data then (pi_header i OR tail, 0, 1, False)
          else (pi_header i, 0, 0, False))
      | _ \<Rightarrow> (0, 0, 0, False))"

definition packer_step :: "packer \<Rightarrow> pack_inputs \<Rightarrow> py_error + packer \<times> pack_outputs" where
  "packer_step p i =
     (if pi_reset i then Inr (packer_new, no_pack)
      else
        rbind (try_control (pi_header i)) (\<lambda>decoded.
        let allowed = (case decoded of None \<Rightarrow> False | Some d \<Rightarrow> cd_fields d \<noteq> 0 \<and> (\<not> pi_auth i \<or> cd_fields d \<le> 4)) in
        rbind (if allowed then rbind (admit (pi_header i) (pi_available i) (pi_capacity i) (pi_shared i) (pi_done i) True) (\<lambda>(a, _). Inr a)
               else Inr False) (\<lambda>credit.
        let req = (case decoded of None \<Rightarrow> 0 | Some d \<Rightarrow> count_requests (cd_records d));
            rsp = (case decoded of None \<Rightarrow> 0 | Some d \<Rightarrow> cd_fields d - req);
            within = (req \<le> pi_request_budget i \<and> rsp \<le> pi_response_budget i);
            needs_data = (case decoded of None \<Rightarrow> False | Some d \<Rightarrow> cd_tenure d \<noteq> []);
            payload = (if pi_pending i = 1 then pi_data_valid i \<ge> 1 else if pi_auth i then pi_tags_valid i
                       else if needs_data then pi_data_valid i \<ge> 1 else True);
            hr = (pi_header_valid i \<and> credit \<and> within \<and> payload \<and> pi_pending i \<le> 1 \<and> \<not> (pi_auth i \<and> pi_pending i = 1) \<and>
                  \<not> (pi_pending i = 1 \<and> pi_fc_valid i \<and> pi_fc_msg i \<noteq> 0));
            fr = (pi_fc_valid i \<and> (pi_pending i = 0 \<or> (pi_pending i = 1 \<and> pi_data_valid i \<ge> 1 \<and> pi_fc_msg i = 0)));
            c = pack_select p i hr fr credit within;
            (flit, msg, data, tag) = pack_flit i needs_data c;
            valid = (c \<noteq> None); take = (valid \<and> pi_transfer i);
            p' = \<lparr>pk_prefer_fc = (if take then if c = Some Pack_Fc then False else if c = Some Pack_Header then True else pk_prefer_fc p
                                else pk_prefer_fc p),
                  pk_held = (if valid \<and> \<not> pi_transfer i then c else None)\<rparr>
        in Inr (p', \<lparr>po_valid = valid, po_flit = flit, po_msg = msg, po_header_taken = (take \<and> c = Some Pack_Header),
             po_tags_taken = (take \<and> tag), po_data_taken = (if take then data else 0), po_fc_taken = (take \<and> c = Some Pack_Fc)\<rparr>))))"

subsection \<open>The two sources\<close>

record lane_source =
  ls_header :: int
  ls_valid :: bool
  ls_tags_valid :: bool
  ls_tags :: int
  ls_data_valid :: int
  ls_data0 :: int
  ls_data1 :: int

record channels_state =
  cs_preferred :: nat
  cs_held :: "nat option"
  cs_owner :: nat
  cs_packer :: packer

definition channels_new :: channels_state where
  "channels_new = \<lparr>cs_preferred = 0, cs_held = None, cs_owner = 0, cs_packer = packer_new\<rparr>"

record lane_status =
  le_valid :: bool
  le_ready :: bool
  le_nop :: bool
  le_error :: bool
  le_shortfall :: bool

text \<open>What one source may do: its header is well formed, admitted, within the budget, and has its payload.\<close>

definition lane_check :: "channels_state \<Rightarrow> pack_inputs \<Rightarrow> lane_source list \<Rightarrow> nat \<Rightarrow> py_error + lane_status" where
  "lane_check c i sources lane =
     (let s = sources ! lane in
      rbind (try_control (ls_header s)) (\<lambda>d.
      let allowed_kinds = (if lane = 0 then {1, 3} else {2, 4, 5});
          fmt = (case d of None \<Rightarrow> False | Some d \<Rightarrow> cd_fields d \<noteq> 0 \<and> list_all (\<lambda>x. fr_kind x \<in> allowed_kinds) (cd_records d) \<and>
                 (\<not> pi_auth i \<or> cd_fields d \<le> 4)) in
      rbind (if fmt then admit (ls_header s) (pi_available i) (pi_capacity i) (pi_shared i) (pi_done i) True
             else Inr (False, False, False)) (\<lambda>(allow, _, short).
      let within = (case d of None \<Rightarrow> False
                    | Some d \<Rightarrow> fmt \<and> cd_fields d \<le> (if lane = 0 then pi_request_budget i else pi_response_budget i));
          payload = (case d of None \<Rightarrow> False
                     | Some d \<Rightarrow> fmt \<and> (if pi_pending i \<noteq> 0 then ls_data_valid (sources ! cs_owner c) \<ge> 1
                         else if pi_auth i then ls_tags_valid s else cd_tenure d = [] \<or> ls_data_valid s \<ge> 1));
          valid = (ls_valid s \<and> fmt)
      in Inr \<lparr>le_valid = valid,
           le_ready = (valid \<and> allow \<and> within \<and> payload \<and> pi_pending i \<le> 1 \<and> \<not> (pi_auth i \<and> pi_pending i = 1) \<and>
             \<not> (pi_pending i = 1 \<and> pi_fc_valid i \<and> pi_fc_msg i \<noteq> 0)),
           le_nop = (valid \<and> allow \<and> \<not> within), le_error = (ls_valid s \<and> \<not> fmt), le_shortfall = (ls_valid s \<and> short)\<rparr>)))"

definition first_lane :: "nat \<Rightarrow> (nat \<Rightarrow> bool) \<Rightarrow> nat option" where
  "first_lane preferred level = find level [preferred, 1 - preferred]"

definition channels_select :: "channels_state \<Rightarrow> lane_status list \<Rightarrow> nat" where
  "channels_select c status =
     (case cs_held c of Some j \<Rightarrow> j
      | None \<Rightarrow>
          case first_lane (cs_preferred c) (\<lambda>j. le_ready (status ! j)) of Some j \<Rightarrow> j
          | None \<Rightarrow>
              case first_lane (cs_preferred c) (\<lambda>j. le_nop (status ! j)) of Some j \<Rightarrow> j
              | None \<Rightarrow>
                  case first_lane (cs_preferred c) (\<lambda>j. le_valid (status ! j)) of Some j \<Rightarrow> j | None \<Rightarrow> cs_preferred c)"

record channel_outputs =
  cw_pack :: pack_outputs
  cw_header_taken :: int
  cw_tags_taken :: int
  cw_data_taken :: "int \<times> int"
  cw_header_error :: int
  cw_shortfall :: int

definition lane_flags :: "(lane_status \<Rightarrow> bool) \<Rightarrow> lane_status list \<Rightarrow> int" where
  "lane_flags f status = of_bool (f (status ! 0)) OR push_bit 1 (of_bool (f (status ! 1)))"

definition channels_step :: "channels_state \<Rightarrow> lane_source list \<Rightarrow> pack_inputs \<Rightarrow> py_error + channels_state \<times> channel_outputs" where
  "channels_step c0 sources i =
     (let c = (if pi_reset i then channels_new else c0) in
      rbind (rmap (lane_check c i sources) [0, 1]) (\<lambda>status.
      let selected = channels_select c status;
          lane = (if pi_pending i \<noteq> 0 then cs_owner c else selected);
          s = sources ! selected; data = sources ! lane in
      rbind (packer_step (cs_packer c) (i\<lparr>pi_header_valid := le_valid (status ! selected), pi_header := ls_header s,
          pi_tags_valid := ls_tags_valid s, pi_tags := ls_tags s, pi_data_valid := ls_data_valid data,
          pi_data0 := ls_data0 data, pi_data1 := ls_data1 data\<rparr>)) (\<lambda>(packer, out).
      let c' = (if po_header_taken out then c\<lparr>cs_owner := selected, cs_preferred := 1 - selected\<rparr> else c)
            \<lparr>cs_held := if po_valid out \<and> \<not> pi_transfer i then Some selected else None, cs_packer := packer\<rparr>
      in Inr (c', \<lparr>cw_pack = out, cw_header_taken = (if po_header_taken out then push_bit selected 1 else 0),
           cw_tags_taken = (if po_tags_taken out then push_bit selected 1 else 0),
           cw_data_taken = (if lane = 0 then (po_data_taken out, 0) else (0, po_data_taken out)),
           cw_header_error = (if pi_reset i then 0 else lane_flags le_error status),
           cw_shortfall = (if pi_reset i then 0 else lane_flags le_shortfall status)\<rparr>))))"

end
