(* ===== verification/Props_Tl.thy ===== *)
theory Props_Tl
  imports Tl_Return Tl_Ledger Tl_Publication Tl_Link Tl_Pack
begin

section \<open>Properties of the transaction layer\<close>

text \<open>
  The properties of the transaction layer. The witnesses use one control word: a write of two data pairs without byte
  enables in virtual channel 1, in the four sectors of its request field.
\<close>

definition demo_write :: int where
  "demo_write = push_bit 124 1 OR push_bit 118 0x27 OR push_bit 116 1 OR 1"

definition demo_fields :: "(nat \<times> int) list" where
  "demo_fields = [(0, 1), (4, 0), (5, 0), (6, 0), (7, 0)]"

definition demo_desc :: control_desc where
  "demo_desc = \<lparr>cd_fields = 1, cd_tenure = replicate 4 TokD, cd_records = [\<lparr>fr_sector = 0, fr_kind = 1, fr_tenure = replicate 4 TokD\<rparr>]\<rparr>"

lemma demo_derive: "derive_control demo_write = Inr demo_desc"
  by code_simp

lemma demo_wire: "wire_fields demo_write = Some demo_fields"
  by code_simp

definition demo_flits :: "(int \<times> int option \<times> int option) list" where
  "demo_flits = [(demo_write, None, None), (0, None, None), (0, None, None)]"

text \<open>The two parsers agree: the top-down parser of the transmitter raises nothing but `ValueError`, and the fields
  of every word it accepts are, sector by sector and kind by kind, those the bottom-up grammar of the wire decoder finds.\<close>

theorem wire_grammar_agrees:
  "(case derive_control word of Inl e \<Rightarrow> e = ValueError
    | Inr d \<Rightarrow> \<exists>fs. wire_fields word = Some fs \<and>
        map (\<lambda>r. (fr_sector r, fr_kind r)) (cd_records d) = filter (\<lambda>(sector, kind). kind \<noteq> 0) fs)"
  by (rule parsers_agree)

theorem wire_grammar_agrees_witness:
  "map (\<lambda>r. (fr_sector r, fr_kind r)) (cd_records demo_desc) = filter (\<lambda>(sector, kind). kind \<noteq> 0) demo_fields"
  using wire_grammar_agrees [of demo_write] by (simp only: demo_derive demo_wire sum.case option.inject ex_simps simp_thms)

text \<open>C16: The receiver is the mirror of the sender: on the same flits its context raises exactly what the sender's
  context raises, and otherwise classifies every half and reserves every credit exactly as the sender does.\<close>

theorem receiver_mirrors_sender:
  assumes "halves_fit flits"
  shows "(case run sender (context_new auth) flits of
      Inl e \<Rightarrow> run receiver (receive_context_new auth) flits = Inl e
    | Inr (c, outs) \<Rightarrow> \<exists>r routs. run receiver (receive_context_new auth) flits = Inr (r, routs) \<and>
        map (\<lambda>(cls, demands, _). (cls, demands)) routs = outs)"
  by (rule receiver_follows_sender [OF assms])

lemma demo_fit: "halves_fit demo_flits"
  by code_simp

theorem receiver_mirrors_sender_witness:
  "\<exists>r routs. run receiver (receive_context_new False) demo_flits = Inr (r, routs) \<and>
     map (\<lambda>(cls, demands, _). (cls, demands)) routs = outputs sender (context_new False) demo_flits"
proof -
  have "\<not> isl (run sender (context_new False) demo_flits)" by code_simp
  from run_final [OF this] show ?thesis using receiver_mirrors_sender [OF demo_fit, of False] by simp
qed

text \<open>C17: Credits come back once: along any run of committed flits of a new receive context, without
  a further reset, the credits of a class released never exceed
  those reserved, and when no tenure is under way everything reserved, commands and data, has been released.\<close>

theorem reserved_credits_return:
  assumes "run receiver (receive_context_new auth) flits = Inr (r, outs)" "halves_fit flits" "k < 20"
  shows "released_at k outs \<le> reserved_at k outs \<and> (rx_queue r = [] \<longrightarrow> released_at k outs = reserved_at k outs)"
  by (rule credits_returned [OF assms])

lemma demo_run: "\<not> isl (run receiver (receive_context_new False) demo_flits)"
  by code_simp

theorem reserved_credits_return_witness:
  "released_at 12 (outputs receiver (receive_context_new False) demo_flits) =
     reserved_at 12 (outputs receiver (receive_context_new False) demo_flits) \<and>
   reserved_at 12 (outputs receiver (receive_context_new False) demo_flits) = 2"
proof -
  have "rx_queue (final receiver (receive_context_new False) demo_flits) = []"
    "reserved_at 12 (outputs receiver (receive_context_new False) demo_flits) = 2" by code_simp+
  then show ?thesis using reserved_credits_return [OF run_final [OF demo_run] demo_fit, of 12] by simp
qed

text \<open>An admitted tenure never waits: from a fresh sender over an initialised ledger, however grants arrive, every
  flit proposed, the header by admission and the data of its tenure unconditionally, is taken at once unless the
  ledger reports the grants that arrive with it in error.\<close>

theorem admitted_tenure_never_waits:
  assumes "tl_ledger_new bits = Inr L0" "reach ledger_machine L0 L" "tg_done L"
    and "reach paced (context_new auth, L) s" "paced s i = Inr (s', out)" "po_proposed out" "\<not> po_error out"
  shows "po_taken out"
  by (rule tenure_never_waits [OF assms])

definition demo_ledger0 :: tl_ledger where
  "demo_ledger0 = projr (tl_ledger_new 8)"

lemma demo_ledger0: "tl_ledger_new 8 = Inr demo_ledger0"
  unfolding demo_ledger0_def by (rule projr_ok) code_simp

definition demo_grants :: "ledger_input list" where
  "demo_grants = [(replicate 20 2, replicate 20 0, True, False, True, False, False)]"

definition demo_ledger :: tl_ledger where
  "demo_ledger = final ledger_machine demo_ledger0 demo_grants"

lemma demo_ledger: "reach ledger_machine demo_ledger0 demo_ledger"
  unfolding demo_ledger_def by (rule reach_final) code_simp

definition demo_pace :: "int \<Rightarrow> pace_input" where
  "demo_pace w = \<lparr>pi_lower = w, pi_msg = (None, None), pi_grants = replicate 20 0, pi_receive = False\<rparr>"

definition demo_paced :: "credit_context \<times> tl_ledger" where
  "demo_paced = final paced (context_new False, demo_ledger) [demo_pace demo_write]"

theorem admitted_tenure_never_waits_witness:
  "po_proposed (snd (projr (paced demo_paced (demo_pace 0)))) \<and> po_taken (snd (projr (paced demo_paced (demo_pace 0)))) \<and>
   length (cc_pending (fst demo_paced)) = 3"
proof -
  have r: "reach paced (context_new False, demo_ledger) demo_paced" unfolding demo_paced_def by (rule reach_final) code_simp
  have "\<not> isl (paced demo_paced (demo_pace 0))" by code_simp
  then have s: "paced demo_paced (demo_pace 0) = Inr (fst (projr (paced demo_paced (demo_pace 0))), snd (projr (paced demo_paced (demo_pace 0))))"
    using projr_ok by simp
  have p: "po_proposed (snd (projr (paced demo_paced (demo_pace 0))))" "\<not> po_error (snd (projr (paced demo_paced (demo_pace 0))))"
    "tg_done demo_ledger" "length (cc_pending (fst demo_paced)) = 3" by code_simp+
  show ?thesis using admitted_tenure_never_waits [OF demo_ledger0 demo_ledger p(3) r s p(1,2)] p by blast
qed

text \<open>The ledger never overdraws and never overfills: in every reachable state the credit of each class lies between
  zero and its capacity, which fits the counter of the class, the joint data pool having one bit more.\<close>

theorem tl_ledger_within_capacity:
  assumes "tl_ledger_new bits = Inr L0" "reach ledger_machine L0 L" "k < 20"
  shows "0 \<le> tg_available L ! k \<and> tg_available L ! k \<le> tg_capacity L ! k \<and>
    tg_capacity L ! k \<le> class_limit (tg_limit L) (tg_shared L) k"
  by (rule ledger_bounds [OF assms])

theorem tl_ledger_within_capacity_witness:
  "tg_available demo_ledger ! 12 \<le> tg_capacity demo_ledger ! 12 \<and> tg_capacity demo_ledger ! 12 = 2"
proof -
  have "tg_capacity demo_ledger ! 12 = 2" by code_simp
  then show ?thesis using tl_ledger_within_capacity [OF demo_ledger0 demo_ledger, of 12] by simp
qed

text \<open>Publication conserves credit: after the start, and along any further inputs without a reset, the capacity of a
  class plus the releases taken is the grants taken plus what is pending, which is never negative.\<close>

theorem publication_conserves_credit:
  assumes "fc_new width = Inr p0" "run fc_step p0 (i # ins) = Inr (p, out # outs)" "fo_start_taken out"
    and "list_all (\<lambda>i. \<not> fi_reset i) (i # ins)" "k < 20"
  shows "or_zeros (fi_capacities i) ! k + returned_at k ins outs = granted_at k outs + fp_pending p ! k \<and> 0 \<le> fp_pending p ! k"
  by (rule publication_conserves [OF assms])

definition demo_start :: fc_inputs where
  "demo_start = drain_input\<lparr>fi_start := True, fi_capacities := Some (replicate 20 9)\<rparr>"

definition demo_publisher :: fc_publisher where
  "demo_publisher = projr (fc_new 8)"

lemma demo_publisher: "fc_new 8 = Inr demo_publisher"
  unfolding demo_publisher_def by (rule projr_ok) code_simp

definition demo_publication :: "fc_outputs list" where
  "demo_publication = outputs fc_step demo_publisher [demo_start, drain_input, drain_input]"

theorem publication_conserves_credit_witness:
  "9 + returned_at 0 [drain_input, drain_input] (tl demo_publication) = granted_at 0 (tl demo_publication) +
     fp_pending (final fc_step demo_publisher [demo_start, drain_input, drain_input]) ! 0 \<and>
   granted_at 0 (tl demo_publication) = 7"
proof -
  have n: "\<not> isl (run fc_step demo_publisher [demo_start, drain_input, drain_input])" by code_simp
  have "demo_publication \<noteq> []" by code_simp
  then have "run fc_step demo_publisher (demo_start # [drain_input, drain_input]) =
      Inr (final fc_step demo_publisher [demo_start, drain_input, drain_input], hd demo_publication # tl demo_publication)"
    using run_final [OF n] by (simp add: demo_publication_def)
  moreover have "fo_start_taken (hd demo_publication)" "list_all (\<lambda>i. \<not> fi_reset i) [demo_start, drain_input, drain_input]"
    "or_zeros (fi_capacities demo_start) ! 0 = 9" "granted_at 0 (tl demo_publication) = 7" by code_simp+
  ultimately show ?thesis using publication_conserves_credit [OF demo_publisher, of demo_start _ _ "hd demo_publication" "tl demo_publication" 0] by simp
qed

text \<open>C30: Publication ends: a started publisher whose words are taken, with nothing further released to it, never raises
  and within two edges for each pending credit and two more has granted everything and sent its completion.\<close>

theorem publication_ends:
  assumes "fc_new width = Inr p0" "reach fc_step p0 p" "fp_active p" "2 * nat (\<Sum>k<20. fp_pending p ! k) + 2 \<le> n"
  shows "\<exists>p' outs. run fc_step p (replicate n drain_input) = Inr (p', outs) \<and> fp_done p' \<and> \<not> fp_valid p' \<and> (\<forall>k<20. fp_pending p' ! k = 0)"
  by (rule drains_from_reachable [OF assms])

definition demo_started :: fc_publisher where
  "demo_started = final fc_step demo_publisher [demo_start]"

lemma demo_started: "reach fc_step demo_publisher demo_started"
  unfolding demo_started_def by (rule reach_final) code_simp

theorem publication_ends_witness:
  "\<exists>p' outs. run fc_step demo_started (replicate 400 drain_input) = Inr (p', outs) \<and> fp_done p' \<and> (\<forall>k<20. fp_pending p' ! k = 0)"
proof -
  have "fp_active demo_started" by code_simp
  moreover have "list_all (\<lambda>k. fp_pending demo_started ! k = 9) [0..<20]" by code_simp
  then have "(\<Sum>k<20. fp_pending demo_started ! k) = 180" by (simp add: list_all_iff)
  ultimately show ?thesis using publication_ends [OF demo_publisher demo_started, of 400] by auto
qed

text \<open>What is published is what is read: a flow-control word held by any reachable publisher decodes on the wire,
  through the grammar of the receiver, to exactly the grants the publisher books for it, none beyond what is pending.\<close>

theorem held_words_read_back:
  assumes "fc_new width = Inr p0" "reach fc_step p0 p" "fp_valid p" "\<not> fp_complete p"
  shows "we_valid (decode_events (fp_word p) upper 0 True) \<and> we_grants (decode_events (fp_word p) upper 0 True) = published (fp_word p) \<and>
    (\<forall>k<20. 0 \<le> published (fp_word p) ! k \<and> published (fp_word p) ! k \<le> fp_pending p ! k)"
  by (rule held_word_read [OF assms])

definition demo_held :: fc_publisher where
  "demo_held = final fc_step demo_publisher [demo_start, drain_input]"

theorem held_words_read_back_witness:
  "we_grants (decode_events (fp_word demo_held) 0 0 True) = published (fp_word demo_held) \<and> published (fp_word demo_held) ! 10 = 9"
proof -
  have r: "reach fc_step demo_publisher demo_held" unfolding demo_held_def by (rule reach_final) code_simp
  have "fp_valid demo_held" "\<not> fp_complete demo_held" "published (fp_word demo_held) ! 10 = 9" by code_simp+
  then show ?thesis using held_words_read_back [OF demo_publisher r, of 0] by blast
qed

text \<open>C5: What the transmitter validates the receiver takes: over any run of a fresh transmitter and a fresh receiver,
  whatever the flits and whatever the receiver sends itself, a validated flit is taken by a live receiver exactly
  when the ledger does not report its grants in error, and then both ends stay in the same state.\<close>

theorem validated_flits_taken:
  assumes "integrated_new bits auth = Inr g0" "reach link (validation_new auth, g0) (v, g)"
    and "link (v, g) i = Inr ((v', g'), True, sig)" "\<not> ig_fatal g"
  shows "is_rx_taken sig = (\<not> grants_in_error g (li_lower i) (li_upper i) (li_msg i)) \<and> (is_rx_taken sig \<longrightarrow> matched v' g')"
  by (rule link_received [OF assms])

definition demo_integrated :: integrated where
  "demo_integrated = projr (integrated_new 8 False)"

lemma demo_integrated: "integrated_new 8 False = Inr demo_integrated"
  unfolding demo_integrated_def by (rule projr_ok) code_simp

definition demo_link_input :: link_input where
  "demo_link_input = \<lparr>li_lower = demo_write, li_upper = 77, li_msg = 0, li_send = False, li_demands = None\<rparr>"

definition demo_linked :: "(tx_validation \<times> integrated) \<times> bool \<times> integrated_signals" where
  "demo_linked = projr (link (validation_new False, demo_integrated) demo_link_input)"

theorem validated_flits_taken_witness:
  "is_rx_taken (snd (snd demo_linked)) \<and> matched (fst (fst demo_linked)) (snd (fst demo_linked)) \<and>
   is_classes (snd (snd demo_linked)) = (0, 1)"
proof -
  have "link (validation_new False, demo_integrated) demo_link_input = Inr demo_linked"
    unfolding demo_linked_def by (rule projr_ok) code_simp
  moreover have "fst (snd demo_linked)" by code_simp
  ultimately have s: "link (validation_new False, demo_integrated) demo_link_input =
      Inr ((fst (fst demo_linked), snd (fst demo_linked)), True, snd (snd demo_linked))"
    by (metis prod.collapse)
  have e: "\<not> grants_in_error demo_integrated (li_lower demo_link_input) (li_upper demo_link_input) (li_msg demo_link_input)"
    "\<not> ig_fatal demo_integrated" "is_classes (snd (snd demo_linked)) = (0, 1)" by code_simp+
  show ?thesis using validated_flits_taken [OF demo_integrated reach_start s e(2)] e by blast
qed

end
