(* ===== verification/Hbm_Config.thy ===== *)
theory Hbm_Config
  imports Prelude
begin

section \<open>HBM model: configuration, requests and addresses\<close>

text \<open>
  \<open>src/Library/models/hbm/hbm_model/model.py\<close>: the dataclasses of the memory model. The properties in
  nanoseconds are floating point and are not modelled, nor is the YAML reader. A byte is an \<open>8 word\<close>, the event
  detail (a formatted string in the code) is the datatype of what is formatted.
\<close>

record hbm_config =
  hc_partitions :: int
  hc_capacity :: int
  hc_clock :: int
  hc_beat :: int
  hc_max_transaction :: int
  hc_rate :: int
  hc_read_latency :: int
  hc_write_latency :: int
  hc_max_outstanding :: int
  hc_channels :: int
  hc_pseudo_channels :: int
  hc_bank_groups :: int
  hc_banks_per_group :: int
  hc_row :: int
  hc_interleave :: int
  hc_timing :: bool
  hc_scheduler :: string
  hc_max_issues :: int
  hc_activate :: int
  hc_precharge :: int
  hc_row_active :: int
  hc_column :: int
  hc_row_to_row :: int
  hc_window :: int
  hc_read_to_write :: int
  hc_write_to_read :: int
  hc_refresh :: bool
  hc_refresh_interval :: int
  hc_refresh_duration :: int
  hc_refresh_stagger :: int
  hc_ecc :: bool
  hc_correctable :: int
  hc_event_depth :: int

definition total_capacity_bytes :: "hbm_config \<Rightarrow> int" where
  "total_capacity_bytes c = hc_partitions c * hc_capacity c"

definition pseudo_channels_per_partition :: "hbm_config \<Rightarrow> int" where
  "pseudo_channels_per_partition c = hc_channels c * hc_pseudo_channels c"

definition banks_per_pseudo_channel :: "hbm_config \<Rightarrow> int" where
  "banks_per_pseudo_channel c = hc_bank_groups c * hc_banks_per_group c"

definition banks_per_partition :: "hbm_config \<Rightarrow> int" where
  "banks_per_partition c = pseudo_channels_per_partition c * banks_per_pseudo_channel c"

definition payload_bytes_per_second :: "hbm_config \<Rightarrow> int" where
  "payload_bytes_per_second c = hc_rate c * hc_clock c"

definition aggregate_bytes_per_second :: "hbm_config \<Rightarrow> int" where
  "aggregate_bytes_per_second c = hc_partitions c * payload_bytes_per_second c"

definition positive_settings :: "hbm_config \<Rightarrow> int list" where
  "positive_settings c =
     [hc_partitions c, hc_capacity c, hc_clock c, hc_beat c, hc_max_transaction c, hc_rate c, hc_read_latency c,
      hc_write_latency c, hc_max_outstanding c, hc_channels c, hc_pseudo_channels c, hc_bank_groups c,
      hc_banks_per_group c, hc_row c, hc_interleave c, hc_activate c, hc_precharge c, hc_row_active c, hc_column c,
      hc_row_to_row c, hc_window c, hc_read_to_write c, hc_write_to_read c, hc_refresh_interval c,
      hc_refresh_duration c, hc_event_depth c]"

definition hbm_validate :: "hbm_config \<Rightarrow> py_error + unit" where
  "hbm_validate c =
     rbind (ensure (\<not> list_ex (\<lambda>x. x \<le> 0) (positive_settings c))) (\<lambda>_.
     rbind (ensure (0 \<le> hc_max_issues c)) (\<lambda>_.
     rbind (ensure (\<not> (hc_refresh_stagger c < 0 \<or> hc_correctable c < 0))) (\<lambda>_.
     rbind (ensure (hc_scheduler c \<in> {''fifo'', ''fr_fcfs''})) (\<lambda>_.
     rbind (ensure (hc_capacity c mod hc_beat c = 0)) (\<lambda>_.
     rbind (ensure (hc_max_transaction c mod hc_beat c = 0)) (\<lambda>_.
     rbind (ensure (hc_row c mod hc_beat c = 0 \<and> hc_interleave c mod hc_beat c = 0)) (\<lambda>_.
     rbind (ensure (hc_interleave c \<le> hc_row c)) (\<lambda>_.
     ensure (\<not> (hc_refresh c \<and> hc_refresh_interval c \<le> hc_refresh_duration c))))))))))"

record hbm_address =
  ad_partition :: int
  ad_channel :: int
  ad_pseudo_channel :: int
  ad_bank_group :: int
  ad_bank :: int
  ad_row :: int
  ad_column :: int
  ad_linear_bank :: int

record hbm_request =
  mq_partition :: int
  mq_address :: int
  mq_length :: int
  mq_tag :: int
  mq_data :: "8 word list option"
  mq_enable :: "8 word list option"
  mq_qos :: int

definition mq_is_write :: "hbm_request \<Rightarrow> bool" where
  "mq_is_write r \<longleftrightarrow> mq_data r \<noteq> None"

datatype hbm_status = HBM_OK | HBM_ECC_CORRECTED | HBM_ECC_UNCORRECTABLE | HBM_DATA_ERROR

record hbm_response =
  mr_partition :: int
  mr_tag :: int
  mr_is_write :: bool
  mr_data :: "8 word list"
  mr_cycle :: int
  mr_status :: hbm_status
  mr_corrected :: int
  mr_address :: int

datatype hbm_event_kind =
  Partition_Enabled | Partition_Disabled | Fault_Injected | Backpressure_Disabled | Backpressure_Full | Accepted
| Refresh | Issued | Completed

datatype hbm_detail = No_Detail | Until int | Done int | Status hbm_status

record hbm_event =
  me_cycle :: int
  me_kind :: hbm_event_kind
  me_partition :: int
  me_tag :: "int option"
  me_address :: "int option"
  me_detail :: hbm_detail

record hbm_stats =
  ms_accepted :: int
  ms_read_bytes :: int
  ms_write_bytes :: int
  ms_issued :: int
  ms_completed :: int
  ms_backpressure :: int
  ms_disabled :: int
  ms_row_hits :: int
  ms_row_misses :: int
  ms_row_conflicts :: int
  ms_refreshes :: int
  ms_refresh_blocked :: int
  ms_turnarounds :: int
  ms_corrected :: int
  ms_uncorrectable :: int
  ms_first_issue :: "int option"
  ms_last_issue :: "int option"

definition ms_new :: hbm_stats where
  "ms_new = \<lparr>ms_accepted = 0, ms_read_bytes = 0, ms_write_bytes = 0, ms_issued = 0, ms_completed = 0,
     ms_backpressure = 0, ms_disabled = 0, ms_row_hits = 0, ms_row_misses = 0, ms_row_conflicts = 0, ms_refreshes = 0,
     ms_refresh_blocked = 0, ms_turnarounds = 0, ms_corrected = 0, ms_uncorrectable = 0, ms_first_issue = None,
     ms_last_issue = None\<rparr>"

definition accepted_payload_bytes :: "hbm_stats \<Rightarrow> int" where
  "accepted_payload_bytes s = ms_read_bytes s + ms_write_bytes s"

record bank_state =
  bk_open_row :: "int option"
  bk_ready :: int
  bk_active_since :: int

definition bank_new :: bank_state where
  "bank_new = \<lparr>bk_open_row = None, bk_ready = 0, bk_active_since = 0\<rparr>"

record partition_state =
  pt_enabled :: bool
  pt_refresh_until :: int
  pt_next_refresh :: int
  pt_command_ready :: int
  pt_last_write :: "bool option"

definition partition_new :: "int \<Rightarrow> partition_state" where
  "partition_new next_refresh = \<lparr>pt_enabled = True, pt_refresh_until = 0, pt_next_refresh = next_refresh,
     pt_command_ready = 0, pt_last_write = None\<rparr>"

definition validate_partition :: "hbm_config \<Rightarrow> int \<Rightarrow> py_error + unit" where
  "validate_partition c p = ensure (0 \<le> p \<and> p < hc_partitions c)"

definition decode_address :: "hbm_config \<Rightarrow> int \<Rightarrow> int \<Rightarrow> py_error + hbm_address" where
  "decode_address c p address =
     rbind (validate_partition c p) (\<lambda>_.
     rbind (ensure (0 \<le> address \<and> address < hc_capacity c)) (\<lambda>_.
       let interleave = hc_interleave c;
           line = address div interleave;
           linear_bank = line mod banks_per_partition c;
           row_span_lines = hc_row c div interleave;
           row = (line div banks_per_partition c) div row_span_lines;
           column_line = (line div banks_per_partition c) mod row_span_lines;
           column_byte = column_line * interleave + address mod interleave;
           pc_linear = linear_bank div banks_per_pseudo_channel c;
           bank_in_pc = linear_bank mod banks_per_pseudo_channel c
       in Inr \<lparr>ad_partition = p, ad_channel = pc_linear div hc_pseudo_channels c,
            ad_pseudo_channel = pc_linear mod hc_pseudo_channels c,
            ad_bank_group = bank_in_pc div hc_banks_per_group c, ad_bank = bank_in_pc mod hc_banks_per_group c,
            ad_row = row, ad_column = column_byte, ad_linear_bank = linear_bank\<rparr>))"

definition validate_request :: "hbm_config \<Rightarrow> hbm_request \<Rightarrow> py_error + unit" where
  "validate_request c r =
     rbind (validate_partition c (mq_partition r)) (\<lambda>_.
     rbind (ensure (\<not> (mq_length r \<le> 0 \<or> mq_length r mod hc_beat c \<noteq> 0))) (\<lambda>_.
     rbind (ensure (mq_length r \<le> hc_max_transaction c)) (\<lambda>_.
     rbind (ensure (\<not> (mq_address r < 0 \<or> mq_address r mod hc_beat c \<noteq> 0))) (\<lambda>_.
     rbind (ensure (mq_address r + mq_length r \<le> hc_capacity c)) (\<lambda>_.
     rbind (case mq_data r of None \<Rightarrow> Inr () | Some d \<Rightarrow> ensure (int (length d) = mq_length r)) (\<lambda>_.
     rbind (case mq_enable r of None \<Rightarrow> Inr ()
            | Some e \<Rightarrow>
                rbind (ensure (mq_is_write r)) (\<lambda>_.
                rbind (ensure (int (length e) = mq_length r)) (\<lambda>_.
                ensure (\<not> list_ex (\<lambda>b. b \<notin> {0, 1}) e)))) (\<lambda>_.
     ensure (0 \<le> mq_qos r))))))))"

definition requests_conflict :: "hbm_request \<Rightarrow> hbm_request \<Rightarrow> bool" where
  "requests_conflict older newer \<longleftrightarrow>
     (if \<not> (mq_is_write older \<or> mq_is_write newer) then False
      else mq_address older < mq_address newer + mq_length newer \<and>
           mq_address newer < mq_address older + mq_length older)"

end
