(* ===== verification/Hbm_Model.thy ===== *)
theory Hbm_Model
  imports Hbm_Config
begin

section \<open>HBM model: submission, scheduling, completion\<close>

text \<open>
  The class \<open>HBMModel\<close>, method by method. The heap of requests in flight is kept as the sorted list of its
  entries: the code reads its minimum and pushes and pops, nothing else. \<open>queue.rotate\<close> around a \<open>popleft\<close>
  removes one position. Methods return the updated model; one that may raise after a change returns both.
\<close>

record hbm_model =
  hb_config :: hbm_config
  hb_cycle :: int
  hb_stats :: hbm_stats
  hb_pending :: "(int \<times> hbm_request) list list"
  hb_outstanding :: "int list"
  hb_tokens :: "int list"
  hb_last_completion :: "int list"
  hb_inflight :: "(int \<times> int \<times> hbm_request) list"
  hb_responses :: "hbm_response list"
  hb_events :: "hbm_event list"
  hb_storage :: "((int \<times> int) \<times> 8 word) list"
  hb_faults :: "((int \<times> int) \<times> (8 word \<times> bool)) list"
  hb_sequence :: int
  hb_banks :: "bank_state list list"
  hb_history :: "int list list"
  hb_parts :: "partition_state list"

definition partition_count :: "hbm_config \<Rightarrow> nat" where
  "partition_count c = nat (hc_partitions c)"

definition hbm_new :: "hbm_config \<Rightarrow> py_error + hbm_model" where
  "hbm_new c =
     rbind (hbm_validate c) (\<lambda>_.
       let n = partition_count c in
       Inr \<lparr>hb_config = c, hb_cycle = 0, hb_stats = ms_new, hb_pending = replicate n [],
         hb_outstanding = replicate n 0, hb_tokens = replicate n 0, hb_last_completion = replicate n 0,
         hb_inflight = [], hb_responses = [], hb_events = [], hb_storage = [], hb_faults = [], hb_sequence = 0,
         hb_banks = replicate n (replicate (nat (banks_per_partition c)) bank_new), hb_history = replicate n [],
         hb_parts = map (\<lambda>p. partition_new (hc_refresh_interval c + int p * hc_refresh_stagger c)) [0..<n]\<rparr>)"

definition hbm_idle :: "hbm_model \<Rightarrow> bool" where
  "hbm_idle m \<longleftrightarrow> hb_inflight m = [] \<and> list_all (\<lambda>queue. queue = []) (hb_pending m)"

definition hbm_record :: "hbm_model \<Rightarrow> hbm_event_kind \<Rightarrow> int \<Rightarrow> int option \<Rightarrow> int option \<Rightarrow> hbm_detail \<Rightarrow> hbm_model" where
  "hbm_record m kind p tag address detail =
     (let events = hb_events m @ [\<lparr>me_cycle = hb_cycle m, me_kind = kind, me_partition = p, me_tag = tag,
                                   me_address = address, me_detail = detail\<rparr>]
      in m\<lparr>hb_events := drop (length events - nat (hc_event_depth (hb_config m))) events\<rparr>)"

definition hbm_outstanding :: "hbm_model \<Rightarrow> int \<Rightarrow> py_error + int" where
  "hbm_outstanding m p = rbind (validate_partition (hb_config m) p) (\<lambda>_. Inr (hb_outstanding m ! nat p))"

definition hbm_pending :: "hbm_model \<Rightarrow> int \<Rightarrow> py_error + int" where
  "hbm_pending m p = rbind (validate_partition (hb_config m) p) (\<lambda>_. Inr (int (length (hb_pending m ! nat p))))"

definition can_accept :: "hbm_model \<Rightarrow> int \<Rightarrow> py_error + bool" where
  "can_accept m p =
     rbind (validate_partition (hb_config m) p) (\<lambda>_.
       Inr (pt_enabled (hb_parts m ! nat p) \<and> hb_outstanding m ! nat p < hc_max_outstanding (hb_config m)))"

definition hbm_submit :: "hbm_model \<Rightarrow> hbm_request \<Rightarrow> py_error + hbm_model \<times> bool" where
  "hbm_submit m r =
     rbind (validate_request (hb_config m) r) (\<lambda>_.
       let p = mq_partition r; st = hb_stats m in
       if \<not> pt_enabled (hb_parts m ! nat p) then
         (let m = m\<lparr>hb_stats := st\<lparr>ms_backpressure := ms_backpressure st + 1, ms_disabled := ms_disabled st + 1\<rparr>\<rparr>
          in Inr (hbm_record m Backpressure_Disabled p (Some (mq_tag r)) (Some (mq_address r)) No_Detail, False))
       else rbind (can_accept m p) (\<lambda>free.
         if \<not> free then
           (let m = m\<lparr>hb_stats := st\<lparr>ms_backpressure := ms_backpressure st + 1\<rparr>\<rparr>
            in Inr (hbm_record m Backpressure_Full p (Some (mq_tag r)) (Some (mq_address r)) No_Detail, False))
         else
           (let sequence = hb_sequence m + 1;
                st = st\<lparr>ms_accepted := ms_accepted st + 1\<rparr>;
                st = (if mq_is_write r then st\<lparr>ms_write_bytes := ms_write_bytes st + mq_length r\<rparr>
                      else st\<lparr>ms_read_bytes := ms_read_bytes st + mq_length r\<rparr>);
                m = m\<lparr>hb_sequence := sequence,
                      hb_pending := (hb_pending m)[nat p := hb_pending m ! nat p @ [(sequence, r)]],
                      hb_outstanding := (hb_outstanding m)[nat p := hb_outstanding m ! nat p + 1],
                      hb_stats := st\<rparr>
            in Inr (hbm_record m Accepted p (Some (mq_tag r)) (Some (mq_address r)) No_Detail, True))))"

definition submit_read :: "hbm_model \<Rightarrow> int \<Rightarrow> int \<Rightarrow> int \<Rightarrow> int \<Rightarrow> int \<Rightarrow> py_error + hbm_model \<times> bool" where
  "submit_read m p address len tag qos =
     hbm_submit m \<lparr>mq_partition = p, mq_address = address, mq_length = len, mq_tag = tag, mq_data = None,
       mq_enable = None, mq_qos = qos\<rparr>"

definition submit_write ::
  "hbm_model \<Rightarrow> int \<Rightarrow> int \<Rightarrow> 8 word list \<Rightarrow> int \<Rightarrow> 8 word list option \<Rightarrow> int \<Rightarrow> py_error + hbm_model \<times> bool" where
  "submit_write m p address data tag byte_enable qos =
     hbm_submit m \<lparr>mq_partition = p, mq_address = address, mq_length = int (length data), mq_tag = tag,
       mq_data = Some data, mq_enable = byte_enable, mq_qos = qos\<rparr>"

definition pop_response :: "hbm_model \<Rightarrow> hbm_model \<times> hbm_response option" where
  "pop_response m = (case hb_responses m of [] \<Rightarrow> (m, None) | r # rest \<Rightarrow> (m\<lparr>hb_responses := rest\<rparr>, Some r))"

definition drain_responses :: "hbm_model \<Rightarrow> hbm_model \<times> hbm_response list" where
  "drain_responses m = (m\<lparr>hb_responses := []\<rparr>, hb_responses m)"

definition drain_events :: "hbm_model \<Rightarrow> hbm_model \<times> hbm_event list" where
  "drain_events m = (m\<lparr>hb_events := []\<rparr>, hb_events m)"

definition set_part :: "hbm_model \<Rightarrow> nat \<Rightarrow> partition_state \<Rightarrow> hbm_model" where
  "set_part m p s = m\<lparr>hb_parts := (hb_parts m)[p := s]\<rparr>"

definition set_partition_enabled :: "hbm_model \<Rightarrow> int \<Rightarrow> bool \<Rightarrow> py_error + hbm_model" where
  "set_partition_enabled m p enabled =
     rbind (validate_partition (hb_config m) p) (\<lambda>_.
       let m = set_part m (nat p) ((hb_parts m ! nat p)\<lparr>pt_enabled := enabled\<rparr>)
       in Inr (hbm_record m (if enabled then Partition_Enabled else Partition_Disabled) p None None No_Detail))"

definition request_refresh :: "hbm_model \<Rightarrow> int \<Rightarrow> py_error + hbm_model" where
  "request_refresh m p =
     rbind (validate_partition (hb_config m) p) (\<lambda>_.
       let s = hb_parts m ! nat p
       in Inr (set_part m (nat p) (s\<lparr>pt_next_refresh := min (pt_next_refresh s) (hb_cycle m + 1)\<rparr>)))"

text \<open>The loop over the bit positions stops at the first bad one; the masks set before it stay.\<close>

fun inject_loop :: "hbm_model \<Rightarrow> int \<Rightarrow> int \<Rightarrow> int list \<Rightarrow> bool \<Rightarrow> hbm_model \<times> py_error option" where
  "inject_loop m p address [] persistent = (m, None)"
| "inject_loop m p address (b # bits) persistent =
     (if b < 0 then (m, Some ValueError)
      else let byte_address = address + b div 8 in
        if hc_capacity (hb_config m) \<le> byte_address then (m, Some ValueError)
        else let key = (p, byte_address); (flips, previous) = dget (hb_faults m) key (0, False) in
          inject_loop (m\<lparr>hb_faults := AList.update key (flips XOR push_bit (nat (b mod 8)) 1, persistent \<or> previous)
            (hb_faults m)\<rparr>) p address bits persistent)"

definition inject_bit_errors :: "hbm_model \<Rightarrow> int \<Rightarrow> int \<Rightarrow> int list \<Rightarrow> bool \<Rightarrow> hbm_model \<times> py_error option" where
  "inject_bit_errors m p address bits persistent =
     (case validate_partition (hb_config m) p of Inl e \<Rightarrow> (m, Some e)
      | Inr _ \<Rightarrow> (case inject_loop m p address bits persistent of
          (m, Some e) \<Rightarrow> (m, Some e)
        | (m, None) \<Rightarrow> (hbm_record m Fault_Injected p None (Some address) No_Detail, None)))"

definition clear_faults :: "hbm_model \<Rightarrow> int option \<Rightarrow> py_error + hbm_model" where
  "clear_faults m p =
     (case p of None \<Rightarrow> Inr (m\<lparr>hb_faults := []\<rparr>)
      | Some p \<Rightarrow> rbind (validate_partition (hb_config m) p) (\<lambda>_.
          Inr (m\<lparr>hb_faults := filter (\<lambda>(key, _). fst key \<noteq> p) (hb_faults m)\<rparr>)))"

subsection \<open>Refresh and tokens\<close>

definition refresh_bank :: "int \<Rightarrow> bank_state \<Rightarrow> bank_state" where
  "refresh_bank until b = b\<lparr>bk_open_row := None, bk_ready := max (bk_ready b) until\<rparr>"

definition service_refresh :: "hbm_model \<Rightarrow> nat \<Rightarrow> hbm_model" where
  "service_refresh m p =
     (let c = hb_config m; s = hb_parts m ! p; st = hb_stats m in
      if \<not> hc_refresh c then m
      else if hb_cycle m < pt_refresh_until s then
        m\<lparr>hb_stats := st\<lparr>ms_refresh_blocked := ms_refresh_blocked st + 1\<rparr>\<rparr>
      else if pt_next_refresh s \<le> hb_cycle m then
        (let until = hb_cycle m + hc_refresh_duration c;
             s = s\<lparr>pt_refresh_until := until, pt_next_refresh := pt_next_refresh s + hc_refresh_interval c,
                   pt_command_ready := max (pt_command_ready s) until\<rparr>;
             m = (set_part m p s)\<lparr>hb_banks := (hb_banks m)[p := map (refresh_bank until) (hb_banks m ! p)],
                   hb_stats := st\<lparr>ms_refreshes := ms_refreshes st + 1, ms_refresh_blocked := ms_refresh_blocked st + 1\<rparr>\<rparr>
         in hbm_record m Refresh (int p) None None (Until until))
      else m)"

definition token_capacity :: "hbm_config \<Rightarrow> int" where
  "token_capacity c = max (hc_max_transaction c) (hc_rate c + hc_beat c - 1)"

definition replenish_tokens :: "hbm_model \<Rightarrow> nat \<Rightarrow> hbm_model" where
  "replenish_tokens m p =
     m\<lparr>hb_tokens := (hb_tokens m)[p := min (token_capacity (hb_config m)) (hb_tokens m ! p + hc_rate (hb_config m))]\<rparr>"

subsection \<open>Scheduling\<close>

type_synonym schedule_key = "int \<times> int \<times> int \<times> int \<times> int"

fun key_less :: "schedule_key \<Rightarrow> schedule_key \<Rightarrow> bool" where
  "key_less (a, b, c, d, e) (a', b', c', d', e') \<longleftrightarrow>
     a < a' \<or> a = a' \<and> (b < b' \<or> b = b' \<and> (c < c' \<or> c = c' \<and> (d < d' \<or> d = d' \<and> e < e')))"

definition schedule_key :: "hbm_model \<Rightarrow> nat \<Rightarrow> int \<Rightarrow> hbm_request \<Rightarrow> py_error + schedule_key" where
  "schedule_key m p sequence r =
     rbind (decode_address (hb_config m) (int p) (mq_address r)) (\<lambda>decoded.
       let bank = hb_banks m ! p ! nat (ad_linear_bank decoded);
           row_hit = of_bool (bk_open_row bank = Some (ad_row decoded));
           ready = max (bk_ready bank) (pt_command_ready (hb_parts m ! p))
       in Inr (of_bool (hb_cycle m < ready), - row_hit, ready, - mq_qos r, sequence))"

fun select_loop ::
  "hbm_model \<Rightarrow> nat \<Rightarrow> (int \<times> hbm_request) list \<Rightarrow> (int \<times> hbm_request) list \<Rightarrow> nat \<Rightarrow> schedule_key option \<Rightarrow> py_error + nat"
where
  "select_loop m p older [] best_index best_key = Inr best_index"
| "select_loop m p older ((sequence, r) # entries) best_index best_key =
     (if list_ex (\<lambda>(_, older_request). requests_conflict older_request r) older
      then select_loop m p (older @ [(sequence, r)]) entries best_index best_key
      else rbind (schedule_key m p sequence r) (\<lambda>key.
        if (case best_key of None \<Rightarrow> True | Some best \<Rightarrow> key_less key best)
        then select_loop m p (older @ [(sequence, r)]) entries (length older) (Some key)
        else select_loop m p (older @ [(sequence, r)]) entries best_index best_key))"

definition select_request :: "hbm_model \<Rightarrow> nat \<Rightarrow> py_error + (int \<times> hbm_request) option" where
  "select_request m p =
     (let queue = hb_pending m ! p in
      if queue = [] then Inr None
      else if hc_scheduler (hb_config m) = ''fifo'' \<or> \<not> hc_timing (hb_config m) then Inr (Some (queue ! 0))
      else rbind (select_loop m p [] queue 0 None) (\<lambda>best_index. Inr (Some (queue ! best_index))))"

fun take_selected :: "(int \<times> hbm_request) list \<Rightarrow> int \<Rightarrow> py_error + (int \<times> hbm_request) list \<times> hbm_request" where
  "take_selected [] sequence = Inl RuntimeError"
| "take_selected ((candidate, r) # queue) sequence =
     (if candidate = sequence then Inr (queue, r)
      else rbind (take_selected queue sequence) (\<lambda>(rest, found). Inr ((candidate, r) # rest, found)))"

definition remove_selected :: "hbm_model \<Rightarrow> nat \<Rightarrow> int \<Rightarrow> py_error + hbm_model \<times> hbm_request" where
  "remove_selected m p sequence =
     rbind (take_selected (hb_pending m ! p) sequence) (\<lambda>(queue, r).
       Inr (m\<lparr>hb_pending := (hb_pending m)[p := queue]\<rparr>, r))"

subsection \<open>Bank timing\<close>

text \<open>
  What the timing model decides for the selected request: to wait (with the command-ready cycle, the direction of the
  last operation and the activate history it may have changed), or to go with an extra latency.
\<close>

fun expire :: "int \<Rightarrow> int \<Rightarrow> int list \<Rightarrow> int list" where
  "expire window cycle [] = []"
| "expire window cycle (t # history) = (if t + window \<le> cycle then expire window cycle history else t # history)"

definition open_bank :: "hbm_model \<Rightarrow> nat \<Rightarrow> hbm_request \<Rightarrow> hbm_address \<Rightarrow> hbm_model \<times> int" where
  "open_bank m p r decoded =
     (let c = hb_config m; cycle = hb_cycle m; st = hb_stats m; s = hb_parts m ! p;
          index = nat (ad_linear_bank decoded); bank = hb_banks m ! p ! index; row = ad_row decoded;
          (st, extra, since) =
            (case bk_open_row bank of
               None \<Rightarrow> (st\<lparr>ms_row_misses := ms_row_misses st + 1\<rparr>, hc_activate c, cycle)
             | Some open_row \<Rightarrow>
                 if open_row = row then (st\<lparr>ms_row_hits := ms_row_hits st + 1\<rparr>, 0, bk_active_since bank)
                 else let active_wait = max 0 (bk_active_since bank + hc_row_active c - cycle) in
                   (st\<lparr>ms_row_conflicts := ms_row_conflicts st + 1\<rparr>, active_wait + hc_precharge c + hc_activate c,
                    cycle + active_wait + hc_precharge c));
          history = (if bk_open_row bank \<noteq> Some row
                     then hb_history m ! p @ [cycle + max 0 (extra - hc_activate c)] else hb_history m ! p);
          bank = \<lparr>bk_open_row = Some row, bk_ready = cycle + max (hc_column c) (extra + hc_row_to_row c),
                  bk_active_since = since\<rparr>
      in ((set_part m p (s\<lparr>pt_last_write := Some (mq_is_write r)\<rparr>))\<lparr>hb_stats := st,
             hb_history := (hb_history m)[p := history],
             hb_banks := (hb_banks m)[p := (hb_banks m ! p)[index := bank]]\<rparr>, extra))"

definition activate_gate :: "hbm_model \<Rightarrow> nat \<Rightarrow> hbm_model \<times> bool" where
  "activate_gate m p =
     (let c = hb_config m; s = hb_parts m ! p; history = expire (hc_window c) (hb_cycle m) (hb_history m ! p);
          m = m\<lparr>hb_history := (hb_history m)[p := history]\<rparr>
      in if history \<noteq> [] \<and> hb_cycle m < last history + hc_row_to_row c
         then (set_part m p (s\<lparr>pt_command_ready := last history + hc_row_to_row c\<rparr>), False)
         else if 4 \<le> length history
         then (set_part m p (s\<lparr>pt_command_ready := hd history + hc_window c\<rparr>), False)
         else (m, True))"

definition time_request :: "hbm_model \<Rightarrow> nat \<Rightarrow> hbm_request \<Rightarrow> py_error + hbm_model \<times> int option" where
  "time_request m p r =
     rbind (decode_address (hb_config m) (int p) (mq_address r)) (\<lambda>decoded.
       let c = hb_config m; s = hb_parts m ! p; bank = hb_banks m ! p ! nat (ad_linear_bank decoded); st = hb_stats m in
       if hb_cycle m < max (bk_ready bank) (pt_command_ready s) then Inr (m, None)
       else if pt_last_write s \<noteq> None \<and> pt_last_write s \<noteq> Some (mq_is_write r) then
         (let turnaround = (if pt_last_write s = Some True then hc_write_to_read c else hc_read_to_write c)
          in Inr ((set_part m p (s\<lparr>pt_command_ready := hb_cycle m + turnaround, pt_last_write := Some (mq_is_write r)\<rparr>))
               \<lparr>hb_stats := st\<lparr>ms_turnarounds := ms_turnarounds st + 1\<rparr>\<rparr>, None))
       else if bk_open_row bank \<noteq> Some (ad_row decoded) then
         (case activate_gate m p of
            (m, False) \<Rightarrow> Inr (m, None)
          | (m, True) \<Rightarrow> (case open_bank m p r decoded of (m, extra) \<Rightarrow> Inr (m, Some extra)))
       else (case open_bank m p r decoded of (m, extra) \<Rightarrow> Inr (m, Some extra)))"

subsection \<open>Issue\<close>

fun flight_less :: "int \<times> int \<times> hbm_request \<Rightarrow> int \<times> int \<times> hbm_request \<Rightarrow> bool" where
  "flight_less (t, s, _) (t', s', _) \<longleftrightarrow> t < t' \<or> t = t' \<and> s < s'"

fun heap_push :: "int \<times> int \<times> hbm_request \<Rightarrow> (int \<times> int \<times> hbm_request) list \<Rightarrow> (int \<times> int \<times> hbm_request) list" where
  "heap_push x [] = [x]"
| "heap_push x (y # ys) = (if flight_less y x then y # heap_push x ys else x # y # ys)"

definition launch :: "hbm_model \<Rightarrow> nat \<Rightarrow> int \<Rightarrow> int \<Rightarrow> py_error + hbm_model" where
  "launch m p sequence extra =
     rbind (remove_selected m p sequence) (\<lambda>(m, r).
       let c = hb_config m; st = hb_stats m;
           latency = (if mq_is_write r then hc_write_latency c else hc_read_latency c) + extra;
           completion = max (hb_cycle m + latency) (hb_last_completion m ! p);
           st = st\<lparr>ms_issued := ms_issued st + 1,
                   ms_first_issue := (if ms_first_issue st = None then Some (hb_cycle m) else ms_first_issue st),
                   ms_last_issue := Some (hb_cycle m)\<rparr>;
           m = m\<lparr>hb_tokens := (hb_tokens m)[p := hb_tokens m ! p - mq_length r],
                 hb_last_completion := (hb_last_completion m)[p := completion],
                 hb_inflight := heap_push (completion, sequence, r) (hb_inflight m), hb_stats := st\<rparr>
       in Inr (hbm_record m Issued (int p) (Some (mq_tag r)) (Some (mq_address r)) (Done completion)))"

text \<open>One turn of the issue loop: the model and whether a request was issued.\<close>

definition issue_once :: "hbm_model \<Rightarrow> nat \<Rightarrow> py_error + hbm_model \<times> bool" where
  "issue_once m p =
     rbind (select_request m p) (\<lambda>selected.
       case selected of None \<Rightarrow> Inr (m, False)
       | Some (sequence, r) \<Rightarrow>
           if hb_tokens m ! p < mq_length r then Inr (m, False)
           else rbind (if hc_timing (hb_config m) then time_request m p r else Inr (m, Some 0)) (\<lambda>(m, extra).
             case extra of None \<Rightarrow> Inr (m, False)
             | Some extra \<Rightarrow> rbind (launch m p sequence extra) (\<lambda>m. Inr (m, True))))"

fun issue_loop :: "nat \<Rightarrow> hbm_model \<Rightarrow> nat \<Rightarrow> py_error + hbm_model" where
  "issue_loop 0 m p = Inr m"
| "issue_loop (Suc n) m p =
     rbind (issue_once m p) (\<lambda>(m, issued). if issued then issue_loop n m p else Inr m)"

text \<open>
  Every turn that issues takes one request off the queue, so of the \<open>1 << 30\<close> turns of an unlimited partition at most
  one more than the length of the queue is made.
\<close>

definition issue_limit :: "hbm_config \<Rightarrow> int" where
  "issue_limit c = (if hc_max_issues c = 0 then 1073741824 else hc_max_issues c)"

definition issue_partition :: "hbm_model \<Rightarrow> nat \<Rightarrow> py_error + hbm_model" where
  "issue_partition m p =
     (let s = hb_parts m ! p in
      if \<not> pt_enabled s \<or> hb_cycle m < pt_refresh_until s then Inr m
      else issue_loop (nat (min (issue_limit (hb_config m)) (int (length (hb_pending m ! p)) + 1))) m p)"

subsection \<open>Completion\<close>

definition store_byte :: "hbm_model \<Rightarrow> int \<times> int \<Rightarrow> 8 word \<Rightarrow> hbm_model" where
  "store_byte m key x =
     (let m = m\<lparr>hb_storage := (if x \<noteq> 0 then AList.update key x (hb_storage m) else AList.delete key (hb_storage m))\<rparr>
      in case map_of (hb_faults m) key of
           Some (_, False) \<Rightarrow> m\<lparr>hb_faults := AList.delete key (hb_faults m)\<rparr>
         | _ \<Rightarrow> m)"

definition byte_enables :: "hbm_request \<Rightarrow> 8 word list" where
  "byte_enables r = (case mq_enable r of None \<Rightarrow> replicate (nat (mq_length r)) 1
     | Some [] \<Rightarrow> replicate (nat (mq_length r)) 1 | Some e \<Rightarrow> e)"

definition apply_write :: "hbm_model \<Rightarrow> hbm_request \<Rightarrow> hbm_model" where
  "apply_write m r =
     foldl (\<lambda>m (offset, x, enabled).
         if enabled = 0 then m else store_byte m (mq_partition r, mq_address r + int offset) x)
       m (enumerate 0 (zip (the (mq_data r)) (byte_enables r)))"

definition bit_count :: "8 word \<Rightarrow> int" where
  "bit_count w = int (length (filter (bit w) [0..<8]))"

record ecc_scan =
  es_observed :: "8 word list"
  es_transient :: "(int \<times> int) list"
  es_errors :: "int list"

definition scan_byte :: "hbm_model \<Rightarrow> hbm_request \<Rightarrow> ecc_scan \<Rightarrow> nat \<Rightarrow> ecc_scan" where
  "scan_byte m r s offset =
     (let key = (mq_partition r, mq_address r + int offset) in
      case map_of (hb_faults m) key of None \<Rightarrow> s
      | Some (flips, persistent) \<Rightarrow>
          let beat = nat (int offset div hc_beat (hb_config m)) in
          s\<lparr>es_observed := (es_observed s)[offset := es_observed s ! offset XOR flips],
            es_errors := (es_errors s)[beat := es_errors s ! beat + bit_count flips],
            es_transient := (if persistent then es_transient s else es_transient s @ [key])\<rparr>)"

definition clean_bytes :: "hbm_model \<Rightarrow> hbm_request \<Rightarrow> 8 word list" where
  "clean_bytes m r = map (\<lambda>offset. dget (hb_storage m) (mq_partition r, mq_address r + int offset) 0)
     [0..<nat (mq_length r)]"

definition read_with_ecc :: "hbm_model \<Rightarrow> hbm_request \<Rightarrow> hbm_model \<times> 8 word list \<times> hbm_status \<times> int" where
  "read_with_ecc m r =
     (let c = hb_config m; clean = clean_bytes m r;
          s = foldl (scan_byte m r) \<lparr>es_observed = clean, es_transient = [],
                es_errors = replicate (nat (mq_length r div hc_beat c)) 0\<rparr> [0..<nat (mq_length r)];
          m = m\<lparr>hb_faults := foldl (\<lambda>faults key. AList.delete key faults) (hb_faults m) (es_transient s)\<rparr>;
          st = hb_stats m; total = sum_list (es_errors s) in
      if total = 0 then (m, clean, HBM_OK, 0)
      else if hc_ecc c \<and> list_all (\<lambda>n. n \<le> hc_correctable c) (es_errors s) then
        (m\<lparr>hb_stats := st\<lparr>ms_corrected := ms_corrected st + 1\<rparr>\<rparr>, clean, HBM_ECC_CORRECTED, total)
      else if hc_ecc c then
        (m\<lparr>hb_stats := st\<lparr>ms_uncorrectable := ms_uncorrectable st + 1\<rparr>\<rparr>, es_observed s, HBM_ECC_UNCORRECTABLE, 0)
      else (m\<lparr>hb_stats := st\<lparr>ms_uncorrectable := ms_uncorrectable st + 1\<rparr>\<rparr>, es_observed s, HBM_DATA_ERROR, 0))"

definition complete_one :: "hbm_model \<Rightarrow> int \<Rightarrow> hbm_request \<Rightarrow> hbm_model" where
  "complete_one m completion r =
     (let (m, data, status, corrected) =
            (if mq_is_write r then (apply_write m r, [], HBM_OK, 0) else read_with_ecc m r);
          p = nat (mq_partition r); st = hb_stats m;
          m = m\<lparr>hb_outstanding := (hb_outstanding m)[p := hb_outstanding m ! p - 1],
                hb_stats := st\<lparr>ms_completed := ms_completed st + 1\<rparr>,
                hb_responses := hb_responses m @ [\<lparr>mr_partition = mq_partition r, mr_tag = mq_tag r,
                  mr_is_write = mq_is_write r, mr_data = data, mr_cycle = completion, mr_status = status,
                  mr_corrected = corrected, mr_address = mq_address r\<rparr>]\<rparr>
      in hbm_record m Completed (mq_partition r) (Some (mq_tag r)) (Some (mq_address r)) (Status status))"

fun complete_loop :: "(int \<times> int \<times> hbm_request) list \<Rightarrow> hbm_model \<Rightarrow> hbm_model" where
  "complete_loop [] m = m\<lparr>hb_inflight := []\<rparr>"
| "complete_loop ((completion, sequence, r) # rest) m =
     (if completion \<le> hb_cycle m then complete_loop rest (complete_one (m\<lparr>hb_inflight := rest\<rparr>) completion r)
      else m\<lparr>hb_inflight := (completion, sequence, r) # rest\<rparr>)"

definition complete_due_requests :: "hbm_model \<Rightarrow> hbm_model" where
  "complete_due_requests m = complete_loop (hb_inflight m) m"

subsection \<open>Time\<close>

definition tick_partition :: "hbm_model \<Rightarrow> nat \<Rightarrow> py_error + hbm_model" where
  "tick_partition m p = issue_partition (replenish_tokens (service_refresh m p) p) p"

definition tick_once :: "hbm_model \<Rightarrow> py_error + hbm_model" where
  "tick_once m =
     (let m = complete_due_requests (m\<lparr>hb_cycle := hb_cycle m + 1\<rparr>)
      in rfold tick_partition m [0..<partition_count (hb_config m)])"

definition hbm_tick :: "hbm_model \<Rightarrow> int \<Rightarrow> py_error + hbm_model" where
  "hbm_tick m cycles =
     rbind (ensure (0 \<le> cycles)) (\<lambda>_. rfold (\<lambda>m _. tick_once m) m [0..<nat cycles])"

text \<open>
  \<open>run_until_idle\<close> makes at most \<open>max_cycles\<close> ticks. The flag says whether the model became idle; otherwise the
  call raises \<open>TimeoutError\<close>, with the model as it is then.
\<close>

fun idle_loop :: "nat \<Rightarrow> hbm_model \<Rightarrow> py_error + hbm_model \<times> bool" where
  "idle_loop 0 m = Inr (m, hbm_idle m)"
| "idle_loop (Suc n) m = (if hbm_idle m then Inr (m, True) else rbind (tick_once m) (idle_loop n))"

definition run_until_idle :: "hbm_model \<Rightarrow> int \<Rightarrow> py_error + hbm_model \<times> (py_error + int)" where
  "run_until_idle m max_cycles =
     rbind (idle_loop (nat max_cycles) m) (\<lambda>(t, idle).
       Inr (t, if idle then Inr (hb_cycle t - hb_cycle m) else Inl TimeoutError))"

end
