(* ===== verification/Hbm_Order.thy ===== *)
theory Hbm_Order
  imports Hbm_Model
begin

section \<open>Memory order: reordered service that no reader can tell from program order\<close>

text \<open>
  The scheduler may serve requests out of order. This theory is about the order alone: accepted requests are numbered
  from 1, a list of numbers is the order in which they took effect, and an order is faithful when every request comes
  after all the older ones it conflicts with. The bytes a reader then sees are those of the writes accepted before it,
  executed in the order of acceptance.
\<close>

definition request_at :: "hbm_request list \<Rightarrow> int \<Rightarrow> hbm_request" where
  "request_at acc i = acc ! nat (i - 1)"

definition clash :: "hbm_request list \<Rightarrow> int \<Rightarrow> int \<Rightarrow> bool" where
  "clash acc i j \<longleftrightarrow> mq_partition (request_at acc i) = mq_partition (request_at acc j) \<and>
     requests_conflict (request_at acc i) (request_at acc j)"

definition faithful :: "hbm_request list \<Rightarrow> int list \<Rightarrow> bool" where
  "faithful acc served \<longleftrightarrow>
     (\<forall>xs j ys. served = xs @ j # ys \<longrightarrow> (\<forall>i. 1 \<le> i \<and> i < j \<and> clash acc i j \<longrightarrow> i \<in> set xs))"

definition touches :: "int \<times> int \<Rightarrow> hbm_request \<Rightarrow> bool" where
  "touches key r \<longleftrightarrow> mq_partition r = fst key \<and> mq_address r \<le> snd key \<and> snd key < mq_address r + mq_length r"

type_synonym memory = "int \<times> int \<Rightarrow> 8 word"

definition write_of :: "hbm_request \<Rightarrow> memory \<Rightarrow> memory" where
  "write_of r mem = (\<lambda>key.
     if mq_is_write r \<and> touches key r \<and> byte_enables r ! nat (snd key - mq_address r) \<noteq> 0
     then the (mq_data r) ! nat (snd key - mq_address r) else mem key)"

definition replay :: "hbm_request list \<Rightarrow> int list \<Rightarrow> memory" where
  "replay acc served = fold (\<lambda>i. write_of (request_at acc i)) served (\<lambda>_. 0)"

lemma clash_sym: "clash acc i j = clash acc j i"
  by (auto simp: clash_def requests_conflict_def)

lemma write_of_miss: "\<not> (mq_is_write r \<and> touches key r) \<Longrightarrow> write_of r mem key = mem key"
  by (auto simp: write_of_def)

lemma write_of_cong: "mem key = mem' key \<Longrightarrow> write_of r mem key = write_of r mem' key"
  by (simp add: write_of_def)

lemma fold_writes_cong:
  "mem key = mem' key \<Longrightarrow>
     fold (\<lambda>i. write_of (request_at acc i)) is mem key = fold (\<lambda>i. write_of (request_at acc i)) is mem' key"
proof (induction "is" arbitrary: mem mem')
  case (Cons i "is")
  show ?case using Cons.IH [of "write_of (request_at acc i) mem" "write_of (request_at acc i) mem'"] write_of_cong [of mem key mem' "request_at acc i"] Cons.prems by simp
qed simp

definition writer :: "hbm_request list \<Rightarrow> int \<times> int \<Rightarrow> int \<Rightarrow> bool" where
  "writer acc key i \<longleftrightarrow> mq_is_write (request_at acc i) \<and> touches key (request_at acc i)"

lemma fold_writers:
  "fold (\<lambda>i. write_of (request_at acc i)) is mem key =
     fold (\<lambda>i. write_of (request_at acc i)) (filter (writer acc key) is) mem key"
proof (induction "is" arbitrary: mem)
  case (Cons i "is")
  have "\<not> writer acc key i \<Longrightarrow> write_of (request_at acc i) mem key = mem key"
    by (rule write_of_miss) (simp add: writer_def)
  then show ?case
    using Cons.IH [of "write_of (request_at acc i) mem"] Cons.IH [of mem]
      fold_writes_cong [of "write_of (request_at acc i) mem" key mem acc "is"] by simp
qed simp

lemma replay_writers: "replay acc is key = replay acc (filter (writer acc key) is) key"
  unfolding replay_def by (rule fold_writers)

lemma replay_snoc: "replay acc (is @ [i]) = write_of (request_at acc i) (replay acc is)"
  by (simp add: replay_def)

lemma faithfulD: "faithful acc (xs @ j # ys) \<Longrightarrow> 1 \<le> i \<Longrightarrow> i < j \<Longrightarrow> clash acc i j \<Longrightarrow> i \<in> set xs"
  unfolding faithful_def by blast

lemma faithful_prefix: "faithful acc (xs @ ys) \<Longrightarrow> faithful acc xs"
  unfolding faithful_def by (metis append.assoc append_Cons)

lemma faithful_Nil [simp]: "faithful acc []"
  by (simp add: faithful_def)

lemma faithful_place:
  assumes f: "faithful acc (xs @ ys)"
    and j: "\<And>i. 1 \<le> i \<Longrightarrow> i < j \<Longrightarrow> clash acc i j \<Longrightarrow> i \<in> set xs"
  shows "faithful acc (xs @ j # ys)"
  unfolding faithful_def
proof (intro allI impI, elim conjE)
  fix us k vs i
  assume eq: "xs @ j # ys = us @ k # vs" and i: "1 \<le> i" "i < k" "clash acc i k"
  from eq consider (before) ws where "xs = us @ k # ws" | (here) "us = xs" "k = j"
    | (after) ws where "us = xs @ j # ws" "ys = ws @ k # vs"
    by (auto simp: append_eq_append_conv2 Cons_eq_append_conv append_eq_Cons_conv)
  then show "i \<in> set us"
  proof cases
    case before
    with f i show ?thesis by (auto intro: faithfulD)
  next
    case here
    with j i show ?thesis by simp
  next
    case after
    with f have "faithful acc ((xs @ ws) @ k # vs)" by simp
    from faithfulD [OF this i] after show ?thesis by auto
  qed
qed

text \<open>The main lemma: what a reader that is served next finds is the memory of the accepted writes before it.\<close>

lemma writers_clash:
  assumes "writer acc key i" and "touches key (request_at acc j)"
  shows "clash acc i j"
  using assms by (auto simp: writer_def clash_def requests_conflict_def touches_def)

lemma sorted_served:
  assumes f: "faithful acc served" and d: "distinct served" and pos: "\<forall>i\<in>set served. 1 \<le> i"
  shows "sorted_wrt (<) (filter (writer acc key) served)"
  using f d pos
proof (induction served rule: rev_induct)
  case (snoc j served)
  have IH: "sorted_wrt (<) (filter (writer acc key) served)"
    using snoc by (auto dest: faithful_prefix)
  have "i < j" if i: "i \<in> set served" "writer acc key i" and j: "writer acc key j" for i
  proof (rule ccontr)
    assume "\<not> i < j"
    moreover have "i \<noteq> j" using snoc.prems(2) i(1) by auto
    ultimately have "j < i" by simp
    from split_list [OF i(1)] obtain us vs where "served = us @ i # vs" by blast
    with snoc.prems(1) have "faithful acc (us @ i # (vs @ [j]))" by simp
    moreover have "clash acc j i" using writers_clash [OF j] i(2) by (simp add: writer_def)
    ultimately have "j \<in> set us" using snoc.prems(3) \<open>j < i\<close> by (intro faithfulD) auto
    then show False using snoc.prems(2) \<open>served = us @ i # vs\<close> by auto
  qed
  then show ?case using IH by (auto simp: sorted_wrt_append)
qed simp

lemma served_reader:
  assumes f: "faithful acc (served @ [j])" and d: "distinct (served @ [j])" and pos: "\<forall>i\<in>set (served @ [j]). 1 \<le> i"
    and t: "touches key (request_at acc j)"
  shows "replay acc served key = replay acc [1..j - 1] key"
proof -
  have mem: "i \<in> set served \<longleftrightarrow> 1 \<le> i \<and> i \<le> j - 1" if w: "writer acc key i" for i
  proof
    assume i: "i \<in> set served"
    show "1 \<le> i \<and> i \<le> j - 1"
    proof (rule ccontr)
      assume "\<not> (1 \<le> i \<and> i \<le> j - 1)"
      moreover have "i \<noteq> j" "1 \<le> i" using pos d i by auto
      ultimately have "j < i" by simp
      from split_list [OF i] obtain us vs where s: "served = us @ i # vs" by blast
      have "faithful acc (us @ i # (vs @ [j]))" using f s by simp
      moreover have "clash acc j i" using writers_clash [OF w t] clash_sym by blast
      ultimately have "j \<in> set us" using \<open>j < i\<close> pos by (intro faithfulD) auto
      then show False using d s by auto
    qed
  next
    assume "1 \<le> i \<and> i \<le> j - 1"
    then show "i \<in> set served" using f writers_clash [OF w t] by (auto intro: faithfulD [of acc served j "[]"])
  qed
  have "filter (writer acc key) served = filter (writer acc key) [1..j - 1]"
  proof (rule sorted_distinct_set_unique)
    have "sorted_wrt (<) (filter (writer acc key) served)"
      using f d pos by (intro sorted_served) (auto dest: faithful_prefix)
    then show "sorted (filter (writer acc key) served)" by (rule strict_sorted_imp_sorted)
    show "sorted (filter (writer acc key) [1..j - 1])" by (simp add: sorted_filter [of id, simplified])
    show "set (filter (writer acc key) served) = set (filter (writer acc key) [1..j - 1])" using mem by auto
  qed (use d in auto)
  then show ?thesis using replay_writers by metis
qed

section \<open>What each step of the HBM model leaves alone\<close>

text \<open>
  The part of the model that says which requests are where, and what the memory holds, against the part that only
  keeps time, statistics and the event log. Lemmas in \<open>hbm_core\<close> say that a step leaves the first part alone.
\<close>

definition stored :: "hbm_model \<Rightarrow> memory" where
  "stored m = (\<lambda>key. dget (hb_storage m) key 0)"

definition core :: "hbm_model \<Rightarrow> _" where
  "core m = (hb_config m, hb_sequence m, hb_pending m, hb_last_completion m, hb_inflight m, hb_responses m,
     hb_storage m, hb_outstanding m, hb_tokens m, hb_cycle m)"

lemma core_eq: "core m = core m' \<longleftrightarrow>
    hb_config m = hb_config m' \<and> hb_sequence m = hb_sequence m' \<and> hb_pending m = hb_pending m' \<and>
    hb_last_completion m = hb_last_completion m' \<and> hb_inflight m = hb_inflight m' \<and>
    hb_responses m = hb_responses m' \<and> hb_storage m = hb_storage m' \<and> hb_outstanding m = hb_outstanding m' \<and>
    hb_tokens m = hb_tokens m' \<and> hb_cycle m = hb_cycle m'"
  by (simp add: core_def)

named_theorems hbm_core \<open>steps that leave requests and memory alone\<close>

lemma core_updates [hbm_core]:
  "core (m\<lparr>hb_stats := b\<rparr>) = core m"
  "core (m\<lparr>hb_events := e\<rparr>) = core m" "core (m\<lparr>hb_faults := f\<rparr>) = core m" "core (m\<lparr>hb_banks := g\<rparr>) = core m"
  "core (m\<lparr>hb_history := h\<rparr>) = core m" "core (m\<lparr>hb_parts := k\<rparr>) = core m"
  by (simp_all add: core_def)

lemma core_record [hbm_core]: "core (hbm_record m kind p tag address detail) = core m"
  by (simp add: hbm_record_def Let_def hbm_core)

lemma core_set_part [hbm_core]: "core (set_part m p s) = core m"
  by (simp add: set_part_def hbm_core)

lemma core_refresh [hbm_core]: "core (service_refresh m p) = core m"
  by (simp add: service_refresh_def Let_def hbm_core)

lemma core_open_bank: "open_bank m p r d = (m', extra) \<Longrightarrow> core m' = core m"
  by (auto simp: open_bank_def Let_def hbm_core split: option.splits if_splits)

lemma core_activate_gate: "activate_gate m p = (m', b) \<Longrightarrow> core m' = core m"
  by (auto simp: activate_gate_def Let_def hbm_core split: if_splits)

lemma core_time_request: "time_request m p r = Inr (m', extra) \<Longrightarrow> core m' = core m"
  by (auto simp: time_request_def Let_def hbm_core split: if_splits prod.splits bool.splits
      dest!: core_open_bank core_activate_gate)

lemma core_inject: "inject_loop m p a bits persistent = (m', e) \<Longrightarrow> core m' = core m"
  by (induction m p a bits persistent rule: inject_loop.induct)
    (auto simp: Let_def hbm_core split: if_splits prod.splits)

lemma core_inject_errors: "inject_bit_errors m p a bits persistent = (m', e) \<Longrightarrow> core m' = core m"
  by (auto simp: inject_bit_errors_def hbm_core split: sum.splits prod.splits option.splits dest!: core_inject)

lemma core_clear_faults: "clear_faults m p = Inr m' \<Longrightarrow> core m' = core m"
  by (auto simp: clear_faults_def hbm_core split: option.splits)

lemma core_set_enabled: "set_partition_enabled m p b = Inr m' \<Longrightarrow> core m' = core m"
  by (auto simp: set_partition_enabled_def Let_def hbm_core)

lemma core_request_refresh: "request_refresh m p = Inr m' \<Longrightarrow> core m' = core m"
  by (auto simp: request_refresh_def Let_def hbm_core)

subsection \<open>Writes and reads of the sparse storage\<close>

lemma map_of_delete: "map_of (AList.delete k al) k' = (if k = k' then None else map_of al k')"
  by (simp add: delete_conv')

lemma store_byte_frame:
  "hb_config (store_byte m key x) = hb_config m" "hb_sequence (store_byte m key x) = hb_sequence m"
  "hb_pending (store_byte m key x) = hb_pending m" "hb_inflight (store_byte m key x) = hb_inflight m"
  "hb_last_completion (store_byte m key x) = hb_last_completion m"
  "hb_responses (store_byte m key x) = hb_responses m" "hb_outstanding (store_byte m key x) = hb_outstanding m"
  "hb_cycle (store_byte m key x) = hb_cycle m" "hb_tokens (store_byte m key x) = hb_tokens m"
  "hb_parts (store_byte m key x) = hb_parts m" "hb_banks (store_byte m key x) = hb_banks m"
  "hb_history (store_byte m key x) = hb_history m"
  by (auto simp: store_byte_def Let_def split: option.split bool.split)

lemma stored_store_byte: "stored (store_byte m key x) = (stored m)(key := x)"
  by (rule ext) (auto simp: stored_def store_byte_def Let_def dget_def map_of_delete update_conv' split: option.split bool.split)

definition write_loop :: "int \<Rightarrow> int \<Rightarrow> hbm_model \<Rightarrow> nat \<times> 8 word \<times> 8 word \<Rightarrow> hbm_model" where
  "write_loop p address m z = (case z of (offset, x, enabled) \<Rightarrow> if enabled = 0 then m else store_byte m (p, address + int offset) x)"

lemma apply_write_loop:
  "apply_write m r = foldl (write_loop (mq_partition r) (mq_address r)) m (enumerate 0 (zip (the (mq_data r)) (byte_enables r)))"
  by (simp add: apply_write_def write_loop_def cong: foldl_cong)

lemma write_loop_inv:
  assumes "\<And>m key x. P (store_byte m key x) = P m"
  shows "P (foldl (write_loop p a) m zs) = P m"
  by (induction zs arbitrary: m) (auto simp: write_loop_def assms)

lemma apply_write_frame:
  "hb_config (apply_write m r) = hb_config m" "hb_sequence (apply_write m r) = hb_sequence m"
  "hb_pending (apply_write m r) = hb_pending m" "hb_inflight (apply_write m r) = hb_inflight m"
  "hb_last_completion (apply_write m r) = hb_last_completion m"
  "hb_responses (apply_write m r) = hb_responses m" "hb_outstanding (apply_write m r) = hb_outstanding m"
  "hb_cycle (apply_write m r) = hb_cycle m" "hb_tokens (apply_write m r) = hb_tokens m"
  "hb_parts (apply_write m r) = hb_parts m" "hb_banks (apply_write m r) = hb_banks m"
  "hb_history (apply_write m r) = hb_history m"
  unfolding apply_write_loop by (rule write_loop_inv, simp add: store_byte_frame)+

lemma stored_write_loop:
  "stored (foldl (write_loop p a) m (enumerate k zs)) key =
     (let i = snd key - a - int k in
      if fst key = p \<and> 0 \<le> i \<and> i < int (length zs) \<and> snd (zs ! nat i) \<noteq> 0 then fst (zs ! nat i) else stored m key)"
proof (induction zs arbitrary: m k)
  case (Cons z zs)
  define i where "i = snd key - a - int k"
  obtain x e where z: "z = (x, e)" by force
  have one: "stored (write_loop p a m (k, z)) key = (if fst key = p \<and> i = 0 \<and> e \<noteq> 0 then x else stored m key)"
    by (cases key) (auto simp: i_def z write_loop_def stored_store_byte)
  have n1: "nat (i - 1) = nat i - Suc 0" by arith
  have shift: "snd key - a - int (Suc k) = i - 1" by (simp add: i_def)
  have step: "stored (foldl (write_loop p a) m (enumerate k (z # zs))) key =
    (if fst key = p \<and> 0 \<le> i - 1 \<and> i - 1 < int (length zs) \<and> snd (zs ! nat (i - 1)) \<noteq> 0
     then fst (zs ! nat (i - 1)) else if fst key = p \<and> i = 0 \<and> e \<noteq> 0 then x else stored m key)"
    using Cons.IH [of "write_loop p a m (k, z)" "Suc k"] unfolding one shift Let_def by simp
  consider (neg) "i < 0" | (zero) "i = 0" | (pos) "0 < i" by linarith
  then show ?case
    unfolding step Let_def i_def [symmetric] by cases (auto simp: z n1)
qed (auto simp: Let_def)

lemma byte_enables_length:
  assumes "validate_request c r = Inr ()" and "mq_is_write r"
  shows "int (length (the (mq_data r))) = mq_length r" "int (length (byte_enables r)) = mq_length r" "0 < mq_length r"
  using assms by (auto simp: validate_request_def mq_is_write_def byte_enables_def split: option.splits list.splits)

lemma stored_apply_write:
  assumes "validate_request c r = Inr ()" and "mq_is_write r"
  shows "stored (apply_write m r) = write_of r (stored m)"
proof (rule ext)
  fix key :: "int \<times> int"
  note len = byte_enables_length [OF assms]
  define i where "i = snd key - mq_address r"
  have "int (length (zip (the (mq_data r)) (byte_enables r))) = mq_length r" using len by simp
  moreover have "0 \<le> i \<Longrightarrow> i < mq_length r \<Longrightarrow>
      zip (the (mq_data r)) (byte_enables r) ! nat i = (the (mq_data r) ! nat i, byte_enables r ! nat i)"
    using len by (intro nth_zip) auto
  ultimately show "stored (apply_write m r) key = write_of r (stored m) key"
    using assms(2) unfolding apply_write_loop stored_write_loop
    by (auto simp: Let_def write_of_def touches_def i_def)
qed


lemma read_with_ecc_core:
  assumes "read_with_ecc m r = (m', data, status, corrected)"
  shows "core m' = core m"
  using assms unfolding read_with_ecc_def Let_def
  by (auto simp: hbm_core split: if_splits)

lemma read_with_ecc_good:
  assumes "read_with_ecc m r = (m', data, status, corrected)" and "status = HBM_OK \<or> status = HBM_ECC_CORRECTED"
  shows "data = clean_bytes m r"
  using assms unfolding read_with_ecc_def Let_def
  by (auto split: if_splits)

lemma clean_bytes_stored: "clean_bytes m r = map (\<lambda>k. stored m (mq_partition r, mq_address r + int k)) [0..<nat (mq_length r)]"
  by (simp add: clean_bytes_def stored_def)

end
