(* ===== verification/Hbm_Run.thy ===== *)
theory Hbm_Run
  imports Hbm_Order
begin

section \<open>Every run of the HBM model serves a faithful order\<close>

text \<open>
  The relation between the accepted requests, the order in which they were served, the responses given, and the model:
  every accepted request is pending, in flight or served, once; the requests in flight stand in the order in which they
  will be served; and the memory is the one the served writes leave.
\<close>

definition flights :: "hbm_model \<Rightarrow> int list" where
  "flights m = map (fst \<circ> snd) (hb_inflight m)"

definition waiting :: "hbm_model \<Rightarrow> int set" where
  "waiting m = (\<Union>queue\<in>set (hb_pending m). fst ` set queue)"

definition answers :: "hbm_request list \<Rightarrow> int \<Rightarrow> hbm_response \<Rightarrow> bool" where
  "answers acc i x \<longleftrightarrow> (let r = request_at acc i in
     mr_partition x = mq_partition r \<and> mr_tag x = mq_tag r \<and> mr_is_write x = mq_is_write r \<and>
     mr_address x = mq_address r \<and>
     (if mq_is_write r then mr_data x = [] \<and> mr_status x = HBM_OK
      else mr_status x \<in> {HBM_OK, HBM_ECC_CORRECTED} \<longrightarrow>
        mr_data x = map (\<lambda>k. replay acc [1..i - 1] (mq_partition r, mq_address r + int k)) [0..<nat (mq_length r)]))"

definition accepted_ok :: "hbm_config \<Rightarrow> hbm_request list \<Rightarrow> bool" where
  "accepted_ok c acc \<longleftrightarrow> list_all (\<lambda>r. validate_request c r = Inr ()) acc"

definition numbered :: "hbm_request list \<Rightarrow> int \<Rightarrow> hbm_request \<Rightarrow> bool" where
  "numbered acc s r \<longleftrightarrow> 1 \<le> s \<and> s \<le> int (length acc) \<and> r = request_at acc s"

definition queue_ok :: "hbm_request list \<Rightarrow> nat \<Rightarrow> (int \<times> hbm_request) list \<Rightarrow> bool" where
  "queue_ok acc p queue \<longleftrightarrow>
     list_all (\<lambda>(s, r). numbered acc s r \<and> mq_partition r = int p) queue \<and> sorted_wrt (<) (map fst queue)"

definition in_partition :: "nat \<Rightarrow> int \<times> int \<times> hbm_request \<Rightarrow> bool" where
  "in_partition p f \<longleftrightarrow> mq_partition (snd (snd f)) = int p"

definition hbm_rel :: "hbm_request list \<Rightarrow> int list \<Rightarrow> hbm_response list \<Rightarrow> hbm_model \<Rightarrow> bool" where
  "hbm_rel acc served given m \<longleftrightarrow>
     hbm_validate (hb_config m) = Inr () \<and> accepted_ok (hb_config m) acc \<and> hb_sequence m = int (length acc) \<and>
     length (hb_pending m) = partition_count (hb_config m) \<and>
     length (hb_last_completion m) = partition_count (hb_config m) \<and>
     (\<forall>p < length (hb_pending m). queue_ok acc p (hb_pending m ! p)) \<and>
     list_all (\<lambda>(t, s, r). numbered acc s r \<and> t \<le> hb_last_completion m ! nat (mq_partition r)) (hb_inflight m) \<and>
     sorted_wrt flight_less (hb_inflight m) \<and>
     distinct (served @ flights m) \<and> waiting m \<inter> set (served @ flights m) = {} \<and>
     waiting m \<union> set (served @ flights m) = {1..int (length acc)} \<and>
     faithful acc (served @ flights m) \<and> stored m = replay acc served \<and>
     list_all2 (answers acc) served (given @ hb_responses m)"

lemma hbm_rel_core:
  assumes "core m' = core m"
  shows "hbm_rel acc served given m' \<longleftrightarrow> hbm_rel acc served given m"
  using assms unfolding core_eq hbm_rel_def flights_def waiting_def stored_def by simp

lemma hbm_relD:
  assumes "hbm_rel acc served given m"
  shows "hbm_validate (hb_config m) = Inr ()" "accepted_ok (hb_config m) acc" "hb_sequence m = int (length acc)"
    "length (hb_pending m) = partition_count (hb_config m)"
    "length (hb_last_completion m) = partition_count (hb_config m)"
    "p < length (hb_pending m) \<Longrightarrow> queue_ok acc p (hb_pending m ! p)"
    "list_all (\<lambda>(t, s, r). numbered acc s r \<and> t \<le> hb_last_completion m ! nat (mq_partition r)) (hb_inflight m)"
    "sorted_wrt flight_less (hb_inflight m)" "distinct (served @ flights m)"
    "waiting m \<inter> set (served @ flights m) = {}" "waiting m \<union> set (served @ flights m) = {1..int (length acc)}"
    "faithful acc (served @ flights m)" "stored m = replay acc served"
    "list_all2 (answers acc) served (given @ hb_responses m)"
  using assms unfolding hbm_rel_def by blast+

lemma numbered_valid:
  "accepted_ok c acc \<Longrightarrow> numbered acc s r \<Longrightarrow> validate_request c r = Inr ()"
  by (auto simp: accepted_ok_def numbered_def request_at_def list_all_length)

lemma valid_partition:
  "validate_request c r = Inr () \<Longrightarrow> 0 \<le> mq_partition r \<and> nat (mq_partition r) < partition_count c"
  by (auto simp: validate_request_def validate_partition_def partition_count_def)

lemma hbm_rel_new: "hbm_new c = Inr m \<Longrightarrow> hbm_rel [] [] [] m"
  by (auto simp: hbm_new_def hbm_rel_def Let_def queue_ok_def accepted_ok_def flights_def waiting_def stored_def
      replay_def)

subsection \<open>Acceptance\<close>

lemma request_at_snoc: "1 \<le> i \<Longrightarrow> i \<le> int (length acc) \<Longrightarrow> request_at (acc @ [r]) i = request_at acc i"
  by (auto simp: request_at_def nth_append)

lemma request_at_last: "request_at (acc @ [r]) (int (length acc) + 1) = r"
  by (simp add: request_at_def)

lemma numbered_snoc: "numbered acc s r \<Longrightarrow> numbered (acc @ [x]) s r"
  by (auto simp: numbered_def request_at_snoc)

lemma replay_snoc_acc:
  "set served \<subseteq> {1..int (length acc)} \<Longrightarrow> replay (acc @ [r]) served = replay acc served"
proof (induction served rule: rev_induct)
  case (snoc i served)
  then show ?case by (simp add: replay_snoc request_at_snoc)
qed (simp add: replay_def)

lemma answers_snoc:
  assumes "answers acc i x" "1 \<le> i" "i \<le> int (length acc)"
  shows "answers (acc @ [r]) i x"
proof -
  have "replay (acc @ [r]) [1..i - 1] = replay acc [1..i - 1]"
    using assms by (intro replay_snoc_acc) auto
  with assms show ?thesis by (simp add: answers_def Let_def request_at_snoc)
qed

lemma faithful_snoc_acc:
  assumes "faithful acc served" "set served \<subseteq> {1..int (length acc)}"
  shows "faithful (acc @ [r]) served"
  unfolding faithful_def
proof (intro allI impI, elim conjE)
  fix xs j ys i
  assume s: "served = xs @ j # ys" and i: "1 \<le> i" "i < j" "clash (acc @ [r]) i j"
  then have "clash acc i j" using assms(2) by (simp add: clash_def request_at_snoc)
  with s assms(1) i show "i \<in> set xs" by (auto intro: faithfulD)
qed

lemma waiting_update:
  assumes "p < length (hb_pending m)"
  shows "waiting (m\<lparr>hb_pending := (hb_pending m)[p := queue]\<rparr>) =
    fst ` set queue \<union> (\<Union>k\<in>{k. k < length (hb_pending m) \<and> k \<noteq> p}. fst ` set (hb_pending m ! k))"
proof -
  have "set ((hb_pending m)[p := queue]) = (\<lambda>k. (hb_pending m)[p := queue] ! k) ` {k. k < length (hb_pending m)}"
    by (force simp: in_set_conv_nth)
  also have "{k. k < length (hb_pending m)} = insert p {k. k < length (hb_pending m) \<and> k \<noteq> p}"
    using assms by auto
  finally show ?thesis using assms by (simp add: waiting_def)
qed

lemma waiting_split:
  assumes "p < length (hb_pending m)"
  shows "waiting m = fst ` set (hb_pending m ! p) \<union>
    (\<Union>k\<in>{k. k < length (hb_pending m) \<and> k \<noteq> p}. fst ` set (hb_pending m ! k))"
  using waiting_update [OF assms, of "hb_pending m ! p"] by simp

lemma hbm_submit_cases:
  assumes "hbm_submit m r = Inr (m', b)"
  obtains (refused) "\<not> b" "core m' = core m"
  | (taken) "b" "validate_request (hb_config m) r = Inr ()"
      "hb_outstanding m ! nat (mq_partition r) < hc_max_outstanding (hb_config m)"
      "core m' = core (m\<lparr>hb_sequence := hb_sequence m + 1,
          hb_pending := (hb_pending m)[nat (mq_partition r) := hb_pending m ! nat (mq_partition r) @ [(hb_sequence m + 1, r)]],
          hb_outstanding := (hb_outstanding m)[nat (mq_partition r) := hb_outstanding m ! nat (mq_partition r) + 1]\<rparr>)"
proof -
  have u: "x = ()" for x :: unit by simp
  show thesis
    using assms refused taken
    by (cases "validate_request (hb_config m) r")
      (auto simp: hbm_submit_def can_accept_def Let_def hbm_core core_eq core_record [unfolded core_eq] split: if_splits)
qed

lemma queue_ok_snoc_acc: "queue_ok acc p queue \<Longrightarrow> queue_ok (acc @ [r]) p queue"
  by (auto simp: queue_ok_def list_all_iff numbered_snoc)

lemma queue_ok_accept:
  assumes "queue_ok acc p queue" "mq_partition r = int p"
  shows "queue_ok (acc @ [r]) p (queue @ [(int (length acc) + 1, r)])"
  using assms queue_ok_snoc_acc [OF assms(1), of r]
  by (auto simp: queue_ok_def sorted_wrt_append numbered_def request_at_last list_all_iff)

lemma hbm_rel_accept:
  assumes rel: "hbm_rel acc served given m" and v: "validate_request (hb_config m) r = Inr ()"
    and m': "core m' = core (m\<lparr>hb_sequence := hb_sequence m + 1,
          hb_pending := (hb_pending m)[nat (mq_partition r) := hb_pending m ! nat (mq_partition r) @ [(hb_sequence m + 1, r)]],
          hb_outstanding := out\<rparr>)"
  shows "hbm_rel (acc @ [r]) served given m'"
proof -
  define p where "p = nat (mq_partition r)"
  define n where "n = int (length acc)"
  let ?m = "m\<lparr>hb_sequence := hb_sequence m + 1, hb_pending := (hb_pending m)[p := hb_pending m ! p @ [(n + 1, r)]],
    hb_outstanding := out\<rparr>"
  note R = hbm_relD [OF rel]
  have p: "p < length (hb_pending m)" "mq_partition r = int p"
    using valid_partition [OF v] R(4) by (auto simp: p_def)
  have fl: "flights ?m = flights m" by (simp add: flights_def)
  have w: "waiting ?m = insert (n + 1) (waiting m)"
    using waiting_update [OF p(1), of "hb_pending m ! p @ [(n + 1, r)]"] waiting_split [OF p(1)]
    by (auto simp: waiting_def)
  have sub: "set (served @ flights m) \<subseteq> {1..n}" "waiting m \<subseteq> {1..n}" using R(11) by (auto simp: n_def)
  have "hbm_rel (acc @ [r]) served given ?m"
    unfolding hbm_rel_def fl w
  proof (intro conjI allI impI)
    show "accepted_ok (hb_config ?m) (acc @ [r])" using R(2) v by (simp add: accepted_ok_def)
    show "hb_sequence ?m = int (length (acc @ [r]))" using R(3) by simp
    show "queue_ok (acc @ [r]) k (hb_pending ?m ! k)" if "k < length (hb_pending ?m)" for k
    proof (cases "k = p")
      case True
      with p R(6) [of p] queue_ok_accept [OF _ p(2)] show ?thesis by (simp add: n_def)
    next
      case False
      with that R(6) [of k] show ?thesis by (simp add: queue_ok_snoc_acc)
    qed
    show "list_all (\<lambda>(t, s, ra). numbered (acc @ [r]) s ra \<and> t \<le> hb_last_completion ?m ! nat (mq_partition ra)) (hb_inflight ?m)"
      using R(7) by (auto simp: list_all_iff numbered_snoc)
    show "insert (n + 1) (waiting m) \<inter> set (served @ flights m) = {}" using R(10) sub(1) by auto
    have "{1..int (length (acc @ [r]))} = insert (n + 1) {1..n}" by (auto simp: n_def)
    then show "insert (n + 1) (waiting m) \<union> set (served @ flights m) = {1..int (length (acc @ [r]))}"
      using R(11) by (simp add: n_def)
    show "faithful (acc @ [r]) (served @ flights m)" using R(12) sub(1) by (intro faithful_snoc_acc) (auto simp: n_def)
    have "replay (acc @ [r]) served = replay acc served" using sub(1) by (intro replay_snoc_acc) (auto simp: n_def)
    then show "stored ?m = replay (acc @ [r]) served" using R(13) by (simp add: stored_def)
    have "\<forall>i\<in>set served. 1 \<le> i \<and> i \<le> int (length acc)" using sub(1) by (auto simp: n_def)
    then have "list_all2 (answers (acc @ [r])) served (given @ hb_responses m)"
      using R(14) by (auto simp: list_all2_conv_all_nth intro!: answers_snoc)
    then show "list_all2 (answers (acc @ [r])) served (given @ hb_responses ?m)" by simp
  qed (use R in simp_all)
  moreover have "core m' = core ?m" using m' R(3) by (simp add: p_def n_def)
  ultimately show ?thesis using hbm_rel_core by blast
qed

subsection \<open>Issue\<close>

lemma take_selectedD:
  "take_selected queue s = Inr (rest, r) \<Longrightarrow>
     \<exists>xs ys. queue = xs @ (s, r) # ys \<and> rest = xs @ ys \<and> s \<notin> fst ` set xs"
proof (induction queue arbitrary: rest)
  case (Cons q queue)
  obtain k x where q: "q = (k, x)" by force
  show ?case
  proof (cases "k = s")
    case True
    with Cons.prems q show ?thesis by (auto intro: exI [of _ "[]"])
  next
    case False
    with Cons.prems q obtain rest' where t: "take_selected queue s = Inr (rest', r)" and r: "rest = (k, x) # rest'"
      by auto
    from Cons.IH [OF t] obtain xs ys where "queue = xs @ (s, r) # ys" "rest' = xs @ ys" "s \<notin> fst ` set xs" by blast
    with False q r have "q # queue = ((k, x) # xs) @ (s, r) # ys \<and> rest = ((k, x) # xs) @ ys \<and> s \<notin> fst ` set ((k, x) # xs)"
      by simp
    then show ?thesis by blast
  qed
qed simp

lemma take_selected_found: "(s, r) \<in> set queue \<Longrightarrow> \<exists>x. take_selected queue s = Inr x"
  by (induction queue) (auto split: if_splits)

definition free_index :: "(int \<times> hbm_request) list \<Rightarrow> nat \<Rightarrow> bool" where
  "free_index queue i \<longleftrightarrow> i < length queue \<and> list_all (\<lambda>(_, older). \<not> requests_conflict older (snd (queue ! i))) (take i queue)"

lemma select_loop_free:
  assumes "select_loop m p older entries best best_key = Inr i" and "free_index (older @ entries) best"
  shows "free_index (older @ entries) i"
  using assms
proof (induction entries arbitrary: older best best_key)
  case (Cons e entries)
  obtain s r where e: "e = (s, r)" by force
  have here: "\<not> list_ex (\<lambda>(_, older). requests_conflict older r) older \<Longrightarrow> free_index (older @ e # entries) (length older)"
    by (auto simp: free_index_def e list_all_iff list_ex_iff)
  show ?case
    using Cons.prems Cons.IH [of "older @ [(s, r)]"] here
    by (auto simp: e split: if_splits)
qed simp

lemma select_request_free:
  assumes "select_request m p = Inr (Some (s, r))"
  shows "\<exists>xs ys. hb_pending m ! p = xs @ (s, r) # ys \<and> (\<forall>x\<in>set xs. \<not> requests_conflict (snd x) r)"
proof -
  let ?q = "hb_pending m ! p"
  have "\<exists>i. free_index ?q i \<and> ?q ! i = (s, r)"
  proof (cases "hc_scheduler (hb_config m) = ''fifo'' \<or> \<not> hc_timing (hb_config m)")
    case True
    with assms have "?q \<noteq> []" "?q ! 0 = (s, r)" by (auto simp: select_request_def Let_def split: if_splits)
    then show ?thesis by (intro exI [of _ 0]) (simp add: free_index_def)
  next
    case False
    with assms obtain i where "?q \<noteq> []" "select_loop m p [] ?q 0 None = Inr i" "?q ! i = (s, r)"
      by (auto simp: select_request_def Let_def split: if_splits)
    then show ?thesis using select_loop_free [of m p "[]" ?q 0 None i] by (auto simp: free_index_def)
  qed
  then obtain i where i: "free_index ?q i" "?q ! i = (s, r)" by blast
  then have "?q = take i ?q @ (s, r) # drop (Suc i) ?q" by (metis free_index_def id_take_nth_drop)
  moreover have "\<forall>x\<in>set (take i ?q). \<not> requests_conflict (snd x) r"
    using i by (auto simp: free_index_def list_all_iff)
  ultimately show ?thesis by blast
qed

lemma heap_push_split:
  "\<exists>xs ys. hs = xs @ ys \<and> heap_push x hs = xs @ x # ys \<and> (\<forall>y\<in>set xs. flight_less y x) \<and> (ys \<noteq> [] \<longrightarrow> \<not> flight_less (hd ys) x)"
proof (induction hs)
  case (Cons y hs)
  show ?case
  proof (cases "flight_less y x")
    case True
    from Cons obtain xs ys where "hs = xs @ ys" "heap_push x hs = xs @ x # ys" "\<forall>y\<in>set xs. flight_less y x"
      "ys \<noteq> [] \<longrightarrow> \<not> flight_less (hd ys) x" by blast
    with True show ?thesis by (intro exI [of _ "y # xs"] exI [of _ ys]) auto
  qed (auto intro: exI [of _ "[]"])
qed simp

lemma flight_less_trans: "flight_less x y \<Longrightarrow> flight_less y z \<Longrightarrow> flight_less x z"
  by (cases x; cases y; cases z) auto

lemma flight_less_total: "fst (snd x) \<noteq> fst (snd y) \<Longrightarrow> \<not> flight_less x y \<Longrightarrow> flight_less y x"
  by (cases x; cases y) auto

lemma heap_push_place:
  assumes "sorted_wrt flight_less hs" and "fst (snd x) \<notin> (fst \<circ> snd) ` set hs"
  shows "\<exists>xs ys. hs = xs @ ys \<and> heap_push x hs = xs @ x # ys \<and> (\<forall>y\<in>set xs. flight_less y x) \<and> (\<forall>y\<in>set ys. flight_less x y)"
proof -
  obtain xs ys where s: "hs = xs @ ys" "heap_push x hs = xs @ x # ys" "\<forall>y\<in>set xs. flight_less y x"
    "ys \<noteq> [] \<longrightarrow> \<not> flight_less (hd ys) x" using heap_push_split by blast
  have "\<forall>y\<in>set ys. flight_less x y"
  proof (cases ys)
    case (Cons y zs)
    with assms s have "flight_less x y" by (intro flight_less_total) auto
    with Cons assms(1) s(1) show ?thesis by (auto simp: sorted_wrt_append intro: flight_less_trans)
  qed simp
  with s show ?thesis by blast
qed

lemma launch_cases:
  assumes "launch m p s extra = Inr m'"
  obtains rest r t where "take_selected (hb_pending m ! p) s = Inr (rest, r)" "hb_last_completion m ! p \<le> t"
    "core m' = core (m\<lparr>hb_tokens := (hb_tokens m)[p := hb_tokens m ! p - mq_length r],
        hb_pending := (hb_pending m)[p := rest], hb_last_completion := (hb_last_completion m)[p := t],
        hb_inflight := heap_push (t, s, r) (hb_inflight m)\<rparr>)"
proof -
  from assms obtain rest r where "take_selected (hb_pending m ! p) s = Inr (rest, r)"
    by (auto simp: launch_def remove_selected_def)
  moreover from assms this have "core m' = core (m\<lparr>hb_tokens := (hb_tokens m)[p := hb_tokens m ! p - mq_length r],
      hb_pending := (hb_pending m)[p := rest],
      hb_last_completion := (hb_last_completion m)[p := max (hb_cycle m +
        ((if mq_is_write r then hc_write_latency (hb_config m) else hc_read_latency (hb_config m)) + extra)) (hb_last_completion m ! p)],
      hb_inflight := heap_push (max (hb_cycle m +
        ((if mq_is_write r then hc_write_latency (hb_config m) else hc_read_latency (hb_config m)) + extra)) (hb_last_completion m ! p), s, r)
        (hb_inflight m)\<rparr>)"
    by (auto simp: launch_def remove_selected_def Let_def hbm_core core_eq core_record [unfolded core_eq])
  ultimately show thesis by (intro that) auto
qed

lemma hbm_rel_launch:
  assumes rel: "hbm_rel acc served given m" and p: "p < length (hb_pending m)"
    and q: "hb_pending m ! p = xs @ (s, r) # ys" and free: "\<forall>x\<in>set xs. \<not> requests_conflict (snd x) r"
    and m': "launch m p s extra = Inr m'"
  shows "hbm_rel acc served given m'"
proof -
  note R = hbm_relD [OF rel]
  have qp: "queue_ok acc p (xs @ (s, r) # ys)" using R(6) [OF p] q by simp
  then have srt: "\<forall>x\<in>set xs. fst x < s" "\<forall>y\<in>set ys. s < fst y"
    and num: "numbered acc s r" "mq_partition r = int p"
    by (auto simp: queue_ok_def sorted_wrt_append)
  have uniq: "us = xs \<and> r' = r \<and> vs = ys" if "xs @ (s, r) # ys = us @ (s, r') # vs" for us vs r'
    using that srt by (auto simp: append_eq_append_conv2 append_eq_Cons_conv Cons_eq_append_conv)
  from m' obtain t where t: "hb_last_completion m ! p \<le> t"
    and m'': "core m' = core (m\<lparr>hb_tokens := (hb_tokens m)[p := hb_tokens m ! p - mq_length r],
        hb_pending := (hb_pending m)[p := xs @ ys],
        hb_last_completion := (hb_last_completion m)[p := t], hb_inflight := heap_push (t, s, r) (hb_inflight m)\<rparr>)"
    by (rule launch_cases) (use q in \<open>auto dest!: take_selectedD uniq\<close>)
  let ?m = "m\<lparr>hb_tokens := (hb_tokens m)[p := hb_tokens m ! p - mq_length r],
        hb_pending := (hb_pending m)[p := xs @ ys],
        hb_last_completion := (hb_last_completion m)[p := t], hb_inflight := heap_push (t, s, r) (hb_inflight m)\<rparr>"
  have ws: "s \<in> waiting m" using p q by (auto simp: waiting_split [OF p])
  then have sf: "s \<notin> set (served @ flights m)" using R(10) by auto
  then have "fst (snd (t, s, r)) \<notin> (fst \<circ> snd) ` set (hb_inflight m)" by (simp add: flights_def)
  from heap_push_place [OF R(8) this] obtain as bs where hs: "hb_inflight m = as @ bs"
    "heap_push (t, s, r) (hb_inflight m) = as @ (t, s, r) # bs"
    "\<forall>y\<in>set as. flight_less y (t, s, r)" "\<forall>y\<in>set bs. flight_less (t, s, r) y" by blast
  let ?a = "map (fst \<circ> snd) as" and ?b = "map (fst \<circ> snd) bs"
  have fl: "flights m = ?a @ ?b" "flights ?m = ?a @ s # ?b" using hs by (simp_all add: flights_def)
  have elsewhere: "s \<notin> fst ` set (hb_pending m ! k)" if "k < length (hb_pending m)" "k \<noteq> p" for k
  proof
    assume "s \<in> fst ` set (hb_pending m ! k)"
    then obtain x where "(s, x) \<in> set (hb_pending m ! k)" by auto
    with R(6) [OF that(1)] have "numbered acc s x" "mq_partition x = int k" by (auto simp: queue_ok_def list_all_iff)
    with num that(2) show False by (simp add: numbered_def)
  qed
  have w: "waiting ?m = waiting m - {s}"
  proof -
    have "waiting ?m = waiting (m\<lparr>hb_pending := (hb_pending m)[p := xs @ ys]\<rparr>)" by (simp add: waiting_def)
    also have "\<dots> = fst ` set (xs @ ys) \<union> (\<Union>k\<in>{k. k < length (hb_pending m) \<and> k \<noteq> p}. fst ` set (hb_pending m ! k))"
      by (rule waiting_update [OF p])
    also have "fst ` set (xs @ ys) = fst ` set (hb_pending m ! p) - {s}" using srt q by auto
    finally show ?thesis using elsewhere by (auto simp: waiting_split [OF p])
  qed
  have top: "(hb_last_completion m)[p := t] ! p = t" using p R(4,5) by simp
  have mono: "t' \<le> (hb_last_completion m)[p := t] ! k" if "t' \<le> hb_last_completion m ! k" for t' k
    using that t top by (cases "k = p") auto
  have "hbm_rel acc served given ?m"
    unfolding hbm_rel_def w fl
  proof (intro conjI allI impI)
    show "queue_ok acc k (hb_pending ?m ! k)" if "k < length (hb_pending ?m)" for k
    proof (cases "k = p")
      case True
      with p qp show ?thesis by (auto simp: queue_ok_def sorted_wrt_append)
    next
      case False
      with that R(6) [of k] show ?thesis by simp
    qed
    show "list_all (\<lambda>(t', s, ra). numbered acc s ra \<and> t' \<le> hb_last_completion ?m ! nat (mq_partition ra)) (hb_inflight ?m)"
    proof -
      have "set (hb_inflight ?m) = insert (t, s, r) (set (hb_inflight m))" using hs(1,2) by simp
      then show ?thesis using R(7) num mono top by (auto simp: list_all_iff)
    qed
    show "sorted_wrt flight_less (hb_inflight ?m)"
      using R(8) hs by (auto simp: sorted_wrt_append)
    show "distinct (served @ ?a @ s # ?b)" using R(9) sf by (auto simp: fl)
    show "(waiting m - {s}) \<inter> set (served @ ?a @ s # ?b) = {}" using R(10) by (auto simp: fl)
    show "waiting m - {s} \<union> set (served @ ?a @ s # ?b) = {1..int (length acc)}" using R(11) ws by (auto simp: fl)
    have "i \<in> set (served @ ?a)" if i: "1 \<le> i" "i < s" "clash acc i s" for i
    proof (rule ccontr)
      assume n: "i \<notin> set (served @ ?a)"
      have "i \<in> waiting m \<union> set (served @ flights m)" using R(11) i num(1) by (auto simp: numbered_def)
      with n consider (w) "i \<in> waiting m" | (b) "i \<in> set ?b" by (auto simp: fl)
      then show False
      proof cases
        case w
        then obtain k x where k: "k < length (hb_pending m)" "(i, x) \<in> set (hb_pending m ! k)"
          by (auto simp: waiting_def in_set_conv_nth) (metis nth_mem)
        with R(6) have x: "numbered acc i x" "mq_partition x = int k" by (auto simp: queue_ok_def list_all_iff)
        with i(3) num have "k = p" "requests_conflict x r" by (auto simp: clash_def numbered_def)
        with k q srt(2) i(2) have "(i, x) \<in> set xs" by auto
        with free \<open>requests_conflict x r\<close> show False by auto
      next
        case b
        then obtain t' x where b: "(t', i, x) \<in> set bs" by auto
        then have "(t', i, x) \<in> set (hb_inflight m)" using hs(1) by simp
        from R(7) [unfolded list_all_iff, rule_format, OF this]
        have "numbered acc i x" "t' \<le> hb_last_completion m ! nat (mq_partition x)" by simp_all
        moreover have "mq_partition x = int p" using i(3) num \<open>numbered acc i x\<close> by (auto simp: clash_def numbered_def)
        ultimately have "t' \<le> t" using t by simp
        with b hs(4) i(2) show False by auto
      qed
    qed
    then show "faithful acc (served @ ?a @ s # ?b)"
      using faithful_place [of acc "served @ ?a" ?b s] R(12) fl(1) by simp
    show "stored ?m = replay acc served" using R(13) by (simp add: stored_def)
  qed (use R in simp_all)
  then show ?thesis using hbm_rel_core [OF m''] by blast
qed

lemma decode_ok:
  assumes "validate_request c r = Inr ()" and "mq_partition r = int p"
  shows "\<exists>d. decode_address c (int p) (mq_address r) = Inr d"
  using assms by (auto simp: validate_request_def decode_address_def Let_def)

lemma hbm_rel_decode:
  assumes "hbm_rel acc served given m" "p < length (hb_pending m)" "(s, r) \<in> set (hb_pending m ! p)"
  shows "\<exists>d. decode_address (hb_config m) (int p) (mq_address r) = Inr d"
proof -
  have "numbered acc s r" "mq_partition r = int p"
    using hbm_relD(6) [OF assms(1,2)] assms(3) by (auto simp: queue_ok_def list_all_iff)
  then show ?thesis using decode_ok numbered_valid [OF hbm_relD(2) [OF assms(1)]] by blast
qed

lemma select_loop_total:
  assumes "\<forall>(s, r)\<in>set entries. \<exists>d. decode_address (hb_config m) (int p) (mq_address r) = Inr d"
  shows "\<exists>i. select_loop m p older entries best best_key = Inr i"
  using assms
proof (induction entries arbitrary: older best best_key)
  case (Cons e entries)
  obtain s r where e: "e = (s, r)" by force
  from Cons.prems e obtain d where "decode_address (hb_config m) (int p) (mq_address r) = Inr d" by auto
  then obtain key where k: "schedule_key m p s r = Inr key" by (simp add: schedule_key_def Let_def)
  have later: "\<exists>i. select_loop m p o' entries b bk = Inr i" for o' b bk
    using Cons.IH Cons.prems by simp
  show ?case unfolding e select_loop.simps k rbind_Inr using later by (simp split: if_split)
qed simp

lemma select_request_total:
  assumes "hbm_rel acc served given m" "p < length (hb_pending m)"
  shows "\<exists>x. select_request m p = Inr x"
  using select_loop_total [of "hb_pending m ! p" m p "[]" 0 None] hbm_rel_decode [OF assms]
  by (auto simp: select_request_def Let_def)

lemma time_request_total:
  assumes "decode_address (hb_config m) (int p) (mq_address r) = Inr d"
  shows "\<exists>x. time_request m p r = Inr x"
  using assms by (auto simp: time_request_def Let_def split: prod.splits bool.splits)

lemma launch_total: "(s, r) \<in> set (hb_pending m ! p) \<Longrightarrow> \<exists>m'. launch m p s extra = Inr m'"
  using take_selected_found [of s r "hb_pending m ! p"] by (auto simp: launch_def remove_selected_def Let_def)

definition timed :: "hbm_model \<Rightarrow> nat \<Rightarrow> hbm_request \<Rightarrow> py_error + hbm_model \<times> int option" where
  "timed m p r = (if hc_timing (hb_config m) then time_request m p r else Inr (m, Some 0))"

lemma timed_core: "timed m p r = Inr (m', extra) \<Longrightarrow> core m' = core m"
  by (auto simp: timed_def dest: core_time_request split: if_splits)

text \<open>A turn of the issue loop either leaves the requests alone and stops, or launches one that is free to go.\<close>

lemma issue_once_cases:
  assumes "issue_once m p = Inr (m', issued)"
  obtains (stop) "\<not> issued" "core m' = core m"
  | (go) s r m1 extra where "issued" "select_request m p = Inr (Some (s, r))" "\<not> hb_tokens m ! p < mq_length r"
      "timed m p r = Inr (m1, Some extra)" "core m1 = core m" "launch m1 p s extra = Inr m'"
proof -
  obtain sel where sel: "select_request m p = Inr sel"
    using assms by (auto simp: issue_once_def)
  show thesis
  proof (cases sel)
    case None
    with assms sel show ?thesis by (intro stop) (simp_all add: issue_once_def)
  next
    case (Some e)
    obtain s r where e: "e = (s, r)" by force
    show ?thesis
    proof (cases "hb_tokens m ! p < mq_length r")
      case True
      with assms sel Some e show ?thesis by (intro stop) (simp_all add: issue_once_def)
    next
      case False
      with assms sel Some e obtain m1 extra where t: "timed m p r = Inr (m1, extra)"
        and c: "(case extra of None \<Rightarrow> Inr (m1, False)
          | Some extra \<Rightarrow> rbind (launch m1 p s extra) (\<lambda>m. Inr (m, True))) = Inr (m', issued)"
        unfolding issue_once_def timed_def [symmetric] by auto
      from c timed_core [OF t] show ?thesis
      proof (cases extra)
        case None
        with c timed_core [OF t] show ?thesis by (intro stop) simp_all
      next
        case (Some x)
        with c t timed_core [OF t] sel \<open>sel = Some e\<close> e False show ?thesis by (intro go [of s r m1 x]) simp_all
      qed
    qed
  qed
qed

lemma issue_once_rel:
  assumes rel: "hbm_rel acc served given m" and p: "p < length (hb_pending m)" and i: "issue_once m p = Inr (m', issued)"
  shows "hbm_rel acc served given m'"
  using i
proof (cases rule: issue_once_cases)
  case stop
  with rel show ?thesis using hbm_rel_core by blast
next
  case (go s r m1 extra)
  from select_request_free [OF go(2)] obtain xs ys where q: "hb_pending m ! p = xs @ (s, r) # ys"
    "\<forall>x\<in>set xs. \<not> requests_conflict (snd x) r" by blast
  have "hb_pending m1 = hb_pending m" using go(5) by (simp add: core_eq)
  then show ?thesis using hbm_rel_launch [OF _ _ _ q(2) go(6), of acc served given ys] p q(1) rel hbm_rel_core [OF go(5)] by simp
qed

lemma issue_once_total:
  assumes rel: "hbm_rel acc served given m" and p: "p < length (hb_pending m)"
  shows "\<exists>x. issue_once m p = Inr x"
proof -
  obtain sel where sel: "select_request m p = Inr sel" using select_request_total [OF assms] by blast
  show ?thesis
  proof (cases sel)
    case None
    with sel show ?thesis by (auto simp: issue_once_def)
  next
    case (Some e)
    obtain s r where e: "e = (s, r)" by force
    with select_request_free sel Some have mem: "(s, r) \<in> set (hb_pending m ! p)" by fastforce
    obtain m1 extra where t: "timed m p r = Inr (m1, extra)"
      using hbm_rel_decode [OF assms mem] time_request_total by (fastforce simp: timed_def)
    have "hb_pending m1 = hb_pending m" using timed_core [OF t] by (simp add: core_eq)
    with launch_total [of s r m1 p] mem t sel Some e show ?thesis
      unfolding issue_once_def timed_def [symmetric] by (cases extra) auto
  qed
qed

definition same_shape :: "hbm_model \<Rightarrow> hbm_model \<Rightarrow> bool" where
  "same_shape m m' \<longleftrightarrow> hb_config m' = hb_config m \<and> length (hb_pending m') = length (hb_pending m)"

lemma same_shape_core: "core m' = core m \<Longrightarrow> same_shape m m'"
  by (simp add: same_shape_def core_eq)

lemma same_shape_trans: "same_shape a b \<Longrightarrow> same_shape b c \<Longrightarrow> same_shape a c"
  by (simp add: same_shape_def)

lemma launch_shape: "launch m p s extra = Inr m' \<Longrightarrow> same_shape m m'"
  by (erule launch_cases) (simp add: same_shape_def core_eq)

lemma issue_once_shape: "issue_once m p = Inr (m', b) \<Longrightarrow> same_shape m m'"
  by (erule issue_once_cases) (blast intro: same_shape_core same_shape_trans launch_shape)+

lemma issue_loop_rel:
  assumes "hbm_rel acc served given m" "p < length (hb_pending m)"
  shows "\<exists>m'. issue_loop n m p = Inr m' \<and> hbm_rel acc served given m' \<and> same_shape m m'"
  using assms
proof (induction n arbitrary: m)
  case 0
  then show ?case by (simp add: same_shape_def)
next
  case (Suc n)
  obtain m1 b where i: "issue_once m p = Inr (m1, b)" using issue_once_total [OF Suc.prems] by force
  have r: "hbm_rel acc served given m1" using issue_once_rel [OF Suc.prems i] .
  have sh: "same_shape m m1" using issue_once_shape [OF i] .
  with Suc.prems(2) have "p < length (hb_pending m1)" by (simp add: same_shape_def)
  from Suc.IH [OF r this] i r sh show ?case by (auto intro: same_shape_trans)
qed

lemma tick_partition_rel:
  assumes "hbm_rel acc served given m" "p < length (hb_pending m)"
  shows "\<exists>m'. tick_partition m p = Inr m' \<and> hbm_rel acc served given m' \<and> same_shape m m'"
proof -
  let ?m = "replenish_tokens (service_refresh m p) p"
  let ?s = "service_refresh m p"
  have "hbm_rel acc served given ?s" using assms(1) hbm_rel_core [OF core_refresh] by blast
  then have rel: "hbm_rel acc served given ?m"
    unfolding hbm_rel_def replenish_tokens_def flights_def waiting_def stored_def by simp
  have sh: "same_shape m ?m" using core_refresh [of m p] by (simp add: same_shape_def replenish_tokens_def core_eq)
  then have "p < length (hb_pending ?m)" using assms(2) by (simp add: same_shape_def)
  from issue_loop_rel [OF rel this] rel sh show ?thesis
    unfolding tick_partition_def issue_partition_def Let_def by (auto intro: same_shape_trans)
qed

lemma rfold_rel:
  assumes "hbm_rel acc served given m" "\<forall>p\<in>set ps. p < length (hb_pending m)"
  shows "\<exists>m'. rfold tick_partition m ps = Inr m' \<and> hbm_rel acc served given m' \<and> same_shape m m'"
  using assms
proof (induction ps arbitrary: m)
  case Nil
  then show ?case by (simp add: same_shape_def)
next
  case (Cons p ps)
  then obtain m1 where 1: "tick_partition m p = Inr m1" "hbm_rel acc served given m1" "same_shape m m1"
    using tick_partition_rel by (metis list.set_intros(1))
  with Cons.prems(2) have "\<forall>p\<in>set ps. p < length (hb_pending m1)" by (simp add: same_shape_def)
  from Cons.IH [OF 1(2) this] 1 show ?case by (auto intro: same_shape_trans)
qed

subsection \<open>Completion\<close>

lemma complete_one_core:
  assumes "(if mq_is_write r then (apply_write m r, [], HBM_OK, 0) else read_with_ecc m r) = (m1, d, e, k)"
  shows "core (complete_one m t r) = core (m1\<lparr>
      hb_outstanding := (hb_outstanding m1)[nat (mq_partition r) := hb_outstanding m1 ! nat (mq_partition r) - 1],
      hb_responses := hb_responses m1 @ [\<lparr>mr_partition = mq_partition r, mr_tag = mq_tag r, mr_is_write = mq_is_write r,
        mr_data = d, mr_cycle = t, mr_status = e, mr_corrected = k, mr_address = mq_address r\<rparr>]\<rparr>)"
  unfolding complete_one_def assms by (simp add: Let_def hbm_core core_eq core_record [unfolded core_eq])

lemma complete_one_cases:
  assumes v: "validate_request (hb_config m) r = Inr ()"
  obtains x out where "core (complete_one m t r) = core (m\<lparr>hb_outstanding := out,
      hb_responses := hb_responses m @ [x], hb_storage := hb_storage (complete_one m t r)\<rparr>)"
    "out = (hb_outstanding m)[nat (mq_partition r) := hb_outstanding m ! nat (mq_partition r) - 1]"
    "stored (complete_one m t r) = (if mq_is_write r then write_of r (stored m) else stored m)"
    "mr_partition x = mq_partition r" "mr_tag x = mq_tag r" "mr_is_write x = mq_is_write r" "mr_address x = mq_address r"
    "mr_cycle x = t"
    "if mq_is_write r then mr_data x = [] \<and> mr_status x = HBM_OK
     else mr_status x \<in> {HBM_OK, HBM_ECC_CORRECTED} \<longrightarrow> mr_data x = clean_bytes m r"
proof -
  obtain m1 d e k where r: "(if mq_is_write r then (apply_write m r, [], HBM_OK, 0) else read_with_ecc m r) = (m1, d, e, k)"
    by (metis prod_cases4)
  have same: "core m = core (m1\<lparr>hb_storage := hb_storage m\<rparr>)"
    and st: "stored m1 = (if mq_is_write r then write_of r (stored m) else stored m)"
    and d: "if mq_is_write r then d = [] \<and> e = HBM_OK else e \<in> {HBM_OK, HBM_ECC_CORRECTED} \<longrightarrow> d = clean_bytes m r"
  proof -
    have "(core m = core (m1\<lparr>hb_storage := hb_storage m\<rparr>)) \<and>
        stored m1 = (if mq_is_write r then write_of r (stored m) else stored m) \<and>
        (if mq_is_write r then d = [] \<and> e = HBM_OK else e \<in> {HBM_OK, HBM_ECC_CORRECTED} \<longrightarrow> d = clean_bytes m r)"
    proof (cases "mq_is_write r")
      case True
      with r show ?thesis using stored_apply_write [OF v True] by (auto simp: core_eq apply_write_frame)
    next
      case False
      with r have e: "read_with_ecc m r = (m1, d, e, k)" by simp
      show ?thesis using False read_with_ecc_core [OF e] read_with_ecc_good [OF e] by (auto simp: core_eq stored_def)
    qed
    then show "core m = core (m1\<lparr>hb_storage := hb_storage m\<rparr>)"
      "stored m1 = (if mq_is_write r then write_of r (stored m) else stored m)"
      "if mq_is_write r then d = [] \<and> e = HBM_OK else e \<in> {HBM_OK, HBM_ECC_CORRECTED} \<longrightarrow> d = clean_bytes m r"
      by blast+
  qed
  let ?x = "\<lparr>mr_partition = mq_partition r, mr_tag = mq_tag r, mr_is_write = mq_is_write r,
        mr_data = d, mr_cycle = t, mr_status = e, mr_corrected = k, mr_address = mq_address r\<rparr>"
  note c = complete_one_core [OF r, of t]
  show thesis
  proof (rule that [of ?x "(hb_outstanding m)[nat (mq_partition r) := hb_outstanding m ! nat (mq_partition r) - 1]"])
    show "core (complete_one m t r) = core (m\<lparr>
        hb_outstanding := (hb_outstanding m)[nat (mq_partition r) := hb_outstanding m ! nat (mq_partition r) - 1],
        hb_responses := hb_responses m @ [?x], hb_storage := hb_storage (complete_one m t r)\<rparr>)"
      using c same by (simp add: core_eq)
    have "stored (complete_one m t r) = stored m1" using c by (simp add: core_eq stored_def)
    then show "stored (complete_one m t r) = (if mq_is_write r then write_of r (stored m) else stored m)"
      by (simp add: st)
  qed (use d in \<open>simp_all split: if_splits\<close>)
qed

lemma complete_one_rel:
  assumes rel: "hbm_rel acc served given m" and h: "hb_inflight m = (t, s, r) # rest"
  shows "hbm_rel acc (served @ [s]) given (complete_one (m\<lparr>hb_inflight := rest\<rparr>) t r)"
proof -
  note R = hbm_relD [OF rel]
  let ?m = "m\<lparr>hb_inflight := rest\<rparr>"
  have num: "numbered acc s r" using R(7) h by simp
  then have v: "validate_request (hb_config ?m) r = Inr ()" using numbered_valid [OF R(2)] by simp
  from num have r: "r = request_at acc s" by (simp add: numbered_def)
  obtain x out where c: "core (complete_one ?m t r) = core (?m\<lparr>hb_outstanding := out,
      hb_responses := hb_responses ?m @ [x], hb_storage := hb_storage (complete_one ?m t r)\<rparr>)"
    and st: "stored (complete_one ?m t r) = (if mq_is_write r then write_of r (stored ?m) else stored ?m)"
    and x: "mr_partition x = mq_partition r" "mr_tag x = mq_tag r" "mr_is_write x = mq_is_write r" "mr_address x = mq_address r"
      "if mq_is_write r then mr_data x = [] \<and> mr_status x = HBM_OK
       else mr_status x \<in> {HBM_OK, HBM_ECC_CORRECTED} \<longrightarrow> mr_data x = clean_bytes ?m r"
    using complete_one_cases [OF v, of t] by metis
  let ?n = "complete_one ?m t r"
  have eq: "hb_config ?n = hb_config m" "hb_sequence ?n = hb_sequence m" "hb_pending ?n = hb_pending m"
    "hb_last_completion ?n = hb_last_completion m" "hb_inflight ?n = rest" "hb_responses ?n = hb_responses m @ [x]"
    using c by (simp_all add: core_eq)
  have fl: "flights m = s # flights ?n" "waiting ?n = waiting m" by (simp_all add: flights_def waiting_def h eq)
  have set: "set (served @ flights m) \<subseteq> {1..int (length acc)}" using R(11) by auto
  have f: "faithful acc (served @ [s])" "distinct (served @ [s])" "\<forall>i\<in>set (served @ [s]). 1 \<le> i"
    using R(9,12) set faithful_prefix [of acc "served @ [s]" "flights ?n"] by (auto simp: fl)
  have clean: "clean_bytes ?m r = map (\<lambda>k. replay acc [1..s - 1] (mq_partition r, mq_address r + int k)) [0..<nat (mq_length r)]"
  proof -
    have "stored ?m (mq_partition r, mq_address r + int k) = replay acc [1..s - 1] (mq_partition r, mq_address r + int k)"
      if "k < nat (mq_length r)" for k
      using that served_reader [OF f] R(13) by (simp add: stored_def touches_def r)
    then show ?thesis by (simp add: clean_bytes_stored)
  qed
  have ans: "answers acc s x" using x clean by (simp add: answers_def Let_def r)
  show ?thesis
    unfolding hbm_rel_def
  proof (intro conjI allI impI)
    show "list_all (\<lambda>(t, s, r). numbered acc s r \<and> t \<le> hb_last_completion ?n ! nat (mq_partition r)) (hb_inflight ?n)"
      using R(7) by (simp add: eq h)
    show "sorted_wrt flight_less (hb_inflight ?n)" using R(8) by (simp add: eq h)
    show "stored ?n = replay acc (served @ [s])"
    proof -
      have "stored ?m = stored m" by (simp add: stored_def)
      moreover have "\<not> mq_is_write r \<Longrightarrow> write_of r mem = mem" for mem by (simp add: write_of_def)
      ultimately have "stored ?n = write_of r (replay acc served)" using R(13) by (auto simp: st)
      then show ?thesis by (simp only: replay_snoc r)
    qed
    show "list_all2 (answers acc) (served @ [s]) (given @ hb_responses ?n)"
      using R(14) ans by (simp add: eq list_all2_appendI flip: append_assoc)
  qed (use R in \<open>simp_all add: eq fl\<close>)
qed

lemma complete_one_shape:
  assumes "validate_request (hb_config m) r = Inr ()"
  shows "hb_inflight (complete_one m t r) = hb_inflight m" "same_shape m (complete_one m t r)"
  by (rule complete_one_cases [OF assms, of t]; simp add: core_eq same_shape_def)+

lemma complete_loop_rel:
  assumes "hbm_rel acc served given m" "hb_inflight m = fl"
  shows "\<exists>more. hbm_rel acc (served @ more) given (complete_loop fl m) \<and> same_shape m (complete_loop fl m)"
  using assms
proof (induction fl m arbitrary: served rule: complete_loop.induct)
  case (1 m)
  then have "complete_loop [] m = m" by simp
  with 1 show ?case by (intro exI [of _ "[]"]) (simp add: same_shape_def del: complete_loop.simps)
next
  case (2 t s r rest m)
  show ?case
  proof (cases "t \<le> hb_cycle m")
    case True
    let ?m = "complete_one (m\<lparr>hb_inflight := rest\<rparr>) t r"
    have rel: "hbm_rel acc (served @ [s]) given ?m" by (rule complete_one_rel [OF 2(2,3)])
    have "numbered acc s r" using hbm_relD(7) [OF 2(2)] 2(3) by simp
    then have "validate_request (hb_config (m\<lparr>hb_inflight := rest\<rparr>)) r = Inr ()"
      using numbered_valid [OF hbm_relD(2) [OF 2(2)]] by simp
    note sh = complete_one_shape [OF this, of t]
    have "same_shape m ?m" using sh(2) by (simp add: same_shape_def)
    moreover obtain more where "hbm_rel acc ((served @ [s]) @ more) given (complete_loop rest ?m)"
      "same_shape ?m (complete_loop rest ?m)"
      using 2(1) [OF True rel] sh(1) by auto
    ultimately show ?thesis using True
      by (intro exI [of _ "s # more"]) (auto intro: same_shape_trans)
  next
    case False
    moreover have "m\<lparr>hb_inflight := (t, s, r) # rest\<rparr> = m" using 2(3) by simp
    ultimately show ?thesis using 2(2) by (auto simp: same_shape_def intro: exI [of _ "[]"])
  qed
qed

end
