(* ===== verification/Hbm_Bounds.thy ===== *)
theory Hbm_Bounds
  imports Hbm_Run
begin

section \<open>HBM occupancy and bandwidth\<close>

text \<open>
  Two ledgers of the model, checked against what the client and the queues say: the count of outstanding requests of a
  partition, and the tokens that bound its payload. \<open>time p\<close> is the number of cycles in which partition \<open>p\<close> has been
  given tokens; inside a tick the partitions not yet visited are one cycle behind.
\<close>

definition bytes_for :: "nat \<Rightarrow> hbm_request list \<Rightarrow> int" where
  "bytes_for p rs = sum_list (map mq_length (filter (\<lambda>r. mq_partition r = int p) rs))"

definition queued_bytes :: "hbm_model \<Rightarrow> nat \<Rightarrow> int" where
  "queued_bytes m p = sum_list (map (mq_length \<circ> snd) (hb_pending m ! p))"

definition issued_bytes :: "hbm_request list \<Rightarrow> hbm_model \<Rightarrow> nat \<Rightarrow> int" where
  "issued_bytes acc m p = bytes_for p acc - queued_bytes m p"

definition partition_load :: "(nat \<Rightarrow> int) \<Rightarrow> hbm_request list \<Rightarrow> hbm_model \<Rightarrow> nat \<Rightarrow> bool" where
  "partition_load time acc m p \<longleftrightarrow>
     0 \<le> hb_tokens m ! p \<and> hb_tokens m ! p \<le> token_capacity (hb_config m) \<and>
     hb_tokens m ! p + issued_bytes acc m p \<le> hc_rate (hb_config m) * time p \<and>
     hb_outstanding m ! p = int (length (hb_pending m ! p) + length (filter (in_partition p) (hb_inflight m))) \<and>
     hb_outstanding m ! p \<le> hc_max_outstanding (hb_config m)"

definition load_ok :: "(nat \<Rightarrow> int) \<Rightarrow> hbm_request list \<Rightarrow> hbm_model \<Rightarrow> bool" where
  "load_ok time acc m \<longleftrightarrow> hbm_validate (hb_config m) = Inr () \<and>
     length (hb_pending m) = partition_count (hb_config m) \<and> length (hb_tokens m) = partition_count (hb_config m) \<and>
     length (hb_outstanding m) = partition_count (hb_config m) \<and>
     (\<forall>p < partition_count (hb_config m). partition_load time acc m p)"

lemma load_ok_core: "core m' = core m \<Longrightarrow> load_ok time acc m' = load_ok time acc m"
  unfolding core_eq load_ok_def partition_load_def issued_bytes_def queued_bytes_def by simp

lemma load_okD:
  assumes "load_ok time acc m"
  shows "hbm_validate (hb_config m) = Inr ()" "length (hb_pending m) = partition_count (hb_config m)"
    "length (hb_tokens m) = partition_count (hb_config m)" "length (hb_outstanding m) = partition_count (hb_config m)"
    "p < partition_count (hb_config m) \<Longrightarrow> partition_load time acc m p"
  using assms by (auto simp: load_ok_def)

lemma positive_rate:
  assumes "hbm_validate c = Inr ()"
  shows "0 < hc_rate c" "0 < token_capacity c" "0 < hc_max_outstanding c"
  using assms by (auto simp: hbm_validate_def positive_settings_def list_ex_iff token_capacity_def)

lemma load_ok_new: "hbm_new c = Inr m \<Longrightarrow> load_ok (\<lambda>_. hb_cycle m) [] m"
  using positive_rate [of c]
  by (auto simp: hbm_new_def Let_def load_ok_def partition_load_def issued_bytes_def bytes_for_def queued_bytes_def
      intro: less_imp_le)

text \<open>A step that concerns one partition.\<close>

lemma load_ok_at:
  assumes "load_ok time acc m" and "hb_config m' = hb_config m"
    and "length (hb_pending m') = length (hb_pending m)" "length (hb_tokens m') = length (hb_tokens m)"
      "length (hb_outstanding m') = length (hb_outstanding m)"
    and same: "\<And>k. k < partition_count (hb_config m) \<Longrightarrow> k \<noteq> p \<Longrightarrow>
      hb_pending m' ! k = hb_pending m ! k \<and> hb_tokens m' ! k = hb_tokens m ! k \<and>
      hb_outstanding m' ! k = hb_outstanding m ! k \<and> bytes_for k acc' = bytes_for k acc \<and> time' k = time k \<and>
      length (filter (in_partition k) (hb_inflight m')) = length (filter (in_partition k) (hb_inflight m))"
    and at: "p < partition_count (hb_config m) \<Longrightarrow> partition_load time acc m p \<Longrightarrow> partition_load time' acc' m' p"
  shows "load_ok time' acc' m'"
proof -
  note L = load_okD [OF assms(1)]
  have "partition_load time' acc' m' k" if k: "k < partition_count (hb_config m)" for k
  proof (cases "k = p")
    case True
    with at L(5) k show ?thesis by simp
  next
    case False
    with same [OF k False] L(5) [OF k] show ?thesis
      by (simp add: partition_load_def issued_bytes_def queued_bytes_def assms(2))
  qed
  with L assms(2-5) show ?thesis by (simp add: load_ok_def)
qed

lemma load_ok_accept:
  assumes l: "load_ok time acc m" and v: "validate_request (hb_config m) r = Inr ()"
    and room: "hb_outstanding m ! nat (mq_partition r) < hc_max_outstanding (hb_config m)"
    and m': "core m' = core (m\<lparr>hb_sequence := hb_sequence m + 1,
          hb_pending := (hb_pending m)[nat (mq_partition r) := hb_pending m ! nat (mq_partition r) @ [(hb_sequence m + 1, r)]],
          hb_outstanding := (hb_outstanding m)[nat (mq_partition r) := hb_outstanding m ! nat (mq_partition r) + 1]\<rparr>)"
  shows "load_ok time (acc @ [r]) m'"
  unfolding load_ok_core [OF m']
proof (rule load_ok_at [OF l, of _ "nat (mq_partition r)"])
  have p: "0 \<le> mq_partition r" "nat (mq_partition r) < partition_count (hb_config m)" using valid_partition [OF v] by auto
  show "partition_load time (acc @ [r]) (m\<lparr>hb_sequence := hb_sequence m + 1,
          hb_pending := (hb_pending m)[nat (mq_partition r) := hb_pending m ! nat (mq_partition r) @ [(hb_sequence m + 1, r)]],
          hb_outstanding := (hb_outstanding m)[nat (mq_partition r) := hb_outstanding m ! nat (mq_partition r) + 1]\<rparr>)
        (nat (mq_partition r))"
    if "partition_load time acc m (nat (mq_partition r))"
    using that p room load_okD(2,4) [OF l]
    by (simp add: partition_load_def issued_bytes_def queued_bytes_def bytes_for_def)
qed (use valid_partition [OF v] in \<open>auto simp: bytes_for_def\<close>)

lemma filter_heap_push: "length (filter P (heap_push x hs)) = length (filter P hs) + of_bool (P x)"
  by (induction hs) auto

lemma load_ok_launch:
  assumes l: "load_ok time acc m" and p: "p < length (hb_pending m)" and i: "launch m p s extra = Inr m'"
    and q: "(s, r) \<in> set (hb_pending m ! p)" "distinct (map fst (hb_pending m ! p))"
    and part: "mq_partition r = int p" and tok: "\<not> hb_tokens m ! p < mq_length r" "0 \<le> mq_length r"
  shows "load_ok time acc m'"
proof -
  from i obtain rest r' t where t: "take_selected (hb_pending m ! p) s = Inr (rest, r')"
    and m': "core m' = core (m\<lparr>hb_tokens := (hb_tokens m)[p := hb_tokens m ! p - mq_length r'],
        hb_pending := (hb_pending m)[p := rest], hb_last_completion := (hb_last_completion m)[p := t],
        hb_inflight := heap_push (t, s, r') (hb_inflight m)\<rparr>)"
    by (rule launch_cases)
  from take_selectedD [OF t] obtain xs ys where xy: "hb_pending m ! p = xs @ (s, r') # ys" "rest = xs @ ys" by blast
  have "r' = r" using q xy by (auto simp: image_iff)
  note L = load_okD [OF l]
  show ?thesis
    unfolding load_ok_core [OF m']
  proof (rule load_ok_at [OF l, of _ p])
    show "partition_load time acc (m\<lparr>hb_tokens := (hb_tokens m)[p := hb_tokens m ! p - mq_length r'],
        hb_pending := (hb_pending m)[p := rest], hb_last_completion := (hb_last_completion m)[p := t],
        hb_inflight := heap_push (t, s, r') (hb_inflight m)\<rparr>) p"
      if "partition_load time acc m p"
      using that p L(2,3) xy tok part \<open>r' = r\<close>
      by (simp add: partition_load_def issued_bytes_def queued_bytes_def filter_heap_push in_partition_def)
  qed (use p L part \<open>r' = r\<close> in \<open>simp_all add: filter_heap_push in_partition_def\<close>)
qed

lemma queue_okD:
  "queue_ok acc p queue \<Longrightarrow> (s, r) \<in> set queue \<Longrightarrow> numbered acc s r \<and> mq_partition r = int p"
  "queue_ok acc p queue \<Longrightarrow> distinct (map fst queue)"
  by (auto simp: queue_ok_def list_all_iff strict_sorted_iff)

lemma issue_once_load:
  assumes rel: "hbm_rel acc served given m" and l: "load_ok time acc m" and p: "p < length (hb_pending m)"
    and i: "issue_once m p = Inr (m', issued)"
  shows "load_ok time acc m'"
  using i
proof (cases rule: issue_once_cases)
  case stop
  with l show ?thesis using load_ok_core by blast
next
  case (go s r m1 extra)
  from select_request_free [OF go(2)] have mem: "(s, r) \<in> set (hb_pending m ! p)" by fastforce
  note Q = hbm_relD(6) [OF rel p]
  have n: "numbered acc s r" "mq_partition r = int p" using queue_okD(1) [OF Q mem] by auto
  have "0 \<le> mq_length r" using numbered_valid [OF hbm_relD(2) [OF rel] n(1)] by (auto simp: validate_request_def)
  moreover have "load_ok time acc m1" using l load_ok_core [OF go(5)] by blast
  moreover have "hb_pending m1 = hb_pending m" "hb_tokens m1 = hb_tokens m" using go(5) by (simp_all add: core_eq)
  ultimately show ?thesis
    using load_ok_launch [OF _ _ go(6), of time acc r] mem queue_okD(2) [OF Q] p n(2) go(3) by simp
qed

lemma issue_loop_load:
  assumes "hbm_rel acc served given m" "load_ok time acc m" "p < length (hb_pending m)" "issue_loop n m p = Inr m'"
  shows "load_ok time acc m'"
  using assms
proof (induction n arbitrary: m)
  case (Suc n)
  from Suc.prems(4) obtain m1 b where i: "issue_once m p = Inr (m1, b)" by auto
  note r = issue_once_rel [OF Suc.prems(1,3) i] and l = issue_once_load [OF Suc.prems(1-3) i]
  have "p < length (hb_pending m1)" using issue_once_shape [OF i] Suc.prems(3) by (simp add: same_shape_def)
  with Suc.IH [OF r l] Suc.prems(4) i l show ?case by (auto split: if_splits)
qed simp

lemma load_ok_replenish:
  assumes l: "load_ok time acc m" and p: "p < length (hb_pending m)"
  shows "load_ok (time(p := time p + 1)) acc (replenish_tokens m p)"
proof (rule load_ok_at [OF l, of _ p])
  note L = load_okD [OF l]
  show "partition_load (time(p := time p + 1)) acc (replenish_tokens m p) p" if "partition_load time acc m p"
  proof -
    have "hc_rate (hb_config m) * (time p + 1) = hc_rate (hb_config m) * time p + hc_rate (hb_config m)"
      by (simp add: algebra_simps)
    with that positive_rate [OF L(1)] p L(2,3) show ?thesis
      by (auto simp: partition_load_def issued_bytes_def queued_bytes_def replenish_tokens_def min_def)
  qed
qed (simp_all add: replenish_tokens_def)

lemma replenish_rel: "hbm_rel acc served given m \<Longrightarrow> hbm_rel acc served given (replenish_tokens m p)"
  unfolding hbm_rel_def replenish_tokens_def flights_def waiting_def stored_def by simp

lemma tick_partition_load:
  assumes rel: "hbm_rel acc served given m" and l: "load_ok time acc m" and p: "p < length (hb_pending m)"
    and t: "tick_partition m p = Inr m'"
  shows "load_ok (time(p := time p + 1)) acc m'"
proof -
  let ?m = "replenish_tokens (service_refresh m p) p"
  have c: "core (service_refresh m p) = core m" by (rule core_refresh)
  have r: "hbm_rel acc served given ?m" using rel hbm_rel_core [OF c] replenish_rel by blast
  have "hb_pending (service_refresh m p) = hb_pending m" using c by (simp add: core_eq)
  then have p': "p < length (hb_pending (service_refresh m p))" "p < length (hb_pending ?m)"
    using p by (simp_all add: replenish_tokens_def)
  have "load_ok (time(p := time p + 1)) acc ?m" using l load_ok_core [OF c] load_ok_replenish [OF _ p'(1)] by blast
  with issue_loop_load [OF r this p'(2)] t show ?thesis
    unfolding tick_partition_def issue_partition_def Let_def by (auto split: if_splits)
qed

lemma rfold_load:
  assumes "hbm_rel acc served given m" "load_ok time acc m" "\<forall>p\<in>set ps. p < length (hb_pending m)" "distinct ps"
    "rfold tick_partition m ps = Inr m'"
  shows "load_ok (\<lambda>p. if p \<in> set ps then time p + 1 else time p) acc m'"
  using assms
proof (induction ps arbitrary: m time)
  case (Cons p ps)
  from Cons.prems(5) obtain m1 where t: "tick_partition m p = Inr m1" and r: "rfold tick_partition m1 ps = Inr m'" by auto
  have p: "p < length (hb_pending m)" using Cons.prems(3) by simp
  obtain m2 where "tick_partition m p = Inr m2" "hbm_rel acc served given m2" "same_shape m m2"
    using tick_partition_rel [OF Cons.prems(1) p] by blast
  with t have rel1: "hbm_rel acc served given m1" and sh: "same_shape m m1" by simp_all
  have "load_ok (\<lambda>q. if q \<in> set ps then (time(p := time p + 1)) q + 1 else (time(p := time p + 1)) q) acc m'"
    using Cons.IH [OF rel1 tick_partition_load [OF Cons.prems(1,2) p t] _ _ r] Cons.prems(3,4) sh
    by (simp add: same_shape_def)
  moreover have "(\<lambda>q. if q \<in> set ps then (time(p := time p + 1)) q + 1 else (time(p := time p + 1)) q) =
      (\<lambda>q. if q \<in> set (p # ps) then time q + 1 else time q)"
    using Cons.prems(4) by auto
  ultimately show ?case by simp
qed simp

subsection \<open>Completion keeps the books\<close>

lemma load_ok_complete_one:
  assumes l: "load_ok time acc m" and h: "hb_inflight m = (t, s, r) # rest" and v: "validate_request (hb_config m) r = Inr ()"
  shows "load_ok time acc (complete_one (m\<lparr>hb_inflight := rest\<rparr>) t r)"
proof -
  let ?m = "m\<lparr>hb_inflight := rest\<rparr>" and ?p = "nat (mq_partition r)"
  have v': "validate_request (hb_config ?m) r = Inr ()" using v by simp
  from complete_one_cases [OF v', of t] obtain x where
    c: "core (complete_one ?m t r) = core (?m\<lparr>hb_outstanding := (hb_outstanding ?m)[?p := hb_outstanding ?m ! ?p - 1],
      hb_responses := hb_responses ?m @ [x], hb_storage := hb_storage (complete_one ?m t r)\<rparr>)" by metis
  note L = load_okD [OF l]
  have p: "0 \<le> mq_partition r" "?p < partition_count (hb_config m)" using valid_partition [OF v] by auto
  show ?thesis
    unfolding load_ok_core [OF c]
  proof (rule load_ok_at [OF l, of _ ?p])
    show "partition_load time acc (?m\<lparr>hb_outstanding := (hb_outstanding ?m)[?p := hb_outstanding ?m ! ?p - 1],
      hb_responses := hb_responses ?m @ [x], hb_storage := hb_storage (complete_one ?m t r)\<rparr>) ?p"
      if "partition_load time acc m ?p"
      using that p L(4) by (simp add: partition_load_def issued_bytes_def queued_bytes_def h in_partition_def)
  qed (use p in \<open>auto simp: h in_partition_def\<close>)
qed

lemma complete_one_clock:
  "hb_cycle (complete_one m t r) = hb_cycle m"
proof -
  obtain m1 d e k where r: "(if mq_is_write r then (apply_write m r, [], HBM_OK, 0) else read_with_ecc m r) = (m1, d, e, k)"
    by (metis prod_cases4)
  have "hb_cycle m1 = hb_cycle m"
    using r read_with_ecc_core [of m r m1 d e k] by (auto simp: apply_write_frame core_eq split: if_splits)
  with complete_one_core [OF r, of t] show ?thesis by (simp add: core_eq)
qed

lemma complete_loop_load:
  assumes "hbm_rel acc served given m" "load_ok time acc m" "hb_inflight m = fl"
  shows "load_ok time acc (complete_loop fl m) \<and> hb_cycle (complete_loop fl m) = hb_cycle m"
  using assms
proof (induction fl m arbitrary: served rule: complete_loop.induct)
  case (1 m)
  then have "complete_loop [] m = m" by simp
  with 1 show ?case by (simp del: complete_loop.simps)
next
  case (2 t s r rest m)
  show ?case
  proof (cases "t \<le> hb_cycle m")
    case True
    let ?m = "complete_one (m\<lparr>hb_inflight := rest\<rparr>) t r"
    have "numbered acc s r" using hbm_relD(7) [OF 2(2)] 2(4) by simp
    then have v: "validate_request (hb_config m) r = Inr ()" using numbered_valid [OF hbm_relD(2) [OF 2(2)]] by simp
    have "hb_inflight ?m = rest" using complete_one_shape(1) [of "m\<lparr>hb_inflight := rest\<rparr>" r t] v by simp
    with 2(1) [OF True complete_one_rel [OF 2(2,4)] load_ok_complete_one [OF 2(3,4) v]] True
    show ?thesis by (simp add: complete_one_clock)
  next
    case False
    then have "complete_loop ((t, s, r) # rest) m = m" using 2(4) by simp
    with 2(3) show ?thesis by (simp del: complete_loop.simps)
  qed
qed

subsection \<open>Whole ticks and runs\<close>

lemma launch_clock: "launch m p s extra = Inr m' \<Longrightarrow> hb_cycle m' = hb_cycle m"
  by (erule launch_cases) (simp add: core_eq)

lemma issue_once_clock: "issue_once m p = Inr (m', b) \<Longrightarrow> hb_cycle m' = hb_cycle m"
  by (erule issue_once_cases) (auto simp: core_eq dest: launch_clock)

lemma issue_loop_clock: "issue_loop n m p = Inr m' \<Longrightarrow> hb_cycle m' = hb_cycle m"
  by (induction n arbitrary: m) (auto dest: issue_once_clock split: if_splits)

lemma tick_partition_clock: "tick_partition m p = Inr m' \<Longrightarrow> hb_cycle m' = hb_cycle m"
  using core_refresh [of m p]
  by (auto simp: tick_partition_def issue_partition_def Let_def core_eq replenish_tokens_def
      dest!: issue_loop_clock split: if_splits)

lemma rfold_clock: "rfold tick_partition m ps = Inr m' \<Longrightarrow> hb_cycle m' = hb_cycle m"
  by (induction ps arbitrary: m) (auto dest: tick_partition_clock)

definition hbm_inv :: "hbm_request list \<Rightarrow> int list \<Rightarrow> hbm_response list \<Rightarrow> hbm_model \<Rightarrow> bool" where
  "hbm_inv acc served given m \<longleftrightarrow> hbm_rel acc served given m \<and> load_ok (\<lambda>_. hb_cycle m) acc m"

lemma tick_once_inv:
  assumes "hbm_inv acc served given m"
  shows "\<exists>m' more. tick_once m = Inr m' \<and> hbm_inv acc (served @ more) given m' \<and> hb_cycle m' = hb_cycle m + 1"
proof -
  let ?m = "m\<lparr>hb_cycle := hb_cycle m + 1\<rparr>"
  let ?t = "\<lambda>_::nat. hb_cycle m"
  have r: "hbm_rel acc served given ?m"
    using assms unfolding hbm_inv_def hbm_rel_def flights_def waiting_def stored_def by simp
  have l: "load_ok ?t acc ?m"
    using assms unfolding hbm_inv_def by (auto simp: load_ok_def partition_load_def issued_bytes_def queued_bytes_def)
  let ?n = "complete_due_requests ?m"
  obtain more where r1: "hbm_rel acc (served @ more) given ?n"
    using complete_loop_rel [OF r refl] by (auto simp: complete_due_requests_def)
  have l1: "load_ok ?t acc ?n" and c1: "hb_cycle ?n = hb_cycle m + 1"
    using complete_loop_load [OF r l refl] by (simp_all add: complete_due_requests_def)
  let ?ps = "[0..<partition_count (hb_config ?n)]"
  have ps: "\<forall>p\<in>set ?ps. p < length (hb_pending ?n)" using hbm_relD(4) [OF r1] by simp
  obtain m' where t: "rfold tick_partition ?n ?ps = Inr m'" and r2: "hbm_rel acc (served @ more) given m'"
    and sh: "same_shape ?n m'"
    using rfold_rel [OF r1 ps] by blast
  have c2: "hb_cycle m' = hb_cycle m + 1" using rfold_clock [OF t] c1 by simp
  have "load_ok (\<lambda>p. if p \<in> set ?ps then ?t p + 1 else ?t p) acc m'"
    by (rule rfold_load [OF r1 l1 ps _ t]) simp
  then have "load_ok (\<lambda>_. hb_cycle m') acc m'"
    using sh by (auto simp: load_ok_def partition_load_def c2 same_shape_def)
  with r2 t c2 show ?thesis by (auto simp: tick_once_def hbm_inv_def)
qed

end
