(* ===== verification/Hbm_Client.thy ===== *)
theory Hbm_Client
  imports Hbm_Bounds
begin

section \<open>The client of the HBM model: every call, every run\<close>

text \<open>
  One step per public method. A call that raises leaves the model as the code leaves it and its reply is the
  exception; the run theorem says that nothing else is ever raised.
\<close>

lemma hbm_inv_core: "core m' = core m \<Longrightarrow> hbm_inv acc served given m' \<longleftrightarrow> hbm_inv acc served given m"
  using hbm_rel_core [of m' m] load_ok_core [of m' m] by (simp add: hbm_inv_def core_eq)

lemma hbm_inv_new: "hbm_new c = Inr m \<Longrightarrow> hbm_inv [] [] [] m"
  by (simp add: hbm_inv_def hbm_rel_new load_ok_new)

lemma hbm_inv_accept:
  assumes "hbm_inv acc served given m" and v: "validate_request (hb_config m) r = Inr ()"
    and room: "hb_outstanding m ! nat (mq_partition r) < hc_max_outstanding (hb_config m)"
    and m': "core m' = core (m\<lparr>hb_sequence := hb_sequence m + 1,
          hb_pending := (hb_pending m)[nat (mq_partition r) := hb_pending m ! nat (mq_partition r) @ [(hb_sequence m + 1, r)]],
          hb_outstanding := (hb_outstanding m)[nat (mq_partition r) := hb_outstanding m ! nat (mq_partition r) + 1]\<rparr>)"
  shows "hbm_inv (acc @ [r]) served given m'"
proof -
  have "hbm_rel acc served given m" "load_ok (\<lambda>_. hb_cycle m) acc m" using assms(1) by (simp_all add: hbm_inv_def)
  moreover have "hb_cycle m' = hb_cycle m" using m' by (simp add: core_eq)
  ultimately show ?thesis
    using hbm_rel_accept [OF _ v m'] load_ok_accept [OF _ v room m'] by (simp add: hbm_inv_def)
qed

lemma ticks_inv:
  assumes "hbm_inv acc served given m"
  shows "\<exists>m' more. rfold (\<lambda>m _. tick_once m) m xs = Inr m' \<and> hbm_inv acc (served @ more) given m'"
  using assms
proof (induction xs arbitrary: m served)
  case Nil
  then show ?case by (auto intro: exI [of _ "[]"])
next
  case (Cons x xs)
  from tick_once_inv [OF Cons.prems] obtain m1 more where 1: "tick_once m = Inr m1" "hbm_inv acc (served @ more) given m1"
    by blast
  from Cons.IH [OF 1(2)] 1(1) show ?case by auto
qed

lemma idle_loop_inv:
  assumes "hbm_inv acc served given m"
  shows "\<exists>m' b more. idle_loop n m = Inr (m', b) \<and> hbm_inv acc (served @ more) given m' \<and> b = hbm_idle m'"
  using assms
proof (induction n arbitrary: m served)
  case 0
  then show ?case by (auto intro: exI [of _ "[]"])
next
  case (Suc n)
  show ?case
  proof (cases "hbm_idle m")
    case True
    with Suc.prems show ?thesis by (auto intro: exI [of _ "[]"])
  next
    case False
    from tick_once_inv [OF Suc.prems] obtain m1 more where 1: "tick_once m = Inr m1" "hbm_inv acc (served @ more) given m1"
      by blast
    from Suc.IH [OF 1(2)] 1(1) False show ?thesis by auto
  qed
qed

subsection \<open>The client\<close>

datatype hbm_call =
  Submit hbm_request | Pop | Drain_Responses | Drain_Events | Enable int bool | Refresh_Soon int
| Inject int int "int list" bool | Clear_Faults "int option" | Tick int | Run_Idle int

datatype hbm_reply =
  Accept bool | Popped "hbm_response option" | Responses "hbm_response list" | Events "hbm_event list" | Ack
| Idle_In int | Raised py_error

definition reply_of :: "hbm_model \<Rightarrow> ('a \<Rightarrow> hbm_model \<times> hbm_reply) \<Rightarrow> py_error + 'a \<Rightarrow> hbm_model \<times> hbm_reply" where
  "reply_of m f r = (case r of Inl e \<Rightarrow> (m, Raised e) | Inr x \<Rightarrow> f x)"

fun hbm_step :: "hbm_model \<Rightarrow> hbm_call \<Rightarrow> py_error + hbm_model \<times> hbm_reply" where
  "hbm_step m (Submit r) = Inr (reply_of m (\<lambda>(m, b). (m, Accept b)) (hbm_submit m r))"
| "hbm_step m Pop = Inr (case pop_response m of (m, x) \<Rightarrow> (m, Popped x))"
| "hbm_step m Drain_Responses = Inr (case drain_responses m of (m, xs) \<Rightarrow> (m, Responses xs))"
| "hbm_step m Drain_Events = Inr (case drain_events m of (m, xs) \<Rightarrow> (m, Events xs))"
| "hbm_step m (Enable p b) = Inr (reply_of m (\<lambda>m. (m, Ack)) (set_partition_enabled m p b))"
| "hbm_step m (Refresh_Soon p) = Inr (reply_of m (\<lambda>m. (m, Ack)) (request_refresh m p))"
| "hbm_step m (Inject p a bits persistent) =
     Inr (case inject_bit_errors m p a bits persistent of (m, e) \<Rightarrow> (m, case e of None \<Rightarrow> Ack | Some e \<Rightarrow> Raised e))"
| "hbm_step m (Clear_Faults p) = Inr (reply_of m (\<lambda>m. (m, Ack)) (clear_faults m p))"
| "hbm_step m (Tick n) = (if n < 0 then Inr (m, Raised ValueError) else rbind (hbm_tick m n) (\<lambda>m. Inr (m, Ack)))"
| "hbm_step m (Run_Idle n) =
     rbind (run_until_idle m n) (\<lambda>(m, r). Inr (m, case r of Inl e \<Rightarrow> Raised e | Inr k \<Rightarrow> Idle_In k))"

fun accepted_by :: "hbm_call \<Rightarrow> hbm_reply \<Rightarrow> hbm_request list" where
  "accepted_by (Submit r) (Accept True) = [r]"
| "accepted_by _ _ = []"

fun given_by :: "hbm_reply \<Rightarrow> hbm_response list" where
  "given_by (Popped (Some x)) = [x]"
| "given_by (Responses xs) = xs"
| "given_by _ = []"

lemma hbm_inv_given:
  assumes "hbm_inv acc served given m"
  shows "hb_responses m = xs @ ys \<Longrightarrow> hbm_inv acc served (given @ xs) (m\<lparr>hb_responses := ys\<rparr>)"
proof -
  assume h: "hb_responses m = xs @ ys"
  have "hbm_rel acc served (given @ xs) (m\<lparr>hb_responses := ys\<rparr>)"
    using assms h unfolding hbm_inv_def hbm_rel_def flights_def waiting_def stored_def by simp
  moreover have "load_ok (\<lambda>_. hb_cycle m) acc (m\<lparr>hb_responses := ys\<rparr>)"
    using assms unfolding hbm_inv_def by (auto simp: load_ok_def partition_load_def issued_bytes_def queued_bytes_def)
  ultimately show ?thesis by (simp add: hbm_inv_def)
qed

definition hbm_steps :: "hbm_request list \<Rightarrow> int list \<Rightarrow> hbm_response list \<Rightarrow> hbm_model \<Rightarrow> hbm_call \<Rightarrow> bool" where
  "hbm_steps acc served given m call \<longleftrightarrow> (\<exists>m' reply more. hbm_step m call = Inr (m', reply) \<and>
     hbm_inv (acc @ accepted_by call reply) (served @ more) (given @ given_by reply) m')"

lemma hbm_stepsI:
  "hbm_step m call = Inr (m', reply) \<Longrightarrow>
     hbm_inv (acc @ accepted_by call reply) (served @ new) (given @ given_by reply) m' \<Longrightarrow> hbm_steps acc served given m call"
  unfolding hbm_steps_def by blast

lemmas hbm_steps_quiet = hbm_stepsI [where new = "[]"]

lemma hbm_steps_ack:
  assumes "hbm_inv acc served given m" "\<And>m'. r = Inr m' \<Longrightarrow> core m' = core m"
    and "hbm_step m c = Inr (reply_of m (\<lambda>m. (m, Ack)) r)"
  shows "hbm_steps acc served given m c"
proof (cases r)
  case (Inl e)
  show ?thesis
    by (rule hbm_steps_quiet [of _ _ m "Raised e"]) (use assms Inl in \<open>simp_all add: reply_of_def\<close>)
next
  case (Inr m')
  show ?thesis
    by (rule hbm_steps_quiet [of _ _ m' Ack])
      (use assms(1,3) Inr hbm_inv_core [OF assms(2) [OF Inr]] in \<open>simp_all add: reply_of_def\<close>)
qed

lemma hbm_steps_submit:
  assumes rel: "hbm_inv acc served given m"
  shows "hbm_steps acc served given m (Submit r)"
proof (cases "hbm_submit m r")
  case (Inl e)
  show ?thesis
    by (rule hbm_steps_quiet [of _ _ m "Raised e"]) (use rel Inl in \<open>simp_all add: reply_of_def\<close>)
next
  case (Inr mb)
  obtain m' b where mb: "mb = (m', b)" by force
  from Inr mb have "hbm_submit m r = Inr (m', b)" by simp
  then have "hbm_inv (acc @ accepted_by (Submit r) (Accept b)) served given m'"
  proof (cases rule: hbm_submit_cases)
    case refused
    with rel hbm_inv_core [OF refused(2)] show ?thesis by simp
  next
    case taken
    from hbm_inv_accept [OF rel taken(2,3,4)] taken(1) show ?thesis by simp
  qed
  then show ?thesis
    by (intro hbm_steps_quiet [of _ _ m' "Accept b"]) (use Inr mb in \<open>simp_all add: reply_of_def\<close>)
qed

lemma hbm_steps_all:
  assumes rel: "hbm_inv acc served given m"
  shows "hbm_steps acc served given m call"
proof (cases call)
  case (Submit r)
  with hbm_steps_submit [OF rel] show ?thesis by simp
next
  case Pop
  show ?thesis
  proof (cases "hb_responses m")
    case Nil
    show ?thesis unfolding Pop
      by (rule hbm_steps_quiet [of _ _ m "Popped None"]) (use rel Nil in \<open>simp_all add: pop_response_def\<close>)
  next
    case (Cons x xs)
    show ?thesis unfolding Pop
      by (rule hbm_steps_quiet [of _ _ "m\<lparr>hb_responses := xs\<rparr>" "Popped (Some x)"])
        (use hbm_inv_given [OF rel, of "[x]" xs] Cons in \<open>simp_all add: pop_response_def\<close>)
  qed
next
  case Drain_Responses
  show ?thesis unfolding Drain_Responses
    by (rule hbm_steps_quiet [of _ _ "m\<lparr>hb_responses := []\<rparr>" "Responses (hb_responses m)"])
      (use hbm_inv_given [OF rel, of "hb_responses m" "[]"] in \<open>simp_all add: drain_responses_def\<close>)
next
  case Drain_Events
  show ?thesis unfolding Drain_Events
    by (rule hbm_steps_quiet [of _ _ "m\<lparr>hb_events := []\<rparr>" "Events (hb_events m)"])
      (use rel hbm_inv_core [OF core_updates(2) [where m = m and e = "[]"]] in \<open>simp_all add: drain_events_def\<close>)
next
  case (Enable p b)
  with hbm_steps_ack [OF rel core_set_enabled] show ?thesis by simp
next
  case (Refresh_Soon p)
  with hbm_steps_ack [OF rel core_request_refresh] show ?thesis by simp
next
  case (Inject p a bits persistent)
  obtain m' e where i: "inject_bit_errors m p a bits persistent = (m', e)" by force
  show ?thesis unfolding Inject
    by (rule hbm_steps_quiet [of _ _ m' "case e of None \<Rightarrow> Ack | Some e \<Rightarrow> Raised e"])
      (use i rel hbm_inv_core [OF core_inject_errors [OF i]] in \<open>simp_all split: option.split\<close>)
next
  case (Clear_Faults p)
  with hbm_steps_ack [OF rel core_clear_faults] show ?thesis by simp
next
  case (Tick n)
  show ?thesis
  proof (cases "n < 0")
    case True
    show ?thesis unfolding Tick by (rule hbm_steps_quiet [of _ _ m "Raised ValueError"]) (use rel True in simp_all)
  next
    case False
    from ticks_inv [OF rel] obtain m' more where
      t: "rfold (\<lambda>m _. tick_once m) m [0..<nat n] = Inr m'" "hbm_inv acc (served @ more) given m'" by blast
    show ?thesis unfolding Tick
      by (rule hbm_stepsI [of _ _ m' Ack _ _ more]) (use t False in \<open>simp_all add: hbm_tick_def\<close>)
  qed
next
  case (Run_Idle n)
  from idle_loop_inv [OF rel, of "nat n"] obtain m' b more where
    t: "idle_loop (nat n) m = Inr (m', b)" "hbm_inv acc (served @ more) given m'" by blast
  show ?thesis unfolding Run_Idle
    by (rule hbm_stepsI [of _ _ m' "if b then Idle_In (hb_cycle m' - hb_cycle m) else Raised TimeoutError" _ _ more])
      (use t in \<open>simp_all add: run_until_idle_def\<close>)
qed

lemma hbm_step_inv:
  assumes rel: "hbm_inv acc served given m"
  shows "\<exists>m' reply more. hbm_step m call = Inr (m', reply) \<and>
    hbm_inv (acc @ accepted_by call reply) (served @ more) (given @ given_by reply) m'"
  using hbm_steps_all [OF rel] unfolding hbm_steps_def .

definition accepted_requests :: "hbm_call list \<Rightarrow> hbm_reply list \<Rightarrow> hbm_request list" where
  "accepted_requests calls replies = concat (map2 accepted_by calls replies)"

definition responses_given :: "hbm_reply list \<Rightarrow> hbm_response list" where
  "responses_given replies = concat (map given_by replies)"

lemma hbm_run_inv:
  assumes "hbm_inv acc served given m"
  shows "\<exists>m' replies more. run hbm_step m calls = Inr (m', replies) \<and>
    hbm_inv (acc @ accepted_requests calls replies) (served @ more) (given @ responses_given replies) m'"
  using assms
proof (induction calls arbitrary: acc served given m)
  case Nil
  then show ?case by (auto simp: accepted_requests_def responses_given_def intro: exI [of _ "[]"])
next
  case (Cons call calls)
  from hbm_step_inv [OF Cons.prems, of call] obtain m1 reply more where 1: "hbm_step m call = Inr (m1, reply)"
    "hbm_inv (acc @ accepted_by call reply) (served @ more) (given @ given_by reply) m1" by blast
  from Cons.IH [OF 1(2)] obtain m' replies more' where 2: "run hbm_step m1 calls = Inr (m', replies)"
    "hbm_inv ((acc @ accepted_by call reply) @ accepted_requests calls replies) ((served @ more) @ more')
      ((given @ given_by reply) @ responses_given replies) m'" by blast
  with 1(1) show ?case
    by (intro exI [of _ m'] exI [of _ "reply # replies"] exI [of _ "more @ more'"])
      (simp add: accepted_requests_def responses_given_def)
qed

lemma idle_waiting: "hbm_idle m \<Longrightarrow> waiting m = {} \<and> flights m = []"
  by (auto simp: hbm_idle_def waiting_def flights_def list_all_iff)

lemma hbm_serves_in_order:
  assumes "hbm_new c = Inr m0"
  shows "\<exists>m replies served. run hbm_step m0 calls = Inr (m, replies) \<and>
    (let acc = accepted_requests calls replies in
     distinct served \<and> set served \<subseteq> {1..int (length acc)} \<and>
     (hbm_idle m \<longrightarrow> set served = {1..int (length acc)}) \<and>
     list_all2 (answers acc) served (responses_given replies @ hb_responses m))"
proof -
  from hbm_run_inv [OF hbm_inv_new [OF assms], of calls] obtain m replies served where
    r: "run hbm_step m0 calls = Inr (m, replies)"
    "hbm_inv (accepted_requests calls replies) served (responses_given replies) m" by auto
  note R = hbm_relD [OF r(2) [unfolded hbm_inv_def, THEN conjunct1]]
  have "distinct served" "set served \<subseteq> {1..int (length (accepted_requests calls replies))}"
    using R(9,11) by auto
  moreover have "hbm_idle m \<longrightarrow> set served = {1..int (length (accepted_requests calls replies))}"
    using R(11) idle_waiting by auto
  ultimately show ?thesis using r(1) R(14) by (auto simp: Let_def)
qed

lemma hbm_stays_within_bounds:
  assumes "hbm_new c = Inr m0" and r: "run hbm_step m0 calls = Inr (m, replies)" and p: "p < length (hb_pending m)"
  shows "hb_outstanding m ! p = int (length (hb_pending m ! p) + length (filter (in_partition p) (hb_inflight m)))"
    "hb_outstanding m ! p \<le> hc_max_outstanding (hb_config m)"
    "issued_bytes (accepted_requests calls replies) m p \<le> hc_rate (hb_config m) * hb_cycle m"
proof -
  from hbm_run_inv [OF hbm_inv_new [OF assms(1)], of calls] r
  obtain served where "hbm_inv (accepted_requests calls replies) served (responses_given replies) m" by auto
  then have l: "load_ok (\<lambda>_. hb_cycle m) (accepted_requests calls replies) m" by (simp add: hbm_inv_def)
  from load_okD(5) [OF l, of p] load_okD(2) [OF l] p
  show "hb_outstanding m ! p = int (length (hb_pending m ! p) + length (filter (in_partition p) (hb_inflight m)))"
    "hb_outstanding m ! p \<le> hc_max_outstanding (hb_config m)"
    "issued_bytes (accepted_requests calls replies) m p \<le> hc_rate (hb_config m) * hb_cycle m"
    by (auto simp: partition_load_def)
qed

definition hbm_sound :: "hbm_model \<Rightarrow> bool" where
  "hbm_sound m \<longleftrightarrow> (\<exists>acc served given. hbm_inv acc served given m)"

interpretation hbm: total_machine hbm_step hbm_sound "\<lambda>_ _. True"
  by unfold_locales (auto simp: hbm_sound_def dest: hbm_step_inv, (metis Inr_inject hbm_step_inv prod.inject)+)

lemma hbm_reachable_room:
  assumes "hbm_new c = Inr m0" "reach hbm_step m0 m" "p < length (hb_pending m)"
  shows "hb_outstanding m ! p \<le> hc_max_outstanding (hb_config m)"
proof -
  have "hbm_sound m0" using hbm_inv_new [OF assms(1)] by (auto simp: hbm_sound_def)
  then have "hbm_sound m" using hbm.reach_inv [OF assms(2)] by simp
  then show ?thesis using assms(3) load_okD(2,5) by (fastforce simp: hbm_sound_def hbm_inv_def partition_load_def)
qed

end
