(* ===== verification/Hbm_Ecc.thy ===== *)
theory Hbm_Ecc
  imports Hbm_Order
begin

section \<open>HBM addresses: the interleaving is a bijection onto the geometry\<close>

text \<open>
  What the address decoding and the error correction of the HBM model promise: the fields of an address determine it, and
  a read reports and repairs exactly the flipped bits under it.
\<close>

definition address_of :: "hbm_config \<Rightarrow> hbm_address \<Rightarrow> int" where
  "address_of c d =
     (let bank_in_pc = ad_bank_group d * hc_banks_per_group c + ad_bank d;
          linear_bank = (ad_channel d * hc_pseudo_channels c + ad_pseudo_channel d) * banks_per_pseudo_channel c + bank_in_pc;
          column_line = ad_column d div hc_interleave c;
          line = (ad_row d * (hc_row c div hc_interleave c) + column_line) * banks_per_partition c + linear_bank
      in line * hc_interleave c + ad_column d mod hc_interleave c)"

definition in_geometry :: "hbm_config \<Rightarrow> hbm_address \<Rightarrow> bool" where
  "in_geometry c d \<longleftrightarrow>
     0 \<le> ad_channel d \<and> ad_channel d < hc_channels c \<and> 0 \<le> ad_pseudo_channel d \<and> ad_pseudo_channel d < hc_pseudo_channels c \<and>
     0 \<le> ad_bank_group d \<and> ad_bank_group d < hc_bank_groups c \<and> 0 \<le> ad_bank d \<and> ad_bank d < hc_banks_per_group c \<and>
     0 \<le> ad_row d \<and> 0 \<le> ad_column d \<and> ad_column d < hc_row c \<and>
     0 \<le> ad_linear_bank d \<and> ad_linear_bank d < banks_per_partition c"

lemma validate_positive:
  assumes "hbm_validate c = Inr ()" and "x \<in> set (positive_settings c)"
  shows "0 < x"
  using assms by (auto simp: hbm_validate_def list_ex_iff not_le)

lemma geometry_positive:
  assumes "hbm_validate c = Inr ()"
  shows "0 < hc_interleave c" "0 < hc_pseudo_channels c" "0 < hc_banks_per_group c" "0 < hc_bank_groups c"
    "0 < hc_channels c" "0 < hc_row c div hc_interleave c" "0 < banks_per_pseudo_channel c" "0 < banks_per_partition c"
    "0 < hc_row c"
proof -
  have pos: "0 < hc_interleave c" "0 < hc_pseudo_channels c" "0 < hc_banks_per_group c" "0 < hc_bank_groups c"
    "0 < hc_channels c" "0 < hc_row c"
    using validate_positive [OF assms] by (simp_all add: positive_settings_def)
  then show "0 < hc_interleave c" "0 < hc_pseudo_channels c" "0 < hc_banks_per_group c" "0 < hc_bank_groups c"
    "0 < hc_channels c" "0 < banks_per_pseudo_channel c" "0 < banks_per_partition c" "0 < hc_row c"
    by (simp_all add: banks_per_pseudo_channel_def banks_per_partition_def pseudo_channels_per_partition_def)
  have "hc_interleave c \<le> hc_row c" using assms by (simp add: hbm_validate_def)
  then show "0 < hc_row c div hc_interleave c" using pos by (simp add: pos_imp_zdiv_pos_iff)
qed

lemma decode_geometry:
  assumes v: "hbm_validate c = Inr ()" and d: "decode_address c p a = Inr d"
  shows "in_geometry c d" "address_of c d = a"
proof -
  note P = geometry_positive [OF v]
  define i where "i = hc_interleave c"
  define b where "b = banks_per_partition c"
  define k where "k = hc_row c div i"
  define l where "l = a div i mod b"
  define u where "u = a div i div b"
  define bp where "bp = banks_per_pseudo_channel c"
  have pos: "0 < i" "0 < b" "0 < k" "0 < bp" using P by (simp_all add: i_def b_def k_def bp_def)
  have a: "0 \<le> a" using d by (auto simp: decode_address_def Let_def)
  have d': "d = \<lparr>ad_partition = p, ad_channel = l div bp div hc_pseudo_channels c,
      ad_pseudo_channel = l div bp mod hc_pseudo_channels c, ad_bank_group = l mod bp div hc_banks_per_group c,
      ad_bank = l mod bp mod hc_banks_per_group c, ad_row = u div k, ad_column = u mod k * i + a mod i, ad_linear_bank = l\<rparr>"
    using d by (auto simp: decode_address_def Let_def l_def u_def k_def b_def i_def bp_def)
  have l: "0 \<le> l" "l < b" using pos by (simp_all add: l_def)
  have b: "b = hc_channels c * hc_pseudo_channels c * bp"
    by (simp add: b_def bp_def banks_per_partition_def pseudo_channels_per_partition_def)
  have "l div bp < hc_channels c * hc_pseudo_channels c" using l(2) [unfolded b] pos by (intro div_below) auto
  then have ch: "l div bp div hc_pseudo_channels c < hc_channels c" using P by (intro div_below [of "l div bp"]) auto
  have "l mod bp < hc_bank_groups c * hc_banks_per_group c" using pos by (simp add: bp_def banks_per_pseudo_channel_def)
  then have bg: "l mod bp div hc_banks_per_group c < hc_bank_groups c" using P by (intro div_below [of "l mod bp"]) auto
  have "u mod k * i + a mod i < u mod k * i + i" using pos by simp
  also have "\<dots> = (u mod k + 1) * i" by (simp add: algebra_simps)
  also have "\<dots> \<le> k * i" using pos by (intro mult_right_mono) (simp_all add: zless_imp_add1_zle)
  also have "\<dots> \<le> hc_row c" unfolding k_def using pos pos_mod_sign [of i "hc_row c"] div_mult_mod_eq [of "hc_row c" i] by linarith
  finally have col: "u mod k * i + a mod i < hc_row c" .
  have u: "0 \<le> u" using a pos by (simp add: u_def pos_imp_zdiv_nonneg_iff)
  show "in_geometry c d"
    using ch bg col l u a pos P by (auto simp: in_geometry_def d' b_def pos_imp_zdiv_nonneg_iff)
  have cl: "(u mod k * i + a mod i) div i = u mod k" "(u mod k * i + a mod i) mod i = a mod i" using pos by simp_all
  show "address_of c d = a"
    by (simp add: address_of_def Let_def d' cl flip: i_def b_def k_def bp_def)
      (simp add: l_def u_def)
qed

section \<open>HBM error correction: what a read returns, exactly\<close>

text \<open>
  The faults of a request as a function of the offset, and the read of the model as a closed form of it: which bytes come
  back, with which status and count, and which faults are left.
\<close>

definition flips_at :: "hbm_model \<Rightarrow> hbm_request \<Rightarrow> nat \<Rightarrow> 8 word" where
  "flips_at m r k = (case map_of (hb_faults m) (mq_partition r, mq_address r + int k) of None \<Rightarrow> 0 | Some (f, _) \<Rightarrow> f)"

definition beat_flips :: "hbm_model \<Rightarrow> hbm_request \<Rightarrow> nat \<Rightarrow> nat \<Rightarrow> int" where
  "beat_flips m r n b = (\<Sum>k\<in>{k. k < n \<and> int k div hc_beat (hb_config m) = int b}. bit_count (flips_at m r k))"

definition bytes_of :: "hbm_request \<Rightarrow> nat" where
  "bytes_of r = nat (mq_length r)"

definition beats_of :: "hbm_model \<Rightarrow> hbm_request \<Rightarrow> nat" where
  "beats_of m r = nat (mq_length r div hc_beat (hb_config m))"

definition transient_at :: "hbm_model \<Rightarrow> int \<times> int \<Rightarrow> bool" where
  "transient_at m key \<longleftrightarrow> (\<exists>f. map_of (hb_faults m) key = Some (f, False))"

definition scan_start :: "hbm_model \<Rightarrow> hbm_request \<Rightarrow> ecc_scan" where
  "scan_start m r = \<lparr>es_observed = clean_bytes m r, es_transient = [], es_errors = replicate (beats_of m r) 0\<rparr>"

lemma bit_count_0 [simp]: "bit_count 0 = 0"
  by (simp add: bit_count_def)

lemma bit_count_pos: "0 \<le> bit_count w"
  by (simp add: bit_count_def)

lemma bit_count_zero: "bit_count w = 0 \<longleftrightarrow> w = 0"
proof
  assume "bit_count w = 0"
  then have "filter (bit w) [0..<8] = []" by (simp add: bit_count_def)
  then have "\<forall>k<8. \<not> bit w k" by (simp add: filter_empty_conv)
  then show "w = 0" by (intro bit_word_eqI) simp
qed simp

lemma beat_index:
  assumes "hbm_validate (hb_config m) = Inr ()" "validate_request (hb_config m) r = Inr ()" "k < bytes_of r"
  shows "nat (int k div hc_beat (hb_config m)) < beats_of m r" "0 < hc_beat (hb_config m)"
proof -
  have "0 < hc_beat (hb_config m)" using assms(1) by (auto simp: hbm_validate_def positive_settings_def list_ex_iff)
  moreover have "mq_length r mod hc_beat (hb_config m) = 0" "int k < mq_length r"
    using assms(2,3) by (auto simp: validate_request_def bytes_of_def)
  moreover from this have "int k < mq_length r div hc_beat (hb_config m) * hc_beat (hb_config m)"
    by (metis add.right_neutral div_mult_mod_eq)
  ultimately have "int k div hc_beat (hb_config m) < mq_length r div hc_beat (hb_config m)"
    by (metis div_mult_mod_eq le_less_trans mult_right_less_imp_less less_imp_le pos_mod_sign add_le_cancel_left
        add.right_neutral)
  moreover have "0 \<le> int k div hc_beat (hb_config m)"
    using \<open>0 < hc_beat (hb_config m)\<close> by (simp add: pos_imp_zdiv_nonneg_iff)
  ultimately show "nat (int k div hc_beat (hb_config m)) < beats_of m r" "0 < hc_beat (hb_config m)"
    by (auto simp: beats_of_def nat_less_iff \<open>0 < hc_beat (hb_config m)\<close>)
qed

lemma beat_flips_Suc:
  assumes "0 < hc_beat (hb_config m)"
  shows "beat_flips m r (Suc n) b =
    beat_flips m r n b + (if nat (int n div hc_beat (hb_config m)) = b then bit_count (flips_at m r n) else 0)"
proof -
  let ?c = "hc_beat (hb_config m)"
  have q: "nat (int n div ?c) = b \<longleftrightarrow> int n div ?c = int b" using assms by (auto simp: pos_imp_zdiv_nonneg_iff)
  have "{k. k < Suc n \<and> int k div ?c = int b} =
      {k. k < n \<and> int k div ?c = int b} \<union> (if nat (int n div ?c) = b then {n} else {})"
    by (auto simp: q less_Suc_eq)
  then show ?thesis by (simp add: beat_flips_def)
qed

lemma scan_prefix:
  assumes v: "hbm_validate (hb_config m) = Inr ()" "validate_request (hb_config m) r = Inr ()"
  shows "n \<le> bytes_of r \<Longrightarrow> foldl (scan_byte m r) (scan_start m r) [0..<n] =
    \<lparr>es_observed = map (\<lambda>k. if k < n then clean_bytes m r ! k XOR flips_at m r k else clean_bytes m r ! k) [0..<bytes_of r],
     es_transient = map (\<lambda>k. (mq_partition r, mq_address r + int k))
       (filter (\<lambda>k. transient_at m (mq_partition r, mq_address r + int k)) [0..<n]),
     es_errors = map (beat_flips m r n) [0..<beats_of m r]\<rparr>"
proof (induction n)
  case 0
  have "length (clean_bytes m r) = bytes_of r" by (simp add: clean_bytes_def bytes_of_def)
  then have "map ((!) (clean_bytes m r)) [0..<bytes_of r] = clean_bytes m r" by (metis map_nth)
  moreover have "map (beat_flips m r 0) [0..<beats_of m r] = replicate (beats_of m r) 0"
    by (intro nth_equalityI) (simp_all add: beat_flips_def)
  ultimately show ?case by (simp add: scan_start_def)
next
  case (Suc n)
  have n: "n < bytes_of r" using Suc.prems by simp
  note b = beat_index [OF v n]
  let ?key = "(mq_partition r, mq_address r + int n)"
  show ?case
  proof (cases "map_of (hb_faults m) ?key")
    case None
    then have f: "flips_at m r n = 0" "\<not> transient_at m ?key" by (auto simp: flips_at_def transient_at_def)
    then have "beat_flips m r (Suc n) = beat_flips m r n" by (intro ext) (simp add: beat_flips_Suc [OF b(2)])
    moreover have "map (\<lambda>k. if k < Suc n then clean_bytes m r ! k XOR flips_at m r k else clean_bytes m r ! k) [0..<bytes_of r] =
        map (\<lambda>k. if k < n then clean_bytes m r ! k XOR flips_at m r k else clean_bytes m r ! k) [0..<bytes_of r]"
      using f(1) by (auto simp: less_Suc_eq)
    ultimately show ?thesis using Suc f None by (simp add: scan_byte_def Let_def)
  next
    case (Some fp)
    obtain f persistent where fp: "fp = (f, persistent)" by force
    have f: "flips_at m r n = f" "transient_at m ?key \<longleftrightarrow> \<not> persistent" using Some fp by (auto simp: flips_at_def transient_at_def)
    have e: "map (beat_flips m r (Suc n)) [0..<beats_of m r] =
        (map (beat_flips m r n) [0..<beats_of m r])
          [nat (int n div hc_beat (hb_config m)) := beat_flips m r n (nat (int n div hc_beat (hb_config m))) + bit_count f]"
      by (rule nth_equalityI) (auto simp: beat_flips_Suc [OF b(2)] nth_list_update f)
    have oo: "map (\<lambda>k. if k < Suc n then clean_bytes m r ! k XOR flips_at m r k else clean_bytes m r ! k) [0..<bytes_of r] =
        (map (\<lambda>k. if k < n then clean_bytes m r ! k XOR flips_at m r k else clean_bytes m r ! k) [0..<bytes_of r])
          [n := clean_bytes m r ! n XOR f]"
      by (rule nth_equalityI) (auto simp: nth_list_update less_Suc_eq f)
    show ?thesis using Suc b n f Some fp by (simp add: scan_byte_def Let_def e oo)
  qed
qed

definition flip_total :: "hbm_model \<Rightarrow> hbm_request \<Rightarrow> int" where
  "flip_total m r = (\<Sum>b<beats_of m r. beat_flips m r (bytes_of r) b)"

definition correctable :: "hbm_model \<Rightarrow> hbm_request \<Rightarrow> bool" where
  "correctable m r \<longleftrightarrow> hc_ecc (hb_config m) \<and>
     (\<forall>b < beats_of m r. beat_flips m r (bytes_of r) b \<le> hc_correctable (hb_config m))"

definition observed_bytes :: "hbm_model \<Rightarrow> hbm_request \<Rightarrow> 8 word list" where
  "observed_bytes m r = map (\<lambda>k. stored m (mq_partition r, mq_address r + int k) XOR flips_at m r k) [0..<bytes_of r]"

lemma delete_keys_of:
  "map_of (foldl (\<lambda>faults key. AList.delete key faults) fs keys) key = (if key \<in> set keys then None else map_of fs key)"
  by (induction keys arbitrary: fs) (auto simp: map_of_delete)

lemma read_with_ecc_exact:
  assumes v: "hbm_validate (hb_config m) = Inr ()" "validate_request (hb_config m) r = Inr ()"
    and rd: "read_with_ecc m r = (m', data, status, corrected)"
  shows "data = (if status \<in> {HBM_OK, HBM_ECC_CORRECTED} then clean_bytes m r else observed_bytes m r)"
    "status = (if flip_total m r = 0 then HBM_OK else if correctable m r then HBM_ECC_CORRECTED
       else if hc_ecc (hb_config m) then HBM_ECC_UNCORRECTABLE else HBM_DATA_ERROR)"
    "corrected = (if status = HBM_ECC_CORRECTED then flip_total m r else 0)"
    "map_of (hb_faults m') key = (if touches key r \<and> transient_at m key then None else map_of (hb_faults m) key)"
proof -
  define s where "s = foldl (scan_byte m r) (scan_start m r) [0..<bytes_of r]"
  have s: "s = \<lparr>es_observed = observed_bytes m r,
      es_transient = map (\<lambda>k. (mq_partition r, mq_address r + int k))
        (filter (\<lambda>k. transient_at m (mq_partition r, mq_address r + int k)) [0..<bytes_of r]),
      es_errors = map (beat_flips m r (bytes_of r)) [0..<beats_of m r]\<rparr>"
    unfolding s_def scan_prefix [OF v order_refl]
    by (auto simp: observed_bytes_def clean_bytes_stored bytes_of_def)
  have total: "sum_list (es_errors s) = flip_total m r"
    by (simp add: s flip_total_def interv_sum_list_conv_sum_set_nat atLeast0LessThan)
  have every: "(hc_ecc (hb_config m) \<and> list_all (\<lambda>n. n \<le> hc_correctable (hb_config m)) (es_errors s)) = correctable m r"
    by (auto simp: s correctable_def list_all_iff)
  have rd': "read_with_ecc m r =
      (let m1 = m\<lparr>hb_faults := foldl (\<lambda>faults key. AList.delete key faults) (hb_faults m) (es_transient s)\<rparr>; st = hb_stats m1 in
       if flip_total m r = 0 then (m1, clean_bytes m r, HBM_OK, 0)
       else if correctable m r then (m1\<lparr>hb_stats := st\<lparr>ms_corrected := ms_corrected st + 1\<rparr>\<rparr>, clean_bytes m r, HBM_ECC_CORRECTED, flip_total m r)
       else if hc_ecc (hb_config m) then (m1\<lparr>hb_stats := st\<lparr>ms_uncorrectable := ms_uncorrectable st + 1\<rparr>\<rparr>, es_observed s, HBM_ECC_UNCORRECTABLE, 0)
       else (m1\<lparr>hb_stats := st\<lparr>ms_uncorrectable := ms_uncorrectable st + 1\<rparr>\<rparr>, es_observed s, HBM_DATA_ERROR, 0))"
    unfolding read_with_ecc_def Let_def
      scan_start_def [unfolded beats_of_def, symmetric] bytes_of_def [symmetric] s_def [symmetric] total every ..
  have obs: "es_observed s = observed_bytes m r" by (simp add: s)
  show "data = (if status \<in> {HBM_OK, HBM_ECC_CORRECTED} then clean_bytes m r else observed_bytes m r)"
    "status = (if flip_total m r = 0 then HBM_OK else if correctable m r then HBM_ECC_CORRECTED
       else if hc_ecc (hb_config m) then HBM_ECC_UNCORRECTABLE else HBM_DATA_ERROR)"
    "corrected = (if status = HBM_ECC_CORRECTED then flip_total m r else 0)"
    using rd unfolding rd' Let_def by (auto simp: obs split: if_splits)
  have f: "hb_faults m' = foldl (\<lambda>faults key. AList.delete key faults) (hb_faults m) (es_transient s)"
    using rd unfolding rd' Let_def by (auto split: if_splits)
  have "key \<in> set (es_transient s) \<longleftrightarrow> touches key r \<and> transient_at m key"
  proof -
    obtain p a where key: "key = (p, a)" by force
    have "(\<exists>k < bytes_of r. a = mq_address r + int k) \<longleftrightarrow> mq_address r \<le> a \<and> a < mq_address r + mq_length r"
    proof
      assume "mq_address r \<le> a \<and> a < mq_address r + mq_length r"
      then show "\<exists>k < bytes_of r. a = mq_address r + int k"
        by (intro exI [of _ "nat (a - mq_address r)"]) (auto simp: bytes_of_def)
    qed (auto simp: bytes_of_def)
    then show ?thesis by (auto simp: s touches_def key)
  qed
  then show "map_of (hb_faults m') key = (if touches key r \<and> transient_at m key then None else map_of (hb_faults m) key)"
    by (simp add: f delete_keys_of)
qed

end
