(* ===== verification/Props_Hbm.thy ===== *)
theory Props_Hbm
  imports Hbm_Client Hbm_Ecc
begin

section \<open>Properties of the HBM model\<close>

text \<open>
  The witnesses use a small memory with the whole timing model on: two partitions of 256 bytes, two banks each,
  first-ready scheduling, refresh and single-bit correction.
\<close>

definition demo_hbm :: hbm_config where
  "demo_hbm = \<lparr>hc_partitions = 2, hc_capacity = 256, hc_clock = 1000, hc_beat = 4, hc_max_transaction = 8, hc_rate = 4,
     hc_read_latency = 3, hc_write_latency = 2, hc_max_outstanding = 4, hc_channels = 1, hc_pseudo_channels = 1,
     hc_bank_groups = 1, hc_banks_per_group = 2, hc_row = 16, hc_interleave = 8, hc_timing = True,
     hc_scheduler = ''fr_fcfs'', hc_max_issues = 0, hc_activate = 2, hc_precharge = 2, hc_row_active = 3, hc_column = 1,
     hc_row_to_row = 1, hc_window = 4, hc_read_to_write = 2, hc_write_to_read = 2, hc_refresh = True,
     hc_refresh_interval = 20, hc_refresh_duration = 2, hc_refresh_stagger = 1, hc_ecc = True, hc_correctable = 1,
     hc_event_depth = 8\<rparr>"

definition demo_hbm_start :: hbm_model where
  "demo_hbm_start = projr (hbm_new demo_hbm)"

lemma demo_hbm_new: "hbm_new demo_hbm = Inr demo_hbm_start"
  unfolding demo_hbm_start_def by (rule projr_ok) code_simp

definition demo_request :: "int \<Rightarrow> int \<Rightarrow> 8 word list option \<Rightarrow> int \<Rightarrow> hbm_request" where
  "demo_request address tag data qos = \<lparr>mq_partition = 0, mq_address = address, mq_length = 4, mq_tag = tag,
     mq_data = data, mq_enable = None, mq_qos = qos\<rparr>"

definition demo_hbm_calls :: "hbm_call list" where
  "demo_hbm_calls =
     [Submit (demo_request 8 1 (Some [1, 2, 3, 4]) 0), Submit (demo_request 16 2 None 0), Submit (demo_request 8 3 None 5),
      Inject 0 9 [1] True, Run_Idle 60]"

lemma demo_hbm_runs:
  "run hbm_step demo_hbm_start demo_hbm_calls =
     Inr (final hbm_step demo_hbm_start demo_hbm_calls, outputs hbm_step demo_hbm_start demo_hbm_calls)"
  by (rule run_final) code_simp

text \<open>C2: The HBM model behaves as a memory that executes the accepted requests one at a time in the order they were
  accepted, although banks, priorities, turnarounds and refresh reorder them: no call raises anything but its reply, there
  is a list of distinct accepted requests that the responses answer in order, every read without an uncorrectable error
  returns the bytes of the writes accepted before it, and when the model is idle every accepted request is answered.\<close>

theorem hbm_program_order:
  assumes "hbm_new c = Inr m0"
  shows "\<exists>m replies served. run hbm_step m0 calls = Inr (m, replies) \<and>
    (let acc = accepted_requests calls replies in
     distinct served \<and> set served \<subseteq> {1..int (length acc)} \<and>
     (hbm_idle m \<longrightarrow> set served = {1..int (length acc)}) \<and>
     list_all2 (answers acc) served (responses_given replies @ hb_responses m))"
  by (rule hbm_serves_in_order [OF assms])

theorem hbm_program_order_witness:
  "\<exists>served. set served = {1..3} \<and> length (hb_responses (final hbm_step demo_hbm_start demo_hbm_calls)) = 3 \<and>
     list_all2 (answers (accepted_requests demo_hbm_calls (outputs hbm_step demo_hbm_start demo_hbm_calls))) served
       (responses_given (outputs hbm_step demo_hbm_start demo_hbm_calls) @
        hb_responses (final hbm_step demo_hbm_start demo_hbm_calls))"
proof -
  have idle: "hbm_idle (final hbm_step demo_hbm_start demo_hbm_calls)" by code_simp
  have n: "length (accepted_requests demo_hbm_calls (outputs hbm_step demo_hbm_start demo_hbm_calls)) = 3" by code_simp
  have k: "length (hb_responses (final hbm_step demo_hbm_start demo_hbm_calls)) = 3" by code_simp
  show ?thesis using hbm_program_order [OF demo_hbm_new, of demo_hbm_calls] idle n k by (auto simp: demo_hbm_runs Let_def)
qed

text \<open>C14: The HBM model keeps its books: a partition's count of outstanding requests is the number that are queued or in
  flight there and never exceeds the configured limit, and the bytes it has issued never exceed the configured rate times
  the cycles that have passed.\<close>

theorem hbm_bandwidth_bounded:
  assumes "hbm_new c = Inr m0" and "run hbm_step m0 calls = Inr (m, replies)" and "p < length (hb_pending m)"
  shows "hb_outstanding m ! p = int (length (hb_pending m ! p) + length (filter (in_partition p) (hb_inflight m))) \<and>
    hb_outstanding m ! p \<le> hc_max_outstanding (hb_config m) \<and>
    issued_bytes (accepted_requests calls replies) m p \<le> hc_rate (hb_config m) * hb_cycle m"
  using hbm_stays_within_bounds [OF assms] by blast

theorem hbm_bandwidth_bounded_witness:
  "issued_bytes (accepted_requests demo_hbm_calls (outputs hbm_step demo_hbm_start demo_hbm_calls))
     (final hbm_step demo_hbm_start demo_hbm_calls) 0
   \<le> hc_rate (hb_config (final hbm_step demo_hbm_start demo_hbm_calls)) * hb_cycle (final hbm_step demo_hbm_start demo_hbm_calls)"
proof -
  have p: "0 < length (hb_pending (final hbm_step demo_hbm_start demo_hbm_calls))" by code_simp
  show ?thesis using hbm_bandwidth_bounded [OF demo_hbm_new demo_hbm_runs p] by blast
qed

text \<open>C31: A read returns the stored bytes exactly when no bit is flipped or every beat has at most the correctable number
  of flipped bits, and then reports OK or the number of corrected bits; otherwise it returns the flipped bytes as
  uncorrectable (or as a data error when the correction is off). It removes the transient faults under the read, and no other.\<close>

theorem hbm_ecc_exact:
  assumes "hbm_validate (hb_config m) = Inr ()" "validate_request (hb_config m) r = Inr ()"
    and "read_with_ecc m r = (m', data, status, corrected)"
  shows "data = (if status \<in> {HBM_OK, HBM_ECC_CORRECTED} then clean_bytes m r else observed_bytes m r) \<and>
    status = (if flip_total m r = 0 then HBM_OK else if correctable m r then HBM_ECC_CORRECTED
       else if hc_ecc (hb_config m) then HBM_ECC_UNCORRECTABLE else HBM_DATA_ERROR) \<and>
    corrected = (if status = HBM_ECC_CORRECTED then flip_total m r else 0) \<and>
    map_of (hb_faults m') key = (if touches key r \<and> transient_at m key then None else map_of (hb_faults m) key)"
  using read_with_ecc_exact [OF assms] by blast

definition demo_faulty :: hbm_model where
  "demo_faulty = fst (inject_bit_errors (fst (inject_bit_errors demo_hbm_start 0 9 [1] False)) 0 8 [0] True)"

theorem hbm_ecc_exact_witness:
  "fst (snd (snd (read_with_ecc demo_faulty (demo_request 8 1 None 0)))) = HBM_ECC_UNCORRECTABLE \<and>
   map_of (hb_faults (fst (read_with_ecc demo_faulty (demo_request 8 1 None 0)))) (0, 9) = None"
proof -
  obtain m' data status corrected where r: "read_with_ecc demo_faulty (demo_request 8 1 None 0) = (m', data, status, corrected)"
    by (metis prod_cases4)
  have v: "hbm_validate (hb_config demo_faulty) = Inr ()" "validate_request (hb_config demo_faulty) (demo_request 8 1 None 0) = Inr ()"
    by code_simp+
  have s: "fst (snd (snd (read_with_ecc demo_faulty (demo_request 8 1 None 0)))) = HBM_ECC_UNCORRECTABLE" by code_simp
  have t: "touches (0, 9) (demo_request 8 1 None 0)" "transient_at demo_faulty (0, 9)"
    by (code_simp, unfold transient_at_def, rule exI [of _ 2], code_simp)
  show ?thesis using hbm_ecc_exact [OF v r, of "(0, 9)"] s t by (simp add: r)
qed

text \<open>C37: The address interleaving loses nothing: the fields of a decoded address lie in the configured geometry and
  determine the address.\<close>

theorem hbm_address_round_trip:
  assumes "hbm_validate c = Inr ()" and "decode_address c p a = Inr d"
  shows "in_geometry c d \<and> address_of c d = a"
  using decode_geometry [OF assms] by blast

theorem hbm_address_round_trip_witness:
  "address_of demo_hbm (projr (decode_address demo_hbm 1 83)) = 83"
proof -
  have v: "hbm_validate demo_hbm = Inr ()" by code_simp
  have d: "decode_address demo_hbm 1 83 = Inr (projr (decode_address demo_hbm 1 83))" by (rule projr_ok) code_simp
  show ?thesis using hbm_address_round_trip [OF v d] by blast
qed

end
