(* ===== verification/Kd_Bits.thy ===== *)
theory Kd_Bits
  imports Bit_Packing
begin

section \<open>KDLink: bit fields and checksums\<close>

text \<open>
  \<open>collective_model/bitfields.py\<close> and \<open>collective_model/crc.py\<close>. Bytes are integers from 0 to 255, as Python has them.
  Fields put one after the other from the bottom up give the word \<open>pack\<close> describes, so both ways of writing a field
  (\<open>put_bits\<close>, which clears the place first, and \<open>_put\<close>, which does not) are read back by the lemmas of \<open>Bit_Packing\<close>.
\<close>

definition get_bits :: "int \<Rightarrow> nat \<Rightarrow> nat \<Rightarrow> int" where
  "get_bits w lsb width = drop_bit lsb w AND (2 ^ width - 1)"

definition put_bits :: "int \<Rightarrow> int \<Rightarrow> nat \<Rightarrow> nat \<Rightarrow> py_error + int" where
  "put_bits w field lsb width =
     (let place = push_bit lsb (2 ^ width - 1) in
      rbind (ensure (\<not> (field < 0 \<or> 2 ^ width \<le> field))) (\<lambda>_. Inr ((w AND NOT place) OR push_bit lsb field)))"

definition int_to_le_bytes :: "int \<Rightarrow> nat \<Rightarrow> py_error + int list" where
  "int_to_le_bytes w width =
     rbind (ensure (width mod 8 = 0)) (\<lambda>_.
       if w < 0 \<or> 2 ^ width \<le> w then Inl OverflowError else Inr (map (\<lambda>i. fld w (8 * i) 8) [0..<width div 8]))"

fun le_bytes_to_int :: "int list \<Rightarrow> int" where
  "le_bytes_to_int [] = 0"
| "le_bytes_to_int (b # bs) = b + 256 * le_bytes_to_int bs"

definition crc32_turn :: "int \<Rightarrow> int" where
  "crc32_turn crc = drop_bit 1 crc XOR (if odd crc then 0xEDB88320 else 0)"

definition crc32_iso_hdlc :: "int list \<Rightarrow> int" where
  "crc32_iso_hdlc data = foldl (\<lambda>crc b. (crc32_turn ^^ 8) (crc XOR b)) 0xFFFFFFFF data XOR 0xFFFFFFFF"

definition crc16_turn :: "int \<Rightarrow> int" where
  "crc16_turn crc =
     (if crc AND 0x8000 \<noteq> 0 then (push_bit 1 crc XOR 0x1021) AND 0xFFFF else push_bit 1 crc AND 0xFFFF)"

definition crc16_ccitt_false :: "int list \<Rightarrow> int" where
  "crc16_ccitt_false data = foldl (\<lambda>crc b. (crc16_turn ^^ 8) (crc XOR push_bit 8 b)) 0xFFFF data"

definition route_put :: "int \<Rightarrow> int \<Rightarrow> nat \<Rightarrow> nat \<Rightarrow> py_error + int" where
  "route_put w field lsb width = rbind (ensure (0 \<le> field \<and> field < 2 ^ width)) (\<lambda>_. Inr (w OR push_bit lsb field))"

definition route_get :: "int \<Rightarrow> nat \<Rightarrow> nat \<Rightarrow> int" where
  "route_get w lsb width = drop_bit lsb w AND (2 ^ width - 1)"

subsection \<open>Fields written from the bottom up\<close>

text \<open>
  An encoder puts the fields of a layout into a word that starts at zero, a decoder gets them. What the decoder needs of
  the encoder's \<open>put\<close> is the locale \<open>field_writer\<close>; the two \<open>put\<close> functions of the code interpret it.
\<close>

definition write_layout ::
  "(int \<Rightarrow> int \<Rightarrow> nat \<Rightarrow> nat \<Rightarrow> py_error + int) \<Rightarrow> (nat \<times> nat) list \<Rightarrow> int list \<Rightarrow> py_error + int" where
  "write_layout put layout vs = rfold (\<lambda>w ((lsb, width), field). put w field lsb width) 0 (zip layout vs)"

definition read_layout :: "(nat \<times> nat) list \<Rightarrow> int \<Rightarrow> int list" where
  "read_layout layout w = map (\<lambda>(lsb, width). get_bits w lsb width) layout"

fun stacked :: "nat \<Rightarrow> (nat \<times> nat) list \<Rightarrow> bool" where
  "stacked lo [] \<longleftrightarrow> True"
| "stacked lo ((k, n) # layout) \<longleftrightarrow> k = lo \<and> stacked (k + n) layout"

definition layout_width :: "(nat \<times> nat) list \<Rightarrow> nat" where
  "layout_width layout = sum_list (map snd layout)"

definition values_fit :: "(nat \<times> nat) list \<Rightarrow> int list \<Rightarrow> bool" where
  "values_fit layout vs \<longleftrightarrow> list_all2 (\<lambda>(k, n) v. fits n v) layout vs"

lemma get_bits_fld: "get_bits w k n = fld w k n"
  using take_bit_eq_mask [of n "drop_bit k w"] by (simp add: get_bits_def fld_def mask_eq_exp_minus_1)

lemma route_get_bits: "route_get w k n = get_bits w k n"
  by (simp add: route_get_def get_bits_def)

lemma values_fit_length: "values_fit layout vs \<Longrightarrow> length vs = length layout"
  by (simp add: values_fit_def list_all2_lengthD)

lemma values_fit_Cons [simp]: "values_fit ((k, n) # layout) (v # vs) \<longleftrightarrow> fits n v \<and> values_fit layout vs"
  by (simp add: values_fit_def)

lemma values_fit_Nil [simp]: "values_fit [] vs \<longleftrightarrow> vs = []"
  by (simp add: values_fit_def)

lemma read_fits: "values_fit layout (read_layout layout w)"
  by (induction layout) (auto simp: read_layout_def get_bits_fld values_fit_def)

locale field_writer =
  fixes put :: "int \<Rightarrow> int \<Rightarrow> nat \<Rightarrow> nat \<Rightarrow> py_error + int"
  assumes put_above: "fits k w \<Longrightarrow> k \<le> lsb \<Longrightarrow> fits width field \<Longrightarrow> put w field lsb width = Inr (push_bit lsb field OR w)"
    and put_reject: "\<not> fits width field \<Longrightarrow> put w field lsb width = Inl ValueError"
begin

lemma write_from:
  assumes "stacked lo layout" "values_fit layout vs" "fits lo w"
  shows "\<exists>x. rfold (\<lambda>w ((lsb, width), field). put w field lsb width) w (zip layout vs) = Inr x \<and>
    fits (lo + layout_width layout) x \<and> read_layout layout x = vs \<and> (\<forall>k n. k + n \<le> lo \<longrightarrow> fld x k n = fld w k n)"
  using assms
proof (induction lo layout arbitrary: vs w rule: stacked.induct)
  case (1 lo)
  then show ?case by (auto simp: read_layout_def layout_width_def)
next
  case (2 lo k n layout)
  then obtain v vs' where v: "vs = v # vs'" "fits n v" "values_fit layout vs'"
    by (cases vs) (auto simp: values_fit_def)
  let ?w = "push_bit lo v OR w"
  have lo: "k = lo" "stacked (lo + n) layout" using 2(2) by auto
  have w: "fits (lo + n) ?w" using v(2) 2(4) by (intro fits_or) (auto intro: fits_push fits_mono)
  obtain x where x: "rfold (\<lambda>w ((lsb, width), field). put w field lsb width) ?w (zip layout vs') = Inr x"
    "fits (lo + n + layout_width layout) x" "read_layout layout x = vs'"
    "\<And>k' n'. k' + n' \<le> lo + n \<Longrightarrow> fld x k' n' = fld ?w k' n'"
    using 2(1) [OF _ v(3)] lo w by auto
  have here: "fld x lo n = v" using x(4) [of lo n] v(2) 2(4) by (simp add: fld_or fld_hit fld_below_base [of lo])
  have below: "fld x k' n' = fld w k' n'" if "k' + n' \<le> lo" for k' n'
    using x(4) [of k' n'] that v(2) by (simp add: fld_or fld_above)
  show ?case
    using x lo put_above [OF 2(4) order_refl v(2)] here below v(1)
    by (intro exI [of _ x]) (simp add: read_layout_def get_bits_fld layout_width_def add.assoc)
qed

lemma write_read:
  assumes "stacked 0 layout" "values_fit layout vs"
  shows "\<exists>w. write_layout put layout vs = Inr w \<and> fits (layout_width layout) w \<and> read_layout layout w = vs"
  using write_from [OF assms, of 0] by (auto simp: write_layout_def)

lemma reject_from:
  assumes "length vs = length layout" "\<not> values_fit layout vs" "stacked lo layout" "fits lo w"
  shows "rfold (\<lambda>w ((lsb, width), field). put w field lsb width) w (zip layout vs) = Inl ValueError"
  using assms
proof (induction lo layout arbitrary: vs w rule: stacked.induct)
  case (2 lo k n layout)
  then obtain v vs' where v: "vs = v # vs'" by (cases vs) auto
  show ?case
  proof (cases "fits n v")
    case True
    have "fits (lo + n) (push_bit lo v OR w)" using True 2(5) by (intro fits_or) (auto intro: fits_push fits_mono)
    with 2 v True put_above [OF 2(5) order_refl True] show ?thesis by auto
  next
    case False
    with v put_reject show ?thesis by simp
  qed
qed (simp add: values_fit_def)

lemma write_reject:
  "stacked 0 layout \<Longrightarrow> length vs = length layout \<Longrightarrow> \<not> values_fit layout vs \<Longrightarrow> write_layout put layout vs = Inl ValueError"
  unfolding write_layout_def by (rule reject_from) simp_all

end

lemma read_layout_bits:
  "stacked lo layout \<Longrightarrow> read_layout layout w = read_layout layout w' \<Longrightarrow> lo \<le> i \<Longrightarrow> i < lo + layout_width layout \<Longrightarrow>
     bit w i = bit w' i"
proof (induction lo layout rule: stacked.induct)
  case (2 lo k n layout)
  show ?case
  proof (cases "i < lo + n")
    case True
    have "fld w lo n = fld w' lo n" using 2(2,3) by (simp add: read_layout_def get_bits_fld)
    then have "bit (fld w lo n) (i - lo) = bit (fld w' lo n) (i - lo)" by simp
    moreover have "i - lo < n" using True 2(4) by arith
    ultimately show ?thesis using 2(4) by (simp add: bit_fld)
  next
    case False
    with 2 show ?thesis by (auto simp: read_layout_def layout_width_def)
  qed
qed (simp add: layout_width_def)

lemma read_layout_inj:
  assumes "stacked 0 layout" "read_layout layout w = read_layout layout w'"
    and "fits (layout_width layout) w" "fits (layout_width layout) w'"
  shows "w = w'"
proof (rule bit_eqI)
  fix i
  show "bit w i = bit w' i"
  proof (cases "i < layout_width layout")
    case True
    with assms(1,2) show ?thesis by (intro read_layout_bits [of 0 layout]) auto
  next
    case False
    with fits_bit [OF assms(3), of i] fits_bit [OF assms(4), of i] show ?thesis by simp
  qed
qed

context field_writer
begin

lemma read_write:
  assumes "stacked 0 layout" "fits (layout_width layout) w"
  shows "write_layout put layout (read_layout layout w) = Inr w"
  using write_read [OF assms(1) read_fits, of w] read_layout_inj [OF assms(1) _ _ assms(2)] by auto

end

lemma put_bits_above:
  assumes "fits k w" "k \<le> lsb" "fits width field"
  shows "put_bits w field lsb width = Inr (push_bit lsb field OR w)"
proof -
  have "w AND NOT (push_bit lsb (2 ^ width - 1)) = w"
  proof (rule bit_eqI)
    fix i
    show "bit (w AND NOT (push_bit lsb (2 ^ width - 1))) i \<longleftrightarrow> bit w i"
      using fits_bit [OF assms(1), of i] assms(2) by (cases "i < lsb") (auto simp: bit_simps)
  qed
  with assms(3) show ?thesis by (simp add: put_bits_def Let_def fits_def or.commute)
qed

interpretation put_bits: field_writer put_bits
  by unfold_locales (auto simp: put_bits_above, auto simp: put_bits_def Let_def fits_def)

interpretation route_put: field_writer route_put
  by unfold_locales (auto simp: route_put_def fits_def or.commute)

subsection \<open>Bytes\<close>

definition byte_ok :: "int \<Rightarrow> bool" where
  "byte_ok b \<longleftrightarrow> fits 8 b"

lemma byte_step: "fits 8 b \<Longrightarrow> b + 256 * w = b OR push_bit 8 w"
  by (simp only: or_add_disjoint) (simp add: push_bit_eq_mult)

lemma le_bytes_append: "le_bytes_to_int (xs @ ys) = le_bytes_to_int xs + 2 ^ (8 * length xs) * le_bytes_to_int ys"
  by (induction xs) (simp_all add: algebra_simps power_add)

lemma le_bytes_fits: "list_all byte_ok bs \<Longrightarrow> fits (8 * length bs) (le_bytes_to_int bs)"
proof (induction bs)
  case (Cons b bs)
  then have "fits 8 b" "fits (8 * length bs) (le_bytes_to_int bs)" by (simp_all add: byte_ok_def)
  moreover have "le_bytes_to_int (b # bs) = b OR push_bit 8 (le_bytes_to_int bs)"
    using \<open>fits 8 b\<close> by (simp add: byte_step)
  ultimately show ?case by (simp only:) (intro fits_or, auto intro: fits_mono fits_push)
qed simp

lemma le_bytes_fld:
  "list_all byte_ok bs \<Longrightarrow> map (\<lambda>i. fld (le_bytes_to_int bs) (8 * i) 8) [0..<length bs] = bs"
proof (induction bs)
  case (Cons b bs)
  then have b: "fits 8 b" by (simp add: byte_ok_def)
  then have w: "le_bytes_to_int (b # bs) = b OR push_bit 8 (le_bytes_to_int bs)"
    by (simp add: byte_step)
  have first: "fld (le_bytes_to_int (b # bs)) 0 8 = b"
    using b unfolding w by (simp add: fld_or fld_hit_base fld_above)
  have rest: "fld (le_bytes_to_int (b # bs)) (8 * Suc i) 8 = fld (le_bytes_to_int bs) (8 * i) 8" for i
  proof -
    have "fld (push_bit 8 (le_bytes_to_int bs)) (8 * Suc i) 8 = fld (le_bytes_to_int bs) (8 * i) 8"
      by (rule bit_eqI) (auto simp: bit_fld bit_simps)
    then show ?thesis using b unfolding w by (simp add: fld_or fld_below_base)
  qed
  have "map (\<lambda>i. fld (le_bytes_to_int (b # bs)) (8 * i) 8) [0..<length (b # bs)] =
      fld (le_bytes_to_int (b # bs)) 0 8 # map (\<lambda>i. fld (le_bytes_to_int (b # bs)) (8 * Suc i) 8) [0..<length bs]"
    by (simp add: map_upt_Suc del: upt_Suc le_bytes_to_int.simps)
  then show ?case using Cons by (simp only: first rest) simp
qed simp

lemma le_bytes_of_fld: "fits (8 * n) w \<Longrightarrow> le_bytes_to_int (map (\<lambda>i. fld w (8 * i) 8) [0..<n]) = w"
proof (induction n arbitrary: w)
  case 0
  then show ?case by (simp add: fits_def)
next
  case (Suc n)
  have d: "fits (8 * n) (drop_bit 8 w)" using Suc.prems by (intro fits_drop) auto
  have f: "fld w (8 * Suc i) 8 = fld (drop_bit 8 w) (8 * i) 8" for i
    by (rule bit_eqI) (auto simp: bit_fld bit_simps ac_simps)
  have "map (\<lambda>i. fld w (8 * i) 8) [0..<Suc n] = fld w 0 8 # map (\<lambda>i. fld (drop_bit 8 w) (8 * i) 8) [0..<n]"
    by (simp add: map_upt_Suc f [symmetric] del: upt_Suc)
  then have "le_bytes_to_int (map (\<lambda>i. fld w (8 * i) 8) [0..<Suc n]) = fld w 0 8 + 256 * drop_bit 8 w"
    using Suc.IH [OF d] by (simp del: upt_Suc)
  also have "\<dots> = w" by (simp add: fld_def take_bit_eq_mod drop_bit_eq_div)
  finally show ?case .
qed

lemma crc32_turn_fits: "fits 32 c \<Longrightarrow> fits 32 (crc32_turn c)"
proof -
  assume "fits 32 c"
  then have "fits 31 (drop_bit 1 c)" by (intro fits_drop) auto
  then have "fits 32 (drop_bit 1 c)" by (rule fits_mono) simp
  then show ?thesis unfolding crc32_turn_def by (intro fits_xor) (auto simp: fits_def)
qed

lemma crc32_fits:
  assumes "list_all byte_ok data"
  shows "fits 32 (crc32_iso_hdlc data)"
proof -
  have turns: "fits 32 c \<Longrightarrow> fits 32 ((crc32_turn ^^ k) c)" for c k
    by (induction k) (simp_all add: crc32_turn_fits)
  have "fits 32 (foldl (\<lambda>crc b. (crc32_turn ^^ 8) (crc XOR b)) c data)" if "fits 32 c" for c
    using that assms
  proof (induction data arbitrary: c)
    case (Cons b data)
    then have "fits 32 (c XOR b)" by (intro fits_xor) (auto simp: byte_ok_def intro: fits_mono)
    with Cons turns show ?case by simp
  qed simp
  then show ?thesis unfolding crc32_iso_hdlc_def by (intro fits_xor) (simp_all add: fits_def)
qed

lemma crc16_fits: "fits 16 (crc16_ccitt_false data)"
proof -
  have one: "fits 16 (crc16_turn c)" for c
  proof -
    have "fits 16 (x AND 0xFFFF)" for x
      using fits_take_bit [of 16 x] by (simp add: take_bit_eq_mask mask_numeral)
    then show ?thesis by (simp add: crc16_turn_def)
  qed
  have "fits 16 ((crc16_turn ^^ 8) c)" for c
    using one by (simp add: numeral_eq_Suc)
  then have "fits 16 c \<Longrightarrow> fits 16 (foldl (\<lambda>crc b. (crc16_turn ^^ 8) (crc XOR push_bit 8 b)) c data)" for c
    by (induction data arbitrary: c) auto
  then show ?thesis by (simp add: crc16_ccitt_false_def fits_def)
qed

end
