(* ===== verification/Kd_Protocol.thy ===== *)
theory Kd_Protocol
  imports Kd_Bits
begin

section \<open>KDLink flits and reverse words\<close>

text \<open>
  \<open>kdlink_model/protocol.py\<close>, with the field positions of \<open>constants.py\<close>: the 128-bit header, the 640-bit flit with its
  checksum, the hop to the next link, the reverse word, and the checks of a received header. A flit whose payload is not
  64 bytes, or whose header announces more, cannot be built.
\<close>

record kd_header =
  kh_version :: int
  kh_message_type :: int
  kh_opcode :: int
  kh_dtype :: int
  kh_vc :: int
  kh_phase :: int
  kh_sop :: int
  kh_eop :: int
  kh_retry :: int
  kh_src_node :: int
  kh_dst_node :: int
  kh_plane_id :: int
  kh_hop_limit :: int
  kh_link_epoch :: int
  kh_collective_id :: int
  kh_chunk_id :: int
  kh_packet_seq :: int
  kh_flit_seq :: int
  kh_payload_bytes :: int
  kh_reserved :: int
  kh_crc32 :: int

definition kd_header_layout :: "(nat \<times> nat) list" where
  "kd_header_layout =
     [(0, 4), (4, 4), (8, 3), (11, 2), (13, 3), (16, 1), (17, 1), (18, 1), (19, 1), (20, 5), (25, 5), (30, 3),
      (33, 5), (38, 8), (46, 12), (58, 12), (70, 12), (82, 6), (88, 7), (95, 1), (96, 32)]"

definition kd_header_values :: "kd_header \<Rightarrow> int list" where
  "kd_header_values x =
     [kh_version x, kh_message_type x, kh_opcode x, kh_dtype x, kh_vc x, kh_phase x, kh_sop x, kh_eop x,
      kh_retry x, kh_src_node x, kh_dst_node x, kh_plane_id x, kh_hop_limit x, kh_link_epoch x,
      kh_collective_id x, kh_chunk_id x, kh_packet_seq x, kh_flit_seq x, kh_payload_bytes x, kh_reserved x,
      kh_crc32 x]"

definition kd_header_of :: "int list \<Rightarrow> kd_header" where
  "kd_header_of vs = \<lparr>kh_version = vs ! 0, kh_message_type = vs ! 1, kh_opcode = vs ! 2, kh_dtype = vs ! 3, kh_vc = vs ! 4,
      kh_phase = vs ! 5, kh_sop = vs ! 6, kh_eop = vs ! 7, kh_retry = vs ! 8, kh_src_node = vs ! 9,
      kh_dst_node = vs ! 10, kh_plane_id = vs ! 11, kh_hop_limit = vs ! 12, kh_link_epoch = vs ! 13,
      kh_collective_id = vs ! 14, kh_chunk_id = vs ! 15, kh_packet_seq = vs ! 16, kh_flit_seq = vs ! 17,
      kh_payload_bytes = vs ! 18, kh_reserved = vs ! 19, kh_crc32 = vs ! 20\<rparr>"

definition kd_header_encode :: "kd_header \<Rightarrow> py_error + int" where
  "kd_header_encode h = write_layout put_bits kd_header_layout (kd_header_values h)"

definition kd_header_decode :: "int \<Rightarrow> kd_header" where
  "kd_header_decode w = kd_header_of (read_layout kd_header_layout w)"

record kd_flit =
  kf_header :: kd_header
  kf_payload :: "int list"

definition kd_flit_new :: "kd_header \<Rightarrow> int list \<Rightarrow> py_error + kd_flit" where
  "kd_flit_new h payload =
     rbind (ensure (length payload = 64)) (\<lambda>_.
     rbind (ensure (kh_payload_bytes h \<le> 64)) (\<lambda>_. Inr \<lparr>kf_header = h, kf_payload = payload\<rparr>))"

definition kd_crc_input :: "kd_flit \<Rightarrow> py_error + int list" where
  "kd_crc_input f =
     rbind (kd_header_encode ((kf_header f)\<lparr>kh_crc32 := 0\<rparr>)) (\<lambda>w.
     rbind (int_to_le_bytes (w AND (2 ^ 96 - 1)) 96) (\<lambda>bs.
       Inr (bs @ take (nat (kh_payload_bytes (kf_header f))) (kf_payload f))))"

definition kd_with_crc :: "kd_flit \<Rightarrow> py_error + kd_flit" where
  "kd_with_crc f =
     rbind (kd_crc_input f) (\<lambda>bs. kd_flit_new ((kf_header f)\<lparr>kh_crc32 := crc32_iso_hdlc bs\<rparr>) (kf_payload f))"

definition kd_crc_ok :: "kd_flit \<Rightarrow> py_error + bool" where
  "kd_crc_ok f = rbind (kd_crc_input f) (\<lambda>bs. Inr (kh_crc32 (kf_header f) = crc32_iso_hdlc bs))"

definition kd_flit_encode :: "kd_flit \<Rightarrow> py_error + int" where
  "kd_flit_encode f =
     rbind (kd_header_encode (kf_header f)) (\<lambda>w. Inr (push_bit 512 w OR le_bytes_to_int (kf_payload f)))"

definition kd_flit_decode :: "int \<Rightarrow> py_error + kd_flit" where
  "kd_flit_decode w =
     rbind (int_to_le_bytes (w AND (2 ^ 512 - 1)) 512) (\<lambda>payload. kd_flit_new (kd_header_decode (drop_bit 512 w)) payload)"

definition kd_next_hop :: "kd_flit \<Rightarrow> int \<Rightarrow> py_error + kd_flit" where
  "kd_next_hop f link_epoch =
     (let h = kf_header f in
      if kh_hop_limit h = 0 then Inl RuntimeError
      else rbind (kd_flit_new (h\<lparr>kh_hop_limit := kh_hop_limit h - 1, kh_link_epoch := link_epoch, kh_crc32 := 0\<rparr>)
             (kf_payload f)) kd_with_crc)"

record kd_reverse =
  kr_version :: int
  kr_message_type :: int
  kr_vc :: int
  kr_plane_id :: int
  kr_slice_id :: int
  kr_phase :: int
  kr_link_epoch :: int
  kr_src_node :: int
  kr_dst_node :: int
  kr_collective_id :: int
  kr_packet_seq :: int
  kr_credit_delta :: int
  kr_credit_total :: int
  kr_ack_bitmap :: int
  kr_status :: int
  kr_reserved :: int
  kr_crc16 :: int

definition kd_reverse_layout :: "(nat \<times> nat) list" where
  "kd_reverse_layout =
     [(0, 4), (4, 4), (8, 3), (11, 3), (14, 1), (15, 1), (16, 8), (24, 5), (29, 5), (34, 12), (46, 12), (58, 8),
      (66, 16), (82, 16), (98, 8), (106, 6), (112, 16)]"

definition kd_reverse_values :: "kd_reverse \<Rightarrow> int list" where
  "kd_reverse_values x =
     [kr_version x, kr_message_type x, kr_vc x, kr_plane_id x, kr_slice_id x, kr_phase x, kr_link_epoch x,
      kr_src_node x, kr_dst_node x, kr_collective_id x, kr_packet_seq x, kr_credit_delta x, kr_credit_total x,
      kr_ack_bitmap x, kr_status x, kr_reserved x, kr_crc16 x]"

definition kd_reverse_of :: "int list \<Rightarrow> kd_reverse" where
  "kd_reverse_of vs = \<lparr>kr_version = vs ! 0, kr_message_type = vs ! 1, kr_vc = vs ! 2, kr_plane_id = vs ! 3, kr_slice_id = vs ! 4,
      kr_phase = vs ! 5, kr_link_epoch = vs ! 6, kr_src_node = vs ! 7, kr_dst_node = vs ! 8,
      kr_collective_id = vs ! 9, kr_packet_seq = vs ! 10, kr_credit_delta = vs ! 11, kr_credit_total = vs ! 12,
      kr_ack_bitmap = vs ! 13, kr_status = vs ! 14, kr_reserved = vs ! 15, kr_crc16 = vs ! 16\<rparr>"

definition kd_reverse_encode :: "kd_reverse \<Rightarrow> py_error + int" where
  "kd_reverse_encode x = write_layout put_bits kd_reverse_layout (kd_reverse_values x)"

definition kd_reverse_decode :: "int \<Rightarrow> kd_reverse" where
  "kd_reverse_decode w = kd_reverse_of (read_layout kd_reverse_layout w)"

definition kd_reverse_raw :: "kd_reverse \<Rightarrow> py_error + int list" where
  "kd_reverse_raw x =
     rbind (kd_reverse_encode (x\<lparr>kr_crc16 := 0\<rparr>)) (\<lambda>w. int_to_le_bytes (w AND (2 ^ 112 - 1)) 112)"

definition kd_reverse_with_crc :: "kd_reverse \<Rightarrow> py_error + kd_reverse" where
  "kd_reverse_with_crc x = rbind (kd_reverse_raw x) (\<lambda>bs. Inr (x\<lparr>kr_crc16 := crc16_ccitt_false bs\<rparr>))"

definition kd_reverse_crc_ok :: "kd_reverse \<Rightarrow> py_error + bool" where
  "kd_reverse_crc_ok x = rbind (kd_reverse_raw x) (\<lambda>bs. Inr (kr_crc16 x = crc16_ccitt_false bs))"

definition kd_validate_header :: "kd_header \<Rightarrow> int option \<Rightarrow> string list" where
  "kd_validate_header h local_node =
     (if kh_version h \<noteq> 2 then [''version''] else []) @
     (if 7 < kh_message_type h then [''message_type''] else []) @
     (if 5 < kh_opcode h then [''opcode''] else []) @
     (if 32 \<le> kh_src_node h \<or> 32 \<le> kh_dst_node h then [''node''] else []) @
     (if 8 \<le> kh_plane_id h then [''plane''] else []) @
     (if 8 \<le> kh_vc h then [''vc''] else []) @
     (if 64 < kh_payload_bytes h then [''payload_bytes''] else []) @
     (if kh_reserved h \<noteq> 0 then [''reserved''] else []) @
     (if local_node \<noteq> None \<and> Some (kh_dst_node h) \<noteq> local_node then [''destination''] else []) @
     (if kh_hop_limit h = 0 \<and> (local_node = None \<or> Some (kh_dst_node h) \<noteq> local_node) then [''hop_limit''] else []) @
     (if kh_message_type h = 0 \<and> kh_flit_seq h = 0 \<and> kh_sop h = 0 then [''sop''] else [])"

subsection \<open>Headers and reverse words are codecs\<close>

lemma header_stacked: "stacked 0 kd_header_layout" "layout_width kd_header_layout = 128" "length kd_header_layout = 21"
  by (simp_all add: kd_header_layout_def layout_width_def)

lemma reverse_stacked: "stacked 0 kd_reverse_layout" "layout_width kd_reverse_layout = 128" "length kd_reverse_layout = 17"
  by (simp_all add: kd_reverse_layout_def layout_width_def)

lemma header_of_values: "kd_header_of (kd_header_values h) = h"
  by (simp add: kd_header_of_def kd_header_values_def)

lemma reverse_of_values: "kd_reverse_of (kd_reverse_values x) = x"
  by (simp add: kd_reverse_of_def kd_reverse_values_def)

lemma list_of_nths: "length vs = n \<Longrightarrow> map ((!) vs) [0..<n] = vs"
  using map_nth [of vs] by simp

lemma header_values_of:
  assumes "length vs = 21"
  shows "kd_header_values (kd_header_of vs) = vs"
proof -
  have "[0..<21] = [0, 1, 2, 3, 4, 5, 6, 7, 8, 9, 10, 11, 12, 13, 14, 15, 16, 17, 18, 19, 20]" by (simp add: upt_rec)
  with list_of_nths [OF assms] show ?thesis by (simp add: kd_header_of_def kd_header_values_def)
qed

lemma reverse_values_of:
  assumes "length vs = 17"
  shows "kd_reverse_values (kd_reverse_of vs) = vs"
proof -
  have "[0..<17] = [0, 1, 2, 3, 4, 5, 6, 7, 8, 9, 10, 11, 12, 13, 14, 15, 16]" by (simp add: upt_rec)
  with list_of_nths [OF assms] show ?thesis by (simp add: kd_reverse_of_def kd_reverse_values_def)
qed

definition kd_header_legal :: "kd_header \<Rightarrow> bool" where
  "kd_header_legal h \<longleftrightarrow> values_fit kd_header_layout (kd_header_values h)"

definition kd_reverse_legal :: "kd_reverse \<Rightarrow> bool" where
  "kd_reverse_legal x \<longleftrightarrow> values_fit kd_reverse_layout (kd_reverse_values x)"

lemma header_write:
  assumes "kd_header_legal h"
  shows "\<exists>w. kd_header_encode h = Inr w \<and> fits 128 w \<and> kd_header_decode w = h"
  using put_bits.write_read [OF header_stacked(1) assms [unfolded kd_header_legal_def]]
  by (auto simp: kd_header_encode_def kd_header_decode_def header_stacked header_of_values)

lemma header_values_decode: "kd_header_values (kd_header_decode w) = read_layout kd_header_layout w"
  unfolding kd_header_decode_def by (rule header_values_of) (simp add: read_layout_def header_stacked)

lemma header_read:
  assumes "fits 128 w"
  shows "kd_header_encode (kd_header_decode w) = Inr w"
  using put_bits.read_write [OF header_stacked(1), of w] assms
  by (simp add: kd_header_encode_def header_values_decode header_stacked)

lemma header_decode_legal: "kd_header_legal (kd_header_decode w)"
  by (simp add: kd_header_legal_def header_values_decode read_fits)

lemma header_values_length: "length (kd_header_values h) = 21"
  by (simp add: kd_header_values_def)

lemma header_reject: "\<not> kd_header_legal h \<Longrightarrow> kd_header_encode h = Inl ValueError"
  unfolding kd_header_encode_def kd_header_legal_def
  by (rule put_bits.write_reject [OF header_stacked(1)]) (simp_all add: header_stacked header_values_length)

lemma reverse_write:
  assumes "kd_reverse_legal x"
  shows "\<exists>w. kd_reverse_encode x = Inr w \<and> fits 128 w \<and> kd_reverse_decode w = x"
  using put_bits.write_read [OF reverse_stacked(1) assms [unfolded kd_reverse_legal_def]]
  by (auto simp: kd_reverse_encode_def kd_reverse_decode_def reverse_stacked reverse_of_values)

interpretation kd_header: codec kd_header_encode "\<lambda>w. Inr (kd_header_decode w)" kd_header_legal
  by unfold_locales (use header_write in fastforce)+

interpretation kd_reverse: codec kd_reverse_encode "\<lambda>w. Inr (kd_reverse_decode w)" kd_reverse_legal
  by unfold_locales (use reverse_write in fastforce)+

subsection \<open>Flits\<close>

definition kd_flit_legal :: "kd_flit \<Rightarrow> bool" where
  "kd_flit_legal f \<longleftrightarrow> kd_header_legal (kf_header f) \<and> kh_payload_bytes (kf_header f) \<le> 64 \<and>
     length (kf_payload f) = 64 \<and> list_all byte_ok (kf_payload f)"

lemma and_mask: "w AND (2 ^ n - 1) = take_bit n (w :: int)"
  using take_bit_eq_mask [of n w] by (simp add: mask_eq_exp_minus_1)

lemma to_bytes_masked: "n mod 8 = 0 \<Longrightarrow> int_to_le_bytes (w AND (2 ^ n - 1)) n = Inr (map (\<lambda>i. fld (take_bit n w) (8 * i) 8) [0..<n div 8])"
  using fits_take_bit [of n w] by (simp add: int_to_le_bytes_def and_mask fits_def not_le)

lemma header_legal_set:
  "kd_header_legal h \<Longrightarrow> fits 32 c \<Longrightarrow> kd_header_legal (h\<lparr>kh_crc32 := c\<rparr>)"
  "kd_header_legal h \<Longrightarrow> fits 5 k \<Longrightarrow> fits 8 e \<Longrightarrow> fits 32 c \<Longrightarrow>
     kd_header_legal (h\<lparr>kh_hop_limit := k, kh_link_epoch := e, kh_crc32 := c\<rparr>)"
  by (simp_all add: kd_header_legal_def kd_header_values_def kd_header_layout_def)

lemma header_legalD:
  assumes "kd_header_legal h"
  shows "fits 5 (kh_hop_limit h)" "fits 7 (kh_payload_bytes h)" "fits 32 (kh_crc32 h)"
  using assms by (simp_all add: kd_header_legal_def kd_header_values_def kd_header_layout_def)

lemma flit_write:
  assumes "kd_flit_legal f"
  shows "\<exists>w. kd_flit_encode f = Inr w \<and> fits 640 w \<and> kd_flit_decode w = Inr f"
proof -
  obtain h p where f: "f = \<lparr>kf_header = h, kf_payload = p\<rparr>" by (cases f) simp
  have h: "kd_header_legal h" "kh_payload_bytes h \<le> 64" and p: "length p = 64" "list_all byte_ok p"
    using assms by (simp_all add: kd_flit_legal_def f)
  obtain x where x: "kd_header_encode h = Inr x" "fits 128 x" "kd_header_decode x = h" using header_write [OF h(1)] by blast
  let ?p = "le_bytes_to_int p"
  have fp: "fits 512 ?p" using le_bytes_fits [OF p(2)] p(1) by simp
  let ?w = "push_bit 512 x OR ?p"
  have "fits 640 ?w" using x(2) fp by (intro fits_or) (auto intro: fits_push [where m = 128] fits_mono)
  moreover have "drop_bit 512 ?w = x"
    using fits_bit [OF fp] by (intro bit_eqI) (auto simp: bit_simps)
  moreover have "take_bit 512 ?w = ?p"
    using fp by (simp add: take_bit_push_bit fits_def take_bit_int_eq_self)
  moreover have "int_to_le_bytes (?w AND (2 ^ 512 - 1)) 512 = Inr p"
    using to_bytes_masked [of 512 ?w] le_bytes_fld [OF p(2)] p(1) \<open>take_bit 512 ?w = ?p\<close> by simp
  ultimately show ?thesis
    using x h p(1) unfolding f kd_flit_encode_def kd_flit_decode_def by (auto simp: kd_flit_new_def)
qed

interpretation kd_flit: codec kd_flit_encode kd_flit_decode kd_flit_legal
  by unfold_locales (use flit_write in fastforce)+

text \<open>The other way round: a word that decodes is the encoding of what it decodes to.\<close>

lemma flit_read:
  assumes w: "fits 640 w" and d: "kd_flit_decode w = Inr f"
  shows "kd_flit_encode f = Inr w \<and> kd_flit_legal f"
proof -
  have x: "fits 128 (drop_bit 512 w)" using w by (intro fits_drop) auto
  let ?p = "map (\<lambda>i. fld (take_bit 512 w) (8 * i) 8) [0..<64]"
  have b: "int_to_le_bytes (w AND (2 ^ 512 - 1)) 512 = Inr ?p" using to_bytes_masked [of 512 w] by simp
  have p: "le_bytes_to_int ?p = take_bit 512 w" using le_bytes_of_fld [of 64 "take_bit 512 w"] fits_take_bit by simp
  have f: "kf_header f = kd_header_decode (drop_bit 512 w)" "kf_payload f = ?p" "kh_payload_bytes (kf_header f) \<le> 64"
    using d b unfolding kd_flit_decode_def by (auto simp: kd_flit_new_def)
  have "push_bit 512 (drop_bit 512 w) OR take_bit 512 w = w"
    by (rule bit_eqI) (auto simp: bit_simps)
  then have "kd_flit_encode f = Inr w" by (simp add: kd_flit_encode_def f header_read [OF x] p)
  moreover have "kd_flit_legal f"
    using f header_decode_legal by (simp add: kd_flit_legal_def list_all_iff byte_ok_def)
  ultimately show ?thesis by blast
qed

subsection \<open>Checksums and hops\<close>

definition kd_crc_bytes :: "kd_flit \<Rightarrow> int list" where
  "kd_crc_bytes f = projr (kd_crc_input f)"

lemma crc_input_ok:
  assumes "kd_flit_legal f"
  shows "kd_crc_input f = Inr (kd_crc_bytes f)" "list_all byte_ok (kd_crc_bytes f)"
    "kd_crc_input (f\<lparr>kf_header := (kf_header f)\<lparr>kh_crc32 := c\<rparr>\<rparr>) = Inr (kd_crc_bytes f)"
proof -
  have "kd_header_legal ((kf_header f)\<lparr>kh_crc32 := 0\<rparr>)"
    using assms by (intro header_legal_set) (simp_all add: kd_flit_legal_def)
  from header_write [OF this] obtain w where w: "kd_header_encode ((kf_header f)\<lparr>kh_crc32 := 0\<rparr>) = Inr w" by blast
  let ?bs = "map (\<lambda>i. fld (take_bit 96 w) (8 * i) 8) [0..<12]"
  have b: "kd_crc_input f = Inr (?bs @ take (nat (kh_payload_bytes (kf_header f))) (kf_payload f))"
    using to_bytes_masked [of 96 w] w by (simp add: kd_crc_input_def)
  then show "kd_crc_input f = Inr (kd_crc_bytes f)" by (simp add: kd_crc_bytes_def)
  then show "kd_crc_input (f\<lparr>kf_header := (kf_header f)\<lparr>kh_crc32 := c\<rparr>\<rparr>) = Inr (kd_crc_bytes f)"
    by (simp add: kd_crc_input_def)
  show "list_all byte_ok (kd_crc_bytes f)"
    using assms b by (auto simp: kd_crc_bytes_def kd_flit_legal_def list_all_iff byte_ok_def dest: in_set_takeD)
qed

lemma with_crc_ok:
  assumes "kd_flit_legal f"
  shows "\<exists>g. kd_with_crc f = Inr g \<and> kd_flit_legal g \<and> kd_crc_ok g = Inr True \<and> kf_payload g = kf_payload f \<and>
    kf_header g = (kf_header f)\<lparr>kh_crc32 := crc32_iso_hdlc (kd_crc_bytes f)\<rparr>"
proof -
  note C = crc_input_ok [OF assms]
  let ?c = "crc32_iso_hdlc (kd_crc_bytes f)"
  let ?g = "f\<lparr>kf_header := (kf_header f)\<lparr>kh_crc32 := ?c\<rparr>\<rparr>"
  have "kd_with_crc f = Inr ?g" using assms C(1) by (simp add: kd_with_crc_def kd_flit_new_def kd_flit_legal_def)
  moreover have "kd_flit_legal ?g"
    using assms header_legal_set(1) crc32_fits [OF C(2)] by (simp add: kd_flit_legal_def)
  moreover have "kd_crc_ok ?g = Inr True" using C(3) by (simp add: kd_crc_ok_def)
  ultimately show ?thesis by auto
qed

fun kd_hops :: "nat \<Rightarrow> int \<Rightarrow> kd_flit \<Rightarrow> py_error + kd_flit" where
  "kd_hops 0 epoch f = Inr f"
| "kd_hops (Suc n) epoch f = rbind (kd_next_hop f epoch) (kd_hops n epoch)"

lemma next_hop_ok:
  assumes "kd_flit_legal f" "fits 8 epoch" "kh_hop_limit (kf_header f) \<noteq> 0"
  shows "\<exists>g. kd_next_hop f epoch = Inr g \<and> kd_flit_legal g \<and> kd_crc_ok g = Inr True \<and> kf_payload g = kf_payload f \<and>
    (\<exists>c. kf_header g = (kf_header f)\<lparr>kh_hop_limit := kh_hop_limit (kf_header f) - 1, kh_link_epoch := epoch, kh_crc32 := c\<rparr>)"
proof -
  let ?h = "(kf_header f)\<lparr>kh_hop_limit := kh_hop_limit (kf_header f) - 1, kh_link_epoch := epoch, kh_crc32 := 0\<rparr>"
  let ?f = "\<lparr>kf_header = ?h, kf_payload = kf_payload f\<rparr>"
  have "fits 5 (kh_hop_limit (kf_header f) - 1)"
    using header_legalD(1) [of "kf_header f"] assms by (auto simp: kd_flit_legal_def fits_def)
  then have "kd_header_legal ?h" using assms header_legal_set(2) by (simp add: kd_flit_legal_def)
  then have "kd_flit_legal ?f" using assms by (simp add: kd_flit_legal_def)
  from with_crc_ok [OF this] assms show ?thesis
    by (auto simp: kd_next_hop_def Let_def kd_flit_new_def kd_flit_legal_def)
qed

lemma hops_exact:
  assumes "kd_flit_legal f" "fits 8 epoch"
  shows "if int n \<le> kh_hop_limit (kf_header f)
    then \<exists>g. kd_hops n epoch f = Inr g \<and> kd_flit_legal g \<and> kf_payload g = kf_payload f \<and>
      kh_hop_limit (kf_header g) = kh_hop_limit (kf_header f) - int n \<and> (0 < n \<longrightarrow> kd_crc_ok g = Inr True)
    else kd_hops n epoch f = Inl RuntimeError"
  using assms
proof (induction n arbitrary: f)
  case 0
  then show ?case using header_legalD(1) [of "kf_header f"] by (auto simp: kd_flit_legal_def fits_def)
next
  case (Suc n)
  show ?case
  proof (cases "kh_hop_limit (kf_header f) = 0")
    case True
    then show ?thesis by (simp add: kd_next_hop_def)
  next
    case False
    from next_hop_ok [OF Suc.prems False] obtain g c where g: "kd_next_hop f epoch = Inr g" "kd_flit_legal g"
      "kd_crc_ok g = Inr True" "kf_payload g = kf_payload f" "kh_hop_limit (kf_header g) = kh_hop_limit (kf_header f) - 1"
      by auto
    show ?thesis
    proof (cases "int n \<le> kh_hop_limit (kf_header g)")
      case True
      with Suc.IH [OF g(2) Suc.prems(2)] obtain k where k: "kd_hops n epoch g = Inr k" "kd_flit_legal k"
        "kf_payload k = kf_payload g" "kh_hop_limit (kf_header k) = kh_hop_limit (kf_header g) - int n"
        "0 < n \<longrightarrow> kd_crc_ok k = Inr True" by auto
      have "n = 0 \<Longrightarrow> kd_crc_ok k = Inr True" using k(1) g(3) by simp
      with k g True show ?thesis by auto
    next
      case False
      with Suc.IH [OF g(2) Suc.prems(2)] g show ?thesis by auto
    qed
  qed
qed

end
