(* ===== verification/Kd_Pcs.thy ===== *)
theory Kd_Pcs
  imports Kd_Bits
begin

section \<open>KDLink physical coding: blocks and scrambler\<close>

text \<open>
  \<open>kdlink_model/pcs.py\<close>: a 640-bit flit as ten 66-bit data blocks, and the self-synchronising scrambler
  \<open>x^58 + x^39 + 1\<close> that works on one 64-bit word at a time, least significant bit first.
\<close>

definition encode_flit_blocks :: "int \<Rightarrow> py_error + int list" where
  "encode_flit_blocks flit =
     rbind (ensure (\<not> (flit < 0 \<or> 2 ^ 640 \<le> flit))) (\<lambda>_.
       Inr (map (\<lambda>index. push_bit 2 (drop_bit (index * 64) flit AND (2 ^ 64 - 1)) OR 1) [0..<10]))"

definition decode_flit_blocks :: "int list \<Rightarrow> py_error + int" where
  "decode_flit_blocks blocks =
     rbind (ensure (length blocks = 10)) (\<lambda>_.
       rfold (\<lambda>flit (index, block).
           rbind (ensure (\<not> (block < 0 \<or> 2 ^ 66 \<le> block \<or> block AND 3 \<noteq> 1))) (\<lambda>_.
             Inr (flit OR push_bit (index * 64) (drop_bit 2 block))))
         0 (enumerate 0 blocks))"

definition scrambler_tap :: "int \<Rightarrow> int" where
  "scrambler_tap state = (drop_bit 38 state AND 1) XOR (drop_bit 57 state AND 1)"

definition scrambler_next :: "int \<Rightarrow> int \<Rightarrow> int" where
  "scrambler_next state b = (push_bit 1 state OR b) AND (2 ^ 58 - 1)"

definition check_word :: "int \<Rightarrow> int \<Rightarrow> py_error + unit" where
  "check_word w state =
     rbind (ensure (\<not> (w < 0 \<or> 2 ^ 64 \<le> w))) (\<lambda>_. ensure (\<not> (state < 0 \<or> 2 ^ 58 - 1 < state)))"

definition scramble_word :: "int \<Rightarrow> int \<Rightarrow> py_error + int \<times> int" where
  "scramble_word w state =
     rbind (check_word w state) (\<lambda>_.
       Inr (foldl (\<lambda>(out, state) i.
           let b = (drop_bit i w AND 1) XOR scrambler_tap state in (out OR push_bit i b, scrambler_next state b))
         (0, state) [0..<64]))"

definition descramble_word :: "int \<Rightarrow> int \<Rightarrow> py_error + int \<times> int" where
  "descramble_word w state =
     rbind (check_word w state) (\<lambda>_.
       Inr (foldl (\<lambda>(out, state) i.
           let b = drop_bit i w AND 1 in (out OR push_bit i (b XOR scrambler_tap state), scrambler_next state b))
         (0, state) [0..<64]))"

subsection \<open>Blocks\<close>

lemma and_mask_fld: "drop_bit k w AND (2 ^ n - 1) = fld w k n"
  using get_bits_fld [of w k n] by (simp add: get_bits_def)

definition block_of :: "int \<Rightarrow> int" where
  "block_of d = push_bit 2 d OR 1"

lemma block_of_ok:
  assumes "fits 64 d"
  shows "fits 66 (block_of d)" "block_of d AND 3 = 1" "drop_bit 2 (block_of d) = d"
proof -
  show "fits 66 (block_of d)" using assms unfolding block_of_def
    by (intro fits_or) (auto intro: fits_push, simp add: fits_def)
  have "block_of d AND 3 = take_bit 2 (block_of d)" using and_mask_fld [of 0 "block_of d" 2] by (simp add: fld_def)
  also have "\<dots> = 1" by (simp add: block_of_def take_bit_push_bit)
  finally show "block_of d AND 3 = 1" .
  show "drop_bit 2 (block_of d) = d" by (rule bit_eqI) (simp add: block_of_def bit_simps)
qed

lemma decode_blocks_fold:
  assumes "\<forall>d\<in>set ds. fits 64 d"
  shows "rfold (\<lambda>flit (index, block).
           rbind (ensure (\<not> (block < 0 \<or> 2 ^ 66 \<le> block \<or> block AND 3 \<noteq> 1))) (\<lambda>_.
             Inr (flit OR push_bit (index * 64) (drop_bit 2 block)))) x (enumerate k (map block_of ds)) =
    Inr (foldl (\<lambda>flit (index, d). flit OR push_bit (index * 64) d) x (enumerate k ds))"
  using assms
proof (induction ds arbitrary: x k)
  case (Cons d ds)
  then have "fits 64 d" by simp
  note b = block_of_ok [OF this]
  then have "\<not> (block_of d < 0 \<or> 2 ^ 66 \<le> block_of d \<or> block_of d AND 3 \<noteq> 1)" by (auto simp: fits_def)
  with Cons b(3) show ?case by simp
qed simp

lemma join_words:
  assumes "fits (64 * (k + n)) w"
  shows "foldl (\<lambda>flit (index, d). flit OR push_bit (index * 64) d) (take_bit (64 * k) w)
      (enumerate k (map (\<lambda>i. fld w (i * 64) 64) [k..<k + n])) = w"
  using assms
proof (induction n arbitrary: k)
  case 0
  then show ?case by (simp add: fits_def take_bit_int_eq_self)
next
  case (Suc n)
  have e: "[k..<k + Suc n] = k # [Suc k..<Suc k + n]" by (simp add: upt_conv_Cons)
  have "take_bit (64 * k) w OR push_bit (k * 64) (fld w (k * 64) 64) = take_bit (64 * Suc k) w"
    by (rule bit_eqI) (auto simp: bit_simps bit_fld mult.commute)
  with Suc.IH [of "Suc k"] Suc.prems e show ?case by simp
qed

lemma blocks_round_trip:
  assumes "fits 640 flit"
  shows "\<exists>blocks. encode_flit_blocks flit = Inr blocks \<and> length blocks = 10 \<and> list_all (fits 66) blocks \<and>
    decode_flit_blocks blocks = Inr flit"
proof -
  let ?ds = "map (\<lambda>i. fld flit (i * 64) 64) [0..<10]"
  have e: "encode_flit_blocks flit = Inr (map block_of ?ds)"
    unfolding encode_flit_blocks_def and_mask_fld block_of_def using assms by (auto simp: fits_def)
  have "foldl (\<lambda>flit (index, d). flit OR push_bit (index * 64) d) 0 (enumerate 0 ?ds) = flit"
    using join_words [of 0 10 flit] assms by simp
  then have "decode_flit_blocks (map block_of ?ds) = Inr flit"
    using decode_blocks_fold [of ?ds 0 0] by (simp add: decode_flit_blocks_def del: map_map)
  with e show ?thesis by (intro exI [of _ "map block_of ?ds"]) (auto simp: list_all_iff intro: block_of_ok)
qed

subsection \<open>The scrambler as a machine on bits\<close>

text \<open>Shift register as a list of the last 58 scrambled bits, the newest first.\<close>

definition register :: "int \<Rightarrow> bool list" where
  "register state = map (bit state) [0..<58]"

definition tap :: "bool list \<Rightarrow> bool" where
  "tap r \<longleftrightarrow> r ! 38 \<noteq> r ! 57"

fun scramble_bits :: "bool list \<Rightarrow> bool list \<Rightarrow> bool list \<times> bool list" where
  "scramble_bits r [] = ([], r)"
| "scramble_bits r (x # xs) =
     (let b = (x \<noteq> tap r); (out, r') = scramble_bits (b # butlast r) xs in (b # out, r'))"

fun descramble_bits :: "bool list \<Rightarrow> bool list \<Rightarrow> bool list \<times> bool list" where
  "descramble_bits r [] = ([], r)"
| "descramble_bits r (b # bs) =
     (let (out, r') = descramble_bits (b # butlast r) bs in ((b \<noteq> tap r) # out, r'))"

lemma descramble_scramble:
  "scramble_bits r xs = (bs, r') \<Longrightarrow> descramble_bits r bs = (xs, r')"
  by (induction r xs arbitrary: bs r' rule: scramble_bits.induct) (auto simp: Let_def split: prod.splits)

lemma register_after:
  "length r = 58 \<Longrightarrow> snd (descramble_bits r bs) = take 58 (rev bs @ r)"
proof (induction r bs rule: descramble_bits.induct)
  case (2 r b bs)
  have "take 58 (rev bs @ b # butlast r) = take 58 (rev (b # bs) @ r)"
    using 2(2) by (cases "58 \<le> length bs") (auto simp: butlast_conv_take take_Cons' min_def)
  with 2 show ?case by (simp add: Let_def case_prod_beta)
qed simp

lemma descramble_length: "length (fst (descramble_bits r bs)) = length bs"
  by (induction r bs rule: descramble_bits.induct) (auto simp: Let_def case_prod_beta)

lemma scramble_length: "length (fst (scramble_bits r bs)) = length bs"
  by (induction r bs rule: scramble_bits.induct) (auto simp: Let_def case_prod_beta)

text \<open>Whatever state the descrambler starts in, 58 bits later it is in step with the scrambler.\<close>

lemma descrambler_locks:
  assumes "scramble_bits r xs = (bs, r')" "length r = 58" "length s = 58" "58 \<le> length xs"
  shows "snd (descramble_bits s bs) = r'"
proof -
  have l: "length bs = length xs" using scramble_length [of r xs] assms(1) by simp
  have "snd (descramble_bits r bs) = r'" using descramble_scramble [OF assms(1)] by simp
  then show ?thesis using register_after [OF assms(2), of bs] register_after [OF assms(3), of bs] l assms(4) by simp
qed

subsection \<open>The words of the code are the machine\<close>

lemma and_1_bit: "drop_bit i w AND 1 = (of_bool (bit w i) :: int)"
  using and_mask_fld [of i w 1] fld_one [of w i] by simp

lemma of_bool_xor: "(of_bool a :: int) XOR of_bool b = of_bool (a \<noteq> b)"
  by (cases a; cases b) simp_all

lemma register_nth: "i < 58 \<Longrightarrow> register state ! i = bit state i"
  by (simp add: register_def)

lemma scrambler_tap_bit: "scrambler_tap state = of_bool (tap (register state))"
  by (simp add: scrambler_tap_def and_1_bit of_bool_xor tap_def register_nth)

lemma scrambler_next_register:
  "register (scrambler_next state (of_bool b)) = b # butlast (register state)" "fits 58 (scrambler_next state c)"
proof -
  have n: "scrambler_next state c = take_bit 58 (push_bit 1 state OR c)" for c
    using and_mask_fld [of 0 "push_bit 1 state OR c" 58] by (simp add: scrambler_next_def fld_def)
  show "fits 58 (scrambler_next state c)" unfolding n by (rule fits_take_bit)
  show "register (scrambler_next state (of_bool b)) = b # butlast (register state)"
  proof (rule nth_equalityI)
    fix i
    assume "i < length (register (scrambler_next state (of_bool b)))"
    then have i: "i < 58" by (simp add: register_def)
    have "register (scrambler_next state (of_bool b)) ! i = bit (push_bit 1 state OR of_bool b) i"
      unfolding register_nth [OF i] n using i by (simp only: bit_take_bit_iff simp_thms)
    also have "\<dots> = (b # butlast (register state)) ! i"
      unfolding bit_or_iff bit_push_bit_iff_int using i by (cases i) (auto simp: bit_simps nth_butlast register_def)
    finally show "register (scrambler_next state (of_bool b)) ! i = (b # butlast (register state)) ! i" .
  qed (simp add: register_def)
qed

lemma register_inj: "fits 58 s \<Longrightarrow> fits 58 t \<Longrightarrow> register s = register t \<Longrightarrow> s = t"
proof (rule bit_eqI)
  fix i
  assume f: "fits 58 s" "fits 58 t" and r: "register s = register t"
  show "bit s i = bit t i"
  proof (cases "i < 58")
    case True
    then show ?thesis using r register_nth by metis
  qed (use fits_bit [OF f(1)] fits_bit [OF f(2)] in simp)
qed

definition word_bits :: "nat \<Rightarrow> int \<Rightarrow> bool list" where
  "word_bits n w = map (bit w) [0..<n]"

text \<open>A loop that appends one bit of output per step, from a state whose register is the machine's.\<close>

lemma bit_loop:
  assumes step: "\<And>out st i. f (out, st) i = (out OR push_bit i (of_bool (g st (bit w i))), h st (bit w i))"
    and next_ok: "\<And>st b. fits 58 (h st b)"
    and machine: "\<And>st b bs. m (register st) (b # bs) =
      (g st b # fst (m (register (h st b)) bs), snd (m (register (h st b)) bs))" "\<And>r. m r [] = ([], r)"
  shows "fits 58 st \<Longrightarrow> fits k out \<Longrightarrow>
    \<exists>out' st'. foldl f (out, st) [k..<k + n] = (out', st') \<and> fits 58 st' \<and> fits (k + n) out' \<and>
     m (register st) (map (bit w) [k..<k + n]) = (map (bit out') [k..<k + n], register st') \<and>
     (\<forall>i<k. bit out' i = bit out i)"
proof (induction n arbitrary: k out st)
  case 0
  then show ?case by (simp add: machine(2))
next
  case (Suc n)
  let ?o = "out OR push_bit k (of_bool (g st (bit w k)))" and ?s = "h st (bit w k)"
  have o1: "fits (Suc k) ?o"
    using Suc.prems(2) fits_push [of 1 "of_bool (g st (bit w k))" k "Suc k"]
    by (intro fits_or) (auto intro: fits_mono simp del: push_bit_of_1)
  have nk: "\<not> bit out k" using fits_bit [OF Suc.prems(2), of k] by simp
  obtain out' st' where r: "foldl f (?o, ?s) [Suc k..<Suc k + n] = (out', st')" "fits 58 st'" "fits (Suc k + n) out'"
    "m (register ?s) (map (bit w) [Suc k..<Suc k + n]) = (map (bit out') [Suc k..<Suc k + n], register st')"
    "\<forall>i<Suc k. bit out' i = bit ?o i"
    using Suc.IH [OF next_ok o1] by blast
  have e: "[k..<k + Suc n] = k # [Suc k..<Suc k + n]" by (simp add: upt_conv_Cons)
  have "bit out' k = g st (bit w k)" using r(5) nk by (simp add: bit_simps)
  moreover have "\<forall>i<k. bit out' i = bit out i" using r(5) by (simp add: bit_simps)
  ultimately show ?case
    unfolding e using r(1-4) by (simp add: step machine(1) del: upt_Suc)
qed

lemma scramble_word_bits:
  assumes "fits 64 w" "fits 58 st"
  shows "\<exists>out st'. scramble_word w st = Inr (out, st') \<and> fits 64 out \<and> fits 58 st' \<and>
    scramble_bits (register st) (word_bits 64 w) = (word_bits 64 out, register st')"
proof -
  have c: "check_word w st = Inr ()" using assms by (auto simp: check_word_def fits_def)
  show ?thesis
    using bit_loop [where f = "\<lambda>(out, state) i. let b = (drop_bit i w AND 1) XOR scrambler_tap state in
          (out OR push_bit i b, scrambler_next state b)" and g = "\<lambda>st b. b \<noteq> tap (register st)"
        and h = "\<lambda>st b. scrambler_next st (of_bool (b \<noteq> tap (register st)))" and m = scramble_bits and w = w
        and n = 64 and k = 0 and out = 0, OF _ _ _ _ assms(2)]
    by (auto simp: scramble_word_def c Let_def and_1_bit of_bool_xor scrambler_tap_bit scrambler_next_register
        case_prod_beta word_bits_def)
qed

lemma descramble_word_bits:
  assumes "fits 64 w" "fits 58 st"
  shows "\<exists>out st'. descramble_word w st = Inr (out, st') \<and> fits 64 out \<and> fits 58 st' \<and>
    descramble_bits (register st) (word_bits 64 w) = (word_bits 64 out, register st')"
proof -
  have c: "check_word w st = Inr ()" using assms by (auto simp: check_word_def fits_def)
  show ?thesis
    using bit_loop [where f = "\<lambda>(out, state) i. let b = drop_bit i w AND 1 in
          (out OR push_bit i (b XOR scrambler_tap state), scrambler_next state b)" and g = "\<lambda>st b. b \<noteq> tap (register st)"
        and h = "\<lambda>st b. scrambler_next st (of_bool b)" and m = descramble_bits and w = w
        and n = 64 and k = 0 and out = 0, OF _ _ _ _ assms(2)]
    by (auto simp: descramble_word_def c Let_def and_1_bit of_bool_xor scrambler_tap_bit scrambler_next_register
        case_prod_beta word_bits_def simp del: push_bit_xor)
qed

lemma word_bits_inj: "fits n x \<Longrightarrow> fits n y \<Longrightarrow> word_bits n x = word_bits n y \<Longrightarrow> x = y"
proof (rule bit_eqI)
  fix i
  assume f: "fits n x" "fits n y" and r: "word_bits n x = word_bits n y"
  show "bit x i = bit y i"
  proof (cases "i < n")
    case True
    have "word_bits n x ! i = word_bits n y ! i" using r by simp
    then show ?thesis using True by (simp add: word_bits_def)
  qed (use fits_bit [OF f(1), of i] fits_bit [OF f(2), of i] in simp)
qed

lemma scramble_descramble_word:
  assumes "fits 64 w" "fits 58 st"
  shows "\<exists>x st'. scramble_word w st = Inr (x, st') \<and> fits 64 x \<and> fits 58 st' \<and> descramble_word x st = Inr (w, st')"
proof -
  obtain x st' where x: "scramble_word w st = Inr (x, st')" "fits 64 x" "fits 58 st'"
    "scramble_bits (register st) (word_bits 64 w) = (word_bits 64 x, register st')"
    using scramble_word_bits [OF assms] by blast
  obtain y st'' where y: "descramble_word x st = Inr (y, st'')" "fits 64 y" "fits 58 st''"
    "descramble_bits (register st) (word_bits 64 x) = (word_bits 64 y, register st'')"
    using descramble_word_bits [OF x(2) assms(2)] by blast
  from descramble_scramble [OF x(4)] y(4) have "word_bits 64 y = word_bits 64 w" "register st'' = register st'" by simp_all
  then have "y = w" "st'' = st'" using word_bits_inj y assms(1) register_inj x(3) by blast+
  with x y show ?thesis by blast
qed

lemma descramble_any_state:
  assumes "scramble_word w st = Inr (x, st')" "fits 64 w" "fits 58 st" "fits 58 other"
  shows "\<exists>y. descramble_word x other = Inr (y, st')"
proof -
  obtain x' st1 where x: "scramble_word w st = Inr (x', st1)" "fits 64 x'" "fits 58 st1"
    "scramble_bits (register st) (word_bits 64 w) = (word_bits 64 x', register st1)"
    using scramble_word_bits [OF assms(2,3)] by blast
  with assms(1) have e: "x' = x" "st1 = st'" by simp_all
  obtain y st2 where y: "descramble_word x other = Inr (y, st2)" "fits 58 st2"
    "descramble_bits (register other) (word_bits 64 x) = (word_bits 64 y, register st2)"
    using descramble_word_bits [OF x(2) assms(4)] e by blast
  have l: "length (register st) = 58" "length (register other) = 58" "58 \<le> length (word_bits 64 w)"
    by (simp_all add: register_def word_bits_def)
  from descrambler_locks [OF x(4) l] y(3) e have "register st2 = register st'" by simp
  then have "st2 = st'" using register_inj y(2) x(3) e by blast
  with y show ?thesis by blast
qed

subsection \<open>Streams\<close>

definition stream_step :: "(int \<Rightarrow> int \<Rightarrow> py_error + int \<times> int) \<Rightarrow> int \<Rightarrow> int \<Rightarrow> py_error + int \<times> int" where
  "stream_step f st w = rbind (f w st) (\<lambda>(out, st'). Inr (st', out))"

lemma stream_in_step:
  assumes "list_all (fits 64) ws" "fits 58 st"
  shows "\<exists>xs st'. run (stream_step scramble_word) st ws = Inr (st', xs) \<and> list_all (fits 64) xs \<and>
    run (stream_step descramble_word) st xs = Inr (st', ws)"
  using assms
proof (induction ws arbitrary: st)
  case (Cons w ws)
  then have w: "fits 64 w" by simp
  from scramble_descramble_word [OF w Cons.prems(2)] obtain x s1 where
    x: "scramble_word w st = Inr (x, s1)" "fits 64 x" "fits 58 s1" "descramble_word x st = Inr (w, s1)" by blast
  with Cons.IH [OF _ x(3)] Cons.prems(1) show ?case by (auto simp: stream_step_def)
qed simp

text \<open>A receiver that starts in any state loses at most the first word.\<close>

lemma stream_self_synchronises:
  assumes "list_all (fits 64) (w # ws)" "fits 58 st" "fits 58 other"
  shows "\<exists>xs st' y. run (stream_step scramble_word) st (w # ws) = Inr (st', xs) \<and>
    run (stream_step descramble_word) other xs = Inr (st', y # ws)"
proof -
  have w: "fits 64 w" and ws: "list_all (fits 64) ws" using assms(1) by simp_all
  from scramble_descramble_word [OF w assms(2)] obtain x s1 where
    x: "scramble_word w st = Inr (x, s1)" "fits 58 s1" by blast
  from descramble_any_state [OF x(1) w assms(2,3)] obtain y where y: "descramble_word x other = Inr (y, s1)" by blast
  from stream_in_step [OF ws x(2)] obtain xs st' where "run (stream_step scramble_word) s1 ws = Inr (st', xs)"
    "run (stream_step descramble_word) s1 xs = Inr (st', ws)" by blast
  with x(1) y have "run (stream_step scramble_word) st (w # ws) = Inr (st', x # xs)"
    "run (stream_step descramble_word) other (x # xs) = Inr (st', y # ws)" by (simp_all add: stream_step_def)
  then show ?thesis by blast
qed

end
