(* ===== verification/Kd_Bonding.thy ===== *)
theory Kd_Bonding
  imports Prelude
begin

section \<open>KDLink bonded ports: striping and reordering\<close>

text \<open>
  \<open>kdlink_model/bonding.py\<close>: packets are dealt to the active slices of a port in turn, and the receiver puts them back
  in order by their 12-bit sequence number.
\<close>

record distributor =
  bd_active_mask :: int
  bd_next_index :: nat

definition distributor_new :: distributor where
  "distributor_new = \<lparr>bd_active_mask = 3, bd_next_index = 0\<rparr>"

definition active_slices :: "distributor \<Rightarrow> nat list" where
  "active_slices d = filter (\<lambda>index. bd_active_mask d AND push_bit index 1 \<noteq> 0) [0..<2]"

definition distributor_assign :: "distributor \<Rightarrow> int \<Rightarrow> py_error + distributor \<times> nat" where
  "distributor_assign d packet_seq =
     rbind (ensure (0 \<le> packet_seq \<and> packet_seq < 4096)) (\<lambda>_.
       let active = active_slices d in
       if active = [] then Inl RuntimeError
       else Inr (d\<lparr>bd_next_index := (bd_next_index d + 1) mod length active\<rparr>, active ! (bd_next_index d mod length active)))"

definition distributor_disable :: "distributor \<Rightarrow> int \<Rightarrow> py_error + distributor" where
  "distributor_disable d slice_id =
     rbind (ensure (0 \<le> slice_id \<and> slice_id < 2)) (\<lambda>_.
       Inr (d\<lparr>bd_active_mask := bd_active_mask d AND NOT (push_bit (nat slice_id) 1), bd_next_index := 0\<rparr>))"

record reorder =
  bo_expected :: int
  bo_pending :: "(int \<times> int list) list"

definition reorder_new :: reorder where
  "reorder_new = \<lparr>bo_expected = 0, bo_pending = []\<rparr>"

lemma delete_shorter: "map_of al k = Some v \<Longrightarrow> length (AList.delete k al) < length al"
  by (induction al) (auto simp: less_Suc_eq_le length_delete_le split: if_splits)

function reorder_release :: "reorder \<Rightarrow> reorder \<times> (int \<times> int list) list" where
  "reorder_release r =
     (case map_of (bo_pending r) (bo_expected r) of
        None \<Rightarrow> (r, [])
      | Some payload \<Rightarrow>
          let sequence = bo_expected r;
              (r, released) = reorder_release (r\<lparr>bo_pending := AList.delete sequence (bo_pending r),
                bo_expected := (sequence + 1) mod 4096\<rparr>)
          in (r, (sequence, payload) # released))"
  by pat_completeness auto
termination
  by (relation "measure (\<lambda>r. length (bo_pending r))") (auto intro: delete_shorter)

declare reorder_release.simps [simp del]

definition reorder_accept :: "reorder \<Rightarrow> int \<Rightarrow> int list \<Rightarrow> py_error + reorder \<times> (int \<times> int list) list" where
  "reorder_accept r packet_seq payload =
     rbind (ensure (0 \<le> packet_seq \<and> packet_seq < 4096)) (\<lambda>_.
       if map_of (bo_pending r) packet_seq \<noteq> None then Inl RuntimeError
       else let distance = (packet_seq - bo_expected r) mod 4096 in
         if 2048 \<le> distance then Inl RuntimeError
         else Inr (reorder_release (r\<lparr>bo_pending := AList.update packet_seq payload (bo_pending r)\<rparr>)))"

text \<open>A receiver that drops the packets the buffer refuses.\<close>

definition reorder_step ::
  "reorder \<Rightarrow> int \<times> int list \<Rightarrow> py_error + reorder \<times> (py_error + (int \<times> int list) list)" where
  "reorder_step r i =
     Inr (case reorder_accept r (fst i) (snd i) of Inl e \<Rightarrow> (r, Inl e) | Inr (r', out) \<Rightarrow> (r', Inr out))"

subsection \<open>Arrivals by their place in the stream\<close>

text \<open>
  The \<open>n\<close>th packet of the stream has sequence number \<open>n mod 4096\<close>. The arrivals are places, in any order and with
  repeats, each within 2048 of the first place that is still missing.
\<close>

definition first_missing :: "nat list \<Rightarrow> nat" where
  "first_missing ns = length (takeWhile (\<lambda>k. k \<in> set ns) [0..<length ns])"

fun window_ok :: "nat list \<Rightarrow> nat list \<Rightarrow> bool" where
  "window_ok seen [] \<longleftrightarrow> True"
| "window_ok seen (n # ns) \<longleftrightarrow>
     n < first_missing seen + 2048 \<and> first_missing seen \<le> n + 2048 \<and> window_ok (seen @ [n]) ns"

definition numbered_packet :: "(nat \<Rightarrow> int list) \<Rightarrow> nat \<Rightarrow> int \<times> int list" where
  "numbered_packet sent n = (int n mod 4096, sent n)"

definition is_first_missing :: "nat set \<Rightarrow> nat \<Rightarrow> bool" where
  "is_first_missing A E \<longleftrightarrow> E \<notin> A \<and> (\<forall>k<E. k \<in> A)"

lemma is_first_missing_unique: "is_first_missing A E \<Longrightarrow> is_first_missing A E' \<Longrightarrow> E = E'"
  unfolding is_first_missing_def by (meson linorder_neqE_nat)

lemma first_missing_is: "is_first_missing (set ns) (first_missing ns)"
proof -
  let ?P = "\<lambda>k. k \<in> set ns" and ?xs = "[0..<length ns]"
  have le: "first_missing ns \<le> length ns"
    using length_takeWhile_le [of ?P ?xs] by (simp add: first_missing_def)
  have below: "k \<in> set ns" if "k < first_missing ns" for k
  proof -
    have "takeWhile ?P ?xs ! k = ?xs ! k" using that by (simp add: first_missing_def takeWhile_nth)
    moreover have "takeWhile ?P ?xs ! k \<in> set (takeWhile ?P ?xs)" using that by (simp add: first_missing_def)
    ultimately show ?thesis using that le by (auto dest: set_takeWhileD)
  qed
  have "first_missing ns \<notin> set ns"
  proof (cases "first_missing ns < length ns")
    case True
    then show ?thesis using nth_length_takeWhile [of ?P ?xs] by (simp add: first_missing_def)
  next
    case False
    then have e: "first_missing ns = length ns" using le by simp
    show ?thesis
    proof
      assume "first_missing ns \<in> set ns"
      with below e have "{..length ns} \<subseteq> set ns" by (auto simp: le_less)
      then have "card {..length ns} \<le> card (set ns)" by (intro card_mono) simp_all
      also have "\<dots> \<le> length ns" by (rule card_length)
      finally show False by simp
    qed
  qed
  with below show ?thesis by (simp add: is_first_missing_def)
qed

definition pend_ok :: "(nat \<Rightarrow> int list) \<Rightarrow> nat \<Rightarrow> nat set \<Rightarrow> reorder \<Rightarrow> bool" where
  "pend_ok sent E A r \<longleftrightarrow> bo_expected r = int E mod 4096 \<and> (\<forall>k\<in>A. k < E + 2048) \<and>
     (\<forall>key v. map_of (bo_pending r) key = Some v \<longleftrightarrow> (\<exists>k\<in>A. E \<le> k \<and> key = int k mod 4096 \<and> v = sent k))"

lemma same_place:
  assumes "E \<le> k" "k < E + 4096" "E \<le> j" "j < E + 4096" "int k mod 4096 = int j mod 4096"
  shows "k = j"
proof -
  have "(int k - int j) mod 4096 = 0" using assms(5) by (simp add: mod_eq_dvd_iff)
  then obtain q where q: "int k - int j = 4096 * q" by (auto elim: dvdE)
  with assms(1-4) have "q = 0" by (cases q rule: linorder_cases [of _ 0]) auto
  with q show ?thesis by simp
qed

lemma release_ok:
  assumes "pend_ok sent E A r" "finite A"
  shows "\<exists>E'. E \<le> E' \<and> E' \<notin> A \<and> (\<forall>k. E \<le> k \<and> k < E' \<longrightarrow> k \<in> A) \<and> pend_ok sent E' A (fst (reorder_release r)) \<and>
    snd (reorder_release r) = map (numbered_packet sent) [E..<E']"
  using assms(1)
proof (induction r arbitrary: E rule: reorder_release.induct)
  case (1 r)
  note ok = 1(2) [unfolded pend_ok_def]
  show ?case
  proof (cases "map_of (bo_pending r) (bo_expected r)")
    case None
    then have "E \<notin> A" using ok by (metis option.distinct(1) order_refl)
    with None 1(2) show ?thesis
      by (intro exI [of _ E]) (subst (1 2) reorder_release.simps, auto)
  next
    case (Some payload)
    with ok obtain k where k: "k \<in> A" "E \<le> k" "int E mod 4096 = int k mod 4096" "payload = sent k" by auto
    then have "E = k" using ok by (intro same_place [of E E k]) auto
    with k have E: "E \<in> A" "payload = sent E" by simp_all
    let ?r = "r\<lparr>bo_pending := AList.delete (bo_expected r) (bo_pending r), bo_expected := (bo_expected r + 1) mod 4096\<rparr>"
    have "pend_ok sent (Suc E) A ?r"
      unfolding pend_ok_def
    proof (intro conjI allI)
      show "bo_expected ?r = int (Suc E) mod 4096" using ok mod_add_left_eq [of "int E" 4096 1] by (simp add: add.commute)
      show "\<forall>k\<in>A. k < Suc E + 2048" using ok by auto
      fix key v
      have uniq: "key \<noteq> int E mod 4096" if "k \<in> A" "Suc E \<le> k" "key = int k mod 4096" for k
      proof
        assume "key = int E mod 4096"
        with that ok have "E = k" by (intro same_place [of E E k]) auto
        with that(2) show False by simp
      qed
      have "map_of (bo_pending ?r) key = Some v \<longleftrightarrow>
          key \<noteq> int E mod 4096 \<and> (\<exists>k\<in>A. E \<le> k \<and> key = int k mod 4096 \<and> v = sent k)"
        using ok by (simp add: delete_conv')
      also have "\<dots> \<longleftrightarrow> (\<exists>k\<in>A. Suc E \<le> k \<and> key = int k mod 4096 \<and> v = sent k)"
        using uniq by (metis Suc_leD Suc_leI le_neq_implies_less)
      finally show "map_of (bo_pending ?r) key = Some v \<longleftrightarrow> (\<exists>k\<in>A. Suc E \<le> k \<and> key = int k mod 4096 \<and> v = sent k)" .
    qed
    with 1(1) [OF Some refl] obtain E' where E': "Suc E \<le> E'" "E' \<notin> A" "\<forall>k. Suc E \<le> k \<and> k < E' \<longrightarrow> k \<in> A"
      "pend_ok sent E' A (fst (reorder_release ?r))" "snd (reorder_release ?r) = map (numbered_packet sent) [Suc E..<E']"
      by blast
    have "reorder_release r = (fst (reorder_release ?r), (bo_expected r, payload) # snd (reorder_release ?r))"
      by (subst reorder_release.simps) (simp add: Some case_prod_beta Let_def)
    moreover have "\<forall>k. E \<le> k \<and> k < E' \<longrightarrow> k \<in> A"
      using E'(3) E(1) by (metis Suc_leI le_neq_implies_less)
    moreover have "map (numbered_packet sent) [E..<E'] = (bo_expected r, payload) # map (numbered_packet sent) [Suc E..<E']"
      using E'(1) E(2) ok by (simp add: upt_conv_Cons numbered_packet_def)
    ultimately show ?thesis using E'(1,2,4,5) by (intro exI [of _ E']) simp
  qed
qed

lemma accept_ok:
  assumes ok: "pend_ok sent E A r" "finite A" "is_first_missing A E" and w: "n < E + 2048" "E \<le> n + 2048"
  shows "if n \<in> A then reorder_accept r (int n mod 4096) (sent n) = Inl RuntimeError
    else \<exists>E' r'. reorder_accept r (int n mod 4096) (sent n) = Inr (r', map (numbered_packet sent) [E..<E']) \<and> E \<le> E' \<and>
      is_first_missing (insert n A) E' \<and> pend_ok sent E' (insert n A) r'"
proof -
  note P = ok(1) [unfolded pend_ok_def]
  have rng: "ensure (0 \<le> int n mod 4096 \<and> int n mod 4096 < 4096) = Inr ()" by simp
  have dist: "(int n mod 4096 - bo_expected r) mod 4096 = (int n - int E) mod 4096"
    using P by (simp add: mod_diff_eq)
  have pend: "map_of (bo_pending r) (int n mod 4096) \<noteq> None \<longleftrightarrow> n \<in> A \<and> E \<le> n"
  proof
    assume "map_of (bo_pending r) (int n mod 4096) \<noteq> None"
    then obtain k where k: "k \<in> A" "E \<le> k" "int n mod 4096 = int k mod 4096" using P by auto
    show "n \<in> A \<and> E \<le> n"
    proof (cases "E \<le> n")
      case True
      with k w(1) P have "n = k" by (intro same_place [of E n k]) auto
      with k show ?thesis by simp
    next
      case False
      then have "n + 4096 = k" using k w(2) P by (intro same_place [of E "n + 4096" k]) auto
      with k P False w(2) show ?thesis by auto
    qed
  qed (use P in auto)
  show ?thesis
  proof (cases "n \<in> A")
    case True
    show ?thesis
    proof (cases "E \<le> n")
      case True
      with \<open>n \<in> A\<close> pend show ?thesis by (simp add: reorder_accept_def)
    next
      case False
      have "(int n - int E) mod 4096 = (int n - int E + 4096) mod 4096" by simp
      also have "\<dots> = int n - int E + 4096" using False w(2) by (intro mod_pos_pos_trivial) auto
      finally have "(int n - int E) mod 4096 = int n - int E + 4096" .
      with False w(2) dist pend \<open>n \<in> A\<close> show ?thesis by (simp add: reorder_accept_def Let_def)
    qed
  next
    case False
    have "E \<le> n" using False ok(3) by (meson is_first_missing_def not_le)
    then have d: "(int n - int E) mod 4096 = int n - int E" using w(1) by (simp add: mod_pos_pos_trivial)
    let ?r = "r\<lparr>bo_pending := AList.update (int n mod 4096) (sent n) (bo_pending r)\<rparr>"
    have p: "pend_ok sent E (insert n A) ?r"
      unfolding pend_ok_def
    proof (intro conjI allI)
      show "\<forall>k\<in>insert n A. k < E + 2048" using P w(1) by simp
      fix key v
      have "k = n" if "k \<in> A" "E \<le> k" "int n mod 4096 = int k mod 4096" for k
        using that P w(1) \<open>E \<le> n\<close> by (intro same_place [of E k n]) auto
      then show "map_of (bo_pending ?r) key = Some v \<longleftrightarrow>
          (\<exists>k\<in>insert n A. E \<le> k \<and> key = int k mod 4096 \<and> v = sent k)"
        using P False \<open>E \<le> n\<close> by (auto simp: update_conv')
    qed (use P in simp)
    from release_ok [OF p] ok(2) obtain E' where E': "E \<le> E'" "E' \<notin> insert n A"
      "\<forall>k. E \<le> k \<and> k < E' \<longrightarrow> k \<in> insert n A" "pend_ok sent E' (insert n A) (fst (reorder_release ?r))"
      "snd (reorder_release ?r) = map (numbered_packet sent) [E..<E']" by auto
    have "is_first_missing (insert n A) E'"
      using E' ok(3) unfolding is_first_missing_def by (metis insertCI not_le)
    moreover have "reorder_accept r (int n mod 4096) (sent n) = Inr (reorder_release ?r)"
      using pend False dist d w(1) by (simp add: reorder_accept_def Let_def)
    ultimately show ?thesis using False E' by (metis prod.collapse)
  qed
qed

subsection \<open>Delivery\<close>

definition delivered :: "(py_error + (int \<times> int list) list) list \<Rightarrow> (int \<times> int list) list" where
  "delivered outs = concat (map (case_sum (\<lambda>_. []) (\<lambda>x. x)) outs)"

fun repeats :: "nat list \<Rightarrow> nat list \<Rightarrow> bool list" where
  "repeats seen [] = []"
| "repeats seen (n # ns) = (n \<in> set seen) # repeats (seen @ [n]) ns"

lemma first_missing_insert: "is_first_missing (set (seen @ [n])) E \<longleftrightarrow> first_missing (seen @ [n]) = E"
  using first_missing_is is_first_missing_unique by blast

lemma reorder_run:
  assumes "pend_ok sent (first_missing seen) (set seen) r" "window_ok seen ns"
  shows "\<exists>t outs. run reorder_step r (map (numbered_packet sent) ns) = Inr (t, outs) \<and>
    delivered outs = map (numbered_packet sent) [first_missing seen..<first_missing (seen @ ns)] \<and>
    map isl outs = repeats seen ns \<and> list_all (\<lambda>x. isl x \<longrightarrow> x = Inl RuntimeError) outs \<and>
    first_missing seen \<le> first_missing (seen @ ns)"
  using assms
proof (induction ns arbitrary: seen r)
  case Nil
  then show ?case by (simp add: delivered_def)
next
  case (Cons n ns)
  let ?E = "first_missing seen"
  have w: "n < ?E + 2048" "?E \<le> n + 2048" "window_ok (seen @ [n]) ns" using Cons.prems(2) by auto
  note a = accept_ok [OF Cons.prems(1) _ first_missing_is w(1,2)]
  show ?case
  proof (cases "n \<in> set seen")
    case True
    then have s: "set (seen @ [n]) = set seen" by auto
    then have e: "first_missing (seen @ [n]) = ?E"
      using first_missing_is [of "seen @ [n]"] first_missing_is [of seen] is_first_missing_unique by metis
    have st: "reorder_step r (numbered_packet sent n) = Inr (r, Inl RuntimeError)"
      using a True by (simp add: reorder_step_def numbered_packet_def)
    from Cons.IH [of "seen @ [n]" r] Cons.prems(1) w(3) e s obtain t outs where
      "run reorder_step r (map (numbered_packet sent) ns) = Inr (t, outs)"
      "delivered outs = map (numbered_packet sent) [?E..<first_missing (seen @ n # ns)]"
      "map isl outs = repeats (seen @ [n]) ns" "list_all (\<lambda>x. isl x \<longrightarrow> x = Inl RuntimeError) outs"
      "?E \<le> first_missing (seen @ n # ns)" by auto
    with st True show ?thesis by (simp add: delivered_def)
  next
    case False
    with a obtain E' r' where r': "reorder_accept r (int n mod 4096) (sent n) = Inr (r', map (numbered_packet sent) [?E..<E'])"
      "?E \<le> E'" "is_first_missing (set (seen @ [n])) E'" "pend_ok sent E' (set (seen @ [n])) r'" by auto
    then have e: "first_missing (seen @ [n]) = E'" using first_missing_insert by blast
    have st: "reorder_step r (numbered_packet sent n) = Inr (r', Inr (map (numbered_packet sent) [?E..<E']))"
      using r' by (simp add: reorder_step_def numbered_packet_def)
    from Cons.IH [of "seen @ [n]" r'] r'(4) w(3) e obtain t outs where
      "run reorder_step r' (map (numbered_packet sent) ns) = Inr (t, outs)"
      "delivered outs = map (numbered_packet sent) [E'..<first_missing (seen @ n # ns)]"
      "map isl outs = repeats (seen @ [n]) ns" "list_all (\<lambda>x. isl x \<longrightarrow> x = Inl RuntimeError) outs"
      "E' \<le> first_missing (seen @ n # ns)" by auto
    with st False r'(2) show ?thesis
      by (simp add: delivered_def flip: map_append) (metis le_iff_add upt_add_eq_append)
  qed
qed

lemma reorder_delivers:
  assumes "window_ok [] ns"
  shows "\<exists>t outs. run reorder_step reorder_new (map (numbered_packet sent) ns) = Inr (t, outs) \<and>
    delivered outs = map (numbered_packet sent) [0..<first_missing ns] \<and>
    map isl outs = repeats [] ns \<and> list_all (\<lambda>x. isl x \<longrightarrow> x = Inl RuntimeError) outs"
proof -
  have "first_missing [] = 0" by (simp add: first_missing_def)
  moreover have "pend_ok sent 0 {} reorder_new" by (simp add: pend_ok_def reorder_new_def)
  ultimately show ?thesis using reorder_run [of sent "[]" reorder_new ns] assms by auto
qed

end
