(* ===== verification/Kd_Route.thy ===== *)
theory Kd_Route
  imports Kd_Bits
begin

section \<open>KDLink between domains: addresses, route contexts, routes\<close>

text \<open>
  \<open>kdlink_model/multidomain.py\<close>: global endpoints, the 512-bit route context, the digits of a hierarchical route and the
  stages that follow them, the choice of uplink, and the spine; and \<open>topology.py\<close>, the planes inside a domain.
\<close>

record global_endpoint =
  ge_domain :: int
  ge_node :: int

definition endpoint_validate :: "global_endpoint \<Rightarrow> py_error + unit" where
  "endpoint_validate e =
     rbind (ensure (0 \<le> ge_domain e \<and> ge_domain e < 256)) (\<lambda>_. ensure (0 \<le> ge_node e \<and> ge_node e < 32))"

definition endpoint_encode :: "global_endpoint \<Rightarrow> py_error + int" where
  "endpoint_encode e = rbind (endpoint_validate e) (\<lambda>_. Inr (push_bit 5 (ge_domain e) OR ge_node e))"

definition endpoint_decode :: "int \<Rightarrow> py_error + global_endpoint" where
  "endpoint_decode w =
     rbind (ensure (0 \<le> w \<and> w < 256 * 32)) (\<lambda>_. Inr \<lparr>ge_domain = drop_bit 5 w, ge_node = w AND 0x1F\<rparr>)"

record route_context =
  rc_source_domain :: int
  rc_destination_domain :: int
  rc_source_node :: int
  rc_destination_node :: int
  rc_topology_epoch :: int
  rc_domain_hop_limit :: int
  rc_logical_plane :: int
  rc_slice_mask :: int
  rc_route_policy :: int
  rc_packet_flit_count :: int
  rc_expected_packet_sequence :: int
  rc_global_transaction_id :: int
  rc_group_id :: int
  rc_logical_vc :: int
  rc_reserved :: int

definition route_context_layout :: "(nat \<times> nat) list" where
  "route_context_layout =
     [(0, 8), (8, 8), (16, 5), (21, 5), (26, 8), (34, 8), (42, 3), (45, 2), (47, 3), (50, 5), (55, 12), (67, 64),
      (131, 32), (163, 3), (166, 346)]"

definition route_context_values :: "route_context \<Rightarrow> int list" where
  "route_context_values x =
     [rc_source_domain x, rc_destination_domain x, rc_source_node x, rc_destination_node x, rc_topology_epoch x,
      rc_domain_hop_limit x, rc_logical_plane x, rc_slice_mask x, rc_route_policy x, rc_packet_flit_count x,
      rc_expected_packet_sequence x, rc_global_transaction_id x, rc_group_id x, rc_logical_vc x, rc_reserved x]"

definition route_context_of :: "int list \<Rightarrow> route_context" where
  "route_context_of vs = \<lparr>rc_source_domain = vs ! 0, rc_destination_domain = vs ! 1, rc_source_node = vs ! 2,
      rc_destination_node = vs ! 3, rc_topology_epoch = vs ! 4, rc_domain_hop_limit = vs ! 5,
      rc_logical_plane = vs ! 6, rc_slice_mask = vs ! 7, rc_route_policy = vs ! 8, rc_packet_flit_count = vs ! 9,
      rc_expected_packet_sequence = vs ! 10, rc_global_transaction_id = vs ! 11, rc_group_id = vs ! 12,
      rc_logical_vc = vs ! 13, rc_reserved = vs ! 14\<rparr>"

definition route_validate :: "route_context \<Rightarrow> py_error + unit" where
  "route_validate x =
     rbind (endpoint_validate \<lparr>ge_domain = rc_source_domain x, ge_node = rc_source_node x\<rparr>) (\<lambda>_.
     rbind (endpoint_validate \<lparr>ge_domain = rc_destination_domain x, ge_node = rc_destination_node x\<rparr>) (\<lambda>_.
     rbind (ensure (0 \<le> rc_topology_epoch x \<and> rc_topology_epoch x < 256)) (\<lambda>_.
     rbind (ensure (1 \<le> rc_domain_hop_limit x \<and> rc_domain_hop_limit x < 256)) (\<lambda>_.
     rbind (ensure (0 \<le> rc_logical_plane x \<and> rc_logical_plane x < 8)) (\<lambda>_.
     rbind (ensure (1 \<le> rc_slice_mask x \<and> rc_slice_mask x < 4)) (\<lambda>_.
     rbind (ensure (rc_route_policy x = 0)) (\<lambda>_.
     rbind (ensure (1 \<le> rc_packet_flit_count x \<and> rc_packet_flit_count x \<le> 16)) (\<lambda>_.
     rbind (ensure (0 \<le> rc_expected_packet_sequence x \<and> rc_expected_packet_sequence x < 4096)) (\<lambda>_.
     rbind (ensure (0 \<le> rc_global_transaction_id x \<and> rc_global_transaction_id x < 2 ^ 64)) (\<lambda>_.
     rbind (ensure (0 \<le> rc_group_id x \<and> rc_group_id x < 2 ^ 32)) (\<lambda>_.
     rbind (ensure (0 \<le> rc_logical_vc x \<and> rc_logical_vc x \<le> 5)) (\<lambda>_.
     ensure (rc_reserved x = 0)))))))))))))"

definition route_encode :: "route_context \<Rightarrow> py_error + int" where
  "route_encode x = rbind (route_validate x) (\<lambda>_. write_layout route_put route_context_layout (route_context_values x))"

definition route_decode :: "int \<Rightarrow> py_error + route_context" where
  "route_decode w =
     rbind (ensure (0 \<le> w \<and> w < 2 ^ 512)) (\<lambda>_.
       Inr (route_context_of (map (\<lambda>(lsb, width). route_get w lsb width) route_context_layout)))"

subsection \<open>Routes\<close>

definition route_digits :: "int \<Rightarrow> int \<Rightarrow> py_error + int list" where
  "route_digits destination domain_count =
     rbind (ensure (2 \<le> domain_count \<and> domain_count \<le> 256)) (\<lambda>_.
     rbind (ensure (0 \<le> destination \<and> destination < domain_count)) (\<lambda>_.
       Inr (if domain_count \<le> 8 then [destination AND 7]
            else if domain_count \<le> 64 then [drop_bit 3 destination AND 7, destination AND 7]
            else [drop_bit 6 destination AND 3, drop_bit 3 destination AND 7, destination AND 7])))"

record stage_forward =
  sf_stage :: int
  sf_egress :: int
  sf_context :: route_context
  sf_final :: bool

definition forward_at_stage :: "route_context \<Rightarrow> int \<Rightarrow> int \<Rightarrow> int \<Rightarrow> py_error + stage_forward" where
  "forward_at_stage x domain_count stage active_egress_mask =
     rbind (route_validate x) (\<lambda>_.
     rbind (route_digits (rc_destination_domain x) domain_count) (\<lambda>digits.
     rbind (ensure (0 \<le> stage \<and> stage < int (length digits))) (\<lambda>_.
       let egress = digits ! nat stage in
       if active_egress_mask AND push_bit (nat egress) 1 = 0 then Inl RuntimeError
       else if rc_domain_hop_limit x \<le> int (length digits) - stage then Inl RuntimeError
       else Inr \<lparr>sf_stage = stage, sf_egress = egress, sf_context = x\<lparr>rc_domain_hop_limit := rc_domain_hop_limit x - 1\<rparr>,
              sf_final = (stage = int (length digits) - 1)\<rparr>)))"

definition select_uplink :: "int \<Rightarrow> int \<Rightarrow> int \<Rightarrow> py_error + int" where
  "select_uplink transaction active_uplink_mask uplink_count =
     rbind (ensure (1 \<le> uplink_count \<and> uplink_count \<le> 8)) (\<lambda>_.
       let active = filter (\<lambda>index. active_uplink_mask AND push_bit index 1 \<noteq> 0) [0..<nat uplink_count] in
       if active = [] then Inl RuntimeError else Inr (int (active ! nat (transaction mod int (length active)))))"

record multidomain_route =
  md_source :: global_endpoint
  md_destination :: global_endpoint
  md_local :: bool
  md_uplink :: "int option"
  md_spine :: "int option"
  md_hops :: int
  md_digits :: "int list"

definition route_multidomain ::
  "global_endpoint \<Rightarrow> global_endpoint \<Rightarrow> int \<Rightarrow> int \<Rightarrow> int \<Rightarrow> int \<Rightarrow> py_error + multidomain_route" where
  "route_multidomain source destination domain_count uplink_count active_uplink_mask transaction =
     rbind (endpoint_validate source) (\<lambda>_.
     rbind (endpoint_validate destination) (\<lambda>_.
     rbind (ensure (1 \<le> domain_count \<and> domain_count \<le> 256)) (\<lambda>_.
     rbind (ensure (\<not> (domain_count \<le> ge_domain source \<or> domain_count \<le> ge_domain destination))) (\<lambda>_.
       if ge_domain source = ge_domain destination then
         Inr \<lparr>md_source = source, md_destination = destination, md_local = True, md_uplink = None, md_spine = None,
           md_hops = 0, md_digits = []\<rparr>
       else rbind (select_uplink transaction active_uplink_mask uplink_count) (\<lambda>uplink.
         if domain_count = 2 then
           Inr \<lparr>md_source = source, md_destination = destination, md_local = False, md_uplink = Some uplink, md_spine = None,
             md_hops = 1, md_digits = []\<rparr>
         else rbind (route_digits (ge_domain destination) domain_count) (\<lambda>digits.
           Inr \<lparr>md_source = source, md_destination = destination, md_local = False, md_uplink = Some uplink,
             md_spine = Some (uplink mod min uplink_count 8), md_hops = int (length digits) + 1, md_digits = digits\<rparr>))))))"

datatype escape_stage = Leaf_Up | Spine | Leaf_Down

record spine_forward =
  sp_egress :: int
  sp_context :: route_context
  sp_stages :: "escape_stage list"

definition forward_at_spine :: "route_context \<Rightarrow> int \<Rightarrow> int \<Rightarrow> py_error + spine_forward" where
  "forward_at_spine x domain_count active_domain_mask =
     rbind (route_validate x) (\<lambda>_.
     rbind (ensure (domain_count \<in> {4, 8})) (\<lambda>_.
     rbind (ensure (\<not> domain_count \<le> rc_destination_domain x)) (\<lambda>_.
       if active_domain_mask AND push_bit (nat (rc_destination_domain x)) 1 = 0 then Inl RuntimeError
       else if rc_domain_hop_limit x \<le> 1 then Inl RuntimeError
       else Inr \<lparr>sp_egress = rc_destination_domain x, sp_context = x\<lparr>rc_domain_hop_limit := rc_domain_hop_limit x - 1\<rparr>,
              sp_stages = [Leaf_Up, Spine, Leaf_Down]\<rparr>)))"

definition escape_acyclic :: "int \<Rightarrow> py_error + bool" where
  "escape_acyclic domain_count =
     rbind (ensure (2 \<le> domain_count \<and> domain_count \<le> 256)) (\<lambda>_.
     rbind (route_digits (domain_count - 1) domain_count) (\<lambda>digits.
       let ranks = [0..<length digits + 2] in Inr (list_all (\<lambda>(a, b). a < b) (zip ranks (tl ranks)))))"

subsection \<open>Planes inside a domain\<close>

record fabric_route =
  fr_source :: int
  fr_destination :: int
  fr_plane :: int
  fr_ingress :: int
  fr_egress :: int

definition active_planes :: "int \<Rightarrow> nat list" where
  "active_planes plane_mask = filter (\<lambda>index. plane_mask AND push_bit index 1 \<noteq> 0) [0..<8]"

definition select_plane :: "int \<Rightarrow> int \<Rightarrow> int \<Rightarrow> py_error + nat" where
  "select_plane flow_id chunk_id plane_mask =
     (let planes = active_planes plane_mask in
      if planes = [] then Inl RuntimeError else Inr (planes ! nat ((flow_id XOR chunk_id) mod int (length planes))))"

definition route_direct :: "int \<Rightarrow> int \<Rightarrow> int \<Rightarrow> py_error + fabric_route" where
  "route_direct source destination plane =
     rbind (ensure (\<not> (\<not> (0 \<le> source \<and> source < 32) \<or> \<not> (0 \<le> destination \<and> destination < 32)))) (\<lambda>_.
     rbind (ensure (0 \<le> plane \<and> plane < 8)) (\<lambda>_.
     rbind (ensure (source \<noteq> destination)) (\<lambda>_.
       Inr \<lparr>fr_source = source, fr_destination = destination, fr_plane = plane, fr_ingress = source,
         fr_egress = destination\<rparr>)))"

definition is_permutation :: "int list \<Rightarrow> bool" where
  "is_permutation destinations \<longleftrightarrow> length destinations = 32 \<and> sort destinations = [0..31]"

subsection \<open>Codecs\<close>

lemma nths_of_list: "length vs = n \<Longrightarrow> map ((!) vs) [0..<n] = vs"
  using map_nth [of vs] by simp

lemma route_context_stacked: "stacked 0 route_context_layout" "layout_width route_context_layout = 512" "length route_context_layout = 15"
  by (simp_all add: route_context_layout_def layout_width_def)

lemma route_context_of_values: "route_context_of (route_context_values x) = x"
  by (simp add: route_context_of_def route_context_values_def)

lemma route_context_values_of:
  assumes "length vs = 15"
  shows "route_context_values (route_context_of vs) = vs"
proof -
  have "[0..<15] = [0, 1, 2, 3, 4, 5, 6, 7, 8, 9, 10, 11, 12, 13, 14]" by (simp add: upt_rec)
  with nths_of_list [OF assms] show ?thesis by (simp add: route_context_of_def route_context_values_def)
qed

lemma read_route: "map (\<lambda>(lsb, width). route_get w lsb width) layout = read_layout layout w"
  by (simp add: read_layout_def route_get_bits)

lemma route_valid_fits:
  assumes "route_validate x = Inr ()"
  shows "values_fit route_context_layout (route_context_values x)"
  using assms
  by (auto simp: route_validate_def endpoint_validate_def route_context_layout_def route_context_values_def fits_def)

definition route_legal :: "route_context \<Rightarrow> bool" where
  "route_legal x \<longleftrightarrow> route_validate x = Inr ()"

lemma route_write:
  assumes "route_legal x"
  shows "\<exists>w. route_encode x = Inr w \<and> fits 512 w \<and> route_decode w = Inr x"
proof -
  have v: "values_fit route_context_layout (route_context_values x)" using assms route_valid_fits by (simp add: route_legal_def)
  from route_put.write_read [OF route_context_stacked(1) v] obtain w where
    w: "write_layout route_put route_context_layout (route_context_values x) = Inr w" "fits 512 w"
      "read_layout route_context_layout w = route_context_values x" by (auto simp: route_context_stacked)
  then show ?thesis
    using assms by (auto simp: route_encode_def route_legal_def route_decode_def read_route route_context_of_values fits_def)
qed

interpretation route_context: codec route_encode route_decode route_legal
  by unfold_locales (use route_write in fastforce)+

lemma route_read:
  assumes "fits 512 w" "route_decode w = Inr x" "route_legal x"
  shows "route_encode x = Inr w"
proof -
  have x: "x = route_context_of (read_layout route_context_layout w)"
    using assms(2) by (auto simp: route_decode_def read_route)
  then have "route_context_values x = read_layout route_context_layout w"
    by (simp add: route_context_values_of read_layout_def route_context_stacked)
  then show ?thesis
    using assms route_put.read_write [OF route_context_stacked(1), of w]
    by (simp add: route_encode_def route_legal_def route_context_stacked)
qed

definition endpoint_legal :: "global_endpoint \<Rightarrow> bool" where
  "endpoint_legal e \<longleftrightarrow> endpoint_validate e = Inr ()"

lemma and_31: "w AND 31 = take_bit 5 (w :: int)"
  using take_bit_eq_mask [of 5 w] by (simp add: mask_numeral)

lemma endpoint_write:
  assumes "endpoint_legal e"
  shows "\<exists>w. endpoint_encode e = Inr w \<and> w = 32 * ge_domain e + ge_node e \<and> fits 13 w \<and> endpoint_decode w = Inr e"
proof -
  have r: "fits 8 (ge_domain e)" "fits 5 (ge_node e)"
    using assms by (auto simp: endpoint_legal_def endpoint_validate_def fits_def)
  have w: "push_bit 5 (ge_domain e) OR ge_node e = 32 * ge_domain e + ge_node e"
    using or_add_disjoint [OF r(2), of "ge_domain e"] by (simp add: or.commute push_bit_eq_mult)
  have rng: "0 \<le> 32 * ge_domain e + ge_node e" "32 * ge_domain e + ge_node e < 8192" using r by (auto simp: fits_def)
  have "drop_bit 5 (32 * ge_domain e + ge_node e) = ge_domain e" using r by (simp add: drop_bit_eq_div fits_def)
  moreover have "(32 * ge_domain e + ge_node e) AND 31 = ge_node e"
    using r by (simp add: and_31 take_bit_eq_mod fits_def)
  ultimately have "endpoint_decode (32 * ge_domain e + ge_node e) = Inr e"
    using rng by (simp add: endpoint_decode_def)
  then show ?thesis using assms w rng by (simp add: endpoint_encode_def endpoint_legal_def fits_def)
qed

interpretation global_endpoint: codec endpoint_encode endpoint_decode endpoint_legal
  by unfold_locales (use endpoint_write in fastforce)+

subsection \<open>A packet that follows its digits arrives\<close>

text \<open>
  The stages of a route one after the other, each with the mask of its egresses that are up. The domain a list of digits names is the number they
  spell in base 8.
\<close>

fun follow :: "int list \<Rightarrow> int \<Rightarrow> int \<Rightarrow> route_context \<Rightarrow> py_error + int list \<times> route_context \<times> bool" where
  "follow [] domain_count stage x = Inr ([], x, False)"
| "follow (active_mask # masks) domain_count stage x =
     rbind (forward_at_stage x domain_count stage active_mask) (\<lambda>f.
       if sf_final f then Inr ([sf_egress f], sf_context f, True)
       else rbind (follow masks domain_count (stage + 1) (sf_context f)) (\<lambda>(egresses, y, arrived).
         Inr (sf_egress f # egresses, y, arrived)))"

definition domain_of :: "int list \<Rightarrow> int" where
  "domain_of digits = foldl (\<lambda>d digit. 8 * d + digit) 0 digits"

lemma and_7: "w AND 7 = w mod (8 :: int)"
  using take_bit_eq_mask [of 3 w] by (simp add: mask_numeral take_bit_eq_mod)

lemma and_3: "w AND 3 = w mod (4 :: int)"
  using take_bit_eq_mask [of 2 w] by (simp add: mask_numeral take_bit_eq_mod)

lemma digits_ok:
  assumes "route_digits d n = Inr digits"
  shows "domain_of digits = d" "\<forall>x\<in>set digits. 0 \<le> x \<and> x < 8" "digits \<noteq> []" "length digits \<le> 3"
    "n \<le> 8 ^ length digits"
proof -
  have d: "0 \<le> d" "d < n" "2 \<le> n" "n \<le> 256" using assms by (auto simp: route_digits_def)
  have digits: "digits = (if n \<le> 8 then [d mod 8] else if n \<le> 64 then [d div 8 mod 8, d mod 8]
      else [d div 64 mod 4, d div 8 mod 8, d mod 8])"
    using assms by (auto simp: route_digits_def and_7 and_3 drop_bit_eq_div)
  show "\<forall>x\<in>set digits. 0 \<le> x \<and> x < 8" "digits \<noteq> []" "length digits \<le> 3" "n \<le> 8 ^ length digits"
    using d by (auto simp: digits)
  have e: "8 * (d div 8) + d mod 8 = d" "8 * (d div 8 div 8) + d div 8 mod 8 = d div 8" "d div 64 = d div 8 div 8"
    using mult_div_mod_eq [of 8 d] mult_div_mod_eq [of 8 "d div 8"] zdiv_zmult2_eq [of 8 d 8] by simp_all
  consider "n \<le> 8" | "8 < n" "n \<le> 64" | "64 < n" by linarith
  then show "domain_of digits = d"
  proof cases
    case 1
    then show ?thesis using d by (simp add: digits domain_of_def)
  next
    case 2
    then have "d div 8 mod 8 = d div 8" using d by (intro mod_pos_pos_trivial) auto
    then show ?thesis using 2 e by (simp add: digits domain_of_def)
  next
    case 3
    then have "d div 64 mod 4 = d div 64" using d by (intro mod_pos_pos_trivial) auto
    then show ?thesis using 3 e by (simp add: digits domain_of_def)
  qed
qed

lemma forward_exact:
  assumes "route_legal x" "route_digits (rc_destination_domain x) n = Inr digits" "k < length digits"
    and "int (length digits) - int k < rc_domain_hop_limit x"
  shows "forward_at_stage x n (int k) up =
    (if bit up (nat (digits ! k)) then Inr \<lparr>sf_stage = int k, sf_egress = digits ! k,
       sf_context = x\<lparr>rc_domain_hop_limit := rc_domain_hop_limit x - 1\<rparr>, sf_final = (int k = int (length digits) - 1)\<rparr>
     else Inl RuntimeError)"
  using assms by (simp add: forward_at_stage_def route_legal_def Let_def bit_iff_and_push_bit_not_eq_0)

lemma forward_short:
  assumes "route_legal x" "route_digits (rc_destination_domain x) n = Inr digits"
    and "rc_domain_hop_limit x \<le> int (length digits)"
  shows "forward_at_stage x n 0 up = Inl RuntimeError"
  using assms digits_ok(3) [OF assms(2)] by (auto simp: forward_at_stage_def route_legal_def Let_def)

lemma route_legal_hop:
  "route_legal x \<Longrightarrow> 1 < rc_domain_hop_limit x \<Longrightarrow> route_legal (x\<lparr>rc_domain_hop_limit := rc_domain_hop_limit x - 1\<rparr>)"
  by (auto simp: route_legal_def route_validate_def)

definition open_egresses :: "int list \<Rightarrow> int list \<Rightarrow> bool" where
  "open_egresses masks digits = list_all2 (\<lambda>up digit. bit up (nat digit)) masks digits"

lemma follow_from:
  assumes "route_legal x" "route_digits (rc_destination_domain x) n = Inr digits" "k + length masks \<le> length digits"
    and "int (length digits) - int k < rc_domain_hop_limit x" "open_egresses masks (take (length masks) (drop k digits))"
  shows "follow masks n (int k) x =
    Inr (take (length masks) (drop k digits), x\<lparr>rc_domain_hop_limit := rc_domain_hop_limit x - int (length masks)\<rparr>,
      masks \<noteq> [] \<and> k + length masks = length digits) \<and>
    route_legal (x\<lparr>rc_domain_hop_limit := rc_domain_hop_limit x - int (length masks)\<rparr>)"
  using assms
proof (induction masks arbitrary: x k)
  case (Cons up masks)
  let ?y = "x\<lparr>rc_domain_hop_limit := rc_domain_hop_limit x - 1\<rparr>"
  have k: "k < length digits" using Cons.prems(3) by simp
  have d: "drop k digits = digits ! k # drop (Suc k) digits" by (rule Cons_nth_drop_Suc [OF k, symmetric])
  have m: "bit up (nat (digits ! k))" "open_egresses masks (take (length masks) (drop (Suc k) digits))"
    using Cons.prems(5) by (simp_all add: d open_egresses_def)
  have f: "forward_at_stage x n (int k) up = Inr \<lparr>sf_stage = int k, sf_egress = digits ! k, sf_context = ?y,
      sf_final = (int k = int (length digits) - 1)\<rparr>"
    using forward_exact [OF Cons.prems(1,2) k Cons.prems(4), of up] m(1) by simp
  have y: "route_legal ?y" using route_legal_hop [OF Cons.prems(1)] Cons.prems(4) k by simp
  have "follow masks n (int (Suc k)) ?y =
      Inr (take (length masks) (drop (Suc k) digits), ?y\<lparr>rc_domain_hop_limit := rc_domain_hop_limit ?y - int (length masks)\<rparr>,
        masks \<noteq> [] \<and> Suc k + length masks = length digits) \<and>
      route_legal (?y\<lparr>rc_domain_hop_limit := rc_domain_hop_limit ?y - int (length masks)\<rparr>)"
    using Cons.prems m(2) by (intro Cons.IH [OF y]) auto
  then show ?case using f d Cons.prems(3) by (cases masks) (auto simp: algebra_simps)
qed (simp add: route_legal_def)

lemma follow_append:
  "follow masks n stage x = Inr (egresses, y, False) \<Longrightarrow>
   follow (masks @ later) n stage x = rbind (follow later n (stage + int (length masks)) y) (\<lambda>(rest, z, arrived).
     Inr (egresses @ rest, z, arrived))"
proof (induction masks arbitrary: stage x egresses)
  case (Cons up masks)
  from Cons.prems obtain f es where f: "forward_at_stage x n stage up = Inr f" "\<not> sf_final f"
    "follow masks n (stage + 1) (sf_context f) = Inr (es, y, False)" "egresses = sf_egress f # es"
    by (auto simp: rbind_eq_Inr split: if_splits)
  show ?case
    by (simp add: f(1,2,4) Cons.IH [OF f(3)] add.assoc)
      (cases "follow later n (stage + (1 + int (length masks))) y"; auto)
next
  case Nil
  then show ?case by (cases "follow later n stage x") auto
qed

text \<open>
  What a packet meets on its way: a budget too small for the whole way is refused at the first stage; otherwise it follows its
  digits up to the first stage whose egress is down.
\<close>

lemma follow_arrives:
  assumes "route_legal x" "route_digits (rc_destination_domain x) n = Inr digits" "length masks = length digits"
    and "int (length digits) < rc_domain_hop_limit x" "open_egresses masks digits"
  shows "follow masks n 0 x = Inr (digits, x\<lparr>rc_domain_hop_limit := rc_domain_hop_limit x - int (length digits)\<rparr>, True)"
proof -
  have "masks \<noteq> []" using digits_ok(3) [OF assms(2)] assms(3) by auto
  then show ?thesis using follow_from [OF assms(1,2), of 0 masks] assms(3-5) by simp
qed

lemma follow_stops:
  assumes "route_legal x" "route_digits (rc_destination_domain x) n = Inr digits" "length masks = length digits"
    and "int (length digits) < rc_domain_hop_limit x" "\<not> open_egresses masks digits"
  obtains k where "k < length digits" "\<not> bit (masks ! k) (nat (digits ! k))"
    "follow (take k masks) n 0 x = Inr (take k digits, x\<lparr>rc_domain_hop_limit := rc_domain_hop_limit x - int k\<rparr>, False)"
    "forward_at_stage (x\<lparr>rc_domain_hop_limit := rc_domain_hop_limit x - int k\<rparr>) n (int k) (masks ! k) = Inl RuntimeError"
    "follow masks n 0 x = Inl RuntimeError"
proof -
  let ?down = "\<lambda>k. k < length digits \<and> \<not> bit (masks ! k) (nat (digits ! k))"
  define k where "k = (LEAST k. ?down k)"
  have "\<exists>k. ?down k" using assms(3,5) by (auto simp: open_egresses_def list_all2_conv_all_nth)
  then have k: "?down k" unfolding k_def by (rule LeastI_ex)
  have least: "bit (masks ! j) (nat (digits ! j))" if "j < k" for j
    using not_less_Least [of j ?down] that k unfolding k_def [symmetric] by auto
  let ?y = "x\<lparr>rc_domain_hop_limit := rc_domain_hop_limit x - int k\<rparr>"
  have l: "length (take k masks) = k" using k assms(3) by simp
  have "open_egresses (take k masks) (take k digits)"
    using k assms(3) least by (auto simp: open_egresses_def list_all2_conv_all_nth)
  then have f: "follow (take k masks) n 0 x = Inr (take k digits, ?y, False)" and y: "route_legal ?y"
    using follow_from [OF assms(1,2), of 0 "take k masks"] k assms(3,4) by (auto simp: l)
  have s: "forward_at_stage ?y n (int k) (masks ! k) = Inl RuntimeError"
    using forward_exact [OF y, of n digits k "masks ! k"] assms(2,4) k by simp
  have "masks = take k masks @ masks ! k # drop (Suc k) masks" using k assms(3) by (simp add: id_take_nth_drop)
  then have "follow masks n 0 x = Inl RuntimeError"
    using follow_append [OF f, of "masks ! k # drop (Suc k) masks"] s l by simp
  with that k f s show thesis by blast
qed

lemma selected_uplink_active:
  assumes "select_uplink t active_mask n = Inr u"
  shows "0 \<le> u \<and> u < n \<and> bit active_mask (nat u)"
proof -
  let ?act = "filter (\<lambda>index. active_mask AND push_bit index 1 \<noteq> 0) [0..<nat n]"
  have act: "?act \<noteq> []" and u: "u = int (?act ! nat (t mod int (length ?act)))"
    using assms by (auto simp: select_uplink_def Let_def split: if_splits)
  have "nat (t mod int (length ?act)) < length ?act" using act by (simp add: nat_less_iff)
  then have "?act ! nat (t mod int (length ?act)) \<in> set ?act" by (rule nth_mem)
  then have *: "nat u < nat n" "active_mask AND push_bit (nat u) 1 \<noteq> 0" by (auto simp: u)
  have "bit active_mask (nat u)"
  proof (rule ccontr)
    assume "\<not> bit active_mask (nat u)"
    then have "active_mask AND push_bit (nat u) 1 = 0" by (intro bit_eqI) (auto simp: bit_simps)
    with * show False by simp
  qed
  moreover have "0 \<le> u" by (simp add: u)
  moreover from this *(1) have "u < n" by linarith
  ultimately show ?thesis by blast
qed

end
