(* ===== verification/Kd_Transaction.thy ===== *)
theory Kd_Transaction
  imports Kd_Route "HOL-Library.Sublist"
begin

section \<open>KDLink global transactions: replay at the source, commits at the destination\<close>

text \<open>
  \<open>kdlink_model/multidomain.py\<close>: the source that keeps a transaction until its commit comes back and sends it again after
  a timeout or a reset of the routes, the destination's history of commits, and the table of groups. \<open>tick\<close> may raise in
  the middle of its loop, with the transactions before already changed; its result has both.
\<close>

record transaction =
  tr_epoch :: int
  tr_retry :: int
  tr_age :: int
  tr_pending :: bool

record transaction_source =
  ts_timeout :: int
  ts_max_retries :: int
  ts_slots :: int
  ts_outstanding :: "(int \<times> transaction) list"

record global_send =
  gs_id :: int
  gs_epoch :: int
  gs_retry :: int

definition source_create :: "int \<Rightarrow> int \<Rightarrow> int \<Rightarrow> py_error + transaction_source" where
  "source_create timeout max_retries slots =
     rbind (ensure (\<not> (timeout < 1 \<or> max_retries < 1))) (\<lambda>_.
       Inr \<lparr>ts_timeout = timeout, ts_max_retries = max_retries, ts_slots = slots, ts_outstanding = []\<rparr>)"

definition source_outstanding :: "transaction_source \<Rightarrow> int list" where
  "source_outstanding s = sort (map fst (ts_outstanding s))"

definition source_begin :: "transaction_source \<Rightarrow> int \<Rightarrow> int \<Rightarrow> py_error + transaction_source" where
  "source_begin s t epoch =
     rbind (ensure (0 \<le> t \<and> t < 2 ^ 64)) (\<lambda>_.
     rbind (ensure (0 \<le> epoch \<and> epoch < 256)) (\<lambda>_.
       if map_of (ts_outstanding s) t \<noteq> None then Inl RuntimeError
       else if ts_outstanding s \<noteq> [] \<and> ts_slots s = 0 then Inl ZeroDivisionError
       else if list_ex (\<lambda>(existing, _). existing mod ts_slots s = t mod ts_slots s) (ts_outstanding s) then Inl RuntimeError
       else Inr (s\<lparr>ts_outstanding := AList.update t \<lparr>tr_epoch = epoch, tr_retry = 0, tr_age = 0, tr_pending = True\<rparr>
              (ts_outstanding s)\<rparr>)))"

definition source_next_send :: "transaction_source \<Rightarrow> transaction_source \<times> global_send option" where
  "source_next_send s =
     (case filter (\<lambda>t. tr_pending (the (map_of (ts_outstanding s) t))) (source_outstanding s) of
        [] \<Rightarrow> (s, None)
      | t # _ \<Rightarrow>
          let x = the (map_of (ts_outstanding s) t) in
          (s\<lparr>ts_outstanding := AList.update t (x\<lparr>tr_pending := False, tr_age := 0\<rparr>) (ts_outstanding s)\<rparr>,
           Some \<lparr>gs_id = t, gs_epoch = tr_epoch x, gs_retry = tr_retry x\<rparr>))"

fun tick_loop :: "int \<Rightarrow> int \<Rightarrow> (int \<times> transaction) list \<Rightarrow> (int \<times> transaction) list \<times> py_error option" where
  "tick_loop timeout max_retries [] = ([], None)"
| "tick_loop timeout max_retries ((t, x) # rest) =
     (if tr_pending x then (case tick_loop timeout max_retries rest of (rest, e) \<Rightarrow> ((t, x) # rest, e))
      else let x = x\<lparr>tr_age := tr_age x + 1\<rparr> in
        if timeout \<le> tr_age x then
          (if max_retries \<le> tr_retry x then ((t, x) # rest, Some TimeoutError)
           else case tick_loop timeout max_retries rest of (rest, e) \<Rightarrow>
             ((t, x\<lparr>tr_retry := tr_retry x + 1, tr_age := 0, tr_pending := True\<rparr>) # rest, e))
        else (case tick_loop timeout max_retries rest of (rest, e) \<Rightarrow> ((t, x) # rest, e)))"

definition global_tick :: "transaction_source \<Rightarrow> transaction_source \<times> py_error option" where
  "global_tick s =
     (case tick_loop (ts_timeout s) (ts_max_retries s) (ts_outstanding s) of (ts, e) \<Rightarrow> (s\<lparr>ts_outstanding := ts\<rparr>, e))"

definition source_route_reset :: "transaction_source \<Rightarrow> int \<Rightarrow> py_error + transaction_source" where
  "source_route_reset s epoch =
     rbind (ensure (0 \<le> epoch \<and> epoch < 256)) (\<lambda>_.
       Inr (s\<lparr>ts_outstanding := map (\<lambda>(t, x). (t, x\<lparr>tr_epoch := epoch, tr_retry := tr_retry x + 1, tr_age := 0,
         tr_pending := True\<rparr>)) (ts_outstanding s)\<rparr>))"

definition source_commit :: "transaction_source \<Rightarrow> int \<Rightarrow> int \<Rightarrow> transaction_source \<times> bool" where
  "source_commit s t epoch =
     (case map_of (ts_outstanding s) t of
        None \<Rightarrow> (s, False)
      | Some x \<Rightarrow> if tr_epoch x \<noteq> epoch then (s, False)
          else (s\<lparr>ts_outstanding := AList.delete t (ts_outstanding s)\<rparr>, True))"

record commit_tracker =
  ct_depth :: int
  ct_history :: "(int \<times> (int \<times> int \<times> int)) list"

record destination_commit =
  dc_deliver :: bool
  dc_acknowledge :: bool

definition tracker_create :: "int \<Rightarrow> py_error + commit_tracker" where
  "tracker_create depth = rbind (ensure (1 \<le> depth)) (\<lambda>_. Inr \<lparr>ct_depth = depth, ct_history = []\<rparr>)"

definition tracker_commit ::
  "commit_tracker \<Rightarrow> global_endpoint \<Rightarrow> int \<Rightarrow> int \<Rightarrow> py_error + commit_tracker \<times> destination_commit" where
  "tracker_commit c source t epoch =
     rbind (endpoint_validate source) (\<lambda>_.
     rbind (ensure (0 \<le> epoch \<and> epoch < 256)) (\<lambda>_.
       let identity = (ge_domain source, ge_node source, t); index = t mod ct_depth c in
       if map_of (ct_history c) index = Some identity then Inr (c, \<lparr>dc_deliver = False, dc_acknowledge = True\<rparr>)
       else Inr (c\<lparr>ct_history := AList.update index identity (ct_history c)\<rparr>, \<lparr>dc_deliver = True, dc_acknowledge = True\<rparr>)))"

definition tracker_route_reset :: "commit_tracker \<Rightarrow> commit_tracker" where
  "tracker_route_reset c = c"

type_synonym group_table = "(int \<times> (int \<times> int list)) list"

definition group_configure :: "group_table \<Rightarrow> int \<Rightarrow> int list \<Rightarrow> int \<Rightarrow> py_error + group_table" where
  "group_configure g group_id members epoch =
     (let normalized = sort (remdups members) in
      rbind (ensure (\<not> (normalized = [] \<or> list_ex (\<lambda>m. \<not> (0 \<le> m \<and> m < 256)) normalized))) (\<lambda>_.
      rbind (ensure (length normalized = length members)) (\<lambda>_.
      rbind (ensure (0 \<le> epoch \<and> epoch < 256)) (\<lambda>_.
        Inr (AList.update group_id (epoch, normalized) g)))))"

definition group_lookup :: "group_table \<Rightarrow> int \<Rightarrow> int \<Rightarrow> py_error + int list" where
  "group_lookup g group_id epoch =
     (case map_of g group_id of
        None \<Rightarrow> Inl KeyError
      | Some (e, members) \<Rightarrow> if e \<noteq> epoch then Inl KeyError else Inr members)"

subsection \<open>The history of commits, exactly\<close>

text \<open>
  The destination remembers one identity per slot. A commit is delivered unless it repeats the last one of its slot.
\<close>

type_synonym commit_event = "global_endpoint \<times> int \<times> int"

definition commit_identity :: "commit_event \<Rightarrow> int \<times> int \<times> int" where
  "commit_identity e = (case e of (source, t, epoch) \<Rightarrow> (ge_domain source, ge_node source, t))"

definition commit_legal :: "commit_event \<Rightarrow> bool" where
  "commit_legal e \<longleftrightarrow> (case e of (source, t, epoch) \<Rightarrow> endpoint_legal source \<and> 0 \<le> epoch \<and> epoch < 256)"

definition tracker_step :: "commit_tracker \<Rightarrow> commit_event \<Rightarrow> py_error + commit_tracker \<times> destination_commit" where
  "tracker_step c e = (case e of (source, t, epoch) \<Rightarrow> tracker_commit c source t epoch)"

definition last_in_slot :: "int \<Rightarrow> int \<Rightarrow> (int \<times> int \<times> int) list \<Rightarrow> (int \<times> int \<times> int) option" where
  "last_in_slot depth index ids =
     (let xs = filter (\<lambda>(d, n, t). t mod depth = index) ids in if xs = [] then None else Some (last xs))"

fun deliveries :: "int \<Rightarrow> (int \<times> int \<times> int) list \<Rightarrow> (int \<times> int \<times> int) list \<Rightarrow> bool list" where
  "deliveries depth seen [] = []"
| "deliveries depth seen (x # xs) =
     (last_in_slot depth (snd (snd x) mod depth) seen \<noteq> Some x) # deliveries depth (seen @ [x]) xs"

lemma last_in_slot_snoc:
  "last_in_slot depth index (ids @ [x]) = (if snd (snd x) mod depth = index then Some x else last_in_slot depth index ids)"
  by (cases x) (auto simp: last_in_slot_def Let_def)

lemma tracker_exact:
  assumes "\<forall>index. map_of (ct_history c) index = last_in_slot depth index seen" "ct_depth c = depth"
    and "list_all commit_legal es"
  shows "\<exists>t outs. run tracker_step c es = Inr (t, outs) \<and> map dc_deliver outs = deliveries depth seen (map commit_identity es) \<and>
    list_all dc_acknowledge outs"
  using assms
proof (induction es arbitrary: c seen)
  case (Cons e es)
  obtain source t epoch where e: "e = (source, t, epoch)" by (cases e) auto
  let ?i = "commit_identity e"
  have v: "endpoint_validate source = Inr ()" "0 \<le> epoch \<and> epoch < 256"
    using Cons.prems(3) by (auto simp: e commit_legal_def endpoint_legal_def)
  have slot: "snd (snd ?i) = t" by (simp add: commit_identity_def e)
  show ?case
  proof (cases "last_in_slot depth (t mod depth) seen = Some ?i")
    case True
    then have st: "tracker_step c e = Inr (c, \<lparr>dc_deliver = False, dc_acknowledge = True\<rparr>)"
      using v Cons.prems(1,2) by (simp add: tracker_step_def tracker_commit_def e commit_identity_def)
    have "\<forall>index. map_of (ct_history c) index = last_in_slot depth index (seen @ [?i])"
      using True Cons.prems(1) slot by (auto simp: last_in_slot_snoc)
    from Cons.IH [OF this Cons.prems(2)] Cons.prems(3) st True slot show ?thesis by auto
  next
    case False
    let ?c = "c\<lparr>ct_history := AList.update (t mod depth) ?i (ct_history c)\<rparr>"
    have st: "tracker_step c e = Inr (?c, \<lparr>dc_deliver = True, dc_acknowledge = True\<rparr>)"
      using False v Cons.prems(1,2) by (simp add: tracker_step_def tracker_commit_def e commit_identity_def)
    have "\<forall>index. map_of (ct_history ?c) index = last_in_slot depth index (seen @ [?i])"
      using Cons.prems(1) slot by (auto simp: last_in_slot_snoc update_conv')
    moreover have "ct_depth ?c = depth" using Cons.prems(2) by simp
    ultimately obtain t' outs where "run tracker_step ?c es = Inr (t', outs)"
      "map dc_deliver outs = deliveries depth (seen @ [?i]) (map commit_identity es)" "list_all dc_acknowledge outs"
      using Cons.IH [of ?c "seen @ [?i]"] Cons.prems(3) by auto
    with st False slot show ?thesis by auto
  qed
qed simp

subsection \<open>Exactly once, from one source to one destination\<close>

datatype source_event = Begin int int | Send | Tick_Source | Reset_Routes int | Acked int int

datatype source_output = Began int | Sent_Out global_send | Quiet

fun source_step :: "transaction_source \<Rightarrow> source_event \<Rightarrow> py_error + transaction_source \<times> source_output" where
  "source_step s (Begin t epoch) = Inr (case source_begin s t epoch of Inl e \<Rightarrow> (s, Quiet) | Inr s' \<Rightarrow> (s', Began t))"
| "source_step s Send = Inr (case source_next_send s of (s', None) \<Rightarrow> (s', Quiet) | (s', Some g) \<Rightarrow> (s', Sent_Out g))"
| "source_step s Tick_Source = Inr (fst (global_tick s), Quiet)"
| "source_step s (Reset_Routes epoch) = Inr (case source_route_reset s epoch of Inl e \<Rightarrow> (s, Quiet) | Inr s' \<Rightarrow> (s', Quiet))"
| "source_step s (Acked t epoch) = Inr (fst (source_commit s t epoch), Quiet)"

fun begun :: "source_output list \<Rightarrow> int list" where
  "begun [] = []"
| "begun (Began t # outs) = t # begun outs"
| "begun (_ # outs) = begun outs"

fun sends :: "source_output list \<Rightarrow> global_send list" where
  "sends [] = []"
| "sends (Sent_Out g # outs) = g # sends outs"
| "sends (_ # outs) = sends outs"

definition no_return :: "int \<Rightarrow> int list \<Rightarrow> bool" where
  "no_return slots ids \<longleftrightarrow> (\<forall>a b. a \<noteq> b \<and> a mod slots = b mod slots \<longrightarrow> \<not> subseq [a, b, a] ids)"

lemma no_return_subseq: "subseq xs ys \<Longrightarrow> no_return slots ys \<Longrightarrow> no_return slots xs"
  unfolding no_return_def by (meson subseq_order.order_trans)

definition identity_of :: "global_endpoint \<Rightarrow> int \<Rightarrow> int \<times> int \<times> int" where
  "identity_of e t = (ge_domain e, ge_node e, t)"

lemma subseq_snoc_snoc: "subseq (xs @ [x]) (ys @ [t]) \<longleftrightarrow> subseq (xs @ [x]) ys \<or> (x = t \<and> subseq xs ys)"
proof
  assume "subseq (xs @ [x]) (ys @ [t])"
  then obtain us vs where u: "xs @ [x] = us @ vs" "subseq us ys" "subseq vs [t]" by (auto simp: subseq_append_iff)
  show "subseq (xs @ [x]) ys \<or> (x = t \<and> subseq xs ys)"
  proof (cases vs rule: rev_cases)
    case Nil
    with u show ?thesis by simp
  next
    case (snoc zs z)
    then have "length (zs @ [z]) \<le> length [t]" using u(3) list_emb_length by blast
    then have "zs = []" by simp
    with snoc u show ?thesis by (auto split: if_splits)
  qed
next
  assume "subseq (xs @ [x]) ys \<or> (x = t \<and> subseq xs ys)"
  then show "subseq (xs @ [x]) (ys @ [t])" by (auto intro: list_emb_append2 list_emb_append_mono)
qed

lemma subseq_snoc2: "subseq [a, b] (ss @ [t]) \<longleftrightarrow> subseq [a, b] ss \<or> (b = t \<and> a \<in> set ss)"
  using subseq_snoc_snoc [of "[a]" b ss t] by (simp add: subseq_singleton_left)

lemma subseq_snoc3: "subseq [a, b, c] (ss @ [t]) \<longleftrightarrow> subseq [a, b, c] ss \<or> (c = t \<and> subseq [a, b] ss)"
  using subseq_snoc_snoc [of "[a, b]" c ss t] by simp

lemma repeat_is_last:
  assumes nr: "no_return slots (seen @ t # rest)" and t: "t \<in> set seen"
  shows "last_in_slot slots (t mod slots) (map (identity_of e) seen) = Some (identity_of e t)"
proof -
  define F where "F = filter (\<lambda>u. u mod slots = t mod slots) seen"
  have f: "filter (\<lambda>(d, n, u). u mod slots = t mod slots) (map (identity_of e) seen) = map (identity_of e) F"
    by (simp add: F_def filter_map comp_def identity_of_def)
  have tF: "t \<in> set F" using t by (simp add: F_def)
  then obtain ys b where F: "F = ys @ [b]" by (cases F rule: rev_cases) auto
  have "b = t"
  proof (rule ccontr)
    assume n: "b \<noteq> t"
    then have "t \<in> set ys" using tF F by simp
    then have "subseq [t, b] F" unfolding F by (simp add: subseq_snoc2)
    then have "subseq [t, b] seen" unfolding F_def using subseq_filter_left subseq_order.order_trans by blast
    then have "subseq ([t, b] @ [t]) (seen @ t # rest)" by (intro list_emb_append_mono) auto
    moreover have "b mod slots = t mod slots"
    proof -
      have "b \<in> set F" by (simp add: F)
      then show ?thesis by (simp add: F_def)
    qed
    ultimately show False using nr n unfolding no_return_def by (metis append_Cons append_Nil)
  qed
  then show ?thesis by (simp add: last_in_slot_def Let_def f F)
qed

lemma deliveries_fresh:
  assumes "no_return slots (seen @ ts)"
  shows "deliveries slots (map (identity_of e) seen) (map (identity_of e) ts) = map (\<lambda>k. ts ! k \<notin> set (seen @ take k ts)) [0..<length ts]"
  using assms
proof (induction ts arbitrary: seen)
  case (Cons t ts)
  have slot: "snd (snd (identity_of e t)) = t" by (simp add: identity_of_def)
  have inj: "identity_of e u = identity_of e t \<longleftrightarrow> u = t" for u by (simp add: identity_of_def)
  have first: "last_in_slot slots (t mod slots) (map (identity_of e) seen) \<noteq> Some (identity_of e t) \<longleftrightarrow> t \<notin> set seen"
  proof
    assume "t \<notin> set seen"
    show "last_in_slot slots (t mod slots) (map (identity_of e) seen) \<noteq> Some (identity_of e t)"
    proof
      let ?xs = "filter (\<lambda>(d, n, u). u mod slots = t mod slots) (map (identity_of e) seen)"
      assume "last_in_slot slots (t mod slots) (map (identity_of e) seen) = Some (identity_of e t)"
      then have "?xs \<noteq> []" "last ?xs = identity_of e t" by (auto simp: last_in_slot_def Let_def split: if_splits)
      then have "identity_of e t \<in> set ?xs" using last_in_set by metis
      with \<open>t \<notin> set seen\<close> inj show False by auto
    qed
  qed (use repeat_is_last [OF Cons.prems] in blast)
  have e: "[0..<length (t # ts)] = 0 # map Suc [0..<length ts]" by (simp add: map_Suc_upt upt_conv_Cons del: upt_Suc)
  have "deliveries slots (map (identity_of e) (seen @ [t])) (map (identity_of e) ts) =
      map (\<lambda>k. ts ! k \<notin> set ((seen @ [t]) @ take k ts)) [0..<length ts]"
    using Cons.IH [of "seen @ [t]"] Cons.prems by simp
  then show ?case unfolding e using first slot by (auto simp del: upt_Suc)
qed simp

subsection \<open>What the source sends\<close>

definition ids_of :: "transaction_source \<Rightarrow> int set" where
  "ids_of s = fst ` set (ts_outstanding s)"

definition source_inv :: "int \<Rightarrow> int list \<Rightarrow> int list \<Rightarrow> transaction_source \<Rightarrow> bool" where
  "source_inv slots bs ss s \<longleftrightarrow> ts_slots s = slots \<and> set ss \<subseteq> set bs \<and> ids_of s \<subseteq> set bs \<and>
     (\<forall>a\<in>ids_of s. \<forall>b\<in>ids_of s. a mod slots = b mod slots \<longrightarrow> a = b) \<and>
     (\<forall>a b. a \<noteq> b \<and> a mod slots = b mod slots \<and> subseq [a, b] ss \<longrightarrow> a \<notin> ids_of s) \<and> no_return slots ss"

lemma source_invI:
  assumes "ts_slots s = slots" "set ss \<subseteq> set bs" "ids_of s \<subseteq> set bs"
    and "\<And>a b. a \<in> ids_of s \<Longrightarrow> b \<in> ids_of s \<Longrightarrow> a mod slots = b mod slots \<Longrightarrow> a = b"
    and "\<And>a b. a \<noteq> b \<Longrightarrow> a mod slots = b mod slots \<Longrightarrow> subseq [a, b] ss \<Longrightarrow> a \<notin> ids_of s"
    and "no_return slots ss"
  shows "source_inv slots bs ss s"
  using assms unfolding source_inv_def by blast

lemma source_invD:
  assumes "source_inv slots bs ss s"
  shows "ts_slots s = slots" "set ss \<subseteq> set bs" "ids_of s \<subseteq> set bs"
    "a \<in> ids_of s \<Longrightarrow> b \<in> ids_of s \<Longrightarrow> a mod slots = b mod slots \<Longrightarrow> a = b"
    "a \<noteq> b \<Longrightarrow> a mod slots = b mod slots \<Longrightarrow> subseq [a, b] ss \<Longrightarrow> a \<notin> ids_of s"
    "no_return slots ss"
  using assms unfolding source_inv_def by (elim conjE, blast)+

lemma source_inv_fewer:
  assumes "source_inv slots bs ss s" "ids_of s' \<subseteq> ids_of s" "ts_slots s' = ts_slots s"
  shows "source_inv slots bs ss s'"
proof (rule source_invI)
  note I = source_invD [OF assms(1)]
  show "ts_slots s' = slots" "set ss \<subseteq> set bs" "ids_of s' \<subseteq> set bs" "no_return slots ss"
    using I(1,2,3,6) assms(2,3) by auto
  show "a = b" if "a \<in> ids_of s'" "b \<in> ids_of s'" "a mod slots = b mod slots" for a b
    using I(4) [OF _ _ that(3)] that(1,2) assms(2) by blast
  show "a \<notin> ids_of s'" if "a \<noteq> b" "a mod slots = b mod slots" "subseq [a, b] ss" for a b
    using I(5) [OF that] assms(2) by blast
qed

lemma source_inv_send:
  assumes "source_inv slots bs ss s" and t: "t \<in> ids_of s"
  shows "source_inv slots bs (ss @ [t]) s"
proof (rule source_invI)
  note I = source_invD [OF assms(1)]
  show "ts_slots s = slots" "set (ss @ [t]) \<subseteq> set bs" "ids_of s \<subseteq> set bs"
    using I(1,2,3) t by auto
  show "a = b" if "a \<in> ids_of s" "b \<in> ids_of s" "a mod slots = b mod slots" for a b
    using I(4) [OF that] .
  show "a \<notin> ids_of s" if "a \<noteq> b" "a mod slots = b mod slots" "subseq [a, b] (ss @ [t])" for a b
    using that I(4) [of a t] I(5) [of a b] t unfolding subseq_snoc2 by blast
  show "no_return slots (ss @ [t])"
    unfolding no_return_def subseq_snoc3
  proof (intro allI impI, elim conjE)
    fix a b
    assume "a \<noteq> b" "a mod slots = b mod slots"
    then show "\<not> (subseq [a, b, a] ss \<or> a = t \<and> subseq [a, b] ss)"
      using I(5) [of a b] I(6) t unfolding no_return_def by blast
  qed
qed

lemma source_beginD:
  assumes "source_begin s t epoch = Inr s'"
  shows "ts_slots s' = ts_slots s" "ids_of s' = insert t (ids_of s)"
    "a \<in> ids_of s \<Longrightarrow> a mod ts_slots s \<noteq> t mod ts_slots s"
proof -
  have ex: "\<not> list_ex (\<lambda>(existing, _). existing mod ts_slots s = t mod ts_slots s) (ts_outstanding s)"
    and s': "s' = s\<lparr>ts_outstanding := AList.update t \<lparr>tr_epoch = epoch, tr_retry = 0, tr_age = 0, tr_pending = True\<rparr>
              (ts_outstanding s)\<rparr>"
    using assms unfolding source_begin_def rbind_ensure by (simp_all split: if_splits)
  show "ts_slots s' = ts_slots s" "ids_of s' = insert t (ids_of s)"
    by (simp_all add: s' update_keys ids_of_def)
  show "a mod ts_slots s \<noteq> t mod ts_slots s" if "a \<in> ids_of s"
    using ex that by (auto simp: list_ex_iff ids_of_def)
qed

lemma source_inv_begin:
  assumes "source_inv slots bs ss s" "source_begin s t epoch = Inr s'" "t \<notin> set bs"
  shows "source_inv slots (bs @ [t]) ss s'"
proof (rule source_invI)
  note I = source_invD [OF assms(1)] and B = source_beginD [OF assms(2)]
  show "ts_slots s' = slots" "set ss \<subseteq> set (bs @ [t])" "ids_of s' \<subseteq> set (bs @ [t])"
    using I(1,2,3) B(1,2) by auto
  show "a = b" if ab: "a \<in> ids_of s'" "b \<in> ids_of s'" "a mod slots = b mod slots" for a b
  proof -
    have m: "a \<in> ids_of s \<Longrightarrow> a mod slots \<noteq> t mod slots" "b \<in> ids_of s \<Longrightarrow> b mod slots \<noteq> t mod slots"
      using B(3) I(1) by simp_all
    consider "a = t" "b = t" | "a = t" "b \<in> ids_of s" | "a \<in> ids_of s" "b = t" | "a \<in> ids_of s" "b \<in> ids_of s"
      using ab(1,2) unfolding B(2) by blast
    then show ?thesis
    proof cases
      case 2
      with m(2) ab(3) show ?thesis by metis
    next
      case 3
      with m(1) ab(3) show ?thesis by metis
    next
      case 4
      then show ?thesis using I(4) [OF _ _ ab(3)] by blast
    next
      case 1
      then show ?thesis by (rule trans [OF _ sym])
    qed
  qed
  show "a \<notin> ids_of s'" if ab: "a \<noteq> b" "a mod slots = b mod slots" "subseq [a, b] ss" for a b
  proof -
    have "a \<in> set ss" using list_emb_set [OF ab(3), of a] by auto
    then have "a \<noteq> t" using I(2) assms(3) by blast
    then show ?thesis using I(5) [OF ab] unfolding B(2) by simp
  qed
  show "no_return slots ss" by (rule I(6))
qed

lemma tick_loop_keys: "map fst (fst (tick_loop timeout retries ts)) = map fst ts"
  by (induction ts) (auto simp: Let_def split: prod.splits)

lemma next_send_cases:
  obtains (none) "source_next_send s = (s, None)"
  | (some) t g s' where "source_next_send s = (s', Some g)" "gs_id g = t" "t \<in> ids_of s"
      "ids_of s' \<subseteq> ids_of s" "ts_slots s' = ts_slots s"
proof (cases "filter (\<lambda>t. tr_pending (the (map_of (ts_outstanding s) t))) (source_outstanding s)")
  case Nil
  then show thesis by (intro none) (simp add: source_next_send_def)
next
  case (Cons t rest)
  then have "t \<in> set (source_outstanding s)" by (metis filter_is_subset list.set_intros(1) subsetD)
  then have t: "t \<in> ids_of s" by (auto simp: source_outstanding_def ids_of_def)
  show thesis
  proof (rule some)
    let ?x = "the (map_of (ts_outstanding s) t)"
    let ?s = "s\<lparr>ts_outstanding := AList.update t (?x\<lparr>tr_pending := False, tr_age := 0\<rparr>) (ts_outstanding s)\<rparr>"
    show "source_next_send s = (?s, Some \<lparr>gs_id = t, gs_epoch = tr_epoch ?x, gs_retry = tr_retry ?x\<rparr>)"
      using Cons by (simp add: source_next_send_def Let_def)
    show "ids_of ?s \<subseteq> ids_of s" using t by (simp add: update_keys ids_of_def)
  qed (use t in simp_all)
qed

lemma source_step_inv:
  assumes "source_inv slots bs ss s" "source_step s ev = Inr (s', out)" "distinct (bs @ begun [out])"
  shows "source_inv slots (bs @ begun [out]) (ss @ map gs_id (sends [out])) s'"
proof (cases ev)
  case (Begin t epoch)
  show ?thesis
  proof (cases "source_begin s t epoch")
    case (Inl e)
    with Begin assms show ?thesis by auto
  next
    case (Inr s1)
    with Begin assms source_inv_begin [OF assms(1) Inr] show ?thesis by auto
  qed
next
  case Send
  show ?thesis
  proof (cases s rule: next_send_cases)
    case none
    with Send assms show ?thesis by auto
  next
    case (some t g s1)
    with source_inv_fewer [OF source_inv_send [OF assms(1) some(3)] some(4,5)] Send assms(2) show ?thesis by auto
  qed
next
  case Tick_Source
  have "ids_of (fst (global_tick s)) = ids_of s"
    using tick_loop_keys [of "ts_timeout s" "ts_max_retries s" "ts_outstanding s"]
    by (auto simp: global_tick_def case_prod_beta ids_of_def simp flip: set_map)
  with Tick_Source assms source_inv_fewer [OF assms(1), of s'] show ?thesis
    by (auto simp: global_tick_def case_prod_beta)
next
  case (Reset_Routes epoch)
  have "fst ` (\<lambda>(t, x). (t, f x)) ` A = fst ` A" for f :: "transaction \<Rightarrow> transaction" and A :: "(int \<times> transaction) set"
    by force
  with Reset_Routes assms source_inv_fewer [OF assms(1), of s'] show ?thesis
    by (auto simp: source_route_reset_def rbind_ensure ids_of_def split: if_splits sum.splits)
next
  case (Acked t epoch)
  with assms source_inv_fewer [OF assms(1), of s'] show ?thesis
    by (auto simp: source_commit_def delete_keys ids_of_def split: option.splits if_splits)
qed

lemma source_run_inv:
  assumes "source_inv slots bs ss s" "run source_step s evs = Inr (t, outs)" "distinct (bs @ begun outs)"
  shows "source_inv slots (bs @ begun outs) (ss @ map gs_id (sends outs)) t"
  using assms
proof (induction evs arbitrary: bs ss s outs)
  case (Cons ev evs)
  from Cons.prems(2) obtain s1 out outs' where st: "source_step s ev = Inr (s1, out)"
    and r: "run source_step s1 evs = Inr (t, outs')" and outs: "outs = out # outs'" by (rule run_ConsE)
  have b: "begun outs = begun [out] @ begun outs'" "sends outs = sends [out] @ sends outs'"
    by (cases out; simp add: outs)+
  have "distinct (bs @ begun [out])" using Cons.prems(3) by (auto simp: b)
  from Cons.IH [OF source_step_inv [OF Cons.prems(1) st this] r] Cons.prems(3) show ?case by (simp add: b)
qed simp

lemma no_return_dvd: "no_return slots ids \<Longrightarrow> slots dvd depth \<Longrightarrow> no_return depth ids"
  unfolding no_return_def by (metis mod_mod_cancel)

lemma exactly_once:
  assumes "source_create timeout retries slots = Inr s0" "run source_step s0 evs = Inr (s, outs)" "distinct (begun outs)"
    and "subseq received (map gs_id (sends outs))" "slots dvd depth"
  shows "set received \<subseteq> set (begun outs)"
    "deliveries depth [] (map (identity_of e) received) = map (\<lambda>k. received ! k \<notin> set (take k received)) [0..<length received]"
proof -
  have "source_inv slots [] [] s0" using assms(1) by (auto simp: source_create_def source_inv_def no_return_def ids_of_def)
  from source_run_inv [OF this assms(2)] assms(3)
  have I: "source_inv slots (begun outs) (map gs_id (sends outs)) s" by simp
  then have "no_return slots received" using no_return_subseq [OF assms(4)] source_invD(6) [OF I] by simp
  then have "no_return depth ([] @ received)" using no_return_dvd assms(5) by simp
  from deliveries_fresh [OF this, of e]
  show "deliveries depth [] (map (identity_of e) received) = map (\<lambda>k. received ! k \<notin> set (take k received)) [0..<length received]"
    by simp
  have "set received \<subseteq> set (map gs_id (sends outs))" using assms(4) by (fastforce elim: list_emb_set)
  also have "\<dots> \<subseteq> set (begun outs)" by (rule source_invD(2) [OF I])
  finally show "set received \<subseteq> set (begun outs)" .
qed

text \<open>What the destination sees of one source: each received send, with the epoch it carries, committed in order.\<close>

lemma exactly_once_committed:
  assumes "source_create timeout retries slots = Inr s0" "run source_step s0 evs = Inr (s, outs)" "distinct (begun outs)"
    and "subseq received (map gs_id (sends outs))" "tracker_create depth = Inr c0" "slots dvd depth" "endpoint_legal e"
    and "length epochs = length received" "list_all (fits 8) epochs"
  shows "set received \<subseteq> set (begun outs) \<and>
    (\<exists>c commits. run tracker_step c0 (map2 (\<lambda>t epoch. (e, t, epoch)) received epochs) = Inr (c, commits) \<and>
      map dc_deliver commits = map (\<lambda>k. received ! k \<notin> set (take k received)) [0..<length received] \<and>
      list_all dc_acknowledge commits)"
proof -
  let ?es = "map2 (\<lambda>t epoch. (e, t, epoch)) received epochs"
  have c0: "\<forall>index. map_of (ct_history c0) index = last_in_slot depth index []" "ct_depth c0 = depth"
    using assms(5) by (auto simp: tracker_create_def last_in_slot_def)
  have "list_all commit_legal ?es"
    using assms(7,9) by (auto simp: list_all_iff commit_legal_def fits_def dest!: set_zip_rightD)
  moreover have "map commit_identity ?es = map (identity_of e) received"
    using assms(8) by (intro nth_equalityI) (simp_all add: commit_identity_def identity_of_def)
  ultimately show ?thesis
    using tracker_exact [OF c0, of ?es] exactly_once(1) [OF assms(1-4,6)] exactly_once(2) [OF assms(1-4,6), of e]
    by auto
qed

text \<open>
  The depth has to be a multiple of the number of slots: otherwise the numbers 0 and the depth itself may be outstanding
  together, and a replay of the first comes after the second has taken its place in the history.
\<close>

definition eviction_events :: "int \<Rightarrow> source_event list" where
  "eviction_events depth = [Begin 0 0, Begin depth 0, Send, Send, Reset_Routes 0, Send]"

lemma eviction_run:
  assumes "source_create timeout retries slots = Inr s0" "0 < slots" "0 < depth" "depth < 2 ^ 64" "\<not> slots dvd depth"
  obtains s outs where "run source_step s0 (eviction_events depth) = Inr (s, outs)" "begun outs = [0, depth]"
    "map gs_id (sends outs) = [0, depth, 0]"
proof -
  have s0: "s0 = \<lparr>ts_timeout = timeout, ts_max_retries = retries, ts_slots = slots, ts_outstanding = []\<rparr>"
    using assms(1) by (simp add: source_create_def rbind_ensure split: if_splits)
  have m: "0 mod slots \<noteq> depth mod slots" "depth mod slots \<noteq> 0" using assms(5) by (auto simp: dvd_eq_mod_eq_0)
  show thesis
    by (rule that [of _ "[Began 0, Began depth, Sent_Out \<lparr>gs_id = 0, gs_epoch = 0, gs_retry = 0\<rparr>,
          Sent_Out \<lparr>gs_id = depth, gs_epoch = 0, gs_retry = 0\<rparr>, Quiet, Sent_Out \<lparr>gs_id = 0, gs_epoch = 0, gs_retry = 1\<rparr>]"])
      (use assms m in \<open>simp_all add: eviction_events_def s0 source_begin_def source_next_send_def source_outstanding_def
        source_route_reset_def Let_def\<close>)
qed

lemma eviction_delivers_twice:
  assumes "tracker_create depth = Inr c0" "endpoint_legal e"
  obtains c where "run tracker_step c0 (map2 (\<lambda>t epoch. (e, t, epoch)) [0, depth, 0] [0, 0, 0]) =
    Inr (c, replicate 3 \<lparr>dc_deliver = True, dc_acknowledge = True\<rparr>)"
proof -
  have d: "0 < depth" "c0 = \<lparr>ct_depth = depth, ct_history = []\<rparr>"
    using assms(1) by (auto simp: tracker_create_def rbind_ensure split: if_splits)
  show thesis
    by (rule that) (use assms(2) d in \<open>simp add: tracker_step_def tracker_commit_def endpoint_legal_def numeral_3_eq_3\<close>)
qed

subsection \<open>Two sources share a slot\<close>

text \<open>
  The history is indexed by the transaction number alone. Between a commit and its replay, a commit of another source with
  the same number modulo the depth replaces the identity, and the replay is delivered a second time.
\<close>

definition replay_events :: "commit_event list" where
  "replay_events = (let first = \<lparr>ge_domain = 1, ge_node = 0\<rparr>; second = \<lparr>ge_domain = 2, ge_node = 0\<rparr>
     in [(first, 7, 0), (second, 7, 0), (first, 7, 0)])"

lemma replay_delivered_twice:
  "map_sum id (map dc_deliver \<circ> snd) (rbind (tracker_create 16) (\<lambda>c. run tracker_step c replay_events)) = Inr [True, True, True]"
  by code_simp

end
