(* ===== verification/Kd_Collective.thy ===== *)
theory Kd_Collective
  imports Prelude
begin

section \<open>KDLink collectives across domains\<close>

text \<open>
  \<open>kdlink_model/multidomain.py\<close>: the commands each domain of a group runs for a collective, and the reference result of
  the collective itself. A payload is a sequence, or a mapping from destinations to sequences; iterating a mapping gives
  its keys, as Python does.
\<close>

datatype collective_opcode = Reduce_Scatter | All_Gather | All_Reduce | All_To_All | All_To_All_V | Point_To_Point

datatype collective_phase = Leaf_Prepare | Interdomain | Leaf_Finish | Complete

record collective_command =
  cc_phase :: collective_phase
  cc_destination :: "int option"

definition schedule_collective ::
  "collective_opcode \<Rightarrow> int \<Rightarrow> int list \<Rightarrow> int option \<Rightarrow> int option \<Rightarrow> py_error + collective_command list" where
  "schedule_collective opcode local group_members source destination =
     (let members = sort (remdups group_members) in
      rbind (ensure (\<not> (members = [] \<or> list_ex (\<lambda>m. \<not> (0 \<le> m \<and> m < 256)) members))) (\<lambda>_.
      rbind (if opcode = Point_To_Point then
               rbind (ensure (\<not> (source \<notin> Some ` set members \<or> destination \<notin> Some ` set members))) (\<lambda>_.
               rbind (ensure (Some local = source \<or> Some local = destination)) (\<lambda>_.
                 Inr (if Some local = source then [\<lparr>cc_phase = Interdomain, cc_destination = destination\<rparr>] else [])))
             else rbind (ensure (local \<in> set members)) (\<lambda>_.
               Inr (map (\<lambda>m. \<lparr>cc_phase = Interdomain, cc_destination = Some m\<rparr>) (filter (\<lambda>m. m \<noteq> local) members))))
        (\<lambda>interdomain.
          Inr ([\<lparr>cc_phase = Leaf_Prepare, cc_destination = None\<rparr>] @ interdomain @
            [\<lparr>cc_phase = Leaf_Finish, cc_destination = None\<rparr>, \<lparr>cc_phase = Complete, cc_destination = None\<rparr>]))))"

datatype payload = Vector "int list" | Parts "(int \<times> int list) list"

fun payload_tuple :: "payload \<Rightarrow> int list" where
  "payload_tuple (Vector v) = v"
| "payload_tuple (Parts kvs) = map fst kvs"

fun payload_parts :: "payload \<Rightarrow> (int \<times> int list) list option" where
  "payload_parts (Vector v) = None"
| "payload_parts (Parts kvs) = Some kvs"

definition payload_of :: "(int \<times> payload) list \<Rightarrow> int \<Rightarrow> payload" where
  "payload_of payloads m = the (map_of payloads m)"

definition reduced_vector :: "int list list \<Rightarrow> int list" where
  "reduced_vector vectors = map (\<lambda>i. sum_list (map (\<lambda>v. v ! i) vectors)) [0..<length (hd vectors)]"

definition execute_collective ::
  "collective_opcode \<Rightarrow> (int \<times> payload) list \<Rightarrow> int list \<Rightarrow> int option \<Rightarrow> int option \<Rightarrow> py_error + (int \<times> payload) list" where
  "execute_collective opcode payloads members source destination =
     (let ordered = sort members in
      rbind (ensure (fst ` set payloads = set ordered)) (\<lambda>_.
      if opcode \<in> {Reduce_Scatter, All_Reduce} then
        (let vectors = map (\<lambda>m. payload_tuple (payload_of payloads m)) ordered in
         rbind (ensure (\<not> (vectors = [] \<or> length (remdups (map length vectors)) \<noteq> 1))) (\<lambda>_.
           let reduced = reduced_vector vectors in
           if opcode = All_Reduce then Inr (dict_of (map (\<lambda>m. (m, Vector reduced)) ordered))
           else rbind (ensure (length reduced mod length ordered = 0)) (\<lambda>_.
             let width = length reduced div length ordered in
             Inr (dict_of (map (\<lambda>(i, m). (m, Vector (take width (drop (i * width) reduced)))) (enumerate 0 ordered))))))
      else if opcode = All_Gather then
        (let gathered = concat (map (\<lambda>m. payload_tuple (payload_of payloads m)) ordered)
         in Inr (dict_of (map (\<lambda>m. (m, Vector gathered)) ordered)))
      else if opcode \<in> {All_To_All, All_To_All_V} then
        rbind (rmap (\<lambda>s. case payload_parts (payload_of payloads s) of
                 None \<Rightarrow> Inl ValueError
               | Some outbound \<Rightarrow> rbind (ensure (fst ` set outbound = set ordered)) (\<lambda>_. Inr (s, outbound))) ordered)
          (\<lambda>rows. Inr (dict_of (map (\<lambda>d. (d, Parts (dict_of (map (\<lambda>(s, outbound). (s, dget outbound d [])) rows)))) ordered)))
      else
        (case (source, destination) of
           (Some s, Some d) \<Rightarrow>
             rbind (ensure (s \<in> set ordered \<and> d \<in> set ordered)) (\<lambda>_.
               Inr [(d, Vector (payload_tuple (payload_of payloads s)))])
         | _ \<Rightarrow> Inl ValueError)))"

subsection \<open>Schedules\<close>

lemma schedule_shape:
  assumes "schedule_collective opcode local members source destination = Inr cs"
  shows "\<exists>mid. cs = \<lparr>cc_phase = Leaf_Prepare, cc_destination = None\<rparr> # mid @
      [\<lparr>cc_phase = Leaf_Finish, cc_destination = None\<rparr>, \<lparr>cc_phase = Complete, cc_destination = None\<rparr>] \<and>
    (opcode \<noteq> Point_To_Point \<longrightarrow>
      mid = map (\<lambda>m. \<lparr>cc_phase = Interdomain, cc_destination = Some m\<rparr>) (filter (\<lambda>m. m \<noteq> local) (sort (remdups members))))"
  using assms by (auto simp: schedule_collective_def Let_def split: if_splits)

definition sends_to :: "collective_command list \<Rightarrow> int \<Rightarrow> nat" where
  "sends_to cs d = length (filter (\<lambda>c. c = \<lparr>cc_phase = Interdomain, cc_destination = Some d\<rparr>) cs)"

lemma filter_one: "distinct xs \<Longrightarrow> length (filter (\<lambda>x. x = d) xs) = of_bool (d \<in> set xs)"
  by (induction xs) auto

lemma schedule_sends:
  assumes "schedule_collective opcode local members source destination = Inr cs" "opcode \<noteq> Point_To_Point"
  shows "sends_to cs d = of_bool (d \<in> set members \<and> d \<noteq> local)"
proof -
  let ?xs = "filter (\<lambda>m. m \<noteq> local) (sort (remdups members))"
  obtain mid where cs: "cs = \<lparr>cc_phase = Leaf_Prepare, cc_destination = None\<rparr> # mid @
      [\<lparr>cc_phase = Leaf_Finish, cc_destination = None\<rparr>, \<lparr>cc_phase = Complete, cc_destination = None\<rparr>]"
    and mid: "mid = map (\<lambda>m. \<lparr>cc_phase = Interdomain, cc_destination = Some m\<rparr>) ?xs"
    using schedule_shape [OF assms(1)] assms(2) by blast
  have "sends_to cs d = length (filter (\<lambda>c. c = \<lparr>cc_phase = Interdomain, cc_destination = Some d\<rparr>) mid)"
    by (simp add: sends_to_def cs)
  also have "\<dots> = length (filter (\<lambda>x. x = d) ?xs)" by (simp add: mid filter_map comp_def)
  also have "\<dots> = of_bool (d \<in> set ?xs)" by (rule filter_one) simp
  finally show ?thesis by simp
qed

subsection \<open>Results\<close>

lemma map_of_dict_of: "map_of (dict_of kvs) k = map_of (rev kvs) k"
proof -
  have "map_of (fold (\<lambda>(k, v) al. AList.update k v al) kvs al) k = (map_of al ++ map_of (rev kvs)) k" for al
  proof (induction kvs arbitrary: al)
    case (Cons kv kvs)
    obtain k' v where kv: "kv = (k', v)" by force
    show ?case using Cons [of "AList.update k' v al"] by (auto simp: kv update_conv' map_add_def split: option.splits)
  qed simp
  from this [of "[]"] show ?thesis by (simp add: dict_of_def)
qed

lemma map_of_rev_map:
  "distinct ms \<Longrightarrow> map_of (rev (map (\<lambda>m. (m, f m)) ms)) k = (if k \<in> set ms then Some (f k) else None)"
  by (induction ms) (auto simp: map_add_def split: option.splits)

lemma dict_of_map: "distinct ms \<Longrightarrow> map_of (dict_of (map (\<lambda>m. (m, f m)) ms)) k = (if k \<in> set ms then Some (f k) else None)"
  by (simp add: map_of_dict_of map_of_rev_map)

lemma dict_of_keys: "distinct ms \<Longrightarrow> fst ` set (dict_of (map (\<lambda>m. (m, f m)) ms)) = set ms"
proof -
  assume d: "distinct ms"
  have "fst ` set (dict_of (map (\<lambda>m. (m, f m)) ms)) = dom (map_of (dict_of (map (\<lambda>m. (m, f m)) ms)))"
    by (simp add: dom_map_of_conv_image_fst)
  also have "\<dots> = set ms" using dict_of_map [OF d, of f] by (auto simp: dom_def split: if_splits)
  finally show ?thesis .
qed

definition vectors_of :: "(int \<times> payload) list \<Rightarrow> int list \<Rightarrow> int list list" where
  "vectors_of payloads members = map (\<lambda>m. payload_tuple (payload_of payloads m)) (sort members)"

definition equal_lengths :: "int list list \<Rightarrow> nat \<Rightarrow> bool" where
  "equal_lengths vs n \<longleftrightarrow> vs \<noteq> [] \<and> list_all (\<lambda>v. length v = n) vs"

lemma equal_lengths_remdups: "equal_lengths vs n \<Longrightarrow> length (remdups (map length vs)) = 1"
proof -
  assume e: "equal_lengths vs n"
  then have "set (map length vs) = {n}" by (cases vs) (auto simp: equal_lengths_def list_all_iff)
  then show ?thesis by (simp add: length_remdups_card_conv)
qed

lemma all_reduce_result:
  assumes "fst ` set payloads = set members" "equal_lengths (vectors_of payloads members) n"
  shows "execute_collective All_Reduce payloads members None None =
    Inr (dict_of (map (\<lambda>m. (m, Vector (reduced_vector (vectors_of payloads members)))) (sort members)))"
proof -
  let ?v = "map (\<lambda>m. payload_tuple (payload_of payloads m)) (sort members)"
  have "\<not> (?v = [] \<or> length (remdups (map length ?v)) \<noteq> 1)"
    using assms(2) equal_lengths_remdups [of ?v n] by (simp add: vectors_of_def equal_lengths_def)
  then show ?thesis using assms(1) by (simp add: execute_collective_def Let_def vectors_of_def del: map_map)
qed

lemma enumerate_pairs: "map (\<lambda>(i, m). (m, g i)) (enumerate 0 ms) = map (\<lambda>i. (ms ! i, g i)) [0..<length ms]"
  by (simp add: enumerate_eq_zip) (rule nth_equalityI; simp)

definition scatter_piece :: "nat \<Rightarrow> int list \<Rightarrow> nat \<Rightarrow> int list" where
  "scatter_piece width xs i = take width (drop (i * width) xs)"

lemma concat_pieces: "length xs = k * width \<Longrightarrow> concat (map (scatter_piece width xs) [0..<k]) = xs"
proof (induction k arbitrary: xs)
  case (Suc k)
  have e: "[0..<Suc k] = 0 # map Suc [0..<k]" by (simp add: map_Suc_upt upt_conv_Cons del: upt_Suc)
  have s: "scatter_piece width xs (Suc i) = scatter_piece width (drop width xs) i" for i
    by (simp add: scatter_piece_def add.commute)
  have "concat (map (scatter_piece width (drop width xs)) [0..<k]) = drop width xs" using Suc by simp
  then show ?case unfolding e by (simp add: s comp_def del: upt_Suc) (simp add: scatter_piece_def)
qed simp

lemma reduce_scatter_result:
  assumes "fst ` set payloads = set members" "equal_lengths (vectors_of payloads members) (length members * width)" "distinct members"
  shows "\<exists>r. execute_collective Reduce_Scatter payloads members None None = Inr r \<and> fst ` set r = set members \<and>
    (\<forall>i < length members. map_of r (sort members ! i) =
      Some (Vector (scatter_piece width (reduced_vector (vectors_of payloads members)) i)))"
proof -
  let ?o = "sort members" and ?v = "vectors_of payloads members"
  have ne: "?v \<noteq> []" "length (hd ?v) = length members * width"
    using assms(2) by (cases ?v; auto simp: equal_lengths_def)+
  then have len: "length (reduced_vector ?v) = length members * width" by (simp add: reduced_vector_def)
  have pos: "0 < length members" using ne(1) by (simp add: vectors_of_def) (metis length_sort length_greater_0_conv list.size(3))
  have g: "\<not> (?v = [] \<or> length (remdups (map length ?v)) \<noteq> 1)"
    using ne equal_lengths_remdups [OF assms(2)] by simp
  have d: "distinct ?o" and nil: "?o \<noteq> []" using assms(3) pos by (simp, metis length_sort length_greater_0_conv)
  define idx where "idx = (\<lambda>m. THE i. i < length ?o \<and> ?o ! i = m)"
  have idx: "idx (?o ! i) = i" if "i < length members" for i
    using that d unfolding idx_def by (intro the_equality) (auto simp: nth_eq_iff_index_eq)
  let ?f = "\<lambda>m. Vector (scatter_piece width (reduced_vector ?v) (idx m))"
  have "map (\<lambda>(i, m). (m, Vector (take width (drop (i * width) (reduced_vector ?v))))) (enumerate 0 ?o) =
      map (\<lambda>m. (m, ?f m)) ?o"
    unfolding enumerate_pairs using idx by (intro nth_equalityI) (simp_all add: scatter_piece_def)
  moreover have "length (reduced_vector ?v) div length ?o = width" "length (reduced_vector ?v) mod length ?o = 0"
    using pos len by simp_all
  ultimately have r: "execute_collective Reduce_Scatter payloads members None None = Inr (dict_of (map (\<lambda>m. (m, ?f m)) ?o))"
    using assms(1) g nil by (simp add: execute_collective_def Let_def del: map_map flip: vectors_of_def)
  moreover have "map_of (dict_of (map (\<lambda>m. (m, ?f m)) ?o)) (?o ! i) = Some (Vector (scatter_piece width (reduced_vector ?v) i))"
    if "i < length members" for i
    using that idx [of i] nth_mem [of i ?o] by (simp add: dict_of_map [OF d])
  moreover have "fst ` set (dict_of (map (\<lambda>m. (m, ?f m)) ?o)) = set members" using dict_of_keys [OF d, of ?f] by simp
  ultimately show ?thesis by blast
qed

text \<open>The textbook identity: an all-reduce is a reduce-scatter followed by an all-gather.\<close>

lemma all_reduce_is_scatter_gather:
  assumes "fst ` set payloads = set members" "equal_lengths (vectors_of payloads members) (length members * width)" "distinct members"
  shows "execute_collective All_Reduce payloads members None None =
    rbind (execute_collective Reduce_Scatter payloads members None None)
      (\<lambda>r. execute_collective All_Gather r members None None)"
proof -
  let ?o = "sort members" and ?red = "reduced_vector (vectors_of payloads members)"
  obtain r where r: "execute_collective Reduce_Scatter payloads members None None = Inr r" "fst ` set r = set members"
    "\<And>i. i < length members \<Longrightarrow> map_of r (?o ! i) = Some (Vector (scatter_piece width ?red i))"
    using reduce_scatter_result [OF assms] by blast
  have hd_len: "length (hd (vectors_of payloads members)) = length members * width"
    using assms(2) by (cases "vectors_of payloads members") (auto simp: equal_lengths_def)
  have "map (\<lambda>m. payload_tuple (payload_of r m)) ?o = map (scatter_piece width ?red) [0..<length members]"
    by (intro nth_equalityI) (simp_all add: payload_of_def r(3))
  then have "concat (map (\<lambda>m. payload_tuple (payload_of r m)) ?o) = ?red"
    using concat_pieces [of ?red "length members" width] hd_len by (simp add: reduced_vector_def)
  then have "execute_collective All_Gather r members None None = Inr (dict_of (map (\<lambda>m. (m, Vector ?red)) ?o))"
    using r(2) by (simp add: execute_collective_def Let_def)
  with r(1) all_reduce_result [OF assms(1,2)] show ?thesis by simp
qed

subsection \<open>All-to-all is a transposition\<close>

definition exchange_ok :: "(int \<times> payload) list \<Rightarrow> int list \<Rightarrow> bool" where
  "exchange_ok payloads members \<longleftrightarrow> fst ` set payloads = set members \<and>
     (\<forall>s\<in>set members. \<exists>out. payload_of payloads s = Parts out \<and> fst ` set out = set members)"

definition part_of :: "(int \<times> payload) list \<Rightarrow> int \<Rightarrow> int \<Rightarrow> int list" where
  "part_of payloads s d = dget (the (payload_parts (payload_of payloads s))) d []"

lemma all_to_all_result:
  assumes ok: "exchange_ok payloads members" and d: "distinct members" and o: "opcode \<in> {All_To_All, All_To_All_V}"
  shows "\<exists>r. execute_collective opcode payloads members None None = Inr r \<and> exchange_ok r members \<and>
    (\<forall>s\<in>set members. \<forall>t\<in>set members. part_of r t s = part_of payloads s t)"
proof -
  let ?o = "sort members"
  have ds: "distinct ?o" using d by simp
  let ?row = "\<lambda>s. the (payload_parts (payload_of payloads s))"
  have rows: "rmap (\<lambda>s. case payload_parts (payload_of payloads s) of None \<Rightarrow> Inl ValueError
      | Some outbound \<Rightarrow> rbind (ensure (fst ` set outbound = set ?o)) (\<lambda>_. Inr (s, outbound))) ?o = Inr (map (\<lambda>s. (s, ?row s)) ?o)"
  proof (rule rmap_ok)
    fix s
    assume "s \<in> set ?o"
    with ok obtain out where "payload_of payloads s = Parts out" "fst ` set out = set members"
      by (auto simp: exchange_ok_def)
    then show "(case payload_parts (payload_of payloads s) of None \<Rightarrow> Inl ValueError
      | Some outbound \<Rightarrow> rbind (ensure (fst ` set outbound = set ?o)) (\<lambda>_. Inr (s, outbound))) = Inr (s, ?row s)" by simp
  qed
  let ?col = "\<lambda>t. dict_of (map (\<lambda>s. (s, dget (?row s) t [])) ?o)"
  let ?r = "dict_of (map (\<lambda>t. (t, Parts (?col t))) ?o)"
  have r: "execute_collective opcode payloads members None None = Inr ?r"
  proof -
    have "opcode \<noteq> Reduce_Scatter \<and> opcode \<noteq> All_Reduce \<and> opcode \<noteq> All_Gather" using o by auto
    moreover have "map (\<lambda>(s, outbound). (s, dget outbound t [])) (map (\<lambda>s. (s, ?row s)) ?o) = map (\<lambda>s. (s, dget (?row s) t [])) ?o" for t
      by simp
    ultimately show ?thesis
      using o ok unfolding execute_collective_def Let_def rows by (simp add: exchange_ok_def del: map_map)
  qed
  have p: "payload_of ?r t = Parts (?col t)" if "t \<in> set members" for t
    using that dict_of_map [OF ds, of "\<lambda>t. Parts (?col t)" t] by (simp add: payload_of_def)
  have "exchange_ok ?r members"
    unfolding exchange_ok_def
  proof (intro conjI ballI)
    show "fst ` set ?r = set members" using dict_of_keys [OF ds, of "\<lambda>t. Parts (?col t)"] by simp
    fix t
    assume "t \<in> set members"
    then have "payload_of ?r t = Parts (?col t)" by (rule p)
    moreover have "fst ` set (?col t) = set members" using dict_of_keys [OF ds, of "\<lambda>s. dget (?row s) t []"] by simp
    ultimately show "\<exists>out. payload_of ?r t = Parts out \<and> fst ` set out = set members" by blast
  qed
  moreover have "part_of ?r t s = part_of payloads s t" if "s \<in> set members" "t \<in> set members" for s t
    using that p [of t] dict_of_map [OF ds, of "\<lambda>s. dget (?row s) t []" s] by (simp add: part_of_def dget_def [of "?col t"])
  ultimately show ?thesis using r by blast
qed

lemma all_to_all_involution:
  assumes "exchange_ok payloads members" "distinct members" "opcode \<in> {All_To_All, All_To_All_V}"
  shows "\<exists>r r'. execute_collective opcode payloads members None None = Inr r \<and>
    execute_collective opcode r members None None = Inr r' \<and>
    (\<forall>s\<in>set members. \<forall>t\<in>set members. part_of r t s = part_of payloads s t \<and> part_of r' s t = part_of payloads s t)"
proof -
  from all_to_all_result [OF assms] obtain r where r: "execute_collective opcode payloads members None None = Inr r"
    "exchange_ok r members" "\<forall>s\<in>set members. \<forall>t\<in>set members. part_of r t s = part_of payloads s t" by blast
  from all_to_all_result [OF r(2) assms(2,3)] obtain r' where "execute_collective opcode r members None None = Inr r'"
    "\<forall>s\<in>set members. \<forall>t\<in>set members. part_of r' t s = part_of r s t" by blast
  with r show ?thesis by (intro exI [of _ r] exI [of _ r']) simp
qed

end
