(* ===== verification/Props_Kd.thy ===== *)
theory Props_Kd
  imports Kd_Protocol Kd_Pcs Kd_Bonding Kd_Transaction Kd_Collective
begin

section \<open>Properties of the KDLink model\<close>

text \<open>A flit from node 3 to node 5 with four hops to go, and sixty-four payload octets.\<close>

definition demo_flit :: kd_flit where
  "demo_flit = \<lparr>kf_header = kd_header_of [2, 0, 0, 0, 1, 0, 1, 1, 0, 3, 5, 2, 4, 9, 17, 1, 33, 0, 64, 0, 0],
     kf_payload = map int [0..<64]\<rparr>"

lemma demo_flit_legal: "kd_flit_legal demo_flit"
  by code_simp

text \<open>C27: The KDLink flit format loses nothing in either direction: a legal flit is written as a 640-bit word that reads back
  as the same flit, and whatever 640-bit word the receiver accepts is written back bit for bit.\<close>

theorem kd_flit_round_trip:
  "(kd_flit_legal f \<longrightarrow> (\<exists>w. kd_flit_encode f = Inr w \<and> fits 640 w \<and> kd_flit_decode w = Inr f)) \<and>
   (fits 640 v \<and> kd_flit_decode v = Inr g \<longrightarrow> kd_flit_encode g = Inr v \<and> kd_flit_legal g)"
  using flit_write flit_read by blast

theorem kd_flit_round_trip_witness:
  "\<exists>w. kd_flit_encode demo_flit = Inr w \<and> kd_flit_decode w = Inr demo_flit \<and> kd_flit_legal demo_flit"
proof -
  obtain w where w: "kd_flit_encode demo_flit = Inr w" "fits 640 w" "kd_flit_decode w = Inr demo_flit"
    using kd_flit_round_trip [of demo_flit] demo_flit_legal by blast
  with kd_flit_round_trip [of demo_flit w demo_flit] show ?thesis by blast
qed

text \<open>C36: A flit with hop limit h is forwarded exactly h times: up to then every hop keeps the payload, lowers the limit by one
  and leaves a CRC that checks, and the next hop raises the loop error.\<close>

theorem kd_hops_exact:
  assumes "kd_flit_legal f" "fits 8 epoch"
  shows "if int n \<le> kh_hop_limit (kf_header f)
    then \<exists>g. kd_hops n epoch f = Inr g \<and> kd_flit_legal g \<and> kf_payload g = kf_payload f \<and>
      kh_hop_limit (kf_header g) = kh_hop_limit (kf_header f) - int n \<and> (0 < n \<longrightarrow> kd_crc_ok g = Inr True)
    else kd_hops n epoch f = Inl RuntimeError"
  by (rule hops_exact [OF assms])

theorem kd_hops_exact_witness:
  "(\<exists>g. kd_hops 4 7 demo_flit = Inr g \<and> kh_hop_limit (kf_header g) = 0 \<and> kd_crc_ok g = Inr True) \<and>
   kd_hops 5 7 demo_flit = Inl RuntimeError"
proof -
  have e: "fits 8 (7::int)" and h: "kh_hop_limit (kf_header demo_flit) = 4" by code_simp+
  show ?thesis
    using kd_hops_exact [OF demo_flit_legal e, of 4] kd_hops_exact [OF demo_flit_legal e, of 5] by (auto simp: h)
qed

text \<open>C26: The scrambler is undone by a descrambler in any state: of a stream of 64-bit words every word after the first comes
  out as it went in, whatever the two registers held at the start.\<close>

theorem kd_lane_self_synchronises:
  assumes "list_all (fits 64) (w # ws)" "fits 58 st" "fits 58 other"
  shows "\<exists>xs st' y. run (stream_step scramble_word) st (w # ws) = Inr (st', xs) \<and>
    run (stream_step descramble_word) other xs = Inr (st', y # ws)"
  by (rule stream_self_synchronises [OF assms])

theorem kd_lane_self_synchronises_witness:
  "\<exists>xs st' y. run (stream_step scramble_word) 5 [1, 2, 3] = Inr (st', xs) \<and>
     run (stream_step descramble_word) 77 xs = Inr (st', y # [2, 3])"
  by (rule kd_lane_self_synchronises) code_simp+

text \<open>C10: The bonded-slice reorder buffer is an ordered channel: of packets numbered modulo 4096 that arrive in any order within
  half the number space of the first missing one, it delivers exactly the run before the first missing packet, in
  order and once each; exactly the repeated packets are refused.\<close>

theorem kd_bonding_delivers:
  assumes "window_ok [] ns"
  shows "\<exists>t outs. run reorder_step reorder_new (map (numbered_packet sent) ns) = Inr (t, outs) \<and>
    delivered outs = map (numbered_packet sent) [0..<first_missing ns] \<and>
    map isl outs = repeats [] ns \<and> list_all (\<lambda>x. isl x \<longrightarrow> x = Inl RuntimeError) outs"
  by (rule reorder_delivers [OF assms])

theorem kd_bonding_delivers_witness:
  "\<exists>t outs. run reorder_step reorder_new (map (numbered_packet (\<lambda>n. [int n])) [2, 0, 2, 1]) = Inr (t, outs) \<and>
     delivered outs = map (numbered_packet (\<lambda>n. [int n])) [0..<3] \<and> map isl outs = [False, False, True, False]"
proof -
  have w: "window_ok [] [2, 0, 2, 1]" and f: "first_missing [2, 0, 2, 1] = 3" and r: "repeats [] [2, 0, 2, 1::nat] = [False, False, True, False]"
    by code_simp+
  from kd_bonding_delivers [OF w, of "\<lambda>n. [int n]"] obtain t outs where
    "run reorder_step reorder_new (map (numbered_packet (\<lambda>n. [int n])) [2, 0, 2, 1]) = Inr (t, outs)"
    "delivered outs = map (numbered_packet (\<lambda>n. [int n])) [0..<3]" "map isl outs = [False, False, True, False]"
    unfolding f r by (elim exE conjE)
  then show ?thesis by (intro exI conjI)
qed

definition demo_route :: route_context where
  "demo_route = \<lparr>rc_source_domain = 3, rc_destination_domain = 100, rc_source_node = 1, rc_destination_node = 2,
     rc_topology_epoch = 5, rc_domain_hop_limit = 4, rc_logical_plane = 1, rc_slice_mask = 3, rc_route_policy = 0,
     rc_packet_flit_count = 4, rc_expected_packet_sequence = 9, rc_global_transaction_id = 77, rc_group_id = 0,
     rc_logical_vc = 2, rc_reserved = 0\<rparr>"

text \<open>C21: Digit routing arrives or says where it cannot. A legal context whose hop limit does not exceed the number of stages is
  refused by the first stage already, whatever egresses are up. With a larger limit, and whatever egresses are up at each
  stage: if every stage has the egress its digit names, the packet passes all stages, the last one reports that it is the last,
  the egresses spell the destination domain and the context changes only in its hop limit; otherwise it gets to a stage
  whose egress is down, along its digits, and that stage raises.\<close>

theorem kd_route_arrives:
  assumes "route_legal x" "route_digits (rc_destination_domain x) n = Inr digits" "length masks = length digits"
  shows "(rc_domain_hop_limit x \<le> int (length digits) \<longrightarrow> (\<forall>up. forward_at_stage x n 0 up = Inl RuntimeError)) \<and>
    (int (length digits) < rc_domain_hop_limit x \<and> open_egresses masks digits \<longrightarrow>
      follow masks n 0 x = Inr (digits, x\<lparr>rc_domain_hop_limit := rc_domain_hop_limit x - int (length digits)\<rparr>, True) \<and>
      domain_of digits = rc_destination_domain x) \<and>
    (int (length digits) < rc_domain_hop_limit x \<and> \<not> open_egresses masks digits \<longrightarrow>
      (\<exists>k < length digits. \<not> bit (masks ! k) (nat (digits ! k)) \<and>
        follow (take k masks) n 0 x = Inr (take k digits, x\<lparr>rc_domain_hop_limit := rc_domain_hop_limit x - int k\<rparr>, False) \<and>
        forward_at_stage (x\<lparr>rc_domain_hop_limit := rc_domain_hop_limit x - int k\<rparr>) n (int k) (masks ! k) = Inl RuntimeError \<and>
        follow masks n 0 x = Inl RuntimeError))"
  using forward_short [OF assms(1,2)] follow_arrives [OF assms] follow_stops [OF assms] digits_ok(1) [OF assms(2)] by metis

theorem kd_route_arrives_witness:
  "follow [255, 255, 255] 200 0 demo_route = Inr ([1, 4, 4], demo_route\<lparr>rc_domain_hop_limit := 1\<rparr>, True) \<and>
   domain_of [1, 4, 4] = 100 \<and> follow [255, 0xEF, 255] 200 0 demo_route = Inl RuntimeError \<and>
   forward_at_stage (demo_route\<lparr>rc_domain_hop_limit := 3\<rparr>) 200 0 255 = Inl RuntimeError"
proof -
  have l: "route_legal demo_route" "route_legal (demo_route\<lparr>rc_domain_hop_limit := 3\<rparr>)"
    and d: "route_digits (rc_destination_domain demo_route) 200 = Inr [1, 4, 4]"
      "route_digits (rc_destination_domain (demo_route\<lparr>rc_domain_hop_limit := 3\<rparr>)) 200 = Inr [1, 4, 4]"
    and o: "open_egresses [255, 255, 255] [1, 4, 4]" "\<not> open_egresses [255, 0xEF, 255] [1, 4, 4]" by code_simp+
  have h: "rc_domain_hop_limit demo_route = 4" "rc_destination_domain demo_route = 100" by (simp_all add: demo_route_def)
  show ?thesis
    using kd_route_arrives [OF l(1) d(1), of "[255, 255, 255]"] kd_route_arrives [OF l(1) d(1), of "[255, 0xEF, 255]"]
      kd_route_arrives [OF l(2) d(2), of "[255, 255, 255]"] o by (auto simp: h simp del: follow.simps)
qed

text \<open>C9: Transactions of one source are executed exactly once, and exactly for the right history depth. Let the channel lose
  but neither duplicate nor reorder what the source sends, first sends and the repeats after timeouts and route resets, and let
  the source begin no number twice. If and only if the history depth of the destination is a multiple of the slot
  count of the source, it holds for all runs that the destination delivers every received transaction the first time
  and never again, acknowledges every copy, and sees nothing that was not begun.\<close>

theorem kd_exactly_once:
  assumes "source_create timeout retries slots = Inr s0" "tracker_create depth = Inr c0" "0 < slots" "depth < 2 ^ 64"
    and "endpoint_legal e"
  shows "slots dvd depth \<longleftrightarrow>
    (\<forall>evs s outs received epochs. run source_step s0 evs = Inr (s, outs) \<and> distinct (begun outs) \<and>
        subseq received (map gs_id (sends outs)) \<and> length epochs = length received \<and> list_all (fits 8) epochs \<longrightarrow>
      set received \<subseteq> set (begun outs) \<and>
      (\<exists>c commits. run tracker_step c0 (map2 (\<lambda>t epoch. (e, t, epoch)) received epochs) = Inr (c, commits) \<and>
        map dc_deliver commits = map (\<lambda>k. received ! k \<notin> set (take k received)) [0..<length received] \<and>
        list_all dc_acknowledge commits))"
    (is "_ \<longleftrightarrow> (\<forall>evs s outs received epochs. ?run evs s outs received epochs \<longrightarrow> ?once outs received epochs)")
proof (intro iffI allI impI)
  show "?once outs received epochs" if "slots dvd depth" "?run evs s outs received epochs" for evs s outs received epochs
    using that by (intro exactly_once_committed [OF assms(1) _ _ _ assms(2) _ assms(5)]) auto
next
  assume all: "\<forall>evs s outs received epochs. ?run evs s outs received epochs \<longrightarrow> ?once outs received epochs"
  show "slots dvd depth"
  proof (rule ccontr)
    assume nd: "\<not> slots dvd depth"
    have d: "0 < depth" using assms(2) by (auto simp: tracker_create_def rbind_ensure split: if_splits)
    obtain s outs where r: "run source_step s0 (eviction_events depth) = Inr (s, outs)" "begun outs = [0, depth]"
      "map gs_id (sends outs) = [0, depth, 0]" by (rule eviction_run [OF assms(1,3) d assms(4) nd])
    have "list_all (fits 8) [0, 0, 0]" by (simp add: fits_def)
    then have "?once outs [0, depth, 0] [0, 0, 0]" using r d by (intro all [rule_format, of "eviction_events depth" s]) simp
    then obtain c commits where c: "run tracker_step c0 (map2 (\<lambda>t epoch. (e, t, epoch)) [0, depth, 0] [0, 0, 0]) = Inr (c, commits)"
      "map dc_deliver commits = map (\<lambda>k. [0, depth, 0] ! k \<notin> set (take k [0, depth, 0])) [0..<length [0, depth, 0]]"
      by blast
    obtain c' where "run tracker_step c0 (map2 (\<lambda>t epoch. (e, t, epoch)) [0, depth, 0] [0, 0, 0]) =
        Inr (c', replicate 3 \<lparr>dc_deliver = True, dc_acknowledge = True\<rparr>)" by (rule eviction_delivers_twice [OF assms(2,5)])
    with c(1) have "commits = replicate 3 \<lparr>dc_deliver = True, dc_acknowledge = True\<rparr>" by (metis Inr_inject prod.inject)
    with c(2) show False by (simp add: numeral_3_eq_3)
  qed
qed

definition demo_source :: transaction_source where
  "demo_source = projr (source_create 1 3 2)"

definition demo_source_events :: "source_event list" where
  "demo_source_events = [Begin 6 0, Begin 7 0, Send, Send, Tick_Source, Send, Acked 6 0, Begin 8 0, Send]"

theorem kd_exactly_once_witness:
  "\<exists>c commits. run tracker_step (projr (tracker_create 4)) (map2 (\<lambda>t epoch. (\<lparr>ge_domain = 1, ge_node = 2\<rparr>, t, epoch)) [6, 6, 7] [0, 0, 0])
       = Inr (c, commits) \<and> map dc_deliver commits = [True, False, True] \<and> list_all dc_acknowledge commits"
proof -
  have c: "source_create 1 3 2 = Inr demo_source" and t: "tracker_create 4 = Inr (projr (tracker_create 4))"
    unfolding demo_source_def by (rule projr_ok, code_simp)+
  have e: "endpoint_legal \<lparr>ge_domain = 1, ge_node = 2\<rparr>" by code_simp
  have r: "run source_step demo_source demo_source_events =
      Inr (final source_step demo_source demo_source_events, outputs source_step demo_source demo_source_events)"
    by (rule run_final) code_simp
  have b: "distinct (begun (outputs source_step demo_source demo_source_events))"
    and s: "map gs_id (sends (outputs source_step demo_source demo_source_events)) = [6, 7, 6, 7]"
    by code_simp+
  have sub: "subseq [6, 6, 7] (map gs_id (sends (outputs source_step demo_source demo_source_events)))"
    unfolding s by code_simp
  have f: "list_all (fits 8) [0, 0, 0]" and dv: "(2::int) dvd 4" by code_simp+
  have d: "map (\<lambda>k. [6, 6, 7] ! k \<notin> set (take k [6, 6, 7 :: int])) [0..<length [6, 6, 7 :: int]] = [True, False, True]"
    by code_simp
  note once = kd_exactly_once [OF c t _ _ e, THEN iffD1, OF _ _ dv, rule_format, of demo_source_events _ _ "[6, 6, 7]" "[0, 0, 0]"]
  show ?thesis using once [unfolded d] r b sub f by simp
qed

definition demo_payloads :: "(int \<times> payload) list" where
  "demo_payloads = [(4, Vector [1, 2, 3, 4]), (9, Vector [10, 20, 30, 40])]"

text \<open>C38: An all-reduce is a reduce-scatter followed by an all-gather, for every group whose vectors have the same length and
  split evenly among the members.\<close>

theorem kd_all_reduce_splits:
  assumes "fst ` set payloads = set members" "equal_lengths (vectors_of payloads members) (length members * width)" "distinct members"
  shows "execute_collective All_Reduce payloads members None None =
    rbind (execute_collective Reduce_Scatter payloads members None None)
      (\<lambda>r. execute_collective All_Gather r members None None)"
  by (rule all_reduce_is_scatter_gather [OF assms])

theorem kd_all_reduce_splits_witness:
  "rbind (execute_collective Reduce_Scatter demo_payloads [9, 4] None None) (\<lambda>r. execute_collective All_Gather r [9, 4] None None) =
     Inr [(4, Vector [11, 22, 33, 44]), (9, Vector [11, 22, 33, 44])]"
proof -
  have k: "fst ` set demo_payloads = set [9, 4]" by (auto simp: demo_payloads_def)
  have l: "equal_lengths (vectors_of demo_payloads [9, 4]) (length [9::int, 4] * 2)" by code_simp
  have v: "execute_collective All_Reduce demo_payloads [9, 4] None None = Inr [(4, Vector [11, 22, 33, 44]), (9, Vector [11, 22, 33, 44])]"
    by code_simp
  show ?thesis using kd_all_reduce_splits [OF k l] v by simp
qed

end
