(* ===== verification/Fp_Number.thy ===== *)
theory Fp_Number
  imports Complex_Main Prelude
begin

section \<open>NPU vector unit: binary32 and FP8 numbers\<close>

text \<open>
  \<open>verification/npu/compute/models/vector_fp_reference.py\<close>, the bit-exact reference of the vector unit: binary32 numbers
  as bit patterns, their exact rational values (\<open>Fraction\<close> is \<open>rat\<close>, its numerator and denominator are
  \<open>quotient_of\<close>), rounding in four modes, multiplication, comparison, and conversion from and to the two FP8 formats
  (format 0 is E4M3, which saturates and has no infinity; format 1 is E5M2). The kinds
  \<open>"zero"\<close>, \<open>"finite"\<close>, \<open>"inf"\<close>, \<open>"nan"\<close> are a datatype; flags and signs are the integers 0 and 1, as in the code.
\<close>

datatype fp_kind = Fp_Zero | Fp_Finite | Fp_Inf | Fp_Nan

definition RNE :: int where "RNE = 0"
definition RTZ :: int where "RTZ = 1"
definition RUP :: int where "RUP = 2"
definition RDN :: int where "RDN = 3"
definition fp32_canonical_nan :: int where "fp32_canonical_nan = 0x7FC00000"
definition fp32_positive_inf :: int where "fp32_positive_inf = 0x7F800000"
definition fp32_max_finite :: int where "fp32_max_finite = 0x7F7FFFFF"

lemmas fp_modes = RNE_def RTZ_def RUP_def RDN_def

text \<open>\<open>Fraction(1 << u) if u >= 0 else Fraction(1, 1 << -u)\<close>\<close>

definition pow2 :: "int \<Rightarrow> rat" where
  "pow2 u = (if u \<ge> 0 then 2 ^ nat u else 1 / 2 ^ nat (- u))"

definition decode_fp32 :: "int \<Rightarrow> fp_kind \<times> int \<times> rat" where
  "decode_fp32 bits =
     (let sign = drop_bit 31 bits AND 1;
          exponent = drop_bit 23 bits AND 0xFF;
          fraction = bits AND 0x7FFFFF
      in if exponent = 0 then
           (if fraction = 0 then (Fp_Zero, sign, 0)
            else let v = (of_int fraction / 2 ^ 23) * (1 / 2 ^ 126) in (Fp_Finite, sign, if sign \<noteq> 0 then - v else v))
         else if exponent = 0xFF then ((if fraction = 0 then Fp_Inf else Fp_Nan), sign, 0)
         else let significand = of_int (push_bit 23 1 OR fraction) / 2 ^ 23;
                  unbiased = exponent - 127;
                  v = significand * pow2 unbiased
              in (Fp_Finite, sign, if sign \<noteq> 0 then - v else v))"

definition floor_log2 :: "rat \<Rightarrow> int" where
  "floor_log2 v =
     (let (numerator, denominator) = quotient_of v;
          exponent = int (bit_length numerator) - int (bit_length denominator)
      in if exponent \<ge> 0 then
           (if numerator < push_bit (nat exponent) denominator then exponent - 1 else exponent)
         else (if push_bit (nat (- exponent)) numerator < denominator then exponent - 1 else exponent))"

definition should_increment :: "int \<Rightarrow> int \<Rightarrow> int \<Rightarrow> int \<Rightarrow> int \<Rightarrow> bool" where
  "should_increment main remainder denominator rounding sign =
     (if remainder = 0 then False
      else if rounding = RNE then
        (let doubled = push_bit 1 remainder in doubled > denominator \<or> (doubled = denominator \<and> main AND 1 \<noteq> 0))
      else if rounding = RUP then sign = 0
      else if rounding = RDN then sign = 1
      else False)"

definition overflow_result :: "int \<Rightarrow> int \<Rightarrow> int" where
  "overflow_result sign rounding =
     (let to_inf = rounding = RNE \<or> (rounding = RUP \<and> sign = 0) \<or> (rounding = RDN \<and> sign = 1);
          magnitude = if to_inf then fp32_positive_inf else fp32_max_finite
      in push_bit 31 sign OR magnitude)"

definition round_fraction_to_fp32 :: "rat \<Rightarrow> int \<Rightarrow> int \<Rightarrow> int" where
  "round_fraction_to_fp32 v rounding zero_sign =
     (if v = 0 then push_bit 31 zero_sign
      else
        let sign = of_bool (v < 0);
            magnitude = \<bar>v\<bar>;
            (num, den) = quotient_of magnitude;
            exponent = floor_log2 magnitude
        in if exponent \<ge> - 126 then
             let scale = 23 - exponent;
                 numerator = if scale \<ge> 0 then push_bit (nat scale) num else num;
                 denominator = if scale \<ge> 0 then den else push_bit (nat (- scale)) den;
                 main = numerator div denominator;
                 remainder = numerator mod denominator;
                 main = if should_increment main remainder denominator rounding sign then main + 1 else main;
                 (main, exponent) = if main = push_bit 24 1 then (drop_bit 1 main, exponent + 1) else (main, exponent)
             in if exponent > 127 then overflow_result sign rounding
                else push_bit 31 sign OR push_bit 23 (exponent + 127) OR (main AND 0x7FFFFF)
           else
             let numerator = push_bit 149 num;
                 main = numerator div den;
                 remainder = numerator mod den;
                 main = if should_increment main remainder den rounding sign then main + 1 else main
             in if main \<ge> push_bit 23 1 then push_bit 31 sign OR push_bit 23 1
                else push_bit 31 sign OR main)"

definition multiply_fp32 :: "int \<Rightarrow> int \<Rightarrow> int \<Rightarrow> int \<Rightarrow> int \<times> int" where
  "multiply_fp32 a_bits b_bits invalid_in rounding =
     (let (a_kind, a_sign, a_value) = decode_fp32 a_bits;
          (b_kind, b_sign, b_value) = decode_fp32 b_bits;
          sign = a_sign XOR b_sign;
          invalid = of_bool (invalid_in \<noteq> 0)
      in if a_kind = Fp_Nan \<or> b_kind = Fp_Nan then (fp32_canonical_nan, invalid)
         else if (a_kind = Fp_Inf \<and> b_kind = Fp_Zero) \<or> (a_kind = Fp_Zero \<and> b_kind = Fp_Inf) then (fp32_canonical_nan, 1)
         else if a_kind = Fp_Inf \<or> b_kind = Fp_Inf then (push_bit 31 sign OR fp32_positive_inf, invalid)
         else if a_kind = Fp_Zero \<or> b_kind = Fp_Zero then (push_bit 31 sign, invalid)
         else (round_fraction_to_fp32 (a_value * b_value) rounding 0, invalid))"

definition decode_fp8 :: "int \<Rightarrow> int \<Rightarrow> fp_kind \<times> int \<times> rat" where
  "decode_fp8 bits fmt =
     (let sign = drop_bit 7 bits AND 1;
          (fraction_width, bias) = (if fmt = 0 then (3, 7) else (2, 15));
          exponent_width = 7 - fraction_width;
          exponent_mask = push_bit exponent_width 1 - 1;
          exponent = drop_bit fraction_width bits AND exponent_mask;
          fraction = bits AND (push_bit fraction_width 1 - 1)
      in if exponent = 0 then
           (if fraction = 0 then (Fp_Zero, sign, 0)
            else let v = (of_int fraction / 2 ^ fraction_width) * (1 / 2 ^ nat (bias - 1))
                 in (Fp_Finite, sign, if sign \<noteq> 0 then - v else v))
         else if fmt = 0 \<and> exponent = exponent_mask \<and> fraction = push_bit fraction_width 1 - 1 then (Fp_Nan, sign, 0)
         else if fmt = 1 \<and> exponent = exponent_mask then ((if fraction = 0 then Fp_Inf else Fp_Nan), sign, 0)
         else let unbiased = exponent - bias;
                  v = of_int (push_bit fraction_width 1 OR fraction) / 2 ^ fraction_width * pow2 unbiased
              in (Fp_Finite, sign, if sign \<noteq> 0 then - v else v))"

definition fp8_to_fp32_bits :: "int \<Rightarrow> int \<Rightarrow> int" where
  "fp8_to_fp32_bits bits fmt =
     (let (kind, sign, v) = decode_fp8 bits fmt
      in if kind = Fp_Nan then fp32_canonical_nan
         else if kind = Fp_Inf then push_bit 31 sign OR fp32_positive_inf
         else round_fraction_to_fp32 v RNE sign)"

definition fp32_to_fp8_bits :: "int \<Rightarrow> int \<Rightarrow> int \<Rightarrow> int \<times> int \<times> int" where
  "fp32_to_fp8_bits bits fmt rounding =
     (let (kind, sign, v) = decode_fp32 bits;
          (fraction_width, bias) = (if fmt = 0 then (3, 7) else (2, 15));
          exponent_mask = push_bit (7 - fraction_width) 1 - 1;
          max_exponent = (if fmt = 0 then 8 else 15);
          max_fraction = (if fmt = 0 then 6 else push_bit fraction_width 1 - 1);
          max_finite = push_bit 7 sign OR
            push_bit fraction_width (if fmt = 0 then exponent_mask else exponent_mask - 1) OR max_fraction
      in if kind = Fp_Nan then ((if fmt = 0 then 0x7F else 0x7E), 0, 0)
         else if kind = Fp_Inf then (if fmt = 1 then (push_bit 7 sign OR 0x7C, 0, 0) else (max_finite, 1, 0))
         else if kind = Fp_Zero then (push_bit 7 sign, 0, 0)
         else
           let magnitude = \<bar>v\<bar>;
               (num, den) = quotient_of magnitude;
               exponent = floor_log2 magnitude
           in if exponent \<ge> 1 - bias then
                let scale = int fraction_width - exponent;
                    numerator = if scale \<ge> 0 then push_bit (nat scale) num else num;
                    denominator = if scale \<ge> 0 then den else push_bit (nat (- scale)) den;
                    main = numerator div denominator;
                    remainder = numerator mod denominator;
                    inexact = of_bool (remainder \<noteq> 0);
                    main = if should_increment main remainder denominator rounding sign then main + 1 else main;
                    (main, exponent) = if main = push_bit (fraction_width + 1) 1 then (drop_bit 1 main, exponent + 1)
                                       else (main, exponent);
                    fraction = main AND (push_bit fraction_width 1 - 1)
                in if exponent > max_exponent \<or> (fmt = 0 \<and> exponent = max_exponent \<and> fraction = 7)
                   then (max_finite, 1, inexact)
                   else (push_bit 7 sign OR push_bit fraction_width (exponent + bias) OR fraction, 0, inexact)
              else
                let min_subnormal_exponent = 1 - bias - int fraction_width;
                    scale = - min_subnormal_exponent;
                    numerator = push_bit (nat scale) num;
                    main = numerator div den;
                    remainder = numerator mod den;
                    inexact = of_bool (remainder \<noteq> 0);
                    main = if should_increment main remainder den rounding sign then main + 1 else main
                in if main \<ge> push_bit fraction_width 1 then (push_bit 7 sign OR push_bit fraction_width 1, 0, inexact)
                   else (push_bit 7 sign OR main, 0, inexact))"

text \<open>
  The eight results in the order of the code's tuple: equal, less, less or equal, greater, greater or equal, unordered,
  minimum, maximum.
\<close>

definition ordered_compare :: "int \<Rightarrow> int \<Rightarrow> int \<times> int \<times> int \<times> int \<times> int \<times> int \<times> int \<times> int" where
  "ordered_compare a_bits b_bits =
     (let a_kind = fst (decode_fp32 a_bits);
          b_kind = fst (decode_fp32 b_bits);
          unordered = of_bool (a_kind = Fp_Nan \<or> b_kind = Fp_Nan);
          a_zero = (a_bits AND 0x7FFFFFFF = 0);
          b_zero = (b_bits AND 0x7FFFFFFF = 0);
          (equal, less, greater) =
            (if unordered \<noteq> 0 then (0, 0, 0)
             else let equal = of_bool (a_bits = b_bits \<or> (a_zero \<and> b_zero))
                  in if equal \<noteq> 0 then (equal, 0, 0)
                     else if drop_bit 31 (a_bits XOR b_bits) \<noteq> 0 then
                       (let less = drop_bit 31 a_bits AND 1 in (equal, less, 1 - less))
                     else if drop_bit 31 a_bits = 0 then
                       (let less = of_bool ((a_bits AND 0x7FFFFFFF) < (b_bits AND 0x7FFFFFFF)) in (equal, less, 1 - less))
                     else
                       (let less = of_bool ((a_bits AND 0x7FFFFFFF) > (b_bits AND 0x7FFFFFFF)) in (equal, less, 1 - less)));
          (minimum, maximum) =
            (if a_kind = Fp_Nan \<and> b_kind = Fp_Nan then (fp32_canonical_nan, fp32_canonical_nan)
             else if a_kind = Fp_Nan then (b_bits, b_bits)
             else if b_kind = Fp_Nan then (a_bits, a_bits)
             else if equal \<noteq> 0 then
               (if a_bits AND 0x7FFFFFFF = 0 \<and> b_bits AND 0x7FFFFFFF = 0 then
                  ((if drop_bit 31 (a_bits OR b_bits) \<noteq> 0 then 0x80000000 else 0),
                   (if drop_bit 31 (a_bits AND b_bits) = 0 then 0 else 0x80000000))
                else (a_bits, a_bits))
             else if less \<noteq> 0 then (a_bits, b_bits)
             else (b_bits, a_bits))
      in (equal, less, of_bool (equal \<noteq> 0 \<or> less \<noteq> 0), greater, of_bool (equal \<noteq> 0 \<or> greater \<noteq> 0),
          unordered, minimum, maximum))"

subsection \<open>Concrete values\<close>

lemma fp_samples:
  "multiply_fp32 0x3F800001 0x3F800001 0 RNE = (0x3F800002, 0)"
  "multiply_fp32 0x7F7FFFFF 0x40000000 0 RTZ = (0x7F7FFFFF, 0)"
  "multiply_fp32 0x00000001 0x3F000000 0 RUP = (1, 0)"
  "fp32_to_fp8_bits 0x43E10000 0 RNE = (0x7E, 0, 1)"
  "fp8_to_fp32_bits 0x01 0 = 0x3B000000"
  by code_simp+

end
