(* ===== verification/Fp_Round.thy ===== *)
theory Fp_Round
  imports Fp_Number
begin

section \<open>NPU vector unit: what rounding does\<close>

text \<open>
  The magnitudes of a binary format, ordered by their bit patterns, are a strictly increasing grid. Rounding \<open>x\<close> picks the
  grid point below or the one above; the locale proves what each mode promises, once for every format.
\<close>

subsection \<open>The grid\<close>

definition up_step :: "(int \<Rightarrow> rat) \<Rightarrow> int \<Rightarrow> int \<Rightarrow> rat \<Rightarrow> int \<Rightarrow> bool" where
  "up_step V rounding sign x m \<longleftrightarrow> x \<noteq> V m \<and>
     (if rounding = RNE then V (m + 1) - x < x - V m \<or> (V (m + 1) - x = x - V m \<and> odd m)
      else if rounding = RUP then sign = 0
      else if rounding = RDN then sign = 1
      else False)"

definition rounded :: "(int \<Rightarrow> rat) \<Rightarrow> int \<Rightarrow> int \<Rightarrow> rat \<Rightarrow> int \<Rightarrow> int" where
  "rounded V rounding sign x m = (if up_step V rounding sign x m then m + 1 else m)"

locale magnitude_grid =
  fixes V :: "int \<Rightarrow> rat"
  assumes V0: "V 0 = 0" and next_above: "0 \<le> m \<Longrightarrow> V m < V (m + 1)"
begin

lemma V_less: "0 \<le> m \<Longrightarrow> m < n \<Longrightarrow> V m < V n"
proof (induction "nat (n - m)" arbitrary: n)
  case (Suc d)
  show ?case
  proof (cases "n = m + 1")
    case False
    with Suc have "V m < V (n - 1)" by (intro Suc(1)) auto
    also have "\<dots> < V n" using next_above [of "n - 1"] Suc False by simp
    finally show ?thesis .
  qed (use Suc next_above in auto)
qed auto

lemma V_le: "0 \<le> m \<Longrightarrow> m \<le> n \<Longrightarrow> V m \<le> V n"
  using V_less [of m n] by (cases "m = n") auto

lemma V_less_iff: "0 \<le> m \<Longrightarrow> 0 \<le> n \<Longrightarrow> V m < V n \<longleftrightarrow> m < n"
  using V_less [of m n] V_le [of n m] by force

lemma V_le_iff: "0 \<le> m \<Longrightarrow> 0 \<le> n \<Longrightarrow> V m \<le> V n \<longleftrightarrow> m \<le> n"
  using V_less_iff [of n m] by force

lemma V_eq_iff: "0 \<le> m \<Longrightarrow> 0 \<le> n \<Longrightarrow> V m = V n \<longleftrightarrow> m = n"
  using V_less_iff [of m n] V_less_iff [of n m] by force

lemma V_nonneg: "0 \<le> m \<Longrightarrow> 0 \<le> V m"
  using V_le [of 0 m] V0 by simp

lemma other_side:
  assumes "0 \<le> m" "V m \<le> x" "x < V (m + 1)" "0 \<le> c"
  shows "V c \<le> V m \<or> V (m + 1) \<le> V c"
  using assms V_le [of c m] V_le [of "m + 1" c] by (cases "c \<le> m") auto

lemma nearest:
  assumes m: "0 \<le> m" "V m \<le> x" "x < V (m + 1)" and c: "0 \<le> c"
  shows "\<bar>x - V (rounded V RNE s x m)\<bar> \<le> \<bar>x - V c\<bar>"
  using other_side [OF m c] m by (auto simp: rounded_def up_step_def)

lemma nearest_even:
  assumes m: "0 \<le> m" "V m \<le> x" "x < V (m + 1)" and c: "0 \<le> c"
    and tie: "\<bar>x - V (rounded V RNE s x m)\<bar> = \<bar>x - V c\<bar>" "V c \<noteq> V (rounded V RNE s x m)"
  shows "even (rounded V RNE s x m)"
  using other_side [OF m c] m tie by (auto simp: rounded_def up_step_def split: if_splits)

lemma nearest_from_zero:
  assumes m: "0 \<le> m" "V m \<le> x" "x < V (m + 1)" and c: "0 \<le> c"
  shows "\<bar>x - V (rounded V RNE s x m)\<bar> \<le> x + V c"
proof -
  have "\<bar>x - V (rounded V RNE s x m)\<bar> \<le> \<bar>x - V 0\<bar>" by (rule nearest [OF m]) simp
  then show ?thesis using V0 V_nonneg [OF c] V_nonneg [OF m(1)] m(2) by simp
qed

lemma far_from_zero:
  assumes m: "0 \<le> m" "V m \<le> x" "x < V (m + 1)" and c: "0 \<le> c" and x: "0 < x"
    and tie: "\<bar>x - V (rounded V RNE s x m)\<bar> = x + V c"
  shows "rounded V RNE s x m = 0 \<and> V c = 0"
proof -
  have near: "\<bar>x - V (rounded V RNE s x m)\<bar> \<le> \<bar>x - V 0\<bar>" by (rule nearest [OF m]) simp
  then have e: "\<bar>x - V (rounded V RNE s x m)\<bar> = x" "V c = 0" using tie V0 V_nonneg [OF c] x by simp_all
  have z: "V m = 0 \<longleftrightarrow> m = 0" using V_eq_iff [of m 0] m(1) V0 by simp
  show ?thesis
  proof (cases "up_step V RNE s x m")
    case True
    then have "V (m + 1) - x \<le> x - V m" "V (m + 1) - x = x - V m \<longrightarrow> odd m" by (auto simp: up_step_def)
    moreover have "V (m + 1) - x = x" using e True m by (simp add: rounded_def)
    ultimately show ?thesis using V_nonneg [OF m(1)] z by simp
  next
    case False
    then have "x - V m = x" using e m by (simp add: rounded_def)
    then show ?thesis using False e z by (simp add: rounded_def)
  qed
qed

end

subsection \<open>The magnitudes of a format\<close>

text \<open>A format has \<open>p\<close> fraction bits and exponent bias \<open>b\<close>; \<open>m\<close> is a bit pattern without its sign.\<close>

definition mag_value :: "nat \<Rightarrow> int \<Rightarrow> int \<Rightarrow> rat" where
  "mag_value p b m = (let k = max (m div 2 ^ p) 1 in of_int (m - (k - 1) * 2 ^ p) * 2 powi (k - b - int p))"

lemma pow2_powi: "pow2 u = 2 powi u"
  by (simp add: pow2_def power_int_def inverse_eq_divide power_one_over)

lemma powi_Suc: "(2::rat) powi (k + 1) = 2 * 2 powi k"
  by (simp add: power_int_add)

lemma div_bounds: "0 < d \<Longrightarrow> m div d * d \<le> m \<and> m < (m div d + 1) * (d::int)"
proof -
  assume "0 < d"
  then have "0 \<le> m mod d" "m mod d < d" by simp_all
  then show ?thesis using div_mult_mod_eq [of m d] unfolding ring_distribs by linarith
qed

lemma mag_value_at:
  assumes k: "1 \<le> k" "(k - 1) * 2 ^ p \<le> m" "m \<le> (k + 1) * 2 ^ p" "k = 1 \<or> k * 2 ^ p \<le> m"
  shows "mag_value p b m = of_int (m - (k - 1) * 2 ^ p) * 2 powi (k - b - int p)"
proof (cases "m = (k + 1) * 2 ^ p")
  case True
  have "(2::rat) powi (k + 1 - b - int p) = 2 * 2 powi (k - b - int p)"
    using powi_Suc [of "k - b - int p"] by (simp add: algebra_simps)
  then show ?thesis using True k(1) by (simp add: mag_value_def Let_def max_def algebra_simps)
next
  case False
  then have "m < (k + 1) * 2 ^ p" using k(3) by simp
  then have u: "m div 2 ^ p < k + 1" by (rule div_below) simp
  have "max (m div 2 ^ p) 1 = k"
  proof (cases "k = 1")
    case False
    then have "k \<le> m div 2 ^ p" using zdiv_mono1 [of "k * 2 ^ p" m "2 ^ p"] k(4) by simp
    with u k(1) show ?thesis by simp
  qed (use u in simp)
  then show ?thesis by (simp add: mag_value_def)
qed

lemma mag_block:
  assumes "0 \<le> m"
  shows "\<exists>k\<ge>1. (k - 1) * 2 ^ p \<le> m \<and> m + 1 \<le> (k + 1) * 2 ^ p \<and> (k = 1 \<or> k * 2 ^ p \<le> (m::int))"
proof -
  let ?d = "m div 2 ^ p"
  have d: "0 \<le> ?d" "?d * 2 ^ p \<le> m" "m < (?d + 1) * 2 ^ p"
    using assms div_bounds [of "2 ^ p" m] by (simp_all add: pos_imp_zdiv_nonneg_iff)
  show ?thesis
  proof (cases "?d = 0")
    case True
    with d assms show ?thesis by (intro exI [of _ 1]) auto
  next
    case False
    with d have "(?d - 1) * 2 ^ p \<le> m" by (auto simp: algebra_simps intro: order_trans)
    with False d show ?thesis by (intro exI [of _ ?d]) auto
  qed
qed

lemma mag_value_next: "0 \<le> m \<Longrightarrow> mag_value p b m < mag_value p b (m + 1)"
proof -
  assume m: "0 \<le> m"
  then obtain k where k: "1 \<le> k" "(k - 1) * 2 ^ p \<le> m" "m + 1 \<le> (k + 1) * 2 ^ p" "k = 1 \<or> k * 2 ^ p \<le> m"
    using mag_block [OF m, of p] by blast
  have "mag_value p b m = of_int (m - (k - 1) * 2 ^ p) * 2 powi (k - b - int p)" using k by (intro mag_value_at) auto
  moreover have "mag_value p b (m + 1) = of_int (m + 1 - (k - 1) * 2 ^ p) * 2 powi (k - b - int p)"
    using k by (intro mag_value_at) auto
  ultimately show ?thesis by (simp add: zero_less_power_int)
qed

lemma mag_value_0 [simp]: "mag_value p b 0 = 0"
  by (simp add: mag_value_def)

interpretation magnitudes: magnitude_grid "mag_value p b" for p b
  by unfold_locales (simp_all add: mag_value_next)

section \<open>NPU vector unit: the code rounds on the grid\<close>

text \<open>
  The integer arithmetic of the rounding routines, division with remainder included, selects exactly the grid point that
  \<open>rounded\<close> does: the quotient is the position in the binade, the remainder decides the step.
\<close>

subsection \<open>The exponent\<close>

lemma bit_length_powi:
  assumes "0 < n"
  shows "2 powi (int (bit_length n) - 1) \<le> (of_int n :: rat)" "(of_int n :: rat) < 2 powi (int (bit_length n))"
proof -
  have "(2::int) ^ (bit_length n - 1) \<le> n" using bit_length_lower [OF assms] .
  then have "(2::rat) ^ (bit_length n - 1) \<le> of_int n" using of_int_le_iff [of "2 ^ (bit_length n - 1)" n, where 'a = rat] by simp
  moreover have "int (bit_length n) - 1 = int (bit_length n - 1)" using bit_length_pos [OF assms] by simp
  ultimately show "2 powi (int (bit_length n) - 1) \<le> (of_int n :: rat)" by (simp only: power_int_of_nat)
  have "n < 2 ^ bit_length n" using bit_length_bound [of n] assms by simp
  then have "(of_int n :: rat) < of_int (2 ^ bit_length n)" by (simp only: of_int_less_iff)
  then show "(of_int n :: rat) < 2 powi (int (bit_length n))" by (simp only: power_int_of_nat of_int_power of_int_numeral)
qed

lemma shift_powi: "0 \<le> e \<Longrightarrow> of_int (push_bit (nat e) n) = (of_int n * 2 powi e :: rat)"
  by (simp add: push_bit_eq_mult power_int_def)

lemma quotient_pos:
  assumes "0 < x" "quotient_of x = (n, d)"
  shows "0 < n" "0 < d" "x = of_int n / of_int d"
proof -
  show d: "0 < d" using quotient_of_denom_pos [OF assms(2)] .
  show x: "x = of_int n / of_int d" using quotient_of_div [OF assms(2)] .
  show "0 < n" using assms(1) d by (simp add: x zero_less_divide_iff)
qed

lemma floor_log2_bounds:
  assumes x: "0 < x"
  shows "2 powi floor_log2 x \<le> x" "x < 2 powi (floor_log2 x + 1)"
proof -
  obtain n d where q: "quotient_of x = (n, d)" by force
  note n = quotient_pos [OF x q]
  define e where "e = int (bit_length n) - int (bit_length d)"
  let ?N = "of_int n :: rat" and ?D = "of_int d :: rat"
  have D: "0 < ?D" using n(2) by simp
  have p: "(0::rat) < 2 powi i" for i by (simp add: zero_less_power_int)
  have cmp: "(if e \<ge> 0 then n < push_bit (nat e) d else push_bit (nat (- e)) n < d) \<longleftrightarrow> ?N < ?D * 2 powi e"
  proof (cases "e \<ge> 0")
    case True
    have "n < push_bit (nat e) d \<longleftrightarrow> ?N < of_int (push_bit (nat e) d)" by (simp only: of_int_less_iff)
    then show ?thesis using True by (simp add: shift_powi)
  next
    case False
    have "push_bit (nat (- e)) n < d \<longleftrightarrow> (of_int (push_bit (nat (- e)) n) :: rat) < ?D" by (simp only: of_int_less_iff)
    also have "\<dots> \<longleftrightarrow> ?N * 2 powi (- e) < ?D" using False by (simp add: shift_powi)
    also have "\<dots> \<longleftrightarrow> ?N < ?D * 2 powi e"
      using p [of e] by (simp add: power_int_minus divide_simps flip: divide_inverse)
    finally show ?thesis using False by simp
  qed
  have f: "floor_log2 x = (if ?N < ?D * 2 powi e then e - 1 else e)"
    using cmp unfolding floor_log2_def q Let_def prod.case e_def [symmetric] by presburger
  have ex: "int (bit_length n) - 1 = (e - 1) + int (bit_length d)" "int (bit_length n) = (e + 1) + (int (bit_length d) - 1)"
    by (simp_all add: e_def)
  have split_e: "(2::rat) powi (int (bit_length n) - 1) = 2 powi (e - 1) * 2 powi int (bit_length d)"
    "(2::rat) powi int (bit_length n) = 2 powi (e + 1) * 2 powi (int (bit_length d) - 1)"
    unfolding ex(1) by (rule power_int_add, simp) (unfold ex(2), rule power_int_add, simp)
  have "2 powi (e - 1) * ?D \<le> ?N"
  proof -
    have "2 powi (e - 1) * ?D \<le> 2 powi (e - 1) * 2 powi int (bit_length d)"
      using bit_length_powi(2) [OF n(2)] p [of "e - 1"] by simp
    also have "\<dots> \<le> ?N" using bit_length_powi(1) [OF n(1)] by (simp add: split_e)
    finally show ?thesis .
  qed
  then have "2 powi (e - 1) \<le> x" "\<not> ?N < ?D * 2 powi e \<Longrightarrow> 2 powi e \<le> x"
    unfolding n(3) using D by (simp_all add: le_divide_eq mult.commute)
  then show "2 powi floor_log2 x \<le> x" by (simp add: f)
  have "?N < 2 powi (e + 1) * ?D"
  proof -
    have "?N < 2 powi (e + 1) * 2 powi (int (bit_length d) - 1)" using bit_length_powi(2) [OF n(1)] unfolding split_e(2) .
    also have "\<dots> \<le> 2 powi (e + 1) * ?D" using bit_length_powi(1) [OF n(2)] p [of "e + 1"] by simp
    finally show ?thesis .
  qed
  then have "x < 2 powi (e + 1)" "?N < ?D * 2 powi e \<Longrightarrow> x < 2 powi e"
    unfolding n(3) using D by (simp_all add: divide_less_eq mult.commute)
  then show "x < 2 powi (floor_log2 x + 1)" by (simp add: f)
qed

subsection \<open>Quotient and remainder\<close>

definition low_index :: "nat \<Rightarrow> int \<Rightarrow> rat \<Rightarrow> int" where
  "low_index p b x = (let k = max (floor_log2 x) (1 - b) + b in (k - 1) * 2 ^ p + \<lfloor>x * 2 powi (int p + b - k)\<rfloor>)"

lemma position:
  fixes x :: rat and p :: nat
  assumes x: "0 < x" and k: "1 \<le> k" "k = 1 \<or> 2 powi (k - b) \<le> x" "x < 2 powi (k - b + 1)"
  defines "main \<equiv> \<lfloor>x * 2 powi (int p + b - k)\<rfloor>"
  shows "0 \<le> main" "main < 2 ^ (p + 1)" "k = 1 \<or> 2 ^ p \<le> main"
    "mag_value p b ((k - 1) * 2 ^ p + main) = of_int main * 2 powi (k - b - int p)"
    "mag_value p b ((k - 1) * 2 ^ p + main + 1) = (of_int main + 1) * 2 powi (k - b - int p)"
proof -
  let ?s = "2 powi (int p + b - k) :: rat"
  have s: "0 < ?s" by (simp add: zero_less_power_int)
  show m0: "0 \<le> main" using x s by (simp add: main_def)
  have "x * ?s < 2 powi (k - b + 1) * ?s" using k(3) s by simp
  also have "\<dots> = 2 ^ (p + 1)" by (simp flip: power_int_add power_int_of_nat add: add.commute)
  finally show m1: "main < 2 ^ (p + 1)" by (simp add: main_def floor_less_iff)
  show m2: "k = 1 \<or> 2 ^ p \<le> main"
  proof (cases "k = 1")
    case False
    then have "2 powi (k - b) * ?s \<le> x * ?s" using k(2) s by simp
    moreover have "2 powi (k - b) * ?s = 2 ^ p" by (simp flip: power_int_add power_int_of_nat)
    ultimately show ?thesis by (simp add: main_def le_floor_iff)
  qed simp
  have "(k - 1) * 2 ^ p + j \<le> (k + 1) * 2 ^ p \<longleftrightarrow> j \<le> 2 ^ (p + 1)" "k * 2 ^ p \<le> (k - 1) * 2 ^ p + j \<longleftrightarrow> 2 ^ p \<le> j" for j
    by (auto simp: algebra_simps)
  then show "mag_value p b ((k - 1) * 2 ^ p + main) = of_int main * 2 powi (k - b - int p)"
    "mag_value p b ((k - 1) * 2 ^ p + main + 1) = (of_int main + 1) * 2 powi (k - b - int p)"
    using m0 m1 m2 k(1) mag_value_at [of k p "(k - 1) * 2 ^ p + main" b] mag_value_at [of k p "(k - 1) * 2 ^ p + (main + 1)" b]
    by (auto simp: add.assoc)
qed

lemma low_index_brackets:
  assumes x: "0 < x"
  shows "0 \<le> low_index p b x" "mag_value p b (low_index p b x) \<le> x" "x < mag_value p b (low_index p b x + 1)"
proof -
  define k where "k = max (floor_log2 x) (1 - b) + b"
  have "(2::rat) powi (floor_log2 x + 1) \<le> 2 powi (k - b + 1)" by (intro power_int_increasing) (auto simp: k_def)
  with floor_log2_bounds [OF x] have k: "1 \<le> k" "k = 1 \<or> 2 powi (k - b) \<le> x" "x < 2 powi (k - b + 1)"
    by (auto simp: k_def max_def)
  note pos = position [OF x k, of p]
  let ?q = "2 powi (k - b - int p) :: rat" and ?y = "x * 2 powi (int p + b - k)"
  have q: "0 < ?q" by (simp add: zero_less_power_int)
  have y: "?y * ?q = x" by (simp add: mult.assoc flip: power_int_add)
  have i: "low_index p b x = (k - 1) * 2 ^ p + \<lfloor>?y\<rfloor>" by (simp add: low_index_def k_def)
  show "0 \<le> low_index p b x" using pos(1) k(1) by (simp add: i)
  have "of_int \<lfloor>?y\<rfloor> * ?q \<le> ?y * ?q" "?y * ?q < (of_int \<lfloor>?y\<rfloor> + 1) * ?q"
    using q floor_correct [of ?y] by (auto intro: mult_right_mono mult_strict_right_mono)
  then show "mag_value p b (low_index p b x) \<le> x" "x < mag_value p b (low_index p b x + 1)"
    using pos(4,5) by (simp_all add: i y)
qed

lemma divide_scaled:
  fixes x :: rat
  assumes "0 < x" "0 < denominator" "of_int numerator / of_int denominator = x * 2 powi s"
  shows "numerator div denominator = \<lfloor>x * 2 powi s\<rfloor>"
    "of_int (numerator mod denominator) = (x * 2 powi s - of_int \<lfloor>x * 2 powi s\<rfloor>) * of_int denominator"
proof -
  show e: "numerator div denominator = \<lfloor>x * 2 powi s\<rfloor>" by (simp add: floor_divide_of_int_eq flip: assms(3))
  have "of_int (numerator mod denominator) = (of_int numerator - of_int (numerator div denominator) * of_int denominator :: rat)"
    by (simp flip: minus_div_mult_eq_mod)
  also have "\<dots> = (of_int numerator / of_int denominator - of_int (numerator div denominator)) * of_int denominator"
    using assms(2) by (simp add: field_simps)
  finally show "of_int (numerator mod denominator) = (x * 2 powi s - of_int \<lfloor>x * 2 powi s\<rfloor>) * of_int denominator"
    by (simp add: e assms(3))
qed

lemma increment_iff:
  fixes x :: rat and p :: nat
  assumes x: "0 < x" and p: "0 < p" and k: "1 \<le> k" "k = 1 \<or> 2 powi (k - b) \<le> x" "x < 2 powi (k - b + 1)"
    and d: "0 < denominator" "of_int numerator / of_int denominator = x * 2 powi (int p + b - k)"
  defines "m \<equiv> (k - 1) * 2 ^ p + numerator div denominator"
  shows "should_increment (numerator div denominator) (numerator mod denominator) denominator rounding sign \<longleftrightarrow>
    up_step (mag_value p b) rounding sign x m"
proof -
  let ?y = "x * 2 powi (int p + b - k)" and ?q = "2 powi (k - b - int p) :: rat"
  let ?rem = "numerator mod denominator" and ?main = "numerator div denominator" and ?D = "of_int denominator :: rat"
  note dv = divide_scaled [OF x d]
  note pos = position [OF x k, of p, folded dv(1)]
  have D: "0 < ?D" using d(1) by simp
  have q: "0 < ?q" by (simp add: zero_less_power_int)
  have y: "x = ?y * ?q" by (simp add: mult.assoc flip: power_int_add)
  have rem: "of_int ?rem = (?y - of_int ?main) * ?D" using dv by simp
  have lo: "x - mag_value p b m = (?y - of_int ?main) * ?q" using pos(4) y by (simp add: m_def left_diff_distrib)
  have hi: "mag_value p b (m + 1) - x = (of_int ?main + 1 - ?y) * ?q" using pos(5) y by (simp add: m_def left_diff_distrib)
  have eq: "x = mag_value p b m \<longleftrightarrow> ?rem = 0"
  proof -
    have "x = mag_value p b m \<longleftrightarrow> ?y - of_int ?main = 0" using lo q by (metis diff_eq_eq add_0 mult_eq_0_iff less_irrefl)
    also have "\<dots> \<longleftrightarrow> (of_int ?rem :: rat) = 0" using rem D by simp
    finally show ?thesis by simp
  qed
  have dbl: "of_int (push_bit 1 ?rem) = 2 * (?y - of_int ?main) * ?D" by (simp add: push_bit_eq_mult rem)
  have gt: "push_bit 1 ?rem > denominator \<longleftrightarrow> mag_value p b (m + 1) - x < x - mag_value p b m"
  proof -
    have "push_bit 1 ?rem > denominator \<longleftrightarrow> ?D < of_int (push_bit 1 ?rem)" by (simp only: of_int_less_iff)
    also have "\<dots> \<longleftrightarrow> 1 < 2 * (?y - of_int ?main)" using D by (simp only: dbl) (simp add: mult.commute)
    also have "\<dots> \<longleftrightarrow> of_int ?main + 1 - ?y < ?y - of_int ?main" by auto
    finally show ?thesis using q by (simp only: lo hi mult_less_cancel_right_pos)
  qed
  have tie: "push_bit 1 ?rem = denominator \<longleftrightarrow> mag_value p b (m + 1) - x = x - mag_value p b m"
  proof -
    have "push_bit 1 ?rem = denominator \<longleftrightarrow> ?D = of_int (push_bit 1 ?rem)" by (metis of_int_eq_iff)
    also have "\<dots> \<longleftrightarrow> 1 = 2 * (?y - of_int ?main)" using D by (simp only: dbl) (simp add: mult.commute)
    also have "\<dots> \<longleftrightarrow> of_int ?main + 1 - ?y = ?y - of_int ?main" by auto
    finally show ?thesis using q by (simp only: lo hi mult_cancel_right) simp
  qed
  have "odd m \<longleftrightarrow> odd ?main" using p by (simp add: m_def)
  then have par: "odd m \<longleftrightarrow> ?main AND 1 \<noteq> 0" by (simp add: and_one_eq odd_iff_mod_2_eq_one)
  show ?thesis
    unfolding should_increment_def up_step_def Let_def eq gt tie par by simp
qed

end
