(* ===== verification/Fp_Result.thy ===== *)
theory Fp_Result
  imports Fp_Round
begin

section \<open>NPU vector unit: bit patterns and their values\<close>

text \<open>
  From the rounded magnitude to the 32-bit result: the fields of a pattern, the value of a pattern, and what a result must
  satisfy (\<open>correct_rounding\<close>). \<open>round_fraction_to_fp32\<close> is shown to return exactly that, in every mode.
\<close>

subsection \<open>Fields\<close>

lemma push_or: "fits n m \<Longrightarrow> push_bit n s OR m = s * 2 ^ n + m"
proof -
  assume m: "fits n m"
  have "push_bit n s + m = push_bit n s OR m"
    by (rule disjunctive_add) (use fits_bit [OF m] in \<open>auto simp: bit_simps not_le\<close>)
  then show ?thesis by (simp add: push_bit_eq_mult)
qed

lemma and_mask_mod: "x AND (2 ^ n - 1) = (x::int) mod 2 ^ n"
  by (simp add: mask_eq_exp_minus_1 [symmetric] take_bit_eq_mask [symmetric] take_bit_eq_mod)

lemma field_mods:
  "x AND 1 = (x::int) mod 2" "x AND 255 = x mod 256" "x AND 8388607 = x mod 8388608" "x AND 2147483647 = x mod 2147483648"
  using and_mask_mod [of x 1] and_mask_mod [of x 8] and_mask_mod [of x 23] and_mask_mod [of x 31] by simp_all

definition signed_value :: "int \<Rightarrow> rat \<Rightarrow> rat" where
  "signed_value s v = (if s \<noteq> 0 then - v else v)"

definition word32 :: "int \<Rightarrow> bool" where
  "word32 b \<longleftrightarrow> fits 32 b"

definition mag32 :: "int \<Rightarrow> rat" where
  "mag32 = mag_value 23 127"

interpretation mag32: magnitude_grid mag32
  unfolding mag32_def by unfold_locales (simp_all add: mag_value_next)

lemma word32_split:
  assumes "word32 b"
  shows "b = b div 2 ^ 31 * 2 ^ 31 + b mod 2 ^ 31" "b div 2 ^ 31 = 0 \<or> b div 2 ^ 31 = 1"
    "0 \<le> b mod 2 ^ 31" "b mod 2 ^ 31 < 2 ^ 31"
  using assms by (auto simp: word32_def fits_def)

lemma mag32_subnormal: "0 \<le> m \<Longrightarrow> m < 2 ^ 23 \<Longrightarrow> mag32 m = (of_int m / 2 ^ 23) * (1 / 2 ^ 126)"
  by (simp add: mag32_def mag_value_def Let_def power_int_def field_simps)

lemma mag32_normal:
  assumes "0 \<le> fr" "fr < 2 ^ 23" "1 \<le> ex"
  shows "mag32 (ex * 2 ^ 23 + fr) = of_int (2 ^ 23 + fr) / 2 ^ 23 * 2 powi (ex - 127)"
proof -
  have "mag32 (ex * 2 ^ 23 + fr) = of_int (ex * 2 ^ 23 + fr - (ex - 1) * 2 ^ 23) * 2 powi (ex - 127 - int 23)"
    unfolding mag32_def using assms by (intro mag_value_at) auto
  moreover have "ex * 2 ^ 23 + fr - (ex - 1) * 2 ^ 23 = 2 ^ 23 + fr" by simp
  moreover have "(2::rat) powi (ex - 127 - int 23) = 2 powi (ex - 127) / 2 ^ 23" by (simp add: power_int_diff)
  ultimately show ?thesis by (simp only: times_divide_eq_left times_divide_eq_right)
qed

lemma decode_fp32_cases:
  assumes b: "word32 b"
  defines "s \<equiv> b div 2 ^ 31" and "m \<equiv> b mod 2 ^ 31"
  shows "decode_fp32 b =
    (if m = 0 then (Fp_Zero, s, 0)
     else if m < 0x7F800000 then (Fp_Finite, s, signed_value s (mag32 m))
     else if m = 0x7F800000 then (Fp_Inf, s, 0)
     else (Fp_Nan, s, 0))"
proof -
  define ex where "ex = m div 2 ^ 23"
  define fr where "fr = m mod 2 ^ 23"
  note w = word32_split [OF b, folded s_def m_def]
  have m: "m = ex * 2 ^ 23 + fr" "0 \<le> fr" "fr < 2 ^ 23" "0 \<le> ex" "ex < 256"
    using w(3,4) by (auto simp: ex_def fr_def)
  have whole: "b = (s * 256 + ex) * 2 ^ 23 + fr" using w(1) m(1) by simp
  have "b div 2 ^ 23 = s * 256 + ex" "b mod 2 ^ 23 = fr" 
    unfolding whole using m(2,3) by (simp_all add: mod_mult_self3 div_mult_self3 del: distrib_right_numeral)
  moreover have "b div 2 ^ 31 = s" "s mod 2 = s" using w(2) by (auto simp: s_def)
  moreover have "(s * 256 + ex) mod 256 = ex" using m(4,5) by simp
  ultimately have f: "drop_bit 31 b AND 1 = s" "drop_bit 23 b AND 0xFF = ex" "b AND 0x7FFFFF = fr"
    by (simp_all add: field_mods drop_bit_eq_div)
  have o: "8388608 OR fr = 8388608 + fr" using push_or [of 23 fr 1] m(2,3) by (simp add: fits_def)
  show ?thesis
  proof (cases "ex = 0")
    case True
    then have "m = fr" "m < 2 ^ 23" using m by auto
    then show ?thesis
      using True w(3) mag32_subnormal [of m] by (simp add: decode_fp32_def Let_def f signed_value_def)
  next
    case False
    then have e1: "1 \<le> ex" using m(4) by simp
    have "m = 0x7F800000 \<longrightarrow> ex = 255 \<and> fr = 0" by (simp add: ex_def fr_def)
    then have big: "m \<noteq> 0" "m < 0x7F800000 \<longleftrightarrow> ex \<noteq> 255" "m = 0x7F800000 \<longleftrightarrow> ex = 255 \<and> fr = 0" using m e1 by auto
    have v: "mag32 m = of_int (2 ^ 23 + fr) / 2 ^ 23 * 2 powi (ex - 127)" using mag32_normal [OF m(2,3) e1] by (simp add: m(1))
    show ?thesis
      using False big v by (simp add: decode_fp32_def Let_def f o pow2_powi signed_value_def)
  qed
qed

subsection \<open>The two branches of the rounding routines\<close>

lemma rounded_shift:
  "(should_increment main remainder den rounding sign \<longleftrightarrow> up_step V rounding sign x (c + main)) \<Longrightarrow>
   rounded V rounding sign x (c + main) = c + (if should_increment main remainder den rounding sign then main + 1 else main)"
  by (simp add: rounded_def)

lemma powi_move: "x * 2 powi s = c \<longleftrightarrow> x = c * 2 powi (- s)" for x c :: rat
  by (auto simp: mult.assoc simp flip: power_int_add)

lemma zero_remainder:
  assumes d: "0 < x" "0 < denominator" "of_int numerator / of_int denominator = (x * 2 powi s :: rat)"
  shows "numerator mod denominator = 0 \<longleftrightarrow> x * 2 powi s = of_int (numerator div denominator)"
proof -
  have "numerator mod denominator = 0 \<longleftrightarrow> (of_int (numerator mod denominator) :: rat) = 0" by simp
  also have "\<dots> \<longleftrightarrow> x * 2 powi s = of_int (numerator div denominator)"
    using divide_scaled [OF d] d(2) by auto
  finally show ?thesis .
qed

lemma scaled_fraction:
  fixes scale :: int
  assumes "0 < x" "quotient_of x = (num, den)"
  defines "numerator \<equiv> (if scale \<ge> 0 then push_bit (nat scale) num else num)"
    and "denominator \<equiv> (if scale \<ge> 0 then den else push_bit (nat (- scale)) den)"
  shows "0 < denominator" "of_int numerator / of_int denominator = x * 2 powi scale"
proof -
  note q = quotient_pos [OF assms(1,2)]
  show "0 < denominator" using q(2) by (simp add: denominator_def push_bit_eq_mult)
  show "of_int numerator / of_int denominator = x * 2 powi scale"
    using q by (simp add: numerator_def denominator_def shift_powi power_int_minus field_simps)
qed

lemma normal_branch:
  fixes x :: rat and p :: nat and rounding sign :: int
  assumes x: "0 < x" and p: "0 < p" and q: "quotient_of x = (num, den)" and e: "1 - b \<le> floor_log2 x"
  defines "scale \<equiv> int p - floor_log2 x"
  defines "numerator \<equiv> (if scale \<ge> 0 then push_bit (nat scale) num else num)"
    and "denominator \<equiv> (if scale \<ge> 0 then den else push_bit (nat (- scale)) den)"
  defines "main \<equiv> numerator div denominator" and "remainder \<equiv> numerator mod denominator"
  defines "n \<equiv> (if should_increment main remainder denominator rounding sign then main + 1 else main)"
  shows "2 ^ p \<le> n" "n \<le> 2 ^ (p + 1)"
    "rounded (mag_value p b) rounding sign x (low_index p b x) = (floor_log2 x + b - 1) * 2 ^ p + n"
    "remainder = 0 \<longleftrightarrow> x = mag_value p b (low_index p b x)"
proof -
  define k where "k = floor_log2 x + b"
  have sc: "scale = int p + b - k" by (simp add: scale_def k_def)
  have k: "1 \<le> k" "k = 1 \<or> 2 powi (k - b) \<le> x" "x < 2 powi (k - b + 1)"
    using floor_log2_bounds [OF x] e by (simp_all add: k_def)
  have d: "0 < denominator" "of_int numerator / of_int denominator = x * 2 powi (int p + b - k)"
    using scaled_fraction [OF x q, of scale, folded numerator_def denominator_def] by (simp_all add: sc)
  have main: "main = \<lfloor>x * 2 powi (int p + b - k)\<rfloor>" using divide_scaled(1) [OF x d] by (simp add: main_def)
  note pos = position [OF x k, of p, folded main]
  have mx: "max (floor_log2 x) (1 - b) + b = k" using e by (simp add: k_def)
  have low: "low_index p b x = (k - 1) * 2 ^ p + main" unfolding low_index_def Let_def mx main ..
  have "2 powi (k - b) * 2 powi (int p + b - k) \<le> x * 2 powi (int p + b - k)"
    using floor_log2_bounds(1) [OF x] by (intro mult_right_mono) (simp_all add: k_def)
  moreover have "(2::rat) powi (k - b) * 2 powi (int p + b - k) = 2 ^ p" by (simp flip: power_int_add power_int_of_nat)
  ultimately have "2 ^ p \<le> main" by (simp add: main le_floor_iff)
  then show "2 ^ p \<le> n" "n \<le> 2 ^ (p + 1)" using pos(2) by (auto simp: n_def)
  show "rounded (mag_value p b) rounding sign x (low_index p b x) = (floor_log2 x + b - 1) * 2 ^ p + n"
    unfolding low n_def
    using rounded_shift [OF increment_iff [OF x p k d, folded main_def remainder_def]] by (simp add: k_def)
  have "remainder = 0 \<longleftrightarrow> x * 2 powi (int p + b - k) = of_int main"
    unfolding remainder_def main_def by (rule zero_remainder [OF x d])
  also have "\<dots> \<longleftrightarrow> x = of_int main * 2 powi (k - b - int p)"
    by (simp add: powi_move diff_diff_eq add.commute)
  finally show "remainder = 0 \<longleftrightarrow> x = mag_value p b (low_index p b x)" by (simp add: low pos(4))
qed

lemma subnormal_branch:
  fixes x :: rat and p :: nat and rounding sign :: int
  assumes x: "0 < x" and p: "0 < p" and q: "quotient_of x = (num, den)" and e: "floor_log2 x < 1 - b" and b: "1 \<le> b"
  defines "numerator \<equiv> push_bit (nat (int p + b - 1)) num"
  defines "main \<equiv> numerator div den" and "remainder \<equiv> numerator mod den"
  defines "n \<equiv> (if should_increment main remainder den rounding sign then main + 1 else main)"
  shows "0 \<le> n" "n \<le> 2 ^ p" "rounded (mag_value p b) rounding sign x (low_index p b x) = n"
    "remainder = 0 \<longleftrightarrow> x = mag_value p b (low_index p b x)"
proof -
  have "(2::rat) powi (floor_log2 x + 1) \<le> 2 powi (1 - b)" using e by (intro power_int_increasing) auto
  with floor_log2_bounds [OF x] have small: "x < 2 powi (1 - b)" by simp
  also have "\<dots> < 2 powi (1 - b + 1)" by (intro power_int_strict_increasing) auto
  finally have k: "(1::int) \<le> 1" "(1::int) = 1 \<or> 2 powi (1 - b) \<le> x" "x < 2 powi (1 - b + 1)" by simp_all
  have d: "0 < den" "of_int numerator / of_int den = x * 2 powi (int p + b - 1)"
    using scaled_fraction [OF x q, of "int p + b - 1"] b by (simp_all add: numerator_def)
  have main: "main = \<lfloor>x * 2 powi (int p + b - 1)\<rfloor>" using divide_scaled(1) [OF x d] by (simp add: main_def)
  note pos = position [OF x k, of p, folded main]
  have low: "low_index p b x = main" using e by (simp add: low_index_def main max_def)
  have "x * 2 powi (int p + b - 1) < 2 powi (1 - b) * 2 powi (int p + b - 1)"
    using small by (intro mult_strict_right_mono) (simp_all add: zero_less_power_int)
  also have "(2::rat) powi (1 - b) * 2 powi (int p + b - 1) = 2 ^ p" by (simp flip: power_int_add power_int_of_nat)
  finally have "main < 2 ^ p" by (simp add: main floor_less_iff)
  then show "0 \<le> n" "n \<le> 2 ^ p" using pos(1) by (auto simp: n_def)
  show "rounded (mag_value p b) rounding sign x (low_index p b x) = n"
    unfolding low n_def using rounded_shift [of main remainder den rounding sign "mag_value p b" x 0]
      increment_iff [OF x p k d, folded main_def remainder_def] by simp
  have "remainder = 0 \<longleftrightarrow> x * 2 powi (int p + b - 1) = of_int main"
    unfolding remainder_def main_def by (rule zero_remainder [OF x d])
  also have "\<dots> \<longleftrightarrow> x = of_int main * 2 powi (1 - b - int p)"
    by (simp add: powi_move diff_diff_eq add.commute)
  finally show "remainder = 0 \<longleftrightarrow> x = mag_value p b (low_index p b x)" using pos(4) by (simp add: low)
qed

lemma pack_normal:
  assumes n: "2 ^ p \<le> n" "n \<le> 2 ^ (p + 1)"
    and r: "(n', e') = (if n = push_bit (p + 1) 1 then (drop_bit 1 n, e + 1) else (n, e))"
  shows "push_bit p (e' + b) OR (n' AND (2 ^ p - 1)) = (e + b - 1) * 2 ^ p + n"
    "M < e' \<longleftrightarrow> (M + b) * 2 ^ p \<le> (e + b - 1) * 2 ^ p + n - 2 ^ p"
    "2 ^ p \<le> n'" "n' < 2 ^ (p + 1)" "(e' + b - 1) * 2 ^ p + n' = (e + b - 1) * 2 ^ p + n"
    "n' AND (2 ^ p - 1) = n' - (2 ^ p :: int)"
proof -
  have r': "n' = (if n = 2 ^ (p + 1) then 2 ^ p else n)" "e' = (if n = 2 ^ (p + 1) then e + 1 else e)"
    using r by (auto simp: push_bit_eq_mult drop_bit_eq_div split: if_splits)
  show n': "2 ^ p \<le> n'" "n' < 2 ^ (p + 1)" using n by (auto simp: r')
  show same: "(e' + b - 1) * 2 ^ p + n' = (e + b - 1) * 2 ^ p + n" by (auto simp: r' algebra_simps)
  have "n' mod 2 ^ p = (n' - 2 ^ p) mod 2 ^ p" by simp
  also have "\<dots> = n' - 2 ^ p" using n' by (intro mod_pos_pos_trivial) auto
  finally show low: "n' AND (2 ^ p - 1) = n' - 2 ^ p" by (simp only: and_mask_mod)
  have "push_bit p (e' + b) OR (n' AND (2 ^ p - 1)) = (e' + b) * 2 ^ p + (n' - 2 ^ p)"
    unfolding low by (rule push_or) (use n' in \<open>simp add: fits_def\<close>)
  then show "push_bit p (e' + b) OR (n' AND (2 ^ p - 1)) = (e + b - 1) * 2 ^ p + n" using same by (simp add: algebra_simps)
  have "M < e' \<longleftrightarrow> (M + b) * 2 ^ p \<le> (e' + b - 1) * 2 ^ p" by simp
  also have "\<dots> \<longleftrightarrow> (M + b) * 2 ^ p < (e' + b) * 2 ^ p" by simp
  also have "\<dots> \<longleftrightarrow> (M + b) * 2 ^ p \<le> (e' + b - 1) * 2 ^ p + n' - 2 ^ p"
  proof
    assume "(M + b) * 2 ^ p < (e' + b) * 2 ^ p"
    then have "M + b \<le> e' + b - 1" by simp
    then have "(M + b) * 2 ^ p \<le> (e' + b - 1) * 2 ^ p" by (rule mult_right_mono) simp
    with n' show "(M + b) * 2 ^ p \<le> (e' + b - 1) * 2 ^ p + n' - 2 ^ p" by linarith
  next
    assume "(M + b) * 2 ^ p \<le> (e' + b - 1) * 2 ^ p + n' - 2 ^ p"
    also have "\<dots> < (e' + b) * 2 ^ p" using n' by (simp add: algebra_simps)
    finally show "(M + b) * 2 ^ p < (e' + b) * 2 ^ p" .
  qed
  finally show "M < e' \<longleftrightarrow> (M + b) * 2 ^ p \<le> (e + b - 1) * 2 ^ p + n - 2 ^ p" using same by simp
qed

section \<open>NPU vector unit: correct rounding and FP8 conversion\<close>

subsection \<open>Rounding to binary32\<close>

lemma rounded_ge: "0 < x \<Longrightarrow> 0 \<le> rounded (mag_value p b) rounding s x (low_index p b x)"
  using low_index_brackets(1) [of x p b] by (simp add: rounded_def)

lemma push_or_top:
  assumes "0 \<le> m" "m < (2 ^ 31 :: int)"
  shows "push_bit 31 s OR m = s * 2 ^ 31 + m"
  by (rule push_or) (use assms in \<open>simp add: fits_def\<close>)

lemma round_fraction_result:
  fixes rounding :: int
  assumes "v \<noteq> 0"
  defines "s \<equiv> of_bool (v < 0)"
  defines "m \<equiv> rounded mag32 rounding s \<bar>v\<bar> (low_index 23 127 \<bar>v\<bar>)"
  shows "round_fraction_to_fp32 v rounding zero_sign =
    (if 0x7F800000 \<le> m then overflow_result s rounding else s * 2 ^ 31 + m)"
proof -
  let ?x = "\<bar>v\<bar>"
  have x: "0 < ?x" using assms(1) by simp
  obtain num den where q: "quotient_of ?x = (num, den)" by force
  have m_ge: "0 \<le> m" unfolding m_def mag32_def by (rule rounded_ge [OF x])
  show ?thesis
  proof (cases "floor_log2 ?x \<ge> - 126")
    case True
    define scale where "scale = 23 - floor_log2 ?x"
    define numerator where "numerator = (if scale \<ge> 0 then push_bit (nat scale) num else num)"
    define denominator where "denominator = (if scale \<ge> 0 then den else push_bit (nat (- scale)) den)"
    define n where "n = (if should_increment (numerator div denominator) (numerator mod denominator) denominator rounding s
      then numerator div denominator + 1 else numerator div denominator)"
    obtain n' e' where r24: "(n', e') = (if n = push_bit 24 1 then (drop_bit 1 n, floor_log2 ?x + 1) else (n, floor_log2 ?x))"
      by (metis surj_pair)
    then have r: "(n', e') = (if n = push_bit (23 + 1) 1 then (drop_bit 1 n, floor_log2 ?x + 1) else (n, floor_log2 ?x))"
      by simp
    have p: "(0::nat) < 23" and e: "1 - 127 \<le> floor_log2 ?x" using True by simp_all
    have sc: "int 23 - floor_log2 ?x = scale" by (simp add: scale_def)
    note nb = normal_branch(1-3) [OF x p q e, where rounding = rounding and sign = s, unfolded sc, folded numerator_def denominator_def, folded n_def]
    have n: "2 ^ 23 \<le> n" "n \<le> 2 ^ (23 + 1)" "m = (floor_log2 ?x + 127 - 1) * 2 ^ 23 + n"
      unfolding m_def mag32_def by (fact nb)+
    note pk = pack_normal(1) [OF n(1,2) r, where b = 127] pack_normal(2) [OF n(1,2) r, where b = 127 and M = 127]
    have big: "e' > 127 \<longleftrightarrow> 0x7F800000 \<le> m" using pk(2) n(3) by simp
    have val: "push_bit 23 (e' + 127) OR (n' AND 0x7FFFFF) = m" using pk(1) n(3) by simp
    have "round_fraction_to_fp32 v rounding zero_sign =
      (if e' > 127 then overflow_result s rounding else push_bit 31 s OR push_bit 23 (e' + 127) OR (n' AND 0x7FFFFF))"
      unfolding round_fraction_to_fp32_def Let_def q prod.case s_def [symmetric] scale_def [symmetric]
        numerator_def [symmetric] denominator_def [symmetric] n_def [symmetric] r24 [symmetric]
      using assms(1) True by simp
    then show ?thesis using push_or_top [of m s] m_ge big val by simp
  next
    case False
    define n where "n = (let numerator = push_bit 149 num; main = numerator div den; remainder = numerator mod den in
       if should_increment main remainder den rounding s then main + 1 else main)"
    have p: "(0::nat) < 23" and e: "floor_log2 ?x < 1 - 127" and b: "(1::int) \<le> 127" using False by simp_all
    have sc: "nat (int 23 + 127 - 1) = 149" by simp
    note sb = subnormal_branch(1-3) [OF x p q e b, where rounding = rounding and sign = s, unfolded sc, folded n_def [unfolded Let_def]]
    have n: "0 \<le> n" "n \<le> 2 ^ 23" "m = n"
      unfolding m_def mag32_def by (fact sb)+
    have "round_fraction_to_fp32 v rounding zero_sign =
      (if n \<ge> 2 ^ 23 then push_bit 31 s OR 2 ^ 23 else push_bit 31 s OR n)"
      unfolding round_fraction_to_fp32_def Let_def q prod.case s_def [symmetric] n_def [unfolded Let_def, symmetric]
      using assms(1) False by simp
    then show ?thesis using push_or_top [of "2 ^ 23" s] push_or_top [of n s] n by (cases "n = 2 ^ 23") simp_all
  qed
qed

subsection \<open>What correct rounding means\<close>

definition fp32_finite :: "int \<Rightarrow> bool" where
  "fp32_finite b \<longleftrightarrow> word32 b \<and> fst (decode_fp32 b) \<in> {Fp_Zero, Fp_Finite}"

definition fp32_value :: "int \<Rightarrow> rat" where
  "fp32_value b = snd (snd (decode_fp32 b))"

definition fp32_largest :: rat where
  "fp32_largest = 2 ^ 128 - 2 ^ 104"

definition fp32_nearest :: "rat \<Rightarrow> int \<Rightarrow> bool" where
  "fp32_nearest v r \<longleftrightarrow> (\<forall>c. fp32_finite c \<longrightarrow> \<bar>v - fp32_value r\<bar> \<le> \<bar>v - fp32_value c\<bar> \<and>
     (\<bar>v - fp32_value r\<bar> = \<bar>v - fp32_value c\<bar> \<and> fp32_value c \<noteq> fp32_value r \<longrightarrow> even r))"

definition correct_rounding :: "rat \<Rightarrow> int \<Rightarrow> int \<Rightarrow> bool" where
  "correct_rounding v rounding r \<longleftrightarrow> word32 r \<and> fst (snd (decode_fp32 r)) = of_bool (v < 0) \<and>
     (if rounding = RNE then
        (if \<bar>v\<bar> < 2 ^ 128 - 2 ^ 103 then fp32_finite r \<and> fp32_nearest v r else fst (decode_fp32 r) = Fp_Inf)
      else if rounding = RUP then
        (if v \<le> fp32_largest
         then fp32_finite r \<and> v \<le> fp32_value r \<and> (\<forall>c. fp32_finite c \<and> v \<le> fp32_value c \<longrightarrow> fp32_value r \<le> fp32_value c)
         else fst (decode_fp32 r) = Fp_Inf)
      else if rounding = RDN then
        (if - fp32_largest \<le> v
         then fp32_finite r \<and> fp32_value r \<le> v \<and> (\<forall>c. fp32_finite c \<and> fp32_value c \<le> v \<longrightarrow> fp32_value c \<le> fp32_value r)
         else fst (decode_fp32 r) = Fp_Inf)
      else fp32_finite r \<and> \<bar>fp32_value r\<bar> \<le> \<bar>v\<bar> \<and>
        (\<forall>c. fp32_finite c \<and> \<bar>fp32_value c\<bar> \<le> \<bar>v\<bar> \<longrightarrow> \<bar>fp32_value c\<bar> \<le> \<bar>fp32_value r\<bar>))"

subsection \<open>Words and magnitudes\<close>

lemma word32_join:
  assumes "s = 0 \<or> s = 1" "0 \<le> m" "m < 2 ^ 31"
  shows "word32 (s * 2 ^ 31 + m)" "(s * 2 ^ 31 + m) div 2 ^ 31 = s" "(s * 2 ^ 31 + m) mod 2 ^ 31 = m"
  using assms by (auto simp: word32_def fits_def)

lemma decode_join:
  assumes "s = 0 \<or> s = 1" "0 \<le> m" "m < 2 ^ 31"
  shows "decode_fp32 (s * 2 ^ 31 + m) =
    (if m = 0 then (Fp_Zero, s, 0)
     else if m < 0x7F800000 then (Fp_Finite, s, signed_value s (mag32 m))
     else if m = 0x7F800000 then (Fp_Inf, s, 0) else (Fp_Nan, s, 0))"
  using decode_fp32_cases [OF word32_join(1) [OF assms]] unfolding word32_join(2,3) [OF assms] .

lemma finite_join:
  assumes "s = 0 \<or> s = 1" "0 \<le> m" "m < 0x7F800000"
  shows "fp32_finite (s * 2 ^ 31 + m)" "fp32_value (s * 2 ^ 31 + m) = signed_value s (mag32 m)"
    "fst (snd (decode_fp32 (s * 2 ^ 31 + m))) = s"
  using decode_join [of s m] word32_join(1) [of s m] assms mag32.V0
  by (auto simp: fp32_finite_def fp32_value_def signed_value_def)

lemma finite_split:
  assumes "fp32_finite c"
  shows "\<exists>s m. c = s * 2 ^ 31 + m \<and> (s = 0 \<or> s = 1) \<and> 0 \<le> m \<and> m < 0x7F800000 \<and> fp32_value c = signed_value s (mag32 m)"
proof -
  have w: "word32 c" using assms by (simp add: fp32_finite_def)
  note sp = word32_split [OF w]
  have "c mod 2 ^ 31 < 0x7F800000"
    using assms decode_fp32_cases [OF w] by (auto simp: fp32_finite_def split: if_splits)
  then show ?thesis
    using sp finite_join(2) [of "c div 2 ^ 31" "c mod 2 ^ 31"] by (intro exI [of _ "c div 2 ^ 31"] exI [of _ "c mod 2 ^ 31"]) auto
qed

lemma mag32_top: "mag32 0x7F7FFFFF = fp32_largest" "mag32 0x7F800000 = 2 ^ 128"
proof -
  show "mag32 0x7F7FFFFF = fp32_largest"
    using mag32_normal [where fr = "0x7FFFFF" and ex = 254] by (simp add: fp32_largest_def power_int_def)
  show "mag32 0x7F800000 = 2 ^ 128"
    using mag32_normal [where fr = 0 and ex = 255] by (simp add: power_int_def)
qed

lemma signed_distance:
  assumes "s = 0 \<or> s = 1" "s' = 0 \<or> s' = (1::int)" "0 \<le> x" "0 \<le> y"
  shows "\<bar>signed_value s x - signed_value s' y\<bar> = (if s = s' then \<bar>x - y\<bar> else x + y)"
  using assms by (auto simp: signed_value_def)

subsection \<open>Every mode rounds correctly\<close>

definition top32 :: int where
  "top32 = 0x7F800000"

lemma mag32_bracket:
  assumes "0 < x"
  shows "0 \<le> low_index 23 127 x" "mag32 (low_index 23 127 x) \<le> x" "x < mag32 (low_index 23 127 x + 1)"
  using low_index_brackets [OF assms, of 23 127] by (simp_all add: mag32_def)

lemma largest_facts: "mag32 (top32 - 1) = fp32_largest" "mag32 top32 = 2 ^ 128" "odd (top32 - 1)" "0 < top32" "top32 < 2 ^ 31"
  using mag32_top by (simp_all add: top32_def)

lemma below_top: "0 \<le> m \<Longrightarrow> m < top32 \<longleftrightarrow> mag32 m \<le> fp32_largest"
  using mag32.V_le_iff [of m "top32 - 1"] largest_facts by simp

lemma toward_zero:
  assumes x: "0 < x"
  defines "m \<equiv> min (low_index 23 127 x) (top32 - 1)"
  shows "0 \<le> m" "m < top32" "mag32 m \<le> x" "0 \<le> c \<Longrightarrow> c < top32 \<Longrightarrow> mag32 c \<le> x \<Longrightarrow> mag32 c \<le> mag32 m"
proof -
  note br = mag32_bracket [OF x]
  show m0: "0 \<le> m" and mt: "m < top32" using br(1) largest_facts by (auto simp: m_def)
  show "mag32 m \<le> x" using mag32.V_le [of m "low_index 23 127 x"] m0 br(2) by (simp add: m_def)
  show "mag32 c \<le> mag32 m" if c: "0 \<le> c" "c < top32" "mag32 c \<le> x"
  proof -
    have "mag32 c < mag32 (low_index 23 127 x + 1)" using c(3) br(3) by simp
    then have "c \<le> low_index 23 127 x" using mag32.V_less_iff [of c "low_index 23 127 x + 1"] c(1) br(1) by simp
    then show ?thesis using c(1,2) by (intro mag32.V_le) (auto simp: m_def)
  qed
qed

lemma away_from_zero:
  assumes x: "0 < x"
  defines "L \<equiv> low_index 23 127 x"
  defines "m \<equiv> (if x \<noteq> mag32 L then L + 1 else L)"
  shows "0 \<le> m" "m < top32 \<longleftrightarrow> x \<le> fp32_largest" "x \<le> mag32 m" "0 \<le> c \<Longrightarrow> x \<le> mag32 c \<Longrightarrow> mag32 m \<le> mag32 c"
proof -
  note br = mag32_bracket [OF x, folded L_def]
  show m0: "0 \<le> m" using br(1) by (simp add: m_def)
  show xm: "x \<le> mag32 m" using br by (simp add: m_def)
  show least: "mag32 m \<le> mag32 c" if "0 \<le> c" "x \<le> mag32 c" for c
    using mag32.other_side [OF br that(1)] that(2) br(2) by (auto simp: m_def)
  show "m < top32 \<longleftrightarrow> x \<le> fp32_largest"
    unfolding below_top [OF m0] using xm least [of "top32 - 1"] largest_facts by auto
qed

lemma nearest_top:
  fixes s :: int
  assumes x: "0 < x"
  defines "m \<equiv> rounded mag32 RNE s x (low_index 23 127 x)"
  shows "m < top32 \<longleftrightarrow> x < 2 ^ 128 - 2 ^ 103"
proof -
  let ?L = "low_index 23 127 x"
  note br = mag32_bracket [OF x]
  consider (below) "?L < top32 - 1" | (last) "?L = top32 - 1" | (above) "top32 \<le> ?L" by linarith
  then show ?thesis
  proof cases
    case below
    then have "m < top32" by (simp add: m_def rounded_def)
    moreover have "mag32 (?L + 1) \<le> fp32_largest" using below_top [of "?L + 1"] br(1) below by simp
    then have "x < 2 ^ 128 - 2 ^ 103" using br(3) by (simp add: fp32_largest_def)
    ultimately show ?thesis by simp
  next
    case last
    then show ?thesis
      using largest_facts br by (auto simp: m_def rounded_def up_step_def fp32_largest_def)
  next
    case above
    then have "2 ^ 128 \<le> x" using mag32.V_le [of top32 ?L] largest_facts br(2) by simp
    moreover have "\<not> m < top32" using above by (simp add: m_def rounded_def)
    ultimately show ?thesis by simp
  qed
qed

lemma overflow_join:
  assumes "s = 0 \<or> s = 1"
  shows "overflow_result s rounding = s * 2 ^ 31 +
    (if rounding = RNE \<or> (rounding = RUP \<and> s = 0) \<or> (rounding = RDN \<and> s = 1) then top32 else top32 - 1)"
  using push_or_top [of "0x7F800000" s] push_or_top [of "0x7F7FFFFF" s]
  by (simp add: overflow_result_def Let_def fp32_positive_inf_def fp32_max_finite_def top32_def)

lemma infinite_join:
  assumes "s = 0 \<or> s = 1"
  shows "word32 (s * 2 ^ 31 + top32)" "decode_fp32 (s * 2 ^ 31 + top32) = (Fp_Inf, s, 0)"
  using word32_join(1) [OF assms, of top32] decode_join [OF assms, of top32] by (simp_all add: top32_def)

lemma finite_joined:
  assumes "s = 0 \<or> s = 1" "0 \<le> m" "m < top32"
  shows "word32 (s * 2 ^ 31 + m)" "fp32_finite (s * 2 ^ 31 + m)" "fp32_value (s * 2 ^ 31 + m) = signed_value s (mag32 m)"
    "fst (snd (decode_fp32 (s * 2 ^ 31 + m))) = s" "even (s * 2 ^ 31 + m) \<longleftrightarrow> even m"
  using finite_join [OF assms(1,2)] word32_join(1) [OF assms(1,2)] assms(3) by (simp_all add: top32_def)

lemma finite_cases:
  assumes "fp32_finite c"
  obtains s m where "s = 0 \<or> s = 1" "0 \<le> m" "m < top32" "fp32_value c = signed_value s (mag32 m)"
  using finite_split [OF assms] by (auto simp: top32_def)

lemma nearest_result:
  assumes x: "0 < x" and s: "s = 0 \<or> s = 1" and small: "x < 2 ^ 128 - 2 ^ 103"
  shows "fp32_nearest (signed_value s x) (s * 2 ^ 31 + rounded mag32 RNE s x (low_index 23 127 x))"
proof -
  let ?m = "rounded mag32 RNE s x (low_index 23 127 x)"
  note br = mag32_bracket [OF x]
  have m: "0 \<le> ?m" "?m < top32" using nearest_top [OF x] small br(1) by (auto simp: rounded_def)
  note r = finite_joined [OF s m]
  have x0: "0 \<le> x" "0 \<le> mag32 ?m" using x mag32.V_nonneg [OF m(1)] by simp_all
  have d: "\<bar>signed_value s x - signed_value s (mag32 ?m)\<bar> = \<bar>x - mag32 ?m\<bar>" using signed_distance [OF s s x0] by simp
  show ?thesis
    unfolding fp32_nearest_def r(3,5) d
  proof (intro allI impI)
    fix c
    assume "fp32_finite c"
    then obtain s' mc where c: "s' = 0 \<or> s' = 1" "0 \<le> mc" "fp32_value c = signed_value s' (mag32 mc)" by (rule finite_cases)
    have dc: "\<bar>signed_value s x - fp32_value c\<bar> = (if s = s' then \<bar>x - mag32 mc\<bar> else x + mag32 mc)"
      unfolding c(3) by (rule signed_distance [OF s c(1) x0(1) mag32.V_nonneg [OF c(2)]])
    show "\<bar>x - mag32 ?m\<bar> \<le> \<bar>signed_value s x - fp32_value c\<bar> \<and>
      (\<bar>x - mag32 ?m\<bar> = \<bar>signed_value s x - fp32_value c\<bar> \<and> fp32_value c \<noteq> signed_value s (mag32 ?m) \<longrightarrow> even ?m)"
    proof (cases "s = s'")
      case True
      then show ?thesis
        unfolding dc using mag32.nearest [OF br c(2), of s] mag32.nearest_even [OF br c(2), of s]
        unfolding c(3) by (auto simp: signed_value_def)
    next
      case False
      then show ?thesis
        unfolding dc using mag32.nearest_from_zero [OF br c(2), of s] mag32.far_from_zero [OF br c(2) x, of s]
        by (cases "\<bar>x - mag32 ?m\<bar> = x + mag32 mc") simp_all
    qed
  qed
qed

lemma away_result:
  assumes x: "0 < x" and s: "s = 0 \<or> s = 1"
  defines "L \<equiv> low_index 23 127 x"
  defines "m \<equiv> (if x \<noteq> mag32 L then L + 1 else L)"
  defines "r \<equiv> s * 2 ^ 31 + m"
  assumes m: "m < top32"
  shows "s = 0 \<Longrightarrow> x \<le> fp32_value r \<and> (\<forall>c. fp32_finite c \<and> x \<le> fp32_value c \<longrightarrow> fp32_value r \<le> fp32_value c)"
    "s = 1 \<Longrightarrow> fp32_value r \<le> - x \<and> (\<forall>c. fp32_finite c \<and> fp32_value c \<le> - x \<longrightarrow> fp32_value c \<le> fp32_value r)"
proof -
  note a = away_from_zero [OF x, folded L_def, folded m_def]
  note v = finite_joined(3) [OF s a(1) m, folded r_def]
  have least: "mag32 m \<le> mag32 mc" if "0 \<le> mc" "x \<le> mag32 mc" for mc using a(4) [OF that] .
  show "x \<le> fp32_value r \<and> (\<forall>c. fp32_finite c \<and> x \<le> fp32_value c \<longrightarrow> fp32_value r \<le> fp32_value c)"
    if "s = 0"
    using that a(3) x by (auto simp: v signed_value_def elim!: finite_cases intro!: least dest: mag32.V_nonneg split: if_splits)
  show "fp32_value r \<le> - x \<and> (\<forall>c. fp32_finite c \<and> fp32_value c \<le> - x \<longrightarrow> fp32_value c \<le> fp32_value r)"
    if "s = 1"
    using that a(3) x by (auto simp: v signed_value_def elim!: finite_cases intro!: least dest: mag32.V_nonneg split: if_splits)
qed

lemma toward_result:
  assumes x: "0 < x" and s: "s = 0 \<or> s = 1"
  defines "m \<equiv> min (low_index 23 127 x) (top32 - 1)"
  defines "r \<equiv> s * 2 ^ 31 + m"
  shows "fp32_finite r" "\<bar>fp32_value r\<bar> \<le> x"
    "\<And>c. fp32_finite c \<Longrightarrow> \<bar>fp32_value c\<bar> \<le> x \<Longrightarrow> \<bar>fp32_value c\<bar> \<le> \<bar>fp32_value r\<bar>"
    "s = 0 \<Longrightarrow> 0 \<le> fp32_value r" "s = 1 \<Longrightarrow> fp32_value r \<le> 0"
proof -
  note t = toward_zero [OF x, folded m_def]
  note r = finite_joined(2,3) [OF s t(1,2), folded r_def]
  have y: "0 \<le> mag32 m" by (rule mag32.V_nonneg [OF t(1)])
  show "fp32_finite r" by (rule r(1))
  show "\<bar>fp32_value r\<bar> \<le> x" "s = 0 \<Longrightarrow> 0 \<le> fp32_value r" "s = 1 \<Longrightarrow> fp32_value r \<le> 0"
    using t(3) y by (auto simp: r(2) signed_value_def)
  fix c
  assume c: "fp32_finite c" "\<bar>fp32_value c\<bar> \<le> x"
  from c(1) obtain s' mc where mc: "0 \<le> mc" "mc < top32" "fp32_value c = signed_value s' (mag32 mc)" by (rule finite_cases)
  then have "\<bar>fp32_value c\<bar> = mag32 mc" using mag32.V_nonneg [OF mc(1)] by (auto simp: signed_value_def)
  with c(2) t(4) [OF mc(1,2)] y show "\<bar>fp32_value c\<bar> \<le> \<bar>fp32_value r\<bar>" by (auto simp: r(2) signed_value_def)
qed

lemma toward_order:
  assumes x: "0 < x" and s: "s = 0 \<or> s = 1"
  defines "r \<equiv> s * 2 ^ 31 + min (low_index 23 127 x) (top32 - 1)"
  shows "s = 1 \<Longrightarrow> - x \<le> fp32_value r \<and> (\<forall>c. fp32_finite c \<and> - x \<le> fp32_value c \<longrightarrow> fp32_value r \<le> fp32_value c)"
    "s = 0 \<Longrightarrow> fp32_value r \<le> x \<and> (\<forall>c. fp32_finite c \<and> fp32_value c \<le> x \<longrightarrow> fp32_value c \<le> fp32_value r)"
proof -
  note t = toward_result [OF x s, folded r_def]
  show "- x \<le> fp32_value r \<and> (\<forall>c. fp32_finite c \<and> - x \<le> fp32_value c \<longrightarrow> fp32_value r \<le> fp32_value c)" if "s = 1"
  proof (intro conjI allI impI, goal_cases)
    case 1
    show ?case using t(2) by (simp add: abs_le_iff)
  next
    case (2 c)
    show ?case
    proof (cases "fp32_value c < 0")
      case True
      with t(3) [of c] 2 t(5) [OF that] show ?thesis by (simp add: abs_if split: if_splits)
    next
      case False
      with t(5) [OF that] show ?thesis by simp
    qed
  qed
  show "fp32_value r \<le> x \<and> (\<forall>c. fp32_finite c \<and> fp32_value c \<le> x \<longrightarrow> fp32_value c \<le> fp32_value r)" if "s = 0"
  proof (intro conjI allI impI, goal_cases)
    case 1
    show ?case using t(2) by (simp add: abs_le_iff)
  next
    case (2 c)
    show ?case
    proof (cases "0 < fp32_value c")
      case True
      with t(3) [of c] 2 t(4) [OF that] show ?thesis by (simp add: abs_if split: if_splits)
    next
      case False
      with t(4) [OF that] show ?thesis by simp
    qed
  qed
qed

text \<open>The result as sign and magnitude, and its sign.\<close>

lemma rounded_parts:
  fixes rounding zero_sign :: int
  assumes v: "v \<noteq> 0"
  defines "s \<equiv> of_bool (v < 0)" and "x \<equiv> \<bar>v\<bar>"
  defines "r \<equiv> round_fraction_to_fp32 v rounding zero_sign" and "m \<equiv> rounded mag32 rounding s x (low_index 23 127 x)"
  defines "out \<equiv> rounding = RNE \<or> (rounding = RUP \<and> s = 0) \<or> (rounding = RDN \<and> s = 1)"
  shows "out \<Longrightarrow> r = s * 2 ^ 31 + min m top32"
    "\<not> out \<Longrightarrow> r = s * 2 ^ 31 + min (low_index 23 127 x) (top32 - 1)"
    "word32 r \<and> fst (snd (decode_fp32 r)) = s"
proof -
  have x: "0 < x" and s: "s = 0 \<or> s = 1" using v by (auto simp: x_def s_def)
  have r: "r = (if top32 \<le> m then overflow_result s rounding else s * 2 ^ 31 + m)"
    unfolding r_def m_def x_def s_def top32_def by (rule round_fraction_result [OF v])
  note o = overflow_join [OF s, of rounding, folded out_def]
  show out: "r = s * 2 ^ 31 + min m top32" if out using r o that by auto
  have keep: "m = low_index 23 127 x" if "\<not> out" using that by (auto simp: out_def m_def rounded_def up_step_def)
  show zero: "r = s * 2 ^ 31 + min (low_index 23 127 x) (top32 - 1)" if "\<not> out" using r o that keep by (auto simp: min_def)
  have m0: "0 \<le> m" using mag32_bracket(1) [OF x] by (simp add: m_def rounded_def)
  show "word32 r \<and> fst (snd (decode_fp32 r)) = s"
  proof (cases "out \<and> top32 \<le> m")
    case True
    with out infinite_join [OF s] show ?thesis by simp
  next
    case False
    then have "r = s * 2 ^ 31 + min m (top32 - 1)" using out zero keep by (cases out) auto
    with finite_joined(1,4) [OF s, of "min m (top32 - 1)"] m0 largest_facts(4) show ?thesis by simp
  qed
qed

theorem rounds_correctly:
  assumes v: "v \<noteq> 0"
  shows "correct_rounding v rounding (round_fraction_to_fp32 v rounding zero_sign)"
proof -
  define s :: int where "s = of_bool (v < 0)"
  define x where "x = \<bar>v\<bar>"
  define m where "m = rounded mag32 rounding s x (low_index 23 127 x)"
  define r where "r = round_fraction_to_fp32 v rounding zero_sign"
  note parts = rounded_parts [OF v, of rounding zero_sign, folded s_def x_def, folded m_def r_def]
  have x: "0 < x" and s: "s = 0 \<or> s = 1" and vx: "v = signed_value s x" "s = of_bool (v < 0)"
    using v by (auto simp: x_def s_def signed_value_def)
  have m0: "0 \<le> m" using mag32_bracket(1) [OF x] by (simp add: m_def rounded_def)
  have big: "0 \<le> fp32_largest" by (simp add: fp32_largest_def)
  consider (rne) "rounding = RNE" | (away) "(rounding = RUP \<and> s = 0) \<or> (rounding = RDN \<and> s = 1)"
    | (zero) "\<not> (rounding = RNE \<or> (rounding = RUP \<and> s = 0) \<or> (rounding = RDN \<and> s = 1))" by blast
  then have "correct_rounding v rounding r"
  proof cases
    case rne
    have "m < top32 \<longleftrightarrow> x < 2 ^ 128 - 2 ^ 103" unfolding m_def rne by (rule nearest_top [OF x])
    moreover have "x < 2 ^ 128 - 2 ^ 103 \<Longrightarrow> fp32_nearest v (s * 2 ^ 31 + m)"
      unfolding m_def rne vx(1) by (rule nearest_result [OF x s])
    moreover have "r = s * 2 ^ 31 + (if m < top32 then m else top32)" using parts(1) rne by (auto simp: min_def)
    ultimately show ?thesis
      using rne parts(3) finite_joined(2) [OF s m0] infinite_join(2) [OF s]
      by (auto simp: correct_rounding_def x_def [symmetric] vx(2) [symmetric])
  next
    case away
    then have m: "m = (if x \<noteq> mag32 (low_index 23 127 x) then low_index 23 127 x + 1 else low_index 23 127 x)"
      by (auto simp: m_def rounded_def up_step_def fp_modes)
    note top = away_from_zero(2) [OF x, folded m] and ok = away_result [OF x s, folded m]
    have r: "r = s * 2 ^ 31 + (if m < top32 then m else top32)" using parts(1) away by (auto simp: min_def)
    have inf: "\<not> m < top32 \<Longrightarrow> fst (decode_fp32 r) = Fp_Inf" unfolding r using infinite_join(2) [OF s] by simp
    have fin: "m < top32 \<Longrightarrow> fp32_finite r" unfolding r using finite_joined(2) [OF s m0] by simp
    have ok: "m < top32 \<Longrightarrow> s = 0 \<Longrightarrow> x \<le> fp32_value r \<and> (\<forall>c. fp32_finite c \<and> x \<le> fp32_value c \<longrightarrow> fp32_value r \<le> fp32_value c)"
      "m < top32 \<Longrightarrow> s = 1 \<Longrightarrow> fp32_value r \<le> - x \<and> (\<forall>c. fp32_finite c \<and> fp32_value c \<le> - x \<longrightarrow> fp32_value c \<le> fp32_value r)"
      unfolding r using ok by simp_all
    from away show ?thesis
    proof (elim disjE conjE)
      assume "rounding = RUP" "s = 0"
      with parts(3) top ok(1) fin inf vx(1) x show ?thesis
        by (simp add: correct_rounding_def fp_modes signed_value_def)
    next
      assume "rounding = RDN" "s = 1"
      with parts(3) top ok(2) fin inf vx(1) x show ?thesis
        by (simp add: correct_rounding_def fp_modes signed_value_def)
    qed
  next
    case zero
    note r = parts(2) [OF zero]
    note t = toward_result [OF x s, folded r] and ord = toward_order [OF x s, folded r]
    consider "rounding = RUP" "s = 1" | "rounding = RDN" "s = 0" | "rounding \<notin> {RNE, RUP, RDN}"
      using zero s by blast
    then show ?thesis
    proof cases
      case 1
      with parts(3) t(1) ord(1) vx(1) big x show ?thesis by (simp add: correct_rounding_def fp_modes signed_value_def)
    next
      case 2
      with parts(3) t(1) ord(2) vx(1) big x show ?thesis by (simp add: correct_rounding_def fp_modes signed_value_def)
    next
      case 3
      with parts(3) t(1,2,3) vx(2) show ?thesis by (simp add: correct_rounding_def x_def)
    qed
  qed
  then show ?thesis by (simp add: r_def)
qed

end
