(* ===== verification/Fp_Ops.thy ===== *)
theory Fp_Ops
  imports Fp_Result
begin

section \<open>NPU vector unit: products and comparisons\<close>

text \<open>
  \<open>multiply_fp32\<close> and \<open>ordered_compare\<close> of \<open>vector_fp_reference.py\<close>: the finite product is the correct rounding of the
  exact product, NaN and infinity follow their rules, and the comparison is the order of the values.
\<close>

subsection \<open>Multiplication\<close>

lemma finite_nonzero:
  assumes "word32 a" "fst (decode_fp32 a) = Fp_Finite"
  shows "fp32_value a \<noteq> 0" "0 < fp32_value a \<longleftrightarrow> fst (snd (decode_fp32 a)) = 0" "fp32_finite a"
proof -
  have "0 < mag32 (a mod 2 ^ 31)" if "a mod 2 ^ 31 \<noteq> 0"
    using mag32.V_less [of 0 "a mod 2 ^ 31"] word32_split(3) [OF assms(1)] that mag32.V0 by simp
  with assms decode_fp32_cases [OF assms(1)]
  show "fp32_value a \<noteq> 0" "0 < fp32_value a \<longleftrightarrow> fst (snd (decode_fp32 a)) = 0"
    by (auto simp: fp32_value_def signed_value_def split: if_splits)
  show "fp32_finite a" using assms by (simp add: fp32_finite_def)
qed

definition nan_case :: "int \<Rightarrow> int \<Rightarrow> bool" where
  "nan_case a b \<longleftrightarrow> fst (decode_fp32 a) = Fp_Nan \<or> fst (decode_fp32 b) = Fp_Nan"

definition invalid_product :: "int \<Rightarrow> int \<Rightarrow> bool" where
  "invalid_product a b \<longleftrightarrow> \<not> nan_case a b \<and>
     {fst (decode_fp32 a), fst (decode_fp32 b)} = {Fp_Inf, Fp_Zero}"

lemma multiply_flag: "snd (multiply_fp32 a b invalid_in rounding) = of_bool (invalid_in \<noteq> 0 \<or> invalid_product a b)"
  by (cases "decode_fp32 a"; cases "decode_fp32 b"; cases "fst (decode_fp32 a)"; cases "fst (decode_fp32 b)")
    (auto simp: multiply_fp32_def Let_def invalid_product_def nan_case_def doubleton_eq_iff)

lemma multiply_commute: "multiply_fp32 a b invalid_in rounding = multiply_fp32 b a invalid_in rounding"
  by (cases "decode_fp32 a"; cases "decode_fp32 b"; cases "fst (decode_fp32 a)"; cases "fst (decode_fp32 b)")
    (auto simp: multiply_fp32_def Let_def xor.commute mult.commute)

lemma multiply_nan: "nan_case a b \<or> invalid_product a b \<Longrightarrow> fst (multiply_fp32 a b invalid_in rounding) = fp32_canonical_nan"
  by (cases "decode_fp32 a"; cases "decode_fp32 b"; cases "fst (decode_fp32 a)"; cases "fst (decode_fp32 b)")
    (auto simp: multiply_fp32_def Let_def invalid_product_def nan_case_def doubleton_eq_iff)

lemma multiply_finite:
  assumes "word32 a" "word32 b" "fst (decode_fp32 a) = Fp_Finite" "fst (decode_fp32 b) = Fp_Finite"
  shows "correct_rounding (fp32_value a * fp32_value b) rounding (fst (multiply_fp32 a b invalid_in rounding))"
proof -
  have "fst (multiply_fp32 a b invalid_in rounding) = round_fraction_to_fp32 (fp32_value a * fp32_value b) rounding 0"
    using assms by (simp add: multiply_fp32_def Let_def fp32_value_def split_beta)
  then show ?thesis
    using rounds_correctly [of "fp32_value a * fp32_value b"] finite_nonzero(1) [OF assms(1,3)] finite_nonzero(1) [OF assms(2,4)]
    by simp
qed

subsection \<open>Comparison\<close>

text \<open>The place of a number on the extended line: infinities stand at \<open>2 ^ 128\<close>, beyond every finite value.\<close>

definition fp32_rank :: "int \<Rightarrow> rat" where
  "fp32_rank b = (if fst (decode_fp32 b) = Fp_Inf then signed_value (fst (snd (decode_fp32 b))) (2 ^ 128) else fp32_value b)"

lemma rank_parts:
  assumes "word32 b" "fst (decode_fp32 b) \<noteq> Fp_Nan"
  shows "fp32_rank b = signed_value (b div 2 ^ 31) (mag32 (b mod 2 ^ 31))"
  using assms decode_fp32_cases [OF assms(1)] mag32_top(2) mag32.V0
  by (auto simp: fp32_rank_def fp32_value_def signed_value_def split: if_splits)

lemma rank_order:
  assumes "s = 0 \<or> s = 1" "s' = 0 \<or> s' = (1::int)" "0 \<le> m" "0 \<le> m'"
  shows "signed_value s (mag32 m) = signed_value s' (mag32 m') \<longleftrightarrow> (s = s' \<and> m = m') \<or> (m = 0 \<and> m' = 0)"
    "signed_value s (mag32 m) < signed_value s' (mag32 m') \<longleftrightarrow>
      \<not> (m = 0 \<and> m' = 0) \<and> (if s \<noteq> s' then s = 1 else if s = 0 then m < m' else m' < m)"
proof -
  have z: "mag32 m = 0 \<longleftrightarrow> m = 0" "mag32 m' = 0 \<longleftrightarrow> m' = 0" "0 \<le> mag32 m" "0 \<le> mag32 m'"
    using assms mag32.V_eq_iff [of m 0] mag32.V_eq_iff [of m' 0] mag32.V_nonneg mag32.V0 by simp_all
  show "signed_value s (mag32 m) = signed_value s' (mag32 m') \<longleftrightarrow> (s = s' \<and> m = m') \<or> (m = 0 \<and> m' = 0)"
    using assms z mag32.V_eq_iff [of m m'] by (auto simp: signed_value_def)
  show "signed_value s (mag32 m) < signed_value s' (mag32 m') \<longleftrightarrow>
      \<not> (m = 0 \<and> m' = 0) \<and> (if s \<noteq> s' then s = 1 else if s = 0 then m < m' else m' < m)"
    using assms z mag32.V_less_iff [of m m'] mag32.V_less_iff [of m' m] by (auto simp: signed_value_def)
qed

lemma compare_fields:
  assumes "word32 a" "word32 b"
  shows "a AND 0x7FFFFFFF = a mod 2 ^ 31" "drop_bit 31 a = a div 2 ^ 31" "drop_bit 31 a AND 1 = a div 2 ^ 31"
    "drop_bit 31 (a XOR b) \<noteq> 0 \<longleftrightarrow> a div 2 ^ 31 \<noteq> b div 2 ^ 31"
    "a = b \<longleftrightarrow> a div 2 ^ 31 = b div 2 ^ 31 \<and> a mod 2 ^ 31 = b mod 2 ^ 31"
    "drop_bit 31 (a OR b) = (if a div 2 ^ 31 = 0 then b div 2 ^ 31 else 1)"
    "drop_bit 31 (a AND b) = (if a div 2 ^ 31 = 0 then 0 else b div 2 ^ 31)"
proof -
  note sa = word32_split [OF assms(1)] and sb = word32_split [OF assms(2)]
  have d: "drop_bit 31 x = x div 2 ^ 31" for x :: int by (simp add: drop_bit_eq_div)
  show "a AND 0x7FFFFFFF = a mod 2 ^ 31" by (simp add: field_mods)
  show "drop_bit 31 a = a div 2 ^ 31" by (rule d)
  show "drop_bit 31 a AND 1 = a div 2 ^ 31" unfolding d using sa(2) by (elim disjE) simp_all
  show "drop_bit 31 (a XOR b) \<noteq> 0 \<longleftrightarrow> a div 2 ^ 31 \<noteq> b div 2 ^ 31"
    unfolding drop_bit_xor d using sa(2) sb(2) by (elim disjE) simp_all
  show "a = b \<longleftrightarrow> a div 2 ^ 31 = b div 2 ^ 31 \<and> a mod 2 ^ 31 = b mod 2 ^ 31" using sa(1) sb(1) by metis
  show "drop_bit 31 (a OR b) = (if a div 2 ^ 31 = 0 then b div 2 ^ 31 else 1)"
    unfolding drop_bit_or d using sa(2) sb(2) by (elim disjE) simp_all
  show "drop_bit 31 (a AND b) = (if a div 2 ^ 31 = 0 then 0 else b div 2 ^ 31)"
    unfolding drop_bit_and d using sa(2) sb(2) by (elim disjE) simp_all
qed

definition compares :: "int \<Rightarrow> int \<Rightarrow> int \<times> int \<times> int \<times> int \<times> int \<times> int \<times> int \<times> int \<Rightarrow> bool" where
  "compares a b r \<longleftrightarrow> (case r of (eq, lt, le, gt, ge, un, mn, mx) \<Rightarrow>
     eq = of_bool (fp32_rank a = fp32_rank b) \<and> lt = of_bool (fp32_rank a < fp32_rank b) \<and>
     le = of_bool (fp32_rank a \<le> fp32_rank b) \<and> gt = of_bool (fp32_rank b < fp32_rank a) \<and>
     ge = of_bool (fp32_rank b \<le> fp32_rank a) \<and> un = 0 \<and>
     mn \<in> {a, b} \<and> mx \<in> {a, b} \<and> fp32_rank mn = min (fp32_rank a) (fp32_rank b) \<and> fp32_rank mx = max (fp32_rank a) (fp32_rank b))"

lemma ordered_compare_ranks:
  assumes w: "word32 a" "word32 b" and n: "\<not> nan_case a b"
  shows "compares a b (ordered_compare a b)"
proof -
  define sa where "sa = a div 2 ^ 31"
  define sb where "sb = b div 2 ^ 31"
  define ma where "ma = a mod 2 ^ 31"
  define mb where "mb = b mod 2 ^ 31"
  note defs = sa_def [symmetric] sb_def [symmetric] ma_def [symmetric] mb_def [symmetric]
  note fa = compare_fields [OF w, unfolded defs] and fb = compare_fields [OF w(2,1), unfolded defs]
  note pa = word32_split(2,3) [OF w(1), unfolded defs] and pb = word32_split(2,3) [OF w(2), unfolded defs]
  have nan: "fst (decode_fp32 a) \<noteq> Fp_Nan" "fst (decode_fp32 b) \<noteq> Fp_Nan" using n by (simp_all add: nan_case_def)
  have ra: "fp32_rank a = signed_value sa (mag32 ma)" and rb: "fp32_rank b = signed_value sb (mag32 mb)"
    by (fact rank_parts [OF w(1) nan(1), unfolded defs] rank_parts [OF w(2) nan(2), unfolded defs])+
  note eq = rank_order(1) [OF pa(1) pb(1) pa(2) pb(2), folded ra rb]
  note lt = rank_order(2) [OF pa(1) pb(1) pa(2) pb(2), folded ra rb]
  note gt = rank_order(2) [OF pb(1) pa(1) pb(2) pa(2), folded ra rb]
  have le: "fp32_rank a \<le> fp32_rank b \<longleftrightarrow> fp32_rank a = fp32_rank b \<or> fp32_rank a < fp32_rank b"
    "fp32_rank b \<le> fp32_rank a \<longleftrightarrow> fp32_rank a = fp32_rank b \<or> fp32_rank b < fp32_rank a" by auto
  have tri: "fp32_rank a = fp32_rank b \<and> \<not> fp32_rank a < fp32_rank b \<and> \<not> fp32_rank b < fp32_rank a \<or>
    fp32_rank a \<noteq> fp32_rank b \<and> fp32_rank a < fp32_rank b \<and> \<not> fp32_rank b < fp32_rank a \<or>
    fp32_rank a \<noteq> fp32_rank b \<and> \<not> fp32_rank a < fp32_rank b \<and> fp32_rank b < fp32_rank a" by auto
  define mn where "mn = (if ma = 0 \<and> mb = 0 then (if sa = 0 \<and> sb = 0 then 0 else 2 ^ 31) else a)"
  define mx where "mx = (if ma = 0 \<and> mb = 0 then (if sa = 0 \<or> sb = 0 then 0 else 2 ^ 31) else a)"
  have zeros: "mn \<in> {a, b} \<and> mx \<in> {a, b}"
    using word32_split(1) [OF w(1), unfolded defs] word32_split(1) [OF w(2), unfolded defs] pa(1) pb(1)
    by (auto simp: mn_def mx_def)
  have shape: "ordered_compare a b =
    (let e = fp32_rank a = fp32_rank b; l = fp32_rank a < fp32_rank b; g = fp32_rank b < fp32_rank a
     in (of_bool e, of_bool l, of_bool (e \<or> l), of_bool g, of_bool (e \<or> g), 0,
         if e then mn else if l then a else b, if e then mx else if l then b else a))"
    using pa(1) pb(1)
    by (elim disjE; simp add: ordered_compare_def Let_def nan fa fb eq lt gt mn_def mx_def split: if_splits; blast)
  show ?thesis
    unfolding compares_def shape Let_def using tri zeros by (elim disjE) (auto simp: le min_def max_def)
qed

lemma ordered_compare_nan:
  assumes "nan_case a b"
  shows "ordered_compare a b =
    (let m = if fst (decode_fp32 a) \<noteq> Fp_Nan then a else if fst (decode_fp32 b) \<noteq> Fp_Nan then b else fp32_canonical_nan
     in (0, 0, 0, 0, 0, 1, m, m))"
  using assms by (auto simp: ordered_compare_def nan_case_def Let_def)

end
