(* ===== verification/Fp_Eight.thy ===== *)
theory Fp_Eight
  imports Fp_Result
begin

section \<open>NPU vector unit: FP8 conversion\<close>

text \<open>
  \<open>fp8_to_fp32_bits\<close> and \<open>fp32_to_fp8_bits\<close> of \<open>vector_fp_reference.py\<close> for the formats E4M3 (0) and E5M2 (1): widening is
  exact, narrowing rounds and saturates, and narrowing undoes widening.
\<close>

text \<open>Fraction bits, bias and largest finite magnitude of the two formats.\<close>

definition fp8_width :: "int \<Rightarrow> nat" where
  "fp8_width fmt = (if fmt = 0 then 3 else 2)"

definition fp8_bias :: "int \<Rightarrow> int" where
  "fp8_bias fmt = (if fmt = 0 then 7 else 15)"

definition fp8_top :: "int \<Rightarrow> int" where
  "fp8_top fmt = (if fmt = 0 then 0x7E else 0x7B)"

definition fp8_mag :: "int \<Rightarrow> int \<Rightarrow> rat" where
  "fp8_mag fmt = mag_value (fp8_width fmt) (fp8_bias fmt)"

definition fp8_low :: "int \<Rightarrow> rat \<Rightarrow> int" where
  "fp8_low fmt = low_index (fp8_width fmt) (fp8_bias fmt)"

interpretation fp8: magnitude_grid "fp8_mag fmt" for fmt
  unfolding fp8_mag_def by unfold_locales (simp_all add: mag_value_next)

lemma push_or_fp8: "0 \<le> m \<Longrightarrow> m < 2 ^ 7 \<Longrightarrow> push_bit 7 s OR m = s * 2 ^ 7 + (m :: int)"
  by (rule push_or) (simp add: fits_def)

lemma fp8_max_finite:
  assumes "fmt = 0 \<or> fmt = 1"
  shows "push_bit 7 s OR push_bit (fp8_width fmt) (if fmt = 0 then push_bit (7 - fp8_width fmt) 1 - 1 else push_bit (7 - fp8_width fmt) 1 - 1 - 1) OR
    (if fmt = 0 then 6 else push_bit (fp8_width fmt) 1 - 1) = s * 2 ^ 7 + fp8_top fmt"
  using assms push_or_fp8 [of "0x7E" s] push_or_fp8 [of "0x7B" s] by (auto simp: fp8_width_def fp8_top_def)

lemma narrow_result:
  fixes rounding :: int
  assumes f: "fmt = 0 \<or> fmt = 1" and dec: "decode_fp32 bits = (Fp_Finite, s, v)" and v: "v \<noteq> 0"
  defines "x \<equiv> \<bar>v\<bar>"
  defines "m \<equiv> rounded (fp8_mag fmt) rounding s x (fp8_low fmt x)"
  shows "fp32_to_fp8_bits bits fmt rounding =
    (s * 2 ^ 7 + min m (fp8_top fmt), of_bool (fp8_top fmt < m), of_bool (x \<noteq> fp8_mag fmt (fp8_low fmt x)))"
proof -
  define p where "p = fp8_width fmt"
  define b where "b = fp8_bias fmt"
  define M :: int where "M = (if fmt = 0 then 8 else 15)"
  have pb: "(if fmt = 0 then (3, 7) else (2, 15)) = (p, b)" by (simp add: p_def b_def fp8_width_def fp8_bias_def)
  have p: "0 < p" "1 \<le> b" using f by (auto simp: p_def b_def fp8_width_def fp8_bias_def)
  have x: "0 < x" using v by (simp add: x_def)
  obtain num den where q: "quotient_of x = (num, den)" by force
  have m: "m = rounded (mag_value p b) rounding s x (low_index p b x)" "0 \<le> m"
    using rounded_ge [OF x] by (simp_all add: m_def fp8_mag_def fp8_low_def p_def b_def)
  have ix: "x = fp8_mag fmt (fp8_low fmt x) \<longleftrightarrow> x = mag_value p b (low_index p b x)"
    by (simp add: fp8_mag_def fp8_low_def p_def b_def)
  note top = fp8_max_finite [OF f, of s, folded p_def]
  show ?thesis
  proof (cases "1 - b \<le> floor_log2 x")
    case True
    define scale where "scale = int p - floor_log2 x"
    define numerator where "numerator = (if scale \<ge> 0 then push_bit (nat scale) num else num)"
    define denominator where "denominator = (if scale \<ge> 0 then den else push_bit (nat (- scale)) den)"
    define n where "n = (if should_increment (numerator div denominator) (numerator mod denominator) denominator rounding s
      then numerator div denominator + 1 else numerator div denominator)"
    obtain n' e' where r: "(n', e') = (if n = push_bit (p + 1) 1 then (drop_bit 1 n, floor_log2 x + 1) else (n, floor_log2 x))"
      by (metis surj_pair)
    note nb = normal_branch(1-3) [OF x p(1) q True, where rounding = rounding and sign = s, folded scale_def,
        folded numerator_def denominator_def, folded n_def, folded m(1)]
    note rem = normal_branch(4) [OF x p(1) q True, folded scale_def, folded numerator_def denominator_def]
    note pk = pack_normal(1,5) [OF nb(1,2) r, where b = b] pack_normal(3,4,6) [OF nb(1,2) r] pack_normal(2) [OF nb(1,2) r, where b = b and M = M]
    have over: "e' > M \<or> (fmt = 0 \<and> e' = M \<and> n' AND (push_bit p 1 - 1) = 7) \<longleftrightarrow> fp8_top fmt < m"
      using f pk nb(3) by (auto simp: p_def b_def M_def fp8_width_def fp8_bias_def fp8_top_def) presburger+
    have val: "push_bit p (e' + b) OR (n' AND (push_bit p 1 - 1)) = m" using pk(1) nb(3) by simp
    have "fp32_to_fp8_bits bits fmt rounding =
      (if e' > M \<or> (fmt = 0 \<and> e' = M \<and> n' AND (push_bit p 1 - 1) = 7)
       then (s * 2 ^ 7 + fp8_top fmt, 1, of_bool (numerator mod denominator \<noteq> 0))
       else (push_bit 7 s OR push_bit p (e' + b) OR (n' AND (push_bit p 1 - 1)), 0, of_bool (numerator mod denominator \<noteq> 0)))"
      unfolding fp32_to_fp8_bits_def Let_def dec prod.case pb x_def [symmetric] q M_def [symmetric] scale_def [symmetric]
        numerator_def [symmetric] denominator_def [symmetric] n_def [symmetric] r [symmetric] top
      using True by simp
    moreover have "m \<le> fp8_top fmt \<Longrightarrow> push_bit 7 s OR m = s * 2 ^ 7 + m"
      using push_or_fp8 [of m s] m(2) by (simp add: fp8_top_def split: if_splits)
    ultimately show ?thesis unfolding over val using rem ix by (auto simp: min_def)
  next
    case False
    then have e: "floor_log2 x < 1 - b" by simp
    define n where "n = (let numerator = push_bit (nat (int p + b - 1)) num; main = numerator div den; remainder = numerator mod den in
       if should_increment main remainder den rounding s then main + 1 else main)"
    note rem = subnormal_branch(4) [OF x p(1) q e p(2)]
    note sb = subnormal_branch(1-3) [OF x p(1) q e p(2), where rounding = rounding and sign = s, folded n_def [unfolded Let_def], folded m(1)]
    have sc: "nat (- (1 - b - int p)) = nat (int p + b - 1)" by (simp add: algebra_simps)
    have small: "2 ^ p \<le> fp8_top fmt" by (simp add: p_def fp8_width_def fp8_top_def)
    have "fp32_to_fp8_bits bits fmt rounding =
      (if n \<ge> push_bit p 1 then push_bit 7 s OR push_bit p 1 else push_bit 7 s OR n, 0,
       of_bool (push_bit (nat (int p + b - 1)) num mod den \<noteq> 0))"
      unfolding fp32_to_fp8_bits_def Let_def dec prod.case pb x_def [symmetric] q sc n_def [unfolded Let_def, symmetric]
      using False by simp
    moreover have "push_bit 7 s OR n = s * 2 ^ 7 + n"
      using push_or_fp8 [of n s] sb(1,2) small by (simp add: fp8_top_def split: if_splits)
    ultimately show ?thesis using rem sb small ix by (auto simp: min_def)
  qed
qed

subsection \<open>Widening is exact\<close>

definition fp8_codes :: "int list" where
  "fp8_codes = [0..255]"

definition fp8_expected :: "int \<Rightarrow> int \<Rightarrow> fp_kind \<times> int \<times> rat" where
  "fp8_expected b fmt =
     (let s = b div 2 ^ 7; m = b mod 2 ^ 7
      in if m = 0 then (Fp_Zero, s, 0)
         else if m \<le> fp8_top fmt then (Fp_Finite, s, signed_value s (fp8_mag fmt m))
         else if fmt = 1 \<and> m = 0x7C then (Fp_Inf, s, 0) else (Fp_Nan, s, 0))"

text \<open>The decoder, evaluated by the kernel on all 256 codes of each format.\<close>

lemma decode_e4m3: "list_all (\<lambda>b. decode_fp8 b 0 = fp8_expected b 0) fp8_codes"
  by code_simp

lemma decode_e5m2: "list_all (\<lambda>b. decode_fp8 b 1 = fp8_expected b 1) fp8_codes"
  by code_simp

text \<open>A short enough significand is on the binary32 grid.\<close>

lemma on_grid:
  assumes n: "0 < n" "n < 2 ^ 24" and e: "- 149 \<le> e"
  defines "x \<equiv> of_int n * 2 powi e"
  shows "mag32 (low_index 23 127 x) = x"
proof -
  have p: "(0::rat) < 2 powi i" for i by (simp add: zero_less_power_int)
  have x: "0 < x" using n(1) p by (simp add: x_def)
  define k where "k = max (floor_log2 x) (1 - 127) + 127"
  have "(2::rat) powi (floor_log2 x + 1) \<le> 2 powi (k - 127 + 1)" by (intro power_int_increasing) (auto simp: k_def)
  with floor_log2_bounds [OF x] have k: "1 \<le> k" "k = 1 \<or> 2 powi (k - 127) \<le> x" "x < 2 powi (k - 127 + 1)"
    by (auto simp: k_def max_def)
  have "k - 127 - 23 \<le> e"
  proof (cases "k = 1")
    case False
    have "2 powi (k - 127) \<le> x" using k(2) False by simp
    also have "x < 2 ^ 24 * 2 powi e" unfolding x_def using n(2) p by (intro mult_strict_right_mono) simp_all
    also have "(2::rat) ^ 24 * 2 powi e = 2 powi (24 + e)" by (simp add: power_int_add)
    finally have less: "(2::rat) powi (k - 127) < 2 powi (24 + e)" .
    have "k - 127 < 24 + e"
    proof (rule ccontr)
      assume "\<not> k - 127 < 24 + e"
      then have "(2::rat) powi (24 + e) \<le> 2 powi (k - 127)" by (intro power_int_increasing) auto
      with less show False by simp
    qed
    then show ?thesis by simp
  qed (use e in simp)
  then have "(2::rat) powi (e + (int 23 + 127 - k)) = 2 ^ nat (e + (int 23 + 127 - k))" by (simp add: power_int_def)
  moreover have "(2::rat) powi e * 2 powi (int 23 + 127 - k) = 2 powi (e + (int 23 + 127 - k))"
    by (rule power_int_add [symmetric]) simp
  ultimately have "x * 2 powi (int 23 + 127 - k) = of_int (n * 2 ^ nat (e + (int 23 + 127 - k)))"
    unfolding x_def mult.assoc by simp
  then have i: "of_int \<lfloor>x * 2 powi (int 23 + 127 - k)\<rfloor> = x * 2 powi (int 23 + 127 - k)" by (simp only: floor_of_int)
  have "mag32 (low_index 23 127 x) = of_int \<lfloor>x * 2 powi (int 23 + 127 - k)\<rfloor> * 2 powi (k - 127 - int 23)"
    unfolding mag32_def low_index_def k_def [symmetric] Let_def by (rule position(4) [OF x k])
  also have "\<dots> = x" unfolding i mult.assoc by (simp flip: power_int_add)
  finally show ?thesis .
qed

lemma widen_finite:
  assumes x: "0 < x" "x \<le> fp32_largest" "mag32 (low_index 23 127 x) = x" and s: "s = 0 \<or> s = 1"
  shows "decode_fp32 (round_fraction_to_fp32 (signed_value s x) rounding zero_sign) = (Fp_Finite, s, signed_value s x)"
    "word32 (round_fraction_to_fp32 (signed_value s x) rounding zero_sign)"
proof -
  let ?L = "low_index 23 127 x" and ?v = "signed_value s x" and ?r = "round_fraction_to_fp32 (signed_value s x) rounding zero_sign"
  have v: "?v \<noteq> 0" "of_bool (?v < 0) = s" "\<bar>?v\<bar> = x" using x(1) s by (auto simp: signed_value_def)
  have L: "0 \<le> ?L" "?L < top32" "?L \<noteq> 0"
    using mag32_bracket(1) [OF x(1)] below_top [of ?L] x mag32.V0 by auto
  have "rounded mag32 rounding s x ?L = ?L" using x(3) by (simp add: rounded_def up_step_def)
  then have "?r = s * 2 ^ 31 + ?L"
    using rounded_parts(1,2) [OF v(1), of rounding zero_sign, unfolded v] L(2) by (cases "rounding = RNE \<or> (rounding = RUP \<and> s = 0) \<or> (rounding = RDN \<and> s = 1)") auto
  then show "decode_fp32 ?r = (Fp_Finite, s, ?v)" "word32 ?r"
    using decode_join [OF s L(1)] finite_joined(1) [OF s L(1,2)] L x(3) largest_facts(5) by (simp_all add: top32_def)
qed

section \<open>NPU vector unit: what FP8 conversion promises\<close>

definition fp8_code :: "int \<Rightarrow> int \<Rightarrow> bool" where
  "fp8_code fmt b \<longleftrightarrow> (fmt = 0 \<or> fmt = 1) \<and> fits 8 b"

definition fp8_value :: "int \<Rightarrow> int \<Rightarrow> rat" where
  "fp8_value fmt b = snd (snd (decode_fp8 b fmt))"

definition fp8_finite :: "int \<Rightarrow> int \<Rightarrow> bool" where
  "fp8_finite fmt b \<longleftrightarrow> fp8_code fmt b \<and> fst (decode_fp8 b fmt) \<in> {Fp_Zero, Fp_Finite}"

lemma fp8_decode:
  assumes "fp8_code fmt b"
  shows "decode_fp8 b fmt = fp8_expected b fmt"
proof -
  have "b \<in> set fp8_codes" using assms by (simp add: fp8_code_def fp8_codes_def fits_def)
  then show ?thesis using assms decode_e4m3 decode_e5m2 by (auto simp: fp8_code_def list_all_iff)
qed

lemma fp8_split:
  assumes "fp8_code fmt b"
  shows "b = b div 2 ^ 7 * 2 ^ 7 + b mod 2 ^ 7" "b div 2 ^ 7 = 0 \<or> b div 2 ^ 7 = 1" "0 \<le> b mod 2 ^ 7" "b mod 2 ^ 7 < 2 ^ 7"
  using assms by (auto simp: fp8_code_def fits_def)

lemma fp8_mag_grid:
  assumes m: "0 < m" "m \<le> fp8_top fmt" and f: "fmt = 0 \<or> fmt = 1"
  shows "0 < fp8_mag fmt m" "fp8_mag fmt m \<le> fp32_largest" "mag32 (low_index 23 127 (fp8_mag fmt m)) = fp8_mag fmt m"
proof -
  define p where "p = fp8_width fmt"
  define b where "b = fp8_bias fmt"
  define k where "k = max (m div 2 ^ p) 1"
  have pb: "(p, b) = (3, 7) \<or> (p, b) = (2, 15)" using f by (auto simp: p_def b_def fp8_width_def fp8_bias_def)
  have v: "fp8_mag fmt m = of_int (m - (k - 1) * 2 ^ p) * 2 powi (k - b - int p)"
    by (simp add: fp8_mag_def mag_value_def k_def p_def b_def Let_def)
  have m7: "m < 2 ^ 7" using m(2) by (simp add: fp8_top_def split: if_splits)
  have k: "1 \<le> k" "k < 32" "0 < m - (k - 1) * 2 ^ p" "m - (k - 1) * 2 ^ p < 2 ^ 24"
    using pb m(1) m7 by (auto simp: k_def max_def split: if_splits)
  show x: "0 < fp8_mag fmt m" using fp8.V_less [of 0 m fmt] m(1) fp8.V0 [of fmt] by simp
  show "mag32 (low_index 23 127 (fp8_mag fmt m)) = fp8_mag fmt m"
    unfolding v using pb k by (intro on_grid) auto
  have "fp8_mag fmt m \<le> 2 ^ 24 * 2 powi 30"
    unfolding v using pb k by (intro mult_mono power_int_increasing) (auto simp: zero_le_power_int)
  then show "fp8_mag fmt m \<le> fp32_largest" by (simp add: fp32_largest_def)
qed

lemma fp8_widen:
  assumes code: "fp8_code fmt b"
  shows "fst (decode_fp8 b fmt) \<noteq> Fp_Nan \<Longrightarrow> decode_fp32 (fp8_to_fp32_bits b fmt) = decode_fp8 b fmt"
    "word32 (fp8_to_fp32_bits b fmt)"
    "fst (decode_fp8 b fmt) = Fp_Nan \<Longrightarrow> fp8_to_fp32_bits b fmt = fp32_canonical_nan"
proof -
  define s where "s = b div 2 ^ 7"
  define m where "m = b mod 2 ^ 7"
  have sp: "s = 0 \<or> s = 1" "0 \<le> m" using code by (auto simp: s_def m_def fp8_code_def fits_def)
  have f: "fmt = 0 \<or> fmt = 1" using code by (simp add: fp8_code_def)
  note dec = fp8_decode [OF code, unfolded fp8_expected_def Let_def, folded s_def m_def]
  consider (zero) "m = 0" | (finite) "0 < m" "m \<le> fp8_top fmt" | (top) "fp8_top fmt < m" using sp(2) by linarith
  then have "(fst (decode_fp8 b fmt) \<noteq> Fp_Nan \<longrightarrow> decode_fp32 (fp8_to_fp32_bits b fmt) = decode_fp8 b fmt) \<and>
    word32 (fp8_to_fp32_bits b fmt) \<and> (fst (decode_fp8 b fmt) = Fp_Nan \<longrightarrow> fp8_to_fp32_bits b fmt = fp32_canonical_nan)"
  proof cases
    case zero
    then show ?thesis
      using dec sp(1) decode_join [OF sp(1), of 0] word32_join(1) [OF sp(1), of 0]
      by (simp add: fp8_to_fp32_bits_def round_fraction_to_fp32_def push_bit_eq_mult)
  next
    case finite
    note w = widen_finite [OF fp8_mag_grid [OF finite f] sp(1), of RNE s]
    show ?thesis using finite dec w by (simp add: fp8_to_fp32_bits_def)
  next
    case top
    then have "m \<noteq> 0" by (auto simp: fp8_top_def split: if_splits)
    with top show ?thesis
      using dec infinite_join [OF sp(1)] push_or_top [of "0x7F800000" s]
      by (auto simp: fp8_to_fp32_bits_def fp32_positive_inf_def top32_def fp32_canonical_nan_def word32_def fits_def fp8_top_def)
  qed
  then show "fst (decode_fp8 b fmt) \<noteq> Fp_Nan \<Longrightarrow> decode_fp32 (fp8_to_fp32_bits b fmt) = decode_fp8 b fmt"
    "word32 (fp8_to_fp32_bits b fmt)"
    "fst (decode_fp8 b fmt) = Fp_Nan \<Longrightarrow> fp8_to_fp32_bits b fmt = fp32_canonical_nan" by blast+
qed

lemma fp8_join:
  assumes "s = 0 \<or> s = 1" "0 \<le> m" "m \<le> fp8_top fmt" "fmt = 0 \<or> fmt = 1"
  shows "fp8_finite fmt (s * 2 ^ 7 + m)" "fp8_value fmt (s * 2 ^ 7 + m) = signed_value s (fp8_mag fmt m)"
proof -
  have m: "m < 2 ^ 7" using assms(3) by (simp add: fp8_top_def split: if_splits)
  then have code: "fp8_code fmt (s * 2 ^ 7 + m)" using assms(1,2,4) by (auto simp: fp8_code_def fits_def)
  have "(s * 2 ^ 7 + m) div 2 ^ 7 = s" "(s * 2 ^ 7 + m) mod 2 ^ 7 = m" using m assms(2) by simp_all
  then show "fp8_finite fmt (s * 2 ^ 7 + m)" "fp8_value fmt (s * 2 ^ 7 + m) = signed_value s (fp8_mag fmt m)"
    using code assms(3) fp8_decode [OF code] fp8.V0
    by (auto simp: fp8_finite_def fp8_value_def fp8_expected_def Let_def signed_value_def)
qed

lemma fp8_finite_cases:
  assumes "fp8_finite fmt c"
  obtains s m where "s = 0 \<or> s = 1" "0 \<le> m" "m \<le> fp8_top fmt" "fp8_value fmt c = signed_value s (fp8_mag fmt m)" "c = s * 2 ^ 7 + m"
proof -
  have code: "fp8_code fmt c" using assms by (simp add: fp8_finite_def)
  note sp = fp8_split [OF code]
  have le: "c mod 2 ^ 7 \<le> fp8_top fmt"
    using assms fp8_decode [OF code] fp8.V0
    by (auto simp: fp8_finite_def fp8_expected_def Let_def fp8_top_def split: if_splits)
  have "fp8_value fmt c = signed_value (c div 2 ^ 7) (fp8_mag fmt (c mod 2 ^ 7))"
    using le fp8.V0 [of fmt] unfolding fp8_value_def fp8_decode [OF code] fp8_expected_def Let_def
    by (cases "c mod 2 ^ 7 = 0") (simp_all add: signed_value_def)
  with sp le that show thesis by metis
qed

subsection \<open>Narrowing is nearest, and saturates\<close>

lemma fp8_bracket:
  assumes "0 < x"
  shows "0 \<le> fp8_low fmt x" "fp8_mag fmt (fp8_low fmt x) \<le> x" "x < fp8_mag fmt (fp8_low fmt x + 1)"
  using low_index_brackets [OF assms] by (simp_all add: fp8_low_def fp8_mag_def)

lemma saturated_nearest:
  fixes s :: int
  assumes x: "0 < x" and c: "0 \<le> c" "c \<le> fp8_top fmt"
  defines "m \<equiv> rounded (fp8_mag fmt) RNE s x (fp8_low fmt x)"
  shows "\<bar>x - fp8_mag fmt (min m (fp8_top fmt))\<bar> \<le> \<bar>x - fp8_mag fmt c\<bar>"
proof (cases "m \<le> fp8_top fmt")
  case True
  then show ?thesis using fp8.nearest [OF fp8_bracket [OF x] c(1), where s = s] by (simp add: m_def)
next
  case False
  then have "fp8_top fmt \<le> fp8_low fmt x" by (simp add: m_def rounded_def split: if_splits)
  then have "fp8_mag fmt (fp8_top fmt) \<le> x"
    using fp8.V_le [of "fp8_top fmt" "fp8_low fmt x" fmt] c fp8_bracket(2) [OF x, of fmt] by simp
  moreover have "fp8_mag fmt c \<le> fp8_mag fmt (fp8_top fmt)" using c by (rule fp8.V_le)
  ultimately show ?thesis using False by simp
qed

lemma finite_decoded:
  assumes "word32 bits" "fst (decode_fp32 bits) = Fp_Finite"
  obtains s x where "decode_fp32 bits = (Fp_Finite, s, signed_value s x)" "fp32_value bits = signed_value s x" "0 < x" "s = 0 \<or> s = 1"
proof -
  note w = word32_split [OF assms(1)]
  have "bits mod 2 ^ 31 \<noteq> 0" using assms(2) decode_fp32_cases [OF assms(1)] by (auto split: if_splits)
  then have "0 < mag32 (bits mod 2 ^ 31)" using mag32.V_less [of 0 "bits mod 2 ^ 31"] w(3) mag32.V0 by simp
  then show thesis
    using that [of "bits div 2 ^ 31" "mag32 (bits mod 2 ^ 31)"] w(2) assms(2) decode_fp32_cases [OF assms(1)]
    by (auto simp: fp32_value_def split: if_splits)
qed

lemma narrow_parts:
  fixes rounding :: int
  assumes "fmt = 0 \<or> fmt = 1" "decode_fp32 bits = (Fp_Finite, s, signed_value s x)" "0 < x"
  defines "m \<equiv> rounded (fp8_mag fmt) rounding s x (fp8_low fmt x)"
  shows "fp32_to_fp8_bits bits fmt rounding =
    (s * 2 ^ 7 + min m (fp8_top fmt), of_bool (fp8_top fmt < m), of_bool (x \<noteq> fp8_mag fmt (fp8_low fmt x)))"
proof -
  have "signed_value s x \<noteq> 0" "\<bar>signed_value s x\<bar> = x" using assms(3) by (auto simp: signed_value_def)
  with narrow_result [OF assms(1,2), of rounding] show ?thesis by (simp add: m_def)
qed

lemma narrow_nearest:
  assumes w: "word32 bits" "fst (decode_fp32 bits) = Fp_Finite" and f: "fmt = 0 \<or> fmt = 1"
    and r: "fp32_to_fp8_bits bits fmt RNE = (r, overflow, inexact)"
  shows "fp8_finite fmt r" "fp8_finite fmt c \<Longrightarrow> \<bar>fp32_value bits - fp8_value fmt r\<bar> \<le> \<bar>fp32_value bits - fp8_value fmt c\<bar>"
    "overflow = 0 \<Longrightarrow> inexact = of_bool (fp8_value fmt r \<noteq> fp32_value bits)"
proof -
  obtain s x where d: "decode_fp32 bits = (Fp_Finite, s, signed_value s x)" "fp32_value bits = signed_value s x" "0 < x" "s = 0 \<or> s = 1"
    by (rule finite_decoded [OF w])
  define L where "L = fp8_low fmt x"
  define m where "m = rounded (fp8_mag fmt) RNE s x L"
  note br = fp8_bracket [OF d(3), of fmt, folded L_def]
  have res: "r = s * 2 ^ 7 + min m (fp8_top fmt)" "overflow = of_bool (fp8_top fmt < m)" "inexact = of_bool (x \<noteq> fp8_mag fmt L)"
    using narrow_parts [OF f d(1,3), of RNE] r by (simp_all add: m_def L_def)
  have m0: "0 \<le> min m (fp8_top fmt)" "min m (fp8_top fmt) \<le> fp8_top fmt"
    using br(1) by (auto simp: m_def rounded_def fp8_top_def)
  note j = fp8_join [OF d(4) m0 f, folded res(1)]
  show "fp8_finite fmt r" by (rule j(1))
  have y: "0 \<le> x" "0 \<le> fp8_mag fmt (min m (fp8_top fmt))" using d(3) fp8.V_nonneg [OF m0(1)] by simp_all
  have dist: "\<bar>fp32_value bits - fp8_value fmt r\<bar> = \<bar>x - fp8_mag fmt (min m (fp8_top fmt))\<bar>"
    unfolding d(2) j(2) using signed_distance [OF d(4) d(4) y] by simp
  note near = saturated_nearest [OF d(3), where fmt = fmt and s = s, folded L_def, folded m_def]
  show "\<bar>fp32_value bits - fp8_value fmt r\<bar> \<le> \<bar>fp32_value bits - fp8_value fmt c\<bar>" if c: "fp8_finite fmt c"
  proof -
    obtain s' mc where mc: "s' = 0 \<or> s' = 1" "0 \<le> mc" "mc \<le> fp8_top fmt" "fp8_value fmt c = signed_value s' (fp8_mag fmt mc)"
      using fp8_finite_cases [OF c] by metis
    have "\<bar>fp32_value bits - fp8_value fmt c\<bar> = (if s = s' then \<bar>x - fp8_mag fmt mc\<bar> else x + fp8_mag fmt mc)"
      unfolding d(2) mc(4) by (rule signed_distance [OF d(4) mc(1) y(1) fp8.V_nonneg [OF mc(2)]])
    moreover have "\<bar>x - fp8_mag fmt (min m (fp8_top fmt))\<bar> \<le> \<bar>x - fp8_mag fmt 0\<bar>" by (rule near) (simp_all add: fp8_top_def)
    then have "\<bar>x - fp8_mag fmt (min m (fp8_top fmt))\<bar> \<le> x + fp8_mag fmt mc"
      using fp8.V0 [of fmt] fp8.V_nonneg [OF mc(2), of fmt] y(1) by simp
    ultimately show ?thesis unfolding dist using near [OF mc(2,3)] by simp
  qed
  show "inexact = of_bool (fp8_value fmt r \<noteq> fp32_value bits)" if "overflow = 0"
  proof -
    have "min m (fp8_top fmt) = m" using that res(2) by simp
    moreover have "x = fp8_mag fmt L \<longleftrightarrow> x = fp8_mag fmt m"
      using br by (auto simp: m_def rounded_def up_step_def)
    ultimately show ?thesis using j(2) res(3) d(2) by (auto simp: signed_value_def)
  qed
qed

subsection \<open>Round trip\<close>

lemma fp8_low_exact:
  assumes "0 < m"
  shows "fp8_low fmt (fp8_mag fmt m) = m"
proof -
  have x: "0 < fp8_mag fmt m" using fp8.V_less [of 0 m fmt] assms fp8.V0 [of fmt] by simp
  note b = fp8_bracket [OF x, of fmt]
  have "fp8_low fmt (fp8_mag fmt m) \<le> m" "m < fp8_low fmt (fp8_mag fmt m) + 1"
    using b assms fp8.V_le_iff [of "fp8_low fmt (fp8_mag fmt m)" m fmt]
      fp8.V_less_iff [of m "fp8_low fmt (fp8_mag fmt m) + 1" fmt] by simp_all
  then show ?thesis by simp
qed

lemma fp8_round_trip:
  assumes code: "fp8_code fmt b" and n: "fst (decode_fp8 b fmt) \<noteq> Fp_Nan"
  shows "fp32_to_fp8_bits (fp8_to_fp32_bits b fmt) fmt rounding = (b, 0, 0)"
proof -
  let ?w = "fp8_to_fp32_bits b fmt"
  have f: "fmt = 0 \<or> fmt = 1" using code by (simp add: fp8_code_def)
  define s where "s = b div 2 ^ 7"
  define m where "m = b mod 2 ^ 7"
  note sp = fp8_split [OF code, folded s_def m_def]
  have dec: "decode_fp32 ?w = fp8_expected b fmt" using fp8_decode [OF code] fp8_widen(1) [OF code] n by simp
  have bits: "push_bit 7 s OR m = b" using push_or_fp8 [of m s] sp by simp
  consider (zero) "m = 0" | (finite) "0 < m" "m \<le> fp8_top fmt" | (inf) "fp8_top fmt < m" "fmt = 1" "m = 0x7C"
    using n sp(3) fp8_decode [OF code, unfolded fp8_expected_def Let_def, folded s_def m_def]
    by (cases "m = 0"; cases "m \<le> fp8_top fmt"; cases "fmt = 1 \<and> m = 0x7C") auto
  then show ?thesis
  proof cases
    case zero
    then have "decode_fp32 ?w = (Fp_Zero, s, 0)" using dec by (simp add: fp8_expected_def Let_def s_def m_def)
    then show ?thesis using bits zero by (simp add: fp32_to_fp8_bits_def)
  next
    case inf
    then have "decode_fp32 ?w = (Fp_Inf, s, 0)"
      using dec by (simp add: fp8_expected_def Let_def s_def m_def fp8_top_def)
    then show ?thesis using bits inf by (simp add: fp32_to_fp8_bits_def)
  next
    case finite
    then have d: "decode_fp32 ?w = (Fp_Finite, s, signed_value s (fp8_mag fmt m))"
      using dec by (simp add: fp8_expected_def Let_def s_def m_def)
    have x: "0 < fp8_mag fmt m" using fp8.V_less [of 0 m fmt] finite(1) fp8.V0 [of fmt] by simp
    show ?thesis
      unfolding narrow_parts [OF f d x] fp8_low_exact [OF finite(1)]
      using finite sp(1) by (simp add: rounded_def up_step_def)
  qed
qed

end
