(* ===== verification/Fp_Approx.thy ===== *)
theory Fp_Approx
  imports Fp_Result
begin

section \<open>NPU vector unit: reciprocal, inverse square root and exponential\<close>

text \<open>
  \<open>fp32_recip_reference.py\<close>, \<open>fp32_rsqrt_reference.py\<close> and \<open>fp32_exp_reference.py\<close> under
  \<open>verification/npu/compute/models\<close>: the bit patterns the approximation units return, by linear interpolation in a table of
  anchors with a product rounded half to even.
\<close>

definition recip_anchors :: "int list" where
  "recip_anchors = [0x800000, 0x787878, 0x71C71C, 0x6BCA1B, 0x666666, 0x618618, 0x5D1746, 0x590B21, 0x555555, 0x51EB85,
     0x4EC4EC, 0x4BDA13, 0x492492, 0x469EE6, 0x444444, 0x421084, 0x400000]"

definition reciprocal_approx_bits :: "int \<Rightarrow> int \<Rightarrow> int \<times> int" where
  "reciprocal_approx_bits data_bits invalid_in =
     (let sign = drop_bit 31 data_bits AND 1;
          exponent = drop_bit 23 data_bits AND 0xFF;
          fraction = data_bits AND 0x7FFFFF;
          magnitude = data_bits AND 0x7FFFFFFF;
          is_nan = exponent = 0xFF \<and> fraction \<noteq> 0;
          is_inf = exponent = 0xFF \<and> fraction = 0;
          is_zero = magnitude = 0;
          invalid = of_bool (invalid_in \<noteq> 0)
      in if is_nan then (0x7FC00000, 1)
         else if sign \<noteq> 0 then (0x7FC00000, 1)
         else if is_inf then (0, invalid)
         else if is_zero then (0x7F800000, 1)
         else if data_bits < 0x3F800000 then (0x3F800000, 1)
         else if data_bits > 0x41800000 then (0, 1)
         else
           let segment = drop_bit 19 fraction;
               remainder = drop_bit 7 fraction AND 0xFFF;
               high = recip_anchors ! nat segment;
               low = recip_anchors ! nat (segment + 1);
               product = (high - low) * remainder;
               increment = of_bool (drop_bit 11 product AND 1 \<noteq> 0 \<and>
                 (product AND 0x7FF \<noteq> 0 \<or> drop_bit 12 product AND 1 \<noteq> 0));
               correction = drop_bit 12 product + increment;
               interpolated = high - correction;
               unbiased_exponent = exponent - 127;
               (significand, biased_exponent) =
                 (if interpolated = 0x800000 then (interpolated, 127 - unbiased_exponent)
                  else (push_bit 1 interpolated AND 0xFFFFFF, 126 - unbiased_exponent));
               r = push_bit 23 (biased_exponent AND 0xFF) OR (significand AND 0x7FFFFF)
           in (r, invalid))"

definition even_anchors :: "int list" where
  "even_anchors = [0x800000, 0x7C2DA1, 0x78ADF7, 0x7575FB, 0x727C97, 0x6FBA41, 0x6D28A5, 0x6AC267, 0x6882F6, 0x666666,
     0x646956, 0x6288D1, 0x60C248, 0x5F1376, 0x5D7A5D, 0x5BF53A, 0x5A827A]"

definition odd_anchors :: "int list" where
  "odd_anchors = [0x5A827A, 0x57CEAA, 0x555555, 0x530EB0, 0x50F44E, 0x4F00D9, 0x4D2FD9, 0x4B7D83, 0x49E69D, 0x486861,
     0x47006B, 0x45ACA4, 0x446B3C, 0x433A99, 0x421953, 0x410629, 0x400000]"

definition rsqrt_approx_bits :: "int \<Rightarrow> int \<Rightarrow> int \<times> int" where
  "rsqrt_approx_bits data_bits invalid_in =
     (let sign = drop_bit 31 data_bits AND 1;
          exponent = drop_bit 23 data_bits AND 0xFF;
          fraction = data_bits AND 0x7FFFFF;
          magnitude = data_bits AND 0x7FFFFFFF;
          invalid = of_bool (invalid_in \<noteq> 0)
      in if exponent = 0xFF \<and> fraction \<noteq> 0 then (0x7FC00000, 1)
         else if sign \<noteq> 0 \<and> magnitude \<noteq> 0 then (0x7FC00000, 1)
         else if magnitude = 0 then (0x7F800000, 1)
         else if exponent = 0 then (0x7F800000, 1)
         else if exponent = 0xFF then (0, invalid)
         else
           let unbiased_exponent = exponent - 127;
               exponent_odd = unbiased_exponent AND 1;
               anchors = (if exponent_odd \<noteq> 0 then odd_anchors else even_anchors);
               segment = drop_bit 19 fraction;
               remainder = drop_bit 7 fraction AND 0xFFF;
               high = anchors ! nat segment;
               low = anchors ! nat (segment + 1);
               product = (high - low) * remainder;
               truncated = drop_bit 12 product;
               tail = product AND 0xFFF;
               increment = of_bool (tail > 0x800 \<or> (tail = 0x800 \<and> truncated AND 1 \<noteq> 0));
               interpolated = high - truncated - increment;
               exponent_half_floor = unbiased_exponent div 2;
               (biased_exponent, fraction_out) =
                 (if interpolated = 0x800000 then (127 - exponent_half_floor, 0)
                  else (126 - exponent_half_floor, push_bit 1 interpolated AND 0x7FFFFF))
           in (push_bit 23 biased_exponent OR fraction_out, invalid))"

definition exp_anchors :: "int list" where
  "exp_anchors = [0x800000, 0x7A92BF, 0x756063, 0x70666F, 0x6BA27E, 0x671246, 0x62B395, 0x5E8452, 0x5A827A, 0x56AC1F,
     0x52FF6B, 0x4F7A99, 0x4C1BF8, 0x48E1EA, 0x45CAE1, 0x42D562, 0x400000]"

definition exp_approx_bits :: "int \<Rightarrow> int \<Rightarrow> int \<times> int" where
  "exp_approx_bits data_bits invalid_in =
     (let sign = drop_bit 31 data_bits AND 1;
          exponent = drop_bit 23 data_bits AND 0xFF;
          fraction = data_bits AND 0x7FFFFF;
          magnitude = data_bits AND 0x7FFFFFFF;
          is_nan = exponent = 0xFF \<and> fraction \<noteq> 0;
          is_inf = exponent = 0xFF \<and> fraction = 0;
          is_zero = magnitude = 0;
          positive_nonzero = sign = 0 \<and> \<not> is_zero;
          below_range = sign = 1 \<and> magnitude > 0xC1800000 AND 0x7FFFFFFF;
          invalid = of_bool (invalid_in \<noteq> 0)
      in if is_nan then (0x7FC00000, 1)
         else if is_inf then (if sign \<noteq> 0 then (0, invalid) else (0x3F800000, 1))
         else if is_zero then (0x3F800000, invalid)
         else if positive_nonzero then (0x3F800000, 1)
         else if below_range then (0, invalid)
         else
           let magnitude_q16 = (if 111 \<le> exponent \<and> exponent \<le> 131
                  then drop_bit (nat (134 - exponent)) (push_bit 23 1 OR fraction) else 0);
               range_product = magnitude_q16 * 94548;
               range_increment = of_bool (drop_bit 15 range_product AND 1 \<noteq> 0 \<and>
                 (range_product AND 0x7FFF \<noteq> 0 \<or> drop_bit 16 range_product AND 1 \<noteq> 0));
               range_q16 = drop_bit 16 range_product + range_increment;
               integer_part = drop_bit 16 range_q16;
               fraction_part = range_q16 AND 0xFFFF;
               segment = drop_bit 12 fraction_part;
               remainder = fraction_part AND 0xFFF;
               high = exp_anchors ! nat segment;
               low = exp_anchors ! nat (segment + 1);
               interpolation_product = (high - low) * remainder;
               interpolation_increment = of_bool (drop_bit 11 interpolation_product AND 1 \<noteq> 0 \<and>
                 (interpolation_product AND 0x7FF \<noteq> 0 \<or> drop_bit 12 interpolation_product AND 1 \<noteq> 0));
               correction = drop_bit 12 interpolation_product + interpolation_increment;
               interpolated = high - correction;
               (significand, biased_exponent) =
                 (if fraction_part = 0 then (interpolated, 127 - integer_part)
                  else (push_bit 1 interpolated AND 0xFFFFFF, 126 - integer_part));
               r = push_bit 23 (biased_exponent AND 0xFF) OR (significand AND 0x7FFFFF)
           in (r, invalid))"


lemma approx_samples:
  "reciprocal_approx_bits 0x40400000 0 = (0x3EAAAAAA, 0)"
  "rsqrt_approx_bits 0x40800000 0 = (0x3F000000, 0)"
  "exp_approx_bits 0xBF800000 0 = (0x3EBC5E56, 0)"
  by code_simp+

subsection \<open>Interpolation\<close>

text \<open>A quotient by \<open>2 ^ 12\<close> rounded half to even, and the interpolation step of the three units.\<close>

definition rne12 :: "int \<Rightarrow> int" where
  "rne12 q = q div 4096 + of_bool (2048 < q mod 4096 \<or> (q mod 4096 = 2048 \<and> odd (q div 4096)))"

definition interp_at :: "int list \<Rightarrow> nat \<Rightarrow> int \<Rightarrow> int" where
  "interp_at anchors seg r = anchors ! seg - rne12 ((anchors ! seg - anchors ! (seg + 1)) * r)"

lemma rne12_mono: "q \<le> q' \<Longrightarrow> rne12 q \<le> rne12 q'"
proof -
  assume le: "q \<le> q'"
  then have d: "q div 4096 \<le> q' div 4096" by (rule zdiv_mono1) simp
  show ?thesis
  proof (cases "q div 4096 = q' div 4096")
    case True
    with le have "q mod 4096 \<le> q' mod 4096" using div_mult_mod_eq [of q 4096] div_mult_mod_eq [of q' 4096] by linarith
    with True show ?thesis by (auto simp: rne12_def)
  next
    case False
    with d show ?thesis by (simp add: rne12_def)
  qed
qed

lemma half_even:
  assumes "x = 0 \<or> x = 1" "y = 0 \<or> y = 1" "0 \<le> t" "t < (2048 :: int)"
  shows "x \<noteq> 0 \<and> (t \<noteq> 0 \<or> y \<noteq> 0) \<longleftrightarrow> 2048 < 2048 * x + t \<or> (2048 * x + t = 2048 \<and> y = (1 :: int))"
  using assms by (elim disjE) auto

lemma rne12_bits:
  fixes q :: int
  shows "(drop_bit 11 q AND 1 \<noteq> 0 \<and> (q AND 0x7FF \<noteq> 0 \<or> drop_bit 12 q AND 1 \<noteq> 0)) \<longleftrightarrow>
    2048 < q mod 4096 \<or> (q mod 4096 = 2048 \<and> odd (q div 4096))"
proof -
  have m: "q AND 0x7FF = q mod 2048" using and_mask_mod [of q 11] by simp
  have h: "drop_bit 11 q AND 1 = q div 2048 mod 2" "drop_bit 12 q AND 1 = q div 4096 mod 2"
    by (simp_all add: field_mods drop_bit_eq_div)
  have q: "q mod 4096 = 2048 * (q div 2048 mod 2) + q mod 2048" using zmod_zmult2_eq [of 2 q 2048] by simp
  show ?thesis
    unfolding m h q odd_iff_mod_2_eq_one by (rule half_even) auto
qed

lemma rne12_code:
  "drop_bit 12 q + of_bool (drop_bit 11 q AND 1 \<noteq> 0 \<and> (q AND 0x7FF \<noteq> 0 \<or> drop_bit 12 q AND 1 \<noteq> 0)) = rne12 q"
  unfolding rne12_bits rne12_def by (simp add: drop_bit_eq_div)

lemma rne12_tail:
  "drop_bit 12 q + of_bool (q AND 0xFFF > 0x800 \<or> (q AND 0xFFF = 0x800 \<and> drop_bit 12 q AND 1 \<noteq> 0)) = rne12 q"
  using and_mask_mod [of q 12] by (simp add: rne12_def drop_bit_eq_div field_mods odd_iff_mod_2_eq_one)

lemma interp_antitone:
  assumes "anchors ! (seg + 1) \<le> anchors ! seg" "r \<le> r'"
  shows "interp_at anchors seg r' \<le> interp_at anchors seg r"
  unfolding interp_at_def using assms by (intro diff_left_mono rne12_mono mult_left_mono) auto

text \<open>
  Between two neighbouring multiples of 256 of the remainder the significand changes by at most one part in 256, so a check
  of the 16 cells of each segment decides the error of every input.
\<close>

definition cell :: "nat \<Rightarrow> nat \<Rightarrow> int" where
  "cell seg j = 2 ^ 23 + int seg * 2 ^ 19 + int j * 2 ^ 15"

definition cells :: "(nat \<times> nat) list" where
  "cells = List.product [0..<16] [0..<16]"

definition in_cell :: "int \<Rightarrow> nat \<Rightarrow> nat \<Rightarrow> int \<Rightarrow> bool" where
  "in_cell fr seg j r \<longleftrightarrow> (seg, j) \<in> set cells \<and> drop_bit 19 fr = int seg \<and> r = drop_bit 7 fr AND 0xFFF \<and>
     256 * int j \<le> r \<and> r \<le> 256 * int j + 255 \<and> cell seg j \<le> 2 ^ 23 + fr \<and> 2 ^ 23 + fr \<le> cell seg j + 32767"

lemma find_cell:
  assumes "0 \<le> fr" "fr < 2 ^ 23"
  shows "\<exists>seg j r. in_cell fr seg j r"
proof -
  define s where "s = fr div 2 ^ 19"
  define r where "r = fr div 2 ^ 7 mod 2 ^ 12"
  define j where "j = r div 256"
  have "fr div 2 ^ 19 = fr div 2 ^ 7 div 2 ^ 12" using zdiv_zmult2_eq [of "2 ^ 12" fr "2 ^ 7"] by simp
  then have "fr div 2 ^ 7 = s * 2 ^ 12 + r" unfolding s_def r_def by simp
  then have fr: "fr = s * 2 ^ 19 + r * 2 ^ 7 + fr mod 2 ^ 7" "0 \<le> fr mod 2 ^ 7" "fr mod 2 ^ 7 < 2 ^ 7"
    using div_mult_mod_eq [of fr "2 ^ 7"] by (simp_all add: algebra_simps)
  have r: "0 \<le> r" "r < 4096" by (simp_all add: r_def)
  have b: "0 \<le> s" "s < 16" "0 \<le> j" "j < 16" "256 * j \<le> r" "r \<le> 256 * j + 255"
    using assms r div_mult_mod_eq [of r 256] by (auto simp: s_def j_def pos_imp_zdiv_nonneg_iff intro!: div_below)
  have "r = drop_bit 7 fr AND 0xFFF" using and_mask_mod [of "drop_bit 7 fr" 12] by (simp add: r_def drop_bit_eq_div)
  then have "in_cell fr (nat s) (nat j) r"
    unfolding in_cell_def cells_def cell_def using b fr by (auto simp: drop_bit_eq_div s_def [symmetric])
  then show ?thesis by blast
qed

subsection \<open>The reciprocal is within its contract\<close>

definition recip_cell_ok :: "nat \<Rightarrow> nat \<Rightarrow> bool" where
  "recip_cell_ok seg j \<longleftrightarrow>
     (let hi = interp_at recip_anchors seg (256 * int j); lo = interp_at recip_anchors seg (256 * int j + 255)
      in recip_anchors ! (seg + 1) \<le> recip_anchors ! seg \<and> 2 ^ 22 \<le> lo \<and> hi \<le> 2 ^ 23 \<and>
         995 * 2 ^ 46 \<le> 1000 * (lo * cell seg j) \<and> 1000 * (hi * (cell seg j + 32767)) \<le> 1005 * 2 ^ 46)"

lemma recip_cells: "list_all (\<lambda>(seg, j). recip_cell_ok seg j) cells"
  by code_simp

lemma recip_in_range:
  assumes "word32 b" "0x3F800000 \<le> b" "b \<le> 0x41800000"
  defines "ex \<equiv> b div 2 ^ 23" and "fr \<equiv> b mod 2 ^ 23"
  assumes c: "in_cell fr seg j r"
  defines "i \<equiv> interp_at recip_anchors seg r"
  assumes i: "2 ^ 22 \<le> i" "i \<le> 2 ^ 23"
  shows "snd (reciprocal_approx_bits b invalid_in) = of_bool (invalid_in \<noteq> 0)"
    "fst (reciprocal_approx_bits b invalid_in) =
      (if i = 2 ^ 23 then (254 - ex) * 2 ^ 23 else (253 - ex) * 2 ^ 23 + (2 * i - 2 ^ 23))"
proof -
  have w: "b = ex * 2 ^ 23 + fr" "0 \<le> fr" "fr < 2 ^ 23" "127 \<le> ex" "ex \<le> 131"
    using assms(2,3) div_mult_mod_eq [of b "2 ^ 23"] by (auto simp: ex_def fr_def)
  have f: "drop_bit 31 b AND 1 = 0" "drop_bit 23 b AND 0xFF = ex" "b AND 0x7FFFFF = fr" "b AND 0x7FFFFFFF = b"
    using w assms(2,3) by (simp_all add: field_mods drop_bit_eq_div ex_def fr_def)
  have seg: "nat (drop_bit 19 fr) = seg" "nat (drop_bit 19 fr + 1) = seg + 1" "drop_bit 7 fr AND 0xFFF = r"
    using c by (simp_all add: in_cell_def nat_add_distrib)
  have n: "ex \<noteq> 255" "b \<noteq> 0" "\<not> b < 0x3F800000" "\<not> b > 0x41800000" using w(5) assms(2,3) by simp_all
  note code = reciprocal_approx_bits_def Let_def f seg rne12_code
  have p: "reciprocal_approx_bits b invalid_in =
    (case (if i = 0x800000 then (i, 127 - (ex - 127)) else (push_bit 1 i AND 0xFFFFFF, 126 - (ex - 127))) of
       (significand, biased) \<Rightarrow> push_bit 23 (biased AND 0xFF) OR (significand AND 0x7FFFFF), of_bool (invalid_in \<noteq> 0))"
    unfolding code using n by (simp add: i_def interp_at_def)
  have low: "(254 - ex) AND 0xFF = 254 - ex" "(253 - ex) AND 0xFF = 253 - ex" using w(4,5) by (simp_all add: field_mods)
  show "snd (reciprocal_approx_bits b invalid_in) = of_bool (invalid_in \<noteq> 0)" by (simp add: p split_beta)
  show "fst (reciprocal_approx_bits b invalid_in) =
      (if i = 2 ^ 23 then (254 - ex) * 2 ^ 23 else (253 - ex) * 2 ^ 23 + (2 * i - 2 ^ 23))"
  proof (cases "i = 2 ^ 23")
    case True
    then show ?thesis by (simp add: p low push_bit_eq_mult)
  next
    case False
    then have b: "2 ^ 23 \<le> 2 * i" "2 * i < 2 ^ 24" using i by simp_all
    have m24: "(2 * i) AND 0xFFFFFF = 2 * i" using and_mask_mod [of "2 * i" 24] b i by simp
    have m23: "(2 * i) AND 0x7FFFFF = 2 * i - 2 ^ 23"
    proof -
      have "2 * i mod 2 ^ 23 = (2 * i - 2 ^ 23) mod 2 ^ 23" by simp
      also have "\<dots> = 2 * i - 2 ^ 23" using b by (intro mod_pos_pos_trivial) auto
      finally show ?thesis by (simp add: field_mods)
    qed
    have o: "push_bit 23 (253 - ex) OR (2 * i - 2 ^ 23) = (253 - ex) * 2 ^ 23 + (2 * i - 2 ^ 23)"
      by (rule push_or) (use b in \<open>simp add: fits_def\<close>)
    have e: "126 - (ex - 127) = 253 - ex" "push_bit 1 i = 2 * i" "(i = 0x800000) = False" using False by simp_all
    have "fst (reciprocal_approx_bits b invalid_in) = (253 - ex) * 2 ^ 23 + (2 * i - 2 ^ 23)"
      unfolding p by (simp only: e if_False prod.case low m24 m23 o fst_conv)
    with False show ?thesis by simp
  qed
qed

text \<open>The value of a normal pattern, and of the pattern that either branch assembles.\<close>

lemma normal_value:
  assumes "1 \<le> ex" "ex \<le> 254" "0 \<le> fr" "fr < 2 ^ 23"
  shows "fp32_finite (ex * 2 ^ 23 + fr)" "fp32_value (ex * 2 ^ 23 + fr) = of_int (2 ^ 23 + fr) / 2 ^ 23 * 2 powi (ex - 127)"
proof -
  have "ex * 2 ^ 23 \<le> 254 * 2 ^ 23" using assms(2) by simp
  then have m: "0 \<le> ex * 2 ^ 23 + fr" "ex * 2 ^ 23 + fr < 0x7F800000" using assms by simp_all
  show "fp32_finite (ex * 2 ^ 23 + fr)" using finite_join(1) [of 0, OF _ m] by simp
  show "fp32_value (ex * 2 ^ 23 + fr) = of_int (2 ^ 23 + fr) / 2 ^ 23 * 2 powi (ex - 127)"
    using finite_join(2) [of 0, OF _ m] mag32_normal [OF assms(3,4,1)] by (simp add: signed_value_def)
qed

lemma assembled_value:
  assumes "2 ^ 22 \<le> i" "i \<le> 2 ^ 23" "2 \<le> k" "k \<le> 254"
  defines "r \<equiv> (if i = 2 ^ 23 then k * 2 ^ 23 else (k - 1) * 2 ^ 23 + (2 * i - 2 ^ 23))"
  shows "fp32_finite r" "fp32_value r = of_int i / 2 ^ 23 * 2 powi (k - 127)"
proof -
  have half: "(2::rat) powi (k - 1 - 127) = 2 powi (k - 127) / 2"
    using powi_Suc [of "k - 1 - 127"] by simp
  have "fp32_finite r \<and> fp32_value r = of_int i / 2 ^ 23 * 2 powi (k - 127)"
  proof (cases "i = 2 ^ 23")
    case True
    then show ?thesis using normal_value [of k 0] assms(3,4) by (simp add: r_def)
  next
    case False
    then have "0 \<le> 2 * i - 2 ^ 23" "2 * i - 2 ^ 23 < 2 ^ 23" using assms(1,2) by simp_all
    note v = normal_value [OF _ _ this, of "k - 1"]
    have r: "r = (k - 1) * 2 ^ 23 + (2 * i - 2 ^ 23)" using False by (simp add: r_def)
    have "fp32_value r = of_int (2 * i) / 2 ^ 23 * 2 powi (k - 1 - 127)" unfolding r using v(2) assms(3,4) by simp
    then show ?thesis unfolding half r using v(1) assms(3,4) by (simp add: r)
  qed
  then show "fp32_finite r" "fp32_value r = of_int i / 2 ^ 23 * 2 powi (k - 127)" by blast+
qed

lemma cell_bounds:
  assumes c: "in_cell fr seg j r" and a: "anchors ! (seg + 1) \<le> anchors ! seg"
  shows "interp_at anchors seg (256 * int j + 255) \<le> interp_at anchors seg r"
    "interp_at anchors seg r \<le> interp_at anchors seg (256 * int j)"
    "cell seg j \<le> 2 ^ 23 + fr" "2 ^ 23 + fr \<le> cell seg j + 32767"
  using c by (auto simp: in_cell_def intro!: interp_antitone [OF a])

lemma scaled_product: "(a / 2 ^ 23 * p) * (c / 2 ^ 23 * q) = a * c / 2 ^ 46 * (p * q)" for a c p q :: rat
  by simp

lemma within_contract:
  assumes "995 * 2 ^ 46 \<le> 1000 * (n :: int)" "1000 * n \<le> 1005 * 2 ^ 46"
  shows "\<bar>of_int n / 2 ^ 46 - 1\<bar> \<le> (5 / 1000 :: rat)"
proof -
  have "(of_int (995 * 2 ^ 46) :: rat) \<le> of_int (1000 * n)" "(of_int (1000 * n) :: rat) \<le> of_int (1005 * 2 ^ 46)"
    using assms by (simp_all only: of_int_le_iff)
  then have "995 * 2 ^ 46 \<le> 1000 * (of_int n :: rat)" "1000 * (of_int n :: rat) \<le> 1005 * 2 ^ 46"
    unfolding of_int_mult of_int_numeral of_int_power by blast+
  then have "995 / 1000 \<le> of_int n / (2 ^ 46 :: rat)" "of_int n / (2 ^ 46 :: rat) \<le> 1005 / 1000"
    by (simp_all add: le_divide_eq divide_le_eq)
  then show ?thesis unfolding abs_le_iff by linarith
qed

lemma reciprocal_contract:
  assumes "word32 b" "0x3F800000 \<le> b" "b \<le> 0x41800000"
  shows "snd (reciprocal_approx_bits b invalid_in) = of_bool (invalid_in \<noteq> 0)"
    "fp32_finite (fst (reciprocal_approx_bits b invalid_in))"
    "\<bar>fp32_value (fst (reciprocal_approx_bits b invalid_in)) * fp32_value b - 1\<bar> \<le> 5 / 1000"
proof -
  define ex where "ex = b div 2 ^ 23"
  define fr where "fr = b mod 2 ^ 23"
  have w: "b = ex * 2 ^ 23 + fr" "0 \<le> fr" "fr < 2 ^ 23" "127 \<le> ex" "ex \<le> 131"
    using assms(2,3) div_mult_mod_eq [of b "2 ^ 23"] by (auto simp: ex_def fr_def)
  obtain seg j r where c: "in_cell fr seg j r" using find_cell [OF w(2,3)] by blast
  define i where "i = interp_at recip_anchors seg r"
  have "recip_cell_ok seg j" using c recip_cells by (auto simp: in_cell_def list_all_iff)
  then have ok: "recip_anchors ! (seg + 1) \<le> recip_anchors ! seg"
    "2 ^ 22 \<le> interp_at recip_anchors seg (256 * int j + 255)" "interp_at recip_anchors seg (256 * int j) \<le> 2 ^ 23"
    "995 * 2 ^ 46 \<le> 1000 * (interp_at recip_anchors seg (256 * int j + 255) * cell seg j)"
    "1000 * (interp_at recip_anchors seg (256 * int j) * (cell seg j + 32767)) \<le> 1005 * 2 ^ 46"
    unfolding recip_cell_ok_def Let_def by blast+
  note cb = cell_bounds [OF c ok(1), folded i_def]
  have i: "2 ^ 22 \<le> i" "i \<le> 2 ^ 23" using cb ok by simp_all
  have pos: "0 < cell seg j" by (simp add: cell_def)
  note code = recip_in_range [OF assms, folded ex_def fr_def, OF c, folded i_def, OF i, of invalid_in]
  show "snd (reciprocal_approx_bits b invalid_in) = of_bool (invalid_in \<noteq> 0)" by (rule code(1))
  have k: "fst (reciprocal_approx_bits b invalid_in) =
    (if i = 2 ^ 23 then (254 - ex) * 2 ^ 23 else ((254 - ex) - 1) * 2 ^ 23 + (2 * i - 2 ^ 23))"
    unfolding code(2) by simp
  note val = assembled_value [OF i, of "254 - ex", folded k]
  show "fp32_finite (fst (reciprocal_approx_bits b invalid_in))" using val(1) w(4,5) by simp
  have vb: "fp32_value b = of_int (2 ^ 23 + fr) / 2 ^ 23 * 2 powi (ex - 127)"
    unfolding w(1) by (rule normal_value(2)) (use w in simp_all)
  have "fp32_value (fst (reciprocal_approx_bits b invalid_in)) = of_int i / 2 ^ 23 * 2 powi (127 - ex)"
    using val(2) w(4,5) by simp
  then have "fp32_value (fst (reciprocal_approx_bits b invalid_in)) * fp32_value b =
    of_int i * of_int (2 ^ 23 + fr) / 2 ^ 46 * (2 powi (127 - ex) * 2 powi (ex - 127))"
    unfolding vb by (simp only: scaled_product)
  also have "(2::rat) powi (127 - ex) * 2 powi (ex - 127) = 1" by (simp flip: power_int_add)
  finally have prod: "fp32_value (fst (reciprocal_approx_bits b invalid_in)) * fp32_value b = of_int (i * (2 ^ 23 + fr)) / 2 ^ 46"
    by simp
  have "interp_at recip_anchors seg (256 * int j + 255) * cell seg j \<le> i * (2 ^ 23 + fr)"
    by (rule mult_mono [OF cb(1,3)]) (use i pos in simp_all)
  then have "995 * 2 ^ 46 \<le> 1000 * (i * (2 ^ 23 + fr))" using ok(4) by linarith
  moreover have "i * (2 ^ 23 + fr) \<le> interp_at recip_anchors seg (256 * int j) * (cell seg j + 32767)"
    by (rule mult_mono [OF cb(2,4)]) (use i cb w in simp_all)
  then have "1000 * (i * (2 ^ 23 + fr)) \<le> 1005 * 2 ^ 46" using ok(5) by linarith
  ultimately show "\<bar>fp32_value (fst (reciprocal_approx_bits b invalid_in)) * fp32_value b - 1\<bar> \<le> 5 / 1000"
    unfolding prod by (rule within_contract)
qed

subsection \<open>The inverse square root is within its contract\<close>

definition rsqrt_anchors :: "int \<Rightarrow> int list" where
  "rsqrt_anchors odd_part = (if odd_part \<noteq> 0 then odd_anchors else even_anchors)"

definition rsqrt_cell_ok :: "int \<Rightarrow> nat \<Rightarrow> nat \<Rightarrow> bool" where
  "rsqrt_cell_ok odd_part seg j \<longleftrightarrow>
     (let a = rsqrt_anchors odd_part; hi = interp_at a seg (256 * int j); lo = interp_at a seg (256 * int j + 255)
      in a ! (seg + 1) \<le> a ! seg \<and> 2 ^ 22 \<le> lo \<and> hi \<le> 2 ^ 23 \<and>
         995 ^ 2 * 2 ^ 69 \<le> 1000 ^ 2 * (lo * lo * cell seg j * (1 + odd_part)) \<and>
         1000 ^ 2 * (hi * hi * (cell seg j + 32767) * (1 + odd_part)) \<le> 1005 ^ 2 * 2 ^ 69)"

lemma rsqrt_cells: "list_all (\<lambda>(seg, j). rsqrt_cell_ok 0 seg j \<and> rsqrt_cell_ok 1 seg j) cells"
  by code_simp

lemma low_half:
  assumes "2 ^ 22 \<le> i" "i < (2 ^ 23 :: int)"
  shows "push_bit 1 i AND 0x7FFFFF = 2 * i - 2 ^ 23"
proof -
  have "2 * i mod 2 ^ 23 = (2 * i - 2 ^ 23) mod 2 ^ 23" by simp
  also have "\<dots> = 2 * i - 2 ^ 23" using assms by (intro mod_pos_pos_trivial) auto
  finally show ?thesis by (simp add: field_mods push_bit_eq_mult mult.commute)
qed

lemma rsqrt_in_range:
  assumes w: "b = ex * 2 ^ 23 + fr" "0 \<le> fr" "fr < 2 ^ 23" "1 \<le> ex" "ex \<le> 254" and c: "in_cell fr seg j r"
  defines "i \<equiv> interp_at (rsqrt_anchors ((ex - 127) mod 2)) seg r" and "k \<equiv> 127 - (ex - 127) div 2"
  assumes i: "2 ^ 22 \<le> i" "i \<le> 2 ^ 23"
  shows "rsqrt_approx_bits b invalid_in =
    (if i = 2 ^ 23 then k * 2 ^ 23 else (k - 1) * 2 ^ 23 + (2 * i - 2 ^ 23), of_bool (invalid_in \<noteq> 0))"
proof -
  have ex23: "ex * 2 ^ 23 \<le> 254 * 2 ^ 23" "2 ^ 23 \<le> ex * 2 ^ 23" using w(4,5) by simp_all
  then have b: "0 < b" "b < 2 ^ 31" using w by simp_all
  have "b div 2 ^ 23 = ex" "b mod 2 ^ 23 = fr" unfolding w(1) using w(2,3) by (simp_all add: mod_mult_self3 div_mult_self3)
  then have f: "drop_bit 31 b AND 1 = 0" "drop_bit 23 b AND 0xFF = ex" "b AND 0x7FFFFF = fr" "b AND 0x7FFFFFFF = b"
    using w(4,5) b by (simp_all add: field_mods drop_bit_eq_div)
  have seg: "nat (drop_bit 19 fr) = seg" "nat (drop_bit 19 fr + 1) = seg + 1" "drop_bit 7 fr AND 0xFFF = r"
    "(ex - 127) AND 1 = (ex - 127) mod 2"
    using c by (simp_all add: in_cell_def nat_add_distrib field_mods)
  have tail: "high - drop_bit 12 q - of_bool (q AND 0xFFF > 0x800 \<or> (q AND 0xFFF = 0x800 \<and> drop_bit 12 q AND 1 \<noteq> 0)) = high - rne12 q"
    for high q :: int
    using rne12_tail [of q] by linarith
  have n: "ex \<noteq> 255" "ex \<noteq> 0" "b \<noteq> 0" using w(4,5) b by simp_all
  have p: "rsqrt_approx_bits b invalid_in =
    (case (if i = 0x800000 then (k, 0) else (126 - (ex - 127) div 2, push_bit 1 i AND 0x7FFFFF)) of
       (biased, out) \<Rightarrow> push_bit 23 biased OR out, of_bool (invalid_in \<noteq> 0))"
    unfolding rsqrt_approx_bits_def Let_def f seg tail using n by (simp add: i_def interp_at_def rsqrt_anchors_def k_def split_beta)
  show ?thesis
  proof (cases "i = 2 ^ 23")
    case True
    then show ?thesis by (simp add: p push_bit_eq_mult)
  next
    case False
    then have low: "push_bit 1 i AND 0x7FFFFF = 2 * i - 2 ^ 23" using low_half [OF i(1)] i(2) by simp
    have "push_bit 23 (k - 1) OR (2 * i - 2 ^ 23) = (k - 1) * 2 ^ 23 + (2 * i - 2 ^ 23)"
      by (rule push_or) (use i False in \<open>simp add: fits_def\<close>)
    moreover have "126 - (ex - 127) div 2 = k - 1" "(i = 0x800000) = False" using False by (simp_all add: k_def)
    ultimately show ?thesis unfolding p using False by (simp only: low if_False prod.case)
  qed
qed

lemma within_square_contract:
  assumes "995 ^ 2 * 2 ^ 69 \<le> 1000 ^ 2 * (n :: int)" "1000 ^ 2 * n \<le> 1005 ^ 2 * 2 ^ 69"
  shows "(995 / 1000) ^ 2 \<le> (of_int n / 2 ^ 69 :: rat) \<and> of_int n / 2 ^ 69 \<le> (1005 / 1000 :: rat) ^ 2"
proof -
  have "(of_int (995 ^ 2 * 2 ^ 69) :: rat) \<le> of_int (1000 ^ 2 * n)" "(of_int (1000 ^ 2 * n) :: rat) \<le> of_int (1005 ^ 2 * 2 ^ 69)"
    using assms by (simp_all only: of_int_le_iff)
  then have "995 ^ 2 * 2 ^ 69 \<le> 1000 ^ 2 * (of_int n :: rat)" "1000 ^ 2 * (of_int n :: rat) \<le> 1005 ^ 2 * 2 ^ 69"
    unfolding of_int_mult of_int_numeral of_int_power by blast+
  then show ?thesis by (simp add: power_divide le_divide_eq divide_le_eq)
qed

lemma squared_product: "(i / 2 ^ 23 * p) ^ 2 * (c / 2 ^ 23 * q) = i * i * c / 2 ^ 69 * (p * p * q)" for i c p q :: rat
  by (simp add: power2_eq_square)

lemma rsqrt_contract:
  fixes invalid_in :: int
  assumes w: "b = ex * 2 ^ 23 + fr" "0 \<le> fr" "fr < 2 ^ 23" "1 \<le> ex" "ex \<le> 254"
  defines "y \<equiv> fst (rsqrt_approx_bits b invalid_in)"
  shows "snd (rsqrt_approx_bits b invalid_in) = of_bool (invalid_in \<noteq> 0)" "fp32_finite y" "0 < fp32_value y"
    "(995 / 1000) ^ 2 \<le> fp32_value y ^ 2 * fp32_value b \<and> fp32_value y ^ 2 * fp32_value b \<le> (1005 / 1000) ^ 2"
proof -
  define h where "h = (ex - 127) div 2"
  define t where "t = (ex - 127) mod 2"
  have t: "t = 0 \<or> t = 1" "ex - 127 = 2 * h + t" by (auto simp: t_def h_def)
  have k: "2 \<le> 127 - h" "127 - h \<le> 254" using w(4,5) t by auto
  obtain seg j r where c: "in_cell fr seg j r" using find_cell [OF w(2,3)] by blast
  define a where "a = rsqrt_anchors t"
  define i where "i = interp_at a seg r"
  define hi where "hi = interp_at a seg (256 * int j)"
  define lo where "lo = interp_at a seg (256 * int j + 255)"
  have "rsqrt_cell_ok t seg j" using c rsqrt_cells t(1) by (auto simp: in_cell_def list_all_iff)
  then have ok: "a ! (seg + 1) \<le> a ! seg" "2 ^ 22 \<le> lo" "hi \<le> 2 ^ 23"
    "995 ^ 2 * 2 ^ 69 \<le> 1000 ^ 2 * (lo * lo * cell seg j * (1 + t))"
    "1000 ^ 2 * (hi * hi * (cell seg j + 32767) * (1 + t)) \<le> 1005 ^ 2 * 2 ^ 69"
    unfolding rsqrt_cell_ok_def Let_def a_def lo_def hi_def by blast+
  note cb = cell_bounds [OF c ok(1), folded i_def lo_def hi_def]
  have i: "2 ^ 22 \<le> i" "i \<le> 2 ^ 23" "0 \<le> lo" "0 \<le> i" using cb ok by simp_all
  have pos: "0 \<le> cell seg j" "0 \<le> 1 + t" using t(1) by (auto simp: cell_def)
  note code = rsqrt_in_range [OF w c, folded t_def h_def a_def, folded i_def, OF i(1,2), of invalid_in]
  note val = assembled_value [OF i(1,2) k]
  have y: "y = (if i = 2 ^ 23 then (127 - h) * 2 ^ 23 else (127 - h - 1) * 2 ^ 23 + (2 * i - 2 ^ 23))"
    by (simp add: y_def code)
  show "snd (rsqrt_approx_bits b invalid_in) = of_bool (invalid_in \<noteq> 0)" by (simp add: code)
  show "fp32_finite y" unfolding y by (rule val(1))
  have vy: "fp32_value y = of_int i / 2 ^ 23 * 2 powi (- h)" unfolding y val(2) by simp
  have "0 < i" using i(1) by simp
  then show "0 < fp32_value y" unfolding vy by (simp add: zero_less_power_int)
  have vb: "fp32_value b = of_int (2 ^ 23 + fr) / 2 ^ 23 * 2 powi (ex - 127)"
    unfolding w(1) by (rule normal_value(2) [OF w(4,5,2,3)])
  have "(2::rat) powi (- h) * 2 powi (- h) * 2 powi (ex - 127) = 2 powi t"
    by (simp add: t(2) flip: power_int_add)
  also have "\<dots> = of_int (1 + t)" using t(1) by auto
  finally have prod: "fp32_value y ^ 2 * fp32_value b = of_int (i * i * (2 ^ 23 + fr) * (1 + t)) / 2 ^ 69"
    unfolding vy vb squared_product by simp
  have m1: "lo * lo * cell seg j * (1 + t) \<le> i * i * (2 ^ 23 + fr) * (1 + t)"
    using cb i pos by (intro mult_mono) auto
  have "995 ^ 2 * 2 ^ 69 \<le> 1000 ^ 2 * (i * i * (2 ^ 23 + fr) * (1 + t))"
    by (rule order_trans [OF ok(4)]) (rule mult_left_mono [OF m1], simp)
  moreover have m2: "i * i * (2 ^ 23 + fr) * (1 + t) \<le> hi * hi * (cell seg j + 32767) * (1 + t)"
    using cb i pos w(2) by (intro mult_mono) auto
  have "1000 ^ 2 * (i * i * (2 ^ 23 + fr) * (1 + t)) \<le> 1005 ^ 2 * 2 ^ 69"
    by (rule order_trans [OF _ ok(5)]) (rule mult_left_mono [OF m2], simp)
  ultimately show "(995 / 1000) ^ 2 \<le> fp32_value y ^ 2 * fp32_value b \<and> fp32_value y ^ 2 * fp32_value b \<le> (1005 / 1000) ^ 2"
    unfolding prod by (rule within_square_contract)
qed

end
