(* ===== verification/Props_Npu.thy ===== *)
theory Props_Npu
  imports Fp_Ops Fp_Eight Fp_Approx
begin

section \<open>Properties of the NPU vector unit\<close>

text \<open>
  Bit patterns are given in hexadecimal; \<open>fp32_value\<close> is the exact rational value of a finite pattern and
  \<open>correct_rounding v mode r\<close> says that \<open>r\<close> is what IEEE 754 prescribes for the real result \<open>v\<close>: the nearest number with ties
  to even (or infinity from the midpoint above the largest number), the least number above, the greatest below, or the
  nearest towards zero, with the sign of \<open>v\<close>.
\<close>

text \<open>C4: The binary32 product is correctly rounded in every mode: for finite non-zero operands the result is the correct
  rounding of the exact product, subnormal results and overflow included; the invalid flag is raised exactly when it came in
  or an infinity meets a zero, a NaN or such a product gives the canonical NaN, and the operands commute.\<close>

theorem fp32_product_correct:
  assumes "word32 a" "word32 b"
  shows "(fst (decode_fp32 a) = Fp_Finite \<and> fst (decode_fp32 b) = Fp_Finite \<longrightarrow>
      correct_rounding (fp32_value a * fp32_value b) rounding (fst (multiply_fp32 a b invalid_in rounding))) \<and>
    snd (multiply_fp32 a b invalid_in rounding) = of_bool (invalid_in \<noteq> 0 \<or> invalid_product a b) \<and>
    (nan_case a b \<or> invalid_product a b \<longrightarrow> fst (multiply_fp32 a b invalid_in rounding) = fp32_canonical_nan) \<and>
    multiply_fp32 a b invalid_in rounding = multiply_fp32 b a invalid_in rounding"
  using multiply_finite [OF assms] multiply_flag multiply_nan multiply_commute by blast

theorem fp32_product_correct_witness:
  "correct_rounding (fp32_value 0x00000003 * fp32_value 0x3F000000) RNE 2"
proof -
  have w: "word32 0x00000003" "word32 0x3F000000" by code_simp+
  have k: "fst (decode_fp32 0x00000003) = Fp_Finite" "fst (decode_fp32 0x3F000000) = Fp_Finite"
    and r: "fst (multiply_fp32 0x00000003 0x3F000000 0 RNE) = 2" by code_simp+
  show ?thesis using fp32_product_correct [OF w, of RNE 0] k unfolding r by blast
qed

text \<open>C32: The comparator orders binary32 numbers as the extended number line does: for operands that are not NaN exactly the
  flags of the real relation are set and the minimum and the maximum are operands with the smaller and the
  larger value; with a NaN only the unordered flag is set and the other operand is returned.\<close>

theorem fp32_compare_exact:
  assumes "word32 a" "word32 b"
  shows "(\<not> nan_case a b \<longrightarrow> compares a b (ordered_compare a b)) \<and>
    (nan_case a b \<longrightarrow> ordered_compare a b =
      (let m = if fst (decode_fp32 a) \<noteq> Fp_Nan then a else if fst (decode_fp32 b) \<noteq> Fp_Nan then b else fp32_canonical_nan
       in (0, 0, 0, 0, 0, 1, m, m)))"
  using ordered_compare_ranks [OF assms] ordered_compare_nan by blast

theorem fp32_compare_exact_witness:
  "compares 0xBF800000 0x80000000 (0, 1, 1, 0, 0, 0, 0xBF800000, 0x80000000)"
proof -
  have w: "word32 0xBF800000" "word32 0x80000000" and n: "\<not> nan_case 0xBF800000 0x80000000"
    and r: "ordered_compare 0xBF800000 0x80000000 = (0, 1, 1, 0, 0, 0, 0xBF800000, 0x80000000)" by code_simp+
  show ?thesis using fp32_compare_exact [OF w] n unfolding r by blast
qed

text \<open>C18: Narrowing a finite binary32 number to either FP8 format, rounding to nearest, returns a finite code that no other
  finite code of the format is closer to, also when it saturates; unless it saturates, the inexact flag says whether the value
  changed.\<close>

theorem fp8_narrow_nearest:
  assumes "word32 bits" "fst (decode_fp32 bits) = Fp_Finite" "fmt = 0 \<or> fmt = 1"
    and "fp32_to_fp8_bits bits fmt RNE = (r, overflow, inexact)"
  shows "fp8_finite fmt r \<and>
    (\<forall>c. fp8_finite fmt c \<longrightarrow> \<bar>fp32_value bits - fp8_value fmt r\<bar> \<le> \<bar>fp32_value bits - fp8_value fmt c\<bar>) \<and>
    (overflow = 0 \<longrightarrow> inexact = of_bool (fp8_value fmt r \<noteq> fp32_value bits))"
  using narrow_nearest [OF assms] by blast

theorem fp8_narrow_nearest_witness:
  "fp8_finite 0 0x7E \<and> \<bar>fp32_value 0x43F00000 - fp8_value 0 0x7E\<bar> \<le> \<bar>fp32_value 0x43F00000 - fp8_value 0 0x7D\<bar>"
proof -
  have w: "word32 0x43F00000" "fst (decode_fp32 0x43F00000) = Fp_Finite"
    and r: "fp32_to_fp8_bits 0x43F00000 0 RNE = (0x7E, 1, 0)" and c: "fp8_finite 0 0x7D" by code_simp+
  show ?thesis using fp8_narrow_nearest [OF w _ r] c by simp
qed

text \<open>C35: Widening loses nothing: a code of either FP8 format that is not a NaN becomes a binary32 number of the same kind, sign
  and value, and narrowing that number in any rounding mode gives the code back without raising a flag.\<close>

theorem fp8_round_trips:
  assumes "fp8_code fmt b" "fst (decode_fp8 b fmt) \<noteq> Fp_Nan"
  shows "decode_fp32 (fp8_to_fp32_bits b fmt) = decode_fp8 b fmt \<and>
    fp32_to_fp8_bits (fp8_to_fp32_bits b fmt) fmt rounding = (b, 0, 0)"
  using fp8_widen(1) [OF assms] fp8_round_trip [OF assms] by blast

theorem fp8_round_trips_witness:
  "fp32_to_fp8_bits (fp8_to_fp32_bits 0x83 1) 1 RUP = (0x83, 0, 0)"
proof -
  have c: "fp8_code 1 0x83" "fst (decode_fp8 0x83 1) \<noteq> Fp_Nan" by code_simp+
  show ?thesis using fp8_round_trips [OF c] by blast
qed

text \<open>C25: On its whole domain, from one to sixteen, the reciprocal unit keeps the contract that its script checks on samples: the
  result is finite and its relative error is at most half a percent, and the invalid flag is passed on.\<close>

theorem reciprocal_within_contract:
  assumes "word32 b" "0x3F800000 \<le> b" "b \<le> 0x41800000"
  shows "fp32_finite (fst (reciprocal_approx_bits b invalid_in)) \<and>
    snd (reciprocal_approx_bits b invalid_in) = of_bool (invalid_in \<noteq> 0) \<and>
    \<bar>fp32_value (fst (reciprocal_approx_bits b invalid_in)) * fp32_value b - 1\<bar> \<le> 5 / 1000"
  using reciprocal_contract [OF assms] by blast

theorem reciprocal_within_contract_witness:
  "\<bar>fp32_value (fst (reciprocal_approx_bits 0x40490FDB 0)) * fp32_value 0x40490FDB - 1\<bar> \<le> 5 / 1000"
proof -
  have w: "word32 0x40490FDB" by code_simp
  show ?thesis using reciprocal_within_contract [OF w] by simp
qed

text \<open>C24: For every positive normal number the inverse square root unit returns a positive number within half a percent of the
  exact value, stated without roots: the square of the result times the operand lies between the squares of 0.995 and
  1.005.\<close>

theorem rsqrt_within_contract:
  assumes "b = ex * 2 ^ 23 + fr" "0 \<le> fr" "fr < 2 ^ 23" "1 \<le> ex" "ex \<le> 254"
  shows "0 < fp32_value (fst (rsqrt_approx_bits b invalid_in)) \<and>
    snd (rsqrt_approx_bits b invalid_in) = of_bool (invalid_in \<noteq> 0) \<and>
    (995 / 1000) ^ 2 \<le> fp32_value (fst (rsqrt_approx_bits b invalid_in)) ^ 2 * fp32_value b \<and>
    fp32_value (fst (rsqrt_approx_bits b invalid_in)) ^ 2 * fp32_value b \<le> (1005 / 1000) ^ 2"
  using rsqrt_contract [OF assms] by blast

theorem rsqrt_within_contract_witness:
  "0 < fp32_value (fst (rsqrt_approx_bits 0x40490FDB 0)) \<and> fp32_value (fst (rsqrt_approx_bits 0x40490FDB 0)) ^ 2 * fp32_value 0x40490FDB \<le> (1005 / 1000) ^ 2"
proof -
  have b: "0x40490FDB = 128 * 2 ^ 23 + (0x490FDB :: int)" by simp
  show ?thesis using rsqrt_within_contract [OF b] by simp
qed

end
