(* ===== verification/Spec2Isabelle.thy ===== *)
theory Spec2Isabelle
  imports Props_Upli Props_Dl Props_Uart Props_Rs Props_Endpoint Props_Tl Props_Hbm Props_Kd Props_Npu
begin

text \<open>
  Verification of the reference models of the repository Overflow. The RTL of the repository is checked against these Python
  models, so the models are where its protocols and its arithmetic are decided. There are four: UALink 2.0
  (\<open>src/simulator/UAlink2.0/model\<close>, packages \<open>ualink\<close> and \<open>tl\<close>), the KDLink fabric (\<open>src/simulator/kdlink/model\<close>), the HBM
  memory (\<open>src/Library/models/hbm/hbm_model/model.py\<close>) and the arithmetic of the NPU vector unit
  (\<open>src/verification/npu/compute/models\<close>). File names below are relative to these directories.

  \<^bold>\<open>UALink.\<close> Six layers, from the accelerator to the wire.
  \<^item> The \<^emph>\<open>endpoint\<close> packs reads and writes into 128-bit request fields, executes them on byte memories and tracks
    tags until the response is retired (\<open>endpoint_*.py\<close>).
  \<^item> The \<^emph>\<open>UPLI\<close> interface carries beats on five channels of four time-divided ports under virtual-channel
    credit (\<open>upli_*.py\<close>, \<open>receive_fifo.py\<close>). The sender's burst engine owns a credit ledger and reserves credit at
    admission; the receiver owns FIFOs, receipts and return queues whose metadata become the sender's grants.
  \<^item> The \<^emph>\<open>transaction layer\<close> parses control words, admits a tenure only when the credit for all of it is there, orders its
    data half-flits, mirrors the credits at the receiver and publishes them back (\<open>tl/*.py\<close>).
  \<^item> The \<^emph>\<open>data link\<close> numbers flits, keeps them until they are acknowledged and replays them on request
    (\<open>dl_replay_*.py\<close>, \<open>dl_crc.py\<close>); control messages share the link under a two-level round robin
    (\<open>dl_message_*.py\<close>), among them the basic requests (\<open>dl_basic_*.py\<close>).
  \<^item> The \<^emph>\<open>UART stream\<close> is a firmware channel inside these messages with its own modulo-4096 credits, framing
    and reset sequence (\<open>uart_*.py\<close>).
  \<^item> The \<^emph>\<open>reconciliation sublayer\<close> cuts flits into 64-bit blocks and places alignment, rate and idle codewords by
    a calendar (\<open>rs_*.py\<close>); \<open>configuration.py\<close> holds the station arithmetic.

  \<^bold>\<open>The other models.\<close>
  \<^item> \<^emph>\<open>KDLink\<close> carries 640-bit flits with a CRC and a hop limit over scrambled lanes; bonded slices are put in order
    again; a global transaction finds its domain digit by digit and is replayed until its commit returns; collectives
    run over groups of domains.
  \<^item> The \<^emph>\<open>HBM\<close> accepts reads and writes per partition, reorders them for open rows, bus turnarounds and refresh under a
    byte budget per cycle, and corrects flipped bits.
  \<^item> The \<^emph>\<open>NPU vector unit\<close> multiplies and compares binary32 numbers, converts to and from FP8, and approximates the
    reciprocal, the inverse root and the exponential by straight pieces.

  \<^bold>\<open>How the code is modelled.\<close> A Python object is a record, a method a function from the object and its arguments
  to a result and the updated object; a method that may raise returns \<open>py_error + _\<close>, with the exception class
  on the left, and on the left there is no new state: each of these methods either validates before it writes,
  or the model returns the partly updated object explicitly beside the exception. Unbounded Python
  integers are \<open>int\<close>; registers keep their width by the \<open>mod\<close> or mask that the code writes (\<open>fld\<close> reads a
  bit field, \<open>fits\<close> is the width check). A dictionary is a map, read by \<open>dget\<close> where the code supplies a default; a deque
  is a list. Arguments of a wrong Python type are outside the model, except \<open>None\<close>, which is an option wherever the
  code tests for it. Python's \<open>Fraction\<close> is \<open>rat\<close>. Observers (\<open>outputs\<close>, \<open>observe\<close>, \<open>peek\<close>) are functions of the state.

  \<^bold>\<open>The library.\<close> \<open>Prelude\<close> has the exceptions, folds that stop at an exception, bit fields, maps with a
  default and the locales that the components share:
  \<^item> \<open>machine\<close>: a step and an invariant it keeps, hence an invariant of every run and reachable state;
  \<^item> \<open>flow\<close> (a \<open>machine\<close>): what enters is what leaves followed by what is held, lifted from a step to every run;
  \<^item> \<open>total_machine\<close> (a \<open>machine\<close>): on acceptable inputs a step does not raise, hence no run does;
  \<^item> \<open>watched\<close> (a \<open>machine\<close>): a specification automaton accepts every trace of the machine;
  \<^item> \<open>codec\<close>: decoding inverts encoding, hence the encoder is injective on legal values;
  \<^item> \<open>refines\<close>: every step of the code, raised or not, is a step of an abstract specification.
  \<open>Receive_Fifo\<close> adds \<open>bounded_queue\<close>, the contract of the FIFO on which the receive channel and the UART path rely, with a
  sublocale to \<open>flow\<close>; \<open>field_writer\<close> in \<open>Kd_Bits\<close> is the contract of a function that writes one field of a word, and
  \<open>magnitude_grid\<close> in \<open>Fp_Round\<close> the contract of a binary format on which all rounding rests. Each is interpreted on the model's own operations, in the theory of the component that
  provides them; a property is a fact of such an interpretation with its statement written out.

  \<^bold>\<open>Theories and code.\<close>
  \<^item> \<open>Upli_Connection\<close>, \<open>Upli_Credit\<close>, \<open>Upli_Tdm\<close>, \<open>Upli_Parity\<close>: the files of those names. \<open>ledger_step\<close> is one
    atomic edge of the sender's ledger, split as the code is into grants (\<open>ledger_grant\<close>), beats (\<open>ledger_beat\<close>) and
    the tests before them. Shown: handshake order, conservation of credit, no bypass, fault location.
  \<^item> \<open>Receive_Fifo\<close>, \<open>Upli_Init\<close> (\<open>upli_credit_initialization.py\<close>), \<open>Upli_Return\<close> (\<open>upli_credit_return.py\<close>), \<open>Upli_Receipt\<close>,
    \<open>Upli_Receive\<close>: the receiver. Shown: exact capacity, publication of exactly the capacity, metadata returned once
    and in order, receipts owned once, and that no internal assertion of the receive channel can fire.
  \<^item> \<open>Upli_Burst\<close>, \<open>Upli_Burst_Monitor\<close>, \<open>Upli_Burst_Payload\<close>: the burst sender over the ledger, the passive monitor
    and the payload staging. Shown: reserved credit always covers the mandatory data slots, the monitor
    accepts every trace of the sender, payload words keep their order.
  \<^item> \<open>Dl_Header\<close>, \<open>Dl_Crc\<close>, \<open>Dl_Receiver\<close>, \<open>Dl_Transmitter\<close>, \<open>Dl_Scheduler\<close>: one end of a replay link is a \<open>sched\<close>. Shown: the
    header round trips, the CRC detects bursts of 32 bits, the buffer is the unacknowledged run, deliveries are
    consecutive, two ends stay in step, and a replay request recovers exactly what was lost.
  \<^item> \<open>Dl_Arbiter\<close> (\<open>dl_message_scheduler.py\<close>), \<open>Dl_Service\<close> (\<open>dl_message_service.py\<close>): eleven FIFOs in three groups, and
    the analytic worst case. Shown: order and contiguity of messages; the bound is exact, the arbiter meets it and the
    search for a history ends.
  \<^item> \<open>Dl_Basic\<close>, \<open>Dl_Control\<close>: request ownership, and the clocked adapter, which never raises.
  \<^item> \<open>Uart_Credit\<close>, \<open>Uart_Tx\<close>, \<open>Uart_Rx\<close>, \<open>Uart_Path\<close>: the stream model, the staged source, the receive path and the
    composition of the last two. Shown: credits are sound under any delay, framing agrees through disables and
    resets, the words read are the words staged.
  \<^item> \<open>Uart_Reset\<close>, \<open>Uart_Reset_Control\<close>: the reset sequence and its clocked wrapper. Shown: what may appear on the wire
    between and across global resets, that no assertion fails, and that the compression of idle time equals single ticks.
  \<^item> \<open>Rs_Codec\<close>, \<open>Rs_Frame\<close>, \<open>Rs_Calendar\<close>, \<open>Pod_Configuration\<close>: blocks, the frame engine, the codeword calendar, and the
    layout arithmetic. Shown: block and flit round trips, whole frames, the wire follows the calendar through
    resets and phase loads although its register keeps 14 bits, exact rates, bijective indices.
  \<^item> \<open>Bit_Packing\<close>: layouts of packed words in general. \<open>Endpoint_Single\<close> (\<open>endpoint_transaction.py\<close>), \<open>Endpoint_Write\<close> and
    \<open>Endpoint_Backend\<close> (\<open>endpoint_write.py\<close>), \<open>Endpoint_Read\<close> and \<open>Endpoint_Collector\<close> (\<open>endpoint_read.py\<close>), \<open>Endpoint_Transfer\<close>
    (a write, then a read). Shown: exact codecs, tags and backend refine their specifications, a read returns what was written.
  \<^item> \<open>Tl_Tenure\<close>, \<open>Tl_Sequence\<close>, \<open>Tl_Context\<close>, \<open>Tl_Credit\<close>, \<open>Tl_Ledger\<close>: control words, half-flit order, credit metadata and
    admission. \<open>Tl_Receive\<close>, \<open>Tl_Return\<close>, \<open>Tl_Link\<close>: the receiver, and the transmitter joined to it. \<open>Tl_Publish\<close>,
    \<open>Tl_Publication\<close>: credits on their way back. \<open>Tl_Pack\<close>: cuts, packer and channels. Shown: what the transmitter validates
    the receiver takes, an admitted tenure never waits, credits come back once.
  \<^item> \<open>Kd_Bits\<close> (\<open>bitfields.py\<close>, \<open>crc.py\<close>), \<open>Kd_Protocol\<close> (\<open>protocol.py\<close>), \<open>Kd_Pcs\<close> (\<open>pcs.py\<close>), \<open>Kd_Bonding\<close> (\<open>bonding.py\<close>),
    \<open>Kd_Route\<close>, \<open>Kd_Transaction\<close>, \<open>Kd_Collective\<close> (\<open>multidomain.py\<close>, \<open>topology.py\<close>). Shown: exact flits, the hop limit counts
    hops, the descrambler synchronises itself, slices come out in order, digits lead to the destination, a
    transaction of one source is executed once if and only if the history depth is a multiple of the slot count (and
    \<open>replay_delivered_twice\<close>: not so with several sources).
  \<^item> \<open>Hbm_Config\<close>, \<open>Hbm_Model\<close>: the configuration and the model, one definition per method or loop. \<open>Hbm_Order\<close> is the
    specification (requests take effect in an order that no reader can tell from the order of acceptance), \<open>Hbm_Run\<close> keeps
    the invariant through every call, \<open>Hbm_Bounds\<close> the budgets, \<open>Hbm_Client\<close> puts them together for a client, \<open>Hbm_Ecc\<close>
    has addresses and error correction.
  \<^item> \<open>Fp_Number\<close> (\<open>vector_fp_reference.py\<close>), \<open>Fp_Round\<close>, \<open>Fp_Result\<close>, \<open>Fp_Ops\<close>, \<open>Fp_Eight\<close>: exact arithmetic and its rounding.
    \<open>Fp_Approx\<close> (\<open>fp32_*_reference.py\<close>): the approximations, with error bounds over whole domains by interval cells.
  \<^item> The theories \<open>Props_*\<close>: the forty properties, each with a witness where it has hypotheses, and further theorems of the same kind.

  \<^bold>\<open>Bounds and fuel.\<close> Loops over lists are structural recursion. Some loops of the code are driven by state: the
  search for a replay entry is bounded by the buffer, and \<open>transmitter_keeps_unacknowledged\<close> shows that it does not run
  out; the search over histories (\<open>prefix_search\<close>) is a partial function whose value \<open>None\<close> would be a search that never
  ends, and \<open>every_history_is_reachable\<close> shows that it returns for every legal history; bulk idle time recurses on the number of
  cycles; the issue loop of the HBM (\<open>issue_loop\<close>) recurses on the smaller of the issues allowed and one more than the length of the queue, which every turn shortens, and
  \<open>run_until_idle\<close> on its budget of cycles. The even-parity loop, \<open>bit_length\<close> and the release loop of the reorder
  buffer end by a measure.

  \<^bold>\<open>Not modelled.\<close> The exponential unit is modelled, but has examples and no error theorem, since its contract is stated with the
  real exponential of the host. The NPU kernels built on host floating point (softmax, GELU, SiLU, norm, MXFP), the NoC estimates
  and the KDLink planning tools (scale, chassis, traffic, performance) compute reports in floating point. Reading YAML
  files, the files of \<open>model/phy\<close> (copies of the \<open>rs_*.py\<close> files), and the scripts and test benches that drive simulators,
  formal tools, synthesis and releases are left out.
\<close>

end
